(* ===== verification/Prelude.thy ===== *)
theory Prelude
  imports
    "HOL-Library.Word"
    "HOL-Library.Char_ord"
    "HOL-Library.List_Lexorder"
    "HOL-Library.AList"
    "HOL-Library.Multiset"
begin

section \<open>Prelude: the Go fragment shared by every component\<close>

text \<open>
  Go strings and byte slices are sequences of bytes, and Isabelle's \<open>string\<close> is a list of
  \<open>char\<close>, which has exactly the 256 bytes: both are modelled by \<open>string\<close>, and \<open>length\<close> is
  Go's \<open>len\<close>. Sizes, positions and limits are \<open>int\<close> or \<open>nat\<close>; where 64-bit arithmetic can
  overflow the wrap-around is written out with \<open>wrap64\<close>. A \<open>context.Context\<close> is observed
  only through \<open>Err\<close>: \<open>ctx\<close> counts how many further calls of \<open>Err\<close> still return nil, so that
  a cancellation may fall between any two polls of the code and, as the context package
  documents, never goes away again. The theory also holds the association-list model of Go
  maps and the list lemmas the components share.
\<close>

named_theorems go_defs \<open>definitions of the Go fragment, unfolded by component proofs\<close>
named_theorems ctx_simps \<open>facts on cancellation polls\<close>

subsection \<open>Bytes, strings and slices\<close>

type_synonym bytes = string

abbreviation byte :: "char \<Rightarrow> nat" where
  "byte c \<equiv> of_char c"

lemma byte_less_256 [simp]: "byte c < 256"
  by (metis of_char_of nat_of_char_less_256)

definition go_slice :: "'a list \<Rightarrow> nat \<Rightarrow> nat \<Rightarrow> 'a list" where
  "go_slice xs i j = take (j - i) (drop i xs)"

lemma length_go_slice [simp]: "length (go_slice xs i j) = min (j - i) (length xs - i)"
  by (simp add: go_slice_def)

lemma slice_whole [simp]: "go_slice xs 0 (length xs) = xs"
  by (simp add: go_slice_def)

lemma slice_append_slice:
  "i \<le> j \<Longrightarrow> j \<le> k \<Longrightarrow> go_slice xs i j @ go_slice xs j k = go_slice xs i k"
proof -
  assume "i \<le> j" "j \<le> k"
  then have "k - i = (j - i) + (k - j)" and "drop j xs = drop (j - i) (drop i xs)"
    by simp_all
  then show ?thesis by (simp add: go_slice_def take_add)
qed

lemma slice_append_drop: "i \<le> j \<Longrightarrow> go_slice xs i j @ drop j xs = drop i xs"
proof -
  assume "i \<le> j"
  then have "drop j xs = drop (j - i) (drop i xs)" by simp
  then show ?thesis by (simp only: go_slice_def append_take_drop_id)
qed

definition len :: "'a list \<Rightarrow> int" where
  "len xs = int (length xs)"

lemma len_nonneg [simp]: "0 \<le> len xs"
  by (simp add: len_def)

definition HasPrefix :: "string \<Rightarrow> string \<Rightarrow> bool" where
  "HasPrefix s p \<longleftrightarrow> take (length p) s = p"

definition HasSuffix :: "string \<Rightarrow> string \<Rightarrow> bool" where
  "HasSuffix s p \<longleftrightarrow> length p \<le> length s \<and> drop (length s - length p) s = p"

definition CutPrefix :: "string \<Rightarrow> string \<Rightarrow> string option" where
  "CutPrefix s p = (if HasPrefix s p then Some (drop (length p) s) else None)"

fun Cut :: "string \<Rightarrow> char \<Rightarrow> (string \<times> string) option" where
  "Cut [] sep = None"
| "Cut (c # s) sep =
     (if c = sep then Some ([], s) else map_option (\<lambda>(k, v). (c # k, v)) (Cut s sep))"

definition ContainsByte :: "string \<Rightarrow> char \<Rightarrow> bool" where
  "ContainsByte s c \<longleftrightarrow> c \<in> set s"

definition ContainsAny :: "string \<Rightarrow> string \<Rightarrow> bool" where
  "ContainsAny s cs \<longleftrightarrow> list_ex (\<lambda>c. c \<in> set cs) s"

definition LastIndexByte :: "string \<Rightarrow> char \<Rightarrow> int" where
  "LastIndexByte s c =
     (if c \<in> set s then int (length s) - 1 - int (length (takeWhile (\<lambda>x. x \<noteq> c) (rev s))) else -1)"

definition ReplaceByte :: "string \<Rightarrow> char \<Rightarrow> char \<Rightarrow> string" where
  "ReplaceByte s old new = map (\<lambda>x. if x = old then new else x) s"

lemma HasPrefix_append [simp]: "HasPrefix (p @ s) p"
  by (simp add: HasPrefix_def)

lemma HasPrefixD: "HasPrefix s p \<Longrightarrow> s = p @ drop (length p) s"
  by (metis HasPrefix_def append_take_drop_id)

lemma CutPrefix_SomeD: "CutPrefix s p = Some v \<Longrightarrow> s = p @ v"
  by (auto simp: CutPrefix_def dest: HasPrefixD split: if_splits)

lemma Cut_Some: "Cut s sep = Some (k, v) \<Longrightarrow> s = k @ sep # v \<and> sep \<notin> set k"
  by (induction s arbitrary: k) (auto split: if_splits)

lemma Cut_None: "Cut s sep = None \<longleftrightarrow> sep \<notin> set s"
  by (induction s) auto

text \<open>The Go built-in \<open>copy(dst[off:], src)\<close>: overwrites from \<open>off\<close> as far as both reach.\<close>

definition copy_at :: "'a list \<Rightarrow> nat \<Rightarrow> 'a list \<Rightarrow> 'a list" where
  "copy_at dst off src =
     take off dst @ take (length dst - off) src @ drop (off + length src) dst"

lemma length_copy_at [simp]: "off \<le> length dst \<Longrightarrow> length (copy_at dst off src) = length dst"
  by (simp add: copy_at_def)

lemma nth_copy_at:
  assumes "k < length dst" and "off \<le> length dst"
  shows "copy_at dst off src ! k =
    (if off \<le> k \<and> k - off < length src then src ! (k - off) else dst ! k)"
proof -
  consider "k < off" | "off \<le> k" "k - off < length src" | "off + length src \<le> k"
    by linarith
  then show ?thesis
  proof cases
    case 1
    with assms show ?thesis by (simp add: copy_at_def nth_append)
  next
    case 2
    with assms have "k - off < length dst - off" by linarith
    with assms 2 show ?thesis by (simp add: copy_at_def nth_append)
  next
    case 3
    with assms have "min (length dst - off) (length src) = length src" by simp
    with assms 3 show ?thesis by (simp add: copy_at_def nth_append)
  qed
qed

subsection \<open>64-bit integers\<close>

definition MaxInt64 :: int where
  "MaxInt64 = 9223372036854775807"

definition wrap64 :: "int \<Rightarrow> int" where
  "wrap64 x = (x + 9223372036854775808) mod 18446744073709551616 - 9223372036854775808"

definition int64 :: "int \<Rightarrow> bool" where
  "int64 x \<longleftrightarrow> - 9223372036854775808 \<le> x \<and> x \<le> MaxInt64"

lemma wrap64_id: "int64 x \<Longrightarrow> wrap64 x = x"
  by (simp add: wrap64_def int64_def MaxInt64_def)

lemma wrap64_range: "int64 (wrap64 x)"
proof -
  have "0 \<le> (x + 9223372036854775808) mod 18446744073709551616"
    and "(x + 9223372036854775808) mod 18446744073709551616 < (18446744073709551616::int)"
    by simp_all
  then show ?thesis by (simp add: wrap64_def int64_def MaxInt64_def)
qed

subsection \<open>Contexts\<close>

text \<open>
  \<open>None\<close> is a context that is never cancelled; \<open>Some n\<close> is one whose \<open>Err\<close> returns nil for
  \<open>n\<close> more polls and an error from then on.
\<close>

type_synonym ctx = "nat option"

definition ctx_Err :: "ctx \<Rightarrow> bool \<times> ctx" where
  "ctx_Err c = (case c of None \<Rightarrow> (False, None)
     | Some n \<Rightarrow> if n = 0 then (True, Some 0) else (False, Some (n - 1)))"

lemma ctx_Err_live [simp, ctx_simps]: "ctx_Err None = (False, None)"
  by (simp add: ctx_Err_def)

lemma ctx_Err_canceled [simp, ctx_simps]: "ctx_Err (Some 0) = (True, Some 0)"
  by (simp add: ctx_Err_def)

lemma ctx_Err_True [ctx_simps]: "ctx_Err c = (True, c') \<Longrightarrow> c = Some 0 \<and> c' = Some 0"
  by (auto simp: ctx_Err_def split: option.splits if_splits)

text \<open>A context observed later has at most as many nil polls left.\<close>

fun ctx_le :: "ctx \<Rightarrow> ctx \<Rightarrow> bool" where
  "ctx_le _ None = True"
| "ctx_le None (Some _) = False"
| "ctx_le (Some m) (Some n) = (m \<le> n)"

subsection \<open>Validation loops\<close>

text \<open>A range loop that returns at the first element with an error.\<close>

fun first_error :: "('a \<Rightarrow> string option) \<Rightarrow> 'a list \<Rightarrow> string option" where
  "first_error f [] = None"
| "first_error f (x # xs) = (case f x of Some e \<Rightarrow> Some e | None \<Rightarrow> first_error f xs)"

lemma first_error_None: "first_error f xs = None \<Longrightarrow> x \<in> set xs \<Longrightarrow> f x = None"
  by (induction xs) (auto split: option.splits)

subsection \<open>Lists\<close>

lemma take_append_drop_mid: "i \<le> j \<Longrightarrow> take i xs @ go_slice xs i j = take j xs"
proof -
  assume "i \<le> j"
  then have "take j xs = take (i + (j - i)) xs" by simp
  also have "\<dots> = take i xs @ take (j - i) (drop i xs)" by (simp only: take_add)
  finally show ?thesis by (simp add: go_slice_def)
qed

lemma find_SomeD: "find P xs = Some x \<Longrightarrow> x \<in> set xs \<and> P x"
  by (induction xs) (auto split: if_splits)

lemma mod_once: "(a::nat) < 2 * c \<Longrightarrow> a mod c = (if a < c then a else a - c)"
  by (simp add: mod_if [of a c])

text \<open>The last \<open>n\<close> elements of a list, the specification of a bounded tail.\<close>

definition lastn :: "nat \<Rightarrow> 'a list \<Rightarrow> 'a list" where
  "lastn n xs = drop (length xs - n) xs"

lemma length_lastn [simp]: "length (lastn n xs) = min n (length xs)"
  by (simp add: lastn_def)

lemma lastn_all [simp]: "length xs \<le> n \<Longrightarrow> lastn n xs = xs"
  by (simp add: lastn_def)

lemma lastn_append_lastn: "lastn n (lastn n xs @ ys) = lastn n (xs @ ys)"
proof (cases "n \<le> length ys")
  case True
  then show ?thesis by (simp add: lastn_def)
next
  case False
  show ?thesis
  proof (cases "length xs \<le> n")
    case True
    then show ?thesis by simp
  next
    case long: False
    with False show ?thesis by (simp add: lastn_def add.commute)
  qed
qed

end
