(* ===== verification/Utf8.thy ===== *)
theory Utf8
  imports Prelude
begin

section \<open>The parts of unicode/utf8, unicode and strings the packages call\<close>

text \<open>
  Go's UTF-8 decoder and the predicates built on it. \<open>decode_rune\<close> is \<open>utf8.DecodeRune\<close>
  with the accept ranges of the second byte written out (no overlong forms, no surrogates,
  nothing above U+10FFFF); an ill-formed byte decodes as \<open>RuneError\<close> of size one. \<open>runes\<close>
  is what a \<open>range\<close> loop over a string visits, \<open>utf8_valid\<close> is \<open>utf8.ValidString\<close>, and
  \<open>ToValidUTF8\<close>, \<open>TrimSpace\<close> and \<open>IsControl\<close> are the library functions of the same name.
\<close>

definition RuneError :: nat where
  "RuneError = 0xFFFD"

definition cont_byte :: "char \<Rightarrow> bool" where
  "cont_byte c \<longleftrightarrow> 0x80 \<le> byte c \<and> byte c \<le> 0xBF"

definition second_ok :: "nat \<Rightarrow> char \<Rightarrow> bool" where
  "second_ok b0 c \<longleftrightarrow>
     (if b0 = 0xE0 then 0xA0 \<le> byte c \<and> byte c \<le> 0xBF
      else if b0 = 0xED then 0x80 \<le> byte c \<and> byte c \<le> 0x9F
      else if b0 = 0xF0 then 0x90 \<le> byte c \<and> byte c \<le> 0xBF
      else if b0 = 0xF4 then 0x80 \<le> byte c \<and> byte c \<le> 0x8F
      else cont_byte c)"

definition decode_rune :: "bytes \<Rightarrow> nat \<times> nat" where
  "decode_rune s =
     (case s of
        [] \<Rightarrow> (RuneError, 0)
      | c0 # t0 \<Rightarrow>
          let b0 = byte c0 in
          if b0 < 0x80 then (b0, 1)
          else if b0 < 0xC2 \<or> 0xF4 < b0 then (RuneError, 1)
          else (case t0 of
              [] \<Rightarrow> (RuneError, 1)
            | c1 # t1 \<Rightarrow>
                if \<not> second_ok b0 c1 then (RuneError, 1)
                else if b0 < 0xE0 then ((b0 - 0xC0) * 64 + (byte c1 - 0x80), 2)
                else (case t1 of
                    [] \<Rightarrow> (RuneError, 1)
                  | c2 # t2 \<Rightarrow>
                      if \<not> cont_byte c2 then (RuneError, 1)
                      else if b0 < 0xF0
                      then ((b0 - 0xE0) * 4096 + (byte c1 - 0x80) * 64 + (byte c2 - 0x80), 3)
                      else (case t2 of
                          [] \<Rightarrow> (RuneError, 1)
                        | c3 # t3 \<Rightarrow>
                            if \<not> cont_byte c3 then (RuneError, 1)
                            else ((b0 - 0xF0) * 262144 + (byte c1 - 0x80) * 4096
                                  + (byte c2 - 0x80) * 64 + (byte c3 - 0x80), 4)))))"

lemma decode_rune_Nil [simp]: "decode_rune [] = (RuneError, 0)"
  by (simp add: decode_rune_def)

lemma decode_rune_size:
  "s \<noteq> [] \<Longrightarrow> 1 \<le> snd (decode_rune s) \<and> snd (decode_rune s) \<le> min 4 (length s)"
  by (auto simp: decode_rune_def Let_def split: list.splits)

lemma decode_rune_ascii: "byte c < 0x80 \<Longrightarrow> decode_rune (c # s) = (byte c, 1)"
  by (simp add: decode_rune_def)

lemma decode_rune_append:
  "s \<noteq> [] \<Longrightarrow> \<not> (fst (decode_rune s) = RuneError \<and> snd (decode_rune s) = 1)
    \<Longrightarrow> decode_rune (s @ t) = decode_rune s"
  by (cases s; cases "tl s"; cases "tl (tl s)"; cases "tl (tl (tl s))")
     (simp_all add: decode_rune_def Let_def split: if_split_asm)

subsection \<open>Range loops and validity\<close>

function runes :: "bytes \<Rightarrow> (nat \<times> nat) list" where
  "runes s = (if s = [] then [] else decode_rune s # runes (drop (snd (decode_rune s)) s))"
  by pat_completeness auto
termination
proof (relation "measure length")
  fix s :: bytes
  assume "s \<noteq> []"
  with decode_rune_size [of s]
  show "(drop (snd (decode_rune s)) s, s) \<in> measure length" by auto
qed simp

declare runes.simps [simp del]

lemma runes_Nil [simp]: "runes [] = []"
  by (simp add: runes.simps)

lemma runes_step:
  "s \<noteq> [] \<Longrightarrow> runes s = decode_rune s # runes (drop (snd (decode_rune s)) s)"
  by (subst runes.simps) simp

lemma runes_code [code]:
  "runes [] = []"
  "runes (c # s) = (let d = decode_rune (c # s) in d # runes (drop (snd d) (c # s)))"
  by (simp_all add: runes_step Let_def)

lemma runes_ascii: "byte c < 0x80 \<Longrightarrow> runes (c # s) = (byte c, 1) # runes s"
  by (subst runes_step) (simp_all add: decode_rune_ascii)

definition rune_ok :: "nat \<times> nat \<Rightarrow> bool" where
  "rune_ok p \<longleftrightarrow> \<not> (fst p = RuneError \<and> snd p = 1)"

definition utf8_valid :: "bytes \<Rightarrow> bool" where
  "utf8_valid s \<longleftrightarrow> list_all rune_ok (runes s)"

lemma utf8_valid_Nil [simp]: "utf8_valid []"
  by (simp add: utf8_valid_def)

lemma utf8_valid_step:
  "s \<noteq> [] \<Longrightarrow> utf8_valid s \<longleftrightarrow>
     rune_ok (decode_rune s) \<and> utf8_valid (drop (snd (decode_rune s)) s)"
  by (subst utf8_valid_def, subst runes_step) (simp_all add: utf8_valid_def)

lemma utf8_valid_ascii:
  assumes "byte c < 0x80"
  shows "utf8_valid (c # s) \<longleftrightarrow> utf8_valid s"
  using assms by (simp add: utf8_valid_def runes_ascii rune_ok_def RuneError_def)

lemma utf8_valid_all_ascii: "list_all (\<lambda>c. byte c < 0x80) s \<Longrightarrow> utf8_valid s"
  by (induction s) (simp_all add: utf8_valid_ascii)

lemma runes_append: "utf8_valid s \<Longrightarrow> runes (s @ t) = runes s @ runes t"
proof (induction s rule: runes.induct)
  case (1 s)
  show ?case
  proof (cases "s = []")
    case False
    let ?d = "decode_rune s"
    from False 1(2) have ok: "rune_ok ?d" and rest: "utf8_valid (drop (snd ?d) s)"
      by (simp_all add: utf8_valid_step)
    from False ok have d: "decode_rune (s @ t) = ?d"
      by (auto simp: rune_ok_def intro: decode_rune_append)
    from decode_rune_size [OF False] have "snd ?d \<le> length s" by simp
    then have "drop (snd ?d) (s @ t) = drop (snd ?d) s @ t" by simp
    with False d 1(1) [OF False rest] show ?thesis
      by (simp add: runes_step)
  qed simp
qed

lemma utf8_valid_append: "utf8_valid s \<Longrightarrow> utf8_valid (s @ t) \<longleftrightarrow> utf8_valid t"
  using runes_append [of s t] by (simp add: utf8_valid_def)

lemma utf8_valid_concat: "\<forall>s \<in> set ss. utf8_valid s \<Longrightarrow> utf8_valid (concat ss)"
  by (induction ss) (simp_all add: utf8_valid_append)

subsection \<open>strings.ToValidUTF8\<close>

text \<open>Each maximal run of ill-formed bytes becomes one copy of the replacement.\<close>

function ToValidUTF8 :: "bytes \<Rightarrow> bytes \<Rightarrow> bool \<Rightarrow> bytes" where
  "ToValidUTF8 s repl bad =
     (if s = [] then []
      else let d = decode_rune s in
        if rune_ok d then take (snd d) s @ ToValidUTF8 (drop (snd d) s) repl False
        else (if bad then [] else repl) @ ToValidUTF8 (drop (snd d) s) repl True)"
  by pat_completeness auto
termination
proof (relation "measure (\<lambda>(s, repl, bad). length s)")
  fix s :: bytes and repl bad d
  assume "s \<noteq> []" and "d = decode_rune s"
  with decode_rune_size [of s]
  show "((drop (snd d) s, repl, False), s, repl, bad) \<in> measure (\<lambda>(s, repl, bad). length s)"
    and "((drop (snd d) s, repl, True), s, repl, bad) \<in> measure (\<lambda>(s, repl, bad). length s)"
    by auto
qed simp

declare ToValidUTF8.simps [simp del]

lemma ToValidUTF8_Nil [simp]: "ToValidUTF8 [] repl bad = []"
  by (simp add: ToValidUTF8.simps)

lemma ToValidUTF8_code [code]:
  "ToValidUTF8 [] repl bad = []"
  "ToValidUTF8 (c # s) repl bad =
     (let d = decode_rune (c # s); t = drop (snd d) (c # s) in
      if rune_ok d then take (snd d) (c # s) @ ToValidUTF8 t repl False
      else (if bad then [] else repl) @ ToValidUTF8 t repl True)"
  by simp (subst ToValidUTF8.simps, simp add: Let_def)

lemma utf8_valid_take_decode:
  assumes "s \<noteq> []" and "rune_ok (decode_rune s)"
  shows "utf8_valid (take (snd (decode_rune s)) s)"
proof -
  let ?n = "snd (decode_rune s)"
  from decode_rune_size [OF assms(1)] have n: "1 \<le> ?n" "?n \<le> length s" by auto
  have ne: "take ?n s \<noteq> []" using assms(1) n by auto
  have d: "decode_rune (take ?n s) = decode_rune s"
    using assms by (auto simp: decode_rune_def rune_ok_def Let_def split: list.splits if_splits)
  show ?thesis by (subst utf8_valid_step [OF ne]) (simp add: d assms(2))
qed

lemma ToValidUTF8_valid: "utf8_valid repl \<Longrightarrow> utf8_valid (ToValidUTF8 s repl bad)"
proof (induction s repl bad rule: ToValidUTF8.induct)
  case (1 s repl bad)
  show ?case
  proof (cases "s = []")
    case False
    show ?thesis
    proof (cases "rune_ok (decode_rune s)")
      case True
      with False 1 utf8_valid_take_decode [OF False True] show ?thesis
        by (subst ToValidUTF8.simps) (simp add: Let_def utf8_valid_append)
    next
      case ill: False
      with False 1 show ?thesis
        by (subst ToValidUTF8.simps) (simp add: Let_def utf8_valid_append)
    qed
  qed simp
qed

lemma ToValidUTF8_id: "utf8_valid s \<Longrightarrow> ToValidUTF8 s repl bad = s"
proof (induction s repl bad rule: ToValidUTF8.induct)
  case (1 s repl bad)
  show ?case
  proof (cases "s = []")
    case False
    with 1(3) have "rune_ok (decode_rune s)" and "utf8_valid (drop (snd (decode_rune s)) s)"
      by (simp_all add: utf8_valid_step)
    with False 1(1) show ?thesis
      by (subst ToValidUTF8.simps) (simp add: Let_def)
  qed simp
qed

lemma ToValidUTF8_length:
  "length repl \<le> k \<Longrightarrow> 1 \<le> k \<Longrightarrow> length (ToValidUTF8 s repl bad) \<le> k * length s"
proof (induction s repl bad rule: ToValidUTF8.induct)
  case (1 s repl bad)
  show ?case
  proof (cases "s = []")
    case False
    let ?n = "snd (decode_rune s)"
    from decode_rune_size [OF False] have n: "1 \<le> ?n" "?n \<le> length s" by auto
    have split: "k * length s = k * ?n + k * (length s - ?n)"
      using n by (metis add_mult_distrib2 le_add_diff_inverse)
    have kn: "?n \<le> k * ?n" and k1: "k \<le> k * ?n" using 1(4) n by simp_all
    show ?thesis
    proof (cases "rune_ok (decode_rune s)")
      case True
      with False 1 n have "length (ToValidUTF8 (drop ?n s) repl False) \<le> k * (length s - ?n)"
        by (metis length_drop)
      from add_mono [OF kn this] False True split n show ?thesis
        by (subst ToValidUTF8.simps) (simp add: Let_def)
    next
      case ill: False
      with False 1 n have "length (ToValidUTF8 (drop ?n s) repl True) \<le> k * (length s - ?n)"
        by (metis length_drop)
      from add_mono [OF order_trans [OF 1(3) k1] this] this False ill split show ?thesis
        by (subst ToValidUTF8.simps) (auto simp: Let_def)
    qed
  qed simp
qed

subsection \<open>Character classes and trimming\<close>

definition IsSpace :: "nat \<Rightarrow> bool" where
  "IsSpace r \<longleftrightarrow> r \<in> {9, 10, 11, 12, 13, 32, 0x85, 0xA0, 0x1680, 0x2028, 0x2029, 0x202F, 0x205F, 0x3000}
     \<or> (0x2000 \<le> r \<and> r \<le> 0x200A)"

definition IsControl :: "nat \<Rightarrow> bool" where
  "IsControl r \<longleftrightarrow> r < 0x20 \<or> (0x7F \<le> r \<and> r < 0xA0)"

definition has_control :: "bytes \<Rightarrow> bool" where
  "has_control s \<longleftrightarrow> list_ex (\<lambda>p. IsControl (fst p)) (runes s)"

definition rune_start :: "char \<Rightarrow> bool" where
  "rune_start c \<longleftrightarrow> \<not> cont_byte c"

definition decode_last_rune :: "bytes \<Rightarrow> nat \<times> nat" where
  "decode_last_rune s =
     (if s = [] then (RuneError, 0)
      else if byte (last s) < 0x80 then (byte (last s), 1)
      else (case find (\<lambda>k. rune_start (s ! (length s - k))) [2..<Suc (min 4 (length s))] of
              None \<Rightarrow> (RuneError, 1)
            | Some k \<Rightarrow>
                let d = decode_rune (drop (length s - k) s)
                in if snd d = k then d else (RuneError, 1)))"

lemma decode_last_rune_size: "s \<noteq> [] \<Longrightarrow> 1 \<le> snd (decode_last_rune s)"
  by (auto simp: decode_last_rune_def Let_def split: option.splits dest!: find_SomeD)

function trim_left :: "bytes \<Rightarrow> bytes" where
  "trim_left s =
     (if s = [] then []
      else if IsSpace (fst (decode_rune s)) then trim_left (drop (snd (decode_rune s)) s) else s)"
  by pat_completeness auto
termination
proof (relation "measure length")
  fix s :: bytes
  assume "s \<noteq> []"
  with decode_rune_size [of s]
  show "(drop (snd (decode_rune s)) s, s) \<in> measure length" by auto
qed simp

function trim_right :: "bytes \<Rightarrow> bytes" where
  "trim_right s =
     (if s = [] then []
      else if IsSpace (fst (decode_last_rune s))
      then trim_right (take (length s - snd (decode_last_rune s)) s) else s)"
  by pat_completeness auto
termination
proof (relation "measure length")
  fix s :: bytes
  assume "s \<noteq> []"
  with decode_last_rune_size [of s]
  show "(take (length s - snd (decode_last_rune s)) s, s) \<in> measure length" by auto
qed simp

declare trim_left.simps [simp del] trim_right.simps [simp del]

lemma trim_left_code [code]:
  "trim_left [] = []"
  "trim_left (c # s) =
     (let d = decode_rune (c # s) in
      if IsSpace (fst d) then trim_left (drop (snd d) (c # s)) else c # s)"
  by (simp_all add: trim_left.simps Let_def)

lemma trim_right_code [code]:
  "trim_right [] = []"
  "trim_right (c # s) =
     (let d = decode_last_rune (c # s) in
      if IsSpace (fst d) then trim_right (take (length (c # s) - snd d) (c # s)) else c # s)"
  by (simp add: trim_right.simps) (subst trim_right.simps, simp add: Let_def)

definition TrimSpace :: "bytes \<Rightarrow> bytes" where
  "TrimSpace s = trim_right (trim_left s)"

lemma length_trim_left: "length (trim_left s) \<le> length s"
proof (induction s rule: trim_left.induct)
  case (1 s)
  show ?case
  proof (cases "s \<noteq> [] \<and> IsSpace (fst (decode_rune s))")
    case True
    with 1 have "length (trim_left (drop (snd (decode_rune s)) s)) \<le> length s"
      by (metis diff_le_self length_drop order_trans)
    with True show ?thesis by (subst trim_left.simps) simp
  next
    case False
    then show ?thesis by (subst trim_left.simps) auto
  qed
qed

lemma length_trim_right: "length (trim_right s) \<le> length s"
proof (induction s rule: trim_right.induct)
  case (1 s)
  show ?case
  proof (cases "s \<noteq> [] \<and> IsSpace (fst (decode_last_rune s))")
    case True
    let ?t = "take (length s - snd (decode_last_rune s)) s"
    have "length ?t \<le> length s" by simp
    with 1 True have "length (trim_right ?t) \<le> length s"
      by (meson order_trans)
    with True show ?thesis by (subst trim_right.simps) simp
  next
    case False
    then show ?thesis by (subst trim_right.simps) auto
  qed
qed

lemma length_TrimSpace: "length (TrimSpace s) \<le> length s"
  unfolding TrimSpace_def using length_trim_left [of s] length_trim_right [of "trim_left s"] by simp

text \<open>The equations that evaluate these functions on a concrete string by \<open>simp\<close>.\<close>

lemmas utf8_eval =
  utf8_valid_def rune_ok_def RuneError_def runes_step decode_rune_def second_ok_def cont_byte_def
  IsSpace_def IsControl_def has_control_def TrimSpace_def trim_left_code trim_right_code
  decode_last_rune_def rune_start_def

end
