(* ===== verification/Json_Stream.thy ===== *)
theory Json_Stream
  imports GoJson
begin

section \<open>JSON values, token streams and struct decoding\<close>

text \<open>
  The second half of the model of encoding/json. \<open>parse_value\<close> is the grammar the scanner
  accepts, with the nesting bound that \<open>json.Valid\<close> and \<open>Decoder.Decode\<close> enforce. The record
  \<open>decoder\<close> and the functions \<open>Token\<close> and \<open>More\<close> are the streaming interface with its token
  states, as the packages' own validators drive it. \<open>field_of\<close> is the lookup of a struct
  field by key: the exact name first, then the name up to simple case folding.
\<close>

subsection \<open>Values\<close>

definition maxNestingDepth :: nat where
  "maxNestingDepth = 10000"

definition literal_at :: "bytes \<Rightarrow> (json \<times> bytes) option" where
  "literal_at s =
     (if HasPrefix s ''null'' then Some (JNull, drop 4 s)
      else if HasPrefix s ''true'' then Some (JBool True, drop 4 s)
      else if HasPrefix s ''false'' then Some (JBool False, drop 5 s)
      else map_option (\<lambda>(l, r). (JNum l, r)) (scan_number s))"

lemma HasPrefix_length: "HasPrefix s p \<Longrightarrow> length p \<le> length s"
  by (metis HasPrefix_def length_take min.bounded_iff order_refl)

lemma literal_at_shrinks: "literal_at s = Some (v, r) \<Longrightarrow> length r < length s"
  by (auto simp: literal_at_def dest!: scan_number_append HasPrefix_length split: if_splits)

text \<open>A value that is neither an array nor an object.\<close>

definition scalar_at :: "bytes \<Rightarrow> (json \<times> bytes) option" where
  "scalar_at s =
     (if s \<noteq> [] \<and> hd s = CHR 0x22
      then map_option (\<lambda>(l, r). (JStr (unquote l), r)) (scan_string (tl s))
      else literal_at s)"

lemma scalar_at_shrinks: "scalar_at s = Some (v, r) \<Longrightarrow> length r < length s"
  by (cases "s \<noteq> [] \<and> hd s = CHR 0x22"; cases s)
     (auto simp: scalar_at_def dest: literal_at_shrinks dest!: scan_string_append)

definition starts_with :: "char \<Rightarrow> bytes \<Rightarrow> bool" where
  "starts_with c s \<longleftrightarrow> s \<noteq> [] \<and> hd s = c"

fun parse_value :: "nat \<Rightarrow> nat \<Rightarrow> bytes \<Rightarrow> (json \<times> bytes) option"
and parse_elems :: "nat \<Rightarrow> nat \<Rightarrow> bytes \<Rightarrow> (json list \<times> bytes) option"
and parse_members :: "nat \<Rightarrow> nat \<Rightarrow> bytes \<Rightarrow> ((string \<times> json) list \<times> bytes) option" where
  "parse_value 0 d s = None"
| "parse_value (Suc f) d s =
     (let s = skip_ws s in
      if starts_with (CHR ''['') s then
        (let t = skip_ws (tl s) in
         if d = 0 then None
         else if starts_with (CHR '']'') t then Some (JArr [], tl t)
         else map_option (\<lambda>(vs, r). (JArr vs, r)) (parse_elems f (d - 1) t))
      else if starts_with (CHR ''{'') s then
        (let t = skip_ws (tl s) in
         if d = 0 then None
         else if starts_with (CHR ''}'') t then Some (JObj [], tl t)
         else map_option (\<lambda>(ms, r). (JObj ms, r)) (parse_members f (d - 1) t))
      else scalar_at s)"
| "parse_elems 0 d s = None"
| "parse_elems (Suc f) d s =
     (case parse_value f d s of
        None \<Rightarrow> None
      | Some (v, r) \<Rightarrow>
          let t = skip_ws r in
          if starts_with (CHR '']'') t then Some ([v], tl t)
          else if starts_with (CHR '','') t then map_option (\<lambda>(vs, q). (v # vs, q)) (parse_elems f d (tl t))
          else None)"
| "parse_members 0 d s = None"
| "parse_members (Suc f) d s =
     (let s = skip_ws s in
      if \<not> starts_with (CHR 0x22) s then None
      else case scan_string (tl s) of
        None \<Rightarrow> None
      | Some (k, r) \<Rightarrow>
          let t = skip_ws r in
          if \<not> starts_with (CHR '':'') t then None
          else case parse_value f d (tl t) of
            None \<Rightarrow> None
          | Some (v, q) \<Rightarrow>
              let u = skip_ws q in
              if starts_with (CHR ''}'') u then Some ([(unquote k, v)], tl u)
              else if starts_with (CHR '','') u
              then map_option (\<lambda>(ms, w). ((unquote k, v) # ms, w)) (parse_members f d (tl u))
              else None)"

lemma starts_with_length: "starts_with c s \<Longrightarrow> length s = Suc (length (tl s))"
  by (cases s) (auto simp: starts_with_def)

lemma starts_with_skip: "starts_with c (skip_ws s) \<Longrightarrow> Suc (length (tl (skip_ws s))) \<le> length s"
  using length_skip_ws [of s] starts_with_length [of c "skip_ws s"] by (metis le_trans)

lemma parse_shrinks:
  shows parse_value_shrinks: "parse_value f d s = Some (v, r) \<Longrightarrow> length r < length s"
    and parse_elems_shrinks: "parse_elems f d s = Some (vs, r) \<Longrightarrow> length r < length s"
    and parse_members_shrinks: "parse_members f d s = Some (ms, r) \<Longrightarrow> length r < length s"
proof (induction f d s and f d s and f d s arbitrary: v r and vs r and ms r
    rule: parse_value_parse_elems_parse_members.induct)
  case (2 f d s)
  let ?s = "skip_ws s" and ?t = "skip_ws (tl (skip_ws s))"
  consider "starts_with (CHR ''['') ?s" | "\<not> starts_with (CHR ''['') ?s" "starts_with (CHR ''{'') ?s"
    | "\<not> starts_with (CHR ''['') ?s" "\<not> starts_with (CHR ''{'') ?s" by blast
  then show ?case
  proof cases
    case 1
    with 2 have "length r \<le> length ?t"
      by (auto simp: Let_def split: if_splits intro: less_imp_le)
    with length_skip_ws [of "tl ?s"] starts_with_skip [OF 1] show ?thesis by linarith
  next
    case 2
    then have "length r \<le> length ?t"
      using "2.prems" "2.IH"(2) by (auto simp: Let_def split: if_splits intro: less_imp_le)
    with length_skip_ws [of "tl ?s"] starts_with_skip [OF 2(2)] show ?thesis by linarith
  next
    case 3
    with 2 have "length r < length ?s" by (simp add: Let_def scalar_at_shrinks)
    with length_skip_ws [of s] show ?thesis by linarith
  qed
next
  case (4 f d s)
  from "4.prems" obtain v q where v: "parse_value f d s = Some (v, q)" by (auto split: option.splits)
  let ?t = "skip_ws q"
  have "length r \<le> length (tl ?t) \<and> (\<exists>c. starts_with c ?t)"
    using "4.prems" v "4.IH"(2) [OF v refl] by (auto simp: Let_def split: if_splits intro: less_imp_le)
  with "4.IH"(1) [OF v] starts_with_skip [of _ q] show ?case by fastforce
next
  case (6 f d s)
  let ?s = "skip_ws s"
  from "6.prems" obtain k p where k: "starts_with (CHR 0x22) ?s" "scan_string (tl ?s) = Some (k, p)"
    by (auto simp: Let_def split: if_splits option.splits)
  let ?t = "skip_ws p"
  from "6.prems" k obtain v q where v: "starts_with (CHR '':'') ?t" "parse_value f d (tl ?t) = Some (v, q)"
    by (auto simp: Let_def split: if_splits option.splits)
  let ?u = "skip_ws q"
  have "length r \<le> length (tl ?u) \<and> (\<exists>c. starts_with c ?u)"
    using "6.prems" k v "6.IH"(2) [OF refl _ k(2) refl refl _ v(2) refl refl]
    by (auto simp: Let_def split: if_splits intro: less_imp_le)
  moreover have "length q < length (tl ?t)"
    using "6.IH"(1) [OF refl _ k(2) refl refl _ v(2)] k(1) v(1) by simp
  moreover have "length p < length (tl ?s)" using scan_string_append [OF k(2)] by simp
  ultimately show ?case
    using starts_with_skip [OF k(1)] starts_with_skip [OF v(1)] starts_with_skip [of _ q] by fastforce
qed auto

text \<open>Two units of fuel per byte and one more are enough: any larger amount gives the same answer.\<close>

lemma skip_ws_idem [simp]: "skip_ws (skip_ws s) = skip_ws s"
  by (simp add: skip_ws_def)

lemma parse_fuel:
  shows parse_value_fuel: "2 * length s < f \<Longrightarrow> 2 * length s < g \<Longrightarrow> parse_value f d s = parse_value g d s"
    and parse_elems_fuel:
      "2 * length s + 1 < f \<Longrightarrow> 2 * length s + 1 < g \<Longrightarrow> parse_elems f d s = parse_elems g d s"
    and parse_members_fuel:
      "2 * length s + 1 < f \<Longrightarrow> 2 * length s + 1 < g \<Longrightarrow> parse_members f d s = parse_members g d s"
proof (induction f d s and f d s and f d s arbitrary: g and g and g
    rule: parse_value_parse_elems_parse_members.induct)
  case (2 f d s)
  obtain h where g: "g = Suc h" using 2(4) by (cases g) auto
  let ?s = "skip_ws s" and ?t = "skip_ws (tl (skip_ws s))"
  have len: "2 * length ?t + 1 < f" "2 * length ?t + 1 < h" if "starts_with c ?s" for c
    using length_skip_ws [of "tl ?s"] starts_with_skip [OF that] 2(3,4) g by linarith+
  show ?case
    unfolding g parse_value.simps Let_def
    using 2(1,2) [of ?s ?t h] len by (simp split: if_split)
next
  case (4 f d s)
  obtain h where g: "g = Suc h" using 4(4) by (cases g) auto
  have v: "parse_value h d s = parse_value f d s" using "4.IH"(1) [of h] 4(3,4) g by simp
  have "parse_elems f d (tl (skip_ws r)) = parse_elems h d (tl (skip_ws r))"
    if "parse_value f d s = Some (w, r)" "starts_with (CHR '','') (skip_ws r)"
      "\<not> starts_with (CHR '']'') (skip_ws r)" for w r
  proof -
    have "2 * length (tl (skip_ws r)) + 1 < f" "2 * length (tl (skip_ws r)) + 1 < h"
      using parse_value_shrinks [OF that(1)] starts_with_skip [OF that(2)] 4(3,4) g by linarith+
    then show ?thesis using "4.IH"(2) [OF that(1) refl refl that(3,2)] by blast
  qed
  then show ?case unfolding g parse_elems.simps v
    by (auto simp: Let_def split: option.splits)
next
  case (6 f d s)
  obtain h where g: "g = Suc h" using 6(4) by (cases g) auto
  let ?s = "skip_ws s"
  have eq: "parse_value f d (tl (skip_ws p)) = parse_value h d (tl (skip_ws p)) \<and>
    (\<forall>w q. parse_value f d (tl (skip_ws p)) = Some (w, q) \<longrightarrow> \<not> starts_with (CHR ''}'') (skip_ws q) \<longrightarrow>
       starts_with (CHR '','') (skip_ws q) \<longrightarrow>
       parse_members f d (tl (skip_ws q)) = parse_members h d (tl (skip_ws q)))"
    if k: "starts_with (CHR 0x22) ?s" "scan_string (tl ?s) = Some (k, p)"
      "starts_with (CHR '':'') (skip_ws p)" for k p
  proof -
    have p: "length p < length (tl ?s)" using scan_string_append [OF k(2)] by simp
    note len = p starts_with_skip [OF k(1)] starts_with_skip [OF k(3)] 6(3,4) g
    have vlen: "2 * length (tl (skip_ws p)) < f" "2 * length (tl (skip_ws p)) < h" using len by linarith+
    have "parse_members f d (tl (skip_ws q)) = parse_members h d (tl (skip_ws q))"
      if q: "parse_value f d (tl (skip_ws p)) = Some (w, q)" "\<not> starts_with (CHR ''}'') (skip_ws q)"
        "starts_with (CHR '','') (skip_ws q)" for w q
    proof -
      have "2 * length (tl (skip_ws q)) + 1 < f" "2 * length (tl (skip_ws q)) + 1 < h"
        using parse_value_shrinks [OF q(1)] starts_with_skip [OF q(3)] len by linarith+
      then show ?thesis
        using "6.IH"(2) [OF refl _ k(2) refl refl _ q(1) refl refl q(2,3)] k(1,3) by blast
    qed
    moreover have "parse_value f d (tl (skip_ws p)) = parse_value h d (tl (skip_ws p))"
      using "6.IH"(1) [OF refl _ k(2) refl refl _ vlen] k(1,3) by blast
    ultimately show ?thesis by blast
  qed
  show ?case unfolding g parse_members.simps Let_def
    using eq by (auto split: option.splits)
qed auto

definition json_read :: "bytes \<Rightarrow> (json \<times> bytes) option" where
  "json_read s = parse_value (2 * length s + 1) maxNestingDepth s"

definition json_document :: "bytes \<Rightarrow> json option" where
  "json_document s = (case json_read s of Some (v, r) \<Rightarrow> if skip_ws r = [] then Some v else None | None \<Rightarrow> None)"

definition json_Valid :: "bytes \<Rightarrow> bool" where
  "json_Valid s \<longleftrightarrow> json_document s \<noteq> None"

subsection \<open>Token streams\<close>

datatype tokenState = TopValue | ArrayStart | ArrayValue | ArrayComma
  | ObjectStart | ObjectKey | ObjectColon | ObjectValue | ObjectComma

datatype token = Delim char | TStr string | TNum string | TBool bool | TNull

record decoder =
  rest :: bytes
  tokenState :: tokenState
  tokenStack :: "tokenState list"
  useNumber :: bool

definition NewDecoder :: "bytes \<Rightarrow> bool \<Rightarrow> decoder" where
  "NewDecoder s num = \<lparr>rest = s, tokenState = TopValue, tokenStack = [], useNumber = num\<rparr>"

definition tokenValueAllowed :: "tokenState \<Rightarrow> bool" where
  "tokenValueAllowed st \<longleftrightarrow> List.member [TopValue, ArrayStart, ArrayValue, ObjectValue] st"

definition tokenValueEnd :: "tokenState \<Rightarrow> tokenState" where
  "tokenValueEnd st = (if st = ArrayStart \<or> st = ArrayValue then ArrayComma
     else if st = ObjectValue then ObjectComma else st)"

text \<open>
  The value of a decimal literal as mantissa and power of ten, and whether it rounds to a
  finite float64: without \<open>UseNumber\<close> a decoder refuses a number that overflows.
\<close>

definition digits_value :: "bytes \<Rightarrow> nat" where
  "digits_value ds = foldl (\<lambda>n c. 10 * n + (byte c - 0x30)) 0 (filter is_digit ds)"

definition signed_value :: "bytes \<Rightarrow> int" where
  "signed_value s = (if starts_with (CHR ''-'') s then - int (digits_value s) else int (digits_value s))"

definition decimal_parts :: "bytes \<Rightarrow> nat \<times> int" where
  "decimal_parts s =
     (let mant = takeWhile (\<lambda>c. c \<noteq> CHR ''e'' \<and> c \<noteq> CHR ''E'') s;
          expo = drop (Suc (length mant)) s;
          frac = drop 1 (dropWhile (\<lambda>c. c \<noteq> CHR ''.'') mant)
      in (digits_value mant, signed_value expo - int (length frac)))"

definition float64_ok :: "bytes \<Rightarrow> bool" where
  "float64_ok s =
     (case decimal_parts s of (m, e) \<Rightarrow>
        if 0 \<le> e then m * 10 ^ nat e < 2 ^ 1024 - 2 ^ 970 else m < (2 ^ 1024 - 2 ^ 970) * 10 ^ nat (- e))"

fun scalar_token :: "bool \<Rightarrow> json \<Rightarrow> token option" where
  "scalar_token num JNull = Some TNull"
| "scalar_token num (JBool b) = Some (TBool b)"
| "scalar_token num (JStr s) = Some (TStr s)"
| "scalar_token num (JNum l) = (if num \<or> float64_ok l then Some (TNum l) else None)"
| "scalar_token num (JArr vs) = None"
| "scalar_token num (JObj ms) = None"

text \<open>\<open>Decoder.peek\<close>: the next byte after white space.\<close>

definition peek :: "decoder \<Rightarrow> bytes" where
  "peek d = skip_ws (rest d)"

definition at_EOF :: "decoder \<Rightarrow> bool" where
  "at_EOF d \<longleftrightarrow> peek d = []"

definition More :: "decoder \<Rightarrow> bool" where
  "More d \<longleftrightarrow> peek d \<noteq> [] \<and> hd (peek d) \<noteq> CHR '']'' \<and> hd (peek d) \<noteq> CHR ''}''"

lemma peek_tl: "peek d \<noteq> [] \<Longrightarrow> length (tl (peek d)) < length (rest d)"
  using starts_with_skip [of "hd (peek d)" "rest d"]
  by (simp only: peek_def starts_with_def Suc_le_eq simp_thms)

lemma peek_length: "length (peek d) \<le> length (rest d)"
  by (simp add: peek_def length_skip_ws)

function Token :: "decoder \<Rightarrow> (token \<times> decoder) option" where
  "Token d =
     (let s = peek d; c = hd s; st = tokenState d in
      if s = [] then None
      else if c = CHR ''['' \<or> c = CHR ''{'' then
        (if \<not> tokenValueAllowed st then None
         else Some (Delim c, d\<lparr>rest := tl s, tokenStack := st # tokenStack d,
                tokenState := (if c = CHR ''['' then ArrayStart else ObjectStart)\<rparr>))
      else if c = CHR '']'' \<or> c = CHR ''}'' then
        (if \<not> List.member (if c = CHR '']'' then [ArrayStart, ArrayComma] else [ObjectStart, ObjectComma]) st
         then None
         else (case tokenStack d of
                 [] \<Rightarrow> None
               | up # st' \<Rightarrow> Some (Delim c, d\<lparr>rest := tl s, tokenStack := st', tokenState := tokenValueEnd up\<rparr>)))
      else if c = CHR '':'' then
        (if st = ObjectColon then Token (d\<lparr>rest := tl s, tokenState := ObjectValue\<rparr>) else None)
      else if c = CHR '','' then
        (if st = ArrayComma then Token (d\<lparr>rest := tl s, tokenState := ArrayValue\<rparr>)
         else if st = ObjectComma then Token (d\<lparr>rest := tl s, tokenState := ObjectKey\<rparr>)
         else None)
      else if c = CHR 0x22 \<and> (st = ObjectStart \<or> st = ObjectKey) then
        (case scan_string (tl s) of
           None \<Rightarrow> None
         | Some (l, r) \<Rightarrow> Some (TStr (unquote l), d\<lparr>rest := r, tokenState := ObjectColon\<rparr>))
      else if \<not> tokenValueAllowed st then None
      else (case scalar_at s of
              None \<Rightarrow> None
            | Some (v, r) \<Rightarrow>
                map_option (\<lambda>t. (t, d\<lparr>rest := r, tokenState := tokenValueEnd st\<rparr>))
                  (scalar_token (useNumber d) v)))"
  by pat_completeness auto
termination
proof (relation "measure (\<lambda>d. length (rest d))")
  fix d :: decoder and s
  assume "s = peek d" and "\<not> s = []"
  then have "length (tl s) < length (rest d)"
    using peek_tl by blast
  then show "(d\<lparr>rest := tl s, tokenState := ObjectValue\<rparr>, d) \<in> measure (\<lambda>d. length (rest d))"
    and "(d\<lparr>rest := tl s, tokenState := ArrayValue\<rparr>, d) \<in> measure (\<lambda>d. length (rest d))"
    and "(d\<lparr>rest := tl s, tokenState := ObjectKey\<rparr>, d) \<in> measure (\<lambda>d. length (rest d))"
    by simp_all
qed simp

declare Token.simps [simp del]

lemma Token_shrinks: "Token d = Some (t, e) \<Longrightarrow> length (rest e) < length (rest d)"
proof (induction d rule: Token.induct)
  case (1 d)
  let ?s = "peek d"
  from "1.prems" have ne: "?s \<noteq> []" by (subst (asm) Token.simps) (auto simp: Let_def)
  note tl = peek_tl [OF ne]
  have str: "scan_string (tl ?s) = Some (l, r) \<Longrightarrow> length r < length (rest d)" for l r
    using tl by (fastforce dest: scan_string_append simp del: length_tl)
  have sc: "scalar_at ?s = Some (v, r) \<Longrightarrow> length r < length (rest d)" for v r
    using peek_length [of d] by (auto dest!: scalar_at_shrinks)
  note IH = "1.IH" [OF refl refl refl ne]
  show ?case
    using "1.prems" tl str sc IH
    by (subst (asm) Token.simps)
       (auto simp: Let_def split: if_split_asm option.split_asm list.split_asm dest: less_trans)
qed

text \<open>\<open>Decoder.Decode\<close> in token mode: one whole value, after the colon or comma it may follow.\<close>

definition tokenPrepareForDecode :: "decoder \<Rightarrow> decoder option" where
  "tokenPrepareForDecode d =
     (if tokenState d = ArrayComma then
        (if starts_with (CHR '','') (peek d) then Some (d\<lparr>rest := tl (peek d), tokenState := ArrayValue\<rparr>) else None)
      else if tokenState d = ObjectColon then
        (if starts_with (CHR '':'') (peek d) then Some (d\<lparr>rest := tl (peek d), tokenState := ObjectValue\<rparr>) else None)
      else Some d)"

definition Decode :: "decoder \<Rightarrow> (json \<times> decoder) option" where
  "Decode d =
     (case tokenPrepareForDecode d of
        None \<Rightarrow> None
      | Some e \<Rightarrow>
          if \<not> tokenValueAllowed (tokenState e) then None
          else (case json_read (rest e) of
                  None \<Rightarrow> None
                | Some (v, r) \<Rightarrow> Some (v, e\<lparr>rest := r, tokenState := tokenValueEnd (tokenState e)\<rparr>)))"

subsection \<open>Struct fields\<close>

text \<open>
  \<open>foldName\<close> maps every rune to the smallest rune of its folding orbit. The field names of
  the packages are ASCII letters and underscores, and the only runes outside ASCII whose
  orbit meets ASCII are U+017F and U+212A; every other rune is kept, which never equals an
  upper-case ASCII name.
\<close>

definition fold_rune :: "nat \<Rightarrow> nat" where
  "fold_rune r = (if 0x61 \<le> r \<and> r \<le> 0x7A then r - 0x20 else if r = 0x17F then 0x53
     else if r = 0x212A then 0x4B else r)"

definition fold_name :: "bytes \<Rightarrow> nat list" where
  "fold_name k = map (\<lambda>p. fold_rune (fst p)) (runes k)"

definition field_of :: "string list \<Rightarrow> string \<Rightarrow> string option" where
  "field_of names k =
     (if List.member names k then Some k else find (\<lambda>n. fold_name n = fold_name k) names)"

text \<open>Decoding into a Go string field: null leaves it as it is, anything but a string fails.\<close>

fun into_string :: "string \<Rightarrow> json \<Rightarrow> string option" where
  "into_string old (JStr s) = Some s"
| "into_string old JNull = Some old"
| "into_string old _ = None"

text \<open>Decoding into a pointer to int64: null clears it, a literal must be an integer in range.\<close>

definition parse_int64 :: "bytes \<Rightarrow> int option" where
  "parse_int64 l =
     (let ds = (if starts_with (CHR ''-'') l then tl l else l) in
      if list_all is_digit ds \<and> int64 (signed_value l) then Some (signed_value l) else None)"

fun into_int64_ptr :: "int option \<Rightarrow> json \<Rightarrow> int option option" where
  "into_int64_ptr old JNull = Some None"
| "into_int64_ptr old (JNum l) = map_option Some (parse_int64 l)"
| "into_int64_ptr old _ = None"

subsection \<open>Reading back what the encoder wrote\<close>

lemma skip_ws_Cons [simp]: "\<not> ws_byte c \<Longrightarrow> skip_ws (c # s) = c # s"
  by (simp add: skip_ws_def)

lemma not_ws_punct [simp]:
  "\<not> ws_byte (CHR 0x22)" "\<not> ws_byte (CHR ''{'')" "\<not> ws_byte (CHR ''}'')" "\<not> ws_byte (CHR ''['')"
  "\<not> ws_byte (CHR '']'')" "\<not> ws_byte (CHR '':'')" "\<not> ws_byte (CHR '','')"
  by (simp_all add: ws_byte_def)

lemma starts_with_Cons [simp]: "starts_with c (x # s) \<longleftrightarrow> x = c"
  by (auto simp: starts_with_def)

lemma starts_with_Nil [simp]: "\<not> starts_with c []"
  by (simp add: starts_with_def)

lemma skip_ws_Nil [simp]: "skip_ws [] = []"
  by (simp add: skip_ws_def)

lemma marshal_string_append: "marshal_string s @ r = CHR 0x22 # escape_body s @ CHR 0x22 # r"
  by (simp add: marshal_string_def)

lemma scan_marshal:
  "utf8_valid s \<Longrightarrow> scan_string (escape_body s @ CHR 0x22 # r) = Some (escape_body s, r)"
  "utf8_valid s \<Longrightarrow> unquote (escape_body s) = s"
  using escape_body_roundtrip [of s] by blast+

lemma parse_value_marshal:
  "utf8_valid s \<Longrightarrow> 0 < f \<Longrightarrow> parse_value f d (marshal_string s @ r) = Some (JStr s, r)"
  by (cases f) (simp_all add: marshal_string_append scalar_at_def scan_marshal)

lemma parse_members_marshal:
  assumes "utf8_valid k" and "0 < f"
  shows "parse_members f d (marshal_string k @ CHR '':'' # s) =
    (case parse_value (f - 1) d s of
       None \<Rightarrow> None
     | Some (v, q) \<Rightarrow>
         let u = skip_ws q in
         if starts_with (CHR ''}'') u then Some ([(k, v)], tl u)
         else if starts_with (CHR '','') u
         then map_option (\<lambda>(ms, w). ((k, v) # ms, w)) (parse_members (f - 1) d (tl u))
         else None)"
  using assms by (cases f) (auto simp: marshal_string_append scan_marshal Let_def split: option.split)

lemma parse_value_object:
  assumes "0 < f" and "0 < d"
  shows "parse_value f d (CHR ''{'' # marshal_string k @ s) =
    map_option (\<lambda>(ms, r). (JObj ms, r)) (parse_members (f - 1) (d - 1) (marshal_string k @ s))"
  using assms by (cases f) (simp_all add: marshal_string_append)

lemma parse_value_empty_object [simp]:
  "0 < f \<Longrightarrow> 0 < d \<Longrightarrow> parse_value f d (CHR ''{'' # CHR ''}'' # s) = Some (JObj [], s)"
  by (cases f) simp_all

lemmas marshal_parse = parse_value_marshal parse_members_marshal parse_value_object Let_def maxNestingDepth_def

subsection \<open>Decoded strings are valid UTF-8\<close>

lemma char_of_less: "n < 256 \<Longrightarrow> byte (char_of n) = n"
  by (simp add: of_char_of)

lemma utf8_valid_one:
  assumes "s \<noteq> []" and "snd (decode_rune s) = length s" and "1 < length s"
  shows "utf8_valid s"
  using assms by (subst utf8_valid_step) (simp_all add: rune_ok_def)

lemma split64_aux: "q = a * 64 + z \<Longrightarrow> a = x * 64 + y \<Longrightarrow> (q::nat) = x * 4096 + y * 64 + z"
  by simp

lemma split64: "(q::nat) = q div 4096 * 4096 + q div 64 mod 64 * 64 + q mod 64"
proof -
  have "q div 4096 = q div 64 div 64" by (simp add: div_mult2_eq [symmetric])
  then have "q div 64 = q div 4096 * 64 + q div 64 mod 64" by simp
  from split64_aux [OF _ this] show ?thesis by simp
qed

lemma encode_rune_valid: "utf8_valid (encode_rune r)"
proof -
  define q where "q = (if 0x10FFFF < r \<or> (0xD800 \<le> r \<and> r \<le> 0xDFFF) then RuneError else r)"
  have q: "q \<le> 0x10FFFF" "\<not> (0xD800 \<le> q \<and> q \<le> 0xDFFF)"
    by (auto simp: q_def RuneError_def)
  have m: "q mod 64 < 64" "q div 64 mod 64 < 64" "q div 4096 mod 64 < 64" by simp_all
  consider "q < 0x80" | "0x80 \<le> q" "q < 0x800" | "0x800 \<le> q" "q < 0x10000" | "0x10000 \<le> q" by linarith
  then show ?thesis
  proof cases
    case 1
    then have "encode_rune r = [char_of q]" by (simp add: encode_rune_def Let_def q_def [symmetric])
    with 1 show ?thesis by (simp add: utf8_valid_ascii char_of_less)
  next
    case 2
    then have e: "encode_rune r = [char_of (0xC0 + q div 64), char_of (0x80 + q mod 64)]"
      by (simp add: encode_rune_def Let_def q_def [symmetric])
    have "2 \<le> q div 64" "q div 64 < 32" using 2 by auto
    with m show ?thesis unfolding e
      by (intro utf8_valid_one)
         (auto simp: decode_rune_def Let_def second_ok_def cont_byte_def char_of_less)
  next
    case 3
    then have e: "encode_rune r =
        [char_of (0xE0 + q div 4096), char_of (0x80 + q div 64 mod 64), char_of (0x80 + q mod 64)]"
      by (simp add: encode_rune_def Let_def q_def [symmetric])
    have d: "q div 4096 < 16" using 3 by auto
    have lo: "q div 4096 = 0 \<Longrightarrow> 32 \<le> q div 64 mod 64" using 3 by simp
    have sur: "q div 4096 = 13 \<Longrightarrow> q div 64 mod 64 < 32" 
      using q split64 [of q] m by (cases "32 \<le> q div 64 mod 64") auto
    from d lo sur m show ?thesis unfolding e
      by (intro utf8_valid_one)
         (auto simp: decode_rune_def Let_def second_ok_def cont_byte_def char_of_less)
  next
    case 4
    then have e: "encode_rune r = [char_of (0xF0 + q div 262144), char_of (0x80 + q div 4096 mod 64),
        char_of (0x80 + q div 64 mod 64), char_of (0x80 + q mod 64)]"
      by (simp add: encode_rune_def Let_def q_def [symmetric])
    have d: "q div 262144 \<le> 4" using q by auto
    have lo: "q div 262144 = 0 \<Longrightarrow> 16 \<le> q div 4096 mod 64" using 4 by simp
    have hi: "q div 262144 = 4 \<Longrightarrow> q div 4096 mod 64 < 16"
    proof -
      assume "q div 262144 = 4"
      then have "q div 64 = 16384 + q div 4096 mod 64 * 64 + q div 64 mod 64"
        using split64 [of "q div 64"] by (simp add: div_mult2_eq [symmetric])
      moreover have "q div 64 \<le> 17407" using div_le_mono [OF q(1), of 64] by simp
      ultimately show "q div 4096 mod 64 < 16" by linarith
    qed
    from d lo hi m show ?thesis unfolding e
      by (intro utf8_valid_one)
         (auto simp: decode_rune_def Let_def second_ok_def cont_byte_def char_of_less)
  qed
qed

text \<open>A literal body as the scanner delivers it: it scans as itself.\<close>

definition scanned :: "bytes \<Rightarrow> bool" where
  "scanned l \<longleftrightarrow> scan_string (l @ [CHR 0x22]) = Some (l, [])"

lemma scanned_escape:
  assumes "scanned (CHR 0x5C # l)"
  obtains k where "escape_len (l @ [CHR 0x22]) = Some k" "k \<le> length l" "scanned (drop k l)"
proof -
  let ?s = "CHR 0x5C # l @ [CHR 0x22]"
  from assms obtain k l' where k: "escape_len (l @ [CHR 0x22]) = Some k"
    and l': "scan_string (drop k (l @ [CHR 0x22])) = Some (l', [])" "CHR 0x5C # l = take (Suc k) ?s @ l'"
    unfolding scanned_def by (subst (asm) scan_string.simps) (auto split: option.splits)
  from scan_string_append [OF l'(1)] have kl: "k \<le> length l"
    by (metis append_is_Nil_conv drop_all length_append_singleton list.distinct(1) not_less_eq_eq)
  with l' have "l' = drop k l" by (metis append_Cons append_eq_conv_conj drop_Suc_Cons length_Cons
      not_less_eq_eq take_Suc_Cons take_append append_take_drop_id same_append_eq diff_is_0_eq' take0 append_Nil2)
  with k kl l' that show thesis by (simp add: scanned_def)
qed

lemma scanned_high: "list_all (\<lambda>c. 0x80 \<le> byte c) p \<Longrightarrow> scanned (p @ l) \<longleftrightarrow> scanned l"
  by (auto simp: scanned_def scan_string_high)

lemma escape_len_take: "escape_len s = Some k \<Longrightarrow> escape_len (take k s @ t) = Some k"
  by (cases s) (auto simp: escape_len_def nth_append split: if_splits)

lemma scan_string_replay:
  "scan_string s = Some (l, r) \<Longrightarrow> scan_string (l @ CHR 0x22 # r') = Some (l, r')"
proof (induction s arbitrary: l r rule: scan_string.induct)
  case (1 s)
  then have ne: "s \<noteq> []" by (auto simp: scan_string.simps)
  consider "hd s = CHR 0x22" | "hd s \<noteq> CHR 0x22" "hd s = CHR 0x5C" | "hd s \<noteq> CHR 0x22" "hd s \<noteq> CHR 0x5C"
    by blast
  then show ?case
  proof cases
    case 1
    with ne \<open>scan_string s = Some (l, r)\<close> have "l = []"
      by (subst (asm) scan_string.simps) simp
    then show ?thesis by (simp add: scan_string.simps)
  next
    case 2
    with ne \<open>scan_string s = Some (l, r)\<close> obtain k l' where k: "escape_len (tl s) = Some k"
      and l': "scan_string (drop (Suc k) s) = Some (l', r)" "l = take (Suc k) s @ l'"
      by (subst (asm) scan_string.simps) (auto split: option.splits)
    have "take (Suc k) s = CHR 0x5C # take k (tl s)" using ne 2 by (cases s) auto
    moreover have "length (take k (tl s)) = k" using escape_len_le [OF k] by simp
    ultimately show ?thesis
      using scan_string_escape [of "take k (tl s)" "l' @ CHR 0x22 # r'"]
        escape_len_take [OF k] "1.IH"(1) [OF ne 2 k l'(1)] l'(2) by simp
  next
    case 3
    with ne \<open>scan_string s = Some (l, r)\<close> obtain l' where c: "\<not> byte (hd s) < 0x20"
      and l': "scan_string (tl s) = Some (l', r)" "l = hd s # l'"
      by (subst (asm) scan_string.simps) (auto split: if_splits)
    from "1.IH"(2) [OF ne 3 c l'(1)] l'(2) 3 c show ?thesis by (simp add: scan_string_plain)
  qed
qed

lemma scan_string_scanned: "scan_string s = Some (l, r) \<Longrightarrow> scanned l"
  by (simp add: scanned_def scan_string_replay)

lemma scanned_plain:
  assumes "scanned (c # l)" and "c \<noteq> CHR 0x5C"
  shows "scanned l"
  using assms unfolding scanned_def
  by (subst (asm) scan_string.simps) (auto split: if_splits)

definition escape_chars :: "char list" where
  "escape_chars = [CHR 0x22, CHR 0x5C, CHR ''/'', CHR ''b'', CHR ''f'', CHR ''n'', CHR ''r'', CHR ''t'']"

lemma escape_value_ascii: "List.member escape_chars e \<Longrightarrow> byte (escape_value e) < 0x80"
  unfolding escape_chars_def List.member_iff by (simp, elim disjE) (simp_all add: escape_value_def)

lemma unquote_step_escape:
  assumes "scanned (CHR 0x5C # l)" and "unquote_step (CHR 0x5C # l) = (out, n)"
  shows "utf8_valid out \<and> scanned (drop n (CHR 0x5C # l))"
proof -
  from assms(1) obtain k where k: "escape_len (l @ [CHR 0x22]) = Some k" "k \<le> length l" "scanned (drop k l)"
    by (rule scanned_escape)
  then obtain e t where l: "l = e # t" using escape_len_le [OF k(1)] by (cases l) auto
  show ?thesis
  proof (cases "e = CHR ''u''")
    case False
    with k(1) l have "k = 1" and e: "List.member escape_chars e"
      by (simp_all add: escape_len_def escape_chars_def split: if_split_asm)
    moreover from escape_value_ascii [OF e] have "utf8_valid [escape_value e]" by (simp add: utf8_valid_ascii)
    ultimately
    show ?thesis using False assms(2) l k(3) by (auto simp: unquote_step_def unquote_escape_def)
  next
    case True
    with k l have k5: "k = 5" and t4: "4 \<le> length t" by (auto simp: escape_len_def split: if_splits)
    then have nth: "(t @ [CHR 0x22]) ! i = t ! i" if "i < 4" for i using that by (simp add: nth_append)
    from k(1) l True t4 obtain v where v: "hex4 (t ! 0) (t ! 1) (t ! 2) (t ! 3) = Some v"
      by (auto simp: escape_len_def nth_append split: if_splits)
    have rest: "scanned (drop 4 t)" using k(3) k5 l by simp
    have pair: "scanned (drop 6 (drop 4 t))" if lh: "low_half (drop 4 t) = Some (w, r)" for w r
    proof -
      from lh have len: "6 \<le> length (drop 4 t)" and c: "drop 4 t ! 0 = CHR 0x5C" "drop 4 t ! 1 = CHR ''u''"
        by (auto simp: low_half_def split: if_splits)
      then obtain w where w: "drop 4 t = CHR 0x5C # w" by (cases "drop 4 t") auto
      from rest [unfolded w] obtain m where m: "escape_len (w @ [CHR 0x22]) = Some m" "scanned (drop m w)"
        by (rule scanned_escape)
      have "w \<noteq> []" "hd (w @ [CHR 0x22]) = CHR ''u''" using len c w by (cases w; simp)+
      with m(1) have "m = 5" by (cases w) (auto simp: escape_len_def split: if_splits)
      moreover have "drop 6 (drop 4 t) = drop 5 w" unfolding w by simp
      ultimately show ?thesis using m(2) by simp
    qed
    from assms(2) l True t4 v rest pair show ?thesis
      by (auto simp: unquote_step_def unquote_escape_def encode_rune_valid split: if_splits option.splits)
  qed
qed

lemma unquote_step_scanned:
  assumes "s \<noteq> []" and "scanned s" and "unquote_step s = (out, n)"
  shows "utf8_valid out \<and> scanned (drop n s)"
proof (cases "hd s = CHR 0x5C")
  case True
  with assms show ?thesis using unquote_step_escape [of "tl s" out n] by (metis list.collapse)
next
  case False
  obtain c t where s: "s = c # t" using assms(1) by (cases s) auto
  from assms(2) False s have t: "scanned t" using scanned_plain by auto
  show ?thesis
  proof (cases "byte c < 0x80")
    case True
    with False assms(3) s t show ?thesis by (auto simp: unquote_step_def utf8_valid_ascii)
  next
    case hi: False
    with False assms(3) s have o: "out = encode_rune (fst (decode_rune s))" "n = snd (decode_rune s)"
      by (auto simp: unquote_step_def)
    have "scanned (drop n s)"
    proof (cases "rune_ok (decode_rune s)")
      case True
      from decode_rune_high_bytes [OF assms(1) True] hi s o assms(2) show ?thesis
        using scanned_high [of "take n s" "drop n s"] by simp
    next
      case False
      with o s t show ?thesis by (auto simp: rune_ok_def)
    qed
    with o show ?thesis by (simp add: encode_rune_valid)
  qed
qed

lemma unquote_valid: "scanned s \<Longrightarrow> utf8_valid (unquote s)"
proof (induction s rule: unquote.induct)
  case (1 s)
  show ?case
  proof (cases "s = []")
    case False
    obtain out n where st: "unquote_step s = (out, n)" by fastforce
    from unquote_step_scanned [OF False "1.prems" st] "1.IH" [OF False] st show ?thesis
      by (subst unquote.simps) (simp add: False utf8_valid_append)
  qed simp
qed

lemma scan_string_unquote_valid: "scan_string s = Some (l, r) \<Longrightarrow> utf8_valid (unquote l)"
  by (rule unquote_valid [OF scan_string_scanned])

text \<open>Every string of a parsed value, keys included, is valid UTF-8.\<close>

fun strings_ok :: "json \<Rightarrow> bool" where
  "strings_ok (JStr s) = utf8_valid s"
| "strings_ok (JArr vs) = (\<forall>v \<in> set vs. strings_ok v)"
| "strings_ok (JObj ms) = (\<forall>m \<in> set ms. utf8_valid (fst m) \<and> strings_ok (snd m))"
| "strings_ok _ = True"

lemma scalar_at_strings_ok: "scalar_at s = Some (v, r) \<Longrightarrow> strings_ok v"
  by (auto simp: scalar_at_def literal_at_def scan_string_unquote_valid split: if_splits)

lemma parse_strings_ok:
  shows parse_value_strings_ok: "parse_value f d s = Some (v, r) \<Longrightarrow> strings_ok v"
    and parse_elems_strings_ok: "parse_elems f d s = Some (vs, r) \<Longrightarrow> \<forall>v \<in> set vs. strings_ok v"
    and parse_members_strings_ok:
      "parse_members f d s = Some (ms, r) \<Longrightarrow> \<forall>m \<in> set ms. utf8_valid (fst m) \<and> strings_ok (snd m)"
proof (induction f d s and f d s and f d s arbitrary: v r and vs r and ms r
    rule: parse_value_parse_elems_parse_members.induct)
  case (2 f d s)
  then show ?case
    by (auto simp: Let_def scalar_at_strings_ok split: if_splits)
next
  case (4 f d s)
  then show ?case by (auto simp: Let_def split: if_splits option.splits)
next
  case (6 f d s)
  let ?s = "skip_ws s"
  from "6.prems" obtain k p where k: "starts_with (CHR 0x22) ?s" "scan_string (tl ?s) = Some (k, p)"
    by (auto simp: Let_def split: if_splits option.splits)
  from "6.prems" k obtain v q where v: "starts_with (CHR '':'') (skip_ws p)"
    "parse_value f d (tl (skip_ws p)) = Some (v, q)"
    by (auto simp: Let_def split: if_splits option.splits)
  have "strings_ok v" using "6.IH"(1) [OF refl _ k(2) refl refl _ v(2)] k(1) v(1) by simp
  moreover note scan_string_unquote_valid [OF k(2)]
  ultimately show ?case
    using "6.prems" k v "6.IH"(2) [OF refl _ k(2) refl refl _ v(2) refl refl]
    by (fastforce simp: Let_def split: if_splits)
qed auto

lemma json_document_strings_ok: "json_document s = Some v \<Longrightarrow> strings_ok v"
  by (auto simp: json_document_def json_read_def simp del: parse_value.simps
      dest: parse_value_strings_ok split: option.splits if_splits)

end
