(* ===== verification/Unique_Keys.thy ===== *)
theory Unique_Keys
  imports Json_Stream
begin

section \<open>Duplicate-key detection over a token stream\<close>

text \<open>
  \<open>delegatetask\<close>, \<open>askuser\<close> and \<open>pythonrepl\<close> each walk a document with \<open>Decoder.Token\<close> and refuse
  an object that repeats a decoded key, at any depth. The walk is the same code in the three
  packages; it is translated here once, with fuel for its recursion, and shown to accept
  exactly the well-formed documents in which every object has distinct keys.
\<close>

fun consumeUniqueJSONValue :: "nat \<Rightarrow> decoder \<Rightarrow> decoder option"
and consume_members :: "nat \<Rightarrow> string list \<Rightarrow> decoder \<Rightarrow> decoder option"
and consume_elems :: "nat \<Rightarrow> decoder \<Rightarrow> decoder option" where
  "consumeUniqueJSONValue 0 d = None"
| "consumeUniqueJSONValue (Suc f) d =
     (case Token d of
        None \<Rightarrow> None
      | Some (t, e) \<Rightarrow>
          (case t of
             Delim c \<Rightarrow>
               if c = CHR ''{'' then consume_members f [] e
               else if c = CHR ''['' then consume_elems f e
               else None
           | _ \<Rightarrow> Some e))"
| "consume_members 0 seen d = None"
| "consume_members (Suc f) seen d =
     (if More d then
        (case Token d of
           Some (TStr key, e) \<Rightarrow>
             if List.member seen key then None
             else (case consumeUniqueJSONValue f e of
                     None \<Rightarrow> None
                   | Some e' \<Rightarrow> consume_members f (key # seen) e')
         | _ \<Rightarrow> None)
      else (case Token d of
              Some (Delim c, e) \<Rightarrow> if c = CHR ''}'' then Some e else None
            | _ \<Rightarrow> None))"
| "consume_elems 0 d = None"
| "consume_elems (Suc f) d =
     (if More d then
        (case consumeUniqueJSONValue f d of
           None \<Rightarrow> None
         | Some e \<Rightarrow> consume_elems f e)
      else (case Token d of
              Some (Delim c, e) \<Rightarrow> if c = CHR '']'' then Some e else None
            | _ \<Rightarrow> None))"

definition walk_fuel :: "bytes \<Rightarrow> nat" where
  "walk_fuel raw = 2 * length raw + 1"

definition uniqueJSONKeys :: "bytes \<Rightarrow> bool" where
  "uniqueJSONKeys raw =
     (case consumeUniqueJSONValue (walk_fuel raw) (NewDecoder raw True) of
        None \<Rightarrow> False
      | Some d \<Rightarrow> at_EOF d)"

subsection \<open>The grammar without fuel\<close>

definition value_at :: "nat \<Rightarrow> bytes \<Rightarrow> (json \<times> bytes) option" where
  "value_at d s = parse_value (2 * length s + 1) d s"

definition elems_at :: "nat \<Rightarrow> bytes \<Rightarrow> (json list \<times> bytes) option" where
  "elems_at d s = parse_elems (2 * length s + 2) d s"

definition members_at :: "nat \<Rightarrow> bytes \<Rightarrow> ((string \<times> json) list \<times> bytes) option" where
  "members_at d s = parse_members (2 * length s + 2) d s"

declare parse_value.simps [simp del] parse_elems.simps [simp del] parse_members.simps [simp del]

lemma value_at_eq:
  "value_at d s =
     (let s = skip_ws s in
      if starts_with (CHR ''['') s then
        (let t = skip_ws (tl s) in
         if d = 0 then None
         else if starts_with (CHR '']'') t then Some (JArr [], tl t)
         else map_option (\<lambda>(vs, r). (JArr vs, r)) (elems_at (d - 1) t))
      else if starts_with (CHR ''{'') s then
        (let t = skip_ws (tl s) in
         if d = 0 then None
         else if starts_with (CHR ''}'') t then Some (JObj [], tl t)
         else map_option (\<lambda>(ms, r). (JObj ms, r)) (members_at (d - 1) t))
      else scalar_at s)"
proof -
  let ?s = "skip_ws s" and ?t = "skip_ws (tl (skip_ws s))"
  have "parse_elems (2 * length s) (d - 1) ?t = elems_at (d - 1) ?t
      \<and> parse_members (2 * length s) (d - 1) ?t = members_at (d - 1) ?t" if "starts_with c ?s" for c
  proof -
    have "2 * length ?t + 1 < 2 * length s"
      using length_skip_ws [of "tl ?s"] starts_with_skip [OF that] by linarith
    then show ?thesis
      by (auto simp: elems_at_def members_at_def intro!: parse_elems_fuel parse_members_fuel)
  qed
  then show ?thesis by (simp add: value_at_def Let_def parse_value.simps)
qed

lemma value_at_skip: "value_at d (skip_ws s) = value_at d s"
  using value_at_eq [of d s] value_at_eq [of d "skip_ws s"] by simp

lemma value_at_shrinks: "value_at d s = Some (v, r) \<Longrightarrow> length r < length s"
  by (auto simp: value_at_def dest: parse_value_shrinks)

lemma elems_at_eq:
  "elems_at d s =
     (case value_at d s of
        None \<Rightarrow> None
      | Some (v, r) \<Rightarrow>
          let t = skip_ws r in
          if starts_with (CHR '']'') t then Some ([v], tl t)
          else if starts_with (CHR '','') t then map_option (\<lambda>(vs, q). (v # vs, q)) (elems_at d (tl t))
          else None)"
proof -
  have e: "parse_elems (2 * length s + 1) d (tl (skip_ws r)) = elems_at d (tl (skip_ws r))"
    if "value_at d s = Some (v, r)" "starts_with c (skip_ws r)" for v r c
    using value_at_shrinks [OF that(1)] starts_with_skip [OF that(2)] unfolding elems_at_def
    by (intro parse_elems_fuel) linarith+
  have "elems_at d s = parse_elems (Suc (2 * length s + 1)) d s" by (simp add: elems_at_def)
  then show ?thesis
    using e unfolding parse_elems.simps value_at_def [symmetric]
    by (auto simp: Let_def split: option.split)
qed

lemma members_at_eq:
  "members_at d s =
     (let s = skip_ws s in
      if \<not> starts_with (CHR 0x22) s then None
      else case scan_string (tl s) of
        None \<Rightarrow> None
      | Some (k, r) \<Rightarrow>
          let t = skip_ws r in
          if \<not> starts_with (CHR '':'') t then None
          else case value_at d (tl t) of
            None \<Rightarrow> None
          | Some (v, q) \<Rightarrow>
              let u = skip_ws q in
              if starts_with (CHR ''}'') u then Some ([(unquote k, v)], tl u)
              else if starts_with (CHR '','') u
              then map_option (\<lambda>(ms, w). ((unquote k, v) # ms, w)) (members_at d (tl u))
              else None)"
proof -
  let ?s = "skip_ws s"
  have e: "parse_value (2 * length s + 1) d (tl (skip_ws r)) = value_at d (tl (skip_ws r)) \<and>
      (\<forall>v q c. value_at d (tl (skip_ws r)) = Some (v, q) \<longrightarrow> starts_with c (skip_ws q) \<longrightarrow>
         parse_members (2 * length s + 1) d (tl (skip_ws q)) = members_at d (tl (skip_ws q)))"
    if k: "starts_with (CHR 0x22) ?s" "scan_string (tl ?s) = Some (k, r)" "starts_with (CHR '':'') (skip_ws r)"
    for k r
  proof -
    have r: "length r < length (tl ?s)" using scan_string_append [OF k(2)] by simp
    note len = r starts_with_skip [OF k(1)] starts_with_skip [OF k(3)]
    have "parse_value (2 * length s + 1) d (tl (skip_ws r)) = value_at d (tl (skip_ws r))"
      using len unfolding value_at_def by (intro parse_value_fuel) linarith+
    moreover have "parse_members (2 * length s + 1) d (tl (skip_ws q)) = members_at d (tl (skip_ws q))"
      if "value_at d (tl (skip_ws r)) = Some (v, q)" "starts_with c (skip_ws q)" for v q c
      using value_at_shrinks [OF that(1)] starts_with_skip [OF that(2)] len unfolding members_at_def
      by (intro parse_members_fuel) linarith+
    ultimately show ?thesis by blast
  qed
  have "members_at d s = parse_members (Suc (2 * length s + 1)) d s" by (simp add: members_at_def)
  then show ?thesis
    using e unfolding parse_members.simps by (auto simp: Let_def split: option.split)
qed

subsection \<open>Documents with distinct keys\<close>

fun unique_ok :: "bool \<Rightarrow> json \<Rightarrow> bool" where
  "unique_ok num (JNum l) = (num \<or> float64_ok l)"
| "unique_ok num (JArr vs) = (\<forall>v \<in> set vs. unique_ok num v)"
| "unique_ok num (JObj ms) = (distinct (map fst ms) \<and> (\<forall>m \<in> set ms. unique_ok num (snd m)))"
| "unique_ok num _ = True"

text \<open>The decoder after the closing bracket of the innermost container.\<close>

definition close_to :: "decoder \<Rightarrow> bytes \<Rightarrow> decoder" where
  "close_to d r = d\<lparr>rest := r, tokenStack := tl (tokenStack d), tokenState := tokenValueEnd (hd (tokenStack d))\<rparr>"

definition value_spec :: "nat \<Rightarrow> decoder \<Rightarrow> decoder option" where
  "value_spec dep d =
     (case value_at dep (rest d) of
        None \<Rightarrow> None
      | Some (v, r) \<Rightarrow>
          if unique_ok (useNumber d) v then Some (d\<lparr>rest := r, tokenState := tokenValueEnd (tokenState d)\<rparr>)
          else None)"

definition elems_spec :: "nat \<Rightarrow> decoder \<Rightarrow> bytes \<Rightarrow> decoder option" where
  "elems_spec dep d t =
     (case elems_at dep t of
        None \<Rightarrow> None
      | Some (vs, r) \<Rightarrow> if \<forall>v \<in> set vs. unique_ok (useNumber d) v then Some (close_to d r) else None)"

definition members_spec :: "nat \<Rightarrow> string list \<Rightarrow> decoder \<Rightarrow> bytes \<Rightarrow> decoder option" where
  "members_spec dep seen d t =
     (case members_at dep t of
        None \<Rightarrow> None
      | Some (ms, r) \<Rightarrow>
          if distinct (map fst ms) \<and> set (map fst ms) \<inter> set seen = {}
             \<and> (\<forall>m \<in> set ms. unique_ok (useNumber d) (snd m))
          then Some (close_to d r) else None)"

lemma scalar_at_punct:
  "s = [] \<or> hd s = CHR '']'' \<or> hd s = CHR ''}'' \<or> hd s = CHR '':'' \<or> hd s = CHR '','' \<Longrightarrow> scalar_at s = None"
  by (cases s; elim disjE)
     (simp_all add: scalar_at_def literal_at_def HasPrefix_def scan_number_def scan_int_def digits1_def is_digit_def)

lemma scalar_at_not_container: "scalar_at s = Some (v, r) \<Longrightarrow> unique_ok num v \<longleftrightarrow> scalar_token num v \<noteq> None"
  by (auto simp: scalar_at_def literal_at_def split: if_splits)

lemma scalar_token_not_Delim: "scalar_token num v = Some t \<Longrightarrow> t \<noteq> Delim c"
  by (cases v) (auto split: if_splits)

lemma Token_comma:
  "starts_with (CHR '','') (peek d) \<Longrightarrow> Token d =
     (if tokenState d = ArrayComma then Token (d\<lparr>rest := tl (peek d), tokenState := ArrayValue\<rparr>)
      else if tokenState d = ObjectComma then Token (d\<lparr>rest := tl (peek d), tokenState := ObjectKey\<rparr>)
      else None)"
  by (subst Token.simps) (simp add: Let_def starts_with_def)

lemma Token_colon:
  "starts_with (CHR '':'') (peek d) \<Longrightarrow> Token d =
     (if tokenState d = ObjectColon then Token (d\<lparr>rest := tl (peek d), tokenState := ObjectValue\<rparr>) else None)"
  by (subst Token.simps) (simp add: Let_def starts_with_def)

lemma Token_close:
  assumes "c = CHR '']'' \<or> c = CHR ''}''" and "starts_with c (peek d)" and "tokenStack d \<noteq> []"
  shows "Token d =
    (if List.member (if c = CHR '']'' then [ArrayStart, ArrayComma] else [ObjectStart, ObjectComma]) (tokenState d)
     then Some (Delim c, close_to d (tl (peek d))) else None)"
  using assms by (subst Token.simps) (auto simp: Let_def starts_with_def close_to_def split: list.split)

lemma Token_rbracket:
  "starts_with (CHR '']'') (peek d) \<Longrightarrow> tokenStack d \<noteq> [] \<Longrightarrow> Token d =
     (if tokenState d = ArrayStart \<or> tokenState d = ArrayComma
      then Some (Delim (CHR '']''), close_to d (tl (peek d))) else None)"
  using Token_close [of "CHR '']''" d] by simp

lemma Token_rbrace:
  "starts_with (CHR ''}'') (peek d) \<Longrightarrow> tokenStack d \<noteq> [] \<Longrightarrow> Token d =
     (if tokenState d = ObjectStart \<or> tokenState d = ObjectComma
      then Some (Delim (CHR ''}''), close_to d (tl (peek d))) else None)"
  using Token_close [of "CHR ''}''" d] by simp

lemma Token_key:
  assumes "starts_with (CHR 0x22) (peek d)" and "tokenState d = ObjectStart \<or> tokenState d = ObjectKey"
  shows "Token d = (case scan_string (tl (peek d)) of
      None \<Rightarrow> None
    | Some (l, r) \<Rightarrow> Some (TStr (unquote l), d\<lparr>rest := r, tokenState := ObjectColon\<rparr>))"
  using assms by (subst Token.simps) (simp add: Let_def starts_with_def)

text \<open>In a state that expects punctuation or a key, anything else is an error.\<close>

lemma Token_unexpected:
  assumes "\<not> tokenValueAllowed (tokenState d)"
    and "\<not> starts_with (CHR '','') (peek d)" and "\<not> starts_with (CHR '':'') (peek d)"
    and "\<not> starts_with (CHR '']'') (peek d)" and "\<not> starts_with (CHR ''}'') (peek d)"
    and "\<not> (starts_with (CHR 0x22) (peek d) \<and> (tokenState d = ObjectStart \<or> tokenState d = ObjectKey))"
  shows "Token d = None"
proof (cases "peek d = []")
  case True
  then show ?thesis by (subst Token.simps) simp
next
  case False
  with assms show ?thesis by (subst Token.simps) (simp add: Let_def starts_with_def, blast)
qed

lemma Token_value:
  assumes "tokenValueAllowed (tokenState d)" and "\<not> starts_with (CHR '']'') (peek d)"
  shows "Token d =
    (let s = peek d in
     if starts_with (CHR ''['') s then
       Some (Delim (CHR ''[''), d\<lparr>rest := tl s, tokenStack := tokenState d # tokenStack d, tokenState := ArrayStart\<rparr>)
     else if starts_with (CHR ''{'') s then
       Some (Delim (CHR ''{''), d\<lparr>rest := tl s, tokenStack := tokenState d # tokenStack d, tokenState := ObjectStart\<rparr>)
     else case scalar_at s of
       None \<Rightarrow> None
     | Some (v, r) \<Rightarrow> map_option (\<lambda>t. (t, d\<lparr>rest := r, tokenState := tokenValueEnd (tokenState d)\<rparr>))
                      (scalar_token (useNumber d) v))"
proof -
  have st: "tokenState d \<noteq> ObjectStart" "tokenState d \<noteq> ObjectKey" "tokenState d \<noteq> ObjectColon"
    "tokenState d \<noteq> ObjectComma" "tokenState d \<noteq> ArrayComma"
    using assms(1) by (auto simp: tokenValueAllowed_def)
  show ?thesis
    using assms st scalar_at_punct [of "peek d"] by (subst Token.simps) (auto simp: Let_def starts_with_def)
qed

subsection \<open>The walk accepts exactly those documents\<close>

definition walks_values :: "nat \<Rightarrow> bool" where
  "walks_values f \<longleftrightarrow> (\<forall>d dep. tokenValueAllowed (tokenState d) \<longrightarrow> 2 * length (rest d) < f \<longrightarrow>
     length (rest d) \<le> dep \<longrightarrow> consumeUniqueJSONValue f d = value_spec dep d)"

definition walks_elems :: "nat \<Rightarrow> bool" where
  "walks_elems f \<longleftrightarrow> (\<forall>d dep. tokenStack d \<noteq> [] \<longrightarrow> 2 * length (rest d) + 1 < f \<longrightarrow> length (rest d) \<le> dep \<longrightarrow>
     (tokenState d = ArrayStart \<longrightarrow> consume_elems f d =
        (if starts_with (CHR '']'') (peek d) then Some (close_to d (tl (peek d))) else elems_spec dep d (peek d)))
     \<and> (tokenState d = ArrayComma \<longrightarrow> consume_elems f d =
        (if starts_with (CHR '']'') (peek d) then Some (close_to d (tl (peek d)))
         else if starts_with (CHR '','') (peek d) then elems_spec dep d (tl (peek d)) else None)))"

definition walks_members :: "nat \<Rightarrow> bool" where
  "walks_members f \<longleftrightarrow> (\<forall>d dep seen. tokenStack d \<noteq> [] \<longrightarrow> 2 * length (rest d) + 1 < f \<longrightarrow> length (rest d) \<le> dep \<longrightarrow>
     (tokenState d = ObjectStart \<longrightarrow> consume_members f seen d =
        (if starts_with (CHR ''}'') (peek d) then Some (close_to d (tl (peek d))) else members_spec dep seen d (peek d)))
     \<and> (tokenState d = ObjectComma \<longrightarrow> consume_members f seen d =
        (if starts_with (CHR ''}'') (peek d) then Some (close_to d (tl (peek d)))
         else if starts_with (CHR '','') (peek d) then members_spec dep seen d (tl (peek d)) else None)))"

lemma More_iff: "More d \<longleftrightarrow> peek d \<noteq> [] \<and> \<not> starts_with (CHR '']'') (peek d) \<and> \<not> starts_with (CHR ''}'') (peek d)"
  by (auto simp: More_def starts_with_def)

lemma More_starts: "starts_with c (peek d) \<Longrightarrow> c \<noteq> CHR '']'' \<Longrightarrow> c \<noteq> CHR ''}'' \<Longrightarrow> More d"
  by (auto simp: More_def starts_with_def)

lemma consume_comma_array:
  assumes "starts_with (CHR '','') (peek d)" and "tokenState d = ArrayComma"
  shows "consumeUniqueJSONValue f d = consumeUniqueJSONValue f (d\<lparr>rest := tl (peek d), tokenState := ArrayValue\<rparr>)"
  using assms by (cases f) (simp_all add: Token_comma)

lemma consume_colon:
  assumes "starts_with (CHR '':'') (peek d)" and "tokenState d = ObjectColon"
  shows "consumeUniqueJSONValue f d = consumeUniqueJSONValue f (d\<lparr>rest := tl (peek d), tokenState := ObjectValue\<rparr>)"
  using assms by (cases f) (simp_all add: Token_colon)

lemma starts_with_unique: "starts_with c s \<Longrightarrow> starts_with c' s \<longleftrightarrow> c' = c"
  by (auto simp: starts_with_def)

lemma value_at_punct:
  "s = [] \<or> hd s = CHR '']'' \<or> hd s = CHR ''}'' \<or> hd s = CHR '':'' \<or> hd s = CHR '','' \<Longrightarrow> skip_ws s = s \<Longrightarrow>
   value_at d s = None"
  by (subst value_at_eq) (auto simp: Let_def scalar_at_punct starts_with_def)

lemma peek_skip [simp]: "skip_ws (peek d) = peek d"
  by (simp add: peek_def)

lemma value_at_peek: "value_at dep (peek d) = value_at dep (rest d)"
  by (simp add: peek_def value_at_skip)

lemma walks_values_step:
  assumes E: "walks_elems f" and M: "walks_members f"
  shows "walks_values (Suc f)"
  unfolding walks_values_def
proof (intro allI impI)
  fix d :: decoder and dep
  assume st: "tokenValueAllowed (tokenState d)" and f: "2 * length (rest d) < Suc f" and dep: "length (rest d) \<le> dep"
  let ?s = "peek d"
  consider "starts_with (CHR ''['') ?s" | "starts_with (CHR ''{'') ?s" | "starts_with (CHR '']'') ?s"
    | "\<not> starts_with (CHR ''['') ?s" "\<not> starts_with (CHR ''{'') ?s" "\<not> starts_with (CHR '']'') ?s" by blast
  then show "consumeUniqueJSONValue (Suc f) d = value_spec dep d"
  proof cases
    case 1
    let ?e = "d\<lparr>rest := tl ?s, tokenStack := tokenState d # tokenStack d, tokenState := ArrayStart\<rparr>"
    have T: "Token d = Some (Delim (CHR ''[''), ?e)"
      using st 1 by (subst Token_value) (simp_all add: starts_with_unique [OF 1])
    have l: "length (tl ?s) < length (rest d)" using 1 peek_tl [of d] by (auto simp: starts_with_def)
    have "consume_elems f ?e = (if starts_with (CHR '']'') (peek ?e) then Some (close_to ?e (tl (peek ?e)))
        else elems_spec (dep - 1) ?e (peek ?e))"
      using E [unfolded walks_elems_def, rule_format, of ?e "dep - 1"] l f dep by simp
    with T l dep 1 show ?thesis
      by (auto simp: value_spec_def value_at_eq [of dep "rest d"] peek_def elems_spec_def close_to_def Let_def
          split: option.split)
  next
    case 2
    let ?e = "d\<lparr>rest := tl ?s, tokenStack := tokenState d # tokenStack d, tokenState := ObjectStart\<rparr>"
    have T: "Token d = Some (Delim (CHR ''{''), ?e)"
      using st 2 by (subst Token_value) (simp_all add: starts_with_unique [OF 2])
    have l: "length (tl ?s) < length (rest d)" using 2 peek_tl [of d] by (auto simp: starts_with_def)
    have "consume_members f [] ?e = (if starts_with (CHR ''}'') (peek ?e) then Some (close_to ?e (tl (peek ?e)))
        else members_spec (dep - 1) [] ?e (peek ?e))"
      using M [unfolded walks_members_def, rule_format, of ?e "dep - 1"] l f dep by simp
    with T l dep 2 show ?thesis
      by (auto simp: value_spec_def value_at_eq [of dep "rest d"] peek_def members_spec_def close_to_def Let_def
          starts_with_unique split: option.split)
  next
    case 3
    then have v: "value_at dep (rest d) = None"
      using value_at_punct [of ?s dep] by (simp add: value_at_peek starts_with_def)
    have "\<not> (\<exists>e c. Token d = Some (Delim c, e) \<and> (c = CHR ''{'' \<or> c = CHR ''['')) \<and>
        (\<forall>t e. Token d = Some (t, e) \<longrightarrow> t = Delim (CHR '']''))"
      using 3 by (subst (1 2) Token.simps) (auto simp: Let_def starts_with_def split: list.splits)
    with v show ?thesis by (auto simp: value_spec_def split: option.split token.split)
  next
    case 4
    from st 4 have "Token d = (case scalar_at ?s of None \<Rightarrow> None
       | Some (v, r) \<Rightarrow> map_option (\<lambda>t. (t, d\<lparr>rest := r, tokenState := tokenValueEnd (tokenState d)\<rparr>))
                      (scalar_token (useNumber d) v))"
      by (simp add: Token_value)
    moreover have "value_at dep (rest d) = scalar_at ?s"
      using 4 by (simp add: value_at_eq [of dep "rest d"] peek_def Let_def)
    ultimately show ?thesis
      by (auto simp: value_spec_def scalar_at_not_container dest: scalar_token_not_Delim
          split: option.split token.split)
  qed
qed

lemma elems_at_punct: "s = [] \<or> hd s = CHR ''}'' \<Longrightarrow> skip_ws s = s \<Longrightarrow> elems_at d s = None"
  using value_at_punct [of s d] by (subst elems_at_eq) auto

text \<open>One element and what follows it, in a state where a value may come.\<close>

lemma consume_elem:
  assumes V: "walks_values f" and E: "walks_elems f"
    and st: "tokenState e = ArrayStart \<or> tokenState e = ArrayValue" and stk: "tokenStack e \<noteq> []"
    and f: "2 * length (rest e) < f" and dep: "length (rest e) \<le> dep"
  shows "(case consumeUniqueJSONValue f e of None \<Rightarrow> None | Some e' \<Rightarrow> consume_elems f e') = elems_spec dep e (rest e)"
proof (cases "value_at dep (rest e)")
  case None
  moreover have "consumeUniqueJSONValue f e = value_spec dep e"
    using V [unfolded walks_values_def] st f dep by (auto simp: tokenValueAllowed_def)
  ultimately show ?thesis by (simp add: value_spec_def elems_spec_def elems_at_eq [of dep "rest e"])
next
  case (Some p)
  obtain v r where p: "p = (v, r)" by (cases p)
  let ?e = "e\<lparr>rest := r, tokenState := ArrayComma\<rparr>"
  have c: "consumeUniqueJSONValue f e = (if unique_ok (useNumber e) v then Some ?e else None)"
    using V [unfolded walks_values_def] st f dep Some p
    by (auto simp: tokenValueAllowed_def value_spec_def tokenValueEnd_def)
  from Some p have r: "length r < length (rest e)" using value_at_shrinks by blast
  then have "consume_elems f ?e =
      (if starts_with (CHR '']'') (peek ?e) then Some (close_to ?e (tl (peek ?e)))
       else if starts_with (CHR '','') (peek ?e) then elems_spec dep ?e (tl (peek ?e)) else None)"
    using E [unfolded walks_elems_def, rule_format, of ?e dep] stk f dep by simp
  with c Some p show ?thesis
    by (auto simp: elems_spec_def elems_at_eq [of dep "rest e"] peek_def close_to_def Let_def split: option.split)
qed

lemma walks_elems_step:
  assumes V: "walks_values f" and E: "walks_elems f"
  shows "walks_elems (Suc f)"
  unfolding walks_elems_def
proof (intro allI impI)
  fix d :: decoder and dep
  assume stk: "tokenStack d \<noteq> []" and f: "2 * length (rest d) + 1 < Suc f" and dep: "length (rest d) \<le> dep"
  let ?s = "peek d"
  have start: "consume_elems (Suc f) d =
      (if starts_with (CHR '']'') ?s then Some (close_to d (tl ?s)) else elems_spec dep d ?s)"
    if st: "tokenState d = ArrayStart"
  proof -
    consider "starts_with (CHR '']'') ?s" | "?s = [] \<or> starts_with (CHR ''}'') ?s" | "More d"
      by (auto simp: More_iff)
    then show ?thesis
    proof cases
      case 1
      then show ?thesis using st stk by (simp add: More_iff Token_rbracket Token_rbrace)
    next
      case 2
      have none: "Token d = None"
        using 2 st stk by (elim disjE) (subst Token.simps, simp, simp add: Token_rbracket Token_rbrace)
      have e: "elems_spec dep d ?s = None"
        using 2 elems_at_punct [of ?s dep] by (auto simp: elems_spec_def starts_with_def)
      show ?thesis using 2
      proof
        assume "?s = []"
        with none e show ?thesis by (simp add: More_iff)
      next
        assume "starts_with (CHR ''}'') ?s"
        with none e show ?thesis by (simp add: More_iff starts_with_unique)
      qed
    next
      case 3
      have "elems_spec dep d (rest d) = elems_spec dep d ?s"
        by (simp add: elems_spec_def elems_at_eq [of dep "rest d"] elems_at_eq [of dep ?s] value_at_peek)
      with 3 consume_elem [OF V E, of d dep] st stk f dep show ?thesis by (auto simp: More_iff)
    qed
  qed
  have comma: "consume_elems (Suc f) d =
      (if starts_with (CHR '']'') ?s then Some (close_to d (tl ?s))
       else if starts_with (CHR '','') ?s then elems_spec dep d (tl ?s) else None)"
    if st: "tokenState d = ArrayComma"
  proof -
    have nv: "\<not> tokenValueAllowed (tokenState d)" using st by (simp add: tokenValueAllowed_def)
    consider "starts_with (CHR '']'') ?s" | "starts_with (CHR '','') ?s" | "starts_with (CHR ''}'') ?s"
      | "starts_with (CHR '':'') ?s"
      | "\<not> starts_with (CHR '']'') ?s" "\<not> starts_with (CHR '','') ?s" "\<not> starts_with (CHR ''}'') ?s"
        "\<not> starts_with (CHR '':'') ?s" by blast
    then show ?thesis
    proof cases
      case 1
      then show ?thesis using st stk by (simp add: More_iff Token_rbracket Token_rbrace)
    next
      case 2
      let ?e = "d\<lparr>rest := tl ?s, tokenState := ArrayValue\<rparr>"
      have l: "length (tl ?s) < length (rest d)" using 2 peek_tl [of d] by (auto simp: starts_with_def)
      have "More d" using 2 by (rule More_starts) simp_all
      moreover have "elems_spec dep ?e (tl ?s) = elems_spec dep d (tl ?s)"
        by (auto simp: elems_spec_def close_to_def split: option.split)
      ultimately show ?thesis
        using consume_elem [OF V E, of ?e dep] consume_comma_array [OF 2 st] stk f dep l
        by (simp add: starts_with_unique [OF 2])
    next
      case 3
      then show ?thesis using st stk by (simp add: More_iff Token_rbracket Token_rbrace starts_with_unique [OF 3])
    next
      case 4
      then have "consumeUniqueJSONValue f d = None" using st by (cases f) (simp_all add: Token_colon)
      with 4 st show ?thesis by (simp add: Token_colon starts_with_unique [OF 4])
    next
      case 5
      then have T: "Token d = None" using Token_unexpected [OF nv] st by simp
      then have "consumeUniqueJSONValue f d = None" by (cases f) simp_all
      with T 5 show ?thesis by simp
    qed
  qed
  from start comma show
    "(tokenState d = ArrayStart \<longrightarrow> consume_elems (Suc f) d =
        (if starts_with (CHR '']'') ?s then Some (close_to d (tl ?s)) else elems_spec dep d ?s))
     \<and> (tokenState d = ArrayComma \<longrightarrow> consume_elems (Suc f) d =
        (if starts_with (CHR '']'') ?s then Some (close_to d (tl ?s))
         else if starts_with (CHR '','') ?s then elems_spec dep d (tl ?s) else None))" by blast
qed

text \<open>One member and what follows it, in a state where a key may come.\<close>

definition member_step :: "nat \<Rightarrow> string list \<Rightarrow> decoder \<Rightarrow> decoder option" where
  "member_step f seen d =
     (case Token d of
        Some (TStr key, e) \<Rightarrow>
          if List.member seen key then None
          else (case consumeUniqueJSONValue f e of None \<Rightarrow> None | Some e' \<Rightarrow> consume_members f (key # seen) e')
      | _ \<Rightarrow> None)"

lemma consume_members_More: "More d \<Longrightarrow> consume_members (Suc f) seen d = member_step f seen d"
  by (simp add: member_step_def)

lemma consume_not_colon:
  assumes "tokenState d = ObjectColon" and "tokenStack d \<noteq> []" and "\<not> starts_with (CHR '':'') (peek d)"
  shows "consumeUniqueJSONValue f d = None"
proof -
  have "Token d = None"
    using assms Token_comma [of d] Token_rbracket [of d] Token_rbrace [of d] Token_unexpected [of d]
    by (simp add: tokenValueAllowed_def) blast
  then show ?thesis by (cases f) simp_all
qed

lemma consume_member:
  assumes V: "walks_values f" and M: "walks_members f"
    and st: "tokenState e = ObjectStart \<or> tokenState e = ObjectKey" and stk: "tokenStack e \<noteq> []"
    and key: "starts_with (CHR 0x22) (peek e)"
    and f: "2 * length (rest e) < f" and dep: "length (rest e) \<le> dep"
  shows "member_step f seen e = members_spec dep seen e (peek e)"
proof (cases "scan_string (tl (peek e))")
  case None
  with key st show ?thesis
    by (simp add: member_step_def Token_key members_spec_def members_at_eq [of dep "peek e"])
next
  case (Some p)
  obtain l r where p: "p = (l, r)" by (cases p)
  let ?e = "e\<lparr>rest := r, tokenState := ObjectColon\<rparr>"
  have T: "Token e = Some (TStr (unquote l), ?e)" using key st Some p by (simp add: Token_key)
  have r: "length r < length (rest e)"
    using Some p peek_tl [of e] key by (auto dest!: scan_string_append simp: starts_with_def simp del: length_tl)
  show ?thesis
  proof (cases "starts_with (CHR '':'') (skip_ws r)")
    case False
    then have "consumeUniqueJSONValue f ?e = None" using stk by (intro consume_not_colon) (simp_all add: peek_def)
    with T False Some p key show ?thesis
      by (simp add: member_step_def members_spec_def members_at_eq [of dep "peek e"])
  next
    case True
    let ?x = "e\<lparr>rest := tl (skip_ws r), tokenState := ObjectValue\<rparr>"
    have xl: "length (tl (skip_ws r)) < length (rest e)" using r starts_with_skip [OF True] by linarith
    have cx: "consumeUniqueJSONValue f ?e = value_spec dep ?x"
      using consume_colon [of ?e f] True V [unfolded walks_values_def, rule_format, of ?x dep] xl f dep
      by (simp add: peek_def tokenValueAllowed_def)
    show ?thesis
    proof (cases "value_at dep (tl (skip_ws r))")
      case None
      with T True Some p key cx show ?thesis
        by (simp add: member_step_def members_spec_def members_at_eq [of dep "peek e"] value_spec_def)
    next
      case v: (Some q)
      obtain v u where q: "q = (v, u)" by (cases q)
      let ?y = "e\<lparr>rest := u, tokenState := ObjectComma\<rparr>"
      have ul: "length u < length (rest e)" using value_at_shrinks v q xl by fastforce
      have cy: "consumeUniqueJSONValue f ?e = (if unique_ok (useNumber e) v then Some ?y else None)"
        using cx v q by (simp add: value_spec_def tokenValueEnd_def)
      have my: "consume_members f s' ?y =
        (if starts_with (CHR ''}'') (peek ?y) then Some (close_to ?y (tl (peek ?y)))
         else if starts_with (CHR '','') (peek ?y) then members_spec dep s' ?y (tl (peek ?y)) else None)" for s'
        using M [unfolded walks_members_def, rule_format, of ?y dep s'] stk f dep ul by simp
      have step: "member_step f seen e = (if List.member seen (unquote l) \<or> \<not> unique_ok (useNumber e) v then None
          else consume_members f (unquote l # seen) ?y)"
        using T cy by (simp add: member_step_def)
      have at: "members_at dep (peek e) =
          (if starts_with (CHR ''}'') (skip_ws u) then Some ([(unquote l, v)], tl (skip_ws u))
           else if starts_with (CHR '','') (skip_ws u)
           then map_option (\<lambda>(ms, w). ((unquote l, v) # ms, w)) (members_at dep (tl (skip_ws u))) else None)"
        using True Some p key v q by (simp add: members_at_eq [of dep "peek e"] Let_def)
      have cl: "close_to ?y = close_to e" by (rule ext) (simp add: close_to_def)
      have py: "peek ?y = skip_ws u" by (simp add: peek_def)
      show ?thesis
        unfolding step my py cl members_spec_def at
        by (cases "members_at dep (tl (skip_ws u))") auto
    qed
  qed
qed

lemma members_at_punct: "\<not> starts_with (CHR 0x22) (skip_ws s) \<Longrightarrow> members_at d s = None"
  by (subst members_at_eq) simp

lemma member_step_unexpected:
  assumes "tokenState d = ObjectStart \<or> tokenState d = ObjectKey" and "tokenStack d \<noteq> []"
    and "\<not> starts_with (CHR 0x22) (peek d)"
  shows "member_step f seen d = None"
proof -
  have nv: "\<not> tokenValueAllowed (tokenState d)" using assms(1) by (auto simp: tokenValueAllowed_def)
  have "Token d = None" if "starts_with (CHR '','') (peek d) \<or> starts_with (CHR '':'') (peek d)"
    using that assms(1) Token_comma [of d] Token_colon [of d] by auto
  moreover have "Token d = None \<or> (\<exists>c e. Token d = Some (Delim c, e))"
    if "starts_with (CHR '']'') (peek d) \<or> starts_with (CHR ''}'') (peek d)"
    using that Token_rbracket [OF _ assms(2)] Token_rbrace [OF _ assms(2)] by auto
  ultimately have "Token d = None \<or> (\<exists>c e. Token d = Some (Delim c, e))"
    using Token_unexpected [OF nv] assms(3) by blast
  then show ?thesis by (auto simp: member_step_def)
qed

lemma members_spec_upd:
  "members_spec dep seen (d\<lparr>rest := r, tokenState := s\<rparr>) t = members_spec dep seen d t"
  by (auto simp: members_spec_def close_to_def split: option.split)

lemma members_at_skip: "members_at dep (skip_ws s) = members_at dep s"
  using members_at_eq [of dep s] members_at_eq [of dep "skip_ws s"] by simp

lemma member_step_any:
  assumes "walks_values f" and "walks_members f"
    and "tokenState e = ObjectStart \<or> tokenState e = ObjectKey" and "tokenStack e \<noteq> []"
    and "2 * length (rest e) < f" and "length (rest e) \<le> dep"
  shows "member_step f seen e = members_spec dep seen e (rest e)"
proof (cases "starts_with (CHR 0x22) (peek e)")
  case True
  with consume_member [OF assms(1-4) True assms(5,6)] show ?thesis
    by (simp add: members_spec_def peek_def members_at_skip)
next
  case False
  then show ?thesis
    using member_step_unexpected [OF assms(3,4) False] members_at_punct [of "rest e" dep]
    by (simp add: members_spec_def peek_def)
qed

lemma walks_members_step:
  assumes V: "walks_values f" and M: "walks_members f"
  shows "walks_members (Suc f)"
  unfolding walks_members_def
proof (intro allI impI)
  fix d :: decoder and dep seen
  assume stk: "tokenStack d \<noteq> []" and f: "2 * length (rest d) + 1 < Suc f" and dep: "length (rest d) \<le> dep"
  let ?s = "peek d"
  have start: "consume_members (Suc f) seen d =
      (if starts_with (CHR ''}'') ?s then Some (close_to d (tl ?s)) else members_spec dep seen d ?s)"
    if st: "tokenState d = ObjectStart"
  proof -
    have none: "members_spec dep seen d ?s = None" if "\<not> starts_with (CHR 0x22) ?s"
      using that members_at_punct [of ?s dep] by (simp add: members_spec_def)
    consider "starts_with (CHR ''}'') ?s" | "starts_with (CHR '']'') ?s" | "?s = []" | "More d"
      by (auto simp: More_iff)
    then show ?thesis
    proof cases
      case 1
      then show ?thesis using st stk by (simp add: More_iff Token_rbrace)
    next
      case 2
      then show ?thesis using st stk none by (simp add: More_iff Token_rbracket starts_with_unique [OF 2])
    next
      case 3
      then have "Token d = None" by (subst Token.simps) simp
      with 3 none show ?thesis by (simp add: More_iff)
    next
      case 4
      have "members_spec dep seen d ?s = members_spec dep seen d (rest d)"
        by (simp add: members_spec_def peek_def members_at_skip)
      with 4 member_step_any [OF V M, of d dep seen] st stk f dep show ?thesis
        by (simp add: consume_members_More del: consume_members.simps) (simp add: More_iff)
    qed
  qed
  have comma: "consume_members (Suc f) seen d =
      (if starts_with (CHR ''}'') ?s then Some (close_to d (tl ?s))
       else if starts_with (CHR '','') ?s then members_spec dep seen d (tl ?s) else None)"
    if st: "tokenState d = ObjectComma"
  proof -
    have nv: "\<not> tokenValueAllowed (tokenState d)" using st by (simp add: tokenValueAllowed_def)
    consider "starts_with (CHR ''}'') ?s" | "starts_with (CHR '','') ?s" | "starts_with (CHR '']'') ?s"
      | "starts_with (CHR '':'') ?s"
      | "\<not> starts_with (CHR '']'') ?s" "\<not> starts_with (CHR '','') ?s" "\<not> starts_with (CHR ''}'') ?s"
        "\<not> starts_with (CHR '':'') ?s" by blast
    then show ?thesis
    proof cases
      case 1
      then show ?thesis using st stk by (simp add: More_iff Token_rbrace)
    next
      case 2
      let ?e = "d\<lparr>rest := tl ?s, tokenState := ObjectKey\<rparr>"
      have l: "length (tl ?s) < length (rest d)" using 2 peek_tl [of d] by (auto simp: starts_with_def)
      have "More d" using 2 by (rule More_starts) simp_all
      moreover have "member_step f seen d = member_step f seen ?e"
        using Token_comma [OF 2] st by (simp add: member_step_def)
      ultimately show ?thesis
        using member_step_any [OF V M, of ?e dep seen] stk f dep l
        by (simp add: consume_members_More starts_with_unique [OF 2] members_spec_upd del: consume_members.simps)
    next
      case 3
      then show ?thesis using st stk by (simp add: More_iff Token_rbracket starts_with_unique [OF 3])
    next
      case 4
      with st show ?thesis by (simp add: Token_colon starts_with_unique [OF 4])
    next
      case 5
      then have T: "Token d = None" using Token_unexpected [OF nv] st by simp
      with 5 show ?thesis by simp
    qed
  qed
  from start comma show
    "(tokenState d = ObjectStart \<longrightarrow> consume_members (Suc f) seen d =
        (if starts_with (CHR ''}'') ?s then Some (close_to d (tl ?s)) else members_spec dep seen d ?s))
     \<and> (tokenState d = ObjectComma \<longrightarrow> consume_members (Suc f) seen d =
        (if starts_with (CHR ''}'') ?s then Some (close_to d (tl ?s))
         else if starts_with (CHR '','') ?s then members_spec dep seen d (tl ?s) else None))" by blast
qed

lemma walks_all: "walks_values f \<and> walks_elems f \<and> walks_members f"
proof (induction f)
  case 0
  show ?case by (simp add: walks_values_def walks_elems_def walks_members_def)
next
  case (Suc f)
  then show ?case using walks_values_step walks_elems_step walks_members_step by blast
qed

lemma consume_value:
  "tokenValueAllowed (tokenState d) \<Longrightarrow> 2 * length (rest d) < f \<Longrightarrow> length (rest d) \<le> dep \<Longrightarrow>
   consumeUniqueJSONValue f d = value_spec dep d"
  using walks_all [of f] unfolding walks_values_def by blast

text \<open>Depth is bounded by length, so the grammar with any bound from the length on is the same.\<close>

lemma uniqueJSONKeys_at:
  assumes "length raw \<le> dep"
  shows "uniqueJSONKeys raw \<longleftrightarrow>
    (case value_at dep raw of None \<Rightarrow> False | Some (v, r) \<Rightarrow> skip_ws r = [] \<and> unique_ok True v)"
  using consume_value [of "NewDecoder raw True" "walk_fuel raw" dep] assms
  by (auto simp: uniqueJSONKeys_def NewDecoder_def tokenValueAllowed_def walk_fuel_def value_spec_def at_EOF_def
      peek_def split: option.split)

lemma parse_depth_mono:
  shows parse_value_mono: "parse_value f d s = Some (v, r) \<Longrightarrow> d \<le> d' \<Longrightarrow> parse_value f d' s = Some (v, r)"
    and parse_elems_mono: "parse_elems f d s = Some (vs, r) \<Longrightarrow> d \<le> d' \<Longrightarrow> parse_elems f d' s = Some (vs, r)"
    and parse_members_mono: "parse_members f d s = Some (ms, r) \<Longrightarrow> d \<le> d' \<Longrightarrow> parse_members f d' s = Some (ms, r)"
proof (induction f d s and f d s and f d s arbitrary: v r d' and vs r d' and ms r d'
    rule: parse_value_parse_elems_parse_members.induct)
  case (2 f d s)
  have dd: "d - 1 \<le> d' - 1" "d' = 0 \<Longrightarrow> d = 0" using "2.prems" by simp_all
  note E = "2.IH"(1) [OF refl _ refl _ _ _ dd(1)] and M = "2.IH"(2) [OF refl _ _ refl _ _ _ dd(1)]
  from "2.prems"(1) E M dd(2) show ?case
    by (simp add: parse_value.simps Let_def split: if_split_asm) blast+
next
  case (4 f d s)
  from "4.prems" obtain v q where v: "parse_value f d s = Some (v, q)"
    by (auto simp: parse_elems.simps split: option.splits)
  let ?t = "skip_ws q"
  have IH: "parse_elems f d' (tl ?t) = Some w"
    if "\<not> starts_with (CHR '']'') ?t" "starts_with (CHR '','') ?t" "parse_elems f d (tl ?t) = Some w" for w
    using "4.IH"(2) [OF v refl refl that(1,2), of "fst w" "snd w" d'] that(3) "4.prems"(2) by simp
  show ?case
    using "4.prems"(1) v "4.IH"(1) [OF v "4.prems"(2)] IH
    by (cases "parse_elems f d (tl ?t)") (simp_all add: parse_elems.simps Let_def split: if_split_asm)
next
  case (6 f d s)
  let ?s = "skip_ws s"
  from "6.prems" obtain k p where k: "starts_with (CHR 0x22) ?s" "scan_string (tl ?s) = Some (k, p)"
    by (auto simp: parse_members.simps Let_def split: if_splits option.splits)
  from "6.prems" k obtain v q where v: "starts_with (CHR '':'') (skip_ws p)"
    "parse_value f d (tl (skip_ws p)) = Some (v, q)"
    by (auto simp: parse_members.simps Let_def split: if_splits option.splits)
  have pv: "parse_value f d' (tl (skip_ws p)) = Some (v, q)"
    using "6.IH"(1) [OF refl _ k(2) refl refl _ v(2) "6.prems"(2)] k(1) v(1) by simp
  let ?u = "skip_ws q"
  have IH: "parse_members f d' (tl ?u) = Some w"
    if "\<not> starts_with (CHR ''}'') ?u" "starts_with (CHR '','') ?u" "parse_members f d (tl ?u) = Some w" for w
    using "6.IH"(2) [OF refl _ k(2) refl refl _ v(2) refl refl that(1,2), of "fst w" "snd w" d'] that(3)
      "6.prems"(2) k(1) v(1) by simp
  show ?case
    using "6.prems"(1) k v pv IH
    by (cases "parse_members f d (tl ?u)") (simp_all add: parse_members.simps Let_def split: if_split_asm)
qed (auto simp: parse_value.simps parse_elems.simps parse_members.simps)

lemma json_read_value_at: "json_read s = value_at maxNestingDepth s"
  by (simp add: json_read_def value_at_def)

text \<open>For a document that the decoder accepts, the walk decides whether its keys are distinct.\<close>

lemma uniqueJSONKeys_document:
  assumes "json_document raw = Some v"
  shows "uniqueJSONKeys raw \<longleftrightarrow> unique_ok True v"
proof -
  from assms obtain r where v: "value_at maxNestingDepth raw = Some (v, r)" and r: "skip_ws r = []"
    by (auto simp: json_document_def json_read_value_at split: option.splits if_splits)
  let ?dep = "max (length raw) maxNestingDepth"
  have "value_at ?dep raw = Some (v, r)"
    using v unfolding value_at_def by (rule parse_value_mono) simp
  with uniqueJSONKeys_at [of raw ?dep] r show ?thesis by simp
qed

text \<open>
  C34: the duplicate-key walk of \<open>delegatetask\<close> (and its copies in \<open>askuser\<close> and \<open>pythonrepl\<close>)
  accepts exactly the inputs that are one well-formed JSON document, of any depth, in which
  no object, however deeply nested, repeats a decoded key. In particular the walk always
  ends: the fuel of the model is enough for every input.
\<close>

theorem uniqueJSONKeys_iff:
  "uniqueJSONKeys raw \<longleftrightarrow>
     (\<exists>v r. value_at (length raw) raw = Some (v, r) \<and> skip_ws r = [] \<and> unique_ok True v)"
  by (subst uniqueJSONKeys_at [OF order_refl]) (auto split: option.splits)

end
