(* ===== verification/Coordinator.thy ===== *)
theory Coordinator
  imports Prelude
begin

section \<open>The admission interface of the four callback coordinators\<close>

text \<open>
  \<open>askuser\<close>, \<open>delegatetask\<close>, \<open>websearch\<close> and \<open>workspaceinstructions\<close> each guard a host
  callback with a coordinator: \<open>acquire\<close> admits a call unless the mount closes or the
  in-flight limit is reached, \<open>release\<close> gives the slot back, \<open>Close\<close> stops admission,
  cancels what is live and waits for the last release. Every one of these operations runs
  under the coordinator's mutex, so an execution of any number of goroutines is a sequence
  of them: \<open>coord_reach\<close> collects the states such sequences reach, counting admissions.
  The locale \<open>admission\<close> states what a client may rely on, and the packages interpret it
  with the translations of their own methods.
\<close>

record 'c coordinator =
  closing :: bool
  closed :: bool
  live :: int
  nextID :: "64 word"
  cancels :: "(64 word \<times> 'c) list"
  doneClosed :: bool

text \<open>\<open>_, exists := m[key]\<close> on a Go map.\<close>

definition has_key :: "('k \<times> 'v) list \<Rightarrow> 'k \<Rightarrow> bool" where
  "has_key m k \<longleftrightarrow> k \<in> fst ` set m"

definition fresh_coordinator :: "'c coordinator" where
  "fresh_coordinator =
     \<lparr>closing = False, closed = False, live = 0, nextID = 0, cancels = [], doneClosed = False\<rparr>"

text \<open>
  States reached from \<open>s0\<close> by \<open>n\<close> admissions interleaved with any number of refused calls,
  releases (of any identity, live or not) and closes.
\<close>

inductive coord_reach ::
  "('c \<Rightarrow> 's \<Rightarrow> 64 word option \<times> 's) \<Rightarrow> (64 word \<Rightarrow> 's \<Rightarrow> 's) \<Rightarrow> ('s \<Rightarrow> 's) \<Rightarrow> 's \<Rightarrow> nat \<Rightarrow> 's \<Rightarrow> bool"
  for acq rel cls s0 where
  start: "coord_reach acq rel cls s0 0 s0"
| admitted: "coord_reach acq rel cls s0 n s \<Longrightarrow> acq k s = (Some i, t)
    \<Longrightarrow> coord_reach acq rel cls s0 (Suc n) t"
| refused: "coord_reach acq rel cls s0 n s \<Longrightarrow> acq k s = (None, t)
    \<Longrightarrow> coord_reach acq rel cls s0 n t"
| released: "coord_reach acq rel cls s0 n s \<Longrightarrow> coord_reach acq rel cls s0 n (rel i s)"
| closes: "coord_reach acq rel cls s0 n s \<Longrightarrow> coord_reach acq rel cls s0 n (cls s)"

text \<open>
  The invariant of a coordinator after \<open>n\<close> admissions. Identities come from a 64-bit
  counter; they are the first \<open>n\<close> positive ones as long as the counter has not wrapped.
\<close>

definition coord_ok :: "int \<Rightarrow> nat \<Rightarrow> 'c coordinator \<Rightarrow> bool" where
  "coord_ok cap n c \<longleftrightarrow>
     distinct (map fst (cancels c)) \<and> live c = int (length (cancels c)) \<and> live c \<le> cap
     \<and> (closed c \<longrightarrow> closing c \<and> live c = 0) \<and> (closing c \<and> live c = 0 \<longrightarrow> closed c)
     \<and> (doneClosed c \<longleftrightarrow> closed c)
     \<and> nextID c = of_nat n \<and> fst ` set (cancels c) \<subseteq> of_nat ` {1..n}"

text \<open>
  What a reachable state promises: the invariant; once it is closing every admission is refused
  without a change; and releasing every live identity then completes the close.
\<close>

definition coord_served ::
  "('c \<Rightarrow> 's \<Rightarrow> 64 word option \<times> 's) \<Rightarrow> (64 word \<Rightarrow> 's \<Rightarrow> 's) \<Rightarrow> ('s \<Rightarrow> 'c coordinator) \<Rightarrow> int \<Rightarrow> nat \<Rightarrow> 's \<Rightarrow> bool" where
  "coord_served acq rel core cap n s \<longleftrightarrow>
     coord_ok cap n (core s) \<and>
     (closing (core s) \<longrightarrow>
        (\<forall>k. acq k s = (None, s)) \<and>
        (\<forall>is. fst ` set (cancels (core s)) \<subseteq> set is \<longrightarrow>
           closed (core (fold rel is s)) \<and> doneClosed (core (fold rel is s))))"

lemma of_nat_word64_fresh:
  assumes "Suc n < 2 ^ 64"
  shows "(of_nat (Suc n) :: 64 word) \<notin> of_nat ` {1..n}"
proof
  assume "(of_nat (Suc n) :: 64 word) \<in> of_nat ` {1..n}"
  then obtain i where i: "1 \<le> i" "i \<le> n" and "(of_nat (Suc n) :: 64 word) = of_nat i" by auto
  then have "unat (of_nat (Suc n) :: 64 word) = unat (of_nat i :: 64 word)" by simp
  moreover have "unat (of_nat (Suc n) :: 64 word) = Suc n" and "unat (of_nat i :: 64 word) = i"
    using assms i by (simp_all add: unat_of_nat take_bit_nat_eq_self del: of_nat_Suc)
  ultimately show False using i by simp
qed

lemma keys_delete: "fst ` set (AList.delete i al) = fst ` set al - {i}"
  using arg_cong [OF delete_keys, of set i al] by (simp add: set_removeAll)

lemma length_delete_in:
  "distinct (map fst al) \<Longrightarrow> i \<in> fst ` set al \<Longrightarrow> Suc (length (AList.delete i al)) = length al"
proof (induction al)
  case (Cons a al)
  show ?case
  proof (cases "i = fst a")
    case True
    with Cons.prems have "i \<notin> fst ` set al" by auto
    then have "AList.delete i al = al" by (simp add: delete_id)
    with True show ?thesis by (cases a) simp
  next
    case False
    with Cons show ?thesis by (cases a) auto
  qed
qed simp

lemma length_update_fresh:
  "i \<notin> fst ` set al \<Longrightarrow> length (AList.update i k al) = Suc (length al)"
  by (induction al) auto

locale admission =
  fixes acq :: "'c \<Rightarrow> 's \<Rightarrow> 64 word option \<times> 's"
    and rel :: "64 word \<Rightarrow> 's \<Rightarrow> 's"
    and cls :: "'s \<Rightarrow> 's"
    and core :: "'s \<Rightarrow> 'c coordinator"
    and cap :: "'s \<Rightarrow> int"
  assumes acq_None:
      "acq k s = (None, t) \<Longrightarrow>
         t = s \<and> (closing (core s) \<or> closed (core s) \<or> cap s \<le> live (core s))"
    and acq_Some:
      "acq k s = (Some i, t) \<Longrightarrow>
         \<not> closing (core s) \<and> \<not> closed (core s) \<and> live (core s) < cap s \<and> cap t = cap s
         \<and> i = nextID (core s) + 1
         \<and> core t = (core s)\<lparr>nextID := i, live := live (core s) + 1,
                       cancels := AList.update i k (cancels (core s))\<rparr>"
    and rel_cap: "cap (rel i s) = cap s"
    and rel_core:
      "core (rel i s) =
         (let live' = (if i \<in> fst ` set (cancels (core s)) then live (core s) - 1 else live (core s));
              fin = closing (core s) \<and> live' = 0
          in (core s)\<lparr>cancels := AList.delete i (cancels (core s)), live := live',
               closed := closed (core s) \<or> fin, doneClosed := doneClosed (core s) \<or> fin\<rparr>)"
    and cls_cap: "cap (cls s) = cap s"
    and cls_core:
      "core (cls s) =
         (if closed (core s) then core s
          else (core s)\<lparr>closing := True, closed := live (core s) = 0,
                 doneClosed := doneClosed (core s) \<or> live (core s) = 0\<rparr>)"
begin

lemma ok_release:
  assumes "coord_ok (cap s) n (core s)"
  shows "coord_ok (cap s) n (core (rel i s))"
proof -
  let ?al = "cancels (core s)"
  from assms have d: "distinct (map fst ?al)" and l: "live (core s) = int (length ?al)"
    by (simp_all add: coord_ok_def)
  have len: "int (length (AList.delete i ?al)) =
      (if i \<in> fst ` set ?al then live (core s) - 1 else live (core s))"
  proof (cases "i \<in> fst ` set ?al")
    case True
    with length_delete_in [OF d True] l show ?thesis by simp
  next
    case False
    then show ?thesis using l by (simp add: delete_id)
  qed
  define l' where "l' = (if i \<in> fst ` set ?al then live (core s) - 1 else live (core s))"
  have l': "l' \<le> live (core s)" "l' = int (length (AList.delete i ?al))"
    using len by (simp_all add: l'_def)
  have core: "core (rel i s) = (core s)\<lparr>cancels := AList.delete i ?al, live := l',
      closed := closed (core s) \<or> (closing (core s) \<and> l' = 0),
      doneClosed := doneClosed (core s) \<or> (closing (core s) \<and> l' = 0)\<rparr>"
    by (simp add: rel_core Let_def l'_def)
  have sub: "fst ` set (AList.delete i ?al) \<subseteq> fst ` set ?al"
    by (rule dom_delete_subset)
  have "closed (core s) \<Longrightarrow> l' = 0"
    using assms l' by (auto simp: coord_ok_def)
  with assms l' sub show ?thesis
    by (auto simp: coord_ok_def core distinct_delete)
qed

lemma ok_close: "coord_ok (cap s) n (core s) \<Longrightarrow> coord_ok (cap s) n (core (cls s))"
  by (auto simp: coord_ok_def cls_core)

lemma ok_acquire:
  assumes ok: "coord_ok (cap s) n (core s)" and a: "acq k s = (Some i, t)" and n: "Suc n < 2 ^ 64"
  shows "coord_ok (cap s) (Suc n) (core t)"
proof -
  note eq = acq_Some [OF a]
  let ?al = "cancels (core s)"
  from ok eq have i: "i = of_nat (Suc n)" by (simp add: coord_ok_def add.commute)
  have fresh: "i \<notin> fst ` set ?al"
    using ok of_nat_word64_fresh [OF n] i by (auto simp: coord_ok_def)
  have "fst ` set (AList.update i k ?al) = insert i (fst ` set ?al)"
    by (simp add: dom_update)
  moreover have "fst ` set ?al \<subseteq> of_nat ` {1..n}" using ok by (simp add: coord_ok_def)
  moreover have "i \<in> of_nat ` {1..Suc n}" using i by (auto simp del: of_nat_Suc)
  ultimately have "fst ` set (AList.update i k ?al) \<subseteq> of_nat ` {1..Suc n}"
    by (auto simp del: of_nat_Suc)
  with ok eq fresh i show ?thesis
    by (auto simp: coord_ok_def length_update_fresh distinct_update)
qed

lemma reach_ok:
  assumes "coord_reach acq rel cls s0 n s" and "coord_ok (cap s0) 0 (core s0)" and "n < 2 ^ 64"
  shows "cap s = cap s0 \<and> coord_ok (cap s0) n (core s)"
  using assms
proof (induction rule: coord_reach.induct)
  case start
  then show ?case by simp
next
  case (admitted n s k i t)
  then have c: "cap s = cap s0" and ok: "coord_ok (cap s) n (core s)" by auto
  from ok_acquire [OF ok admitted(2)] admitted(5) acq_Some [OF admitted(2)] c show ?case by simp
next
  case (refused n s k t)
  with acq_None [OF refused(2)] show ?case by simp
next
  case (released n s i)
  then show ?case using ok_release [of s n i] by (simp add: rel_cap)
next
  case (closes n s)
  then show ?case using ok_close [of s n] by (simp add: cls_cap)
qed

text \<open>Once closing, always closing, and nothing is admitted any more.\<close>

lemma closing_refuses: "closing (core s) \<Longrightarrow> acq k s = (None, s)"
  using acq_Some acq_None by (metis option.exhaust surj_pair)

lemma closing_rel [simp]: "closing (core (rel i s)) = closing (core s)"
  by (simp add: rel_core Let_def)

lemma core_rel_cancels: "cancels (core (rel i s)) = AList.delete i (cancels (core s))"
  by (simp add: rel_core Let_def)

text \<open>Releasing every live identity after a close settles the close.\<close>

lemma drain:
  assumes "coord_ok (cap s) n (core s)" and "closing (core s)"
    and "fst ` set (cancels (core s)) \<subseteq> set is"
  shows "closed (core (fold rel is s)) \<and> doneClosed (core (fold rel is s))"
  using assms
proof (induction "is" arbitrary: s)
  case Nil
  then show ?case by (simp add: coord_ok_def)
next
  case (Cons i "is")
  have "fst ` set (cancels (core (rel i s))) \<subseteq> set is"
    using Cons.prems(3) by (auto simp: core_rel_cancels keys_delete simp del: set_map)
  with Cons.IH [of "rel i s"] Cons.prems ok_release [of s n i] show ?case
    by (simp add: rel_cap)
qed

lemma served:
  assumes "coord_reach acq rel cls s0 n s" and "coord_ok (cap s0) 0 (core s0)" and "n < 2 ^ 64"
  shows "coord_served acq rel core (cap s0) n s"
proof -
  from reach_ok [OF assms] have "coord_ok (cap s) n (core s)" "cap s = cap s0" by simp_all
  with drain [of s n] closing_refuses [of s] show ?thesis by (simp add: coord_served_def)
qed

end

lemma fresh_coordinator_ok: "0 \<le> cap \<Longrightarrow> coord_ok cap 0 fresh_coordinator"
  by (simp add: coord_ok_def fresh_coordinator_def)

lemmas coordinator_core = coordinator.truncate_def coordinator.defs

subsection \<open>Calls, outcomes and the wait for a deadline\<close>

text \<open>
  Errors are values: a context error, an error that carries a code, or the package's fixed
  operation error. A call that has been admitted waits in a loop: it wakes because the
  caller's context ended, the callback published its envelope or the deadline timer fired,
  and then looks at the context, the published envelope and the clock. A \<open>wake\<close> is what one
  iteration sees; \<open>Waiting\<close> is the outcome while no wake-up has settled the call.
\<close>

datatype call_error = ContextError | CodeError string | OperationError

datatype 'r outcome = Returned "call_error + 'r" | Waiting

datatype 'c close_step = CloseReturns "call_error option" | CloseAwaits "'c list"

lemma map_sum_Inr [simp]: "map_sum f g x = Inr y \<longleftrightarrow> (\<exists>z. x = Inr z \<and> y = g z)"
  by (cases x) auto

record ident =
  SessionID :: string
  RunID :: string
  CallID :: string

record 'e wake =
  wake_ctx_done :: bool
  wake_ctx_err :: bool
  wake_snapshot :: "('e \<times> int) option"
  wake_now :: int

definition wake_canceled :: "'e wake \<Rightarrow> bool" where
  "wake_canceled w \<longleftrightarrow> wake_ctx_done w \<or> wake_ctx_err w"

locale deadline_loop =
  fixes wait :: "int \<Rightarrow> 'e wake list \<Rightarrow> 'r outcome"
    and accept :: "'e \<Rightarrow> call_error + 'r"
    and expired :: "call_error + 'r"
  assumes wait_Nil: "wait dl [] = Waiting"
    and wait_canceled: "wake_canceled w \<Longrightarrow> wait dl (w # ws) = Returned (Inl ContextError)"
    and wait_published:
      "\<not> wake_canceled w \<Longrightarrow> wake_snapshot w = Some (e, t) \<Longrightarrow>
         wait dl (w # ws) = Returned (if t < dl then accept e else expired)"
    and wait_unpublished:
      "\<not> wake_canceled w \<Longrightarrow> wake_snapshot w = None \<Longrightarrow>
         wait dl (w # ws) = (if dl \<le> wake_now w then Returned expired else wait dl ws)"
begin

text \<open>Every way a call can end.\<close>

lemma wait_sound:
  "wait dl ws = Returned r \<Longrightarrow>
     (\<exists>w \<in> set ws. wake_canceled w \<and> r = Inl ContextError)
     \<or> (\<exists>w \<in> set ws. \<exists>e t. wake_snapshot w = Some (e, t) \<and> t < dl \<and> r = accept e)
     \<or> (\<exists>w \<in> set ws. \<not> wake_canceled w \<and> r = expired
          \<and> (case wake_snapshot w of Some (e, t) \<Rightarrow> dl \<le> t | None \<Rightarrow> dl \<le> wake_now w))"
proof (induction ws)
  case Nil
  then show ?case by (simp add: wait_Nil)
next
  case (Cons w ws)
  show ?case
  proof (cases "wake_canceled w")
    case True
    with Cons.prems wait_canceled [OF True] show ?thesis by auto
  next
    case False
    show ?thesis
    proof (cases "wake_snapshot w")
      case None
      with False wait_unpublished [OF False None] Cons show ?thesis
        by (auto split: if_splits)
    next
      case (Some p)
      obtain e t where p: "p = (e, t)" by (cases p)
      from wait_published [OF False] Some p Cons.prems have "r = (if t < dl then accept e else expired)"
        by simp
      with False Some p show ?thesis by (cases "t < dl") auto
    qed
  qed
qed

lemma wait_Inr:
  assumes "wait dl ws = Returned (Inr r)"
  shows "(\<exists>w \<in> set ws. \<exists>e t. wake_snapshot w = Some (e, t) \<and> t < dl \<and> accept e = Inr r)
    \<or> (expired = Inr r \<and> (\<exists>w \<in> set ws. \<not> wake_canceled w
          \<and> (case wake_snapshot w of Some (e, t) \<Rightarrow> dl \<le> t | None \<Rightarrow> dl \<le> wake_now w)))"
  using wait_sound [OF assms] by (elim disjE bexE conjE exE) (simp, metis, metis)

text \<open>A wake-up that sees a cancellation, an envelope or the deadline settles the call.\<close>

lemma wait_settles:
  "\<exists>w \<in> set ws. wake_canceled w \<or> wake_snapshot w \<noteq> None \<or> dl \<le> wake_now w \<Longrightarrow> wait dl ws \<noteq> Waiting"
proof (induction ws)
  case (Cons w ws)
  show ?case
  proof (cases "wake_canceled w")
    case True
    then show ?thesis by (simp add: wait_canceled)
  next
    case False
    then show ?thesis
      using Cons by (cases "wake_snapshot w") (auto simp: wait_published wait_unpublished)
  qed
qed simp

text \<open>An envelope completed before the deadline is accepted even when the clock is past it.\<close>

lemma wait_prefers_answer:
  "\<not> wake_canceled w \<Longrightarrow> wake_snapshot w = Some (e, t) \<Longrightarrow> t < dl \<Longrightarrow>
     wait dl (w # ws) = Returned (accept e)"
  by (simp add: wait_published)

end

end
