(* ===== verification/Delegate.thy ===== *)
theory Delegate
  imports Unique_Keys Coordinator
begin

section \<open>delegatetask: delegating one task to a host runner\<close>

text \<open>
  The delegate_task tool: canonical options and their retention bound (config.go), the input
  normalizer with its duplicate-key walk over the token stream (input.go), the coordinator
  that runs one host callback under a deadline (coordinator.go) and the tool's handlers
  (tool.go). \<open>extension.ValidateIdentifier\<close>, \<open>extension.ValidateScope\<close>, the SHA-256 digest and
  the runner itself are not code of the repository and are parameters.
\<close>

subsection \<open>Options\<close>

record del_Limits =
  MaxTaskBytes :: int
  MaxProfileBytes :: int
  MaxResultBytes :: int
  del_MaxInFlight :: int
  del_MaxWait :: int

record 'scope del_Options =
  del_Scope :: "'scope option"
  del_Order :: int
  del_runner_nil :: bool
  RunnerIdentity :: string
  del_Limits :: del_Limits

record 'scope del_canonicalOptions =
  del_scope :: 'scope
  del_order :: int
  del_runnerIdentity :: string
  del_limits :: del_Limits
  del_retention :: int

definition del_DefaultOrder :: int where
  "del_DefaultOrder = 100"

definition maxRunnerIdentityBytes :: int where
  "maxRunnerIdentityBytes = 256"

definition maxProfileIdentifierBytes :: int where
  "maxProfileIdentifierBytes = 256"

definition del_validIdentity :: "string \<Rightarrow> bool" where
  "del_validIdentity value =
     (if value = [] \<or> len value > maxRunnerIdentityBytes \<or> \<not> utf8_valid value \<or> ContainsByte value (CHR 0x00)
      then False
      else \<not> list_ex (\<lambda>p. IsControl (fst p)) (runes value))"

definition del_validateLimits :: "del_Limits \<Rightarrow> string option" where
  "del_validateLimits l =
     (if MaxTaskBytes l \<le> 0 \<or> MaxProfileBytes l \<le> 0 \<or> MaxResultBytes l \<le> 0 \<or> del_MaxInFlight l \<le> 0
      then Some ''limits''
      else if MaxProfileBytes l > maxProfileIdentifierBytes then Some ''max-profile''
      else if del_MaxWait l \<le> 0 then Some ''max-wait''
      else None)"

definition del_resultRetention :: "del_Limits \<Rightarrow> string + int" where
  "del_resultRetention l =
     (if MaxResultBytes l > (MaxInt64 - 128) div 6 then Inl ''result-retention''
      else let oneCopy = wrap64 (128 + wrap64 (MaxResultBytes l * 6)) in
        if oneCopy > MaxInt64 div 2 then Inl ''result-retention''
        else Inr (wrap64 (oneCopy * 2)))"

definition del_canonicalize ::
  "'scope \<Rightarrow> ('scope \<Rightarrow> bool) \<Rightarrow> 'scope del_Options \<Rightarrow> string + 'scope del_canonicalOptions" where
  "del_canonicalize GlobalScope ValidateScope options =
     (let scope = (case del_Scope options of None \<Rightarrow> GlobalScope | Some s \<Rightarrow> s);
          order = (if del_Order options = 0 then del_DefaultOrder else del_Order options) in
      if \<not> ValidateScope scope then Inl ''scope''
      else if del_runner_nil options then Inl ''runner-required''
      else if \<not> del_validIdentity (RunnerIdentity options) then Inl ''runner-identity''
      else (case del_validateLimits (del_Limits options) of
              Some code \<Rightarrow> Inl code
            | None \<Rightarrow>
                (case del_resultRetention (del_Limits options) of
                   Inl code \<Rightarrow> Inl code
                 | Inr retention \<Rightarrow>
                     Inr \<lparr>del_scope = scope, del_order = order, del_runnerIdentity = RunnerIdentity options,
                          del_limits = del_Limits options, del_retention = retention\<rparr>)))"

subsection \<open>Input\<close>

record del_toolInput =
  Task :: string
  Profile :: string

definition del_validText :: "string \<Rightarrow> int \<Rightarrow> bool" where
  "del_validText value maximum \<longleftrightarrow>
     utf8_valid value \<and> len value \<le> maximum \<and> \<not> ContainsByte value (CHR 0x00)"

definition del_validRequiredText :: "string \<Rightarrow> int \<Rightarrow> bool" where
  "del_validRequiredText value maximum \<longleftrightarrow> del_validText value maximum \<and> TrimSpace value \<noteq> []"

text \<open>
  Decoding an object into the struct, member by member: a key that matches no field (the
  decoder disallows unknown fields) or a value of the wrong type is an error, a later
  member overwrites an earlier one. A JSON null leaves the zero struct.
\<close>

definition del_set_field :: "bool \<Rightarrow> (string \<times> json) \<Rightarrow> del_toolInput option \<Rightarrow> del_toolInput option" where
  "del_set_field strict m acc =
     (case acc of None \<Rightarrow> None
      | Some i \<Rightarrow>
          (case field_of [''task'', ''profile''] (fst m) of
             None \<Rightarrow> if strict then None else Some i
           | Some n \<Rightarrow>
               if n = ''task'' then map_option (\<lambda>v. i\<lparr>Task := v\<rparr>) (into_string (Task i) (snd m))
               else map_option (\<lambda>v. i\<lparr>Profile := v\<rparr>) (into_string (Profile i) (snd m))))"

fun del_into :: "bool \<Rightarrow> json \<Rightarrow> del_toolInput option" where
  "del_into strict (JObj ms) = fold (del_set_field strict) ms (Some \<lparr>Task = [], Profile = []\<rparr>)"
| "del_into strict JNull = Some \<lparr>Task = [], Profile = []\<rparr>"
| "del_into strict _ = None"

definition del_marshal_input :: "del_toolInput \<Rightarrow> bytes" where
  "del_marshal_input i =
     CHR ''{'' # marshal_string ''task'' @ CHR '':'' # marshal_string (Task i) @ CHR '','' #
     marshal_string ''profile'' @ CHR '':'' # marshal_string (Profile i) @ [CHR ''}'']"

definition del_normalizeInput ::
  "(string \<Rightarrow> bool) \<Rightarrow> del_Limits \<Rightarrow> bool \<Rightarrow> bytes \<Rightarrow> call_error + bytes" where
  "del_normalizeInput ValidateIdentifier limits ctxErr raw =
     (if ctxErr then Inl ContextError
      else if \<not> utf8_valid raw then Inl (CodeError ''utf8'')
      else if \<not> uniqueJSONKeys raw then Inl (CodeError ''duplicate-field'')
      else (case json_document raw of
              None \<Rightarrow> Inl (CodeError ''shape'')
            | Some v \<Rightarrow>
                (case del_into True v of
                   None \<Rightarrow> Inl (CodeError ''shape'')
                 | Some input \<Rightarrow>
                     if \<not> del_validRequiredText (Task input) (MaxTaskBytes limits) then Inl (CodeError ''task'')
                     else if len (Profile input) > MaxProfileBytes limits \<or> \<not> ValidateIdentifier (Profile input)
                     then Inl (CodeError ''profile'')
                     else Inr (del_marshal_input input))))"

definition del_decodeCanonicalInput :: "bytes \<Rightarrow> call_error + del_toolInput" where
  "del_decodeCanonicalInput raw =
     (case json_document raw of
        None \<Rightarrow> Inl (CodeError ''canonical-input'')
      | Some v \<Rightarrow> (case del_into False v of None \<Rightarrow> Inl (CodeError ''canonical-input'') | Some i \<Rightarrow> Inr i))"

subsection \<open>Coordinator\<close>

record 'c del_coordinator = "'c coordinator" +
  del_coord_limits :: del_Limits

definition del_newCoordinator :: "'scope del_canonicalOptions \<Rightarrow> 'c del_coordinator" where
  "del_newCoordinator options =
     \<lparr>closing = False, closed = False, live = 0, nextID = 0, cancels = [], doneClosed = False,
      del_coord_limits = del_limits options\<rparr>"

definition del_acquire :: "'c \<Rightarrow> 'c del_coordinator \<Rightarrow> 64 word option \<times> 'c del_coordinator" where
  "del_acquire cancel c =
     (if closing c \<or> closed c \<or> live c \<ge> del_MaxInFlight (del_coord_limits c) then (None, c)
      else let id = nextID c + 1 in
        (Some id, c\<lparr>nextID := id, live := live c + 1, cancels := AList.update id cancel (cancels c)\<rparr>))"

definition del_release :: "64 word \<Rightarrow> 'c del_coordinator \<Rightarrow> 'c del_coordinator" where
  "del_release i c =
     (let c = (if has_key (cancels c) i
               then c\<lparr>cancels := AList.delete i (cancels c), live := live c - 1\<rparr> else c) in
      if closing c \<and> live c = 0 then c\<lparr>closed := True, doneClosed := True\<rparr> else c)"

definition del_Close :: "bool \<Rightarrow> 'c del_coordinator \<Rightarrow> 'c close_step \<times> 'c del_coordinator" where
  "del_Close ctx_nil c =
     (if ctx_nil then (CloseReturns (Some (CodeError ''close-context'')), c)
      else if closed c then (CloseReturns None, c)
      else let c1 = c\<lparr>closing := True\<rparr>;
               c2 = (if live c1 = 0 then c1\<lparr>closed := True, doneClosed := True\<rparr> else c1)
           in (CloseAwaits (map snd (cancels c)), c2))"

definition del_Close_state :: "'c del_coordinator \<Rightarrow> 'c del_coordinator" where
  "del_Close_state c = snd (del_Close False c)"

datatype del_ResponseStatus = ResponseCompleted | ResponseFailed | ResponseRejected | del_ResponseUnavailable
  | del_OtherStatus string

record del_Response =
  del_Status :: del_ResponseStatus
  del_Output :: string

datatype del_Status = StatusCompleted | StatusFailed | StatusRejected | del_StatusUnavailable | del_StatusTimedOut

record del_Result =
  del_status :: del_Status
  del_output :: string

record del_envelope =
  del_response :: del_Response
  del_err :: bool

definition del_mapResponse :: "del_Limits \<Rightarrow> del_envelope \<Rightarrow> call_error + del_Result" where
  "del_mapResponse limits envelope =
     (let r = del_response envelope; out = del_Output r in
      if del_err envelope then Inl OperationError
      else if \<not> utf8_valid out \<or> len out > MaxResultBytes limits then Inl OperationError
      else if list_ex (\<lambda>b. b = CHR 0x00) out then Inl OperationError
      else (case del_Status r of
              ResponseCompleted \<Rightarrow> Inr \<lparr>del_status = StatusCompleted, del_output = out\<rparr>
            | ResponseFailed \<Rightarrow> Inr \<lparr>del_status = StatusFailed, del_output = out\<rparr>
            | ResponseRejected \<Rightarrow> Inr \<lparr>del_status = StatusRejected, del_output = out\<rparr>
            | del_ResponseUnavailable \<Rightarrow> Inr \<lparr>del_status = del_StatusUnavailable, del_output = out\<rparr>
            | del_OtherStatus _ \<Rightarrow> Inl OperationError))"

text \<open>What the runner did: it returned a response and possibly an error, or it panicked.\<close>

datatype del_runner_result = RunnerReturned del_Response bool | RunnerPanicked

definition del_runRunner ::
  "64 word \<Rightarrow> del_runner_result \<Rightarrow> int \<Rightarrow> 'c del_coordinator \<Rightarrow> (del_envelope \<times> int) \<times> 'c del_coordinator" where
  "del_runRunner i res now c =
     (let envelope = (case res of
            RunnerReturned r e \<Rightarrow> \<lparr>del_response = r, del_err = e\<rparr>
          | RunnerPanicked \<Rightarrow>
              \<lparr>del_response = \<lparr>del_Status = del_OtherStatus [], del_Output = []\<rparr>, del_err = True\<rparr>)
      in ((envelope, now), del_release i c))"

definition del_timed_out :: "call_error + del_Result" where
  "del_timed_out = Inr \<lparr>del_status = del_StatusTimedOut, del_output = []\<rparr>"

fun del_wait :: "del_Limits \<Rightarrow> int \<Rightarrow> del_envelope wake list \<Rightarrow> del_Result outcome" where
  "del_wait limits deadline [] = Waiting"
| "del_wait limits deadline (w # ws) =
     (if wake_ctx_done w then Returned (Inl ContextError)
      else if wake_ctx_err w then Returned (Inl ContextError)
      else (case wake_snapshot w of
              Some (envelope, completedAt) \<Rightarrow>
                if completedAt < deadline then Returned (del_mapResponse limits envelope)
                else Returned del_timed_out
            | None \<Rightarrow>
                if deadline \<le> wake_now w then Returned del_timed_out else del_wait limits deadline ws))"

text \<open>
  The head of \<open>run\<close>, up to the start of the runner's goroutine: what \<open>ctx.Err\<close> returns at its
  three polls, the identities of the call and of the turn, and the clock. \<open>Inl\<close> is an early
  return; \<open>Inr\<close> carries the admitted identity, the deadline and the request.
\<close>

record del_Request =
  del_ident :: ident
  WorkspaceID :: string
  WorkspaceRoot :: string
  del_Task :: string
  del_Profile :: string

record tool_context =
  TurnSessionID :: string
  TurnRunID :: string
  ctx_WorkspaceID :: string
  ctx_WorkspaceRoot :: string

definition del_run_begin ::
  "bool \<times> bool \<times> bool \<Rightarrow> ident \<Rightarrow> tool_context \<Rightarrow> del_toolInput \<Rightarrow> int \<Rightarrow> 'c \<Rightarrow> 'c del_coordinator
   \<Rightarrow> ((call_error + del_Result) + 64 word \<times> int \<times> del_Request) \<times> 'c del_coordinator" where
  "del_run_begin errs call ctx input now cancel c =
     (case errs of (err0, err1, err2) \<Rightarrow>
      if err0 then (Inl (Inl ContextError), c)
      else if SessionID call = [] \<or> RunID call = [] \<or> CallID call = []
      then (Inl (Inl (CodeError ''call-identity'')), c)
      else if TurnSessionID ctx \<noteq> [] \<and> TurnSessionID ctx \<noteq> SessionID call
      then (Inl (Inl (CodeError ''turn-session'')), c)
      else if TurnRunID ctx \<noteq> [] \<and> TurnRunID ctx \<noteq> RunID call
      then (Inl (Inl (CodeError ''turn-run'')), c)
      else let deadline = now + del_MaxWait (del_coord_limits c) in
        (case del_acquire cancel c of
           (None, c1) \<Rightarrow>
             if err1 then (Inl (Inl ContextError), c1)
             else (Inl (Inr \<lparr>del_status = del_StatusUnavailable, del_output = []\<rparr>), c1)
         | (Some i, c1) \<Rightarrow>
             if err2 then (Inl (Inl ContextError), del_release i c1)
             else (Inr (i, deadline,
                    \<lparr>del_ident = call, WorkspaceID = ctx_WorkspaceID ctx, WorkspaceRoot = ctx_WorkspaceRoot ctx,
                     del_Task = Task input, del_Profile = Profile input\<rparr>), c1)))"

definition del_run ::
  "bool \<times> bool \<times> bool \<Rightarrow> ident \<Rightarrow> tool_context \<Rightarrow> del_toolInput \<Rightarrow> int \<Rightarrow> 'c \<Rightarrow> del_envelope wake list
   \<Rightarrow> 'c del_coordinator \<Rightarrow> del_Result outcome \<times> 'c del_coordinator" where
  "del_run errs call ctx input now cancel ws c =
     (case del_run_begin errs call ctx input now cancel c of
        (Inl r, c1) \<Rightarrow> (Returned r, c1)
      | (Inr (i, deadline, _), c1) \<Rightarrow> (del_wait (del_coord_limits c) deadline ws, c1))"

fun del_status_name :: "del_Status \<Rightarrow> string" where
  "del_status_name StatusCompleted = ''completed''"
| "del_status_name StatusFailed = ''failed''"
| "del_status_name StatusRejected = ''rejected''"
| "del_status_name del_StatusUnavailable = ''unavailable''"
| "del_status_name del_StatusTimedOut = ''timed_out''"

definition del_marshal_result :: "del_Result \<Rightarrow> bytes" where
  "del_marshal_result r =
     CHR ''{'' # marshal_string ''status'' @ CHR '':'' # marshal_string (del_status_name (del_status r)) @
     (if del_output r = [] then []
      else CHR '','' # marshal_string ''output'' @ CHR '':'' # marshal_string (del_output r)) @ [CHR ''}'']"

definition del_Pattern :: "bool \<Rightarrow> bytes \<Rightarrow> call_error + string" where
  "del_Pattern ctxErr raw =
     (if ctxErr then Inl ContextError
      else map_sum id (\<lambda>i. ''delegate-profile:'' @ Profile i) (del_decodeCanonicalInput raw))"

definition del_Execute ::
  "bool \<times> bool \<times> bool \<Rightarrow> ident \<Rightarrow> tool_context \<Rightarrow> bytes \<Rightarrow> int \<Rightarrow> 'c \<Rightarrow> del_envelope wake list
   \<Rightarrow> 'c del_coordinator \<Rightarrow> bytes outcome \<times> 'c del_coordinator" where
  "del_Execute errs call ctx raw now cancel ws c =
     (case del_decodeCanonicalInput raw of
        Inl e \<Rightarrow> (Returned (Inl e), c)
      | Inr input \<Rightarrow>
          (case del_run errs call ctx input now cancel ws c of
             (Waiting, c1) \<Rightarrow> (Waiting, c1)
           | (Returned r, c1) \<Rightarrow> (Returned (map_sum id del_marshal_result r), c1)))"

subsection \<open>The coordinator satisfies its interface\<close>

definition del_core :: "'c del_coordinator \<Rightarrow> 'c coordinator" where
  "del_core = coordinator.truncate"

definition del_cap :: "'c del_coordinator \<Rightarrow> int" where
  "del_cap c = del_MaxInFlight (del_coord_limits c)"

interpretation del_adm: admission del_acquire del_release del_Close_state del_core del_cap
proof unfold_locales
qed (auto simp: del_acquire_def del_release_def del_Close_state_def del_Close_def del_core_def del_cap_def
    coordinator_core has_key_def Let_def delete_id split: if_splits)

interpretation del_loop: deadline_loop "del_wait limits" "del_mapResponse limits" del_timed_out for limits
  by unfold_locales (auto simp: wake_canceled_def)

subsection \<open>Outcomes of a call\<close>

lemma del_acquire_None:
  "del_acquire k c = (None, c1) \<Longrightarrow>
     c1 = c \<and> (closing c \<or> closed c \<or> del_MaxInFlight (del_coord_limits c) \<le> live c)"
  by (auto simp: del_acquire_def Let_def split: if_splits)

lemma del_run_begin_refused:
  "del_run_begin errs call ctx input now k c = (Inl (Inr r), c1) \<Longrightarrow>
     r = \<lparr>del_status = del_StatusUnavailable, del_output = []\<rparr> \<and> c1 = c
     \<and> (closing c \<or> closed c \<or> del_MaxInFlight (del_coord_limits c) \<le> live c)"
  by (auto simp: del_run_begin_def Let_def split: prod.splits if_splits option.splits dest: del_acquire_None)

lemma del_run_begin_deadline:
  "del_run_begin errs call ctx input now k c = (Inr (i, deadline, req), c1) \<Longrightarrow>
     deadline = now + del_MaxWait (del_coord_limits c)"
  by (auto simp: del_run_begin_def Let_def split: prod.splits if_splits option.splits)

text \<open>
  C30: a call of delegate_task that returns a result either was refused at admission, leaving
  the coordinator as it was (unavailable), or accepts a response that the runner completed
  strictly before the call's deadline and that \<open>mapResponse\<close> admits, or reports a timeout at a
  wake-up that saw no response completed before the deadline. A late response is never
  accepted and a timely one is never reported as a timeout by the wake-up that sees it.
\<close>

theorem del_run_result:
  assumes "del_run errs call ctx input now k ws c = (Returned (Inr r), c')"
  defines "deadline \<equiv> now + del_MaxWait (del_coord_limits c)"
  shows "(r = \<lparr>del_status = del_StatusUnavailable, del_output = []\<rparr> \<and> c' = c
            \<and> (closing c \<or> closed c \<or> del_MaxInFlight (del_coord_limits c) \<le> live c))
    \<or> (\<exists>w \<in> set ws. \<exists>e t. wake_snapshot w = Some (e, t) \<and> t < deadline
         \<and> del_mapResponse (del_coord_limits c) e = Inr r)
    \<or> (\<exists>w \<in> set ws. \<not> wake_canceled w \<and> r = \<lparr>del_status = del_StatusTimedOut, del_output = []\<rparr>
         \<and> (case wake_snapshot w of Some (e, t) \<Rightarrow> deadline \<le> t | None \<Rightarrow> deadline \<le> wake_now w))"
proof (cases "del_run_begin errs call ctx input now k c")
  case (Pair b c1)
  show ?thesis
  proof (cases b)
    case (Inl r')
    with Pair assms(1) del_run_begin_refused [of errs call ctx input now k c r c1] show ?thesis
      by (auto simp: del_run_def)
  next
    case (Inr p)
    obtain i dl req where p: "p = (i, dl, req)" by (cases p)
    with Pair Inr assms(1) have "del_wait (del_coord_limits c) dl ws = Returned (Inr r)"
      by (auto simp: del_run_def)
    moreover have "dl = deadline"
      using del_run_begin_deadline [of errs call ctx input now k c i dl req c1] Pair Inr p
      by (simp add: deadline_def)
    ultimately have "del_wait (del_coord_limits c) deadline ws = Returned (Inr r)" by simp
    from del_loop.wait_Inr [OF this] show ?thesis
      by (elim disjE conjE) (blast, auto simp: del_timed_out_def)
  qed
qed

definition del_demo_limits :: del_Limits where
  "del_demo_limits = \<lparr>MaxTaskBytes = 64, MaxProfileBytes = 16, MaxResultBytes = 8, del_MaxInFlight = 1, del_MaxWait = 10\<rparr>"

definition del_demo_coordinator :: "nat del_coordinator" where
  "del_demo_coordinator = \<lparr>closing = False, closed = False, live = 0, nextID = 0, cancels = [],
     doneClosed = False, del_coord_limits = del_demo_limits\<rparr>"

definition del_demo_call :: ident where
  "del_demo_call = \<lparr>SessionID = ''s'', RunID = ''r'', CallID = ''c''\<rparr>"

definition del_demo_ctx :: tool_context where
  "del_demo_ctx = \<lparr>TurnSessionID = [], TurnRunID = ''r'', ctx_WorkspaceID = [], ctx_WorkspaceRoot = []\<rparr>"

definition del_demo_wakes :: "del_envelope wake list" where
  "del_demo_wakes =
     [\<lparr>wake_ctx_done = False, wake_ctx_err = False, wake_snapshot = None, wake_now = 5\<rparr>,
      \<lparr>wake_ctx_done = False, wake_ctx_err = False,
       wake_snapshot = Some (\<lparr>del_response = \<lparr>del_Status = ResponseCompleted, del_Output = ''ok''\<rparr>, del_err = False\<rparr>, 9),
       wake_now = 12\<rparr>]"

lemmas del_demo = del_demo_limits_def del_demo_coordinator_def del_demo_call_def del_demo_ctx_def del_demo_wakes_def

lemma del_demo_run:
  "fst (del_run (False, False, False) del_demo_call del_demo_ctx \<lparr>Task = ''t'', Profile = ''p''\<rparr> 0 7
     del_demo_wakes del_demo_coordinator) = Returned (Inr \<lparr>del_status = StatusCompleted, del_output = ''ok''\<rparr>)"
  by (simp add: del_demo del_run_def del_run_begin_def del_acquire_def Let_def del_mapResponse_def utf8_eval len_def)

theorem del_run_result_witness:
  "\<exists>w \<in> set del_demo_wakes. \<exists>e t. wake_snapshot w = Some (e, t) \<and> t < 10
     \<and> del_mapResponse del_demo_limits e = Inr \<lparr>del_status = StatusCompleted, del_output = ''ok''\<rparr>"
proof -
  obtain c' where "del_run (False, False, False) del_demo_call del_demo_ctx \<lparr>Task = ''t'', Profile = ''p''\<rparr> 0 7
     del_demo_wakes del_demo_coordinator
     = (Returned (Inr \<lparr>del_status = StatusCompleted, del_output = ''ok''\<rparr>), c')"
    using del_demo_run by (metis prod.collapse)
  from del_run_result [OF this] show ?thesis
    by (simp add: del_demo_coordinator_def) (simp add: del_demo_limits_def)
qed

text \<open>
  A call that was admitted always settles once a wake-up sees the caller's context
  ended, the runner's envelope published or the clock at the deadline; and an envelope
  completed before the deadline decides the call even when the clock is already past it.
\<close>

theorem del_run_settles:
  assumes "del_run_begin errs call ctx input now k c = (Inr (i, deadline, req), c1)"
  shows "((\<exists>w \<in> set ws. wake_canceled w \<or> wake_snapshot w \<noteq> None \<or> deadline \<le> wake_now w) \<longrightarrow>
      fst (del_run errs call ctx input now k ws c) \<noteq> Waiting)
    \<and> (\<not> wake_canceled w \<and> wake_snapshot w = Some (e, t) \<and> t < deadline \<longrightarrow>
      fst (del_run errs call ctx input now k (w # ws) c) = Returned (del_mapResponse (del_coord_limits c) e))
    \<and> deadline = now + del_MaxWait (del_coord_limits c)"
  using assms del_run_begin_deadline [OF assms] del_loop.wait_settles [of ws deadline "del_coord_limits c"]
    del_loop.wait_prefers_answer [of w e t deadline "del_coord_limits c" ws]
  by (simp add: del_run_def del: del_wait.simps)

theorem del_run_settles_witness:
  "fst (del_run (False, False, False) del_demo_call del_demo_ctx \<lparr>Task = ''t'', Profile = ''p''\<rparr> 0 7
     del_demo_wakes del_demo_coordinator) \<noteq> Waiting"
proof -
  have "\<exists>i req c1. del_run_begin (False, False, False) del_demo_call del_demo_ctx \<lparr>Task = ''t'', Profile = ''p''\<rparr> 0 7
     del_demo_coordinator = (Inr (i, 10, req), c1)"
    by (simp add: del_demo del_run_begin_def del_acquire_def)
  then obtain i req c1 where "del_run_begin (False, False, False) del_demo_call del_demo_ctx
     \<lparr>Task = ''t'', Profile = ''p''\<rparr> 0 7 del_demo_coordinator = (Inr (i, 10, req), c1)" by blast
  from del_run_settles [OF this, of del_demo_wakes] show ?thesis
    by (simp add: del_demo_wakes_def)
qed

subsection \<open>Canonical input round trip\<close>

lemma json_document_del_marshal:
  assumes "utf8_valid (Task i)" and "utf8_valid (Profile i)"
  shows "json_document (del_marshal_input i) = Some (JObj [(''task'', JStr (Task i)), (''profile'', JStr (Profile i))])"
proof -
  have k: "utf8_valid ''task''" "utf8_valid ''profile''" by (simp_all add: utf8_valid_all_ascii)
  obtain f where f: "2 * length (del_marshal_input i) + 1 = Suc (Suc (Suc (Suc f)))"
    by (simp add: del_marshal_input_def)
  show ?thesis
    unfolding json_document_def json_read_def f
    unfolding del_marshal_input_def
    using assms k by (simp add: marshal_parse del: parse_value.simps parse_members.simps)
qed

lemma del_field_of:
  "field_of [''task'', ''profile''] ''task'' = Some ''task''"
  "field_of [''task'', ''profile''] ''profile'' = Some ''profile''"
  by (simp_all add: field_of_def)

lemma del_decode_marshal:
  assumes "utf8_valid (Task i)" and "utf8_valid (Profile i)"
  shows "del_decodeCanonicalInput (del_marshal_input i) = Inr i"
  using assms by (simp add: del_decodeCanonicalInput_def json_document_del_marshal del_set_field_def del_field_of)

lemma into_string_valid: "into_string old v = Some s \<Longrightarrow> utf8_valid old \<Longrightarrow> strings_ok v \<Longrightarrow> utf8_valid s"
  by (cases v) auto

lemma del_set_fields_valid:
  "fold (del_set_field strict) ms (Some i0) = Some i \<Longrightarrow> \<forall>m \<in> set ms. strings_ok (snd m) \<Longrightarrow>
   utf8_valid (Task i0) \<Longrightarrow> utf8_valid (Profile i0) \<Longrightarrow> utf8_valid (Task i) \<and> utf8_valid (Profile i)"
proof (induction ms arbitrary: i0)
  case (Cons m ms)
  have none: "fold (del_set_field strict) ms None = None" by (induction ms) (simp_all add: del_set_field_def)
  with Cons.prems(1) obtain i1 where i1: "del_set_field strict m (Some i0) = Some i1"
    by (cases "del_set_field strict m (Some i0)") auto
  with Cons.prems have "utf8_valid (Task i1) \<and> utf8_valid (Profile i1)"
    by (auto simp: del_set_field_def dest: into_string_valid split: option.splits if_splits)
  with Cons i1 show ?case by simp
qed simp

lemma del_into_valid:
  assumes "del_into strict v = Some i" and "strings_ok v"
  shows "utf8_valid (Task i) \<and> utf8_valid (Profile i)"
  using assms del_set_fields_valid [of strict _ "\<lparr>Task = [], Profile = []\<rparr>" i] by (cases v) auto

text \<open>
  what the normalizer of delegate_task accepts it rewrites to a canonical encoding that
  decodes to exactly the accepted input, for the permission pattern and for the execution
  alike: the task is non-blank and within its bound, the profile is within its bound and
  satisfies the identifier check, and the permission pattern names that same profile.
\<close>

theorem del_normalize_roundtrip:
  assumes "del_normalizeInput ValidateIdentifier limits ctxErr raw = Inr out"
  shows "\<exists>i. del_decodeCanonicalInput out = Inr i \<and> out = del_marshal_input i
    \<and> del_validRequiredText (Task i) (MaxTaskBytes limits) \<and> len (Profile i) \<le> MaxProfileBytes limits
    \<and> ValidateIdentifier (Profile i) \<and> uniqueJSONKeys raw
    \<and> del_Pattern False out = Inr (''delegate-profile:'' @ Profile i)"
proof -
  from assms obtain v i where v: "json_document raw = Some v" "del_into True v = Some i"
    and ok: "del_validRequiredText (Task i) (MaxTaskBytes limits)" "len (Profile i) \<le> MaxProfileBytes limits"
      "ValidateIdentifier (Profile i)" "out = del_marshal_input i" "uniqueJSONKeys raw"
    by (auto simp: del_normalizeInput_def split: if_splits option.splits)
  from del_into_valid [OF v(2)] json_document_strings_ok [OF v(1)]
  have "utf8_valid (Task i)" "utf8_valid (Profile i)" by auto
  from del_decode_marshal [OF this] ok show ?thesis by (auto simp: del_Pattern_def)
qed

lemma del_demo_raw_ascii: "list_all (\<lambda>c. byte c < 0x80) (del_marshal_input \<lparr>Task = ''t'', Profile = ''p''\<rparr>)"
  by (simp add: del_marshal_input_def marshal_string_def escape_body.simps escape_step_def escape_ascii_def html_safe_def)

theorem del_normalize_roundtrip_witness:
  "\<exists>i. del_decodeCanonicalInput (del_marshal_input \<lparr>Task = ''t'', Profile = ''p''\<rparr>) = Inr i
     \<and> del_validRequiredText (Task i) 64 \<and> len (Profile i) \<le> 16"
proof -
  let ?i = "\<lparr>Task = ''t'', Profile = ''p''\<rparr>"
  have v: "utf8_valid ''t''" "utf8_valid ''p''" by (simp_all add: utf8_valid_all_ascii)
  have trim: "TrimSpace ''t'' = ''t''" by (simp add: utf8_eval)
  have doc: "json_document (del_marshal_input ?i) = Some (JObj [(''task'', JStr ''t''), (''profile'', JStr ''p'')])"
    using json_document_del_marshal [of ?i] v by simp
  have "del_normalizeInput (\<lambda>p. True) del_demo_limits False (del_marshal_input ?i) = Inr (del_marshal_input ?i)"
    using v uniqueJSONKeys_document [OF doc] trim
    by (simp add: del_normalizeInput_def doc utf8_valid_all_ascii [OF del_demo_raw_ascii] del_set_field_def del_field_of
        del_validRequiredText_def del_validText_def ContainsByte_def len_def del_demo_limits_def)
  from del_normalize_roundtrip [OF this] show ?thesis
    by (auto simp: del_demo_limits_def)
qed

subsection \<open>Retention covers every result\<close>

lemma del_mapResponse_Inr:
  "del_mapResponse limits e = Inr r \<Longrightarrow>
     utf8_valid (del_output r) \<and> len (del_output r) \<le> MaxResultBytes limits \<and> CHR 0x00 \<notin> set (del_output r)"
  by (auto simp: del_mapResponse_def Let_def list_ex_iff split: if_splits del_ResponseStatus.splits)

lemma del_run_output_len:
  assumes "del_run errs call ctx input now k ws c = (Returned (Inr r), c')"
    and "0 \<le> MaxResultBytes (del_coord_limits c)"
  shows "len (del_output r) \<le> MaxResultBytes (del_coord_limits c)"
proof (cases "del_run_begin errs call ctx input now k c")
  case (Pair b c1)
  show ?thesis
  proof (cases b)
    case (Inl r')
    with Pair assms del_run_begin_refused [of errs call ctx input now k c r c1] show ?thesis
      by (auto simp: del_run_def len_def)
  next
    case (Inr p)
    obtain i dl req where p: "p = (i, dl, req)" by (cases p)
    with Pair Inr assms(1) have "del_wait (del_coord_limits c) dl ws = Returned (Inr r)"
      by (auto simp: del_run_def)
    from del_loop.wait_Inr [OF this] assms(2) show ?thesis
      by (elim disjE conjE bexE exE) (auto simp: del_timed_out_def len_def dest: del_mapResponse_Inr)
  qed
qed

lemma length_del_marshal_result: "length (del_marshal_result r) \<le> 6 * length (del_output r) + 128"
proof -
  have st: "length (marshal_string (del_status_name (del_status r))) \<le> 68"
    using length_marshal_string [of "del_status_name (del_status r)"] by (cases "del_status r") auto
  have "length (marshal_string ''status'') = 8" "length (marshal_string ''output'') = 8"
    by (simp_all add: marshal_string_def escape_body.simps escape_step_def escape_ascii_def html_safe_def)
  with st length_marshal_string [of "del_output r"] show ?thesis
    by (simp add: del_marshal_result_def)
qed

lemma del_resultRetention_covers:
  assumes "del_resultRetention l = Inr m" and "0 < MaxResultBytes l" and "int n \<le> MaxResultBytes l"
  shows "2 * (6 * int n + 128) \<le> m"
proof -
  let ?x = "MaxResultBytes l"
  have x: "?x \<le> (MaxInt64 - 128) div 6" using assms(1) by (auto simp: del_resultRetention_def split: if_splits)
  then have "wrap64 (?x * 6) = ?x * 6" "wrap64 (128 + ?x * 6) = 128 + ?x * 6"
    using assms(2) by (auto simp: MaxInt64_def int64_def intro!: wrap64_id)
  with assms(1) have "m = wrap64 ((128 + ?x * 6) * 2)" "128 + ?x * 6 \<le> MaxInt64 div 2"
    by (auto simp: del_resultRetention_def Let_def split: if_splits)
  moreover from this(2) assms(2) have "wrap64 ((128 + ?x * 6) * 2) = (128 + ?x * 6) * 2"
    by (intro wrap64_id) (auto simp: MaxInt64_def int64_def)
  ultimately show ?thesis using assms(3) by simp
qed

lemma del_canonicalize_Inr:
  "del_canonicalize g v o' = Inr opts \<Longrightarrow>
     del_validateLimits (del_limits opts) = None \<and> del_resultRetention (del_limits opts) = Inr (del_retention opts)
     \<and> del_validIdentity (del_runnerIdentity opts) \<and> v (del_scope opts)"
  by (auto simp: del_canonicalize_def Let_def split: if_splits option.splits sum.splits)

text \<open>
  whatever a delegate_task call executed under canonical options encodes as its result
  fits twice into the retention bound computed from those options, so that Eino never has
  to truncate a durable result. No arithmetic on the bound wraps around.
\<close>

theorem del_result_fits_retention:
  assumes "del_canonicalize g v o' = Inr opts" and "del_coord_limits c = del_limits opts"
    and "del_Execute errs call ctx raw now k ws c = (Returned (Inr out), c')"
  shows "2 * len out \<le> del_retention opts"
proof -
  note can = del_canonicalize_Inr [OF assms(1)]
  from can have pos: "0 < MaxResultBytes (del_limits opts)"
    by (auto simp: del_validateLimits_def split: if_splits)
  from assms(3) obtain input r where run: "del_run errs call ctx input now k ws c = (Returned (Inr r), c')"
    and out: "out = del_marshal_result r"
    by (auto simp: del_Execute_def split: sum.splits prod.splits outcome.splits)
  have "len (del_output r) \<le> MaxResultBytes (del_limits opts)"
    using del_run_output_len [OF run] assms(2) pos by simp
  with del_resultRetention_covers [of "del_limits opts" _ "length (del_output r)"] can pos
  have "2 * (6 * len (del_output r) + 128) \<le> del_retention opts" by (simp add: len_def)
  with length_del_marshal_result [of r] out show ?thesis by (simp add: len_def)
qed

definition del_demo_options :: "nat del_Options" where
  "del_demo_options = \<lparr>del_Scope = None, del_Order = 0, del_runner_nil = False, RunnerIdentity = ''v1'',
     del_Limits = del_demo_limits\<rparr>"

theorem del_result_fits_retention_witness:
  "\<exists>opts out c'. del_canonicalize 0 (\<lambda>s. True) del_demo_options = Inr opts
     \<and> del_Execute (False, False, False) del_demo_call del_demo_ctx
         (del_marshal_input \<lparr>Task = ''t'', Profile = ''p''\<rparr>) 0 7 del_demo_wakes del_demo_coordinator
       = (Returned (Inr out), c')
     \<and> 2 * len out \<le> del_retention opts"
proof -
  let ?opts = "\<lparr>del_scope = 0::nat, del_order = 100, del_runnerIdentity = ''v1'', del_limits = del_demo_limits,
      del_retention = 352\<rparr>"
  have opts: "del_canonicalize 0 (\<lambda>s. True) del_demo_options = Inr ?opts"
    by (simp add: del_canonicalize_def del_demo_options_def del_demo_limits_def del_validIdentity_def len_def
        maxRunnerIdentityBytes_def maxProfileIdentifierBytes_def utf8_eval ContainsByte_def del_DefaultOrder_def
        del_validateLimits_def del_resultRetention_def MaxInt64_def wrap64_def)
  have "del_decodeCanonicalInput (del_marshal_input \<lparr>Task = ''t'', Profile = ''p''\<rparr>) = Inr \<lparr>Task = ''t'', Profile = ''p''\<rparr>"
    by (simp add: del_decode_marshal utf8_valid_all_ascii)
  moreover obtain c' where "del_run (False, False, False) del_demo_call del_demo_ctx \<lparr>Task = ''t'', Profile = ''p''\<rparr> 0 7
     del_demo_wakes del_demo_coordinator
     = (Returned (Inr \<lparr>del_status = StatusCompleted, del_output = ''ok''\<rparr>), c')"
    using del_demo_run by (metis prod.collapse)
  ultimately obtain out where run:
    "del_Execute (False, False, False) del_demo_call del_demo_ctx
         (del_marshal_input \<lparr>Task = ''t'', Profile = ''p''\<rparr>) 0 7 del_demo_wakes del_demo_coordinator
       = (Returned (Inr out), c')"
    by (simp add: del_Execute_def)
  have "del_coord_limits del_demo_coordinator = del_limits ?opts" by (simp add: del_demo_coordinator_def)
  from del_result_fits_retention [OF opts this run] opts run show ?thesis by blast
qed

end
