(* ===== verification/Json_Encode.thy ===== *)
theory Json_Encode
  imports Unique_Keys
begin

section \<open>Encoding a JSON value and reading it back\<close>

text \<open>
  \<open>enc\<close> writes a JSON value the way \<open>json.Marshal\<close> writes the packages' structs: no white
  space, members in field order. \<open>enc_roundtrip\<close> is the round trip with the grammar of the
  decoder, for values whose strings are valid UTF-8 and whose numbers are written canonically.
\<close>

fun sep_by :: "bytes list \<Rightarrow> bytes" where
  "sep_by [] = []"
| "sep_by [x] = x"
| "sep_by (x # y # xs) = x @ CHR '','' # sep_by (y # xs)"

fun enc :: "json \<Rightarrow> bytes" where
  "enc JNull = ''null''"
| "enc (JBool b) = (if b then ''true'' else ''false'')"
| "enc (JNum l) = l"
| "enc (JStr s) = marshal_string s"
| "enc (JArr vs) = CHR ''['' # sep_by (map enc vs) @ [CHR '']'']"
| "enc (JObj ms) = CHR ''{'' # sep_by (map (\<lambda>m. marshal_string (fst m) @ CHR '':'' # enc (snd m)) ms) @ [CHR ''}'']"

fun depth :: "json \<Rightarrow> nat" where
  "depth (JArr vs) = Suc (Max (insert 0 (set (map depth vs))))"
| "depth (JObj ms) = Suc (Max (insert 0 (set (map (\<lambda>m. depth (snd m)) ms))))"
| "depth _ = 0"

text \<open>A byte sequence that may follow a value inside a document.\<close>

definition ends_value :: "bytes \<Rightarrow> bool" where
  "ends_value r \<longleftrightarrow> r = [] \<or> hd r = CHR '','' \<or> hd r = CHR '']'' \<or> hd r = CHR ''}''"

definition canonical_number :: "bytes \<Rightarrow> bool" where
  "canonical_number l \<longleftrightarrow> l \<noteq> [] \<and> (hd l = CHR ''-'' \<or> is_digit (hd l))
     \<and> (\<forall>r. ends_value r \<longrightarrow> scan_number (l @ r) = Some (l, r))"

fun encodable :: "json \<Rightarrow> bool" where
  "encodable (JStr s) = utf8_valid s"
| "encodable (JNum l) = canonical_number l"
| "encodable (JArr vs) = (\<forall>v \<in> set vs. encodable v)"
| "encodable (JObj ms) = (\<forall>m \<in> set ms. utf8_valid (fst m) \<and> encodable (snd m))"
| "encodable _ = True"

lemma not_ws_number: "c = CHR ''-'' \<or> is_digit c \<Longrightarrow> \<not> ws_byte c \<and> c \<noteq> CHR ''['' \<and> c \<noteq> CHR ''{'' \<and> c \<noteq> CHR 0x22
    \<and> c \<noteq> CHR ''n'' \<and> c \<noteq> CHR ''t'' \<and> c \<noteq> CHR ''f''"
  by (auto simp: ws_byte_def is_digit_def)

lemma value_at_number:
  assumes "canonical_number l" and "ends_value r"
  shows "value_at d (l @ r) = Some (JNum l, r)"
proof -
  obtain c t where l: "l = c # t" and c: "c = CHR ''-'' \<or> is_digit c"
    using assms(1) by (cases l) (auto simp: canonical_number_def)
  note n = not_ws_number [OF c]
  have "scan_number (l @ r) = Some (l, r)" using assms by (simp add: canonical_number_def)
  moreover have "skip_ws (l @ r) = l @ r" using l n by simp
  ultimately show ?thesis
    using l n by (subst value_at_eq) (simp add: scalar_at_def literal_at_def HasPrefix_def)
qed

lemma value_at_string: "utf8_valid s \<Longrightarrow> value_at d (marshal_string s @ r) = Some (JStr s, r)"
  by (subst value_at_eq) (simp add: marshal_string_append scalar_at_def scan_marshal)

lemma value_at_literal:
  "value_at d (''null'' @ r) = Some (JNull, r)" "value_at d (''true'' @ r) = Some (JBool True, r)"
  "value_at d (''false'' @ r) = Some (JBool False, r)"
  by (subst value_at_eq; simp add: ws_byte_def scalar_at_def literal_at_def HasPrefix_def)+

lemma depth_elem: "v \<in> set vs \<Longrightarrow> Suc (depth v) \<le> depth (JArr vs)"
  by (auto intro: Max_ge)

lemma depth_member: "m \<in> set ms \<Longrightarrow> Suc (depth (snd m)) \<le> depth (JObj ms)"
  by (auto intro: Max_ge)

subsection \<open>Writers of JSON\<close>

text \<open>
  \<open>json.Marshal\<close> and Python's \<open>json.dumps\<close> differ in what they escape in a string, and in nothing else
  that the packages use. A way to escape strings that the decoder reads back gives a writer of JSON that it
  reads back.
\<close>

definition quote_with :: "(bytes \<Rightarrow> bytes) \<Rightarrow> bytes \<Rightarrow> bytes" where
  "quote_with body s = CHR 0x22 # body s @ [CHR 0x22]"

fun enc_with :: "(bytes \<Rightarrow> bytes) \<Rightarrow> json \<Rightarrow> bytes" where
  "enc_with body JNull = ''null''"
| "enc_with body (JBool b) = (if b then ''true'' else ''false'')"
| "enc_with body (JNum l) = l"
| "enc_with body (JStr s) = quote_with body s"
| "enc_with body (JArr vs) = CHR ''['' # sep_by (map (enc_with body) vs) @ [CHR '']'']"
| "enc_with body (JObj ms) = CHR ''{'' # sep_by (map (\<lambda>m. quote_with body (fst m) @ CHR '':'' # enc_with body (snd m)) ms) @ [CHR ''}'']"

lemma enc_with_marshal: "enc_with escape_body v = enc v"
proof (induction v)
  case (JArr vs)
  then have "map (enc_with escape_body) vs = map enc vs" by simp
  then show ?case by (simp only: enc_with.simps enc.simps)
next
  case (JObj ms)
  have "enc_with escape_body (snd m) = enc (snd m)" if "m \<in> set ms" for m using JObj[of m "snd m"] that by (cases m) auto
  then have "map (\<lambda>m. quote_with escape_body (fst m) @ CHR '':'' # enc_with escape_body (snd m)) ms =
      map (\<lambda>m. marshal_string (fst m) @ CHR '':'' # enc (snd m)) ms"
    by (simp add: quote_with_def marshal_string_def)
  then show ?case by (simp only: enc_with.simps enc.simps)
qed (simp_all add: quote_with_def marshal_string_def)

lemma sep_by_hd: "x \<noteq> [] \<Longrightarrow> sep_by (x # xs) \<noteq> [] \<and> hd (sep_by (x # xs)) = hd x"
  by (cases xs) auto

locale string_writer =
  fixes body :: "bytes \<Rightarrow> bytes"
  assumes body_scan: "utf8_valid s \<Longrightarrow> scan_string (body s @ CHR 0x22 # r) = Some (body s, r)"
    and body_unquote: "utf8_valid s \<Longrightarrow> unquote (body s) = s"
begin

lemma quote_append: "quote_with body s @ r = CHR 0x22 # body s @ CHR 0x22 # r"
  by (simp add: quote_with_def)

lemma value_at_quote: "utf8_valid s \<Longrightarrow> value_at d (quote_with body s @ r) = Some (JStr s, r)"
  by (subst value_at_eq) (simp add: quote_append scalar_at_def body_scan body_unquote)

lemma write_hd: "encodable v \<Longrightarrow> enc_with body v \<noteq> [] \<and> \<not> ws_byte (hd (enc_with body v)) \<and> hd (enc_with body v) \<noteq> CHR '']'' \<and> hd (enc_with body v) \<noteq> CHR ''}''"
  by (cases v) (auto simp: quote_with_def canonical_number_def ws_byte_def is_digit_def)

lemma elems_write:
  assumes "vs \<noteq> []" and "\<And>v r. v \<in> set vs \<Longrightarrow> ends_value r \<Longrightarrow> value_at d (enc_with body v @ r) = Some (v, r)"
  shows "elems_at d (sep_by (map (enc_with body) vs) @ CHR '']'' # r) = Some (vs, r)"
  using assms
proof (induction vs rule: list_nonempty_induct)
  case (single v)
  then show ?case by (subst elems_at_eq) (simp add: ends_value_def)
next
  case (cons v vs)
  obtain w ws where vs: "vs = w # ws" using cons.hyps by (cases vs) auto
  have "value_at d (enc_with body v @ CHR '','' # sep_by (map (enc_with body) vs) @ CHR '']'' # r)
      = Some (v, CHR '','' # sep_by (map (enc_with body) vs) @ CHR '']'' # r)"
    using cons.prems [of v] by (simp add: ends_value_def)
  with cons vs show ?case by (subst elems_at_eq) simp
qed

lemma members_write:
  assumes "ms \<noteq> []" and "\<And>m r. m \<in> set ms \<Longrightarrow> utf8_valid (fst m)"
    and "\<And>m r. m \<in> set ms \<Longrightarrow> ends_value r \<Longrightarrow> value_at d (enc_with body (snd m) @ r) = Some (snd m, r)"
  shows "members_at d (sep_by (map (\<lambda>m. quote_with body (fst m) @ CHR '':'' # enc_with body (snd m)) ms) @ CHR ''}'' # r) = Some (ms, r)"
  using assms
proof (induction ms rule: list_nonempty_induct)
  case (single m)
  then show ?case by (subst members_at_eq) (simp add: ends_value_def quote_append body_scan body_unquote)
next
  case (cons m ms)
  let ?f = "\<lambda>m. quote_with body (fst m) @ CHR '':'' # enc_with body (snd m)"
  obtain w ws where ms: "ms = w # ws" using cons.hyps by (cases ms) auto
  have "value_at d (enc_with body (snd m) @ CHR '','' # sep_by (map ?f ms) @ CHR ''}'' # r)
      = Some (snd m, CHR '','' # sep_by (map ?f ms) @ CHR ''}'' # r)"
    using cons.prems(2) [of m] by (simp add: ends_value_def)
  with cons ms show ?case by (subst members_at_eq) (simp add: quote_append body_scan body_unquote)
qed

lemma write_roundtrip:
  "encodable v \<Longrightarrow> depth v \<le> d \<Longrightarrow> ends_value r \<Longrightarrow> value_at d (enc_with body v @ r) = Some (v, r)"
proof (induction v arbitrary: d r)
  case (JArr vs)
  have d: "depth v \<le> d - 1" "d \<noteq> 0" if "v \<in> set vs" for v
    using depth_elem [OF that] JArr.prems(2) by linarith+
  show ?case
  proof (cases vs)
    case Nil
    have "d \<noteq> 0" using JArr.prems(2) Nil by auto
    with Nil show ?thesis by (subst value_at_eq) simp
  next
    case (Cons v ws)
    let ?t = "sep_by (map (enc_with body) vs) @ CHR '']'' # r"
    have "encodable v" using JArr.prems(1) Cons by simp
    then have hd: "?t \<noteq> []" "hd ?t = hd (enc_with body v)" using write_hd [of v] sep_by_hd [of "enc_with body v" "map (enc_with body) ws"] Cons by auto
    then obtain c u where cu: "?t = c # u" "c = hd (enc_with body v)" by (cases ?t) auto
    have "elems_at (d - 1) ?t = Some (vs, r)"
      using JArr Cons d by (intro elems_write) auto
    moreover have "skip_ws ?t = ?t" "\<not> starts_with (CHR '']'') ?t"
      using cu write_hd [OF \<open>encodable v\<close>] by simp_all
    ultimately show ?thesis using d [of v] Cons by (subst value_at_eq) (simp add: Let_def)
  qed
next
  case (JObj ms)
  have d: "depth (snd m) \<le> d - 1" "d \<noteq> 0" if "m \<in> set ms" for m
    using depth_member [OF that] JObj.prems(2) by linarith+
  let ?f = "\<lambda>m. quote_with body (fst m) @ CHR '':'' # enc_with body (snd m)"
  show ?case
  proof (cases ms)
    case Nil
    have "d \<noteq> 0" using JObj.prems(2) Nil by auto
    with Nil show ?thesis by (subst value_at_eq) simp
  next
    case (Cons m ns)
    let ?t = "sep_by (map ?f ms) @ CHR ''}'' # r"
    have "hd (sep_by (?f m # map ?f ns)) = CHR 0x22" "sep_by (?f m # map ?f ns) \<noteq> []"
      using sep_by_hd [of "?f m" "map ?f ns"] by (simp_all add: quote_with_def)
    then have "?t \<noteq> []" "hd ?t = CHR 0x22" using Cons by (simp_all add: hd_append)
    then obtain u where cu: "?t = CHR 0x22 # u" by (metis list.collapse)
    have "members_at (d - 1) ?t = Some (ms, r)"
    proof (rule members_write)
      show "ms \<noteq> []" using Cons by simp
      show "utf8_valid (fst m)" if "m \<in> set ms" for m using that JObj.prems(1) by simp
      show "value_at (d - 1) (enc_with body (snd m) @ r) = Some (snd m, r)" if "m \<in> set ms" "ends_value r" for m r
        using JObj.IH [of m "snd m" "d - 1" r] that d [OF that(1)] JObj.prems(1) by (cases m) auto
    qed
    moreover have "skip_ws ?t = ?t" "\<not> starts_with (CHR ''}'') ?t" using cu by simp_all
    ultimately show ?thesis using d [of m] Cons by (subst value_at_eq) (simp add: Let_def)
  qed
qed (auto simp: value_at_number value_at_quote value_at_literal [simplified])

end

interpretation go_strings: string_writer escape_body
  by unfold_locales (simp_all add: scan_marshal)

lemma enc_roundtrip: "encodable v \<Longrightarrow> depth v \<le> d \<Longrightarrow> ends_value r \<Longrightarrow> value_at d (enc v @ r) = Some (v, r)"
  using go_strings.write_roundtrip by (simp add: enc_with_marshal)

lemma json_document_enc:
  assumes "encodable v" and "depth v \<le> maxNestingDepth"
  shows "json_document (enc v) = Some v"
  using enc_roundtrip [OF assms, of "[]"]
  by (simp add: json_document_def json_read_value_at ends_value_def)

subsection \<open>Sizes of encodings\<close>

lemma length_sep_by: "length (sep_by xs) = sum_list (map length xs) + (length xs - 1)"
  by (induction xs rule: sep_by.induct) auto

text \<open>Decimal literals of integers.\<close>

fun nat_digits :: "nat \<Rightarrow> bytes" where
  "nat_digits n = (if n < 10 then [char_of (0x30 + n)] else nat_digits (n div 10) @ [char_of (0x30 + n mod 10)])"

declare nat_digits.simps [simp del]

definition int_lit :: "int \<Rightarrow> bytes" where
  "int_lit n = (if n < 0 then CHR ''-'' # nat_digits (nat (- n)) else nat_digits (nat n))"

lemma digit_char: "(n::nat) < 10 \<Longrightarrow> is_digit (char_of (0x30 + n))"
  by (simp add: is_digit_def of_char_of)

lemma nat_digits_digits: "list_all is_digit (nat_digits n) \<and> nat_digits n \<noteq> []"
proof (induction n rule: nat_digits.induct)
  case (1 n)
  show ?case
    using 1 digit_char [of n] digit_char [of "n mod 10"] by (subst (1 2) nat_digits.simps) auto
qed

lemma length_nat_digits_mono: "a \<le> b \<Longrightarrow> length (nat_digits a) \<le> length (nat_digits b)"
proof (induction b arbitrary: a rule: less_induct)
  case (less b)
  show ?case
  proof (cases "a < 10")
    case True
    then show ?thesis using nat_digits_digits[of b] by (simp add: nat_digits.simps[of a] Suc_le_eq)
  next
    case False
    then have "length (nat_digits (a div 10)) \<le> length (nat_digits (b div 10))" using less by (intro less.IH) (auto intro: div_le_mono)
    then show ?thesis using False less.prems by (simp add: nat_digits.simps[of a] nat_digits.simps[of b])
  qed
qed

lemma nat_digits_zero: "hd (nat_digits n) = CHR ''0'' \<Longrightarrow> n = 0"
proof (induction n rule: nat_digits.induct)
  case (1 n)
  show ?case
  proof (cases "n < 10")
    case True
    with 1(2) have "char_of (0x30 + n) = CHR ''0''" by (simp add: nat_digits.simps [of n])
    then have "byte (char_of (0x30 + n)) = 0x30" by simp
    with True show ?thesis by (simp add: of_char_of)
  next
    case False
    with 1(2) nat_digits_digits [of "n div 10"] have "hd (nat_digits (n div 10)) = CHR ''0''"
      by (simp add: nat_digits.simps [of n])
    with 1(1) False show ?thesis by simp
  qed
qed

lemma nat_digits_lt10: "nat_digits 0 = [CHR ''0'']"
proof -
  have "byte (char_of (48::nat)) = byte (CHR ''0'')" by (simp add: of_char_of)
  then have "char_of (48::nat) = CHR ''0''" by (metis char_of_byte)
  then show ?thesis by (simp add: nat_digits.simps)
qed

lemma digits1_ends:
  assumes "list_all is_digit l" and "l \<noteq> []" and "ends_value r"
  shows "digits1 (l @ r) = Some (l, r)"
proof -
  have "\<not> is_digit (hd r)" if "r \<noteq> []" using assms(3) that by (auto simp: ends_value_def is_digit_def)
  then have "takeWhile is_digit r = []" "dropWhile is_digit r = r" by (cases r; simp)+
  moreover have "\<And>x. x \<in> set l \<Longrightarrow> is_digit x" using assms(1) by (simp add: list_all_iff)
  ultimately show ?thesis using assms(2) by (simp add: digits1_def)
qed

lemma scan_tail_ends: "ends_value r \<Longrightarrow> scan_frac r = Some ([], r) \<and> scan_exp r = Some ([], r)"
  by (cases r) (auto simp: scan_frac_def scan_exp_def ends_value_def)

lemma scan_int_digits:
  assumes "ends_value r"
  shows "scan_int (nat_digits n @ r) = Some (nat_digits n, r)"
proof (cases "n = 0")
  case True
  then show ?thesis by (simp add: nat_digits_lt10 scan_int_def)
next
  case False
  obtain c t where c: "nat_digits n = c # t" using nat_digits_digits [of n] by (cases "nat_digits n") auto
  have "c \<noteq> CHR ''0''" using nat_digits_zero [of n] False c by auto
  with c digits1_ends [of "nat_digits n" r] nat_digits_digits [of n] assms show ?thesis
    by (simp add: scan_int_def)
qed

lemma canonical_int_lit: "canonical_number (int_lit n)"
proof -
  have d: "nat_digits k \<noteq> []" "is_digit (hd (nat_digits k))" "hd (nat_digits k) \<noteq> CHR ''-''" for k
    using nat_digits_digits [of k] by (cases "nat_digits k"; auto simp: is_digit_def)+
  have "scan_number (int_lit n @ r) = Some (int_lit n, r)" if "ends_value r" for r
  proof (cases "n < 0")
    case True
    with that show ?thesis by (simp add: int_lit_def scan_number_def scan_int_digits scan_tail_ends)
  next
    case False
    obtain c t where c: "nat_digits (nat n) = c # t" using d(1) [of "nat n"] by (cases "nat_digits (nat n)") auto
    with d(3) [of "nat n"] False that scan_int_digits [OF that, of "nat n"] show ?thesis
      by (simp add: int_lit_def scan_number_def scan_tail_ends)
  qed
  with d show ?thesis by (auto simp: canonical_number_def int_lit_def)
qed

lemma digits_value_snoc:
  "is_digit c \<Longrightarrow> digits_value (l @ [c]) = 10 * digits_value l + (byte c - 0x30)"
  by (simp add: digits_value_def)

lemma digits_value_nat_digits: "digits_value (nat_digits n) = n"
proof (induction n rule: nat_digits.induct)
  case (1 n)
  show ?case
  proof (cases "n < 10")
    case True
    then show ?thesis by (subst nat_digits.simps) (simp add: digits_value_def is_digit_def of_char_of)
  next
    case False
    then show ?thesis using 1
      by (subst nat_digits.simps) (simp add: digits_value_snoc is_digit_def of_char_of)
  qed
qed

lemma parse_int64_lit: "int64 n \<Longrightarrow> parse_int64 (int_lit n) = Some n"
proof -
  assume n: "int64 n"
  have d: "nat_digits k \<noteq> []" "hd (nat_digits k) \<noteq> CHR ''-''" "list_all is_digit (nat_digits k)" for k
    using nat_digits_digits [of k] by (cases "nat_digits k"; auto simp: is_digit_def)+
  have neg: "\<not> is_digit (CHR ''-'')" by (simp add: is_digit_def)
  have dv: "digits_value (CHR ''-'' # nat_digits k) = k" for k
    using digits_value_nat_digits [of k] neg by (simp add: digits_value_def)
  show ?thesis
  proof (cases "n < 0")
    case True
    with n d dv show ?thesis by (simp add: parse_int64_def int_lit_def signed_value_def Let_def)
  next
    case False
    have "\<not> starts_with (CHR ''-'') (nat_digits (nat n))" using d(2) by (simp add: starts_with_def)
    with n d digits_value_nat_digits False show ?thesis
      by (simp add: parse_int64_def int_lit_def signed_value_def Let_def)
  qed
qed

end
