(* ===== verification/Askuser.thy ===== *)
theory Askuser
  imports Json_Encode Coordinator
begin

section \<open>askuser: one bounded question to a person\<close>

text \<open>
  The ask_user tool: canonical options and the retention bound (config.go), the input
  normalizer with its check of \<open>\\u\<close> escapes (tool.go), and the coordinator that waits for the
  host's responder (coordinator.go). The duplicate-key walk is the one of \<open>Unique_Keys\<close>: the
  two packages contain the same code. The responder, the scope check of the extension package
  and the digest are not code of the repository and are parameters or not modelled.
\<close>

subsection \<open>Options\<close>

record ask_Limits =
  MaxQuestionBytes :: int
  MaxOptionLabelBytes :: int
  MaxOptionDescriptionBytes :: int
  MaxCustomAnswerBytes :: int
  ask_MaxInFlight :: int
  ask_MaxWait :: int

record 'scope ask_Options =
  ask_Scope :: "'scope option"
  ask_Order :: int
  ask_responder_nil :: bool
  ResponderIdentity :: string
  ask_Limits :: ask_Limits

record 'scope ask_canonicalOptions =
  ask_scope :: 'scope
  ask_order :: int
  ask_responderIdentity :: string
  ask_limits :: ask_Limits
  ask_retention :: int

definition ask_DefaultOrder :: int where
  "ask_DefaultOrder = 100"

definition maxResponderIdentityBytes :: int where
  "maxResponderIdentityBytes = 256"

definition ask_validIdentity :: "string \<Rightarrow> bool" where
  "ask_validIdentity value =
     (if value = [] \<or> len value > maxResponderIdentityBytes \<or> \<not> utf8_valid value \<or> ContainsByte value (CHR 0x00)
      then False
      else \<not> list_ex (\<lambda>p. IsControl (fst p)) (runes value))"

definition ask_validateLimits :: "ask_Limits \<Rightarrow> string option" where
  "ask_validateLimits l =
     (if list_ex (\<lambda>v. v \<le> 0) [MaxQuestionBytes l, MaxOptionLabelBytes l, MaxOptionDescriptionBytes l,
           MaxCustomAnswerBytes l, ask_MaxInFlight l]
      then Some ''limits''
      else if ask_MaxWait l \<le> 0 then Some ''max-wait''
      else None)"

definition ask_resultRetention :: "ask_Limits \<Rightarrow> string + int" where
  "ask_resultRetention l =
     (let largestText = (if MaxCustomAnswerBytes l > MaxOptionLabelBytes l then MaxCustomAnswerBytes l
                         else MaxOptionLabelBytes l) in
      if largestText > (MaxInt64 - 128) div 6 then Inl ''result-retention''
      else let oneCopy = wrap64 (128 + wrap64 (largestText * 6)) in
        if oneCopy > MaxInt64 div 2 then Inl ''result-retention''
        else Inr (wrap64 (oneCopy * 2)))"

definition ask_canonicalize ::
  "'scope \<Rightarrow> ('scope \<Rightarrow> bool) \<Rightarrow> 'scope ask_Options \<Rightarrow> string + 'scope ask_canonicalOptions" where
  "ask_canonicalize GlobalScope ValidateScope options =
     (let scope = (case ask_Scope options of None \<Rightarrow> GlobalScope | Some s \<Rightarrow> s);
          order = (if ask_Order options = 0 then ask_DefaultOrder else ask_Order options) in
      if \<not> ValidateScope scope then Inl ''scope''
      else if ask_responder_nil options then Inl ''responder-required''
      else if \<not> ask_validIdentity (ResponderIdentity options) then Inl ''responder-identity''
      else (case ask_validateLimits (ask_Limits options) of
              Some code \<Rightarrow> Inl code
            | None \<Rightarrow>
                (case ask_resultRetention (ask_Limits options) of
                   Inl code \<Rightarrow> Inl code
                 | Inr retention \<Rightarrow>
                     Inr \<lparr>ask_scope = scope, ask_order = order, ask_responderIdentity = ResponderIdentity options,
                          ask_limits = ask_Limits options, ask_retention = retention\<rparr>)))"

subsection \<open>Input\<close>

record ask_toolOption =
  Label :: string
  Description :: string

record ask_toolInput =
  Question :: string
  Options :: "ask_toolOption list"

definition ask_validText :: "string \<Rightarrow> int \<Rightarrow> bool" where
  "ask_validText value maximum \<longleftrightarrow>
     utf8_valid value \<and> len value \<le> maximum \<and> \<not> ContainsByte value (CHR 0x00)"

definition ask_validRequiredText :: "string \<Rightarrow> int \<Rightarrow> bool" where
  "ask_validRequiredText value maximum \<longleftrightarrow> ask_validText value maximum \<and> TrimSpace value \<noteq> []"

text \<open>\<open>parseHex4\<close> on four bytes; the 16-bit accumulator never overflows.\<close>

definition parseHex4 :: "bytes \<Rightarrow> nat option" where
  "parseHex4 raw =
     (if length raw \<noteq> 4 then None
      else foldl (\<lambda>acc c. case acc of None \<Rightarrow> None
             | Some value \<Rightarrow>
                 let value = (value * 16) mod 65536; b = byte c in
                 if 0x30 \<le> b \<and> b \<le> 0x39 then Some ((value + (b - 0x30)) mod 65536)
                 else if 0x61 \<le> b \<and> b \<le> 0x66 then Some ((value + (b - 0x61) + 10) mod 65536)
                 else if 0x41 \<le> b \<and> b \<le> 0x46 then Some ((value + (b - 0x41) + 10) mod 65536)
                 else None) (Some 0) raw)"

text \<open>
  The loop of \<open>validUnicodeEscapes\<close>: \<open>raw\<close> is what is left of the input at the head of the loop.
  Inside a string a backslash takes the byte after it, and \<open>\\u\<close> takes four hexadecimal digits
  and, for a high surrogate, the low half that must follow.
\<close>

function validUnicodeEscapes_from :: "bool \<Rightarrow> bytes \<Rightarrow> bool" where
  "validUnicodeEscapes_from inString raw =
     (case raw of
        [] \<Rightarrow> \<not> inString
      | c # t \<Rightarrow>
          if c = CHR 0x22 then validUnicodeEscapes_from (\<not> inString) t
          else if c = CHR 0x5C then
            (if \<not> inString \<or> t = [] then validUnicodeEscapes_from inString t
             else if hd t \<noteq> CHR ''u'' then validUnicodeEscapes_from inString (tl t)
             else if length (tl t) < 4 then False
             else (case parseHex4 (take 4 (tl t)) of
                     None \<Rightarrow> False
                   | Some first \<Rightarrow>
                       let u = drop 4 (tl t) in
                       if 0xDC00 \<le> first \<and> first \<le> 0xDFFF then False
                       else if 0xD800 \<le> first \<and> first \<le> 0xDBFF then
                         (if length u < 6 \<or> u ! 0 \<noteq> CHR 0x5C \<or> u ! 1 \<noteq> CHR ''u'' then False
                          else (case parseHex4 (take 4 (drop 2 u)) of
                                  None \<Rightarrow> False
                                | Some second \<Rightarrow>
                                    if second < 0xDC00 \<or> second > 0xDFFF then False
                                    else validUnicodeEscapes_from inString (drop 6 u)))
                       else validUnicodeEscapes_from inString u))
          else validUnicodeEscapes_from inString t)"
  by pat_completeness auto
termination
  by (relation "measure (\<lambda>(b, raw). length raw)") auto

declare validUnicodeEscapes_from.simps [simp del]

definition validUnicodeEscapes :: "bytes \<Rightarrow> bool" where
  "validUnicodeEscapes raw = validUnicodeEscapes_from False raw"

text \<open>
  Decoding into the structs. A JSON array decodes into the slice element by element, on top
  of what the backing array already holds (two keys that differ only in case address the same
  field), so the decoder's view of the slice is its backing array and its length.
\<close>

definition ask_zero_option :: ask_toolOption where
  "ask_zero_option = \<lparr>Label = [], Description = []\<rparr>"

definition ask_set_option_field :: "bool \<Rightarrow> (string \<times> json) \<Rightarrow> ask_toolOption option \<Rightarrow> ask_toolOption option" where
  "ask_set_option_field strict m acc =
     (case acc of None \<Rightarrow> None
      | Some o' \<Rightarrow>
          (case field_of [''label'', ''description''] (fst m) of
             None \<Rightarrow> if strict then None else Some o'
           | Some n \<Rightarrow>
               if n = ''label'' then map_option (\<lambda>v. o'\<lparr>Label := v\<rparr>) (into_string (Label o') (snd m))
               else map_option (\<lambda>v. o'\<lparr>Description := v\<rparr>) (into_string (Description o') (snd m))))"

fun ask_into_option :: "bool \<Rightarrow> ask_toolOption \<Rightarrow> json \<Rightarrow> ask_toolOption option" where
  "ask_into_option strict old (JObj ms) = fold (ask_set_option_field strict) ms (Some old)"
| "ask_into_option strict old JNull = Some old"
| "ask_into_option strict old _ = None"

fun ask_into_elems :: "bool \<Rightarrow> ask_toolOption list \<Rightarrow> json list \<Rightarrow> ask_toolOption list option" where
  "ask_into_elems strict backing [] = Some backing"
| "ask_into_elems strict backing (v # vs) =
     (case ask_into_option strict (case backing of [] \<Rightarrow> ask_zero_option | b # _ \<Rightarrow> b) v of
        None \<Rightarrow> None
      | Some o' \<Rightarrow> map_option ((#) o') (ask_into_elems strict (case backing of [] \<Rightarrow> [] | _ # bs \<Rightarrow> bs) vs))"

fun ask_into_slice ::
  "bool \<Rightarrow> ask_toolOption list \<times> nat \<Rightarrow> json \<Rightarrow> (ask_toolOption list \<times> nat) option" where
  "ask_into_slice strict s (JArr vs) =
     (if vs = [] then Some ([], 0)
      else map_option (\<lambda>b. (b, length vs)) (ask_into_elems strict (fst s) vs))"
| "ask_into_slice strict s JNull = Some ([], 0)"
| "ask_into_slice strict s _ = None"

definition ask_set_field ::
  "bool \<Rightarrow> (string \<times> json) \<Rightarrow> (string \<times> ask_toolOption list \<times> nat) option
   \<Rightarrow> (string \<times> ask_toolOption list \<times> nat) option" where
  "ask_set_field strict m acc =
     (case acc of None \<Rightarrow> None
      | Some (q, s) \<Rightarrow>
          (case field_of [''question'', ''options''] (fst m) of
             None \<Rightarrow> if strict then None else Some (q, s)
           | Some n \<Rightarrow>
               if n = ''question'' then map_option (\<lambda>v. (v, s)) (into_string q (snd m))
               else map_option (\<lambda>v. (q, v)) (ask_into_slice strict s (snd m))))"

fun ask_into :: "bool \<Rightarrow> json \<Rightarrow> ask_toolInput option" where
  "ask_into strict (JObj ms) =
     map_option (\<lambda>(q, b, n). \<lparr>Question = q, Options = take n b\<rparr>) (fold (ask_set_field strict) ms (Some ([], [], 0)))"
| "ask_into strict JNull = Some \<lparr>Question = [], Options = []\<rparr>"
| "ask_into strict _ = None"

definition ask_json_option :: "ask_toolOption \<Rightarrow> json" where
  "ask_json_option o' = JObj ((''label'', JStr (Label o')) #
     (if Description o' = [] then [] else [(''description'', JStr (Description o'))]))"

definition ask_json_input :: "ask_toolInput \<Rightarrow> json" where
  "ask_json_input i = JObj [(''question'', JStr (Question i)), (''options'', JArr (map ask_json_option (Options i)))]"

definition ask_marshal_input :: "ask_toolInput \<Rightarrow> bytes" where
  "ask_marshal_input i = enc (ask_json_input i)"

text \<open>The loop over the options, with the index it reports and the labels seen so far.\<close>

fun ask_check_options :: "ask_Limits \<Rightarrow> string list \<Rightarrow> nat \<Rightarrow> ask_toolOption list \<Rightarrow> string option" where
  "ask_check_options l seen index [] = None"
| "ask_check_options l seen index (item # items) =
     (if \<not> ask_validRequiredText (Label item) (MaxOptionLabelBytes l)
      then Some (''option-label-'' @ nat_digits (index + 1))
      else if \<not> ask_validText (Description item) (MaxOptionDescriptionBytes l)
      then Some (''option-description-'' @ nat_digits (index + 1))
      else if List.member seen (Label item) then Some ''duplicate-option-label''
      else ask_check_options l (Label item # seen) (Suc index) items)"

definition ask_normalizeInput :: "ask_Limits \<Rightarrow> bool \<Rightarrow> bytes \<Rightarrow> call_error + bytes" where
  "ask_normalizeInput limits ctxErr raw =
     (if ctxErr then Inl ContextError
      else if \<not> utf8_valid raw then Inl (CodeError ''utf8'')
      else if \<not> validUnicodeEscapes raw then Inl (CodeError ''unicode-escape'')
      else if \<not> uniqueJSONKeys raw then Inl (CodeError ''duplicate-field'')
      else (case json_document raw of
              None \<Rightarrow> Inl (CodeError ''shape'')
            | Some v \<Rightarrow>
                (case ask_into True v of
                   None \<Rightarrow> Inl (CodeError ''shape'')
                 | Some input \<Rightarrow>
                     if \<not> ask_validRequiredText (Question input) (MaxQuestionBytes limits)
                     then Inl (CodeError ''question'')
                     else if length (Options input) < 2 \<or> length (Options input) > 5
                     then Inl (CodeError ''option-count'')
                     else (case ask_check_options limits [] 0 (Options input) of
                             Some code \<Rightarrow> Inl (CodeError code)
                           | None \<Rightarrow> Inr (ask_marshal_input input)))))"

definition ask_decode_canonical :: "bytes \<Rightarrow> call_error + ask_toolInput" where
  "ask_decode_canonical raw =
     (case json_document raw of
        None \<Rightarrow> Inl (CodeError ''canonical-input'')
      | Some v \<Rightarrow> (case ask_into False v of None \<Rightarrow> Inl (CodeError ''canonical-input'') | Some i \<Rightarrow> Inr i))"

subsection \<open>Coordinator\<close>

record 'c ask_coordinator = "'c coordinator" +
  ask_coord_limits :: ask_Limits

definition ask_newCoordinator :: "'scope ask_canonicalOptions \<Rightarrow> 'c ask_coordinator" where
  "ask_newCoordinator options =
     \<lparr>closing = False, closed = False, live = 0, nextID = 0, cancels = [], doneClosed = False,
      ask_coord_limits = ask_limits options\<rparr>"

definition ask_acquire :: "'c \<Rightarrow> 'c ask_coordinator \<Rightarrow> 64 word option \<times> 'c ask_coordinator" where
  "ask_acquire cancel c =
     (if closing c \<or> closed c \<or> live c \<ge> ask_MaxInFlight (ask_coord_limits c) then (None, c)
      else let id = nextID c + 1 in
        (Some id, c\<lparr>nextID := id, live := live c + 1, cancels := AList.update id cancel (cancels c)\<rparr>))"

definition ask_release :: "64 word \<Rightarrow> 'c ask_coordinator \<Rightarrow> 'c ask_coordinator" where
  "ask_release i c =
     (let c = (if has_key (cancels c) i
               then c\<lparr>cancels := AList.delete i (cancels c), live := live c - 1\<rparr> else c) in
      if closing c \<and> live c = 0 then c\<lparr>closed := True, doneClosed := True\<rparr> else c)"

definition ask_Close :: "bool \<Rightarrow> 'c ask_coordinator \<Rightarrow> 'c close_step \<times> 'c ask_coordinator" where
  "ask_Close ctx_nil c =
     (if ctx_nil then (CloseReturns (Some (CodeError ''close-context'')), c)
      else if closed c then (CloseReturns None, c)
      else let c1 = c\<lparr>closing := True\<rparr>;
               c2 = (if live c1 = 0 then c1\<lparr>closed := True, doneClosed := True\<rparr> else c1)
           in (CloseAwaits (map snd (cancels c)), c2))"

definition ask_Close_state :: "'c ask_coordinator \<Rightarrow> 'c ask_coordinator" where
  "ask_Close_state c = snd (ask_Close False c)"

datatype ask_ResponseKind = ResponseSelected | ResponseCustom | ResponseDismissed | ask_ResponseUnavailable
  | ask_OtherKind string

record ask_Response =
  Kind :: ask_ResponseKind
  SelectedOption :: int
  CustomAnswer :: string

datatype ask_Status = StatusSelected | StatusCustom | StatusDismissed | ask_StatusUnavailable | ask_StatusTimedOut

record ask_Result =
  ask_status :: ask_Status
  ask_answer :: string
  ask_selected :: int

record ask_envelope =
  ask_response :: ask_Response
  ask_err :: bool

definition ask_mapResponse :: "ask_toolInput \<Rightarrow> ask_Limits \<Rightarrow> ask_envelope \<Rightarrow> call_error + ask_Result" where
  "ask_mapResponse input limits envelope =
     (let r = ask_response envelope in
      if ask_err envelope then Inl OperationError
      else (case Kind r of
              ResponseSelected \<Rightarrow>
                if SelectedOption r < 1 \<or> SelectedOption r > len (Options input) \<or> CustomAnswer r \<noteq> []
                then Inl OperationError
                else Inr \<lparr>ask_status = StatusSelected, ask_answer = Label (Options input ! nat (SelectedOption r - 1)),
                          ask_selected = SelectedOption r\<rparr>
            | ResponseCustom \<Rightarrow>
                if SelectedOption r \<noteq> 0 \<or> \<not> ask_validRequiredText (CustomAnswer r) (MaxCustomAnswerBytes limits)
                then Inl OperationError
                else Inr \<lparr>ask_status = StatusCustom, ask_answer = CustomAnswer r, ask_selected = 0\<rparr>
            | ResponseDismissed \<Rightarrow>
                if SelectedOption r \<noteq> 0 \<or> CustomAnswer r \<noteq> [] then Inl OperationError
                else Inr \<lparr>ask_status = StatusDismissed, ask_answer = [], ask_selected = 0\<rparr>
            | ask_ResponseUnavailable \<Rightarrow>
                if SelectedOption r \<noteq> 0 \<or> CustomAnswer r \<noteq> [] then Inl OperationError
                else Inr \<lparr>ask_status = ask_StatusUnavailable, ask_answer = [], ask_selected = 0\<rparr>
            | ask_OtherKind _ \<Rightarrow> Inl OperationError))"

datatype ask_responder_result = ResponderReturned ask_Response bool | ResponderPanicked

definition ask_runResponder ::
  "64 word \<Rightarrow> ask_responder_result \<Rightarrow> int \<Rightarrow> 'c ask_coordinator \<Rightarrow> (ask_envelope \<times> int) \<times> 'c ask_coordinator" where
  "ask_runResponder i res now c =
     (let envelope = (case res of
            ResponderReturned r e \<Rightarrow> \<lparr>ask_response = r, ask_err = e\<rparr>
          | ResponderPanicked \<Rightarrow>
              \<lparr>ask_response = \<lparr>Kind = ask_OtherKind [], SelectedOption = 0, CustomAnswer = []\<rparr>, ask_err = True\<rparr>)
      in ((envelope, now), ask_release i c))"

definition ask_timed_out :: "call_error + ask_Result" where
  "ask_timed_out = Inr \<lparr>ask_status = ask_StatusTimedOut, ask_answer = [], ask_selected = 0\<rparr>"

fun ask_wait :: "ask_toolInput \<Rightarrow> ask_Limits \<Rightarrow> int \<Rightarrow> ask_envelope wake list \<Rightarrow> ask_Result outcome" where
  "ask_wait input limits deadline [] = Waiting"
| "ask_wait input limits deadline (w # ws) =
     (if wake_ctx_done w then Returned (Inl ContextError)
      else if wake_ctx_err w then Returned (Inl ContextError)
      else (case wake_snapshot w of
              Some (envelope, completedAt) \<Rightarrow>
                if completedAt < deadline then Returned (ask_mapResponse input limits envelope)
                else Returned ask_timed_out
            | None \<Rightarrow>
                if deadline \<le> wake_now w then Returned ask_timed_out else ask_wait input limits deadline ws))"

definition CustomOptionLabel :: string where
  "CustomOptionLabel = ''Other (write your own answer)''"

record ask_Request =
  ask_ident :: ident
  ask_Question :: string
  ask_Options_offered :: "ask_toolOption list"
  AllowCustom :: bool
  CustomLabel :: string

definition ask_begin ::
  "bool \<times> bool \<times> bool \<Rightarrow> ident \<Rightarrow> ask_toolInput \<Rightarrow> int \<Rightarrow> 'c \<Rightarrow> 'c ask_coordinator
   \<Rightarrow> ((call_error + ask_Result) + 64 word \<times> int \<times> ask_Request) \<times> 'c ask_coordinator" where
  "ask_begin errs call input now cancel c =
     (case errs of (err0, err1, err2) \<Rightarrow>
      if err0 then (Inl (Inl ContextError), c)
      else if SessionID call = [] \<or> RunID call = [] \<or> CallID call = []
      then (Inl (Inl (CodeError ''call-identity'')), c)
      else let deadline = now + ask_MaxWait (ask_coord_limits c) in
        (case ask_acquire cancel c of
           (None, c1) \<Rightarrow>
             if err1 then (Inl (Inl ContextError), c1)
             else (Inl (Inr \<lparr>ask_status = ask_StatusUnavailable, ask_answer = [], ask_selected = 0\<rparr>), c1)
         | (Some i, c1) \<Rightarrow>
             if err2 then (Inl (Inl ContextError), ask_release i c1)
             else (Inr (i, deadline,
                    \<lparr>ask_ident = call, ask_Question = Question input,
                     ask_Options_offered = map (\<lambda>o'. \<lparr>Label = Label o', Description = Description o'\<rparr>) (Options input),
                     AllowCustom = True, CustomLabel = CustomOptionLabel\<rparr>), c1)))"

definition ask ::
  "bool \<times> bool \<times> bool \<Rightarrow> ident \<Rightarrow> ask_toolInput \<Rightarrow> int \<Rightarrow> 'c \<Rightarrow> ask_envelope wake list
   \<Rightarrow> 'c ask_coordinator \<Rightarrow> ask_Result outcome \<times> 'c ask_coordinator" where
  "ask errs call input now cancel ws c =
     (case ask_begin errs call input now cancel c of
        (Inl r, c1) \<Rightarrow> (Returned r, c1)
      | (Inr (i, deadline, _), c1) \<Rightarrow> (ask_wait input (ask_coord_limits c) deadline ws, c1))"

fun ask_status_name :: "ask_Status \<Rightarrow> string" where
  "ask_status_name StatusSelected = ''selected''"
| "ask_status_name StatusCustom = ''custom''"
| "ask_status_name StatusDismissed = ''dismissed''"
| "ask_status_name ask_StatusUnavailable = ''unavailable''"
| "ask_status_name ask_StatusTimedOut = ''timed_out''"

definition ask_marshal_result :: "ask_Result \<Rightarrow> bytes" where
  "ask_marshal_result r = enc (JObj
     ((''status'', JStr (ask_status_name (ask_status r))) #
      (if ask_answer r = [] then [] else [(''answer'', JStr (ask_answer r))]) @
      (if ask_selected r = 0 then [] else [(''selected_option'', JNum (int_lit (ask_selected r)))])))"

definition ask_Execute ::
  "bool \<times> bool \<times> bool \<Rightarrow> ident \<Rightarrow> bytes \<Rightarrow> int \<Rightarrow> 'c \<Rightarrow> ask_envelope wake list
   \<Rightarrow> 'c ask_coordinator \<Rightarrow> bytes outcome \<times> 'c ask_coordinator" where
  "ask_Execute errs call raw now cancel ws c =
     (case ask_decode_canonical raw of
        Inl e \<Rightarrow> (Returned (Inl e), c)
      | Inr input \<Rightarrow>
          (case ask errs call input now cancel ws c of
             (Waiting, c1) \<Rightarrow> (Waiting, c1)
           | (Returned r, c1) \<Rightarrow> (Returned (map_sum id ask_marshal_result r), c1)))"

definition ask_core :: "'c ask_coordinator \<Rightarrow> 'c coordinator" where
  "ask_core = coordinator.truncate"

definition ask_cap :: "'c ask_coordinator \<Rightarrow> int" where
  "ask_cap c = ask_MaxInFlight (ask_coord_limits c)"

interpretation ask_adm: admission ask_acquire ask_release ask_Close_state ask_core ask_cap
proof unfold_locales
qed (auto simp: ask_acquire_def ask_release_def ask_Close_state_def ask_Close_def ask_core_def ask_cap_def
    coordinator_core has_key_def Let_def delete_id split: if_splits)

interpretation ask_loop: deadline_loop "ask_wait input limits" "ask_mapResponse input limits" ask_timed_out
  for input limits
  by unfold_locales (auto simp: wake_canceled_def)

subsection \<open>Answers\<close>

lemma ask_begin_refused:
  "ask_begin errs call input now k c = (Inl (Inr r), c1) \<Longrightarrow>
     r = \<lparr>ask_status = ask_StatusUnavailable, ask_answer = [], ask_selected = 0\<rparr> \<and> c1 = c
     \<and> (closing c \<or> closed c \<or> ask_MaxInFlight (ask_coord_limits c) \<le> live c)"
  by (auto simp: ask_begin_def ask_acquire_def Let_def split: prod.splits if_splits option.splits)

lemma ask_begin_deadline:
  "ask_begin errs call input now k c = (Inr (i, deadline, req), c1) \<Longrightarrow>
     deadline = now + ask_MaxWait (ask_coord_limits c)"
  by (auto simp: ask_begin_def Let_def split: prod.splits if_splits option.splits)

text \<open>What an accepted answer is, by status.\<close>

definition ask_answer_ok :: "ask_toolInput \<Rightarrow> ask_Limits \<Rightarrow> ask_Result \<Rightarrow> bool" where
  "ask_answer_ok input limits r =
     (case ask_status r of
        StatusSelected \<Rightarrow> 1 \<le> ask_selected r \<and> ask_selected r \<le> len (Options input)
          \<and> ask_answer r = Label (Options input ! nat (ask_selected r - 1))
      | StatusCustom \<Rightarrow> ask_selected r = 0 \<and> ask_validRequiredText (ask_answer r) (MaxCustomAnswerBytes limits)
      | _ \<Rightarrow> ask_selected r = 0 \<and> ask_answer r = [])"

lemma ask_mapResponse_ok: "ask_mapResponse input limits e = Inr r \<Longrightarrow>
    ask_answer_ok input limits r \<and> ask_status r \<noteq> ask_StatusTimedOut"
  by (auto simp: ask_mapResponse_def ask_answer_ok_def Let_def split: if_splits ask_ResponseKind.splits)

lemma ask_cases:
  assumes "ask errs call input now k ws c = (Returned (Inr r), c')"
  obtains (refused) "r = \<lparr>ask_status = ask_StatusUnavailable, ask_answer = [], ask_selected = 0\<rparr>"
    | (answered) w e t where "w \<in> set ws" "wake_snapshot w = Some (e, t)"
        "t < now + ask_MaxWait (ask_coord_limits c)" "ask_mapResponse input (ask_coord_limits c) e = Inr r"
    | (expired) w where "w \<in> set ws" "\<not> wake_canceled w"
        "r = \<lparr>ask_status = ask_StatusTimedOut, ask_answer = [], ask_selected = 0\<rparr>"
        "case wake_snapshot w of Some (e, t) \<Rightarrow> now + ask_MaxWait (ask_coord_limits c) \<le> t
         | None \<Rightarrow> now + ask_MaxWait (ask_coord_limits c) \<le> wake_now w"
proof (cases "ask_begin errs call input now k c")
  case (Pair b c1)
  show thesis
  proof (cases b)
    case (Inl r')
    with Pair assms ask_begin_refused [of errs call input now k c r c1] refused show thesis
      by (auto simp: ask_def)
  next
    case (Inr p)
    obtain i dl req where p: "p = (i, dl, req)" by (cases p)
    have dl: "dl = now + ask_MaxWait (ask_coord_limits c)"
      using ask_begin_deadline [of errs call input now k c i dl req c1] Pair Inr p by simp
    with Pair Inr p assms have "ask_wait input (ask_coord_limits c) dl ws = Returned (Inr r)"
      by (auto simp: ask_def)
    from ask_loop.wait_Inr [OF this] show thesis
      unfolding dl by (elim disjE conjE bexE exE) (auto simp: ask_timed_out_def intro: answered expired)
  qed
qed

text \<open>
  C27: an answer that ask_user reports is one the person could give. A selected answer is the
  label of the option at the reported one-based index among the options of the question; a
  custom answer is non-blank, valid text within its bound; the other statuses carry no answer.
  An answer other than a timeout or a refusal came from a response completed before the
  call's deadline, and a timeout is reported only by a wake-up that saw no such response.
\<close>

theorem ask_answers_sound:
  assumes "ask errs call input now k ws c = (Returned (Inr r), c')"
  shows "ask_answer_ok input (ask_coord_limits c) r
    \<and> (ask_status r \<in> {StatusSelected, StatusCustom, StatusDismissed} \<longrightarrow>
        (\<exists>w \<in> set ws. \<exists>e t. wake_snapshot w = Some (e, t) \<and> t < now + ask_MaxWait (ask_coord_limits c)
           \<and> ask_mapResponse input (ask_coord_limits c) e = Inr r))
    \<and> (ask_status r = ask_StatusTimedOut \<longrightarrow>
        (\<exists>w \<in> set ws. \<not> wake_canceled w \<and>
           (case wake_snapshot w of Some (e, t) \<Rightarrow> now + ask_MaxWait (ask_coord_limits c) \<le> t
            | None \<Rightarrow> now + ask_MaxWait (ask_coord_limits c) \<le> wake_now w)))"
  using assms
proof (cases rule: ask_cases)
  case refused
  then show ?thesis by (simp add: ask_answer_ok_def)
next
  case (answered w e t)
  with ask_mapResponse_ok [OF answered(4)] show ?thesis by auto
next
  case (expired w)
  then show ?thesis by (auto simp: ask_answer_ok_def)
qed

definition ask_demo_limits :: ask_Limits where
  "ask_demo_limits = \<lparr>MaxQuestionBytes = 32, MaxOptionLabelBytes = 8, MaxOptionDescriptionBytes = 8,
     MaxCustomAnswerBytes = 8, ask_MaxInFlight = 1, ask_MaxWait = 10\<rparr>"

definition ask_demo_coordinator :: "nat ask_coordinator" where
  "ask_demo_coordinator = \<lparr>closing = False, closed = False, live = 0, nextID = 0, cancels = [],
     doneClosed = False, ask_coord_limits = ask_demo_limits\<rparr>"

definition ask_demo_input :: ask_toolInput where
  "ask_demo_input = \<lparr>Question = ''q'', Options = [\<lparr>Label = ''a'', Description = []\<rparr>, \<lparr>Label = ''b'', Description = ''d''\<rparr>]\<rparr>"

definition ask_demo_wakes :: "ask_envelope wake list" where
  "ask_demo_wakes =
     [\<lparr>wake_ctx_done = False, wake_ctx_err = False, wake_snapshot =
        Some (\<lparr>ask_response = \<lparr>Kind = ResponseSelected, SelectedOption = 2, CustomAnswer = []\<rparr>, ask_err = False\<rparr>, 9),
       wake_now = 12\<rparr>]"

lemmas ask_demo = ask_demo_limits_def ask_demo_coordinator_def ask_demo_input_def ask_demo_wakes_def

lemma ask_demo_run:
  "\<exists>c'. ask (False, False, False) \<lparr>SessionID = ''s'', RunID = ''r'', CallID = ''c''\<rparr> ask_demo_input 0 7 ask_demo_wakes
     ask_demo_coordinator = (Returned (Inr \<lparr>ask_status = StatusSelected, ask_answer = ''b'', ask_selected = 2\<rparr>), c')"
  by (simp add: ask_demo ask_def ask_begin_def ask_acquire_def Let_def ask_mapResponse_def len_def)

theorem ask_answers_sound_witness:
  "ask_answer_ok ask_demo_input ask_demo_limits \<lparr>ask_status = StatusSelected, ask_answer = ''b'', ask_selected = 2\<rparr>"
proof -
  obtain c' where "ask (False, False, False) \<lparr>SessionID = ''s'', RunID = ''r'', CallID = ''c''\<rparr> ask_demo_input 0 7
     ask_demo_wakes ask_demo_coordinator
     = (Returned (Inr \<lparr>ask_status = StatusSelected, ask_answer = ''b'', ask_selected = 2\<rparr>), c')"
    using ask_demo_run by blast
  from ask_answers_sound [OF this] show ?thesis by (simp add: ask_demo_coordinator_def)
qed

subsection \<open>Canonical input round trip\<close>

lemma ask_check_options_None:
  "ask_check_options l seen n items = None \<Longrightarrow>
     (\<forall>o' \<in> set items. ask_validRequiredText (Label o') (MaxOptionLabelBytes l)
        \<and> ask_validText (Description o') (MaxOptionDescriptionBytes l))
     \<and> distinct (map Label items) \<and> set (map Label items) \<inter> set seen = {}"
proof (induction items arbitrary: seen n)
  case (Cons item items)
  from Cons.prems have rec: "ask_check_options l (Label item # seen) (Suc n) items = None"
    and item: "ask_validRequiredText (Label item) (MaxOptionLabelBytes l)"
      "ask_validText (Description item) (MaxOptionDescriptionBytes l)" "Label item \<notin> set seen"
    by (auto split: if_splits)
  from Cons.IH [OF rec] item show ?case by auto
qed simp

lemma ask_fields:
  "field_of [''question'', ''options''] ''question'' = Some ''question''"
  "field_of [''question'', ''options''] ''options'' = Some ''options''"
  "field_of [''label'', ''description''] ''label'' = Some ''label''"
  "field_of [''label'', ''description''] ''description'' = Some ''description''"
  by (simp_all add: field_of_def)

lemma ask_into_option_json: "ask_into_option strict ask_zero_option (ask_json_option o') = Some o'"
  by (cases o') (simp add: ask_json_option_def ask_set_option_field_def ask_fields ask_zero_option_def)

lemma ask_into_elems_json: "ask_into_elems strict [] (map ask_json_option os) = Some os"
  by (induction os) (simp_all add: ask_into_option_json)

lemma ask_into_json: "ask_into strict (ask_json_input i) = Some i"
  by (cases i) (simp add: ask_json_input_def ask_set_field_def ask_fields ask_into_elems_json)

definition ask_input_ok :: "ask_Limits \<Rightarrow> ask_toolInput \<Rightarrow> bool" where
  "ask_input_ok l i \<longleftrightarrow>
     ask_validRequiredText (Question i) (MaxQuestionBytes l) \<and> 2 \<le> length (Options i) \<and> length (Options i) \<le> 5
     \<and> (\<forall>o' \<in> set (Options i). ask_validRequiredText (Label o') (MaxOptionLabelBytes l)
          \<and> ask_validText (Description o') (MaxOptionDescriptionBytes l))
     \<and> distinct (map Label (Options i))"

lemma ask_json_encodable:
  assumes "ask_input_ok l i"
  shows "encodable (ask_json_input i) \<and> depth (ask_json_input i) \<le> maxNestingDepth"
proof -
  have d: "depth (ask_json_option o') = 1" for o' by (simp add: ask_json_option_def)
  have "depth (JArr (map ask_json_option (Options i))) \<le> 2"
    by (auto simp: d)
  then have "depth (ask_json_input i) \<le> 3" by (auto simp: ask_json_input_def)
  with assms show ?thesis
    by (auto simp: ask_input_ok_def ask_json_input_def ask_json_option_def ask_validRequiredText_def
        ask_validText_def utf8_valid_all_ascii maxNestingDepth_def)
qed

lemma ask_normalize_Inr:
  assumes "ask_normalizeInput limits ctxErr raw = Inr out"
  obtains i where "out = ask_marshal_input i" "ask_input_ok limits i" "ask_decode_canonical out = Inr i"
    "uniqueJSONKeys raw" "validUnicodeEscapes raw" "utf8_valid raw"
proof -
  from assms obtain v i where v: "json_document raw = Some v" "ask_into True v = Some i"
    and ok: "ask_validRequiredText (Question i) (MaxQuestionBytes limits)" "2 \<le> length (Options i)"
      "length (Options i) \<le> 5" "ask_check_options limits [] 0 (Options i) = None" "out = ask_marshal_input i"
      "uniqueJSONKeys raw" "validUnicodeEscapes raw" "utf8_valid raw"
    by (auto simp: ask_normalizeInput_def not_less split: if_splits option.splits)
  have iok: "ask_input_ok limits i"
    using ok ask_check_options_None [OF ok(4)] by (simp add: ask_input_ok_def)
  have "json_document out = Some (ask_json_input i)"
    using json_document_enc ask_json_encodable [OF iok] ok(5) by (simp add: ask_marshal_input_def)
  then have "ask_decode_canonical out = Inr i" by (simp add: ask_decode_canonical_def ask_into_json)
  with iok ok that show thesis by blast
qed

text \<open>
  what the normalizer of ask_user accepts it rewrites to a canonical encoding, and that
  encoding decodes to exactly the input that passed the checks: a non-blank question, two to
  five options with pairwise distinct non-blank labels, every text valid UTF-8 without NUL and
  within its bound. The raw input had no repeated key and passed the surrogate check.
\<close>

theorem ask_normalize_roundtrip:
  assumes "ask_normalizeInput limits ctxErr raw = Inr out"
  shows "\<exists>i. ask_decode_canonical out = Inr i \<and> out = ask_marshal_input i \<and> ask_input_ok limits i
    \<and> uniqueJSONKeys raw \<and> validUnicodeEscapes raw"
  using assms by (rule ask_normalize_Inr) blast

subsection \<open>Retention\<close>

lemma ask_resultRetention_covers:
  assumes "ask_resultRetention l = Inr m" and "0 < MaxOptionLabelBytes l"
    and "int n \<le> max (MaxOptionLabelBytes l) (MaxCustomAnswerBytes l)"
  shows "2 * (6 * int n + 128) \<le> m"
proof -
  define x where "x = max (MaxOptionLabelBytes l) (MaxCustomAnswerBytes l)"
  have m: "(if MaxCustomAnswerBytes l > MaxOptionLabelBytes l then MaxCustomAnswerBytes l
       else MaxOptionLabelBytes l) = x" by (auto simp: x_def)
  have x: "x \<le> (MaxInt64 - 128) div 6" "0 < x"
    using assms(1,2) by (auto simp: ask_resultRetention_def m Let_def split: if_splits) (simp add: x_def)
  then have "wrap64 (x * 6) = x * 6" "wrap64 (128 + x * 6) = 128 + x * 6"
    by (auto simp: MaxInt64_def int64_def intro!: wrap64_id)
  with assms(1) have "m = wrap64 ((128 + x * 6) * 2)" "128 + x * 6 \<le> MaxInt64 div 2"
    by (auto simp: ask_resultRetention_def m Let_def split: if_splits)
  moreover from this(2) x have "wrap64 ((128 + x * 6) * 2) = (128 + x * 6) * 2"
    by (intro wrap64_id) (auto simp: MaxInt64_def int64_def)
  ultimately show ?thesis using assms(3) by (simp add: x_def)
qed

lemma ask_key_lengths:
  "length (marshal_string ''status'') = 8" "length (marshal_string ''answer'') = 8"
  "length (marshal_string ''selected_option'') = 17"
  "length (marshal_string (ask_status_name st)) \<le> 13"
  by (cases st; simp add: marshal_string_def escape_body.simps escape_step_def escape_ascii_def html_safe_def)+

lemma int_lit_small: "0 \<le> n \<Longrightarrow> n < 10 \<Longrightarrow> length (int_lit n) = 1"
  by (simp add: int_lit_def nat_digits.simps)

lemma length_ask_marshal_result:
  assumes "0 \<le> ask_selected r" and "ask_selected r < 10"
  shows "length (ask_marshal_result r) \<le> 6 * length (ask_answer r) + 128"
  using ask_key_lengths(4) [of "ask_status r"] length_marshal_string [of "ask_answer r"] int_lit_small [OF assms]
  by (simp add: ask_marshal_result_def ask_key_lengths(1-3))

lemma ask_answer_len:
  assumes "ask_answer_ok i l r" and "ask_input_ok l i" and "ask_validateLimits l = None"
  shows "len (ask_answer r) \<le> max (MaxOptionLabelBytes l) (MaxCustomAnswerBytes l)
    \<and> 0 \<le> ask_selected r \<and> ask_selected r < 10"
proof (cases "ask_status r")
  case StatusSelected
  then have s: "1 \<le> ask_selected r" "ask_selected r \<le> len (Options i)"
    "ask_answer r = Label (Options i ! nat (ask_selected r - 1))" using assms(1) by (simp_all add: ask_answer_ok_def)
  then have "Options i ! nat (ask_selected r - 1) \<in> set (Options i)" by (intro nth_mem) (simp add: len_def)
  with assms(2) have "len (Label (Options i ! nat (ask_selected r - 1))) \<le> MaxOptionLabelBytes l"
    by (auto simp: ask_input_ok_def ask_validRequiredText_def ask_validText_def)
  moreover have "len (Options i) \<le> 5" using assms(2) by (simp add: ask_input_ok_def len_def)
  ultimately show ?thesis using s by simp
qed (use assms in \<open>auto simp: ask_answer_ok_def ask_validRequiredText_def ask_validText_def ask_validateLimits_def
       len_def split: if_splits\<close>)

text \<open>
  For an input that came through the normalizer, whatever ask_user encodes as its result
  fits twice into the retention bound computed from the options.
\<close>

theorem ask_result_fits_retention:
  assumes can: "ask_canonicalize g v o' = Inr opts" and lim: "ask_coord_limits c = ask_limits opts"
    and norm: "ask_normalizeInput (ask_limits opts) ctxErr raw0 = Inr raw"
    and ex: "ask_Execute errs call raw now k ws c = (Returned (Inr out), c')"
  shows "2 * len out \<le> ask_retention opts"
proof -
  from can have c: "ask_validateLimits (ask_limits opts) = None"
    "ask_resultRetention (ask_limits opts) = Inr (ask_retention opts)"
    by (auto simp: ask_canonicalize_def Let_def split: if_splits option.splits sum.splits)
  obtain i where i: "ask_input_ok (ask_limits opts) i" "ask_decode_canonical raw = Inr i"
    using norm by (rule ask_normalize_Inr) blast
  from ex i obtain r where run: "ask errs call i now k ws c = (Returned (Inr r), c')"
    and out: "out = ask_marshal_result r"
    by (auto simp: ask_Execute_def split: prod.splits outcome.splits)
  have "ask_answer_ok i (ask_limits opts) r"
    using run by (cases rule: ask_cases) (auto simp: ask_answer_ok_def lim dest: ask_mapResponse_ok)
  note len = ask_answer_len [OF this i(1) c(1)]
  have "0 < MaxOptionLabelBytes (ask_limits opts)" using c(1) by (auto simp: ask_validateLimits_def split: if_splits)
  from ask_resultRetention_covers [OF c(2) this, of "length (ask_answer r)"] len
    length_ask_marshal_result [of r] out
  show ?thesis by (simp add: len_def)
qed

definition ask_demo_options :: "nat ask_Options" where
  "ask_demo_options = \<lparr>ask_Scope = None, ask_Order = 0, ask_responder_nil = False, ResponderIdentity = ''v1'',
     ask_Limits = ask_demo_limits\<rparr>"

definition ask_demo_raw :: bytes where
  "ask_demo_raw = ask_marshal_input ask_demo_input"

lemmas ask_encode = ask_marshal_input_def ask_json_input_def ask_json_option_def marshal_string_def
  escape_body.simps escape_step_def escape_ascii_def html_safe_def

lemma ask_demo_raw_eq: "ask_demo_raw =
   ''{'' @ [CHR 0x22] @ ''question'' @ [CHR 0x22] @ '':'' @ [CHR 0x22] @ ''q'' @ [CHR 0x22] @ '','' @ [CHR 0x22] @ ''options'' @ [CHR 0x22] @
   '':[{'' @ [CHR 0x22] @ ''label'' @ [CHR 0x22] @ '':'' @ [CHR 0x22] @ ''a'' @ [CHR 0x22] @ ''},{'' @ [CHR 0x22] @ ''label'' @ [CHR 0x22] @ '':'' @ [CHR 0x22] @
   ''b'' @ [CHR 0x22] @ '','' @ [CHR 0x22] @ ''description'' @ [CHR 0x22] @ '':'' @ [CHR 0x22] @ ''d'' @ [CHR 0x22] @ ''}]}''"
  by (simp add: ask_demo_raw_def ask_demo_input_def ask_encode)

lemma ask_demo_escapes: "validUnicodeEscapes ask_demo_raw"
  by (simp add: ask_demo_raw_eq validUnicodeEscapes_def validUnicodeEscapes_from.simps)

lemma ask_demo_utf8: "utf8_valid ask_demo_raw"
  by (rule utf8_valid_all_ascii) (simp add: ask_demo_raw_eq)

lemma ask_demo_text:
  "utf8_valid ''q''" "utf8_valid ''a''" "utf8_valid ''b''" "utf8_valid ''d''" "TrimSpace ''q'' = ''q''"
  "TrimSpace ''a'' = ''a''" "TrimSpace ''b'' = ''b''"
  by (simp_all add: utf8_eval)

lemma ask_demo_normalize: "ask_normalizeInput ask_demo_limits False ask_demo_raw = Inr ask_demo_raw"
proof -
  have ok: "ask_input_ok ask_demo_limits ask_demo_input"
    by (simp add: ask_input_ok_def ask_demo ask_validRequiredText_def ask_validText_def ask_demo_text ContainsByte_def
        len_def)
  have doc: "json_document ask_demo_raw = Some (ask_json_input ask_demo_input)"
    using json_document_enc ask_json_encodable [OF ok] by (simp add: ask_demo_raw_def ask_marshal_input_def)
  have "uniqueJSONKeys ask_demo_raw"
    using uniqueJSONKeys_document [OF doc] by (simp add: ask_json_input_def ask_json_option_def)
  with doc ok ask_demo_escapes ask_demo_utf8 show ?thesis
    by (simp add: ask_normalizeInput_def ask_into_json ask_input_ok_def ask_demo_raw_def [symmetric])
       (simp add: ask_demo_input_def ask_demo_raw_def)
qed

theorem ask_normalize_roundtrip_witness:
  "\<exists>i. ask_decode_canonical ask_demo_raw = Inr i \<and> ask_input_ok ask_demo_limits i"
  using ask_normalize_roundtrip [OF ask_demo_normalize] by blast

theorem ask_result_fits_retention_witness:
  "\<exists>opts out c'. ask_canonicalize 0 (\<lambda>s. True) ask_demo_options = Inr opts
     \<and> ask_Execute (False, False, False) \<lparr>SessionID = ''s'', RunID = ''r'', CallID = ''c''\<rparr> ask_demo_raw 0 7
         ask_demo_wakes ask_demo_coordinator = (Returned (Inr out), c')
     \<and> 2 * len out \<le> ask_retention opts"
proof -
  let ?opts = "\<lparr>ask_scope = 0::nat, ask_order = 100, ask_responderIdentity = ''v1'', ask_limits = ask_demo_limits,
      ask_retention = 352\<rparr>"
  have opts: "ask_canonicalize 0 (\<lambda>s. True) ask_demo_options = Inr ?opts"
    by (simp add: ask_canonicalize_def ask_demo_options_def ask_demo_limits_def ask_validIdentity_def len_def
        maxResponderIdentityBytes_def utf8_eval ContainsByte_def ask_DefaultOrder_def
        ask_validateLimits_def ask_resultRetention_def MaxInt64_def wrap64_def)
  have "ask_decode_canonical ask_demo_raw = Inr ask_demo_input"
  proof -
    have ok: "ask_input_ok ask_demo_limits ask_demo_input"
      by (simp add: ask_input_ok_def ask_demo ask_validRequiredText_def ask_validText_def ask_demo_text
          ContainsByte_def len_def)
    from json_document_enc ask_json_encodable [OF ok] show ?thesis
      by (simp add: ask_decode_canonical_def ask_demo_raw_def ask_marshal_input_def ask_into_json)
  qed
  with ask_demo_run obtain out c' where run: "ask_Execute (False, False, False)
      \<lparr>SessionID = ''s'', RunID = ''r'', CallID = ''c''\<rparr> ask_demo_raw 0 7 ask_demo_wakes ask_demo_coordinator
      = (Returned (Inr out), c')"
    by (auto simp: ask_Execute_def)
  have lim: "ask_coord_limits ask_demo_coordinator = ask_limits ?opts" by (simp add: ask_demo_coordinator_def)
  have norm: "ask_normalizeInput (ask_limits ?opts) False ask_demo_raw = Inr ask_demo_raw"
    by (simp add: ask_demo_normalize)
  from ask_result_fits_retention [OF opts lim norm run] opts run show ?thesis by blast
qed

subsection \<open>The surrogate check agrees with the decoder\<close>

text \<open>
  \<open>lossless_step\<close>: the next step of the decoder on a literal body does not fall back to
  U+FFFD because of a surrogate escape; \<open>lossless\<close>: no step does.
\<close>

definition lossless_step :: "bytes \<Rightarrow> bool" where
  "lossless_step s \<longleftrightarrow>
     (case s of
        a # b # t \<Rightarrow>
          a = CHR 0x5C \<and> b = CHR ''u'' \<longrightarrow>
            (case hex4 (t ! 0) (t ! 1) (t ! 2) (t ! 3) of
               None \<Rightarrow> True
             | Some v \<Rightarrow> is_surrogate v \<longrightarrow>
                 (case low_half (drop 4 t) of
                    None \<Rightarrow> False
                  | Some (v2, r) \<Rightarrow> decode_surrogates v v2 \<noteq> None))
      | _ \<Rightarrow> True)"

function lossless :: "bytes \<Rightarrow> bool" where
  "lossless s =
     (if s = [] then True else if lossless_step s then lossless (drop (snd (unquote_step s)) s) else False)"
  by pat_completeness auto
termination
proof (relation "measure length")
  fix s :: bytes
  assume "s \<noteq> []"
  then show "(drop (snd (unquote_step s)) s, s) \<in> measure length"
    using unquote_step_pos [of s] by auto
qed simp

declare lossless.simps [simp del]

definition hex_accumulate :: "nat option \<Rightarrow> char \<Rightarrow> nat option" where
  "hex_accumulate acc c =
     (case acc of None \<Rightarrow> None | Some v \<Rightarrow> map_option (\<lambda>h. (v * 16 + h) mod 65536) (hex_digit c))"

lemma parseHex4_accumulate:
  "parseHex4 raw = (if length raw \<noteq> 4 then None else foldl hex_accumulate (Some 0) raw)"
proof -
  have "(\<lambda>acc c. case acc of None \<Rightarrow> None
             | Some value \<Rightarrow>
                 let value = (value * 16) mod 65536; b = byte c in
                 if 0x30 \<le> b \<and> b \<le> 0x39 then Some ((value + (b - 0x30)) mod 65536)
                 else if 0x61 \<le> b \<and> b \<le> 0x66 then Some ((value + (b - 0x61) + 10) mod 65536)
                 else if 0x41 \<le> b \<and> b \<le> 0x46 then Some ((value + (b - 0x41) + 10) mod 65536)
                 else None) = hex_accumulate"
  proof (intro ext, goal_cases)
    case (1 acc c)
    have a: "(x mod 65536 + h) mod 65536 = (x + h) mod 65536" for x h :: nat
      by (rule mod_add_left_eq)
    show ?case
    proof (cases acc)
      case (Some v)
      show ?thesis
        unfolding hex_accumulate_def hex_digit_def Let_def Some option.case add.assoc a
        by (rule if_distrib [where f = "map_option (\<lambda>h. (v * 16 + h) mod 65536)", THEN trans, symmetric])
           (simp only: if_distrib [where f = "map_option (\<lambda>h. (v * 16 + h) mod 65536)"] option.map)
    qed (simp add: hex_accumulate_def)
  qed
  then show ?thesis by (simp only: parseHex4_def)
qed

lemma parseHex4_hex4: "4 \<le> length t \<Longrightarrow> parseHex4 (take 4 t) = hex4 (t ! 0) (t ! 1) (t ! 2) (t ! 3)"
proof -
  assume "4 \<le> length t"
  then have "take 4 t = [t ! 0, t ! 1, t ! 2, t ! 3]"
    by (cases t; cases "tl t"; cases "tl (tl t)"; cases "tl (tl (tl t))") auto
  moreover have "foldl hex_accumulate (Some 0) [a, b, c, d] = hex4 a b c d" for a b c d
    by (cases "hex_digit a"; cases "hex_digit b"; cases "hex_digit c"; cases "hex_digit d")
       (auto simp: hex_accumulate_def hex4_def dest!: hex_digit_less)
  ultimately show ?thesis by (simp add: parseHex4_accumulate)
qed

lemma vue_plain:
  "c \<noteq> CHR 0x22 \<Longrightarrow> c \<noteq> CHR 0x5C \<Longrightarrow> validUnicodeEscapes_from b (c # t) = validUnicodeEscapes_from b t"
  by (subst validUnicodeEscapes_from.simps) simp

lemma vue_high: "list_all (\<lambda>c. 0x80 \<le> byte c) p \<Longrightarrow> validUnicodeEscapes_from b (p @ t) = validUnicodeEscapes_from b t"
proof (induction p)
  case (Cons c p)
  then show ?case using byte_high [of c] by (simp add: vue_plain)
qed simp

lemma scanned_pair:
  assumes "scanned r"
  shows "(6 \<le> length (r @ CHR 0x22 # q) \<and> (r @ CHR 0x22 # q) ! 0 = CHR 0x5C \<and> (r @ CHR 0x22 # q) ! 1 = CHR ''u'')
    \<longleftrightarrow> (6 \<le> length r \<and> r ! 0 = CHR 0x5C \<and> r ! 1 = CHR ''u'')"
proof (cases "r \<noteq> [] \<and> r ! 0 = CHR 0x5C")
  case True
  then obtain w where w: "r = CHR 0x5C # w" by (cases r) auto
  from assms [unfolded w] obtain k where k: "escape_len (w @ [CHR 0x22]) = Some k" "k \<le> length w"
    by (rule scanned_escape)
  then obtain e u where e: "w = e # u" using escape_len_le [OF k(1)] by (cases w) auto
  have "5 \<le> length w" if "e = CHR ''u''" using k e that by (auto simp: escape_len_def split: if_splits)
  with w e show ?thesis by (cases "e = CHR ''u''") auto
qed (cases r; auto)

lemma vue_u_escape:
  assumes sc: "scanned (CHR 0x5C # CHR ''u'' # t)" and l4: "4 \<le> length t"
    and v: "hex4 (t ! 0) (t ! 1) (t ! 2) (t ! 3) = Some v"
  defines "s \<equiv> CHR 0x5C # CHR ''u'' # t"
  shows "validUnicodeEscapes_from True (s @ CHR 0x22 # q) \<longleftrightarrow>
    lossless_step s \<and> validUnicodeEscapes_from True (drop (snd (unquote_step s)) s @ CHR 0x22 # q)"
proof -
  define r where "r = drop 4 t"
  have r: "scanned r"
    using sc unfolding r_def by (rule scanned_escape) (auto simp: escape_len_def split: if_splits)
  have t4: "drop 4 (t @ CHR 0x22 # q) = r @ CHR 0x22 # q" using l4 by (simp add: r_def)
  have p: "parseHex4 (take 4 (t @ CHR 0x22 # q)) = Some v"
    using parseHex4_hex4 [of t] l4 v by simp
  let ?u = "r @ CHR 0x22 # q"
  have unf: "validUnicodeEscapes_from True (s @ CHR 0x22 # q) =
    (if 0xDC00 \<le> v \<and> v \<le> 0xDFFF then False
     else if 0xD800 \<le> v \<and> v \<le> 0xDBFF then
       (if length ?u < 6 \<or> ?u ! 0 \<noteq> CHR 0x5C \<or> ?u ! 1 \<noteq> CHR ''u'' then False
        else (case parseHex4 (take 4 (drop 2 ?u)) of
                None \<Rightarrow> False
              | Some second \<Rightarrow>
                  if second < 0xDC00 \<or> second > 0xDFFF then False
                  else validUnicodeEscapes_from True (drop 6 ?u)))
     else validUnicodeEscapes_from True ?u)"
    using l4 p t4 unfolding s_def by (subst validUnicodeEscapes_from.simps) (simp add: Let_def)
  have st: "unquote_step s = (case low_half r of
      None \<Rightarrow> (if is_surrogate v then encode_rune RuneError else encode_rune v, 6)
    | Some (v2, r2) \<Rightarrow> if \<not> is_surrogate v then (encode_rune v, 6)
        else (case decode_surrogates v v2 of Some w \<Rightarrow> (encode_rune w, 12) | None \<Rightarrow> (encode_rune RuneError, 6)))"
    using l4 v by (auto simp: s_def unquote_step_def unquote_escape_def r_def split: option.split)
  have ls: "lossless_step s \<longleftrightarrow> (is_surrogate v \<longrightarrow>
      (case low_half r of None \<Rightarrow> False | Some (v2, r2) \<Rightarrow> decode_surrogates v v2 \<noteq> None))"
    using v by (simp add: lossless_step_def s_def r_def)
  have d6: "drop 6 s = r" by (simp add: s_def r_def)
  have d12: "drop 12 s = drop 6 r" by (simp add: s_def r_def)
  show ?thesis
  proof (cases "6 \<le> length r \<and> r ! 0 = CHR 0x5C \<and> r ! 1 = CHR ''u''")
    case True
    then have "4 \<le> length (drop 2 r)" by auto
    with True have h: "parseHex4 (take 4 (drop 2 ?u)) = hex4 (r ! 2) (r ! 3) (r ! 4) (r ! 5)"
      using parseHex4_hex4 [of "drop 2 r"] by simp
    with True scanned_pair [OF r, of q] show ?thesis
      unfolding unf st ls d6 d12
      by (cases "hex4 (r ! 2) (r ! 3) (r ! 4) (r ! 5)")
         (auto simp: low_half_def is_surrogate_def decode_surrogates_def d6 d12)
  next
    case False
    then have lh: "low_half r = None" by (auto simp: low_half_def)
    have nu: "length ?u < 6 \<or> ?u ! 0 \<noteq> CHR 0x5C \<or> ?u ! 1 \<noteq> CHR ''u''"
      using False scanned_pair [OF r, of q] by linarith
    show ?thesis
      unfolding unf st ls lh if_P [OF nu] by (auto simp: is_surrogate_def d6)
  qed
qed

lemma vue_step:
  assumes ne: "s \<noteq> []" and sc: "scanned s"
  shows "validUnicodeEscapes_from True (s @ CHR 0x22 # q) \<longleftrightarrow>
    lossless_step s \<and> validUnicodeEscapes_from True (drop (snd (unquote_step s)) s @ CHR 0x22 # q)"
proof -
  obtain c t where s: "s = c # t" using ne by (cases s) auto
  have q: "c \<noteq> CHR 0x22" using sc s by (auto simp: scanned_def scan_string.simps)
  show ?thesis
  proof (cases "c = CHR 0x5C")
    case True
    from sc [unfolded s True] obtain k where k: "escape_len (t @ [CHR 0x22]) = Some k" "k \<le> length t"
      by (rule scanned_escape)
    then obtain e u where t: "t = e # u" using escape_len_le [OF k(1)] by (cases t) auto
    show ?thesis
    proof (cases "e = CHR ''u''")
      case u: True
      with k t have "4 \<le> length u" and "\<exists>v. hex4 (u ! 0) (u ! 1) (u ! 2) (u ! 3) = Some v"
        by (auto simp: escape_len_def nth_append split: if_splits)
      with vue_u_escape [of u _ q] sc s True t u show ?thesis by auto
    next
      case False
      have "validUnicodeEscapes_from True (s @ CHR 0x22 # q) = validUnicodeEscapes_from True (u @ CHR 0x22 # q)"
        using False unfolding s True t by (subst validUnicodeEscapes_from.simps) simp
      with False show ?thesis by (simp add: s True t lossless_step_def unquote_step_def unquote_escape_def)
    qed
  next
    case False
    then have ls: "lossless_step s" using s by (cases t) (simp_all add: lossless_step_def)
    show ?thesis
    proof (cases "byte c < 0x80")
      case True
      with ls q False s show ?thesis by (simp add: vue_plain unquote_step_def)
    next
      case hi: False
      let ?n = "snd (decode_rune s)"
      have st: "snd (unquote_step s) = ?n" using hi False s by (simp add: unquote_step_def)
      show ?thesis
      proof (cases "rune_ok (decode_rune s)")
        case True
        from vue_high [OF decode_rune_high_bytes [OF ne True], of True "drop ?n s @ CHR 0x22 # q"] hi s ls st
        show ?thesis by (simp del: append_assoc add: append_assoc [symmetric])
      next
        case bad: False
        with ls q False s st show ?thesis by (simp add: vue_plain rune_ok_def)
      qed
    qed
  qed
qed

lemma vue_literal:
  "scanned l \<Longrightarrow> validUnicodeEscapes_from True (l @ CHR 0x22 # t) \<longleftrightarrow> lossless l \<and> validUnicodeEscapes_from False t"
proof (induction l rule: lossless.induct)
  case (1 l)
  show ?case
  proof (cases "l = []")
    case True
    then show ?thesis by (subst validUnicodeEscapes_from.simps) (simp add: lossless.simps)
  next
    case False
    obtain out n where st: "unquote_step l = (out, n)" by fastforce
    from unquote_step_scanned [OF False "1.prems" st] "1.IH" [OF False] vue_step [OF False "1.prems", of t] st
    show ?thesis by (subst lossless.simps) (auto simp: False)
  qed
qed

text \<open>
  on a string literal of the input the preflight \<open>validUnicodeEscapes\<close> is exact: it goes on
  to the rest of the input if and only if decoding the literal never replaces a surrogate
  escape by U+FFFD, so that acceptance means that encoding/json decodes the text without loss.
\<close>

theorem validUnicodeEscapes_literal:
  assumes "scan_string s = Some (l, r)"
  shows "validUnicodeEscapes (CHR 0x22 # s) \<longleftrightarrow> lossless l \<and> validUnicodeEscapes r"
proof -
  have "validUnicodeEscapes (CHR 0x22 # s) = validUnicodeEscapes_from True s"
    unfolding validUnicodeEscapes_def by (subst validUnicodeEscapes_from.simps) simp
  with vue_literal [OF scan_string_scanned [OF assms], of r] scan_string_append [OF assms] show ?thesis
    by (simp add: validUnicodeEscapes_def)
qed

lemma ask_demo_surrogate:
  "scan_string ([CHR 0x5C] @ ''ud83d'' @ [CHR 0x22]) = Some ([CHR 0x5C] @ ''ud83d'', [])"
  by (simp add: scan_string.simps escape_len_def hex4_def hex_digit_def)

theorem validUnicodeEscapes_literal_witness:
  "\<not> validUnicodeEscapes ([CHR 0x22, CHR 0x5C] @ ''ud83d'' @ [CHR 0x22])"
  using validUnicodeEscapes_literal [OF ask_demo_surrogate]
  by (simp add: lossless.simps lossless_step_def hex4_def hex_digit_def is_surrogate_def low_half_def)

end
