(* ===== verification/Websearch.thy ===== *)
theory Websearch
  imports Json_Encode Coordinator
begin

section \<open>websearch: one bounded search through a host searcher\<close>

text \<open>
  The web_search tool: limits and retention with checked 64-bit arithmetic (config.go,
  bounds.go), the streaming input normalizer (input.go), the bounding of the host's records
  (bounds.go) and the coordinator (coordinator.go). \<open>url.Parse\<close> enters as the parameter
  \<open>url_Parse\<close>, which gives the scheme, the host name and whether user information is present;
  the searcher and the scope check are parameters as well.
\<close>

subsection \<open>Limits\<close>

record search_Limits =
  search_MaxRawInputBytes :: int
  MaxQueryBytes :: int
  MaxResults :: int
  MaxTitleBytes :: int
  MaxURLBytes :: int
  MaxSnippetBytes :: int
  search_MaxInFlight :: int
  search_MaxWait :: int

definition checkedAdd :: "int \<Rightarrow> int \<Rightarrow> int option" where
  "checkedAdd left right =
     (if left < 0 \<or> right < 0 \<or> left > MaxInt64 - right then None else Some (wrap64 (left + right)))"

definition checkedMul :: "int \<Rightarrow> int \<Rightarrow> int option" where
  "checkedMul left right =
     (if left < 0 \<or> right < 0 \<or> (left \<noteq> 0 \<and> right > MaxInt64 div left) then None
      else Some (wrap64 (left * right)))"

definition search_minute :: int where
  "search_minute = 60000000000"

definition search_validateLimits :: "search_Limits \<Rightarrow> string option" where
  "search_validateLimits l =
     (if MaxQueryBytes l \<le> 0 \<or> MaxQueryBytes l > 16 * 1024 then Some ''max-query''
      else case checkedMul (MaxQueryBytes l) 6 of
        None \<Rightarrow> Some ''max-raw-input''
      | Some m0 \<Rightarrow>
          (case checkedAdd m0 12 of
             None \<Rightarrow> Some ''max-raw-input''
           | Some minimumRaw \<Rightarrow>
               if search_MaxRawInputBytes l < minimumRaw \<or> search_MaxRawInputBytes l > 128 * 1024
               then Some ''max-raw-input''
               else if MaxResults l \<le> 0 \<or> MaxResults l > 100 then Some ''max-results''
               else if MaxTitleBytes l \<le> 0 \<or> MaxTitleBytes l > 1024 then Some ''max-title''
               else if MaxURLBytes l < 8 \<or> MaxURLBytes l > 8 * 1024 then Some ''max-url''
               else if MaxSnippetBytes l \<le> 0 \<or> MaxSnippetBytes l > 16 * 1024 then Some ''max-snippet''
               else if search_MaxInFlight l \<le> 0 \<or> search_MaxInFlight l > 256 then Some ''max-in-flight''
               else if search_MaxWait l \<le> 0 \<or> search_MaxWait l > 10 * search_minute then Some ''max-wait''
               else None))"

subsection \<open>Records\<close>

record Source =
  Title :: string
  URL :: string
  Snippet :: string

definition search_json_source :: "Source \<Rightarrow> json" where
  "search_json_source s = JObj [(''title'', JStr (Title s)), (''url'', JStr (URL s)), (''snippet'', JStr (Snippet s))]"

definition search_marshal :: "Source list \<Rightarrow> bytes" where
  "search_marshal rs = enc (JObj [(''results'', JArr (map search_json_source rs))])"

definition utf8Prefix :: "string \<Rightarrow> int \<Rightarrow> string" where
  "utf8Prefix value maximum =
     (let value = (if len value > maximum then take (nat maximum) value else value) in
      if utf8_valid value then value else ToValidUTF8 value [] False)"

type_synonym url_parser = "string \<Rightarrow> (string \<times> string \<times> bool) option"

definition validSourceURL :: "url_parser \<Rightarrow> string \<Rightarrow> int \<Rightarrow> bool" where
  "validSourceURL url_Parse value maximum =
     (if len value > maximum \<or> \<not> utf8_valid value then False
      else (case Cut value (CHR '':'') of
              None \<Rightarrow> False
            | Some (scheme, _) \<Rightarrow>
                if scheme \<noteq> ''http'' \<and> scheme \<noteq> ''https'' then False
                else (case url_Parse value of
                        None \<Rightarrow> False
                      | Some (parsedScheme, hostname, hasUser) \<Rightarrow>
                          if hostname = [] \<or> hasUser then False else parsedScheme = scheme)))"

fun bound_loop :: "url_parser \<Rightarrow> search_Limits \<Rightarrow> Source list \<Rightarrow> Source list" where
  "bound_loop url_Parse l [] = []"
| "bound_loop url_Parse l (record # records) =
     (if \<not> validSourceURL url_Parse (URL record) (MaxURLBytes l) then bound_loop url_Parse l records
      else \<lparr>Title = utf8Prefix (Title record) (MaxTitleBytes l), URL = URL record,
            Snippet = utf8Prefix (Snippet record) (MaxSnippetBytes l)\<rparr> # bound_loop url_Parse l records)"

definition boundSources :: "url_parser \<Rightarrow> Source list \<Rightarrow> search_Limits \<Rightarrow> Source list" where
  "boundSources url_Parse records l =
     (let count = (if len records > MaxResults l then MaxResults l else len records) in
      bound_loop url_Parse l (take (nat count) records))"

definition worstCaseResultBytes :: "search_Limits \<Rightarrow> string + int" where
  "worstCaseResultBytes l =
     (let err = Inl ''result-retention'';
          empty = search_marshal [];
          one = search_marshal [\<lparr>Title = [], URL = [], Snippet = []\<rparr>] in
      if length one < length empty then err
      else case checkedAdd (MaxTitleBytes l) (MaxURLBytes l) of None \<Rightarrow> err
      | Some f1 \<Rightarrow> (case checkedAdd f1 (MaxSnippetBytes l) of None \<Rightarrow> err
      | Some fieldBytes \<Rightarrow> (case checkedMul fieldBytes 6 of None \<Rightarrow> err
      | Some escapedBytes \<Rightarrow> (case checkedAdd (len one - len empty) escapedBytes of None \<Rightarrow> err
      | Some perRecord \<Rightarrow> (case checkedMul perRecord (MaxResults l) of None \<Rightarrow> err
      | Some recordsBytes \<Rightarrow>
          let commas = wrap64 (MaxResults l - 1) in
          (case checkedAdd (len empty) recordsBytes of None \<Rightarrow> err
      | Some t1 \<Rightarrow> (case checkedAdd t1 commas of None \<Rightarrow> err
      | Some t2 \<Rightarrow> if t2 \<le> 0 then err else Inr t2)))))))"

definition search_resultRetention :: "search_Limits \<Rightarrow> string + int" where
  "search_resultRetention l =
     (case worstCaseResultBytes l of
        Inl e \<Rightarrow> Inl e
      | Inr oneCopy \<Rightarrow> (case checkedMul oneCopy 2 of None \<Rightarrow> Inl ''result-retention'' | Some two \<Rightarrow> Inr two))"

subsection \<open>Options\<close>

record 'scope search_Options =
  search_Scope :: "'scope option"
  search_Order :: int
  searcher_nil :: bool
  SearcherIdentity :: string
  search_Limits :: search_Limits

record 'scope search_canonicalOptions =
  search_scope :: 'scope
  search_order :: int
  search_searcherIdentity :: string
  search_limits :: search_Limits
  search_retention :: int

definition search_validIdentity :: "string \<Rightarrow> bool" where
  "search_validIdentity value =
     (if TrimSpace value = [] \<or> len value > 256 \<or> \<not> utf8_valid value \<or> ContainsByte value (CHR 0x00)
      then False
      else \<not> list_ex (\<lambda>p. IsControl (fst p)) (runes value))"

definition search_canonicalize ::
  "'scope \<Rightarrow> ('scope \<Rightarrow> bool) \<Rightarrow> 'scope search_Options \<Rightarrow> string + 'scope search_canonicalOptions" where
  "search_canonicalize GlobalScope ValidateScope options =
     (let scope = (case search_Scope options of None \<Rightarrow> GlobalScope | Some s \<Rightarrow> s);
          order = (if search_Order options = 0 then 100 else search_Order options) in
      if \<not> ValidateScope scope then Inl ''scope''
      else if searcher_nil options then Inl ''searcher-required''
      else if \<not> search_validIdentity (SearcherIdentity options) then Inl ''searcher-identity''
      else (case search_validateLimits (search_Limits options) of
              Some code \<Rightarrow> Inl code
            | None \<Rightarrow>
                (case search_resultRetention (search_Limits options) of
                   Inl code \<Rightarrow> Inl code
                 | Inr retention \<Rightarrow>
                     Inr \<lparr>search_scope = scope, search_order = order,
                          search_searcherIdentity = SearcherIdentity options,
                          search_limits = search_Limits options, search_retention = retention\<rparr>)))"

subsection \<open>Input\<close>

lemma Decode_shrinks: "Decode d = Some (v, e) \<Longrightarrow> length (rest e) < length (rest d)"
proof -
  assume a: "Decode d = Some (v, e)"
  then obtain d1 r where d1: "tokenPrepareForDecode d = Some d1" "json_read (rest d1) = Some (v, r)" "rest e = r"
    by (auto simp: Decode_def split: option.splits if_splits)
  have "length (rest d1) \<le> length (rest d)"
    using d1(1) peek_tl [of d] by (auto simp: tokenPrepareForDecode_def starts_with_def split: if_splits)
  moreover have "length r < length (rest d1)"
    using d1(2) by (simp add: json_read_value_at value_at_shrinks)
  ultimately show ?thesis using d1(3) by simp
qed

text \<open>The loop over the members of the input object.\<close>

function search_members :: "bool \<Rightarrow> string \<Rightarrow> decoder \<Rightarrow> call_error + bool \<times> string \<times> decoder" where
  "search_members seenQuery query d =
     (if \<not> More d then Inr (seenQuery, query, d)
      else case Token d of
        None \<Rightarrow> Inl (CodeError ''shape'')
      | Some (token, e) \<Rightarrow>
          if token \<noteq> TStr ''query'' then Inl (CodeError ''shape'')
          else if seenQuery then Inl (CodeError ''duplicate-field'')
          else (case Decode e of
                  None \<Rightarrow> Inl (CodeError ''shape'')
                | Some (v, e2) \<Rightarrow>
                    (case into_string query v of
                       None \<Rightarrow> Inl (CodeError ''shape'')
                     | Some q \<Rightarrow> search_members True q e2)))"
  by pat_completeness auto
termination
proof (relation "measure (\<lambda>(s, q, d). length (rest d))")
  fix seenQuery query d p token e p2 v e2 q
  assume "Token d = Some p" "(token, e) = p" "Decode e = Some p2" "(v, e2) = p2"
  then have "length (rest e2) < length (rest e)" "length (rest e) < length (rest d)"
    by (auto dest: Token_shrinks Decode_shrinks)
  then show "((True, q, e2), (seenQuery, query, d)) \<in> measure (\<lambda>(s, q, d). length (rest d))" by simp
qed simp

declare search_members.simps [simp del]

definition search_marshal_input :: "string \<Rightarrow> bytes" where
  "search_marshal_input q = enc (JObj [(''query'', JStr q)])"

definition search_normalizeInput :: "search_Limits \<Rightarrow> bool \<Rightarrow> bytes \<Rightarrow> call_error + bytes" where
  "search_normalizeInput limits ctxErr raw =
     (if ctxErr then Inl ContextError
      else if len raw > search_MaxRawInputBytes limits then Inl (CodeError ''raw-input'')
      else if \<not> utf8_valid raw then Inl (CodeError ''utf8'')
      else case Token (NewDecoder raw False) of
        None \<Rightarrow> Inl (CodeError ''shape'')
      | Some (opening, d) \<Rightarrow>
          if opening \<noteq> Delim (CHR ''{'') then Inl (CodeError ''shape'')
          else (case search_members False [] d of
                  Inl e \<Rightarrow> Inl e
                | Inr (seenQuery, q, e) \<Rightarrow>
                    (case Token e of
                       None \<Rightarrow> Inl (CodeError ''shape'')
                     | Some (closingToken, e2) \<Rightarrow>
                         if closingToken \<noteq> Delim (CHR ''}'') \<or> \<not> seenQuery \<or> \<not> at_EOF e2 then Inl (CodeError ''shape'')
                         else let query = TrimSpace q in
                           if query = [] \<or> ContainsByte query (CHR 0x00) \<or> \<not> utf8_valid query
                              \<or> len query > MaxQueryBytes limits
                           then Inl (CodeError ''query'')
                           else Inr (search_marshal_input query))))"

definition search_set_field :: "(string \<times> json) \<Rightarrow> string option \<Rightarrow> string option" where
  "search_set_field m acc =
     (case acc of None \<Rightarrow> None
      | Some q \<Rightarrow> (case field_of [''query''] (fst m) of None \<Rightarrow> Some q | Some n \<Rightarrow> into_string q (snd m)))"

fun search_into :: "json \<Rightarrow> string option" where
  "search_into (JObj ms) = fold search_set_field ms (Some [])"
| "search_into JNull = Some []"
| "search_into _ = None"

definition search_decodeCanonicalInput :: "bytes \<Rightarrow> call_error + string" where
  "search_decodeCanonicalInput raw =
     (case json_document raw of
        None \<Rightarrow> Inl (CodeError ''canonical-input'')
      | Some v \<Rightarrow> (case search_into v of None \<Rightarrow> Inl (CodeError ''canonical-input'') | Some q \<Rightarrow> Inr q))"

subsection \<open>Coordinator\<close>

record 'c search_coordinator = "'c coordinator" +
  search_coord_limits :: search_Limits

definition search_newCoordinator :: "'scope search_canonicalOptions \<Rightarrow> 'c search_coordinator" where
  "search_newCoordinator options =
     \<lparr>closing = False, closed = False, live = 0, nextID = 0, cancels = [], doneClosed = False,
      search_coord_limits = search_limits options\<rparr>"

definition search_acquire :: "'c \<Rightarrow> 'c search_coordinator \<Rightarrow> 64 word option \<times> 'c search_coordinator" where
  "search_acquire cancel c =
     (if closing c \<or> closed c \<or> live c \<ge> search_MaxInFlight (search_coord_limits c) then (None, c)
      else let id = nextID c + 1 in
        (Some id, c\<lparr>nextID := id, live := live c + 1, cancels := AList.update id cancel (cancels c)\<rparr>))"

definition search_release :: "64 word \<Rightarrow> 'c search_coordinator \<Rightarrow> 'c search_coordinator" where
  "search_release i c =
     (let c = (if has_key (cancels c) i
               then c\<lparr>cancels := AList.delete i (cancels c), live := live c - 1\<rparr> else c) in
      if closing c \<and> live c = 0 then c\<lparr>closed := True, doneClosed := True\<rparr> else c)"

definition search_Close :: "bool \<Rightarrow> 'c search_coordinator \<Rightarrow> 'c close_step \<times> 'c search_coordinator" where
  "search_Close ctx_nil c =
     (if ctx_nil then (CloseReturns (Some (CodeError ''close-context'')), c)
      else if closed c then (CloseReturns None, c)
      else let c1 = c\<lparr>closing := True\<rparr>;
               c2 = (if live c1 = 0 then c1\<lparr>closed := True, doneClosed := True\<rparr> else c1)
           in (CloseAwaits (map snd (cancels c)), c2))"

definition search_Close_state :: "'c search_coordinator \<Rightarrow> 'c search_coordinator" where
  "search_Close_state c = snd (search_Close False c)"

text \<open>What the searcher did: it returned records or an error, or it panicked.\<close>

datatype searcher_result = SearcherRecords "Source list" | SearcherError | SearcherPanicked

definition callSearcher :: "searcher_result \<Rightarrow> call_error + Source list" where
  "callSearcher res =
     (case res of SearcherRecords rs \<Rightarrow> Inr rs | SearcherError \<Rightarrow> Inl OperationError | SearcherPanicked \<Rightarrow> Inl OperationError)"

definition boundAndEncode :: "url_parser \<Rightarrow> Source list \<Rightarrow> search_Limits \<Rightarrow> bytes" where
  "boundAndEncode url_Parse records l = search_marshal (boundSources url_Parse records l)"

type_synonym search_envelope = "call_error + bytes"

definition runSearcher ::
  "url_parser \<Rightarrow> 64 word \<Rightarrow> searcher_result \<Rightarrow> int \<Rightarrow> 'c search_coordinator
   \<Rightarrow> (search_envelope \<times> int) \<times> 'c search_coordinator" where
  "runSearcher url_Parse i res now c =
     (let envelope = (case callSearcher res of
            Inl e \<Rightarrow> Inl OperationError
          | Inr records \<Rightarrow> Inr (boundAndEncode url_Parse records (search_coord_limits c)))
      in ((envelope, now), search_release i c))"

text \<open>
  The single wait of \<open>search\<close>: which case of the select fired, what \<open>ctx.Err\<close> returns after it,
  the envelope received (by the response case, or by the non-blocking receive after the timer),
  and, when no timely envelope was received, whether the caller's context ended while the code
  waited for the child context's own deadline.
\<close>

record search_wait_event =
  ev_ctx_done :: bool
  ev_ctx_err :: bool
  ev_envelope :: "(search_envelope \<times> int) option"
  ev_child_err :: bool
  ev_ctx_done2 :: bool
  ev_ctx_err2 :: bool

datatype search_error = SearchCall call_error | SearchCapacity | SearchDeadlineExceeded

definition search_wait :: "int \<Rightarrow> search_wait_event \<Rightarrow> search_error + bytes" where
  "search_wait deadline ev =
     (if ev_ctx_done ev then Inl (SearchCall ContextError)
      else if ev_ctx_err ev then Inl (SearchCall ContextError)
      else case ev_envelope ev of
        Some (envelope, completedAt) \<Rightarrow>
          if completedAt < deadline
          then (case envelope of Inl e \<Rightarrow> Inl (SearchCall e) | Inr out \<Rightarrow> Inr out)
          else if \<not> ev_child_err ev \<and> ev_ctx_done2 ev then Inl (SearchCall ContextError)
          else if ev_ctx_err2 ev then Inl (SearchCall ContextError)
          else Inl SearchDeadlineExceeded
      | None \<Rightarrow>
          if \<not> ev_child_err ev \<and> ev_ctx_done2 ev then Inl (SearchCall ContextError)
          else if ev_ctx_err2 ev then Inl (SearchCall ContextError)
          else Inl SearchDeadlineExceeded)"

record search_tool_context =
  search_TurnSessionID :: string
  search_TurnRunID :: string

definition search_begin ::
  "bool \<times> bool \<times> bool \<Rightarrow> ident \<Rightarrow> search_tool_context \<Rightarrow> int \<Rightarrow> 'c \<Rightarrow> 'c search_coordinator
   \<Rightarrow> (search_error + 64 word \<times> int) \<times> 'c search_coordinator" where
  "search_begin errs call ctx now cancel c =
     (case errs of (err0, err1, err2) \<Rightarrow>
      if err0 then (Inl (SearchCall ContextError), c)
      else if SessionID call = [] \<or> RunID call = [] \<or> CallID call = []
      then (Inl (SearchCall (CodeError ''call-identity'')), c)
      else if search_TurnSessionID ctx \<noteq> [] \<and> search_TurnSessionID ctx \<noteq> SessionID call
      then (Inl (SearchCall (CodeError ''turn-session'')), c)
      else if search_TurnRunID ctx \<noteq> [] \<and> search_TurnRunID ctx \<noteq> RunID call
      then (Inl (SearchCall (CodeError ''turn-run'')), c)
      else let deadline = now + search_MaxWait (search_coord_limits c) in
        (case search_acquire cancel c of
           (None, c1) \<Rightarrow>
             if err1 then (Inl (SearchCall ContextError), c1) else (Inl SearchCapacity, c1)
         | (Some i, c1) \<Rightarrow>
             if err2 then (Inl (SearchCall ContextError), search_release i c1)
             else (Inr (i, deadline), c1)))"

definition search ::
  "bool \<times> bool \<times> bool \<Rightarrow> ident \<Rightarrow> search_tool_context \<Rightarrow> int \<Rightarrow> 'c \<Rightarrow> search_wait_event
   \<Rightarrow> 'c search_coordinator \<Rightarrow> (search_error + bytes) \<times> 'c search_coordinator" where
  "search errs call ctx now cancel ev c =
     (case search_begin errs call ctx now cancel c of
        (Inl e, c1) \<Rightarrow> (Inl e, c1)
      | (Inr (i, deadline), c1) \<Rightarrow> (search_wait deadline ev, c1))"

definition search_core :: "'c search_coordinator \<Rightarrow> 'c coordinator" where
  "search_core = coordinator.truncate"

definition search_cap :: "'c search_coordinator \<Rightarrow> int" where
  "search_cap c = search_MaxInFlight (search_coord_limits c)"

interpretation search_adm: admission search_acquire search_release search_Close_state search_core search_cap
proof unfold_locales
qed (auto simp: search_acquire_def search_release_def search_Close_state_def search_Close_def search_core_def
    search_cap_def coordinator_core has_key_def Let_def delete_id split: if_splits)

subsection \<open>Checked arithmetic\<close>

lemma checkedAdd_Some: "checkedAdd a b = Some c \<Longrightarrow> c = a + b \<and> 0 \<le> a \<and> 0 \<le> b \<and> c \<le> MaxInt64"
  by (auto simp: checkedAdd_def wrap64_id int64_def split: if_splits)

lemma checkedMul_Some:
  assumes "checkedMul a b = Some c"
  shows "c = a * b \<and> 0 \<le> a \<and> 0 \<le> b \<and> c \<le> MaxInt64"
proof -
  from assms have ab: "0 \<le> a" "0 \<le> b" "a \<noteq> 0 \<Longrightarrow> b \<le> MaxInt64 div a" and c: "c = wrap64 (a * b)"
    by (auto simp: checkedMul_def split: if_splits)
  have "a * b \<le> MaxInt64"
  proof (cases "a = 0")
    case False
    with ab have "a * b \<le> a * (MaxInt64 div a)" by (intro mult_left_mono) simp_all
    also have "\<dots> \<le> MaxInt64"
      using ab(1) False by (simp add: mult.commute[of a] minus_mod_eq_div_mult [symmetric])
    finally show ?thesis .
  qed (simp add: MaxInt64_def)
  moreover have "0 \<le> a * b" using ab by simp
  ultimately have "wrap64 (a * b) = a * b" by (intro wrap64_id) (simp add: int64_def)
  with ab c \<open>a * b \<le> MaxInt64\<close> show ?thesis by simp
qed

text \<open>
  The checked 64-bit operations of \<open>websearch\<close> return the exact mathematical sum and
  product whenever they return at all, for operands that fit 64 bits; they refuse exactly a
  negative operand and a result above the largest 64-bit integer.
\<close>

theorem checked_arithmetic_exact:
  "checkedAdd a b = (if 0 \<le> a \<and> 0 \<le> b \<and> a + b \<le> MaxInt64 then Some (a + b) else None)
   \<and> checkedMul a b = (if 0 \<le> a \<and> 0 \<le> b \<and> a * b \<le> MaxInt64 then Some (a * b) else None)"
proof
  show "checkedAdd a b = (if 0 \<le> a \<and> 0 \<le> b \<and> a + b \<le> MaxInt64 then Some (a + b) else None)"
    by (auto simp: checkedAdd_def wrap64_id int64_def)
  have "b \<le> MaxInt64 div a" if "0 < a" "a * b \<le> MaxInt64" for a b :: int
    using zdiv_mono1 [OF that(2,1)] that(1) by simp
  then have "checkedMul a b \<noteq> None" if "0 \<le> a" "0 \<le> b" "a * b \<le> MaxInt64"
    using that by (cases "a = 0") (simp_all add: checkedMul_def not_less)
  then show "checkedMul a b = (if 0 \<le> a \<and> 0 \<le> b \<and> a * b \<le> MaxInt64 then Some (a * b) else None)"
    using checkedMul_Some [of a b] by (cases "checkedMul a b") auto
qed

subsection \<open>Bounded records\<close>

lemma utf8Prefix_bound:
  assumes "0 \<le> m"
  shows "utf8_valid (utf8Prefix s m) \<and> len (utf8Prefix s m) \<le> m"
proof -
  define t where "t = (if len s > m then take (nat m) s else s)"
  have t: "len t \<le> m" using assms by (auto simp: t_def len_def)
  have "length (ToValidUTF8 t [] False) \<le> 1 * length t" by (rule ToValidUTF8_length) simp_all
  moreover have "utf8Prefix s m = (if utf8_valid t then t else ToValidUTF8 t [] False)"
    by (simp add: utf8Prefix_def t_def)
  ultimately show ?thesis using t by (simp add: len_def ToValidUTF8_valid)
qed

definition source_ok :: "url_parser \<Rightarrow> search_Limits \<Rightarrow> Source \<Rightarrow> bool" where
  "source_ok url_Parse l s \<longleftrightarrow>
     validSourceURL url_Parse (URL s) (MaxURLBytes l)
     \<and> utf8_valid (Title s) \<and> len (Title s) \<le> MaxTitleBytes l
     \<and> utf8_valid (Snippet s) \<and> len (Snippet s) \<le> MaxSnippetBytes l"

lemma bound_loop_ok:
  assumes "0 \<le> MaxTitleBytes l" and "0 \<le> MaxSnippetBytes l"
  shows "(\<forall>s \<in> set (bound_loop url_Parse l rs). source_ok url_Parse l s) \<and>
    map URL (bound_loop url_Parse l rs) = filter (\<lambda>u. validSourceURL url_Parse u (MaxURLBytes l)) (map URL rs)"
  using utf8Prefix_bound [OF assms(1)] utf8Prefix_bound [OF assms(2)]
  by (induction rs) (auto simp: source_ok_def)

lemma validSourceURL_bounds: "validSourceURL p u m \<Longrightarrow> utf8_valid u \<and> len u \<le> m"
  by (auto simp: validSourceURL_def split: if_splits)

lemma bound_loop_length: "length (bound_loop url_Parse l rs) \<le> length rs"
  by (induction rs) auto

lemma boundSources_ok:
  assumes "search_validateLimits l = None"
  shows "len (boundSources url_Parse rs l) \<le> MaxResults l
    \<and> (\<forall>s \<in> set (boundSources url_Parse rs l). source_ok url_Parse l s)"
proof -
  from assms have l: "0 \<le> MaxTitleBytes l" "0 \<le> MaxSnippetBytes l" "0 < MaxResults l"
    by (auto simp: search_validateLimits_def split: if_splits option.splits)
  define n where "n = nat (if len rs > MaxResults l then MaxResults l else len rs)"
  have "int n \<le> MaxResults l" using l by (auto simp: n_def len_def)
  moreover have "length (bound_loop url_Parse l (take n rs)) \<le> n"
    using bound_loop_length [of url_Parse l "take n rs"] by simp
  moreover have "boundSources url_Parse rs l = bound_loop url_Parse l (take n rs)"
    by (simp add: boundSources_def n_def)
  ultimately show ?thesis
    using bound_loop_ok [OF l(1,2), of url_Parse "take n rs"] by (simp add: len_def)
qed

text \<open>Sizes of encoded records.\<close>

lemma search_key_lengths:
  "length (marshal_string ''title'') = 7" "length (marshal_string ''url'') = 5"
  "length (marshal_string ''snippet'') = 9" "length (marshal_string ''results'') = 9"
  "length (marshal_string []) = 2"
  by (simp_all add: marshal_string_def escape_body.simps escape_step_def escape_ascii_def html_safe_def)

lemma length_enc_source:
  "length (enc (search_json_source s)) \<le> 34 + 6 * (length (Title s) + length (URL s) + length (Snippet s))"
  using length_marshal_string [of "Title s"] length_marshal_string [of "URL s"] length_marshal_string [of "Snippet s"]
  by (simp add: search_json_source_def search_key_lengths)

lemma length_search_marshal_empty: "length (search_marshal []) = 14"
  by (simp add: search_marshal_def search_key_lengths)

lemma length_search_marshal_one: "length (search_marshal [\<lparr>Title = [], URL = [], Snippet = []\<rparr>]) = 48"
  by (simp add: search_marshal_def search_json_source_def search_key_lengths)

lemma length_search_marshal:
  assumes "\<forall>s \<in> set rs. length (enc (search_json_source s)) \<le> k"
  shows "length (search_marshal rs) \<le> 14 + length rs * k + (length rs - 1)"
proof -
  have "sum_list (map (\<lambda>s. length (enc (search_json_source s))) rs) \<le> length rs * k"
    using assms by (induction rs) auto
  then show ?thesis
    by (simp add: search_marshal_def search_key_lengths length_sep_by comp_def)
qed

lemma worstCaseResultBytes_value:
  assumes "worstCaseResultBytes l = Inr n" and "1 \<le> MaxResults l" and "int64 (MaxResults l)"
  shows "n = 14 + (34 + (MaxTitleBytes l + MaxURLBytes l + MaxSnippetBytes l) * 6) * MaxResults l + (MaxResults l - 1)"
proof -
  have w: "wrap64 (MaxResults l - 1) = MaxResults l - 1"
    using assms(2,3) by (intro wrap64_id) (auto simp: int64_def)
  from assms(1) obtain f1 f2 e p r t where
    "checkedAdd (MaxTitleBytes l) (MaxURLBytes l) = Some f1" "checkedAdd f1 (MaxSnippetBytes l) = Some f2"
    "checkedMul f2 6 = Some e" "checkedAdd 34 e = Some p" "checkedMul p (MaxResults l) = Some r"
    "checkedAdd 14 r = Some t" "checkedAdd t (MaxResults l - 1) = Some n"
    by (auto simp: worstCaseResultBytes_def Let_def length_search_marshal_empty length_search_marshal_one len_def w
        split: if_splits option.splits)
  then have "f1 = MaxTitleBytes l + MaxURLBytes l" "f2 = f1 + MaxSnippetBytes l" "e = f2 * 6" "p = 34 + e"
    "r = p * MaxResults l" "t = 14 + r" "n = t + (MaxResults l - 1)"
    by (blast dest: checkedAdd_Some checkedMul_Some)+
  then show ?thesis by simp
qed

lemma search_marshal_worst_case:
  assumes l: "search_validateLimits l = None" and n: "worstCaseResultBytes l = Inr n"
    and rs: "len rs \<le> MaxResults l" "\<forall>s \<in> set rs. source_ok p l s"
  shows "len (search_marshal rs) \<le> n"
proof -
  define f where "f = MaxTitleBytes l + MaxURLBytes l + MaxSnippetBytes l"
  from l have m: "1 \<le> MaxResults l" "MaxResults l \<le> 100" and f0: "0 \<le> f"
    by (auto simp: search_validateLimits_def f_def split: if_splits option.splits)
  then have n': "n = 14 + (34 + f * 6) * MaxResults l + (MaxResults l - 1)"
    using worstCaseResultBytes_value [OF n] by (simp add: int64_def MaxInt64_def f_def)
  have src: "length (enc (search_json_source s)) \<le> nat (34 + f * 6)" if "s \<in> set rs" for s
  proof -
    have "source_ok p l s" using rs(2) that by blast
    then have "len (Title s) \<le> MaxTitleBytes l" "len (Snippet s) \<le> MaxSnippetBytes l" "len (URL s) \<le> MaxURLBytes l"
      using validSourceURL_bounds [of p "URL s" "MaxURLBytes l"] by (simp_all add: source_ok_def)
    then have "int (34 + 6 * (length (Title s) + length (URL s) + length (Snippet s))) \<le> 34 + f * 6"
      unfolding f_def by (simp add: len_def)
    with length_enc_source [of s] show ?thesis by linarith
  qed
  have "length (search_marshal rs) \<le> 14 + length rs * nat (34 + f * 6) + (length rs - 1)"
    using src by (intro length_search_marshal) blast
  then have "int (length (search_marshal rs)) \<le> int (14 + length rs * nat (34 + f * 6) + (length rs - 1))"
    by (simp only: of_nat_le_iff)
  then have "len (search_marshal rs) \<le> 14 + len rs * (34 + f * 6) + int (length rs - 1)"
    using f0 by (simp add: len_def)
  moreover have "len rs * (34 + f * 6) \<le> MaxResults l * (34 + f * 6)"
    using rs(1) f0 by (intro mult_right_mono) simp_all
  moreover have "int (length rs - 1) \<le> MaxResults l - 1" using rs(1) m(1) by (simp add: len_def)
  ultimately show ?thesis using n' by (simp add: mult.commute)
qed

lemma checked_fits:
  "0 \<le> a \<Longrightarrow> 0 \<le> b \<Longrightarrow> a + b \<le> MaxInt64 \<Longrightarrow> checkedAdd a b = Some (a + b)"
  "0 \<le> a \<Longrightarrow> 0 \<le> b \<Longrightarrow> a * b \<le> MaxInt64 \<Longrightarrow> checkedMul a b = Some (a * b)"
  by (simp_all add: checked_arithmetic_exact)

text \<open>Limits that pass the check have a worst case; the computation of the bound does not overflow.\<close>

lemma worst_case_exists:
  assumes "search_validateLimits l = None"
  obtains n where "worstCaseResultBytes l = Inr n" "search_resultRetention l = Inr (2 * n)"
proof -
  define f where "f = MaxTitleBytes l + MaxURLBytes l + MaxSnippetBytes l"
  have b: "0 \<le> MaxTitleBytes l" "MaxTitleBytes l \<le> 1024" "0 \<le> MaxURLBytes l" "MaxURLBytes l \<le> 8192" "0 \<le> MaxSnippetBytes l"
    "MaxSnippetBytes l \<le> 16384" "1 \<le> MaxResults l" "MaxResults l \<le> 100"
    using assms by (auto simp: search_validateLimits_def split: if_splits option.splits)
  have f: "0 \<le> f" "f \<le> 25600" using b by (simp_all add: f_def)
  define r where "r = (34 + f * 6) * MaxResults l"
  have "r \<le> (34 + 25600 * 6) * 100" unfolding r_def using f b by (intro mult_mono) auto
  moreover have "0 \<le> r" using f b by (simp add: r_def)
  ultimately have r: "0 \<le> r" "r \<le> 15363400" by simp_all
  have w: "wrap64 (MaxResults l - 1) = MaxResults l - 1" using b by (intro wrap64_id) (auto simp: int64_def MaxInt64_def)
  have s: "checkedAdd (MaxTitleBytes l) (MaxURLBytes l) = Some (MaxTitleBytes l + MaxURLBytes l)"
    "checkedAdd (MaxTitleBytes l + MaxURLBytes l) (MaxSnippetBytes l) = Some f" "checkedMul f 6 = Some (f * 6)"
    "checkedAdd 34 (f * 6) = Some (34 + f * 6)" "checkedMul (34 + f * 6) (MaxResults l) = Some r" "checkedAdd 14 r = Some (14 + r)"
    "checkedAdd (14 + r) (MaxResults l - 1) = Some (14 + r + (MaxResults l - 1))"
    "checkedMul (14 + r + (MaxResults l - 1)) 2 = Some ((14 + r + (MaxResults l - 1)) * 2)"
    using b f r by (simp_all add: checked_fits f_def[symmetric] r_def[symmetric] MaxInt64_def)
  have "worstCaseResultBytes l = Inr (14 + r + (MaxResults l - 1))"
    using b(7) r(1) by (simp add: worstCaseResultBytes_def Let_def length_search_marshal_empty length_search_marshal_one len_def w s)
  then show thesis using that s(8) by (simp add: search_resultRetention_def mult.commute)
qed

subsection \<open>Results of a search\<close>

text \<open>
  C32: the records a search may return are bounded and clean: at most the configured number,
  each with a URL that passed the URL check, a title and a snippet that are valid UTF-8 within
  their limits, and the URLs are those of the first candidates that pass the check, in the
  searcher's order and unchanged; encoded they fit the worst-case bound, which accepted limits always
  have, and of which the bytes retained of a result are two copies.
\<close>

theorem search_results_bounded:
  assumes "search_validateLimits l = None"
  shows "len (boundSources url_Parse rs l) \<le> MaxResults l
    \<and> list_all (source_ok url_Parse l) (boundSources url_Parse rs l)
    \<and> map URL (boundSources url_Parse rs l) =
        filter (\<lambda>u. validSourceURL url_Parse u (MaxURLBytes l)) (map URL (take (nat (MaxResults l)) rs))
    \<and> (\<exists>n. worstCaseResultBytes l = Inr n \<and> search_resultRetention l = Inr (2 * n) \<and> len (search_marshal (boundSources url_Parse rs l)) \<le> n)"
proof -
  obtain n where n: "worstCaseResultBytes l = Inr n" "search_resultRetention l = Inr (2 * n)" by (rule worst_case_exists[OF assms])
  have fits: "len (search_marshal (boundSources url_Parse rs l)) \<le> n"
    using boundSources_ok [OF assms, of url_Parse rs] by (intro search_marshal_worst_case [OF assms n(1)]) blast+
  from assms have l: "0 \<le> MaxTitleBytes l" "0 \<le> MaxSnippetBytes l" "0 < MaxResults l"
    by (auto simp: search_validateLimits_def split: if_splits option.splits)
  have "boundSources url_Parse rs l = bound_loop url_Parse l (take (nat (MaxResults l)) rs)"
    using l(3) by (auto simp: boundSources_def len_def)
  then have "map URL (boundSources url_Parse rs l) =
      filter (\<lambda>u. validSourceURL url_Parse u (MaxURLBytes l)) (map URL (take (nat (MaxResults l)) rs))"
    using bound_loop_ok [OF l(1,2), of url_Parse "take (nat (MaxResults l)) rs"] by simp
  with boundSources_ok [OF assms, of url_Parse rs] n fits show ?thesis by (simp add: list_all_iff)
qed

definition search_demo_limits :: search_Limits where
  "search_demo_limits = \<lparr>search_MaxRawInputBytes = 128, MaxQueryBytes = 16, MaxResults = 2, MaxTitleBytes = 4,
     MaxURLBytes = 16, MaxSnippetBytes = 4, search_MaxInFlight = 1, search_MaxWait = 10\<rparr>"

lemma search_demo_limits_ok: "search_validateLimits search_demo_limits = None"
  by (simp add: search_validateLimits_def search_demo_limits_def checkedMul_def checkedAdd_def MaxInt64_def wrap64_def
      search_minute_def)

definition search_demo_parser :: url_parser where
  "search_demo_parser u = (if HasPrefix u ''http://'' then Some (''http'', drop 7 u, False) else None)"

definition search_demo_records :: "Source list" where
  "search_demo_records = [\<lparr>Title = ''title'', URL = ''http://a'', Snippet = ''s''\<rparr>, \<lparr>Title = [], URL = ''ftp://b'', Snippet = []\<rparr>,
     \<lparr>Title = [], URL = ''http://c'', Snippet = []\<rparr>]"

theorem search_results_bounded_witness:
  "len (boundSources search_demo_parser search_demo_records search_demo_limits) \<le> 2
   \<and> map URL (boundSources search_demo_parser search_demo_records search_demo_limits) = [''http://a'']"
  using search_results_bounded [OF search_demo_limits_ok, of search_demo_parser search_demo_records]
  by (simp add: search_demo_limits_def search_demo_records_def search_demo_parser_def validSourceURL_def len_def
      utf8_eval HasPrefix_def)

text \<open>
  a successful search under canonical options returns the encoding of a bounded record
  list that the searcher's goroutine completed strictly before the deadline, and that encoding
  fits twice into the retention bound, which is computed without overflow. The envelope is the
  one \<open>runSearcher\<close> publishes for some searcher result.
\<close>

theorem search_success:
  assumes can: "search_canonicalize g v o' = Inr opts" and lim: "search_coord_limits c = search_limits opts"
    and env: "ev_envelope ev = Some (fst (runSearcher url_Parse i res t c2))"
    and lim2: "search_coord_limits c2 = search_limits opts"
    and run: "search errs call ctx now k ev c = (Inr out, c')"
  shows "t < now + search_MaxWait (search_limits opts)
    \<and> (\<exists>rs. res = SearcherRecords rs \<and> out = search_marshal (boundSources url_Parse rs (search_limits opts)))
    \<and> 2 * len out \<le> search_retention opts"
proof -
  let ?l = "search_limits opts"
  from can have l: "search_validateLimits ?l = None" "search_resultRetention ?l = Inr (search_retention opts)"
    by (auto simp: search_canonicalize_def Let_def split: if_splits option.splits sum.splits)
  then obtain n where n: "worstCaseResultBytes ?l = Inr n" "checkedMul n 2 = Some (search_retention opts)"
    by (auto simp: search_resultRetention_def split: sum.splits option.splits)
  from run obtain j deadline c1 where b: "search_begin errs call ctx now k c = (Inr (j, deadline), c1)"
    and w: "search_wait deadline ev = Inr out"
    by (auto simp: search_def split: prod.splits sum.splits)
  have dl: "deadline = now + search_MaxWait ?l"
    using b lim by (auto simp: search_begin_def Let_def split: prod.splits if_splits option.splits)
  from w env have t: "t < deadline" and res: "callSearcher res \<noteq> Inl OperationError"
    "\<forall>rs. callSearcher res = Inr rs \<longrightarrow> out = boundAndEncode url_Parse rs ?l"
    by (auto simp: search_wait_def runSearcher_def Let_def lim2 split: if_splits sum.splits)
  then obtain rs where rs: "res = SearcherRecords rs" "out = search_marshal (boundSources url_Parse rs ?l)"
    by (cases res) (auto simp: callSearcher_def boundAndEncode_def)
  have "len out \<le> n"
    unfolding rs(2) using boundSources_ok [OF l(1), of url_Parse rs]
    by (intro search_marshal_worst_case [OF l(1) n(1)]) blast+
  moreover have "search_retention opts = n * 2" using checkedMul_Some [OF n(2)] by simp
  ultimately show ?thesis using t dl rs by auto
qed

definition search_demo_options :: "nat search_Options" where
  "search_demo_options = \<lparr>search_Scope = None, search_Order = 0, searcher_nil = False, SearcherIdentity = ''v1'',
     search_Limits = search_demo_limits\<rparr>"

definition search_demo_coordinator :: "nat search_coordinator" where
  "search_demo_coordinator = \<lparr>closing = False, closed = False, live = 0, nextID = 0, cancels = [],
     doneClosed = False, search_coord_limits = search_demo_limits\<rparr>"

definition search_demo_event :: search_wait_event where
  "search_demo_event = \<lparr>ev_ctx_done = False, ev_ctx_err = False,
     ev_envelope = Some (fst (runSearcher search_demo_parser 1 (SearcherRecords search_demo_records) 9 search_demo_coordinator)),
     ev_child_err = False, ev_ctx_done2 = False, ev_ctx_err2 = False\<rparr>"

theorem search_success_witness:
  "\<exists>opts out c'. search_canonicalize 0 (\<lambda>s. True) search_demo_options = Inr opts
     \<and> search (False, False, False) \<lparr>SessionID = ''s'', RunID = ''r'', CallID = ''c''\<rparr>
         \<lparr>search_TurnSessionID = [], search_TurnRunID = []\<rparr> 0 7 search_demo_event search_demo_coordinator = (Inr out, c')
     \<and> 2 * len out \<le> search_retention opts"
proof -
  have ret: "search_resultRetention search_demo_limits = Inr 742"
    by (simp add: search_resultRetention_def worstCaseResultBytes_def search_demo_limits_def length_search_marshal_empty
        length_search_marshal_one len_def checkedMul_def checkedAdd_def MaxInt64_def wrap64_def)
  let ?opts = "\<lparr>search_scope = 0::nat, search_order = 100, search_searcherIdentity = ''v1'',
      search_limits = search_demo_limits, search_retention = 742\<rparr>"
  have opts: "search_canonicalize 0 (\<lambda>s. True) search_demo_options = Inr ?opts"
    by (simp add: search_canonicalize_def search_demo_options_def search_validIdentity_def len_def utf8_eval
        ContainsByte_def search_demo_limits_ok ret)
  have lim: "search_coord_limits search_demo_coordinator = search_limits ?opts"
    by (simp add: search_demo_coordinator_def)
  have "\<exists>out c'. search (False, False, False) \<lparr>SessionID = ''s'', RunID = ''r'', CallID = ''c''\<rparr>
         \<lparr>search_TurnSessionID = [], search_TurnRunID = []\<rparr> 0 7 search_demo_event search_demo_coordinator = (Inr out, c')"
    by (simp add: search_def search_begin_def search_acquire_def search_demo_coordinator_def search_demo_event_def
        search_wait_def runSearcher_def callSearcher_def Let_def search_demo_limits_def)
  then obtain out c' where run: "search (False, False, False) \<lparr>SessionID = ''s'', RunID = ''r'', CallID = ''c''\<rparr>
         \<lparr>search_TurnSessionID = [], search_TurnRunID = []\<rparr> 0 7 search_demo_event search_demo_coordinator = (Inr out, c')"
    by blast
  have env: "ev_envelope search_demo_event =
      Some (fst (runSearcher search_demo_parser 1 (SearcherRecords search_demo_records) 9 search_demo_coordinator))"
    by (simp add: search_demo_event_def)
  from search_success [OF opts lim env lim run] opts run show ?thesis by blast
qed

text \<open>
  An input that the normalizer of web_search accepts is rewritten to a canonical encoding
  that decodes to the accepted query, which is non-empty, valid UTF-8 without NUL and within
  its bound; the encoding itself respects the raw-input bound.
\<close>

theorem search_normalize_roundtrip:
  assumes "search_normalizeInput limits ctxErr raw = Inr out" and "search_validateLimits limits = None"
  shows "\<exists>q. search_decodeCanonicalInput out = Inr q \<and> q \<noteq> [] \<and> utf8_valid q \<and> CHR 0x00 \<notin> set q
    \<and> len q \<le> MaxQueryBytes limits \<and> len out \<le> search_MaxRawInputBytes limits"
proof -
  from assms(1) obtain q where q: "q \<noteq> []" "\<not> ContainsByte q (CHR 0x00)" "utf8_valid q"
    "len q \<le> MaxQueryBytes limits" "out = search_marshal_input q"
    by (auto simp: search_normalizeInput_def Let_def not_less split: if_splits option.splits sum.splits)
  have "json_document out = Some (JObj [(''query'', JStr q)])"
    unfolding q(5) search_marshal_input_def using q(3)
    by (intro json_document_enc) (simp_all add: utf8_valid_all_ascii maxNestingDepth_def)
  then have "search_decodeCanonicalInput out = Inr q"
    by (simp add: search_decodeCanonicalInput_def search_set_field_def field_of_def)
  moreover have "len out \<le> search_MaxRawInputBytes limits"
  proof -
    have "length (marshal_string ''query'') = 7"
      by (simp add: marshal_string_def escape_body.simps escape_step_def escape_ascii_def html_safe_def)
    then have "len out \<le> 6 * len q + 12"
      using length_marshal_string [of q] by (simp add: q(5) search_marshal_input_def len_def)
    moreover have "MaxQueryBytes limits * 6 + 12 \<le> search_MaxRawInputBytes limits"
      using assms(2) by (auto simp: search_validateLimits_def not_less split: if_splits option.splits
          dest!: checkedAdd_Some checkedMul_Some)
    ultimately show ?thesis using q(4) by linarith
  qed
  ultimately show ?thesis using q by (auto simp: ContainsByte_def)
qed

definition search_demo_raw :: bytes where
  "search_demo_raw = ''{'' @ [CHR 0x22] @ ''query'' @ [CHR 0x22] @ '': '' @ [CHR 0x22] @ '' x'' @ [CHR 0x22] @ ''}''"

lemma search_demo_open:
  "Token (NewDecoder search_demo_raw False) =
     Some (Delim (CHR ''{''), \<lparr>rest = tl search_demo_raw, tokenState = ObjectStart, tokenStack = [TopValue], useNumber = False\<rparr>)"
  by (subst Token.simps)
     (simp add: NewDecoder_def search_demo_raw_def peek_def tokenValueAllowed_def Let_def)

lemma search_demo_key:
  "Token \<lparr>rest = tl search_demo_raw, tokenState = ObjectStart, tokenStack = [TopValue], useNumber = False\<rparr> =
     Some (TStr ''query'', \<lparr>rest = drop 8 search_demo_raw, tokenState = ObjectColon, tokenStack = [TopValue], useNumber = False\<rparr>)"
  by (subst Token_key)
     (simp_all add: search_demo_raw_def peek_def scan_string.simps unquote.simps unquote_step_def)

lemma search_demo_value:
  "Decode \<lparr>rest = drop 8 search_demo_raw, tokenState = ObjectColon, tokenStack = [TopValue], useNumber = False\<rparr> =
     Some (JStr '' x'', \<lparr>rest = ''}'', tokenState = ObjectComma, tokenStack = [TopValue], useNumber = False\<rparr>)"
  by (simp add: Decode_def tokenPrepareForDecode_def search_demo_raw_def peek_def tokenValueAllowed_def
      tokenValueEnd_def json_read_value_at value_at_eq skip_ws_def ws_byte_def scalar_at_def scan_string.simps unquote.simps
      unquote_step_def)

lemma search_demo_close:
  "Token \<lparr>rest = ''}'', tokenState = ObjectComma, tokenStack = [TopValue], useNumber = False\<rparr> =
     Some (Delim (CHR ''}''), \<lparr>rest = [], tokenState = TopValue, tokenStack = [], useNumber = False\<rparr>)"
  by (subst Token_rbrace) (simp_all add: peek_def close_to_def tokenValueEnd_def)

lemma search_demo_normalize: "search_normalizeInput search_demo_limits False search_demo_raw = Inr (search_marshal_input ''x'')"
proof -
  have m1: "More \<lparr>rest = tl search_demo_raw, tokenState = ObjectStart, tokenStack = [TopValue], useNumber = False\<rparr>"
    and m2: "\<not> More \<lparr>rest = ''}'', tokenState = ObjectComma, tokenStack = [TopValue], useNumber = False\<rparr>"
    by (simp_all add: More_def peek_def search_demo_raw_def)
  have members: "search_members False [] \<lparr>rest = tl search_demo_raw, tokenState = ObjectStart, tokenStack = [TopValue], useNumber = False\<rparr>
      = Inr (True, '' x'', \<lparr>rest = ''}'', tokenState = ObjectComma, tokenStack = [TopValue], useNumber = False\<rparr>)"
    by (subst search_members.simps, simp add: m1 search_demo_key search_demo_value,
        subst search_members.simps, simp add: m2)
  have u: "utf8_valid search_demo_raw" "utf8_valid ''x''"
    by (simp_all add: utf8_valid_all_ascii search_demo_raw_def)
  have t: "TrimSpace '' x'' = ''x''" by (simp add: utf8_eval)
  have l: "len search_demo_raw \<le> 128" by (simp add: search_demo_raw_def len_def)
  show ?thesis
    using u t l
    by (simp add: search_normalizeInput_def search_demo_open members search_demo_close search_demo_limits_def
        at_EOF_def peek_def ContainsByte_def len_def)
qed

theorem search_normalize_roundtrip_witness:
  "\<exists>q. search_decodeCanonicalInput (search_marshal_input ''x'') = Inr q \<and> q \<noteq> [] \<and> len q \<le> 16"
  using search_normalize_roundtrip [OF search_demo_normalize search_demo_limits_ok]
  by (auto simp: search_demo_limits_def)

end
