(* ===== verification/Go_Path.thy ===== *)
theory Go_Path
  imports Prelude
begin

section \<open>The parts of path/filepath the packages call, on Unix\<close>

text \<open>
  A path is split at slashes; \<open>Clean\<close> drops empty and \<open>.\<close> elements and resolves \<open>..\<close> lexically,
  \<open>Join\<close> cleans the joined elements and \<open>Rel\<close> expresses one clean path relative to another.
\<close>

fun path_split :: "string \<Rightarrow> string list" where
  "path_split [] = [[]]"
| "path_split (c # s) =
     (if c = CHR ''/'' then [] # path_split s
      else (case path_split s of [] \<Rightarrow> [[c]] | e # es \<Rightarrow> (c # e) # es))"

fun path_concat :: "string list \<Rightarrow> string" where
  "path_concat [] = []"
| "path_concat [e] = e"
| "path_concat (e # es) = e @ CHR ''/'' # path_concat es"

definition IsAbs :: "string \<Rightarrow> bool" where
  "IsAbs p \<longleftrightarrow> HasPrefix p ''/''"

text \<open>The stack of elements kept so far is in reverse order.\<close>

fun clean_elems :: "bool \<Rightarrow> string list \<Rightarrow> string list \<Rightarrow> string list" where
  "clean_elems rooted stack [] = rev stack"
| "clean_elems rooted stack (e # es) =
     (if e = [] \<or> e = ''.'' then clean_elems rooted stack es
      else if e = ''..'' then
        (case stack of
           [] \<Rightarrow> if rooted then clean_elems rooted [] es else clean_elems rooted [''..''] es
         | t # ts \<Rightarrow> if t = ''..'' then clean_elems rooted (''..'' # stack) es else clean_elems rooted ts es)
      else clean_elems rooted (e # stack) es)"

definition Clean :: "string \<Rightarrow> string" where
  "Clean p =
     (let es = clean_elems (IsAbs p) [] (path_split p) in
      if IsAbs p then CHR ''/'' # path_concat es else if es = [] then ''.'' else path_concat es)"

definition Join2 :: "string \<Rightarrow> string \<Rightarrow> string" where
  "Join2 a b = (if a = [] \<and> b = [] then [] else if a = [] then Clean b else Clean (a @ CHR ''/'' # b))"

fun strip_common :: "string list \<Rightarrow> string list \<Rightarrow> string list \<times> string list" where
  "strip_common (b # bs) (t # ts) = (if b = t then strip_common bs ts else (b # bs, t # ts))"
| "strip_common bs ts = (bs, ts)"

definition path_elems :: "string \<Rightarrow> string list" where
  "path_elems p = clean_elems (IsAbs p) [] (path_split p)"

text \<open>\<open>Rel\<close> fails when only one path is absolute or when the base climbs above its start.\<close>

definition Rel :: "string \<Rightarrow> string \<Rightarrow> string option" where
  "Rel base targ =
     (if Clean base = Clean targ then Some ''.''
      else if IsAbs base \<noteq> IsAbs targ then None
      else (case strip_common (path_elems base) (path_elems targ) of
              (bs, ts) \<Rightarrow>
                if bs \<noteq> [] \<and> hd bs = ''..'' then None
                else Some (path_concat (replicate (length bs) ''..'' @ ts))))"

lemma path_split_ne [simp]: "path_split s \<noteq> []"
  by (induction s) (auto split: list.splits)

lemma path_split_elem: "e \<in> set (path_split s) \<Longrightarrow> CHR ''/'' \<notin> set e"
proof (induction s arbitrary: e)
  case (Cons c s)
  then show ?case by (cases "path_split s") (auto split: if_splits)
qed simp

lemma path_split_append_slash: "CHR ''/'' \<notin> set a \<Longrightarrow> path_split (a @ CHR ''/'' # b) = a # path_split b"
  by (induction a) auto

lemma path_split_noslash: "CHR ''/'' \<notin> set a \<Longrightarrow> path_split a = [a]"
  by (induction a) auto

lemma path_split_concat:
  "es \<noteq> [] \<Longrightarrow> \<forall>e \<in> set es. CHR ''/'' \<notin> set e \<Longrightarrow> path_split (path_concat es) = es"
proof (induction es rule: path_concat.induct)
  case (3 e e' es)
  then show ?case using path_split_append_slash [of e "path_concat (e' # es)"] by simp
qed (simp_all add: path_split_noslash)

text \<open>An element that names an entry of a directory.\<close>

definition plain_elem :: "string \<Rightarrow> bool" where
  "plain_elem e \<longleftrightarrow> e \<noteq> [] \<and> e \<noteq> ''.'' \<and> e \<noteq> ''..'' \<and> CHR ''/'' \<notin> set e"

lemma clean_elems_plain: "\<forall>e \<in> set es. plain_elem e \<Longrightarrow> clean_elems rooted stack es = rev stack @ es"
  by (induction es arbitrary: stack) (auto simp: plain_elem_def)

lemma plain_elem_dots: "\<not> plain_elem ''.''" "\<not> plain_elem ''..''" "\<not> plain_elem []"
  by (simp_all add: plain_elem_def)

lemma clean_elems_rooted:
  "\<forall>e \<in> set stack. plain_elem e \<Longrightarrow> \<forall>e \<in> set es. CHR ''/'' \<notin> set e \<Longrightarrow>
   \<forall>e \<in> set (clean_elems True stack es). plain_elem e"
proof (induction es arbitrary: stack)
  case (Cons e es)
  have es: "\<forall>e \<in> set es. CHR ''/'' \<notin> set e" using Cons.prems(2) by simp
  consider "e = [] \<or> e = ''.''" | "e = ''..''" | "plain_elem e"
    using Cons.prems(2) unfolding plain_elem_def list.set_intros by (meson list.set_intros(1))
  then show ?case
  proof cases
    case 1
    with Cons.IH [OF Cons.prems(1) es] show ?thesis by (simp only: clean_elems.simps if_True)
  next
    case 2
    show ?thesis
    proof (cases stack)
      case Nil
      with 2 Cons.IH [of "[]", OF _ es] show ?thesis by simp
    next
      case st: (Cons t ts)
      then have "t \<noteq> ''..''" using Cons.prems(1) plain_elem_dots by auto
      with 2 st Cons.IH [of ts, OF _ es] Cons.prems(1) show ?thesis by simp
    qed
  next
    case 3
    then have "\<not> (e = [] \<or> e = ''.'')" "e \<noteq> ''..''" by (simp_all add: plain_elem_def)
    with Cons.IH [of "e # stack", OF _ es] Cons.prems(1) 3 show ?thesis
      by (simp only: clean_elems.simps if_False) simp
  qed
qed simp

lemma IsAbs_iff: "IsAbs p \<longleftrightarrow> p \<noteq> [] \<and> hd p = CHR ''/''"
  by (cases p) (simp_all add: IsAbs_def HasPrefix_def)

lemma path_concat_hd: "e \<noteq> [] \<Longrightarrow> path_concat (e # es) \<noteq> [] \<and> hd (path_concat (e # es)) = hd e"
  by (cases es) auto

lemma plain_elem_hd: "plain_elem e \<Longrightarrow> e \<noteq> [] \<and> hd e \<noteq> CHR ''/''"
  unfolding plain_elem_def by (metis list.set_sel(1))

lemma path_concat_noslash_hd: "\<forall>e \<in> set es. plain_elem e \<Longrightarrow> es \<noteq> [] \<Longrightarrow> \<not> IsAbs (path_concat es) \<and> path_concat es \<noteq> []"
  using plain_elem_hd path_concat_hd [of "hd es" "tl es"]
  by (cases es) (simp_all add: IsAbs_iff)

lemma Clean_plain: "es \<noteq> [] \<Longrightarrow> \<forall>e \<in> set es. plain_elem e \<Longrightarrow> Clean (path_concat es) = path_concat es"
  using path_concat_noslash_hd [of es] path_split_concat [of es] clean_elems_plain [of es False "[]"]
  by (auto simp: Clean_def Let_def plain_elem_def)

lemma path_concat_snoc: "es \<noteq> [] \<Longrightarrow> path_concat (es @ [e]) = path_concat es @ CHR ''/'' # e"
  by (induction es rule: path_concat.induct) auto

lemma Join2_plain:
  assumes "\<forall>e \<in> set es. plain_elem e" and "plain_elem e"
  shows "Join2 (path_concat es) e = path_concat (es @ [e])"
proof (cases "es = []")
  case True
  with assms(2) Clean_plain [of "[e]"] show ?thesis by (simp add: Join2_def plain_elem_def)
next
  case False
  with assms path_concat_noslash_hd [OF assms(1) False] Clean_plain [of "es @ [e]"] show ?thesis
    by (simp add: Join2_def path_concat_snoc)
qed

lemma Join2_dot: "plain_elem e \<Longrightarrow> Join2 ''.'' e = e"
proof -
  assume e: "plain_elem e"
  have "\<not> IsAbs (''.'' @ CHR ''/'' # e)" by (simp add: IsAbs_def HasPrefix_def)
  moreover have "path_split (''.'' @ CHR ''/'' # e) = [''.'', e]"
    using e path_split_append_slash [of "''.''" e] by (simp add: path_split_noslash plain_elem_def)
  ultimately show ?thesis using e by (simp add: Join2_def Clean_def plain_elem_def)
qed

lemma strip_common_append: "strip_common bs ts = (bs', ts') \<Longrightarrow> \<exists>p. bs = p @ bs' \<and> ts = p @ ts'"
proof (induction bs ts rule: strip_common.induct)
  case (1 b bs t ts)
  then show ?case by (fastforce split: if_splits)
qed auto

subsection \<open>Absolute paths and the file system\<close>

text \<open>\<open>Abs\<close> asks for the current directory; \<open>Stat\<close> answers whatever the caller looks at.\<close>

definition filepath_Abs :: "string option \<Rightarrow> string \<Rightarrow> string option" where
  "filepath_Abs Getwd p = (if IsAbs p then Some (Clean p) else map_option (\<lambda>wd. Join2 wd p) Getwd)"

record 'f file_system =
  fs_Getwd :: "string option"
  fs_EvalSymlinks :: "string \<Rightarrow> string option"
  fs_Stat :: "string \<Rightarrow> 'f option"

lemma Clean_abs: "IsAbs p \<Longrightarrow> IsAbs (Clean p)"
  by (simp add: Clean_def IsAbs_iff)

lemma filepath_Abs_abs: "filepath_Abs wd p = Some q \<Longrightarrow> (\<And>d. wd = Some d \<Longrightarrow> IsAbs d) \<Longrightarrow> IsAbs q"
proof -
  have "IsAbs (d @ r)" if "IsAbs d" for d r using that by (cases d) (simp_all add: IsAbs_iff)
  then show "filepath_Abs wd p = Some q \<Longrightarrow> (\<And>d. wd = Some d \<Longrightarrow> IsAbs d) \<Longrightarrow> IsAbs q"
    by (auto simp: filepath_Abs_def Join2_def Clean_abs split: if_splits) (simp add: IsAbs_iff)
qed

end
