(* ===== verification/Workspace.thy ===== *)
theory Workspace
  imports GoJson Go_Path Coordinator
begin

section \<open>workspaceinstructions: bounded instruction files for the prompt\<close>

text \<open>
  The workspace-instructions prompt provider: option checks (config.go), resolution of the
  directory chain between boundary and root (workspace.go), admission of one file's content
  and the walk over the candidates (discover.go), the bounded section (render.go), the
  provider (provider.go) and its coordinator (coordinator.go). What the operating system
  answers (Lstat, Open, Stat, EvalSymlinks) is an argument of the definitions that ask it.
\<close>

subsection \<open>Constants and limits\<close>

definition renderVersion :: string where
  "renderVersion = ''workspace-instructions-render-v1''"

definition quote :: string where
  "quote = [CHR 0x22]"

definition newline :: string where
  "newline = [CHR 0x0A]"

definition sectionOpen :: string where
  "sectionOpen = ''<workspace_instructions version='' @ quote @ renderVersion @ quote @ ''>''"

definition sectionClose :: string where
  "sectionClose = ''</workspace_instructions>''"

definition fileOpenPrefix :: string where
  "fileOpenPrefix = ''<file path='' @ quote"

definition truncatedAttr :: string where
  "truncatedAttr = '' truncated='' @ quote @ ''true'' @ quote"

definition fileClose :: string where
  "fileClose = ''</file>''"

definition truncatedMarker :: string where
  "truncatedMarker = ''[truncated: file exceeds the configured limit]''"

definition omittedMarker :: string where
  "omittedMarker = ''[omitted: remaining instruction files exceed the configured section limit]''"

record ws_Limits =
  MaxFileNames :: int
  MaxChainDepth :: int
  MaxFileBytes :: int
  MaxSectionBytes :: int
  ws_MaxInFlight :: int
  ws_MaxWait :: int

subsection \<open>Rendering\<close>

record instructionFile =
  display :: string
  content :: string
  truncated :: bool

definition escapeAttribute :: "string \<Rightarrow> string" where
  "escapeAttribute value = concat (map (\<lambda>c.
     if c = CHR ''&'' then ''&amp;'' else if c = CHR 0x22 then ''&quot;''
     else if c = CHR ''<'' then ''&lt;'' else if c = CHR ''>'' then ''&gt;'' else [c]) value)"

definition renderedFile :: "instructionFile \<Rightarrow> string" where
  "renderedFile file =
     fileOpenPrefix @ escapeAttribute (display file) @ quote @
     (if truncated file then truncatedAttr else []) @ ''>'' @ newline @
     content file @ newline @
     (if truncated file then truncatedMarker @ newline else []) @
     fileClose @ newline"

definition appendFile :: "string \<Rightarrow> instructionFile \<Rightarrow> string" where
  "appendFile buffer file = buffer @ renderedFile file"

definition renderedFileSize :: "string \<Rightarrow> int \<Rightarrow> bool \<Rightarrow> int" where
  "renderedFileSize disp contentBytes trunc =
     len fileOpenPrefix + len (escapeAttribute disp) + 1 + 1 + 1 + contentBytes + 1 + len fileClose + 1
     + (if trunc then len truncatedAttr + len truncatedMarker + 1 else 0)"

record sectionSink =
  sinkBuffer :: string
  checkpoints :: "nat list"
  sinkLimit :: int
  started :: bool
  omitted :: bool

definition newSectionSink :: "int \<Rightarrow> sectionSink" where
  "newSectionSink limit = \<lparr>sinkBuffer = [], checkpoints = [], sinkLimit = limit, started = False, omitted = False\<rparr>"

text \<open>The roll-back loop; \<open>checkpoints\<close> has its last element first.\<close>

fun roll_back :: "int \<Rightarrow> string \<Rightarrow> nat list \<Rightarrow> string \<times> nat list" where
  "roll_back budget buffer [] = (buffer, [])"
| "roll_back budget buffer (p # ps) =
     (if len buffer > budget then roll_back budget (take p buffer) ps else (buffer, p # ps))"

definition sink_add :: "instructionFile \<Rightarrow> sectionSink \<Rightarrow> bool \<times> sectionSink" where
  "sink_add file sink =
     (if omitted sink then (False, sink)
      else
        let sink = (if started sink then sink
                    else sink\<lparr>started := True, sinkBuffer := sinkBuffer sink @ sectionOpen @ newline\<rparr>) in
        if len (sinkBuffer sink) + renderedFileSize (display file) (len (content file)) (truncated file)
             + len sectionClose \<le> sinkLimit sink
        then (True, sink\<lparr>checkpoints := length (sinkBuffer sink) # checkpoints sink,
                     sinkBuffer := appendFile (sinkBuffer sink) file\<rparr>)
        else
          let markerBudget = sinkLimit sink - len omittedMarker - 1 - len sectionClose;
              (b, ps) = roll_back markerBudget (sinkBuffer sink) (checkpoints sink)
          in (False, sink\<lparr>omitted := True, sinkBuffer := b, checkpoints := ps\<rparr>))"

definition sink_finish :: "sectionSink \<Rightarrow> string" where
  "sink_finish sink =
     (if \<not> started sink then []
      else sinkBuffer sink @ (if omitted sink then omittedMarker @ newline else []) @ sectionClose)"

definition displayPath :: "int \<Rightarrow> int \<Rightarrow> string \<Rightarrow> string" where
  "displayPath chainLength index fileName =
     (if index = chainLength - 1 then ''./'' @ fileName
      else concat (replicate (nat (chainLength - 1 - index)) ''../'') @ fileName)"

definition minimumSectionBytes :: "string list \<Rightarrow> ws_Limits \<Rightarrow> int" where
  "minimumSectionBytes fileNames limits =
     (let maximumDisplay = foldl (\<lambda>m fileName.
            let d = displayPath (MaxChainDepth limits) 0 fileName in
            if len (escapeAttribute d) > len (escapeAttribute m) then d else m) [] fileNames;
          fileSize = renderedFileSize maximumDisplay (MaxFileBytes limits) True
      in len sectionOpen + 1 + fileSize + len omittedMarker + 1 + len sectionClose)"

subsection \<open>Options\<close>

definition validFileName :: "string \<Rightarrow> bool" where
  "validFileName name =
     (if name = [] \<or> name = ''.'' \<or> name = ''..'' \<or> len name > 255 \<or> \<not> utf8_valid name then False
      else if ContainsAny name (''/'' @ [CHR 0x5C, CHR 0x5C] @ '':*?'' @ [CHR 0x22] @ ''<>|'') \<or> ContainsByte name (CHR 0x00)
      then False
      else \<not> list_ex (\<lambda>p. IsControl (fst p)) (runes name))"

fun check_names :: "string list \<Rightarrow> string list \<Rightarrow> bool" where
  "check_names seen [] = True"
| "check_names seen (name # names) =
     (if \<not> validFileName name then False
      else if List.member seen name then False
      else check_names (name # seen) names)"

definition validateFileNames :: "string list \<Rightarrow> int \<Rightarrow> string option" where
  "validateFileNames names configuredMax =
     (if names = [] \<or> configuredMax \<le> 0 \<or> len names > configuredMax then Some ''file-names''
      else if \<not> check_names [] names then Some ''file-names''
      else None)"

definition ws_validIdentity :: "string \<Rightarrow> bool" where
  "ws_validIdentity value =
     (if TrimSpace value = [] \<or> len value > 256 \<or> \<not> utf8_valid value \<or> ContainsByte value (CHR 0x00) then False
      else \<not> list_ex (\<lambda>p. IsControl (fst p)) (runes value))"

definition ws_validateLimits :: "string list \<Rightarrow> ws_Limits \<Rightarrow> string option" where
  "ws_validateLimits fileNames l =
     (if MaxFileNames l \<le> 0 \<or> MaxFileNames l > 16 then Some ''max-file-names''
      else if MaxChainDepth l \<le> 0 \<or> MaxChainDepth l > 64 then Some ''max-chain-depth''
      else if MaxFileBytes l \<le> 0 \<or> MaxFileBytes l > 512 * 1024 then Some ''max-file-bytes''
      else if MaxSectionBytes l > 1048576 \<or> MaxSectionBytes l < minimumSectionBytes fileNames l
      then Some ''max-section-bytes''
      else if ws_MaxInFlight l \<le> 0 \<or> ws_MaxInFlight l > 256 then Some ''max-in-flight''
      else if ws_MaxWait l \<le> 0 \<or> ws_MaxWait l > 600000000000 then Some ''max-wait''
      else None)"

record 'scope ws_Options =
  ws_Scope :: "'scope option"
  ws_Order :: int
  FileNames :: "string list option"
  ws_resolver_nil :: bool
  ResolverIdentity :: string
  ws_Limits :: ws_Limits

record 'scope ws_canonicalOptions =
  ws_scope :: 'scope
  ws_order :: int
  ws_fileNames :: "string list"
  ws_resolverIdentity :: string
  ws_limits :: ws_Limits

definition ws_canonicalize ::
  "'scope \<Rightarrow> ('scope \<Rightarrow> bool) \<Rightarrow> 'scope ws_Options \<Rightarrow> string + 'scope ws_canonicalOptions" where
  "ws_canonicalize GlobalScope ValidateScope options =
     (let scope = (case ws_Scope options of None \<Rightarrow> GlobalScope | Some s \<Rightarrow> s);
          order = (if ws_Order options = 0 then 100 else ws_Order options);
          names = (case FileNames options of None \<Rightarrow> [''AGENTS.md''] | Some ns \<Rightarrow> ns) in
      if \<not> ValidateScope scope then Inl ''scope''
      else case validateFileNames names 16 of
        Some code \<Rightarrow> Inl code
      | None \<Rightarrow>
          if ws_resolver_nil options then Inl ''resolver-required''
          else if \<not> ws_validIdentity (ResolverIdentity options) then Inl ''resolver-identity''
          else (case ws_validateLimits names (ws_Limits options) of
                  Some code \<Rightarrow> Inl code
                | None \<Rightarrow>
                    if len names > MaxFileNames (ws_Limits options) then Inl ''file-names''
                    else Inr \<lparr>ws_scope = scope, ws_order = order, ws_fileNames = names,
                              ws_resolverIdentity = ResolverIdentity options, ws_limits = ws_Limits options\<rparr>))"

subsection \<open>Discovery\<close>

definition admitContent :: "bytes \<Rightarrow> bool \<Rightarrow> int \<Rightarrow> (string \<times> bool) option" where
  "admitContent data sizeExceeded maxBytes =
     (let trunc = (sizeExceeded \<or> len data > maxBytes);
          data = (if len data > maxBytes then take (nat maxBytes) data else data);
          kept = (if utf8_valid data then Some data
                  else if \<not> trunc then None
                  else map_option (\<lambda>end'. take end' data)
                         (find (\<lambda>end'. utf8_valid (take end' data)) (rev [length data - 3..<length data])))
      in case kept of
           None \<Rightarrow> None
         | Some data \<Rightarrow>
             if ContainsByte data (CHR 0x00) then None
             else let content = trim_right data in if content = [] then None else Some (content, trunc))"

text \<open>What the operating system answers about one candidate, and when the context ended.\<close>

record finfo =
  regular :: bool
  identity :: nat
  fsize :: int

record read_obs =
  ro_ctx_err :: bool
  ro_open :: bool
  ro_stat :: "finfo option"
  ro_contents :: bytes
  ro_read_err :: bool
  ro_close_err :: bool

record candidate_obs =
  co_ctx_err :: bool
  co_lstat :: "finfo option"
  co_read :: read_obs
  co_ctx_err2 :: bool
  co_after :: "finfo option"

definition defaultReadCandidate :: "read_obs \<Rightarrow> int \<Rightarrow> call_error + bytes \<times> finfo option" where
  "defaultReadCandidate obs maxBytes =
     (if ro_ctx_err obs then Inl ContextError
      else if \<not> ro_open obs then Inl OperationError
      else case ro_stat obs of
        None \<Rightarrow> Inl OperationError
      | Some info \<Rightarrow>
          if \<not> regular info then Inr ([], None)
          else if ro_read_err obs then Inl OperationError
          else if ro_close_err obs then Inl OperationError
          else Inr (take (nat (maxBytes + 1)) (ro_contents obs), Some info))"

definition candidate_file :: "candidate_obs \<Rightarrow> ws_Limits \<Rightarrow> call_error + (string \<times> bool) option" where
  "candidate_file obs limits =
     (if co_ctx_err obs then Inl ContextError
      else case co_lstat obs of
        None \<Rightarrow> Inr None
      | Some info \<Rightarrow>
          if \<not> regular info then Inr None
          else (case defaultReadCandidate (co_read obs) (MaxFileBytes limits) of
                  Inl e \<Rightarrow> if co_ctx_err2 obs then Inl ContextError else Inr None
                | Inr (data, rinfo) \<Rightarrow>
                    (case (co_after obs, rinfo) of
                       (Some after, Some ri) \<Rightarrow>
                         if \<not> regular after \<or> \<not> regular ri \<or> identity info \<noteq> identity ri
                            \<or> identity ri \<noteq> identity after
                         then Inr None
                         else Inr (admitContent data (fsize ri > MaxFileBytes limits) (MaxFileBytes limits))
                     | _ \<Rightarrow> Inr None)))"

fun walk_candidates ::
  "(string \<Rightarrow> candidate_obs) \<Rightarrow> ws_Limits \<Rightarrow> int \<Rightarrow> (int \<times> string \<times> string) list \<Rightarrow> sectionSink
   \<Rightarrow> call_error + sectionSink" where
  "walk_candidates fs limits chainLength [] sink = Inr sink"
| "walk_candidates fs limits chainLength ((index, directory, fileName) # rest) sink =
     (case candidate_file (fs (Join2 directory fileName)) limits of
        Inl e \<Rightarrow> Inl e
      | Inr None \<Rightarrow> walk_candidates fs limits chainLength rest sink
      | Inr (Some (c, t)) \<Rightarrow>
          (case sink_add \<lparr>display = displayPath chainLength index fileName, content = c, truncated = t\<rparr> sink of
             (True, sink') \<Rightarrow> walk_candidates fs limits chainLength rest sink'
           | (False, sink') \<Rightarrow> Inr sink'))"

definition candidates :: "string list \<Rightarrow> string list \<Rightarrow> (int \<times> string \<times> string) list" where
  "candidates chain fileNames =
     concat (map (\<lambda>(i, d). map (\<lambda>n. (int i, d, n)) fileNames) (zip [0..<length chain] chain))"

record canonicalWorkspace =
  boundary :: string
  boundaryInfo :: nat
  chain :: "string list"

text \<open>\<open>openBoundary\<close>: the opened directory must still be the one that was resolved.\<close>

definition openBoundary :: "nat option \<Rightarrow> canonicalWorkspace \<Rightarrow> bool" where
  "openBoundary opened w \<longleftrightarrow> opened = Some (boundaryInfo w)"

definition walkInstructionFiles ::
  "nat option \<Rightarrow> (string \<Rightarrow> candidate_obs) \<Rightarrow> canonicalWorkspace \<Rightarrow> string list \<Rightarrow> ws_Limits \<Rightarrow> sectionSink
   \<Rightarrow> call_error + sectionSink" where
  "walkInstructionFiles opened fs w fileNames limits sink =
     (if \<not> openBoundary opened w then Inl (CodeError ''boundary'')
      else walk_candidates fs limits (len (chain w)) (candidates (chain w) fileNames) sink)"

definition renderWorkspace ::
  "nat option \<Rightarrow> (string \<Rightarrow> candidate_obs) \<Rightarrow> canonicalWorkspace \<Rightarrow> string list \<Rightarrow> ws_Limits \<Rightarrow> call_error + string" where
  "renderWorkspace opened fs w fileNames limits =
     (case walkInstructionFiles opened fs w fileNames limits (newSectionSink (MaxSectionBytes limits)) of
        Inl e \<Rightarrow> Inl e
      | Inr sink \<Rightarrow> Inr (sink_finish sink))"

subsection \<open>Workspace resolution\<close>

record ws_Workspace =
  Root :: string
  Boundary :: string
  Trusted :: bool

definition canonicalDirectory ::
  "(string \<Rightarrow> string option) \<Rightarrow> (string \<Rightarrow> (bool \<times> nat) option) \<Rightarrow> string \<Rightarrow> string \<Rightarrow> call_error + string \<times> nat" where
  "canonicalDirectory EvalSymlinks Stat value code =
     (if \<not> IsAbs value then Inl (CodeError code)
      else (case EvalSymlinks (Clean value) of
              None \<Rightarrow> Inl (CodeError code)
            | Some canonical \<Rightarrow>
                (case Stat canonical of
                   None \<Rightarrow> Inl (CodeError code)
                 | Some (isDir, ident) \<Rightarrow> if \<not> isDir then Inl (CodeError code) else Inr (canonical, ident))))"

fun chain_from :: "string \<Rightarrow> string list \<Rightarrow> string list" where
  "chain_from current [] = []"
| "chain_from current (part # parts) = (let current = Join2 current part in current # chain_from current parts)"

definition resolveWorkspace ::
  "(string \<Rightarrow> string option) \<Rightarrow> (string \<Rightarrow> (bool \<times> nat) option) \<Rightarrow> ws_Workspace \<Rightarrow> ws_Limits
   \<Rightarrow> call_error + canonicalWorkspace" where
  "resolveWorkspace EvalSymlinks Stat w limits =
     (case canonicalDirectory EvalSymlinks Stat (Root w) ''root'' of
        Inl e \<Rightarrow> Inl e
      | Inr (root, _) \<Rightarrow>
          (case canonicalDirectory EvalSymlinks Stat (if Boundary w = [] then Root w else Boundary w) ''boundary'' of
             Inl e \<Rightarrow> Inl e
           | Inr (bnd, info) \<Rightarrow>
               (case Rel bnd root of
                  None \<Rightarrow> Inl (CodeError ''boundary'')
                | Some rel \<Rightarrow>
                    if IsAbs rel \<or> rel = ''..'' \<or> HasPrefix rel ''../'' then Inl (CodeError ''boundary'')
                    else let ch = (if rel = ''.'' then [''.''] else ''.'' # chain_from [] (path_split rel)) in
                      if len ch > MaxChainDepth limits then Inl (CodeError ''chain-depth'')
                      else Inr \<lparr>boundary = bnd, boundaryInfo = info, chain = ch\<rparr>)))"

datatype resolver_result = ResolverReturned ws_Workspace | ResolverError | ResolverPanicked

definition callResolver :: "resolver_result \<Rightarrow> call_error + ws_Workspace" where
  "callResolver res =
     (case res of
        ResolverReturned w \<Rightarrow> Inr w
      | ResolverError \<Rightarrow> Inl (CodeError ''resolver'')
      | ResolverPanicked \<Rightarrow> Inl (CodeError ''resolver''))"

definition ws_work ::
  "(string \<Rightarrow> string option) \<Rightarrow> (string \<Rightarrow> (bool \<times> nat) option) \<Rightarrow> nat option \<Rightarrow> (string \<Rightarrow> candidate_obs)
   \<Rightarrow> resolver_result \<Rightarrow> 'scope ws_canonicalOptions \<Rightarrow> call_error + string" where
  "ws_work EvalSymlinks Stat opened fs res options =
     (case callResolver res of
        Inl e \<Rightarrow> Inl e
      | Inr w \<Rightarrow>
          if \<not> Trusted w \<or> Root w = [] then Inr []
          else (case resolveWorkspace EvalSymlinks Stat w (ws_limits options) of
                  Inl e \<Rightarrow> Inl e
                | Inr canonical \<Rightarrow> renderWorkspace opened fs canonical (ws_fileNames options) (ws_limits options)))"

subsection \<open>Coordinator\<close>

record 'c ws_coordinator = "'c coordinator" +
  ws_coord_limits :: ws_Limits

datatype ws_admission = ws_admitted "64 word" | rejectedClosed | rejectedSaturated

definition ws_newCoordinator :: "'scope ws_canonicalOptions \<Rightarrow> 'c ws_coordinator" where
  "ws_newCoordinator options =
     \<lparr>closing = False, closed = False, live = 0, nextID = 0, cancels = [], doneClosed = False,
      ws_coord_limits = ws_limits options\<rparr>"

definition ws_acquire :: "'c \<Rightarrow> 'c ws_coordinator \<Rightarrow> ws_admission \<times> 'c ws_coordinator" where
  "ws_acquire cancel c =
     (if closing c \<or> closed c then (rejectedClosed, c)
      else if live c \<ge> ws_MaxInFlight (ws_coord_limits c) then (rejectedSaturated, c)
      else let id = nextID c + 1 in
        (ws_admitted id, c\<lparr>nextID := id, live := live c + 1, cancels := AList.update id cancel (cancels c)\<rparr>))"

definition ws_release :: "64 word \<Rightarrow> 'c ws_coordinator \<Rightarrow> 'c ws_coordinator" where
  "ws_release i c =
     (let c = (if has_key (cancels c) i
               then c\<lparr>cancels := AList.delete i (cancels c), live := live c - 1\<rparr> else c) in
      if closing c \<and> live c = 0 then c\<lparr>closed := True, doneClosed := True\<rparr> else c)"

definition ws_Close :: "bool \<Rightarrow> 'c ws_coordinator \<Rightarrow> 'c close_step \<times> 'c ws_coordinator" where
  "ws_Close ctx_nil c =
     (if ctx_nil then (CloseReturns (Some (CodeError ''close-context'')), c)
      else if closed c then (CloseReturns None, c)
      else let c1 = c\<lparr>closing := True\<rparr>;
               c2 = (if live c1 = 0 then c1\<lparr>closed := True, doneClosed := True\<rparr> else c1)
           in (CloseAwaits (map snd (cancels c)), c2))"

definition ws_Close_state :: "'c ws_coordinator \<Rightarrow> 'c ws_coordinator" where
  "ws_Close_state c = snd (ws_Close False c)"

record ws_envelope =
  env_result :: "call_error + string"
  env_closing_cause :: bool

definition ws_resultBefore :: "ws_envelope \<Rightarrow> call_error + string" where
  "ws_resultBefore e = (if env_closing_cause e then Inl (CodeError ''closed'') else env_result e)"

datatype ws_work_result = WorkReturned "call_error + string" | WorkPanicked

definition ws_runWork ::
  "64 word \<Rightarrow> ws_work_result \<Rightarrow> int \<Rightarrow> bool \<Rightarrow> 'c ws_coordinator \<Rightarrow> (ws_envelope \<times> int) \<times> 'c ws_coordinator" where
  "ws_runWork i res now closingCause c =
     (let r = (case res of WorkReturned r \<Rightarrow> r | WorkPanicked \<Rightarrow> Inl (CodeError ''internal''))
      in ((\<lparr>env_result = r, env_closing_cause = closingCause\<rparr>, now), ws_release i c))"

fun ws_wait :: "int \<Rightarrow> ws_envelope wake list \<Rightarrow> string outcome" where
  "ws_wait deadline [] = Waiting"
| "ws_wait deadline (w # ws) =
     (if wake_ctx_done w then Returned (Inl ContextError)
      else if wake_ctx_err w then Returned (Inl ContextError)
      else (case wake_snapshot w of
              Some (envelope, completedAt) \<Rightarrow>
                if completedAt < deadline then Returned (ws_resultBefore envelope)
                else Returned (Inl (CodeError ''deadline''))
            | None \<Rightarrow>
                if deadline \<le> wake_now w then Returned (Inl (CodeError ''deadline'')) else ws_wait deadline ws))"

definition ws_run ::
  "bool \<times> bool \<times> bool \<Rightarrow> int \<Rightarrow> 'c \<Rightarrow> ws_envelope wake list \<Rightarrow> 'c ws_coordinator \<Rightarrow> string outcome \<times> 'c ws_coordinator" where
  "ws_run errs now cancel ws c =
     (case errs of (err0, err1, err2) \<Rightarrow>
      if err0 then (Returned (Inl ContextError), c)
      else let deadline = now + ws_MaxWait (ws_coord_limits c) in
        (case ws_acquire cancel c of
           (ws_admitted i, c1) \<Rightarrow>
             if err2 then (Returned (Inl ContextError), ws_release i c1) else (ws_wait deadline ws, c1)
         | (rejectedClosed, c1) \<Rightarrow>
             (Returned (Inl (if err1 then ContextError else CodeError ''closed'')), c1)
         | (rejectedSaturated, c1) \<Rightarrow>
             (Returned (Inl (if err1 then ContextError else CodeError ''saturated'')), c1)))"

definition ws_acquire_id :: "'c \<Rightarrow> 'c ws_coordinator \<Rightarrow> 64 word option \<times> 'c ws_coordinator" where
  "ws_acquire_id cancel c =
     (case ws_acquire cancel c of (ws_admitted i, c1) \<Rightarrow> (Some i, c1) | (_, c1) \<Rightarrow> (None, c1))"

definition ws_core :: "'c ws_coordinator \<Rightarrow> 'c coordinator" where
  "ws_core = coordinator.truncate"

definition ws_cap :: "'c ws_coordinator \<Rightarrow> int" where
  "ws_cap c = ws_MaxInFlight (ws_coord_limits c)"

interpretation ws_adm: admission ws_acquire_id ws_release ws_Close_state ws_core ws_cap
proof unfold_locales
qed (auto simp: ws_acquire_id_def ws_acquire_def ws_release_def ws_Close_state_def ws_Close_def ws_core_def ws_cap_def
    coordinator_core has_key_def Let_def delete_id split: if_splits)

interpretation ws_loop: deadline_loop ws_wait ws_resultBefore "Inl (CodeError ''deadline'')"
  by unfold_locales (auto simp: wake_canceled_def)

subsection \<open>Trimming keeps valid UTF-8 valid\<close>

text \<open>A byte sequence that is exactly one well-formed rune.\<close>

definition one_rune :: "bytes \<Rightarrow> bool" where
  "one_rune q \<longleftrightarrow> q \<noteq> [] \<and> rune_ok (decode_rune q) \<and> snd (decode_rune q) = length q"

lemma utf8_last:
  "utf8_valid s \<Longrightarrow> s \<noteq> [] \<Longrightarrow> \<exists>p q. s = p @ q \<and> utf8_valid p \<and> one_rune q"
proof (induction s rule: runes.induct)
  case (1 s)
  let ?n = "snd (decode_rune s)"
  let ?h = "take ?n s" and ?t = "drop ?n s"
  from 1(2,3) have ok: "rune_ok (decode_rune s)" and t: "utf8_valid ?t" by (simp_all add: utf8_valid_step)
  from decode_rune_size [OF 1(3)] have n: "1 \<le> ?n" "?n \<le> length s" by auto
  have h: "one_rune ?h"
    using decode_rune_take [OF 1(3) ok, of "[]"] ok n 1(3) by (auto simp: one_rune_def)
  show ?case
  proof (cases "?t = []")
    case True
    with h show ?thesis by (metis append_Nil append_Nil2 append_take_drop_id utf8_valid_Nil)
  next
    case False
    from 1(1) [OF 1(3) t False] obtain p q where "?t = p @ q" "utf8_valid p" "one_rune q" by blast
    moreover have "utf8_valid (?h @ p)"
      using utf8_valid_take_decode [OF 1(3) ok] \<open>utf8_valid p\<close> by (simp add: utf8_valid_append)
    ultimately show ?thesis by (metis append.assoc append_take_drop_id)
  qed
qed

lemma one_rune_bytes:
  assumes "one_rune q"
  shows "length q \<le> 4 \<and> (length q = 1 \<longrightarrow> byte (hd q) < 0x80)
    \<and> (1 < length q \<longrightarrow> rune_start (hd q) \<and> list_all cont_byte (tl q))"
proof -
  have sec: "cont_byte b" if "second_ok x b" for x b
    using that by (auto simp: second_ok_def cont_byte_def split: if_splits)
  from assms have "q \<noteq> []" "rune_ok (decode_rune q)" by (simp_all add: one_rune_def)
  then show ?thesis
    using assms sec
    by (cases q rule: decode_rune_cases) (auto simp: one_rune_def rune_start_def cont_byte_def)
qed

lemma find_skip: "\<forall>x \<in> set xs. \<not> P x \<Longrightarrow> find P (xs @ ys) = find P ys"
  by (induction xs) auto

lemma find_upt:
  assumes "P n" and "a \<le> n" and "n < b" and "\<And>k. a \<le> k \<Longrightarrow> k < n \<Longrightarrow> \<not> P k"
  shows "find P [a..<b] = Some n"
proof -
  have "[a..<b] = [a..<n] @ n # [Suc n..<b]"
    using assms(2,3) by (metis le_add_diff_inverse less_imp_le_nat upt_add_eq_append upt_conv_Cons)
  moreover have "\<forall>x \<in> set [a..<n]. \<not> P x" using assms(4) by auto
  ultimately show ?thesis using assms(1) by (simp add: find_skip)
qed

lemma decode_last_rune_append:
  assumes "one_rune q"
  shows "snd (decode_last_rune (p @ q)) = length q"
proof (cases "length q = 1")
  case True
  then obtain c where "q = [c]" by (metis length_0_conv length_Suc_conv One_nat_def)
  with one_rune_bytes [OF assms] show ?thesis by (simp add: decode_last_rune_def)
next
  case False
  let ?s = "p @ q" and ?n = "length q"
  have ne: "q \<noteq> []" using assms by (simp add: one_rune_def)
  then have "?n \<noteq> 0" by simp
  with False have "2 \<le> ?n" by linarith
  with ne have n: "2 \<le> ?n" "q \<noteq> []" by blast+
  note b = one_rune_bytes [OF assms]
  have nth: "?s ! (length ?s - k) = q ! (?n - k)" if "0 < k" "k \<le> ?n" for k
  proof -
    have "length ?s - k = length p + (?n - k)" using that by simp
    then show ?thesis by (simp only: nth_append_length_plus)
  qed
  have cont: "cont_byte (q ! i)" if "0 < i" "i < ?n" for i
    using b n that by (cases q; cases i) (auto simp: list_all_length)
  have "last ?s = q ! (?n - 1)" using n(2) by (metis last_appendR last_conv_nth)
  then have last: "cont_byte (last ?s)" using cont [of "?n - 1"] n by simp
  then have hi: "\<not> byte (last ?s) < 0x80" by (auto simp: cont_byte_def)
  have "rune_start (?s ! (length ?s - ?n))" using nth [of ?n] n b by (simp add: hd_conv_nth)
  moreover have "\<not> rune_start (?s ! (length ?s - k))" if "2 \<le> k" "k < ?n" for k
    using nth [of k] cont [of "?n - k"] that by (simp add: rune_start_def)
  moreover have "?n \<le> min 4 (length ?s)" using b by simp
  ultimately have f: "find (\<lambda>k. rune_start (?s ! (length ?s - k))) [2..<Suc (min 4 (length ?s))] = Some ?n"
    using n by (intro find_upt) auto
  have d: "drop (length ?s - ?n) ?s = q" by simp
  show ?thesis
    unfolding decode_last_rune_def f using n hi assms d by (simp add: one_rune_def Let_def)
qed

lemma trim_right_valid: "utf8_valid s \<Longrightarrow> utf8_valid (trim_right s)"
proof (induction s rule: trim_right.induct)
  case (1 s)
  show ?case
  proof (cases "s \<noteq> [] \<and> IsSpace (fst (decode_last_rune s))")
    case True
    from utf8_last [OF 1(2)] True obtain p q where s: "s = p @ q" "utf8_valid p" "one_rune q" by blast
    have "take (length s - snd (decode_last_rune s)) s = p"
      using decode_last_rune_append [OF s(3), of p] s(1) by simp
    with 1(1) True s(2) show ?thesis by (subst trim_right.simps) simp
  next
    case False
    with 1(2) show ?thesis by (subst trim_right.simps) auto
  qed
qed

lemma trim_right_prefix: "\<exists>r. s = trim_right s @ r"
proof (induction s rule: trim_right.induct)
  case (1 s)
  show ?case
  proof (cases "s \<noteq> [] \<and> IsSpace (fst (decode_last_rune s))")
    case True
    let ?n = "length s - snd (decode_last_rune s)"
    from 1 True obtain r where "take ?n s = trim_right (take ?n s) @ r" by blast
    then have "s = trim_right (take ?n s) @ r @ drop ?n s" by (metis append.assoc append_take_drop_id)
    moreover have "trim_right s = trim_right (take ?n s)" using True by (subst trim_right.simps) simp
    ultimately show ?thesis by metis
  next
    case False
    then show ?thesis by (subst trim_right.simps) auto
  qed
qed

subsection \<open>Admitted content\<close>

text \<open>
  content that \<open>admitContent\<close> lets through is a non-empty prefix of the bytes read, valid
  UTF-8 without NUL, at most the configured number of bytes, and marked as truncated exactly
  when the file was larger than the limit. A cut never splits a character.
\<close>

theorem admitContent_sound:
  assumes "admitContent data sizeExceeded maxBytes = Some (c, t)" and "0 \<le> maxBytes"
  shows "c \<noteq> [] \<and> utf8_valid c \<and> CHR 0x00 \<notin> set c \<and> len c \<le> maxBytes \<and> (\<exists>r. data = c @ r)
    \<and> (t \<longleftrightarrow> sizeExceeded \<or> maxBytes < len data)"
proof -
  define d where "d = (if len data > maxBytes then take (nat maxBytes) data else data)"
  have d: "len d \<le> maxBytes" "\<exists>r. data = d @ r"
    using assms(2) by (auto simp: d_def len_def) (metis append_take_drop_id)
  from assms(1) obtain k where k: "k = d \<or> (\<exists>n. k = take n d)" "utf8_valid k" "CHR 0x00 \<notin> set k"
    and c: "c = trim_right k" "c \<noteq> []" and t: "t \<longleftrightarrow> sizeExceeded \<or> maxBytes < len data"
    by (auto simp: admitContent_def Let_def d_def [symmetric] ContainsByte_def split: if_splits option.splits dest!: find_SomeD)
  from k(1) have kp: "\<exists>r. d = k @ r" "length k \<le> length d" by (auto, metis append_take_drop_id)
  from trim_right_prefix [of k] c obtain r where r: "k = c @ r" by auto
  then have cs: "set c \<subseteq> set k" "length c \<le> length k" by auto
  have "\<exists>r. data = c @ r" using d(2) kp(1) r by auto
  moreover have "len c \<le> maxBytes" using d(1) kp(2) cs(2) by (simp add: len_def)
  ultimately show ?thesis using c k cs t trim_right_valid [OF k(2)] by auto
qed

theorem admitContent_sound_witness:
  "admitContent ''ab cd'' False 3 = Some (''ab'', True) \<and> len ''ab'' \<le> 3 \<and> (\<exists>r. ''ab cd'' = ''ab'' @ r)"
proof -
  have a: "admitContent ''ab cd'' False 3 = Some (''ab'', True)"
    by (simp add: admitContent_def len_def utf8_eval ContainsByte_def)
  from admitContent_sound [OF a] a show ?thesis by simp
qed

subsection \<open>The rendered section\<close>

lemma len_append [simp]: "len (xs @ ys) = len xs + len ys"
  by (simp add: len_def)

lemma len_renderedFile: "len (renderedFile f) = renderedFileSize (display f) (len (content f)) (truncated f)"
  by (simp add: renderedFile_def renderedFileSize_def quote_def newline_def) (simp add: len_def)

definition files_text :: "instructionFile list \<Rightarrow> string" where
  "files_text fs = sectionOpen @ newline @ concat (map renderedFile fs)"

definition section_of :: "instructionFile list \<Rightarrow> bool \<Rightarrow> string" where
  "section_of fs om = files_text fs @ (if om then omittedMarker @ newline else []) @ sectionClose"

text \<open>Offsets of the files in the buffer, last first.\<close>

fun offsets :: "instructionFile list \<Rightarrow> nat list" where
  "offsets [] = []"
| "offsets (f # rs) = length (files_text (rev rs)) # offsets rs"

definition marker_room :: int where
  "marker_room = len omittedMarker + 1 + len sectionClose"

definition empty_fits :: "int \<Rightarrow> bool" where
  "empty_fits limit \<longleftrightarrow> len (files_text []) + marker_room \<le> limit"

lemma files_text_snoc: "files_text (fs @ [f]) = files_text fs @ renderedFile f"
  by (simp add: files_text_def)

lemma roll_back_files:
  assumes "empty_fits limit"
  shows "\<exists>k \<le> length rs. roll_back (limit - marker_room) (files_text (rev rs)) (offsets rs)
      = (files_text (rev (drop k rs)), offsets (drop k rs))
    \<and> len (files_text (rev (drop k rs))) + marker_room \<le> limit
    \<and> (\<forall>n. len (files_text (rev (drop n rs))) + marker_room \<le> limit \<longrightarrow> k \<le> n)"
proof (induction rs)
  case Nil
  with assms show ?case by (auto simp: empty_fits_def)
next
  case (Cons f rs)
  let ?b = "files_text (rev (f # rs))"
  have t: "take (length (files_text (rev rs))) ?b = files_text (rev rs)" by (simp add: files_text_snoc)
  show ?case
  proof (cases "len ?b > limit - marker_room")
    case False
    then show ?thesis by (intro exI [of _ 0]) simp
  next
    case True
    from Cons obtain k where k: "k \<le> length rs"
      "roll_back (limit - marker_room) (files_text (rev rs)) (offsets rs) = (files_text (rev (drop k rs)), offsets (drop k rs))"
      "len (files_text (rev (drop k rs))) + marker_room \<le> limit"
      "\<And>n. len (files_text (rev (drop n rs))) + marker_room \<le> limit \<Longrightarrow> k \<le> n" by blast
    have "Suc k \<le> n" if "len (files_text (rev (drop n (f # rs)))) + marker_room \<le> limit" for n
      using that True k(4) by (cases n) auto
    with k True t show ?thesis by (intro exI [of _ "Suc k"]) simp
  qed
qed

text \<open>
  The invariant of the sink while it has seen the admitted files \<open>fs\<close>: it holds all of them,
  or it has given up and holds a proper prefix that leaves room for the marker; the first file
  is in it whenever it fits together with the marker.
\<close>

definition sink_inv :: "int \<Rightarrow> instructionFile list \<Rightarrow> sectionSink \<Rightarrow> bool" where
  "sink_inv limit fs sink \<longleftrightarrow>
     sinkLimit sink = limit \<and>
     (if fs = [] then sink = newSectionSink limit
      else started sink \<and>
        (\<exists>k \<le> length fs. sinkBuffer sink = files_text (take k fs)
           \<and> (if omitted sink
              then k < length fs \<and> len (files_text (take k fs)) + marker_room \<le> limit
                \<and> (len (files_text (take 1 fs)) + marker_room \<le> limit \<longrightarrow> 1 \<le> k)
              else k = length fs \<and> checkpoints sink = offsets (rev fs)
                \<and> len (files_text fs) + len sectionClose \<le> limit)))"

lemma sink_add_inv:
  assumes inv: "sink_inv limit fs sink" and fits: "empty_fits limit" and om: "\<not> omitted sink"
    and add: "sink_add f sink = (go_on, sink')"
  shows "sink_inv limit (fs @ [f]) sink' \<and> (go_on \<longleftrightarrow> \<not> omitted sink')"
proof -
  define s1 where "s1 = (if started sink then sink
      else sink\<lparr>started := True, sinkBuffer := sinkBuffer sink @ sectionOpen @ newline\<rparr>)"
  have s1: "sinkLimit s1 = limit" "started s1" "\<not> omitted s1" "sinkBuffer s1 = files_text fs"
    "checkpoints s1 = offsets (rev fs)"
    using inv om by (auto simp: sink_inv_def s1_def newSectionSink_def files_text_def split: if_splits)
  have size: "len (sinkBuffer s1) + renderedFileSize (display f) (len (content f)) (truncated f) + len sectionClose
      = len (files_text (fs @ [f])) + len sectionClose"
    by (simp add: s1 files_text_snoc len_renderedFile)
  show ?thesis
  proof (cases "len (files_text (fs @ [f])) + len sectionClose \<le> limit")
    case True
    have "sink_add f sink = (True, s1\<lparr>checkpoints := length (sinkBuffer s1) # checkpoints s1,
                     sinkBuffer := appendFile (sinkBuffer s1) f\<rparr>)"
      unfolding sink_add_def s1_def [symmetric] Let_def using om True size s1(1) by simp
    with add True s1 show ?thesis
      by (auto simp: sink_inv_def appendFile_def files_text_snoc)
  next
    case False
    have budget: "sinkLimit s1 - len omittedMarker - 1 - len sectionClose = limit - marker_room"
      by (simp add: s1 marker_room_def)
    from roll_back_files [OF fits, of "rev fs"] obtain k where k: "k \<le> length fs"
      "roll_back (limit - marker_room) (files_text fs) (offsets (rev fs)) = (files_text (rev (drop k (rev fs))), offsets (drop k (rev fs)))"
      "len (files_text (rev (drop k (rev fs)))) + marker_room \<le> limit"
      "\<And>n. len (files_text (rev (drop n (rev fs)))) + marker_room \<le> limit \<Longrightarrow> k \<le> n" by auto
    define j where "j = length fs - k"
    have j: "rev (drop k (rev fs)) = take j fs" by (simp add: j_def rev_drop)
    have sink': "go_on = False" "sink' = s1\<lparr>omitted := True, sinkBuffer := files_text (take j fs),
        checkpoints := offsets (drop k (rev fs))\<rparr>"
      using add om False size s1 k(2) unfolding sink_add_def s1_def [symmetric] Let_def budget
      by (simp_all add: j)
    have first: "1 \<le> j" if "len (files_text (take 1 (fs @ [f]))) + marker_room \<le> limit"
    proof (cases "fs = []")
      case True
      have "len sectionClose \<le> marker_room" by (simp add: marker_room_def)
      with that True False show ?thesis by simp
    next
      case ne: False
      have "rev (drop (length fs - 1) (rev fs)) = take 1 fs" using ne by (simp add: rev_drop Suc_le_eq)
      moreover have "take 1 (fs @ [f]) = take 1 fs" using ne by (cases fs) simp_all
      ultimately have "k \<le> length fs - 1" using that k(4) [of "length fs - 1"] by simp
      moreover have "0 < length fs" using ne by simp
      ultimately show ?thesis unfolding j_def by linarith
    qed
    have "j \<le> length fs" by (simp add: j_def)
    then have "take j (fs @ [f]) = take j fs" by simp
    with sink' s1 k(3) first \<open>j \<le> length fs\<close> show ?thesis
      by (auto simp: sink_inv_def j intro!: exI [of _ j])
  qed
qed

text \<open>The files that the observations admit, in the order of the candidates.\<close>

definition admitted_files ::
  "(string \<Rightarrow> candidate_obs) \<Rightarrow> ws_Limits \<Rightarrow> int \<Rightarrow> (int \<times> string \<times> string) list \<Rightarrow> instructionFile list" where
  "admitted_files fs limits chainLength cs =
     concat (map (\<lambda>(index, directory, fileName).
       (case candidate_file (fs (Join2 directory fileName)) limits of
          Inr (Some (c, t)) \<Rightarrow> [\<lparr>display = displayPath chainLength index fileName, content = c, truncated = t\<rparr>]
        | _ \<Rightarrow> [])) cs)"

lemma sink_inv_more:
  assumes "sink_inv limit xs sink" and "omitted sink"
  shows "sink_inv limit (xs @ ys) sink"
proof -
  have "\<not> omitted (newSectionSink limit)" by (simp add: newSectionSink_def)
  with assms have ne: "xs \<noteq> []" by (auto simp: sink_inv_def)
  with assms obtain k where k: "k < length xs" "sinkBuffer sink = files_text (take k xs)"
    "len (files_text (take k xs)) + marker_room \<le> limit"
    "len (files_text (take 1 xs)) + marker_room \<le> limit \<longrightarrow> 1 \<le> k"
    by (auto simp: sink_inv_def)
  have t: "take k (xs @ ys) = take k xs" "take 1 (xs @ ys) = take 1 xs"
    using k(1) by simp_all
  show ?thesis
    using assms ne k t unfolding sink_inv_def by (auto intro!: exI [of _ k])
qed

lemma walk_candidates_inv:
  assumes "walk_candidates fs limits cl cs sink = Inr sink'" and "sink_inv limit xs sink" and "\<not> omitted sink"
    and "empty_fits limit"
  shows "sink_inv limit (xs @ admitted_files fs limits cl cs) sink'"
  using assms
proof (induction cs arbitrary: sink xs)
  case Nil
  then show ?case by (simp add: admitted_files_def)
next
  case (Cons cand cs)
  obtain i d n where cand: "cand = (i, d, n)" by (cases cand)
  show ?case
  proof (cases "candidate_file (fs (Join2 d n)) limits")
    case (Inl e)
    with Cons.prems(1) cand show ?thesis by simp
  next
    case (Inr r)
    show ?thesis
    proof (cases r)
      case None
      with Inr Cons cand show ?thesis by (simp add: admitted_files_def)
    next
      case (Some p)
      obtain c t where p: "p = (c, t)" by (cases p)
      let ?f = "\<lparr>display = displayPath cl i n, content = c, truncated = t\<rparr>"
      obtain go_on s1 where s1: "sink_add ?f sink = (go_on, s1)" by (cases "sink_add ?f sink")
      note inv = sink_add_inv [OF Cons.prems(2,4,3) s1]
      have adm: "admitted_files fs limits cl (cand # cs) = ?f # admitted_files fs limits cl cs"
        using Inr Some p cand by (simp add: admitted_files_def)
      show ?thesis
      proof (cases go_on)
        case True
        with Cons.prems(1) Inr Some p cand s1 have "walk_candidates fs limits cl cs s1 = Inr sink'" by simp
        from Cons.IH [OF this _ _ Cons.prems(4), of "xs @ [?f]"] inv True adm show ?thesis by simp
      next
        case False
        with Cons.prems(1) Inr Some p cand s1 have "s1 = sink'" by simp
        with inv False sink_inv_more [of limit "xs @ [?f]" sink' "admitted_files fs limits cl cs"] adm
        show ?thesis by simp
      qed
    qed
  qed
qed

lemma sink_finish_section:
  assumes "sink_inv limit fs sink" and "empty_fits limit"
  shows "fs = [] \<and> sink_finish sink = [] \<or>
    (\<exists>k \<le> length fs. sink_finish sink = section_of (take k fs) (k < length fs) \<and> fs \<noteq> []
       \<and> len (sink_finish sink) \<le> limit
       \<and> (len (files_text (take 1 fs)) + marker_room \<le> limit \<longrightarrow> 1 \<le> k))"
proof (cases "fs = []")
  case True
  with assms show ?thesis by (simp add: sink_inv_def newSectionSink_def sink_finish_def)
next
  case False
  with assms obtain k where k: "k \<le> length fs" "started sink" "sinkBuffer sink = files_text (take k fs)"
    "if omitted sink
     then k < length fs \<and> len (files_text (take k fs)) + marker_room \<le> limit
       \<and> (len (files_text (take 1 fs)) + marker_room \<le> limit \<longrightarrow> 1 \<le> k)
     else k = length fs \<and> checkpoints sink = offsets (rev fs) \<and> len (files_text fs) + len sectionClose \<le> limit"
    by (auto simp: sink_inv_def)
  have fin: "sink_finish sink = section_of (take k fs) (k < length fs)"
    using k by (cases "omitted sink") (simp_all add: sink_finish_def section_of_def)
  have "len (sink_finish sink) \<le> limit"
    using k(4) fin by (cases "omitted sink") (simp_all add: section_of_def marker_room_def newline_def len_def)
  moreover have "1 \<le> k" if "len (files_text (take 1 fs)) + marker_room \<le> limit"
    using k(4) that False by (cases "omitted sink") (simp_all add: Suc_le_eq)
  ultimately show ?thesis using k(1) fin False by blast
qed

text \<open>The display paths of a chain are no longer than the one the minimum is computed from.\<close>

definition display_width :: "string \<Rightarrow> int" where
  "display_width d = len (escapeAttribute d)"

definition wider :: "ws_Limits \<Rightarrow> string \<Rightarrow> string \<Rightarrow> string" where
  "wider limits m fileName =
     (let d = displayPath (MaxChainDepth limits) 0 fileName in
      if len (escapeAttribute d) > len (escapeAttribute m) then d else m)"

lemma escapeAttribute_append: "escapeAttribute (a @ b) = escapeAttribute a @ escapeAttribute b"
  by (simp add: escapeAttribute_def)

lemma width_dots: "display_width (concat (replicate n ''../'') @ s) = 3 * int n + display_width s"
  by (induction n) (simp_all add: display_width_def escapeAttribute_append escapeAttribute_def, simp_all add: len_def)

lemma width_displayPath:
  assumes "0 \<le> i" and "i < cl"
  shows "display_width (displayPath cl i n) = (if i = cl - 1 then 2 else 3 * (cl - 1 - i)) + display_width n"
  using assms width_dots [of "nat (cl - 1 - i)" n]
  by (auto simp: displayPath_def) (simp add: display_width_def escapeAttribute_def len_def)

lemma width_bound:
  assumes "0 \<le> i" and "i < cl" and "cl \<le> d"
  shows "display_width (displayPath cl i n) \<le> display_width (displayPath d 0 n)"
  using assms width_displayPath [of i cl n] width_displayPath [of 0 d n] by auto

lemma foldl_wider:
  "display_width m \<le> display_width (foldl (wider limits) m names) \<and>
   (\<forall>n \<in> set names. display_width (displayPath (MaxChainDepth limits) 0 n) \<le> display_width (foldl (wider limits) m names))"
proof (induction names arbitrary: m)
  case (Cons n names)
  have "display_width m \<le> display_width (wider limits m n)"
    "display_width (displayPath (MaxChainDepth limits) 0 n) \<le> display_width (wider limits m n)"
    by (simp_all add: wider_def Let_def display_width_def)
  with Cons.IH [of "wider limits m n"] show ?case by auto
qed simp

lemma minimumSectionBytes_wider:
  "minimumSectionBytes names limits =
     len sectionOpen + 1 + renderedFileSize (foldl (wider limits) [] names) (MaxFileBytes limits) True + marker_room"
  unfolding minimumSectionBytes_def wider_def [abs_def] Let_def marker_room_def by simp

lemma file_in_minimum:
  assumes "0 \<le> i" and "i < cl" and "cl \<le> MaxChainDepth limits" and "n \<in> set names" and "len c \<le> MaxFileBytes limits"
  shows "len (files_text [\<lparr>display = displayPath cl i n, content = c, truncated = t\<rparr>]) + marker_room
    \<le> minimumSectionBytes names limits"
proof -
  have "display_width (displayPath cl i n) \<le> display_width (foldl (wider limits) [] names)"
    using width_bound [OF assms(1-3), of n] foldl_wider [of "[]" limits names] assms(4) by force
  moreover have "0 \<le> len truncatedAttr" "0 \<le> len truncatedMarker" "len newline = 1"
    by (simp_all add: len_def newline_def)
  ultimately have "len (renderedFile \<lparr>display = displayPath cl i n, content = c, truncated = t\<rparr>)
      \<le> renderedFileSize (foldl (wider limits) [] names) (MaxFileBytes limits) True"
    using assms(5) unfolding len_renderedFile renderedFileSize_def display_width_def
    by (simp only: instructionFile.simps if_True split: if_split) linarith
  with \<open>len newline = 1\<close> show ?thesis by (simp add: files_text_def minimumSectionBytes_wider)
qed

lemma minimum_empty_fits:
  assumes "minimumSectionBytes names limits \<le> limit" and "0 \<le> MaxFileBytes limits"
  shows "empty_fits limit"
  using assms by (simp add: empty_fits_def files_text_def newline_def minimumSectionBytes_wider renderedFileSize_def)
    (simp add: len_def)

text \<open>What \<open>candidate_file\<close> admits was a regular file throughout, and within the byte limit.\<close>

lemma candidate_file_Some:
  assumes "candidate_file obs limits = Inr (Some (c, t))" and "0 \<le> MaxFileBytes limits"
  obtains info rinfo after where "co_lstat obs = Some info" "ro_stat (co_read obs) = Some rinfo" "co_after obs = Some after"
    "regular info" "regular rinfo" "regular after" "identity info = identity rinfo" "identity rinfo = identity after"
    "admitContent (take (nat (MaxFileBytes limits + 1)) (ro_contents (co_read obs)))
       (fsize rinfo > MaxFileBytes limits) (MaxFileBytes limits) = Some (c, t)"
proof -
  from assms(1) obtain info where info: "co_lstat obs = Some info" "regular info"
    by (auto simp: candidate_file_def split: if_splits option.splits)
  from assms(1) info obtain data rinfo after where
    d: "defaultReadCandidate (co_read obs) (MaxFileBytes limits) = Inr (data, Some rinfo)" "co_after obs = Some after"
       "regular after" "regular rinfo" "identity info = identity rinfo" "identity rinfo = identity after"
       "admitContent data (fsize rinfo > MaxFileBytes limits) (MaxFileBytes limits) = Some (c, t)"
    by (auto simp: candidate_file_def split: if_splits option.splits sum.splits)
  from d(1) have "data = take (nat (MaxFileBytes limits + 1)) (ro_contents (co_read obs))"
    "ro_stat (co_read obs) = Some rinfo"
    by (auto simp: defaultReadCandidate_def split: if_splits option.splits)
  with that info d show thesis by blast
qed

lemma candidates_index:
  "(i, d, n) \<in> set (candidates ch names) \<Longrightarrow> 0 \<le> i \<and> i < len ch \<and> d = ch ! nat i \<and> n \<in> set names"
  by (auto simp: candidates_def len_def set_zip)

lemma admitted_mem:
  assumes "f \<in> set (admitted_files fs limits cl cs)"
  obtains i d n c t where "(i, d, n) \<in> set cs" "candidate_file (fs (Join2 d n)) limits = Inr (Some (c, t))"
    "f = \<lparr>display = displayPath cl i n, content = c, truncated = t\<rparr>"
  using assms by (auto simp: admitted_files_def split: sum.splits option.splits)

text \<open>Options that \<open>ws_canonicalize\<close> accepts leave room for the largest single file.\<close>

lemma ws_canonical_limits:
  assumes "ws_canonicalize G V options = Inr co"
  shows "0 < MaxFileBytes (ws_limits co) \<and> 0 < MaxChainDepth (ws_limits co)
    \<and> minimumSectionBytes (ws_fileNames co) (ws_limits co) \<le> MaxSectionBytes (ws_limits co)"
proof -
  from assms have "ws_validateLimits (ws_fileNames co) (ws_limits co) = None"
    by (auto simp: ws_canonicalize_def Let_def split: if_splits option.splits)
  then show ?thesis by (auto simp: ws_validateLimits_def not_le split: if_splits)
qed

text \<open>
  C14: the rendered section. For accepted options, a section that is returned holds, in the
  order of the candidates, a prefix of the files that were admitted, with the omission marker
  exactly when files were left out; it stays within the section limit, it is empty exactly when
  no file was admitted, and otherwise it holds at least the first file.
\<close>

theorem ws_section_bounded:
  assumes "ws_canonicalize G V options = Inr co"
    and "len (chain w) \<le> MaxChainDepth (ws_limits co)"
    and "renderWorkspace opened fs w (ws_fileNames co) (ws_limits co) = Inr text"
  shows "let files = admitted_files fs (ws_limits co) (len (chain w)) (candidates (chain w) (ws_fileNames co)) in
    len text \<le> MaxSectionBytes (ws_limits co) \<and>
    (if files = [] then text = []
     else \<exists>k. 1 \<le> k \<and> k \<le> length files \<and> text = section_of (take k files) (k < length files))"
proof -
  let ?l = "ws_limits co" and ?n = "ws_fileNames co"
  define cs where "cs = candidates (chain w) ?n"
  define files where "files = admitted_files fs ?l (len (chain w)) cs"
  note lims = ws_canonical_limits [OF assms(1)]
  let ?limit = "MaxSectionBytes ?l"
  have fits: "empty_fits ?limit" using minimum_empty_fits [of ?n ?l ?limit] lims by simp
  from assms(3) obtain sink where
    sink: "walk_candidates fs ?l (len (chain w)) cs (newSectionSink ?limit) = Inr sink" "text = sink_finish sink"
    by (auto simp: renderWorkspace_def walkInstructionFiles_def cs_def split: if_splits sum.splits)
  have "sink_inv ?limit [] (newSectionSink ?limit)" "\<not> omitted (newSectionSink ?limit)"
    by (simp_all add: sink_inv_def newSectionSink_def)
  from walk_candidates_inv [OF sink(1) this fits] have inv: "sink_inv ?limit files sink"
    by (simp add: files_def)
  have first: "len (files_text (take 1 files)) + marker_room \<le> ?limit" if ne: "files \<noteq> []"
  proof -
    obtain f fr where f: "files = f # fr" using ne by (cases files) auto
    then have "f \<in> set (admitted_files fs ?l (len (chain w)) cs)" by (simp add: files_def)
    then obtain i d n c t where m: "(i, d, n) \<in> set cs" "candidate_file (fs (Join2 d n)) ?l = Inr (Some (c, t))"
      "f = \<lparr>display = displayPath (len (chain w)) i n, content = c, truncated = t\<rparr>" by (rule admitted_mem)
    from candidate_file_Some [OF m(2)] lims admitContent_sound have "len c \<le> MaxFileBytes ?l"
      by (metis less_imp_le)
    with file_in_minimum [of i "len (chain w)" ?l n ?n c t] candidates_index [of i d n] m assms(2) lims f show ?thesis
      by (auto simp: cs_def)
  qed
  have "0 \<le> ?limit" using fits by (simp add: empty_fits_def marker_room_def len_def)
  with sink_finish_section [OF inv fits] first sink(2) show ?thesis
    unfolding Let_def cs_def [symmetric] files_def [symmetric] by (cases "files = []") (auto simp: len_def)
qed

definition ws_example_options :: "unit ws_Options" where
  "ws_example_options = \<lparr>ws_Scope = None, ws_Order = 0, FileNames = None, ws_resolver_nil = False,
     ResolverIdentity = ''local'',
     ws_Limits = \<lparr>MaxFileNames = 2, MaxChainDepth = 2, MaxFileBytes = 8, MaxSectionBytes = 400,
       ws_MaxInFlight = 1, ws_MaxWait = 10\<rparr>\<rparr>"

definition ws_example_obs :: "string \<Rightarrow> candidate_obs" where
  "ws_example_obs p =
     (let info = \<lparr>regular = True, identity = 7, fsize = 3\<rparr> in
      \<lparr>co_ctx_err = False, co_lstat = Some info,
       co_read = \<lparr>ro_ctx_err = False, ro_open = True, ro_stat = Some info, ro_contents = ''be '',
                   ro_read_err = False, ro_close_err = False\<rparr>,
       co_ctx_err2 = False, co_after = Some info\<rparr>)"

lemmas ws_section_eval = sectionOpen_def sectionClose_def fileOpenPrefix_def truncatedAttr_def fileClose_def truncatedMarker_def
  omittedMarker_def renderVersion_def quote_def newline_def

lemma ws_example_canonical:
  "ws_canonicalize () (\<lambda>_. True) ws_example_options
     = Inr \<lparr>ws_scope = (), ws_order = 100, ws_fileNames = [''AGENTS.md''], ws_resolverIdentity = ''local'',
            ws_limits = ws_Limits ws_example_options\<rparr>"
proof -
  have v: "validFileName ''AGENTS.md''"
    by (simp add: validFileName_def len_def utf8_eval ContainsAny_def ContainsByte_def IsControl_def)
  have i: "ws_validIdentity ''local''"
    by (simp add: ws_validIdentity_def utf8_eval len_def ContainsByte_def IsControl_def)
  have "ws_validateLimits [''AGENTS.md''] (ws_Limits ws_example_options) = None"
    by (simp add: ws_validateLimits_def ws_example_options_def minimumSectionBytes_def renderedFileSize_def Let_def
        displayPath_def escapeAttribute_def len_def ws_section_eval)
  with v i show ?thesis
    by (simp add: ws_canonicalize_def ws_example_options_def validateFileNames_def len_def)
qed

theorem ws_section_bounded_witness:
  "\<exists>text. renderWorkspace (Some 1) ws_example_obs \<lparr>boundary = ''/w'', boundaryInfo = 1, chain = [''.'']\<rparr>
       [''AGENTS.md''] (ws_Limits ws_example_options) = Inr text \<and> text \<noteq> [] \<and> len text \<le> 400"
proof -
  let ?w = "\<lparr>boundary = ''/w'', boundaryInfo = 1, chain = [''.'']\<rparr>" and ?l = "ws_Limits ws_example_options"
  have c: "candidate_file (ws_example_obs (Join2 ''.'' ''AGENTS.md'')) ?l = Inr (Some (''be'', False))"
    by (simp add: candidate_file_def ws_example_obs_def ws_example_options_def defaultReadCandidate_def
        admitContent_def len_def utf8_eval ContainsByte_def Let_def)
  have cs: "candidates [''.''] [''AGENTS.md''] = [(0, ''.'', ''AGENTS.md'')]" by (simp add: candidates_def)
  obtain out where t: "renderWorkspace (Some 1) ws_example_obs ?w [''AGENTS.md''] ?l = Inr out"
    by (cases "sink_add \<lparr>display = displayPath (len [''.'']) 0 ''AGENTS.md'', content = ''be'', truncated = False\<rparr>
          (newSectionSink (MaxSectionBytes ?l))" rule: prod.exhaust [case_product bool.exhaust])
      (auto simp: renderWorkspace_def walkInstructionFiles_def openBoundary_def cs c split: bool.splits)
  have f: "admitted_files ws_example_obs ?l (len [''.'']) (candidates [''.''] [''AGENTS.md'']) \<noteq> []"
    by (simp add: admitted_files_def cs c)
  have d: "len [''.''] \<le> MaxChainDepth ?l" by (simp add: len_def ws_example_options_def)
  have lim: "MaxSectionBytes ?l = 400" by (simp add: ws_example_options_def)
  from ws_section_bounded [OF ws_example_canonical, of ?w "Some 1" ws_example_obs out] t d f lim
  show ?thesis by (auto simp: Let_def section_of_def files_text_def ws_section_eval)
qed

subsection \<open>The directory chain\<close>

lemma chain_from_plain:
  "\<forall>e \<in> set ds. plain_elem e \<Longrightarrow> \<forall>e \<in> set es. plain_elem e \<Longrightarrow>
   chain_from (path_concat ds) es = map (\<lambda>k. path_concat (ds @ take (Suc k) es)) [0..<length es]"
proof (induction es arbitrary: ds)
  case (Cons e es)
  then have "Join2 (path_concat ds) e = path_concat (ds @ [e])" by (simp add: Join2_plain)
  with Cons.IH [of "ds @ [e]"] Cons.prems show ?case
    by (simp add: Let_def upt_conv_Cons map_Suc_upt [symmetric] del: upt_Suc)
qed simp

lemma path_elems_plain: "IsAbs p \<Longrightarrow> \<forall>e \<in> set (path_elems p). plain_elem e"
  using clean_elems_rooted [of "[]" "path_split p"] path_split_elem by (auto simp: path_elems_def)

lemma Rel_below:
  assumes "Rel base targ = Some rel" and "IsAbs base" and "IsAbs targ"
    and "rel \<noteq> ''..''" and "\<not> HasPrefix rel ''../''"
  obtains es where "path_elems targ = path_elems base @ es" "\<forall>e \<in> set es. plain_elem e"
    "rel = (if es = [] then ''.'' else path_concat es)"
proof (cases "Clean base = Clean targ")
  case True
  have "es = es'" if "\<forall>e \<in> set es. plain_elem e" "\<forall>e \<in> set es'. plain_elem e" "path_concat es = path_concat es'" for es es'
    using that path_split_concat [of es] path_split_concat [of es'] path_concat_noslash_hd [of es] path_concat_noslash_hd [of es']
    by (metis path_concat.simps(1) plain_elem_def)
  with True assms(2,3) path_elems_plain [OF assms(2)] path_elems_plain [OF assms(3)]
  have "path_elems targ = path_elems base @ []" by (auto simp: Clean_def path_elems_def Let_def)
  with True assms(1) that [of "[]"] show thesis by (simp add: Rel_def)
next
  case False
  obtain bs ts where st: "strip_common (path_elems base) (path_elems targ) = (bs, ts)" by (cases "strip_common (path_elems base) (path_elems targ)")
  with False assms(1-3) have rel: "rel = path_concat (replicate (length bs) ''..'' @ ts)"
    by (auto simp: Rel_def split: if_splits)
  have "bs = []"
  proof (rule ccontr)
    assume "bs \<noteq> []"
    then obtain n where "length bs = Suc n" by (cases bs) auto
    with rel assms(4,5) show False
      by (cases "replicate n ''..'' @ ts") (auto simp: HasPrefix_def)
  qed
  with strip_common_append [OF st] have e: "path_elems targ = path_elems base @ ts" by auto
  then have "ts \<noteq> []" using False assms(2,3) by (auto simp: Clean_def path_elems_def Let_def)
  with that [OF e] path_elems_plain [OF assms(3)] e rel \<open>bs = []\<close> show thesis by auto
qed

text \<open>
  C24: the directories that are searched. When \<open>EvalSymlinks\<close> keeps absolute paths absolute, a
  resolved workspace has its canonical root below its boundary, which is the configured one with its links
  followed, or the root where none is configured, and its chain lists
  the boundary itself and then, one element at a time, every directory down to the root, none
  of them with a dot-dot element, and no more of them than the configured depth.
\<close>

theorem resolveWorkspace_chain:
  assumes abs: "\<And>p q. IsAbs p \<Longrightarrow> EvalSymlinks p = Some q \<Longrightarrow> IsAbs q"
    and res: "resolveWorkspace EvalSymlinks Stat w limits = Inr cw"
  shows "\<exists>root es. EvalSymlinks (Clean (Root w)) = Some root
    \<and> EvalSymlinks (Clean (if Boundary w = [] then Root w else Boundary w)) = Some (boundary cw)
    \<and> path_elems root = path_elems (boundary cw) @ es \<and> (\<forall>e \<in> set es. plain_elem e)
    \<and> chain cw = ''.'' # map (\<lambda>k. path_concat (take (Suc k) es)) [0..<length es]
    \<and> len (chain cw) \<le> MaxChainDepth limits"
proof -
  have Clean_abs: "IsAbs (Clean p)" if "IsAbs p" for p using that by (simp add: Clean_def IsAbs_iff)
  have canon: "EvalSymlinks (Clean v) = Some q \<and> IsAbs q" if "canonicalDirectory EvalSymlinks Stat v code = Inr (q, i)" for v code q i
    using that abs [of "Clean v" q] Clean_abs [of v] by (auto simp: canonicalDirectory_def split: if_splits option.splits)
  define b where "b = (if Boundary w = [] then Root w else Boundary w)"
  note res' = res [unfolded resolveWorkspace_def b_def [symmetric]]
  from res' obtain root ri where r1: "canonicalDirectory EvalSymlinks Stat (Root w) ''root'' = Inr (root, ri)"
    by (cases "canonicalDirectory EvalSymlinks Stat (Root w) ''root''") auto
  with res' obtain bnd info where r2: "canonicalDirectory EvalSymlinks Stat b ''boundary'' = Inr (bnd, info)"
    by (cases "canonicalDirectory EvalSymlinks Stat b ''boundary''") auto
  with res' r1 obtain rel where r3: "Rel bnd root = Some rel" by (cases "Rel bnd root") auto
  with res' r1 r2 have r4: "rel \<noteq> ''..''" "\<not> HasPrefix rel ''../''"
    by (simp_all split: if_split_asm)
  with res' r1 r2 r3 have r5: "boundary cw = bnd" "len (chain cw) \<le> MaxChainDepth limits"
    "chain cw = (if rel = ''.'' then [''.''] else ''.'' # chain_from [] (path_split rel))"
    by (auto simp add: Let_def not_less simp del: chain_from.simps split: if_split_asm)
  obtain es where es: "path_elems root = path_elems bnd @ es" "\<forall>e \<in> set es. plain_elem e"
    "rel = (if es = [] then ''.'' else path_concat es)"
    using Rel_below [OF r3 conjunct2 [OF canon [OF r2]] conjunct2 [OF canon [OF r1]] r4] by blast
  have "chain cw = ''.'' # map (\<lambda>k. path_concat (take (Suc k) es)) [0..<length es]"
  proof (cases "es = []")
    case True
    with es(3) r5(3) show ?thesis by simp
  next
    case False
    have slash: "\<forall>e \<in> set es. CHR ''/'' \<notin> set e" using es(2) by (simp add: plain_elem_def)
    have rel: "rel = path_concat es" using es(3) False by simp
    have split: "path_split rel = es" unfolding rel using path_split_concat [OF False slash] .
    have "es \<noteq> [''.'']" using es(2) plain_elem_dots(1) by force
    moreover have "path_split ''.'' = [''.'']" by simp
    ultimately have "rel \<noteq> ''.''" using split by metis
    then show ?thesis using r5(3) split chain_from_plain [of "[]" es] es(2) by simp
  qed
  moreover have "EvalSymlinks (Clean b) = Some (boundary cw)" using canon [OF r2] r5(1) by simp
  ultimately show ?thesis using canon [OF r1] r5(1,2) es unfolding b_def [symmetric] by blast
qed

theorem resolveWorkspace_chain_witness:
  "resolveWorkspace Some (\<lambda>_. Some (True, 1)) \<lparr>Root = ''/w/a'', Boundary = ''/w'', Trusted = True\<rparr> (ws_Limits ws_example_options)
     = Inr \<lparr>boundary = ''/w'', boundaryInfo = 1, chain = [''.'', ''a'']\<rparr>
   \<and> (\<exists>es. path_elems ''/w/a'' = path_elems ''/w'' @ es \<and> (\<forall>e \<in> set es. plain_elem e) \<and> len [''.'', ''a''] \<le> 2)"
proof -
  let ?w = "\<lparr>Root = ''/w/a'', Boundary = ''/w'', Trusted = True\<rparr>"
  have c: "Clean ''/w/a'' = ''/w/a''" "Clean ''/w'' = ''/w''" by (simp_all add: Clean_def IsAbs_def HasPrefix_def)
  have "Rel ''/w'' ''/w/a'' = Some ''a''"
    by (simp add: Rel_def c path_elems_def IsAbs_def HasPrefix_def)
  then have r: "resolveWorkspace Some (\<lambda>_. Some (True, 1)) ?w (ws_Limits ws_example_options)
      = Inr \<lparr>boundary = ''/w'', boundaryInfo = 1, chain = [''.'', ''a'']\<rparr>"
    by (simp add: resolveWorkspace_def canonicalDirectory_def c IsAbs_def HasPrefix_def Join2_def Clean_def len_def
        ws_example_options_def)
  have m: "MaxChainDepth (ws_Limits ws_example_options) = 2" by (simp add: ws_example_options_def)
  from resolveWorkspace_chain [OF _ r] r m c show ?thesis by auto
qed

end
