(* ===== verification/Jobs_Tail.thy ===== *)
theory Jobs_Tail
  imports Utf8
begin

section \<open>backgroundjobs/tail.go: the bounded output tail\<close>

text \<open>
  A \<open>tailWriter\<close> keeps the last bytes of a stream in a ring of fixed capacity. The theory
  translates \<open>newTailWriter\<close>, \<open>Write\<close>, \<open>markTruncated\<close> and \<open>snapshot\<close> and shows that the
  ring refines the obvious specification: the retained bytes are the last \<open>capacity\<close> bytes
  of everything written, and the truncation flag says whether a byte was dropped.
\<close>

record tailWriter =
  tw_buffer :: bytes
  tw_start :: nat
  tw_length :: nat
  tw_truncated :: bool

record TailResult =
  tr_Text :: string
  tr_Truncated :: bool

definition newTailWriter :: "nat \<Rightarrow> tailWriter" where
  "newTailWriter limit =
     \<lparr>tw_buffer = replicate limit (char_of (0::nat)), tw_start = 0, tw_length = 0,
      tw_truncated = False\<rparr>"

definition tail_Write :: "tailWriter \<Rightarrow> bytes \<Rightarrow> nat \<times> tailWriter" where
  "tail_Write w data =
     (let written = length data; capacity = length (tw_buffer w) in
      if length data \<ge> capacity then
        (written,
         w\<lparr>tw_truncated := tw_truncated w \<or> length data > capacity \<or> tw_length w > 0,
           tw_buffer := copy_at (tw_buffer w) 0 (drop (length data - capacity) data),
           tw_start := 0, tw_length := capacity\<rparr>)
      else
        let w1 = (if tw_length w + length data > capacity then
                    let discard = tw_length w + length data - capacity in
                    w\<lparr>tw_start := (tw_start w + discard) mod capacity,
                      tw_length := tw_length w - discard, tw_truncated := True\<rparr>
                  else w);
            endp = (tw_start w1 + tw_length w1) mod capacity;
            first = min (length data) (capacity - endp);
            b1 = copy_at (tw_buffer w1) endp (take first data);
            b2 = copy_at b1 0 (drop first data)
        in (written, w1\<lparr>tw_buffer := b2, tw_length := tw_length w1 + length data\<rparr>))"

definition markTruncated :: "tailWriter \<Rightarrow> tailWriter" where
  "markTruncated w = w\<lparr>tw_truncated := True\<rparr>"

definition tail_data :: "tailWriter \<Rightarrow> bytes" where
  "tail_data w =
     (if tw_length w > 0 then
        let first = min (tw_length w) (length (tw_buffer w) - tw_start w) in
        take first (drop (tw_start w) (tw_buffer w)) @ take (tw_length w - first) (tw_buffer w)
      else [])"

definition replacement_char :: string where
  "replacement_char = [CHR 0xEF, CHR 0xBF, CHR 0xBD]"

definition tail_snapshot :: "tailWriter \<Rightarrow> TailResult" where
  "tail_snapshot w =
     (let data = tail_data w;
          data = (if \<not> utf8_valid data then ToValidUTF8 data replacement_char False else data)
      in \<lparr>tr_Text = data, tr_Truncated = tw_truncated w\<rparr>)"

fun tail_writes :: "tailWriter \<Rightarrow> bytes list \<Rightarrow> tailWriter" where
  "tail_writes w [] = w"
| "tail_writes w (d # ds) = tail_writes (snd (tail_Write w d)) ds"

subsection \<open>The ring invariant\<close>

definition tail_inv :: "tailWriter \<Rightarrow> bool" where
  "tail_inv w \<longleftrightarrow> tw_length w \<le> length (tw_buffer w)
     \<and> (tw_buffer w \<noteq> [] \<longrightarrow> tw_start w < length (tw_buffer w))
     \<and> (tw_buffer w = [] \<longrightarrow> tw_start w = 0)"

definition tail_cap :: "tailWriter \<Rightarrow> nat" where
  "tail_cap w = length (tw_buffer w)"

lemma tail_inv_new: "tail_inv (newTailWriter n)"
  by (simp add: tail_inv_def newTailWriter_def)

lemma tail_cap_new [simp]: "tail_cap (newTailWriter n) = n"
  by (simp add: tail_cap_def newTailWriter_def)

text \<open>The logical content: byte \<open>i\<close> of the tail is byte \<open>(start + i) mod capacity\<close> of the ring.\<close>

definition ring_content :: "bytes \<Rightarrow> nat \<Rightarrow> nat \<Rightarrow> bytes" where
  "ring_content b st n = map (\<lambda>i. b ! ((st + i) mod length b)) [0..<n]"

lemma length_ring_content [simp]: "length (ring_content b st n) = n"
  by (simp add: ring_content_def)

lemma ring_content_nth [simp]:
  "i < n \<Longrightarrow> ring_content b st n ! i = b ! ((st + i) mod length b)"
  by (simp add: ring_content_def)

lemma tail_data_ring:
  assumes "tail_inv w"
  shows "tail_data w = ring_content (tw_buffer w) (tw_start w) (tw_length w)"
proof (cases "tw_length w = 0")
  case True
  then show ?thesis by (simp add: tail_data_def ring_content_def)
next
  case False
  let ?b = "tw_buffer w" and ?s = "tw_start w" and ?n = "tw_length w"
  from assms False have b: "?b \<noteq> []" "?s < length ?b" "?n \<le> length ?b"
    by (auto simp: tail_inv_def)
  let ?f = "min ?n (length ?b - ?s)"
  have "take ?f (drop ?s ?b) @ take (?n - ?f) ?b = ring_content ?b ?s ?n"
  proof (rule nth_equalityI)
    show "length (take ?f (drop ?s ?b) @ take (?n - ?f) ?b) = length (ring_content ?b ?s ?n)"
      using b by auto
  next
    fix i
    assume "i < length (take ?f (drop ?s ?b) @ take (?n - ?f) ?b)"
    with b have i: "i < ?n" by auto
    show "(take ?f (drop ?s ?b) @ take (?n - ?f) ?b) ! i = ring_content ?b ?s ?n ! i"
    proof (cases "?s + i < length ?b")
      case True
      with i b show ?thesis by (auto simp: nth_append)
    next
      case wrap: False
      with i b have "(?s + i) mod length ?b = ?s + i - length ?b"
        by (subst mod_once) auto
      with i b wrap show ?thesis by (auto simp: nth_append add.commute)
    qed
  qed
  with False show ?thesis by (simp add: tail_data_def Let_def)
qed

text \<open>Writing \<open>data\<close> at ring offset \<open>e\<close> in two copies puts byte \<open>j\<close> at \<open>(e + j) mod capacity\<close>.\<close>

lemma ring_copy_nth:
  assumes "length data < length b" and "e < length b" and "k < length b"
  shows "copy_at (copy_at b e (take (min (length data) (length b - e)) data)) 0
           (drop (min (length data) (length b - e)) data) ! k =
         (let j = (k + length b - e) mod length b in if j < length data then data ! j else b ! k)"
proof -
  let ?f = "min (length data) (length b - e)"
  let ?b1 = "copy_at b e (take ?f data)"
  have l1: "length ?b1 = length b" using assms by simp
  have j: "(k + length b - e) mod length b = (if e \<le> k then k - e else k + length b - e)"
    using assms by (subst mod_once) auto
  have b1: "?b1 ! k = (if e \<le> k \<and> k - e < ?f then data ! (k - e) else b ! k)"
    using assms by (simp add: nth_copy_at)
  have "copy_at c 0 (drop f data) ! k = (if k < length data - f then data ! (f + k) else c ! k)"
    if "length c = length b" for c f
    using that assms by (simp add: nth_copy_at)
  then have b2: "copy_at ?b1 0 (drop ?f data) ! k =
      (if k < length data - ?f then data ! (?f + k) else ?b1 ! k)"
    using l1 by blast
  show ?thesis
  proof (cases "length data \<le> length b - e")
    case True
    with assms show ?thesis by (simp only: j Let_def) (auto simp: nth_copy_at)
  next
    case False
    then have f: "?f = length b - e" by simp
    show ?thesis
    proof (cases "e \<le> k")
      case True
      with False assms show ?thesis by (simp only: b2 b1 j Let_def) (auto simp: f)
    next
      case k: False
      then have "?f + k = k + length b - e" using assms f by linarith
      moreover have "k < length data - ?f \<longleftrightarrow> k + length b - e < length data"
        unfolding f using k False assms by linarith
      ultimately show ?thesis using k by (simp only: b2 b1 j Let_def if_False simp_thms)
    qed
  qed
qed

lemma mod_shift_back:
  fixes s n i c :: nat
  assumes "s < c" and "n \<le> c" and "i < c"
  shows "((s + i) mod c + c - (s + n) mod c) mod c = (if n \<le> i then i - n else i + c - n)"
proof -
  have a: "(s + i) mod c = (if s + i < c then s + i else s + i - c)"
    using assms by (intro mod_once) simp
  have b: "(s + n) mod c = (if s + n < c then s + n else s + n - c)"
    using assms by (intro mod_once) simp
  show ?thesis unfolding a b using assms by (subst mod_once) auto
qed

lemma ring_append:
  assumes "st < length b" and "n + length data \<le> length b" and "length data < length b"
    and e: "e = (st + n) mod length b"
    and b2: "b2 = copy_at (copy_at b e (take (min (length data) (length b - e)) data)) 0
                    (drop (min (length data) (length b - e)) data)"
  shows "ring_content b2 st (n + length data) = ring_content b st n @ data"
proof (rule nth_equalityI)
  show "length (ring_content b2 st (n + length data)) = length (ring_content b st n @ data)"
    by simp
next
  fix i
  assume "i < length (ring_content b2 st (n + length data))"
  then have i: "i < n + length data" by simp
  with assms have ib: "i < length b" by linarith
  have e': "e < length b" using e assms(1) by (cases "length b") auto
  have l: "length b2 = length b" using e' by (simp add: b2)
  let ?k = "(st + i) mod length b"
  have k: "?k < length b" using assms(1) by (cases "length b") auto
  have nb: "n \<le> length b" using assms(2) by simp
  have j: "(?k + length b - e) mod length b = (if n \<le> i then i - n else i + length b - n)"
    unfolding e by (rule mod_shift_back [OF assms(1) nb ib])
  have "b2 ! ?k = (if n \<le> i then data ! (i - n) else b ! ?k)"
    unfolding b2 using ring_copy_nth [OF assms(3) e' k] j i assms(2) by (auto simp: Let_def)
  with i l show "ring_content b2 st (n + length data) ! i = (ring_content b st n @ data) ! i"
    by (auto simp: nth_append)
qed

lemma ring_discard:
  assumes "b \<noteq> []" and "d \<le> n"
  shows "ring_content b ((st + d) mod length b) (n - d) = drop d (ring_content b st n)"
proof (rule nth_equalityI)
  fix i
  assume "i < length (ring_content b ((st + d) mod length b) (n - d))"
  with assms show "ring_content b ((st + d) mod length b) (n - d) ! i
      = drop d (ring_content b st n) ! i"
    by (simp add: mod_add_left_eq add.assoc)
qed simp

subsection \<open>Write refines appending to an unbounded stream and keeping its tail\<close>

lemma tail_Write_big:
  assumes "tail_inv w" and "tail_cap w \<le> length data"
  shows "tail_data (snd (tail_Write w data)) = lastn (tail_cap w) data"
    and "tail_inv (snd (tail_Write w data))"
proof -
  let ?c = "length (tw_buffer w)"
  from assms have "copy_at (tw_buffer w) 0 (drop (length data - ?c) data) = lastn ?c data"
    by (simp add: copy_at_def lastn_def tail_cap_def)
  with assms show "tail_data (snd (tail_Write w data)) = lastn (tail_cap w) data"
    and "tail_inv (snd (tail_Write w data))"
    by (auto simp: tail_Write_def tail_cap_def tail_data_def tail_inv_def Let_def lastn_def)
qed

text \<open>The state in which \<open>Write\<close> copies, after it has dropped the oldest bytes to make room.\<close>

definition tail_room :: "tailWriter \<Rightarrow> nat \<Rightarrow> tailWriter" where
  "tail_room w k =
     (if tw_length w + k > length (tw_buffer w) then
        let discard = tw_length w + k - length (tw_buffer w) in
        w\<lparr>tw_start := (tw_start w + discard) mod length (tw_buffer w),
          tw_length := tw_length w - discard, tw_truncated := True\<rparr>
      else w)"

lemma tail_room:
  assumes "tail_inv w" and "k < tail_cap w"
  shows "tw_buffer (tail_room w k) = tw_buffer w"
    and "tw_start (tail_room w k) < length (tw_buffer w)"
    and "tw_length (tail_room w k) + k = min (tw_length w + k) (tail_cap w)"
    and "ring_content (tw_buffer w) (tw_start (tail_room w k)) (tw_length (tail_room w k)) =
         drop (tw_length w + k - tail_cap w) (tail_data w)"
proof -
  let ?b = "tw_buffer w"
  from assms have b: "?b \<noteq> []" "0 < length ?b" and st: "tw_start w < length ?b"
    and n: "tw_length w \<le> length ?b" by (auto simp: tail_inv_def tail_cap_def)
  show "tw_buffer (tail_room w k) = ?b" and "tw_start (tail_room w k) < length ?b"
    and "tw_length (tail_room w k) + k = min (tw_length w + k) (tail_cap w)"
    using b st n assms(2) by (auto simp: tail_room_def tail_cap_def Let_def)
  show "ring_content ?b (tw_start (tail_room w k)) (tw_length (tail_room w k)) =
         drop (tw_length w + k - tail_cap w) (tail_data w)"
    using ring_discard [of ?b "tw_length w + k - length ?b" "tw_length w" "tw_start w"] b assms(2)
    by (auto simp: tail_room_def tail_cap_def Let_def tail_data_ring [OF assms(1)])
qed

lemma tail_Write_small_eq:
  assumes "length data < tail_cap w"
  shows "snd (tail_Write w data) =
    (let w1 = tail_room w (length data); c = length (tw_buffer w);
         e = (tw_start w1 + tw_length w1) mod c; f = min (length data) (c - e)
     in w1\<lparr>tw_buffer := copy_at (copy_at (tw_buffer w1) e (take f data)) 0 (drop f data),
          tw_length := tw_length w1 + length data\<rparr>)"
proof -
  from assms have "\<not> length data \<ge> length (tw_buffer w)" by (simp add: tail_cap_def)
  then show ?thesis
    by (simp only: tail_Write_def tail_room_def Let_def if_False snd_conv)
qed

lemma tail_Write_small:
  assumes inv: "tail_inv w" and small: "length data < tail_cap w"
  shows "tail_data (snd (tail_Write w data)) = lastn (tail_cap w) (tail_data w @ data)"
    and "tail_inv (snd (tail_Write w data))"
proof -
  let ?w1 = "tail_room w (length data)" and ?b = "tw_buffer w" and ?k = "length data"
  define e where "e = (tw_start ?w1 + tw_length ?w1) mod length ?b"
  define b2 where "b2 = copy_at (copy_at ?b e (take (min ?k (length ?b - e)) data)) 0
                    (drop (min ?k (length ?b - e)) data)"
  note room = tail_room [OF inv small]
  have c: "tail_cap w = length ?b" by (simp add: tail_cap_def)
  have e: "e < length ?b" using room(2) by (auto simp: e_def intro: mod_less_divisor)
  then have l: "length b2 = length ?b" by (simp add: b2_def)
  have W: "snd (tail_Write w data) = ?w1\<lparr>tw_buffer := b2, tw_length := tw_length ?w1 + ?k\<rparr>"
    by (simp add: tail_Write_small_eq [OF small] Let_def room(1) b2_def e_def)
  have le: "tw_length ?w1 + ?k \<le> length ?b" using room(3) c by simp
  show inv': "tail_inv (snd (tail_Write w data))"
    using room(2) le l by (auto simp: W tail_inv_def)
  have "tail_data (snd (tail_Write w data)) = ring_content b2 (tw_start ?w1) (tw_length ?w1 + ?k)"
    unfolding tail_data_ring [OF inv'] by (simp add: W)
  also have "\<dots> = ring_content ?b (tw_start ?w1) (tw_length ?w1) @ data"
    using ring_append [OF room(2) le _ e_def b2_def] small c by simp
  also have "\<dots> = drop (tw_length w + ?k - tail_cap w) (tail_data w) @ data"
    by (simp add: room(4))
  also have "\<dots> = lastn (tail_cap w) (tail_data w @ data)"
    using small by (simp add: lastn_def tail_data_ring [OF inv])
  finally show "tail_data (snd (tail_Write w data)) = lastn (tail_cap w) (tail_data w @ data)" .
qed

lemma tail_Write_cap [simp]:
  assumes "tail_inv w"
  shows "tail_cap (snd (tail_Write w data)) = tail_cap w"
proof (cases "length data < tail_cap w")
  case True
  note room = tail_room [OF assms True]
  from room(2) have "(x::nat) mod length (tw_buffer w) \<le> length (tw_buffer w)" for x
    by (metis less_imp_le less_nat_zero_code mod_less_divisor gr0I)
  then show ?thesis by (simp add: tail_Write_small_eq [OF True] Let_def room(1) tail_cap_def)
next
  case False
  then show ?thesis by (simp add: tail_Write_def tail_cap_def Let_def)
qed

lemma tail_Write_refines:
  assumes "tail_inv w"
  shows "tail_data (snd (tail_Write w data)) = lastn (tail_cap w) (tail_data w @ data)"
    and "tail_inv (snd (tail_Write w data))"
proof -
  have "lastn (tail_cap w) (tail_data w @ data) = lastn (tail_cap w) data"
    if "tail_cap w \<le> length data" using that by (simp add: lastn_def)
  then show "tail_data (snd (tail_Write w data)) = lastn (tail_cap w) (tail_data w @ data)"
    and "tail_inv (snd (tail_Write w data))"
    using tail_Write_big [OF assms] tail_Write_small [OF assms] by (metis not_le_imp_less)+
qed

lemma length_tail_data: "tail_inv w \<Longrightarrow> length (tail_data w) = tw_length w"
  by (simp add: tail_data_ring)

lemma tail_Write_truncated:
  assumes "tail_inv w"
  shows "tw_truncated (snd (tail_Write w data)) \<longleftrightarrow>
    tw_truncated w \<or> length (tail_data w) + length data > tail_cap w"
proof (cases "length data < tail_cap w")
  case True
  then obtain b n where
      "snd (tail_Write w data) = (tail_room w (length data))\<lparr>tw_buffer := b, tw_length := n\<rparr>"
    by (simp only: tail_Write_small_eq Let_def)
  then have "tw_truncated (snd (tail_Write w data)) = tw_truncated (tail_room w (length data))"
    by simp
  also have "\<dots> \<longleftrightarrow> tw_truncated w \<or> tw_length w + length data > tail_cap w"
    by (simp add: tail_room_def Let_def tail_cap_def)
  finally show ?thesis by (simp add: length_tail_data [OF assms])
next
  case False
  then show ?thesis
    by (auto simp: tail_Write_def tail_cap_def Let_def length_tail_data [OF assms])
qed

subsection \<open>Whole streams\<close>

lemma tail_writes_refines:
  assumes "tail_inv w" and "tail_data w = lastn (tail_cap w) stream"
    and "tw_truncated w \<longleftrightarrow> length stream > tail_cap w"
  shows "tail_inv (tail_writes w ds) \<and> tail_cap (tail_writes w ds) = tail_cap w
    \<and> tail_data (tail_writes w ds) = lastn (tail_cap w) (stream @ concat ds)
    \<and> (tw_truncated (tail_writes w ds) \<longleftrightarrow> length (stream @ concat ds) > tail_cap w)"
  using assms
proof (induction ds arbitrary: w stream)
  case Nil
  then show ?case by simp
next
  case (Cons d ds)
  let ?w' = "snd (tail_Write w d)"
  have data: "tail_data ?w' = lastn (tail_cap ?w') (stream @ d)"
    using Cons.prems(1,2) by (simp add: tail_Write_refines lastn_append_lastn)
  have trunc: "tw_truncated ?w' \<longleftrightarrow> length (stream @ d) > tail_cap ?w'"
    using Cons.prems by (auto simp: tail_Write_truncated)
  from Cons.IH [OF tail_Write_refines(2) [OF Cons.prems(1)] data trunc] Cons.prems(1)
  show ?case by simp
qed

text \<open>
  C9: after any sequence of writes to a fresh writer of capacity \<open>n\<close>, however the stream is cut into
  chunks and however the ring wraps, the retained bytes are exactly the last \<open>n\<close> bytes of
  the stream, and the truncation flag is set exactly when a byte was dropped.
\<close>

theorem tail_keeps_last_bytes:
  "tail_data (tail_writes (newTailWriter n) ds) = lastn n (concat ds)
   \<and> (tw_truncated (tail_writes (newTailWriter n) ds) \<longleftrightarrow> length (concat ds) > n)"
proof -
  have "tail_data (newTailWriter n) = lastn (tail_cap (newTailWriter n)) []"
    by (simp add: tail_data_def newTailWriter_def lastn_def)
  moreover have "tw_truncated (newTailWriter n) \<longleftrightarrow> length ([]::bytes) > tail_cap (newTailWriter n)"
    by (simp add: newTailWriter_def)
  ultimately show ?thesis
    using tail_writes_refines [OF tail_inv_new, of n "[]" ds] by simp
qed

lemma utf8_valid_replacement_char [simp]: "utf8_valid replacement_char"
  by (simp add: replacement_char_def utf8_eval)

text \<open>
  What a status call reports is well-formed UTF-8 even when the ring cut a multi-byte
  character in half or the process printed binary data; well-formed tails are reported
  verbatim, and the text never exceeds three bytes per byte of capacity.
\<close>

theorem tail_snapshot_text:
  assumes "tail_inv w"
  shows "utf8_valid (tr_Text (tail_snapshot w))
    \<and> (utf8_valid (tail_data w) \<longrightarrow> tr_Text (tail_snapshot w) = tail_data w)
    \<and> length (tr_Text (tail_snapshot w)) \<le> 3 * tail_cap w"
proof -
  have "length (ToValidUTF8 (tail_data w) replacement_char False) \<le> 3 * length (tail_data w)"
    by (rule ToValidUTF8_length) (simp_all add: replacement_char_def)
  moreover have "length (tail_data w) \<le> tail_cap w"
    using assms by (simp add: length_tail_data tail_inv_def tail_cap_def)
  ultimately show ?thesis
    by (auto simp: tail_snapshot_def Let_def ToValidUTF8_valid)
qed

theorem tail_snapshot_text_witness:
  "utf8_valid (tr_Text (tail_snapshot (tail_writes (newTailWriter 2) [''a'', [CHR 0xE2, CHR 0x82, CHR 0xAC]])))
   \<and> tail_inv (tail_writes (newTailWriter 2) [''a'', [CHR 0xE2, CHR 0x82, CHR 0xAC]])"
proof -
  have inv: "tail_inv (tail_writes (newTailWriter 2) [''a'', [CHR 0xE2, CHR 0x82, CHR 0xAC]])"
    by (simp add: tail_writes_refines newTailWriter_def tail_Write_def Let_def copy_at_def tail_inv_def)
  from tail_snapshot_text [OF inv] inv show ?thesis by simp
qed

end
