(* ===== verification/Jobs.thy ===== *)
theory Jobs
  imports Jobs_Tail Json_Encode
begin

section \<open>backgroundjobs: the life of a job\<close>

text \<open>
  job.go and supervisor.go. A job is shared by the goroutine that starts it, the reader of the
  supervisor's status, the waiter for the process, one termination coordinator at a time, the
  timer and the callers of kill and close. Each definition below is one section of that code
  under the job's mutex, and \<open>job_step\<close> lets them interleave in every order their code allows.
  A closed channel is a flag; the position of the coordinator's goroutine and of the function
  that \<open>terminalOnce\<close> runs are fields of the job. Times are integers, and what the operating
  system answers to a signal is an argument.
\<close>

datatype JobState = JobRunning | JobSucceeded | JobFailed | JobKilled | JobTimedOut

datatype terminationCause = causeNone | causeNatural | causeKill | causeTimeout | causeClose

datatype terminationPhase = phaseInitial | phaseTermSent | phaseFinalSignalSent

datatype signal_result = Signaled | GroupGone | SignalFailed

datatype coordinator_at = NoCoordinator | CoordStart | CoordTerm | CoordGrace | CoordKill | CoordWait | CoordComplete | CoordFinish

datatype finish_at = NotFinished | StateSet | ManagerTold | DoneClosed

datatype job_timer = NoTimer | TimerArmed | TimerFired | TimerStopped

record job =
  j_owner :: "string \<times> string"
  j_startedAt :: int
  j_completedAt :: "int option"
  j_effectiveTime :: int
  j_state :: JobState
  j_exitCode :: "int option"
  j_stdout :: tailWriter
  j_stderr :: tailWriter
  j_published :: bool
  j_counted :: bool
  j_ready :: bool
  j_statusReady :: bool
  j_waitDone :: bool
  j_statusValid :: bool
  j_statusCode :: int
  j_outputForced :: bool
  j_finalize :: bool
  j_finalSignalAt :: "int option"
  j_timer :: job_timer
  j_timeoutDone :: bool
  j_cause :: terminationCause
  j_phase :: terminationPhase
  j_coordinatorRunning :: bool
  j_attempt :: nat
  j_attemptOpen :: bool
  j_coordinator :: coordinator_at
  j_finish :: finish_at

abbreviation j_done :: "job \<Rightarrow> bool" where
  "j_done j \<equiv> j_finish j = DoneClosed"

definition new_job :: "string \<times> string \<Rightarrow> int \<Rightarrow> int \<Rightarrow> nat \<Rightarrow> job" where
  "new_job owner startedAt effective limit =
     \<lparr>j_owner = owner, j_startedAt = startedAt, j_completedAt = None, j_effectiveTime = effective, j_state = JobRunning,
      j_exitCode = None, j_stdout = newTailWriter limit, j_stderr = newTailWriter limit, j_published = False, j_counted = False,
      j_ready = False, j_statusReady = False, j_waitDone = False, j_statusValid = False, j_statusCode = 0, j_outputForced = False, j_finalize = False,
      j_finalSignalAt = None, j_timer = NoTimer, j_timeoutDone = False, j_cause = causeNone, j_phase = phaseInitial,
      j_coordinatorRunning = False, j_attempt = 0, j_attemptOpen = False, j_coordinator = NoCoordinator, j_finish = NotFinished\<rparr>"

subsection \<open>The supervisor's status\<close>

fun digits_code :: "int \<Rightarrow> string \<Rightarrow> int option" where
  "digits_code acc [] = Some acc"
| "digits_code acc (c # cs) =
     (if CHR ''0'' \<le> c \<and> c \<le> CHR ''9'' then digits_code (10 * acc + int (byte c) - 48) cs else None)"

text \<open>\<open>strconv.Atoi\<close> on the one to four bytes that are left: an optional sign and digits.\<close>

definition Atoi :: "string \<Rightarrow> int option" where
  "Atoi s =
     (case s of
        [] \<Rightarrow> None
      | c # cs \<Rightarrow>
          if c = CHR ''-'' then (if cs = [] then None else map_option uminus (digits_code 0 cs))
          else if c = CHR ''+'' then (if cs = [] then None else digits_code 0 cs)
          else digits_code 0 s)"

definition parseSupervisorStatus :: "bytes \<Rightarrow> bool \<Rightarrow> bool \<times> int" where
  "parseSupervisorStatus raw readErr =
     (if readErr \<or> len raw < 5 \<or> len raw > 8 \<or> \<not> HasPrefix raw ''v1:'' \<or> last raw \<noteq> CHR 0x0A then (False, 0)
      else let v = go_slice raw 3 (length raw - 1) in
        if v = [] \<or> length v > 1 \<and> hd v = CHR ''0'' then (False, 0)
        else (case Atoi v of
                None \<Rightarrow> (False, 0)
              | Some code \<Rightarrow> (0 \<le> code \<and> code \<le> 255, code)))"

subsection \<open>Sections under the job's mutex\<close>

definition startCoordinatorLocked :: "job \<Rightarrow> job" where
  "startCoordinatorLocked j =
     j\<lparr>j_coordinatorRunning := True, j_attempt := Suc (j_attempt j), j_attemptOpen := True, j_coordinator := CoordStart\<rparr>"

definition readStatus :: "bytes \<Rightarrow> bool \<Rightarrow> job \<Rightarrow> job" where
  "readStatus raw readErr j =
     (case parseSupervisorStatus raw readErr of
        (valid, code) \<Rightarrow>
          let j = j\<lparr>j_statusValid := valid, j_statusCode := code, j_statusReady := True\<rparr> in
          if j_cause j = causeNone then startCoordinatorLocked (j\<lparr>j_cause := causeNatural\<rparr>) else j)"

text \<open>The waiter's section; \<open>j_finalize\<close> is its local variable, whether it goes on to finish the job.\<close>

definition job_waited :: "int \<Rightarrow> int \<Rightarrow> bool \<Rightarrow> job \<Rightarrow> job" where
  "job_waited killWait now waitDelay j =
     (let elapsed = (case j_finalSignalAt j of None \<Rightarrow> False | Some t \<Rightarrow> now - t \<ge> killWait - killWait div 20);
          forced = waitDelay \<or> elapsed;
          j = (if forced then j\<lparr>j_stdout := markTruncated (j_stdout j), j_stderr := markTruncated (j_stderr j)\<rparr> else j);
          j = j\<lparr>j_outputForced := forced, j_waitDone := True\<rparr> in
      j\<lparr>j_finalize := (j_phase j = phaseFinalSignalSent \<and> j_cause j \<noteq> causeNone)\<rparr>)"

text \<open>The second component names the channel to wait on: \<open>None\<close> is \<open>job.done\<close>, \<open>Some n\<close> the n-th attempt.\<close>

definition beginTermination :: "terminationCause \<Rightarrow> job \<Rightarrow> (bool \<times> nat option) \<times> job" where
  "beginTermination cause j =
     (if j_state j \<noteq> JobRunning then ((False, None), j)
      else let newly = (j_cause j = causeNone);
               j = (if newly then j\<lparr>j_cause := cause\<rparr> else j);
               j = (if \<not> j_coordinatorRunning j then startCoordinatorLocked j else j) in
        ((newly, Some (j_attempt j)), j))"

definition advanceSignal :: "signal_result \<Rightarrow> int \<Rightarrow> terminationPhase \<Rightarrow> job \<Rightarrow> bool \<times> job" where
  "advanceSignal res now successPhase j =
     (if res = SignalFailed then (False, j)
      else let phase = (if res = GroupGone then phaseFinalSignalSent else successPhase);
               j = j\<lparr>j_phase := phase\<rparr> in
        (True, if phase = phaseFinalSignalSent then j\<lparr>j_finalSignalAt := Some now\<rparr> else j))"

subsection \<open>The coordinator\<close>

text \<open>Where the coordinator goes once the terminate signal is settled.\<close>

definition coord_after_term :: "job \<Rightarrow> coordinator_at" where
  "coord_after_term j =
     (if j_cause j \<noteq> causeNatural \<and> j_phase j = phaseTermSent then CoordGrace
      else if j_phase j \<noteq> phaseFinalSignalSent then CoordKill else CoordWait)"

definition coord_start :: "job \<Rightarrow> job" where
  "coord_start j =
     j\<lparr>j_coordinator := (if j_cause j \<noteq> causeNatural \<and> j_phase j = phaseInitial \<and> j_ready j then CoordTerm else coord_after_term j)\<rparr>"

definition coord_term :: "signal_result \<Rightarrow> int \<Rightarrow> job \<Rightarrow> job" where
  "coord_term res now j =
     (case advanceSignal res now phaseTermSent j of
        (False, j) \<Rightarrow> j\<lparr>j_coordinator := CoordComplete\<rparr>
      | (True, j) \<Rightarrow> j\<lparr>j_coordinator := coord_after_term j\<rparr>)"

definition coord_kill :: "signal_result \<Rightarrow> int \<Rightarrow> job \<Rightarrow> job" where
  "coord_kill res now j =
     (case advanceSignal res now phaseFinalSignalSent j of
        (False, j) \<Rightarrow> j\<lparr>j_coordinator := CoordComplete\<rparr>
      | (True, j) \<Rightarrow> j\<lparr>j_coordinator := CoordWait\<rparr>)"

definition coord_complete :: "job \<Rightarrow> job" where
  "coord_complete j = j\<lparr>j_coordinatorRunning := False, j_attemptOpen := False, j_coordinator := NoCoordinator\<rparr>"

subsection \<open>The terminal state\<close>

definition terminal_state :: "job \<Rightarrow> JobState \<times> int option" where
  "terminal_state j =
     (case j_cause j of
        causeKill \<Rightarrow> (JobKilled, j_exitCode j)
      | causeClose \<Rightarrow> (JobKilled, j_exitCode j)
      | causeTimeout \<Rightarrow> (JobTimedOut, j_exitCode j)
      | causeNatural \<Rightarrow>
          if j_statusValid j \<and> \<not> j_outputForced j
          then (if j_statusCode j = 0 then JobSucceeded else JobFailed, Some (j_statusCode j))
          else (JobFailed, j_exitCode j)
      | causeNone \<Rightarrow> (j_state j, j_exitCode j))"

definition finishTerminal :: "int \<Rightarrow> job \<Rightarrow> job" where
  "finishTerminal now j =
     (let j = (if j_timer j = TimerArmed then j\<lparr>j_timer := TimerStopped, j_timeoutDone := True\<rparr> else j) in
      case terminal_state j of
        (state, code) \<Rightarrow>
          j\<lparr>j_state := state, j_exitCode := code, j_completedAt := Some now, j_coordinatorRunning := False, j_finish := StateSet\<rparr>)"

text \<open>The field \<open>counted\<close> belongs to the manager's mutex; this is what \<open>jobCompleted\<close> does to the job.\<close>

definition job_completed :: "job \<Rightarrow> job" where
  "job_completed j = j\<lparr>j_counted := False, j_finish := ManagerTold\<rparr>"

text \<open>
  What the goroutines of a job do by themselves. \<open>finish_by_coordinator\<close> and \<open>finish_by_waiter\<close> are the two
  callers of \<open>finishTerminal\<close>; \<open>terminalOnce\<close> lets one of them in.
\<close>

inductive job_moves :: "int \<Rightarrow> job \<Rightarrow> job \<Rightarrow> bool" for killWait where
  status_read: "\<not> j_statusReady j \<Longrightarrow> job_moves killWait j (readStatus raw readErr j)"
| process_waited: "\<not> j_waitDone j \<Longrightarrow> job_moves killWait j (job_waited killWait now waitDelay j)"
| terminated: "cause = causeKill \<or> cause = causeClose \<Longrightarrow> job_moves killWait j (snd (beginTermination cause j))"
| timer_fired: "j_timer j = TimerArmed \<Longrightarrow>
    job_moves killWait j ((snd (beginTermination causeTimeout j))\<lparr>j_timer := TimerFired, j_timeoutDone := True\<rparr>)"
| output_written: "\<not> j_waitDone j \<Longrightarrow>
    job_moves killWait j (j\<lparr>j_stdout := snd (tail_Write (j_stdout j) out), j_stderr := snd (tail_Write (j_stderr j) err)\<rparr>)"
| coordinator_starts: "j_coordinator j = CoordStart \<Longrightarrow> job_moves killWait j (coord_start j)"
| coordinator_terms: "j_coordinator j = CoordTerm \<Longrightarrow> job_moves killWait j (coord_term res now j)"
| grace_over: "j_coordinator j = CoordGrace \<Longrightarrow> job_moves killWait j (j\<lparr>j_coordinator := CoordKill\<rparr>)"
| coordinator_kills: "j_coordinator j = CoordKill \<Longrightarrow> job_moves killWait j (coord_kill res now j)"
| wait_over: "j_coordinator j = CoordWait \<Longrightarrow> j_waitDone j \<Longrightarrow> job_moves killWait j (j\<lparr>j_coordinator := CoordFinish\<rparr>)"
| wait_timed_out: "j_coordinator j = CoordWait \<Longrightarrow> job_moves killWait j (j\<lparr>j_coordinator := CoordComplete\<rparr>)"
| attempt_completes: "j_coordinator j = CoordComplete \<Longrightarrow> job_moves killWait j (coord_complete j)"
| finish_by_coordinator: "j_coordinator j = CoordFinish \<Longrightarrow> j_finish j = NotFinished \<Longrightarrow>
    job_moves killWait j (finishTerminal now j)"
| finish_by_waiter: "j_finalize j \<Longrightarrow> j_finish j = NotFinished \<Longrightarrow> job_moves killWait j (finishTerminal now j)"
| done_closed: "j_finish j = ManagerTold \<Longrightarrow> job_moves killWait j (j\<lparr>j_finish := DoneClosed\<rparr>)"

text \<open>
  Everything that can happen to a job: the steps of its own, and what the sections of the manager
  change in it.
\<close>

inductive job_step :: "int \<Rightarrow> job \<Rightarrow> job \<Rightarrow> bool" for killWait where
  own: "job_moves killWait j j' \<Longrightarrow> job_step killWait j j'"
| told: "j_finish j = StateSet \<Longrightarrow> job_step killWait j (job_completed j)"
| ready_known: "job_step killWait j (j\<lparr>j_ready := r\<rparr>)"
| published: "job_step killWait j (j\<lparr>j_published := p, j_counted := c\<rparr>)"
| timer_set: "j_state j = JobRunning \<Longrightarrow> job_step killWait j (j\<lparr>j_timer := TimerArmed\<rparr>)"

lemmas step_status_read = job_moves.status_read [THEN job_step.own]
lemmas step_process_waited = job_moves.process_waited [THEN job_step.own]
lemmas step_terminated = job_moves.terminated [THEN job_step.own]
lemmas step_coordinator_starts = job_moves.coordinator_starts [THEN job_step.own]
lemmas step_coordinator_terms = job_moves.coordinator_terms [THEN job_step.own]
lemmas step_grace_over = job_moves.grace_over [THEN job_step.own]
lemmas step_coordinator_kills = job_moves.coordinator_kills [THEN job_step.own]
lemmas step_wait_over = job_moves.wait_over [THEN job_step.own]
lemmas step_attempt_completes = job_moves.attempt_completes [THEN job_step.own]
lemmas step_finish_by_coordinator = job_moves.finish_by_coordinator [THEN job_step.own]
lemmas step_finish_by_waiter = job_moves.finish_by_waiter [THEN job_step.own]
lemmas step_done_closed = job_moves.done_closed [THEN job_step.own]

subsection \<open>The invariant of a job\<close>

text \<open>The state a terminated job shows, from its cause and the status the supervisor reported.\<close>

definition cause_outcome :: "job \<Rightarrow> JobState \<times> int option" where
  "cause_outcome j =
     (case j_cause j of
        causeKill \<Rightarrow> (JobKilled, None)
      | causeClose \<Rightarrow> (JobKilled, None)
      | causeTimeout \<Rightarrow> (JobTimedOut, None)
      | causeNatural \<Rightarrow>
          if j_statusValid j \<and> \<not> j_outputForced j
          then (if j_statusCode j = 0 then JobSucceeded else JobFailed, Some (j_statusCode j)) else (JobFailed, None)
      | causeNone \<Rightarrow> (JobRunning, None))"

definition phase_at :: "job \<Rightarrow> bool" where
  "phase_at j =
     (case j_coordinator j of
        CoordTerm \<Rightarrow> j_phase j = phaseInitial
      | CoordGrace \<Rightarrow> j_phase j = phaseTermSent
      | CoordKill \<Rightarrow> j_phase j \<noteq> phaseFinalSignalSent
      | CoordWait \<Rightarrow> j_phase j = phaseFinalSignalSent
      | CoordFinish \<Rightarrow> j_phase j = phaseFinalSignalSent \<and> j_waitDone j
      | _ \<Rightarrow> True)"

definition job_ok :: "job \<Rightarrow> bool" where
  "job_ok j \<longleftrightarrow>
     phase_at j \<and>
     (j_coordinator j \<noteq> NoCoordinator \<longrightarrow> j_cause j \<noteq> causeNone) \<and>
     (j_coordinatorRunning j \<longrightarrow> j_coordinator j \<noteq> NoCoordinator) \<and>
     (j_coordinator j \<noteq> NoCoordinator \<and> j_finish j = NotFinished \<longrightarrow> j_coordinatorRunning j) \<and>
     (j_finalize j \<longrightarrow> j_waitDone j \<and> j_phase j = phaseFinalSignalSent \<and> j_cause j \<noteq> causeNone) \<and>
     (j_cause j = causeNatural \<longrightarrow> j_statusReady j) \<and>
     (j_statusValid j \<longrightarrow> 0 \<le> j_statusCode j \<and> j_statusCode j \<le> 255) \<and>
     (j_phase j = phaseFinalSignalSent \<longleftrightarrow> j_finalSignalAt j \<noteq> None) \<and>
     (if j_finish j = NotFinished then j_state j = JobRunning \<and> j_exitCode j = None \<and> j_completedAt j = None
      else j_phase j = phaseFinalSignalSent \<and> j_waitDone j \<and> j_cause j \<noteq> causeNone \<and>
           (j_state j, j_exitCode j) = cause_outcome j \<and> j_completedAt j \<noteq> None)"

lemmas job_section_defs = startCoordinatorLocked_def beginTermination_def job_waited_def advanceSignal_def
  coord_start_def coord_after_term_def coord_term_def coord_kill_def coord_complete_def job_completed_def Let_def

lemma job_ok_new: "job_ok (new_job owner startedAt effective limit)"
  by (simp add: job_ok_def phase_at_def new_job_def)

lemma parseSupervisorStatus_range: "parseSupervisorStatus raw readErr = (True, code) \<Longrightarrow> 0 \<le> code \<and> code \<le> 255"
  by (auto simp: parseSupervisorStatus_def Let_def split: if_splits option.splits)

lemma readStatus_cases:
  assumes "\<And>valid code. parseSupervisorStatus raw readErr = (valid, code) \<Longrightarrow> (valid \<Longrightarrow> 0 \<le> code \<and> code \<le> 255) \<Longrightarrow>
    P (let j = j\<lparr>j_statusValid := valid, j_statusCode := code, j_statusReady := True\<rparr> in
        if j_cause j = causeNone then startCoordinatorLocked (j\<lparr>j_cause := causeNatural\<rparr>) else j)"
  shows "P (readStatus raw readErr j)"
proof (cases "parseSupervisorStatus raw readErr")
  case (Pair valid code)
  then show ?thesis using assms[of valid code] parseSupervisorStatus_range[of raw readErr code]
    by (cases valid) (simp_all add: readStatus_def)
qed

lemma job_ok_running: "job_ok j \<Longrightarrow> j_state j = JobRunning \<longleftrightarrow> j_finish j = NotFinished"
  by (auto simp: job_ok_def cause_outcome_def split: if_splits terminationCause.splits)

lemma job_ok_beginTermination:
  assumes "job_ok j" "cause \<noteq> causeNone" "cause \<noteq> causeNatural"
  shows "job_ok (snd (beginTermination cause j))"
proof (cases "j_state j = JobRunning")
  case True
  then have "j_finish j = NotFinished" using job_ok_running[OF assms(1)] by simp
  then show ?thesis using assms True
    by (auto simp: job_ok_def phase_at_def beginTermination_def startCoordinatorLocked_def Let_def split: if_splits coordinator_at.splits)
qed (use assms in \<open>simp add: beginTermination_def\<close>)

lemma job_ok_free_fields [simp]:
  "job_ok (j\<lparr>j_timer := t\<rparr>) = job_ok j"
  "job_ok (j\<lparr>j_timeoutDone := d\<rparr>) = job_ok j"
  "job_ok (j\<lparr>j_ready := d\<rparr>) = job_ok j"
  "job_ok (j\<lparr>j_published := d\<rparr>) = job_ok j"
  "job_ok (j\<lparr>j_counted := d\<rparr>) = job_ok j"
  "job_ok (j\<lparr>j_stdout := w\<rparr>) = job_ok j"
  "job_ok (j\<lparr>j_stderr := w\<rparr>) = job_ok j"
  by (simp_all add: job_ok_def phase_at_def cause_outcome_def cong: terminationCause.case_cong coordinator_at.case_cong)

lemma finishTerminal_fields:
  assumes "job_ok j" "j_finish j = NotFinished"
  shows "(j_state (finishTerminal now j), j_exitCode (finishTerminal now j)) = cause_outcome j"
    "j_completedAt (finishTerminal now j) = Some now" "j_finish (finishTerminal now j) = StateSet"
    "\<not> j_coordinatorRunning (finishTerminal now j)"
  using assms
  by (cases "j_cause j"; simp add: job_ok_def cause_outcome_def finishTerminal_def terminal_state_def Let_def)+

lemma finishTerminal_keeps [simp]:
  "j_coordinator (finishTerminal now j) = j_coordinator j" "j_phase (finishTerminal now j) = j_phase j"
  "j_waitDone (finishTerminal now j) = j_waitDone j" "j_finalize (finishTerminal now j) = j_finalize j"
  "j_cause (finishTerminal now j) = j_cause j" "j_statusReady (finishTerminal now j) = j_statusReady j"
  "j_statusValid (finishTerminal now j) = j_statusValid j" "j_statusCode (finishTerminal now j) = j_statusCode j"
  "j_outputForced (finishTerminal now j) = j_outputForced j" "j_finalSignalAt (finishTerminal now j) = j_finalSignalAt j"
  by (simp_all add: finishTerminal_def Let_def split: prod.split)

lemma cause_outcome_cong:
  "j_cause j' = j_cause j \<Longrightarrow> j_statusValid j' = j_statusValid j \<Longrightarrow> j_statusCode j' = j_statusCode j \<Longrightarrow>
    j_outputForced j' = j_outputForced j \<Longrightarrow> cause_outcome j' = cause_outcome j"
  by (cases "j_cause j") (simp_all add: cause_outcome_def)

lemma phase_at_cong:
  "j_coordinator j' = j_coordinator j \<Longrightarrow> j_phase j' = j_phase j \<Longrightarrow> j_waitDone j' = j_waitDone j \<Longrightarrow> phase_at j' = phase_at j"
  by (cases "j_coordinator j") (simp_all add: phase_at_def)

lemma job_ok_finishTerminal:
  assumes "job_ok j" "j_finish j = NotFinished" "j_phase j = phaseFinalSignalSent" "j_waitDone j" "j_cause j \<noteq> causeNone"
  shows "job_ok (finishTerminal now j)"
proof -
  have "cause_outcome (finishTerminal now j) = cause_outcome j" by (rule cause_outcome_cong) simp_all
  moreover have "phase_at (finishTerminal now j) = phase_at j" by (rule phase_at_cong) simp_all
  ultimately show ?thesis using assms finishTerminal_fields[OF assms(1,2), of now] by (simp add: job_ok_def)
qed

lemma job_ok_coordinator:
  assumes ok: "job_ok j"
  shows "j_coordinator j = CoordStart \<Longrightarrow> job_ok (coord_start j)"
    and "j_coordinator j = CoordTerm \<Longrightarrow> job_ok (coord_term res now j)"
    and "j_coordinator j = CoordGrace \<Longrightarrow> job_ok (j\<lparr>j_coordinator := CoordKill\<rparr>)"
    and "j_coordinator j = CoordKill \<Longrightarrow> job_ok (coord_kill res now j)"
    and "j_coordinator j = CoordWait \<Longrightarrow> j_waitDone j \<Longrightarrow> job_ok (j\<lparr>j_coordinator := CoordFinish\<rparr>)"
    and "j_coordinator j = CoordWait \<Longrightarrow> job_ok (j\<lparr>j_coordinator := CoordComplete\<rparr>)"
    and "j_coordinator j = CoordComplete \<Longrightarrow> job_ok (coord_complete j)"
proof -
  have same: "cause_outcome (j\<lparr>j_coordinator := c, j_phase := p, j_finalSignalAt := t, j_coordinatorRunning := r, j_attemptOpen := a\<rparr>) = cause_outcome j"
    for c p t r a by (rule cause_outcome_cong) simp_all
  have sames: "cause_outcome (j\<lparr>j_coordinator := c\<rparr>) = cause_outcome j" "cause_outcome (j\<lparr>j_coordinatorRunning := r, j_attemptOpen := a, j_coordinator := c\<rparr>) = cause_outcome j"
    for c r a by (rule cause_outcome_cong; simp)+
  show "j_coordinator j = CoordStart \<Longrightarrow> job_ok (coord_start j)"
    using ok by (auto simp: job_ok_def phase_at_def coord_start_def coord_after_term_def sames)
  show "j_coordinator j = CoordGrace \<Longrightarrow> job_ok (j\<lparr>j_coordinator := CoordKill\<rparr>)"
    "j_coordinator j = CoordWait \<Longrightarrow> j_waitDone j \<Longrightarrow> job_ok (j\<lparr>j_coordinator := CoordFinish\<rparr>)"
    "j_coordinator j = CoordWait \<Longrightarrow> job_ok (j\<lparr>j_coordinator := CoordComplete\<rparr>)"
    using ok by (auto simp: job_ok_def phase_at_def sames split: if_splits)
  show "j_coordinator j = CoordComplete \<Longrightarrow> job_ok (coord_complete j)"
    using ok by (simp add: job_ok_def phase_at_def sames coord_complete_def)
  show "j_coordinator j = CoordTerm \<Longrightarrow> job_ok (coord_term res now j)"
    using ok by (cases res) (auto simp: job_ok_def phase_at_def coord_term_def advanceSignal_def coord_after_term_def Let_def sames)
  show "j_coordinator j = CoordKill \<Longrightarrow> job_ok (coord_kill res now j)"
    using ok by (cases res) (auto simp: job_ok_def phase_at_def coord_kill_def advanceSignal_def Let_def sames)
qed

lemma job_ok_finish_flow:
  assumes ok: "job_ok j"
  shows "j_finish j = StateSet \<Longrightarrow> job_ok (job_completed j)"
    and "j_finish j = ManagerTold \<Longrightarrow> job_ok (j\<lparr>j_finish := DoneClosed\<rparr>)"
proof -
  have same: "cause_outcome (j\<lparr>j_counted := b, j_finish := f\<rparr>) = cause_outcome j" "cause_outcome (j\<lparr>j_finish := f\<rparr>) = cause_outcome j" for b f
    by (rule cause_outcome_cong; simp)+
  have at: "phase_at (j\<lparr>j_counted := b, j_finish := f\<rparr>) = phase_at j" "phase_at (j\<lparr>j_finish := f\<rparr>) = phase_at j" for b f
    by (rule phase_at_cong; simp)+
  show "j_finish j = StateSet \<Longrightarrow> job_ok (job_completed j)" "j_finish j = ManagerTold \<Longrightarrow> job_ok (j\<lparr>j_finish := DoneClosed\<rparr>)"
    using ok by (auto simp: job_ok_def job_completed_def same at)
qed

lemma job_ok_moves:
  assumes "job_moves killWait j j'" and ok: "job_ok j"
  shows "job_ok j'"
  using assms(1)
proof (cases rule: job_moves.cases)
  case (status_read raw readErr)
  show ?thesis unfolding status_read
    by (rule readStatus_cases)
      (use ok status_read in \<open>auto simp: job_ok_def phase_at_def cause_outcome_def startCoordinatorLocked_def Let_def
        split: if_splits coordinator_at.splits terminationCause.splits\<close>)
next
  case (process_waited now waitDelay)
  then show ?thesis using ok
    by (auto simp: job_ok_def phase_at_def cause_outcome_def job_waited_def Let_def split: if_splits coordinator_at.splits)
next
  case (terminated cause)
  then show ?thesis using job_ok_beginTermination[OF ok, of cause] by auto
next
  case timer_fired
  then show ?thesis using job_ok_beginTermination[OF ok, of causeTimeout] by simp
next
  case (finish_by_coordinator now)
  then have "j_phase j = phaseFinalSignalSent" "j_waitDone j" "j_cause j \<noteq> causeNone"
    using ok by (simp_all add: job_ok_def phase_at_def)
  then show ?thesis using finish_by_coordinator job_ok_finishTerminal[OF ok] by simp
next
  case (finish_by_waiter now)
  then have "j_phase j = phaseFinalSignalSent" "j_waitDone j" "j_cause j \<noteq> causeNone"
    using ok by (simp_all add: job_ok_def)
  then show ?thesis using finish_by_waiter job_ok_finishTerminal[OF ok] by simp
qed (use ok job_ok_coordinator[OF ok] job_ok_finish_flow[OF ok] in simp_all)

lemma job_ok_step: "job_step killWait j j' \<Longrightarrow> job_ok j \<Longrightarrow> job_ok j'"
  by (cases rule: job_step.cases) (auto intro: job_ok_moves job_ok_finish_flow)

text \<open>Nothing changes what a terminated job reports.\<close>

lemma job_moves_keep_outcome:
  assumes "job_moves killWait j j'" and ok: "job_ok j" and "j_state j \<noteq> JobRunning"
  shows "j_state j' = j_state j \<and> j_exitCode j' = j_exitCode j \<and> j_cause j' = j_cause j \<and> j_completedAt j' = j_completedAt j"
proof -
  have fin: "j_finish j \<noteq> NotFinished" using job_ok_running[OF ok] assms(3) by simp
  then have cause: "j_cause j \<noteq> causeNone" using ok by (simp add: job_ok_def)
  show ?thesis using assms(1)
  proof (cases rule: job_moves.cases)
    case (status_read raw readErr)
    show ?thesis unfolding status_read by (rule readStatus_cases) (use cause in \<open>simp add: Let_def\<close>)
  next
    case (process_waited now waitDelay)
    then show ?thesis by (simp add: job_waited_def Let_def)
  next
    case (coordinator_terms res now)
    then show ?thesis by (simp add: coord_term_def advanceSignal_def Let_def)
  next
    case (coordinator_kills res now)
    then show ?thesis by (simp add: coord_kill_def advanceSignal_def Let_def)
  qed (use fin assms(3) in \<open>simp_all add: beginTermination_def coord_start_def coord_complete_def job_completed_def\<close>)
qed

lemma job_step_keeps_outcome:
  assumes "job_step killWait j j'" "job_ok j" "j_state j \<noteq> JobRunning"
  shows "j_state j' = j_state j \<and> j_exitCode j' = j_exitCode j \<and> j_cause j' = j_cause j \<and> j_completedAt j' = j_completedAt j"
  using assms(1)
proof (cases rule: job_step.cases)
  case own
  then show ?thesis using job_moves_keep_outcome[OF _ assms(2,3)] by blast
qed (simp_all add: job_completed_def)

definition job_reachable :: "int \<Rightarrow> job \<Rightarrow> bool" where
  "job_reachable killWait j \<longleftrightarrow> (\<exists>owner startedAt effective limit. (job_step killWait)\<^sup>*\<^sup>* (new_job owner startedAt effective limit) j)"

lemma job_ok_steps: "(job_step killWait)\<^sup>*\<^sup>* j j' \<Longrightarrow> job_ok j \<Longrightarrow> job_ok j'"
  by (induction rule: rtranclp_induct) (auto intro: job_ok_step)

lemma job_reachable_ok: "job_reachable killWait j \<Longrightarrow> job_ok j"
  unfolding job_reachable_def using job_ok_steps job_ok_new by blast

lemma job_steps_keep_outcome:
  assumes "(job_step killWait)\<^sup>*\<^sup>* j j'" "job_ok j" "j_state j \<noteq> JobRunning"
  shows "j_state j' = j_state j \<and> j_exitCode j' = j_exitCode j \<and> j_cause j' = j_cause j \<and> j_completedAt j' = j_completedAt j"
  using assms(1)
proof (induction rule: rtranclp_induct)
  case (step k l)
  have "job_ok k" using job_ok_steps[OF step.hyps(1) assms(2)] .
  then show ?case using job_step_keeps_outcome[OF step.hyps(2)] step.IH assms(3) by simp
qed simp

text \<open>
  C12: A job leaves \<open>JobRunning\<close> only when its process group has been sent the final signal (or is
  gone), its process is reaped and a cause is recorded; its state and exit code are those of the
  recorded cause (an exit code only for a natural end, and then a byte); and no later event, in any
  interleaving of status reader, waiter, coordinator, timer, kill and close, changes them.
\<close>

theorem job_lifecycle:
  assumes "job_reachable killWait j" "j_state j \<noteq> JobRunning" "(job_step killWait)\<^sup>*\<^sup>* j j'"
  shows "j_phase j = phaseFinalSignalSent \<and> j_waitDone j \<and> j_cause j \<noteq> causeNone \<and>
    (j_state j, j_exitCode j) = cause_outcome j \<and>
    (\<forall>code. j_exitCode j = Some code \<longrightarrow> j_cause j = causeNatural \<and> 0 \<le> code \<and> code \<le> 255) \<and>
    j_state j' = j_state j \<and> j_exitCode j' = j_exitCode j \<and> j_cause j' = j_cause j \<and> j_completedAt j' = j_completedAt j"
proof -
  have ok: "job_ok j" using job_reachable_ok[OF assms(1)] .
  have fin: "j_finish j \<noteq> NotFinished" using job_ok_running[OF ok] assms(2) by simp
  have out: "(j_state j, j_exitCode j) = cause_outcome j" using ok fin by (simp add: job_ok_def)
  have "j_cause j = causeNatural \<and> 0 \<le> code \<and> code \<le> 255" if "j_exitCode j = Some code" for code
    using out ok that by (cases "j_cause j") (auto simp: cause_outcome_def job_ok_def split: if_splits)
  then show ?thesis using ok fin out job_steps_keep_outcome[OF assms(3) ok assms(2)] by (simp add: job_ok_def)
qed

subsection \<open>A job can always be finished\<close>

lemma job_finish_closes:
  assumes "j_finish j \<noteq> NotFinished"
  shows "\<exists>j'. (job_step killWait)\<^sup>*\<^sup>* j j' \<and> j_done j'"
proof -
  have told: "\<exists>j'. (job_step killWait)\<^sup>*\<^sup>* k j' \<and> j_done j'" if "j_finish k = ManagerTold" for k
    using step_done_closed[of k killWait, OF that] by (intro exI[of _ "k\<lparr>j_finish := DoneClosed\<rparr>"]) (auto)
  show ?thesis
  proof (cases "j_finish j")
    case StateSet
    then have "job_step killWait j (job_completed j)" by (rule job_step.told)
    then show ?thesis using told[of "job_completed j"] by (auto simp: job_completed_def intro: converse_rtranclp_into_rtranclp)
  qed (use assms told in auto)
qed

lemma job_wait_finishes:
  assumes "j_coordinator j = CoordWait" "j_finish j = NotFinished"
  shows "\<exists>j'. (job_step killWait)\<^sup>*\<^sup>* j j' \<and> j_done j'"
proof -
  have waited: "\<exists>j'. (job_step killWait)\<^sup>*\<^sup>* k j' \<and> j_done j'"
    if "j_coordinator k = CoordWait" "j_finish k = NotFinished" "j_waitDone k" for k
  proof -
    let ?k = "k\<lparr>j_coordinator := CoordFinish\<rparr>"
    have "job_step killWait k ?k" using that by (intro step_wait_over) simp_all
    moreover have "job_step killWait ?k (finishTerminal 0 ?k)" using that by (intro step_finish_by_coordinator) simp_all
    moreover have "j_finish (finishTerminal 0 ?k) = StateSet" by (simp add: finishTerminal_def Let_def split: prod.split)
    then obtain l where "(job_step killWait)\<^sup>*\<^sup>* (finishTerminal 0 ?k) l" "j_done l" using job_finish_closes[of "finishTerminal 0 ?k"] by auto
    ultimately show ?thesis by (blast intro: converse_rtranclp_into_rtranclp)
  qed
  show ?thesis
  proof (cases "j_waitDone j")
    case False
    let ?j = "job_waited killWait 0 False j"
    have "job_step killWait j ?j" using False by (rule step_process_waited)
    moreover have "\<exists>j'. (job_step killWait)\<^sup>*\<^sup>* ?j j' \<and> j_done j'" using assms by (intro waited) (simp_all add: job_waited_def Let_def)
    ultimately show ?thesis by (blast intro: converse_rtranclp_into_rtranclp)
  qed (use assms waited in simp)
qed

lemma job_kill_finishes:
  assumes "j_coordinator j = CoordKill" "j_finish j = NotFinished"
  shows "\<exists>j'. (job_step killWait)\<^sup>*\<^sup>* j j' \<and> j_done j'"
proof -
  have "job_step killWait j (coord_kill Signaled 0 j)" using assms(1) by (rule step_coordinator_kills)
  moreover have "\<exists>j'. (job_step killWait)\<^sup>*\<^sup>* (coord_kill Signaled 0 j) j' \<and> j_done j'"
    using assms by (intro job_wait_finishes) (simp_all add: coord_kill_def advanceSignal_def Let_def)
  ultimately show ?thesis by (blast intro: converse_rtranclp_into_rtranclp)
qed

lemma job_grace_finishes:
  assumes "j_coordinator j \<in> {CoordGrace, CoordKill, CoordWait}" "j_finish j = NotFinished"
  shows "\<exists>j'. (job_step killWait)\<^sup>*\<^sup>* j j' \<and> j_done j'"
proof (cases "j_coordinator j = CoordGrace")
  case True
  then have "job_step killWait j (j\<lparr>j_coordinator := CoordKill\<rparr>)" by (rule step_grace_over)
  moreover have "\<exists>j'. (job_step killWait)\<^sup>*\<^sup>* (j\<lparr>j_coordinator := CoordKill\<rparr>) j' \<and> j_done j'"
    using assms by (intro job_kill_finishes) simp_all
  ultimately show ?thesis by (blast intro: converse_rtranclp_into_rtranclp)
qed (use assms job_kill_finishes job_wait_finishes in auto)

lemma coord_after_term_at: "coord_after_term j \<in> {CoordGrace, CoordKill, CoordWait}"
  by (simp add: coord_after_term_def)

lemma job_start_finishes:
  assumes "j_coordinator j \<in> {CoordStart, CoordTerm, CoordGrace, CoordKill, CoordWait}" "j_finish j = NotFinished"
  shows "\<exists>j'. (job_step killWait)\<^sup>*\<^sup>* j j' \<and> j_done j'"
proof -
  have from_term: "\<exists>j'. (job_step killWait)\<^sup>*\<^sup>* k j' \<and> j_done j'" if "j_coordinator k = CoordTerm" "j_finish k = NotFinished" for k
  proof -
    have "job_step killWait k (coord_term Signaled 0 k)" using that(1) by (rule step_coordinator_terms)
    moreover have "\<exists>j'. (job_step killWait)\<^sup>*\<^sup>* (coord_term Signaled 0 k) j' \<and> j_done j'"
      using that coord_after_term_at by (intro job_grace_finishes) (simp_all add: coord_term_def advanceSignal_def Let_def)
    ultimately show ?thesis by (blast intro: converse_rtranclp_into_rtranclp)
  qed
  show ?thesis
  proof (cases "j_coordinator j = CoordStart")
    case True
    have "\<exists>j'. (job_step killWait)\<^sup>*\<^sup>* (coord_start j) j' \<and> j_done j'"
    proof (cases "j_coordinator (coord_start j) = CoordTerm")
      case False
      then show ?thesis using assms(2) coord_after_term_at by (intro job_grace_finishes) (auto simp: coord_start_def)
    qed (use assms(2) in \<open>auto simp: coord_start_def intro: from_term\<close>)
    then show ?thesis using step_coordinator_starts[OF True] by (blast intro: converse_rtranclp_into_rtranclp)
  qed (use assms from_term job_grace_finishes in auto)
qed

lemma job_idle_finishes:
  assumes "job_ok j" "j_coordinator j = NoCoordinator" "j_finish j = NotFinished"
  shows "\<exists>j'. (job_step killWait)\<^sup>*\<^sup>* j j' \<and> j_done j'"
proof -
  let ?j = "snd (beginTermination causeKill j)"
  have "j_state j = JobRunning" "\<not> j_coordinatorRunning j" using assms by (auto simp: job_ok_def)
  then have "\<exists>j'. (job_step killWait)\<^sup>*\<^sup>* ?j j' \<and> j_done j'"
    using assms(3) by (intro job_start_finishes) (auto simp: beginTermination_def startCoordinatorLocked_def Let_def)
  moreover have "job_step killWait j ?j" by (intro step_terminated) simp
  ultimately show ?thesis by (blast intro: converse_rtranclp_into_rtranclp)
qed

text \<open>
  Whatever has happened to a job, a completed, a failed or a timed-out termination attempt
  included, it can still be brought to its end: from every reachable state some continuation closes
  \<open>job.done\<close>. In particular a failed attempt leaves the job in a state from which \<open>kill\<close> starts a new one.
\<close>

theorem job_can_finish:
  assumes "job_reachable killWait j"
  shows "\<exists>j'. (job_step killWait)\<^sup>*\<^sup>* j j' \<and> j_done j'"
proof (cases "j_finish j = NotFinished")
  case True
  have ok: "job_ok j" using job_reachable_ok[OF assms] .
  show ?thesis
  proof (cases "j_coordinator j")
    case CoordComplete
    have "job_ok (coord_complete j)" using job_ok_coordinator(7)[OF ok CoordComplete] .
    then have "\<exists>j'. (job_step killWait)\<^sup>*\<^sup>* (coord_complete j) j' \<and> j_done j'"
      using True by (intro job_idle_finishes) (simp_all add: coord_complete_def)
    then show ?thesis using step_attempt_completes[OF CoordComplete] by (blast intro: converse_rtranclp_into_rtranclp)
  next
    case CoordFinish
    have "\<exists>j'. (job_step killWait)\<^sup>*\<^sup>* (finishTerminal 0 j) j' \<and> j_done j'"
      using finishTerminal_fields(3)[OF ok True, of 0] by (intro job_finish_closes) simp
    then show ?thesis using step_finish_by_coordinator[OF CoordFinish True] by (blast intro: converse_rtranclp_into_rtranclp)
  qed (use ok True job_idle_finishes job_start_finishes in auto)
qed (rule job_finish_closes)

subsection \<open>Witnesses and the status line\<close>

text \<open>A job whose shell ends by itself with status 3.\<close>

definition natural_run :: job where
  "natural_run =
     finishTerminal 9 (job_waited 20 5 False (coord_kill Signaled 4 (coord_start
       (readStatus (''v1:3'' @ [CHR 0x0A]) False (new_job (''s'', ''w'') 0 0 4)))))"

lemma natural_run_reachable: "job_reachable 20 natural_run"
proof -
  define a where "a = new_job (''s'', ''w'') 0 0 4"
  define b where "b = readStatus (''v1:3'' @ [CHR 0x0A]) False a"
  define c where "c = coord_start b"
  define d where "d = coord_kill Signaled 4 c"
  define e where "e = job_waited 20 5 False d"
  note run = a_def b_def c_def d_def e_def
  have b: "b = startCoordinatorLocked (a\<lparr>j_statusValid := True, j_statusCode := 3, j_statusReady := True, j_cause := causeNatural\<rparr>)"
    unfolding b_def a_def by code_simp
  have c: "c = b\<lparr>j_coordinator := CoordKill\<rparr>"
    unfolding c_def b a_def by (simp add: coord_start_def coord_after_term_def startCoordinatorLocked_def new_job_def)
  have d: "d = c\<lparr>j_phase := phaseFinalSignalSent, j_finalSignalAt := Some 4, j_coordinator := CoordWait\<rparr>"
    unfolding d_def by (simp add: coord_kill_def advanceSignal_def)
  have "job_step 20 a b" unfolding b_def by (rule step_status_read) (simp add: a_def new_job_def)
  moreover have "job_step 20 b c" unfolding c_def by (rule step_coordinator_starts) (simp add: b startCoordinatorLocked_def)
  moreover have "job_step 20 c d" unfolding d_def by (rule step_coordinator_kills) (simp add: c)
  moreover have "job_step 20 d e" unfolding e_def
    by (rule step_process_waited) (simp add: d c b a_def new_job_def startCoordinatorLocked_def)
  moreover have "job_step 20 e (finishTerminal 9 e)"
    by (rule step_finish_by_waiter) (simp_all add: e_def job_waited_def Let_def d c b a_def new_job_def startCoordinatorLocked_def)
  ultimately have "(job_step 20)\<^sup>*\<^sup>* a (finishTerminal 9 e)" by (meson converse_rtranclp_into_rtranclp rtranclp.rtrancl_refl)
  moreover have "natural_run = finishTerminal 9 e" by (simp add: natural_run_def run)
  ultimately show ?thesis unfolding job_reachable_def a_def by metis
qed

lemma natural_run_outcome: "j_state natural_run = JobFailed \<and> j_exitCode natural_run = Some 3 \<and> j_cause natural_run = causeNatural"
  by code_simp

theorem job_lifecycle_witness:
  "j_state natural_run = JobFailed \<and> j_phase natural_run = phaseFinalSignalSent \<and> j_waitDone natural_run \<and>
    (j_state natural_run, j_exitCode natural_run) = cause_outcome natural_run"
  using job_lifecycle[OF natural_run_reachable, of natural_run] natural_run_outcome by simp

theorem job_can_finish_witness: "\<exists>j'. (job_step 20)\<^sup>*\<^sup>* natural_run j' \<and> j_done j'"
  by (rule job_can_finish[OF natural_run_reachable])

lemma digits_code_snoc:
  "digits_code a (l @ [c]) =
     (case digits_code a l of None \<Rightarrow> None | Some v \<Rightarrow> if CHR ''0'' \<le> c \<and> c \<le> CHR ''9'' then Some (10 * v + int (byte c) - 48) else None)"
  by (induction l arbitrary: a) auto

lemma digits_code_nat_digits: "digits_code 0 (nat_digits n) = Some (int n)"
proof (induction n rule: nat_digits.induct)
  case (1 n)
  show ?case
  proof (cases "n < 10")
    case True
    then show ?thesis by (subst nat_digits.simps) (simp add: less_eq_char_def of_char_of)
  next
    case False
    have "10 * (int n div 10) + int n mod 10 = int n" by simp
    then show ?thesis using 1[OF False] False
      by (subst nat_digits.simps) (simp add: digits_code_snoc less_eq_char_def of_char_of zdiv_int zmod_int)
  qed
qed

lemma length_nat_digits_byte: "n < 1000 \<Longrightarrow> length (nat_digits n) \<le> 3"
  by (subst nat_digits.simps, subst nat_digits.simps, subst nat_digits.simps) simp

lemma parseSupervisorStatus_code:
  assumes "n < 256"
  shows "parseSupervisorStatus (''v1:'' @ nat_digits n @ [CHR 0x0A]) False = (True, int n)"
proof -
  obtain c t where c: "nat_digits n = c # t" using nat_digits_digits[of n] by (cases "nat_digits n") auto
  have l: "length t \<le> 2" using length_nat_digits_byte[of n] assms c by simp
  have d: "is_digit c" using nat_digits_digits[of n] c by simp
  then have sign: "c \<noteq> CHR ''-''" "c \<noteq> CHR ''+''" by (auto simp: is_digit_def)
  have zero: "t = []" if "c = CHR ''0''" using nat_digits_zero[of n] c that nat_digits_lt10 by auto
  have "Atoi (c # t) = Some (int n)" using digits_code_nat_digits[of n] sign c by (simp add: Atoi_def)
  moreover have "go_slice (''v1:'' @ (c # t) @ [CHR 0x0A]) 3 (length (''v1:'' @ (c # t) @ [CHR 0x0A]) - 1) = c # t"
    by (simp add: go_slice_def)
  ultimately show ?thesis using l assms zero c by (auto simp: parseSupervisorStatus_def HasPrefix_def Let_def len_def)
qed

text \<open>
  The status line of every exit code is read back as that code, and whatever is accepted carries
  a code from 0 to 255.
\<close>

theorem supervisor_status_roundtrip:
  "(\<forall>code \<in> {0..255}. parseSupervisorStatus (''v1:'' @ int_lit code @ [CHR 0x0A]) False = (True, code)) \<and>
   (\<forall>raw readErr code. parseSupervisorStatus raw readErr = (True, code) \<longrightarrow> \<not> readErr \<and> 0 \<le> code \<and> code \<le> 255)"
proof
  show "\<forall>code \<in> {0..255}. parseSupervisorStatus (''v1:'' @ int_lit code @ [CHR 0x0A]) False = (True, code)"
  proof
    fix code :: int
    assume range: "code \<in> {0..255}"
    then have "nat code < 256" by (simp add: nat_less_iff)
    then show "parseSupervisorStatus (''v1:'' @ int_lit code @ [CHR 0x0A]) False = (True, code)"
      using parseSupervisorStatus_code[of "nat code"] range by (simp add: int_lit_def)
  qed
  have "\<not> readErr" if "parseSupervisorStatus raw readErr = (True, code)" for raw readErr code
    using that by (auto simp: parseSupervisorStatus_def split: if_splits)
  then show "\<forall>raw readErr code. parseSupervisorStatus raw readErr = (True, code) \<longrightarrow> \<not> readErr \<and> 0 \<le> code \<and> code \<le> 255"
    using parseSupervisorStatus_range by blast
qed

theorem supervisor_status_roundtrip_witness:
  "(0::int) \<le> 137 \<and> (137::int) \<le> 255 \<and> parseSupervisorStatus (''v1:137'' @ [CHR 0x0A]) False = (True, 137)"
proof -
  have "int_lit 137 = ''137''" by code_simp
  then show ?thesis using bspec[OF conjunct1[OF supervisor_status_roundtrip], of 137] by simp
qed

end
