(* ===== verification/Jobs_Manager.thy ===== *)
theory Jobs_Manager
  imports Jobs Coordinator "HOL-Library.Product_Lexorder"
begin

section \<open>backgroundjobs: the manager\<close>

text \<open>
  manager.go. The objects \<open>*job\<close> live in the store \<open>m_store\<close> under their identity; the maps
  \<open>jobs\<close> and \<open>hidden\<close> are the lists of the identities they hold. The goroutines inside \<open>start\<close>
  are \<open>m_starts\<close>: each has a reservation, and the position it has reached. Every definition is one
  section under the manager's mutex, and \<open>mgr_step\<close> interleaves them with each other and with
  whatever the jobs do. \<open>close_step\<close> runs one call of \<open>Close\<close> from wait to wait among all of this, up to
  the value it returns; \<open>close_step_refines\<close> shows that its sections are steps of the manager.
\<close>

subsection \<open>Limits, errors and identities\<close>

record bj_Limits =
  MaxRunning :: int
  MaxTracked :: int
  MaxCommandBytes :: int
  MaxWorkingDirectoryBytes :: int
  MaxOutputBytesPerStream :: int
  MaxEnvironmentEntries :: int
  bj_MaxEnvironmentBytes :: int
  DefaultTimeout :: int
  MaxTimeout :: int
  TerminateGrace :: int
  KillWait :: int

datatype bj_error = errJobNotFound | errManagerClosing | errCapacityExhausted | errTerminationIncomplete bool
  | bj_configError string | bj_runtimeError string | bj_operationError string

definition Second :: int where
  "Second = 1000000000"

definition bj_validateLimits :: "bj_Limits \<Rightarrow> bj_error option" where
  "bj_validateLimits l =
     (if list_ex (\<lambda>v. v \<le> 0) [MaxRunning l, MaxTracked l, MaxCommandBytes l, MaxWorkingDirectoryBytes l,
           MaxOutputBytesPerStream l, MaxEnvironmentEntries l, bj_MaxEnvironmentBytes l] then Some (bj_configError ''limits'')
      else if MaxTracked l < MaxRunning l then Some (bj_configError ''tracked-below-running'')
      else if MaxTimeout l < Second \<or> MaxTimeout l mod Second \<noteq> 0 then Some (bj_configError ''max-timeout'')
      else if DefaultTimeout l < 0 \<or> DefaultTimeout l mod Second \<noteq> 0 \<or> DefaultTimeout l > MaxTimeout l
        then Some (bj_configError ''default-timeout'')
      else if TerminateGrace l \<le> 0 \<or> KillWait l \<le> 0 then Some (bj_configError ''termination-bounds'')
      else if TerminateGrace l > MaxInt64 - KillWait l - Second then Some (bj_configError ''termination-bounds'')
      else None)"

fun hex_pad :: "nat \<Rightarrow> nat \<Rightarrow> string" where
  "hex_pad 0 n = []"
| "hex_pad (Suc k) n = hex_pad k (n div 16) @ [hex_char (n mod 16)]"

definition EncodeToString :: "bytes \<Rightarrow> string" where
  "EncodeToString bs = concat (map (\<lambda>b. hex_pad 2 (byte b)) bs)"

definition job_id :: "bytes \<Rightarrow> 64 word \<Rightarrow> string" where
  "job_id epoch counter = ''job_'' @ EncodeToString epoch @ ''_'' @ hex_pad 16 (unat counter)"

text \<open>
  The loop over \<open>id[4:]\<close> takes runes; a rune that is not one byte starts with a byte above 0x7F and
  has a value above both ranges, so the first such byte refuses the identity as its rune does.
\<close>

fun valid_id_bytes :: "nat \<Rightarrow> string \<Rightarrow> bool" where
  "valid_id_bytes index [] = True"
| "valid_id_bytes index (r # rs) =
     (if index = 32 then valid_id_bytes (Suc index) rs
      else if (r < CHR ''0'' \<or> r > CHR ''9'') \<and> (r < CHR ''a'' \<or> r > CHR ''f'') then False
      else valid_id_bytes (Suc index) rs)"

definition validJobID :: "string \<Rightarrow> bool" where
  "validJobID i =
     (if length i \<noteq> 53 \<or> \<not> HasPrefix i ''job_'' \<or> i ! 36 \<noteq> CHR ''_'' then False
      else valid_id_bytes 0 (drop 4 i))"

subsection \<open>State\<close>

datatype start_at = Reserved | Spawned | ReadyKnown bool | GateTested bool bool

record manager =
  m_epoch :: bytes
  m_counter :: "64 word"
  m_store :: "string \<rightharpoonup> job"
  m_jobs :: "string list"
  m_hidden :: "string list"
  m_starting :: int
  m_running :: int
  m_closing :: bool
  m_closed :: bool
  m_starts :: "(string \<times> start_at) list"

definition newManager :: "bytes \<Rightarrow> manager" where
  "newManager epoch =
     \<lparr>m_epoch = epoch, m_counter = 0, m_store = Map.empty, m_jobs = [], m_hidden = [], m_starting = 0, m_running = 0,
      m_closing = False, m_closed = False, m_starts = []\<rparr>"

definition tracked :: "manager \<Rightarrow> int" where
  "tracked m = len (m_jobs m) + len (m_hidden m) + m_starting m"

subsection \<open>Admission\<close>

text \<open>The candidate for removal: the completed job that completed first, by identity among equals.\<close>

definition completes_before :: "manager \<Rightarrow> string \<Rightarrow> string \<Rightarrow> bool" where
  "completes_before m a b =
     (case (m_store m a, m_store m b) of
        (Some j, Some k) \<Rightarrow>
          (case (j_completedAt j, j_completedAt k) of
             (Some s, Some t) \<Rightarrow> s < t \<or> s = t \<and> a < b
           | _ \<Rightarrow> False)
      | _ \<Rightarrow> False)"

definition is_done :: "manager \<Rightarrow> string \<Rightarrow> bool" where
  "is_done m i = (case m_store m i of None \<Rightarrow> False | Some j \<Rightarrow> j_done j)"

definition prune_candidate :: "manager \<Rightarrow> string option" where
  "prune_candidate m =
     fold (\<lambda>current candidate.
             if \<not> is_done m current then candidate
             else case candidate of
                    None \<Rightarrow> Some current
                  | Some c \<Rightarrow> if completes_before m current c then Some current else candidate)
       (m_jobs m) None"

lemma prune_candidate_some: "prune_candidate m = Some c \<Longrightarrow> c \<in> set (m_jobs m) \<and> is_done m c"
proof -
  have "fold (\<lambda>current candidate. if \<not> is_done m current then candidate
        else case candidate of None \<Rightarrow> Some current | Some c \<Rightarrow> if completes_before m current c then Some current else candidate) xs a = Some c \<Longrightarrow>
      (a = Some c \<or> c \<in> set xs \<and> is_done m c)" for xs a
    by (induction xs arbitrary: a) (fastforce split: if_splits option.splits)+
  then show "prune_candidate m = Some c \<Longrightarrow> ?thesis" unfolding prune_candidate_def by fastforce
qed

function pruneLocked :: "bj_Limits \<Rightarrow> manager \<Rightarrow> manager" where
  "pruneLocked l m =
     (if tracked m \<ge> MaxTracked l then
        (case prune_candidate m of
           None \<Rightarrow> m
         | Some c \<Rightarrow> pruneLocked l (m\<lparr>m_jobs := removeAll c (m_jobs m)\<rparr>))
      else m)"
  by pat_completeness auto
termination
  by (relation "measure (\<lambda>(l, m). length (m_jobs m))") (auto dest!: prune_candidate_some intro: length_removeAll_less)

declare pruneLocked.simps [simp del]

definition reserveStart :: "bj_Limits \<Rightarrow> manager \<Rightarrow> (bj_error + string) \<times> manager" where
  "reserveStart l m =
     (if m_closing m \<or> m_closed m then (Inl errManagerClosing, m)
      else let m = pruneLocked l m in
        if m_starting m + m_running m \<ge> MaxRunning l \<or> tracked m \<ge> MaxTracked l then (Inl errCapacityExhausted, m)
        else if m_counter m = - 1 then (Inl (bj_operationError ''identity-exhausted''), m)
        else let m = m\<lparr>m_counter := m_counter m + 1\<rparr>; i = job_id (m_epoch m) (m_counter m) in
          (Inr i, m\<lparr>m_starting := m_starting m + 1, m_starts := (i, Reserved) # m_starts m\<rparr>))"

subsection \<open>The sections of start\<close>

definition releaseReservation :: "string \<Rightarrow> manager \<Rightarrow> manager" where
  "releaseReservation i m = m\<lparr>m_starting := m_starting m - 1, m_starts := AList.delete i (m_starts m)\<rparr>"

text \<open>The product stays within int64 for the seconds \<open>normalizeStart\<close> accepts, at most \<open>MaxTimeout / time.Second\<close>.\<close>

definition effective_time :: "bj_Limits \<Rightarrow> int option \<Rightarrow> int" where
  "effective_time l timeoutSeconds =
     (case timeoutSeconds of
        Some s \<Rightarrow> if s > 0 then s * Second else DefaultTimeout l
      | None \<Rightarrow> DefaultTimeout l)"

definition spawn_job :: "bj_Limits \<Rightarrow> string \<Rightarrow> string \<times> string \<Rightarrow> int \<Rightarrow> int option \<Rightarrow> manager \<Rightarrow> manager" where
  "spawn_job l i owner startedAt timeoutSeconds m =
     m\<lparr>m_store := (m_store m)(i \<mapsto> new_job owner startedAt (effective_time l timeoutSeconds) (nat (MaxOutputBytesPerStream l))),
       m_starts := AList.update i Spawned (m_starts m)\<rparr>"

definition ready_section :: "bool \<Rightarrow> string \<Rightarrow> manager \<Rightarrow> manager" where
  "ready_section readyErr i m =
     m\<lparr>m_store := (m_store m)(i := map_option (\<lambda>j. j\<lparr>j_ready := \<not> readyErr\<rparr>) (m_store m i)),
       m_starts := AList.update i (ReadyKnown readyErr) (m_starts m)\<rparr>"

text \<open>The gate opens when nothing speaks against it; failing to write to it closes it again.\<close>

definition gate_section :: "bool \<Rightarrow> bool \<Rightarrow> bool \<Rightarrow> string \<Rightarrow> manager \<Rightarrow> manager" where
  "gate_section readyErr canceled releaseErr i m =
     (let gateReleased = (\<not> readyErr \<and> \<not> canceled \<and> \<not> m_closing m) in
      m\<lparr>m_starts := AList.update i (if releaseErr then GateTested True False else GateTested readyErr gateReleased) (m_starts m)\<rparr>)"

definition publish_section :: "bool \<Rightarrow> bool \<Rightarrow> bool \<Rightarrow> string \<Rightarrow> manager \<Rightarrow> manager" where
  "publish_section readyErr gateReleased callerCanceled i m =
     (case m_store m i of
        None \<Rightarrow> m
      | Some j \<Rightarrow>
          let terminal = j_done j;
              publish = (\<not> readyErr \<and> gateReleased \<and> \<not> m_closing m \<and> \<not> callerCanceled);
              j = (if publish then j\<lparr>j_published := True\<rparr> else j);
              m = (if publish then m\<lparr>m_jobs := List.insert i (m_jobs m)\<rparr>
                   else if \<not> terminal then m\<lparr>m_hidden := List.insert i (m_hidden m)\<rparr> else m);
              j = (if \<not> terminal then j\<lparr>j_counted := True\<rparr> else j);
              m = (if \<not> terminal then m\<lparr>m_running := m_running m + 1\<rparr> else m) in
          m\<lparr>m_store := (m_store m)(i \<mapsto> j), m_starting := m_starting m - 1, m_starts := AList.delete i (m_starts m)\<rparr>)"

definition arm_timer :: "job \<Rightarrow> job" where
  "arm_timer j =
     (if j_effectiveTime j > 0 \<and> j_published j then (if j_state j = JobRunning then j\<lparr>j_timer := TimerArmed\<rparr> else j) else j)"

subsection \<open>Completion and close\<close>

definition jobCompleted :: "string \<Rightarrow> manager \<Rightarrow> manager" where
  "jobCompleted i m =
     (case m_store m i of
        None \<Rightarrow> m
      | Some j \<Rightarrow>
          let m = m\<lparr>m_hidden := removeAll i (m_hidden m)\<rparr>;
              m = (if j_counted j then m\<lparr>m_running := m_running m - 1\<rparr> else m) in
          m\<lparr>m_store := (m_store m)(i \<mapsto> job_completed j)\<rparr>)"

definition close_begin :: "manager \<Rightarrow> manager" where
  "close_begin m = (if m_closed m then m else m\<lparr>m_closing := True\<rparr>)"

text \<open>What \<open>Close\<close> has waited for when it comes to its last section.\<close>

definition job_settled :: "job \<Rightarrow> bool" where
  "job_settled j \<longleftrightarrow> j_done j \<and> (j_coordinator j = NoCoordinator \<or> j_coordinator j = CoordFinish) \<and> j_statusReady j \<and>
     (j_timer j = NoTimer \<or> j_timeoutDone j)"

definition close_end :: "manager \<Rightarrow> manager" where
  "close_end m = m\<lparr>m_jobs := [], m_hidden := [], m_closed := True\<rparr>"

subsection \<open>What the tools show\<close>

text \<open>\<open>formatTime\<close> prints a time; it is applied to the recorded times only.\<close>

record StatusResult =
  st_ID :: string
  st_State :: JobState
  st_StartedAt :: string
  st_CompletedAt :: string
  st_TimeoutSeconds :: int
  st_ExitCode :: "int option"
  st_Stdout :: TailResult
  st_Stderr :: TailResult

record JobSummary =
  sum_ID :: string
  sum_State :: JobState
  sum_StartedAt :: string
  sum_CompletedAt :: string
  sum_TimeoutSeconds :: int

record StartResult =
  sr_ID :: string
  sr_State :: JobState
  sr_StartedAt :: string
  sr_TimeoutSeconds :: int

record KillResult =
  kr_ID :: string
  kr_State :: JobState
  kr_NewlyAccepted :: bool

definition completed_text :: "(int \<Rightarrow> string) \<Rightarrow> job \<Rightarrow> string" where
  "completed_text formatTime j = (case j_completedAt j of None \<Rightarrow> [] | Some t \<Rightarrow> formatTime t)"

definition startResult :: "(int \<Rightarrow> string) \<Rightarrow> string \<Rightarrow> job \<Rightarrow> StartResult" where
  "startResult formatTime i j =
     \<lparr>sr_ID = i, sr_State = j_state j, sr_StartedAt = formatTime (j_startedAt j), sr_TimeoutSeconds = j_effectiveTime j div Second\<rparr>"

definition statusResult :: "(int \<Rightarrow> string) \<Rightarrow> string \<Rightarrow> job \<Rightarrow> StatusResult" where
  "statusResult formatTime i j =
     \<lparr>st_ID = i, st_State = j_state j, st_StartedAt = formatTime (j_startedAt j), st_CompletedAt = completed_text formatTime j,
      st_TimeoutSeconds = j_effectiveTime j div Second, st_ExitCode = j_exitCode j,
      st_Stdout = tail_snapshot (j_stdout j), st_Stderr = tail_snapshot (j_stderr j)\<rparr>"

definition job_summary :: "(int \<Rightarrow> string) \<Rightarrow> string \<Rightarrow> job \<Rightarrow> JobSummary" where
  "job_summary formatTime i j =
     \<lparr>sum_ID = i, sum_State = j_state j, sum_StartedAt = formatTime (j_startedAt j), sum_CompletedAt = completed_text formatTime j,
      sum_TimeoutSeconds = j_effectiveTime j div Second\<rparr>"

definition owned_job :: "string \<times> string \<Rightarrow> string \<Rightarrow> manager \<Rightarrow> job option" where
  "owned_job owner i m =
     (if i \<in> set (m_jobs m)
      then (case m_store m i of None \<Rightarrow> None | Some j \<Rightarrow> if j_owner j \<noteq> owner then None else Some j)
      else None)"

definition mgr_status :: "(int \<Rightarrow> string) \<Rightarrow> string \<times> string \<Rightarrow> string \<Rightarrow> manager \<Rightarrow> bj_error + StatusResult" where
  "mgr_status formatTime owner i m =
     (case owned_job owner i m of None \<Rightarrow> Inl errJobNotFound | Some j \<Rightarrow> Inr (statusResult formatTime i j))"

definition started_at :: "manager \<Rightarrow> string \<Rightarrow> int" where
  "started_at m i = (case m_store m i of None \<Rightarrow> 0 | Some j \<Rightarrow> j_startedAt j)"

definition mgr_list :: "(int \<Rightarrow> string) \<Rightarrow> string \<times> string \<Rightarrow> manager \<Rightarrow> JobSummary list" where
  "mgr_list formatTime owner m =
     (let jobs = filter (\<lambda>i. owned_job owner i m \<noteq> None) (m_jobs m);
          sorted = sort_key (\<lambda>i. (started_at m i, i)) jobs in
      map (\<lambda>i. case m_store m i of None \<Rightarrow> job_summary formatTime i (new_job owner 0 0 0) | Some j \<Rightarrow> job_summary formatTime i j) sorted)"

text \<open>
  \<open>select\<close> takes any ready case: the results it may return, none while it blocks. The first argument
  is \<open>job.done\<close>, the second the attempt, the third the caller's context.
\<close>

definition waitForTermination :: "bool \<Rightarrow> bool \<Rightarrow> bool \<Rightarrow> bj_error option list" where
  "waitForTermination jobDone attempt ctxDone =
     (if jobDone then [None] else []) @
     (if attempt then [if jobDone then None else Some (errTerminationIncomplete False)] else []) @
     (if ctxDone then [Some (errTerminationIncomplete True)] else [])"

definition kill_begin :: "string \<times> string \<Rightarrow> string \<Rightarrow> manager \<Rightarrow> (bj_error + bool \<times> nat option) \<times> manager" where
  "kill_begin owner i m =
     (case owned_job owner i m of
        None \<Rightarrow> (Inl errJobNotFound, m)
      | Some j \<Rightarrow> (case beginTermination causeKill j of (r, j) \<Rightarrow> (Inr r, m\<lparr>m_store := (m_store m)(i \<mapsto> j)\<rparr>)))"

definition kill_end :: "(int \<Rightarrow> string) \<Rightarrow> bool \<Rightarrow> bj_error option \<Rightarrow> string \<Rightarrow> job \<Rightarrow> bj_error + KillResult" where
  "kill_end formatTime newly waited i j =
     (case waited of
        Some e \<Rightarrow> Inl e
      | None \<Rightarrow> let status = statusResult formatTime i j in
          Inr \<lparr>kr_ID = st_ID status, kr_State = st_State status, kr_NewlyAccepted = newly\<rparr>)"

subsection \<open>The steps of the manager and its jobs\<close>

inductive mgr_step :: "bj_Limits \<Rightarrow> manager \<Rightarrow> manager \<Rightarrow> bool" for l where
  reserves: "mgr_step l m (snd (reserveStart l m))"
| releases: "(i, Reserved) \<in> set (m_starts m) \<Longrightarrow> mgr_step l m (releaseReservation i m)"
| spawns: "(i, Reserved) \<in> set (m_starts m) \<Longrightarrow> mgr_step l m (spawn_job l i owner startedAt timeoutSeconds m)"
| readies: "(i, Spawned) \<in> set (m_starts m) \<Longrightarrow> mgr_step l m (ready_section readyErr i m)"
| gates: "(i, ReadyKnown readyErr) \<in> set (m_starts m) \<Longrightarrow> mgr_step l m (gate_section readyErr canceled releaseErr i m)"
| publishes: "(i, GateTested readyErr gateReleased) \<in> set (m_starts m) \<Longrightarrow>
    mgr_step l m (publish_section readyErr gateReleased callerCanceled i m)"
| arms: "m_store m i = Some j \<Longrightarrow> i \<notin> fst ` set (m_starts m) \<Longrightarrow> j_timer j = NoTimer \<Longrightarrow>
    mgr_step l m (m\<lparr>m_store := (m_store m)(i \<mapsto> arm_timer j)\<rparr>)"
| moves: "m_store m i = Some j \<Longrightarrow> job_moves (KillWait l) j j' \<Longrightarrow> mgr_step l m (m\<lparr>m_store := (m_store m)(i \<mapsto> j')\<rparr>)"
| completes: "m_store m i = Some j \<Longrightarrow> j_finish j = StateSet \<Longrightarrow> mgr_step l m (jobCompleted i m)"
| closes: "mgr_step l m (close_begin m)"
| closed: "m_closing m \<Longrightarrow> m_starting m = 0 \<Longrightarrow>
    (\<And>i j. i \<in> set (m_jobs m) \<union> set (m_hidden m) \<Longrightarrow> m_store m i = Some j \<Longrightarrow> job_settled j) \<Longrightarrow> mgr_step l m (close_end m)"

text \<open>
  One call of \<open>Close\<close>, section by section: the position it has reached, with the jobs and attempts
  that are its local variables. \<open>select\<close> takes any ready case, so an ended context may win at every wait.
\<close>

datatype close_at =
    CloseStarts
  | CloseBegins "string list" "(string \<times> nat option) list"
  | CloseWaits "(string \<times> nat option) list"
  | CloseJoins "(string \<times> nat option) list"
  | CloseTimers "(string \<times> nat option) list"
  | CloseReturned "bj_error option"

definition close_enter :: "manager \<Rightarrow> close_at \<times> manager" where
  "close_enter m = (if m_closed m then CloseReturned None else CloseStarts, close_begin m)"

text \<open>Whether the channel that \<open>beginTermination\<close> returned is closed.\<close>

definition attempt_over :: "nat option \<Rightarrow> job \<Rightarrow> bool" where
  "attempt_over a j = (case a of None \<Rightarrow> j_done j | Some n \<Rightarrow> n < j_attempt j \<or> n = j_attempt j \<and> \<not> j_attemptOpen j)"

definition close_begin_one :: "string \<Rightarrow> string list \<Rightarrow> (string \<times> nat option) list \<Rightarrow> job \<Rightarrow> manager \<Rightarrow> close_at \<times> manager" where
  "close_begin_one i ids as j m =
     (case beginTermination causeClose j of
        ((_, attempt), j) \<Rightarrow> (CloseBegins ids (as @ [(i, attempt)]), m\<lparr>m_store := (m_store m)(i \<mapsto> j)\<rparr>))"

definition close_waited :: "bj_error option \<Rightarrow> (string \<times> nat option) list \<Rightarrow> close_at" where
  "close_waited r as = (case r of None \<Rightarrow> CloseJoins as | Some e \<Rightarrow> CloseReturned (Some e))"

text \<open>\<open>goroutines.Wait()\<close>: the reader of the status, the waiter and the coordinator have returned.\<close>

definition goroutines_ended :: "job \<Rightarrow> bool" where
  "goroutines_ended j \<longleftrightarrow> j_statusReady j \<and> j_waitDone j \<and> (j_finalize j \<longrightarrow> j_done j) \<and>
     (j_coordinator j = NoCoordinator \<or> j_coordinator j = CoordFinish \<and> j_done j)"

definition close_joined :: "job \<Rightarrow> (string \<times> nat option) list \<Rightarrow> close_at" where
  "close_joined j as = (if j_timer j = NoTimer then CloseWaits (tl as) else CloseTimers as)"

inductive close_step :: "bj_Limits \<Rightarrow> close_at \<times> manager \<Rightarrow> close_at \<times> manager \<Rightarrow> bool" for l where
  others: "mgr_step l m m' \<Longrightarrow> close_step l (c, m) (c, m')"
| starts_done: "m_starting m = 0 \<Longrightarrow> distinct jobs \<Longrightarrow> set jobs = set (m_jobs m) \<Longrightarrow> distinct hidden \<Longrightarrow> set hidden = set (m_hidden m) \<Longrightarrow>
    close_step l (CloseStarts, m) (CloseBegins (jobs @ hidden) [], m)"
| starts_canceled: "close_step l (CloseStarts, m) (CloseReturned (Some (errTerminationIncomplete True)), m)"
| begins: "m_store m i = Some j \<Longrightarrow> close_step l (CloseBegins (i # ids) as, m) (close_begin_one i ids as j m)"
| begun: "close_step l (CloseBegins [] as, m) (CloseWaits as, m)"
| waited: "m_store m i = Some j \<Longrightarrow> r \<in> set (waitForTermination (j_done j) (attempt_over a j) ctxDone) \<Longrightarrow>
    close_step l (CloseWaits ((i, a) # as), m) (close_waited r ((i, a) # as), m)"
| joined: "m_store m i = Some j \<Longrightarrow> goroutines_ended j \<Longrightarrow>
    close_step l (CloseJoins ((i, a) # as), m) (close_joined j ((i, a) # as), m)"
| timer_done: "m_store m i = Some j \<Longrightarrow> j_timeoutDone j \<Longrightarrow> close_step l (CloseTimers ((i, a) # as), m) (CloseWaits as, m)"
| timer_canceled: "close_step l (CloseTimers as, m) (CloseReturned (Some (errTerminationIncomplete True)), m)"
| ends: "close_step l (CloseWaits [], m) (CloseReturned None, close_end m)"

definition mgr_reachable :: "bj_Limits \<Rightarrow> manager \<Rightarrow> bool" where
  "mgr_reachable l m \<longleftrightarrow> (\<exists>epoch. length epoch = 16 \<and> (mgr_step l)\<^sup>*\<^sup>* (newManager epoch) m)"

subsection \<open>Identities\<close>

lemma length_hex_pad [simp]: "length (hex_pad k n) = k"
  by (induction k arbitrary: n) auto

lemma hex_char_inj: "a < 16 \<Longrightarrow> b < 16 \<Longrightarrow> hex_char a = hex_char b \<Longrightarrow> a = b"
  by (metis hex_digit_hex_char option.inject)

lemma hex_pad_inj: "a < 16 ^ k \<Longrightarrow> b < 16 ^ k \<Longrightarrow> hex_pad k a = hex_pad k b \<Longrightarrow> a = b"
proof (induction k arbitrary: a b)
  case (Suc k)
  have "a div 16 < 16 ^ k" "b div 16 < 16 ^ k" using Suc.prems(1,2) by (simp_all add: less_mult_imp_div_less mult.commute)
  then have "a div 16 = b div 16" using Suc.IH Suc.prems(3) by simp
  moreover have "a mod 16 = b mod 16" using Suc.prems(3) hex_char_inj[of "a mod 16" "b mod 16"] by simp
  ultimately show ?case by (metis div_mult_mod_eq)
qed simp

lemma job_id_inj: "job_id epoch a = job_id epoch b \<Longrightarrow> a = b"
proof -
  assume "job_id epoch a = job_id epoch b"
  then have "hex_pad 16 (unat a) = hex_pad 16 (unat b)" by (simp add: job_id_def)
  moreover have "unat a < 16 ^ 16" "unat b < 16 ^ 16" using unsigned_less[of a] unsigned_less[of b] by simp_all
  ultimately have "unat a = unat b" using hex_pad_inj[of "unat a" 16 "unat b"] by simp
  then show "a = b" by (rule unsigned_word_eqI)
qed

subsection \<open>The invariant\<close>

definition issued :: "manager \<Rightarrow> string set" where
  "issued m = {job_id (m_epoch m) c | c. c \<le> m_counter m \<and> c \<noteq> 0}"

definition counted_ids :: "manager \<Rightarrow> string set" where
  "counted_ids m = {i. \<exists>j. m_store m i = Some j \<and> j_counted j}"

text \<open>A job that the manager has not been told about.\<close>

definition unreported :: "job \<Rightarrow> bool" where
  "unreported j \<longleftrightarrow> j_finish j = NotFinished \<or> j_finish j = StateSet"

definition start_ok :: "manager \<Rightarrow> string \<times> start_at \<Rightarrow> bool" where
  "start_ok m = (\<lambda>(i, stage).
     i \<in> issued m \<and> i \<notin> set (m_jobs m) \<and> i \<notin> set (m_hidden m) \<and>
     (if stage = Reserved then m_store m i = None else \<exists>j. m_store m i = Some j \<and> \<not> j_counted j \<and> \<not> j_published j))"

definition stored_ok :: "manager \<Rightarrow> string \<Rightarrow> job \<Rightarrow> bool" where
  "stored_ok m i j \<longleftrightarrow>
     i \<in> issued m \<and> job_ok j \<and>
     (i \<notin> fst ` set (m_starts m) \<longrightarrow> unreported j \<longrightarrow> j_counted j \<and> (i \<in> set (m_jobs m) \<or> i \<in> set (m_hidden m)))"

definition mgr_ok :: "bj_Limits \<Rightarrow> manager \<Rightarrow> bool" where
  "mgr_ok l m \<longleftrightarrow>
     distinct (map fst (m_starts m)) \<and> distinct (m_jobs m) \<and> distinct (m_hidden m) \<and> set (m_jobs m) \<inter> set (m_hidden m) = {} \<and>
     set (m_jobs m) \<union> set (m_hidden m) \<subseteq> dom (m_store m) \<and> finite (dom (m_store m)) \<and>
     (\<forall>s \<in> set (m_starts m). start_ok m s) \<and> (\<forall>i j. m_store m i = Some j \<longrightarrow> stored_ok m i j) \<and>
     m_starting m = len (m_starts m) \<and> m_running m = int (card (counted_ids m)) \<and>
     m_starting m + m_running m \<le> MaxRunning l \<and> tracked m \<le> MaxTracked l \<and>
     (m_closed m \<longrightarrow> m_closing m \<and> m_starts m = [] \<and> (\<forall>j \<in> ran (m_store m). \<not> unreported j))"

lemma mgr_okD:
  assumes "mgr_ok l m"
  shows mgr_starts_distinct: "distinct (map fst (m_starts m))"
    and mgr_start_ok: "\<And>s. s \<in> set (m_starts m) \<Longrightarrow> start_ok m s"
    and mgr_stored_ok: "\<And>i j. m_store m i = Some j \<Longrightarrow> stored_ok m i j"
    and mgr_tracked_dom: "\<And>i. i \<in> set (m_jobs m) \<or> i \<in> set (m_hidden m) \<Longrightarrow> \<exists>j. m_store m i = Some j"
    and mgr_closed: "m_closed m \<Longrightarrow> m_starts m = [] \<and> m_closing m"
  using assms by (auto simp: mgr_ok_def)

lemma set_AList_update: "distinct (map fst al) \<Longrightarrow> set (AList.update k v al) = insert (k, v) {x \<in> set al. fst x \<noteq> k}"
  by (induction al) (auto simp: image_iff)

lemma set_AList_delete: "set (AList.delete k al) = {x \<in> set al. fst x \<noteq> k}"
  by (auto simp: AList.delete_eq)

lemma length_AList_update: "k \<in> fst ` set al \<Longrightarrow> length (AList.update k v al) = length al"
  by (induction al) auto

lemma counted_ids_update:
  "counted_ids (m\<lparr>m_store := (m_store m)(i \<mapsto> j)\<rparr>) = (if j_counted j then insert i (counted_ids m) else counted_ids m - {i})"
  by (auto simp: counted_ids_def)

lemma counted_ids_cong: "m_store m' = m_store m \<Longrightarrow> counted_ids m' = counted_ids m"
  by (simp add: counted_ids_def)

lemma finite_counted_ids: "mgr_ok l m \<Longrightarrow> finite (counted_ids m)"
  by (rule finite_subset[of _ "dom (m_store m)"]) (auto simp: counted_ids_def mgr_ok_def)

lemma issued_simps [simp]:
  "issued (m\<lparr>m_store := a\<rparr>) = issued m" "issued (m\<lparr>m_jobs := xs\<rparr>) = issued m" "issued (m\<lparr>m_hidden := xs\<rparr>) = issued m"
  "issued (m\<lparr>m_starting := n\<rparr>) = issued m" "issued (m\<lparr>m_running := n\<rparr>) = issued m" "issued (m\<lparr>m_starts := al\<rparr>) = issued m"
  "issued (m\<lparr>m_closing := f\<rparr>) = issued m" "issued (m\<lparr>m_closed := f\<rparr>) = issued m"
  by (simp_all add: issued_def)

lemma mgr_ok_new: "bj_validateLimits l = None \<Longrightarrow> mgr_ok l (newManager epoch)"
  by (auto simp: mgr_ok_def newManager_def counted_ids_def tracked_def len_def bj_validateLimits_def split: if_splits)

lemma prune_shape:
  "\<exists>js. pruneLocked l m = m\<lparr>m_jobs := js\<rparr> \<and> set js \<subseteq> set (m_jobs m) \<and> length js \<le> length (m_jobs m) \<and>
     (distinct (m_jobs m) \<longrightarrow> distinct js) \<and> (\<forall>i \<in> set (m_jobs m) - set js. is_done m i)"
proof (induction l m rule: pruneLocked.induct)
  case (1 l m)
  show ?case
  proof (cases "tracked m \<ge> MaxTracked l \<and> prune_candidate m \<noteq> None")
    case True
    then obtain c where c: "prune_candidate m = Some c" by auto
    let ?n = "m\<lparr>m_jobs := removeAll c (m_jobs m)\<rparr>"
    have done_n: "is_done ?n i = is_done m i" for i by (simp add: is_done_def)
    obtain js where raw: "pruneLocked l ?n = ?n\<lparr>m_jobs := js\<rparr>" "set js \<subseteq> set (m_jobs ?n)" "length js \<le> length (m_jobs ?n)"
      "distinct (m_jobs ?n) \<longrightarrow> distinct js" "\<forall>i \<in> set (m_jobs ?n) - set js. is_done ?n i"
      using 1[OF conjunct1[OF True] c] by blast
    then have js: "pruneLocked l ?n = m\<lparr>m_jobs := js\<rparr>"
      "set js \<subseteq> set (m_jobs m) - {c}" "length js \<le> length (removeAll c (m_jobs m))"
      "distinct (removeAll c (m_jobs m)) \<longrightarrow> distinct js" "\<forall>i \<in> set (m_jobs m) - {c} - set js. is_done m i"
      by (simp_all only: done_n) simp_all
    have "length js \<le> length (m_jobs m)" using le_trans[OF js(3) length_removeAll_less_eq] .
    moreover have "pruneLocked l m = m\<lparr>m_jobs := js\<rparr>" using True c js(1) by (simp add: pruneLocked.simps[of l m])
    moreover have "\<forall>i \<in> set (m_jobs m) - set js. is_done m i" using js(5) prune_candidate_some[OF c] by blast
    moreover have "distinct (m_jobs m) \<longrightarrow> distinct js" using js(4) by (simp add: distinct_removeAll)
    ultimately show ?thesis using js(2) by (intro exI[of _ js]) blast
  next
    case False
    then have "pruneLocked l m = m" by (subst pruneLocked.simps) auto
    then show ?thesis by (intro exI[of _ "m_jobs m"]) simp
  qed
qed

lemma mgr_ok_prune:
  assumes "mgr_ok l m" shows "mgr_ok l (pruneLocked l m)"
proof -
  obtain js where js: "pruneLocked l m = m\<lparr>m_jobs := js\<rparr>" "set js \<subseteq> set (m_jobs m)" "length js \<le> length (m_jobs m)"
     "distinct (m_jobs m) \<longrightarrow> distinct js" "\<forall>i \<in> set (m_jobs m) - set js. is_done m i"
    using prune_shape by blast
  have "stored_ok (m\<lparr>m_jobs := js\<rparr>) i j" if "m_store m i = Some j" "stored_ok m i j" for i j
  proof -
    have "i \<in> set js" if "i \<in> set (m_jobs m)" "unreported j" using js(5) that \<open>m_store m i = Some j\<close> by (force simp: is_done_def unreported_def)
    then show ?thesis using that by (auto simp: stored_ok_def issued_def)
  qed
  moreover have "start_ok (m\<lparr>m_jobs := js\<rparr>) s" if "start_ok m s" for s
    using that js(2) by (auto simp: start_ok_def issued_def)
  ultimately show ?thesis using assms js unfolding js(1) mgr_ok_def
    by (auto simp: tracked_def len_def counted_ids_def)
qed

lemma reserveStart_cases:
  obtains (refused) e where "fst (reserveStart l m) = Inl e" "snd (reserveStart l m) = m"
  | (pruned) e where "fst (reserveStart l m) = Inl e" "snd (reserveStart l m) = pruneLocked l m"
  | (reserved) n c where "n = pruneLocked l m" "c = m_counter n + 1" "m_counter n \<noteq> - 1" "\<not> m_closing m" "\<not> m_closed m"
      "m_starting n + m_running n < MaxRunning l" "tracked n < MaxTracked l"
      "fst (reserveStart l m) = Inr (job_id (m_epoch n) c)"
      "snd (reserveStart l m) = n\<lparr>m_counter := c, m_starting := m_starting n + 1, m_starts := (job_id (m_epoch n) c, Reserved) # m_starts n\<rparr>"
  by (cases "m_closing m \<or> m_closed m"; cases "m_starting (pruneLocked l m) + m_running (pruneLocked l m) \<ge> MaxRunning l \<or> tracked (pruneLocked l m) \<ge> MaxTracked l";
      cases "m_counter (pruneLocked l m) = - 1") (simp_all add: reserveStart_def Let_def not_le)

lemma word_less_plus_one: "x \<noteq> - 1 \<Longrightarrow> x < x + 1" for x :: "64 word"
proof -
  assume "x \<noteq> - 1"
  then have "1 + x \<noteq> 0" by (metis add.commute add_eq_0_iff)
  then show ?thesis using unatSuc[of x] by (simp add: word_less_nat_alt add.commute)
qed

lemma mgr_ok_reserve:
  assumes "mgr_ok l m" shows "mgr_ok l (snd (reserveStart l m))"
proof (cases rule: reserveStart_cases[of l m])
  case (reserved n c)
  have ok: "mgr_ok l n" using mgr_ok_prune[OF assms] reserved(1) by simp
  have less: "m_counter n < c" using reserved(2,3) word_less_plus_one by blast
  let ?i = "job_id (m_epoch n) c"
  let ?m = "n\<lparr>m_counter := c, m_starting := m_starting n + 1, m_starts := (?i, Reserved) # m_starts n\<rparr>"
  have c0: "c \<noteq> 0" using less by auto
  have mono: "issued n \<subseteq> issued ?m" using less by (auto simp: issued_def intro: order_trans less_imp_le)
  have fresh: "?i \<notin> issued n" using less job_id_inj by (force simp: issued_def)
  have new: "?i \<in> issued ?m" using c0 by (auto simp: issued_def)
  have none: "m_store n ?i = None" "?i \<notin> fst ` set (m_starts n)" "?i \<notin> set (m_jobs n)" "?i \<notin> set (m_hidden n)"
  proof -
    show store: "m_store n ?i = None" using fresh mgr_stored_ok[OF ok, of ?i] by (cases "m_store n ?i") (auto simp: stored_ok_def)
    show "?i \<notin> fst ` set (m_starts n)" using fresh mgr_start_ok[OF ok] by (fastforce simp: start_ok_def)
    show "?i \<notin> set (m_jobs n)" "?i \<notin> set (m_hidden n)" using store mgr_tracked_dom[OF ok, of ?i] by auto
  qed
  have "start_ok ?m s" if "s \<in> set (m_starts n)" for s
    using mgr_start_ok[OF ok that] mono by (auto simp: start_ok_def)
  moreover have "start_ok ?m (?i, Reserved)" using new none by (simp add: start_ok_def)
  moreover have "stored_ok ?m i j" if "m_store n i = Some j" for i j
    using mgr_stored_ok[OF ok that] mono none by (auto simp: stored_ok_def)
  moreover have "\<not> m_closed n" using prune_shape[of l m] reserved(1,5) by auto
  ultimately show ?thesis using ok reserved none unfolding reserved(9) mgr_ok_def
    by (auto simp: tracked_def len_def counted_ids_def)
qed (use assms mgr_ok_prune in simp_all)

lemma mgr_ok_starts:
  assumes "mgr_ok l m" "(i, stage) \<in> set (m_starts m)"
  shows "i \<in> fst ` set (m_starts m)" "start_ok m (i, stage)" "\<not> m_closed m" "distinct (map fst (m_starts m))"
  using mgr_okD[OF assms(1)] assms(2) by force+

lemma mgr_ok_release:
  assumes ok: "mgr_ok l m" and i: "(i, Reserved) \<in> set (m_starts m)"
  shows "mgr_ok l (releaseReservation i m)"
proof -
  note st = mgr_ok_starts[OF ok i]
  let ?m = "releaseReservation i m"
  have none: "m_store m i = None" using st(2) by (simp add: start_ok_def)
  have "start_ok ?m s" if "start_ok m s" for s using that by (auto simp: start_ok_def releaseReservation_def)
  then have "\<forall>s \<in> set (m_starts ?m). start_ok ?m s" using ok by (simp add: mgr_ok_def releaseReservation_def set_AList_delete)
  moreover have "stored_ok ?m k j" if "m_store m k = Some j" "stored_ok m k j" for k j
    using that none by (auto simp: stored_ok_def releaseReservation_def keys_delete)
  then have "\<forall>k j. m_store ?m k = Some j \<longrightarrow> stored_ok ?m k j" using ok by (simp add: mgr_ok_def releaseReservation_def)
  moreover have "Suc (length (AList.delete i (m_starts m))) = length (m_starts m)" using st by (intro length_delete_in) auto
  ultimately show ?thesis using ok unfolding mgr_ok_def
    by (simp add: releaseReservation_def tracked_def len_def counted_ids_def AList.distinct_delete)
qed

text \<open>A section of \<open>start\<close> that stays in it: the stage moves on and its job is set to one that is neither counted nor published.\<close>

lemma mgr_ok_advance:
  assumes ok: "mgr_ok l m" and i: "(i, old) \<in> set (m_starts m)" and stage: "stage \<noteq> Reserved"
    and j: "job_ok j" "\<not> j_counted j" "\<not> j_published j"
  shows "mgr_ok l (m\<lparr>m_store := (m_store m)(i \<mapsto> j), m_starts := AList.update i stage (m_starts m)\<rparr>)"
proof -
  note st = mgr_ok_starts[OF ok i]
  let ?m = "m\<lparr>m_store := (m_store m)(i \<mapsto> j), m_starts := AList.update i stage (m_starts m)\<rparr>"
  have names: "map fst (AList.update i stage (m_starts m)) = map fst (m_starts m)" using st(1) by (simp add: AList.update_keys)
  have keys: "fst ` set (AList.update i stage (m_starts m)) = fst ` set (m_starts m)" using arg_cong[OF names, of set] by simp
  have sti: "i \<in> issued m" "i \<notin> set (m_jobs m)" "i \<notin> set (m_hidden m)" "i \<notin> counted_ids m"
    using st(2) by (auto simp: start_ok_def counted_ids_def split: if_splits)
  have "start_ok ?m s" if "s \<in> set (AList.update i stage (m_starts m))" for s
    using that ok st(4) sti j stage by (auto simp: set_AList_update mgr_ok_def start_ok_def issued_def)
  moreover have "stored_ok ?m k x" if "((m_store m)(i \<mapsto> j)) k = Some x" for k x
    using that ok st(1) sti j by (auto simp: stored_ok_def mgr_ok_def keys issued_def split: if_splits)
  moreover have "counted_ids ?m = counted_ids m" using sti(4) j(2) by (auto simp: counted_ids_def)
  ultimately show ?thesis using ok sti st(3) unfolding mgr_ok_def
    by (auto simp: tracked_def len_def names length_AList_update[OF st(1)])
qed

lemma new_job_fields [simp]:
  "j_counted (new_job owner s e n) = False" "j_published (new_job owner s e n) = False"
  by (simp_all add: new_job_def)

lemma mgr_ok_started:
  assumes "mgr_ok l m" "(i, stage) \<in> set (m_starts m)" "stage \<noteq> Reserved"
  obtains j where "m_store m i = Some j" "job_ok j" "\<not> j_counted j" "\<not> j_published j"
  using mgr_ok_starts(2)[OF assms(1,2)] assms by (auto simp: start_ok_def mgr_ok_def stored_ok_def)

lemma mgr_ok_start_sections:
  assumes ok: "mgr_ok l m"
  shows "(i, Reserved) \<in> set (m_starts m) \<Longrightarrow> mgr_ok l (spawn_job l i owner startedAt timeoutSeconds m)"
    and "(i, Spawned) \<in> set (m_starts m) \<Longrightarrow> mgr_ok l (ready_section readyErr i m)"
    and "(i, ReadyKnown readyErr) \<in> set (m_starts m) \<Longrightarrow> mgr_ok l (gate_section readyErr canceled releaseErr i m)"
proof -
  show "(i, Reserved) \<in> set (m_starts m) \<Longrightarrow> mgr_ok l (spawn_job l i owner startedAt timeoutSeconds m)"
    unfolding spawn_job_def by (rule mgr_ok_advance[OF ok]) (simp_all add: job_ok_new)
  assume i: "(i, Spawned) \<in> set (m_starts m)"
  then obtain j where "m_store m i = Some j" "job_ok j" "\<not> j_counted j" "\<not> j_published j" using mgr_ok_started[OF ok] by blast
  then show "mgr_ok l (ready_section readyErr i m)"
    using mgr_ok_advance[OF ok i, of "ReadyKnown readyErr" "j\<lparr>j_ready := \<not> readyErr\<rparr>"] by (simp add: ready_section_def)
next
  assume i: "(i, ReadyKnown readyErr) \<in> set (m_starts m)"
  then obtain j where j: "m_store m i = Some j" "job_ok j" "\<not> j_counted j" "\<not> j_published j" using mgr_ok_started[OF ok] by blast
  have "gate_section readyErr canceled releaseErr i m = m\<lparr>m_store := (m_store m)(i \<mapsto> j),
      m_starts := AList.update i (if releaseErr then GateTested True False else GateTested readyErr (\<not> readyErr \<and> \<not> canceled \<and> \<not> m_closing m)) (m_starts m)\<rparr>"
    using j(1) by (simp add: gate_section_def fun_upd_idem)
  then show "mgr_ok l (gate_section readyErr canceled releaseErr i m)" using mgr_ok_advance[OF ok i _ j(2-4)] by simp
qed

subsection \<open>Steps of the jobs, publication, completion and close\<close>

lemma job_moves_frame:
  assumes "job_moves k j j'"
  shows "j_counted j' = j_counted j" "j_published j' = j_published j" "unreported j' = unreported j" "j_done j \<longrightarrow> j_done j'"
proof -
  have "j_counted j' = j_counted j \<and> j_published j' = j_published j \<and> unreported j' = unreported j \<and> (j_done j \<longrightarrow> j_done j')"
    using assms
  proof (cases rule: job_moves.cases)
    case (status_read raw readErr)
    show ?thesis unfolding status_read by (rule readStatus_cases) (simp add: Let_def startCoordinatorLocked_def unreported_def)
  next
    case (coordinator_terms res now)
    then show ?thesis by (cases res) (simp_all add: coord_term_def advanceSignal_def unreported_def)
  next
    case (coordinator_kills res now)
    then show ?thesis by (cases res) (simp_all add: coord_kill_def advanceSignal_def unreported_def)
  next
    case (finish_by_coordinator now)
    then show ?thesis by (simp add: finishTerminal_def Let_def unreported_def split: prod.split)
  next
    case (finish_by_waiter now)
    then show ?thesis by (simp add: finishTerminal_def Let_def unreported_def split: prod.split)
  qed (simp_all add: beginTermination_def startCoordinatorLocked_def job_waited_def coord_start_def coord_complete_def unreported_def Let_def)
  then show "j_counted j' = j_counted j" "j_published j' = j_published j" "unreported j' = unreported j" "j_done j \<longrightarrow> j_done j'" by blast+
qed

text \<open>A job that changes in none of what the manager counts leaves the invariant alone.\<close>

lemma mgr_ok_job:
  assumes ok: "mgr_ok l m" and j: "m_store m i = Some j" and j': "job_ok j'" "j_counted j' = j_counted j"
    "j_published j' = j_published j" "unreported j' = unreported j"
  shows "mgr_ok l (m\<lparr>m_store := (m_store m)(i \<mapsto> j')\<rparr>)"
proof -
  let ?m = "m\<lparr>m_store := (m_store m)(i \<mapsto> j')\<rparr>"
  have "start_ok ?m s" if "s \<in> set (m_starts m)" for s
    using mgr_start_ok[OF ok that] j j' by (auto simp: start_ok_def split: if_splits)
  then have "\<forall>s \<in> set (m_starts ?m). start_ok ?m s" by simp
  moreover have "stored_ok ?m k x" if "m_store ?m k = Some x" for k x
    using that mgr_stored_ok[OF ok j] mgr_stored_ok[OF ok, of k x] j' by (cases "k = i") (auto simp: stored_ok_def)
  then have "\<forall>k x. m_store ?m k = Some x \<longrightarrow> stored_ok ?m k x" by blast
  moreover have "counted_ids ?m = counted_ids m" using j j' by (auto simp: counted_ids_def)
  moreover have "\<forall>x \<in> ran (m_store ?m). \<not> unreported x" if "m_closed m"
  proof
    fix x
    assume "x \<in> ran (m_store ?m)"
    then have "x = j' \<or> x \<in> ran (m_store m)" by (auto simp: ran_def split: if_splits)
    moreover have "\<forall>x \<in> ran (m_store m). \<not> unreported x" using ok that by (simp add: mgr_ok_def)
    ultimately show "\<not> unreported x" using ranI[of "m_store m" i j, OF j] j'(4) by blast
  qed
  ultimately show ?thesis using ok j unfolding mgr_ok_def by (simp add: tracked_def) blast
qed

lemma arm_timer_frame:
  "job_ok j \<Longrightarrow> job_ok (arm_timer j)" "j_counted (arm_timer j) = j_counted j" "j_published (arm_timer j) = j_published j"
  "j_finish (arm_timer j) = j_finish j"
  by (simp_all add: arm_timer_def)

lemma mgr_ok_complete:
  assumes ok: "mgr_ok l m" and j: "m_store m i = Some j" "j_finish j = StateSet"
  shows "mgr_ok l (jobCompleted i m)"
proof -
  let ?m = "jobCompleted i m"
  have m: "?m = m\<lparr>m_store := (m_store m)(i \<mapsto> job_completed j), m_hidden := removeAll i (m_hidden m),
      m_running := (if j_counted j then m_running m - 1 else m_running m)\<rparr>"
    using j by (simp add: jobCompleted_def Let_def)
  have "start_ok ?m s" if "s \<in> set (m_starts m)" for s
    using mgr_start_ok[OF ok that] j by (auto simp: start_ok_def m job_completed_def split: if_splits)
  then have 1: "\<forall>s \<in> set (m_starts ?m). start_ok ?m s" by (simp add: m)
  have "stored_ok ?m k x" if "m_store ?m k = Some x" for k x
  proof (cases "k = i")
    case True
    then show ?thesis using that mgr_stored_ok[OF ok j(1)] job_ok_finish_flow(1)[of j] j(2)
      by (auto simp: stored_ok_def m job_completed_def unreported_def)
  next
    case False
    then show ?thesis using that mgr_stored_ok[OF ok, of k x] by (auto simp: stored_ok_def m)
  qed
  then have 2: "\<forall>k x. m_store ?m k = Some x \<longrightarrow> stored_ok ?m k x" by blast
  have ids: "counted_ids ?m = counted_ids m - {i}" by (auto simp: counted_ids_def m job_completed_def)
  have "m_running ?m = int (card (counted_ids ?m))"
  proof (cases "j_counted j")
    case True
    then have "i \<in> counted_ids m" using j by (auto simp: counted_ids_def)
    moreover have "card (counted_ids m) = Suc (card (counted_ids m - {i}))"
      by (rule card.remove[OF finite_counted_ids[OF ok]]) (use True j in \<open>auto simp: counted_ids_def\<close>)
    ultimately show ?thesis using ok True unfolding ids by (simp add: m mgr_ok_def)
  next
    case False
    then have "counted_ids m - {i} = counted_ids m" using j by (auto simp: counted_ids_def)
    then show ?thesis using ok False unfolding ids by (simp add: m mgr_ok_def)
  qed
  moreover have "\<not> m_closed m" using ok j ranI[of "m_store m" i j] by (force simp: mgr_ok_def unreported_def)
  moreover have "len (removeAll i (m_hidden m)) \<le> len (m_hidden m)" using length_removeAll_less_eq by (simp add: len_def)
  ultimately show ?thesis using ok 1 2 j unfolding mgr_ok_def
    by (auto simp: m tracked_def distinct_removeAll)
qed

lemma publish_section_eq:
  assumes j: "m_store m i = Some j" and fresh: "i \<notin> set (m_jobs m)" "i \<notin> set (m_hidden m)" "\<not> j_counted j" "\<not> j_published j"
  shows "\<exists>p. publish_section readyErr gateReleased callerCanceled i m =
    m\<lparr>m_jobs := (if p then i # m_jobs m else m_jobs m), m_hidden := (if \<not> p \<and> \<not> j_done j then i # m_hidden m else m_hidden m),
      m_running := (if j_done j then m_running m else m_running m + 1),
      m_store := (m_store m)(i \<mapsto> j\<lparr>j_published := p, j_counted := \<not> j_done j\<rparr>),
      m_starting := m_starting m - 1, m_starts := AList.delete i (m_starts m)\<rparr>"
proof (rule exI[of _ "\<not> readyErr \<and> gateReleased \<and> \<not> m_closing m \<and> \<not> callerCanceled"])
  have upd: "j\<lparr>j_published := False\<rparr> = j" "j\<lparr>j_counted := False\<rparr> = j" using fresh(3,4) by (cases j; simp)+
  have upd1: "j\<lparr>j_published := True, j_counted := False\<rparr> = j\<lparr>j_published := True\<rparr>" using fresh(3) by (cases j) simp
  have upd2: "j\<lparr>j_published := False, j_counted := True\<rparr> = j\<lparr>j_counted := True\<rparr>" using fresh(4) by (cases j) simp
  show "publish_section readyErr gateReleased callerCanceled i m =
    m\<lparr>m_jobs := (if \<not> readyErr \<and> gateReleased \<and> \<not> m_closing m \<and> \<not> callerCanceled then i # m_jobs m else m_jobs m),
      m_hidden := (if \<not> (\<not> readyErr \<and> gateReleased \<and> \<not> m_closing m \<and> \<not> callerCanceled) \<and> \<not> j_done j then i # m_hidden m else m_hidden m),
      m_running := (if j_done j then m_running m else m_running m + 1),
      m_store := (m_store m)(i \<mapsto> j\<lparr>j_published := (\<not> readyErr \<and> gateReleased \<and> \<not> m_closing m \<and> \<not> callerCanceled), j_counted := \<not> j_done j\<rparr>),
      m_starting := m_starting m - 1, m_starts := AList.delete i (m_starts m)\<rparr>"
    using j fresh by (auto simp: publish_section_def Let_def upd upd1 upd2)
qed

lemma mgr_ok_publish:
  assumes ok: "mgr_ok l m" and i: "(i, GateTested readyErr gateReleased) \<in> set (m_starts m)"
  shows "mgr_ok l (publish_section readyErr gateReleased callerCanceled i m)"
proof -
  note st = mgr_ok_starts[OF ok i]
  obtain j where j: "m_store m i = Some j" "job_ok j" "\<not> j_counted j" "\<not> j_published j" using mgr_ok_started[OF ok i] by auto
  have out: "i \<notin> set (m_jobs m)" "i \<notin> set (m_hidden m)" "i \<in> issued m" using st(2) by (simp_all add: start_ok_def)
  let ?m = "publish_section readyErr gateReleased callerCanceled i m"
  obtain p where m: "?m = m\<lparr>m_jobs := (if p then i # m_jobs m else m_jobs m),
      m_hidden := (if \<not> p \<and> \<not> j_done j then i # m_hidden m else m_hidden m),
      m_running := (if j_done j then m_running m else m_running m + 1),
      m_store := (m_store m)(i \<mapsto> j\<lparr>j_published := p, j_counted := \<not> j_done j\<rparr>),
      m_starting := m_starting m - 1, m_starts := AList.delete i (m_starts m)\<rparr>"
    using publish_section_eq[OF j(1) out(1,2) j(3,4)] by blast
  have "start_ok ?m s" if "s \<in> set (m_starts ?m)" for s
  proof -
    have "s \<in> set (m_starts m)" "fst s \<noteq> i" using that by (auto simp: m set_AList_delete)
    then show ?thesis using mgr_start_ok[OF ok] by (auto simp: start_ok_def m)
  qed
  moreover have "stored_ok ?m k x" if "m_store ?m k = Some x" for k x
  proof (cases "k = i")
    case True
    then show ?thesis using that out j(2) by (auto simp: stored_ok_def m keys_delete unreported_def)
  next
    case False
    then show ?thesis using that mgr_stored_ok[OF ok, of k x] by (auto simp: stored_ok_def m keys_delete)
  qed
  moreover have "m_running ?m = int (card (counted_ids ?m))"
  proof -
    have "i \<notin> counted_ids m" using j by (auto simp: counted_ids_def)
    moreover have "counted_ids ?m = (if j_done j then counted_ids m else insert i (counted_ids m))"
      using j by (auto simp: counted_ids_def m)
    moreover have "m_running m = int (card (counted_ids m))" using ok by (simp add: mgr_ok_def)
    ultimately show ?thesis using finite_counted_ids[OF ok] by (simp add: m)
  qed
  moreover have "Suc (length (AList.delete i (m_starts m))) = length (m_starts m)" using st by (intro length_delete_in) auto
  moreover have "m_store m i \<noteq> None" using j by simp
  ultimately show ?thesis using ok out st(3) unfolding mgr_ok_def
    by (simp add: m tracked_def len_def AList.distinct_delete insert_absorb[of i "dom (m_store m)"]) (auto simp: m)
qed

lemma mgr_ok_close_end:
  assumes ok: "mgr_ok l m" and "m_closing m" "m_starting m = 0"
    and settled: "\<And>i j. i \<in> set (m_jobs m) \<union> set (m_hidden m) \<Longrightarrow> m_store m i = Some j \<Longrightarrow> job_settled j"
  shows "mgr_ok l (close_end m)"
proof -
  have empty: "m_starts m = []" using ok assms(3) by (simp add: mgr_ok_def len_def)
  have "\<not> unreported j" if "m_store m i = Some j" for i j
  proof
    assume u: "unreported j"
    then have "i \<in> set (m_jobs m) \<union> set (m_hidden m)" using mgr_stored_ok[OF ok that] empty by (simp add: stored_ok_def)
    then show False using settled[OF _ that] u by (simp add: job_settled_def unreported_def)
  qed
  then have "\<forall>j \<in> ran (m_store m). \<not> unreported j" "\<And>i j. m_store m i = Some j \<Longrightarrow> stored_ok (close_end m) i j"
    using mgr_stored_ok[OF ok] by (auto simp: ran_def stored_ok_def close_end_def)
  moreover have "counted_ids (close_end m) = counted_ids m" by (simp add: counted_ids_def close_end_def)
  ultimately show ?thesis using ok assms(2,3) empty unfolding mgr_ok_def
    by (simp add: close_end_def tracked_def len_def)
qed

lemma mgr_ok_step:
  assumes "mgr_step l m m'" and ok: "mgr_ok l m"
  shows "mgr_ok l m'"
  using assms(1)
proof (cases rule: mgr_step.cases)
  case (arms i j)
  then show ?thesis using mgr_stored_ok[OF ok arms(2)] mgr_ok_job[OF ok arms(2), of "arm_timer j"]
    by (simp add: arm_timer_frame stored_ok_def unreported_def)
next
  case (moves i j j')
  have "job_ok j" using mgr_stored_ok[OF ok moves(2)] by (simp add: stored_ok_def)
  then show ?thesis using moves mgr_ok_job[OF ok moves(2) job_ok_moves[OF moves(3)]] job_moves_frame[OF moves(3)] by simp
next
  case closes
  have "stored_ok (m\<lparr>m_closing := True\<rparr>) = stored_ok m" "start_ok (m\<lparr>m_closing := True\<rparr>) = start_ok m"
    by (simp_all add: stored_ok_def start_ok_def fun_eq_iff)
  then have "mgr_ok l (m\<lparr>m_closing := True\<rparr>)" using ok by (simp add: mgr_ok_def tracked_def counted_ids_def)
  then show ?thesis using ok closes by (simp add: close_begin_def)
next
  case closed
  then show ?thesis using mgr_ok_close_end[OF ok] by blast
qed (use ok in \<open>simp_all add: mgr_ok_reserve mgr_ok_release mgr_ok_start_sections mgr_ok_publish mgr_ok_complete\<close>)

lemma mgr_reachable_ok:
  assumes "mgr_reachable l m" "bj_validateLimits l = None"
  shows "mgr_ok l m"
proof -
  obtain epoch where "(mgr_step l)\<^sup>*\<^sup>* (newManager epoch) m" using assms(1) by (auto simp: mgr_reachable_def)
  then show ?thesis by (induction rule: rtranclp_induct) (auto intro: mgr_ok_new[OF assms(2)] mgr_ok_step)
qed

subsection \<open>Properties of the manager\<close>

text \<open>
  C6: Whatever start, kill, close, completion and the jobs' own goroutines do and in whatever order,
  the jobs that hold a process or have not been reported complete, whether still inside \<open>start\<close> or not, are at most
  \<open>MaxRunning\<close>; reservations and running jobs together stay within \<open>MaxRunning\<close>, tracked jobs
  and reservations within \<open>MaxTracked\<close>, and the counter \<open>starting\<close> is the number of calls inside \<open>start\<close>.
\<close>

theorem manager_bounds:
  assumes "bj_validateLimits l = None" "mgr_reachable l m"
  shows "int (card {i. \<exists>j. m_store m i = Some j \<and> unreported j}) \<le> MaxRunning l \<and>
    m_starting m = len (m_starts m) \<and> m_starting m + m_running m \<le> MaxRunning l \<and>
    len (m_jobs m) + len (m_hidden m) + m_starting m \<le> MaxTracked l"
proof -
  have ok: "mgr_ok l m" using mgr_reachable_ok[OF assms(2,1)] .
  let ?S = "fst ` set (m_starts m)"
  have "{i. \<exists>j. m_store m i = Some j \<and> unreported j} \<subseteq> ?S \<union> counted_ids m"
    using mgr_stored_ok[OF ok] by (auto simp: stored_ok_def counted_ids_def)
  then have "card {i. \<exists>j. m_store m i = Some j \<and> unreported j} \<le> card (?S \<union> counted_ids m)"
    using finite_counted_ids[OF ok] by (intro card_mono) auto
  also have "\<dots> \<le> card ?S + card (counted_ids m)" by (rule card_Un_le)
  also have "card ?S \<le> length (m_starts m)" by (metis card_image_le card_length finite_set le_trans)
  finally show ?thesis using ok by (simp add: mgr_ok_def tracked_def len_def)
qed

lemma m_closed_step:
  assumes "mgr_step l m m'" "m_closed m"
  shows "m_closed m'"
  using assms(1)
proof (cases rule: mgr_step.cases)
  case reserves
  then show ?thesis using assms(2) by (simp add: reserveStart_def)
next
  case (publishes i e g c)
  then show ?thesis using assms(2) by (simp add: publish_section_def Let_def split: option.split)
next
  case (completes i j)
  then show ?thesis using assms(2) by (simp add: jobCompleted_def Let_def)
qed (use assms(2) in \<open>simp_all add: releaseReservation_def spawn_job_def ready_section_def gate_section_def close_begin_def close_end_def Let_def\<close>)

lemma mgr_closed_jobs:
  assumes ok: "mgr_ok l m" and closed: "m_closed m" and j: "m_store m i = Some j"
  shows "j_state j \<noteq> JobRunning \<and> j_waitDone j"
proof -
  have "\<not> unreported j" using ok closed j by (auto simp: mgr_ok_def ran_def)
  then have "j_finish j \<noteq> NotFinished" by (simp add: unreported_def)
  moreover have "job_ok j" using mgr_stored_ok[OF ok j] by (simp add: stored_ok_def)
  ultimately have "j_state j \<noteq> JobRunning" "j_waitDone j" using job_ok_running[of j] by (blast, simp add: job_ok_def)
  then show ?thesis ..
qed

subsection \<open>A call of Close among everything else\<close>

text \<open>
  While \<open>Close\<close> waits, a job it has settled stays settled and no job is added, so when the last wait
  is over all of them are settled at once, which is what the step \<open>closed\<close> of the manager asks for.
\<close>

definition job_joined :: "job \<Rightarrow> bool" where
  "job_joined j \<longleftrightarrow> j_done j \<and> (j_coordinator j = NoCoordinator \<or> j_coordinator j = CoordFinish) \<and> j_statusReady j"

lemma job_settled_joined: "job_settled j \<longleftrightarrow> job_joined j \<and> (j_timer j = NoTimer \<or> j_timeoutDone j)"
  by (auto simp: job_settled_def job_joined_def)

lemma job_joined_moves:
  assumes "job_moves k j j'" "job_ok j" "job_joined j"
  shows "job_joined j' \<and> (job_settled j \<longrightarrow> job_settled j')"
  using assms(1)
proof (cases rule: job_moves.cases)
  case (terminated cause)
  then show ?thesis using assms(2,3) job_ok_running[OF assms(2)] by (simp add: beginTermination_def job_joined_def)
next
  case timer_fired
  then show ?thesis using assms(2,3) job_ok_running[OF assms(2)] by (simp add: beginTermination_def job_joined_def job_settled_joined)
next
  case (process_waited now waitDelay)
  then show ?thesis using assms(3) by (simp add: job_waited_def job_joined_def job_settled_joined Let_def)
qed (use assms(3) in \<open>simp_all add: job_joined_def job_settled_joined\<close>)

lemma job_done_not_running: "job_ok j \<Longrightarrow> j_done j \<Longrightarrow> j_state j \<noteq> JobRunning"
  using job_ok_running[of j] by simp

text \<open>What the rest of the program may do to a manager that is closing and has no call inside \<open>start\<close>.\<close>

definition calm_change :: "int \<Rightarrow> manager \<Rightarrow> manager \<Rightarrow> bool" where
  "calm_change k m m' \<longleftrightarrow> m_closing m' \<and> m_starts m' = [] \<and> (m_closed m \<longrightarrow> m_closed m') \<and>
     set (m_jobs m') \<subseteq> set (m_jobs m) \<and> set (m_hidden m') \<subseteq> set (m_hidden m) \<and> dom (m_store m') = dom (m_store m) \<and>
     (\<forall>i j. m_store m i = Some j \<longrightarrow> j_done j \<longrightarrow> (\<exists>j'. m_store m' i = Some j' \<and> (j' = j \<or> job_moves k j j')))"

lemma calm_change_step:
  assumes "mgr_step l m m'" "mgr_ok l m" "m_closing m" "m_starts m = []"
  shows "calm_change (KillWait l) m m'"
  using assms(1)
proof (cases rule: mgr_step.cases)
  case reserves
  then show ?thesis using assms(3,4) by (simp add: reserveStart_def calm_change_def)
next
  case (arms i j)
  have "job_ok j" using mgr_stored_ok[OF assms(2) arms(2)] by (simp add: stored_ok_def)
  then have "j_done j \<Longrightarrow> arm_timer j = j" using job_done_not_running by (simp add: arm_timer_def)
  then show ?thesis using arms assms(3,4) by (auto simp: calm_change_def)
next
  case (moves i j j')
  then show ?thesis using assms(3,4) by (auto simp: calm_change_def)
next
  case (completes i j)
  then show ?thesis using assms(3,4) by (auto simp: calm_change_def jobCompleted_def Let_def)
next
  case closes
  then show ?thesis using assms(3,4) by (simp add: calm_change_def close_begin_def)
next
  case closed
  then show ?thesis using assms(3,4) by (simp add: calm_change_def close_end_def)
qed (use assms(4) in simp_all)

definition covered :: "manager \<Rightarrow> string set \<Rightarrow> bool" where
  "covered m I \<longleftrightarrow> m_closing m \<and> m_starts m = [] \<and>
     (\<forall>i \<in> set (m_jobs m) \<union> set (m_hidden m). i \<in> I \<or> (\<forall>j. m_store m i = Some j \<longrightarrow> job_settled j))"

definition close_ok :: "close_at \<Rightarrow> manager \<Rightarrow> bool" where
  "close_ok c m \<longleftrightarrow> (case c of
       CloseStarts \<Rightarrow> m_closing m
     | CloseBegins ids as \<Rightarrow> covered m (set ids \<union> fst ` set as)
     | CloseWaits as \<Rightarrow> covered m (fst ` set as)
     | CloseJoins as \<Rightarrow> covered m (fst ` set as) \<and> as \<noteq> [] \<and> (\<forall>j. m_store m (fst (hd as)) = Some j \<longrightarrow> j_done j)
     | CloseTimers as \<Rightarrow> covered m (fst ` set as) \<and> as \<noteq> [] \<and> (\<forall>j. m_store m (fst (hd as)) = Some j \<longrightarrow> job_joined j)
     | CloseReturned r \<Rightarrow> m_closing m \<and> (case r of None \<Rightarrow> m_closed m | Some e \<Rightarrow> e = errTerminationIncomplete True \<or> e = errTerminationIncomplete False))"

lemma calm_stored:
  assumes "calm_change k m m'" "m_store m' i = Some j'"
  obtains j where "m_store m i = Some j" "j_done j \<longrightarrow> j' = j \<or> job_moves k j j'"
proof -
  have "i \<in> dom (m_store m)" using assms by (metis calm_change_def domI)
  then obtain j where j: "m_store m i = Some j" by blast
  have "j_done j \<longrightarrow> j' = j \<or> job_moves k j j'"
    using assms j unfolding calm_change_def by (metis option.inject)
  with j show thesis by (rule that)
qed

lemma calm_joined:
  assumes "calm_change k m m'" "mgr_ok l m" "m_store m' i = Some j'"
  obtains j where "m_store m i = Some j" "j_done j \<longrightarrow> j_done j'" "job_joined j \<longrightarrow> job_joined j'" "job_settled j \<longrightarrow> job_settled j'"
proof -
  obtain j where j: "m_store m i = Some j" "j_done j \<longrightarrow> j' = j \<or> job_moves k j j'" by (rule calm_stored[OF assms(1,3)])
  have ok: "job_ok j" using mgr_stored_ok[OF assms(2) j(1)] by (simp add: stored_ok_def)
  have "j_done j'" if "j_done j" using j(2) that job_moves_frame(4)[of k j j'] by blast
  moreover have "job_joined j' \<and> (job_settled j \<longrightarrow> job_settled j')" if "job_joined j"
    using j(2) that job_joined_moves[OF _ ok that] by (auto simp: job_joined_def)
  ultimately show thesis using that[OF j(1)] by (auto simp: job_settled_joined)
qed

lemma calm_covered:
  assumes "calm_change k m m'" "mgr_ok l m" "covered m I"
  shows "covered m' I"
proof -
  have "i \<in> I \<or> (\<forall>j'. m_store m' i = Some j' \<longrightarrow> job_settled j')" if "i \<in> set (m_jobs m') \<union> set (m_hidden m')" for i
  proof -
    have "i \<in> set (m_jobs m) \<union> set (m_hidden m)" using that assms(1) by (auto simp: calm_change_def)
    then have "i \<in> I \<or> (\<forall>j. m_store m i = Some j \<longrightarrow> job_settled j)" using assms(3) by (simp add: covered_def)
    then show ?thesis by (metis calm_joined[OF assms(1,2)])
  qed
  then show ?thesis using assms(1) by (simp add: covered_def calm_change_def)
qed

lemma m_closing_step: "mgr_step l m m' \<Longrightarrow> m_closing m \<Longrightarrow> m_closing m'"
  by (erule mgr_step.cases)
    (simp_all add: reserveStart_def releaseReservation_def spawn_job_def ready_section_def gate_section_def publish_section_def
      jobCompleted_def close_begin_def close_end_def Let_def split: option.split)

lemma close_ok_others:
  assumes "mgr_step l m m'" "mgr_ok l m" "close_ok c m"
  shows "close_ok c m'"
proof -
  have calm: "calm_change (KillWait l) m m'" if "covered m I" for I
    using that calm_change_step[OF assms(1,2)] by (simp add: covered_def)
  show ?thesis
  proof (cases c)
    case CloseStarts
    then show ?thesis using assms(3) m_closing_step[OF assms(1)] by (simp add: close_ok_def)
  next
    case (CloseBegins ids as)
    then show ?thesis using assms(3) calm calm_covered[OF _ assms(2)] by (auto simp: close_ok_def)
  next
    case (CloseWaits as)
    then show ?thesis using assms(3) calm calm_covered[OF _ assms(2)] by (auto simp: close_ok_def)
  next
    case (CloseJoins as)
    then have c: "covered m (fst ` set as)" and n: "as \<noteq> []" "\<And>j. m_store m (fst (hd as)) = Some j \<Longrightarrow> j_done j"
      using assms(3) by (simp_all add: close_ok_def)
    have "j_done j" if "m_store m' (fst (hd as)) = Some j" for j
      by (rule calm_joined[OF calm[OF c] assms(2) that]) (use n(2) in blast)
    then show ?thesis using n(1) calm_covered[OF calm[OF c] assms(2) c] CloseJoins by (simp add: close_ok_def)
  next
    case (CloseTimers as)
    then have c: "covered m (fst ` set as)" and n: "as \<noteq> []" "\<And>j. m_store m (fst (hd as)) = Some j \<Longrightarrow> job_joined j"
      using assms(3) by (simp_all add: close_ok_def)
    have "job_joined j" if "m_store m' (fst (hd as)) = Some j" for j
      by (rule calm_joined[OF calm[OF c] assms(2) that]) (use n(2) in blast)
    then show ?thesis using n(1) calm_covered[OF calm[OF c] assms(2) c] CloseTimers by (simp add: close_ok_def)
  next
    case (CloseReturned r)
    then show ?thesis using assms(3) m_closing_step[OF assms(1)] m_closed_step[OF assms(1)] by (simp add: close_ok_def split: option.splits)
  qed
qed

lemma wait_results:
  "None \<in> set (waitForTermination d a c) \<Longrightarrow> d" "Some e \<in> set (waitForTermination d a c) \<Longrightarrow> e = errTerminationIncomplete True \<or> e = errTerminationIncomplete False"
  by (auto simp: waitForTermination_def split: if_splits)

lemma covered_settled:
  assumes "covered m (insert i I)" "m_store m i = Some j" "job_settled j"
  shows "covered m I"
proof -
  have "x \<in> I \<or> (\<forall>k. m_store m x = Some k \<longrightarrow> job_settled k)" if "x \<in> set (m_jobs m) \<union> set (m_hidden m)" for x
    using assms that unfolding covered_def by (metis insertE option.inject)
  then show ?thesis using assms(1) by (simp add: covered_def)
qed

text \<open>The refinement: a section of \<open>Close\<close> is a step of the manager, or leaves it as it is.\<close>

lemma close_step_refines:
  assumes "close_step l (c, m) (c', m')" "mgr_ok l m" "close_ok c m"
  shows "(m' = m \<or> mgr_step l m m') \<and> close_ok c' m'"
  using assms(1)
proof (cases rule: close_step.cases)
  case others
  then show ?thesis using close_ok_others assms(2,3) by blast
next
  case (starts_done jobs hidden)
  then have "m_starts m = []" using assms(2) by (simp add: mgr_ok_def len_def)
  then show ?thesis using starts_done assms(3) by (simp add: close_ok_def covered_def)
next
  case starts_canceled
  then show ?thesis using assms(3) by (simp add: close_ok_def)
next
  case (begins i j ids as)
  then have m': "m' = m\<lparr>m_store := (m_store m)(i \<mapsto> snd (beginTermination causeClose j))\<rparr>"
    and c': "\<exists>attempt. c' = CloseBegins ids (as @ [(i, attempt)])" by (auto simp: close_begin_one_def split: prod.splits)
  have step: "mgr_step l m m'" unfolding m' by (rule mgr_step.moves[OF begins(3)]) (rule job_moves.terminated, simp)
  have cov: "covered m (set (i # ids) \<union> fst ` set as)" using assms(3) begins(1) by (simp add: close_ok_def)
  then have "calm_change (KillWait l) m m'" using calm_change_step[OF step assms(2)] by (simp add: covered_def)
  note calm_covered[OF this assms(2) cov]
  then show ?thesis using step c' by (auto simp: close_ok_def)
next
  case begun
  then show ?thesis using assms(3) by (simp add: close_ok_def)
next
  case (waited i j r a ctxDone as)
  then show ?thesis using assms(3) wait_results(1)[of "j_done j" "attempt_over a j" ctxDone] wait_results(2)[of _ "j_done j" "attempt_over a j" ctxDone]
    by (cases r) (auto simp: close_ok_def close_waited_def covered_def)
next
  case (joined i j a as)
  then have "job_joined j" using assms(3) by (auto simp: close_ok_def goroutines_ended_def job_joined_def)
  moreover have "job_settled j" if "j_timer j = NoTimer" using calculation that by (simp add: job_settled_joined)
  ultimately show ?thesis using joined assms(3) covered_settled[of m i "fst ` set as" j] by (auto simp: close_ok_def close_joined_def)
next
  case (timer_done i j a as)
  then have "job_settled j" using assms(3) by (simp add: close_ok_def job_settled_joined)
  then show ?thesis using timer_done assms(3) covered_settled[of m i "fst ` set as" j] by (simp add: close_ok_def)
next
  case (timer_canceled as)
  then show ?thesis using assms(3) by (simp add: close_ok_def covered_def)
next
  case ends
  then have c: "covered m {}" using assms(3) by (simp add: close_ok_def)
  then have "mgr_step l m (close_end m)" using assms(2) by (intro mgr_step.closed) (auto simp: covered_def mgr_ok_def len_def)
  then show ?thesis using ends c by (simp add: close_ok_def covered_def close_end_def)
qed

lemma close_enter_ok:
  assumes "mgr_ok l m" "close_enter m = (c, m')"
  shows "mgr_step l m m' \<and> close_ok c m'"
  using assms mgr_step.closes[of l m] by (auto simp: close_enter_def close_begin_def close_ok_def mgr_ok_def)

lemma close_run_ok:
  assumes "(close_step l)\<^sup>*\<^sup>* s s'" "mgr_ok l (snd s)" "close_ok (fst s) (snd s)"
  shows "mgr_ok l (snd s') \<and> close_ok (fst s') (snd s')"
  using assms(1)
proof (induction rule: rtranclp_induct)
  case base
  then show ?case using assms(2,3) by simp
next
  case (step t t')
  then show ?case using close_step_refines[of l "fst t" "snd t" "fst t'" "snd t'"] mgr_ok_step[of l "snd t" "snd t'"] by auto
qed

text \<open>
  C18: A call of \<open>Close\<close> that returns nil, in whatever way its sections interleave with starts, kills, other
  calls of \<open>Close\<close> and the jobs, leaves the manager closed with no call inside \<open>start\<close> and every job that was
  ever started in a terminal state with its process reaped, and so it stays; the only error it returns
  is termination-incomplete; and after either result every later \<open>start\<close> is refused.
\<close>

theorem manager_closed:
  assumes "bj_validateLimits l = None" "mgr_reachable l m0" "(close_step l)\<^sup>*\<^sup>* (close_enter m0) (CloseReturned r, m)"
    and "(mgr_step l)\<^sup>*\<^sup>* m m'"
  shows "(r = None \<longrightarrow> m_closed m' \<and> m_starts m' = [] \<and> (\<forall>i j. m_store m' i = Some j \<longrightarrow> j_state j \<noteq> JobRunning \<and> j_waitDone j)) \<and>
    (\<forall>e. r = Some e \<longrightarrow> (e = errTerminationIncomplete True \<or> e = errTerminationIncomplete False)) \<and> reserveStart l m' = (Inl errManagerClosing, m')"
proof -
  have ok0: "mgr_ok l m0" using mgr_reachable_ok[OF assms(2,1)] .
  obtain c1 m1 where e: "close_enter m0 = (c1, m1)" by fastforce
  have "mgr_ok l m1" "close_ok c1 m1" using close_enter_ok[OF ok0 e] mgr_ok_step[OF _ ok0] by blast+
  then have "mgr_ok l m \<and> close_ok (CloseReturned r) m" using close_run_ok[OF assms(3)] e by simp
  with assms(4) have "mgr_ok l m' \<and> close_ok (CloseReturned r) m'"
    by (induction rule: rtranclp_induct) (use mgr_ok_step close_ok_others in blast)+
  then have ok: "mgr_ok l m'" and ret: "close_ok (CloseReturned r) m'" by simp_all
  have "reserveStart l m' = (Inl errManagerClosing, m')" using ret by (simp add: close_ok_def reserveStart_def)
  then show ?thesis using ret mgr_closed[OF ok] mgr_closed_jobs[OF ok] by (auto simp: close_ok_def)
qed

text \<open>
  C29: A caller sees only its own jobs: \<open>status\<close> answers and \<open>kill\<close> acts only on a published job whose
  owner is the caller, \<open>list\<close> shows exactly those, each once, by start time and identity, and a call
  for any other identity gets job-not-found and changes nothing.
\<close>

theorem owner_isolation:
  assumes "bj_validateLimits l = None" "mgr_reachable l m"
  shows "(\<forall>i. mgr_status formatTime owner i m = Inl errJobNotFound \<longleftrightarrow>
      \<not> (i \<in> set (m_jobs m) \<and> (\<exists>j. m_store m i = Some j \<and> j_owner j = owner))) \<and>
    (\<forall>i. mgr_status formatTime owner i m = Inl errJobNotFound \<longrightarrow> kill_begin owner i m = (Inl errJobNotFound, m)) \<and>
    distinct (map sum_ID (mgr_list formatTime owner m)) \<and>
    set (map sum_ID (mgr_list formatTime owner m)) = {i \<in> set (m_jobs m). \<exists>j. m_store m i = Some j \<and> j_owner j = owner} \<and>
    sorted (map (\<lambda>i. (started_at m i, i)) (map sum_ID (mgr_list formatTime owner m)))"
proof -
  have ok: "mgr_ok l m" using mgr_reachable_ok[OF assms(2,1)] .
  have owned: "owned_job owner i m \<noteq> None \<longleftrightarrow> i \<in> set (m_jobs m) \<and> (\<exists>j. m_store m i = Some j \<and> j_owner j = owner)" for i
    by (auto simp: owned_job_def split: option.splits)
  have ids: "map sum_ID (mgr_list formatTime owner m) =
      sort_key (\<lambda>i. (started_at m i, i)) (filter (\<lambda>i. owned_job owner i m \<noteq> None) (m_jobs m))"
  proof -
    have "sum_ID (case m_store m i of None \<Rightarrow> job_summary formatTime i (new_job owner 0 0 0) | Some j \<Rightarrow> job_summary formatTime i j) = i" for i
      by (cases "m_store m i") (simp_all add: job_summary_def)
    then show ?thesis by (simp add: mgr_list_def Let_def comp_def)
  qed
  have status: "mgr_status formatTime owner i m = Inl errJobNotFound \<longleftrightarrow> owned_job owner i m = None" for i
    by (simp add: mgr_status_def split: option.split)
  have "distinct (m_jobs m)" using ok by (simp add: mgr_ok_def)
  then show ?thesis unfolding ids status
    by (intro conjI allI) (use owned in \<open>blast, simp add: kill_begin_def, simp, simp, simp only: sorted_sort_key\<close>)
qed

subsection \<open>The window between completion and the close of done\<close>

lemma moves_star:
  assumes "m_store m i = Some j" "(job_moves (KillWait l))\<^sup>*\<^sup>* j j'"
  shows "(mgr_step l)\<^sup>*\<^sup>* m (m\<lparr>m_store := (m_store m)(i \<mapsto> j')\<rparr>)"
  using assms(2)
proof (induction rule: rtranclp_induct)
  case base
  have "m\<lparr>m_store := (m_store m)(i \<mapsto> j)\<rparr> = m" using assms(1) by (simp add: fun_upd_idem)
  then show ?case by (simp only: rtranclp.rtrancl_refl)
next
  case (step k k')
  let ?m = "m\<lparr>m_store := (m_store m)(i \<mapsto> k)\<rparr>"
  have "mgr_step l ?m (?m\<lparr>m_store := (m_store ?m)(i \<mapsto> k')\<rparr>)" by (rule mgr_step.moves) (use step.hyps in simp_all)
  then have "mgr_step l ?m (m\<lparr>m_store := (m_store m)(i \<mapsto> k')\<rparr>)" by simp
  with step.IH show ?case by (rule rtranclp.rtrancl_into_rtrancl)
qed

text \<open>A job that is counted after its completion was reported stays counted.\<close>

lemma leaked_step:
  assumes step: "mgr_step l m m'" and ok: "mgr_ok l m" and j: "m_store m i = Some j" "j_counted j" "j_done j"
  shows "\<exists>j'. m_store m' i = Some j' \<and> j_counted j' \<and> j_done j'"
proof -
  have other: "k \<noteq> i" if "(k, stage) \<in> set (m_starts m)" for k stage
    using mgr_start_ok[OF ok that] j by (auto simp: start_ok_def split: if_splits)
  show ?thesis using step
  proof (cases rule: mgr_step.cases)
    case reserves
    obtain js where "pruneLocked l m = m\<lparr>m_jobs := js\<rparr>" using prune_shape by blast
    then have "m_store m' = m_store m" using reserves by (simp add: reserveStart_def Let_def)
    then show ?thesis using j by simp
  next
    case (moves k x x')
    then show ?thesis using j job_moves_frame[OF moves(3)] by (cases "k = i") auto
  next
    case (completes k x)
    then show ?thesis using j by (cases "k = i") (auto simp: jobCompleted_def Let_def)
  next
    case (publishes k e g c)
    then show ?thesis using j other[OF publishes(2)] by (simp add: publish_section_def Let_def split: option.split)
  next
    case (arms k x)
    then show ?thesis using j by (cases "k = i") (auto simp: arm_timer_frame)
  next
    case (spawns k owner startedAt timeoutSeconds)
    then show ?thesis using j other[OF spawns(2)] by (simp add: spawn_job_def)
  next
    case (readies k e)
    then show ?thesis using j other[OF readies(2)] by (simp add: ready_section_def)
  qed (use j in \<open>simp_all add: releaseReservation_def gate_section_def close_begin_def close_end_def Let_def\<close>)
qed

lemma leaked_steps:
  assumes "(mgr_step l)\<^sup>*\<^sup>* m m'" "mgr_ok l m" "m_store m i = Some j" "j_counted j" "j_done j"
  shows "mgr_ok l m' \<and> (\<exists>j'. m_store m' i = Some j' \<and> j_counted j' \<and> j_done j')"
  using assms(1)
proof (induction rule: rtranclp_induct)
  case (step k k')
  then show ?case using leaked_step mgr_ok_step by blast
qed (use assms in blast)

lemma leaked_refuses:
  assumes "mgr_ok l m" "m_store m i = Some j" "j_counted j" "MaxRunning l = 1"
  shows "\<exists>e. fst (reserveStart l m) = Inl e"
proof (cases rule: reserveStart_cases[of l m])
  case (reserved n c)
  obtain js where "n = m\<lparr>m_jobs := js\<rparr>" using prune_shape reserved(1) by blast
  moreover have "m_running m = int (card (counted_ids m))" "m_starting m = len (m_starts m)" using assms(1) by (simp_all add: mgr_ok_def)
  moreover have "counted_ids m \<noteq> {}" using assms(2,3) by (auto simp: counted_ids_def)
  then have "card (counted_ids m) > 0" using finite_counted_ids[OF assms(1)] by (simp add: card_gt_0_iff)
  ultimately show ?thesis using reserved(6) assms(4) by (simp add: len_def)
qed auto

definition race_limits :: bj_Limits where
  "race_limits = \<lparr>MaxRunning = 1, MaxTracked = 4, MaxCommandBytes = 64, MaxWorkingDirectoryBytes = 64, MaxOutputBytesPerStream = 4,
     MaxEnvironmentEntries = 1, bj_MaxEnvironmentBytes = 64, DefaultTimeout = 0, MaxTimeout = 1000000000, TerminateGrace = 1, KillWait = 20\<rparr>"

definition race_epoch :: bytes where
  "race_epoch = replicate 16 (CHR ''A'')"

definition race_id :: string where
  "race_id = job_id race_epoch 1"

definition race_gated :: manager where
  "race_gated = gate_section False False False race_id (ready_section False race_id
     (spawn_job race_limits race_id (''s'', ''w'') 0 None (snd (reserveStart race_limits (newManager race_epoch)))))"

definition race_job :: job where
  "race_job = (new_job (''s'', ''w'') 0 0 4)\<lparr>j_ready := True\<rparr>"

definition race_waited :: job where
  "race_waited = job_waited 20 5 False (coord_kill Signaled 4 (coord_start (readStatus (''v1:0'' @ [CHR 0x0A]) False race_job)))"

definition race_finished :: job where
  "race_finished = finishTerminal 9 (race_waited\<lparr>j_coordinator := CoordFinish\<rparr>)"

definition race_published :: manager where
  "race_published = publish_section False True False race_id (jobCompleted race_id
     (race_gated\<lparr>m_store := (m_store race_gated)(race_id \<mapsto> race_finished)\<rparr>))"

definition race_end_job :: job where
  "race_end_job = (job_completed race_finished)\<lparr>j_published := True, j_counted := True, j_finish := DoneClosed\<rparr>"

definition race_leaked :: manager where
  "race_leaked = race_published\<lparr>m_store := (m_store race_published)(race_id \<mapsto> race_end_job)\<rparr>"

lemma race_job_moves: "(job_moves 20)\<^sup>*\<^sup>* race_job race_finished"
proof -
  define b where "b = readStatus (''v1:0'' @ [CHR 0x0A]) False race_job"
  define c where "c = coord_start b"
  define d where "d = coord_kill Signaled 4 c"
  have "job_moves 20 race_job b" unfolding b_def by (rule job_moves.status_read) code_simp
  moreover have "job_moves 20 b c" unfolding c_def by (rule job_moves.coordinator_starts) (unfold b_def, code_simp)
  moreover have "job_moves 20 c d" unfolding d_def by (rule job_moves.coordinator_kills) (unfold c_def b_def, code_simp)
  moreover have "job_moves 20 d (job_waited 20 5 False d)" by (rule job_moves.process_waited) (unfold d_def c_def b_def, code_simp)
  then have "job_moves 20 d race_waited" by (simp add: race_waited_def b_def c_def d_def)
  moreover have "job_moves 20 race_waited (race_waited\<lparr>j_coordinator := CoordFinish\<rparr>)" by (rule job_moves.wait_over) code_simp+
  moreover have "job_moves 20 (race_waited\<lparr>j_coordinator := CoordFinish\<rparr>) race_finished"
    unfolding race_finished_def by (rule job_moves.finish_by_coordinator) code_simp+
  ultimately show ?thesis by (meson converse_rtranclp_into_rtranclp rtranclp.rtrancl_refl)
qed

lemma race_reserved:
  "reserveStart race_limits (newManager race_epoch) =
     (Inr race_id, (newManager race_epoch)\<lparr>m_counter := 1, m_starting := 1, m_starts := [(race_id, Reserved)]\<rparr>)"
  by (simp add: reserveStart_def newManager_def pruneLocked.simps tracked_def Let_def race_limits_def len_def race_id_def)

lemma race_gated_eq:
  "race_gated = (newManager race_epoch)\<lparr>m_counter := 1, m_starting := 1, m_store := [race_id \<mapsto> race_job],
     m_starts := [(race_id, GateTested False True)]\<rparr>"
proof -
  have "effective_time race_limits None = 0" "nat (MaxOutputBytesPerStream race_limits) = 4"
    by (simp_all add: effective_time_def race_limits_def)
  then show ?thesis unfolding race_gated_def race_reserved
    by (simp add: gate_section_def ready_section_def spawn_job_def newManager_def race_job_def)
qed

lemma race_finished_fields:
  "j_finish race_finished = StateSet" "\<not> j_counted race_finished" "\<not> j_published race_finished" "j_state race_finished = JobSucceeded"
  "j_coordinator race_finished = CoordFinish" "j_statusReady race_finished" "j_timer race_finished = NoTimer" "j_waitDone race_finished"
  by code_simp+

lemma race_published_eq:
  "race_published = (newManager race_epoch)\<lparr>m_counter := 1, m_jobs := [race_id], m_running := 1, m_starting := 0,
     m_store := [race_id \<mapsto> (job_completed race_finished)\<lparr>j_published := True, j_counted := True\<rparr>], m_starts := []\<rparr>"
  by (simp add: race_published_def publish_section_def jobCompleted_def race_gated_eq newManager_def race_finished_fields job_completed_def Let_def)

lemma race_leaked_eq:
  "race_leaked = (newManager race_epoch)\<lparr>m_counter := 1, m_jobs := [race_id], m_running := 1, m_starting := 0,
     m_store := [race_id \<mapsto> race_end_job], m_starts := []\<rparr>"
  by (simp add: race_leaked_def race_published_eq newManager_def)

lemma race_gated_reachable: "(mgr_step race_limits)\<^sup>*\<^sup>* (newManager race_epoch) race_gated"
proof -
  define a where "a = snd (reserveStart race_limits (newManager race_epoch))"
  define b where "b = spawn_job race_limits race_id (''s'', ''w'') 0 None a"
  define c where "c = ready_section False race_id b"
  have starts: "m_starts a = [(race_id, Reserved)]" by (simp add: a_def race_reserved)
  have "mgr_step race_limits (newManager race_epoch) a" unfolding a_def by (rule mgr_step.reserves)
  moreover have "mgr_step race_limits a b" unfolding b_def by (rule mgr_step.spawns) (simp add: starts)
  moreover have "mgr_step race_limits b c" unfolding c_def by (rule mgr_step.readies) (simp add: b_def spawn_job_def starts)
  moreover have "mgr_step race_limits c race_gated" unfolding race_gated_def a_def[symmetric] b_def[symmetric] c_def[symmetric]
    by (rule mgr_step.gates) (simp add: c_def ready_section_def b_def spawn_job_def starts)
  ultimately show ?thesis by (meson converse_rtranclp_into_rtranclp rtranclp.rtrancl_refl)
qed

lemma race_leaked_reachable: "mgr_reachable race_limits race_leaked"
proof -
  let ?f = "race_gated\<lparr>m_store := (m_store race_gated)(race_id \<mapsto> race_finished)\<rparr>"
  have kill: "KillWait race_limits = 20" by (simp add: race_limits_def)
  have job: "m_store race_gated race_id = Some race_job" by (simp add: race_gated_eq)
  have "(mgr_step race_limits)\<^sup>*\<^sup>* race_gated ?f" by (rule moves_star[OF job]) (unfold kill, rule race_job_moves)
  moreover have "mgr_step race_limits ?f (jobCompleted race_id ?f)"
    by (rule mgr_step.completes[of _ _ race_finished]) (simp_all add: race_finished_fields)
  moreover have "mgr_step race_limits (jobCompleted race_id ?f) race_published"
    unfolding race_published_def by (rule mgr_step.publishes) (simp add: jobCompleted_def Let_def race_gated_eq)
  moreover have "mgr_step race_limits race_published race_leaked"
  proof -
    have "job_moves 20 ((job_completed race_finished)\<lparr>j_published := True, j_counted := True\<rparr>) race_end_job"
      unfolding race_end_job_def by (rule job_moves.done_closed) (simp add: job_completed_def)
    then show ?thesis unfolding race_leaked_def by (intro mgr_step.moves) (simp_all add: kill race_published_eq)
  qed
  ultimately have "(mgr_step race_limits)\<^sup>*\<^sup>* (newManager race_epoch) race_leaked"
    using race_gated_reachable by (meson rtranclp.rtrancl_into_rtrancl rtranclp_trans)
  then show ?thesis unfolding mgr_reachable_def by (intro exI[of _ race_epoch]) (simp add: race_epoch_def)
qed

lemma race_limits_ok: "bj_validateLimits race_limits = None"
  by code_simp

lemma race_end_fields: "j_counted race_end_job" "j_done race_end_job" "j_state race_end_job = JobSucceeded" "j_owner race_end_job = (''s'', ''w'')"
  by code_simp+

text \<open>
  C39: \<open>start\<close> can publish a job after \<open>jobCompleted\<close> has run for it and before \<open>job.done\<close> is closed.
  It then counts the job as running and nothing ever takes that back: with \<open>MaxRunning = 1\<close> the
  manager below holds no live job and no start, is not closing, and refuses every later start.
\<close>

theorem publish_race_leaks_slot:
  "mgr_reachable race_limits race_leaked \<and> m_starts race_leaked = [] \<and> \<not> m_closing race_leaked \<and> m_running race_leaked = 1 \<and>
   (\<forall>i j. m_store race_leaked i = Some j \<longrightarrow> j_done j \<and> j_state j = JobSucceeded) \<and>
   (\<forall>m. (mgr_step race_limits)\<^sup>*\<^sup>* race_leaked m \<longrightarrow> (\<exists>e. fst (reserveStart race_limits m) = Inl e))"
proof -
  have job: "m_store race_leaked race_id = Some race_end_job" by (simp add: race_leaked_eq)
  have "\<exists>e. fst (reserveStart race_limits m) = Inl e" if run: "(mgr_step race_limits)\<^sup>*\<^sup>* race_leaked m" for m
  proof -
    obtain j' where "mgr_ok race_limits m" "m_store m race_id = Some j'" "j_counted j'"
      using leaked_steps[OF run mgr_reachable_ok[OF race_leaked_reachable race_limits_ok] job] race_end_fields by blast
    then show ?thesis by (rule leaked_refuses) (simp add: race_limits_def)
  qed
  then show ?thesis using race_leaked_reachable race_end_fields by (simp add: race_leaked_eq newManager_def)
qed

theorem publish_race_leaks_slot_witness:
  "(mgr_step race_limits)\<^sup>*\<^sup>* race_leaked race_leaked \<and> (\<exists>e. fst (reserveStart race_limits race_leaked) = Inl e)"
  using publish_race_leaks_slot by blast

subsection \<open>Witnesses\<close>

theorem manager_bounds_witness:
  "mgr_reachable race_limits race_leaked \<and> m_starting race_leaked + m_running race_leaked \<le> MaxRunning race_limits"
  using manager_bounds[OF race_limits_ok race_leaked_reachable] race_leaked_reachable by simp

definition race_closed :: manager where
  "race_closed = close_end (close_begin race_leaked)"

lemma race_closed_reachable: "mgr_reachable race_limits race_closed"
proof -
  let ?c = "close_begin race_leaked"
  have c: "?c = race_leaked\<lparr>m_closing := True\<rparr>" by (simp add: close_begin_def race_leaked_eq newManager_def)
  have settled: "job_settled race_end_job"
    using race_finished_fields by (simp add: job_settled_def race_end_job_def job_completed_def)
  have "mgr_step race_limits race_leaked ?c" by (rule mgr_step.closes)
  moreover have "mgr_step race_limits ?c race_closed" unfolding race_closed_def
    by (rule mgr_step.closed) (use settled in \<open>auto simp: close_begin_def race_leaked_eq newManager_def split: if_splits\<close>)
  ultimately show ?thesis using race_leaked_reachable unfolding mgr_reachable_def by (meson rtranclp.rtrancl_into_rtrancl)
qed

lemma race_close_run: "(close_step race_limits)\<^sup>*\<^sup>* (close_enter race_leaked) (CloseReturned None, race_closed)"
proof -
  let ?c = "close_begin race_leaked"
  have c: "?c = race_leaked\<lparr>m_closing := True\<rparr>" "close_enter race_leaked = (CloseStarts, ?c)"
    by (simp_all add: close_begin_def close_enter_def race_leaked_eq newManager_def)
  have j: "m_store ?c race_id = Some race_end_job" unfolding c(1) by (simp add: race_leaked_eq)
  have f: "j_done race_end_job" "j_state race_end_job \<noteq> JobRunning" "goroutines_ended race_end_job" "j_timer race_end_job = NoTimer"
    using race_finished_fields by (simp_all add: race_end_job_def job_completed_def goroutines_ended_def)
  have one: "close_begin_one race_id [] [] race_end_job ?c = (CloseBegins [] [(race_id, None)], ?c)"
    using f(2) j by (simp add: close_begin_one_def beginTermination_def fun_upd_idem)
  have 1: "close_step race_limits (CloseStarts, ?c) (CloseBegins ([race_id] @ []) [], ?c)"
  proof (rule close_step.starts_done)
    show "m_starting ?c = 0" "set [race_id] = set (m_jobs ?c)" "set [] = set (m_hidden ?c)" unfolding c(1) by (simp_all add: race_leaked_eq newManager_def)
  qed simp_all
  have 2: "close_step race_limits (CloseBegins [race_id] [], ?c) (CloseBegins [] [(race_id, None)], ?c)"
    using close_step.begins[OF j, of race_limits "[]" "[]"] unfolding one .
  have 3: "close_step race_limits (CloseBegins [] [(race_id, None)], ?c) (CloseWaits [(race_id, None)], ?c)" by (rule close_step.begun)
  have "None \<in> set (waitForTermination (j_done race_end_job) (attempt_over None race_end_job) False)" using f(1) by (simp add: waitForTermination_def)
  from close_step.waited[OF j this, of race_limits "[]"]
  have 4: "close_step race_limits (CloseWaits [(race_id, None)], ?c) (CloseJoins [(race_id, None)], ?c)" by (simp add: close_waited_def)
  from close_step.joined[OF j f(3), of race_limits None "[]"]
  have 5: "close_step race_limits (CloseJoins [(race_id, None)], ?c) (CloseWaits [], ?c)" using f(4) by (simp add: close_joined_def)
  have 6: "close_step race_limits (CloseWaits [], ?c) (CloseReturned None, race_closed)" unfolding race_closed_def by (rule close_step.ends)
  show ?thesis unfolding c(2) using 1 2 3 4 5 6 by simp
qed

theorem manager_closed_witness:
  "m_closed race_closed \<and> reserveStart race_limits race_closed = (Inl errManagerClosing, race_closed)"
  using manager_closed[OF race_limits_ok race_leaked_reachable race_close_run, of race_closed] by simp

lemma distinct_single: "distinct xs \<Longrightarrow> set xs = {x} \<Longrightarrow> xs = [x]"
  by (cases xs; cases "tl xs") auto

theorem owner_isolation_witness:
  "mgr_status (\<lambda>t. []) (''s'', ''x'') race_id race_leaked = Inl errJobNotFound \<and>
   map sum_ID (mgr_list (\<lambda>t. []) (''s'', ''w'') race_leaked) = [race_id]"
proof -
  have x: "\<not> (race_id \<in> set (m_jobs race_leaked) \<and> (\<exists>j. m_store race_leaked race_id = Some j \<and> j_owner j = (''s'', ''x'')))"
    using race_end_fields by (simp add: race_leaked_eq)
  have "{i \<in> set (m_jobs race_leaked). \<exists>j. m_store race_leaked i = Some j \<and> j_owner j = (''s'', ''w'')} = {race_id}"
    using race_end_fields by (auto simp: race_leaked_eq)
  moreover note owner_isolation[OF race_limits_ok race_leaked_reachable, of "\<lambda>t. []" "(''s'', ''w'')"]
  ultimately have "distinct (map sum_ID (mgr_list (\<lambda>t. []) (''s'', ''w'') race_leaked))"
    "set (map sum_ID (mgr_list (\<lambda>t. []) (''s'', ''w'') race_leaked)) = {race_id}" by simp_all
  then have "map sum_ID (mgr_list (\<lambda>t. []) (''s'', ''w'') race_leaked) = [race_id]"
    by (rule distinct_single)
  then show ?thesis using x owner_isolation[OF race_limits_ok race_leaked_reachable, of "\<lambda>t. []" "(''s'', ''x'')"] by blast
qed

subsection \<open>Identities that are handed out\<close>

definition hex_lower :: "char \<Rightarrow> bool" where
  "hex_lower c \<longleftrightarrow> \<not> ((c < CHR ''0'' \<or> c > CHR ''9'') \<and> (c < CHR ''a'' \<or> c > CHR ''f''))"

lemma hex_lower_hex_char: "n < 16 \<Longrightarrow> hex_lower (hex_char n)"
  by (simp add: hex_lower_def hex_char_def less_char_def of_char_of)

lemma hex_lower_pad: "list_all hex_lower (hex_pad k n)"
  by (induction k arbitrary: n) (simp_all add: hex_lower_hex_char)

lemma hex_lower_EncodeToString: "list_all hex_lower (EncodeToString bs)" "length (EncodeToString bs) = 2 * length bs"
  by (induction bs) (simp_all add: EncodeToString_def hex_lower_pad)

lemma valid_id_bytes_append: "valid_id_bytes n (xs @ ys) \<longleftrightarrow> valid_id_bytes n xs \<and> valid_id_bytes (n + length xs) ys"
  by (induction xs arbitrary: n) auto

lemma valid_id_bytes_hex: "list_all hex_lower xs \<Longrightarrow> valid_id_bytes n xs"
  by (induction xs arbitrary: n) (auto simp: hex_lower_def)

lemma validJobID_job_id: "length epoch = 16 \<Longrightarrow> validJobID (job_id epoch c)"
  by (simp add: validJobID_def job_id_def HasPrefix_def nth_append hex_lower_EncodeToString valid_id_bytes_append
      valid_id_bytes_hex[OF hex_lower_EncodeToString(1)] valid_id_bytes_hex[OF hex_lower_pad])

lemma mgr_epoch:
  assumes "mgr_reachable l m" shows "length (m_epoch m) = 16"
proof -
  have keep: "m_epoch k' = m_epoch k" if "mgr_step l k k'" for k k'
    using that
  proof (cases rule: mgr_step.cases)
    case reserves
    obtain js where "pruneLocked l k = k\<lparr>m_jobs := js\<rparr>" using prune_shape by blast
    then show ?thesis using reserves by (simp add: reserveStart_def Let_def)
  qed (simp_all add: releaseReservation_def spawn_job_def ready_section_def gate_section_def publish_section_def jobCompleted_def
      close_begin_def close_end_def Let_def split: option.split)
  obtain epoch where e: "length epoch = 16" "(mgr_step l)\<^sup>*\<^sup>* (newManager epoch) m" using assms by (auto simp: mgr_reachable_def)
  from e(2) show ?thesis by (induction rule: rtranclp_induct) (simp_all add: keep e(1) newManager_def)
qed

text \<open>
  An identity that \<open>reserveStart\<close> hands out is one the tools accept, and no job, tracked, hidden,
  pruned or still starting, has or ever had it.
\<close>

theorem reserved_id_fresh:
  assumes "bj_validateLimits l = None" "mgr_reachable l m" "reserveStart l m = (Inr i, m')"
  shows "validJobID i \<and> m_store m i = None \<and> i \<notin> set (m_jobs m) \<union> set (m_hidden m) \<union> fst ` set (m_starts m)"
proof (cases rule: reserveStart_cases[of l m])
  case (reserved n c)
  have ok: "mgr_ok l m" using mgr_reachable_ok[OF assms(2,1)] .
  obtain js where n: "n = m\<lparr>m_jobs := js\<rparr>" using prune_shape reserved(1) by blast
  have i: "i = job_id (m_epoch m) c" using reserved(8) assms(3) n by simp
  have "m_counter m < c" using reserved(2,3) word_less_plus_one n by simp
  then have fresh: "i \<notin> issued m" using job_id_inj i by (force simp: issued_def)
  have store: "m_store m i = None" using fresh mgr_stored_ok[OF ok, of i] by (cases "m_store m i") (auto simp: stored_ok_def)
  moreover have "i \<notin> fst ` set (m_starts m)" using fresh mgr_start_ok[OF ok] by (fastforce simp: start_ok_def)
  moreover have "i \<notin> set (m_jobs m)" "i \<notin> set (m_hidden m)" using store mgr_tracked_dom[OF ok, of i] by auto
  ultimately show ?thesis using validJobID_job_id[OF mgr_epoch[OF assms(2)]] i by simp
qed (use assms(3) in auto)

theorem reserved_id_fresh_witness:
  "reserveStart race_limits (newManager race_epoch) =
     (Inr race_id, (newManager race_epoch)\<lparr>m_counter := 1, m_starting := 1, m_starts := [(race_id, Reserved)]\<rparr>) \<and> validJobID race_id"
proof -
  have "mgr_reachable race_limits (newManager race_epoch)"
    unfolding mgr_reachable_def by (intro exI[of _ race_epoch]) (simp add: race_epoch_def)
  then show ?thesis using reserved_id_fresh[OF race_limits_ok _ race_reserved] race_reserved by simp
qed

end
