(* ===== verification/Jobs_Config.thy ===== *)
theory Jobs_Config
  imports Jobs_Manager Workspace Json_Encode
begin

section \<open>backgroundjobs: configuration, tool inputs and retention\<close>

text \<open>
  config.go (the environment snapshot, the retention of the four tools, \<open>canonicalize\<close>), tools.go (the
  input normalizers and the encoded results), executor.go (the owner of a call) and workspace.go (the
  working directory) of backgroundjobs. The file system's answers, the process environment and the
  framework's scope checks are arguments. Go ranges over a map in an unspecified order: \<open>range\<close> is
  an argument that permutes the entries.
\<close>

subsection \<open>The environment\<close>

definition EnvironmentExplicitOnly :: string where
  "EnvironmentExplicitOnly = ''explicit-only''"

definition EnvironmentInheritAndOverride :: string where
  "EnvironmentInheritAndOverride = ''inherit-and-override''"

record bj_Environment =
  env_Mode :: string
  env_Overrides :: "(string \<times> string) list"
  env_Identity :: string

definition env_assign :: "string \<times> string \<Rightarrow> (string \<times> string) list \<Rightarrow> (string \<times> string) list" where
  "env_assign kv vs = AList.update (fst kv) (snd kv) vs"

definition env_values :: "string list \<Rightarrow> bj_Environment \<Rightarrow> (string \<times> string) list" where
  "env_values environ e =
     (let inherited = (if env_Mode e = EnvironmentInheritAndOverride
                       then fold env_assign (List.map_filter (\<lambda>item. Cut item (CHR ''='')) environ) [] else []) in
      fold env_assign (env_Overrides e) inherited)"

fun env_check :: "bj_Limits \<Rightarrow> int \<Rightarrow> (string \<times> string) list \<Rightarrow> bj_error option" where
  "env_check l tot [] = None"
| "env_check l tot ((k, v) # kvs) =
     (if k = [] \<or> ContainsAny k [CHR ''='', CHR 0x00] \<or> ContainsByte v (CHR 0x00) then Some (bj_configError ''environment-entry'')
      else let entryBytes = len k + 1 + len v in
        if entryBytes > bj_MaxEnvironmentBytes l - tot then Some (bj_configError ''environment-bytes'')
        else env_check l (tot + entryBytes) kvs)"

definition env_entry :: "(string \<times> string) list \<Rightarrow> string \<Rightarrow> string" where
  "env_entry vs k = k @ ''='' @ (case map_of vs k of None \<Rightarrow> [] | Some v \<Rightarrow> v)"

definition effectiveEnvironment ::
  "((string \<times> string) list \<Rightarrow> (string \<times> string) list) \<Rightarrow> string list \<Rightarrow> bj_Environment \<Rightarrow> bj_Limits \<Rightarrow> bj_error + string list" where
  "effectiveEnvironment range_order environ e l =
     (if env_Mode e \<noteq> EnvironmentExplicitOnly \<and> env_Mode e \<noteq> EnvironmentInheritAndOverride then Inl (bj_configError ''environment-mode'')
      else let vs = env_values environ e in
        if len vs > MaxEnvironmentEntries l then Inl (bj_configError ''environment-entries'')
        else (case env_check l 0 (range_order vs) of
                Some err \<Rightarrow> Inl err
              | None \<Rightarrow> Inr (map (env_entry vs) (sort (map fst (range_order vs))))))"

subsection \<open>The environment snapshot\<close>

lemma env_assign_props:
  "distinct (map fst vs) \<Longrightarrow> distinct (map fst (env_assign kv vs))"
  "map_of (env_assign kv vs) = (map_of vs)(fst kv \<mapsto> snd kv)"
  by (auto simp: env_assign_def distinct_update update_conv')

lemma env_fold_props:
  "distinct (map fst vs) \<Longrightarrow> distinct (map fst (fold env_assign kvs vs))"
  "map_of (fold env_assign kvs vs) = map_of vs ++ map_of (rev kvs)"
  by (induction kvs arbitrary: vs) (simp_all add: env_assign_props map_add_def fun_eq_iff split: option.splits)

definition env_entry_ok :: "string \<times> string \<Rightarrow> bool" where
  "env_entry_ok kv \<longleftrightarrow> fst kv \<noteq> [] \<and> CHR ''='' \<notin> set (fst kv) \<and> CHR 0x00 \<notin> set (fst kv) \<and> CHR 0x00 \<notin> set (snd kv)"

definition env_bytes :: "(string \<times> string) list \<Rightarrow> int" where
  "env_bytes kvs = (\<Sum>kv\<leftarrow>kvs. len (fst kv) + 1 + len (snd kv))"

lemma env_bytes_nonneg: "0 \<le> env_bytes kvs"
  unfolding env_bytes_def by (intro sum_list_nonneg) (auto simp: len_def)

lemma env_check_None:
  "env_check l tot kvs = None \<longleftrightarrow> (\<forall>kv \<in> set kvs. env_entry_ok kv) \<and> (kvs \<noteq> [] \<longrightarrow> tot + env_bytes kvs \<le> bj_MaxEnvironmentBytes l)"
proof (induction kvs arbitrary: tot)
  case (Cons kv kvs)
  obtain k v where kv: "kv = (k, v)" by (cases kv)
  have ok: "env_entry_ok kv \<longleftrightarrow> \<not> (k = [] \<or> ContainsAny k [CHR ''='', CHR 0x00] \<or> ContainsByte v (CHR 0x00))"
    by (auto simp: kv env_entry_ok_def ContainsAny_def ContainsByte_def list_ex_iff)
  have bytes: "env_bytes (kv # kvs) = len k + 1 + len v + env_bytes kvs" by (simp add: env_bytes_def kv)
  have "env_bytes kvs = 0" if "kvs = []" using that by (simp add: env_bytes_def)
  then show ?case unfolding bytes list.set ball_simps ok
    using env_bytes_nonneg[of kvs] by (auto simp: kv Let_def Cons.IH)
qed simp

text \<open>A permutation of the entries, which is all that is known of the order in which Go ranges over a map.\<close>

definition permutes_entries :: "((string \<times> string) list \<Rightarrow> (string \<times> string) list) \<Rightarrow> bool" where
  "permutes_entries range_order \<longleftrightarrow> (\<forall>xs. mset (range_order xs) = mset xs)"

lemma effectiveEnvironment_Inr:
  assumes "permutes_entries range_order"
  shows "effectiveEnvironment range_order environ e l = Inr env \<longleftrightarrow>
    (env_Mode e = EnvironmentExplicitOnly \<or> env_Mode e = EnvironmentInheritAndOverride) \<and>
    len (env_values environ e) \<le> MaxEnvironmentEntries l \<and> (\<forall>kv \<in> set (env_values environ e). env_entry_ok kv) \<and>
    (env_values environ e \<noteq> [] \<longrightarrow> env_bytes (env_values environ e) \<le> bj_MaxEnvironmentBytes l) \<and>
    env = map (env_entry (env_values environ e)) (sort (map fst (env_values environ e)))"
proof -
  let ?vs = "env_values environ e"
  have m: "mset (range_order ?vs) = mset ?vs" using assms by (simp add: permutes_entries_def)
  have sets: "set (range_order ?vs) = set ?vs" "range_order ?vs = [] \<longleftrightarrow> ?vs = []" using mset_eq_setD[OF m] m by auto
  have "env_bytes (range_order ?vs) = env_bytes ?vs" using arg_cong[OF m, of "\<lambda>M. \<Sum>kv\<in>#M. len (fst kv) + 1 + len (snd kv)"]
    by (simp add: env_bytes_def flip: sum_mset_sum_list)
  then have chk: "env_check l 0 (range_order ?vs) = None \<longleftrightarrow> (\<forall>kv \<in> set ?vs. env_entry_ok kv) \<and> (?vs \<noteq> [] \<longrightarrow> env_bytes ?vs \<le> bj_MaxEnvironmentBytes l)"
    using env_check_None[of l 0 "range_order ?vs"] sets by simp
  have srt: "sort (map fst (range_order ?vs)) = sort (map fst ?vs)" using m by (intro properties_for_sort) simp_all
  show ?thesis
  proof (cases "env_check l 0 (range_order ?vs)")
    case None
    with chk show ?thesis unfolding effectiveEnvironment_def Let_def srt None by auto
  next
    case (Some err)
    with chk have "\<not> ((\<forall>kv \<in> set ?vs. env_entry_ok kv) \<and> (?vs \<noteq> [] \<longrightarrow> env_bytes ?vs \<le> bj_MaxEnvironmentBytes l))" by simp
    moreover have "effectiveEnvironment range_order environ e l \<noteq> Inr env" unfolding effectiveEnvironment_def Let_def Some by simp
    ultimately show ?thesis by blast
  qed
qed

text \<open>What the snapshot means: an override before an inherited value, the later of two inherited ones.\<close>

definition env_meaning :: "string list \<Rightarrow> bj_Environment \<Rightarrow> string \<Rightarrow> string option" where
  "env_meaning environ e =
     (if env_Mode e = EnvironmentInheritAndOverride then map_of (rev (List.map_filter (\<lambda>item. Cut item (CHR ''='')) environ)) else Map.empty)
     ++ map_of (rev (env_Overrides e))"

lemma env_values_meaning: "map_of (env_values environ e) = env_meaning environ e" "distinct (map fst (env_values environ e))"
  by (simp_all add: env_values_def env_meaning_def Let_def env_fold_props)

text \<open>
  C38: The frozen environment does not depend on the order in which Go ranges over the map: an accepted
  configuration gives the same list for every order. It has one entry for each variable, sorted by name,
  an override before an inherited value, inherited ones only in that mode; names are not empty and
  without \<open>=\<close>, nothing holds a NUL, and the entries and their bytes stay within the limits.
\<close>

theorem environment_frozen:
  assumes "permutes_entries range_order" "effectiveEnvironment range_order environ e l = Inr env"
  shows "(\<forall>range_order'. permutes_entries range_order' \<longrightarrow> effectiveEnvironment range_order' environ e l = Inr env) \<and>
    env = map (\<lambda>k. k @ ''='' @ the (env_meaning environ e k)) (sorted_list_of_set (dom (env_meaning environ e))) \<and>
    (\<forall>k v. env_meaning environ e k = Some v \<longrightarrow> env_entry_ok (k, v)) \<and>
    len env \<le> MaxEnvironmentEntries l \<and> (env \<noteq> [] \<longrightarrow> (\<Sum>item\<leftarrow>env. len item) \<le> bj_MaxEnvironmentBytes l)"
proof -
  let ?vs = "env_values environ e"
  note eq = effectiveEnvironment_Inr[of _ environ e l env]
  note inr = assms(2)[unfolded eq[OF assms(1)]]
  have map: "map_of ?vs = env_meaning environ e" and dist: "distinct (map fst ?vs)" using env_values_meaning by blast+
  have dom: "dom (env_meaning environ e) = set (map fst ?vs)" unfolding map[symmetric] by (simp add: dom_map_of_conv_image_fst)
  have srt: "sort (map fst ?vs) = sorted_list_of_set (set (map fst ?vs))" by (metis dist distinct_remdups_id sorted_list_of_set_sort_remdups)
  have ent: "env_entry ?vs k = k @ ''='' @ the (env_meaning environ e k)" if "k \<in> set (map fst ?vs)" for k
  proof -
    have "k \<in> dom (env_meaning environ e)" using that unfolding dom .
    then obtain v where "env_meaning environ e k = Some v" by (auto simp: dom_def)
    then show ?thesis by (simp add: env_entry_def map)
  qed
  have env: "env = map (\<lambda>k. k @ ''='' @ the (env_meaning environ e k)) (sorted_list_of_set (dom (env_meaning environ e)))"
    using inr ent unfolding dom srt[symmetric] by auto
  have entry: "env_entry_ok (k, v)" if "env_meaning environ e k = Some v" for k v
    using that inr unfolding map[symmetric] by (auto dest: map_of_SomeD)
  have "mset env = image_mset (\<lambda>kv. fst kv @ ''='' @ snd kv) (mset ?vs)"
  proof -
    have "mset env = image_mset (env_entry ?vs) (mset (map fst ?vs))" using inr by (metis mset_map mset_sort)
    also have "\<dots> = image_mset (\<lambda>kv. env_entry ?vs (fst kv)) (mset ?vs)" by (simp add: image_mset.compositionality comp_def)
    also have "\<dots> = image_mset (\<lambda>kv. fst kv @ ''='' @ snd kv) (mset ?vs)"
      using dist by (intro image_mset_cong) (auto simp: env_entry_def map_of_is_SomeI)
    finally show ?thesis .
  qed
  then have "(\<Sum>item\<in>#mset env. len item) = (\<Sum>kv\<in>#mset ?vs. len (fst kv) + 1 + len (snd kv))"
    by (simp add: image_mset.compositionality comp_def len_def ac_simps)
  then have bytes: "(\<Sum>item\<leftarrow>env. len item) = env_bytes ?vs" unfolding env_bytes_def by (simp flip: sum_mset_sum_list)
  have "length env = length ?vs" using inr by simp
  then have "len env = len ?vs" "env \<noteq> [] \<longleftrightarrow> ?vs \<noteq> []" by (auto simp: len_def)
  then show ?thesis using inr eq env entry bytes by auto
qed

definition env_demo :: bj_Environment where
  "env_demo = \<lparr>env_Mode = EnvironmentInheritAndOverride, env_Overrides = [(''B'', ''2''), (''A'', ''x'')], env_Identity = ''e''\<rparr>"

definition env_demo_limits :: bj_Limits where
  "env_demo_limits = \<lparr>MaxRunning = 1, MaxTracked = 1, MaxCommandBytes = 64, MaxWorkingDirectoryBytes = 64, MaxOutputBytesPerStream = 4,
     MaxEnvironmentEntries = 2, bj_MaxEnvironmentBytes = 6, DefaultTimeout = 0, MaxTimeout = 1000000000, TerminateGrace = 1, KillWait = 20\<rparr>"

theorem environment_frozen_witness:
  "effectiveEnvironment id [''A=1'', ''C''] env_demo env_demo_limits = Inr [''A=x'', ''B=2''] \<and>
   effectiveEnvironment rev [''A=1'', ''C''] env_demo env_demo_limits = Inr [''A=x'', ''B=2'']"
proof -
  have "permutes_entries id" "permutes_entries rev" by (simp_all add: permutes_entries_def)
  moreover have res: "effectiveEnvironment id [''A=1'', ''C''] env_demo env_demo_limits = Inr [''A=x'', ''B=2'']" by code_simp
  ultimately show ?thesis using environment_frozen[OF _ res] by blast
qed

subsection \<open>Encoded results\<close>

definition state_text :: "JobState \<Rightarrow> string" where
  "state_text s = (case s of JobRunning \<Rightarrow> ''running'' | JobSucceeded \<Rightarrow> ''succeeded'' | JobFailed \<Rightarrow> ''failed''
     | JobKilled \<Rightarrow> ''killed'' | JobTimedOut \<Rightarrow> ''timed_out'')"

definition tail_json :: "TailResult \<Rightarrow> json" where
  "tail_json t = JObj [(''text'', JStr (tr_Text t)), (''truncated'', JBool (tr_Truncated t))]"

definition start_json :: "StartResult \<Rightarrow> json" where
  "start_json r = JObj [(''id'', JStr (sr_ID r)), (''state'', JStr (state_text (sr_State r))), (''started_at'', JStr (sr_StartedAt r)),
     (''timeout_seconds'', JNum (int_lit (sr_TimeoutSeconds r)))]"

definition status_json :: "StatusResult \<Rightarrow> json" where
  "status_json r = JObj ([(''id'', JStr (st_ID r)), (''state'', JStr (state_text (st_State r))), (''started_at'', JStr (st_StartedAt r))] @
     (if st_CompletedAt r = [] then [] else [(''completed_at'', JStr (st_CompletedAt r))]) @
     [(''timeout_seconds'', JNum (int_lit (st_TimeoutSeconds r)))] @
     (case st_ExitCode r of None \<Rightarrow> [] | Some c \<Rightarrow> [(''exit_code'', JNum (int_lit c))]) @
     [(''stdout'', tail_json (st_Stdout r)), (''stderr'', tail_json (st_Stderr r))])"

definition summary_json :: "JobSummary \<Rightarrow> json" where
  "summary_json r = JObj ([(''id'', JStr (sum_ID r)), (''state'', JStr (state_text (sum_State r))), (''started_at'', JStr (sum_StartedAt r))] @
     (if sum_CompletedAt r = [] then [] else [(''completed_at'', JStr (sum_CompletedAt r))]) @
     [(''timeout_seconds'', JNum (int_lit (sum_TimeoutSeconds r)))])"

definition list_json :: "JobSummary list \<Rightarrow> json" where
  "list_json js = JObj [(''jobs'', JArr (map summary_json js))]"

definition kill_json :: "KillResult \<Rightarrow> json" where
  "kill_json r = JObj [(''id'', JStr (kr_ID r)), (''state'', JStr (state_text (kr_State r))), (''newly_accepted'', JBool (kr_NewlyAccepted r))]"

subsection \<open>Retention\<close>

definition safeAdd :: "int \<Rightarrow> int \<Rightarrow> int option" where
  "safeAdd left right = (if left < 0 \<or> right < 0 \<or> left > MaxInt64 - right then None else Some (wrap64 (left + right)))"

definition safeMul :: "int \<Rightarrow> int \<Rightarrow> int option" where
  "safeMul left right = (if left < 0 \<or> right < 0 \<or> left \<noteq> 0 \<and> right > MaxInt64 div left then None else Some (wrap64 (left * right)))"

definition bj_maxID :: string where
  "bj_maxID = ''job_'' @ replicate 32 (CHR ''f'') @ ''_'' @ replicate 16 (CHR ''f'')"

definition bj_maxTime :: string where
  "bj_maxTime = ''9999-12-31T23:59:59.999999999Z''"

definition max_status :: "bj_Limits \<Rightarrow> StatusResult" where
  "max_status l = \<lparr>st_ID = bj_maxID, st_State = JobTimedOut, st_StartedAt = bj_maxTime, st_CompletedAt = bj_maxTime,
     st_TimeoutSeconds = MaxTimeout l div Second, st_ExitCode = Some 255, st_Stdout = \<lparr>tr_Text = [], tr_Truncated = True\<rparr>,
     st_Stderr = \<lparr>tr_Text = [], tr_Truncated = True\<rparr>\<rparr>"

definition max_summary :: "bj_Limits \<Rightarrow> JobSummary" where
  "max_summary l = \<lparr>sum_ID = bj_maxID, sum_State = JobTimedOut, sum_StartedAt = bj_maxTime, sum_CompletedAt = bj_maxTime,
     sum_TimeoutSeconds = MaxTimeout l div Second\<rparr>"

definition max_start :: "bj_Limits \<Rightarrow> StartResult" where
  "max_start l = \<lparr>sr_ID = bj_maxID, sr_State = JobTimedOut, sr_StartedAt = bj_maxTime, sr_TimeoutSeconds = MaxTimeout l div Second\<rparr>"

definition max_kill :: KillResult where
  "max_kill = \<lparr>kr_ID = bj_maxID, kr_State = JobTimedOut, kr_NewlyAccepted = False\<rparr>"

definition status_bytes :: "bj_Limits \<Rightarrow> int option" where
  "status_bytes l = (case safeMul (MaxOutputBytesPerStream l) 12 of None \<Rightarrow> None | Some out \<Rightarrow> safeAdd (len (enc (status_json (max_status l)))) out)"

definition list_bytes :: "bj_Limits \<Rightarrow> int option" where
  "list_bytes l =
     (let listBytes = len (enc (list_json [])) in
      if MaxTracked l > 0 then
        (case safeMul (MaxTracked l) (len (enc (summary_json (max_summary l)))) of
           None \<Rightarrow> None
         | Some added \<Rightarrow> (case safeAdd listBytes added of None \<Rightarrow> None | Some lb \<Rightarrow> safeAdd lb (MaxTracked l - 1)))
      else Some listBytes)"

definition inline_bytes :: "int \<Rightarrow> int option" where
  "inline_bytes maximum = (case safeMul maximum 2 of None \<Rightarrow> None | Some inl \<Rightarrow> if inl > 16 * 2 ^ 20 then None else Some inl)"

text \<open>The inline bytes kept of a start, a status, a list and a kill.\<close>

record bj_retention =
  ret_start :: int
  ret_status :: int
  ret_list :: int
  ret_kill :: int

definition retentionPolicies :: "bj_Limits \<Rightarrow> bj_error + bj_retention" where
  "retentionPolicies l =
     (case status_bytes l of None \<Rightarrow> Inl (bj_configError ''retention-overflow'') | Some statusBytes \<Rightarrow>
      case list_bytes l of None \<Rightarrow> Inl (bj_configError ''retention-overflow'') | Some listBytes \<Rightarrow>
      case (inline_bytes (len (enc (start_json (max_start l)))), inline_bytes statusBytes, inline_bytes listBytes, inline_bytes (len (enc (kill_json max_kill)))) of
        (Some a, Some b, Some c, Some d) \<Rightarrow> Inr \<lparr>ret_start = a, ret_status = b, ret_list = c, ret_kill = d\<rparr>
      | _ \<Rightarrow> Inl (bj_configError ''retention-limit''))"

subsection \<open>Lengths of encoded results\<close>

definition plain_char :: "char \<Rightarrow> bool" where
  "plain_char c \<longleftrightarrow> html_safe c \<and> byte c < 0x80"

lemma escape_body_plain: "list_all plain_char s \<Longrightarrow> escape_body s = s"
proof (induction s)
  case (Cons c s)
  then show ?case by (subst escape_body.simps) (simp add: escape_step_def escape_ascii_def plain_char_def)
qed simp

lemma length_marshal_plain: "list_all plain_char s \<Longrightarrow> length (marshal_string s) = length s + 2"
  by (simp add: marshal_string_def escape_body_plain)

lemma length_members:
  "length (marshal_string ''id'') = 4" "length (marshal_string ''state'') = 7" "length (marshal_string ''started_at'') = 12"
  "length (marshal_string ''completed_at'') = 14" "length (marshal_string ''timeout_seconds'') = 17" "length (marshal_string ''exit_code'') = 11"
  "length (marshal_string ''stdout'') = 8" "length (marshal_string ''stderr'') = 8" "length (marshal_string ''text'') = 6"
  "length (marshal_string ''truncated'') = 11" "length (marshal_string ''jobs'') = 6" "length (marshal_string ''newly_accepted'') = 16"
  by (simp_all add: length_marshal_plain plain_char_def html_safe_def)

lemma plain_max: "list_all plain_char bj_maxID" "list_all plain_char bj_maxTime" "length bj_maxID = 53" "length bj_maxTime = 30" "bj_maxTime \<noteq> []"
  by (simp_all add: bj_maxID_def bj_maxTime_def plain_char_def html_safe_def list_all_iff)

lemma plain_state_text: "list_all plain_char (state_text s)"
  by (cases s) (simp_all add: state_text_def plain_char_def html_safe_def)

lemma length_state_text: "length (state_text s) = (case s of JobRunning \<Rightarrow> 7 | JobSucceeded \<Rightarrow> 9 | JobFailed \<Rightarrow> 6 | JobKilled \<Rightarrow> 6 | JobTimedOut \<Rightarrow> 9)"
  by (cases s) (simp_all add: state_text_def)

lemma plain_hex: "hex_lower c \<Longrightarrow> plain_char c"
  by (auto simp: hex_lower_def plain_char_def html_safe_def not_less less_eq_char_def less_char_def)

lemma plain_job_id: "list_all plain_char (job_id epoch c)" "length epoch = 16 \<Longrightarrow> length (job_id epoch c) = 53"
proof -
  have "list_all plain_char (EncodeToString epoch)" "list_all plain_char (hex_pad 16 (unat c))"
    using hex_lower_EncodeToString(1)[of epoch] hex_lower_pad[of 16 "unat c"] plain_hex by (auto simp: list_all_iff)
  then show "list_all plain_char (job_id epoch c)" by (simp add: job_id_def plain_char_def html_safe_def)
  show "length epoch = 16 \<Longrightarrow> length (job_id epoch c) = 53" by (simp add: job_id_def hex_lower_EncodeToString(2))
qed

lemma length_int_lit_mono: "0 \<le> a \<Longrightarrow> a \<le> b \<Longrightarrow> length (int_lit a) \<le> length (int_lit b)"
  by (simp add: int_lit_def length_nat_digits_mono)

lemma length_exit_code: "0 \<le> c \<Longrightarrow> c \<le> 255 \<Longrightarrow> length (int_lit c) \<le> 3"
  by (simp add: int_lit_def length_nat_digits_byte)

text \<open>A repaired tail needs no more than six bytes of JSON for each byte it holds, as a valid one.\<close>

lemma length_escape_rune:
  assumes p: "p \<noteq> []" and d: "rune_ok (decode_rune (p @ r))" "snd (decode_rune (p @ r)) = length p"
  shows "length (escape_body (p @ r)) \<le> 6 * length p + length (escape_body r)"
proof -
  have n: "snd (escape_step (p @ r)) = length p"
    using p d by (cases p) (auto simp: escape_step_def Let_def decode_rune_ascii)
  have "escape_body (p @ r) = fst (escape_step (p @ r)) @ escape_body r"
    using p n by (subst escape_body.simps) simp
  then show ?thesis using length_escape_step[of "p @ r"] p n by simp
qed

lemma escape_body_replacement: "escape_body (replacement_char @ r) = replacement_char @ escape_body r"
  by (subst escape_body.simps) (simp add: replacement_char_def escape_step_def decode_rune_def second_ok_def cont_byte_def rune_ok_def RuneError_def)

lemma length_escape_repaired: "length (escape_body (ToValidUTF8 s replacement_char bad)) \<le> 6 * length s"
proof (induction s replacement_char bad rule: ToValidUTF8.induct)
  case (1 s bad)
  show ?case
  proof (cases "s = []")
    case ne: False
    let ?n = "snd (decode_rune s)" and ?t = "\<lambda>b. ToValidUTF8 (drop (snd (decode_rune s)) s) replacement_char b"
    from decode_rune_size [OF ne] have n: "1 \<le> ?n" "?n \<le> length s" by auto
    show ?thesis
    proof (cases "rune_ok (decode_rune s)")
      case True
      have "length (escape_body (take ?n s @ ?t False)) \<le> 6 * length (take ?n s) + length (escape_body (?t False))"
        using ne n True decode_rune_take[OF ne True] by (intro length_escape_rune) (auto simp: min_absorb2)
      moreover have "length (escape_body (?t False)) \<le> 6 * (length s - ?n)" using 1(1)[OF ne refl True] by simp
      ultimately show ?thesis using ne n True by (subst ToValidUTF8.simps) (simp add: Let_def min_absorb2)
    next
      case False
      have "length (escape_body (?t True)) \<le> 6 * (length s - ?n)" using 1(2)[OF ne refl False] by simp
      moreover have "length replacement_char = 3" by (simp add: replacement_char_def)
      ultimately show ?thesis using ne n False by (subst ToValidUTF8.simps) (cases bad; simp add: Let_def escape_body_replacement)
    qed
  qed simp
qed

lemma length_snapshot_text: "tail_inv w \<Longrightarrow> length (marshal_string (tr_Text (tail_snapshot w))) \<le> 6 * tail_cap w + 2"
proof -
  assume inv: "tail_inv w"
  then have "length (tail_data w) \<le> tail_cap w" by (simp add: length_tail_data) (simp add: tail_inv_def tail_cap_def)
  then show ?thesis using length_escape_repaired[of "tail_data w" False] length_escape_body[of "tail_data w"]
    by (simp add: tail_snapshot_def Let_def marshal_string_def)
qed

subsection \<open>Every result fits what is retained of it\<close>

text \<open>What the normalizer of a start lets through as its timeout.\<close>

definition accepted_timeout :: "bj_Limits \<Rightarrow> int option \<Rightarrow> bool" where
  "accepted_timeout l t = (case t of None \<Rightarrow> True | Some s \<Rightarrow> 0 \<le> s \<and> s \<le> MaxTimeout l div Second)"

definition sized :: "bj_Limits \<Rightarrow> job \<Rightarrow> bool" where
  "sized l j \<longleftrightarrow> tail_inv (j_stdout j) \<and> tail_cap (j_stdout j) = nat (MaxOutputBytesPerStream l) \<and>
     tail_inv (j_stderr j) \<and> tail_cap (j_stderr j) = nat (MaxOutputBytesPerStream l)"

lemma tail_markTruncated [simp]: "tail_inv (markTruncated w) = tail_inv w" "tail_cap (markTruncated w) = tail_cap w"
  by (simp_all add: markTruncated_def tail_inv_def tail_cap_def)

lemma sized_cong: "j_stdout j' = j_stdout j \<Longrightarrow> j_stderr j' = j_stderr j \<Longrightarrow> sized l j' = sized l j"
  by (simp add: sized_def)

lemma sized_moves:
  assumes "job_moves k j j'" "sized l j"
  shows "sized l j'"
  using assms(1)
proof (cases rule: job_moves.cases)
  case (status_read raw readErr)
  show ?thesis unfolding status_read by (rule readStatus_cases) (use assms(2) in \<open>simp add: Let_def startCoordinatorLocked_def sized_def\<close>)
next
  case (coordinator_terms res now)
  then show ?thesis using assms(2) by (cases res) (simp_all add: coord_term_def advanceSignal_def sized_def)
next
  case (coordinator_kills res now)
  then show ?thesis using assms(2) by (cases res) (simp_all add: coord_kill_def advanceSignal_def sized_def)
qed (use assms(2) in \<open>simp_all add: sized_def tail_Write_refines(2) job_section_defs finishTerminal_def split: prod.split\<close>)

lemma sized_step:
  assumes "mgr_step l m m'" "\<forall>j \<in> ran (m_store m). sized l j"
  shows "\<forall>j \<in> ran (m_store m'). sized l j"
proof -
  have put: "\<forall>j \<in> ran ((m_store m)(i := x)). sized l j" if "\<And>j. x = Some j \<Longrightarrow> sized l j" for i x
    using that assms(2) by (auto simp: ran_def split: if_splits)
  have at: "sized l j" if "m_store m i = Some j" for i j using that assms(2) by (auto simp: ran_def)
  show ?thesis using assms(1)
  proof (cases rule: mgr_step.cases)
    case reserves
    obtain js where "pruneLocked l m = m\<lparr>m_jobs := js\<rparr>" using prune_shape by blast
    then show ?thesis using reserves assms(2) by (simp add: reserveStart_def Let_def)
  next
    case (spawns i owner startedAt timeoutSeconds)
    have "sized l (new_job owner startedAt e (nat (MaxOutputBytesPerStream l)))" for e
      by (simp add: sized_def new_job_def tail_inv_new)
    then show ?thesis using spawns put[of "Some (new_job owner startedAt (effective_time l timeoutSeconds) (nat (MaxOutputBytesPerStream l)))" i]
      by (simp add: spawn_job_def)
  next
    case (readies i readyErr)
    moreover have "sized l j" if "map_option (j_ready_update (\<lambda>_. \<not> readyErr)) (m_store m i) = Some j" for j
      using that at[of i] by (auto simp: sized_def)
    ultimately show ?thesis using put[of "map_option (j_ready_update (\<lambda>_. \<not> readyErr)) (m_store m i)" i] by (simp add: ready_section_def)
  next
    case (publishes i readyErr gateReleased callerCanceled)
    show ?thesis
    proof (cases "m_store m i")
      case (Some j)
      define k where "k = (if \<not> readyErr \<and> gateReleased \<and> \<not> m_closing m \<and> \<not> callerCanceled then j\<lparr>j_published := True\<rparr> else j)"
      define j' where "j' = (if \<not> j_done j then k\<lparr>j_counted := True\<rparr> else k)"
      have "m_store m' = (m_store m)(i \<mapsto> j')" unfolding publishes by (simp add: publish_section_def Let_def Some k_def j'_def)
      moreover have "sized l j'" using at[OF Some] by (simp add: j'_def k_def sized_def)
      ultimately show ?thesis using put[of "Some j'" i] by simp
    qed (use publishes assms(2) in \<open>simp add: publish_section_def\<close>)
  next
    case (completes i j)
    have "m_store m' = (m_store m)(i \<mapsto> job_completed j)" unfolding completes(1) by (simp add: jobCompleted_def Let_def completes(2))
    moreover have "sized l (job_completed j)" using at[OF completes(2)] by (simp add: job_completed_def sized_def)
    ultimately show ?thesis using put[of "Some (job_completed j)" i] by simp
  next
    case (arms i j)
    have "sized l (arm_timer j)" using at[OF arms(2)] by (simp add: arm_timer_def sized_def)
    then show ?thesis using put[of "Some (arm_timer j)" i] by (simp add: arms(1))
  next
    case (moves i j j')
    show ?thesis using sized_moves[OF moves(3) at[OF moves(2)]] put[of "Some j'" i] by (simp add: moves(1))
  qed (use assms(2) in \<open>simp_all add: releaseReservation_def gate_section_def close_begin_def close_end_def Let_def\<close>)
qed

lemma sized_reachable: "mgr_reachable l m \<Longrightarrow> m_store m i = Some j \<Longrightarrow> sized l j"
proof -
  assume "mgr_reachable l m" "m_store m i = Some j"
  then obtain epoch where "(mgr_step l)\<^sup>*\<^sup>* (newManager epoch) m" by (auto simp: mgr_reachable_def)
  then have "\<forall>j \<in> ran (m_store m). sized l j"
  proof (induction rule: rtranclp_induct)
    case base
    show ?case by (simp add: newManager_def)
  next
    case (step y z)
    then show ?case using sized_step by blast
  qed
  then show ?thesis using \<open>m_store m i = Some j\<close> by (auto simp: ran_def)
qed

lemma effective_seconds:
  assumes "bj_validateLimits l = None" "accepted_timeout l t"
  shows "0 \<le> effective_time l t div Second \<and> effective_time l t div Second \<le> MaxTimeout l div Second"
proof -
  have "0 \<le> DefaultTimeout l" "DefaultTimeout l \<le> MaxTimeout l" "0 \<le> MaxTimeout l"
    using assms(1) by (auto simp: bj_validateLimits_def Second_def split: if_splits)
  then have "0 \<le> DefaultTimeout l div Second" "DefaultTimeout l div Second \<le> MaxTimeout l div Second"
    by (auto simp: Second_def intro: zdiv_mono1)
  then show ?thesis using assms(2) by (auto simp: effective_time_def accepted_timeout_def Second_def split: option.splits)
qed

lemma safeMul_Some: "safeMul a b = Some c \<Longrightarrow> c = a * b"
proof -
  assume a: "safeMul a b = Some c"
  then have ge: "0 \<le> a" "0 \<le> b" and c: "c = wrap64 (a * b)" and le: "a = 0 \<or> b \<le> MaxInt64 div a"
    by (auto simp: safeMul_def split: if_splits)
  have "a * b \<le> MaxInt64"
  proof (cases "a = 0")
    case False
    then have "a * b \<le> a * (MaxInt64 div a)" using le ge by (simp add: mult_left_mono)
    also have "\<dots> \<le> MaxInt64" using False ge mult_div_mod_eq[of a MaxInt64] pos_mod_sign[of a MaxInt64] by linarith
    finally show ?thesis .
  qed (simp add: MaxInt64_def)
  then show "c = a * b" using c mult_nonneg_nonneg[OF ge] wrap64_id[of "a * b"] by (simp add: int64_def MaxInt64_def)
qed

lemma safeAdd_Some: "safeAdd a b = Some c \<Longrightarrow> c = a + b"
  using wrap64_id[of "a + b"] by (auto simp: safeAdd_def int64_def MaxInt64_def split: if_splits)

lemma inline_bytes_Some: "inline_bytes a = Some c \<Longrightarrow> c = 2 * a"
  by (auto simp: inline_bytes_def dest!: safeMul_Some split: option.splits if_splits)

lemma retentionPolicies_Inr:
  assumes "retentionPolicies l = Inr ret" "0 < MaxTracked l"
  shows "ret_start ret = 2 * len (enc (start_json (max_start l)))"
    and "ret_status ret = 2 * (len (enc (status_json (max_status l))) + 12 * MaxOutputBytesPerStream l)"
    and "ret_list ret = 2 * (len (enc (list_json [])) + MaxTracked l * len (enc (summary_json (max_summary l))) + (MaxTracked l - 1))"
    and "ret_kill ret = 2 * len (enc (kill_json max_kill))"
proof -
  obtain sb lb a b c d where parts: "status_bytes l = Some sb" "list_bytes l = Some lb"
      "inline_bytes (len (enc (start_json (max_start l)))) = Some a" "inline_bytes sb = Some b" "inline_bytes lb = Some c"
      "inline_bytes (len (enc (kill_json max_kill))) = Some d" and ret: "ret = \<lparr>ret_start = a, ret_status = b, ret_list = c, ret_kill = d\<rparr>"
    using assms(1) by (auto simp: retentionPolicies_def split: option.splits)
  have sb: "sb = len (enc (status_json (max_status l))) + 12 * MaxOutputBytesPerStream l"
    using parts(1) by (auto simp: status_bytes_def dest!: safeMul_Some safeAdd_Some split: option.splits)
  have lb: "lb = len (enc (list_json [])) + MaxTracked l * len (enc (summary_json (max_summary l))) + (MaxTracked l - 1)"
    using parts(2) assms(2) by (auto simp: list_bytes_def Let_def dest!: safeMul_Some safeAdd_Some split: option.splits if_splits)
  show "ret_start ret = 2 * len (enc (start_json (max_start l)))"
    "ret_status ret = 2 * (len (enc (status_json (max_status l))) + 12 * MaxOutputBytesPerStream l)"
    "ret_list ret = 2 * (len (enc (list_json [])) + MaxTracked l * len (enc (summary_json (max_summary l))) + (MaxTracked l - 1))"
    "ret_kill ret = 2 * len (enc (kill_json max_kill))"
    using parts(3-6)[THEN inline_bytes_Some] unfolding ret sb lb by simp_all
qed

text \<open>A time as \<open>RFC3339Nano\<close> prints it in UTC: at most thirty bytes, none of which JSON escapes.\<close>

definition time_text :: "string \<Rightarrow> bool" where
  "time_text s \<longleftrightarrow> list_all plain_char s \<and> length s \<le> 30"

lemmas enc_lengths = enc.simps length_sep_by length_marshal_plain length_members plain_max plain_state_text length_state_text

lemma length_summary_le:
  assumes "list_all plain_char i" "length i = 53" "\<And>t. time_text (fmt t)"
    and "0 \<le> j_effectiveTime j div Second" "j_effectiveTime j div Second \<le> MaxTimeout l div Second"
  shows "length (enc (summary_json (job_summary fmt i j))) \<le> length (enc (summary_json (max_summary l)))"
  using assms(1,2) assms(3)[of "j_startedAt j"] assms(3)[of "the (j_completedAt j)"] length_int_lit_mono[OF assms(4,5)]
  by (cases "j_state j"; cases "j_completedAt j")
    (simp_all add: summary_json_def job_summary_def max_summary_def completed_text_def time_text_def enc_lengths)

lemma length_start_le:
  assumes "list_all plain_char i" "length i = 53" "\<And>t. time_text (fmt t)"
    and "0 \<le> j_effectiveTime j div Second" "j_effectiveTime j div Second \<le> MaxTimeout l div Second"
  shows "length (enc (start_json (startResult fmt i j))) \<le> length (enc (start_json (max_start l)))"
  using assms(1,2) assms(3)[of "j_startedAt j"] length_int_lit_mono[OF assms(4,5)]
  by (cases "j_state j") (simp_all add: start_json_def startResult_def max_start_def time_text_def enc_lengths)

lemma length_kill_le:
  assumes "list_all plain_char i" "length i = 53" "kill_end fmt newly waited i j = Inr r"
  shows "length (enc (kill_json r)) \<le> length (enc (kill_json max_kill))"
  using assms by (cases waited; cases "j_state j")
    (auto simp: kill_json_def kill_end_def statusResult_def max_kill_def Let_def enc_lengths)

text \<open>
  \<open>retentionPolicies\<close> measures a status with both streams marked truncated, two bytes less than the same
  status with neither; a state as long as \<open>timed_out\<close> together with an exit code of three digits would be
  beyond it, and \<open>job_ok\<close> has no such job.
\<close>

lemma state_exit_room:
  assumes "job_ok j"
  shows "length (state_text (j_state j)) + (case j_exitCode j of None \<Rightarrow> 0 | Some c \<Rightarrow> length (int_lit c) + 13) + 2 \<le> 9 + 16"
proof (cases "j_finish j = NotFinished")
  case True
  then show ?thesis using assms by (simp add: job_ok_def length_state_text)
next
  case False
  then have out: "(j_state j, j_exitCode j) = cause_outcome j" and code: "j_statusValid j \<longrightarrow> 0 \<le> j_statusCode j \<and> j_statusCode j \<le> 255"
    using assms by (auto simp: job_ok_def)
  show ?thesis using out code length_exit_code[of "j_statusCode j"] nat_digits_lt10
    by (cases "j_cause j") (auto simp: cause_outcome_def length_state_text int_lit_def split: if_splits)
qed

lemma length_tail_json:
  "length (enc (tail_json (tail_snapshot w))) \<le> 29 + 6 * tail_cap w" if "tail_inv w"
  using length_snapshot_text[OF that] by (simp add: tail_json_def enc_lengths)

lemma length_max_tail: "length (enc (tail_json \<lparr>tr_Text = [], tr_Truncated = True\<rparr>)) = 28"
  by (simp add: tail_json_def enc_lengths)

lemma length_int_lit_255: "length (int_lit 255) = 3"
  by (simp add: int_lit_def nat_digits.simps)

lemma length_status_le:
  assumes "list_all plain_char i" "length i = 53" "\<And>t. time_text (fmt t)" "job_ok j" "sized l j" "0 < MaxOutputBytesPerStream l"
    and "0 \<le> j_effectiveTime j div Second" "j_effectiveTime j div Second \<le> MaxTimeout l div Second"
  shows "len (enc (status_json (statusResult fmt i j))) \<le> len (enc (status_json (max_status l))) + 12 * MaxOutputBytesPerStream l"
proof -
  define a where "a = length (enc (tail_json (tail_snapshot (j_stdout j))))"
  define b where "b = length (enc (tail_json (tail_snapshot (j_stderr j))))"
  define n where "n = length (int_lit (j_effectiveTime j div Second))"
  define mx where "mx = length (int_lit (MaxTimeout l div Second))"
  define s where "s = length (state_text (j_state j))"
  have a: "a + b \<le> 58 + 12 * nat (MaxOutputBytesPerStream l)" using length_tail_json[of "j_stdout j"] length_tail_json[of "j_stderr j"] assms(5)
    by (simp add: a_def b_def sized_def)
  have n: "n \<le> mx" using length_int_lit_mono[OF assms(7,8)] by (simp add: n_def mx_def)
  note fmt = assms(3)[of "j_startedAt j"] assms(3)[of "the (j_completedAt j)"]
  have "length (enc (status_json (statusResult fmt i j))) \<le> length (enc (status_json (max_status l))) + 12 * nat (MaxOutputBytesPerStream l)"
    using assms(1,2) fmt a n state_exit_room[OF assms(4)]
    by (cases "j_exitCode j"; cases "j_completedAt j")
      (simp_all add: status_json_def statusResult_def max_status_def completed_text_def time_text_def enc_lengths length_int_lit_255
        length_max_tail a_def[symmetric] b_def[symmetric] n_def[symmetric] mx_def[symmetric])
  then show ?thesis using assms(6) by (simp add: len_def)
qed

lemma length_list_le:
  assumes "\<And>r. r \<in> set rs \<Longrightarrow> length (enc (summary_json r)) \<le> b" "len rs \<le> n" "0 < n"
  shows "len (enc (list_json rs)) \<le> len (enc (list_json [])) + n * int b + (n - 1)"
proof -
  have "(\<Sum>r\<leftarrow>rs. length (enc (summary_json r))) \<le> (\<Sum>r\<leftarrow>rs. b)" using assms(1) by (rule sum_list_mono)
  also have "\<dots> = length rs * b" by (simp add: sum_list_triv)
  finally have "int (\<Sum>r\<leftarrow>rs. length (enc (summary_json r))) \<le> int (length rs) * int b" by (metis of_nat_le_iff of_nat_mult)
  also have "\<dots> \<le> n * int b" using assms(2) by (simp add: len_def mult_right_mono)
  finally show ?thesis using assms(2,3) by (simp add: list_json_def length_sep_by len_def comp_def)
qed

lemma mgr_list_mem:
  assumes "r \<in> set (mgr_list fmt owner m)"
  obtains i j where "m_store m i = Some j" "r = job_summary fmt i j"
  using assms by (auto simp: mgr_list_def Let_def owned_job_def split: option.splits if_splits)

text \<open>
  C13: Under accepted limits whose retention is computed without overflow, whatever a status, a list, a
  start or a kill returns of a job of a reachable manager, encoded as JSON, takes at most half of the
  inline bytes retained of that tool: also with invalid UTF-8 in the tails, every escape of JSON in
  them, and with every state and exit code a job can have. Assumed of the host: times print as
  \<open>RFC3339Nano\<close> prints them, and every start had a timeout that \<open>normalizeStart\<close> accepts.
\<close>

theorem results_fit_retention:
  assumes "bj_validateLimits l = None" "retentionPolicies l = Inr ret" "mgr_reachable l m" "\<And>t. time_text (fmt t)"
    and "\<And>i j. m_store m i = Some j \<Longrightarrow> \<exists>t. accepted_timeout l t \<and> j_effectiveTime j = effective_time l t"
  shows "(\<forall>owner i r. mgr_status fmt owner i m = Inr r \<longrightarrow> 2 * len (enc (status_json r)) \<le> ret_status ret) \<and>
    (\<forall>owner. 2 * len (enc (list_json (mgr_list fmt owner m))) \<le> ret_list ret) \<and>
    (\<forall>i j. m_store m i = Some j \<longrightarrow> 2 * len (enc (start_json (startResult fmt i j))) \<le> ret_start ret) \<and>
    (\<forall>i j newly waited r. m_store m i = Some j \<longrightarrow> kill_end fmt newly waited i j = Inr r \<longrightarrow> 2 * len (enc (kill_json r)) \<le> ret_kill ret)"
proof -
  have ok: "mgr_ok l m" using mgr_reachable_ok[OF assms(3,1)] .
  have pos: "0 < MaxTracked l" "0 < MaxOutputBytesPerStream l" using assms(1) by (auto simp: bj_validateLimits_def split: if_splits)
  note ret = retentionPolicies_Inr[OF assms(2) pos(1)]
  have at: "list_all plain_char i \<and> length i = 53 \<and> job_ok j \<and> sized l j \<and>
      0 \<le> j_effectiveTime j div Second \<and> j_effectiveTime j div Second \<le> MaxTimeout l div Second" if st: "m_store m i = Some j" for i j
  proof -
    obtain c where "i = job_id (m_epoch m) c" "job_ok j" using mgr_stored_ok[OF ok st] by (auto simp: stored_ok_def issued_def)
    moreover obtain t where "accepted_timeout l t" "j_effectiveTime j = effective_time l t" using assms(5)[OF st] by blast
    ultimately show ?thesis using plain_job_id mgr_epoch[OF assms(3)] sized_reachable[OF assms(3) st] effective_seconds[OF assms(1)] by simp
  qed
  have status: "2 * len (enc (status_json r)) \<le> ret_status ret" if s: "mgr_status fmt owner i m = Inr r" for owner i r
  proof -
    obtain j where j: "m_store m i = Some j" "r = statusResult fmt i j"
      using s by (auto simp: mgr_status_def owned_job_def split: option.splits if_splits)
    then show ?thesis using at[OF j(1)] length_status_le[of i fmt j l] assms(4) pos(2) ret(2) by simp
  qed
  moreover have "2 * len (enc (list_json (mgr_list fmt owner m))) \<le> ret_list ret" for owner
  proof -
    have "length (enc (summary_json r)) \<le> length (enc (summary_json (max_summary l)))" if mem: "r \<in> set (mgr_list fmt owner m)" for r
    proof -
      obtain i j where j: "m_store m i = Some j" "r = job_summary fmt i j" using mem by (rule mgr_list_mem)
      then show ?thesis using at[OF j(1)] length_summary_le[of i fmt j l] assms(4) by simp
    qed
    moreover have "len (mgr_list fmt owner m) \<le> MaxTracked l"
    proof -
      have "length (mgr_list fmt owner m) \<le> length (m_jobs m)" by (simp add: mgr_list_def Let_def)
      moreover have "tracked m \<le> MaxTracked l" "0 \<le> m_starting m" using ok by (auto simp: mgr_ok_def)
      ultimately show ?thesis by (simp add: tracked_def len_def)
    qed
    ultimately have "len (enc (list_json (mgr_list fmt owner m))) \<le>
        len (enc (list_json [])) + MaxTracked l * int (length (enc (summary_json (max_summary l)))) + (MaxTracked l - 1)"
      using pos(1) by (intro length_list_le) auto
    then show ?thesis unfolding ret(3) by (simp add: len_def)
  qed
  moreover have "2 * len (enc (start_json (startResult fmt i j))) \<le> ret_start ret" if "m_store m i = Some j" for i j
    using at[OF that] length_start_le[of i fmt j l] assms(4) ret(1) by (simp add: len_def)
  moreover have "2 * len (enc (kill_json r)) \<le> ret_kill ret" if "m_store m i = Some j" "kill_end fmt newly waited i j = Inr r" for i j newly waited r
    using at[OF that(1)] length_kill_le[OF _ _ that(2)] ret(4) by (simp add: len_def)
  ultimately show ?thesis by blast
qed

definition race_time :: "int \<Rightarrow> string" where
  "race_time t = ''2024-01-02T03:04:05.00000000'' @ (if t = 0 then ''1Z'' else ''2Z'')"

lemma race_time_text: "time_text (race_time t)"
  by (simp add: race_time_def time_text_def plain_char_def html_safe_def)

theorem results_fit_retention_witness:
  "\<exists>ret. retentionPolicies race_limits = Inr ret \<and>
     2 * len (enc (list_json (mgr_list race_time (''s'', ''w'') race_leaked))) \<le> ret_list ret"
proof -
  have "case retentionPolicies race_limits of Inl _ \<Rightarrow> False | Inr _ \<Rightarrow> True" by code_simp
  then obtain ret where ret: "retentionPolicies race_limits = Inr ret" by (auto split: sum.splits)
  have "j_effectiveTime race_end_job = 0" "effective_time race_limits None = 0" by code_simp+
  then have "\<exists>t. accepted_timeout race_limits t \<and> j_effectiveTime j = effective_time race_limits t" if "m_store race_leaked i = Some j" for i j
    using that by (auto simp: race_leaked_eq accepted_timeout_def split: if_splits intro!: exI[of _ None])
  then show ?thesis
    using results_fit_retention[OF race_limits_ok ret race_leaked_reachable, of race_time] race_time_text ret by blast
qed

end
