(* ===== verification/Jobs_Tools.thy ===== *)
theory Jobs_Tools
  imports Jobs_Config
begin

section \<open>backgroundjobs: the tools and their configuration\<close>

text \<open>
  tools.go (the input normalizers), executor.go (the owner of a call and the four executors),
  workspace.go (the working directory) and \<open>canonicalize\<close> of config.go. What the file system answers
  (\<open>EvalSymlinks\<close>, \<open>Stat\<close>, \<open>Getwd\<close>) and the framework's scope check are arguments.
\<close>

subsection \<open>Inputs\<close>

record startInput =
  si_Command :: string
  si_WorkingDirectory :: string
  si_TimeoutSeconds :: "int option"

definition start_set_field :: "(string \<times> json) \<Rightarrow> startInput option \<Rightarrow> startInput option" where
  "start_set_field m acc =
     (case acc of None \<Rightarrow> None
      | Some i \<Rightarrow>
          (case field_of [''command'', ''working_directory'', ''timeout_seconds''] (fst m) of
             None \<Rightarrow> None
           | Some n \<Rightarrow>
               if n = ''command'' then map_option (\<lambda>v. i\<lparr>si_Command := v\<rparr>) (into_string (si_Command i) (snd m))
               else if n = ''working_directory'' then map_option (\<lambda>v. i\<lparr>si_WorkingDirectory := v\<rparr>) (into_string (si_WorkingDirectory i) (snd m))
               else map_option (\<lambda>v. i\<lparr>si_TimeoutSeconds := v\<rparr>) (into_int64_ptr (si_TimeoutSeconds i) (snd m))))"

definition zero_start :: startInput where
  "zero_start = \<lparr>si_Command = [], si_WorkingDirectory = [], si_TimeoutSeconds = None\<rparr>"

fun start_into :: "json \<Rightarrow> startInput option" where
  "start_into (JObj ms) = fold start_set_field ms (Some zero_start)"
| "start_into JNull = Some zero_start"
| "start_into _ = None"

text \<open>The strict decoder: one value, no unknown field, nothing but white space behind it.\<close>

definition strictDecode :: "(json \<Rightarrow> 'i option) \<Rightarrow> bytes \<Rightarrow> 'i option" where
  "strictDecode into raw = (case json_document raw of None \<Rightarrow> None | Some v \<Rightarrow> into v)"

definition start_input_json :: "startInput \<Rightarrow> json" where
  "start_input_json i = JObj ([(''command'', JStr (si_Command i))] @
     (if si_WorkingDirectory i = [] then [] else [(''working_directory'', JStr (si_WorkingDirectory i))]) @
     (case si_TimeoutSeconds i of None \<Rightarrow> [] | Some s \<Rightarrow> [(''timeout_seconds'', JNum (int_lit s))]))"

definition bj_malformed :: "string \<Rightarrow> call_error" where
  "bj_malformed code = CodeError (''invalid-input-'' @ code)"

definition normalizeStart :: "bj_Limits \<Rightarrow> bool \<Rightarrow> bytes \<Rightarrow> call_error + bytes" where
  "normalizeStart l ctxErr raw =
     (if ctxErr then Inl ContextError
      else case strictDecode start_into raw of
        None \<Rightarrow> Inl (bj_malformed ''shape'')
      | Some input \<Rightarrow>
          if si_Command input = [] \<or> len (si_Command input) > MaxCommandBytes l \<or> ContainsByte (si_Command input) (CHR 0x00)
          then Inl (bj_malformed ''command'')
          else
            let wd = (if si_WorkingDirectory input = [] then ''.'' else si_WorkingDirectory input) in
            if len wd > MaxWorkingDirectoryBytes l \<or> ContainsByte wd (CHR 0x00) \<or> IsAbs wd then Inl (bj_malformed ''working-directory'')
            else
              let clean = Clean wd in
              if clean = ''..'' \<or> HasPrefix clean ''../'' then Inl (bj_malformed ''working-directory'')
              else if (case si_TimeoutSeconds input of None \<Rightarrow> False | Some seconds \<Rightarrow> seconds < 0 \<or> seconds > MaxTimeout l div Second)
              then Inl (bj_malformed ''timeout'')
              else Inr (enc (start_input_json (input\<lparr>si_WorkingDirectory := clean\<rparr>))))"

definition id_set_field :: "(string \<times> json) \<Rightarrow> string option \<Rightarrow> string option" where
  "id_set_field m acc =
     (case acc of None \<Rightarrow> None
      | Some i \<Rightarrow> (case field_of [''id''] (fst m) of None \<Rightarrow> None | Some n \<Rightarrow> into_string i (snd m)))"

fun id_into :: "json \<Rightarrow> string option" where
  "id_into (JObj ms) = fold id_set_field ms (Some [])"
| "id_into JNull = Some []"
| "id_into _ = None"

definition id_input_json :: "string \<Rightarrow> json" where
  "id_input_json i = JObj [(''id'', JStr i)]"

definition normalizeID :: "bool \<Rightarrow> bytes \<Rightarrow> call_error + bytes" where
  "normalizeID ctxErr raw =
     (if ctxErr then Inl ContextError
      else case strictDecode id_into raw of
        None \<Rightarrow> Inl (bj_malformed ''id'')
      | Some i \<Rightarrow> if \<not> validJobID i then Inl (bj_malformed ''id'') else Inr (enc (id_input_json i)))"

text \<open>The empty struct accepts no member.\<close>

fun list_into :: "json \<Rightarrow> unit option" where
  "list_into (JObj ms) = (if ms = [] then Some () else None)"
| "list_into JNull = Some ()"
| "list_into _ = None"

definition normalizeList :: "bool \<Rightarrow> bytes \<Rightarrow> call_error + bytes" where
  "normalizeList ctxErr raw =
     (if ctxErr then Inl ContextError
      else case strictDecode list_into raw of None \<Rightarrow> Inl (bj_malformed ''shape'') | Some _ \<Rightarrow> Inr ''{}'')"

subsection \<open>The working directory\<close>

text \<open>Here \<open>Stat\<close> answers whether the path is a directory.\<close>

definition resolveWorkingDirectory :: "bool file_system \<Rightarrow> string \<Rightarrow> string \<Rightarrow> bj_error + string \<times> string" where
  "resolveWorkingDirectory fs workspaceRoot relative =
     (if workspaceRoot = [] then Inl (bj_runtimeError ''workspace-root'')
      else case filepath_Abs (fs_Getwd fs) (Clean workspaceRoot) of None \<Rightarrow> Inl (bj_runtimeError ''workspace-root'') | Some root \<Rightarrow>
      case fs_EvalSymlinks fs root of None \<Rightarrow> Inl (bj_runtimeError ''workspace-root'') | Some root \<Rightarrow>
      case filepath_Abs (fs_Getwd fs) (Clean root) of None \<Rightarrow> Inl (bj_runtimeError ''workspace-root'') | Some rootInfo \<Rightarrow>
      case filepath_Abs (fs_Getwd fs) (Clean (Join2 rootInfo relative)) of None \<Rightarrow> Inl (bj_runtimeError ''working-directory'') | Some target \<Rightarrow>
      case fs_EvalSymlinks fs target of None \<Rightarrow> Inl (bj_runtimeError ''working-directory'') | Some target \<Rightarrow>
      case Rel rootInfo target of None \<Rightarrow> Inl (bj_runtimeError ''working-directory'') | Some rel \<Rightarrow>
        if rel = ''..'' \<or> HasPrefix rel ''../'' \<or> IsAbs rel then Inl (bj_runtimeError ''working-directory'')
        else case fs_Stat fs target of
          None \<Rightarrow> Inl (bj_runtimeError ''working-directory'')
        | Some isDir \<Rightarrow> if \<not> isDir then Inl (bj_runtimeError ''working-directory'') else Inr (rootInfo, target))"

subsection \<open>The owner of a call\<close>

definition bj_runtimeOwner :: "string \<Rightarrow> string \<Rightarrow> string \<Rightarrow> string \<Rightarrow> bool \<Rightarrow> bj_error + string \<times> string" where
  "bj_runtimeOwner sessionID turnSessionID workspaceID workspaceRoot requireRoot =
     (if sessionID = [] \<or> workspaceID = [] then Inl (bj_runtimeError ''owner'')
      else if turnSessionID \<noteq> [] \<and> turnSessionID \<noteq> sessionID then Inl (bj_runtimeError ''owner'')
      else if requireRoot \<and> workspaceRoot = [] then Inl (bj_runtimeError ''workspace-root'')
      else Inr (sessionID, workspaceID))"

subsection \<open>canonicalize\<close>

record 'scope bj_Options =
  bo_Scope :: "'scope option"
  bo_Order :: int
  bo_ShellPath :: string
  bo_ShellIdentity :: string
  bo_Environment :: bj_Environment
  bo_Limits :: bj_Limits

record 'scope bj_canonicalOptions =
  bc_scope :: 'scope
  bc_order :: int
  bc_shellPath :: string
  bc_shellIdentity :: string
  bc_environment :: bj_Environment
  bc_env :: "string list"
  bc_limits :: bj_Limits
  bc_retention :: bj_retention

definition bj_validIdentity :: "string \<Rightarrow> bool" where
  "bj_validIdentity value =
     (if value = [] \<or> len value > 256 \<or> \<not> utf8_valid value \<or> ContainsByte value (CHR 0x00) then False
      else \<not> list_ex (\<lambda>p. IsControl (fst p)) (runes value))"

text \<open>Here \<open>Stat\<close> answers whether the path is a regular file, and its permission bits.\<close>

definition canonicalShellPath :: "bool \<Rightarrow> (bool \<times> nat) file_system \<Rightarrow> string \<Rightarrow> bj_error + string" where
  "canonicalShellPath platformSupported fs path =
     (if \<not> platformSupported then Inl (bj_configError ''unsupported-platform'')
      else if path = [] \<or> ContainsByte path (CHR 0x00) \<or> \<not> IsAbs path \<or> Clean path \<noteq> path then Inl (bj_configError ''shell-path'')
      else case fs_EvalSymlinks fs path of None \<Rightarrow> Inl (bj_configError ''shell-path'') | Some resolved \<Rightarrow>
      case filepath_Abs (fs_Getwd fs) (Clean resolved) of None \<Rightarrow> Inl (bj_configError ''shell-path'') | Some resolved \<Rightarrow>
      case fs_Stat fs resolved of None \<Rightarrow> Inl (bj_configError ''shell-executable'') | Some (isRegular, perm) \<Rightarrow>
        if \<not> isRegular \<or> and perm 73 = 0 then Inl (bj_configError ''shell-executable'') else Inr resolved)"

definition bj_canonicalize ::
  "'scope \<Rightarrow> ('scope \<Rightarrow> bool) \<Rightarrow> bool \<Rightarrow> (bool \<times> nat) file_system \<Rightarrow> ((string \<times> string) list \<Rightarrow> (string \<times> string) list) \<Rightarrow> string list
   \<Rightarrow> 'scope bj_Options \<Rightarrow> bj_error + 'scope bj_canonicalOptions" where
  "bj_canonicalize GlobalScope ValidateScope platformSupported fs range_order environ options =
     (let scope = (case bo_Scope options of None \<Rightarrow> GlobalScope | Some s \<Rightarrow> s);
          order = (if bo_Order options = 0 then 100 else bo_Order options);
          l = bo_Limits options in
      if \<not> ValidateScope scope then Inl (bj_configError ''scope'')
      else case bj_validateLimits l of Some err \<Rightarrow> Inl err | None \<Rightarrow>
      if \<not> bj_validIdentity (bo_ShellIdentity options) then Inl (bj_configError ''shell-identity'')
      else if \<not> bj_validIdentity (env_Identity (bo_Environment options)) then Inl (bj_configError ''environment-identity'')
      else case canonicalShellPath platformSupported fs (bo_ShellPath options) of Inl err \<Rightarrow> Inl err | Inr resolved \<Rightarrow>
      case effectiveEnvironment range_order environ (bo_Environment options) l of Inl err \<Rightarrow> Inl err | Inr effective \<Rightarrow>
      case retentionPolicies l of Inl err \<Rightarrow> Inl err | Inr retention \<Rightarrow>
      Inr \<lparr>bc_scope = scope, bc_order = order, bc_shellPath = resolved, bc_shellIdentity = bo_ShellIdentity options,
           bc_environment = \<lparr>env_Mode = env_Mode (bo_Environment options), env_Overrides = [], env_Identity = env_Identity (bo_Environment options)\<rparr>,
           bc_env = effective, bc_limits = l, bc_retention = retention\<rparr>)"

subsection \<open>The executors\<close>

datatype 'r exec_result = ExecContextError | ExecError bj_error | ExecResult 'r

definition exec_owned :: "bj_error + string \<times> string \<Rightarrow> bool \<Rightarrow> (string \<times> string \<Rightarrow> bj_error + 'r) \<Rightarrow> 'r exec_result" where
  "exec_owned owner ctxErr act =
     (case owner of
        Inl e \<Rightarrow> ExecError e
      | Inr own \<Rightarrow> if ctxErr then ExecContextError else (case act own of Inl e \<Rightarrow> ExecError e | Inr r \<Rightarrow> ExecResult r))"

definition exec_status :: "(int \<Rightarrow> string) \<Rightarrow> string \<Rightarrow> string \<Rightarrow> string \<Rightarrow> string \<Rightarrow> bool \<Rightarrow> string \<Rightarrow> manager \<Rightarrow> StatusResult exec_result" where
  "exec_status fmt sessionID turnSessionID workspaceID workspaceRoot ctxErr i m =
     exec_owned (bj_runtimeOwner sessionID turnSessionID workspaceID workspaceRoot False) ctxErr (\<lambda>owner. mgr_status fmt owner i m)"

definition exec_list :: "(int \<Rightarrow> string) \<Rightarrow> string \<Rightarrow> string \<Rightarrow> string \<Rightarrow> string \<Rightarrow> bool \<Rightarrow> manager \<Rightarrow> JobSummary list exec_result" where
  "exec_list fmt sessionID turnSessionID workspaceID workspaceRoot ctxErr m =
     exec_owned (bj_runtimeOwner sessionID turnSessionID workspaceID workspaceRoot False) ctxErr (\<lambda>owner. Inr (mgr_list fmt owner m))"

subsection \<open>Cleaned relative paths\<close>

lemma utf8_valid_ascii_split:
  assumes "byte c < 0x80"
  shows "utf8_valid (a @ c # b) \<longleftrightarrow> utf8_valid a \<and> utf8_valid b"
proof
  assume "utf8_valid (a @ c # b)"
  then show "utf8_valid a \<and> utf8_valid b"
  proof (induction "length a" arbitrary: a rule: less_induct)
    case less
    show ?case
    proof (cases "a = []")
      case True
      then show ?thesis using less.prems assms by (simp add: utf8_valid_ascii)
    next
      case False
      let ?s = "a @ c # b" and ?n = "snd (decode_rune (a @ c # b))"
      have ne: "?s \<noteq> []" by simp
      then have ok: "rune_ok (decode_rune ?s)" and rest: "utf8_valid (drop ?n ?s)" using less.prems utf8_valid_step by blast+
      have n: "1 \<le> ?n" using decode_rune_size[OF ne] by simp
      have le: "?n \<le> length a"
      proof (rule ccontr)
        assume beyond: "\<not> ?n \<le> length a"
        show False
        proof (cases "byte (hd ?s) < 0x80")
          case True
          then have "?n = 1" using False by (cases a) (simp_all add: decode_rune_ascii)
          then show False using beyond False by (cases a) simp_all
        next
          case hi: False
          have "c \<in> set (take ?n ?s)" using beyond by (simp add: take_Cons')
          moreover have "list_all (\<lambda>c. 0x80 \<le> byte c) (take ?n ?s)" using decode_rune_high_bytes[OF ne ok] hi by simp
          ultimately show False using assms unfolding list_all_iff by fastforce
        qed
      qed
      have a: "decode_rune a = decode_rune ?s" using decode_rune_take[OF ne ok, of "drop ?n a"] le by simp
      have "utf8_valid (drop ?n a) \<and> utf8_valid b" using less.hyps[of "drop ?n a"] rest le n False by simp
      then show ?thesis using utf8_valid_step[OF False] a ok by simp
    qed
  qed
next
  assume "utf8_valid a \<and> utf8_valid b"
  then show "utf8_valid (a @ c # b)" using assms by (simp add: utf8_valid_append utf8_valid_ascii)
qed

lemma slash_ascii: "byte (CHR ''/'') < 0x80"
  by simp

lemma path_split_valid: "utf8_valid s \<Longrightarrow> e \<in> set (path_split s) \<Longrightarrow> utf8_valid e"
proof (induction "length s" arbitrary: s rule: less_induct)
  case less
  show ?case
  proof (cases "CHR ''/'' \<in> set s")
    case True
    then obtain a b where s: "s = a @ CHR ''/'' # b" "CHR ''/'' \<notin> set a" using split_list_first by metis
    then have "utf8_valid a" "utf8_valid b" "e = a \<or> e \<in> set (path_split b)"
      using less.prems path_split_append_slash[OF s(2)] utf8_valid_ascii_split[OF slash_ascii] by simp_all
    then show ?thesis using less.hyps[of b] s(1) by auto
  next
    case False
    then show ?thesis using less.prems by (simp add: path_split_noslash)
  qed
qed

lemma path_concat_valid: "\<forall>e \<in> set es. utf8_valid e \<Longrightarrow> utf8_valid (path_concat es)"
  by (induction es rule: path_concat.induct) (simp_all add: utf8_valid_append utf8_valid_ascii)

lemma clean_elems_subset: "set (clean_elems rooted stack es) \<subseteq> set stack \<union> set es \<union> {''..''}"
proof (induction es arbitrary: stack)
  case (Cons e es)
  show ?case using Cons.IH[of stack] Cons.IH[of "e # stack"] Cons.IH[of "tl stack"] Cons.IH[of "''..'' # stack"] Cons.IH[of "[]"] Cons.IH[of "[''..'']"]
    by (cases stack) (auto split: if_splits)
qed auto

lemma Clean_valid: "utf8_valid p \<Longrightarrow> utf8_valid (Clean p)"
proof -
  assume v: "utf8_valid p"
  have dots: "utf8_valid ''..''" "utf8_valid ''.''" by (simp_all add: utf8_valid_all_ascii)
  have "utf8_valid (path_concat (clean_elems (IsAbs p) [] (path_split p)))"
    using clean_elems_subset[of "IsAbs p" "[]" "path_split p"] path_split_valid[OF v] dots by (intro path_concat_valid) auto
  then show ?thesis using dots by (cases "IsAbs p") (simp_all add: Clean_def Let_def utf8_valid_ascii)
qed

text \<open>What is left of a relative path: leading dot-dots, then plain elements.\<close>

lemma clean_elems_relative:
  assumes "stack = rev ps @ replicate n ''..''" "\<forall>e \<in> set ps. plain_elem e" "\<forall>e \<in> set es. CHR ''/'' \<notin> set e"
  shows "\<exists>k qs. clean_elems False stack es = replicate k ''..'' @ qs \<and> (\<forall>e \<in> set qs. plain_elem e)"
  using assms
proof (induction es arbitrary: stack ps n)
  case Nil
  then show ?case by auto
next
  case (Cons e es)
  have es: "\<forall>e \<in> set es. CHR ''/'' \<notin> set e" using Cons.prems(3) by simp
  consider "e = [] \<or> e = ''.''" | "e = ''..''" | "plain_elem e" "\<not> (e = [] \<or> e = ''.'')" "e \<noteq> ''..''"
    using Cons.prems(3) unfolding plain_elem_def by (meson list.set_intros(1))
  then show ?case
  proof cases
    case 1
    then show ?thesis using Cons.IH[OF Cons.prems(1,2) es] by (simp only: clean_elems.simps if_True)
  next
    case 2
    show ?thesis
    proof (cases ps rule: rev_cases)
      case Nil
      then have "stack = replicate n ''..''" using Cons.prems(1) by simp
      then show ?thesis using 2 Cons.IH[of "''..'' # stack" "[]" "Suc n"] es by (cases n) simp_all
    next
      case (snoc ps' t)
      then have "t \<noteq> ''..''" "stack = t # (rev ps' @ replicate n ''..'')" using Cons.prems(1,2) plain_elem_dots by auto
      then show ?thesis using 2 Cons.IH[of "rev ps' @ replicate n ''..''" ps' n] es Cons.prems(2) snoc by simp
    qed
  next
    case 3
    then show ?thesis using Cons.IH[of "e # stack" "ps @ [e]" n] es Cons.prems(1,2) by (simp only: clean_elems.simps if_False) simp
  qed
qed

lemma Clean_relative:
  assumes "\<not> IsAbs p" "Clean p \<noteq> ''..''" "\<not> HasPrefix (Clean p) ''../''"
  obtains es where "\<forall>e \<in> set es. plain_elem e" "Clean p = (if es = [] then ''.'' else path_concat es)"
proof -
  obtain k qs where cl: "clean_elems False [] (path_split p) = replicate k ''..'' @ qs" "\<forall>e \<in> set qs. plain_elem e"
    using clean_elems_relative[of "[]" "[]" 0 "path_split p"] path_split_elem by auto
  have "k = 0"
  proof (rule ccontr)
    assume "k \<noteq> 0"
    then obtain n where "k = Suc n" by (cases k) auto
    then show False using cl assms by (cases "replicate n ''..'' @ qs") (auto simp: Clean_def Let_def HasPrefix_def)
  qed
  then show thesis using that[of qs] cl assms(1) by (simp add: Clean_def Let_def)
qed

lemma path_weight: "es \<noteq> [] \<Longrightarrow> (\<Sum>e\<leftarrow>es. length e + 1) = length (path_concat es) + 1"
  by (induction es rule: path_concat.induct) auto

lemma path_split_weight: "(\<Sum>e\<leftarrow>path_split p. length e + 1) = length p + 1"
proof (induction p)
  case (Cons c p)
  then show ?case by (cases "path_split p") auto
qed simp

lemma clean_elems_weight:
  "(\<Sum>e\<leftarrow>clean_elems rooted stack es. length e + 1) \<le> (\<Sum>e\<leftarrow>stack. length e + 1) + (\<Sum>e\<leftarrow>es. length e + 1)"
proof (induction es arbitrary: stack)
  case Nil
  show ?case by (simp add: rev_map[symmetric] sum_list_rev)
next
  case (Cons e es)
  show ?case using Cons.IH[of stack] Cons.IH[of "e # stack"] Cons.IH[of "tl stack"] Cons.IH[of "''..'' # stack"] Cons.IH[of "[]"] Cons.IH[of "[''..'']"]
    by (cases stack) auto
qed

lemma length_Clean_relative: "\<not> IsAbs p \<Longrightarrow> length (Clean p) \<le> max 1 (length p)"
  using clean_elems_weight[of False "[]" "path_split p"] path_split_weight[of p] path_weight[of "clean_elems False [] (path_split p)"]
  by (auto simp: Clean_def Let_def)

lemma path_concat_set: "c \<in> set (path_concat es) \<Longrightarrow> c = CHR ''/'' \<or> (\<exists>e \<in> set es. c \<in> set e)"
  by (induction es rule: path_concat.induct) auto

lemma path_split_set: "e \<in> set (path_split p) \<Longrightarrow> set e \<subseteq> set p"
proof (induction p arbitrary: e)
  case (Cons c p)
  then show ?case by (cases "path_split p") (fastforce split: if_splits)+
qed simp

lemma Clean_set: "c \<in> set (Clean p) \<Longrightarrow> c \<in> set p \<or> c = CHR ''/'' \<or> c = CHR ''.''"
  using path_concat_set[of c "clean_elems (IsAbs p) [] (path_split p)"] clean_elems_subset[of "IsAbs p" "[]" "path_split p"] path_split_set[of _ p]
  by (fastforce simp: Clean_def Let_def split: if_splits)

subsection \<open>Accepted starts\<close>

definition start_input_ok :: "bj_Limits \<Rightarrow> startInput \<Rightarrow> bool" where
  "start_input_ok l i \<longleftrightarrow>
     si_Command i \<noteq> [] \<and> len (si_Command i) \<le> MaxCommandBytes l \<and> CHR 0x00 \<notin> set (si_Command i) \<and>
     (\<exists>es. (\<forall>e \<in> set es. plain_elem e) \<and> si_WorkingDirectory i = (if es = [] then ''.'' else path_concat es)) \<and>
     len (si_WorkingDirectory i) \<le> MaxWorkingDirectoryBytes l \<and> CHR 0x00 \<notin> set (si_WorkingDirectory i) \<and>
     accepted_timeout l (si_TimeoutSeconds i)"

definition start_texts_valid :: "startInput \<Rightarrow> bool" where
  "start_texts_valid i \<longleftrightarrow> utf8_valid (si_Command i) \<and> utf8_valid (si_WorkingDirectory i) \<and> (case si_TimeoutSeconds i of None \<Rightarrow> True | Some s \<Rightarrow> int64 s)"

lemma into_text_valid: "into_string old v = Some s \<Longrightarrow> utf8_valid old \<Longrightarrow> strings_ok v \<Longrightarrow> utf8_valid s"
  by (cases v) auto

lemma into_int64: "into_int64_ptr old v = Some r \<Longrightarrow> (case r of None \<Rightarrow> True | Some s \<Rightarrow> int64 s)"
  by (cases v) (auto simp: parse_int64_def Let_def split: if_splits)

lemma start_set_field_valid:
  assumes "start_set_field m (Some i0) = Some i1" "strings_ok (snd m)" "start_texts_valid i0"
  shows "start_texts_valid i1"
  using assms by (auto simp: start_set_field_def start_texts_valid_def dest: into_text_valid into_int64 split: option.splits if_splits)

lemma start_set_fields_valid:
  "fold start_set_field ms (Some i0) = Some i \<Longrightarrow> \<forall>m \<in> set ms. strings_ok (snd m) \<Longrightarrow> start_texts_valid i0 \<Longrightarrow> start_texts_valid i"
proof (induction ms arbitrary: i0)
  case (Cons m ms)
  have "fold start_set_field ms None = None" by (induction ms) (simp_all add: start_set_field_def)
  then obtain i1 where "start_set_field m (Some i0) = Some i1" using Cons.prems(1) by (cases "start_set_field m (Some i0)") auto
  then show ?case using Cons start_set_field_valid[of m i0 i1] by simp
qed simp

lemma start_into_valid: "start_into v = Some i \<Longrightarrow> strings_ok v \<Longrightarrow> start_texts_valid i"
  using start_set_fields_valid[of _ zero_start i] by (cases v) (auto simp: zero_start_def start_texts_valid_def)

lemma start_fields:
  "field_of [''command'', ''working_directory'', ''timeout_seconds''] ''command'' = Some ''command''"
  "field_of [''command'', ''working_directory'', ''timeout_seconds''] ''working_directory'' = Some ''working_directory''"
  "field_of [''command'', ''working_directory'', ''timeout_seconds''] ''timeout_seconds'' = Some ''timeout_seconds''"
  by (simp_all add: field_of_def)

lemma start_decode_encoded:
  assumes "start_texts_valid i"
  shows "strictDecode start_into (enc (start_input_json i)) = Some i"
proof -
  have "encodable (start_input_json i)" "depth (start_input_json i) \<le> 1"
    using assms by (cases "si_TimeoutSeconds i"; auto simp: start_input_json_def start_texts_valid_def utf8_valid_all_ascii canonical_int_lit)+
  then have "json_document (enc (start_input_json i)) = Some (start_input_json i)" by (intro json_document_enc) (auto simp: maxNestingDepth_def)
  moreover have "start_into (start_input_json i) = Some i"
    using assms by (cases "si_TimeoutSeconds i")
      (auto simp: start_input_json_def start_set_field_def start_fields zero_start_def parse_int64_lit start_texts_valid_def)
  ultimately show ?thesis by (simp add: strictDecode_def)
qed

lemma normalizeStart_ok:
  assumes "start_input_ok l i" "start_texts_valid i"
  shows "normalizeStart l False (enc (start_input_json i)) = Inr (enc (start_input_json i))"
proof -
  obtain es where es: "\<forall>e \<in> set es. plain_elem e" "si_WorkingDirectory i = (if es = [] then ''.'' else path_concat es)"
    using assms(1) by (auto simp: start_input_ok_def)
  let ?w = "si_WorkingDirectory i"
  have w: "?w \<noteq> []" "\<not> IsAbs ?w" "Clean ?w = ?w"
    using es path_concat_noslash_hd[OF es(1)] Clean_plain[OF _ es(1)] by (auto simp: IsAbs_def HasPrefix_def Clean_def Let_def)
  have up: "?w \<noteq> ''..'' \<and> \<not> HasPrefix ?w ''../''"
  proof (cases es)
    case (Cons e es')
    have "path_split ?w = es" using es Cons path_split_concat[of es] by (auto simp: plain_elem_def)
    moreover have "path_split ''..'' = [''..'']" by simp
    moreover have "path_split (''../'' @ r) = ''..'' # path_split r" for r by simp
    ultimately show ?thesis using es(1) Cons plain_elem_dots(2) HasPrefixD[of ?w "''../''"] by (metis list.inject list.set_intros(1))
  qed (use es in \<open>simp add: HasPrefix_def\<close>)
  have "i\<lparr>si_WorkingDirectory := ?w\<rparr> = i" by simp
  then show ?thesis using assms w up
    by (simp add: normalizeStart_def start_decode_encoded[OF assms(2)] Let_def start_input_ok_def accepted_timeout_def ContainsByte_def split: option.splits)
qed

text \<open>
  C36: What \<open>normalizeStart\<close> accepts it rewrites to a canonical encoding of an input within every bound:
  a command that is not empty, a timeout within the maximum, and a working directory that is \<open>.\<close> or a
  path of plain elements, so never absolute and with no dot-dot left in it. That encoding decodes to
  exactly this input, and normalizing it again changes nothing.
\<close>

theorem start_input_roundtrip:
  assumes "normalizeStart l ctxErr raw = Inr out"
  shows "\<exists>i. out = enc (start_input_json i) \<and> strictDecode start_into out = Some i \<and> start_input_ok l i \<and> normalizeStart l False out = Inr out"
proof -
  obtain v j where v: "json_document raw = Some v" "start_into v = Some j"
    using assms by (auto simp: normalizeStart_def strictDecode_def split: if_splits option.splits)
  define wd where "wd = (if si_WorkingDirectory j = [] then ''.'' else si_WorkingDirectory j)"
  define i where "i = j\<lparr>si_WorkingDirectory := Clean wd\<rparr>"
  have chk: "si_Command j \<noteq> []" "len (si_Command j) \<le> MaxCommandBytes l" "CHR 0x00 \<notin> set (si_Command j)"
      "len wd \<le> MaxWorkingDirectoryBytes l" "CHR 0x00 \<notin> set wd" "\<not> IsAbs wd" "Clean wd \<noteq> ''..''" "\<not> HasPrefix (Clean wd) ''../''"
      "accepted_timeout l (si_TimeoutSeconds j)" "out = enc (start_input_json i)"
    using assms unfolding normalizeStart_def strictDecode_def v option.case Let_def wd_def[symmetric] i_def[symmetric]
    by (auto simp: ContainsByte_def accepted_timeout_def split: if_splits option.splits)
  have tv: "start_texts_valid j" using start_into_valid[OF v(2) json_document_strings_ok[OF v(1)]] .
  moreover have "utf8_valid wd" using tv by (simp add: wd_def start_texts_valid_def utf8_valid_all_ascii)
  ultimately have valid: "start_texts_valid i" using Clean_valid by (simp add: start_texts_valid_def i_def)
  have "wd \<noteq> []" by (simp add: wd_def)
  then have "len (Clean wd) \<le> MaxWorkingDirectoryBytes l" using length_Clean_relative[OF chk(6)] chk(4) by (cases wd) (auto simp: len_def)
  moreover have "CHR 0x00 \<notin> set (Clean wd)" using Clean_set chk(5) by fastforce
  moreover obtain es where "\<forall>e \<in> set es. plain_elem e" "Clean wd = (if es = [] then ''.'' else path_concat es)" using Clean_relative[OF chk(6-8)] by blast
  ultimately have ok: "start_input_ok l i" using chk by (auto simp: start_input_ok_def i_def)
  then show ?thesis using start_decode_encoded[OF valid] normalizeStart_ok[OF ok valid] chk(10) by blast
qed

definition start_demo :: startInput where
  "start_demo = \<lparr>si_Command = ''make'', si_WorkingDirectory = ''a/b'', si_TimeoutSeconds = Some 1\<rparr>"

theorem start_input_roundtrip_witness:
  "\<exists>i. strictDecode start_into (enc (start_input_json start_demo)) = Some i \<and> start_input_ok race_limits i"
proof -
  have "start_texts_valid start_demo" by (simp add: start_texts_valid_def start_demo_def utf8_valid_all_ascii int64_def MaxInt64_def)
  moreover have "start_input_ok race_limits start_demo"
    by (simp add: start_input_ok_def start_demo_def race_limits_def len_def accepted_timeout_def Second_def plain_elem_def exI[of _ "[''a'', ''b'']"])
  ultimately have "normalizeStart race_limits False (enc (start_input_json start_demo)) = Inr (enc (start_input_json start_demo))"
    by (intro normalizeStart_ok)
  from start_input_roundtrip[OF this] show ?thesis by blast
qed

subsection \<open>The working directory of a start\<close>

text \<open>
  C25: When the current directory is absolute and \<open>EvalSymlinks\<close> keeps absolute paths absolute, the directory
  a start runs in is, after every symbolic link has been followed, the canonical workspace root (the given
  workspace root made absolute, its links followed, then made absolute and clean) or a path below it,
  element by element, and it is a directory.
\<close>

theorem working_directory_contained:
  assumes "\<And>p q. IsAbs p \<Longrightarrow> fs_EvalSymlinks fs p = Some q \<Longrightarrow> IsAbs q" "\<And>d. fs_Getwd fs = Some d \<Longrightarrow> IsAbs d"
    and "resolveWorkingDirectory fs workspaceRoot relative = Inr (root, target)"
  shows "(\<exists>start real. filepath_Abs (fs_Getwd fs) (Clean workspaceRoot) = Some start \<and> fs_EvalSymlinks fs start = Some real \<and>
      filepath_Abs (fs_Getwd fs) (Clean real) = Some root) \<and> IsAbs root \<and>
    (\<exists>es. path_elems target = path_elems root @ es \<and> (\<forall>e \<in> set es. plain_elem e)) \<and>
    fs_Stat fs target = Some True \<and>
    (\<exists>given. filepath_Abs (fs_Getwd fs) (Clean (Join2 root relative)) = Some given \<and> fs_EvalSymlinks fs given = Some target)"
proof -
  obtain r0 r1 given rel where st: "filepath_Abs (fs_Getwd fs) (Clean workspaceRoot) = Some r0" "fs_EvalSymlinks fs r0 = Some r1"
      "filepath_Abs (fs_Getwd fs) (Clean r1) = Some root" "filepath_Abs (fs_Getwd fs) (Clean (Join2 root relative)) = Some given"
      "fs_EvalSymlinks fs given = Some target" "Rel root target = Some rel" "rel \<noteq> ''..''" "\<not> HasPrefix rel ''../''" "fs_Stat fs target = Some True"
    using assms(3) by (auto simp: resolveWorkingDirectory_def split: if_splits option.splits)
  have root: "IsAbs root" and given: "IsAbs given" using filepath_Abs_abs st(3,4) assms(2) by blast+
  have "\<exists>es. path_elems target = path_elems root @ es \<and> (\<forall>e \<in> set es. plain_elem e)"
    using Rel_below[OF st(6) root assms(1)[OF given st(5)] st(7,8)] by blast
  then show ?thesis using root st by blast
qed

definition link_fs :: "bool file_system" where
  "link_fs = \<lparr>fs_Getwd = Some ''/'',
     fs_EvalSymlinks = (\<lambda>p. Some (if p = ''/s'' then ''/w'' else if p = ''/w/link'' then ''/w/real'' else p)), fs_Stat = (\<lambda>p. Some True)\<rparr>"

theorem working_directory_contained_witness:
  "resolveWorkingDirectory link_fs ''s'' ''link'' = Inr (''/w'', ''/w/real'') \<and>
   (\<exists>start real. filepath_Abs (Some ''/'') (Clean ''s'') = Some start \<and> fs_EvalSymlinks link_fs start = Some real \<and>
      filepath_Abs (Some ''/'') (Clean real) = Some ''/w'') \<and>
   (\<exists>es. path_elems ''/w/real'' = path_elems ''/w'' @ es \<and> (\<forall>e \<in> set es. plain_elem e))"
proof -
  have res: "resolveWorkingDirectory link_fs ''s'' ''link'' = Inr (''/w'', ''/w/real'')" by code_simp
  have "IsAbs q" if "IsAbs p" "fs_EvalSymlinks link_fs p = Some q" for p q
    using that by (auto simp: link_fs_def IsAbs_def HasPrefix_def split: if_splits)
  moreover have wd: "fs_Getwd link_fs = Some ''/''" by (simp add: link_fs_def)
  moreover have "IsAbs d" if "fs_Getwd link_fs = Some d" for d using that by (auto simp: link_fs_def IsAbs_def HasPrefix_def)
  ultimately show ?thesis using working_directory_contained[of link_fs, OF _ _ res] res by simp
qed

end
