(* ===== verification/Go_Regexp.thy ===== *)
theory Go_Regexp
  imports Utf8
begin

section \<open>The parts of regexp and regexp/syntax the packages call\<close>

text \<open>
  \<open>regexp\<close> is the syntax tree of regexp/syntax. \<open>re_ends\<close> lists the positions at which a match
  that begins at a given position may end, in the order of preference of a backtracking search,
  which is the order the package documents; \<open>doExecute\<close> is the leftmost such match from a start
  position, and \<open>FindStringIndex\<close> and \<open>FindAllStringIndex\<close> are built from it as in the package.
  A literal carries the comparison of its runes: equality, or folded equality under the flag
  FoldCase. The parser of expressions stays a parameter of the code that calls it.
\<close>

datatype regexp =
    OpNoMatch | OpEmptyMatch
  | OpLiteral "nat \<Rightarrow> nat \<Rightarrow> bool" "nat list"
  | OpCharClass "(nat \<times> nat) list"
  | OpAnyCharNotNL | OpAnyChar
  | OpBeginLine | OpEndLine | OpBeginText | OpEndText | OpWordBoundary | OpNoWordBoundary
  | OpCapture regexp
  | OpStar bool regexp
  | OpPlus bool regexp
  | OpQuest bool regexp
  | OpRepeat bool nat "nat option" regexp
  | OpConcat "regexp list"
  | OpAlternate "regexp list"

subsection \<open>Matching\<close>

definition step_rune :: "bytes \<Rightarrow> (nat \<Rightarrow> bool) \<Rightarrow> nat \<Rightarrow> nat list" where
  "step_rune s P i =
     (if i < length s \<and> P (fst (decode_rune (drop i s))) then [i + snd (decode_rune (drop i s))] else [])"

fun literal_ends :: "bytes \<Rightarrow> (nat \<Rightarrow> nat \<Rightarrow> bool) \<Rightarrow> nat list \<Rightarrow> nat \<Rightarrow> nat list" where
  "literal_ends s eq [] i = [i]"
| "literal_ends s eq (r # rs) i = concat (map (literal_ends s eq rs) (step_rune s (eq r) i))"

definition is_word_byte :: "char \<Rightarrow> bool" where
  "is_word_byte c \<longleftrightarrow> c = CHR ''_'' \<or> (0x30 \<le> byte c \<and> byte c \<le> 0x39) \<or> (0x41 \<le> byte c \<and> byte c \<le> 0x5A)
     \<or> (0x61 \<le> byte c \<and> byte c \<le> 0x7A)"

definition word_at :: "bytes \<Rightarrow> nat \<Rightarrow> bool" where
  "word_at s i \<longleftrightarrow> i < length s \<and> is_word_byte (s ! i)"

definition at_boundary :: "bytes \<Rightarrow> nat \<Rightarrow> bool" where
  "at_boundary s i \<longleftrightarrow> (0 < i \<and> word_at s (i - 1)) \<noteq> word_at s i"

text \<open>
  Repetition: a preferred continuation first when greedy, the exit first when not. An iteration
  that consumes nothing ends the loop. The first argument bounds the number of iterations that
  advance, of which there are at most as many as bytes are left.
\<close>

definition with_exit :: "bool \<Rightarrow> nat list \<Rightarrow> nat \<Rightarrow> nat list" where
  "with_exit nonGreedy xs i = (if nonGreedy then i # xs else xs @ [i])"

fun star_ends :: "nat \<Rightarrow> bool \<Rightarrow> (nat \<Rightarrow> nat list) \<Rightarrow> nat \<Rightarrow> nat list" where
  "star_ends 0 nonGreedy e i = [i]"
| "star_ends (Suc n) nonGreedy e i =
     with_exit nonGreedy (concat (map (\<lambda>j. if i < j then star_ends n nonGreedy e j else [j]) (e i))) i"

fun times_ends :: "nat \<Rightarrow> (nat \<Rightarrow> nat list) \<Rightarrow> nat \<Rightarrow> nat list" where
  "times_ends 0 e i = [i]"
| "times_ends (Suc n) e i = concat (map (times_ends n e) (e i))"

fun upto_ends :: "nat \<Rightarrow> bool \<Rightarrow> (nat \<Rightarrow> nat list) \<Rightarrow> nat \<Rightarrow> nat list" where
  "upto_ends 0 nonGreedy e i = [i]"
| "upto_ends (Suc n) nonGreedy e i = with_exit nonGreedy (concat (map (upto_ends n nonGreedy e) (e i))) i"

fun seq_ends :: "(nat \<Rightarrow> nat list) list \<Rightarrow> nat \<Rightarrow> nat list" where
  "seq_ends [] i = [i]"
| "seq_ends (e # es) i = concat (map (seq_ends es) (e i))"

definition repeat_ends :: "bytes \<Rightarrow> bool \<Rightarrow> nat \<Rightarrow> nat option \<Rightarrow> (nat \<Rightarrow> nat list) \<Rightarrow> nat \<Rightarrow> nat list" where
  "repeat_ends s nonGreedy lo hi e i =
     concat (map (case hi of None \<Rightarrow> (\<lambda>j. star_ends (length s - j) nonGreedy e j)
                  | Some h \<Rightarrow> upto_ends (h - lo) nonGreedy e) (times_ends lo e i))"

definition assert_at :: "bool \<Rightarrow> nat \<Rightarrow> nat list" where
  "assert_at b i = (if b then [i] else [])"

fun re_ends :: "bytes \<Rightarrow> regexp \<Rightarrow> nat \<Rightarrow> nat list" where
  "re_ends s OpNoMatch i = []"
| "re_ends s OpEmptyMatch i = [i]"
| "re_ends s (OpLiteral eq rs) i = literal_ends s eq rs i"
| "re_ends s (OpCharClass ranges) i = step_rune s (\<lambda>r. list_ex (\<lambda>(lo, hi). lo \<le> r \<and> r \<le> hi) ranges) i"
| "re_ends s OpAnyCharNotNL i = step_rune s (\<lambda>r. r \<noteq> 0x0A) i"
| "re_ends s OpAnyChar i = step_rune s (\<lambda>r. True) i"
| "re_ends s OpBeginLine i = assert_at (i = 0 \<or> (i \<le> length s \<and> s ! (i - 1) = CHR 0x0A)) i"
| "re_ends s OpEndLine i = assert_at (i = length s \<or> (i < length s \<and> s ! i = CHR 0x0A)) i"
| "re_ends s OpBeginText i = assert_at (i = 0) i"
| "re_ends s OpEndText i = assert_at (i = length s) i"
| "re_ends s OpWordBoundary i = assert_at (at_boundary s i) i"
| "re_ends s OpNoWordBoundary i = assert_at (\<not> at_boundary s i) i"
| "re_ends s (OpCapture r) i = re_ends s r i"
| "re_ends s (OpStar nonGreedy r) i = star_ends (length s - i) nonGreedy (re_ends s r) i"
| "re_ends s (OpPlus nonGreedy r) i = repeat_ends s nonGreedy 1 None (re_ends s r) i"
| "re_ends s (OpQuest nonGreedy r) i = upto_ends 1 nonGreedy (re_ends s r) i"
| "re_ends s (OpRepeat nonGreedy lo hi r) i = repeat_ends s nonGreedy lo hi (re_ends s r) i"
| "re_ends s (OpConcat rs) i = seq_ends (map (re_ends s) rs) i"
| "re_ends s (OpAlternate rs) i = concat (map (\<lambda>r. re_ends s r i) rs)"

text \<open>The leftmost match at or after a position; starts are tried rune by rune.\<close>

function doExecute :: "regexp \<Rightarrow> bytes \<Rightarrow> nat \<Rightarrow> (nat \<times> nat) option" where
  "doExecute r s i =
     (case re_ends s r i of
        j # _ \<Rightarrow> Some (i, j)
      | [] \<Rightarrow> if i < length s then doExecute r s (i + snd (decode_rune (drop i s))) else None)"
  by pat_completeness auto
termination
proof (relation "measure (\<lambda>(r, s, i). length s - i)")
  fix s :: bytes and i :: nat and r :: regexp
  assume "i < length s"
  with decode_rune_size [of "drop i s"]
  show "((r, s, i + snd (decode_rune (drop i s))), (r, s, i)) \<in> measure (\<lambda>(r, s, i). length s - i)" by auto
qed simp

declare doExecute.simps [simp del]

definition FindStringIndex :: "regexp \<Rightarrow> bytes \<Rightarrow> (nat \<times> nat) option" where
  "FindStringIndex r s = doExecute r s 0"

lemma doExecute_start: "doExecute r s i = Some (a, b) \<Longrightarrow> i \<le> a"
proof (induction r s i rule: doExecute.induct)
  case (1 r s i)
  then show ?case by (subst (asm) doExecute.simps) (force split: list.splits if_splits)
qed

text \<open>
  The loop of \<open>FindAllStringIndex\<close>: an empty match moves on by one rune, and is dropped right
  after the previous match.
\<close>

function all_matches_from :: "regexp \<Rightarrow> bytes \<Rightarrow> nat \<Rightarrow> nat \<Rightarrow> nat option \<Rightarrow> (nat \<times> nat) list" where
  "all_matches_from r s n pos prevEnd =
     (if n = 0 \<or> length s < pos then []
      else case doExecute r s pos of
        None \<Rightarrow> []
      | Some (a, b) \<Rightarrow>
          if b \<le> pos then
            (let nxt = (if pos < length s then pos + snd (decode_rune (drop pos s)) else length s + 1) in
             if prevEnd = Some a then all_matches_from r s n nxt (Some b)
             else (a, b) # all_matches_from r s (n - 1) nxt (Some b))
          else (a, b) # all_matches_from r s (n - 1) b (Some b))"
  by pat_completeness auto
termination
proof (relation "measure (\<lambda>(r, s, n, pos, prevEnd). Suc (length s) - pos)", goal_cases)
  case (2 r s n pos m a b nxt)
  then show ?case using decode_rune_size [of "drop pos s"] by auto
next
  case (3 r s n pos m a b nxt)
  then show ?case using decode_rune_size [of "drop pos s"] by auto
qed auto

declare all_matches_from.simps [simp del]

definition FindAllStringIndex :: "regexp \<Rightarrow> bytes \<Rightarrow> nat \<Rightarrow> (nat \<times> nat) list" where
  "FindAllStringIndex r s n = all_matches_from r s n 0 None"

subsection \<open>Widths\<close>

text \<open>
  A set of ends is \<open>spaced\<close> by \<open>w\<close> when each is at least \<open>w\<close> bytes on, and not beyond the text.
\<close>

definition spaced :: "bytes \<Rightarrow> nat \<Rightarrow> (nat \<Rightarrow> nat list) \<Rightarrow> bool" where
  "spaced s w e \<longleftrightarrow> (\<forall>i \<le> length s. \<forall>j \<in> set (e i). i + w \<le> j \<and> j \<le> length s)"

lemma spacedD: "spaced s w e \<Longrightarrow> i \<le> length s \<Longrightarrow> j \<in> set (e i) \<Longrightarrow> i + w \<le> j \<and> j \<le> length s"
  by (simp add: spaced_def)

lemma spacedI: "(\<And>i j. i \<le> length s \<Longrightarrow> j \<in> set (e i) \<Longrightarrow> i + w \<le> j \<and> j \<le> length s) \<Longrightarrow> spaced s w e"
  by (simp add: spaced_def)

lemma spaced_eq: "spaced s w e \<Longrightarrow> (\<And>i. g i = e i) \<Longrightarrow> spaced s w g"
  by (simp add: spaced_def)

lemma spaced_pointwise: "(\<And>i. spaced s w (g i)) \<Longrightarrow> (\<And>i. e i = g i i) \<Longrightarrow> spaced s w e"
  by (rule spacedI) (auto dest: spacedD)

lemma spaced_mono: "spaced s w e \<Longrightarrow> v \<le> w \<Longrightarrow> spaced s v e"
  by (force simp: spaced_def)

lemma spaced_self: "spaced s 0 (\<lambda>i. [i])"
  by (simp add: spaced_def)

lemma spaced_assert: "spaced s 0 (\<lambda>i. assert_at (b i) i)"
  by (simp add: spaced_def assert_at_def)

lemma spaced_step: "spaced s 1 (step_rune s P)"
proof (rule spacedI)
  fix i j assume "j \<in> set (step_rune s P i)"
  then have "i < length s" "j = i + snd (decode_rune (drop i s))" by (simp_all add: step_rune_def split: if_splits)
  with decode_rune_size [of "drop i s"] show "i + 1 \<le> j \<and> j \<le> length s" by auto
qed

lemma spaced_bind:
  assumes "spaced s v e" and "spaced s w g"
  shows "spaced s (v + w) (\<lambda>i. concat (map g (e i)))"
proof (rule spacedI)
  fix i j assume i: "i \<le> length s" and "j \<in> set (concat (map g (e i)))"
  then obtain k where k: "k \<in> set (e i)" "j \<in> set (g k)" by auto
  from spacedD [OF assms(1) i k(1)] spacedD [OF assms(2) _ k(2)] show "i + (v + w) \<le> j \<and> j \<le> length s" by linarith
qed

lemma spaced_literal: "spaced s (length rs) (literal_ends s eq rs)"
proof (induction rs)
  case Nil
  show ?case by (simp add: spaced_def)
next
  case (Cons r rs)
  have "literal_ends s eq (r # rs) = (\<lambda>i. concat (map (literal_ends s eq rs) (step_rune s (eq r) i)))"
    by (simp add: fun_eq_iff)
  with spaced_bind [OF spaced_step [of s "eq r"] Cons] show ?case by simp
qed

lemma spaced_with_exit: "spaced s 0 e \<Longrightarrow> spaced s 0 (\<lambda>i. with_exit b (e i) i)"
  by (rule spacedI) (auto simp: with_exit_def dest: spacedD split: if_splits)

lemma spaced_star: "spaced s 0 e \<Longrightarrow> spaced s 0 (star_ends n b e)"
proof (induction n)
  case (Suc n)
  have "spaced s 0 (\<lambda>i. concat (map (\<lambda>j. if i < j then star_ends n b e j else [j]) (e i)))"
  proof (rule spacedI)
    fix i j assume i: "i \<le> length s" and "j \<in> set (concat (map (\<lambda>j. if i < j then star_ends n b e j else [j]) (e i)))"
    then obtain k where k: "k \<in> set (e i)" "j \<in> set (if i < k then star_ends n b e k else [k])" by auto
    note ik = spacedD [OF Suc.prems i k(1)]
    have "k \<le> j \<and> j \<le> length s"
      using k(2) ik spacedD [OF Suc.IH [OF Suc.prems], of k j] by (cases "i < k") simp_all
    with ik show "i + 0 \<le> j \<and> j \<le> length s" by linarith
  qed
  from spaced_eq [OF spaced_with_exit [OF this, of b]] show ?case by simp
qed (rule spacedI, simp)

lemma spaced_times: "spaced s w e \<Longrightarrow> spaced s (n * w) (times_ends n e)"
proof (induction n)
  case (Suc n)
  have "times_ends (Suc n) e = (\<lambda>i. concat (map (times_ends n e) (e i)))" by (simp add: fun_eq_iff)
  with spaced_bind [OF Suc.prems Suc.IH [OF Suc.prems]] show ?case by simp
qed (rule spacedI, simp)

lemma spaced_upto: "spaced s 0 e \<Longrightarrow> spaced s 0 (upto_ends n b e)"
proof (induction n)
  case (Suc n)
  have "spaced s 0 (\<lambda>i. concat (map (upto_ends n b e) (e i)))"
    using spaced_bind [OF Suc.prems Suc.IH [OF Suc.prems]] by simp
  from spaced_eq [OF spaced_with_exit [OF this, of b]] show ?case by simp
qed (rule spacedI, simp)

lemma spaced_repeat:
  assumes "spaced s w e"
  shows "spaced s (lo * w) (repeat_ends s b lo hi e)"
proof -
  have e0: "spaced s 0 e" by (rule spaced_mono [OF assms]) simp
  have "spaced s 0 (\<lambda>j. star_ends (length s - j) b e j)"
    by (rule spaced_pointwise [OF spaced_star [OF e0]]) simp
  then have "spaced s 0 (case hi of None \<Rightarrow> (\<lambda>j. star_ends (length s - j) b e j) | Some h \<Rightarrow> upto_ends (h - lo) b e)"
    using spaced_upto [OF e0] by (cases hi) simp_all
  from spaced_bind [OF spaced_times [OF assms] this] show ?thesis
    by (simp add: repeat_ends_def [abs_def])
qed

lemma spaced_seq: "list_all2 (spaced s) ws es \<Longrightarrow> spaced s (sum_list ws) (seq_ends es)"
proof (induction rule: list_all2_induct)
  case (Cons w ws e es)
  have "seq_ends (e # es) = (\<lambda>i. concat (map (seq_ends es) (e i)))" by (simp add: fun_eq_iff)
  with spaced_bind [OF Cons(1,3)] show ?case by simp
qed (rule spacedI, simp)

text \<open>The exact minimum, before the saturation of machine integers.\<close>

fun min_width :: "regexp \<Rightarrow> nat" where
  "min_width (OpLiteral eq rs) = length rs"
| "min_width (OpCharClass ranges) = 1"
| "min_width OpAnyCharNotNL = 1"
| "min_width OpAnyChar = 1"
| "min_width (OpCapture r) = min_width r"
| "min_width (OpPlus b r) = min_width r"
| "min_width (OpRepeat b lo hi r) = lo * min_width r"
| "min_width (OpConcat rs) = sum_list (map min_width rs)"
| "min_width (OpAlternate rs) = (if rs = [] then 0 else Min (set (map min_width rs)))"
| "min_width r = 0"

lemma re_ends_spaced: "spaced s (min_width r) (re_ends s r)"
proof (induction r)
  case (OpConcat rs)
  have "list_all2 (spaced s) (map min_width rs) (map (re_ends s) rs)"
    using OpConcat by (auto simp: list_all2_conv_all_nth)
  from spaced_eq [OF spaced_seq [OF this]] show ?case by simp
next
  case (OpAlternate rs)
  have "Min (set (map min_width rs)) \<le> min_width r" if "r \<in> set rs" for r
    using that by (simp add: Min_le_iff)
  then have mw: "min_width (OpAlternate rs) \<le> min_width r" if "r \<in> set rs" for r
    using that by auto
  show ?case
  proof (rule spacedI)
    fix i j assume i: "i \<le> length s" and "j \<in> set (re_ends s (OpAlternate rs) i)"
    then obtain r where r: "r \<in> set rs" "j \<in> set (re_ends s r i)" by auto
    from spacedD [OF OpAlternate [OF r(1)] i r(2)] mw [OF r(1)]
    show "i + min_width (OpAlternate rs) \<le> j \<and> j \<le> length s" by linarith
  qed
next
  case (OpStar b r)
  have "spaced s 0 (re_ends s (OpStar b r))"
    by (rule spaced_pointwise [OF spaced_star [OF spaced_mono [OF OpStar]]]) simp_all
  then show ?case unfolding min_width.simps .
next
  case (OpPlus b r)
  from spaced_eq [OF spaced_repeat [OF OpPlus, of 1 b None]] show ?case by simp
next
  case (OpQuest b r)
  from spaced_eq [OF spaced_upto [OF spaced_mono [OF OpQuest], of 1 b]] show ?case by simp
next
  case (OpRepeat b lo hi r)
  from spaced_eq [OF spaced_repeat [OF OpRepeat, of lo b hi]] show ?case by simp
next
  case (OpLiteral eq rs)
  from spaced_eq [OF spaced_literal [of s rs eq]] show ?case by simp
next
  case (OpCharClass ranges)
  from spaced_eq [OF spaced_step] show ?case by simp
next
  case OpAnyCharNotNL
  from spaced_eq [OF spaced_step] show ?case by simp
next
  case OpAnyChar
  from spaced_eq [OF spaced_step] show ?case by simp
next
  case (OpCapture r)
  from spaced_eq [OF OpCapture] show ?case by simp
qed (rule spacedI, simp add: assert_at_def split: if_splits)+

lemma doExecute_spaced:
  assumes "doExecute r s i = Some (a, b)" and "i \<le> length s"
  shows "i \<le> a \<and> a + min_width r \<le> b \<and> b \<le> length s"
  using assms
proof (induction r s i rule: doExecute.induct)
  case (1 r s i)
  show ?case
  proof (cases "re_ends s r i")
    case Nil
    with "1.prems" have i: "i < length s" by (auto simp: doExecute.simps [of r s i] split: if_splits)
    with decode_rune_size [of "drop i s"] have "i + snd (decode_rune (drop i s)) \<le> length s" by auto
    with "1.IH" [OF Nil i] Nil i "1.prems"(1) show ?thesis by (simp add: doExecute.simps [of r s i])
  next
    case (Cons j js)
    with "1.prems" have "a = i" "b = j" by (simp_all add: doExecute.simps [of r s i])
    with spacedD [OF re_ends_spaced "1.prems"(2), of j r] Cons show ?thesis by simp
  qed
qed

subsection \<open>Matches begin and end between runes\<close>

definition keeps :: "(nat \<Rightarrow> bool) \<Rightarrow> (nat \<Rightarrow> nat list) \<Rightarrow> bool" where
  "keeps B e \<longleftrightarrow> (\<forall>i. B i \<longrightarrow> (\<forall>j \<in> set (e i). B j))"

lemma keepsI: "(\<And>i j. B i \<Longrightarrow> j \<in> set (e i) \<Longrightarrow> B j) \<Longrightarrow> keeps B e"
  by (simp add: keeps_def)

lemma keepsD: "keeps B e \<Longrightarrow> B i \<Longrightarrow> j \<in> set (e i) \<Longrightarrow> B j"
  by (simp add: keeps_def)

lemma keeps_bind: "keeps B e \<Longrightarrow> keeps B g \<Longrightarrow> keeps B (\<lambda>i. concat (map g (e i)))"
  by (rule keepsI) (auto dest: keepsD)

lemma keeps_star: "keeps B e \<Longrightarrow> keeps B (star_ends n b e)"
proof (induction n)
  case (Suc n)
  show ?case
  proof (rule keepsI)
    fix i j assume i: "B i" and "j \<in> set (star_ends (Suc n) b e i)"
    then consider "j = i" | k where "k \<in> set (e i)" "j \<in> set (if i < k then star_ends n b e k else [k])"
      by (auto simp: with_exit_def split: if_splits)
    then show "B j"
    proof cases
      case 2
      then have "B k" using keepsD [OF Suc.prems i] by blast
      with 2 keepsD [OF Suc.IH [OF Suc.prems]] show ?thesis by (auto split: if_splits)
    qed (simp add: i)
  qed
qed (rule keepsI, simp)

lemma keeps_times: "keeps B e \<Longrightarrow> keeps B (times_ends n e)"
  by (induction n) (rule keepsI, auto dest: keepsD)+

lemma keeps_upto: "keeps B e \<Longrightarrow> keeps B (upto_ends n b e)"
  by (induction n) (rule keepsI, auto simp: with_exit_def dest: keepsD split: if_splits)+

lemma keeps_repeat: "keeps B e \<Longrightarrow> keeps B (repeat_ends s b lo hi e)"
  by (rule keepsI) (auto simp: repeat_ends_def dest: keepsD [OF keeps_times] keepsD [OF keeps_star] keepsD [OF keeps_upto]
      split: option.splits)

lemma keeps_seq: "\<forall>e \<in> set es. keeps B e \<Longrightarrow> keeps B (seq_ends es)"
  by (induction es) (rule keepsI, auto dest: keepsD)+

lemma re_ends_keeps:
  assumes step: "\<And>i. B i \<Longrightarrow> i < length s \<Longrightarrow> B (i + snd (decode_rune (drop i s)))"
  shows "keeps B (re_ends s r)"
proof -
  have st: "keeps B (step_rune s P)" for P
    by (rule keepsI) (auto simp: step_rune_def step split: if_splits)
  have lit: "keeps B (literal_ends s eq rs)" for eq rs
    by (induction rs) (rule keepsI, auto dest: keepsD [OF st] keepsD)+
  show ?thesis
  proof (induction r)
    case (OpConcat rs)
    then have "keeps B (seq_ends (map (re_ends s) rs))" by (intro keeps_seq) auto
    then show ?case by (simp add: keeps_def)
  next
    case (OpAlternate rs)
    then show ?case by (auto simp: keeps_def)
  next
    case (OpStar b r)
    show ?case by (rule keepsI) (auto dest: keepsD [OF keeps_star [OF OpStar]])
  next
    case (OpPlus b r)
    show ?case by (rule keepsI) (auto dest: keepsD [OF keeps_repeat [OF OpPlus]])
  next
    case (OpRepeat b lo hi r)
    show ?case by (rule keepsI) (auto dest: keepsD [OF keeps_repeat [OF OpRepeat]])
  next
    case (OpQuest b r)
    have "keeps B (upto_ends 1 b (re_ends s r))" by (rule keeps_upto [OF OpQuest])
    then show ?case unfolding keeps_def re_ends.simps .
  next
    case (OpLiteral eq rs)
    show ?case by (rule keepsI) (simp, rule keepsD [OF lit])
  next
    case (OpCharClass ranges)
    show ?case by (rule keepsI) (simp, rule keepsD [OF st])
  next
    case OpAnyCharNotNL
    show ?case by (rule keepsI) (simp, rule keepsD [OF st])
  next
    case OpAnyChar
    show ?case by (rule keepsI) (simp, rule keepsD [OF st])
  next
    case (OpCapture r)
    show ?case by (rule keepsI) (simp, rule keepsD [OF OpCapture])
  qed (rule keepsI, simp add: assert_at_def split: if_splits)+
qed

definition rune_boundary :: "bytes \<Rightarrow> nat \<Rightarrow> bool" where
  "rune_boundary s i \<longleftrightarrow> i \<le> length s \<and> utf8_valid (take i s) \<and> utf8_valid (drop i s)"

lemma rune_boundary_step:
  assumes "rune_boundary s i" and "i < length s"
  shows "rune_boundary s (i + snd (decode_rune (drop i s)))"
proof -
  let ?n = "snd (decode_rune (drop i s))"
  have ne: "drop i s \<noteq> []" using assms(2) by simp
  from assms(1) have v: "utf8_valid (take i s)" "utf8_valid (drop i s)" by (simp_all add: rune_boundary_def)
  from v(2) utf8_valid_step [OF ne] have ok: "rune_ok (decode_rune (drop i s))" "utf8_valid (drop ?n (drop i s))" by simp_all
  from v(1) utf8_valid_take_decode [OF ne ok(1)] have "utf8_valid (take i s @ take ?n (drop i s))"
    by (simp add: utf8_valid_append)
  then have "utf8_valid (take (i + ?n) s)" by (simp only: take_add)
  moreover have "i + ?n \<le> length s" using decode_rune_size [OF ne] assms(2) by auto
  ultimately show ?thesis using ok(2) by (simp add: rune_boundary_def add.commute)
qed

lemma rune_boundary_0: "utf8_valid s \<Longrightarrow> rune_boundary s 0"
  by (simp add: rune_boundary_def)

lemma rune_boundary_slice:
  assumes "rune_boundary s i" and "rune_boundary s j" and "i \<le> j"
  shows "utf8_valid (go_slice s i j)"
proof -
  have "utf8_valid (take i s @ go_slice s i j)"
    using assms by (simp add: take_append_drop_mid rune_boundary_def)
  with assms(1) show ?thesis by (simp add: utf8_valid_append rune_boundary_def)
qed

lemma doExecute_boundary:
  assumes "doExecute r s i = Some (a, b)" and "rune_boundary s i"
  shows "rune_boundary s a \<and> rune_boundary s b"
  using assms
proof (induction r s i rule: doExecute.induct)
  case (1 r s i)
  show ?case
  proof (cases "re_ends s r i")
    case Nil
    with "1.prems" have i: "i < length s" by (auto simp: doExecute.simps [of r s i] split: if_splits)
    with "1.IH" [OF Nil i] Nil "1.prems" rune_boundary_step show ?thesis by (simp add: doExecute.simps [of r s i])
  next
    case (Cons j js)
    with "1.prems" have "a = i" "b = j" by (simp_all add: doExecute.simps [of r s i])
    moreover have "keeps (rune_boundary s) (re_ends s r)" by (rule re_ends_keeps) (rule rune_boundary_step)
    ultimately show ?thesis using "1.prems"(2) Cons keepsD [of "rune_boundary s" "re_ends s r" i j] by simp
  qed
qed

subsection \<open>All matches of an expression that never matches the empty string\<close>

lemma all_matches_step:
  assumes "0 < min_width r"
  shows "all_matches_from r s n pos prevEnd =
    (if n = 0 \<or> length s < pos then []
     else case doExecute r s pos of None \<Rightarrow> [] | Some (a, b) \<Rightarrow> (a, b) # all_matches_from r s (n - 1) b (Some b))"
  using doExecute_spaced [of r s pos] assms
  by (subst all_matches_from.simps) (auto simp: not_less split: option.split)

lemma all_matches_props:
  assumes w: "0 < min_width r" and "pos \<le> length s" and "rune_boundary s pos \<or> \<not> utf8_valid s"
  shows "length (all_matches_from r s n pos prevEnd) \<le> length s - pos
    \<and> (\<forall>(a, b) \<in> set (all_matches_from r s n pos prevEnd). pos \<le> a \<and> a < b \<and> b \<le> length s
         \<and> (utf8_valid s \<longrightarrow> rune_boundary s a \<and> rune_boundary s b))"
  using assms(2,3)
proof (induction n arbitrary: pos prevEnd)
  case 0
  then show ?case by (simp add: all_matches_step [OF w])
next
  case (Suc n)
  show ?case
  proof (cases "doExecute r s pos")
    case None
    then show ?thesis by (simp add: all_matches_step [OF w])
  next
    case (Some p)
    obtain a b where p: "p = (a, b)" by (cases p)
    with Some doExecute_spaced [of r s pos a b] Suc.prems(1) w have ab: "pos \<le> a" "a < b" "b \<le> length s" by auto
    have bd: "rune_boundary s a \<and> rune_boundary s b \<or> \<not> utf8_valid s"
      using doExecute_boundary [of r s pos a b] Some p Suc.prems(2) by blast
    have eq: "all_matches_from r s (Suc n) pos prevEnd = (a, b) # all_matches_from r s n b (Some b)"
      using Some p Suc.prems(1) by (simp add: all_matches_step [OF w, of s "Suc n"])
    from Suc.IH [OF ab(3), of "Some b"] bd ab eq show ?thesis by fastforce
  qed
qed

lemma all_matches_limit:
  assumes "0 < min_width r" and "n \<le> m"
  shows "all_matches_from r s n pos prevEnd = take n (all_matches_from r s m pos prevEnd)"
  using assms(2)
proof (induction n arbitrary: m pos prevEnd)
  case 0
  show ?case by (simp add: all_matches_step [OF assms(1)])
next
  case (Suc n)
  then obtain m' where "m = Suc m'" "n \<le> m'" by (cases m) auto
  with Suc.IH show ?case
    by (simp add: all_matches_step [OF assms(1), of s "Suc n"] all_matches_step [OF assms(1), of s "Suc m'"] split: option.split)
qed

end
