(* ===== verification/Redactor_Scan.thy ===== *)
theory Redactor_Scan
  imports Go_Regexp "HOL-Library.Product_Lexorder"
begin

section \<open>toolresultredactor: configuration, rules and the scan of one string\<close>

text \<open>
  The policy of the secret redactor (config.go), its rules (patterns.go) with the merge of
  overlapping matches, and \<open>scanScalar\<close> (redact.go), the scan of one string. The parser of
  expressions and the identifier and scope checks of the extension package are parameters.
\<close>

subsection \<open>Options\<close>

definition Placeholder :: string where
  "Placeholder = ''[REDACTED]''"

definition LateOrder :: int where
  "LateOrder = 1000000"

record red_Pattern =
  PatternID :: string
  Expression :: string

record red_Limits =
  MaxFieldBytes :: int
  MaxStructuredBytes :: int
  MaxStructuredDepth :: int
  MaxStructuredNodes :: int
  MaxAttachments :: int
  MaxMetadataEntries :: int
  MaxMatchesPerField :: int
  MaxPatterns :: int
  MaxPatternBytes :: int

record 'scope red_Options =
  red_Scope :: "'scope option"
  red_Order :: int
  ExcludedTools :: "string list"
  AdditionalPatterns :: "red_Pattern list"
  red_Limits :: red_Limits

record 'scope red_canonicalOptions =
  red_scope :: 'scope
  red_order :: int
  red_excludedTools :: "string list"
  additionalPatterns :: "red_Pattern list"
  red_limits :: red_Limits

datatype red_error = red_configError string | red_patternError string string

definition red_validateLimits :: "red_Limits \<Rightarrow> red_error option" where
  "red_validateLimits l =
     (if list_ex (\<lambda>v. v \<le> 0)
           [MaxFieldBytes l, MaxStructuredBytes l, MaxStructuredDepth l, MaxStructuredNodes l, MaxAttachments l,
            MaxMetadataEntries l, MaxMatchesPerField l, MaxPatterns l, MaxPatternBytes l]
      then Some (red_configError ''limits'') else None)"

text \<open>The saturating minimum width; the loops over children are folds with an early return.\<close>

fun concat_width :: "int \<Rightarrow> int list \<Rightarrow> int" where
  "concat_width width [] = width"
| "concat_width width (childWidth # ws) =
     (if childWidth > MaxInt64 - width then MaxInt64 else concat_width (width + childWidth) ws)"

fun alternate_width :: "int \<Rightarrow> int list \<Rightarrow> int" where
  "alternate_width width [] = width"
| "alternate_width width (candidate # ws) = alternate_width (if candidate < width then candidate else width) ws"

fun minimumWidth :: "regexp \<Rightarrow> int" where
  "minimumWidth (OpLiteral eq rs) = len rs"
| "minimumWidth (OpCharClass ranges) = 1"
| "minimumWidth OpAnyCharNotNL = 1"
| "minimumWidth OpAnyChar = 1"
| "minimumWidth (OpCapture r) = minimumWidth r"
| "minimumWidth (OpConcat rs) = concat_width 0 (map minimumWidth rs)"
| "minimumWidth (OpAlternate rs) =
     (case map minimumWidth rs of [] \<Rightarrow> 0 | w # ws \<Rightarrow> alternate_width w ws)"
| "minimumWidth (OpPlus b r) = minimumWidth r"
| "minimumWidth (OpRepeat b lo hi r) =
     (if lo = 0 then 0
      else let width = minimumWidth r in
        if width > MaxInt64 div int lo then MaxInt64 else width * int lo)"
| "minimumWidth r = 0"

fun check_patterns ::
  "(string \<Rightarrow> bool) \<Rightarrow> (string \<Rightarrow> regexp option) \<Rightarrow> red_Limits \<Rightarrow> string list \<Rightarrow> red_Pattern list \<Rightarrow> red_error option" where
  "check_patterns validIdentifier Parse l seen [] = None"
| "check_patterns validIdentifier Parse l seen (p # ps) =
     (if \<not> validIdentifier (PatternID p) then Some (red_configError ''pattern-id'')
      else if List.member seen (PatternID p) then Some (red_patternError (PatternID p) ''duplicate-id'')
      else if Expression p = [] then Some (red_patternError (PatternID p) ''empty-expression'')
      else if len (Expression p) > MaxPatternBytes l then Some (red_patternError (PatternID p) ''expression-too-large'')
      else (case Parse (Expression p) of
              None \<Rightarrow> Some (red_patternError (PatternID p) ''invalid-expression'')
            | Some parsed \<Rightarrow>
                if minimumWidth parsed = 0 then Some (red_patternError (PatternID p) ''zero-width-expression'')
                else check_patterns validIdentifier Parse l (PatternID p # seen) ps))"

definition red_canonicalize ::
  "'scope \<Rightarrow> ('scope \<Rightarrow> bool) \<Rightarrow> (string \<Rightarrow> bool) \<Rightarrow> (string \<Rightarrow> regexp option) \<Rightarrow> 'scope red_Options
   \<Rightarrow> red_error + 'scope red_canonicalOptions" where
  "red_canonicalize GlobalScope validScope validIdentifier Parse options =
     (let scope = (case red_Scope options of None \<Rightarrow> GlobalScope | Some s \<Rightarrow> s);
          order = (if red_Order options = 0 then LateOrder else red_Order options);
          l = red_Limits options in
      if \<not> validScope scope then Inl (red_configError ''scope'')
      else (case red_validateLimits l of
              Some e \<Rightarrow> Inl e
            | None \<Rightarrow>
                if list_ex (\<lambda>name. \<not> validIdentifier name) (ExcludedTools options) then Inl (red_configError ''excluded-tool'')
                else if len (AdditionalPatterns options) > MaxPatterns l then Inl (red_configError ''pattern-count'')
                else (case check_patterns validIdentifier Parse l [] (AdditionalPatterns options) of
                        Some e \<Rightarrow> Inl e
                      | None \<Rightarrow> Inr \<lparr>red_scope = scope, red_order = order,
                                 red_excludedTools = sort (remdups (ExcludedTools options)),
                                 additionalPatterns = sort_key (\<lambda>p. (PatternID p, Expression p)) (AdditionalPatterns options),
                                 red_limits = l\<rparr>)))"

subsection \<open>Rules\<close>

type_synonym byteRange = "nat \<times> nat"

datatype matcher = regexpMatcher regexp | boundaryMatcher regexp "char \<Rightarrow> bool" "char \<Rightarrow> bool"

definition regexp_find :: "regexp \<Rightarrow> string \<Rightarrow> int \<Rightarrow> byteRange list" where
  "regexp_find r value limit =
     filter (\<lambda>(a, b). a \<noteq> b) (FindAllStringIndex r value (if limit < 0 then length value + 1 else nat limit))"

text \<open>
  The loop of \<open>boundaryMatcher.find\<close>. An expression that matched the empty string at the current
  position would not move it; none of the catalogue does (\<open>builtin_rules_ok\<close>), and the loop
  ends there.
\<close>

function boundary_from ::
  "regexp \<Rightarrow> (char \<Rightarrow> bool) \<Rightarrow> (char \<Rightarrow> bool) \<Rightarrow> string \<Rightarrow> int \<Rightarrow> nat \<Rightarrow> int \<Rightarrow> byteRange list" where
  "boundary_from r leftByte rightByte value limit position found =
     (if position < length value \<and> found < limit then
        (case FindStringIndex r (drop position value) of
           None \<Rightarrow> []
         | Some (a0, b0) \<Rightarrow>
             let a = a0 + position; b = b0 + position in
             if b0 = 0 then []
             else if 0 < a \<and> leftByte (value ! (a - 1)) then boundary_from r leftByte rightByte value limit b found
             else if b < length value \<and> rightByte (value ! b) then boundary_from r leftByte rightByte value limit b found
             else (a, b) # boundary_from r leftByte rightByte value limit b (found + 1))
      else [])"
  by pat_completeness auto
termination by (relation "measure (\<lambda>(r, lb, rb, v, l, p, f). length v - p)") auto

declare boundary_from.simps [simp del]

definition matcher_find :: "matcher \<Rightarrow> string \<Rightarrow> int \<Rightarrow> byteRange list" where
  "matcher_find m value limit =
     (case m of
        regexpMatcher r \<Rightarrow> regexp_find r value limit
      | boundaryMatcher r lb rb \<Rightarrow> boundary_from r lb rb value limit 0 0)"

definition in_range :: "char \<Rightarrow> nat \<Rightarrow> nat \<Rightarrow> bool" where
  "in_range c lo hi \<longleftrightarrow> lo \<le> byte c \<and> byte c \<le> hi"

definition ascii_alnum :: "char \<Rightarrow> bool" where
  "ascii_alnum c \<longleftrightarrow> in_range c 0x30 0x39 \<or> in_range c 0x41 0x5A \<or> in_range c 0x61 0x7A"

definition githubStatelessTokenByte :: "char \<Rightarrow> bool" where
  "githubStatelessTokenByte c \<longleftrightarrow> c = CHR ''-'' \<or> c = CHR ''.'' \<or> c = CHR ''_'' \<or> ascii_alnum c"

definition lit :: "string \<Rightarrow> regexp" where
  "lit s = OpLiteral (=) (map byte s)"

definition any_case :: "string \<Rightarrow> regexp list" where
  "any_case s = map (\<lambda>c. OpCharClass [(byte c - 0x20, byte c - 0x20), (byte c, byte c)]) s"

definition class_of :: "string \<Rightarrow> regexp" where
  "class_of extra = OpCharClass ([(0x30, 0x39), (0x41, 0x5A), (0x61, 0x7A)] @ map (\<lambda>c. (byte c, byte c)) extra)"

text \<open>\<open>(?ms)^-----BEGIN L-----\r?$.*?^-----END L-----\r?$\<close>\<close>

definition pem_block :: "string \<Rightarrow> regexp" where
  "pem_block label = OpConcat
     [OpBeginLine, lit (''-----BEGIN '' @ label @ ''-----''), OpQuest False (OpLiteral (=) [0x0D]), OpEndLine,
      OpStar True OpAnyChar,
      OpBeginLine, lit (''-----END '' @ label @ ''-----''), OpQuest False (OpLiteral (=) [0x0D]), OpEndLine]"

definition bearer_expression :: regexp where
  "bearer_expression = OpConcat
     (any_case ''authorization'' @
      [OpStar False (OpCharClass [(0x09, 0x09), (0x20, 0x20)]), lit '':'', OpStar False (OpCharClass [(0x09, 0x09), (0x20, 0x20)])] @
      any_case ''bearer'' @
      [OpPlus False (lit '' ''), OpPlus False (class_of ''-._~+/''), OpRepeat False 0 None (lit ''='')])"

definition stateless_expression :: regexp where
  "stateless_expression = OpConcat
     [lit ''ghs_'', OpPlus False (OpCharClass [(0x30, 0x39)]), lit ''_'', OpPlus False (class_of ''_-''), lit ''.'',
      OpPlus False (class_of ''_-''), lit ''.'', OpPlus False (class_of ''_-'')]"

definition github_expression :: regexp where
  "github_expression = OpConcat
     [OpAlternate [lit ''ghp_'', lit ''github_pat_'', lit ''gho_'', lit ''ghu_'', lit ''ghs_'', lit ''ghr_''],
      OpRepeat False 16 None (class_of ''_'')]"

definition builtinRules :: "matcher list" where
  "builtinRules =
     [regexpMatcher (pem_block ''PRIVATE KEY''),
      regexpMatcher (pem_block ''ENCRYPTED PRIVATE KEY''),
      boundaryMatcher bearer_expression
        (\<lambda>c. c = CHR ''_'' \<or> c = CHR ''-'' \<or> ascii_alnum c)
        (\<lambda>c. c = CHR ''-'' \<or> c = CHR ''.'' \<or> c = CHR ''_'' \<or> c = CHR ''~'' \<or> c = CHR ''+'' \<or> c = CHR ''/'' \<or> c = CHR ''=''
           \<or> ascii_alnum c),
      boundaryMatcher stateless_expression githubStatelessTokenByte githubStatelessTokenByte,
      boundaryMatcher github_expression (\<lambda>c. c = CHR ''_'' \<or> ascii_alnum c) (\<lambda>c. c = CHR ''_'' \<or> ascii_alnum c)]"

fun compile_patterns :: "(string \<Rightarrow> regexp option) \<Rightarrow> matcher list \<Rightarrow> red_Pattern list \<Rightarrow> red_error + matcher list" where
  "compile_patterns Parse rules [] = Inr rules"
| "compile_patterns Parse rules (p # ps) =
     (case Parse (Expression p) of
        None \<Rightarrow> Inl (red_patternError (PatternID p) ''invalid-expression'')
      | Some r \<Rightarrow> compile_patterns Parse (rules @ [regexpMatcher r]) ps)"

definition compileRules :: "(string \<Rightarrow> regexp option) \<Rightarrow> red_Pattern list \<Rightarrow> red_error + matcher list" where
  "compileRules Parse patterns = compile_patterns Parse builtinRules patterns"

record compiledPolicy =
  pol_limits :: red_Limits
  rules :: "matcher list"
  excluded :: "string list"

definition compileCanonicalPolicy ::
  "(string \<Rightarrow> regexp option) \<Rightarrow> 'scope red_canonicalOptions \<Rightarrow> red_error + compiledPolicy" where
  "compileCanonicalPolicy Parse canonical =
     (case compileRules Parse (additionalPatterns canonical) of
        Inl e \<Rightarrow> Inl e
      | Inr rs \<Rightarrow> Inr \<lparr>pol_limits = red_limits canonical, rules = rs, excluded = red_excludedTools canonical\<rparr>)"

definition compilePolicy ::
  "'scope \<Rightarrow> ('scope \<Rightarrow> bool) \<Rightarrow> (string \<Rightarrow> bool) \<Rightarrow> (string \<Rightarrow> regexp option) \<Rightarrow> 'scope red_Options
   \<Rightarrow> red_error + 'scope red_canonicalOptions \<times> compiledPolicy" where
  "compilePolicy GlobalScope validScope validIdentifier Parse options =
     (case red_canonicalize GlobalScope validScope validIdentifier Parse options of
        Inl e \<Rightarrow> Inl e
      | Inr canonical \<Rightarrow>
          (case compileCanonicalPolicy Parse canonical of Inl e \<Rightarrow> Inl e | Inr policy \<Rightarrow> Inr (canonical, policy)))"

subsection \<open>Merging ranges\<close>

text \<open>The merged ranges so far are in reverse order, the last one first.\<close>

fun merge_into :: "byteRange list \<Rightarrow> byteRange list \<Rightarrow> byteRange list" where
  "merge_into merged [] = rev merged"
| "merge_into [] (c # cs) = merge_into [c] cs"
| "merge_into (lst # merged) (c # cs) =
     (if fst c \<le> snd lst
      then merge_into ((fst lst, if snd c > snd lst then snd c else snd lst) # merged) cs
      else merge_into (c # lst # merged) cs)"

definition mergeRanges :: "byteRange list \<Rightarrow> byteRange list" where
  "mergeRanges ranges =
     (if length ranges < 2 then ranges
      else let sorted = sort ranges in merge_into (take 1 sorted) (drop 1 sorted))"

subsection \<open>The scan of one string\<close>

datatype scanState = scanUnchanged | scanChanged | scanUnsafe | scanCanceled

fun scan_rules ::
  "red_Limits \<Rightarrow> string \<Rightarrow> matcher list \<Rightarrow> ctx \<Rightarrow> int \<Rightarrow> byteRange list \<Rightarrow> (scanState + byteRange list) \<times> ctx" where
  "scan_rules l value [] c matches ranges = (Inr ranges, c)"
| "scan_rules l value (rule # rs) c matches ranges =
     (case ctx_Err c of
        (True, c) \<Rightarrow> (Inl scanCanceled, c)
      | (False, c) \<Rightarrow>
          let remaining = MaxMatchesPerField l - matches;
              queryLimit = (if remaining < len value then remaining + 1 else len value);
              found = matcher_find rule value queryLimit in
          if len found > remaining then (Inl scanUnsafe, c)
          else scan_rules l value rs c (matches + len found) (ranges @ found))"

fun write_spans :: "string \<Rightarrow> nat \<Rightarrow> byteRange list \<Rightarrow> string" where
  "write_spans value position [] = drop position value"
| "write_spans value position ((a, b) # spans) =
     go_slice value position a @ Placeholder @ write_spans value b spans"

definition scanScalar :: "compiledPolicy \<Rightarrow> ctx \<Rightarrow> string \<Rightarrow> (string \<times> scanState) \<times> ctx" where
  "scanScalar p c value =
     (case ctx_Err c of
        (True, c) \<Rightarrow> ((Placeholder, scanCanceled), c)
      | (False, c) \<Rightarrow>
          if value = Placeholder then ((value, scanUnchanged), c)
          else if len value > MaxFieldBytes (pol_limits p) \<or> \<not> utf8_valid value then ((Placeholder, scanUnsafe), c)
          else (case scan_rules (pol_limits p) value (rules p) c 0 [] of
                  (Inl st, c) \<Rightarrow> ((Placeholder, st), c)
                | (Inr ranges, c) \<Rightarrow>
                    (case ctx_Err c of
                       (True, c) \<Rightarrow> ((Placeholder, scanCanceled), c)
                     | (False, c) \<Rightarrow>
                         if ranges = [] then ((value, scanUnchanged), c)
                         else ((write_spans value 0 (mergeRanges ranges), scanChanged), c))))"

subsection \<open>Widths\<close>

lemma concat_width_bounds:
  "0 \<le> w \<Longrightarrow> \<forall>x \<in> set ws. 0 \<le> x \<Longrightarrow>
   w \<le> concat_width w ws \<and> concat_width w ws \<le> w + sum_list ws
   \<and> (0 < w \<or> (\<exists>x \<in> set ws. 0 < x) \<longrightarrow> 0 < concat_width w ws)" if "w \<le> MaxInt64"
  using that
proof (induction ws arbitrary: w)
  case (Cons x ws)
  have pos: "0 \<le> x" "0 \<le> sum_list ws" using Cons.prems by (auto intro: sum_list_nonneg)
  show ?case
  proof (cases "x > MaxInt64 - w")
    case True
    with Cons.prems pos show ?thesis by (simp add: MaxInt64_def)
  next
    case False
    then have "w + x \<le> MaxInt64" by simp
    with Cons.IH [of "w + x"] Cons.prems pos False show ?thesis by (auto simp: add.assoc)
  qed
qed auto

lemma alternate_width_le:
  "alternate_width w ws \<le> w \<and> (\<forall>x \<in> set ws. alternate_width w ws \<le> x) \<and> alternate_width w ws \<in> insert w (set ws)"
proof (induction ws arbitrary: w)
  case (Cons x ws)
  from Cons.IH [of "if x < w then x else w"] show ?case by (auto split: if_splits)
qed simp

text \<open>The saturated minimum is a lower bound, and it is positive exactly when the exact one is.\<close>

lemma sum_list_int: "int (sum_list ns) = sum_list (map int ns)"
  by (induction ns) simp_all

lemma minimumWidth_min_width:
  "0 \<le> minimumWidth r \<and> minimumWidth r \<le> int (min_width r) \<and> (minimumWidth r = 0 \<longleftrightarrow> min_width r = 0)"
proof (induction r)
  case (OpConcat rs)
  let ?ws = "map minimumWidth rs"
  have nn: "\<forall>x \<in> set ?ws. 0 \<le> x" using OpConcat by auto
  note b = concat_width_bounds [of 0 ?ws, OF _ _ nn]
  have "sum_list ?ws \<le> sum_list (map (int \<circ> min_width) rs)"
    using OpConcat by (intro sum_list_mono) auto
  then have le: "sum_list ?ws \<le> int (min_width (OpConcat rs))" by (simp add: sum_list_int)
  have "min_width (OpConcat rs) = 0 \<longleftrightarrow> (\<forall>r \<in> set rs. minimumWidth r = 0)"
    using OpConcat by (auto simp: sum_list_eq_0_iff)
  moreover have "minimumWidth (OpConcat rs) = 0" if "\<forall>r \<in> set rs. minimumWidth r = 0"
  proof -
    have "sum_list ?ws = 0" using that by (simp add: map_idI sum_list_eq_0_iff cong: map_cong)
    with b show ?thesis by (simp add: MaxInt64_def)
  qed
  ultimately show ?case using b le nn by (force simp: MaxInt64_def)
next
  case (OpAlternate rs)
  show ?case
  proof (cases rs)
    case Nil
    then show ?thesis by simp
  next
    case (Cons r rest)
    let ?m = "Min (set (map min_width rs))"
    define w where "w = alternate_width (minimumWidth r) (map minimumWidth rest)"
    have "?m \<in> set (map min_width rs)" by (rule Min_in) (simp_all add: Cons)
    then obtain q where q: "q \<in> set rs" "min_width q = ?m" by auto
    from alternate_width_le [of "minimumWidth r" "map minimumWidth rest"] Cons
    have le: "w \<le> minimumWidth x" if "x \<in> set rs" for x using that by (auto simp: w_def)
    from alternate_width_le [of "minimumWidth r" "map minimumWidth rest"] Cons
    obtain x where x: "x \<in> set rs" "w = minimumWidth x" by (auto simp: w_def)
    have "?m \<le> min_width x" using x(1) by (simp add: Min_le_iff)
    with OpAlternate [OF x(1)] OpAlternate [OF q(1)] le [OF q(1)] x q(2)
    have "0 \<le> w" "w \<le> int ?m" "w = 0 \<longleftrightarrow> ?m = 0" by linarith+
    then show ?thesis using Cons by (simp add: w_def)
  qed
next
  case (OpRepeat b lo hi r)
  show ?case
  proof (cases "lo = 0")
    case True
    then show ?thesis by simp
  next
    case False
    let ?w = "minimumWidth r"
    have mono: "?w * int lo \<le> int (min_width r) * int lo" using OpRepeat by (simp add: mult_right_mono)
    moreover have "MaxInt64 \<le> int (min_width r) * int lo" if "?w > MaxInt64 div int lo"
    proof -
      have "MaxInt64 < (MaxInt64 div int lo + 1) * int lo"
        using False by (simp add: distrib_right) (metis add.commute mod_mult_div_eq mult.commute add_strict_left_mono pos_mod_bound of_nat_0_less_iff neq0_conv)
      also have "\<dots> \<le> ?w * int lo" using that by (intro mult_right_mono) auto
      also note mono
      finally show ?thesis by simp
    qed
    ultimately show ?thesis using False OpRepeat by (auto simp: Let_def MaxInt64_def mult.commute)
  qed
qed (auto simp: len_def)

subsection \<open>Merged ranges\<close>

definition cover :: "byteRange list \<Rightarrow> nat set" where
  "cover rs = (\<Union>(a, b) \<in> set rs. {a..<b})"

definition apart :: "byteRange list \<Rightarrow> bool" where
  "apart rs \<longleftrightarrow> sorted_wrt (\<lambda>x y. snd x < fst y) rs"

definition proper :: "byteRange list \<Rightarrow> bool" where
  "proper rs \<longleftrightarrow> (\<forall>(a, b) \<in> set rs. a < b)"

lemma cover_simps [simp]: "cover [] = {}" "cover (r # rs) = {fst r..<snd r} \<union> cover rs" "cover (rs @ qs) = cover rs \<union> cover qs"
  by (auto simp: cover_def)

lemma cover_set: "set rs = set qs \<Longrightarrow> cover rs = cover qs"
  by (simp add: cover_def)

lemma proper_simps [simp]: "proper []" "proper (r # rs) \<longleftrightarrow> fst r < snd r \<and> proper rs" "proper (rs @ qs) \<longleftrightarrow> proper rs \<and> proper qs"
  by (auto simp: proper_def)

definition ends_within :: "byteRange list \<Rightarrow> byteRange list \<Rightarrow> bool" where
  "ends_within rs qs \<longleftrightarrow> fst ` set rs \<subseteq> fst ` set qs \<and> snd ` set rs \<subseteq> snd ` set qs"

lemma merge_into_correct:
  assumes "apart (rev (lst # ms))" and "proper (lst # ms)" and "proper cs"
    and "sorted (map fst cs)" and "\<forall>c \<in> set cs. fst lst \<le> fst c"
  shows "apart (merge_into (lst # ms) cs) \<and> proper (merge_into (lst # ms) cs)
    \<and> cover (merge_into (lst # ms) cs) = cover (lst # ms) \<union> cover cs
    \<and> ends_within (merge_into (lst # ms) cs) (lst # ms @ cs)"
  using assms
proof (induction cs arbitrary: lst ms)
  case Nil
  then show ?case by (auto simp: apart_def proper_def cover_def ends_within_def)
next
  case (Cons c cs)
  have c: "fst lst \<le> fst c" "fst c < snd c" and cs: "sorted (map fst cs)" "proper cs" "\<forall>d \<in> set cs. fst c \<le> fst d"
    using Cons.prems by auto
  show ?case
  proof (cases "fst c \<le> snd lst")
    case True
    let ?l = "(fst lst, if snd c > snd lst then snd c else snd lst)"
    have "apart (rev (?l # ms))" "proper (?l # ms)" "\<forall>d \<in> set cs. fst ?l \<le> fst d"
      using Cons.prems(1,2) c cs(3) by (auto simp: apart_def sorted_wrt_append intro: le_trans)
    from Cons.IH [OF this(1,2) cs(2,1) this(3)] have
      ih: "apart (merge_into (?l # ms) cs)" "proper (merge_into (?l # ms) cs)"
        "cover (merge_into (?l # ms) cs) = cover (?l # ms) \<union> cover cs"
        "ends_within (merge_into (?l # ms) cs) (?l # ms @ cs)" by simp_all
    have eq: "merge_into (lst # ms) (c # cs) = merge_into (?l # ms) cs" using True by simp
    have "{fst ?l..<snd ?l} = {fst lst..<snd lst} \<union> {fst c..<snd c}" using True c by auto
    with ih(3) have "cover (merge_into (?l # ms) cs) = cover (lst # ms) \<union> cover (c # cs)" by auto
    moreover have "ends_within (merge_into (?l # ms) cs) (lst # ms @ c # cs)"
      using ih(4) by (auto simp: ends_within_def split: if_splits)
    ultimately show ?thesis unfolding eq using ih(1,2) by blast
  next
    case False
    have old: "snd x < fst lst" if "x \<in> set ms" for x
      using Cons.prems(1) that by (auto simp: apart_def sorted_wrt_append)
    have "apart (rev (c # lst # ms))"
      using Cons.prems(1) False c old by (fastforce simp: apart_def sorted_wrt_append)
    with Cons.IH [of c "lst # ms"] Cons.prems(2) c cs False show ?thesis
      by (auto simp: ends_within_def)
  qed
qed

lemma sorted_map_fst_sort: "sorted (map fst (sort (rs :: (nat \<times> nat) list)))"
  using sorted_sort [of rs] unfolding sorted_map by (rule sorted_wrt_mono_rel [rotated]) (auto simp: less_eq_prod_def)

lemma mergeRanges_facts:
  assumes "proper rs"
  shows "apart (mergeRanges rs) \<and> proper (mergeRanges rs) \<and> cover (mergeRanges rs) = cover rs
    \<and> ends_within (mergeRanges rs) rs"
proof (cases "length rs < 2")
  case True
  then have "apart rs" by (cases rs) (auto simp: apart_def)
  with True assms show ?thesis by (simp add: mergeRanges_def ends_within_def)
next
  case False
  obtain c cs where s: "sort rs = c # cs" using False by (cases "sort rs") (auto dest: arg_cong [of _ _ length])
  have set: "set (c # cs) = set rs" using s by (metis set_sort)
  then have p: "proper (c # cs)" using assms by (auto simp: proper_def)
  have so: "sorted (map fst (c # cs))" using sorted_map_fst_sort [of rs] s by simp
  have "merge_into [c] cs = mergeRanges rs" using False s by (simp add: mergeRanges_def)
  moreover have "cover (c # cs) = cover rs" by (rule cover_set [OF set])
  moreover have "ends_within x (c # cs) \<Longrightarrow> ends_within x rs" for x
    using set unfolding ends_within_def by (metis image_mono)
  ultimately show ?thesis
    using merge_into_correct [of c "[]" cs] p so by (auto simp: apart_def)
qed

text \<open>
  C37: merging. From any non-empty ranges \<open>mergeRanges\<close> computes non-empty ranges in increasing
  order with a gap between any two, which cover exactly the same bytes.
\<close>

theorem mergeRanges_correct:
  assumes "\<forall>(a, b) \<in> set rs. a < b"
  shows "sorted_wrt (\<lambda>x y. snd x < fst y) (mergeRanges rs) \<and> (\<forall>(a, b) \<in> set (mergeRanges rs). a < b)
    \<and> (\<Union>(a, b) \<in> set (mergeRanges rs). {a..<b}) = (\<Union>(a, b) \<in> set rs. {a..<b})"
  using mergeRanges_facts [of rs] assms by (simp add: apart_def proper_def cover_def)

theorem mergeRanges_correct_witness:
  "mergeRanges [(4, 6), (1, 3), (2, 4)] = [(1, 6)] \<and> (\<Union>(a, b) \<in> {(1::nat, 6)}. {a..<b}) = {4..<6} \<union> {1..<3} \<union> {2..<4}"
proof -
  have m: "mergeRanges [(4, 6), (1, 3), (2, 4)] = [(1, 6)]" by (simp add: mergeRanges_def)
  from mergeRanges_correct [of "[(4, 6), (1, 3), (2, 4)]"] m show ?thesis by auto
qed

subsection \<open>What the rules find\<close>

text \<open>Every admissible match of a boundary rule, without the limit.\<close>

function boundary_all :: "regexp \<Rightarrow> (char \<Rightarrow> bool) \<Rightarrow> (char \<Rightarrow> bool) \<Rightarrow> string \<Rightarrow> nat \<Rightarrow> byteRange list" where
  "boundary_all r leftByte rightByte value position =
     (if length value \<le> position then []
      else case FindStringIndex r (drop position value) of
        None \<Rightarrow> []
      | Some (a0, b0) \<Rightarrow>
          let a = a0 + position; b = b0 + position in
          if b0 = 0 then []
          else (if 0 < a \<and> leftByte (value ! (a - 1)) \<or> b < length value \<and> rightByte (value ! b) then [] else [(a, b)])
            @ boundary_all r leftByte rightByte value b)"
  by pat_completeness auto
termination by (relation "measure (\<lambda>(r, lb, rb, v, p). length v - p)") auto

declare boundary_all.simps [simp del]

definition all_spans :: "matcher \<Rightarrow> string \<Rightarrow> byteRange list" where
  "all_spans m v =
     (case m of
        regexpMatcher r \<Rightarrow> FindAllStringIndex r v (length v + 1)
      | boundaryMatcher r lb rb \<Rightarrow> boundary_all r lb rb v 0)"

fun rule_ok :: "matcher \<Rightarrow> bool" where
  "rule_ok (regexpMatcher r) = (0 < min_width r)"
| "rule_ok (boundaryMatcher r lb rb) = (0 < min_width r)"

definition span_ok :: "string \<Rightarrow> byteRange \<Rightarrow> bool" where
  "span_ok v r \<longleftrightarrow> fst r < snd r \<and> snd r \<le> length v \<and> (utf8_valid v \<longrightarrow> rune_boundary v (fst r) \<and> rune_boundary v (snd r))"

lemma rune_boundary_drop:
  assumes "rune_boundary s p" and "rune_boundary (drop p s) i"
  shows "rune_boundary s (i + p)"
proof -
  from assms have "utf8_valid (take p s @ take i (drop p s))" by (simp add: rune_boundary_def utf8_valid_append)
  moreover have "take p s @ take i (drop p s) = take (i + p) s" by (metis take_add add.commute)
  ultimately show ?thesis using assms by (auto simp: rune_boundary_def add.commute)
qed

lemma find_drop_span:
  assumes "FindStringIndex r (drop p v) = Some (a, b)" and "0 < min_width r" and "p < length v"
    and "utf8_valid v \<longrightarrow> rune_boundary v p"
  shows "span_ok v (a + p, b + p) \<and> p < b + p"
proof -
  from doExecute_spaced [of r "drop p v" 0 a b] assms have ab: "a < b" "b \<le> length v - p"
    by (auto simp: FindStringIndex_def)
  moreover have "rune_boundary (drop p v) a \<and> rune_boundary (drop p v) b" if "utf8_valid v"
    using doExecute_boundary [of r "drop p v" 0 a b] assms that
    by (simp add: FindStringIndex_def rune_boundary_def)
  ultimately show ?thesis using assms(3,4) rune_boundary_drop by (auto simp: span_ok_def)
qed

lemma boundary_all_spans:
  assumes "0 < min_width r" and "utf8_valid v \<longrightarrow> rune_boundary v p"
  shows "list_all (span_ok v) (boundary_all r lb rb v p) \<and> length (boundary_all r lb rb v p) \<le> length v - p"
  using assms
proof (induction r lb rb v p rule: boundary_all.induct)
  case (1 r lb rb v p)
  show ?case
  proof (cases "length v \<le> p \<or> FindStringIndex r (drop p v) = None")
    case True
    then show ?thesis by (subst (1 2) boundary_all.simps) auto
  next
    case False
    then obtain a b where f: "FindStringIndex r (drop p v) = Some (a, b)" by auto
    with False find_drop_span [OF f] "1.prems" have s: "span_ok v (a + p, b + p)" "p < b + p" by auto
    then have "utf8_valid v \<longrightarrow> rune_boundary v (b + p)" by (simp add: span_ok_def)
    from "1.IH" [OF _ f refl refl refl _ "1.prems"(1) this] False s
    have ih: "list_all (span_ok v) (boundary_all r lb rb v (b + p))" "length (boundary_all r lb rb v (b + p)) \<le> length v - (b + p)"
      by simp_all
    have "b + p \<le> length v" using s(1) by (simp add: span_ok_def)
    then have "Suc (length (boundary_all r lb rb v (b + p))) \<le> length v - p" using ih(2) s(2) by linarith
    then show ?thesis
      using False f s ih by (subst (1 2) boundary_all.simps) (auto simp: Let_def)
  qed
qed

lemma boundary_from_take:
  "boundary_from r lb rb v limit p found = take (nat (limit - found)) (boundary_all r lb rb v p)"
proof (induction r lb rb v limit p found rule: boundary_from.induct)
  case (1 r lb rb v limit p found)
  show ?case
  proof (cases "p < length v \<and> found < limit")
    case False
    then show ?thesis by (subst boundary_from.simps, subst boundary_all.simps) auto
  next
    case True
    then have n: "nat (limit - found) = Suc (nat (limit - (found + 1)))" by arith
    show ?thesis
    proof (cases "FindStringIndex r (drop p v)")
      case None
      with True show ?thesis by (subst boundary_from.simps, subst boundary_all.simps) simp
    next
      case (Some ab)
      obtain a b where ab: "ab = (a, b)" by (cases ab)
      show ?thesis
      proof (cases "b = 0")
        case zero: True
        with True Some ab show ?thesis by (subst boundary_from.simps, subst boundary_all.simps) simp
      next
        case False
        note ih = 1 [OF True Some ab [symmetric] refl refl False]
        let ?skip = "0 < a + p \<and> lb (v ! (a + p - 1)) \<or> b + p < length v \<and> rb (v ! (b + p))"
        have all: "boundary_all r lb rb v p = (if ?skip then [] else [(a + p, b + p)]) @ boundary_all r lb rb v (b + p)"
          using True Some ab False by (subst boundary_all.simps) (simp add: Let_def)
        have "boundary_from r lb rb v limit p found =
            (if ?skip then boundary_from r lb rb v limit (b + p) found
             else (a + p, b + p) # boundary_from r lb rb v limit (b + p) (found + 1))"
          using True Some ab False by (subst boundary_from.simps) (auto simp: Let_def)
        moreover have "boundary_from r lb rb v limit (b + p) found = take (nat (limit - found)) (boundary_all r lb rb v (b + p))" if ?skip
          using ih(1,2) that by blast
        moreover have "boundary_from r lb rb v limit (b + p) (found + 1)
            = take (nat (limit - (found + 1))) (boundary_all r lb rb v (b + p))" if "\<not> ?skip"
          using ih(3) that by blast
        ultimately show ?thesis unfolding all by (cases ?skip) (simp_all only: n if_True if_False append_Nil append_Cons take_Suc_Cons simp_thms)
      qed
    qed
  qed
qed

lemma regexp_find_take:
  assumes "0 < min_width r" and "0 \<le> limit" and "limit \<le> len v + 1"
  shows "regexp_find r v limit = take (nat limit) (all_spans (regexpMatcher r) v)"
proof -
  let ?all = "FindAllStringIndex r v (length v + 1)"
  have f: "FindAllStringIndex r v (nat limit) = take (nat limit) ?all"
    unfolding FindAllStringIndex_def using assms by (intro all_matches_limit) (simp_all add: len_def nat_le_iff)
  have "\<forall>x \<in> set ?all. fst x \<noteq> snd x"
    using all_matches_props [OF assms(1), of 0 v "length v + 1" None]
    by (auto simp: FindAllStringIndex_def rune_boundary_def)
  then have "filter (\<lambda>(a, b). a \<noteq> b) (take (nat limit) ?all) = take (nat limit) ?all"
    by (intro filter_True) (fastforce dest: in_set_takeD)
  with f assms(2) show ?thesis by (simp add: regexp_find_def all_spans_def)
qed

lemma all_spans_ok:
  assumes "rule_ok m"
  shows "list_all (span_ok v) (all_spans m v) \<and> length (all_spans m v) \<le> length v"
proof (cases m)
  case (regexpMatcher r)
  with assms all_matches_props [of r 0 v "length v + 1" None] show ?thesis
    by (auto simp: all_spans_def FindAllStringIndex_def rune_boundary_def span_ok_def list_all_iff)
next
  case (boundaryMatcher r lb rb)
  with assms boundary_all_spans [of r v 0 lb rb] show ?thesis
    by (simp add: all_spans_def rune_boundary_0)
qed

lemma matcher_find_take:
  assumes "rule_ok m" and "0 \<le> limit" and "limit \<le> len v + 1"
  shows "matcher_find m v limit = take (nat limit) (all_spans m v)"
  using assms regexp_find_take
  by (cases m) (simp_all add: matcher_find_def boundary_from_take, simp add: all_spans_def)

text \<open>A rule that reports no more than the matches still allowed has reported all of its matches.\<close>

lemma matcher_find_complete:
  assumes "rule_ok m" and "0 \<le> remaining"
    and "len (matcher_find m v (if remaining < len v then remaining + 1 else len v)) \<le> remaining"
  shows "matcher_find m v (if remaining < len v then remaining + 1 else len v) = all_spans m v"
proof -
  let ?l = "if remaining < len v then remaining + 1 else len v"
  have l: "0 \<le> ?l" "?l \<le> len v + 1" using assms(2) by (auto simp: len_def)
  have eq: "matcher_find m v ?l = take (nat ?l) (all_spans m v)" by (rule matcher_find_take [OF assms(1) l])
  have "length (all_spans m v) \<le> length v" using all_spans_ok [OF assms(1)] by blast
  with assms(3) eq have "length (all_spans m v) \<le> nat ?l" by (auto simp: len_def min_def split: if_splits)
  with eq show ?thesis by simp
qed

subsection \<open>The policy\<close>

lemma builtin_rules_ok: "list_all rule_ok builtinRules"
  by (simp add: builtinRules_def pem_block_def bearer_expression_def stateless_expression_def github_expression_def
      lit_def any_case_def class_of_def)

definition policy_ok :: "compiledPolicy \<Rightarrow> bool" where
  "policy_ok p \<longleftrightarrow> list_all rule_ok (rules p) \<and> red_validateLimits (pol_limits p) = None"

lemma check_patterns_width:
  "check_patterns vi Parse l seen ps = None \<Longrightarrow> p \<in> set ps \<Longrightarrow> \<exists>r. Parse (Expression p) = Some r \<and> 0 < min_width r"
proof (induction ps arbitrary: seen)
  case (Cons q ps)
  then show ?case using minimumWidth_min_width by (fastforce split: if_splits option.splits)
qed simp

lemma compile_patterns_ok:
  "\<forall>p \<in> set ps. \<exists>r. Parse (Expression p) = Some r \<and> 0 < min_width r \<Longrightarrow> list_all rule_ok rs \<Longrightarrow>
   \<exists>out. compile_patterns Parse rs ps = Inr out \<and> list_all rule_ok out \<and> set rs \<subseteq> set out"
proof (induction ps arbitrary: rs)
  case (Cons p ps)
  then obtain r where r: "Parse (Expression p) = Some r" "0 < min_width r" by auto
  with Cons.IH [of "rs @ [regexpMatcher r]"] Cons.prems show ?case by auto
qed simp

lemma compilePolicy_ok:
  assumes "red_canonicalize g vs vi Parse options = Inr canonical"
  shows "\<exists>p. compilePolicy g vs vi Parse options = Inr (canonical, p) \<and> policy_ok p \<and> pol_limits p = red_limits canonical
    \<and> set builtinRules \<subseteq> set (rules p)"
proof -
  let ?ps = "AdditionalPatterns options"
  from assms have c: "check_patterns vi Parse (red_Limits options) [] ?ps = None" "red_validateLimits (red_limits canonical) = None"
    "additionalPatterns canonical = sort_key (\<lambda>p. (PatternID p, Expression p)) ?ps"
    by (auto simp: red_canonicalize_def Let_def split: if_splits option.splits)
  have "\<forall>p \<in> set (additionalPatterns canonical). \<exists>r. Parse (Expression p) = Some r \<and> 0 < min_width r"
    using check_patterns_width [OF c(1)] c(3) by simp
  from compile_patterns_ok [OF this builtin_rules_ok] obtain rs where
    "compileRules Parse (additionalPatterns canonical) = Inr rs" "list_all rule_ok rs" "set builtinRules \<subseteq> set rs"
    by (auto simp: compileRules_def)
  with assms c(2) show ?thesis by (simp add: compilePolicy_def compileCanonicalPolicy_def policy_ok_def)
qed

subsection \<open>What the scan computes\<close>

definition total_spans :: "compiledPolicy \<Rightarrow> string \<Rightarrow> byteRange list" where
  "total_spans p v = concat (map (\<lambda>m. all_spans m v) (rules p))"

lemma ctx_Err_cases:
  obtains "ctx_Err c = (True, Some 0)" "c = Some 0" | c' where "ctx_Err c = (False, c')" "c = None \<longleftrightarrow> c' = None"
proof (cases c)
  case None
  with that(2) [of None] show ?thesis by simp
next
  case (Some n)
  with that(1) that(2) [of "Some (n - 1)"] show ?thesis by (cases n) (simp_all add: ctx_Err_def)
qed

lemma scan_rules_spec:
  assumes "list_all rule_ok rs" and "k = len ranges" and "k \<le> MaxMatchesPerField l"
    and "scan_rules l v rs c k ranges = (res, c')"
  shows "(case res of
      Inr out \<Rightarrow> out = ranges @ concat (map (\<lambda>m. all_spans m v) rs)
    | Inl st \<Rightarrow> st = scanCanceled \<and> c' = Some 0
        \<or> st = scanUnsafe \<and> MaxMatchesPerField l < len (ranges @ concat (map (\<lambda>m. all_spans m v) rs)))"
  using assms
proof (induction rs arbitrary: c k ranges)
  case Nil
  then show ?case by auto
next
  case (Cons m rs)
  show ?case
  proof (cases c rule: ctx_Err_cases)
    case 1
    with Cons.prems(4) show ?thesis by auto
  next
    case (2 d)
    let ?rem = "MaxMatchesPerField l - k"
    let ?f = "matcher_find m v (if ?rem < len v then ?rem + 1 else len v)"
    have m: "rule_ok m" "0 \<le> ?rem" using Cons.prems by simp_all
    show ?thesis
    proof (cases "len ?f > ?rem")
      case True
      with Cons.prems(4) 2 have res: "res = Inl scanUnsafe" by (auto simp: Let_def)
      have "0 \<le> (if ?rem < len v then ?rem + 1 else len v)" "(if ?rem < len v then ?rem + 1 else len v) \<le> len v + 1"
        using m(2) by (auto simp: len_def)
      from matcher_find_take [OF m(1) this] have "length ?f \<le> length (all_spans m v)" by simp
      with True Cons.prems(2) show ?thesis by (simp add: res len_def)
    next
      case False
      then have eq: "?f = all_spans m v" using matcher_find_complete [OF m] by simp
      have "scan_rules l v rs d (k + len ?f) (ranges @ ?f) = (res, c')"
        using Cons.prems(4) 2 False by (simp add: Let_def)
      then have "scan_rules l v rs d (k + len (all_spans m v)) (ranges @ all_spans m v) = (res, c')" unfolding eq .
      from Cons.IH [OF _ _ _ this] Cons.prems(1,2) False [unfolded eq] show ?thesis
        by (simp only: list.map concat.simps append.assoc list.pred_inject) (simp add: len_def)
    qed
  qed
qed

lemma write_spans_valid:
  assumes "utf8_valid v" and "apart spans" and "list_all (span_ok v) spans" and "rune_boundary v p"
    and "\<forall>r \<in> set spans. p \<le> fst r"
  shows "utf8_valid (write_spans v p spans)"
  using assms(2-)
proof (induction spans arbitrary: p)
  case Nil
  then show ?case by (simp add: rune_boundary_def)
next
  case (Cons r spans)
  obtain a b where r: "r = (a, b)" by (cases r)
  with Cons.prems assms(1) have ab: "p \<le> a" "rune_boundary v a" "rune_boundary v b" by (simp_all add: span_ok_def)
  have "utf8_valid (go_slice v p a)" by (rule rune_boundary_slice [OF Cons.prems(3) ab(2,1)])
  moreover have "utf8_valid Placeholder" by (simp add: Placeholder_def utf8_eval)
  moreover have "utf8_valid (write_spans v b spans)"
    using Cons.prems r ab(3) by (intro Cons.IH) (auto simp: apart_def)
  ultimately show ?case by (simp add: r utf8_valid_append)
qed

lemma total_spans_ok: "policy_ok p \<Longrightarrow> list_all (span_ok v) (total_spans p v)"
  using all_spans_ok by (fastforce simp: policy_ok_def total_spans_def list_all_iff)

lemma merged_spans:
  assumes "policy_ok p"
  shows "apart (mergeRanges (total_spans p v)) \<and> list_all (span_ok v) (mergeRanges (total_spans p v))
    \<and> cover (mergeRanges (total_spans p v)) = cover (total_spans p v)"
proof -
  let ?t = "total_spans p v"
  from total_spans_ok [OF assms] have t: "\<forall>r \<in> set ?t. span_ok v r" by (simp add: list_all_iff)
  then have "proper ?t" by (auto simp: proper_def span_ok_def)
  note f = mergeRanges_facts [OF this]
  have "span_ok v r" if "r \<in> set (mergeRanges ?t)" for r
  proof -
    have "fst r \<in> fst ` set ?t" "snd r \<in> snd ` set ?t" using f that by (auto simp: ends_within_def)
    then obtain x y where "x \<in> set ?t" "fst x = fst r" "y \<in> set ?t" "snd y = snd r" by auto
    moreover have "fst r < snd r" using f that by (auto simp: proper_def)
    ultimately show ?thesis using t by (auto simp: span_ok_def)
  qed
  with f show ?thesis by (simp add: list_all_iff)
qed

lemma scanScalar_cases:
  assumes ok: "policy_ok p" and scan: "scanScalar p c v = ((out, st), c')"
  obtains (canceled) "st = scanCanceled" "out = Placeholder" "c' = Some 0"
  | (unsafe) "st = scanUnsafe" "out = Placeholder" "v \<noteq> Placeholder"
      "MaxFieldBytes (pol_limits p) < len v \<or> \<not> utf8_valid v \<or> MaxMatchesPerField (pol_limits p) < len (total_spans p v)"
  | (unchanged) "st = scanUnchanged" "out = v" "v = Placeholder \<or> utf8_valid v \<and> len v \<le> MaxFieldBytes (pol_limits p) \<and> total_spans p v = []"
  | (changed) "st = scanChanged" "out = write_spans v 0 (mergeRanges (total_spans p v))" "v \<noteq> Placeholder" "utf8_valid v"
      "len v \<le> MaxFieldBytes (pol_limits p)" "total_spans p v \<noteq> []"
proof (cases c rule: ctx_Err_cases)
  case 1
  with scan canceled show thesis by (simp add: scanScalar_def)
next
  case (2 d)
  show thesis
  proof (cases "v = Placeholder")
    case True
    with 2 scan unchanged show thesis by (simp add: scanScalar_def)
  next
    case False
    show thesis
    proof (cases "MaxFieldBytes (pol_limits p) < len v \<or> \<not> utf8_valid v")
      case True
      with 2 False scan unsafe show thesis by (auto simp: scanScalar_def)
    next
      case fits: False
      obtain res e where r: "scan_rules (pol_limits p) v (rules p) d 0 [] = (res, e)"
        by (cases "scan_rules (pol_limits p) v (rules p) d 0 []")
      have "0 \<le> MaxMatchesPerField (pol_limits p)" using ok by (auto simp: policy_ok_def red_validateLimits_def split: if_splits)
      note spec = scan_rules_spec [OF _ _ this r]
      show thesis
      proof (cases res)
        case (Inl s)
        with spec ok have "s = scanCanceled \<and> e = Some 0 \<or> s = scanUnsafe \<and> MaxMatchesPerField (pol_limits p) < len (total_spans p v)"
          by (simp add: policy_ok_def len_def total_spans_def)
        with Inl 2 False fits scan r canceled unsafe show thesis by (auto simp: scanScalar_def)
      next
        case (Inr ranges)
        with spec ok have rg: "ranges = total_spans p v" by (simp add: policy_ok_def len_def total_spans_def)
        show thesis
        proof (cases e rule: ctx_Err_cases)
          case 1
          with Inr 2 False fits scan r canceled show thesis by (simp add: scanScalar_def)
        next
          case (2 f)
          with Inr \<open>ctx_Err c = (False, d)\<close> False fits scan r rg unchanged changed show thesis
            by (auto simp: scanScalar_def split: if_splits)
        qed
      qed
    qed
  qed
qed

text \<open>
  C1: the scan of a string. Under a policy compiled from accepted options the scan of a string
  either gives up (cancelled, too long, ill-formed or with too many matches) and returns the
  placeholder alone; or leaves the string as it is because it is the placeholder already or no
  rule matches anywhere in it; or returns it with every maximal stretch of bytes that some
  match of some rule covers, and nothing else, replaced by the placeholder. The query limits
  passed to the rules never hide a match, and the result is valid UTF-8.
\<close>

theorem scanScalar_exact:
  assumes "red_canonicalize g vs vi Parse options = Inr canonical"
    and "compilePolicy g vs vi Parse options = Inr (canonical, p)"
    and "scanScalar p c v = ((out, st), c')"
  shows "case st of
      scanCanceled \<Rightarrow> out = Placeholder \<and> c' = Some 0
    | scanUnsafe \<Rightarrow> out = Placeholder \<and> (MaxFieldBytes (red_limits canonical) < len v \<or> \<not> utf8_valid v
        \<or> MaxMatchesPerField (red_limits canonical) < len (total_spans p v))
    | scanUnchanged \<Rightarrow> out = v \<and> (v = Placeholder \<or> total_spans p v = [])
    | scanChanged \<Rightarrow> utf8_valid out \<and> total_spans p v \<noteq> [] \<and>
        (\<exists>spans. out = write_spans v 0 spans \<and> sorted_wrt (\<lambda>x y. snd x < fst y) spans
           \<and> (\<forall>(a, b) \<in> set spans. a < b \<and> b \<le> length v)
           \<and> (\<Union>(a, b) \<in> set spans. {a..<b}) = (\<Union>m \<in> set (rules p). \<Union>(a, b) \<in> set (all_spans m v). {a..<b}))"
proof -
  from compilePolicy_ok [OF assms(1)] assms(2) have ok: "policy_ok p" "pol_limits p = red_limits canonical" by auto
  from ok(1) assms(3) show ?thesis
  proof (cases rule: scanScalar_cases)
    case changed
    note m = merged_spans [OF ok(1), of v]
    have "utf8_valid out" using changed m write_spans_valid [of v "mergeRanges (total_spans p v)" 0] by (simp add: rune_boundary_0)
    moreover have "cover (total_spans p v) = (\<Union>m \<in> set (rules p). \<Union>(a, b) \<in> set (all_spans m v). {a..<b})"
      by (auto simp: cover_def total_spans_def)
    ultimately show ?thesis using changed m by (auto simp: apart_def cover_def list_all_iff span_ok_def intro!: exI [of _ "mergeRanges (total_spans p v)"])
  qed (auto simp: ok(2))
qed

definition red_demo_options :: "nat red_Options" where
  "red_demo_options = \<lparr>red_Scope = None, red_Order = 0, ExcludedTools = [''safe''],
     AdditionalPatterns = [\<lparr>PatternID = ''p'', Expression = ''ab*''\<rparr>],
     red_Limits = \<lparr>MaxFieldBytes = 64, MaxStructuredBytes = 64, MaxStructuredDepth = 4, MaxStructuredNodes = 8, MaxAttachments = 2,
       MaxMetadataEntries = 2, MaxMatchesPerField = 3, MaxPatterns = 1, MaxPatternBytes = 8\<rparr>\<rparr>"

definition red_demo_parse :: "string \<Rightarrow> regexp option" where
  "red_demo_parse e = (if e = ''ab*'' then Some (OpConcat [lit ''a'', OpStar False (lit ''b'')]) else None)"

definition red_demo_policy :: compiledPolicy where
  "red_demo_policy = \<lparr>pol_limits = red_Limits red_demo_options,
     rules = builtinRules @ [regexpMatcher (OpConcat [lit ''a'', OpStar False (lit ''b'')])], excluded = [''safe'']\<rparr>"

definition red_demo_canonical :: "nat red_canonicalOptions" where
  "red_demo_canonical = \<lparr>red_scope = 0, red_order = LateOrder, red_excludedTools = [''safe''],
     additionalPatterns = [\<lparr>PatternID = ''p'', Expression = ''ab*''\<rparr>], red_limits = red_Limits red_demo_options\<rparr>"

lemma red_demo_compiles:
  "red_canonicalize 0 (\<lambda>s. True) (\<lambda>n. True) red_demo_parse red_demo_options = Inr red_demo_canonical"
  "compilePolicy 0 (\<lambda>s. True) (\<lambda>n. True) red_demo_parse red_demo_options = Inr (red_demo_canonical, red_demo_policy)"
  by (simp_all add: compilePolicy_def red_canonicalize_def red_demo_options_def red_validateLimits_def red_demo_parse_def
      red_demo_canonical_def len_def lit_def compileCanonicalPolicy_def compileRules_def red_demo_policy_def MaxInt64_def)

theorem scanScalar_exact_witness:
  "scanScalar red_demo_policy None ''xabb y'' = ((''x[REDACTED] y'', scanChanged), None)
   \<and> utf8_valid ''x[REDACTED] y'' \<and> total_spans red_demo_policy ''xabb y'' \<noteq> []"
proof -
  have s: "scanScalar red_demo_policy None ''xabb y'' = ((''x[REDACTED] y'', scanChanged), None)"
    by (simp add: scanScalar_def red_demo_policy_def red_demo_options_def builtinRules_def len_def Placeholder_def matcher_find_def
        regexp_find_def FindAllStringIndex_def FindStringIndex_def all_matches_from.simps doExecute.simps boundary_from.simps
        pem_block_def bearer_expression_def stateless_expression_def github_expression_def lit_def any_case_def class_of_def
        step_rune_def assert_at_def with_exit_def repeat_ends_def mergeRanges_def go_slice_def utf8_eval)
  from scanScalar_exact [OF red_demo_compiles s] s show ?thesis by simp
qed

text \<open>
  the width check of host patterns. Whatever a pattern matches from a position in a text, it
  consumes at least \<open>minimumWidth\<close> bytes and stays inside the text; so a pattern that passes the
  check never matches the empty string.
\<close>

theorem minimumWidth_sound:
  assumes "j \<in> set (re_ends s r i)" and "i \<le> length s"
  shows "int i + minimumWidth r \<le> int j \<and> j \<le> length s"
  using spacedD [OF re_ends_spaced assms(2,1)] minimumWidth_min_width [of r] by linarith

theorem minimumWidth_sound_witness:
  "re_ends ''xabb'' (OpConcat [lit ''a'', OpStar False (lit ''b'')]) 1 = [4, 3, 2]
   \<and> minimumWidth (OpConcat [lit ''a'', OpStar False (lit ''b'')]) = 1
   \<and> int 1 + minimumWidth (OpConcat [lit ''a'', OpStar False (lit ''b'')]) \<le> int 2"
proof -
  let ?r = "OpConcat [lit ''a'', OpStar False (lit ''b'')]"
  have e: "re_ends ''xabb'' ?r 1 = [4, 3, 2]" by (simp add: lit_def step_rune_def with_exit_def utf8_eval)
  have w: "minimumWidth ?r = 1" by (simp add: lit_def len_def MaxInt64_def)
  from minimumWidth_sound [of 2 "''xabb''" ?r 1] e w show ?thesis by simp
qed

end
