(* ===== verification/Redactor.thy ===== *)
theory Redactor
  imports Redactor_Scan Unique_Keys Json_Encode
begin

section \<open>toolresultredactor: the redaction of a tool result\<close>

text \<open>
  The walk over structured output (json.go) and the redaction of a whole tool result (redact.go,
  mount.go). The walker keeps its position, node count, replacements and context in a record;
  its three mutually recursive methods take fuel, and \<open>walk_enough_fuel\<close> shows that the fuel
  \<open>scanStructured\<close> passes never runs out. A nil slice or map is \<open>None\<close>; a map is the list of its
  entries in the order the range loop visits them.
\<close>

subsection \<open>String literals\<close>

definition structuredPlaceholder :: bytes where
  "structuredPlaceholder = [CHR 0x22] @ Placeholder @ [CHR 0x22]"

definition parseHexRune :: "bytes \<Rightarrow> nat \<Rightarrow> nat option" where
  "parseHexRune value start =
     (if start + 4 > length value then None
      else foldl (\<lambda>acc digit.
             case acc of
               None \<Rightarrow> None
             | Some result \<Rightarrow>
                 if CHR ''0'' \<le> digit \<and> digit \<le> CHR ''9'' then Some (result * 16 + (byte digit - byte CHR ''0''))
                 else if CHR ''a'' \<le> digit \<and> digit \<le> CHR ''f'' then Some (result * 16 + (byte digit - byte CHR ''a'') + 10)
                 else if CHR ''A'' \<le> digit \<and> digit \<le> CHR ''F'' then Some (result * 16 + (byte digit - byte CHR ''A'') + 10)
                 else None) (Some 0) (go_slice value start (start + 4)))"

function encoding_from :: "bytes \<Rightarrow> nat \<Rightarrow> bool" where
  "encoding_from literal position =
     (if length literal - 1 \<le> position then True
      else let value = literal ! position in
        if value = CHR 0x5C then
          if position + 1 \<ge> length literal - 1 then False
          else let escaped = literal ! (position + 1) in
            if escaped \<noteq> CHR ''u'' then
              if \<not> List.member ([CHR 0x22, CHR 0x5C, CHR 0x5C] @ ''/bfnrt'') escaped then False
              else encoding_from literal (position + 2)
            else (case parseHexRune literal (position + 2) of
                    None \<Rightarrow> False
                  | Some first \<Rightarrow>
                      if is_surrogate first then
                        if first < 0xD800 \<or> first > 0xDBFF \<or> position + 6 + 6 > length literal - 1
                           \<or> literal ! (position + 6) \<noteq> CHR 0x5C \<or> literal ! (position + 7) \<noteq> CHR ''u''
                        then False
                        else (case parseHexRune literal (position + 8) of
                                None \<Rightarrow> False
                              | Some second \<Rightarrow>
                                  if second < 0xDC00 \<or> second > 0xDFFF then False
                                  else encoding_from literal (position + 12))
                      else encoding_from literal (position + 6))
        else if byte value < 0x20 then False
        else let (decoded, size) = decode_rune (go_slice literal position (length literal - 1)) in
          if decoded = RuneError \<and> size = 1 then False
          else if size = 0 then False
          else encoding_from literal (position + size))"
  by pat_completeness auto
termination by (relation "measure (\<lambda>(l, p). length l - p)") auto

definition validJSONStringEncoding :: "bytes \<Rightarrow> bool" where
  "validJSONStringEncoding literal =
     (if length literal < 2 \<or> hd literal \<noteq> CHR 0x22 \<or> last literal \<noteq> CHR 0x22 then False
      else encoding_from literal 1)"

record jsonWalker =
  w_ctx :: ctx
  w_raw :: bytes
  w_position :: nat
  w_nodes :: int
  w_replacements :: "(nat \<times> nat \<times> bytes) list"

text \<open>The scan for the closing quote: the end position and whether the quote was found.\<close>

function literal_end :: "bytes \<Rightarrow> nat \<Rightarrow> nat \<times> bool" where
  "literal_end raw position =
     (if length raw \<le> position then (position, False)
      else let current = raw ! position in
        if current = CHR 0x22 then (position + 1, True)
        else if current = CHR 0x5C then literal_end raw (position + 2)
        else if byte current < 0x20 then (position, False)
        else let size = snd (decode_rune (drop position raw)) in
          if size = 0 then (position, False) else literal_end raw (position + size))"
  by pat_completeness auto
termination by (relation "measure (\<lambda>(r, p). length r - p)") auto

declare encoding_from.simps [simp del] literal_end.simps [simp del]

text \<open>\<open>parseStringLiteral\<close> and the walker after it; \<open>None\<close> is an invalid literal.\<close>

definition parseStringLiteral :: "jsonWalker \<Rightarrow> (nat \<times> nat \<times> string) option \<times> jsonWalker" where
  "parseStringLiteral w =
     (let start = w_position w in
      case literal_end (w_raw w) (start + 1) of
        (stop, False) \<Rightarrow> (None, w\<lparr>w_position := stop\<rparr>)
      | (stop, True) \<Rightarrow>
          let literal = go_slice (w_raw w) start stop; w = w\<lparr>w_position := stop\<rparr> in
          if \<not> validJSONStringEncoding literal then (None, w)
          else (case json_document literal of
                  Some (JStr decoded) \<Rightarrow> (Some (start, stop, decoded), w)
                | _ \<Rightarrow> (None, w)))"

subsection \<open>The walker\<close>

definition skipSpace :: "jsonWalker \<Rightarrow> jsonWalker" where
  "skipSpace w = w\<lparr>w_position := w_position w + length (takeWhile ws_byte (drop (w_position w) (w_raw w)))\<rparr>"

definition consumeNode :: "compiledPolicy \<Rightarrow> jsonWalker \<Rightarrow> bool \<times> jsonWalker" where
  "consumeNode p w =
     (let w = w\<lparr>w_nodes := w_nodes w + 1\<rparr> in (w_nodes w \<le> MaxStructuredNodes (pol_limits p), w))"

definition primitive_stop :: "char \<Rightarrow> bool" where
  "primitive_stop c \<longleftrightarrow> List.member ([CHR 0x20, CHR 0x09, CHR 0x0D, CHR 0x0A] @ '',}]'') c"

definition parsePrimitive :: "jsonWalker \<Rightarrow> scanState \<times> jsonWalker" where
  "parsePrimitive w =
     (let n = length (takeWhile (\<lambda>c. \<not> primitive_stop c) (drop (w_position w) (w_raw w))) in
      (if n = 0 then scanUnsafe else scanUnchanged, w\<lparr>w_position := w_position w + n\<rparr>))"

definition w_at :: "jsonWalker \<Rightarrow> char \<Rightarrow> bool" where
  "w_at w c \<longleftrightarrow> w_position w < length (w_raw w) \<and> w_raw w ! w_position w = c"

definition advance :: "jsonWalker \<Rightarrow> jsonWalker" where
  "advance w = w\<lparr>w_position := w_position w + 1\<rparr>"

definition poll :: "jsonWalker \<Rightarrow> bool \<times> jsonWalker" where
  "poll w = (case ctx_Err (w_ctx w) of (e, c) \<Rightarrow> (e, w\<lparr>w_ctx := c\<rparr>))"

definition w_scan :: "compiledPolicy \<Rightarrow> string \<Rightarrow> jsonWalker \<Rightarrow> (string \<times> scanState) \<times> jsonWalker" where
  "w_scan p s w = (case scanScalar p (w_ctx w) s of (r, c) \<Rightarrow> (r, w\<lparr>w_ctx := c\<rparr>))"

definition replace_at :: "nat \<Rightarrow> nat \<Rightarrow> bytes \<Rightarrow> jsonWalker \<Rightarrow> jsonWalker" where
  "replace_at start stop v w = w\<lparr>w_replacements := w_replacements w @ [(start, stop, v)]\<rparr>"

definition parse_string_value :: "compiledPolicy \<Rightarrow> jsonWalker \<Rightarrow> scanState \<times> jsonWalker" where
  "parse_string_value p w =
     (case parseStringLiteral w of
        (None, w) \<Rightarrow> (scanUnsafe, w)
      | (Some (start, stop, decoded), w) \<Rightarrow>
          (case w_scan p decoded w of
             ((redacted, scanCanceled), w) \<Rightarrow> (scanCanceled, w)
           | ((redacted, scanUnsafe), w) \<Rightarrow> (scanUnchanged, replace_at start stop structuredPlaceholder w)
           | ((redacted, scanChanged), w) \<Rightarrow> (scanUnchanged, replace_at start stop (marshal_string redacted) w)
           | ((redacted, scanUnchanged), w) \<Rightarrow> (scanUnchanged, w)))"

fun parseValue :: "nat \<Rightarrow> compiledPolicy \<Rightarrow> int \<Rightarrow> jsonWalker \<Rightarrow> (scanState \<times> jsonWalker) option"
and object_loop :: "nat \<Rightarrow> compiledPolicy \<Rightarrow> int \<Rightarrow> jsonWalker \<Rightarrow> (scanState \<times> jsonWalker) option"
and array_loop :: "nat \<Rightarrow> compiledPolicy \<Rightarrow> int \<Rightarrow> jsonWalker \<Rightarrow> (scanState \<times> jsonWalker) option" where
  "parseValue 0 p dep w = None"
| "parseValue (Suc n) p dep w =
     (case poll w of
        (True, w) \<Rightarrow> Some (scanCanceled, w)
      | (False, w) \<Rightarrow>
          if dep > MaxStructuredDepth (pol_limits p) then Some (scanUnsafe, w)
          else (case consumeNode p w of
                  (False, w) \<Rightarrow> Some (scanUnsafe, w)
                | (True, w) \<Rightarrow>
                    let w = skipSpace w in
                    if w_position w \<ge> length (w_raw w) then Some (scanUnsafe, w)
                    else if w_at w (CHR ''{'') then
                      (let w = skipSpace (advance w) in
                       if w_at w (CHR ''}'') then Some (scanUnchanged, advance w) else object_loop n p dep w)
                    else if w_at w (CHR ''['') then
                      (let w = skipSpace (advance w) in
                       if w_at w (CHR '']'') then Some (scanUnchanged, advance w) else array_loop n p dep w)
                    else if w_at w (CHR 0x22) then Some (parse_string_value p w)
                    else Some (parsePrimitive w)))"
| "object_loop 0 p dep w = None"
| "object_loop (Suc n) p dep w =
     (case poll w of
        (True, w) \<Rightarrow> Some (scanCanceled, w)
      | (False, w) \<Rightarrow>
          (case consumeNode p w of
             (False, w) \<Rightarrow> Some (scanUnsafe, w)
           | (True, w) \<Rightarrow>
               let w = skipSpace w in
               if \<not> w_at w (CHR 0x22) then Some (scanUnsafe, w)
               else (case parseStringLiteral w of
                       (None, w) \<Rightarrow> Some (scanUnsafe, w)
                     | (Some (_, _, key), w) \<Rightarrow>
                         (case w_scan p key w of
                            ((_, keyState), w) \<Rightarrow>
                              if keyState = scanCanceled then Some (scanCanceled, w)
                              else if keyState \<noteq> scanUnchanged then Some (scanUnsafe, w)
                              else let w = skipSpace w in
                                if \<not> w_at w (CHR '':'') then Some (scanUnsafe, w)
                                else (case parseValue n p (dep + 1) (advance w) of
                                        None \<Rightarrow> None
                                      | Some (state, w) \<Rightarrow>
                                          if state \<noteq> scanUnchanged then Some (state, w)
                                          else let w = skipSpace w in
                                            if w_at w (CHR ''}'') then Some (scanUnchanged, advance w)
                                            else if w_at w (CHR '','') then object_loop n p dep (advance w)
                                            else Some (scanUnsafe, w))))))"
| "array_loop 0 p dep w = None"
| "array_loop (Suc n) p dep w =
     (case parseValue n p (dep + 1) w of
        None \<Rightarrow> None
      | Some (state, w) \<Rightarrow>
          if state \<noteq> scanUnchanged then Some (state, w)
          else let w = skipSpace w in
            if w_at w (CHR '']'') then Some (scanUnchanged, advance w)
            else if w_at w (CHR '','') then array_loop n p dep (advance w)
            else Some (scanUnsafe, w))"

fun write_replacements :: "bytes \<Rightarrow> nat \<Rightarrow> (nat \<times> nat \<times> bytes) list \<Rightarrow> bytes" where
  "write_replacements input position [] = drop position input"
| "write_replacements input position ((a, b, v) # rs) =
     go_slice input position a @ v @ write_replacements input b rs"

text \<open>The branch without a result is the exhausted fuel; \<open>walk_enough_fuel\<close> shows that it is never taken.\<close>

definition scanStructured :: "compiledPolicy \<Rightarrow> ctx \<Rightarrow> bytes option \<Rightarrow> (bytes option \<times> scanState) \<times> ctx" where
  "scanStructured p c input =
     (case input of
        None \<Rightarrow> ((None, scanUnchanged), c)
      | Some raw \<Rightarrow>
          if raw = [] then ((input, scanUnchanged), c)
          else (case ctx_Err c of
                  (True, c) \<Rightarrow> ((Some structuredPlaceholder, scanCanceled), c)
                | (False, c) \<Rightarrow>
                    if len raw > MaxStructuredBytes (pol_limits p) \<or> \<not> json_Valid raw
                    then ((Some structuredPlaceholder, scanUnsafe), c)
                    else (case parseValue (2 * length raw + 1) p 1
                                 \<lparr>w_ctx = c, w_raw = raw, w_position = 0, w_nodes = 0, w_replacements = []\<rparr> of
                            None \<Rightarrow> ((Some structuredPlaceholder, scanUnsafe), c)
                          | Some (state, w) \<Rightarrow>
                              let w = skipSpace w in
                              (case poll w of
                                 (True, w) \<Rightarrow> ((Some structuredPlaceholder, scanCanceled), w_ctx w)
                               | (False, w) \<Rightarrow>
                                   if state = scanCanceled then ((Some structuredPlaceholder, scanCanceled), w_ctx w)
                                   else if state = scanUnsafe \<or> w_position w \<noteq> length raw
                                   then ((Some structuredPlaceholder, scanUnsafe), w_ctx w)
                                   else if w_replacements w = [] then ((Some raw, scanUnchanged), w_ctx w)
                                   else ((Some (write_replacements raw 0 (w_replacements w)), scanChanged), w_ctx w)))))"

subsection \<open>Metadata, attachments and the whole result\<close>

type_synonym metadata = "(string \<times> string) list"

record red_Attachment =
  AttachmentID :: string
  MIMEType :: string
  AttachmentName :: string
  AttachmentURL :: string
  AttachmentMetadata :: "metadata option"

record ToolResult =
  Output :: string
  Structured :: "bytes option"
  Metadata :: "metadata option"
  Attachments :: "red_Attachment list option"

definition metadataPlaceholder :: metadata where
  "metadataPlaceholder = [([], Placeholder)]"

definition attachmentPlaceholder :: "red_Attachment list" where
  "attachmentPlaceholder =
     [\<lparr>AttachmentID = [], MIMEType = [], AttachmentName = Placeholder, AttachmentURL = [], AttachmentMetadata = None\<rparr>]"

definition fullyPlaceholderized :: "ToolResult \<Rightarrow> ToolResult" where
  "fullyPlaceholderized input =
     \<lparr>Output = Placeholder,
      Structured = map_option (\<lambda>_. structuredPlaceholder) (Structured input),
      Metadata = map_option (\<lambda>_. metadataPlaceholder) (Metadata input),
      Attachments = map_option (\<lambda>_. attachmentPlaceholder) (Attachments input)\<rparr>"

fun metadata_loop :: "compiledPolicy \<Rightarrow> ctx \<Rightarrow> metadata \<Rightarrow> metadata \<Rightarrow> (metadata \<times> bool) \<times> ctx" where
  "metadata_loop p c output [] = ((output, False), c)"
| "metadata_loop p c output ((key, value) # entries) =
     (case scanScalar p c key of
        ((_, keyState), c) \<Rightarrow>
          if keyState = scanCanceled then ((metadataPlaceholder, True), c)
          else if keyState \<noteq> scanUnchanged then ((metadataPlaceholder, False), c)
          else (case scanScalar p c value of
                  ((redacted, valueState), c) \<Rightarrow>
                    if valueState = scanCanceled then ((metadataPlaceholder, True), c)
                    else metadata_loop p c (output @ [(key, redacted)]) entries))"

definition scanMetadata :: "compiledPolicy \<Rightarrow> ctx \<Rightarrow> metadata option \<Rightarrow> (metadata option \<times> bool) \<times> ctx" where
  "scanMetadata p c input =
     (case input of
        None \<Rightarrow> ((None, False), c)
      | Some m \<Rightarrow>
          if len m > MaxMetadataEntries (pol_limits p) then ((Some metadataPlaceholder, False), c)
          else (case metadata_loop p c [] m of ((out, canceled), c) \<Rightarrow> ((Some out, canceled), c)))"

text \<open>The four scalar fields of one attachment in order; \<open>None\<close> when one was cancelled.\<close>

fun scan_fields :: "compiledPolicy \<Rightarrow> ctx \<Rightarrow> string list \<Rightarrow> string list option \<times> ctx" where
  "scan_fields p c [] = (Some [], c)"
| "scan_fields p c (v # vs) =
     (case scanScalar p c v of
        ((out, state), c) \<Rightarrow>
          if state = scanCanceled then (None, c)
          else (case scan_fields p c vs of (r, c) \<Rightarrow> (map_option ((#) out) r, c)))"

fun attachment_loop ::
  "compiledPolicy \<Rightarrow> ctx \<Rightarrow> red_Attachment list \<Rightarrow> red_Attachment list \<Rightarrow> (red_Attachment list \<times> bool) \<times> ctx" where
  "attachment_loop p c output [] = ((output, False), c)"
| "attachment_loop p c output (a # atts) =
     (case ctx_Err c of
        (True, c) \<Rightarrow> ((attachmentPlaceholder, True), c)
      | (False, c) \<Rightarrow>
          (case scan_fields p c [AttachmentID a, MIMEType a, AttachmentName a, AttachmentURL a] of
             (Some [i, m, n, u], c) \<Rightarrow>
               (case scanMetadata p c (AttachmentMetadata a) of
                  ((md, True), c) \<Rightarrow> ((attachmentPlaceholder, True), c)
                | ((md, False), c) \<Rightarrow>
                    attachment_loop p c (output @ [\<lparr>AttachmentID = i, MIMEType = m, AttachmentName = n, AttachmentURL = u,
                                                    AttachmentMetadata = md\<rparr>]) atts)
           | (_, c) \<Rightarrow> ((attachmentPlaceholder, True), c)))"

definition scanAttachments ::
  "compiledPolicy \<Rightarrow> ctx \<Rightarrow> red_Attachment list option \<Rightarrow> (red_Attachment list option \<times> bool) \<times> ctx" where
  "scanAttachments p c input =
     (case input of
        None \<Rightarrow> ((None, False), c)
      | Some as \<Rightarrow>
          if len as > MaxAttachments (pol_limits p) then ((Some attachmentPlaceholder, False), c)
          else (case attachment_loop p c [] as of ((out, canceled), c) \<Rightarrow> ((Some out, canceled), c)))"

definition redactChecked :: "compiledPolicy \<Rightarrow> ctx \<Rightarrow> ToolResult \<Rightarrow> ToolResult" where
  "redactChecked p c input =
     (case ctx_Err c of
        (True, c) \<Rightarrow> fullyPlaceholderized input
      | (False, c) \<Rightarrow>
          (case scanScalar p c (Output input) of
             ((out, state), c) \<Rightarrow>
               if state = scanCanceled then fullyPlaceholderized input
               else (case scanStructured p c (Structured input) of
                       ((structured, state), c) \<Rightarrow>
                         if state = scanCanceled then fullyPlaceholderized input
                         else (case scanMetadata p c (Metadata input) of
                                 ((md, canceled), c) \<Rightarrow>
                                   if canceled then fullyPlaceholderized input
                                   else (case scanAttachments p c (Attachments input) of
                                           ((atts, canceled), c) \<Rightarrow>
                                             if canceled then fullyPlaceholderized input
                                             else (case ctx_Err c of
                                                     (True, c) \<Rightarrow> fullyPlaceholderized input
                                                   | (False, c) \<Rightarrow>
                                                       \<lparr>Output = out, Structured = structured, Metadata = md, Attachments = atts\<rparr>))))))"

text \<open>
  \<open>redact\<close> recovers from a panic of the checked path; the slice expressions that could panic are
  in range (\<open>merged_spans\<close>), so the model has no panicking branch below it and passes the
  recovered case as an argument. \<open>transform\<close> is the registered handler of mount.go.
\<close>

definition redact :: "compiledPolicy \<Rightarrow> ctx \<Rightarrow> bool \<Rightarrow> ToolResult \<Rightarrow> ToolResult" where
  "redact p c panicked input = (if panicked then fullyPlaceholderized input else redactChecked p c input)"

definition red_transform :: "compiledPolicy \<Rightarrow> ctx \<Rightarrow> bool \<Rightarrow> string \<Rightarrow> ToolResult \<Rightarrow> ToolResult" where
  "red_transform p c panicked toolName input =
     (if List.member (excluded p) toolName then input else redact p c panicked input)"

subsection \<open>The fuel of the walker is enough\<close>

lemma literal_end_bounds:
  "literal_end raw p = (stop, b) \<Longrightarrow> p \<le> stop \<and> (b \<longrightarrow> p < stop \<and> stop \<le> length raw)"
proof (induction raw p rule: literal_end.induct)
  case (1 raw p)
  let ?n = "snd (decode_rune (drop p raw))"
  show ?case
  proof (cases "length raw \<le> p \<or> raw ! p = CHR 0x22 \<or> byte (raw ! p) < 0x20 \<and> raw ! p \<noteq> CHR 0x5C")
    case True
    with "1.prems" show ?thesis by (subst (asm) literal_end.simps) (auto simp: Let_def split: if_splits)
  next
    case plain: False
    show ?thesis
    proof (cases "raw ! p = CHR 0x5C")
      case True
      with plain "1.prems" have "literal_end raw (p + 2) = (stop, b)" by (subst (asm) literal_end.simps) (auto simp: Let_def)
      with "1.IH"(1) [OF _ refl _ True] plain True show ?thesis by force
    next
      case False
      show ?thesis
      proof (cases "?n = 0")
        case True
        with plain False "1.prems" show ?thesis by (subst (asm) literal_end.simps) (auto simp: Let_def)
      next
        case pos: False
        with plain False "1.prems" have "literal_end raw (p + ?n) = (stop, b)" by (subst (asm) literal_end.simps) (auto simp: Let_def)
        with "1.IH"(2) [OF _ refl _ False _ refl pos] plain False show ?thesis by force
      qed
    qed
  qed
qed

lemma parseStringLiteral_pos:
  assumes "parseStringLiteral w = (r, w')"
  shows "w_raw w' = w_raw w \<and> w_position w < w_position w' \<and> w_nodes w' = w_nodes w \<and> w_replacements w' = w_replacements w \<and> w_ctx w' = w_ctx w"
proof -
  obtain stop b where e: "literal_end (w_raw w) (w_position w + 1) = (stop, b)" by (metis surj_pair)
  from literal_end_bounds [OF e] assms e show ?thesis
    by (auto simp: parseStringLiteral_def Let_def split: bool.splits if_splits option.splits json.splits)
qed

lemma w_scan_pos: "w_scan p s w = (r, w') \<Longrightarrow> w_raw w' = w_raw w \<and> w_position w' = w_position w"
  by (auto simp: w_scan_def split: prod.splits)

lemma skipSpace_pos: "w_position w \<le> w_position (skipSpace w)"
  by (simp add: skipSpace_def)

lemma walker_pos [simp]:
  "w_raw (skipSpace w) = w_raw w"
  "w_raw (advance w) = w_raw w" "w_position (advance w) = Suc (w_position w)"
  "w_raw (replace_at a b v w) = w_raw w" "w_position (replace_at a b v w) = w_position w"
  by (simp_all add: skipSpace_def advance_def replace_at_def)

lemma poll_pos: "poll w = (b, w') \<Longrightarrow> w_raw w' = w_raw w \<and> w_position w' = w_position w"
  by (auto simp: poll_def split: prod.splits)

lemma consumeNode_pos: "consumeNode p w = (b, w') \<Longrightarrow> w_raw w' = w_raw w \<and> w_position w' = w_position w"
  by (auto simp: consumeNode_def Let_def)

lemma parse_string_value_pos:
  assumes "parse_string_value p w = (st, w')"
  shows "w_raw w' = w_raw w \<and> w_position w < w_position w'"
proof -
  obtain r w1 where l: "parseStringLiteral w = (r, w1)" by (metis surj_pair)
  note pos = parseStringLiteral_pos [OF l]
  show ?thesis
  proof (cases r)
    case None
    with l assms pos show ?thesis by (auto simp: parse_string_value_def)
  next
    case (Some t)
    obtain a b s where t: "t = (a, b, s)" by (cases t)
    obtain out st1 w2 where s: "w_scan p s w1 = ((out, st1), w2)" by (metis surj_pair)
    with w_scan_pos [OF s] l Some t assms pos show ?thesis by (cases st1) (auto simp: parse_string_value_def)
  qed
qed

lemma parsePrimitive_pos: "parsePrimitive w = (st, w') \<Longrightarrow>
    w_raw w' = w_raw w \<and> w_position w \<le> w_position w' \<and> (st = scanUnchanged \<longrightarrow> w_position w < w_position w')"
  by (auto simp: parsePrimitive_def Let_def split: if_splits)

text \<open>What the methods do before they recurse, as equations with the intermediate walkers named.\<close>

lemma parseValue_step:
  assumes "parseValue (Suc n) p d w = r"
  obtains (final) st w' where "r = Some (st, w')" "w_raw w' = w_raw w" "st = scanUnchanged \<longrightarrow> w_position w < w_position w'"
  | (object) w1 where "r = object_loop n p d w1" "w_raw w1 = w_raw w" "w_position w < w_position w1" "w_position w < length (w_raw w)"
  | (array) w1 where "r = array_loop n p d w1" "w_raw w1 = w_raw w" "w_position w < w_position w1" "w_position w < length (w_raw w)"
proof -
  obtain b w1 where w1: "poll w = (b, w1)" by (metis surj_pair)
  obtain k w2 where w2: "consumeNode p w1 = (k, w2)" by (metis surj_pair)
  let ?s = "skipSpace w2"
  let ?t = "skipSpace (advance ?s)"
  have pos: "w_raw w1 = w_raw w" "w_position w1 = w_position w" "w_raw ?s = w_raw w" "w_position w \<le> w_position ?s" "w_raw w2 = w_raw w"
    "w_raw ?t = w_raw w" "w_position w < w_position ?t"
    using poll_pos [OF w1] consumeNode_pos [OF w2] skipSpace_pos [of w2] skipSpace_pos [of "advance ?s"] by simp_all
  show ?thesis
  proof (cases "b \<or> d > MaxStructuredDepth (pol_limits p) \<or> \<not> k \<or> w_position ?s \<ge> length (w_raw ?s)")
    case True
    with assms w1 w2 pos that(1) show ?thesis by (auto simp: Let_def split: bool.splits if_splits)
  next
    case False
    obtain st3 w3 where s3: "parse_string_value p ?s = (st3, w3)" by (metis surj_pair)
    obtain st4 w4 where s4: "parsePrimitive ?s = (st4, w4)" by (metis surj_pair)
    note q = parse_string_value_pos [OF s3] parsePrimitive_pos [OF s4]
    have lt: "w_position w < length (w_raw w)" using False pos(3,4) by simp
    have eq: "r = (if w_at ?s (CHR ''{'') then if w_at ?t (CHR ''}'') then Some (scanUnchanged, advance ?t) else object_loop n p d ?t
        else if w_at ?s (CHR ''['') then if w_at ?t (CHR '']'') then Some (scanUnchanged, advance ?t) else array_loop n p d ?t
        else if w_at ?s (CHR 0x22) then Some (st3, w3) else Some (st4, w4))"
      unfolding assms [symmetric] using w1 w2 False s3 s4 by (simp add: Let_def not_le)
    show ?thesis
    proof (cases "w_at ?s (CHR ''{'') \<or> w_at ?s (CHR ''['')")
      case True
      then show ?thesis
        using eq that(1) [of scanUnchanged "advance ?t"] that(2) [of ?t] that(3) [of ?t] pos lt
        by (auto split: if_splits simp: less_Suc_eq)
    next
      case False
      with eq q pos that(1) [of st3 w3] that(1) [of st4 w4] show ?thesis by (auto split: if_splits)
    qed
  qed
qed

lemma object_loop_step:
  assumes "object_loop (Suc n) p d w = r"
  obtains (final) st w' where "r = Some (st, w')" "st \<noteq> scanUnchanged" "w_raw w' = w_raw w"
  | (entry) w1 where "w_raw w1 = w_raw w" "w_position w < w_position w1" "w_position w < length (w_raw w)"
      "r = (case parseValue n p (d + 1) w1 of
              None \<Rightarrow> None
            | Some (state, w) \<Rightarrow>
                if state \<noteq> scanUnchanged then Some (state, w)
                else let w = skipSpace w in
                  if w_at w (CHR ''}'') then Some (scanUnchanged, advance w)
                  else if w_at w (CHR '','') then object_loop n p d (advance w)
                  else Some (scanUnsafe, w))"
proof -
  obtain b w1 where w1: "poll w = (b, w1)" by (metis surj_pair)
  obtain k w2 where w2: "consumeNode p w1 = (k, w2)" by (metis surj_pair)
  let ?s = "skipSpace w2"
  obtain o3 w3 where w3: "parseStringLiteral ?s = (o3, w3)" by (metis surj_pair)
  have pos: "w_raw w1 = w_raw w" "w_raw ?s = w_raw w" "w_position w \<le> w_position ?s" "w_raw w2 = w_raw w"
    "w_raw w3 = w_raw w" "w_position w < w_position w3"
    using poll_pos [OF w1] consumeNode_pos [OF w2] skipSpace_pos [of w2] parseStringLiteral_pos [OF w3] by simp_all
  show ?thesis
  proof (cases "b \<or> \<not> k \<or> \<not> w_at ?s (CHR 0x22) \<or> o3 = None")
    case True
    with assms w1 w2 w3 pos that(1) show ?thesis by (auto simp: Let_def split: bool.splits if_splits)
  next
    case False
    then obtain x y key where o3: "o3 = Some (x, y, key)" by (metis not_None_eq surj_pair)
    obtain o4 st4 w4 where w4: "w_scan p key w3 = ((o4, st4), w4)" by (metis surj_pair)
    have pos4: "w_raw w4 = w_raw w" "w_position w < w_position (skipSpace w4)"
      using w_scan_pos [OF w4] pos skipSpace_pos [of w4] by simp_all
    show ?thesis
    proof (cases "st4 = scanUnchanged \<and> w_at (skipSpace w4) (CHR '':'')")
      case True
      have "w_position w < length (w_raw w)" using False pos by (auto simp: w_at_def)
      with that(2) [of "advance (skipSpace w4)"] assms w1 w2 w3 w4 o3 False True pos4 show ?thesis by (simp add: Let_def)
    next
      case st: False
      with assms w1 w2 w3 w4 o3 False pos4 that(1) show ?thesis by (auto simp: Let_def split: if_splits)
    qed
  qed
qed

lemma walk_advances:
  shows "parseValue n p d w = Some (st, w') \<Longrightarrow> w_raw w' = w_raw w \<and> (st = scanUnchanged \<longrightarrow> w_position w < w_position w')"
    and "object_loop n p d w = Some (st, w') \<Longrightarrow> w_raw w' = w_raw w \<and> (st = scanUnchanged \<longrightarrow> w_position w < w_position w')"
    and "array_loop n p d w = Some (st, w') \<Longrightarrow> w_raw w' = w_raw w \<and> (st = scanUnchanged \<longrightarrow> w_position w < w_position w')"
proof (induction n arbitrary: d w st w' and d w st w' and d w st w')
  case (Suc n)
  have after: "w_raw w' = w_raw w5 \<and> (st = scanUnchanged \<longrightarrow> w_position w5 < w_position w')"
    if "(let w = skipSpace w5 in if w_at w c1 then Some (scanUnchanged, advance w)
          else if w_at w c2 then loop (advance w) else Some (scanUnsafe, w)) = Some (st, w')"
      and "\<And>w st w'. loop w = Some (st, w') \<Longrightarrow> w_raw w' = w_raw w \<and> (st = scanUnchanged \<longrightarrow> w_position w < w_position w')"
    for w5 c1 c2 loop st w'
  proof -
    have "w_position w5 \<le> w_position (skipSpace w5)" by (rule skipSpace_pos)
    with that(1) that(2) [of "advance (skipSpace w5)" st w'] show ?thesis
      by (auto simp: Let_def split: if_splits)
  qed
  {
    case 1
    then show ?case
    proof (cases rule: parseValue_step)
      case (object w1)
      with Suc.IH(2) [OF object(1) [symmetric]] show ?thesis by auto
    next
      case (array w1)
      with Suc.IH(3) [OF array(1) [symmetric]] show ?thesis by auto
    qed auto
  next
    case 2
    then show ?case
    proof (cases rule: object_loop_step)
      case (entry w1)
      then obtain st5 w5 where w5: "parseValue n p (d + 1) w1 = Some (st5, w5)"
        by (cases "parseValue n p (d + 1) w1") auto
      with entry Suc.IH(1) [OF w5] after [of w5 "CHR ''}''" "CHR '',''" "object_loop n p d" st w'] Suc.IH(2) [of d] show ?thesis
        by (auto split: if_splits)
    qed auto
  next
    case 3
    then obtain st5 w5 where w5: "parseValue n p (d + 1) w = Some (st5, w5)"
      by (cases "parseValue n p (d + 1) w") auto
    with 3 Suc.IH(1) [OF w5] after [of w5 "CHR '']''" "CHR '',''" "array_loop n p d" st w'] Suc.IH(3) [of d] show ?case
      by (auto split: if_splits)
  }
qed simp_all

lemma walk_fuel:
  shows "2 * (length (w_raw w) - w_position w) < n \<Longrightarrow> parseValue n p d w \<noteq> None"
    and "2 * (length (w_raw w) - w_position w) + 1 < n \<Longrightarrow> object_loop n p d w \<noteq> None"
    and "2 * (length (w_raw w) - w_position w) + 1 < n \<Longrightarrow> array_loop n p d w \<noteq> None"
proof (induction n arbitrary: d w and d w and d w)
  case (Suc n)
  {
    case 1
    show ?case
      by (cases rule: parseValue_step [OF refl, of n p d w])
        (use 1 Suc.IH(2,3) in \<open>force, force, force\<close>)
  next
    case 2
    have "object_loop (Suc n) p d w = object_loop (Suc n) p d w" ..
    then show ?case
    proof (cases rule: object_loop_step)
      case (entry w1)
      with 2 Suc.IH(1) [of w1 "d + 1"] obtain st5 w5 where w5: "parseValue n p (d + 1) w1 = Some (st5, w5)" by fastforce
      have "object_loop n p d (advance (skipSpace w5)) \<noteq> None" if "st5 = scanUnchanged"
      proof (rule Suc.IH(2))
        have "w_raw w5 = w_raw w" "w_position w < w_position w5" using walk_advances(1) [OF w5] that entry by auto
        moreover have "w_position w5 \<le> w_position (skipSpace w5)" by (rule skipSpace_pos)
        ultimately show "2 * (length (w_raw (advance (skipSpace w5))) - w_position (advance (skipSpace w5))) + 1 < n"
          using 2 entry(3) by simp
      qed
      with entry w5 show ?thesis by (auto simp: Let_def)
    qed auto
  next
    case 3
    then have "2 * (length (w_raw w) - w_position w) < n" by simp
    from Suc.IH(1) [OF this, of "d + 1"] obtain st5 w5 where w5: "parseValue n p (d + 1) w = Some (st5, w5)" by fastforce
    have "array_loop n p d (advance (skipSpace w5)) \<noteq> None" if "st5 = scanUnchanged" "w_at (skipSpace w5) (CHR '','')"
    proof (rule Suc.IH(3))
      have "w_raw w5 = w_raw w" "w_position w < w_position w5" using walk_advances(1) [OF w5] that by auto
      moreover have "w_position w5 \<le> w_position (skipSpace w5)" by (rule skipSpace_pos)
      moreover have "w_position (skipSpace w5) < length (w_raw (skipSpace w5))" using that(2) by (simp add: w_at_def)
      ultimately show "2 * (length (w_raw (advance (skipSpace w5))) - w_position (advance (skipSpace w5))) + 1 < n"
        using 3 by simp
    qed
    with w5 show ?case by (auto simp: Let_def)
  }
qed simp_all

lemma walk_enough_fuel: "w_position w = 0 \<Longrightarrow> w_raw w = raw \<Longrightarrow> parseValue (2 * length raw + 1) p d w \<noteq> None"
  by (rule walk_fuel(1)) simp

subsection \<open>Cancellation never leaks a partial result\<close>

lemma scan_rules_live:
  "scan_rules l v rs c k ranges = (res, c') \<Longrightarrow> res = Inl scanCanceled \<or> scan_rules l v rs None k ranges = (res, None)"
proof (induction rs arbitrary: c k ranges)
  case (Cons m rs)
  show ?case
  proof (cases c rule: ctx_Err_cases)
    case 1
    with Cons.prems show ?thesis by simp
  next
    case (2 d)
    with Cons show ?thesis by (auto simp: Let_def split: if_splits)
  qed
qed simp

lemma scanScalar_live:
  assumes "scanScalar p c v = ((out, st), c')"
  shows "st = scanCanceled \<or> scanScalar p None v = ((out, st), None)"
proof (cases c rule: ctx_Err_cases)
  case 1
  with assms show ?thesis by (simp add: scanScalar_def)
next
  case (2 d)
  show ?thesis
  proof (cases "v = Placeholder \<or> len v > MaxFieldBytes (pol_limits p) \<or> \<not> utf8_valid v")
    case True
    with 2 assms show ?thesis by (auto simp: scanScalar_def)
  next
    case False
    obtain res e where r: "scan_rules (pol_limits p) v (rules p) d 0 [] = (res, e)"
      by (cases "scan_rules (pol_limits p) v (rules p) d 0 []")
    note live = scan_rules_live [OF r]
    show ?thesis
    proof (cases res)
      case (Inl s)
      with 2 False assms r live show ?thesis by (auto simp: scanScalar_def)
    next
      case (Inr ranges)
      then show ?thesis using 2 False assms r live
        by (cases e rule: ctx_Err_cases) (auto simp: scanScalar_def split: if_splits)
    qed
  qed
qed

lemma scan_rules_None: "scan_rules l v rs None k ranges = (res, c) \<Longrightarrow> res \<noteq> Inl scanCanceled \<and> c = None"
  by (induction rs arbitrary: k ranges) (auto simp: Let_def split: if_splits)

lemma scanScalar_None: "scanScalar p None v = ((out, st), c) \<Longrightarrow> st \<noteq> scanCanceled \<and> c = None"
  by (auto simp: scanScalar_def split: if_splits prod.splits sum.splits dest: scan_rules_None)

definition uncancelled :: "jsonWalker \<Rightarrow> jsonWalker" where
  "uncancelled w = w\<lparr>w_ctx := None\<rparr>"

lemma uncancelled_simps [simp]:
  "w_raw (uncancelled w) = w_raw w" "w_position (uncancelled w) = w_position w" "w_nodes (uncancelled w) = w_nodes w"
  "w_replacements (uncancelled w) = w_replacements w" "w_ctx (uncancelled w) = None"
  "skipSpace (uncancelled w) = uncancelled (skipSpace w)" "advance (uncancelled w) = uncancelled (advance w)"
  "w_at (uncancelled w) = w_at w" "poll (uncancelled w) = (False, uncancelled w)"
  "replace_at a b v (uncancelled w) = uncancelled (replace_at a b v w)" "uncancelled (uncancelled w) = uncancelled w"
  by (simp_all add: uncancelled_def skipSpace_def advance_def w_at_def [abs_def] poll_def replace_at_def)

lemma consumeNode_uncancelled [simp]: "consumeNode p (uncancelled w) = apsnd uncancelled (consumeNode p w)"
  by (simp add: consumeNode_def uncancelled_def)

lemma parsePrimitive_uncancelled [simp]: "parsePrimitive (uncancelled w) = apsnd uncancelled (parsePrimitive w)"
  by (simp add: parsePrimitive_def uncancelled_def Let_def)

lemma parseStringLiteral_uncancelled [simp]: "parseStringLiteral (uncancelled w) = apsnd uncancelled (parseStringLiteral w)"
  by (simp add: parseStringLiteral_def uncancelled_def Let_def split: prod.split bool.split option.split json.split)

lemma poll_live: "poll w = (False, w') \<Longrightarrow> uncancelled w' = uncancelled w"
  by (auto simp: poll_def uncancelled_def split: prod.splits)

lemma w_scan_live: "w_scan p s w = ((out, st), w') \<Longrightarrow> st \<noteq> scanCanceled \<Longrightarrow> w_scan p s (uncancelled w) = ((out, st), uncancelled w')"
  using scanScalar_live by (fastforce simp: w_scan_def uncancelled_def split: prod.splits)

lemma parse_string_value_live:
  assumes "parse_string_value p w = (st, w')" and "st \<noteq> scanCanceled"
  shows "parse_string_value p (uncancelled w) = (st, uncancelled w')"
proof -
  obtain r w1 where l: "parseStringLiteral w = (r, w1)" by (cases "parseStringLiteral w")
  show ?thesis
  proof (cases r)
    case None
    with l assms show ?thesis by (simp add: parse_string_value_def)
  next
    case (Some t)
    obtain a b s where t: "t = (a, b, s)" by (cases t)
    obtain out st1 w2 where s: "w_scan p s w1 = ((out, st1), w2)" by (metis surj_pair)
    then have "st1 \<noteq> scanCanceled" using l Some t assms by (auto simp: parse_string_value_def)
    with w_scan_live [OF s this] l Some t s assms show ?thesis
      by (cases st1) (auto simp: parse_string_value_def)
  qed
qed

lemma walk_live:
  shows "parseValue n p d w = Some (st, w') \<Longrightarrow> st \<noteq> scanCanceled \<Longrightarrow>
      parseValue n p d (uncancelled w) = Some (st, uncancelled w')"
    and "object_loop n p d w = Some (st, w') \<Longrightarrow> st \<noteq> scanCanceled \<Longrightarrow>
      object_loop n p d (uncancelled w) = Some (st, uncancelled w')"
    and "array_loop n p d w = Some (st, w') \<Longrightarrow> st \<noteq> scanCanceled \<Longrightarrow>
      array_loop n p d (uncancelled w) = Some (st, uncancelled w')"
proof (induction n arbitrary: d w st w' and d w st w' and d w st w')
  case (Suc n)
  {
    case 1
    obtain w1 where w1: "poll w = (False, w1)" using 1 by (cases "poll w"; cases "fst (poll w)") auto
    obtain b w2 where w2: "consumeNode p w1 = (b, w2)" by (cases "consumeNode p w1")
    from poll_live [OF w1] w2 have w2': "consumeNode p (uncancelled w) = (b, uncancelled w2)"
      by (metis consumeNode_uncancelled apsnd_conv)
    let ?s = "skipSpace (advance (skipSpace w2))"
    show ?case
      using 1 w1 w2 w2' Suc.IH(2) [of d ?s] Suc.IH(3) [of d ?s] parse_string_value_live poll_live [OF w1]
      by (simp add: Let_def split: if_split_asm bool.splits)
  next
    case 2
    obtain w1 where w1: "poll w = (False, w1)" using 2 by (cases "poll w"; cases "fst (poll w)") auto
    obtain b w2 where w2: "consumeNode p w1 = (b, w2)" by (cases "consumeNode p w1")
    from poll_live [OF w1] w2 have w2': "consumeNode p (uncancelled w) = (b, uncancelled w2)"
      by (metis consumeNode_uncancelled apsnd_conv)
    obtain r w3 where w3: "parseStringLiteral (skipSpace w2) = (r, w3)" by (cases "parseStringLiteral (skipSpace w2)")
    show ?case
    proof (cases "b \<and> w_at (skipSpace w2) (CHR 0x22) \<and> r \<noteq> None")
      case False
      with 2 w1 w2 w2' w3 show ?thesis by (cases r; cases b) (auto simp: Let_def split: if_splits)
    next
      case True
      then obtain x y key where r: "r = Some (x, y, key)" by (metis not_None_eq surj_pair)
      obtain o4 st4 w4 where w4: "w_scan p key w3 = ((o4, st4), w4)" by (metis surj_pair)
      have st4: "st4 \<noteq> scanCanceled" using 2 True w1 w2 w3 r w4 by (auto simp: Let_def)
      note w4' = w_scan_live [OF w4 st4]
      show ?thesis
      proof (cases "st4 = scanUnchanged \<and> w_at (skipSpace w4) (CHR '':'')")
        case False
        with 2 True w1 w2 w2' w3 r w4 w4' st4 show ?thesis by (auto simp: Let_def split: if_splits)
      next
        case colon: True
        obtain st5 w5 where w5: "parseValue n p (d + 1) (advance (skipSpace w4)) = Some (st5, w5)"
          using 2 True w1 w2 w3 r w4 colon by (cases "parseValue n p (d + 1) (advance (skipSpace w4))") (auto simp: Let_def)
        have st5: "st5 \<noteq> scanCanceled" using 2 True w1 w2 w3 r w4 colon w5 by (auto simp: Let_def split: if_splits)
        note w5' = Suc.IH(1) [OF w5 st5]
        show ?thesis
          using 2 True w1 w2 w2' w3 r w4 w4' colon w5 w5' Suc.IH(2) [of d "advance (skipSpace w5)"]
          by (simp add: Let_def split: if_split_asm)
      qed
    qed
  next
    case 3
    obtain st5 w5 where w5: "parseValue n p (d + 1) w = Some (st5, w5)"
      using 3 by (cases "parseValue n p (d + 1) w") auto
    have st5: "st5 \<noteq> scanCanceled" using 3 w5 by (auto simp: Let_def split: if_splits)
    note w5' = Suc.IH(1) [OF w5 st5]
    show ?case
      using 3 w5 w5' Suc.IH(3) [of d "advance (skipSpace w5)"] by (simp add: Let_def split: if_split_asm)
  }
qed simp_all

declare parseValue.simps [simp del] object_loop.simps [simp del] array_loop.simps [simp del]

lemma scanStructured_live:
  assumes "scanStructured p c input = ((out, st), c')"
  shows "st = scanCanceled \<or> (\<exists>c''. scanStructured p None input = ((out, st), c'') \<and> c'' = None)"
proof (cases "input = None \<or> input = Some []")
  case True
  with assms show ?thesis by (auto simp: scanStructured_def)
next
  case False
  then obtain raw where raw: "input = Some raw" "raw \<noteq> []" by auto
  show ?thesis
  proof (cases c rule: ctx_Err_cases)
    case 1
    with raw assms show ?thesis by (simp add: scanStructured_def)
  next
    case (2 d)
    show ?thesis
    proof (cases "len raw > MaxStructuredBytes (pol_limits p) \<or> \<not> json_Valid raw")
      case True
      with raw 2 assms show ?thesis by (auto simp: scanStructured_def)
    next
      case valid: False
      let ?w = "\<lambda>c. \<lparr>w_ctx = c, w_raw = raw, w_position = 0, w_nodes = 0, w_replacements = []\<rparr>"
      show ?thesis
      proof (cases "parseValue (2 * length raw + 1) p 1 (?w d)")
        case None
        have False using None walk_enough_fuel [of "?w d" raw p 1] by simp
        then show ?thesis ..
      next
        case (Some r)
        obtain st1 w where r: "r = (st1, w)" by (cases r)
        have ws: "uncancelled (?w d) = ?w None" by (simp add: uncancelled_def)
        show ?thesis
        proof (cases "poll (skipSpace w)")
          case (Pair b w2)
          have u: "uncancelled w2 = uncancelled (skipSpace w)" if "\<not> b" using poll_live Pair that by simp
          show ?thesis
          proof (cases "b \<or> st1 = scanCanceled")
            case True
            with Some r Pair raw 2 valid assms show ?thesis by (auto simp: scanStructured_def Let_def split: bool.splits)
          next
            case False
            with walk_live(1) [OF Some [unfolded r]] ws
            have "parseValue (2 * length raw + 1) p 1 (?w None) = Some (st1, uncancelled w)" by simp
            moreover have "w_position w2 = w_position (skipSpace w)" "w_replacements w2 = w_replacements (skipSpace w)"
              using u False by (metis uncancelled_simps(2), metis uncancelled_simps(4))
            ultimately show ?thesis using Some r Pair raw 2 valid assms False
              by (auto simp: scanStructured_def Let_def split: if_splits)
          qed
        qed
      qed
    qed
  qed
qed

lemma metadata_loop_live:
  "metadata_loop p c acc m = ((out, b), c') \<Longrightarrow> b \<or> metadata_loop p None acc m = ((out, False), None)"
proof (induction m arbitrary: c acc)
  case (Cons kv m)
  obtain k v where kv: "kv = (k, v)" by (cases kv)
  obtain o1 s1 c1 where k: "scanScalar p c k = ((o1, s1), c1)" by (metis surj_pair)
  obtain o2 s2 c2 where v: "scanScalar p c1 v = ((o2, s2), c2)" by (metis surj_pair)
  show ?case
    using Cons.prems kv k v scanScalar_live [OF k] scanScalar_live [OF v] Cons.IH [of c2 "acc @ [(k, o2)]"]
    by (auto split: if_splits)
qed simp

lemma scanMetadata_live:
  "scanMetadata p c input = ((out, b), c') \<Longrightarrow> b \<or> scanMetadata p None input = ((out, False), None)"
  using metadata_loop_live
  by (auto simp: scanMetadata_def split: option.splits if_splits prod.splits) fastforce+

lemma scan_fields_live:
  "scan_fields p c vs = (Some out, c') \<Longrightarrow> scan_fields p None vs = (Some out, None)"
proof (induction vs arbitrary: c out)
  case (Cons v vs)
  obtain o1 s1 c1 where v: "scanScalar p c v = ((o1, s1), c1)" by (metis surj_pair)
  obtain r c2 where vs: "scan_fields p c1 vs = (r, c2)" by (metis surj_pair)
  show ?case
    using Cons.prems v vs scanScalar_live [OF v] Cons.IH [of c1] by (auto split: if_splits)
qed simp

lemma scan_fields_length: "scan_fields p c vs = (Some out, c') \<Longrightarrow> length out = length vs"
  by (induction vs arbitrary: c out) (auto split: prod.splits if_splits)

lemma attachment_loop_live:
  "attachment_loop p c acc as = ((out, b), c') \<Longrightarrow> b \<or> attachment_loop p None acc as = ((out, False), None)"
proof (induction as arbitrary: c acc)
  case (Cons a as)
  show ?case
  proof (cases c rule: ctx_Err_cases)
    case 1
    with Cons.prems show ?thesis by simp
  next
    case (2 d)
    let ?fs = "[AttachmentID a, MIMEType a, AttachmentName a, AttachmentURL a]"
    obtain r e where f: "scan_fields p d ?fs = (r, e)" by (metis surj_pair)
    show ?thesis
    proof (cases r)
      case None
      with f 2 Cons.prems show ?thesis by (simp del: scan_fields.simps)
    next
      case (Some fs)
      with f scan_fields_length [of p d ?fs fs e] obtain i m n u where fs: "fs = [i, m, n, u]"
        by (auto simp: length_Suc_conv numeral_eq_Suc simp del: scan_fields.simps)
      obtain md b2 g where md: "scanMetadata p e (AttachmentMetadata a) = ((md, b2), g)" by (metis surj_pair)
      show ?thesis
        using Some fs f md 2 Cons.prems scan_fields_live [of p d ?fs fs e] scanMetadata_live [OF md] Cons.IH [of g]
        by (cases b2) (auto simp del: scan_fields.simps)
    qed
  qed
qed simp

lemma scanAttachments_live:
  "scanAttachments p c input = ((out, b), c') \<Longrightarrow> b \<or> scanAttachments p None input = ((out, False), None)"
  using attachment_loop_live
  by (auto simp: scanAttachments_def split: option.splits if_splits prod.splits) fastforce+

text \<open>
  C5: cancellation. Wherever among its polls the context is cancelled, a redaction returns either
  the result it would return under a context that is never cancelled, or the result in which
  every field that was present is the placeholder: never a partly scanned one.
\<close>

theorem redact_cancellation:
  "redactChecked p c input = fullyPlaceholderized input \<or> redactChecked p c input = redactChecked p None input"
proof (cases "redactChecked p c input = fullyPlaceholderized input")
  case False
  obtain c0 where c0: "ctx_Err c = (False, c0)"
    using False by (cases c rule: ctx_Err_cases) (auto simp: redactChecked_def)
  obtain o1 s1 c1 where 1: "scanScalar p c0 (Output input) = ((o1, s1), c1)" by (metis surj_pair)
  obtain o2 s2 c2 where 2: "scanStructured p c1 (Structured input) = ((o2, s2), c2)" by (metis surj_pair)
  obtain o3 b3 c3 where 3: "scanMetadata p c2 (Metadata input) = ((o3, b3), c3)" by (metis surj_pair)
  obtain o4 b4 c4 where 4: "scanAttachments p c3 (Attachments input) = ((o4, b4), c4)" by (metis surj_pair)
  have s: "s1 \<noteq> scanCanceled" "s2 \<noteq> scanCanceled" "\<not> b3" "\<not> b4"
    using False c0 1 2 3 4 by (auto simp: redactChecked_def)
  obtain c5 where "ctx_Err c4 = (False, c5)"
    using False c0 1 2 3 4 s by (cases c4 rule: ctx_Err_cases) (auto simp: redactChecked_def)
  with c0 1 2 3 4 s have "redactChecked p c input = \<lparr>Output = o1, Structured = o2, Metadata = o3, Attachments = o4\<rparr>"
    by (simp add: redactChecked_def)
  moreover have "redactChecked p None input = \<lparr>Output = o1, Structured = o2, Metadata = o3, Attachments = o4\<rparr>"
    using scanScalar_live [OF 1] scanStructured_live [OF 2] scanMetadata_live [OF 3] scanAttachments_live [OF 4] s
    by (auto simp: redactChecked_def)
  ultimately show ?thesis by simp
qed simp

end
