(* ===== verification/Redactor_Json.thy ===== *)
theory Redactor_Json
  imports Redactor
begin

section \<open>toolresultredactor: structured output is redacted string by string\<close>

text \<open>
  The walker of json.go edits the raw bytes of a document. This theory relates it to the grammar:
  when it succeeds, the document it writes has the structure of the document it read, with each
  string value replaced by what the scan of a single string returns (\<open>redact_tree\<close>).
\<close>

fun redact_tree :: "compiledPolicy \<Rightarrow> json \<Rightarrow> json" where
  "redact_tree p (JStr s) = JStr (fst (fst (scanScalar p None s)))"
| "redact_tree p (JArr vs) = JArr (map (redact_tree p) vs)"
| "redact_tree p (JObj ms) = JObj (map (\<lambda>m. (fst m, redact_tree p (snd m))) ms)"
| "redact_tree p v = v"

text \<open>Values and keys, the nesting with the root as one, and keys that no rule flags.\<close>

fun node_count :: "json \<Rightarrow> nat" where
  "node_count (JArr vs) = Suc (sum_list (map node_count vs))"
| "node_count (JObj ms) = Suc (sum_list (map (\<lambda>m. Suc (node_count (snd m))) ms))"
| "node_count v = 1"

fun within_depth :: "int \<Rightarrow> json \<Rightarrow> bool" where
  "within_depth d (JArr vs) = (1 \<le> d \<and> (\<forall>v \<in> set vs. within_depth (d - 1) v))"
| "within_depth d (JObj ms) = (1 \<le> d \<and> (\<forall>m \<in> set ms. within_depth (d - 1) (snd m)))"
| "within_depth d v = (1 \<le> d)"

fun keys_clean :: "compiledPolicy \<Rightarrow> json \<Rightarrow> bool" where
  "keys_clean p (JArr vs) = (\<forall>v \<in> set vs. keys_clean p v)"
| "keys_clean p (JObj ms) =
     (\<forall>m \<in> set ms. snd (fst (scanScalar p None (fst m))) = scanUnchanged \<and> keys_clean p (snd m))"
| "keys_clean p v = True"

subsection \<open>Literals\<close>

lemma scan_string_step:
  assumes "scan_string (c # s) = Some (l, r)"
  obtains (quote) "c = CHR 0x22" "l = []" "r = s"
  | (escape) k l' where "c = CHR 0x5C" "escape_len s = Some k" "scan_string (drop k s) = Some (l', r)" "l = c # take k s @ l'"
  | (plain) l' where "c \<noteq> CHR 0x22" "c \<noteq> CHR 0x5C" "0x20 \<le> byte c" "scan_string s = Some (l', r)" "l = c # l'"
  using assms by (subst (asm) scan_string.simps) (auto split: if_splits option.splits)

lemma list4: "4 \<le> length t \<Longrightarrow> \<exists>a b c d u. t = a # b # c # d # u"
  by (cases t; cases "tl t"; cases "tl (tl t)"; cases "tl (tl (tl t))") auto

lemma escape_len_cases:
  assumes "escape_len s = Some k"
  obtains (short) e t where "s = e # t" "k = 1" "\<And>x. escape_len (e # x) = Some 1"
  | (unicode) h1 h2 h3 h4 t where "s = CHR ''u'' # h1 # h2 # h3 # h4 # t" "k = 5" "hex4 h1 h2 h3 h4 \<noteq> None"
proof (cases s)
  case Nil
  with assms show thesis by (simp add: escape_len_def)
next
  case (Cons e t)
  show thesis
  proof (cases "e = CHR ''u''")
    case True
    with assms Cons have "4 \<le> length t" "hex4 (t ! 0) (t ! 1) (t ! 2) (t ! 3) \<noteq> None" "k = 5"
      by (simp_all add: escape_len_def split: if_splits)
    with list4 [of t] True Cons unicode show thesis by auto
  next
    case False
    with assms Cons short [of e t] show thesis by (simp add: escape_len_def split: if_splits)
  qed
qed

lemma escape_len_unicode: "hex4 h1 h2 h3 h4 \<noteq> None \<Longrightarrow> escape_len (CHR ''u'' # h1 # h2 # h3 # h4 # x) = Some 5"
  by (simp add: escape_len_def)

lemma scan_string_tail: "scan_string s = Some (l, r) \<Longrightarrow> scan_string (l @ CHR 0x22 # t) = Some (l, t)"
proof (induction s arbitrary: l rule: length_induct)
  case (1 s)
  from 1(2) have "s \<noteq> []" by (auto simp: scan_string.simps)
  then obtain c u where s: "s = c # u" by (cases s) auto
  with 1(2) have cu: "scan_string (c # u) = Some (l, r)" by simp
  then show ?case
  proof (cases rule: scan_string_step)
    case quote
    then show ?thesis by (simp add: scan_string.simps)
  next
    case (escape k l')
    have k: "1 \<le> k" "k \<le> length u" using escape_len_le [OF escape(2)] by auto
    have ih: "scan_string (l' @ CHR 0x22 # t) = Some (l', t)"
      using 1(1) escape(3) s k by (metis length_drop length_Cons diff_le_self le_imp_less_Suc)
    have e: "escape_len (take k u @ l' @ CHR 0x22 # t) = Some (length (take k u))"
      using escape(2) by (cases rule: escape_len_cases) (simp_all add: escape_len_unicode)
    show ?thesis using escape(1,4) scan_string_escape [OF e] ih by simp
  next
    case (plain l')
    have "scan_string (l' @ CHR 0x22 # t) = Some (l', t)" using 1(1) plain(4) s by auto
    with plain show ?thesis by (simp add: scan_string_plain)
  qed
qed

lemma hex_plain: "hex_digit c \<noteq> None \<Longrightarrow> 0x20 \<le> byte c \<and> c \<noteq> CHR 0x22 \<and> c \<noteq> CHR 0x5C"
  by (auto simp: hex_digit_def Let_def split: if_splits)

lemma escape_rest:
  assumes "escape_len s = Some k" and "scan_string (drop k s) = Some (l, r)"
  shows "\<exists>l'. scan_string (drop 1 s) = Some (l', r)"
  using assms(1)
proof (cases rule: escape_len_cases)
  case (short e t)
  with assms(2) show ?thesis by auto
next
  case (unicode h1 h2 h3 h4 t)
  then have h: "hex_digit h1 \<noteq> None" "hex_digit h2 \<noteq> None" "hex_digit h3 \<noteq> None" "hex_digit h4 \<noteq> None"
    by (auto simp: hex4_def split: option.splits)
  have "scan_string t = Some (l, r)" using assms(2) unicode by simp
  then show ?thesis using unicode(1) h hex_plain by (simp add: scan_string_plain)
qed

lemma plain_rest:
  assumes "scan_string (c # s) = Some (l, r)" and "c \<noteq> CHR 0x22" and "c \<noteq> CHR 0x5C"
  shows "\<exists>l'. scan_string (drop (snd (decode_rune (c # s))) (c # s)) = Some (l', r)"
proof -
  let ?n = "snd (decode_rune (c # s))"
  have one: ?thesis if "?n = 1"
    using assms that by (auto elim: scan_string_step)
  show ?thesis
  proof (cases "0x80 \<le> byte c \<and> rune_ok (decode_rune (c # s))")
    case True
    then have "list_all (\<lambda>c. 0x80 \<le> byte c) (take ?n (c # s))" by (intro decode_rune_high_bytes) auto
    from scan_string_high [OF this, of "drop ?n (c # s)"] assms(1)
    have "map_option (\<lambda>(l, r). (take ?n (c # s) @ l, r)) (scan_string (drop ?n (c # s))) = Some (l, r)"
      by (simp only: append_take_drop_id)
    then show ?thesis by (cases "scan_string (drop ?n (c # s))") auto
  next
    case False
    then have "?n = 1" by (cases "byte c < 0x80") (auto simp: decode_rune_ascii rune_ok_def)
    with one show ?thesis .
  qed
qed

lemma literal_end_scan:
  "scan_string (drop p raw) = Some (l, r) \<Longrightarrow> literal_end raw p = (length raw - length r, True)"
proof (induction raw p arbitrary: l rule: literal_end.induct)
  case (1 raw p)
  have "drop p raw \<noteq> []" using "1.prems" by (auto simp: scan_string.simps)
  then have lt: "\<not> length raw \<le> p" by simp
  then have d: "drop p raw = raw ! p # drop (Suc p) raw" by (simp add: Cons_nth_drop_Suc)
  let ?c = "raw ! p"
  from "1.prems" d have sc: "scan_string (?c # drop (Suc p) raw) = Some (l, r)" by simp
  show ?case
  proof (cases "?c = CHR 0x22 \<or> ?c = CHR 0x5C")
    case True
    from sc show ?thesis
    proof (cases rule: scan_string_step)
      case quote
      with lt show ?thesis by (subst literal_end.simps) simp
    next
      case (escape k l')
      from escape_rest [OF escape(2,3)] obtain l2 where "scan_string (drop (p + 2) raw) = Some (l2, r)" by auto
      from "1.IH"(1) [OF lt refl _ escape(1) this] escape lt show ?thesis by (subst literal_end.simps) simp
    qed (use True in auto)
  next
    case False
    let ?n = "snd (decode_rune (drop p raw))"
    have n: "?n \<noteq> 0" using decode_rune_size [OF \<open>drop p raw \<noteq> []\<close>] by simp
    from plain_rest [OF sc] False obtain l2 where "scan_string (drop ?n (drop p raw)) = Some (l2, r)" unfolding d by auto
    then have "scan_string (drop (p + ?n) raw) = Some (l2, r)" by (simp add: add.commute)
    moreover have "\<not> byte ?c < 0x20" using sc False by (auto elim: scan_string_step)
    ultimately show ?thesis
      using "1.IH"(2) [OF lt refl _ _ _ refl n] False lt n by (subst literal_end.simps) (simp add: Let_def)
  qed
qed

lemma json_document_literal:
  assumes "scan_string (l @ [CHR 0x22]) = Some (l, [])"
  shows "json_document (CHR 0x22 # l @ [CHR 0x22]) = Some (JStr (unquote l))"
proof -
  have "\<not> ws_byte (CHR 0x22)" by (simp add: ws_byte_def)
  with assms show ?thesis
    by (simp add: json_document_def json_read_value_at value_at_eq scalar_at_def)
qed

subsection \<open>Primitives\<close>

definition stop_ok :: "bytes \<Rightarrow> bool" where
  "stop_ok r \<longleftrightarrow> r = [] \<or> primitive_stop (hd r)"

definition nodigit :: "bytes \<Rightarrow> bool" where
  "nodigit t \<longleftrightarrow> t = [] \<or> \<not> is_digit (hd t)"

lemma stop_chars: "primitive_stop c \<Longrightarrow> \<not> is_digit c \<and> c \<noteq> CHR ''.'' \<and> c \<noteq> CHR ''e'' \<and> c \<noteq> CHR ''E''"
  by (auto simp: primitive_stop_def is_digit_def)

lemma stop_nodigit: "stop_ok t \<Longrightarrow> nodigit t"
  using stop_chars by (auto simp: stop_ok_def nodigit_def)

lemma digit_not_stop: "is_digit c \<Longrightarrow> \<not> primitive_stop c"
  using stop_chars by blast

lemma digits1_tail:
  assumes "digits1 s = Some (d, r)"
  shows "d \<noteq> [] \<and> list_all is_digit d \<and> nodigit r \<and> (\<forall>t. nodigit t \<longrightarrow> digits1 (d @ t) = Some (d, t))"
proof -
  from assms have d: "d = takeWhile is_digit s" "d \<noteq> []" "r = dropWhile is_digit s"
    by (auto simp: digits1_def Let_def split: if_splits)
  have all: "\<forall>c \<in> set d. is_digit c" using d(1) by (auto dest: set_takeWhileD)
  have "digits1 (d @ t) = Some (d, t)" if "nodigit t" for t
  proof -
    have "takeWhile is_digit t = [] \<and> dropWhile is_digit t = t" using that by (cases t) (auto simp: nodigit_def)
    with all d(2) show ?thesis by (simp add: digits1_def Let_def takeWhile_append2 dropWhile_append2)
  qed
  moreover have "nodigit r" using d(3) hd_dropWhile [of is_digit s] by (auto simp: nodigit_def)
  ultimately show ?thesis using all d(2) by (simp add: list_all_iff)
qed

definition plain_chars :: "bytes \<Rightarrow> bool" where
  "plain_chars l \<longleftrightarrow> list_all (\<lambda>c. \<not> primitive_stop c) l"

lemma plain_digits: "list_all is_digit d \<Longrightarrow> plain_chars d"
  using digit_not_stop by (auto simp: plain_chars_def list_all_iff)

lemma plain_chars_simps [simp]: "plain_chars []" "plain_chars (c # l) \<longleftrightarrow> \<not> primitive_stop c \<and> plain_chars l"
  "plain_chars (a @ b) \<longleftrightarrow> plain_chars a \<and> plain_chars b"
  by (auto simp: plain_chars_def)

lemma number_marks [simp]:
  "\<not> primitive_stop (CHR ''-'')" "\<not> primitive_stop (CHR ''.'')" "\<not> primitive_stop (CHR ''e'')" "\<not> primitive_stop (CHR ''E'')"
  "\<not> primitive_stop (CHR ''+'')" "\<not> is_digit (CHR ''-'')" "\<not> is_digit (CHR ''.'')" "\<not> is_digit (CHR ''e'')" "\<not> is_digit (CHR ''E'')"
  "is_digit (CHR ''0'')"
  by (simp_all add: primitive_stop_def is_digit_def)

lemma scan_int_tail:
  assumes "scan_int s = Some (i, r)"
  shows "i \<noteq> [] \<and> is_digit (hd i) \<and> plain_chars i \<and> (\<forall>t. nodigit t \<longrightarrow> scan_int (i @ t) = Some (i, t))"
proof (cases "s \<noteq> [] \<and> hd s = CHR ''0''")
  case True
  with assms have "i = [CHR ''0'']" by (cases s) (auto simp: scan_int_def)
  then show ?thesis using digit_not_stop by (simp add: scan_int_def)
next
  case False
  with assms have d: "digits1 s = Some (i, r)" by (cases s) (auto simp: scan_int_def)
  note t = digits1_tail [OF d]
  obtain c u where i: "i = c # u" using t by (cases i) auto
  have "c \<noteq> CHR ''0''" using False i digits1_append [OF d] by auto
  with t i show ?thesis by (auto simp: scan_int_def plain_digits digit_not_stop)
qed

lemma scan_frac_tail:
  assumes "scan_frac s = Some (f, r)"
  shows "plain_chars f \<and> (f = [] \<or> hd f = CHR ''.'')
    \<and> (\<forall>t. nodigit t \<longrightarrow> (t = [] \<or> hd t \<noteq> CHR ''.'') \<longrightarrow> scan_frac (f @ t) = Some (f, t))"
proof (cases "s \<noteq> [] \<and> hd s = CHR ''.''")
  case True
  then obtain u where u: "s = CHR ''.'' # u" by (cases s) auto
  with assms obtain d where d: "digits1 u = Some (d, r)" "f = CHR ''.'' # d" by (auto simp: scan_frac_def)
  from digits1_tail [OF d(1)] d(2) show ?thesis by (auto simp: scan_frac_def plain_digits)
next
  case False
  with assms have "f = []" by (cases s) (auto simp: scan_frac_def)
  then show ?thesis by (auto simp: scan_frac_def split: list.split)
qed

lemma scan_exp_tail:
  assumes "scan_exp s = Some (e, r)"
  shows "plain_chars e \<and> (e = [] \<or> hd e = CHR ''e'' \<or> hd e = CHR ''E'')
    \<and> (\<forall>t. nodigit t \<longrightarrow> (t = [] \<or> hd t \<noteq> CHR ''e'' \<and> hd t \<noteq> CHR ''E'') \<longrightarrow> scan_exp (e @ t) = Some (e, t))"
proof (cases "s \<noteq> [] \<and> (hd s = CHR ''e'' \<or> hd s = CHR ''E'')")
  case True
  then obtain c u where u: "s = c # u" "c = CHR ''e'' \<or> c = CHR ''E''" by (cases s) auto
  with assms obtain g v where v: "u = g # v" by (cases u) (auto simp: scan_exp_def)
  show ?thesis
  proof (cases "g = CHR ''+'' \<or> g = CHR ''-''")
    case sg: True
    with assms u v obtain d where d: "digits1 v = Some (d, r)" "e = c # g # d" by (auto simp: scan_exp_def)
    from digits1_tail [OF d(1)] d(2) u(2) sg show ?thesis by (auto simp: scan_exp_def plain_digits)
  next
    case False
    with assms u v obtain d where d: "digits1 u = Some (d, r)" "e = c # d" by (auto simp: scan_exp_def)
    note t = digits1_tail [OF d(1)]
    obtain x w where x: "d = x # w" using t by (cases d) auto
    have "x = g" using digits1_append [OF d(1)] v x by simp
    with t x d(2) u(2) False show ?thesis by (auto simp: scan_exp_def plain_digits digit_not_stop)
  qed
next
  case False
  with assms have "e = []" by (cases s) (auto simp: scan_exp_def)
  then show ?thesis by (auto simp: scan_exp_def split: list.split)
qed

lemma scan_number_tail:
  assumes "scan_number s = Some (l, r)"
  shows "plain_chars l \<and> (hd l = CHR ''-'' \<or> is_digit (hd l)) \<and> (\<forall>t. stop_ok t \<longrightarrow> scan_number (l @ t) = Some (l, t))"
proof -
  define sg where "sg = (if s \<noteq> [] \<and> hd s = CHR ''-'' then [CHR ''-''] else [])"
  define u where "u = (if s \<noteq> [] \<and> hd s = CHR ''-'' then tl s else s)"
  have num: "scan_number s = (case scan_int u of None \<Rightarrow> None
      | Some (i, t1) \<Rightarrow> (case scan_frac t1 of None \<Rightarrow> None
        | Some (f, t2) \<Rightarrow> (case scan_exp t2 of None \<Rightarrow> None
          | Some (e, t3) \<Rightarrow> Some (sg @ i @ f @ e, t3))))"
    by (cases s) (simp_all add: scan_number_def sg_def u_def split: option.split)
  from assms num obtain i t1 f t2 e where st: "scan_int u = Some (i, t1)" "scan_frac t1 = Some (f, t2)" "scan_exp t2 = Some (e, r)"
    and l: "l = sg @ i @ f @ e" by (auto split: option.splits)
  note a = scan_int_tail [OF st(1)] and b = scan_frac_tail [OF st(2)] and c = scan_exp_tail [OF st(3)]
  obtain i0 i1 where i: "i = i0 # i1" "is_digit i0" using a by (cases i) auto
  have "scan_number (l @ t) = Some (l, t)" if t: "stop_ok t" for t
  proof -
    have ts: "nodigit t" "t = [] \<or> hd t \<noteq> CHR ''.'' \<and> hd t \<noteq> CHR ''e'' \<and> hd t \<noteq> CHR ''E''"
      using stop_nodigit [OF t] t stop_chars [of "hd t"] unfolding stop_ok_def by blast+
    have et: "scan_exp (e @ t) = Some (e, t)" using c ts by blast
    have en: "nodigit (e @ t) \<and> (e @ t = [] \<or> hd (e @ t) \<noteq> CHR ''.'')"
    proof (cases e)
      case Nil
      with ts show ?thesis by auto
    next
      case (Cons x y)
      with c have "x = CHR ''e'' \<or> x = CHR ''E''" by simp
      with Cons show ?thesis by (auto simp: nodigit_def)
    qed
    then have ft: "scan_frac (f @ e @ t) = Some (f, e @ t)" using b by blast
    have fn: "nodigit (f @ e @ t)" using b en by (cases f) (auto simp: nodigit_def)
    have it: "scan_int (i @ f @ e @ t) = Some (i, f @ e @ t)" using a fn by blast
    have ne: "i0 \<noteq> CHR ''-''" using i(2) by auto
    show ?thesis unfolding l using it ft et i ne by (simp add: scan_number_def sg_def)
  qed
  moreover have "plain_chars l" using l a b c by (simp add: sg_def)
  moreover have "hd l = CHR ''-'' \<or> is_digit (hd l)" using l i by (simp add: sg_def)
  ultimately show ?thesis by blast
qed

text \<open>A literal that is not a string ends where the walker stops, and reads the same before any stop.\<close>

lemma literal_at_tail:
  assumes "literal_at s = Some (v, r)"
  shows "\<exists>l. s = l @ r \<and> l \<noteq> [] \<and> plain_chars l \<and> (\<forall>t. stop_ok t \<longrightarrow> literal_at (l @ t) = Some (v, t))
    \<and> (v = JNull \<or> (\<exists>b. v = JBool b) \<or> (\<exists>n. v = JNum n)) \<and> hd l \<noteq> CHR ''['' \<and> hd l \<noteq> CHR ''{'' \<and> hd l \<noteq> CHR 0x22 \<and> \<not> ws_byte (hd l)"
proof -
  consider "HasPrefix s ''null''" | "\<not> HasPrefix s ''null''" "HasPrefix s ''true''"
    | "\<not> HasPrefix s ''null''" "\<not> HasPrefix s ''true''" "HasPrefix s ''false''"
    | "\<not> HasPrefix s ''null''" "\<not> HasPrefix s ''true''" "\<not> HasPrefix s ''false''" by blast
  then show ?thesis
  proof cases
    case 1
    then have "s = ''null'' @ r \<and> v = JNull" using assms HasPrefixD [OF 1] by (auto simp: literal_at_def numeral_eq_Suc)
    then show ?thesis
      by (intro exI [of _ "''null''"]) (auto simp: literal_at_def HasPrefix_def primitive_stop_def ws_byte_def)
  next
    case 2
    then have "s = ''true'' @ r \<and> v = JBool True" using assms HasPrefixD [OF 2(2)] by (auto simp: literal_at_def numeral_eq_Suc)
    then show ?thesis
      by (intro exI [of _ "''true''"]) (auto simp: literal_at_def HasPrefix_def primitive_stop_def ws_byte_def)
  next
    case 3
    then have "s = ''false'' @ r \<and> v = JBool False" using assms HasPrefixD [OF 3(3)] by (auto simp: literal_at_def numeral_eq_Suc)
    then show ?thesis
      by (intro exI [of _ "''false''"]) (auto simp: literal_at_def HasPrefix_def primitive_stop_def ws_byte_def)
  next
    case 4
    with assms obtain l where l: "scan_number s = Some (l, r)" "v = JNum l" by (auto simp: literal_at_def)
    note t = scan_number_tail [OF l(1)] and a = scan_number_append [OF l(1)]
    obtain c u where cu: "l = c # u" using a by (cases l) auto
    with t have c: "c = CHR ''-'' \<or> is_digit c" by simp
    note nc = not_ws_number [OF c]
    have "literal_at (l @ t) = Some (v, t)" if "stop_ok t" for t
      using t that cu nc l(2) by (auto simp: literal_at_def HasPrefix_def)
    with t a cu nc l(2) show ?thesis by auto
  qed
qed

subsection \<open>Edited stretches\<close>

fun emit :: "bytes \<Rightarrow> nat \<Rightarrow> (nat \<times> nat \<times> bytes) list \<Rightarrow> nat \<Rightarrow> bytes" where
  "emit raw p [] q = go_slice raw p q"
| "emit raw p ((a, b, v) # rs) q = go_slice raw p a @ v @ emit raw b rs q"

fun inside :: "nat \<Rightarrow> (nat \<times> nat \<times> bytes) list \<Rightarrow> nat \<Rightarrow> bool" where
  "inside p [] q = (p \<le> q)"
| "inside p ((a, b, v) # rs) q = (p \<le> a \<and> a \<le> b \<and> inside b rs q)"

lemma inside_le: "inside p rs q \<Longrightarrow> p \<le> q"
  by (induction p rs q rule: inside.induct) auto

lemma inside_mono: "p \<le> k \<Longrightarrow> inside k rs q \<Longrightarrow> inside p rs q"
  by (cases rs) auto

lemma emit_prefix: "p \<le> k \<Longrightarrow> inside k rs q \<Longrightarrow> emit raw p rs q = go_slice raw p k @ emit raw k rs q"
proof (cases rs)
  case (Cons x rs')
  moreover assume "p \<le> k" "inside k rs q"
  ultimately show ?thesis
    using slice_append_slice [of p k "fst x" raw] by (cases x) simp
qed (simp add: slice_append_slice)

lemma emit_append:
  "inside p rs k \<Longrightarrow> inside k qs q \<Longrightarrow> inside p (rs @ qs) q \<and> emit raw p (rs @ qs) q = emit raw p rs k @ emit raw k qs q"
proof (induction p rs k rule: inside.induct)
  case (1 p k)
  then show ?case by (simp add: inside_mono emit_prefix)
qed simp

lemma write_emit: "inside p rs q \<Longrightarrow> q \<le> length raw \<Longrightarrow> write_replacements raw p rs = emit raw p rs q @ drop q raw"
proof (induction p rs q rule: inside.induct)
  case (1 p q)
  then show ?case by (simp add: slice_append_drop)
qed simp

definition wtext :: "jsonWalker \<Rightarrow> bytes" where
  "wtext w = drop (w_position w) (w_raw w)"

definition wtaken :: "jsonWalker \<Rightarrow> jsonWalker \<Rightarrow> bytes" where
  "wtaken w w' = go_slice (w_raw w) (w_position w) (w_position w')"

definition spaces :: "bytes \<Rightarrow> bool" where
  "spaces a \<longleftrightarrow> list_all ws_byte a"

definition placed :: "jsonWalker \<Rightarrow> bool" where
  "placed w \<longleftrightarrow> w_position w \<le> length (w_raw w)"

lemma skip_ws_spaces: "spaces a \<Longrightarrow> skip_ws (a @ x) = skip_ws x"
  by (simp add: spaces_def skip_ws_def list_all_iff dropWhile_append2)

lemma skip_walker:
  assumes "placed w"
  shows "wtext (skipSpace w) = skip_ws (wtext w)" "spaces (wtaken w (skipSpace w))" "placed (skipSpace w)"
    "w_position w \<le> w_position (skipSpace w)"
proof -
  let ?n = "length (takeWhile ws_byte (wtext w))"
  have n: "w_position (skipSpace w) = w_position w + ?n" by (simp add: skipSpace_def wtext_def)
  have le: "?n \<le> length (wtext w)" by (rule length_takeWhile_le)
  show "wtext (skipSpace w) = skip_ws (wtext w)"
    using n by (simp add: wtext_def skip_ws_def dropWhile_eq_drop add.commute)
  show "spaces (wtaken w (skipSpace w))"
    by (simp add: wtaken_def n go_slice_def spaces_def wtext_def [symmetric] takeWhile_eq_take [symmetric] list_all_iff)
      (meson set_takeWhileD)
  show "placed (skipSpace w)" using assms le n by (simp add: placed_def wtext_def)
  show "w_position w \<le> w_position (skipSpace w)" by (rule skipSpace_pos)
qed

lemma w_at_text: "placed w \<Longrightarrow> w_at w c \<longleftrightarrow> starts_with c (wtext w)"
  by (auto simp: w_at_def starts_with_def wtext_def placed_def hd_drop_conv_nth)

lemma advance_walker:
  assumes "w_at w c"
  shows "wtext (advance w) = tl (wtext w)" "wtaken w (advance w) = [c]" "placed (advance w)" "w_position w \<le> w_position (advance w)"
proof -
  have "drop (w_position w) (w_raw w) = c # drop (Suc (w_position w)) (w_raw w)"
    using assms by (metis w_at_def Cons_nth_drop_Suc)
  then show "wtext (advance w) = tl (wtext w)" "wtaken w (advance w) = [c]"
    by (simp_all add: wtext_def wtaken_def go_slice_def)
  show "placed (advance w)" using assms by (simp add: w_at_def placed_def)
qed simp

lemma wtaken_trans: "w_position w \<le> w_position w1 \<Longrightarrow> w_position w1 \<le> w_position w2 \<Longrightarrow> w_raw w1 = w_raw w \<Longrightarrow>
    wtaken w w2 = wtaken w w1 @ wtaken w1 w2"
  by (simp add: wtaken_def slice_append_slice)

text \<open>Texts of containers.\<close>

lemma starts_with_simps [simp]: "starts_with c (d # s) \<longleftrightarrow> c = d" "\<not> starts_with c []"
  by (auto simp: starts_with_def)

lemma brackets_not_ws [simp]:
  "\<not> ws_byte (CHR ''{'')" "\<not> ws_byte (CHR ''}'')" "\<not> ws_byte (CHR ''['')" "\<not> ws_byte (CHR '']'')" "\<not> ws_byte (CHR 0x22)"
  "\<not> ws_byte (CHR '','')" "\<not> ws_byte (CHR '':'')"
  by (simp_all add: ws_byte_def)

lemma value_at_spaces: "spaces a \<Longrightarrow> value_at d (a @ x) = value_at d x"
  by (metis value_at_skip skip_ws_spaces)

lemma object_text:
  assumes "spaces a" and "spaces b" and "members_at (d - 1) y = Some (ms, r)" and "d \<noteq> 0"
  shows "value_at d (a @ CHR ''{'' # b @ y) = Some (JObj ms, r)"
proof -
  have q: "starts_with (CHR 0x22) (skip_ws y)" using assms(3) members_at_punct by fastforce
  then have "\<not> starts_with (CHR ''}'') (skip_ws y)" by (auto simp: starts_with_def)
  with assms show ?thesis
    by (subst value_at_eq) (simp add: skip_ws_spaces members_at_skip)
qed

lemma object_text_empty: "spaces a \<Longrightarrow> spaces b \<Longrightarrow> d \<noteq> 0 \<Longrightarrow> value_at d (a @ CHR ''{'' # b @ CHR ''}'' # r) = Some (JObj [], r)"
  by (subst value_at_eq) (simp add: skip_ws_spaces)

lemma elems_at_skip: "elems_at d (skip_ws s) = elems_at d s"
  by (subst (1 2) elems_at_eq) (simp add: value_at_skip)

lemma array_text:
  assumes "spaces a" and "spaces b" and "elems_at (d - 1) y = Some (vs, r)" and "d \<noteq> 0"
  shows "value_at d (a @ CHR ''['' # b @ y) = Some (JArr vs, r)"
proof -
  have "value_at (d - 1) y \<noteq> None" using assms(3) by (subst (asm) elems_at_eq) (auto split: option.splits)
  then have "\<not> starts_with (CHR '']'') (skip_ws y)"
    using scalar_at_punct [of "skip_ws y"] by (subst (asm) value_at_eq) (auto simp: starts_with_def Let_def split: if_splits)
  with assms show ?thesis by (subst value_at_eq) (simp add: skip_ws_spaces elems_at_skip)
qed

lemma array_text_empty: "spaces a \<Longrightarrow> spaces b \<Longrightarrow> d \<noteq> 0 \<Longrightarrow> value_at d (a @ CHR ''['' # b @ CHR '']'' # r) = Some (JArr [], r)"
  by (subst value_at_eq) (simp add: skip_ws_spaces)

lemma members_text:
  assumes "spaces a" and "spaces b" and "spaces c" and "scan_string (l @ [CHR 0x22]) = Some (l, [])"
    and "value_at d (x @ c @ e # y) = Some (v, c @ e # y)"
    and "e = CHR ''}'' \<and> ms = [] \<and> r = y \<or> e = CHR '','' \<and> members_at d y = Some (ms, r)"
  shows "members_at d (a @ CHR 0x22 # l @ CHR 0x22 # b @ CHR '':'' # x @ c @ e # y) = Some ((unquote l, v) # ms, r)"
proof -
  have "scan_string (l @ CHR 0x22 # t) = Some (l, t)" for t using scan_string_tail [OF assms(4)] .
  then show ?thesis using assms by (subst members_at_eq) (auto simp: skip_ws_spaces)
qed

lemma elems_text:
  assumes "spaces c" and "value_at d (x @ c @ e # y) = Some (v, c @ e # y)"
    and "e = CHR '']'' \<and> vs = [] \<and> r = y \<or> e = CHR '','' \<and> elems_at d y = Some (vs, r)"
  shows "elems_at d (x @ c @ e # y) = Some (v # vs, r)"
  using assms by (subst elems_at_eq) (auto simp: skip_ws_spaces)

subsection \<open>The walker follows the grammar\<close>

definition edited :: "jsonWalker \<Rightarrow> jsonWalker \<Rightarrow> (nat \<times> nat \<times> bytes) list \<Rightarrow> bool" where
  "edited w w' rs \<longleftrightarrow> w_raw w' = w_raw w \<and> w_ctx w' = None \<and> w_replacements w' = w_replacements w @ rs
     \<and> inside (w_position w) rs (w_position w') \<and> placed w'"

definition edit_text :: "jsonWalker \<Rightarrow> jsonWalker \<Rightarrow> (nat \<times> nat \<times> bytes) list \<Rightarrow> bytes" where
  "edit_text w w' rs = emit (w_raw w) (w_position w) rs (w_position w')"

text \<open>A walker that has only moved on.\<close>

definition moved :: "jsonWalker \<Rightarrow> jsonWalker \<Rightarrow> bool" where
  "moved w w' \<longleftrightarrow> w_raw w' = w_raw w \<and> w_ctx w' = w_ctx w \<and> w_replacements w' = w_replacements w \<and> w_position w \<le> w_position w' \<and> placed w'"

lemma moved_refl: "placed w \<Longrightarrow> moved w w"
  by (simp add: moved_def)

lemma moved_trans: "moved w w1 \<Longrightarrow> moved w1 w2 \<Longrightarrow> moved w w2"
  by (auto simp: moved_def)

lemma moved_skip: "placed w \<Longrightarrow> moved w (skipSpace w)"
  using skip_walker [of w] by (simp add: moved_def skipSpace_def)

lemma moved_advance: "w_at w c \<Longrightarrow> moved w (advance w)"
  using advance_walker [of w c] by (simp add: moved_def advance_def)

lemma moved_edited: "moved w w1 \<Longrightarrow> edited w1 w2 rs \<Longrightarrow> edited w w2 rs \<and> edit_text w w2 rs = wtaken w w1 @ edit_text w1 w2 rs"
  by (auto simp: moved_def edited_def edit_text_def wtaken_def intro: inside_mono emit_prefix)

lemma edited_moved:
  assumes "edited w w1 rs" and "moved w1 w2"
  shows "edited w w2 rs \<and> edit_text w w2 rs = edit_text w w1 rs @ wtaken w1 w2"
proof -
  have "inside (w_position w1) [] (w_position w2)" using assms by (simp add: moved_def)
  from emit_append [OF _ this, of "w_position w" rs "w_raw w"] assms show ?thesis
    by (auto simp: moved_def edited_def edit_text_def wtaken_def)
qed

lemma edited_edited:
  assumes "edited w w1 rs" and "edited w1 w2 qs"
  shows "edited w w2 (rs @ qs) \<and> edit_text w w2 (rs @ qs) = edit_text w w1 rs @ edit_text w1 w2 qs"
  using emit_append [of "w_position w" rs "w_position w1" qs "w_position w2" "w_raw w"] assms
  by (auto simp: edited_def edit_text_def)

lemma edited_refl: "moved w w' \<Longrightarrow> w_ctx w = None \<Longrightarrow> edited w w' [] \<and> edit_text w w' [] = wtaken w w'"
  by (simp add: moved_def edited_def edit_text_def wtaken_def)

lemma literal_sim:
  assumes "parseStringLiteral w = (Some (a, b, s), w1)" and "w_at w (CHR 0x22)" and "placed w"
    and "scan_string (tl (wtext w)) = Some (l, r)"
  shows "moved w w1 \<and> w_nodes w1 = w_nodes w \<and> wtext w1 = r \<and> s = unquote l \<and> a = w_position w \<and> b = w_position w1
    \<and> wtaken w w1 = CHR 0x22 # l @ [CHR 0x22] \<and> scan_string (l @ [CHR 0x22]) = Some (l, [])"
proof -
  let ?raw = "w_raw w" and ?p = "w_position w"
  have d: "drop ?p ?raw = CHR 0x22 # drop (Suc ?p) ?raw" using assms(2) by (metis w_at_def Cons_nth_drop_Suc)
  then have tl: "tl (wtext w) = drop (Suc ?p) ?raw" by (simp add: wtext_def)
  define stop where "stop = length ?raw - length r"
  have le: "literal_end ?raw (?p + 1) = (stop, True)"
    using literal_end_scan [of "Suc ?p" ?raw l r] assms(4) tl by (simp add: stop_def)
  have app: "drop (Suc ?p) ?raw = l @ CHR 0x22 # r" using scan_string_append [OF assms(4)] tl by simp
  from arg_cong [OF this, of length] have len: "length ?raw - Suc ?p = length l + Suc (length r)" by simp
  have pl: "?p < length ?raw" using assms(2) by (simp add: w_at_def)
  have stop: "stop = ?p + (length l + 2)" using len pl by (simp add: stop_def)
  have lit: "go_slice ?raw ?p stop = CHR 0x22 # l @ [CHR 0x22]" unfolding go_slice_def d stop app by simp
  have "drop (Suc (length l)) (drop (Suc ?p) ?raw) = r" unfolding app by simp
  then have dr: "drop stop ?raw = r" by (simp add: stop add.commute)
  have ss: "scan_string (l @ [CHR 0x22]) = Some (l, [])" using scan_string_tail [OF assms(4), of "[]"] by simp
  have w1: "w1 = w\<lparr>w_position := stop\<rparr>" "a = ?p" "b = stop" "s = unquote l"
    using assms(1) le lit json_document_literal [OF ss]
    by (auto simp: parseStringLiteral_def Let_def split: if_splits)
  have "stop \<le> length ?raw" by (simp add: stop_def)
  moreover have "?p \<le> stop" by (simp add: stop)
  ultimately show ?thesis using w1 lit dr ss by (simp add: moved_def wtext_def wtaken_def placed_def)
qed

lemma string_value_at:
  assumes "scan_string (l @ [CHR 0x22]) = Some (l, [])"
  shows "value_at d (CHR 0x22 # l @ CHR 0x22 # tail') = Some (JStr (unquote l), tail')"
  using scan_string_tail [OF assms, of tail'] by (subst value_at_eq) (simp add: scalar_at_def)

lemma string_value_sim:
  assumes "parse_string_value p w = (scanUnchanged, w')" and "w_ctx w = None" and "w_at w (CHR 0x22)" and "placed w"
    and "scan_string (tl (wtext w)) = Some (l, r)" and "policy_ok p"
  shows "\<exists>rs. edited w w' rs \<and> wtext w' = r \<and> w_nodes w' = w_nodes w
    \<and> (\<forall>tail'. value_at d (edit_text w w' rs @ tail') = Some (redact_tree p (JStr (unquote l)), tail'))"
proof -
  obtain o1 w1 where o1: "parseStringLiteral w = (o1, w1)" by (metis surj_pair)
  with assms(1) obtain a b s where abs: "o1 = Some (a, b, s)" by (cases o1) (auto simp: parse_string_value_def)
  note lit = literal_sim [OF o1 [unfolded abs] assms(3-5)]
  obtain out st c where sc: "scanScalar p None s = ((out, st), c)" by (metis surj_pair)
  have c: "st \<noteq> scanCanceled" "c = None" using scanScalar_None [OF sc] by auto
  have cw: "w_ctx w1 = None" using lit assms(2) by (simp add: moved_def)
  then have ws: "w_scan p s w1 = ((out, st), w1)" using sc c by (simp add: w_scan_def)
  have red: "redact_tree p (JStr (unquote l)) = JStr out" using lit sc by simp
  have plain: "\<exists>rs. edited w w' rs \<and> wtext w' = r \<and> w_nodes w' = w_nodes w
      \<and> (\<forall>tail'. value_at d (edit_text w w' rs @ tail') = Some (JStr out, tail'))" if "w' = w1" "out = s"
    using that lit edited_refl [of w w1] assms(2) string_value_at [of l d] by (intro exI [of _ "[]"]) simp
  have repl: "\<exists>rs. edited w w' rs \<and> wtext w' = r \<and> w_nodes w' = w_nodes w
      \<and> (\<forall>tail'. value_at d (edit_text w w' rs @ tail') = Some (JStr out, tail'))"
    if "w' = replace_at a b (marshal_string out) w1" "utf8_valid out"
    using that lit cw value_at_string [OF that(2), of d]
    by (intro exI [of _ "[(a, b, marshal_string out)]"])
      (auto simp: edited_def edit_text_def replace_at_def moved_def placed_def wtext_def go_slice_def)
  from assms(6) sc have "w' = w1 \<and> out = s \<or> w' = replace_at a b (marshal_string out) w1 \<and> utf8_valid out"
  proof (cases rule: scanScalar_cases)
    case canceled
    with c show ?thesis by simp
  next
    case unsafe
    have "structuredPlaceholder = marshal_string Placeholder" "utf8_valid Placeholder"
      by (simp_all add: structuredPlaceholder_def marshal_string_def Placeholder_def escape_body.simps escape_step_def
          escape_ascii_def html_safe_def utf8_eval)
    with unsafe assms(1) o1 abs ws show ?thesis by (auto simp: parse_string_value_def)
  next
    case unchanged
    with assms(1) o1 abs ws show ?thesis by (auto simp: parse_string_value_def)
  next
    case changed
    note m = merged_spans [OF assms(6), of s]
    have "utf8_valid out" using changed m write_spans_valid [of s "mergeRanges (total_spans p s)" 0] by (simp add: rune_boundary_0)
    with changed assms(1) o1 abs ws show ?thesis by (auto simp: parse_string_value_def)
  qed
  with plain repl red show ?thesis by auto
qed

lemma primitive_sim:
  assumes "parsePrimitive w = (st, w')" and "w_ctx w = None" and "placed w"
    and "literal_at (wtext w) = Some (t, r)" and "stop_ok r"
  shows "edited w w' [] \<and> wtext w' = r \<and> w_nodes w' = w_nodes w
    \<and> (\<forall>tail'. stop_ok tail' \<longrightarrow> value_at d (edit_text w w' [] @ tail') = Some (redact_tree p t, tail'))
    \<and> node_count t = 1 \<and> keys_clean p t \<and> (within_depth k t \<longleftrightarrow> 1 \<le> k)"
proof -
  from literal_at_tail [OF assms(4)] obtain l where l: "wtext w = l @ r" "l \<noteq> []" "plain_chars l"
    "\<And>t'. stop_ok t' \<Longrightarrow> literal_at (l @ t') = Some (t, t')" "t = JNull \<or> (\<exists>b. t = JBool b) \<or> (\<exists>n. t = JNum n)"
    "hd l \<noteq> CHR ''[''" "hd l \<noteq> CHR ''{''" "hd l \<noteq> CHR 0x22" "\<not> ws_byte (hd l)" by auto
  have tw: "takeWhile (\<lambda>c. \<not> primitive_stop c) (l @ r) = l"
  proof -
    have "takeWhile (\<lambda>c. \<not> primitive_stop c) r = []" using assms(5) by (cases r) (auto simp: stop_ok_def)
    with l(3) show ?thesis by (simp add: plain_chars_def list_all_iff takeWhile_append2)
  qed
  have w': "w' = w\<lparr>w_position := w_position w + length l\<rparr>" using assms(1) l(1) tw by (auto simp: parsePrimitive_def wtext_def)
  have "length l \<le> length (w_raw w) - w_position w" using arg_cong [OF l(1), of length] by (simp add: wtext_def)
  then have m: "moved w w'" using assms(3) w' by (simp add: moved_def placed_def)
  have wt: "wtext w' = r" "wtaken w w' = l"
    using l(1) w' by (simp_all add: wtext_def wtaken_def go_slice_def drop_drop [symmetric] add.commute del: drop_drop)
  have "value_at d (l @ tail') = Some (t, tail')" if "stop_ok tail'" for tail'
  proof -
    obtain c u where cu: "l = c # u" using l(2) by (cases l) auto
    have la: "literal_at (c # u @ tail') = Some (t, tail')" using l(4) [OF that] cu by simp
    show ?thesis unfolding cu append_Cons using la l(6-9) cu by (subst value_at_eq) (simp add: scalar_at_def)
  qed
  moreover have "redact_tree p t = t" "node_count t = 1" "keys_clean p t" "within_depth k t \<longleftrightarrow> 1 \<le> k" using l(5) by auto
  ultimately show ?thesis using edited_refl [OF m assms(2)] wt w' by simp
qed

definition follows :: "compiledPolicy \<Rightarrow> jsonWalker \<Rightarrow> jsonWalker \<Rightarrow> (nat \<times> nat \<times> bytes) list \<Rightarrow> bytes \<Rightarrow> nat \<Rightarrow> bool" where
  "follows p w w' rs r k \<longleftrightarrow> edited w w' rs \<and> wtext w' = r \<and> w_nodes w' = w_nodes w + int k
     \<and> w_nodes w' \<le> MaxStructuredNodes (pol_limits p)"

definition value_sim :: "nat \<Rightarrow> compiledPolicy \<Rightarrow> bool" where
  "value_sim n p \<longleftrightarrow> (\<forall>dep w w' d t r. parseValue n p dep w = Some (scanUnchanged, w') \<longrightarrow> w_ctx w = None \<longrightarrow> placed w
     \<longrightarrow> value_at d (wtext w) = Some (t, r) \<longrightarrow> stop_ok r
     \<longrightarrow> keys_clean p t \<and> within_depth (MaxStructuredDepth (pol_limits p) - dep + 1) t
       \<and> (\<exists>rs. follows p w w' rs r (node_count t)
           \<and> (\<forall>q. stop_ok q \<longrightarrow> value_at d (edit_text w w' rs @ q) = Some (redact_tree p t, q))))"

definition members_sim :: "nat \<Rightarrow> compiledPolicy \<Rightarrow> bool" where
  "members_sim n p \<longleftrightarrow> (\<forall>dep w w' d ms r. object_loop n p dep w = Some (scanUnchanged, w') \<longrightarrow> w_ctx w = None \<longrightarrow> placed w
     \<longrightarrow> members_at d (wtext w) = Some (ms, r)
     \<longrightarrow> keys_clean p (JObj ms) \<and> (\<forall>m \<in> set ms. within_depth (MaxStructuredDepth (pol_limits p) - dep) (snd m))
       \<and> (\<exists>rs. follows p w w' rs r (sum_list (map (\<lambda>m. Suc (node_count (snd m))) ms))
           \<and> (\<forall>q. members_at d (edit_text w w' rs @ q) = Some (map (\<lambda>m. (fst m, redact_tree p (snd m))) ms, q))))"

definition elems_sim :: "nat \<Rightarrow> compiledPolicy \<Rightarrow> bool" where
  "elems_sim n p \<longleftrightarrow> (\<forall>dep w w' d vs r. array_loop n p dep w = Some (scanUnchanged, w') \<longrightarrow> w_ctx w = None \<longrightarrow> placed w
     \<longrightarrow> elems_at d (wtext w) = Some (vs, r)
     \<longrightarrow> keys_clean p (JArr vs) \<and> (\<forall>v \<in> set vs. within_depth (MaxStructuredDepth (pol_limits p) - dep) v)
       \<and> (\<exists>rs. follows p w w' rs r (sum_list (map node_count vs))
           \<and> (\<forall>q. elems_at d (edit_text w w' rs @ q) = Some (map (redact_tree p) vs, q))))"

lemma stop_ok_skip: "skip_ws r = [] \<or> starts_with (CHR '']'') (skip_ws r) \<or> starts_with (CHR ''}'') (skip_ws r)
    \<or> starts_with (CHR '','') (skip_ws r) \<Longrightarrow> stop_ok r"
proof (cases r)
  case (Cons c u)
  have ws: "ws_byte c \<Longrightarrow> primitive_stop c" by (auto simp: ws_byte_def primitive_stop_def)
  assume "skip_ws r = [] \<or> starts_with (CHR '']'') (skip_ws r) \<or> starts_with (CHR ''}'') (skip_ws r)
    \<or> starts_with (CHR '','') (skip_ws r)"
  then show ?thesis using Cons ws by (cases "ws_byte c") (auto simp: stop_ok_def skip_ws_def primitive_stop_def)
qed (simp add: stop_ok_def)

lemma stop_ok_text: "spaces c \<Longrightarrow> e = CHR ''}'' \<or> e = CHR '']'' \<or> e = CHR '','' \<Longrightarrow> stop_ok (c @ e # y)"
proof (rule stop_ok_skip)
  assume "spaces c" and e: "e = CHR ''}'' \<or> e = CHR '']'' \<or> e = CHR '',''"
  then have "skip_ws (c @ e # y) = skip_ws (e # y)" by (simp add: skip_ws_spaces)
  also have "\<dots> = e # y" using e by auto
  finally show "skip_ws (c @ e # y) = [] \<or> starts_with (CHR '']'') (skip_ws (c @ e # y)) \<or> starts_with (CHR ''}'') (skip_ws (c @ e # y))
    \<or> starts_with (CHR '','') (skip_ws (c @ e # y))" using e by auto
qed

lemma poll_None: "w_ctx w = None \<Longrightarrow> poll w = (False, w)"
  by (simp add: poll_def)

lemma consumed:
  assumes "consumeNode p w = (True, w1)" and "placed w"
  shows "moved w w1 \<and> wtaken w w1 = [] \<and> wtext w1 = wtext w \<and> w_nodes w1 = w_nodes w + 1 \<and> placed w1
    \<and> w_nodes w1 \<le> MaxStructuredNodes (pol_limits p)"
  using assms by (auto simp: consumeNode_def Let_def moved_def wtaken_def go_slice_def wtext_def placed_def)

lemma skip_nodes [simp]: "w_nodes (skipSpace w) = w_nodes w" "w_ctx (skipSpace w) = w_ctx w" "w_raw (skipSpace w) = w_raw w"
  "w_nodes (advance w) = w_nodes w" "w_ctx (advance w) = w_ctx w"
  by (simp_all add: skipSpace_def advance_def)

text \<open>Past an opening bracket and the space around it.\<close>

lemma opened:
  assumes "consumeNode p w = (True, w1)" and "placed w" and "w_at (skipSpace w1) c"
    and "x = skipSpace (advance (skipSpace w1))" and "w_ctx w = None"
  shows "moved w x \<and> wtext x = skip_ws (tl (skip_ws (wtext w))) \<and> w_nodes x = w_nodes w + 1 \<and> placed x \<and> w_ctx x = None
    \<and> w_nodes x \<le> MaxStructuredNodes (pol_limits p) \<and> starts_with c (skip_ws (wtext w))
    \<and> (\<exists>a b. wtaken w x = a @ c # b \<and> spaces a \<and> spaces b)"
proof -
  let ?s = "skipSpace w1" and ?a = "advance (skipSpace w1)"
  note c = consumed [OF assms(1,2)]
  have p1: "placed w1" using c by simp
  note s = skip_walker [OF p1] and a = advance_walker [OF assms(3)]
  note x = skip_walker [OF a(3)]
  have m: "moved w w1" "moved w1 ?s" "moved ?s ?a" "moved ?a x"
    using c moved_skip [OF p1] moved_advance [OF assms(3)] moved_skip [OF a(3)] assms(4) by simp_all
  have "wtaken w x = wtaken w w1 @ wtaken w1 ?s @ wtaken ?s ?a @ wtaken ?a x"
    using m by (simp add: moved_def wtaken_trans [of w w1 x] wtaken_trans [of w1 ?s x] wtaken_trans [of ?s ?a x])
  then have "wtaken w x = wtaken w1 ?s @ c # wtaken ?a x" using c a(2) by simp
  moreover have "moved w x" using m moved_trans by blast
  moreover have "starts_with c (skip_ws (wtext w))" using assms(3) s(1,3) c w_at_text by metis
  moreover have "w_ctx x = None" using m assms(5) by (simp add: moved_def)
  ultimately show ?thesis using c s a x assms(4) by auto
qed

lemma moved_follows:
  assumes "moved w x" and "follows p x w' rs r k" and "w_nodes x = w_nodes w + 1"
  shows "follows p w w' rs r (Suc k)" "edit_text w w' rs = wtaken w x @ edit_text x w' rs"
  using moved_edited [OF assms(1)] assms(2,3) by (auto simp: follows_def)

lemma object_step:
  assumes "members_sim n p" and "consumeNode p w = (True, w1)" and "placed w" and "w_at (skipSpace w1) (CHR ''{'')"
    and "x = skipSpace (advance (skipSpace w1))" and "w_ctx w = None" and "value_at d (wtext w) = Some (t, r)"
    and "dep \<le> MaxStructuredDepth (pol_limits p)"
    and "(if w_at x (CHR ''}'') then Some (scanUnchanged, advance x) else object_loop n p dep x) = Some (scanUnchanged, w')"
  shows "keys_clean p t \<and> within_depth (MaxStructuredDepth (pol_limits p) - dep + 1) t
       \<and> (\<exists>rs. follows p w w' rs r (node_count t) \<and> (\<forall>q. value_at d (edit_text w w' rs @ q) = Some (redact_tree p t, q)))"
proof -
  note o = opened [OF assms(2-6)]
  from o obtain a b where ab: "wtaken w x = a @ CHR ''{'' # b" "spaces a" "spaces b" by blast
  have nb: "\<not> starts_with (CHR ''['') (skip_ws (wtext w))" using o by (auto simp: starts_with_def)
  show ?thesis
  proof (cases "w_at x (CHR ''}'')")
    case True
    then have sw: "starts_with (CHR ''}'') (wtext x)" using o w_at_text by blast
    have w': "w' = advance x" using True assms(9) by simp
    note adv = advance_walker [OF True] moved_advance [OF True]
    have v: "t = JObj []" "r = tl (wtext x)" "d \<noteq> 0"
      using assms(7) sw o nb by (auto simp: value_at_eq [of d "wtext w"] Let_def split: if_splits)
    have m: "moved w w'" using o adv w' moved_trans by blast
    have tk: "wtaken w w' = a @ CHR ''{'' # b @ [CHR ''}'']"
      using wtaken_trans [of w x w'] o adv w' ab by (simp add: moved_def)
    have "value_at d (wtaken w w' @ q) = Some (JObj [], q)" for q
      using object_text_empty [OF ab(2,3) v(3), of q] by (simp add: tk)
    then show ?thesis using edited_refl [OF m assms(6)] v adv w' o assms(8)
      by (intro conjI exI [of _ "[]"]) (auto simp: follows_def)
  next
    case False
    then have sw: "\<not> starts_with (CHR ''}'') (wtext x)" using o w_at_text by blast
    with assms(7) o nb obtain ms where ms: "members_at (d - 1) (wtext x) = Some (ms, r)" "t = JObj ms" "d \<noteq> 0"
      by (auto simp: value_at_eq [of d "wtext w"] Let_def split: if_splits)
    have lp: "object_loop n p dep x = Some (scanUnchanged, w')" using False assms(9) by simp
    have cx: "w_ctx x = None" "placed x" using o by simp_all
    from assms(1) [unfolded members_sim_def, rule_format, OF lp cx ms(1)]
    obtain rs where rs: "keys_clean p (JObj ms)" "\<forall>m \<in> set ms. within_depth (MaxStructuredDepth (pol_limits p) - dep) (snd m)"
      "follows p x w' rs r (sum_list (map (\<lambda>m. Suc (node_count (snd m))) ms))"
      "\<And>q. members_at (d - 1) (edit_text x w' rs @ q) = Some (map (\<lambda>m. (fst m, redact_tree p (snd m))) ms, q)"
      by blast
    note f = moved_follows [OF _ rs(3), of w]
    have "value_at d (edit_text w w' rs @ q) = Some (redact_tree p t, q)" for q
      using object_text [OF ab(2,3) rs(4) ms(3)] f(2) o ab ms(2) by simp
    then show ?thesis using f(1) o rs(1,2) ms(2) assms(8) by (intro conjI exI [of _ rs]) auto
  qed
qed

lemma array_step:
  assumes "elems_sim n p" and "consumeNode p w = (True, w1)" and "placed w" and "w_at (skipSpace w1) (CHR ''['')"
    and "x = skipSpace (advance (skipSpace w1))" and "w_ctx w = None" and "value_at d (wtext w) = Some (t, r)"
    and "dep \<le> MaxStructuredDepth (pol_limits p)"
    and "(if w_at x (CHR '']'') then Some (scanUnchanged, advance x) else array_loop n p dep x) = Some (scanUnchanged, w')"
  shows "keys_clean p t \<and> within_depth (MaxStructuredDepth (pol_limits p) - dep + 1) t
       \<and> (\<exists>rs. follows p w w' rs r (node_count t) \<and> (\<forall>q. value_at d (edit_text w w' rs @ q) = Some (redact_tree p t, q)))"
proof -
  note o = opened [OF assms(2-6)]
  from o obtain a b where ab: "wtaken w x = a @ CHR ''['' # b" "spaces a" "spaces b" by blast
  show ?thesis
  proof (cases "w_at x (CHR '']'')")
    case True
    then have sw: "starts_with (CHR '']'') (wtext x)" using o w_at_text by blast
    have w': "w' = advance x" using True assms(9) by simp
    note adv = advance_walker [OF True] moved_advance [OF True]
    have v: "t = JArr []" "r = tl (wtext x)" "d \<noteq> 0"
      using assms(7) sw o by (auto simp: value_at_eq [of d "wtext w"] Let_def split: if_splits)
    have m: "moved w w'" using o adv w' moved_trans by blast
    have tk: "wtaken w w' = a @ CHR ''['' # b @ [CHR '']'']"
      using wtaken_trans [of w x w'] o adv w' ab by (simp add: moved_def)
    have "value_at d (wtaken w w' @ q) = Some (JArr [], q)" for q
      using array_text_empty [OF ab(2,3) v(3), of q] by (simp add: tk)
    then show ?thesis using edited_refl [OF m assms(6)] v adv w' o assms(8)
      by (intro conjI exI [of _ "[]"]) (auto simp: follows_def)
  next
    case False
    then have sw: "\<not> starts_with (CHR '']'') (wtext x)" using o w_at_text by blast
    with assms(7) o obtain vs where vs: "elems_at (d - 1) (wtext x) = Some (vs, r)" "t = JArr vs" "d \<noteq> 0"
      by (auto simp: value_at_eq [of d "wtext w"] Let_def split: if_splits)
    have lp: "array_loop n p dep x = Some (scanUnchanged, w')" using False assms(9) by simp
    have cx: "w_ctx x = None" "placed x" using o by simp_all
    from assms(1) [unfolded elems_sim_def, rule_format, OF lp cx vs(1)]
    obtain rs where rs: "keys_clean p (JArr vs)" "\<forall>v \<in> set vs. within_depth (MaxStructuredDepth (pol_limits p) - dep) v"
      "follows p x w' rs r (sum_list (map node_count vs))"
      "\<And>q. elems_at (d - 1) (edit_text x w' rs @ q) = Some (map (redact_tree p) vs, q)"
      by blast
    note f = moved_follows [OF _ rs(3), of w]
    have "value_at d (edit_text w w' rs @ q) = Some (redact_tree p t, q)" for q
      using array_text [OF ab(2,3) rs(4) vs(3)] f(2) o ab vs(2) by simp
    then show ?thesis using f(1) o rs(1,2) vs(2) assms(8) by (intro conjI exI [of _ rs]) auto
  qed
qed

lemma value_step:
  assumes "members_sim n p" and "elems_sim n p" and "policy_ok p"
  shows "value_sim (Suc n) p"
  unfolding value_sim_def
proof (intro allI impI)
  fix dep w w' d t r
  assume run: "parseValue (Suc n) p dep w = Some (scanUnchanged, w')" and c: "w_ctx w = None" and pl: "placed w"
    and v: "value_at d (wtext w) = Some (t, r)" and r: "stop_ok r"
  let ?goal = "keys_clean p t \<and> within_depth (MaxStructuredDepth (pol_limits p) - dep + 1) t
       \<and> (\<exists>rs. follows p w w' rs r (node_count t)
           \<and> (\<forall>q. stop_ok q \<longrightarrow> value_at d (edit_text w w' rs @ q) = Some (redact_tree p t, q)))"
  obtain b w1 where w1: "consumeNode p w = (b, w1)" by (metis surj_pair)
  have dep: "dep \<le> MaxStructuredDepth (pol_limits p)" and b: "b"
    using run w1 by (auto simp: parseValue.simps poll_None [OF c] split: if_splits bool.splits)
  note w1 = w1 [unfolded eqTrueI [OF b]]
  define s where "s = skipSpace w1"
  note run' = run [unfolded parseValue.simps poll_None [OF c] prod.case bool.case w1 Let_def s_def [symmetric]]
  consider (obj) "w_at s (CHR ''{'')" | (arr) "\<not> w_at s (CHR ''{'')" "w_at s (CHR ''['')"
    | (scalar) "\<not> w_at s (CHR ''{'')" "\<not> w_at s (CHR ''['')" by blast
  then show ?goal
  proof cases
    case obj
    with run' dep have "(if w_at (skipSpace (advance s)) (CHR ''}'') then Some (scanUnchanged, advance (skipSpace (advance s)))
        else object_loop n p dep (skipSpace (advance s))) = Some (scanUnchanged, w')"
      by (simp split: if_split_asm)
    with object_step [OF assms(1) w1 pl _ refl c v dep] obj show ?thesis unfolding s_def by blast
  next
    case arr
    with run' dep have "(if w_at (skipSpace (advance s)) (CHR '']'') then Some (scanUnchanged, advance (skipSpace (advance s)))
        else array_loop n p dep (skipSpace (advance s))) = Some (scanUnchanged, w')"
      by (simp split: if_split_asm)
    with array_step [OF assms(2) w1 pl _ refl c v dep] arr show ?thesis unfolding s_def by blast
  next
    case scalar
    note k = consumed [OF w1 pl]
    have p1: "placed w1" using k by simp
    note sk = skip_walker [OF p1, folded s_def]
    have ms: "moved w s" using k moved_skip [OF p1, folded s_def] moved_trans by blast
    have sp: "spaces (wtaken w s)" using sk(2) k wtaken_trans [of w w1 s] sk(4) by (simp add: moved_def)
    have cs: "w_ctx s = None" "w_nodes s = w_nodes w + 1" using k c by (simp_all add: s_def moved_def)
    have sc: "scalar_at (wtext s) = Some (t, r)"
      using v scalar sk(1) k w_at_text [OF sk(3)] by (simp add: value_at_eq [of d "wtext w"] Let_def)
    have res: ?goal
      if "edited s w' rs" "wtext w' = r" "w_nodes w' = w_nodes s" "keys_clean p t" "node_count t = 1"
        "within_depth (MaxStructuredDepth (pol_limits p) - dep + 1) t"
        "\<And>q. stop_ok q \<Longrightarrow> value_at d (edit_text s w' rs @ q) = Some (redact_tree p t, q)" for rs
      using that moved_edited [OF ms that(1)] value_at_spaces [OF sp] k cs
      by (intro conjI exI [of _ rs]) (auto simp: follows_def s_def)
    show ?thesis
    proof (cases "w_at s (CHR 0x22)")
      case True
      then obtain l where l: "scan_string (tl (wtext s)) = Some (l, r)" "t = JStr (unquote l)"
        using sc w_at_text [OF sk(3)] by (auto simp: scalar_at_def starts_with_def)
      have "parse_string_value p s = (scanUnchanged, w')"
        using run' dep scalar True by (simp split: if_split_asm)
      from string_value_sim [OF this cs(1) True sk(3) l(1) assms(3)] obtain rs where
        "edited s w' rs" "wtext w' = r" "w_nodes w' = w_nodes s"
        "\<And>q. value_at d (edit_text s w' rs @ q) = Some (redact_tree p t, q)" using l(2) by blast
      with res show ?thesis using l(2) dep by simp
    next
      case False
      then have la: "literal_at (wtext s) = Some (t, r)" using sc w_at_text [OF sk(3)] by (auto simp: scalar_at_def starts_with_def split: if_splits)
      have "parsePrimitive s = (scanUnchanged, w')"
        using run' dep scalar False by (simp split: if_split_asm)
      from primitive_sim [OF this cs(1) sk(3) la r] show ?thesis using dep by (intro res [of "[]"]) auto
    qed
  qed
qed

text \<open>The value of a member or an element, with the space and the separator after it.\<close>

lemma separated:
  assumes "value_sim n p" and "parseValue n p (dep + 1) w = Some (scanUnchanged, w1)" and "w_ctx w = None" and "placed w"
    and "value_at d (wtext w) = Some (v, q)" and "w_at (skipSpace w1) e"
    and "starts_with e (skip_ws q)" and "e = CHR ''}'' \<or> e = CHR '']'' \<or> e = CHR '',''"
  shows "keys_clean p v \<and> within_depth (MaxStructuredDepth (pol_limits p) - dep) v
    \<and> wtext (advance (skipSpace w1)) = tl (skip_ws q) \<and> placed (advance (skipSpace w1)) \<and> w_ctx (advance (skipSpace w1)) = None
    \<and> (\<exists>rs x c. follows p w (advance (skipSpace w1)) rs (tl (skip_ws q)) (node_count v)
        \<and> edit_text w (advance (skipSpace w1)) rs = x @ c @ [e] \<and> spaces c
        \<and> (\<forall>y. value_at d (x @ c @ e # y) = Some (redact_tree p v, c @ e # y)))"
proof -
  have st: "stop_ok q" using assms(7,8) by (intro stop_ok_skip) auto
  from assms(1) [unfolded value_sim_def, rule_format, OF assms(2-5) st] obtain rs where
    rs: "keys_clean p v" "within_depth (MaxStructuredDepth (pol_limits p) - (dep + 1) + 1) v"
      "follows p w w1 rs q (node_count v)"
      "\<And>y. stop_ok y \<Longrightarrow> value_at d (edit_text w w1 rs @ y) = Some (redact_tree p v, y)" by blast
  let ?s = "skipSpace w1"
  have p1: "placed w1" "w_ctx w1 = None" using rs(3) by (simp_all add: follows_def edited_def)
  note sk = skip_walker [OF p1(1)] and ad = advance_walker [OF assms(6)]
  have m: "moved w1 (advance ?s)" using moved_skip [OF p1(1)] moved_advance [OF assms(6)] moved_trans by blast
  have tk: "wtaken w1 (advance ?s) = wtaken w1 ?s @ [e]"
    using wtaken_trans [of w1 ?s "advance ?s"] sk(4) ad(2,4) by simp
  have ed: "edited w w1 rs" using rs(3) by (simp add: follows_def)
  note em = edited_moved [OF ed m]
  have "follows p w (advance ?s) rs (tl (skip_ws q)) (node_count v)"
    using rs(3) em sk(1) ad(1) by (simp add: follows_def)
  moreover have "value_at d (edit_text w w1 rs @ wtaken w1 ?s @ e # y) = Some (redact_tree p v, wtaken w1 ?s @ e # y)" for y
    using rs(4) stop_ok_text [OF sk(2) assms(8)] by blast
  moreover have "wtext (advance ?s) = tl (skip_ws q)" using sk(1) ad(1) rs(3) by (simp add: follows_def)
  ultimately show ?thesis using rs(1,2) ad(3) p1(2) em tk sk(2) by auto
qed

lemma separated_text:
  assumes "value_sim n p" and "parseValue n p (dep + 1) w = Some (scanUnchanged, w1)" and "w_ctx w = None" and "placed w"
    and "value_at d (wtext w) = Some (v, q)" and "stop_ok q" and "w_at (skipSpace w1) e"
  shows "starts_with e (skip_ws q)"
proof -
  from assms(1) [unfolded value_sim_def, rule_format, OF assms(2-6)] obtain rs where "follows p w w1 rs q (node_count v)" by blast
  then have "placed w1" "wtext w1 = q" by (simp_all add: follows_def edited_def)
  with skip_walker [of w1] w_at_text [of "skipSpace w1" e] assms(7) show ?thesis by simp
qed

lemma follows_trans:
  assumes "follows p w w1 rs r1 k" and "follows p w1 w2 qs r m"
  shows "follows p w w2 (rs @ qs) r (k + m)" "edit_text w w2 (rs @ qs) = edit_text w w1 rs @ edit_text w1 w2 qs"
  using edited_edited [of w w1 rs w2 qs] assms by (auto simp: follows_def)

lemma elems_step:
  assumes "value_sim n p" and "elems_sim n p"
  shows "elems_sim (Suc n) p"
  unfolding elems_sim_def
proof (intro allI impI)
  fix dep w w' d vs r
  assume run: "array_loop (Suc n) p dep w = Some (scanUnchanged, w')" and c: "w_ctx w = None" and pl: "placed w"
    and v: "elems_at d (wtext w) = Some (vs, r)"
  obtain w1 where w1: "parseValue n p (dep + 1) w = Some (scanUnchanged, w1)"
    using run by (auto simp: array_loop.simps Let_def split: option.splits if_splits)
  obtain v1 q where q: "value_at d (wtext w) = Some (v1, q)"
    using v by (subst (asm) elems_at_eq) (auto split: option.splits)
  then have "starts_with (CHR '']'') (skip_ws q) \<or> starts_with (CHR '','') (skip_ws q)"
    using v by (subst (asm) elems_at_eq) (auto simp: Let_def split: if_splits)
  then have st: "stop_ok q" by (intro stop_ok_skip) blast
  define s where "s = advance (skipSpace w1)"
  consider (end1) "w_at (skipSpace w1) (CHR '']'')" "w' = s"
    | (comma) "w_at (skipSpace w1) (CHR '','')" "\<not> w_at (skipSpace w1) (CHR '']'')" "array_loop n p dep s = Some (scanUnchanged, w')"
    using run w1 by (auto simp: array_loop.simps Let_def s_def split: if_splits)
  then show "keys_clean p (JArr vs) \<and> (\<forall>v \<in> set vs. within_depth (MaxStructuredDepth (pol_limits p) - dep) v)
       \<and> (\<exists>rs. follows p w w' rs r (sum_list (map node_count vs))
           \<and> (\<forall>q. elems_at d (edit_text w w' rs @ q) = Some (map (redact_tree p) vs, q)))"
  proof cases
    case end1
    have sq: "starts_with (CHR '']'') (skip_ws q)" by (rule separated_text [OF assms(1) w1 c pl q st end1(1)])
    then have vs: "vs = [v1]" "r = tl (skip_ws q)" using v q by (subst (asm) elems_at_eq; simp)+
    from separated [OF assms(1) w1 c pl q end1(1) sq, folded s_def] obtain rs x y where
      rs: "keys_clean p v1" "within_depth (MaxStructuredDepth (pol_limits p) - dep) v1"
      "follows p w s rs (tl (skip_ws q)) (node_count v1)" "edit_text w s rs = x @ y @ [CHR '']'']" "spaces y"
      "\<And>z. value_at d (x @ y @ CHR '']'' # z) = Some (redact_tree p v1, y @ CHR '']'' # z)" by auto
    have "elems_at d (edit_text w s rs @ z) = Some ([redact_tree p v1], z)" for z
      using elems_text [OF rs(5,6), of "[]" z z] rs(4) by simp
    with rs vs end1(2) show ?thesis by (intro conjI exI [of _ rs]) auto
  next
    case comma
    have sq: "starts_with (CHR '','') (skip_ws q)" by (rule separated_text [OF assms(1) w1 c pl q st comma(1)])
    then have "\<not> starts_with (CHR '']'') (skip_ws q)" by (auto simp: starts_with_def)
    with v q sq obtain us where us: "elems_at d (tl (skip_ws q)) = Some (us, r)" "vs = v1 # us"
      by (subst (asm) elems_at_eq) auto
    from separated [OF assms(1) w1 c pl q comma(1) sq, folded s_def] obtain rs x y where
      rs: "keys_clean p v1" "within_depth (MaxStructuredDepth (pol_limits p) - dep) v1"
      "follows p w s rs (tl (skip_ws q)) (node_count v1)" "edit_text w s rs = x @ y @ [CHR '','']" "spaces y"
      "\<And>z. value_at d (x @ y @ CHR '','' # z) = Some (redact_tree p v1, y @ CHR '','' # z)"
      and s: "placed s" "w_ctx s = None" "wtext s = tl (skip_ws q)" by auto
    have "elems_at d (wtext s) = Some (us, r)" using us(1) s(3) by simp
    from assms(2) [unfolded elems_sim_def, rule_format, OF comma(3) s(2,1) this] obtain qs where
      qs: "keys_clean p (JArr us)" "\<forall>v \<in> set us. within_depth (MaxStructuredDepth (pol_limits p) - dep) v"
      "follows p s w' qs r (sum_list (map node_count us))"
      "\<And>z. elems_at d (edit_text s w' qs @ z) = Some (map (redact_tree p) us, z)" by blast
    note f = follows_trans [OF rs(3) qs(3)]
    have "elems_at d (edit_text w w' (rs @ qs) @ z) = Some (map (redact_tree p) vs, z)" for z
      using elems_text [OF rs(5,6), of "map (redact_tree p) us" z "edit_text s w' qs @ z"] qs(4) f(2) rs(4) us(2) by simp
    with rs qs us(2) f(1) show ?thesis by (intro conjI exI [of _ "rs @ qs"]) auto
  qed
qed

text \<open>Past a member's key and colon.\<close>

lemma key_head:
  assumes "consumeNode p w = (True, w1)" and "placed w" and "w_ctx w = None" and "w_at (skipSpace w1) (CHR 0x22)"
    and "parseStringLiteral (skipSpace w1) = (Some (i, j, key), w3)"
    and "scan_string (tl (skip_ws (wtext w))) = Some (k, rk)" and "w_at (skipSpace w3) (CHR '':'')"
  shows "moved w (advance (skipSpace w3)) \<and> wtext (advance (skipSpace w3)) = tl (skip_ws rk) \<and> placed (advance (skipSpace w3))
    \<and> w_ctx w3 = None \<and> w_nodes w3 = w_nodes w + 1 \<and> key = unquote k \<and> scan_string (k @ [CHR 0x22]) = Some (k, [])
    \<and> (\<exists>a b. wtaken w (advance (skipSpace w3)) = a @ CHR 0x22 # k @ CHR 0x22 # b @ [CHR '':''] \<and> spaces a \<and> spaces b)"
proof -
  let ?s = "skipSpace w1" and ?a = "advance (skipSpace w3)"
  note c = consumed [OF assms(1,2)]
  have p1: "placed w1" using c by simp
  note s = skip_walker [OF p1]
  have k: "scan_string (tl (wtext ?s)) = Some (k, rk)" using assms(6) s(1) c by simp
  note l = literal_sim [OF assms(5,4) s(3) k]
  have p3: "placed w3" using l by (simp add: moved_def)
  note s3 = skip_walker [OF p3] and a = advance_walker [OF assms(7)]
  have m: "moved w w1" "moved w1 ?s" "moved ?s w3" "moved w3 (skipSpace w3)" "moved (skipSpace w3) ?a"
    using c l moved_skip [OF p1] moved_skip [OF p3] moved_advance [OF assms(7)] by simp_all
  have "wtaken w ?a = wtaken w w1 @ wtaken w1 ?s @ wtaken ?s w3 @ wtaken w3 (skipSpace w3) @ wtaken (skipSpace w3) ?a"
    using m by (simp add: moved_def wtaken_trans [of w w1 ?a] wtaken_trans [of w1 ?s ?a] wtaken_trans [of ?s w3 ?a]
        wtaken_trans [of w3 "skipSpace w3" ?a])
  then have "wtaken w ?a = wtaken w1 ?s @ CHR 0x22 # k @ CHR 0x22 # wtaken w3 (skipSpace w3) @ [CHR '':'']"
    using c l a(2) by simp
  moreover have "moved w ?a" using m moved_trans by blast
  moreover have "w_ctx w3 = None" using m assms(3) by (simp add: moved_def)
  ultimately show ?thesis using c l s s3 a by auto
qed

lemma members_cases:
  assumes "members_at d s = Some (ms, r)"
  obtains k rk v q where "scan_string (tl (skip_ws s)) = Some (k, rk)" "value_at d (tl (skip_ws rk)) = Some (v, q)" "stop_ok q"
    "starts_with (CHR ''}'') (skip_ws q) \<and> ms = [(unquote k, v)] \<and> r = tl (skip_ws q)
     \<or> starts_with (CHR '','') (skip_ws q) \<and> (\<exists>us. members_at d (tl (skip_ws q)) = Some (us, r) \<and> ms = (unquote k, v) # us)"
proof -
  note e = assms [unfolded members_at_eq [of d s] Let_def]
  obtain k rk where k: "scan_string (tl (skip_ws s)) = Some (k, rk)" using e by (auto split: if_splits option.splits)
  obtain v q where v: "value_at d (tl (skip_ws rk)) = Some (v, q)" using e k by (auto split: if_splits option.splits)
  have t: "starts_with (CHR ''}'') (skip_ws q) \<and> ms = [(unquote k, v)] \<and> r = tl (skip_ws q)
     \<or> starts_with (CHR '','') (skip_ws q) \<and> (\<exists>us. members_at d (tl (skip_ws q)) = Some (us, r) \<and> ms = (unquote k, v) # us)"
    using e k v by (auto split: if_splits option.splits)
  then have "stop_ok q" by (intro stop_ok_skip) blast
  with that k v t show thesis by blast
qed

text \<open>A successful step of the object loop.\<close>

lemma object_loop_cases:
  assumes "object_loop (Suc n) p dep w = Some (scanUnchanged, w')" and "w_ctx w = None"
  obtains w1 i j key w3 w4 out w5 where "consumeNode p w = (True, w1)" "w_at (skipSpace w1) (CHR 0x22)"
    "parseStringLiteral (skipSpace w1) = (Some (i, j, key), w3)" "w_scan p key w3 = ((out, scanUnchanged), w4)"
    "w_at (skipSpace w4) (CHR '':'')" "parseValue n p (dep + 1) (advance (skipSpace w4)) = Some (scanUnchanged, w5)"
    "w_at (skipSpace w5) (CHR ''}'') \<and> w' = advance (skipSpace w5)
     \<or> w_at (skipSpace w5) (CHR '','') \<and> object_loop n p dep (advance (skipSpace w5)) = Some (scanUnchanged, w')"
proof -
  note run = assms(1) [unfolded object_loop.simps poll_None [OF assms(2)] prod.case bool.case Let_def]
  obtain b w1 where w1: "consumeNode p w = (b, w1)" by (metis surj_pair)
  have b: "b" and q: "w_at (skipSpace w1) (CHR 0x22)" using run w1 by (auto split: bool.splits if_splits)
  obtain o3 w3 where o3: "parseStringLiteral (skipSpace w1) = (o3, w3)" by (metis surj_pair)
  with run w1 b q obtain i j key where o3': "o3 = Some (i, j, key)" by (cases o3) auto
  obtain out st w4 where w4: "w_scan p key w3 = ((out, st), w4)" by (metis surj_pair)
  have st: "st = scanUnchanged" and col: "w_at (skipSpace w4) (CHR '':'')"
    using run w1 b q o3 o3' w4 by (auto split: if_splits)
  obtain w5 where w5: "parseValue n p (dep + 1) (advance (skipSpace w4)) = Some (scanUnchanged, w5)"
    using run w1 b q o3 o3' w4 st col by (auto split: if_splits option.splits)
  show thesis
    using run w1 b q o3 o3' w4 st col w5 by (intro that [of w1 i j key w3 out w4 w5]) (auto split: if_splits)
qed

lemma members_step:
  assumes "value_sim n p" and "members_sim n p"
  shows "members_sim (Suc n) p"
  unfolding members_sim_def
proof (intro allI impI)
  fix dep w w' d ms r
  assume run: "object_loop (Suc n) p dep w = Some (scanUnchanged, w')" and c: "w_ctx w = None" and pl: "placed w"
    and v: "members_at d (wtext w) = Some (ms, r)"
  let ?red = "map (\<lambda>m. (fst m, redact_tree p (snd m)))"
  from v obtain k rk v1 q where k: "scan_string (tl (skip_ws (wtext w))) = Some (k, rk)" "value_at d (tl (skip_ws rk)) = Some (v1, q)" "stop_ok q"
    and ms: "starts_with (CHR ''}'') (skip_ws q) \<and> ms = [(unquote k, v1)] \<and> r = tl (skip_ws q)
     \<or> starts_with (CHR '','') (skip_ws q) \<and> (\<exists>us. members_at d (tl (skip_ws q)) = Some (us, r) \<and> ms = (unquote k, v1) # us)"
    by (rule members_cases) blast
  from run c obtain w1 i j key w3 w4 out w5 where st: "consumeNode p w = (True, w1)" "w_at (skipSpace w1) (CHR 0x22)"
    "parseStringLiteral (skipSpace w1) = (Some (i, j, key), w3)" "w_scan p key w3 = ((out, scanUnchanged), w4)"
    "w_at (skipSpace w4) (CHR '':'')" "parseValue n p (dep + 1) (advance (skipSpace w4)) = Some (scanUnchanged, w5)"
    and nx: "w_at (skipSpace w5) (CHR ''}'') \<and> w' = advance (skipSpace w5)
     \<or> w_at (skipSpace w5) (CHR '','') \<and> object_loop n p dep (advance (skipSpace w5)) = Some (scanUnchanged, w')"
    by (rule object_loop_cases)
  have "w_ctx w3 = None" using literal_sim [OF st(3,2)] consumed [OF st(1) pl] skip_walker [of w1] k(1) c by (simp add: moved_def)
  then have w4: "w4 = w3" and key: "snd (fst (scanScalar p None key)) = scanUnchanged"
    using st(4) scanScalar_None by (auto simp: w_scan_def split: prod.splits)
  define a where "a = advance (skipSpace w3)"
  note h = key_head [OF st(1) pl c st(2,3) k(1) st(5) [unfolded w4], folded a_def]
  from h obtain a0 b0 where t0: "wtaken w a = a0 @ CHR 0x22 # k @ CHR 0x22 # b0 @ [CHR '':'']" "spaces a0" "spaces b0" by blast
  have ca: "w_ctx a = None" "placed a" "w_nodes a = w_nodes w + 1" "moved w a" using h by (simp_all add: a_def)
  have va: "value_at d (wtext a) = Some (v1, q)" using h k(2) by simp
  note st6 = st(6) [unfolded w4, folded a_def]
  note sep = separated_text [OF assms(1) st6 ca(1,2) va k(3)]
  define s where "s = advance (skipSpace w5)"
  have clean: "snd (fst (scanScalar p None (unquote k))) = scanUnchanged" using key h by simp
  note mt = members_text [OF t0(2,3)]
  show "keys_clean p (JObj ms) \<and> (\<forall>m \<in> set ms. within_depth (MaxStructuredDepth (pol_limits p) - dep) (snd m))
       \<and> (\<exists>rs. follows p w w' rs r (sum_list (map (\<lambda>m. Suc (node_count (snd m))) ms))
           \<and> (\<forall>q. members_at d (edit_text w w' rs @ q) = Some (?red ms, q)))"
    using nx
  proof (elim disjE conjE)
    assume e: "w_at (skipSpace w5) (CHR ''}'')" "w' = advance (skipSpace w5)"
    have sq: "starts_with (CHR ''}'') (skip_ws q)" by (rule sep [OF e(1)])
    then have ms1: "ms = [(unquote k, v1)]" "r = tl (skip_ws q)" using ms by (auto simp: starts_with_def)
    from separated [OF assms(1) st6 ca(1,2) va e(1) sq, folded s_def] obtain rs x y where
      rs: "keys_clean p v1" "within_depth (MaxStructuredDepth (pol_limits p) - dep) v1"
      "follows p a s rs (tl (skip_ws q)) (node_count v1)" "edit_text a s rs = x @ y @ [CHR ''}'']" "spaces y"
      "\<And>z. value_at d (x @ y @ CHR ''}'' # z) = Some (redact_tree p v1, y @ CHR ''}'' # z)" by auto
    note f = moved_follows [OF ca(4) rs(3) ca(3)]
    have "members_at d (edit_text w s rs @ z) = Some (?red ms, z)" for z
      using mt [OF rs(5) _ rs(6), where ms = "[]" and r = z] h f(2) t0(1) rs(4) ms1 by simp
    with rs ms1 e(2) f clean show ?thesis unfolding s_def by (intro conjI exI [of _ rs]) auto
  next
    assume e: "w_at (skipSpace w5) (CHR '','')" "object_loop n p dep (advance (skipSpace w5)) = Some (scanUnchanged, w')"
    have sq: "starts_with (CHR '','') (skip_ws q)" by (rule sep [OF e(1)])
    with ms obtain us where us: "members_at d (tl (skip_ws q)) = Some (us, r)" "ms = (unquote k, v1) # us"
      by (auto simp: starts_with_def)
    from separated [OF assms(1) st6 ca(1,2) va e(1) sq, folded s_def] obtain rs x y where
      rs: "keys_clean p v1" "within_depth (MaxStructuredDepth (pol_limits p) - dep) v1"
      "follows p a s rs (tl (skip_ws q)) (node_count v1)" "edit_text a s rs = x @ y @ [CHR '','']" "spaces y"
      "\<And>z. value_at d (x @ y @ CHR '','' # z) = Some (redact_tree p v1, y @ CHR '','' # z)"
      and s: "placed s" "w_ctx s = None" "wtext s = tl (skip_ws q)" by auto
    have "members_at d (wtext s) = Some (us, r)" using us(1) s(3) by simp
    from assms(2) [unfolded members_sim_def, rule_format, OF e(2) [folded s_def] s(2,1) this] obtain qs where
      qs: "keys_clean p (JObj us)" "\<forall>m \<in> set us. within_depth (MaxStructuredDepth (pol_limits p) - dep) (snd m)"
      "follows p s w' qs r (sum_list (map (\<lambda>m. Suc (node_count (snd m))) us))"
      "\<And>z. members_at d (edit_text s w' qs @ z) = Some (?red us, z)" by blast
    note f = follows_trans [OF moved_follows(1) [OF ca(4) rs(3) ca(3)] qs(3)] moved_follows(2) [OF ca(4) rs(3) ca(3)]
    have "members_at d (edit_text w w' (rs @ qs) @ z) = Some (?red ms, z)" for z
      using mt [OF rs(5) _ rs(6) [of "edit_text s w' qs @ z"], where ms = "?red us" and r = z] h qs(4) f(2,3) t0(1) rs(4) us(2) by simp
    with rs qs us(2) f(1) clean show ?thesis by (intro conjI exI [of _ "rs @ qs"]) auto
  qed
qed

lemma walk_sim: "policy_ok p \<Longrightarrow> value_sim n p \<and> members_sim n p \<and> elems_sim n p"
proof (induction n)
  case 0
  show ?case by (simp add: value_sim_def members_sim_def elems_sim_def parseValue.simps object_loop.simps array_loop.simps)
next
  case (Suc n)
  then show ?case using value_step members_step elems_step by blast
qed

lemma parsePrimitive_states: "parsePrimitive w = (st, w') \<Longrightarrow> st \<noteq> scanChanged"
  by (auto simp: parsePrimitive_def Let_def split: if_splits)

lemma parse_string_value_states:
  assumes "parse_string_value p w = (st, w')"
  shows "st \<noteq> scanChanged"
proof -
  obtain o1 w1 where o1: "parseStringLiteral w = (o1, w1)" by (metis surj_pair)
  show ?thesis
  proof (cases o1)
    case (Some x)
    obtain a b s where x: "x = (a, b, s)" by (cases x)
    obtain out st1 w2 where "w_scan p s w1 = ((out, st1), w2)" by (metis surj_pair)
    with assms o1 Some x show ?thesis by (cases st1) (auto simp: parse_string_value_def)
  qed (use assms o1 in \<open>auto simp: parse_string_value_def\<close>)
qed

lemma walk_states:
  shows "parseValue n p d w = Some (st, w') \<Longrightarrow> st \<noteq> scanChanged"
    and "object_loop n p d w = Some (st, w') \<Longrightarrow> st \<noteq> scanChanged"
    and "array_loop n p d w = Some (st, w') \<Longrightarrow> st \<noteq> scanChanged"
proof (induction n arbitrary: d w st w' and d w st w' and d w st w')
  case 0
  { case 1 then show ?case by (simp add: parseValue.simps)
  next case 2 then show ?case by (simp add: object_loop.simps)
  next case 3 then show ?case by (simp add: array_loop.simps) }
next
  case (Suc n)
  {
    case 1
    then show ?case using Suc.IH parsePrimitive_states parse_string_value_states
      by (auto simp: parseValue.simps Let_def split: prod.splits bool.splits if_splits)
  next
    case 2
    then show ?case using Suc.IH
      by (auto simp: object_loop.simps Let_def split: prod.splits bool.splits if_splits option.splits)
  next
    case 3
    then show ?case using Suc.IH
      by (auto simp: array_loop.simps Let_def split: prod.splits if_splits option.splits)
  }
qed

lemma scanStructured_result:
  assumes "scanStructured p None (Some raw) = ((Some out, st), c)" and "raw \<noteq> []" and "st = scanUnchanged \<or> st = scanChanged"
  obtains w where "parseValue (2 * length raw + 1) p 1
      \<lparr>w_ctx = None, w_raw = raw, w_position = 0, w_nodes = 0, w_replacements = []\<rparr> = Some (scanUnchanged, w)"
    "json_Valid raw" "w_position (skipSpace w) = length raw" "out = write_replacements raw 0 (w_replacements (skipSpace w))"
proof -
  let ?w = "\<lparr>w_ctx = None, w_raw = raw, w_position = 0, w_nodes = 0, w_replacements = []\<rparr>"
  note run = assms(1) [unfolded scanStructured_def option.case]
  have valid: "json_Valid raw" "\<not> MaxStructuredBytes (pol_limits p) < len raw"
    using run assms(2,3) by (auto split: if_splits)
  obtain st1 w where w: "parseValue (2 * length raw + 1) p 1 ?w = Some (st1, w)"
    using walk_enough_fuel [of ?w raw p 1] by auto
  obtain b w2 where w2: "poll (skipSpace w) = (b, w2)" by (metis surj_pair)
  have pos: "w_position w2 = w_position (skipSpace w)" "w_replacements w2 = w_replacements (skipSpace w)"
    using w2 by (auto simp: poll_def split: prod.splits)
  have res: "\<not> b" "st1 \<noteq> scanCanceled" "st1 \<noteq> scanUnsafe" "w_position w2 = length raw" "out = write_replacements raw 0 (w_replacements w2)"
    using run assms(2,3) valid w w2 by (auto simp: Let_def split: bool.splits if_splits)
  have "st1 = scanUnchanged" using res(2,3) walk_states(1) [OF w] by (cases st1) auto
  with that w valid(1) res pos show thesis by simp
qed

text \<open>
  C2: structured output. When the walk over a non-empty document succeeds, whatever the context
  does on the way, the input is a JSON document whose keys no rule flags and whose size and
  nesting are within the limits, and the bytes returned are a JSON document of the same
  structure, with the same keys, numbers and literals, in which each string is what the scan of
  that string returns: the edits of the raw bytes never break the syntax and never miss a string.
\<close>

theorem scanStructured_refines:
  assumes "red_canonicalize g vs vi Parse options = Inr canonical"
    and "compilePolicy g vs vi Parse options = Inr (canonical, p)"
    and "scanStructured p c (Some raw) = ((Some out, st), c')"
    and "raw \<noteq> []" and "st = scanUnchanged \<or> st = scanChanged"
  shows "\<exists>t. json_document raw = Some t \<and> json_document out = Some (redact_tree p t) \<and> keys_clean p t
    \<and> int (node_count t) \<le> MaxStructuredNodes (red_limits canonical)
    \<and> within_depth (MaxStructuredDepth (red_limits canonical)) t"
proof -
  from compilePolicy_ok [OF assms(1)] assms(2) have ok: "policy_ok p" "pol_limits p = red_limits canonical" by auto
  let ?w = "\<lparr>w_ctx = None, w_raw = raw, w_position = 0, w_nodes = 0, w_replacements = []\<rparr>"
  have live: "scanStructured p None (Some raw) = ((Some out, st), None)" using scanStructured_live [OF assms(3)] assms(5) by auto
  from live assms(4,5) obtain w where w: "parseValue (2 * length raw + 1) p 1 ?w = Some (scanUnchanged, w)" "json_Valid raw"
    "w_position (skipSpace w) = length raw" "out = write_replacements raw 0 (w_replacements (skipSpace w))"
    by (rule scanStructured_result)
  from w(2) obtain t where t: "json_document raw = Some t" by (auto simp: json_Valid_def)
  then obtain r where r: "value_at maxNestingDepth (wtext ?w) = Some (t, r)" "skip_ws r = []"
    by (auto simp: json_document_def json_read_value_at wtext_def split: option.splits if_splits)
  have pl: "w_ctx ?w = None" "placed ?w" by (simp_all add: placed_def)
  have st: "stop_ok r" using r(2) by (intro stop_ok_skip) simp
  from walk_sim [OF ok(1)] have "value_sim (2 * length raw + 1) p" by blast
  from this [unfolded value_sim_def, rule_format, OF w(1) pl r(1) st] obtain rs where
    rs: "keys_clean p t" "within_depth (MaxStructuredDepth (pol_limits p) - 1 + 1) t" "follows p ?w w rs r (node_count t)"
      "\<And>q. stop_ok q \<Longrightarrow> value_at maxNestingDepth (edit_text ?w w rs @ q) = Some (redact_tree p t, q)" by blast
  have ed: "edited ?w w rs" and nodes: "int (node_count t) \<le> MaxStructuredNodes (pol_limits p)"
    using rs(3) by (simp_all add: follows_def)
  have pw: "placed w" using ed by (simp add: edited_def)
  note sk = skip_walker [OF pw]
  from edited_moved [OF ed moved_skip [OF pw]]
  have e2: "edited ?w (skipSpace w) rs" "edit_text ?w (skipSpace w) rs = edit_text ?w w rs @ wtaken w (skipSpace w)" by auto
  have "out = edit_text ?w (skipSpace w) rs"
    using e2(1) w(3,4) write_emit [of 0 rs "length raw" raw] by (simp add: edited_def edit_text_def)
  then have out: "out = edit_text ?w w rs @ wtaken w (skipSpace w)" using e2(2) by simp
  have ws: "skip_ws (wtaken w (skipSpace w)) = []" using skip_ws_spaces [OF sk(2), of "[]"] by (simp add: skip_ws_def)
  have "value_at maxNestingDepth out = Some (redact_tree p t, wtaken w (skipSpace w))"
    unfolding out using ws by (intro rs(4) stop_ok_skip) simp
  then have "json_document out = Some (redact_tree p t)" using ws by (simp add: json_document_def json_read_value_at)
  with t rs(1,2) nodes ok(2) show ?thesis by auto
qed

lemmas walk_numeral = parseValue.simps(2) [of "pred_numeral k" for k, folded numeral_eq_Suc]
  object_loop.simps(2) [of "pred_numeral k" for k, folded numeral_eq_Suc]
  array_loop.simps(2) [of "pred_numeral k" for k, folded numeral_eq_Suc]

theorem scanStructured_refines_witness:
  "\<exists>out c'. scanStructured red_demo_policy None (Some ([CHR ''['', CHR 0x22] @ ''ab'' @ [CHR 0x22] @ '',1]'')) = ((Some out, scanChanged), c')
   \<and> json_document out = Some (JArr [JStr Placeholder, JNum ''1''])"
proof -
  let ?raw = "[CHR ''['', CHR 0x22] @ ''ab'' @ [CHR 0x22] @ '',1]''"
  have s: "scanScalar red_demo_policy None ''ab'' = ((Placeholder, scanChanged), None)"
    by (simp add: scanScalar_def red_demo_policy_def red_demo_options_def builtinRules_def len_def Placeholder_def matcher_find_def
        regexp_find_def FindAllStringIndex_def FindStringIndex_def all_matches_from.simps doExecute.simps boundary_from.simps
        pem_block_def bearer_expression_def stateless_expression_def github_expression_def lit_def any_case_def class_of_def
        step_rune_def assert_at_def with_exit_def repeat_ends_def mergeRanges_def go_slice_def utf8_eval)
  have u: "unquote ''ab'' = ''ab''" by (simp add: unquote.simps unquote_step_def utf8_eval)
  have doc: "json_document ?raw = Some (JArr [JStr ''ab'', JNum ''1''])"
    by (simp add: json_document_def json_read_value_at value_at_eq elems_at_eq scalar_at_def literal_at_def skip_ws_def ws_byte_def
        scan_string.simps HasPrefix_def scan_number_def scan_int_def scan_frac_def scan_exp_def digits1_def is_digit_def
        maxNestingDepth_def u)
  define raw where "raw = ?raw"
  define w where "w = \<lparr>w_ctx = None, w_raw = raw, w_position = 0, w_nodes = 0, w_replacements = []\<rparr>"
  have lit: "parseStringLiteral w = (Some (1, 5, ''ab''), w\<lparr>w_position := 5\<rparr>)" if "w_raw w = raw" "w_position w = 1" for w
    using that json_document_literal [of "''ab''"] u
    by (simp add: parseStringLiteral_def literal_end.simps go_slice_def validJSONStringEncoding_def encoding_from.simps utf8_eval
        scan_string.simps raw_def)
  have lim: "MaxStructuredBytes (pol_limits red_demo_policy) = 64" "MaxStructuredDepth (pol_limits red_demo_policy) = 4"
    "MaxStructuredNodes (pol_limits red_demo_policy) = 8" by (simp_all add: red_demo_policy_def red_demo_options_def)
  have at: "raw ! 0 = CHR ''[''" "raw ! Suc 0 = CHR 0x22" "raw ! 5 = CHR '',''" "raw ! 6 = CHR ''1''" "raw ! 7 = CHR '']''"
    "drop 0 raw = raw" "drop (Suc 0) raw = tl raw" "drop 5 raw = '',1]''" "drop 6 raw = ''1]''" "drop 7 raw = '']''" "length raw = 8"
    "takeWhile ws_byte raw = []" "takeWhile ws_byte (tl raw) = []"
    by (simp_all add: raw_def ws_byte_def)
  have doc': "json_document raw = Some (JArr [JStr ''ab'', JNum ''1''])" "raw \<noteq> []" using doc by (simp_all add: raw_def)
  have "parseValue 17 red_demo_policy 1 w = Some (scanUnchanged, w\<lparr>w_position := 8, w_nodes := 3,
      w_replacements := [(1, 5, marshal_string Placeholder)]\<rparr>)"
    by (simp add: w_def lit walk_numeral poll_def consumeNode_def skipSpace_def w_at_def at lim
        advance_def parse_string_value_def w_scan_def s replace_at_def parsePrimitive_def primitive_stop_def ws_byte_def)
  then have run: "\<exists>out. scanStructured red_demo_policy None (Some raw) = ((Some out, scanChanged), None)"
    using doc' by (simp add: scanStructured_def w_def lim at len_def json_Valid_def poll_def skipSpace_def)
  then obtain out where out: "scanStructured red_demo_policy None (Some raw) = ((Some out, scanChanged), None)" ..
  have "redact_tree red_demo_policy (JArr [JStr ''ab'', JNum ''1'']) = JArr [JStr Placeholder, JNum ''1'']" by (simp add: s)
  with scanStructured_refines [OF red_demo_compiles out] doc out show ?thesis by (simp add: raw_def)
qed

end
