(* ===== verification/Rtk_Json.thy ===== *)
theory Rtk_Json
  imports Redactor_Json
begin

section \<open>rtkreducer: top-level strings of a JSON object\<close>

text \<open>
  json.go of rtkreducer: the scanner that finds the encoded string tokens of the requested
  top-level fields and refuses anything ambiguous. \<open>validJSONStringEncoding\<close>, \<open>parseHexRune\<close> and the
  scan for the closing quote are, line by line, the functions of toolresultredactor/json.go and are
  taken from there. The mutually recursive methods take fuel; \<open>os_enough_fuel\<close> shows that
  \<open>scanObjectStrings\<close> passes enough of it.
\<close>

record stringSpan =
  sp_start :: nat
  sp_end :: nat
  sp_value :: string

record objectScanner =
  os_raw :: bytes
  os_position :: nat
  os_nodes :: int
  os_maxDepth :: int
  os_maxNodes :: int
  os_requested :: "string list"
  os_found :: "(string \<times> stringSpan) list"

definition os_at :: "objectScanner \<Rightarrow> char \<Rightarrow> bool" where
  "os_at s c \<longleftrightarrow> os_position s < length (os_raw s) \<and> os_raw s ! os_position s = c"

definition os_advance :: "objectScanner \<Rightarrow> objectScanner" where
  "os_advance s = s\<lparr>os_position := os_position s + 1\<rparr>"

definition os_skipSpace :: "objectScanner \<Rightarrow> objectScanner" where
  "os_skipSpace s = s\<lparr>os_position := os_position s + length (takeWhile ws_byte (drop (os_position s) (os_raw s)))\<rparr>"

definition os_consumeNode :: "objectScanner \<Rightarrow> bool \<times> objectScanner" where
  "os_consumeNode s = (if os_nodes s \<ge> os_maxNodes s then (False, s) else (True, s\<lparr>os_nodes := os_nodes s + 1\<rparr>))"

definition os_parsePrimitive :: "objectScanner \<Rightarrow> bool \<times> objectScanner" where
  "os_parsePrimitive s =
     (let n = length (takeWhile (\<lambda>c. \<not> primitive_stop c) (drop (os_position s) (os_raw s))) in
      (n > 0, s\<lparr>os_position := os_position s + n\<rparr>))"

definition os_parseStringLiteral :: "objectScanner \<Rightarrow> (nat \<times> nat \<times> string) option \<times> objectScanner" where
  "os_parseStringLiteral s =
     (let start = os_position s in
      case literal_end (os_raw s) (start + 1) of
        (stop, False) \<Rightarrow> (None, s\<lparr>os_position := stop\<rparr>)
      | (stop, True) \<Rightarrow>
          let literal = go_slice (os_raw s) start stop; s = s\<lparr>os_position := stop\<rparr> in
          if \<not> validJSONStringEncoding literal then (None, s)
          else (case json_document literal of
                  Some (JStr decoded) \<Rightarrow> if \<not> utf8_valid decoded then (None, s) else (Some (start, stop, decoded), s)
                | _ \<Rightarrow> (None, s)))"

text \<open>A requested member at the root: its value must be a string, whose span is recorded.\<close>

definition os_wanted :: "int \<Rightarrow> string \<Rightarrow> objectScanner \<Rightarrow> bool \<times> objectScanner" where
  "os_wanted dep key s =
     (if dep + 1 > os_maxDepth s then (False, s)
      else (case os_consumeNode s of
              (False, s) \<Rightarrow> (False, s)
            | (True, s) \<Rightarrow>
                if \<not> os_at s (CHR 0x22) then (False, s)
                else (case os_parseStringLiteral s of
                        (None, s) \<Rightarrow> (False, s)
                      | (Some (start, stop, v), s) \<Rightarrow>
                          (True, s\<lparr>os_found := os_found s @ [(key, \<lparr>sp_start = start, sp_end = stop, sp_value = v\<rparr>)]\<rparr>))))"

fun os_parseValue :: "nat \<Rightarrow> int \<Rightarrow> bool \<Rightarrow> objectScanner \<Rightarrow> (bool \<times> objectScanner) option"
and os_object_loop :: "nat \<Rightarrow> int \<Rightarrow> bool \<Rightarrow> string list \<Rightarrow> objectScanner \<Rightarrow> (bool \<times> objectScanner) option"
and os_array_loop :: "nat \<Rightarrow> int \<Rightarrow> objectScanner \<Rightarrow> (bool \<times> objectScanner) option" where
  "os_parseValue 0 dep root s = None"
| "os_parseValue (Suc n) dep root s =
     (if dep > os_maxDepth s then Some (False, s)
      else (case os_consumeNode s of
              (False, s) \<Rightarrow> Some (False, s)
            | (True, s) \<Rightarrow>
                let s = os_skipSpace s in
                if os_position s \<ge> length (os_raw s) then Some (False, s)
                else if os_at s (CHR ''{'') then
                  (let s = os_skipSpace (os_advance s) in
                   if os_at s (CHR ''}'') then Some (True, os_advance s) else os_object_loop n dep root [] s)
                else if root then Some (False, s)
                else if os_at s (CHR ''['') then
                  (let s = os_skipSpace (os_advance s) in
                   if os_at s (CHR '']'') then Some (True, os_advance s) else os_array_loop n dep s)
                else if os_at s (CHR 0x22) then
                  (case os_parseStringLiteral s of (r, s) \<Rightarrow> Some (r \<noteq> None, s))
                else Some (os_parsePrimitive s)))"
| "os_object_loop 0 dep root seen s = None"
| "os_object_loop (Suc n) dep root seen s =
     (case os_consumeNode s of
        (False, s) \<Rightarrow> Some (False, s)
      | (True, s) \<Rightarrow>
          let s = os_skipSpace s in
          if \<not> os_at s (CHR 0x22) then Some (False, s)
          else (case os_parseStringLiteral s of
                  (None, s) \<Rightarrow> Some (False, s)
                | (Some (_, _, key), s) \<Rightarrow>
                    if List.member seen key then Some (False, s)
                    else let s = os_skipSpace s in
                      if \<not> os_at s (CHR '':'') then Some (False, s)
                      else let s = os_skipSpace (os_advance s) in
                        (case (if root \<and> List.member (os_requested s) key then Some (os_wanted dep key s)
                               else os_parseValue n (dep + 1) False s) of
                           None \<Rightarrow> None
                         | Some (False, s) \<Rightarrow> Some (False, s)
                         | Some (True, s) \<Rightarrow>
                             let s = os_skipSpace s in
                             if os_at s (CHR ''}'') then Some (True, os_advance s)
                             else if os_at s (CHR '','') then os_object_loop n dep root (key # seen) (os_advance s)
                             else Some (False, s))))"
| "os_array_loop 0 dep s = None"
| "os_array_loop (Suc n) dep s =
     (case os_parseValue n (dep + 1) False s of
        None \<Rightarrow> None
      | Some (False, s) \<Rightarrow> Some (False, s)
      | Some (True, s) \<Rightarrow>
          let s = os_skipSpace s in
          if os_at s (CHR '']'') then Some (True, os_advance s)
          else if os_at s (CHR '','') then os_array_loop n dep (os_advance s)
          else Some (False, s))"

declare os_parseValue.simps [simp del] os_object_loop.simps [simp del] os_array_loop.simps [simp del]

definition new_scanner :: "bytes \<Rightarrow> string list \<Rightarrow> int \<Rightarrow> int \<Rightarrow> objectScanner" where
  "new_scanner raw requested maxDepth maxNodes =
     \<lparr>os_raw = raw, os_position = 0, os_nodes = 0, os_maxDepth = maxDepth, os_maxNodes = maxNodes, os_requested = requested, os_found = []\<rparr>"

text \<open>The branch without a result is the exhausted fuel.\<close>

definition scanObjectStrings :: "bytes \<Rightarrow> string list \<Rightarrow> int \<Rightarrow> int \<Rightarrow> (string \<times> stringSpan) list option" where
  "scanObjectStrings raw requested maxDepth maxNodes =
     (if raw = [] \<or> maxDepth \<le> 0 \<or> maxNodes \<le> 0 \<or> \<not> json_Valid raw \<or> \<not> utf8_valid raw then None
      else (case os_parseValue (2 * length raw + 1) 1 True (new_scanner raw requested maxDepth maxNodes) of
              None \<Rightarrow> None
            | Some (False, s) \<Rightarrow> None
            | Some (True, s) \<Rightarrow> let s = os_skipSpace s in if os_position s \<noteq> length raw then None else Some (os_found s)))"

subsection \<open>A value reads the same before any stop\<close>

lemma skip_ws_split: obtains a where "s = a @ skip_ws s" "spaces a"
proof
  show "s = takeWhile ws_byte s @ skip_ws s" by (simp add: skip_ws_def)
  show "spaces (takeWhile ws_byte s)" by (auto simp: spaces_def list_all_iff dest: set_takeWhileD)
qed

lemma starts_with_split: "starts_with c s \<Longrightarrow> s = c # tl s"
  by (cases s) auto

definition value_tail :: "nat \<Rightarrow> bytes \<Rightarrow> bool" where
  "value_tail d s \<longleftrightarrow> (\<forall>v r. value_at d s = Some (v, r) \<longrightarrow> stop_ok r \<longrightarrow>
     (\<exists>x. s = x @ r \<and> (\<forall>r'. stop_ok r' \<longrightarrow> value_at d (x @ r') = Some (v, r'))))"

definition elems_tail :: "nat \<Rightarrow> bytes \<Rightarrow> bool" where
  "elems_tail d s \<longleftrightarrow> (\<forall>vs r. elems_at d s = Some (vs, r) \<longrightarrow> (\<exists>x. s = x @ r \<and> (\<forall>r'. elems_at d (x @ r') = Some (vs, r'))))"

definition members_tail :: "nat \<Rightarrow> bytes \<Rightarrow> bool" where
  "members_tail d s \<longleftrightarrow> (\<forall>ms r. members_at d s = Some (ms, r) \<longrightarrow> (\<exists>x. s = x @ r \<and> (\<forall>r'. members_at d (x @ r') = Some (ms, r'))))"

lemma value_tail_step:
  assumes e: "\<And>y. length y < length s \<Longrightarrow> elems_tail (d - 1) y" and m: "\<And>y. length y < length s \<Longrightarrow> members_tail (d - 1) y"
  shows "value_tail d s"
  unfolding value_tail_def
proof (intro allI impI)
  fix v r
  assume v: "value_at d s = Some (v, r)" and r: "stop_ok r"
  obtain a where a: "s = a @ skip_ws s" "spaces a" by (rule skip_ws_split)
  let ?t = "skip_ws s"
  consider (arr) "starts_with (CHR ''['') ?t" | (obj) "starts_with (CHR ''{'') ?t" "\<not> starts_with (CHR ''['') ?t"
    | (scalar) "\<not> starts_with (CHR ''['') ?t" "\<not> starts_with (CHR ''{'') ?t" by blast
  then show "\<exists>x. s = x @ r \<and> (\<forall>r'. stop_ok r' \<longrightarrow> value_at d (x @ r') = Some (v, r'))"
  proof cases
    case arr
    note t = starts_with_split[OF arr]
    obtain b where b: "tl ?t = b @ skip_ws (tl ?t)" "spaces b" by (rule skip_ws_split)
    let ?u = "skip_ws (tl ?t)"
    have s: "s = a @ CHR ''['' # b @ ?u" using a(1) t b(1) by metis
    show ?thesis
    proof (cases "starts_with (CHR '']'') ?u")
      case True
      then have vr: "v = JArr []" "r = tl ?u" "d \<noteq> 0" using v arr by (auto simp: value_at_eq[of d s] Let_def split: if_splits)
      have "s = (a @ CHR ''['' # b @ [CHR '']'']) @ r" using s starts_with_split[OF True] vr(2) by (metis append.assoc append_Cons append_Nil)
      moreover have "value_at d ((a @ CHR ''['' # b @ [CHR '']'']) @ r') = Some (v, r')" for r'
        using array_text_empty[OF a(2) b(2) vr(3), of r'] vr(1) by simp
      ultimately show ?thesis by blast
    next
      case False
      then obtain vs where vs: "elems_at (d - 1) ?u = Some (vs, r)" "v = JArr vs" "d \<noteq> 0"
        using v arr by (auto simp: value_at_eq[of d s] Let_def split: if_splits)
      have "length ?u < length s" using arg_cong[OF s, of length] by simp
      from e[OF this] obtain x where x: "?u = x @ r" "\<And>r'. elems_at (d - 1) (x @ r') = Some (vs, r')"
        using vs(1) unfolding elems_tail_def by blast
      have "s = (a @ CHR ''['' # b @ x) @ r" using s x(1) by simp
      moreover have "value_at d ((a @ CHR ''['' # b @ x) @ r') = Some (v, r')" for r'
        using array_text[OF a(2) b(2) x(2) vs(3), of r'] vs(2) by simp
      ultimately show ?thesis by blast
    qed
  next
    case obj
    note t = starts_with_split[OF obj(1)]
    obtain b where b: "tl ?t = b @ skip_ws (tl ?t)" "spaces b" by (rule skip_ws_split)
    let ?u = "skip_ws (tl ?t)"
    have s: "s = a @ CHR ''{'' # b @ ?u" using a(1) t b(1) by metis
    show ?thesis
    proof (cases "starts_with (CHR ''}'') ?u")
      case True
      then have vr: "v = JObj []" "r = tl ?u" "d \<noteq> 0" using v obj by (auto simp: value_at_eq[of d s] Let_def split: if_splits)
      have "s = (a @ CHR ''{'' # b @ [CHR ''}'']) @ r" using s starts_with_split[OF True] vr(2) by (metis append.assoc append_Cons append_Nil)
      moreover have "value_at d ((a @ CHR ''{'' # b @ [CHR ''}'']) @ r') = Some (v, r')" for r'
        using object_text_empty[OF a(2) b(2) vr(3), of r'] vr(1) by simp
      ultimately show ?thesis by blast
    next
      case False
      then obtain ms where ms: "members_at (d - 1) ?u = Some (ms, r)" "v = JObj ms" "d \<noteq> 0"
        using v obj by (auto simp: value_at_eq[of d s] Let_def split: if_splits)
      have "length ?u < length s" using arg_cong[OF s, of length] by simp
      from m[OF this] obtain x where x: "?u = x @ r" "\<And>r'. members_at (d - 1) (x @ r') = Some (ms, r')"
        using ms(1) unfolding members_tail_def by blast
      have "s = (a @ CHR ''{'' # b @ x) @ r" using s x(1) by simp
      moreover have "value_at d ((a @ CHR ''{'' # b @ x) @ r') = Some (v, r')" for r'
        using object_text[OF a(2) b(2) x(2) ms(3), of r'] ms(2) by simp
      ultimately show ?thesis by blast
    qed
  next
    case scalar
    have sc: "scalar_at ?t = Some (v, r)" using v scalar by (simp add: value_at_eq[of d s] Let_def)
    show ?thesis
    proof (cases "starts_with (CHR 0x22) ?t")
      case True
      then obtain l where l: "scan_string (tl ?t) = Some (l, r)" "v = JStr (unquote l)"
        using sc by (auto simp: scalar_at_def starts_with_def)
      have "s = (a @ CHR 0x22 # l @ [CHR 0x22]) @ r" using a(1) starts_with_split[OF True] scan_string_append[OF l(1)]
        by (metis append.assoc append_Cons append_Nil)
      moreover have "value_at d ((a @ CHR 0x22 # l @ [CHR 0x22]) @ r') = Some (v, r')" for r'
        using value_at_spaces[OF a(2)] string_value_at[OF scan_string_tail[OF l(1), of "[]"]] l(2) by simp
      ultimately show ?thesis by blast
    next
      case False
      then have "literal_at ?t = Some (v, r)" using sc by (auto simp: scalar_at_def starts_with_def split: if_splits)
      from literal_at_tail[OF this] obtain l where l: "?t = l @ r" "l \<noteq> []" "\<And>t. stop_ok t \<Longrightarrow> literal_at (l @ t) = Some (v, t)"
        "hd l \<noteq> CHR ''[''" "hd l \<noteq> CHR ''{''" "hd l \<noteq> CHR 0x22" "\<not> ws_byte (hd l)" by auto
      obtain c u where cu: "l = c # u" using l(2) by (cases l) auto
      have "value_at d ((a @ l) @ r') = Some (v, r')" if "stop_ok r'" for r'
      proof -
        have "literal_at (c # u @ r') = Some (v, r')" using l(3)[OF that] cu by simp
        then have "value_at d (l @ r') = Some (v, r')" unfolding cu using l(4-7) cu by (subst value_at_eq) (simp add: scalar_at_def)
        then show ?thesis using value_at_spaces[OF a(2)] by simp
      qed
      moreover have "s = (a @ l) @ r" using a(1) l(1) by simp
      ultimately show ?thesis by blast
    qed
  qed
qed

lemma separator_split:
  assumes "starts_with e (skip_ws q)"
  obtains c where "q = c @ e # tl (skip_ws q)" "spaces c"
  using skip_ws_split[of q] starts_with_split[OF assms] by metis

lemma elems_tail_step:
  assumes v: "value_tail d s" and e: "\<And>y. length y < length s \<Longrightarrow> elems_tail d y"
  shows "elems_tail d s"
  unfolding elems_tail_def
proof (intro allI impI)
  fix vs r
  assume run: "elems_at d s = Some (vs, r)"
  obtain v1 q where q: "value_at d s = Some (v1, q)" using run by (subst (asm) elems_at_eq) (auto split: option.splits)
  then consider (stop) "starts_with (CHR '']'') (skip_ws q)" "vs = [v1]" "r = tl (skip_ws q)"
    | (more) us where "starts_with (CHR '','') (skip_ws q)" "elems_at d (tl (skip_ws q)) = Some (us, r)" "vs = v1 # us"
    using run by (subst (asm) elems_at_eq) (auto simp: Let_def split: if_splits)
  then show "\<exists>x. s = x @ r \<and> (\<forall>r'. elems_at d (x @ r') = Some (vs, r'))"
  proof cases
    case stop
    obtain c where c: "q = c @ CHR '']'' # r" "spaces c" using separator_split[OF stop(1)] stop(3) by metis
    have "stop_ok q" using stop(1) by (intro stop_ok_skip) simp
    then obtain x where x: "s = x @ q" "\<And>r'. stop_ok r' \<Longrightarrow> value_at d (x @ r') = Some (v1, r')" using v q unfolding value_tail_def by blast
    have "elems_at d ((x @ c @ [CHR '']'']) @ r') = Some (vs, r')" for r'
      using elems_text[OF c(2) x(2)[OF stop_ok_text[OF c(2)], of "CHR '']''" r'], of "[]" r'] stop(2) by simp
    then show ?thesis using x(1) c(1) by (intro exI[of _ "x @ c @ [CHR '']'']"]) simp
  next
    case (more us)
    obtain c where c: "q = c @ CHR '','' # tl (skip_ws q)" "spaces c" using separator_split[OF more(1)] by metis
    have "stop_ok q" using more(1) by (intro stop_ok_skip) simp
    then obtain x where x: "s = x @ q" "\<And>r'. stop_ok r' \<Longrightarrow> value_at d (x @ r') = Some (v1, r')" using v q unfolding value_tail_def by blast
    have "length (tl (skip_ws q)) < length s" using x(1) arg_cong[OF c(1), of length] by simp
    then obtain y where y: "tl (skip_ws q) = y @ r" "\<And>r'. elems_at d (y @ r') = Some (us, r')" using e more(2) unfolding elems_tail_def by blast
    have "elems_at d ((x @ c @ CHR '','' # y) @ r') = Some (vs, r')" for r'
      using elems_text[OF c(2) x(2)[OF stop_ok_text[OF c(2)], of "CHR '',''" "y @ r'"], of us r'] y(2) more(3) by simp
    moreover have "s = (x @ c @ CHR '','' # y) @ r" using x(1) c(1) y(1) by (metis append.assoc append_Cons)
    ultimately show ?thesis by blast
  qed
qed

lemma members_tail_step:
  assumes v: "\<And>y. length y < length s \<Longrightarrow> value_tail d y" and m: "\<And>y. length y < length s \<Longrightarrow> members_tail d y"
  shows "members_tail d s"
  unfolding members_tail_def
proof (intro allI impI)
  fix ms r
  assume run: "members_at d s = Some (ms, r)"
  from run obtain k rk v1 q where k: "scan_string (tl (skip_ws s)) = Some (k, rk)" "value_at d (tl (skip_ws rk)) = Some (v1, q)" "stop_ok q"
    and ms: "starts_with (CHR ''}'') (skip_ws q) \<and> ms = [(unquote k, v1)] \<and> r = tl (skip_ws q)
     \<or> starts_with (CHR '','') (skip_ws q) \<and> (\<exists>us. members_at d (tl (skip_ws q)) = Some (us, r) \<and> ms = (unquote k, v1) # us)"
    by (rule members_cases) blast
  have quote: "starts_with (CHR 0x22) (skip_ws s)" "starts_with (CHR '':'') (skip_ws rk)"
    using run k(1) by (subst (asm) members_at_eq; auto simp: Let_def split: if_splits)+
  obtain a where a: "s = a @ CHR 0x22 # tl (skip_ws s)" "spaces a" by (rule separator_split[OF quote(1)])
  obtain b where b: "rk = b @ CHR '':'' # tl (skip_ws rk)" "spaces b" by (rule separator_split[OF quote(2)])
  have s: "s = a @ CHR 0x22 # k @ CHR 0x22 # b @ CHR '':'' # tl (skip_ws rk)" using a(1) b(1) scan_string_append[OF k(1)] by metis
  have "length (tl (skip_ws rk)) < length s" using arg_cong[OF s, of length] by simp
  then obtain x where x: "tl (skip_ws rk) = x @ q" "\<And>r'. stop_ok r' \<Longrightarrow> value_at d (x @ r') = Some (v1, r')"
    using v k(2,3) unfolding value_tail_def by blast
  have lit: "scan_string (k @ [CHR 0x22]) = Some (k, [])" using scan_string_tail[OF k(1), of "[]"] .
  note mt = members_text[OF a(2) b(2) _ lit]
  let ?h = "a @ CHR 0x22 # k @ CHR 0x22 # b @ CHR '':'' # x"
  have sq: "s = ?h @ q" using s x(1) by simp
  show "\<exists>x. s = x @ r \<and> (\<forall>r'. members_at d (x @ r') = Some (ms, r'))"
    using ms
  proof (elim disjE conjE exE)
    assume e: "starts_with (CHR ''}'') (skip_ws q)" "ms = [(unquote k, v1)]" "r = tl (skip_ws q)"
    obtain c where c: "q = c @ CHR ''}'' # r" "spaces c" using separator_split[OF e(1)] e(3) by metis
    have "members_at d ((?h @ c @ [CHR ''}'']) @ r') = Some (ms, r')" for r'
      using mt[OF c(2) x(2)[OF stop_ok_text[OF c(2)], of "CHR ''}''" r'], of "[]" r'] e(2) by simp
    then show ?thesis using sq c(1) by (intro exI[of _ "?h @ c @ [CHR ''}'']"]) simp
  next
    fix us
    assume e: "starts_with (CHR '','') (skip_ws q)" "members_at d (tl (skip_ws q)) = Some (us, r)" "ms = (unquote k, v1) # us"
    obtain c where c: "q = c @ CHR '','' # tl (skip_ws q)" "spaces c" by (rule separator_split[OF e(1)])
    have "length (tl (skip_ws q)) < length s" using sq arg_cong[OF c(1), of length] by simp
    then obtain y where y: "tl (skip_ws q) = y @ r" "\<And>r'. members_at d (y @ r') = Some (us, r')" using m e(2) unfolding members_tail_def by blast
    have "members_at d ((?h @ c @ CHR '','' # y) @ r') = Some (ms, r')" for r'
      using mt[OF c(2) x(2)[OF stop_ok_text[OF c(2)], of "CHR '',''" "y @ r'"], of us r'] y(2) e(3) by simp
    moreover have "s = (?h @ c @ CHR '','' # y) @ r" using sq c(1) y(1) by (metis append.assoc append_Cons)
    ultimately show ?thesis by blast
  qed
qed

lemma all_tails: "value_tail d s \<and> elems_tail d s \<and> members_tail d s"
proof (induction s arbitrary: d rule: length_induct)
  case (1 s)
  have ih: "value_tail k y" "elems_tail k y" "members_tail k y" if "length y < length s" for k y using 1 that by blast+
  have "value_tail d s" by (rule value_tail_step) (rule ih(2) ih(3), assumption)+
  moreover from this have "elems_tail d s" by (rule elems_tail_step) (rule ih(2))
  moreover have "members_tail d s" by (rule members_tail_step) (rule ih(1) ih(3), assumption)+
  ultimately show ?case by blast
qed

lemma value_at_tail:
  assumes "value_at d s = Some (v, r)" "stop_ok r"
  obtains x where "s = x @ r" "\<And>r'. stop_ok r' \<Longrightarrow> value_at d (x @ r') = Some (v, r')"
  using all_tails[of d s] assms unfolding value_tail_def by blast

subsection \<open>The scanner follows the grammar\<close>

definition otext :: "objectScanner \<Rightarrow> bytes" where
  "otext s = drop (os_position s) (os_raw s)"

definition oplaced :: "objectScanner \<Rightarrow> bool" where
  "oplaced s \<longleftrightarrow> os_position s \<le> length (os_raw s)"

text \<open>Moved on to the text \<open>r\<close> with nothing recorded.\<close>

definition stepped :: "objectScanner \<Rightarrow> objectScanner \<Rightarrow> bytes \<Rightarrow> bool" where
  "stepped s s' r \<longleftrightarrow> otext s' = r \<and> oplaced s' \<and> os_position s \<le> os_position s' \<and> os_raw s' = os_raw s
     \<and> os_requested s' = os_requested s \<and> os_found s' = os_found s"

lemma stepped_trans: "stepped s s1 r1 \<Longrightarrow> stepped s1 s2 r2 \<Longrightarrow> stepped s s2 r2"
  by (simp add: stepped_def)

text \<open>The scanner seen as the walker of the redactor, for the lemmas on literals.\<close>

definition ow :: "objectScanner \<Rightarrow> jsonWalker" where
  "ow s = \<lparr>w_ctx = None, w_raw = os_raw s, w_position = os_position s, w_nodes = os_nodes s, w_replacements = []\<rparr>"

lemma ow_text: "wtext (ow s) = otext s" "placed (ow s) = oplaced s" "w_at (ow s) c = os_at s c"
  "ow (os_skipSpace s) = skipSpace (ow s)" "w_position (ow s) = os_position s"
  by (simp_all add: ow_def wtext_def otext_def placed_def oplaced_def w_at_def os_at_def os_skipSpace_def skipSpace_def)

lemma os_skip:
  assumes "oplaced s"
  shows "stepped s (os_skipSpace s) (skip_ws (otext s))" "spaces (go_slice (os_raw s) (os_position s) (os_position (os_skipSpace s)))"
proof -
  note sk = skip_walker[of "ow s", unfolded ow_text(1,2), OF assms]
  have p: "oplaced (os_skipSpace s)" "otext (os_skipSpace s) = skip_ws (otext s)" using sk(1,3) ow_text(1,2,4)[of "s"] ow_text(1,2)[of "os_skipSpace s"] by simp_all
  then show "stepped s (os_skipSpace s) (skip_ws (otext s))" by (simp add: stepped_def os_skipSpace_def)
  show "spaces (go_slice (os_raw s) (os_position s) (os_position (os_skipSpace s)))"
    using sk(2) ow_text(5)[of "os_skipSpace s"] ow_text(4)[of s] by (simp add: wtaken_def ow_text(5) ow_def[of s])
qed

lemma os_at_text: "oplaced s \<Longrightarrow> os_at s c \<longleftrightarrow> starts_with c (otext s)"
  using w_at_text[of "ow s" c] by (simp add: ow_text)

lemma os_step: "os_at s c \<Longrightarrow> stepped s (os_advance s) (tl (otext s))"
  by (auto simp: stepped_def os_advance_def otext_def oplaced_def os_at_def tl_drop[symmetric] drop_Suc)

lemma os_consumed: "os_consumeNode s = (True, s1) \<Longrightarrow> oplaced s \<Longrightarrow> stepped s s1 (otext s) \<and> os_position s1 = os_position s"
  by (auto simp: os_consumeNode_def stepped_def otext_def oplaced_def split: if_splits)

lemma os_literal:
  assumes run: "os_parseStringLiteral s = (Some (a, b, v), s')" and q: "os_at s (CHR 0x22)" "oplaced s"
    and scan: "scan_string (tl (otext s)) = Some (l, r)"
  shows "stepped s s' r \<and> v = unquote l \<and> utf8_valid v \<and> a = os_position s \<and> b = os_position s' \<and> scan_string (l @ [CHR 0x22]) = Some (l, [])
    \<and> go_slice (os_raw s) a b = CHR 0x22 # l @ [CHR 0x22]"
proof -
  have p: "parseStringLiteral (ow s) = (Some (a, b, v), ow s')" "s' = s\<lparr>os_position := b\<rparr>" "utf8_valid v"
    using run by (auto simp: os_parseStringLiteral_def parseStringLiteral_def ow_def Let_def
        split: prod.splits bool.splits if_splits option.splits json.splits)
  note l = literal_sim[OF p(1), unfolded ow_text, OF q scan]
  show ?thesis using l p(2,3) by (simp add: stepped_def moved_def ow_text wtaken_def) (simp add: ow_def)
qed

lemma os_primitive:
  assumes "os_parsePrimitive s = (True, s')" "oplaced s" "literal_at (otext s) = Some (t, r)" "stop_ok r"
  shows "stepped s s' r"
proof -
  obtain l where l: "otext s = l @ r" "plain_chars l" using literal_at_tail[OF assms(3)] by auto
  have "takeWhile (\<lambda>c. \<not> primitive_stop c) r = []" using assms(4) by (cases r) (auto simp: stop_ok_def)
  then have "takeWhile (\<lambda>c. \<not> primitive_stop c) (l @ r) = l" using l(2) by (simp add: plain_chars_def list_all_iff takeWhile_append2)
  then have s': "s' = s\<lparr>os_position := os_position s + length l\<rparr>" using assms(1) l(1) by (simp add: os_parsePrimitive_def otext_def Let_def)
  have "length l \<le> length (os_raw s) - os_position s" using arg_cong[OF l(1), of length] by (simp add: otext_def)
  moreover have "drop (length l) (otext s) = r" using l(1) by simp
  ultimately show ?thesis using assms(2) s' by (simp add: stepped_def otext_def oplaced_def add.commute)
qed

fun unique_tree :: "json \<Rightarrow> bool" where
  "unique_tree (JObj ms) = (distinct (map fst ms) \<and> (\<forall>m \<in> set ms. unique_tree (snd m)))"
| "unique_tree (JArr vs) = (\<forall>v \<in> set vs. unique_tree v)"
| "unique_tree _ = True"

text \<open>A successful round of the object loop, up to the member's value and from its end.\<close>

definition object_round ::
  "nat \<Rightarrow> int \<Rightarrow> bool \<Rightarrow> string list \<Rightarrow> objectScanner \<Rightarrow> objectScanner \<Rightarrow> nat \<Rightarrow> (string \<times> json) list \<Rightarrow> bytes
   \<Rightarrow> bytes \<Rightarrow> json \<Rightarrow> bytes \<Rightarrow> objectScanner \<Rightarrow> objectScanner \<Rightarrow> bool" where
  "object_round n dep root seen s s' d ms r k v1 q s3 s5 \<longleftrightarrow>
     stepped s s3 (otext s3) \<and> value_at d (otext s3) = Some (v1, q) \<and> stop_ok q \<and> unquote k \<notin> set seen \<and> \<not> ws_byte (hd (otext s3)) \<and>
     scan_string (k @ [CHR 0x22]) = Some (k, []) \<and>
     (\<exists>a b1 b2. go_slice (os_raw s) (os_position s) (os_position s3) = a @ CHR 0x22 # k @ CHR 0x22 # b1 @ CHR '':'' # b2 \<and>
        spaces a \<and> spaces b1 \<and> spaces b2) \<and>
     (if root \<and> unquote k \<in> set (os_requested s) then Some (os_wanted dep (unquote k) s3) else os_parseValue n (dep + 1) False s3) = Some (True, s5) \<and>
     (os_at (os_skipSpace s5) (CHR ''}'') \<and> s' = os_advance (os_skipSpace s5)
      \<or> os_at (os_skipSpace s5) (CHR '','')
        \<and> os_object_loop n dep root (unquote k # seen) (os_advance (os_skipSpace s5)) = Some (True, s')) \<and>
     (starts_with (CHR ''}'') (skip_ws q) \<and> ms = [(unquote k, v1)] \<and> r = tl (skip_ws q)
      \<or> starts_with (CHR '','') (skip_ws q) \<and> (\<exists>us. members_at d (tl (skip_ws q)) = Some (us, r) \<and> ms = (unquote k, v1) # us))"

lemma object_head:
  assumes run: "os_object_loop (Suc n) dep root seen s = Some (True, s')" and pl: "oplaced s" and ms: "members_at d (otext s) = Some (ms, r)"
  obtains k v1 q s3 s5 where "object_round n dep root seen s s' d ms r k v1 q s3 s5"
proof -
  from ms obtain k rk v1 q where k: "scan_string (tl (skip_ws (otext s))) = Some (k, rk)" "value_at d (tl (skip_ws rk)) = Some (v1, q)" "stop_ok q"
    and nx: "starts_with (CHR ''}'') (skip_ws q) \<and> ms = [(unquote k, v1)] \<and> r = tl (skip_ws q)
     \<or> starts_with (CHR '','') (skip_ws q) \<and> (\<exists>us. members_at d (tl (skip_ws q)) = Some (us, r) \<and> ms = (unquote k, v1) # us)"
    by (rule members_cases) blast
  note run = run[unfolded os_object_loop.simps Let_def]
  obtain b1 s1 where s1: "os_consumeNode s = (b1, s1)" by (metis surj_pair)
  define t1 where "t1 = os_skipSpace s1"
  obtain o2 s2 where o2: "os_parseStringLiteral t1 = (o2, s2)" by (metis surj_pair)
  have b1: "b1" "os_at t1 (CHR 0x22)" using run s1 by (auto simp: t1_def split: bool.splits if_splits)
  have "o2 \<noteq> None" using run s1 o2 b1 by (cases o2) (simp_all add: t1_def)
  then obtain i j key where o2': "o2 = Some (i, j, key)" by (cases o2) auto
  define t2 where "t2 = os_skipSpace s2"
  define s3 where "s3 = os_skipSpace (os_advance t2)"
  have c: "\<not> List.member seen key" "os_at t2 (CHR '':'')" using run s1 b1 o2 o2' by (auto simp: t1_def t2_def split: if_splits)
  define mid where "mid = (if root \<and> List.member (os_requested s3) key then Some (os_wanted dep key s3) else os_parseValue n (dep + 1) False s3)"
  have run3: "(case mid of None \<Rightarrow> None | Some (False, s) \<Rightarrow> Some (False, s) | Some (True, s) \<Rightarrow>
      if os_at (os_skipSpace s) (CHR ''}'') then Some (True, os_advance (os_skipSpace s))
      else if os_at (os_skipSpace s) (CHR '','') then os_object_loop n dep root (key # seen) (os_advance (os_skipSpace s))
      else Some (False, os_skipSpace s)) = Some (True, s')"
    using run s1 b1 o2 o2' c unfolding mid_def s3_def t2_def t1_def by (simp split del: if_split)
  then obtain s5 where s5: "mid = Some (True, s5)" by (auto split: option.splits bool.splits)
  have st1: "stepped s s1 (otext s)" "os_position s1 = os_position s" using os_consumed[of s s1] s1 b1(1) pl by simp_all
  then have p1: "oplaced s1" by (simp add: stepped_def)
  note t1 = os_skip[OF p1, folded t1_def]
  have scan: "scan_string (tl (otext t1)) = Some (k, rk)" "oplaced t1" using k(1) t1(1) st1(1) by (simp_all add: stepped_def)
  note lit = os_literal[OF o2[unfolded o2'] b1(2) scan(2,1)]
  have p2: "oplaced s2" using lit by (simp add: stepped_def)
  note t2 = os_skip[OF p2, folded t2_def]
  note ad = os_step[OF c(2)]
  have pa: "oplaced (os_advance t2)" using ad by (simp add: stepped_def)
  note t3 = os_skip[OF pa, folded s3_def]
  have all: "stepped s s3 (otext s3)"
    using st1(1) t1(1) lit t2(1) ad t3(1) by (auto simp: stepped_def)
  have text3: "otext s3 = skip_ws (tl (skip_ws rk))" using lit t2(1) ad t3(1) by (simp add: stepped_def)
  have slice: "go_slice (os_raw s) (os_position s) (os_position s3) =
      go_slice (os_raw s) (os_position s) (os_position t1) @ go_slice (os_raw s) (os_position t1) (os_position s2) @
      go_slice (os_raw s) (os_position s2) (os_position t2) @ go_slice (os_raw s) (os_position t2) (os_position (os_advance t2)) @
      go_slice (os_raw s) (os_position (os_advance t2)) (os_position s3)"
    using st1 t1(1) lit t2(1) ad t3(1) by (simp add: stepped_def slice_append_slice)
  have raws: "os_raw s1 = os_raw s" "os_raw t1 = os_raw s" "os_raw s2 = os_raw s" "os_raw t2 = os_raw s" "os_raw (os_advance t2) = os_raw s"
    using st1(1) t1(1) lit t2(1) ad by (simp_all add: stepped_def)
  have colon: "go_slice (os_raw s) (os_position t2) (os_position (os_advance t2)) = [CHR '':'']"
    using c(2) raws(4) Cons_nth_drop_Suc[of "os_position t2" "os_raw s", symmetric] by (simp add: os_at_def os_advance_def go_slice_def)
  have 1: "value_at d (otext s3) = Some (v1, q)" using k(2) text3 value_at_skip by metis
  then have "otext s3 \<noteq> []" using value_at_shrinks[of d "otext s3"] by fastforce
  then have 2: "\<not> ws_byte (hd (otext s3))" using text3 hd_dropWhile[of ws_byte "tl (skip_ws rk)"] by (simp add: skip_ws_def)
  have "go_slice (os_raw s) (os_position s) (os_position s3) = go_slice (os_raw s) (os_position s) (os_position t1) @ CHR 0x22 # k @ CHR 0x22 #
        go_slice (os_raw s) (os_position s2) (os_position t2) @ CHR '':'' # go_slice (os_raw s) (os_position (os_advance t2)) (os_position s3)"
    using slice lit colon raws by auto
  moreover have "spaces (go_slice (os_raw s) (os_position s) (os_position t1))" "spaces (go_slice (os_raw s) (os_position s2) (os_position t2))"
    "spaces (go_slice (os_raw s) (os_position (os_advance t2)) (os_position s3))" using t1(2) t2(2) t3(2) st1 raws by simp_all
  ultimately have 3: "\<exists>a b1 b2. go_slice (os_raw s) (os_position s) (os_position s3) = a @ CHR 0x22 # k @ CHR 0x22 # b1 @ CHR '':'' # b2 \<and>
        spaces a \<and> spaces b1 \<and> spaces b2" by blast
  have req: "os_requested s3 = os_requested s" "key = unquote k" using all lit by (simp_all add: stepped_def)
  have 4: "(if root \<and> unquote k \<in> set (os_requested s) then Some (os_wanted dep (unquote k) s3) else os_parseValue n (dep + 1) False s3) = Some (True, s5)"
    using s5 unfolding mid_def req by simp
  have 5: "os_at (os_skipSpace s5) (CHR ''}'') \<and> s' = os_advance (os_skipSpace s5)
     \<or> os_at (os_skipSpace s5) (CHR '','')
        \<and> os_object_loop n dep root (unquote k # seen) (os_advance (os_skipSpace s5)) = Some (True, s')"
    using run3 s5 req(2) by (auto split: if_splits)
  have 6: "unquote k \<notin> set seen" "scan_string (k @ [CHR 0x22]) = Some (k, [])" using c(1) lit by simp_all
  show thesis by (rule that[of k v1 q s3 s5]) (unfold object_round_def, intro conjI, (rule all 1 2 3 4 5 6 k(3) nx)+)
qed

text \<open>Nested values: the scanner ends where the grammar does and records nothing.\<close>

definition value_sync :: "nat \<Rightarrow> bool" where
  "value_sync n \<longleftrightarrow> (\<forall>dep s s' d t r. os_parseValue n dep False s = Some (True, s') \<longrightarrow> oplaced s \<longrightarrow>
     value_at d (otext s) = Some (t, r) \<longrightarrow> stop_ok r \<longrightarrow> stepped s s' r \<and> unique_tree t)"

definition members_sync :: "nat \<Rightarrow> bool" where
  "members_sync n \<longleftrightarrow> (\<forall>dep seen s s' d ms r. os_object_loop n dep False seen s = Some (True, s') \<longrightarrow> oplaced s \<longrightarrow>
     members_at d (otext s) = Some (ms, r) \<longrightarrow> stepped s s' r \<and> unique_tree (JObj ms) \<and> set seen \<inter> fst ` set ms = {})"

definition elems_sync :: "nat \<Rightarrow> bool" where
  "elems_sync n \<longleftrightarrow> (\<forall>dep s s' d vs r. os_array_loop n dep s = Some (True, s') \<longrightarrow> oplaced s \<longrightarrow>
     elems_at d (otext s) = Some (vs, r) \<longrightarrow> stepped s s' r \<and> unique_tree (JArr vs))"

lemma after_value:
  assumes "stepped s s5 q" "os_at (os_skipSpace s5) e"
  shows "starts_with e (skip_ws q)" "stepped s (os_advance (os_skipSpace s5)) (tl (skip_ws q))"
proof -
  have p: "oplaced s5" "otext s5 = q" using assms(1) by (simp_all add: stepped_def)
  note sk = os_skip(1)[OF p(1)]
  then have p2: "oplaced (os_skipSpace s5)" "otext (os_skipSpace s5) = skip_ws q" using p(2) by (simp_all add: stepped_def)
  then show "starts_with e (skip_ws q)" using assms(2) os_at_text by metis
  have "stepped (os_skipSpace s5) (os_advance (os_skipSpace s5)) (tl (skip_ws q))" using os_step[OF assms(2)] p2(2) by simp
  then show "stepped s (os_advance (os_skipSpace s5)) (tl (skip_ws q))" using stepped_trans assms(1) sk by blast
qed

lemma starts_with_other: "starts_with a s \<Longrightarrow> a \<noteq> b \<Longrightarrow> \<not> starts_with b s"
  by (auto simp: starts_with_def)

lemma members_sync_step:
  assumes "value_sync n" "members_sync n"
  shows "members_sync (Suc n)"
  unfolding members_sync_def
proof (intro allI impI)
  fix dep seen s s' d ms r
  assume run: "os_object_loop (Suc n) dep False seen s = Some (True, s')" and pl: "oplaced s" and ms: "members_at d (otext s) = Some (ms, r)"
  from object_head[OF run pl ms] obtain k v1 q s3 s5 where round: "object_round n dep False seen s s' d ms r k v1 q s3 s5" .
  then have h: "stepped s s3 (otext s3)" "value_at d (otext s3) = Some (v1, q)" "stop_ok q" "unquote k \<notin> set seen"
    and mid: "os_parseValue n (dep + 1) False s3 = Some (True, s5)"
    and nx: "os_at (os_skipSpace s5) (CHR ''}'') \<and> s' = os_advance (os_skipSpace s5)
     \<or> os_at (os_skipSpace s5) (CHR '','') \<and> os_object_loop n dep False (unquote k # seen) (os_advance (os_skipSpace s5)) = Some (True, s')"
    and m: "starts_with (CHR ''}'') (skip_ws q) \<and> ms = [(unquote k, v1)] \<and> r = tl (skip_ws q)
     \<or> starts_with (CHR '','') (skip_ws q) \<and> (\<exists>us. members_at d (tl (skip_ws q)) = Some (us, r) \<and> ms = (unquote k, v1) # us)"
    by (simp_all add: object_round_def)
  have p3: "oplaced s3" using h(1) by (simp add: stepped_def)
  have v: "stepped s3 s5 q" "unique_tree v1" using assms(1) mid p3 h(2,3) unfolding value_sync_def by blast+
  then have s5: "stepped s s5 q" using h(1) stepped_trans by blast
  from nx show "stepped s s' r \<and> unique_tree (JObj ms) \<and> set seen \<inter> fst ` set ms = {}"
  proof (elim disjE conjE)
    assume e: "os_at (os_skipSpace s5) (CHR ''}'')" "s' = os_advance (os_skipSpace s5)"
    note a = after_value[OF s5 e(1)]
    then have "ms = [(unquote k, v1)]" "r = tl (skip_ws q)" using m starts_with_other[OF a(1), of "CHR '',''"] by auto
    then show ?thesis using a e(2) v h(4) by simp
  next
    assume e: "os_at (os_skipSpace s5) (CHR '','')"
      and loop: "os_object_loop n dep False (unquote k # seen) (os_advance (os_skipSpace s5)) = Some (True, s')"
    note a = after_value[OF s5 e]
    then obtain us where us: "members_at d (tl (skip_ws q)) = Some (us, r)" "ms = (unquote k, v1) # us"
      using m starts_with_other[OF a(1), of "CHR ''}''"] by auto
    have p: "oplaced (os_advance (os_skipSpace s5))" "otext (os_advance (os_skipSpace s5)) = tl (skip_ws q)" using a(2) by (simp_all add: stepped_def)
    have "stepped (os_advance (os_skipSpace s5)) s' r \<and> unique_tree (JObj us) \<and> set (unquote k # seen) \<inter> fst ` set us = {}"
      using assms(2) loop p(1) us(1)[folded p(2)] unfolding members_sync_def by blast
    then show ?thesis using a(2) stepped_trans v(2) us(2) h(4) by auto
  qed
qed

lemma elems_sync_step:
  assumes "value_sync n" "elems_sync n"
  shows "elems_sync (Suc n)"
  unfolding elems_sync_def
proof (intro allI impI)
  fix dep s s' d vs r
  assume run: "os_array_loop (Suc n) dep s = Some (True, s')" and pl: "oplaced s" and vs: "elems_at d (otext s) = Some (vs, r)"
  obtain s5 where s5: "os_parseValue n (dep + 1) False s = Some (True, s5)"
    using run by (auto simp: os_array_loop.simps split: option.splits bool.splits)
  obtain v1 q where q: "value_at d (otext s) = Some (v1, q)" using vs by (subst (asm) elems_at_eq) (auto split: option.splits)
  then have m: "starts_with (CHR '']'') (skip_ws q) \<and> vs = [v1] \<and> r = tl (skip_ws q)
    \<or> starts_with (CHR '','') (skip_ws q) \<and> (\<exists>us. elems_at d (tl (skip_ws q)) = Some (us, r) \<and> vs = v1 # us)"
    using vs by (subst (asm) elems_at_eq) (auto simp: Let_def split: if_splits)
  then have "stop_ok q" by (intro stop_ok_skip) blast
  then have v: "stepped s s5 q" "unique_tree v1" using assms(1) s5 pl q unfolding value_sync_def by blast+
  have nx: "os_at (os_skipSpace s5) (CHR '']'') \<and> s' = os_advance (os_skipSpace s5)
     \<or> os_at (os_skipSpace s5) (CHR '','') \<and> os_array_loop n dep (os_advance (os_skipSpace s5)) = Some (True, s')"
    using run s5 by (auto simp: os_array_loop.simps Let_def split: if_splits)
  then show "stepped s s' r \<and> unique_tree (JArr vs)"
  proof (elim disjE conjE)
    assume e: "os_at (os_skipSpace s5) (CHR '']'')" "s' = os_advance (os_skipSpace s5)"
    note a = after_value[OF v(1) e(1)]
    then show ?thesis using m starts_with_other[OF a(1), of "CHR '',''"] e(2) v(2) by auto
  next
    assume e: "os_at (os_skipSpace s5) (CHR '','')" and loop: "os_array_loop n dep (os_advance (os_skipSpace s5)) = Some (True, s')"
    note a = after_value[OF v(1) e]
    then obtain us where us: "elems_at d (tl (skip_ws q)) = Some (us, r)" "vs = v1 # us"
      using m starts_with_other[OF a(1), of "CHR '']''"] by auto
    have p: "oplaced (os_advance (os_skipSpace s5))" "otext (os_advance (os_skipSpace s5)) = tl (skip_ws q)" using a(2) by (simp_all add: stepped_def)
    have "stepped (os_advance (os_skipSpace s5)) s' r \<and> unique_tree (JArr us)"
      using assms(2) loop p(1) us(1)[folded p(2)] unfolding elems_sync_def by blast
    then show ?thesis using a(2) stepped_trans v(2) us(2) by auto
  qed
qed

lemma value_sync_step:
  assumes "members_sync n" "elems_sync n"
  shows "value_sync (Suc n)"
  unfolding value_sync_def
proof (intro allI impI)
  fix dep s s' d t r
  assume run: "os_parseValue (Suc n) dep False s = Some (True, s')" and pl: "oplaced s"
    and v: "value_at d (otext s) = Some (t, r)" and r: "stop_ok r"
  obtain b s1 where s1: "os_consumeNode s = (b, s1)" by (metis surj_pair)
  have b: "b" using run s1 by (auto simp: os_parseValue.simps split: if_splits bool.splits)
  define u where "u = os_skipSpace s1"
  have st1: "stepped s s1 (otext s)" using os_consumed[of s s1] s1 b pl by simp
  then have p1: "oplaced s1" "otext s1 = otext s" by (simp_all add: stepped_def)
  have su: "stepped s u (skip_ws (otext s))" using os_skip(1)[OF p1(1), folded u_def] st1 p1(2) stepped_trans by metis
  then have pu: "oplaced u" "otext u = skip_ws (otext s)" by (simp_all add: stepped_def)
  note at = os_at_text[OF pu(1), unfolded pu(2)]
  note run' = run[unfolded os_parseValue.simps s1 eqTrueI[OF b] prod.case bool.case Let_def u_def[symmetric]]
  let ?x = "os_skipSpace (os_advance u)"
  have inner: "stepped s ?x (skip_ws (tl (skip_ws (otext s))))" "oplaced ?x" "otext ?x = skip_ws (tl (skip_ws (otext s)))" if "os_at u c" for c
  proof -
    have "stepped u (os_advance u) (tl (otext u))" by (rule os_step[OF that])
    then have "stepped s ?x (skip_ws (tl (otext u)))" using os_skip(1)[of "os_advance u"] su stepped_trans by (metis stepped_def)
    then show "stepped s ?x (skip_ws (tl (skip_ws (otext s))))" "oplaced ?x" "otext ?x = skip_ws (tl (skip_ws (otext s)))"
      using pu(2) by (simp_all add: stepped_def)
  qed
  consider (obj) "os_at u (CHR ''{'')" | (arr) "\<not> os_at u (CHR ''{'')" "os_at u (CHR ''['')"
    | (str) "\<not> os_at u (CHR ''{'')" "\<not> os_at u (CHR ''['')" "os_at u (CHR 0x22)"
    | (prim) "\<not> os_at u (CHR ''{'')" "\<not> os_at u (CHR ''['')" "\<not> os_at u (CHR 0x22)" by blast
  then show "stepped s s' r \<and> unique_tree t"
  proof cases
    case obj
    note i = inner[OF obj]
    have sw: "starts_with (CHR ''{'') (skip_ws (otext s))" "\<not> starts_with (CHR ''['') (skip_ws (otext s))"
      using obj at starts_with_other[of "CHR ''{''" "skip_ws (otext s)" "CHR ''[''"] by auto
    show ?thesis
    proof (cases "os_at ?x (CHR ''}'')")
      case True
      then have "s' = os_advance ?x" using run' obj by (auto split: if_splits)
      moreover have "t = JObj []" "r = tl (otext ?x)"
        using v sw True os_at_text[OF i(2)] i(3) by (auto simp: value_at_eq[of d "otext s"] Let_def split: if_splits)
      ultimately show ?thesis using os_step[OF True] i(1) stepped_trans by auto
    next
      case False
      then have loop: "os_object_loop n dep False [] ?x = Some (True, s')" using run' obj by (auto split: if_splits)
      obtain ms where ms: "members_at (d - 1) (otext ?x) = Some (ms, r)" "t = JObj ms"
        using v sw False os_at_text[OF i(2)] i(3) by (auto simp: value_at_eq[of d "otext s"] Let_def split: if_splits)
      have "stepped ?x s' r \<and> unique_tree (JObj ms)" using assms(1) loop i(2) ms(1) unfolding members_sync_def by blast
      then show ?thesis using i(1) stepped_trans ms(2) by blast
    qed
  next
    case arr
    note i = inner[OF arr(2)]
    have sw: "starts_with (CHR ''['') (skip_ws (otext s))" using arr at by auto
    show ?thesis
    proof (cases "os_at ?x (CHR '']'')")
      case True
      then have "s' = os_advance ?x" using run' arr by (auto split: if_splits)
      moreover have "t = JArr []" "r = tl (otext ?x)"
        using v sw True os_at_text[OF i(2)] i(3) by (auto simp: value_at_eq[of d "otext s"] Let_def split: if_splits)
      ultimately show ?thesis using os_step[OF True] i(1) stepped_trans by auto
    next
      case False
      then have loop: "os_array_loop n dep ?x = Some (True, s')" using run' arr by (auto split: if_splits)
      obtain vs where vs: "elems_at (d - 1) (otext ?x) = Some (vs, r)" "t = JArr vs"
        using v sw False os_at_text[OF i(2)] i(3) by (auto simp: value_at_eq[of d "otext s"] Let_def split: if_splits)
      have "stepped ?x s' r \<and> unique_tree (JArr vs)" using assms(2) loop i(2) vs(1) unfolding elems_sync_def by blast
      then show ?thesis using i(1) stepped_trans vs(2) by blast
    qed
  next
    case str
    obtain o2 s2 where o2: "os_parseStringLiteral u = (o2, s2)" by (metis surj_pair)
    then obtain x y z where x: "o2 = Some (x, y, z)" "s' = s2" using run' str by (cases o2) (auto split: if_splits)
    obtain l where l: "scan_string (tl (otext u)) = Some (l, r)" "t = JStr (unquote l)"
      using v str at pu(2) by (auto simp: value_at_eq[of d "otext s"] Let_def scalar_at_def starts_with_def split: if_splits option.splits)
    show ?thesis using os_literal[OF o2[unfolded x(1)] str(3) pu(1) l(1)] su stepped_trans l(2) x(2) by auto
  next
    case prim
    have "os_parsePrimitive u = (True, s')" using run' prim by (auto split: if_splits)
    moreover have la: "literal_at (otext u) = Some (t, r)"
      using v prim at pu(2) by (auto simp: value_at_eq[of d "otext s"] Let_def scalar_at_def starts_with_def split: if_splits)
    ultimately have "stepped u s' r" using os_primitive[OF _ pu(1) _ r] by blast
    moreover have "unique_tree t" using literal_at_tail[OF la] by auto
    ultimately show ?thesis using su stepped_trans by blast
  qed
qed

lemma all_sync: "value_sync n \<and> members_sync n \<and> elems_sync n"
proof (induction n)
  case 0
  show ?case by (simp add: value_sync_def members_sync_def elems_sync_def os_parseValue.simps os_object_loop.simps os_array_loop.simps)
next
  case (Suc n)
  then show ?case using value_sync_step members_sync_step elems_sync_step by blast
qed

subsection \<open>The requested members of the root\<close>

text \<open>Replacing the strings of some recorded spans, and what that means for the members.\<close>

definition edits :: "(string \<Rightarrow> string option) \<Rightarrow> (string \<times> stringSpan) list \<Rightarrow> (nat \<times> nat \<times> bytes) list" where
  "edits f rs = concat (map (\<lambda>(k, sp). case f k of None \<Rightarrow> [] | Some x \<Rightarrow> [(sp_start sp, sp_end sp, marshal_string x)]) rs)"

definition patch_member :: "string list \<Rightarrow> (string \<Rightarrow> string option) \<Rightarrow> string \<times> json \<Rightarrow> string \<times> json" where
  "patch_member requested f m = (fst m, if fst m \<in> set requested then (case f (fst m) of None \<Rightarrow> snd m | Some x \<Rightarrow> JStr x) else snd m)"

lemma edits_append: "edits f (rs @ qs) = edits f rs @ edits f qs"
  by (simp add: edits_def)

lemma edits_Nil [simp]: "edits f [] = []"
  by (simp add: edits_def)

definition valid_edit :: "(string \<Rightarrow> string option) \<Rightarrow> bool" where
  "valid_edit f \<longleftrightarrow> (\<forall>k x. f k = Some x \<longrightarrow> utf8_valid x)"

text \<open>Moved on to the text \<open>r\<close> with the spans \<open>rs\<close> recorded.\<close>

definition recorded :: "objectScanner \<Rightarrow> objectScanner \<Rightarrow> bytes \<Rightarrow> (string \<times> stringSpan) list \<Rightarrow> bool" where
  "recorded s s' r rs \<longleftrightarrow> otext s' = r \<and> oplaced s' \<and> os_position s \<le> os_position s' \<and> os_raw s' = os_raw s
     \<and> os_requested s' = os_requested s \<and> os_found s' = os_found s @ rs"

lemma stepped_recorded: "stepped s s' r \<longleftrightarrow> recorded s s' r []"
  by (simp add: stepped_def recorded_def)

lemma recorded_trans: "recorded s s1 r1 rs \<Longrightarrow> recorded s1 s2 r2 qs \<Longrightarrow> recorded s s2 r2 (rs @ qs)"
  by (simp add: recorded_def)

definition piece :: "nat \<Rightarrow> objectScanner \<Rightarrow> objectScanner \<Rightarrow> string \<Rightarrow> json \<Rightarrow> (string \<times> stringSpan) list \<Rightarrow> bool" where
  "piece d s s' k v rs \<longleftrightarrow>
     (\<forall>f. valid_edit f \<longrightarrow> inside (os_position s) (edits f rs) (os_position s') \<and>
        (\<forall>r'. stop_ok r' \<longrightarrow> value_at d (emit (os_raw s) (os_position s) (edits f rs) (os_position s') @ r') =
           Some (snd (patch_member (os_requested s) f (k, v)), r')))"

lemma slice_text: "os_position s \<le> os_position s' \<Longrightarrow> os_raw s' = os_raw s \<Longrightarrow> otext s = go_slice (os_raw s) (os_position s) (os_position s') @ otext s'"
  unfolding otext_def by (simp add: slice_append_drop)

lemma wanted_piece:
  assumes run: "os_wanted dep k s = (True, s')" and pl: "oplaced s" and req: "k \<in> set (os_requested s)"
    and v: "value_at d (otext s) = Some (v, q)" and ws: "\<not> ws_byte (hd (otext s))"
  obtains sp where "recorded s s' q [(k, sp)]" "piece d s s' k v [(k, sp)]" "v = JStr (sp_value sp)" "utf8_valid (sp_value sp)"
    "sp_start sp = os_position s" "sp_end sp = os_position s'"
proof -
  obtain b s1 where s1: "os_consumeNode s = (b, s1)" by (metis surj_pair)
  have b: "b" "os_at s1 (CHR 0x22)" using run s1 by (auto simp: os_wanted_def split: if_splits bool.splits)
  obtain o2 s2 where o2: "os_parseStringLiteral s1 = (o2, s2)" by (metis surj_pair)
  have "o2 \<noteq> None" using run s1 b o2 by (cases o2) (auto simp: os_wanted_def split: if_splits)
  then obtain i j x where x: "o2 = Some (i, j, x)" by (cases o2) auto
  let ?sp = "\<lparr>sp_start = i, sp_end = j, sp_value = x\<rparr>"
  have s': "s' = s2\<lparr>os_found := os_found s2 @ [(k, ?sp)]\<rparr>" using run s1 b o2 x by (simp add: os_wanted_def split: if_splits)
  have st1: "stepped s s1 (otext s)" "os_position s1 = os_position s" using os_consumed[of s s1] s1 b(1) pl by simp_all
  have p1: "oplaced s1" "otext s1 = otext s" "os_raw s1 = os_raw s" using st1(1) by (simp_all add: stepped_def)
  have sw: "starts_with (CHR 0x22) (otext s)" using b(2) os_at_text[OF p1(1)] p1(2) by simp
  have "skip_ws (otext s) = otext s" using ws sw by (cases "otext s") auto
  then obtain l where l: "scan_string (tl (otext s)) = Some (l, q)" "v = JStr (unquote l)"
    using v sw starts_with_other[OF sw, of "CHR ''{''"] starts_with_other[OF sw, of "CHR ''[''"]
    by (auto simp: value_at_eq[of d "otext s"] scalar_at_def starts_with_def split: option.splits)
  note lit = os_literal[OF o2[unfolded x] b(2) p1(1), unfolded p1(2), OF l(1)]
  have rec: "recorded s s' q [(k, ?sp)]" using lit st1(1) by (auto simp: recorded_def stepped_def s' otext_def oplaced_def)
  have pos: "os_position s' = os_position s2" by (simp add: s')
  have slice: "go_slice (os_raw s) (os_position s) (os_position s2) = CHR 0x22 # l @ [CHR 0x22]" using lit st1(2) p1(3) by auto
  have "inside (os_position s) (edits f [(k, ?sp)]) (os_position s') \<and>
      (\<forall>r'. stop_ok r' \<longrightarrow> value_at d (emit (os_raw s) (os_position s) (edits f [(k, ?sp)]) (os_position s') @ r') =
         Some (snd (patch_member (os_requested s) f (k, v)), r'))" if f: "valid_edit f" for f
  proof (cases "f k")
    case None
    then show ?thesis using lit st1(2) pos slice string_value_at[of l d] l(2) req by (simp add: edits_def patch_member_def stepped_def)
  next
    case (Some y)
    then have "utf8_valid y" using f by (auto simp: valid_edit_def)
    then show ?thesis using Some lit st1(2) pos req value_at_string[of y d]
      by (auto simp: edits_def patch_member_def stepped_def go_slice_def)
  qed
  then have "piece d s s' k v [(k, ?sp)]" by (simp add: piece_def)
  then show thesis using that[of ?sp] rec l(2) lit st1(2) pos by auto
qed

lemma nested_piece:
  assumes "stepped s s' q" "value_at d (otext s) = Some (v, q)" "stop_ok q" "k \<notin> set (os_requested s)"
  shows "piece d s s' k v []"
proof -
  obtain x where x: "otext s = x @ q" "\<And>r'. stop_ok r' \<Longrightarrow> value_at d (x @ r') = Some (v, r')" using value_at_tail[OF assms(2,3)] by blast
  have "otext s = go_slice (os_raw s) (os_position s) (os_position s') @ q" using slice_text[of s s'] assms(1) by (simp add: stepped_def)
  then have "x = go_slice (os_raw s) (os_position s) (os_position s')" using x(1) by simp
  then show ?thesis using x(2) assms(1,4) by (simp add: piece_def patch_member_def stepped_def)
qed

definition root_sync :: "nat \<Rightarrow> bool" where
  "root_sync n \<longleftrightarrow> (\<forall>dep seen s s' d ms r. os_object_loop n dep True seen s = Some (True, s') \<longrightarrow> oplaced s \<longrightarrow>
     members_at d (otext s) = Some (ms, r) \<longrightarrow>
     (\<exists>rs. recorded s s' r rs \<and> map fst rs = filter (\<lambda>k. k \<in> set (os_requested s)) (map fst ms) \<and> unique_tree (JObj ms) \<and> set seen \<inter> fst ` set ms = {}
       \<and> (\<forall>p \<in> set rs. (fst p, JStr (sp_value (snd p))) \<in> set ms \<and> utf8_valid (sp_value (snd p)))
       \<and> (\<forall>f. valid_edit f \<longrightarrow> inside (os_position s) (edits f rs) (os_position s') \<and>
            (\<forall>z. members_at d (emit (os_raw s) (os_position s) (edits f rs) (os_position s') @ z) = Some (map (patch_member (os_requested s) f) ms, z)))))"

text \<open>A member's text around its edited value.\<close>

lemma member_emit:
  assumes round: "object_round n dep root seen s s' d ms r k v1 q s3 s5" and rec: "recorded s3 s5 q rs1" and pc: "piece d s3 s5 (unquote k) v1 rs1"
    and e: "os_at (os_skipSpace s5) e" "e = CHR ''}'' \<or> e = CHR '',''" and f: "valid_edit f" "s6 = os_advance (os_skipSpace s5)"
  shows "inside (os_position s) (edits f rs1) (os_position s6)"
    and "e = CHR ''}'' \<and> us = [] \<and> t = y \<or> e = CHR '','' \<and> members_at d y = Some (us, t) \<Longrightarrow>
      members_at d (emit (os_raw s) (os_position s) (edits f rs1) (os_position s6) @ y) = Some (patch_member (os_requested s) f (unquote k, v1) # us, t)"
proof -
  from round obtain a b1 b2 where h: "stepped s s3 (otext s3)" "scan_string (k @ [CHR 0x22]) = Some (k, [])" "spaces a" "spaces b1" "spaces b2"
    and sl: "go_slice (os_raw s) (os_position s) (os_position s3) = a @ CHR 0x22 # k @ CHR 0x22 # b1 @ CHR '':'' # b2"
    unfolding object_round_def by blast
  have p: "oplaced s5" "os_raw s5 = os_raw s" "os_raw s3 = os_raw s" "os_requested s3 = os_requested s" "os_position s \<le> os_position s3"
    using h(1) rec by (simp_all add: stepped_def recorded_def)
  note sk = os_skip[OF p(1)]
  note ad = os_step[OF e(1), folded f(2)]
  let ?c = "go_slice (os_raw s) (os_position s5) (os_position (os_skipSpace s5))"
  have tail: "go_slice (os_raw s) (os_position s5) (os_position s6) = ?c @ [e]"
  proof -
    have "go_slice (os_raw s) (os_position (os_skipSpace s5)) (os_position s6) = [e]"
      using e(1) p(2) Cons_nth_drop_Suc[of "os_position (os_skipSpace s5)" "os_raw s", symmetric]
      by (simp add: os_at_def os_advance_def go_slice_def f(2) os_skipSpace_def)
    then show ?thesis using slice_append_slice[of "os_position s5" "os_position (os_skipSpace s5)" "os_position s6" "os_raw s"] sk(1) ad
      by (simp add: stepped_def)
  qed
  have in1: "inside (os_position s3) (edits f rs1) (os_position s5)" using pc f(1) by (simp add: piece_def)
  have in2: "inside (os_position s5) [] (os_position s6)" using sk(1) ad by (simp add: stepped_def)
  note app = emit_append[OF in1 in2, of "os_raw s"]
  show "inside (os_position s) (edits f rs1) (os_position s6)" using app inside_mono[OF p(5)] by simp
  assume y: "e = CHR ''}'' \<and> us = [] \<and> t = y \<or> e = CHR '','' \<and> members_at d y = Some (us, t)"
  let ?x = "emit (os_raw s) (os_position s3) (edits f rs1) (os_position s5)"
  have em: "emit (os_raw s) (os_position s) (edits f rs1) (os_position s6) = a @ CHR 0x22 # k @ CHR 0x22 # b1 @ CHR '':'' # (b2 @ ?x) @ ?c @ [e]"
    using emit_prefix[OF p(5), of "edits f rs1" "os_position s6" "os_raw s"] app sl tail by simp
  have sp: "spaces ?c" using sk(2) p(2) by simp
  have "value_at d (?x @ ?c @ e # y) = Some (snd (patch_member (os_requested s) f (unquote k, v1)), ?c @ e # y)"
    using pc f(1) stop_ok_text[OF sp, of e y] e(2) p(3,4) by (auto simp: piece_def)
  then have "value_at d ((b2 @ ?x) @ ?c @ e # y) = Some (snd (patch_member (os_requested s) f (unquote k, v1)), ?c @ e # y)"
    using value_at_spaces[OF h(5)] by simp
  from members_text[OF h(3,4) sp h(2) this, of us t] y
  show "members_at d (emit (os_raw s) (os_position s) (edits f rs1) (os_position s6) @ y) = Some (patch_member (os_requested s) f (unquote k, v1) # us, t)"
    by (simp add: em patch_member_def)
qed

lemma member_piece:
  assumes round: "object_round n dep True seen s s' d ms r k v1 q s3 s5"
  obtains rs1 where "recorded s3 s5 q rs1" "piece d s3 s5 (unquote k) v1 rs1" "unique_tree v1"
    "map fst rs1 = filter (\<lambda>k. k \<in> set (os_requested s)) [unquote k]"
    "\<forall>p \<in> set rs1. (fst p, JStr (sp_value (snd p))) = (unquote k, v1) \<and> utf8_valid (sp_value (snd p))"
proof -
  from round have h: "stepped s s3 (otext s3)" "value_at d (otext s3) = Some (v1, q)" "stop_ok q" "\<not> ws_byte (hd (otext s3))"
    and mid: "(if unquote k \<in> set (os_requested s) then Some (os_wanted dep (unquote k) s3) else os_parseValue n (dep + 1) False s3) = Some (True, s5)"
    by (simp_all add: object_round_def)
  have p: "oplaced s3" "os_requested s3 = os_requested s" using h(1) by (simp_all add: stepped_def)
  show thesis
  proof (cases "unquote k \<in> set (os_requested s)")
    case True
    then have "os_wanted dep (unquote k) s3 = (True, s5)" "unquote k \<in> set (os_requested s3)" using mid p(2) by simp_all
    from wanted_piece[OF this(1) p(1) this(2) h(2,4)] obtain sp where "recorded s3 s5 q [(unquote k, sp)]" "piece d s3 s5 (unquote k) v1 [(unquote k, sp)]"
      "v1 = JStr (sp_value sp)" "utf8_valid (sp_value sp)" by blast
    then show thesis using that[of "[(unquote k, sp)]"] True by simp
  next
    case False
    then have run: "os_parseValue n (dep + 1) False s3 = Some (True, s5)" using mid by simp
    have "value_sync n" using all_sync by blast
    then have v: "stepped s3 s5 q" "unique_tree v1" using run p(1) h(2,3) unfolding value_sync_def by blast+
    then show thesis using that[of "[]"] nested_piece[OF v(1) h(2,3)] False p(2) by (simp add: stepped_recorded)
  qed
qed

lemma root_sync_step:
  assumes "root_sync n"
  shows "root_sync (Suc n)"
  unfolding root_sync_def
proof (intro allI impI)
  fix dep seen s s' d ms r
  assume run: "os_object_loop (Suc n) dep True seen s = Some (True, s')" and pl: "oplaced s" and ms: "members_at d (otext s) = Some (ms, r)"
  let ?req = "os_requested s" and ?raw = "os_raw s"
  from object_head[OF run pl ms] obtain k v1 q s3 s5 where round: "object_round n dep True seen s s' d ms r k v1 q s3 s5" .
  then have h: "stepped s s3 (otext s3)" "unquote k \<notin> set seen"
    and nx: "os_at (os_skipSpace s5) (CHR ''}'') \<and> s' = os_advance (os_skipSpace s5)
     \<or> os_at (os_skipSpace s5) (CHR '','') \<and> os_object_loop n dep True (unquote k # seen) (os_advance (os_skipSpace s5)) = Some (True, s')"
    and m: "starts_with (CHR ''}'') (skip_ws q) \<and> ms = [(unquote k, v1)] \<and> r = tl (skip_ws q)
     \<or> starts_with (CHR '','') (skip_ws q) \<and> (\<exists>us. members_at d (tl (skip_ws q)) = Some (us, r) \<and> ms = (unquote k, v1) # us)"
    by (simp_all add: object_round_def)
  obtain rs1 where rs1: "recorded s3 s5 q rs1" "piece d s3 s5 (unquote k) v1 rs1" "unique_tree v1"
    "map fst rs1 = filter (\<lambda>k. k \<in> set ?req) [unquote k]"
    "\<forall>p \<in> set rs1. (fst p, JStr (sp_value (snd p))) = (unquote k, v1) \<and> utf8_valid (sp_value (snd p))" by (rule member_piece[OF round])
  have rec5: "recorded s s5 q rs1" using recorded_trans[OF h(1)[unfolded stepped_recorded] rs1(1)] by simp
  define s6 where "s6 = os_advance (os_skipSpace s5)"
  have p5: "oplaced s5" "otext s5 = q" using rec5 by (simp_all add: recorded_def)
  have self: "stepped s5 s5 q" using p5 by (simp add: stepped_def)
  let ?goal = "\<lambda>rs. recorded s s' r rs \<and> map fst rs = filter (\<lambda>k. k \<in> set ?req) (map fst ms) \<and> unique_tree (JObj ms) \<and> set seen \<inter> fst ` set ms = {}
       \<and> (\<forall>p \<in> set rs. (fst p, JStr (sp_value (snd p))) \<in> set ms \<and> utf8_valid (sp_value (snd p)))
       \<and> (\<forall>f. valid_edit f \<longrightarrow> inside (os_position s) (edits f rs) (os_position s') \<and>
            (\<forall>z. members_at d (emit ?raw (os_position s) (edits f rs) (os_position s') @ z) = Some (map (patch_member ?req f) ms, z)))"
  from nx show "\<exists>rs. ?goal rs"
  proof (elim disjE conjE)
    assume e: "os_at (os_skipSpace s5) (CHR ''}'')" "s' = os_advance (os_skipSpace s5)"
    note a = after_value[OF self e(1), folded s6_def]
    have m1: "ms = [(unquote k, v1)]" "r = tl (skip_ws q)" using m starts_with_other[OF a(1), of "CHR '',''"] by auto
    have "recorded s s' r rs1" using recorded_trans[OF rec5 a(2)[unfolded stepped_recorded]] e(2) m1(2) by (simp add: s6_def)
    moreover have "inside (os_position s) (edits f rs1) (os_position s') \<and>
        (\<forall>z. members_at d (emit ?raw (os_position s) (edits f rs1) (os_position s') @ z) = Some (map (patch_member ?req f) ms, z))" if "valid_edit f" for f
      using member_emit(1)[OF round rs1(1,2) e(1) _ that e(2)] member_emit(2)[OF round rs1(1,2) e(1) _ that e(2), where us = "[]"] m1(1) by simp
    ultimately have "?goal rs1" using rs1(3-5) m1(1) h(2) by auto
    then show ?thesis by blast
  next
    assume e: "os_at (os_skipSpace s5) (CHR '','')" and loop: "os_object_loop n dep True (unquote k # seen) (os_advance (os_skipSpace s5)) = Some (True, s')"
    note a = after_value[OF self e, folded s6_def]
    obtain us where us: "members_at d (tl (skip_ws q)) = Some (us, r)" "ms = (unquote k, v1) # us" using m starts_with_other[OF a(1), of "CHR ''}''"] by auto
    have p6: "oplaced s6" "otext s6 = tl (skip_ws q)" using a(2) by (simp_all add: stepped_def)
    have rec6: "recorded s s6 (tl (skip_ws q)) rs1" using recorded_trans[OF rec5 a(2)[unfolded stepped_recorded]] by simp
    have same: "os_requested s6 = ?req" "os_raw s6 = ?raw" using rec6 by (simp_all add: recorded_def)
    from assms[unfolded root_sync_def, rule_format, OF loop[folded s6_def] p6(1) us(1)[folded p6(2)]]
    obtain rs2 where rs2: "recorded s6 s' r rs2" "map fst rs2 = filter (\<lambda>k. k \<in> set ?req) (map fst us)" "unique_tree (JObj us)"
      "set (unquote k # seen) \<inter> fst ` set us = {}" "\<forall>p \<in> set rs2. (fst p, JStr (sp_value (snd p))) \<in> set us \<and> utf8_valid (sp_value (snd p))"
      and em2: "\<And>f. valid_edit f \<Longrightarrow> inside (os_position s6) (edits f rs2) (os_position s')"
        "\<And>f z. valid_edit f \<Longrightarrow> members_at d (emit ?raw (os_position s6) (edits f rs2) (os_position s') @ z) = Some (map (patch_member ?req f) us, z)"
      unfolding same by blast
    have "recorded s s' r (rs1 @ rs2)" by (rule recorded_trans[OF rec6 rs2(1)])
    moreover have "inside (os_position s) (edits f (rs1 @ rs2)) (os_position s') \<and>
        (\<forall>z. members_at d (emit ?raw (os_position s) (edits f (rs1 @ rs2)) (os_position s') @ z) = Some (map (patch_member ?req f) ms, z))" if f: "valid_edit f" for f
    proof -
      have ins: "inside (os_position s) (edits f rs1) (os_position s6)" using member_emit(1)[OF round rs1(1,2) e _ f s6_def] by simp
      note app = emit_append[OF ins em2(1)[OF f], of "os_raw s", folded edits_append]
      have "members_at d (emit ?raw (os_position s) (edits f (rs1 @ rs2)) (os_position s') @ z) = Some (map (patch_member ?req f) ms, z)" for z
        using member_emit(2)[OF round rs1(1,2) e _ f s6_def, where us = "map (patch_member ?req f) us" and t = z and y = "emit ?raw (os_position s6) (edits f rs2) (os_position s') @ z"] em2(2)[OF f] app us(2) by simp
      then show ?thesis using app by simp
    qed
    ultimately have "?goal (rs1 @ rs2)" using rs1(3-5) rs2(2-5) us(2) h(2) by auto
    then show ?thesis by blast
  qed
qed

lemma root_sync_all: "root_sync n"
proof (induction n)
  case 0
  show ?case by (simp add: root_sync_def os_object_loop.simps)
qed (rule root_sync_step)

text \<open>What a successful scan says of the document and of every replacement of the strings it found.\<close>

lemma scanObjectStrings_spec:
  assumes "scanObjectStrings raw requested maxDepth maxNodes = Some found"
  obtains ms where "json_document raw = Some (JObj ms)" "unique_tree (JObj ms)"
    "map fst found = filter (\<lambda>k. k \<in> set requested) (map fst ms)"
    "\<forall>p \<in> set found. (fst p, JStr (sp_value (snd p))) \<in> set ms \<and> utf8_valid (sp_value (snd p))"
    "\<And>f. valid_edit f \<Longrightarrow> inside 0 (edits f found) (length raw) \<and>
       json_document (write_replacements raw 0 (edits f found)) = Some (JObj (map (patch_member requested f) ms))"
proof -
  let ?s = "new_scanner raw requested maxDepth maxNodes"
  obtain s where run: "os_parseValue (2 * length raw + 1) 1 True ?s = Some (True, s)" and valid: "json_Valid raw"
    and fin: "os_position (os_skipSpace s) = length raw" "found = os_found (os_skipSpace s)"
    using assms by (auto simp: scanObjectStrings_def Let_def split: if_splits option.splits bool.splits)
  obtain t where t: "json_document raw = Some t" using valid by (auto simp: json_Valid_def)
  then obtain r where r: "value_at maxNestingDepth raw = Some (t, r)" "skip_ws r = []"
    by (auto simp: json_document_def json_read_value_at split: option.splits if_splits)
  obtain b s1 where s1: "os_consumeNode ?s = (b, s1)" by (metis surj_pair)
  define u where "u = os_skipSpace s1"
  define x where "x = os_skipSpace (os_advance u)"
  have b: "b" "os_at u (CHR ''{'')" using run s1 by (auto simp: os_parseValue.simps Let_def u_def split: if_splits bool.splits)
  have pl: "oplaced ?s" "otext ?s = raw" "os_raw ?s = raw" "os_position ?s = 0" "os_requested ?s = requested" "os_found ?s = []"
    by (simp_all add: new_scanner_def oplaced_def otext_def)
  have st1: "stepped ?s s1 raw" "os_position s1 = 0" using os_consumed[of ?s s1] s1 b(1) pl by simp_all
  then have p1: "oplaced s1" "otext s1 = raw" "os_raw s1 = raw" by (simp_all add: stepped_def pl)
  note su = os_skip[OF p1(1), folded u_def]
  have pu: "oplaced u" "otext u = skip_ws raw" using su(1) p1(2) by (simp_all add: stepped_def)
  have sw: "starts_with (CHR ''{'') (skip_ws raw)" using b(2) os_at_text[OF pu(1)] pu(2) by simp
  note au = os_step[OF b(2)]
  have pa: "oplaced (os_advance u)" using au by (simp add: stepped_def)
  note sx = os_skip[OF pa, folded x_def]
  have px: "stepped ?s x (skip_ws (tl (skip_ws raw)))" using st1(1) su(1) au sx(1) pu p1 by (auto simp: stepped_def)
  have px': "oplaced x" "otext x = skip_ws (tl (skip_ws raw))" "os_raw x = raw" "os_requested x = requested" "os_found x = []"
    using px pl by (simp_all add: stepped_def)
  let ?a = "go_slice raw 0 (os_position u)" and ?b = "go_slice raw (os_position (os_advance u)) (os_position x)"
  have sp: "spaces ?a" "spaces ?b" using su(2) sx(2) st1(2) p1(3) pa px'(3) by (simp_all add: os_advance_def x_def os_skipSpace_def u_def)
  have head: "go_slice raw 0 (os_position x) = ?a @ CHR ''{'' # ?b"
  proof -
    have ru: "os_raw u = raw" using su(1) p1(3) by (simp add: stepped_def)
    have "go_slice raw (os_position u) (os_position (os_advance u)) = [CHR ''{'']"
      using b(2) ru Cons_nth_drop_Suc[of "os_position u" raw, symmetric] by (simp add: os_at_def os_advance_def go_slice_def)
    moreover have "os_position u \<le> os_position (os_advance u)" "os_position (os_advance u) \<le> os_position x" using au sx(1) by (simp_all add: stepped_def)
    ultimately show ?thesis using slice_append_slice[of 0 "os_position u" "os_position x" raw]
        slice_append_slice[of "os_position u" "os_position (os_advance u)" "os_position x" raw] by simp
  qed
  have run2: "(if os_at x (CHR ''}'') then Some (True, os_advance x) else os_object_loop (2 * length raw) 1 True [] x) = Some (True, s)"
    using run s1 b by (auto simp: os_parseValue.simps Let_def u_def[symmetric] x_def[symmetric] split: if_splits)
  have nb: "\<not> starts_with (CHR ''['') (skip_ws raw)" by (rule starts_with_other[OF sw]) simp
  have skp: "skip_ws (otext s) = [] \<Longrightarrow> stop_ok (otext s)" by (intro stop_ok_skip) simp
  have "\<exists>ms rs. t = JObj ms \<and> recorded x s r rs \<and> map fst rs = filter (\<lambda>k. k \<in> set requested) (map fst ms) \<and> unique_tree (JObj ms)
      \<and> (\<forall>p \<in> set rs. (fst p, JStr (sp_value (snd p))) \<in> set ms \<and> utf8_valid (sp_value (snd p)))
      \<and> (\<forall>f. valid_edit f \<longrightarrow> inside (os_position x) (edits f rs) (os_position s) \<and>
         (\<forall>z. value_at maxNestingDepth (?a @ CHR ''{'' # ?b @ emit raw (os_position x) (edits f rs) (os_position s) @ z) =
            Some (JObj (map (patch_member requested f) ms), z)))"
  proof (cases "os_at x (CHR ''}'')")
    case True
    then have sxx: "starts_with (CHR ''}'') (skip_ws (tl (skip_ws raw)))" using os_at_text[OF px'(1)] px'(2) by simp
    have s: "s = os_advance x" using run2 True by simp
    have v: "t = JObj []" "r = tl (otext x)" "maxNestingDepth \<noteq> 0"
      using r(1) sw nb sxx px'(2) by (auto simp: value_at_eq[of maxNestingDepth raw] Let_def split: if_splits)
    have "recorded x s r []" using os_step[OF True] s v(2) by (simp add: stepped_recorded)
    moreover have "go_slice raw (os_position x) (os_position s) = [CHR ''}'']"
      using True s px'(3) Cons_nth_drop_Suc[of "os_position x" raw, symmetric] by (simp add: os_at_def os_advance_def go_slice_def)
    then have "value_at maxNestingDepth (?a @ CHR ''{'' # ?b @ go_slice raw (os_position x) (os_position s) @ z) = Some (JObj [], z)" for z
      using object_text_empty[OF sp v(3), of z] by simp
    ultimately show ?thesis using v(1) s by (intro exI[of _ "[]"]) (simp add: os_advance_def)
  next
    case False
    then have loop: "os_object_loop (2 * length raw) 1 True [] x = Some (True, s)" using run2 by simp
    have "\<not> starts_with (CHR ''}'') (skip_ws (tl (skip_ws raw)))" using False os_at_text[OF px'(1)] px'(2) by simp
    then obtain ms where ms: "members_at (maxNestingDepth - 1) (otext x) = Some (ms, r)" "t = JObj ms" "maxNestingDepth \<noteq> 0"
      using r(1) sw nb px'(2) by (auto simp: value_at_eq[of maxNestingDepth raw] Let_def split: if_splits)
    from root_sync_all[of "2 * length raw", unfolded root_sync_def, rule_format, OF loop px'(1) ms(1), unfolded px'(3,4)]
    obtain rs where rs: "recorded x s r rs" "map fst rs = filter (\<lambda>k. k \<in> set requested) (map fst ms)" "unique_tree (JObj ms)"
      "\<forall>p \<in> set rs. (fst p, JStr (sp_value (snd p))) \<in> set ms \<and> utf8_valid (sp_value (snd p))"
      "\<And>f. valid_edit f \<Longrightarrow> inside (os_position x) (edits f rs) (os_position s)"
      "\<And>f z. valid_edit f \<Longrightarrow> members_at (maxNestingDepth - 1) (emit raw (os_position x) (edits f rs) (os_position s) @ z) =
         Some (map (patch_member requested f) ms, z)" by blast
    have "value_at maxNestingDepth (?a @ CHR ''{'' # ?b @ emit raw (os_position x) (edits f rs) (os_position s) @ z) =
            Some (JObj (map (patch_member requested f) ms), z)" if "valid_edit f" for f z
      using object_text[OF sp rs(6)[OF that] ms(3)] by simp
    then show ?thesis using rs(1-5) ms(2) by (intro exI[of _ ms] exI[of _ rs]) simp
  qed
  then obtain ms rs where m: "t = JObj ms" "recorded x s r rs" "map fst rs = filter (\<lambda>k. k \<in> set requested) (map fst ms)" "unique_tree (JObj ms)"
      "\<forall>p \<in> set rs. (fst p, JStr (sp_value (snd p))) \<in> set ms \<and> utf8_valid (sp_value (snd p))"
      "\<And>f. valid_edit f \<Longrightarrow> inside (os_position x) (edits f rs) (os_position s)"
      "\<And>f z. valid_edit f \<Longrightarrow> value_at maxNestingDepth (?a @ CHR ''{'' # ?b @ emit raw (os_position x) (edits f rs) (os_position s) @ z) =
            Some (JObj (map (patch_member requested f) ms), z)" by blast
  have found: "found = rs" using fin(2) m(2) px'(5) by (simp add: recorded_def os_skipSpace_def)
  have ps: "oplaced s" "os_raw s = raw" "otext s = r" using m(2) px'(3) by (simp_all add: recorded_def)
  have le: "os_position s \<le> length raw" "drop (os_position s) raw = r" using ps by (simp_all add: oplaced_def otext_def)
  have "inside 0 (edits f found) (length raw) \<and>
       json_document (write_replacements raw 0 (edits f found)) = Some (JObj (map (patch_member requested f) ms))" if f: "valid_edit f" for f
  proof -
    have in1: "inside 0 (edits f rs) (os_position s)" using m(6)[OF f] inside_mono[of 0] by blast
    have em: "emit raw 0 (edits f rs) (os_position s) = ?a @ CHR ''{'' # ?b @ emit raw (os_position x) (edits f rs) (os_position s)"
      using emit_prefix[of 0 "os_position x" "edits f rs" "os_position s" raw] m(6)[OF f] head by simp
    have "inside (os_position s) [] (length raw)" using le(1) by simp
    then have in2: "inside 0 (edits f rs) (length raw)" using emit_append[OF in1] by fastforce
    have out: "write_replacements raw 0 (edits f rs) = emit raw 0 (edits f rs) (os_position s) @ r" using write_emit[OF in1 le(1)] le(2) by simp
    have "value_at maxNestingDepth (write_replacements raw 0 (edits f rs)) = Some (JObj (map (patch_member requested f) ms), r)"
      unfolding out em using m(7)[OF f, of r] by simp
    then show ?thesis using in2 r(2) found by (simp add: json_document_def json_read_value_at)
  qed
  then show thesis using that[of ms] t m(1,3-5) found by blast
qed


subsection \<open>The scanner ends\<close>

lemma os_pos:
  "os_raw (os_skipSpace s) = os_raw s" "os_position s \<le> os_position (os_skipSpace s)"
  "os_raw (os_advance s) = os_raw s" "os_position (os_advance s) = Suc (os_position s)"
  by (simp_all add: os_skipSpace_def os_advance_def)

lemma os_consumeNode_pos: "os_consumeNode s = (b, s') \<Longrightarrow> os_raw s' = os_raw s \<and> os_position s' = os_position s"
  by (auto simp: os_consumeNode_def split: if_splits)

lemma os_parseStringLiteral_pos:
  assumes "os_parseStringLiteral s = (r, s')"
  shows "os_raw s' = os_raw s \<and> os_position s < os_position s'"
proof -
  have p: "parseStringLiteral (ow s) = (fst (parseStringLiteral (ow s)), ow s')" "os_raw s' = os_raw s"
    using assms by (auto simp: os_parseStringLiteral_def parseStringLiteral_def ow_def Let_def
        split: prod.splits bool.splits if_splits option.splits json.splits)
  from parseStringLiteral_pos[OF p(1)] p(2) show ?thesis unfolding ow_text(5) by blast
qed

lemma os_wanted_pos: "os_wanted dep key s = (b, s') \<Longrightarrow> os_raw s' = os_raw s \<and> (b \<longrightarrow> os_position s < os_position s')"
  by (auto simp: os_wanted_def split: if_splits prod.splits bool.splits option.splits
      dest!: os_consumeNode_pos os_parseStringLiteral_pos)

lemma os_parsePrimitive_pos: "os_parsePrimitive s = (b, s') \<Longrightarrow> os_raw s' = os_raw s \<and> (b \<longrightarrow> os_position s < os_position s')"
  by (auto simp: os_parsePrimitive_def Let_def)

lemma os_parseValue_step:
  assumes "os_parseValue (Suc n) dep root s = r"
  obtains (final) b s' where "r = Some (b, s')" "os_raw s' = os_raw s" "b \<longrightarrow> os_position s < os_position s'"
  | (object) s1 where "r = os_object_loop n dep root [] s1" "os_raw s1 = os_raw s" "os_position s < os_position s1" "os_position s < length (os_raw s)"
  | (array) s1 where "r = os_array_loop n dep s1" "os_raw s1 = os_raw s" "os_position s < os_position s1" "os_position s < length (os_raw s)"
proof -
  obtain b s1 where s1: "os_consumeNode s = (b, s1)" by (metis surj_pair)
  let ?s = "os_skipSpace s1"
  let ?t = "os_skipSpace (os_advance ?s)"
  have pos: "os_raw s1 = os_raw s" "os_raw ?s = os_raw s" "os_position s \<le> os_position ?s" "os_raw ?t = os_raw s" "os_position s < os_position ?t"
    using os_consumeNode_pos[OF s1] os_pos[of s1] os_pos(1,2)[of "os_advance ?s"] os_pos(3,4)[of ?s] by simp_all
  obtain r3 s3 where s3: "os_parseStringLiteral ?s = (r3, s3)" by (metis surj_pair)
  obtain b4 s4 where s4: "os_parsePrimitive ?s = (b4, s4)" by (metis surj_pair)
  note q = os_parseStringLiteral_pos[OF s3] os_parsePrimitive_pos[OF s4]
  show ?thesis
  proof (cases "dep > os_maxDepth s \<or> \<not> b \<or> os_position ?s \<ge> length (os_raw ?s)")
    case True
    then have "\<exists>s'. r = Some (False, s') \<and> os_raw s' = os_raw s"
      unfolding assms[symmetric] using s1 pos by (elim disjE) (simp_all add: os_parseValue.simps Let_def split: bool.split)
    then show ?thesis using that(1) by blast
  next
    case False
    have lt: "os_position s < length (os_raw s)" using False pos(2,3) by simp
    have eq: "r = (if os_at ?s (CHR ''{'') then if os_at ?t (CHR ''}'') then Some (True, os_advance ?t) else os_object_loop n dep root [] ?t
        else if root then Some (False, ?s)
        else if os_at ?s (CHR ''['') then if os_at ?t (CHR '']'') then Some (True, os_advance ?t) else os_array_loop n dep ?t
        else if os_at ?s (CHR 0x22) then Some (r3 \<noteq> None, s3) else Some (b4, s4))"
      unfolding assms[symmetric] using s1 False s3 s4 by (simp add: os_parseValue.simps Let_def not_le)
    note fin = that(1)
    show ?thesis using eq that(2)[of ?t] that(3)[of ?t] pos lt q os_pos(3,4)[of ?t] fin[of True "os_advance ?t"] fin[of False ?s]
        fin[of "r3 \<noteq> None" s3] fin[of b4 s4] by (auto split: if_splits)
  qed
qed

lemma os_object_loop_step:
  assumes "os_object_loop (Suc n) dep root seen s = r"
  obtains (final) s' where "r = Some (False, s')" "os_raw s' = os_raw s"
  | (entry) s1 key where "os_raw s1 = os_raw s" "os_position s < os_position s1" "os_position s < length (os_raw s)"
      "r = (case (if root \<and> List.member (os_requested s1) key then Some (os_wanted dep key s1) else os_parseValue n (dep + 1) False s1) of
              None \<Rightarrow> None
            | Some (False, s) \<Rightarrow> Some (False, s)
            | Some (True, s) \<Rightarrow>
                let s = os_skipSpace s in
                if os_at s (CHR ''}'') then Some (True, os_advance s)
                else if os_at s (CHR '','') then os_object_loop n dep root (key # seen) (os_advance s)
                else Some (False, s))"
proof -
  obtain b s1 where s1: "os_consumeNode s = (b, s1)" by (metis surj_pair)
  let ?s = "os_skipSpace s1"
  obtain o3 s3 where s3: "os_parseStringLiteral ?s = (o3, s3)" by (metis surj_pair)
  have pos: "os_raw s1 = os_raw s" "os_raw ?s = os_raw s" "os_position s \<le> os_position ?s" "os_raw s3 = os_raw s" "os_position s < os_position s3"
    using os_consumeNode_pos[OF s1] os_pos[of s1] os_parseStringLiteral_pos[OF s3] by simp_all
  show ?thesis
  proof (cases "\<not> b \<or> \<not> os_at ?s (CHR 0x22) \<or> o3 = None")
    case True
    then have "\<exists>s'. r = Some (False, s') \<and> os_raw s' = os_raw s"
      unfolding assms[symmetric] using s1 s3 pos by (cases b) (auto simp: os_object_loop.simps Let_def)
    then show ?thesis using that(1) by blast
  next
    case False
    then obtain x y key where o3: "o3 = Some (x, y, key)" by (metis not_None_eq surj_pair)
    let ?u = "os_skipSpace s3"
    let ?v = "os_skipSpace (os_advance ?u)"
    have p: "os_raw ?v = os_raw s" "os_position s < os_position ?v" "os_raw ?u = os_raw s"
      using pos os_pos[of s3] os_pos(1,2)[of "os_advance ?u"] os_pos(3,4)[of ?u] by simp_all
    show ?thesis
    proof (cases "List.member seen key \<or> \<not> os_at ?u (CHR '':'')")
      case True
      then have "\<exists>s'. r = Some (False, s') \<and> os_raw s' = os_raw s"
        unfolding assms[symmetric] using s1 s3 o3 False pos p by (auto simp: os_object_loop.simps Let_def)
      then show ?thesis using that(1) by blast
    next
      case go: False
      have lt: "os_position s < length (os_raw s)" using False pos by (auto simp: os_at_def)
      have eq: "r = (case (if root \<and> List.member (os_requested ?v) key then Some (os_wanted dep key ?v) else os_parseValue n (dep + 1) False ?v) of
              None \<Rightarrow> None
            | Some (False, s) \<Rightarrow> Some (False, s)
            | Some (True, s) \<Rightarrow>
                let s = os_skipSpace s in
                if os_at s (CHR ''}'') then Some (True, os_advance s)
                else if os_at s (CHR '','') then os_object_loop n dep root (key # seen) (os_advance s)
                else Some (False, s))"
        using assms s1 s3 o3 False go by (simp add: os_object_loop.simps Let_def split del: if_split)
      show ?thesis by (rule that(2)[OF p(1,2) lt eq])
    qed
  qed
qed

lemma os_advances:
  shows "os_parseValue n dep root s = Some (b, s') \<Longrightarrow> os_raw s' = os_raw s \<and> (b \<longrightarrow> os_position s < os_position s')"
    and "os_object_loop n dep root seen s = Some (b, s') \<Longrightarrow> os_raw s' = os_raw s \<and> (b \<longrightarrow> os_position s < os_position s')"
    and "os_array_loop n dep s = Some (b, s') \<Longrightarrow> os_raw s' = os_raw s \<and> (b \<longrightarrow> os_position s < os_position s')"
proof (induction n arbitrary: dep root seen s b s' and dep root seen s b s' and dep root seen s b s')
  case (Suc n)
  have after: "os_raw s' = os_raw s5 \<and> (b \<longrightarrow> os_position s5 < os_position s')"
    if "(let s = os_skipSpace s5 in if os_at s c1 then Some (True, os_advance s)
          else if os_at s c2 then loop (os_advance s) else Some (False, s)) = Some (b, s')"
      and "\<And>s b s'. loop s = Some (b, s') \<Longrightarrow> os_raw s' = os_raw s \<and> (b \<longrightarrow> os_position s < os_position s')"
    for s5 c1 c2 loop b s'
    using that(1) that(2)[of "os_advance (os_skipSpace s5)" b s'] os_pos[of s5] os_pos(3,4)[of "os_skipSpace s5"]
    by (auto simp: Let_def split: if_splits)
  {
    case 1
    then show ?case
    proof (cases rule: os_parseValue_step)
      case (object s1)
      with Suc.IH(2)[OF object(1)[symmetric]] show ?thesis by auto
    next
      case (array s1)
      with Suc.IH(3)[OF array(1)[symmetric]] show ?thesis by auto
    qed auto
  next
    case 2
    then show ?case
    proof (cases rule: os_object_loop_step)
      case (entry s1 key)
      let ?m = "if root \<and> List.member (os_requested s1) key then Some (os_wanted dep key s1) else os_parseValue n (dep + 1) False s1"
      obtain b5 s5 where s5: "?m = Some (b5, s5)" using entry(4) by (cases ?m) auto
      have "os_raw s5 = os_raw s1 \<and> (b5 \<longrightarrow> os_position s1 < os_position s5)"
        using s5 os_wanted_pos[of dep key s1 b5 s5] Suc.IH(1)[of "dep + 1" False s1 b5 s5] by (auto split: if_splits)
      with entry s5 after[of s5 "CHR ''}''" "CHR '',''" "os_object_loop n dep root (key # seen)" b s'] Suc.IH(2)[of dep root "key # seen"] show ?thesis
        by (cases b5) auto
    qed auto
  next
    case 3
    then obtain b5 s5 where s5: "os_parseValue n (dep + 1) False s = Some (b5, s5)"
      by (cases "os_parseValue n (dep + 1) False s") (auto simp: os_array_loop.simps)
    with 3 Suc.IH(1)[OF s5] after[of s5 "CHR '']''" "CHR '',''" "os_array_loop n dep" b s'] Suc.IH(3)[of dep] show ?case
      by (cases b5) (auto simp: os_array_loop.simps)
  }
qed (simp_all add: os_parseValue.simps os_object_loop.simps os_array_loop.simps)

lemma os_fuel:
  shows "2 * (length (os_raw s) - os_position s) < n \<Longrightarrow> os_parseValue n dep root s \<noteq> None"
    and "2 * (length (os_raw s) - os_position s) + 1 < n \<Longrightarrow> os_object_loop n dep root seen s \<noteq> None"
    and "2 * (length (os_raw s) - os_position s) + 1 < n \<Longrightarrow> os_array_loop n dep s \<noteq> None"
proof (induction n arbitrary: dep root seen s and dep root seen s and dep root seen s)
  case (Suc n)
  have room: "2 * (length (os_raw (os_advance (os_skipSpace s5))) - os_position (os_advance (os_skipSpace s5))) + 1 < n"
    if "os_raw s5 = os_raw s" "os_position s < os_position s5" "os_position s < length (os_raw s)"
      "2 * (length (os_raw s) - os_position s) + 1 < Suc n" for s5 s
    using that os_pos[of s5] os_pos(3,4)[of "os_skipSpace s5"] by simp
  {
    case 1
    have "os_parseValue (Suc n) dep root s = os_parseValue (Suc n) dep root s" ..
    then show ?case
    proof (cases rule: os_parseValue_step)
      case (object s1)
      have "os_object_loop n dep root [] s1 \<noteq> None" using object 1 by (intro Suc.IH(2)) simp
      with object show ?thesis by simp
    next
      case (array s1)
      have "os_array_loop n dep s1 \<noteq> None" using array 1 by (intro Suc.IH(3)) simp
      with array show ?thesis by simp
    qed simp
  next
    case 2
    have "os_object_loop (Suc n) dep root seen s = os_object_loop (Suc n) dep root seen s" ..
    then show ?case
    proof (cases rule: os_object_loop_step)
      case (entry s1 key)
      let ?m = "if root \<and> List.member (os_requested s1) key then Some (os_wanted dep key s1) else os_parseValue n (dep + 1) False s1"
      have "os_parseValue n (dep + 1) False s1 \<noteq> None" using 2 entry(1-3) by (intro Suc.IH(1)) simp
      then have "?m \<noteq> None" by simp
      then obtain b5 s5 where s5: "?m = Some (b5, s5)" by fastforce
      have adv: "os_raw s5 = os_raw s1 \<and> (b5 \<longrightarrow> os_position s1 < os_position s5)"
        using s5 os_wanted_pos[of dep key s1 b5 s5] os_advances(1)[of n "dep + 1" False s1 b5 s5] by (auto split: if_splits)
      have "os_object_loop n dep root (key # seen) (os_advance (os_skipSpace s5)) \<noteq> None" if "b5"
        by (rule Suc.IH(2), rule room[of s5 s]) (use adv that entry(1-3) 2 in auto)
      with entry(4) s5 show ?thesis by (cases b5) (auto simp: Let_def)
    qed auto
  next
    case 3
    then have "2 * (length (os_raw s) - os_position s) < n" by simp
    from Suc.IH(1)[OF this, of "dep + 1" False] obtain b5 s5 where s5: "os_parseValue n (dep + 1) False s = Some (b5, s5)" by fastforce
    have "os_array_loop n dep (os_advance (os_skipSpace s5)) \<noteq> None" if "b5" "os_at (os_skipSpace s5) (CHR '','')"
    proof (rule Suc.IH(3), rule room[of s5 s])
      show "os_position s < length (os_raw s)" using os_advances(1)[OF s5] that os_pos[of s5] by (simp add: os_at_def)
    qed (use os_advances(1)[OF s5] that 3 in auto)
    with s5 show ?case by (cases b5) (auto simp: os_array_loop.simps Let_def)
  }
qed simp_all

text \<open>
  the object scanner always ends. On any bytes and from its initial state, twice the number of
  bytes (plus one) of recursive calls are enough for \<open>parseValue\<close> to return, so the fuel that
  \<open>scanObjectStrings\<close> passes is never what makes it refuse a document.
\<close>

theorem os_enough_fuel: "os_parseValue (2 * length raw + 1 + k) dep root (new_scanner raw requested maxDepth maxNodes) \<noteq> None"
  by (rule os_fuel(1)) (simp add: new_scanner_def)

end
