(* ===== verification/Rtk_Config.thy ===== *)
theory Rtk_Config
  imports Rtk_Json Go_Path
begin

section \<open>rtkreducer: configuration\<close>

text \<open>
  config.go of rtkreducer: the limits with their absolute guards, the validation of bindings, fields
  and input matches, and \<open>canonicalize\<close>. An error is the code that \<open>configError\<close> formats.
  \<open>extension.ValidateScope\<close>, \<open>extension.GlobalScope\<close> and \<open>extension.ValidateIdentifier\<close> belong to
  the framework and are arguments; the scope's zero value is \<open>None\<close>. \<open>Mode\<close> and \<open>Filter\<close> are the
  strings the source declares them to be.
\<close>

definition rtk_DefaultOrder :: int where
  "rtk_DefaultOrder = 1000"

definition TextOnly :: string where
  "TextOnly = ''text-only''"

definition JSONMirror :: string where
  "JSONMirror = ''json-mirror''"

definition GoTest :: string where
  "GoTest = ''go-test''"

definition GitDiff :: string where
  "GitDiff = ''git-diff''"

definition LogFilter :: string where
  "LogFilter = ''log''"

record rtk_Field =
  fd_Name :: string
  fd_Filter :: string

record rtk_InputMatch =
  im_Field :: string
  im_Equals :: "string list"

record rtk_Binding =
  rb_ToolName :: string
  rb_Mode :: string
  rb_MatchInput :: "rtk_InputMatch option"
  rb_Fields :: "rtk_Field list"

record rtk_Limits =
  rl_MaxBindings :: int
  rl_MaxFieldsPerBinding :: int
  rl_MaxInputMatches :: int
  rl_MaxConfigBytes :: int
  rl_MaxInputBytes :: int
  rl_MaxResultBytes :: int
  rl_MaxFieldBytes :: int
  rl_MaxJSONDepth :: int
  rl_MaxJSONNodes :: int
  rl_MaxConcurrent :: int
  rl_MaxStdoutBytes :: int
  rl_MaxStderrBytes :: int
  rl_Timeout :: int
  rl_KillWait :: int

record 'scope rtk_Options =
  ro_Scope :: "'scope option"
  ro_Order :: int
  ro_ExecutablePath :: string
  ro_ExecutableSHA256 :: string
  ro_TempRoot :: string
  ro_Bindings :: "rtk_Binding list"
  ro_Limits :: rtk_Limits

record 'scope rtk_canonicalOptions =
  co_scope :: 'scope
  co_order :: int
  co_executablePath :: string
  co_executableSHA256 :: string
  co_tempRoot :: string
  co_bindings :: "rtk_Binding list"
  co_limits :: rtk_Limits

text \<open>
  The canonical binding and input match have the fields of the public ones; they are the same
  records here. A minute is counted in nanoseconds.
\<close>

definition rtk_minute :: int where
  "rtk_minute = 60000000000"

definition rtk_validateLimits :: "rtk_Limits \<Rightarrow> string option" where
  "rtk_validateLimits l =
     (if list_ex (\<lambda>v. v \<le> 0)
          [rl_MaxBindings l, rl_MaxFieldsPerBinding l, rl_MaxInputMatches l, rl_MaxConfigBytes l, rl_MaxInputBytes l, rl_MaxResultBytes l,
           rl_MaxFieldBytes l, rl_MaxJSONDepth l, rl_MaxJSONNodes l, rl_MaxConcurrent l, rl_MaxStdoutBytes l, rl_MaxStderrBytes l]
      then Some ''limits''
      else if rl_MaxBindings l > 256 \<or> rl_MaxFieldsPerBinding l > 256 \<or> rl_MaxInputMatches l > 256
           \<or> rl_MaxConfigBytes l > 2 ^ 20 \<or> rl_MaxInputBytes l > 2 ^ 20 \<or> rl_MaxResultBytes l > 32 * 2 ^ 20
           \<or> rl_MaxFieldBytes l > 2 ^ 20 \<or> rl_MaxJSONDepth l > 128 \<or> rl_MaxJSONNodes l > 262144
           \<or> rl_MaxConcurrent l > 64 \<or> rl_MaxStdoutBytes l > 2 ^ 20 \<or> rl_MaxStderrBytes l > 64 * 2 ^ 10
      then Some ''limits''
      else if rl_MaxStdoutBytes l > rl_MaxFieldBytes l \<or> rl_MaxFieldBytes l > rl_MaxResultBytes l then Some ''limit-order''
      else if rl_Timeout l \<le> 0 \<or> rl_Timeout l > rtk_minute \<or> rl_KillWait l \<le> 0 \<or> rl_KillWait l > rtk_minute then Some ''timeouts''
      else if rl_Timeout l > MaxInt64 - rl_KillWait l then Some ''timeouts''
      else None)"

text \<open>The \<open>add\<close> closure of \<open>validateRawConfigSize\<close>, over the lengths in the order of the loops.\<close>

fun rtk_add_all :: "int \<Rightarrow> int \<Rightarrow> int list \<Rightarrow> bool" where
  "rtk_add_all m tot [] = True"
| "rtk_add_all m tot (n # ns) = (if n < 0 \<or> n > m - tot then False else rtk_add_all m (tot + n) ns)"

definition rtk_raw_sizes :: "rtk_Binding \<Rightarrow> int list" where
  "rtk_raw_sizes b =
     len (rb_ToolName b) # concat (map (\<lambda>f. [len (fd_Name f), len (fd_Filter f)]) (rb_Fields b)) @
     (case rb_MatchInput b of None \<Rightarrow> [] | Some m \<Rightarrow> len (im_Field m) # map len (im_Equals m))"

definition rtk_validateRawConfigSize :: "rtk_Binding list \<Rightarrow> int \<Rightarrow> string option" where
  "rtk_validateRawConfigSize bs m = (if rtk_add_all m 0 (concat (map rtk_raw_sizes bs)) then None else Some ''config-bytes'')"

definition rtk_validJSONFieldName :: "string \<Rightarrow> bool" where
  "rtk_validJSONFieldName v \<longleftrightarrow> v \<noteq> [] \<and> utf8_valid v \<and> \<not> ContainsByte v (CHR 0x00)"

definition rtk_validFilter :: "string \<Rightarrow> bool" where
  "rtk_validFilter f \<longleftrightarrow> f = GoTest \<or> f = GitDiff \<or> f = LogFilter"

fun rtk_check_equals :: "rtk_Limits \<Rightarrow> string list \<Rightarrow> string list \<Rightarrow> string option" where
  "rtk_check_equals l seen [] = None"
| "rtk_check_equals l seen (v # vs) =
     (if \<not> utf8_valid v \<or> ContainsByte v (CHR 0x00) \<or> len v > rl_MaxInputBytes l then Some ''input-match-value''
      else if List.member seen v then Some ''duplicate-input-match''
      else rtk_check_equals l (v # seen) vs)"

definition rtk_validateInputMatch :: "rtk_InputMatch \<Rightarrow> rtk_Limits \<Rightarrow> string option" where
  "rtk_validateInputMatch m l =
     (if \<not> rtk_validJSONFieldName (im_Field m) then Some ''match-field''
      else if im_Equals m = [] \<or> len (im_Equals m) > rl_MaxInputMatches l \<or> len (im_Equals m) > 256 then Some ''input-match-count''
      else rtk_check_equals l [] (im_Equals m))"

definition rtk_validatePathSyntax :: "string \<Rightarrow> string \<Rightarrow> string option" where
  "rtk_validatePathSyntax path code =
     (if path = [] \<or> len path > 4096 \<or> \<not> utf8_valid path \<or> ContainsByte path (CHR 0x00) \<or> \<not> IsAbs path \<or> Clean path \<noteq> path
      then Some code else None)"

fun rtk_check_fields :: "string \<Rightarrow> string list \<Rightarrow> rtk_Field list \<Rightarrow> string option" where
  "rtk_check_fields mode seen [] = None"
| "rtk_check_fields mode seen (f # fs) =
     (if mode = JSONMirror \<and> \<not> rtk_validJSONFieldName (fd_Name f) then Some ''field-name''
      else if mode = TextOnly \<and> fd_Name f \<noteq> [] then Some ''text-field-name''
      else if List.member seen (fd_Name f) then Some ''duplicate-field''
      else if \<not> rtk_validFilter (fd_Filter f) then Some ''filter''
      else rtk_check_fields mode (fd_Name f # seen) fs)"

definition rtk_check_binding :: "(string \<Rightarrow> bool) \<Rightarrow> rtk_Limits \<Rightarrow> string list \<Rightarrow> rtk_Binding \<Rightarrow> string option" where
  "rtk_check_binding ValidateIdentifier l seen b =
     (if \<not> ValidateIdentifier (rb_ToolName b) then Some ''tool-name''
      else if List.member seen (rb_ToolName b) then Some ''duplicate-tool''
      else if rb_Mode b \<noteq> TextOnly \<and> rb_Mode b \<noteq> JSONMirror then Some ''mode''
      else if rb_Mode b = TextOnly \<and> (length (rb_Fields b) \<noteq> 1 \<or> fd_Name (rb_Fields b ! 0) \<noteq> []) then Some ''text-fields''
      else if rb_Mode b = JSONMirror \<and> rb_Fields b = [] then Some ''json-fields''
      else if len (rb_Fields b) > rl_MaxFieldsPerBinding l \<or> len (rb_Fields b) > 256 then Some ''field-count''
      else (case (case rb_MatchInput b of None \<Rightarrow> None | Some m \<Rightarrow> rtk_validateInputMatch m l) of
              Some e \<Rightarrow> Some e
            | None \<Rightarrow> rtk_check_fields (rb_Mode b) [] (rb_Fields b)))"

fun rtk_check_bindings :: "(string \<Rightarrow> bool) \<Rightarrow> rtk_Limits \<Rightarrow> string list \<Rightarrow> rtk_Binding list \<Rightarrow> string option" where
  "rtk_check_bindings ValidateIdentifier l seen [] = None"
| "rtk_check_bindings ValidateIdentifier l seen (b # bs) =
     (case rtk_check_binding ValidateIdentifier l seen b of
        Some e \<Rightarrow> Some e
      | None \<Rightarrow> rtk_check_bindings ValidateIdentifier l (rb_ToolName b # seen) bs)"

text \<open>
  The digest: both tests return the same code, and a string with a byte outside ASCII fails the
  hexadecimal one whatever \<open>strings.ToLower\<close> makes of it, so lowering is that of ASCII letters.
\<close>

definition ascii_lower :: "char \<Rightarrow> char" where
  "ascii_lower c = (if byte (CHR ''A'') \<le> byte c \<and> byte c \<le> byte (CHR ''Z'') then char_of (byte c + 0x20) else c)"

definition rtk_digest_ok :: "string \<Rightarrow> bool" where
  "rtk_digest_ok s \<longleftrightarrow> length s = 64 \<and> map ascii_lower s = s \<and> list_all (\<lambda>c. hex_digit c \<noteq> None) s"

text \<open>
  \<open>sort.Slice\<close> is not stable; tool names, field names and match values are distinct by then, so the
  sorted slices are determined.
\<close>

definition rtk_copy_binding :: "rtk_Binding \<Rightarrow> rtk_Binding" where
  "rtk_copy_binding b =
     \<lparr>rb_ToolName = rb_ToolName b, rb_Mode = rb_Mode b,
      rb_MatchInput = map_option (\<lambda>m. \<lparr>im_Field = im_Field m, im_Equals = sort (im_Equals m)\<rparr>) (rb_MatchInput b),
      rb_Fields = sort_key (\<lambda>f. (fd_Name f, fd_Filter f)) (rb_Fields b)\<rparr>"

definition rtk_canonicalize ::
  "'scope \<Rightarrow> ('scope \<Rightarrow> bool) \<Rightarrow> (string \<Rightarrow> bool) \<Rightarrow> 'scope rtk_Options \<Rightarrow> string + 'scope rtk_canonicalOptions" where
  "rtk_canonicalize GlobalScope ValidateScope ValidateIdentifier opts =
     (let scope = (case ro_Scope opts of None \<Rightarrow> GlobalScope | Some s \<Rightarrow> s);
          order = (if ro_Order opts = 0 then rtk_DefaultOrder else ro_Order opts);
          l = ro_Limits opts in
      if \<not> ValidateScope scope then Inl ''scope''
      else if order \<ge> LateOrder then Inl ''order-too-late''
      else case rtk_validateLimits l of Some e \<Rightarrow> Inl e | None \<Rightarrow>
      case rtk_validatePathSyntax (ro_ExecutablePath opts) ''executable-path'' of Some e \<Rightarrow> Inl e | None \<Rightarrow>
      case rtk_validatePathSyntax (ro_TempRoot opts) ''temp-root'' of Some e \<Rightarrow> Inl e | None \<Rightarrow>
      if \<not> rtk_digest_ok (ro_ExecutableSHA256 opts) then Inl ''executable-digest''
      else if ro_Bindings opts = [] then Inl ''bindings-required''
      else if len (ro_Bindings opts) > rl_MaxBindings l \<or> len (ro_Bindings opts) > 256 then Inl ''binding-count''
      else case rtk_validateRawConfigSize (ro_Bindings opts) (rl_MaxConfigBytes l) of Some e \<Rightarrow> Inl e | None \<Rightarrow>
      case rtk_check_bindings ValidateIdentifier l [] (ro_Bindings opts) of Some e \<Rightarrow> Inl e | None \<Rightarrow>
      Inr \<lparr>co_scope = scope, co_order = order, co_executablePath = ro_ExecutablePath opts, co_executableSHA256 = ro_ExecutableSHA256 opts,
           co_tempRoot = ro_TempRoot opts, co_bindings = sort_key rb_ToolName (map rtk_copy_binding (ro_Bindings opts)), co_limits = l\<rparr>)"


subsection \<open>What an accepted configuration is\<close>

lemma rtk_add_all_sum: "rtk_add_all m t ns \<Longrightarrow> t + sum_list ns \<le> m \<or> ns = []"
proof (induction ns arbitrary: t)
  case (Cons n ns)
  then show ?case by (cases "ns = []") (fastforce split: if_splits)+
qed simp

lemma rtk_check_equals_None:
  "rtk_check_equals l seen vs = None \<Longrightarrow>
     distinct vs \<and> (\<forall>v \<in> set vs. v \<notin> set seen \<and> utf8_valid v \<and> len v \<le> rl_MaxInputBytes l)"
proof (induction vs arbitrary: seen)
  case (Cons v vs)
  then show ?case using Cons.IH[of "v # seen"] by (simp split: if_splits) blast
qed simp

lemma rtk_check_fields_None:
  "rtk_check_fields mode seen fs = None \<Longrightarrow> distinct (map fd_Name fs) \<and>
     (\<forall>f \<in> set fs. fd_Name f \<notin> set seen \<and> rtk_validFilter (fd_Filter f) \<and> (mode = JSONMirror \<longrightarrow> rtk_validJSONFieldName (fd_Name f)))"
proof (induction fs arbitrary: seen)
  case (Cons f fs)
  then have c: "rtk_check_fields mode (fd_Name f # seen) fs = None" "fd_Name f \<notin> set seen" "rtk_validFilter (fd_Filter f)"
    "mode = JSONMirror \<longrightarrow> rtk_validJSONFieldName (fd_Name f)" by (simp_all split: if_splits)
  then show ?case using Cons.IH[OF c(1)] by auto
qed simp

lemma rtk_check_bindings_None:
  "rtk_check_bindings v l seen bs = None \<Longrightarrow> distinct (map rb_ToolName bs) \<and>
     (\<forall>b \<in> set bs. rb_ToolName b \<notin> set seen \<and> (\<exists>s. rtk_check_binding v l s b = None))"
proof (induction bs arbitrary: seen)
  case (Cons b bs)
  then have c: "rtk_check_bindings v l (rb_ToolName b # seen) bs = None" "rtk_check_binding v l seen b = None" by (simp_all split: option.splits)
  then have "rb_ToolName b \<notin> set seen" by (auto simp: rtk_check_binding_def split: if_splits)
  then show ?case using Cons.IH[OF c(1)] c(2) by auto
qed simp

text \<open>What the transformer relies on in a binding.\<close>

definition rtk_binding_ok :: "rtk_Limits \<Rightarrow> rtk_Binding \<Rightarrow> bool" where
  "rtk_binding_ok l b \<longleftrightarrow>
     (rb_Mode b = TextOnly \<and> length (rb_Fields b) = 1 \<or> rb_Mode b = JSONMirror \<and> rb_Fields b \<noteq> []) \<and>
     distinct (map fd_Name (rb_Fields b)) \<and> (\<forall>f \<in> set (rb_Fields b). rtk_validFilter (fd_Filter f)) \<and>
     (\<forall>m. rb_MatchInput b = Some m \<longrightarrow> sorted (im_Equals m) \<and> distinct (im_Equals m) \<and> im_Equals m \<noteq> [] \<and>
        len (im_Equals m) \<le> rl_MaxInputMatches l)"

lemma rtk_check_binding_ok:
  assumes "rtk_check_binding v l s b = None"
  shows "rtk_binding_ok l (rtk_copy_binding b)"
proof -
  have m: "rb_Mode b = TextOnly \<and> length (rb_Fields b) = 1 \<or> rb_Mode b = JSONMirror \<and> rb_Fields b \<noteq> []"
    and f: "rtk_check_fields (rb_Mode b) [] (rb_Fields b) = None"
    and i: "\<And>m. rb_MatchInput b = Some m \<Longrightarrow> rtk_validateInputMatch m l = None"
    using assms by (auto simp: rtk_check_binding_def split: if_splits option.splits)
  have e: "rtk_check_equals l [] (im_Equals x) = None" "im_Equals x \<noteq> []" "len (im_Equals x) \<le> rl_MaxInputMatches l"
    if "rb_MatchInput b = Some x" for x
    using i[OF that] by (auto simp: rtk_validateInputMatch_def split: if_splits)
  have s: "mset (map fd_Name (rb_Fields (rtk_copy_binding b))) = mset (map fd_Name (rb_Fields b))"
    by (simp add: rtk_copy_binding_def)
  then have "distinct (map fd_Name (rb_Fields (rtk_copy_binding b)))"
    using rtk_check_fields_None[OF f] mset_eq_imp_distinct_iff[OF s] by simp
  moreover have "rb_Mode (rtk_copy_binding b) = TextOnly \<and> length (rb_Fields (rtk_copy_binding b)) = 1
      \<or> rb_Mode (rtk_copy_binding b) = JSONMirror \<and> rb_Fields (rtk_copy_binding b) \<noteq> []"
    using m by (simp add: rtk_copy_binding_def length_greater_0_conv[symmetric] del: length_greater_0_conv)
  moreover have "\<forall>f \<in> set (rb_Fields (rtk_copy_binding b)). rtk_validFilter (fd_Filter f)"
    using rtk_check_fields_None[OF f] by (simp add: rtk_copy_binding_def)
  moreover have "sorted (im_Equals x) \<and> distinct (im_Equals x) \<and> im_Equals x \<noteq> [] \<and> len (im_Equals x) \<le> rl_MaxInputMatches l"
    if x: "rb_MatchInput (rtk_copy_binding b) = Some x" for x
  proof -
    obtain y where y: "rb_MatchInput b = Some y" "im_Equals x = sort (im_Equals y)" using x by (auto simp: rtk_copy_binding_def)
    have "length (im_Equals x) = length (im_Equals y)" using y(2) by simp
    then have "im_Equals x \<noteq> [] \<and> len (im_Equals x) = len (im_Equals y)" using e(2)[OF y(1)] unfolding len_def by fastforce
    then show ?thesis using e[OF y(1)] rtk_check_equals_None[OF e(1)[OF y(1)]] y(2) by simp
  qed
  ultimately show ?thesis unfolding rtk_binding_ok_def by blast
qed

lemma rtk_canonicalizeD:
  assumes "rtk_canonicalize g vs vi opts = Inr co"
  shows "co_bindings co = sort_key rb_ToolName (map rtk_copy_binding (ro_Bindings opts))" "co_limits co = ro_Limits opts"
    "rtk_check_bindings vi (ro_Limits opts) [] (ro_Bindings opts) = None" "rtk_validateLimits (ro_Limits opts) = None"
    "rtk_add_all (rl_MaxConfigBytes (ro_Limits opts)) 0 (concat (map rtk_raw_sizes (ro_Bindings opts)))"
    "co_order co < LateOrder" "vs (co_scope co)" "ro_Bindings opts \<noteq> []" "len (ro_Bindings opts) \<le> rl_MaxBindings (ro_Limits opts)"
  using assms by (auto simp: rtk_canonicalize_def rtk_validateRawConfigSize_def Let_def split: if_splits option.splits)

lemma rtk_limits_ok:
  assumes "rtk_validateLimits l = None"
  shows "0 < rl_MaxConcurrent l" "0 < rl_MaxStdoutBytes l" "rl_MaxStdoutBytes l \<le> rl_MaxFieldBytes l" "rl_MaxFieldBytes l \<le> rl_MaxResultBytes l"
    "rl_MaxResultBytes l \<le> 32 * 2 ^ 20" "0 < rl_MaxJSONDepth l" "0 < rl_MaxJSONNodes l" "0 < rl_MaxStderrBytes l" "0 < rl_KillWait l"
    "rl_Timeout l + rl_KillWait l \<le> MaxInt64" "0 < rl_Timeout l" "rl_MaxConcurrent l \<le> 64"
  using assms by (auto simp: rtk_validateLimits_def split: if_splits)

lemma rtk_canonical_binding:
  assumes "rtk_canonicalize g vs vi opts = Inr co" "b \<in> set (co_bindings co)"
  obtains b0 where "b0 \<in> set (ro_Bindings opts)" "b = rtk_copy_binding b0" "rtk_binding_ok (co_limits co) b"
proof -
  note c = rtk_canonicalizeD[OF assms(1)]
  obtain b0 where b0: "b0 \<in> set (ro_Bindings opts)" "b = rtk_copy_binding b0" using assms(2) c(1) by auto
  then show thesis using that rtk_check_bindings_None[OF c(3)] rtk_check_binding_ok c(2) by metis
qed

end
