(* ===== verification/Rtk_Process.thy ===== *)
theory Rtk_Process
  imports Rtk_Config
begin

section \<open>rtkreducer: bounded capture and the process coordinator\<close>

text \<open>
  capture.go and the coordinator of process.go: the capacity slots, the leases that hold them, the
  goroutines that own one native process and its private directory each, and \<open>Close\<close>. Every definition
  is one section of code that runs without releasing a mutex (or a single channel operation), so that
  the step relation interleaves them freely. What the file system and the process do is an argument of
  the step. The directories the coordinator has created and that still exist are kept in
  \<open>y_disk\<close>, which no code reads.
\<close>

subsection \<open>Bounded capture\<close>

record boundedCapture =
  bc_limit :: int
  bc_retain :: bool
  bc_buf :: bytes
  bc_count :: int
  bc_overflow :: bool

definition newBoundedCapture :: "int \<Rightarrow> boundedCapture" where
  "newBoundedCapture limit = \<lparr>bc_limit = limit, bc_retain = True, bc_buf = [], bc_count = 0, bc_overflow = False\<rparr>"

definition newDiscardCapture :: "int \<Rightarrow> boundedCapture" where
  "newDiscardCapture limit = \<lparr>bc_limit = limit, bc_retain = False, bc_buf = [], bc_count = 0, bc_overflow = False\<rparr>"

datatype capture_error = ErrShortBuffer | ErrNoProgress | ReadFailed string

text \<open>The result of \<open>write\<close>: the bytes reported as written, and whether the overflow callback ran.\<close>

definition capture_write :: "boundedCapture \<Rightarrow> bytes \<Rightarrow> (capture_error + int \<times> bool) \<times> boundedCapture" where
  "capture_write c v =
     (if bc_limit c \<le> 0 then (Inl ErrShortBuffer, c)
      else let remaining = bc_limit c - bc_count c;
               keep = len v;
               keep = (if keep > remaining then remaining else keep);
               keep = (if keep < 0 then 0 else keep);
               c = (if bc_retain c \<and> keep > 0 then c\<lparr>bc_buf := bc_buf c @ take (nat keep) v\<rparr> else c);
               c = c\<lparr>bc_count := bc_count c + keep\<rparr> in
        if keep \<noteq> len v \<and> \<not> bc_overflow c then (Inr (len v, True), c\<lparr>bc_overflow := True\<rparr>)
        else (Inr (len v, False), c))"

fun capture_writes :: "boundedCapture \<Rightarrow> bytes list \<Rightarrow> nat \<times> boundedCapture" where
  "capture_writes c [] = (0, c)"
| "capture_writes c (v # vs) =
     (case capture_write c v of
        (Inl e, c) \<Rightarrow> (0, c)
      | (Inr (n, stopped), c) \<Rightarrow> (case capture_writes c vs of (k, c) \<Rightarrow> ((if stopped then 1 else 0) + k, c)))"

text \<open>
  \<open>readFrom\<close>, over what the reader returns: the bytes of each read and its error, \<open>Some []\<close> for the end of
  the stream. When the list ends the reader has not returned yet.
\<close>

fun read_loop :: "boundedCapture \<Rightarrow> nat \<Rightarrow> (bytes \<times> string option) list \<Rightarrow> capture_error option \<times> boundedCapture" where
  "read_loop c zeroReads [] = (None, c)"
| "read_loop c zeroReads ((chunk, err) # reads) =
     (if chunk \<noteq> [] then
        (case capture_write c chunk of
           (Inl e, c) \<Rightarrow> (Some e, c)
         | (Inr _, c) \<Rightarrow>
             (case err of None \<Rightarrow> read_loop c 0 reads | Some e \<Rightarrow> (if e = [] then None else Some (ReadFailed e), c)))
      else case err of
        None \<Rightarrow> if zeroReads + 1 \<ge> 100 then (Some ErrNoProgress, c) else read_loop c (zeroReads + 1) reads
      | Some e \<Rightarrow> (if e = [] then None else Some (ReadFailed e), c))"

definition readFrom :: "boundedCapture \<Rightarrow> (bytes \<times> string option) list \<Rightarrow> capture_error option \<times> boundedCapture" where
  "readFrom c reads = (if bc_limit c \<le> 0 then (Some ErrShortBuffer, c) else read_loop c 0 reads)"

lemma capture_write_shape:
  assumes "0 < bc_limit c" "0 \<le> bc_count c" "bc_count c \<le> bc_limit c"
  shows "capture_write c v = (let k = min (nat (bc_limit c - bc_count c)) (length v) in
    (Inr (len v, k \<noteq> length v \<and> \<not> bc_overflow c),
     c\<lparr>bc_buf := (if bc_retain c then bc_buf c @ take k v else bc_buf c), bc_count := bc_count c + int k, bc_overflow := bc_overflow c \<or> k \<noteq> length v\<rparr>))"
proof (cases "bc_limit c - bc_count c < len v")
  case True
  then have "min (nat (bc_limit c - bc_count c)) (length v) = nat (bc_limit c - bc_count c)" "nat (bc_limit c - bc_count c) \<noteq> length v"
    using assms(3) by (simp_all add: len_def min_def) linarith+
  then show ?thesis using assms True by (auto simp: capture_write_def Let_def)
next
  case False
  then have "min (nat (bc_limit c - bc_count c)) (length v) = length v" by (simp add: len_def min_def) linarith
  then show ?thesis using assms False by (cases c) (simp add: capture_write_def Let_def len_def)
qed

lemma capture_writes_from:
  assumes "0 < bc_limit c" "bc_count c = int (min (nat (bc_limit c)) n)" "bc_overflow c \<longleftrightarrow> n > nat (bc_limit c)"
  shows "capture_writes c vs = (if \<not> bc_overflow c \<and> n + length (concat vs) > nat (bc_limit c) then 1 else 0,
    c\<lparr>bc_buf := (if bc_retain c then bc_buf c @ take (nat (bc_limit c) - n) (concat vs) else bc_buf c),
      bc_count := int (min (nat (bc_limit c)) (n + length (concat vs))), bc_overflow := n + length (concat vs) > nat (bc_limit c)\<rparr>)"
  using assms
proof (induction vs arbitrary: c n)
  case (Cons v vs)
  let ?k = "min (nat (bc_limit c - bc_count c)) (length v)"
  let ?c = "c\<lparr>bc_buf := (if bc_retain c then bc_buf c @ take ?k v else bc_buf c), bc_count := bc_count c + int ?k, bc_overflow := bc_overflow c \<or> ?k \<noteq> length v\<rparr>"
  have w: "capture_write c v = (Inr (len v, ?k \<noteq> length v \<and> \<not> bc_overflow c), ?c)"
    using capture_write_shape[of c v] Cons.prems by (simp add: Let_def)
  have k: "nat (bc_limit c - bc_count c) = nat (bc_limit c) - n" using Cons.prems(1,2) by (simp add: min_def) linarith
  have ih: "capture_writes ?c vs = (if \<not> bc_overflow ?c \<and> (n + length v) + length (concat vs) > nat (bc_limit ?c) then 1 else 0,
    ?c\<lparr>bc_buf := (if bc_retain ?c then bc_buf ?c @ take (nat (bc_limit ?c) - (n + length v)) (concat vs) else bc_buf ?c),
      bc_count := int (min (nat (bc_limit ?c)) ((n + length v) + length (concat vs))), bc_overflow := (n + length v) + length (concat vs) > nat (bc_limit ?c)\<rparr>)"
  proof (rule Cons.IH)
    have kk: "?k = min (nat (bc_limit c) - n) (length v)" by (simp only: k)
    have "min a n + min (a - n) m = min a (n + m)" "a < n \<or> min (a - n) m \<noteq> m \<longleftrightarrow> a < n + m" for a m :: nat by (auto simp: min_def)
    then show "bc_count ?c = int (min (nat (bc_limit ?c)) (n + length v))" "bc_overflow ?c \<longleftrightarrow> n + length v > nat (bc_limit ?c)"
      unfolding kk by (simp_all add: Cons.prems(2,3) flip: of_nat_add)
  qed (simp add: Cons.prems(1))
  have b: "take ?k v @ take (nat (bc_limit c) - (n + length v)) (concat vs) = take (nat (bc_limit c) - n) (v @ concat vs)"
    unfolding k by (simp add: min_def)
  show ?case
    using w ih Cons.prems(3) b k by (auto simp: add.assoc)
qed (auto simp: min_def)

text \<open>
  Whatever chunks the process writes to a bounded stream, with a positive limit, the retained bytes
  are exactly the first \<open>limit\<close> of what was written (none for a discarding capture), the overflow
  flag is set exactly when more was written, and the callback that kills the process runs once in
  that case and never otherwise.
\<close>

theorem capture_exact:
  assumes "0 < limit"
  shows "capture_writes (newBoundedCapture limit) vs =
      (if length (concat vs) > nat limit then 1 else 0,
       \<lparr>bc_limit = limit, bc_retain = True, bc_buf = take (nat limit) (concat vs), bc_count = min limit (len (concat vs)),
        bc_overflow = length (concat vs) > nat limit\<rparr>) \<and>
    capture_writes (newDiscardCapture limit) vs =
      (if length (concat vs) > nat limit then 1 else 0,
       \<lparr>bc_limit = limit, bc_retain = False, bc_buf = [], bc_count = min limit (len (concat vs)), bc_overflow = length (concat vs) > nat limit\<rparr>)"
  using assms capture_writes_from[of "newBoundedCapture limit" 0 vs] capture_writes_from[of "newDiscardCapture limit" 0 vs]
  by (auto simp: newBoundedCapture_def newDiscardCapture_def len_def min_def)

theorem capture_exact_witness:
  "capture_writes (newBoundedCapture 3) [''ab'', ''cd'', ''e''] =
     (1, \<lparr>bc_limit = 3, bc_retain = True, bc_buf = ''abc'', bc_count = 3, bc_overflow = True\<rparr>)"
  using capture_exact[of 3 "[''ab'', ''cd'', ''e'']"] by (simp add: len_def)


subsection \<open>One process\<close>

record invocationDirs =
  iv_root :: string
  iv_work :: string
  iv_home :: string
  iv_config :: string
  iv_data :: string
  iv_claude :: string
  iv_tmp :: string

definition invocation_dirs :: "string \<Rightarrow> invocationDirs" where
  "invocation_dirs path = \<lparr>iv_root = path, iv_work = Join2 path ''work'', iv_home = Join2 path ''home'', iv_config = Join2 path ''config'',
     iv_data = Join2 path ''data'', iv_claude = Join2 path ''claude'', iv_tmp = Join2 path ''tmp''\<rparr>"

definition iv_env :: "invocationDirs \<Rightarrow> string list" where
  "iv_env d = [''HOME='' @ iv_home d, ''XDG_CONFIG_HOME='' @ iv_config d, ''XDG_DATA_HOME='' @ iv_data d, ''CLAUDE_CONFIG_DIR='' @ iv_claude d,
     ''TMPDIR='' @ iv_tmp d, ''RTK_TELEMETRY_DISABLED=1'', ''NO_COLOR=1'', ''TERM=dumb'', ''LANG=C'', ''LC_ALL=C'']"

text \<open>
  What \<open>os/exec\<close> did: whether the platform's \<open>configureProcess\<close> failed, whether \<open>Run\<close> returned an error, whether
  the context had ended by then, and the chunks it copied from the two streams.
\<close>

record exec_outcome =
  ex_unsupported :: bool
  ex_err :: bool
  ex_ctx :: bool
  ex_stdout :: "bytes list"
  ex_stderr :: "bytes list"

definition runProcess :: "string \<Rightarrow> rtk_Limits \<Rightarrow> string \<Rightarrow> string \<Rightarrow> exec_outcome \<Rightarrow> string \<times> bool" where
  "runProcess executable l fil input ex =
     (if executable = [] \<or> \<not> rtk_validFilter fil \<or> input = [] \<or> len input > rl_MaxFieldBytes l then ([], False)
      else if ex_unsupported ex then ([], False)
      else let stdoutCapture = snd (capture_writes (newBoundedCapture (rl_MaxStdoutBytes l)) (ex_stdout ex));
               stderrCapture = snd (capture_writes (newDiscardCapture (rl_MaxStderrBytes l)) (ex_stderr ex)) in
        if ex_err ex \<or> ex_ctx ex \<or> bc_overflow stdoutCapture \<or> bc_overflow stderrCapture then ([], False)
        else let out = bc_buf stdoutCapture in
          if length out = 0 \<or> \<not> utf8_valid out then ([], False) else (out, True))"

text \<open>
  \<open>lease.reduce\<close>: \<open>None\<close> is an owner that had not answered when the kill wait ended. A result the owner cannot
  vouch for (a panic, or a directory it failed to remove) is the zero result.
\<close>

definition owner_result :: "string \<times> bool \<Rightarrow> bool \<Rightarrow> bool \<Rightarrow> string \<times> bool" where
  "owner_result res panicked removed = (if panicked \<or> \<not> removed then ([], False) else res)"

definition lease_reduce :: "rtk_Limits \<Rightarrow> string \<Rightarrow> string \<Rightarrow> bool \<Rightarrow> (string \<times> bool) option \<Rightarrow> string \<times> bool" where
  "lease_reduce l fil input ctxErr answer =
     (if \<not> rtk_validFilter fil \<or> input = [] \<or> \<not> utf8_valid input \<or> len input > rl_MaxFieldBytes l then ([], False)
      else if ctxErr then ([], False)
      else case answer of Some r \<Rightarrow> r | None \<Rightarrow> ([], False))"

lemma capture_result:
  assumes "0 < limit"
  shows "bc_overflow (snd (capture_writes (newBoundedCapture limit) vs)) \<longleftrightarrow> length (concat vs) > nat limit"
    "bc_overflow (snd (capture_writes (newDiscardCapture limit) vs)) \<longleftrightarrow> length (concat vs) > nat limit"
    "bc_buf (snd (capture_writes (newBoundedCapture limit) vs)) = take (nat limit) (concat vs)"
  using assms capture_writes_from[of "newBoundedCapture limit" 0 vs] capture_writes_from[of "newDiscardCapture limit" 0 vs]
  by (auto simp: newBoundedCapture_def newDiscardCapture_def)

text \<open>
  C35: a reduction counts as successful exactly when the filter and the input are acceptable, the process
  ran without an error before the context ended, and its standard output and error stayed within
  their limits; the output is then all of what the process wrote, never a truncation, and it is
  non-empty valid UTF-8.
\<close>

theorem runProcess_exact:
  assumes "rtk_validateLimits l = None"
  shows "runProcess executable l fil input ex = (out, True) \<longleftrightarrow>
    executable \<noteq> [] \<and> rtk_validFilter fil \<and> input \<noteq> [] \<and> len input \<le> rl_MaxFieldBytes l \<and>
    \<not> ex_unsupported ex \<and> \<not> ex_err ex \<and> \<not> ex_ctx ex \<and>
    out = concat (ex_stdout ex) \<and> len out \<le> rl_MaxStdoutBytes l \<and> len (concat (ex_stderr ex)) \<le> rl_MaxStderrBytes l \<and>
    out \<noteq> [] \<and> utf8_valid out"
proof -
  have pos: "0 < rl_MaxStdoutBytes l" "0 < rl_MaxStderrBytes l" using rtk_limits_ok[OF assms] by simp_all
  note c = capture_result[OF pos(1), of "ex_stdout ex"] capture_result[OF pos(2), of "ex_stderr ex"]
  have o: "\<not> length xs > nat k \<longleftrightarrow> len xs \<le> k" "len xs \<le> k \<Longrightarrow> take (nat k) xs = xs" if "0 < k" for xs :: bytes and k
    using that by (auto simp: len_def)
  show ?thesis using o[OF pos(1), of "concat (ex_stdout ex)"] o[OF pos(2), of "concat (ex_stderr ex)"] pos
    by (auto simp: runProcess_def Let_def c)
qed

subsection \<open>The coordinator\<close>

text \<open>
  A lease: it has its slot; was refused under the mutex but has not given the slot back; is held; its
  last user decided to end it; has left \<open>active\<close> but still has the slot; is gone.
\<close>

datatype lease_at = LSlot | LRefused | LHeld | LEnding | LFinished | LGone

record engineLease =
  le_at :: lease_at
  le_pending :: int
  le_released :: bool

text \<open>
  An owner goroutine: before \<open>lazyRoot\<close>, before \<open>makeInvocation\<close>, with or without a directory while the
  process runs, past the deferred removal, past \<open>ownerDone\<close>.
\<close>

datatype owner_at = OStart | ORooted | OWork | OCleaned | ODone

record processOwner =
  po_lease :: nat
  po_at :: owner_at
  po_dir :: string

text \<open>A call of \<open>Close\<close>: before its first section, waiting for a change, with the paths still to remove and whether one failed, past the root, back.\<close>

datatype closer = CCalled | CWaiting | CRemoving "string list" string bool | CRooted bool | CReturned bool

record coordinator_sys =
  y_root :: string
  y_quarantined :: bool
  y_closing :: bool
  y_closed :: bool
  y_active :: int
  y_paths :: "string list"
  y_change_closed :: bool
  y_slots :: int
  y_leases :: "engineLease list"
  y_owners :: "processOwner list"
  y_closers :: "closer list"
  y_disk :: "string list"

definition newCoordinator :: coordinator_sys where
  "newCoordinator = \<lparr>y_root = [], y_quarantined = False, y_closing = False, y_closed = False, y_active = 0, y_paths = [],
     y_change_closed = False, y_slots = 0, y_leases = [], y_owners = [], y_closers = [], y_disk = []\<rparr>"

definition set_lease :: "nat \<Rightarrow> (engineLease \<Rightarrow> engineLease) \<Rightarrow> coordinator_sys \<Rightarrow> coordinator_sys" where
  "set_lease i f s = s\<lparr>y_leases := (y_leases s)[i := f (y_leases s ! i)]\<rparr>"

definition set_owner :: "nat \<Rightarrow> (processOwner \<Rightarrow> processOwner) \<Rightarrow> coordinator_sys \<Rightarrow> coordinator_sys" where
  "set_owner j f s = s\<lparr>y_owners := (y_owners s)[j := f (y_owners s ! j)]\<rparr>"

text \<open>\<open>acquire\<close>: the non-blocking send on \<open>slots\<close>, then the section under the mutex.\<close>

definition acquire_slot :: "int \<Rightarrow> coordinator_sys \<Rightarrow> coordinator_sys" where
  "acquire_slot maxConcurrent s =
     (if y_slots s < maxConcurrent
      then s\<lparr>y_slots := y_slots s + 1, y_leases := y_leases s @ [\<lparr>le_at = LSlot, le_pending = 0, le_released = False\<rparr>]\<rparr>
      else s)"

definition acquire_section :: "nat \<Rightarrow> coordinator_sys \<Rightarrow> coordinator_sys" where
  "acquire_section i s =
     (if y_closing s \<or> y_closed s \<or> y_quarantined s then set_lease i (\<lambda>l. l\<lparr>le_at := LRefused\<rparr>) s
      else (set_lease i (\<lambda>l. l\<lparr>le_at := LHeld\<rparr>) s)\<lparr>y_active := y_active s + 1\<rparr>)"

definition releaseSlot :: "nat \<Rightarrow> coordinator_sys \<Rightarrow> coordinator_sys" where
  "releaseSlot i s = (set_lease i (\<lambda>l. l\<lparr>le_at := LGone\<rparr>) s)\<lparr>y_slots := y_slots s - 1\<rparr>"

definition finishOwner :: "nat \<Rightarrow> coordinator_sys \<Rightarrow> coordinator_sys" where
  "finishOwner i s = (set_lease i (\<lambda>l. l\<lparr>le_at := LFinished\<rparr>) s)\<lparr>y_active := y_active s - 1, y_change_closed := False\<rparr>"

definition lease_hold :: "nat \<Rightarrow> coordinator_sys \<Rightarrow> coordinator_sys" where
  "lease_hold i s = (set_lease i (\<lambda>l. l\<lparr>le_pending := le_pending l + 1\<rparr>) s)
     \<lparr>y_owners := y_owners s @ [\<lparr>po_lease = i, po_at = OStart, po_dir = []\<rparr>]\<rparr>"

definition lease_release :: "nat \<Rightarrow> coordinator_sys \<Rightarrow> coordinator_sys" where
  "lease_release i s =
     (if le_released (y_leases s ! i) then s
      else set_lease i (\<lambda>l. l\<lparr>le_released := True, le_at := (if le_pending l = 0 then LEnding else le_at l)\<rparr>) s)"

definition ownerDone :: "nat \<Rightarrow> coordinator_sys \<Rightarrow> coordinator_sys" where
  "ownerDone j s = set_owner j (\<lambda>p. p\<lparr>po_at := ODone\<rparr>)
     (set_lease (po_lease (y_owners s ! j))
        (\<lambda>l. l\<lparr>le_pending := le_pending l - 1, le_at := (if le_released l \<and> le_pending l - 1 = 0 then LEnding else le_at l)\<rparr>) s)"

text \<open>What \<open>MkdirTemp\<close>, \<open>Chmod\<close> and \<open>RemoveAll\<close> did; a removal that failed may still have removed the directory.\<close>

datatype mkdir_outcome = MkdirFailed | ChmodFailed string bool bool | RootMade string

definition lazyRoot :: "nat \<Rightarrow> mkdir_outcome \<Rightarrow> coordinator_sys \<Rightarrow> coordinator_sys" where
  "lazyRoot j out s =
     (if y_closing s \<or> y_closed s \<or> y_quarantined s then set_owner j (\<lambda>p. p\<lparr>po_at := OWork\<rparr>) s
      else if y_root s \<noteq> [] then set_owner j (\<lambda>p. p\<lparr>po_at := ORooted\<rparr>) s
      else case out of
        MkdirFailed \<Rightarrow> (set_owner j (\<lambda>p. p\<lparr>po_at := OWork\<rparr>) s)\<lparr>y_quarantined := True\<rparr>
      | ChmodFailed root removed gone \<Rightarrow>
          (set_owner j (\<lambda>p. p\<lparr>po_at := OWork\<rparr>) s)
            \<lparr>y_root := root, y_quarantined := True,
             y_disk := (if removed \<or> gone then y_disk s else root # y_disk s),
             y_paths := (if removed then y_paths s else List.insert root (y_paths s))\<rparr>
      | RootMade root \<Rightarrow> (set_owner j (\<lambda>p. p\<lparr>po_at := ORooted\<rparr>) s)\<lparr>y_root := root, y_disk := root # y_disk s\<rparr>)"

text \<open>\<open>makeInvocation\<close>; a failure after the first directory leaves it to the deferred removal like a success.\<close>

definition makeInvocation :: "nat \<Rightarrow> string option \<Rightarrow> coordinator_sys \<Rightarrow> coordinator_sys" where
  "makeInvocation j path s =
     (case path of
        None \<Rightarrow> set_owner j (\<lambda>p. p\<lparr>po_at := OWork\<rparr>) s
      | Some d \<Rightarrow> (set_owner j (\<lambda>p. p\<lparr>po_at := OWork, po_dir := d\<rparr>) s)\<lparr>y_disk := d # y_disk s\<rparr>)"

text \<open>The deferred function of \<open>run\<close> up to \<open>ownerDone\<close>.\<close>

definition run_cleanup :: "nat \<Rightarrow> bool \<Rightarrow> bool \<Rightarrow> coordinator_sys \<Rightarrow> coordinator_sys" where
  "run_cleanup j removed gone s =
     (let d = po_dir (y_owners s ! j); s' = set_owner j (\<lambda>p. p\<lparr>po_at := OCleaned\<rparr>) s in
      if d = [] then s'
      else if removed then s'\<lparr>y_disk := removeAll d (y_disk s)\<rparr>
      else s'\<lparr>y_disk := (if gone then removeAll d (y_disk s) else y_disk s), y_paths := List.insert d (y_paths s), y_quarantined := True\<rparr>)"

text \<open>
  \<open>Close\<close>: its first section; one path, whose removal and the deletion under the mutex are one step
  because nothing else reads the directory; the root; the last section.
\<close>

definition set_closer :: "nat \<Rightarrow> closer \<Rightarrow> coordinator_sys \<Rightarrow> coordinator_sys" where
  "set_closer k c s = s\<lparr>y_closers := (y_closers s)[k := c]\<rparr>"

definition close_call :: "coordinator_sys \<Rightarrow> coordinator_sys" where
  "close_call s = s\<lparr>y_closers := y_closers s @ [CCalled]\<rparr>"

definition close_first :: "nat \<Rightarrow> coordinator_sys \<Rightarrow> coordinator_sys" where
  "close_first k s =
     (if y_closed s then set_closer k (CReturned True) s
      else let s = s\<lparr>y_closing := True\<rparr> in
        if y_active s \<noteq> 0 then set_closer k CWaiting s else set_closer k (CRemoving (y_paths s) (y_root s) False) s)"

definition close_canceled :: "nat \<Rightarrow> coordinator_sys \<Rightarrow> coordinator_sys" where
  "close_canceled k s = set_closer k (CReturned False) s"

definition close_path :: "nat \<Rightarrow> bool \<Rightarrow> bool \<Rightarrow> coordinator_sys \<Rightarrow> coordinator_sys" where
  "close_path k removed gone s =
     (case y_closers s ! k of
        CRemoving (p # ps) root failed \<Rightarrow>
          if removed then set_closer k (CRemoving ps root failed) (s\<lparr>y_disk := removeAll p (y_disk s), y_paths := removeAll p (y_paths s)\<rparr>)
          else set_closer k (CRemoving ps root True) (s\<lparr>y_disk := (if gone then removeAll p (y_disk s) else y_disk s)\<rparr>)
      | _ \<Rightarrow> s)"

definition close_root :: "nat \<Rightarrow> bool \<Rightarrow> coordinator_sys \<Rightarrow> coordinator_sys" where
  "close_root k removed s =
     (case y_closers s ! k of
        CRemoving [] root failed \<Rightarrow>
          if root = [] then set_closer k (CRooted failed) s
          else if \<not> removed then set_closer k (CRooted True) s
          else set_closer k (CRooted failed) (s\<lparr>y_disk := removeAll root (y_disk s), y_root := []\<rparr>)
      | _ \<Rightarrow> s)"

definition close_last :: "nat \<Rightarrow> coordinator_sys \<Rightarrow> coordinator_sys" where
  "close_last k s =
     (case y_closers s ! k of
        CRooted failed \<Rightarrow>
          if y_closed s then set_closer k (CReturned True) s
          else if y_paths s = [] \<and> y_root s = [] \<and> \<not> failed
          then set_closer k (CReturned True) (s\<lparr>y_closed := True, y_change_closed := True\<rparr>)
          else set_closer k (CReturned False) (s\<lparr>y_quarantined := True\<rparr>)
      | _ \<Rightarrow> s)"

text \<open>
  The interleavings. A callback calls \<open>reduce\<close> (and so \<open>hold\<close>) only before its deferred \<open>release\<close>;
  \<open>MkdirTemp\<close> returns a fresh, non-empty path.
\<close>

definition fresh_dir :: "coordinator_sys \<Rightarrow> string \<Rightarrow> bool" where
  "fresh_dir s d \<longleftrightarrow> d \<noteq> [] \<and> \<not> List.member (y_disk s) d"

definition outcome_ok :: "coordinator_sys \<Rightarrow> mkdir_outcome \<Rightarrow> bool" where
  "outcome_ok s out = (case out of MkdirFailed \<Rightarrow> True | ChmodFailed d _ _ \<Rightarrow> fresh_dir s d | RootMade d \<Rightarrow> fresh_dir s d)"

definition lease_in :: "coordinator_sys \<Rightarrow> nat \<Rightarrow> lease_at list \<Rightarrow> bool" where
  "lease_in s i ats \<longleftrightarrow> i < length (y_leases s) \<and> List.member ats (le_at (y_leases s ! i))"

definition owner_in :: "coordinator_sys \<Rightarrow> nat \<Rightarrow> owner_at \<Rightarrow> bool" where
  "owner_in s j at \<longleftrightarrow> j < length (y_owners s) \<and> po_at (y_owners s ! j) = at"

inductive coord_step :: "int \<Rightarrow> coordinator_sys \<Rightarrow> coordinator_sys \<Rightarrow> bool" for m where
  slot: "coord_step m s (acquire_slot m s)"
| checked: "lease_in s i [LSlot] \<Longrightarrow> coord_step m s (acquire_section i s)"
| hold: "lease_in s i [LHeld] \<Longrightarrow> \<not> le_released (y_leases s ! i) \<Longrightarrow> coord_step m s (lease_hold i s)"
| release: "lease_in s i [LHeld] \<Longrightarrow> coord_step m s (lease_release i s)"
| finish: "lease_in s i [LEnding] \<Longrightarrow> coord_step m s (finishOwner i s)"
| give_back: "lease_in s i [LRefused, LFinished] \<Longrightarrow> coord_step m s (releaseSlot i s)"
| rooted: "owner_in s j OStart \<Longrightarrow> outcome_ok s out \<Longrightarrow> coord_step m s (lazyRoot j out s)"
| invocation: "owner_in s j ORooted \<Longrightarrow> (\<And>d. path = Some d \<Longrightarrow> fresh_dir s d) \<Longrightarrow> coord_step m s (makeInvocation j path s)"
| cleanup: "owner_in s j OWork \<Longrightarrow> coord_step m s (run_cleanup j removed gone s)"
| owner_done: "owner_in s j OCleaned \<Longrightarrow> coord_step m s (ownerDone j s)"
| close: "coord_step m s (close_call s)"
| closing: "k < length (y_closers s) \<Longrightarrow> y_closers s ! k = CCalled \<or> y_closers s ! k = CWaiting \<Longrightarrow> coord_step m s (close_first k s)"
| canceled: "k < length (y_closers s) \<Longrightarrow> y_closers s ! k = CWaiting \<Longrightarrow> coord_step m s (close_canceled k s)"
| path: "k < length (y_closers s) \<Longrightarrow> coord_step m s (close_path k removed gone s)"
| root: "k < length (y_closers s) \<Longrightarrow> coord_step m s (close_root k removed s)"
| last: "k < length (y_closers s) \<Longrightarrow> coord_step m s (close_last k s)"

definition coord_reachable :: "int \<Rightarrow> coordinator_sys \<Rightarrow> bool" where
  "coord_reachable m s \<longleftrightarrow> (coord_step m)\<^sup>*\<^sup>* newCoordinator s"


subsection \<open>Slots, leases and owners are accounted for\<close>

definition tally :: "('a \<Rightarrow> bool) \<Rightarrow> 'a list \<Rightarrow> int" where
  "tally P xs = int (length (filter P xs))"

lemma tally_append [simp]: "tally P (xs @ ys) = tally P xs + tally P ys"
  by (simp add: tally_def)

lemma tally_Cons [simp]: "tally P (x # xs) = of_bool (P x) + tally P xs" "tally P [] = 0"
  by (simp_all add: tally_def)

lemma tally_update: "i < length xs \<Longrightarrow> tally P (xs[i := v]) = tally P xs - of_bool (P (xs ! i)) + of_bool (P v)"
proof (induction xs arbitrary: i)
  case (Cons x xs)
  then show ?case by (cases i) auto
qed simp

lemma tally_pos: "x \<in> set xs \<Longrightarrow> P x \<Longrightarrow> tally P xs > 0"
  by (induction xs) (auto simp: tally_def)

lemma tally_nonneg: "tally P xs \<ge> 0"
  by (simp add: tally_def)

lemma tally_zero: "tally P xs = 0 \<Longrightarrow> x \<in> set xs \<Longrightarrow> \<not> P x"
  using tally_pos[of x xs P] by auto

definition has_slot :: "engineLease \<Rightarrow> bool" where
  "has_slot l \<longleftrightarrow> le_at l \<noteq> LGone"

definition counts :: "engineLease \<Rightarrow> bool" where
  "counts l \<longleftrightarrow> le_at l = LHeld \<or> le_at l = LEnding"

definition lease_ok :: "engineLease \<Rightarrow> bool" where
  "lease_ok l \<longleftrightarrow> (le_pending l \<noteq> 0 \<longrightarrow> le_at l = LHeld) \<and> (le_at l = LHeld \<longrightarrow> \<not> le_released l \<or> le_pending l \<noteq> 0)
     \<and> (le_at l = LSlot \<longrightarrow> \<not> le_released l)"

definition runs_for :: "nat \<Rightarrow> processOwner \<Rightarrow> bool" where
  "runs_for i p \<longleftrightarrow> po_lease p = i \<and> po_at p \<noteq> ODone"

definition counts_ok :: "int \<Rightarrow> coordinator_sys \<Rightarrow> bool" where
  "counts_ok m s \<longleftrightarrow> y_slots s = tally has_slot (y_leases s) \<and> y_slots s \<le> m \<and> y_active s = tally counts (y_leases s) \<and>
     (\<forall>i < length (y_leases s). lease_ok (y_leases s ! i) \<and> le_pending (y_leases s ! i) = tally (runs_for i) (y_owners s)) \<and>
     (\<forall>p \<in> set (y_owners s). po_lease p < length (y_leases s))"

lemma counts_change:
  assumes "counts_ok m s" "i < length (y_leases s)" "y_leases s' = (y_leases s)[i := l]" "y_owners s' = y_owners s"
    and "le_pending l = le_pending (y_leases s ! i)" "lease_ok l"
    and "y_slots s' = y_slots s - of_bool (has_slot (y_leases s ! i)) + of_bool (has_slot l)" "y_slots s' \<le> m"
    and "y_active s' = y_active s - of_bool (counts (y_leases s ! i)) + of_bool (counts l)"
  shows "counts_ok m s'"
  using assms by (auto simp: counts_ok_def tally_update nth_list_update)

lemma counts_owner:
  assumes "counts_ok m s" "j < length (y_owners s)" "y_owners s' = (y_owners s)[j := p]" "y_leases s' = y_leases s"
    and "po_lease p = po_lease (y_owners s ! j)" "po_at p \<noteq> ODone" "po_at (y_owners s ! j) \<noteq> ODone"
    and "y_slots s' = y_slots s" "y_active s' = y_active s"
  shows "counts_ok m s'"
proof -
  have "po_lease p < length (y_leases s)" using assms(1,2,5) by (auto simp: counts_ok_def)
  then have "\<forall>q \<in> set ((y_owners s)[j := p]). po_lease q < length (y_leases s)" using assms(1) by (auto simp: counts_ok_def dest!: set_update_subset_insert[THEN subsetD])
  moreover have "tally (runs_for i) ((y_owners s)[j := p]) = tally (runs_for i) (y_owners s)" for i
    using assms(2,5-7) by (simp add: tally_update runs_for_def)
  ultimately show ?thesis using assms by (simp add: counts_ok_def)
qed

lemma counts_frame:
  "counts_ok m s \<Longrightarrow> y_leases s' = y_leases s \<Longrightarrow> y_owners s' = y_owners s \<Longrightarrow> y_slots s' = y_slots s \<Longrightarrow> y_active s' = y_active s \<Longrightarrow> counts_ok m s'"
  by (simp add: counts_ok_def)

lemma counts_hold:
  assumes ok: "counts_ok m s" and i: "lease_in s i [LHeld]"
  shows "counts_ok m (lease_hold i s)"
proof -
  let ?l = "y_leases s ! i"
  have h: "i < length (y_leases s)" "le_at ?l = LHeld" using i by (simp_all add: lease_in_def)
  have p: "le_pending ?l = tally (runs_for i) (y_owners s)" "\<And>k. tally (runs_for k) (y_owners s) \<ge> 0"
    using ok h(1) by (simp_all add: counts_ok_def tally_nonneg)
  have "lease_ok (?l\<lparr>le_pending := le_pending ?l + 1\<rparr>)" using h(2) p(1) p(2)[of i] by (simp add: lease_ok_def)
  then show ?thesis using ok h
    by (simp add: counts_ok_def lease_hold_def set_lease_def tally_update has_slot_def counts_def nth_list_update) (auto simp: runs_for_def)
qed

lemma counts_ownerDone:
  assumes ok: "counts_ok m s" and j: "owner_in s j OCleaned"
  shows "counts_ok m (ownerDone j s)"
proof -
  let ?p = "y_owners s ! j"
  let ?i = "po_lease ?p"
  let ?l = "y_leases s ! ?i"
  have h: "j < length (y_owners s)" "po_at ?p \<noteq> ODone" "?p \<in> set (y_owners s)" using j by (simp_all add: owner_in_def)
  then have i: "?i < length (y_leases s)" using ok by (simp add: counts_ok_def)
  have pos: "le_pending ?l > 0" using ok i tally_pos[OF h(3), of "runs_for ?i"] h(2) by (simp add: counts_ok_def runs_for_def)
  have held: "le_at ?l = LHeld" using ok i pos by (simp add: counts_ok_def lease_ok_def)
  let ?n = "?l\<lparr>le_pending := le_pending ?l - 1, le_at := (if le_released ?l \<and> le_pending ?l - 1 = 0 then LEnding else le_at ?l)\<rparr>"
  define nl where "nl = ?n"
  have n: "lease_ok nl" "has_slot nl = has_slot ?l" "counts nl = counts ?l" "le_pending nl = le_pending ?l - 1" unfolding nl_def using held by (simp_all add: lease_ok_def has_slot_def counts_def)
  have t: "tally (runs_for k) ((y_owners s)[j := ?p\<lparr>po_at := ODone\<rparr>]) = tally (runs_for k) (y_owners s) - of_bool (k = ?i)" for k
    using h(1,2) by (auto simp: tally_update runs_for_def)
  have "\<forall>q \<in> set ((y_owners s)[j := ?p\<lparr>po_at := ODone\<rparr>]). po_lease q < length (y_leases s)"
    using ok i by (auto simp: counts_ok_def dest!: set_update_subset_insert[THEN subsetD])
  then show ?thesis using ok i n unfolding ownerDone_def set_owner_def set_lease_def nl_def[symmetric]
    by (simp add: counts_ok_def tally_update t nth_list_update)
qed

lemma counts_release:
  assumes ok: "counts_ok m s" and i: "lease_in s i [LHeld]"
  shows "counts_ok m (lease_release i s)"
proof (cases "le_released (y_leases s ! i)")
  case True
  then show ?thesis using ok by (simp add: lease_release_def)
next
  case False
  have "y_slots s \<le> m" using ok by (simp add: counts_ok_def)
  then show ?thesis using i False
    by (intro counts_change[OF ok, where i = i
          and l = "(y_leases s ! i)\<lparr>le_released := True, le_at := (if le_pending (y_leases s ! i) = 0 then LEnding else le_at (y_leases s ! i))\<rparr>"])
      (auto simp: lease_release_def set_lease_def lease_in_def lease_ok_def has_slot_def counts_def)
qed

lemma counts_ok_step:
  assumes "coord_step m s s'" and ok: "counts_ok m s"
  shows "counts_ok m s'"
  using assms(1)
proof cases
  case slot
  have "tally (runs_for (length (y_leases s))) (y_owners s) = 0"
    using ok by (auto simp: counts_ok_def tally_def runs_for_def filter_empty_conv)
  then show ?thesis using ok unfolding slot
    by (auto simp: acquire_slot_def counts_ok_def nth_append lease_ok_def has_slot_def counts_def less_Suc_eq)
next
  case (checked i)
  have ok2: "lease_ok (y_leases s ! i)" "y_slots s \<le> m" using ok checked(2) by (simp_all add: counts_ok_def lease_in_def)
  then have z: "le_pending (y_leases s ! i) = 0" using checked(2) by (auto simp: lease_ok_def lease_in_def)
  show ?thesis unfolding checked(1) using checked(2) z ok2
    by (intro counts_change[OF ok, where i = i
          and l = "(y_leases s ! i)\<lparr>le_at := (if y_closing s \<or> y_closed s \<or> y_quarantined s then LRefused else LHeld)\<rparr>"]) (auto simp: acquire_section_def set_lease_def lease_in_def lease_ok_def has_slot_def counts_def)
next
  case (hold i)
  then show ?thesis using counts_hold[OF ok] by simp
next
  case (release i)
  then show ?thesis using counts_release[OF ok] by simp
next
  case (finish i)
  have "lease_ok (y_leases s ! i)" "y_slots s \<le> m" using ok finish(2) by (simp_all add: counts_ok_def lease_in_def)
  then show ?thesis unfolding finish(1) using finish(2)
    by (intro counts_change[OF ok, where i = i and l = "(y_leases s ! i)\<lparr>le_at := LFinished\<rparr>"]) (auto simp: finishOwner_def set_lease_def lease_in_def lease_ok_def has_slot_def counts_def)
next
  case (give_back i)
  have "lease_ok (y_leases s ! i)" "y_slots s \<le> m" using ok give_back(2) by (simp_all add: counts_ok_def lease_in_def)
  then show ?thesis unfolding give_back(1) using give_back(2)
    by (intro counts_change[OF ok, where i = i and l = "(y_leases s ! i)\<lparr>le_at := LGone\<rparr>"]) (auto simp: releaseSlot_def set_lease_def lease_in_def lease_ok_def has_slot_def counts_def)
next
  case (rooted j out)
  then show ?thesis
    by (intro counts_owner[OF ok, where j = j and p = "y_owners s' ! j"]) (auto simp: lazyRoot_def set_owner_def owner_in_def split: mkdir_outcome.splits)
next
  case (invocation j path)
  then show ?thesis by (intro counts_owner[OF ok, where j = j and p = "y_owners s' ! j"]) (auto simp: makeInvocation_def set_owner_def owner_in_def split: option.splits)
next
  case (cleanup j removed gone)
  then show ?thesis by (intro counts_owner[OF ok, where j = j and p = "y_owners s' ! j"]) (auto simp: run_cleanup_def set_owner_def owner_in_def Let_def)
next
  case (owner_done j)
  then show ?thesis using counts_ownerDone[OF ok] by simp
qed (auto intro!: counts_frame[OF ok] simp: close_call_def close_first_def close_canceled_def close_path_def close_root_def close_last_def set_closer_def Let_def
    split: closer.split list.split)


subsection \<open>Directories are never forgotten\<close>

definition working :: "coordinator_sys \<Rightarrow> string \<Rightarrow> bool" where
  "working s d \<longleftrightarrow> (\<exists>p \<in> set (y_owners s). po_at p = OWork \<and> po_dir p = d)"

definition traced :: "coordinator_sys \<Rightarrow> bool" where
  "traced s \<longleftrightarrow> (\<forall>d \<in> set (y_disk s). d \<noteq> [] \<and> (d = y_root s \<or> d \<in> set (y_paths s) \<or> working s d))"

definition closer_ok :: "coordinator_sys \<Rightarrow> closer \<Rightarrow> bool" where
  "closer_ok s c = (case c of CRemoving ps r failed \<Rightarrow> y_closing s \<and> y_active s = 0 \<and> (y_root s = r \<or> y_root s = [])
     | CRooted failed \<Rightarrow> y_closing s \<and> y_active s = 0 | CReturned ok \<Rightarrow> ok \<longrightarrow> y_closed s | _ \<Rightarrow> True)"

definition closing_ok :: "coordinator_sys \<Rightarrow> bool" where
  "closing_ok s \<longleftrightarrow> (\<forall>c \<in> set (y_closers s). closer_ok s c) \<and>
     (y_closed s \<longrightarrow> y_closing s \<and> y_active s = 0 \<and> y_root s = [] \<and> y_paths s = []) \<and> (y_change_closed s \<longleftrightarrow> y_closed s)"

lemma set_update_keep: "q \<in> set xs \<Longrightarrow> q \<noteq> xs ! j \<Longrightarrow> q \<in> set (xs[j := v])"
  by (metis in_set_conv_nth length_list_update nth_list_update_neq)

lemma working_update:
  assumes "working s d" "y_owners s' = (y_owners s)[j := p]" "po_at (y_owners s ! j) \<noteq> OWork \<or> po_dir (y_owners s ! j) \<noteq> d"
  shows "working s' d"
  using assms set_update_keep[of _ "y_owners s" j p] unfolding working_def by fastforce

lemma working_new:
  assumes "y_owners s' = (y_owners s)[j := p]" "j < length (y_owners s)" "po_at p = OWork" "po_dir p = d"
  shows "working s' d"
  using assms set_update_memI[of j "y_owners s" p] unfolding working_def by auto

lemma closer_ok_simps:
  "closer_ok s CCalled" "closer_ok s CWaiting"
  "closer_ok s (CRemoving ps r failed) \<longleftrightarrow> y_closing s \<and> y_active s = 0 \<and> (y_root s = r \<or> y_root s = [])"
  "closer_ok s (CRooted failed) \<longleftrightarrow> y_closing s \<and> y_active s = 0" "closer_ok s (CReturned ok) \<longleftrightarrow> (ok \<longrightarrow> y_closed s)"
  by (simp_all add: closer_ok_def)

lemma closer_mono:
  "closer_ok s c \<Longrightarrow> (y_closing s \<longrightarrow> y_closing s') \<Longrightarrow> y_active s' = y_active s \<Longrightarrow> (y_closed s \<longrightarrow> y_closed s') \<Longrightarrow>
    y_root s' = y_root s \<or> y_root s' = [] \<Longrightarrow> closer_ok s' c"
  by (cases c) (auto simp: closer_ok_simps)

lemma closing_frame:
  assumes "closing_ok s" "y_closers s' = y_closers s" "y_closing s' = y_closing s" "y_active s' = y_active s" "y_root s' = y_root s"
    "y_closed s' = y_closed s" "y_paths s' = y_paths s" "y_change_closed s' = y_change_closed s"
  shows "closing_ok s'"
proof -
  have "closer_ok s' c = closer_ok s c" for c using assms(3-6) by (simp add: closer_ok_def split: closer.split)
  then show ?thesis using assms by (simp add: closing_ok_def)
qed

text \<open>Before \<open>Close\<close> has begun nothing is being closed, and while a lease counts no call is past its wait.\<close>

lemma closing_quiet:
  assumes "closing_ok s" "\<not> y_closing s \<or> y_active s \<noteq> 0" "y_closers s' = y_closers s" "y_closed s' = y_closed s" "y_change_closed s' = y_change_closed s"
  shows "closing_ok s' \<and> \<not> y_closed s"
proof -
  have "closer_ok s' c" if "closer_ok s c" for c using that assms(2,4) by (auto simp: closer_ok_def split: closer.splits)
  then show ?thesis using assms by (auto simp: closing_ok_def)
qed

lemma closing_closer:
  assumes "closing_ok s" "y_closers s' = (y_closers s)[k := y_closers s' ! k]" "closer_ok s' (y_closers s' ! k)"
    and "\<And>c. closer_ok s c \<Longrightarrow> closer_ok s' c"
    and "y_closed s' \<Longrightarrow> y_closing s' \<and> y_active s' = 0 \<and> y_root s' = [] \<and> y_paths s' = []" "y_change_closed s' \<longleftrightarrow> y_closed s'"
  shows "closing_ok s'"
proof -
  have "c = y_closers s' ! k \<or> c \<in> set (y_closers s)" if "c \<in> set (y_closers s')" for c
    using that assms(2) set_update_subset_insert[of "y_closers s" k "y_closers s' ! k"] by (metis insertE subsetD)
  then have "\<forall>c \<in> set (y_closers s'). closer_ok s' c" using assms(1,3,4) by (auto simp: closing_ok_def)
  then show ?thesis using assms(5,6) by (simp add: closing_ok_def)
qed

lemma owner_busy:
  assumes "counts_ok m s" "j < length (y_owners s)" "po_at (y_owners s ! j) \<noteq> ODone"
  shows "y_active s > 0"
proof -
  let ?i = "po_lease (y_owners s ! j)"
  have i: "?i < length (y_leases s)" using assms by (simp add: counts_ok_def)
  have "tally (runs_for ?i) (y_owners s) > 0" using assms(2,3) by (intro tally_pos[of "y_owners s ! j"]) (simp_all add: runs_for_def)
  then have "counts (y_leases s ! ?i)" using assms(1) i by (auto simp: counts_ok_def lease_ok_def counts_def)
  then show ?thesis using assms(1) i tally_pos[of "y_leases s ! ?i" "y_leases s" counts] by (simp add: counts_ok_def)
qed

lemma lease_busy: "counts_ok m s \<Longrightarrow> lease_in s i [LEnding] \<Longrightarrow> y_active s > 0"
  using tally_pos[of "y_leases s ! i" "y_leases s" counts] by (simp add: counts_ok_def lease_in_def counts_def)

lemma close_path_cases:
  obtains (at) p ps r f where "y_closers s ! k = CRemoving (p # ps) r f" | (other) "close_path k removed gone s = s"
proof (cases "y_closers s ! k")
  case (CRemoving ps r f)
  then show thesis using that by (cases ps) (simp_all add: close_path_def)
qed (auto simp: close_path_def intro: that)

lemma close_root_cases:
  obtains (at) r f where "y_closers s ! k = CRemoving [] r f" | (other) "close_root k removed s = s"
proof (cases "y_closers s ! k")
  case (CRemoving ps r f)
  then show thesis using that by (cases ps) (simp_all add: close_root_def)
qed (auto simp: close_root_def intro: that)

lemma close_last_cases:
  obtains (at) f where "y_closers s ! k = CRooted f" | (other) "close_last k s = s"
  by (cases "y_closers s ! k") (auto simp: close_last_def intro: that)

lemma closing_ok_step:
  assumes "coord_step m s s'" and ok: "counts_ok m s" "closing_ok s"
  shows "closing_ok s'"
  using assms(1)
proof cases
  case slot
  then show ?thesis by (intro closing_frame[OF ok(2)]) (simp_all add: acquire_slot_def)
next
  case (checked i)
  show ?thesis
  proof (cases "y_closing s \<or> y_closed s \<or> y_quarantined s")
    case True
    then show ?thesis using checked by (intro closing_frame[OF ok(2)]) (simp_all add: acquire_section_def set_lease_def)
  next
    case False
    then show ?thesis using checked closing_quiet[OF ok(2), of s'] by (simp add: acquire_section_def set_lease_def)
  qed
next
  case (hold i)
  then show ?thesis by (intro closing_frame[OF ok(2)]) (simp_all add: lease_hold_def set_lease_def)
next
  case (release i)
  then show ?thesis by (intro closing_frame[OF ok(2)]) (simp_all add: lease_release_def set_lease_def)
next
  case (finish i)
  have a: "y_active s \<noteq> 0" using lease_busy[OF ok(1) finish(2)] by simp
  then have "\<not> y_change_closed s" using closing_quiet[OF ok(2), of s] ok(2) by (simp add: closing_ok_def)
  then show ?thesis using finish(1) closing_quiet[OF ok(2), of s'] a by (simp add: finishOwner_def set_lease_def)
next
  case (give_back i)
  then show ?thesis by (intro closing_frame[OF ok(2)]) (simp_all add: releaseSlot_def set_lease_def)
next
  case (rooted j out)
  then have a: "y_active s \<noteq> 0" using owner_busy[OF ok(1), of j] by (simp add: owner_in_def)
  show ?thesis using rooted(1) closing_quiet[OF ok(2), of s'] a by (auto simp: lazyRoot_def set_owner_def split: mkdir_outcome.split)
next
  case (invocation j path)
  then show ?thesis by (intro closing_frame[OF ok(2)]) (simp_all add: makeInvocation_def set_owner_def split: option.split)
next
  case (cleanup j removed gone)
  then have a: "y_active s \<noteq> 0" using owner_busy[OF ok(1), of j] by (simp add: owner_in_def)
  show ?thesis using cleanup(1) closing_quiet[OF ok(2), of s'] a by (auto simp: run_cleanup_def set_owner_def Let_def)
next
  case (owner_done j)
  then show ?thesis by (intro closing_frame[OF ok(2)]) (simp_all add: ownerDone_def set_owner_def set_lease_def)
next
  case close
  have "closer_ok s' c = closer_ok s c" for c unfolding close by (simp add: close_call_def closer_ok_def split: closer.split)
  then show ?thesis using ok(2) unfolding close by (simp add: closing_ok_def close_call_def closer_ok_def)
next
  case (closing k)
  then show ?thesis using ok(2)
    by (intro closing_closer[OF ok(2), where k = k])
      (auto simp: close_first_def set_closer_def Let_def closer_ok_def closing_ok_def split: closer.splits if_splits)
next
  case (canceled k)
  then show ?thesis using ok(2)
    by (intro closing_closer[OF ok(2), where k = k])
      (auto simp: close_canceled_def set_closer_def closer_ok_def closing_ok_def split: closer.splits)
next
  case (path k removed gone)
  then have c: "closer_ok s (y_closers s ! k)" using ok(2) by (simp add: closing_ok_def)
  show ?thesis
  proof (cases rule: close_path_cases[where s = s and k = k and removed = removed and gone = gone])
    case at
    have mono: "closer_ok s' x" if "closer_ok s x" for x
      using that by (rule closer_mono) (use at path in \<open>simp_all add: close_path_def set_closer_def\<close>)
    show ?thesis using at path(2) ok(2) c unfolding path(1)
      by (intro closing_closer[OF ok(2) _ _ mono[unfolded path(1)], where k = k])
        (auto simp: close_path_def set_closer_def closer_ok_simps closing_ok_def)
  qed (use ok(2) path in simp)
next
  case (root k removed)
  then have c: "closer_ok s (y_closers s ! k)" using ok(2) by (simp add: closing_ok_def)
  show ?thesis
  proof (cases rule: close_root_cases[where s = s and k = k and removed = removed])
    case at
    have mono: "closer_ok s' x" if "closer_ok s x" for x
      using that by (rule closer_mono) (use at root in \<open>simp_all add: close_root_def set_closer_def\<close>)
    show ?thesis using at root(2) ok(2) c unfolding root(1)
      by (intro closing_closer[OF ok(2) _ _ mono[unfolded root(1)], where k = k])
        (auto simp: close_root_def set_closer_def closer_ok_simps closing_ok_def split: if_splits)
  qed (use ok(2) root in simp)
next
  case (last k)
  then have c: "closer_ok s (y_closers s ! k)" using ok(2) by (simp add: closing_ok_def)
  show ?thesis
  proof (cases rule: close_last_cases[where s = s and k = k])
    case at
    have mono: "closer_ok s' x" if "closer_ok s x" for x
      using that by (rule closer_mono) (use at last in \<open>simp_all add: close_last_def set_closer_def\<close>)
    show ?thesis using at last(2) ok(2) c unfolding last(1)
      by (intro closing_closer[OF ok(2) _ _ mono[unfolded last(1)], where k = k])
        (auto simp: close_last_def set_closer_def closer_ok_simps closing_ok_def)
  qed (use ok(2) last in simp)
qed


lemma traced_frame: "traced s \<Longrightarrow> y_disk s' = y_disk s \<Longrightarrow> y_root s' = y_root s \<Longrightarrow> y_paths s' = y_paths s \<Longrightarrow> y_owners s' = y_owners s \<Longrightarrow> traced s'"
  by (simp add: traced_def working_def)

lemma traced_owner:
  assumes "traced s" "j < length (y_owners s)" "y_owners s' = (y_owners s)[j := p]"
    and "\<And>d. d \<in> set (y_disk s') \<Longrightarrow> d \<in> set (y_disk s) \<and> (d = y_root s' \<or> d \<in> set (y_paths s') \<or> \<not> (d = y_root s \<or> d \<in> set (y_paths s)))
        \<and> (po_at (y_owners s ! j) = OWork \<longrightarrow> po_dir (y_owners s ! j) = d \<longrightarrow> d \<in> set (y_paths s'))
      \<or> d \<noteq> [] \<and> (d = y_root s' \<or> d \<in> set (y_paths s') \<or> po_at p = OWork \<and> po_dir p = d)"
  shows "traced s'"
  unfolding traced_def
proof
  fix d assume d: "d \<in> set (y_disk s')"
  show "d \<noteq> [] \<and> (d = y_root s' \<or> d \<in> set (y_paths s') \<or> working s' d)"
    using assms(4)[OF d] assms(1) working_update[of s d s' j p] working_new[of s' s j p d] assms(2,3) unfolding traced_def by blast
qed

lemma traced_step:
  assumes "coord_step m s s'" and ok: "closing_ok s" "traced s"
  shows "traced s'"
  using assms(1)
proof cases
  case slot
  then show ?thesis by (intro traced_frame[OF ok(2)]) (simp_all add: acquire_slot_def)
next
  case (checked i)
  then show ?thesis by (intro traced_frame[OF ok(2)]) (simp_all add: acquire_section_def set_lease_def)
next
  case (hold i)
  then have "working s d \<Longrightarrow> working s' d" for d by (auto simp: working_def lease_hold_def set_lease_def)
  then show ?thesis using ok(2) hold(1) by (auto simp: traced_def lease_hold_def set_lease_def)
next
  case (release i)
  then show ?thesis by (intro traced_frame[OF ok(2)]) (simp_all add: lease_release_def set_lease_def)
next
  case (finish i)
  then show ?thesis by (intro traced_frame[OF ok(2)]) (simp_all add: finishOwner_def set_lease_def)
next
  case (give_back i)
  then show ?thesis by (intro traced_frame[OF ok(2)]) (simp_all add: releaseSlot_def set_lease_def)
next
  case (rooted j out)
  have f: "[] \<notin> set (y_disk s)" using ok(2) by (auto simp: traced_def)
  show ?thesis using rooted f
    by (intro traced_owner[OF ok(2), where j = j and p = "y_owners s' ! j"])
      (auto simp: lazyRoot_def set_owner_def owner_in_def outcome_ok_def fresh_dir_def split: mkdir_outcome.splits if_splits)
next
  case (invocation j path)
  then show ?thesis
    by (intro traced_owner[OF ok(2), where j = j and p = "y_owners s' ! j"])
      (auto simp: makeInvocation_def set_owner_def owner_in_def fresh_dir_def split: option.splits)
next
  case (cleanup j removed gone)
  have f: "[] \<notin> set (y_disk s)" using ok(2) by (auto simp: traced_def)
  show ?thesis using cleanup f
    by (intro traced_owner[OF ok(2), where j = j and p = "y_owners s' ! j"])
      (auto simp: run_cleanup_def set_owner_def owner_in_def Let_def split: if_splits)
next
  case (owner_done j)
  then show ?thesis
    by (intro traced_owner[OF ok(2), where j = j and p = "y_owners s' ! j"])
      (auto simp: ownerDone_def set_owner_def set_lease_def owner_in_def)
next
  case close
  then show ?thesis by (intro traced_frame[OF ok(2)]) (simp_all add: close_call_def)
next
  case (closing k)
  then show ?thesis by (intro traced_frame[OF ok(2)]) (simp_all add: close_first_def set_closer_def Let_def)
next
  case (canceled k)
  then show ?thesis by (intro traced_frame[OF ok(2)]) (simp_all add: close_canceled_def set_closer_def)
next
  case (path k removed gone)
  show ?thesis
  proof (cases rule: close_path_cases[where s = s and k = k and removed = removed and gone = gone])
    case at
    then show ?thesis using path ok(2) by (auto simp: close_path_def set_closer_def traced_def working_def)
  qed (use ok(2) path in simp)
next
  case (root k removed)
  then have c: "closer_ok s (y_closers s ! k)" using ok(1) by (simp add: closing_ok_def)
  show ?thesis
  proof (cases rule: close_root_cases[where s = s and k = k and removed = removed])
    case (at r f)
    then have "y_root s = r \<or> y_root s = []" using c by (simp add: closer_ok_def)
    then show ?thesis using at root(1) ok(2) by (auto simp: close_root_def set_closer_def traced_def working_def)
  qed (use ok(2) root in simp)
next
  case (last k)
  show ?thesis
  proof (cases rule: close_last_cases[where s = s and k = k])
    case at
    then show ?thesis using last by (intro traced_frame[OF ok(2)]) (simp_all add: close_last_def set_closer_def)
  qed (use ok(2) last in simp)
qed

lemma coord_invariant:
  assumes "coord_reachable m s" "0 \<le> m"
  shows "counts_ok m s \<and> closing_ok s \<and> traced s"
  using assms(1) unfolding coord_reachable_def
proof (induction rule: rtranclp_induct)
  case base
  then show ?case using assms(2) by (simp add: newCoordinator_def counts_ok_def closing_ok_def traced_def)
next
  case (step s s')
  then show ?case using counts_ok_step closing_ok_step traced_step by blast
qed


lemma counts_le: "tally counts ls \<le> tally has_slot ls"
  by (induction ls) (auto simp: counts_def has_slot_def)

text \<open>
  C23: in every interleaving of callbacks, process owners and \<open>Close\<close>, the number of active leases never
  exceeds the slots in use and those never exceed \<open>MaxConcurrent\<close>; a process owner that has not yet
  removed its directory and reported back always keeps its lease held (also after its callback gave
  up waiting and released it), and a released lease stays held only for such an owner, so capacity is
  neither given away early nor lost.
\<close>

theorem coordinator_capacity:
  assumes "coord_reachable m s" "0 \<le> m"
  shows "0 \<le> y_active s \<and> y_active s \<le> y_slots s \<and> y_slots s \<le> m \<and>
    (\<forall>p \<in> set (y_owners s). po_at p \<noteq> ODone \<longrightarrow> le_at (y_leases s ! po_lease p) = LHeld) \<and>
    (\<forall>i < length (y_leases s). le_at (y_leases s ! i) = LHeld \<longrightarrow> le_released (y_leases s ! i) \<longrightarrow>
       (\<exists>p \<in> set (y_owners s). po_lease p = i \<and> po_at p \<noteq> ODone))"
proof -
  have ok: "counts_ok m s" using coord_invariant[OF assms] by blast
  have "le_at (y_leases s ! po_lease p) = LHeld" if p: "p \<in> set (y_owners s)" "po_at p \<noteq> ODone" for p
  proof -
    have "tally (runs_for (po_lease p)) (y_owners s) > 0" using p by (intro tally_pos[of p]) (simp_all add: runs_for_def)
    then show ?thesis using ok p(1) by (auto simp: counts_ok_def lease_ok_def)
  qed
  moreover have "\<exists>p \<in> set (y_owners s). po_lease p = i \<and> po_at p \<noteq> ODone"
    if i: "i < length (y_leases s)" "le_at (y_leases s ! i) = LHeld" "le_released (y_leases s ! i)" for i
  proof -
    have "tally (runs_for i) (y_owners s) \<noteq> 0" using ok i by (auto simp: counts_ok_def lease_ok_def)
    then show ?thesis by (auto simp: tally_def runs_for_def filter_empty_conv)
  qed
  ultimately show ?thesis using ok counts_le[of "y_leases s"] tally_nonneg[of counts "y_leases s"] by (auto simp: counts_ok_def)
qed

subsection \<open>After \<open>Close\<close> has returned nil\<close>

definition coord_inv :: "int \<Rightarrow> coordinator_sys \<Rightarrow> bool" where
  "coord_inv m s \<longleftrightarrow> counts_ok m s \<and> closing_ok s \<and> traced s"

lemma coord_inv_step: "coord_step m s s' \<Longrightarrow> coord_inv m s \<Longrightarrow> coord_inv m s'"
  unfolding coord_inv_def using counts_ok_step closing_ok_step traced_step by blast

lemma returned_closed: "coord_inv m s \<Longrightarrow> CReturned True \<in> set (y_closers s) \<Longrightarrow> y_closed s"
  by (auto simp: coord_inv_def closing_ok_def closer_ok_def)

text \<open>What holds of a closed coordinator: nothing is on disk, every owner has ended, no lease counts.\<close>

definition coord_clean :: "coordinator_sys \<Rightarrow> bool" where
  "coord_clean s \<longleftrightarrow> y_disk s = [] \<and> (\<forall>p \<in> set (y_owners s). po_at p = ODone) \<and>
     (\<forall>l \<in> set (y_leases s). le_at l \<noteq> LHeld \<and> le_at l \<noteq> LEnding)"

lemma closed_coord_clean:
  assumes "coord_inv m s" "y_closed s"
  shows "coord_clean s"
proof -
  have inv: "counts_ok m s" "closing_ok s" "traced s" using assms(1) by (simp_all add: coord_inv_def)
  have z: "y_active s = 0" "y_root s = []" "y_paths s = []" using inv(2) assms(2) by (auto simp: closing_ok_def)
  have owners: "\<forall>p \<in> set (y_owners s). po_at p = ODone"
    using owner_busy[OF inv(1)] z(1) by (metis in_set_conv_nth less_irrefl)
  then have "\<not> working s d" for d by (auto simp: working_def)
  then have "y_disk s = []" using inv(3) z(2,3) by (cases "y_disk s") (auto simp: traced_def)
  moreover have "tally counts (y_leases s) = 0" using inv(1) z(1) by (simp add: counts_ok_def)
  ultimately show ?thesis using owners tally_zero[of counts "y_leases s"] by (auto simp: counts_def coord_clean_def)
qed

lemma closed_coord_step:
  assumes "coord_step m s s'" "coord_inv m s" "y_closed s"
  shows "y_closed s' \<and> y_owners s' = y_owners s"
proof -
  note clean = closed_coord_clean[OF assms(2,3)]
  have ended: "\<not> owner_in s j at" if "at \<noteq> ODone" for j at
    using clean that by (metis coord_clean_def nth_mem owner_in_def)
  have unheld: "\<not> lease_in s i [LHeld]" for i using clean by (auto simp: lease_in_def coord_clean_def)
  show ?thesis
    using assms(1)
  proof cases
    case (path k removed gone)
    then show ?thesis using assms(3)
      by (cases rule: close_path_cases[where s = s and k = k and removed = removed and gone = gone]) (auto simp: close_path_def set_closer_def)
  next
    case (root k removed)
    then show ?thesis using assms(3)
      by (cases rule: close_root_cases[where s = s and k = k and removed = removed]) (auto simp: close_root_def set_closer_def)
  next
    case (last k)
    then show ?thesis using assms(3)
      by (cases rule: close_last_cases[where s = s and k = k]) (auto simp: close_last_def set_closer_def)
  qed (use assms(3) ended unheld in \<open>auto simp: acquire_slot_def acquire_section_def set_lease_def finishOwner_def releaseSlot_def
      close_call_def close_first_def close_canceled_def set_closer_def\<close>)
qed

lemma closed_coord_path:
  assumes "(coord_step m)\<^sup>*\<^sup>* s s'" "coord_inv m s" "y_closed s"
  shows "coord_inv m s' \<and> y_closed s' \<and> y_owners s' = y_owners s"
  using assms(1)
proof (induction rule: rtranclp_induct)
  case base
  then show ?case using assms(2,3) by simp
next
  case (step t t')
  then show ?case using coord_inv_step[of m t t'] closed_coord_step[of m t t'] by simp
qed

text \<open>
  C15: once any call of \<open>Close\<close> has returned nil, the coordinator is closed, no directory it ever created is
  left, every process owner has ended and no lease is active; whatever happens later, callbacks that
  arrive late and further calls of \<open>Close\<close> included, it stays closed, no owner starts a process again and
  no directory is created.
\<close>

theorem coordinator_closed_clean:
  assumes "coord_reachable m s" "0 \<le> m" "CReturned True \<in> set (y_closers s)"
  shows "y_closed s \<and> coord_clean s \<and> (\<forall>s'. (coord_step m)\<^sup>*\<^sup>* s s' \<longrightarrow> y_closed s' \<and> coord_clean s' \<and> y_owners s' = y_owners s)"
proof -
  have inv: "coord_inv m s" using coord_invariant[OF assms(1,2)] by (simp add: coord_inv_def)
  have closed: "y_closed s" by (rule returned_closed[OF inv assms(3)])
  show ?thesis using closed closed_coord_clean[OF inv closed] closed_coord_path[OF _ inv closed] closed_coord_clean by blast
qed

subsection \<open>Witnesses\<close>

lemma coord_start: "coord_reachable m newCoordinator"
  by (simp add: coord_reachable_def)

lemma coord_next: "coord_reachable m s \<Longrightarrow> coord_step m s s' \<Longrightarrow> coord_reachable m s'"
  unfolding coord_reachable_def by (rule rtranclp.rtrancl_into_rtrancl)

definition coord_demo_work :: coordinator_sys where
  "coord_demo_work = lease_release 0 (makeInvocation 0 (Some ''d'') (lazyRoot 0 (RootMade ''r'') (lease_hold 0 (acquire_section 0 (acquire_slot 1 newCoordinator)))))"

lemma coord_demo_work_reachable: "coord_reachable 1 coord_demo_work"
proof -
  have 1: "coord_reachable 1 (lease_hold 0 (acquire_section 0 (acquire_slot 1 newCoordinator)))"
    by (rule coord_next[OF coord_next[OF coord_next[OF coord_start coord_step.slot] coord_step.checked] coord_step.hold]) code_simp+
  have 2: "coord_reachable 1 (lazyRoot 0 (RootMade ''r'') (lease_hold 0 (acquire_section 0 (acquire_slot 1 newCoordinator))))"
    by (rule coord_next[OF 1 coord_step.rooted]) code_simp+
  have "coord_reachable 1 (makeInvocation 0 (Some ''d'') (lazyRoot 0 (RootMade ''r'') (lease_hold 0 (acquire_section 0 (acquire_slot 1 newCoordinator)))))"
  proof (rule coord_next[OF 2 coord_step.invocation])
    have "fresh_dir (lazyRoot 0 (RootMade ''r'') (lease_hold 0 (acquire_section 0 (acquire_slot 1 newCoordinator)))) ''d''" by code_simp
    then show "fresh_dir (lazyRoot 0 (RootMade ''r'') (lease_hold 0 (acquire_section 0 (acquire_slot 1 newCoordinator)))) d" if "Some ''d'' = Some d" for d
      using that by simp
  qed code_simp
  then show ?thesis unfolding coord_demo_work_def by (rule coord_next[OF _ coord_step.release]) code_simp
qed

theorem coordinator_capacity_witness:
  "coord_reachable 1 coord_demo_work \<and> le_released (y_leases coord_demo_work ! 0) \<and> y_active coord_demo_work = 1 \<and>
   (\<exists>p \<in> set (y_owners coord_demo_work). po_lease p = 0 \<and> po_at p \<noteq> ODone)"
proof -
  have "0 < length (y_leases coord_demo_work)" "le_at (y_leases coord_demo_work ! 0) = LHeld" "le_released (y_leases coord_demo_work ! 0)"
    "y_active coord_demo_work = 1" by code_simp+
  then show ?thesis using coordinator_capacity[OF coord_demo_work_reachable] coord_demo_work_reachable by simp
qed

definition coord_demo_ended :: coordinator_sys where
  "coord_demo_ended = finishOwner 0 (ownerDone 0 (run_cleanup 0 False False coord_demo_work))"

definition coord_demo_closed :: coordinator_sys where
  "coord_demo_closed = close_last 0 (close_root 0 True (close_path 0 True False (close_first 0 (close_call coord_demo_ended))))"

lemma coord_demo_closed_reachable: "coord_reachable 1 coord_demo_closed"
proof -
  have 1: "coord_reachable 1 (run_cleanup 0 False False coord_demo_work)"
    by (rule coord_next[OF coord_demo_work_reachable coord_step.cleanup]) code_simp
  have 2: "coord_reachable 1 coord_demo_ended" unfolding coord_demo_ended_def
    by (rule coord_next[OF coord_next[OF 1 coord_step.owner_done] coord_step.finish]) code_simp+
  have 3: "coord_reachable 1 (close_first 0 (close_call coord_demo_ended))"
    by (rule coord_next[OF coord_next[OF 2 coord_step.close] coord_step.closing]) code_simp+
  show ?thesis unfolding coord_demo_closed_def
    by (rule coord_next[OF coord_next[OF coord_next[OF 3 coord_step.path] coord_step.root] coord_step.last]) code_simp+
qed

theorem coordinator_closed_clean_witness:
  "y_closers coord_demo_closed = [CReturned True] \<and> y_disk coord_demo_work = [''d'', ''r''] \<and> y_paths coord_demo_ended = [''d''] \<and>
   y_closed coord_demo_closed \<and> y_disk coord_demo_closed = []"
proof -
  have "y_closers coord_demo_closed = [CReturned True]" "y_disk coord_demo_work = [''d'', ''r'']" "y_paths coord_demo_ended = [''d'']" by code_simp+
  then show ?thesis using coordinator_closed_clean[OF coord_demo_closed_reachable] by (simp add: coord_clean_def)
qed

theorem runProcess_exact_witness:
  "runProcess ''/r'' \<lparr>rl_MaxBindings = 1, rl_MaxFieldsPerBinding = 1, rl_MaxInputMatches = 1, rl_MaxConfigBytes = 9, rl_MaxInputBytes = 9,
     rl_MaxResultBytes = 9, rl_MaxFieldBytes = 9, rl_MaxJSONDepth = 9, rl_MaxJSONNodes = 9, rl_MaxConcurrent = 1, rl_MaxStdoutBytes = 4,
     rl_MaxStderrBytes = 4, rl_Timeout = 1, rl_KillWait = 1\<rparr> GoTest ''abc''
     \<lparr>ex_unsupported = False, ex_err = False, ex_ctx = False, ex_stdout = [''o'', ''k''], ex_stderr = []\<rparr> = (''ok'', True)"
proof -
  have "utf8_valid ''ok''" by (simp add: utf8_eval)
  then show ?thesis by (subst runProcess_exact) (simp_all add: rtk_validateLimits_def rtk_minute_def MaxInt64_def rtk_validFilter_def len_def)
qed

end
