(* ===== verification/Rtk_Transform.thy ===== *)
theory Rtk_Transform
  imports Rtk_Config
begin

section \<open>rtkreducer: the tool-result transform\<close>

text \<open>
  transform.go of rtkreducer. The reducer that a lease hands out runs a native process; it is an
  argument, indexed by the number of calls made before, and may succeed, fail or panic.
  \<open>transform\<close> returns the result together with the number of leases it released. The text of a
  result's \<open>Structured\<close> field is empty when the field is nil.
\<close>

datatype rtk_reduced = Reduced string | NotReduced | ReducePanics

type_synonym rtk_reducer = "nat \<Rightarrow> string \<Rightarrow> string \<Rightarrow> rtk_reduced"

record ToolResultTransform =
  tr_ToolName :: string
  tr_Input :: bytes
  tr_Result :: ToolResult

definition structured_bytes :: "ToolResult \<Rightarrow> bytes" where
  "structured_bytes r = (case Structured r of None \<Rightarrow> [] | Some b \<Rightarrow> b)"

definition reductionMarker :: "string \<Rightarrow> int \<Rightarrow> string" where
  "reductionMarker fil originalBytes = ''[Reduced by RTK '' @ fil @ ''; original_bytes='' @ int_lit originalBytes @ '']'' @ [CHR 0x0A]"

definition boundedCombinedSize :: "int \<Rightarrow> int \<Rightarrow> int \<Rightarrow> bool" where
  "boundedCombinedSize l r m \<longleftrightarrow> l \<ge> 0 \<and> r \<ge> 0 \<and> m \<ge> 0 \<and> l \<le> m \<and> r \<le> m - l"

text \<open>\<open>sort.Search\<close> and \<open>sort.SearchStrings\<close>.\<close>

function search_from :: "(nat \<Rightarrow> bool) \<Rightarrow> nat \<Rightarrow> nat \<Rightarrow> nat" where
  "search_from f i j = (if i < j then (let h = (i + j) div 2 in if \<not> f h then search_from f (h + 1) j else search_from f i h) else i)"
  by auto
termination by (relation "measure (\<lambda>(f, i, j). j - i)") auto

declare search_from.simps [simp del]

definition SearchStrings :: "string list \<Rightarrow> string \<Rightarrow> nat" where
  "SearchStrings a x = search_from (\<lambda>i. a ! i \<ge> x) 0 (length a)"

definition matchesInput :: "rtk_Limits \<Rightarrow> bytes \<Rightarrow> rtk_InputMatch \<Rightarrow> bool" where
  "matchesInput l raw match =
     (if len raw > rl_MaxInputBytes l then False
      else case scanObjectStrings raw [im_Field match] (rl_MaxJSONDepth l) (rl_MaxJSONNodes l) of
        None \<Rightarrow> False
      | Some found \<Rightarrow>
          (case map_of found (im_Field match) of
             None \<Rightarrow> False
           | Some span \<Rightarrow>
               let index = SearchStrings (im_Equals match) (sp_value span) in
               index < length (im_Equals match) \<and> im_Equals match ! index = sp_value span))"

text \<open>\<open>None\<close> is a panic of the reducer that unwinds to the handler.\<close>

definition transformText :: "rtk_Limits \<Rightarrow> ToolResultTransform \<Rightarrow> rtk_Binding \<Rightarrow> rtk_reducer \<Rightarrow> ToolResultTransform option" where
  "transformText l original b reduce =
     (if structured_bytes (tr_Result original) \<noteq> [] \<or> length (rb_Fields b) \<noteq> 1 then Some original
      else let input = Output (tr_Result original); fil = fd_Filter (rb_Fields b ! 0) in
        if len input > rl_MaxFieldBytes l \<or> \<not> utf8_valid input \<or> ContainsByte input (CHR 0x00) \<or> input = [] then Some original
        else (case reduce 0 fil input of
                ReducePanics \<Rightarrow> None
              | NotReduced \<Rightarrow> Some original
              | Reduced y \<Rightarrow>
                  if y = input \<or> y = [] \<or> \<not> utf8_valid y then Some original
                  else let marked = reductionMarker fil (len input) @ y in
                    if len marked \<ge> len input \<or> \<not> boundedCombinedSize (len marked) 0 (rl_MaxResultBytes l) then Some original
                    else Some (original\<lparr>tr_Result := (tr_Result original)\<lparr>Output := marked\<rparr>\<rparr>)))"

definition zero_span :: stringSpan where
  "zero_span = \<lparr>sp_start = 0, sp_end = 0, sp_value = []\<rparr>"

definition span_of :: "(string \<times> stringSpan) list \<Rightarrow> string \<Rightarrow> stringSpan" where
  "span_of spans k = (case map_of spans k of None \<Rightarrow> zero_span | Some sp \<Rightarrow> sp)"

text \<open>The reduction loop: panic, give the original back, or the replacements made.\<close>

datatype rtk_loop = LoopPanics | LoopOriginal | LoopDone "(nat \<times> nat \<times> bytes) list"

fun reduce_fields ::
  "rtk_reducer \<Rightarrow> (string \<times> stringSpan) list \<Rightarrow> nat \<Rightarrow> rtk_Field list \<Rightarrow> (nat \<times> nat \<times> bytes) list \<Rightarrow> rtk_loop" where
  "reduce_fields reduce spans calls [] reps = LoopDone reps"
| "reduce_fields reduce spans calls (f # fs) reps =
     (let span = span_of spans (fd_Name f) in
      if sp_value span = [] then reduce_fields reduce spans calls fs reps
      else (case reduce calls (fd_Filter f) (sp_value span) of
              ReducePanics \<Rightarrow> LoopPanics
            | NotReduced \<Rightarrow> LoopOriginal
            | Reduced y \<Rightarrow>
                if y = [] \<or> \<not> utf8_valid y then LoopOriginal
                else if y = sp_value span then reduce_fields reduce spans (calls + 1) fs reps
                else let marked = reductionMarker (fd_Filter f) (len (sp_value span)) @ y in
                  if len marked \<ge> len (sp_value span) then reduce_fields reduce spans (calls + 1) fs reps
                  else let encoded = marshal_string marked in
                    if len encoded \<ge> int (sp_end span) - int (sp_start span) then reduce_fields reduce spans (calls + 1) fs reps
                    else reduce_fields reduce spans (calls + 1) fs (reps @ [(sp_start span, sp_end span, encoded)])))"

fun new_length :: "int \<Rightarrow> (nat \<times> nat \<times> bytes) list \<Rightarrow> int option" where
  "new_length n [] = Some n"
| "new_length n ((a, b, v) # rs) =
     (let delta = (int b - int a) - len v in if delta \<le> 0 \<or> delta > n then None else new_length (n - delta) rs)"

fun patch_from :: "bytes \<Rightarrow> nat \<Rightarrow> (nat \<times> nat \<times> bytes) list \<Rightarrow> bytes \<Rightarrow> bytes option" where
  "patch_from raw position [] patched = Some (patched @ drop position raw)"
| "patch_from raw position ((a, b, v) # rs) patched =
     (if a < position \<or> b > length raw then None
      else patch_from raw b rs (patched @ go_slice raw position a @ v))"

definition transformJSON :: "rtk_Limits \<Rightarrow> ToolResultTransform \<Rightarrow> rtk_Binding \<Rightarrow> rtk_reducer \<Rightarrow> ToolResultTransform option" where
  "transformJSON l original b reduce =
     (let raw = structured_bytes (tr_Result original) in
      if raw = [] \<or> length (Output (tr_Result original)) \<noteq> length raw \<or> Output (tr_Result original) \<noteq> raw then Some original
      else case scanObjectStrings raw (map fd_Name (rb_Fields b)) (rl_MaxJSONDepth l) (rl_MaxJSONNodes l) of
        None \<Rightarrow> Some original
      | Some spans \<Rightarrow>
          if length spans \<noteq> length (rb_Fields b) then Some original
          else if list_ex (\<lambda>f. let v = sp_value (span_of spans (fd_Name f)) in
                 len v > rl_MaxFieldBytes l \<or> \<not> utf8_valid v \<or> ContainsByte v (CHR 0x00)) (rb_Fields b) then Some original
          else (case reduce_fields reduce spans 0 (rb_Fields b) [] of
                  LoopPanics \<Rightarrow> None
                | LoopOriginal \<Rightarrow> Some original
                | LoopDone reps \<Rightarrow>
                    if reps = [] then Some original
                    else let sorted_reps = sort_key fst reps in
                      (case new_length (len raw) sorted_reps of
                         None \<Rightarrow> Some original
                       | Some newLength \<Rightarrow>
                           if newLength \<ge> len raw \<or> \<not> boundedCombinedSize newLength newLength (rl_MaxResultBytes l) then Some original
                           else (case patch_from raw 0 sorted_reps [] of
                                   None \<Rightarrow> Some original
                                 | Some patched \<Rightarrow>
                                     if len patched \<noteq> newLength \<or> \<not> json_Valid patched then Some original
                                     else Some (original\<lparr>tr_Result := (tr_Result original)\<lparr>Output := patched, Structured := Some patched\<rparr>\<rparr>)))))"

definition permission_status :: "ToolResult \<Rightarrow> string" where
  "permission_status r =
     (case Metadata r of None \<Rightarrow> [] | Some m \<Rightarrow> (case map_of m ''permission_status'' of None \<Rightarrow> [] | Some v \<Rightarrow> v))"

definition newTransformer :: "rtk_Binding list \<Rightarrow> string \<Rightarrow> rtk_Binding option" where
  "newTransformer bs = map_of (rev (map (\<lambda>b. (rb_ToolName b, b)) bs))"

text \<open>
  The handler. \<open>acquire\<close> may poll the context; \<open>None\<close> is a refused lease. The deferred recover turns a
  panic into the original result, after the deferred release.
\<close>

definition rtk_transform ::
  "rtk_Limits \<Rightarrow> (string \<Rightarrow> rtk_Binding option) \<Rightarrow> (ctx \<Rightarrow> rtk_reducer option \<times> ctx) \<Rightarrow> ctx \<Rightarrow> ToolResultTransform
   \<Rightarrow> (ToolResultTransform \<times> nat) \<times> ctx" where
  "rtk_transform l bindings acquire c input =
     (case bindings (tr_ToolName input) of
        None \<Rightarrow> ((input, 0), c)
      | Some b \<Rightarrow>
          (case ctx_Err c of
             (True, c) \<Rightarrow> ((input, 0), c)
           | (False, c) \<Rightarrow>
               if permission_status (tr_Result input) \<noteq> [] then ((input, 0), c)
               else if (case rb_MatchInput b of None \<Rightarrow> False | Some match \<Rightarrow> \<not> matchesInput l (tr_Input input) match) then ((input, 0), c)
               else (case acquire c of
                       (None, c) \<Rightarrow> ((input, 0), c)
                     | (Some reduce, c) \<Rightarrow>
                         (case ctx_Err c of
                            (True, c) \<Rightarrow> ((input, 1), c)
                          | (False, c) \<Rightarrow>
                              if \<not> boundedCombinedSize (len (Output (tr_Result input))) (len (structured_bytes (tr_Result input))) (rl_MaxResultBytes l)
                              then ((input, 1), c)
                              else let out = (if rb_Mode b = TextOnly then transformText l input b reduce
                                              else if rb_Mode b = JSONMirror then transformJSON l input b reduce
                                              else Some input) in
                                ((case out of None \<Rightarrow> input | Some r \<Rightarrow> r, 1), c)))))"


subsection \<open>The input match is exact membership\<close>

lemma search_from_spec:
  assumes "i \<le> j" "\<And>a b. i \<le> a \<Longrightarrow> a \<le> b \<Longrightarrow> b < j \<Longrightarrow> f a \<Longrightarrow> f b"
  shows "i \<le> search_from f i j \<and> search_from f i j \<le> j \<and> (\<forall>k. i \<le> k \<longrightarrow> k < search_from f i j \<longrightarrow> \<not> f k)
    \<and> (search_from f i j < j \<longrightarrow> f (search_from f i j))"
  using assms
proof (induction f i j rule: search_from.induct)
  case (1 f i j)
  let ?h = "(i + j) div 2"
  show ?case
  proof (cases "i < j")
    case True
    then have h: "i \<le> ?h" "?h < j" by auto
    show ?thesis
    proof (cases "f ?h")
      case yes: True
      have eq: "search_from f i j = search_from f i ?h" using True yes by (subst search_from.simps) (simp add: Let_def)
      have m: "\<And>a b. i \<le> a \<Longrightarrow> a \<le> b \<Longrightarrow> b < ?h \<Longrightarrow> f a \<Longrightarrow> f b" using "1.prems"(2) h by (meson less_trans)
      have nn: "\<not> \<not> f ?h" using yes by simp
      have r: "i \<le> search_from f i ?h \<and> search_from f i ?h \<le> ?h \<and> (\<forall>k. i \<le> k \<longrightarrow> k < search_from f i ?h \<longrightarrow> \<not> f k)
          \<and> (search_from f i ?h < ?h \<longrightarrow> f (search_from f i ?h))" by (rule "1.IH"(2)[OF True refl nn h(1) m])
      then have "f (search_from f i ?h)" using yes by (cases "search_from f i ?h = ?h") auto
      then show ?thesis unfolding eq using r h by simp
    next
      case no: False
      have eq: "search_from f i j = search_from f (?h + 1) j" using True no by (subst search_from.simps) (simp add: Let_def)
      have b: "\<not> f k" if "i \<le> k" "k \<le> ?h" for k using "1.prems"(2)[OF that h(2)] no by blast
      have "?h + 1 \<le> j" using h by simp
      moreover have "f b" if "?h + 1 \<le> a" "a \<le> b" "b < j" "f a" for a b
      proof (rule "1.prems"(2)[of a])
        show "i \<le> a" using that(1) h(1) by linarith
      qed (rule that)+
      ultimately have r: "?h + 1 \<le> search_from f (?h + 1) j \<and> search_from f (?h + 1) j \<le> j \<and> (\<forall>k. ?h + 1 \<le> k \<longrightarrow> k < search_from f (?h + 1) j \<longrightarrow> \<not> f k)
          \<and> (search_from f (?h + 1) j < j \<longrightarrow> f (search_from f (?h + 1) j))" by (rule "1.IH"(1)[OF True refl no])
      then have "\<not> f k" if "i \<le> k" "k < search_from f (?h + 1) j" for k using b[OF that(1)] that(2) by (cases "k \<le> ?h") auto
      then show ?thesis unfolding eq using r h by auto
    qed
  next
    case False
    then have "search_from f i j = i" by (subst search_from.simps) simp
    then show ?thesis using False "1.prems"(1) by simp
  qed
qed

lemma SearchStrings_mem:
  assumes "sorted a"
  shows "SearchStrings a x < length a \<and> a ! SearchStrings a x = x \<longleftrightarrow> x \<in> set a"
proof
  let ?r = "SearchStrings a x"
  have spec: "(\<forall>k < ?r. \<not> a ! k \<ge> x)" "?r < length a \<longrightarrow> a ! ?r \<ge> x" "?r \<le> length a"
    using search_from_spec[of 0 "length a" "\<lambda>i. a ! i \<ge> x"] assms unfolding SearchStrings_def
    by (auto simp: sorted_iff_nth_mono intro: order_trans)
  assume "x \<in> set a"
  then obtain k where k: "k < length a" "a ! k = x" by (metis in_set_conv_nth)
  then have "?r \<le> k" using spec(1) by (meson not_le order_refl)
  moreover from this have "a ! ?r \<le> x" using assms k by (metis sorted_nth_mono)
  ultimately show "?r < length a \<and> a ! ?r = x" using spec(2) k by (auto intro: antisym)
qed (metis nth_mem)

lemma matchesInput_iff:
  assumes "sorted (im_Equals m)"
  shows "matchesInput l raw m \<longleftrightarrow> len raw \<le> rl_MaxInputBytes l \<and>
    (\<exists>found sp. scanObjectStrings raw [im_Field m] (rl_MaxJSONDepth l) (rl_MaxJSONNodes l) = Some found \<and> map_of found (im_Field m) = Some sp \<and>
       sp_value sp \<in> set (im_Equals m))"
  using SearchStrings_mem[OF assms] by (auto simp: matchesInput_def Let_def not_less split: option.splits)

lemma matchesInput_selected:
  assumes "sorted (im_Equals m)" "matchesInput l raw m"
  obtains ms v where "json_document raw = Some (JObj ms)" "distinct (map fst ms)" "(im_Field m, JStr v) \<in> set ms" "v \<in> set (im_Equals m)"
proof -
  obtain found sp where f: "scanObjectStrings raw [im_Field m] (rl_MaxJSONDepth l) (rl_MaxJSONNodes l) = Some found"
    "(im_Field m, sp) \<in> set found" "sp_value sp \<in> set (im_Equals m)"
    using assms matchesInput_iff[OF assms(1)] by (auto dest: map_of_SomeD)
  then show thesis using scanObjectStrings_spec[OF f(1)] that by (metis fst_conv snd_conv unique_tree.simps(1))
qed

subsection \<open>The patched document\<close>

definition rtk_shorter :: "rtk_reducer \<Rightarrow> string \<Rightarrow> string \<Rightarrow> string \<Rightarrow> bool" where
  "rtk_shorter reduce fil v x \<longleftrightarrow>
     (\<exists>n y. reduce n fil v = Reduced y \<and> y \<noteq> [] \<and> utf8_valid y \<and> x = reductionMarker fil (len v) @ y) \<and> length x < length v"

lemma ascii_append: "list_all (\<lambda>c. byte c < 0x80) s \<Longrightarrow> utf8_valid (s @ t) \<longleftrightarrow> utf8_valid t"
  by (simp add: utf8_valid_append utf8_valid_all_ascii)

lemma int_lit_ascii: "list_all (\<lambda>c. byte c < 0x80) (int_lit n)"
proof -
  have "list_all (\<lambda>c. byte c < 0x80) (nat_digits k)" for k
    using nat_digits_digits[of k] by (auto simp: list_all_iff is_digit_def)
  then show ?thesis by (simp add: int_lit_def)
qed

lemma marker_valid: "rtk_validFilter fil \<Longrightarrow> utf8_valid (reductionMarker fil n @ y) \<longleftrightarrow> utf8_valid y"
  by (rule ascii_append) (auto simp: reductionMarker_def rtk_validFilter_def GoTest_def GitDiff_def LogFilter_def int_lit_ascii)

lemma reduce_fields_edits:
  assumes "reduce_fields reduce spans n fs reps0 = LoopDone reps" "distinct (map fd_Name fs)"
  shows "\<exists>f. reps = reps0 @ edits f (map (\<lambda>fd. (fd_Name fd, span_of spans (fd_Name fd))) fs) \<and>
    (\<forall>k x. f k = Some x \<longrightarrow> (\<exists>fd \<in> set fs. fd_Name fd = k \<and> rtk_shorter reduce (fd_Filter fd) (sp_value (span_of spans k)) x
       \<and> int (length (marshal_string x)) < int (sp_end (span_of spans k)) - int (sp_start (span_of spans k))))"
  using assms
proof (induction fs arbitrary: n reps0)
  case Nil
  then show ?case by (intro exI[of _ Map.empty]) simp
next
  case (Cons fd fs)
  let ?k = "fd_Name fd"
  let ?sp = "span_of spans ?k"
  let ?es = "\<lambda>f. edits f (map (\<lambda>fd. (fd_Name fd, span_of spans (fd_Name fd))) fs)"
  define good where "good fd x \<longleftrightarrow> rtk_shorter reduce (fd_Filter fd) (sp_value (span_of spans (fd_Name fd))) x
       \<and> int (length (marshal_string x)) < int (sp_end (span_of spans (fd_Name fd))) - int (sp_start (span_of spans (fd_Name fd)))"
    for fd :: rtk_Field and x
  have goal: ?case if "reps = reps0 @ edits f (map (\<lambda>fd. (fd_Name fd, span_of spans (fd_Name fd))) (fd # fs))"
    "\<And>k x. f k = Some x \<Longrightarrow> \<exists>d \<in> set (fd # fs). fd_Name d = k \<and> good d x" for f
    using that unfolding good_def by (intro exI[of _ f]) blast
  have new: "?k \<notin> fd_Name ` set fs" "distinct (map fd_Name fs)" using Cons.prems(2) by auto
  have ih: "\<exists>f. reps = r0 @ ?es f \<and> (\<forall>k x. f k = Some x \<longrightarrow> (\<exists>d \<in> set fs. fd_Name d = k \<and> good d x))"
    if "reduce_fields reduce spans n' fs r0 = LoopDone reps" for n' r0
    using Cons.IH[OF that new(2)] unfolding good_def by blast
  have skip: ?case if run: "reduce_fields reduce spans n' fs reps0 = LoopDone reps" for n'
  proof -
    from ih[OF run] obtain f where f: "reps = reps0 @ ?es f" "\<And>k x. f k = Some x \<Longrightarrow> \<exists>d \<in> set fs. fd_Name d = k \<and> good d x" by blast
    have "f ?k = None" using f(2)[of ?k] new(1) by (metis image_eqI not_None_eq)
    then show ?case using f by (intro goal[of f]) (auto simp: edits_def)
  qed
  have take: ?case if run: "reduce_fields reduce spans n' fs (reps0 @ [(sp_start ?sp, sp_end ?sp, marshal_string x)]) = LoopDone reps"
      and x: "good fd x" for n' x
  proof -
    from ih[OF run] obtain f where f: "reps = (reps0 @ [(sp_start ?sp, sp_end ?sp, marshal_string x)]) @ ?es f"
      "\<And>k x. f k = Some x \<Longrightarrow> \<exists>d \<in> set fs. fd_Name d = k \<and> good d x" by blast
    have "\<And>d. d \<in> set fs \<Longrightarrow> fd_Name d \<noteq> ?k" using new(1) by (metis image_eqI)
    then have "?es (f(?k \<mapsto> x)) = ?es f" unfolding edits_def by (intro arg_cong[of _ _ concat] map_cong) auto
    then have "reps = reps0 @ edits (f(?k \<mapsto> x)) (map (\<lambda>fd. (fd_Name fd, span_of spans (fd_Name fd))) (fd # fs))"
      using f(1) by (simp add: edits_def)
    then show ?case using f(2) x by (intro goal[of "f(?k \<mapsto> x)"]) (auto split: if_splits)
  qed
  show ?case
  proof (cases "sp_value ?sp = []")
    case True
    then show ?thesis using Cons.prems(1) skip[of n] by simp
  next
    case False
    then obtain y where y: "reduce n (fd_Filter fd) (sp_value ?sp) = Reduced y" "y \<noteq> []" "utf8_valid y"
      using Cons.prems(1) by (auto simp: Let_def split: rtk_reduced.splits if_splits)
    let ?x = "reductionMarker (fd_Filter fd) (len (sp_value ?sp)) @ y"
    have sh: "good fd ?x" if "\<not> len ?x \<ge> len (sp_value ?sp)" "\<not> len (marshal_string ?x) \<ge> int (sp_end ?sp) - int (sp_start ?sp)"
      unfolding rtk_shorter_def good_def using y that by (simp add: len_def not_le) blast
    have "reduce_fields reduce spans (n + 1) fs reps0 = LoopDone reps \<or> (\<not> len ?x \<ge> len (sp_value ?sp)
        \<and> \<not> len (marshal_string ?x) \<ge> int (sp_end ?sp) - int (sp_start ?sp)
        \<and> reduce_fields reduce spans (n + 1) fs (reps0 @ [(sp_start ?sp, sp_end ?sp, marshal_string ?x)]) = LoopDone reps)"
      using Cons.prems(1) y False by (simp add: Let_def split: if_splits)
    then show ?thesis using skip[of "n + 1"] take[of "n + 1" ?x] sh by blast
  qed
qed

lemma patch_from_write: "patch_from raw p rs acc = Some out \<Longrightarrow> out = acc @ write_replacements raw p rs"
  by (induction raw p rs acc rule: patch_from.induct) (auto split: if_splits)

lemma inside_sorted:
  assumes "inside p rs q" "\<forall>r \<in> set rs. fst r < fst (snd r)"
  shows "sorted (map fst rs) \<and> distinct (map fst rs) \<and> (\<forall>r \<in> set rs. p \<le> fst r)"
  using assms
proof (induction p rs q rule: inside.induct)
  case (2 p a b v rs q)
  then have "sorted (map fst rs) \<and> distinct (map fst rs) \<and> (\<forall>r \<in> set rs. b \<le> fst r)" "a < b" "p \<le> a" by simp_all
  then show ?case by fastforce
qed simp

lemma edits_mset: "mset qs = mset rs \<Longrightarrow> mset (edits f qs) = mset (edits f rs)"
proof -
  assume "mset qs = mset rs"
  then have "sum_mset (mset (map g qs)) = sum_mset (mset (map g rs))" for g :: "string \<times> stringSpan \<Rightarrow> (nat \<times> nat \<times> bytes) multiset"
    by simp
  then show ?thesis unfolding edits_def mset_concat map_map sum_mset_sum_list .
qed

lemma in_edits:
  assumes "r \<in> set (edits f rs)"
  shows "\<exists>k sp x. (k, sp) \<in> set rs \<and> f k = Some x \<and> r = (sp_start sp, sp_end sp, marshal_string x)"
proof -
  let ?g = "\<lambda>(k, sp). case f k of None \<Rightarrow> [] | Some x \<Rightarrow> [(sp_start sp, sp_end sp, marshal_string x)]"
  have "r \<in> (\<Union>p \<in> set rs. set (?g p))" using assms by (simp add: edits_def)
  then obtain k sp where p: "(k, sp) \<in> set rs" "r \<in> set (?g (k, sp))" by fast
  then obtain x where "f k = Some x" "r = (sp_start sp, sp_end sp, marshal_string x)" by (cases "f k") auto
  with p(1) show ?thesis by blast
qed

lemma sorted_edits:
  assumes "inside p (edits f found) q" "mset qs = mset found" "\<forall>r \<in> set (edits f found). fst r < fst (snd r)"
  shows "sort_key fst (edits f qs) = edits f found"
proof (rule map_sorted_distinct_set_unique[of fst])
  note s = inside_sorted[OF assms(1,3)]
  note m = edits_mset[OF assms(2), of f]
  have e: "set (sort_key fst (edits f qs)) = set (edits f found)" using mset_eq_setD[OF m] by simp
  then show "set (sort_key fst (edits f qs)) = set (edits f found)" .
  show "sorted (map fst (edits f found))" "distinct (map fst (edits f found))" using s by blast+
  then show "inj_on fst (set (sort_key fst (edits f qs)) \<union> set (edits f found))" unfolding e by (simp add: distinct_map)
  have "mset (map fst (sort_key fst (edits f qs))) = mset (map fst (edits f found))" using m by simp
  then show "distinct (map fst (sort_key fst (edits f qs)))" using s mset_eq_imp_distinct_iff by blast
qed simp


text \<open>
  What a binding may make of a result: nothing, or a text-only output replaced by a shorter marked
  reduction, or a mirrored JSON object in which some configured top-level strings, and nothing else,
  are replaced by shorter marked reductions.
\<close>

definition rtk_result_spec :: "rtk_Limits \<Rightarrow> rtk_Binding \<Rightarrow> rtk_reducer \<Rightarrow> ToolResult \<Rightarrow> ToolResult \<Rightarrow> bool" where
  "rtk_result_spec l b reduce r r' \<longleftrightarrow> r' = r \<or>
     (rb_Mode b = TextOnly \<and> structured_bytes r = [] \<and>
       (\<exists>fd x. rb_Fields b = [fd] \<and> rtk_shorter reduce (fd_Filter fd) (Output r) x \<and> len x \<le> rl_MaxResultBytes l \<and> r' = r\<lparr>Output := x\<rparr>)) \<or>
     (rb_Mode b = JSONMirror \<and> Output r = structured_bytes r \<and>
       (\<exists>ms f patched. json_document (Output r) = Some (JObj ms) \<and> distinct (map fst ms) \<and> f \<noteq> Map.empty \<and>
          (\<forall>k x. f k = Some x \<longrightarrow> (\<exists>fd \<in> set (rb_Fields b). \<exists>v. fd_Name fd = k \<and> (k, JStr v) \<in> set ms \<and> rtk_shorter reduce (fd_Filter fd) v x)) \<and>
          json_document patched = Some (JObj (map (\<lambda>(k, v). (k, case f k of None \<Rightarrow> v | Some x \<Rightarrow> JStr x)) ms)) \<and>
          length patched < length (Output r) \<and> 2 * len patched \<le> rl_MaxResultBytes l \<and>
          r' = r\<lparr>Output := patched, Structured := Some patched\<rparr>))"

lemma transformText_spec:
  assumes "transformText l original b reduce = Some out" "rb_Mode b = TextOnly"
  shows "rtk_result_spec l b reduce (tr_Result original) (tr_Result out) \<and> out = original\<lparr>tr_Result := tr_Result out\<rparr>"
proof (cases "out = original")
  case True
  then show ?thesis by (simp add: rtk_result_spec_def)
next
  case False
  let ?in = "Output (tr_Result original)"
  have c: "structured_bytes (tr_Result original) = []" "length (rb_Fields b) = 1"
    using assms(1) False by (auto simp: transformText_def split: if_splits)
  then obtain fd where fd: "rb_Fields b = [fd]" by (metis One_nat_def length_0_conv length_Suc_conv)
  obtain y where y: "reduce 0 (fd_Filter fd) ?in = Reduced y"
    using assms(1) False c fd by (auto simp: transformText_def Let_def split: if_splits rtk_reduced.splits)
  let ?x = "reductionMarker (fd_Filter fd) (len ?in) @ y"
  have r: "y \<noteq> []" "utf8_valid y" "\<not> len ?x \<ge> len ?in" "boundedCombinedSize (len ?x) 0 (rl_MaxResultBytes l)"
    "out = original\<lparr>tr_Result := (tr_Result original)\<lparr>Output := ?x\<rparr>\<rparr>"
    using assms(1) False c fd y by (auto simp: transformText_def Let_def split: if_splits)
  have "rtk_shorter reduce (fd_Filter fd) ?in ?x" unfolding rtk_shorter_def using y r(1-3) by (simp add: len_def not_le) blast
  moreover have "len ?x \<le> rl_MaxResultBytes l" using r(4) by (simp add: boundedCombinedSize_def)
  ultimately show ?thesis using assms(2) c(1) fd r(5) unfolding rtk_result_spec_def by (simp, blast)
qed

lemma found_fields:
  assumes "map fst found = filter (\<lambda>k. k \<in> set (map fd_Name fs)) (map fst ms)" "distinct (map fst ms)" "length found = length fs" "distinct (map fd_Name fs)"
  shows "mset (map (\<lambda>fd. (fd_Name fd, span_of found (fd_Name fd))) fs) = mset found" "fst ` set found = fd_Name ` set fs"
proof -
  have d: "distinct (map fst found)" unfolding assms(1) using assms(2) by simp
  have sub: "fst ` set found \<subseteq> fd_Name ` set fs" using arg_cong[OF assms(1), of set] by auto
  have "card (fst ` set found) = length found" using d by (metis distinct_card length_map list.set_map)
  moreover have "card (fd_Name ` set fs) = length fs" using assms(4) by (metis distinct_card length_map list.set_map)
  ultimately show eq: "fst ` set found = fd_Name ` set fs" using assms(3) sub by (simp add: card_subset_eq)
  let ?qs = "map (\<lambda>fd. (fd_Name fd, span_of found (fd_Name fd))) fs"
  have at: "span_of found k = sp" if "(k, sp) \<in> set found" for k sp using that d by (simp add: span_of_def)
  have "map fst ?qs = map fd_Name fs" by (simp add: comp_def)
  then have "distinct ?qs" using assms(4) by (metis distinct_map)
  moreover have "distinct found" using d by (simp add: distinct_map)
  moreover have "p \<in> set ?qs" if p: "p \<in> set found" for p
  proof -
    obtain fd where "fd \<in> set fs" "fst p = fd_Name fd" using eq p by (metis image_eqI image_iff)
    moreover have "span_of found (fst p) = snd p" using at[of "fst p" "snd p"] p by simp
    ultimately have "p = (\<lambda>fd. (fd_Name fd, span_of found (fd_Name fd))) fd" by (simp add: prod_eq_iff)
    then show ?thesis using \<open>fd \<in> set fs\<close> by simp
  qed
  moreover have "p \<in> set found" if p: "p \<in> set ?qs" for p
  proof -
    obtain fd where fd: "fd \<in> set fs" "p = (fd_Name fd, span_of found (fd_Name fd))" using p by auto
    then obtain q where "q \<in> set found" "fst q = fd_Name fd" using eq by (metis image_eqI image_iff)
    then show ?thesis using fd at[of "fst q" "snd q"] by (metis prod.collapse)
  qed
  ultimately have "distinct ?qs" "distinct found" "set ?qs = set found" by blast+
  then show "mset ?qs = mset found" using set_eq_iff_mset_eq_distinct[of ?qs found] by simp
qed


lemma transformJSON_spec:
  assumes run: "transformJSON l original b reduce = Some out" and mode: "rb_Mode b = JSONMirror" and ok: "rtk_binding_ok l b"
  shows "rtk_result_spec l b reduce (tr_Result original) (tr_Result out) \<and> out = original\<lparr>tr_Result := tr_Result out\<rparr>"
proof (cases "out = original")
  case True
  then show ?thesis by (simp add: rtk_result_spec_def)
next
  case False
  let ?raw = "structured_bytes (tr_Result original)"
  let ?names = "map fd_Name (rb_Fields b)"
  let ?qs = "\<lambda>found. map (\<lambda>fd. (fd_Name fd, span_of found (fd_Name fd))) (rb_Fields b)"
  note run = run[unfolded transformJSON_def Let_def]
  have mirror: "Output (tr_Result original) = ?raw" using run False by (auto split: if_splits)
  obtain found where found: "scanObjectStrings ?raw ?names (rl_MaxJSONDepth l) (rl_MaxJSONNodes l) = Some found"
    using run False by (auto split: if_splits option.splits)
  obtain reps where reps: "reduce_fields reduce found 0 (rb_Fields b) [] = LoopDone reps" "reps \<noteq> []" "length found = length (rb_Fields b)"
    using run False found by (auto split: if_splits rtk_loop.splits)
  obtain n patched where p: "patch_from ?raw 0 (sort_key fst reps) [] = Some patched" "len patched = n" "\<not> n \<ge> len ?raw"
    "boundedCombinedSize n n (rl_MaxResultBytes l)" "out = original\<lparr>tr_Result := (tr_Result original)\<lparr>Output := patched, Structured := Some patched\<rparr>\<rparr>"
    using run False found reps by (auto split: if_splits option.splits)
  have d: "distinct ?names" and filters: "\<forall>fd \<in> set (rb_Fields b). rtk_validFilter (fd_Filter fd)" using ok by (simp_all add: rtk_binding_ok_def)
  from reduce_fields_edits[OF reps(1) d] obtain f where f: "reps = edits f (?qs found)"
    "\<And>k x. f k = Some x \<Longrightarrow> \<exists>fd \<in> set (rb_Fields b). fd_Name fd = k \<and> rtk_shorter reduce (fd_Filter fd) (sp_value (span_of found k)) x
       \<and> int (length (marshal_string x)) < int (sp_end (span_of found k)) - int (sp_start (span_of found k))" by auto
  have ve: "valid_edit f" unfolding valid_edit_def
  proof (intro allI impI)
    fix k x assume "f k = Some x"
    from f(2)[OF this] show "utf8_valid x" using filters marker_valid unfolding rtk_shorter_def by blast
  qed
  obtain ms where ms: "json_document ?raw = Some (JObj ms)" "unique_tree (JObj ms)" "map fst found = filter (\<lambda>k. k \<in> set ?names) (map fst ms)"
    "\<forall>p \<in> set found. (fst p, JStr (sp_value (snd p))) \<in> set ms"
    "inside 0 (edits f found) (length ?raw)" "json_document (write_replacements ?raw 0 (edits f found)) = Some (JObj (map (patch_member ?names f) ms))"
    by (rule scanObjectStrings_spec[OF found]) (use ve in blast)
  have dm: "distinct (map fst ms)" using ms(2) by simp
  note ff = found_fields[OF ms(3) dm reps(3) d]
  have at: "span_of found k = sp" if "(k, sp) \<in> set found" for k sp
  proof -
    have "distinct (map fst found)" unfolding ms(3) using dm by simp
    then show ?thesis using that by (simp add: span_of_def)
  qed
  have "fst r < fst (snd r)" if r: "r \<in> set (edits f found)" for r
  proof -
    obtain k sp x where k: "(k, sp) \<in> set found" "f k = Some x" "r = (sp_start sp, sp_end sp, marshal_string x)"
      using in_edits[OF r] by blast
    then show ?thesis using f(2)[OF k(2)] at[OF k(1)] by auto
  qed
  then have srt: "sort_key fst reps = edits f found" using sorted_edits[OF ms(5) ff(1)] f(1) by simp
  have out: "patched = write_replacements ?raw 0 (edits f found)" using patch_from_write[OF p(1)] srt by simp
  have names: "k \<in> set ?names" if "f k = Some x" for k x using f(2)[OF that] by auto
  have pm: "map (patch_member ?names f) ms = map (\<lambda>(k, v). (k, case f k of None \<Rightarrow> v | Some x \<Rightarrow> JStr x)) ms"
    using names by (auto simp: patch_member_def split: option.splits)
  have rep: "\<exists>fd \<in> set (rb_Fields b). \<exists>v. fd_Name fd = k \<and> (k, JStr v) \<in> set ms \<and> rtk_shorter reduce (fd_Filter fd) v x" if "f k = Some x" for k x
  proof -
    from f(2)[OF that] obtain fd where fd: "fd \<in> set (rb_Fields b)" "fd_Name fd = k" "rtk_shorter reduce (fd_Filter fd) (sp_value (span_of found k)) x" by blast
    obtain q where q: "q \<in> set found" "fst q = k" using ff(2) fd(1,2) by (metis image_eqI image_iff)
    then have "(k, JStr (sp_value (span_of found k))) \<in> set ms" using ms(4) at[of k "snd q"] by auto
    then show ?thesis using fd by blast
  qed
  have "f \<noteq> Map.empty"
  proof
    assume "f = Map.empty"
    then show False using f(1) reps(2) by (simp add: edits_def)
  qed
  moreover have "length patched < length ?raw" "2 * len patched \<le> rl_MaxResultBytes l"
    using p(2-4) by (simp_all add: len_def boundedCombinedSize_def)
  moreover have "json_document patched = Some (JObj (map (\<lambda>(k, v). (k, case f k of None \<Rightarrow> v | Some x \<Rightarrow> JStr x)) ms))"
    using ms(6) out pm by simp
  ultimately have "\<exists>ms f patched. json_document ?raw = Some (JObj ms) \<and> distinct (map fst ms) \<and> f \<noteq> Map.empty \<and>
          (\<forall>k x. f k = Some x \<longrightarrow> (\<exists>fd \<in> set (rb_Fields b). \<exists>v. fd_Name fd = k \<and> (k, JStr v) \<in> set ms \<and> rtk_shorter reduce (fd_Filter fd) v x)) \<and>
          json_document patched = Some (JObj (map (\<lambda>(k, v). (k, case f k of None \<Rightarrow> v | Some x \<Rightarrow> JStr x)) ms)) \<and>
          length patched < length ?raw \<and> 2 * len patched \<le> rl_MaxResultBytes l \<and>
          tr_Result out = (tr_Result original)\<lparr>Output := patched, Structured := Some patched\<rparr>"
    using ms(1) dm rep p(5) by (intro exI[of _ ms] exI[of _ f] exI[of _ patched]) simp
  then show ?thesis using mode mirror p(5) unfolding rtk_result_spec_def by simp
qed


subsection \<open>The handler\<close>

text \<open>What the handler decides before it asks for a lease.\<close>

definition rtk_selected :: "rtk_Binding \<Rightarrow> ToolResultTransform \<Rightarrow> bool" where
  "rtk_selected b input \<longleftrightarrow> rb_ToolName b = tr_ToolName input \<and> permission_status (tr_Result input) = [] \<and>
     (\<forall>m. rb_MatchInput b = Some m \<longrightarrow>
        (\<exists>ms v. json_document (tr_Input input) = Some (JObj ms) \<and> distinct (map fst ms) \<and> (im_Field m, JStr v) \<in> set ms \<and> v \<in> set (im_Equals m)))"

lemma rtk_transform_cases:
  assumes "rtk_transform l bindings acquire c input = ((out, n), c')"
  obtains (kept) "out = input" "n \<le> 1"
  | (reduced) b reduce c1 c2 where "bindings (tr_ToolName input) = Some b" "permission_status (tr_Result input) = []"
      "\<And>m. rb_MatchInput b = Some m \<Longrightarrow> matchesInput l (tr_Input input) m" "acquire c1 = (Some reduce, c2)" "n = 1"
      "rb_Mode b = TextOnly \<and> transformText l input b reduce = Some out \<or> rb_Mode b = JSONMirror \<and> transformJSON l input b reduce = Some out"
proof (cases "out = input \<and> n \<le> 1")
  case False
  note run = assms[unfolded rtk_transform_def Let_def]
  obtain b where b: "bindings (tr_ToolName input) = Some b" using run False by (cases "bindings (tr_ToolName input)") auto
  obtain e1 c1 where e1: "ctx_Err c = (e1, c1)" by (metis surj_pair)
  obtain a c2 where a: "acquire c1 = (a, c2)" by (metis surj_pair)
  obtain e2 c3 where e2: "ctx_Err c2 = (e2, c3)" by (metis surj_pair)
  have live: "\<not> e1" using run b e1 False by (cases e1) auto
  have pre: "permission_status (tr_Result input) = []" "\<And>m. rb_MatchInput b = Some m \<Longrightarrow> matchesInput l (tr_Input input) m"
    using run b e1 live False by (auto split: if_splits option.splits)
  have nm: "\<not> (case rb_MatchInput b of None \<Rightarrow> False | Some match \<Rightarrow> \<not> matchesInput l (tr_Input input) match)"
    using pre(2) by (auto split: option.splits)
  obtain reduce where r: "a = Some reduce" using run b e1 live pre(1) nm a False by (cases a) auto
  have live2: "\<not> e2" using run b e1 live pre(1) nm a r e2 False by (cases e2) auto
  have tail: "rb_Mode b = TextOnly \<and> transformText l input b reduce = Some out \<or> rb_Mode b = JSONMirror \<and> transformJSON l input b reduce = Some out"
    "n = 1" using run b e1 live pre(1) nm a r e2 live2 False by (auto split: if_splits option.splits)
  show thesis by (rule reduced[OF b pre a[unfolded r] tail(2,1)])
qed blast

text \<open>
  C3: with a configuration that \<open>canonicalize\<close> accepted, whatever the reducer process does, the handler
  either gives the tool result back as it was, or it held a lease that it released exactly once, a
  binding the host wrote names the tool and, if it has an input match, the tool's input is a JSON
  object without duplicate keys whose field holds one of the listed strings, and the result is a
  permitted reduction: a text-only output, or configured top-level strings of a mirrored JSON object,
  replaced by strictly shorter marked reductions with every other member kept.
\<close>

theorem rtk_transform_refines:
  assumes "rtk_canonicalize g vs vi opts = Inr co"
    and "rtk_transform (co_limits co) (newTransformer (co_bindings co)) acquire c input = ((out, n), c')"
  shows "out = input \<and> n \<le> 1 \<or>
    (\<exists>b \<in> set (ro_Bindings opts). \<exists>reduce c1 c2. rtk_selected b input \<and> acquire c1 = (Some reduce, c2) \<and> n = 1 \<and>
       out = input\<lparr>tr_Result := tr_Result out\<rparr> \<and> rtk_result_spec (co_limits co) b reduce (tr_Result input) (tr_Result out))"
  using assms(2)
proof (cases rule: rtk_transform_cases)
  case (reduced b reduce c1 c2)
  have b: "b \<in> set (co_bindings co)" "rb_ToolName b = tr_ToolName input" using reduced(1) map_of_SomeD[OF reduced(1)[unfolded newTransformer_def]] by auto
  obtain b0 where b0: "b0 \<in> set (ro_Bindings opts)" "b = rtk_copy_binding b0" "rtk_binding_ok (co_limits co) b"
    by (rule rtk_canonical_binding[OF assms(1) b(1)])
  have "\<exists>ms v. json_document (tr_Input input) = Some (JObj ms) \<and> distinct (map fst ms) \<and> (im_Field m, JStr v) \<in> set ms \<and> v \<in> set (im_Equals m)"
    if m: "rb_MatchInput b0 = Some m" for m
  proof -
    let ?m = "\<lparr>im_Field = im_Field m, im_Equals = sort (im_Equals m)\<rparr>"
    have bm: "rb_MatchInput b = Some ?m" using m b0(2) by (simp add: rtk_copy_binding_def)
    from matchesInput_selected[OF _ reduced(3)[OF bm]] show ?thesis by simp blast
  qed
  then have "rtk_selected b0 input" using b(2) b0(2) reduced(2) by (simp add: rtk_selected_def rtk_copy_binding_def)
  moreover have "rtk_result_spec (co_limits co) b reduce (tr_Result input) (tr_Result out) \<and> out = input\<lparr>tr_Result := tr_Result out\<rparr>"
    using reduced(6) transformText_spec transformJSON_spec[OF _ _ b0(3)] by blast
  moreover have "rtk_result_spec (co_limits co) b reduce r r' = rtk_result_spec (co_limits co) b0 reduce r r'" for r r'
  proof -
    have "mset (rb_Fields b) = mset (rb_Fields b0)" "rb_Mode b = rb_Mode b0" using b0(2) by (simp_all add: rtk_copy_binding_def)
    then have "rb_Fields b = [fd] \<longleftrightarrow> rb_Fields b0 = [fd]" "set (rb_Fields b) = set (rb_Fields b0)" "rb_Mode b = rb_Mode b0" for fd
      by (auto dest: mset_eq_setD)
    then show ?thesis by (simp add: rtk_result_spec_def)
  qed
  ultimately show ?thesis using b0(1) reduced(4,5) by blast
qed simp


definition rtk_demo_limits :: rtk_Limits where
  "rtk_demo_limits = \<lparr>rl_MaxBindings = 4, rl_MaxFieldsPerBinding = 4, rl_MaxInputMatches = 4, rl_MaxConfigBytes = 1024, rl_MaxInputBytes = 1024,
     rl_MaxResultBytes = 4096, rl_MaxFieldBytes = 1024, rl_MaxJSONDepth = 8, rl_MaxJSONNodes = 64, rl_MaxConcurrent = 2,
     rl_MaxStdoutBytes = 1024, rl_MaxStderrBytes = 1024, rl_Timeout = 1000000000, rl_KillWait = 1000000000\<rparr>"

definition rtk_demo_binding :: rtk_Binding where
  "rtk_demo_binding = \<lparr>rb_ToolName = ''sh'', rb_Mode = TextOnly, rb_MatchInput = None, rb_Fields = [\<lparr>fd_Name = [], fd_Filter = GoTest\<rparr>]\<rparr>"

definition rtk_demo_options :: "nat rtk_Options" where
  "rtk_demo_options = \<lparr>ro_Scope = None, ro_Order = 0, ro_ExecutablePath = ''/r'', ro_ExecutableSHA256 = replicate 64 (CHR ''0''),
     ro_TempRoot = ''/t'', ro_Bindings = [rtk_demo_binding], ro_Limits = rtk_demo_limits\<rparr>"

definition rtk_demo_canonical :: "nat rtk_canonicalOptions" where
  "rtk_demo_canonical = \<lparr>co_scope = 0, co_order = 1000, co_executablePath = ''/r'', co_executableSHA256 = replicate 64 (CHR ''0''),
     co_tempRoot = ''/t'', co_bindings = [rtk_demo_binding], co_limits = rtk_demo_limits\<rparr>"

definition rtk_demo_input :: ToolResultTransform where
  "rtk_demo_input = \<lparr>tr_ToolName = ''sh'', tr_Input = [],
     tr_Result = \<lparr>Output = replicate 80 (CHR ''x''), Structured = None, Metadata = None, Attachments = None\<rparr>\<rparr>"

lemma rtk_demo_canonicalize: "rtk_canonicalize 0 (\<lambda>s. True) (\<lambda>n. True) rtk_demo_options = Inr rtk_demo_canonical"
proof -
  have "rtk_digest_ok (replicate 64 (CHR ''0''))" by (simp add: rtk_digest_ok_def ascii_lower_def hex_digit_def list_all_iff)
  moreover have "rtk_validatePathSyntax [CHR ''/'', c] code = None" if "c = CHR ''r'' \<or> c = CHR ''t''" for c code
    using that by (auto simp: rtk_validatePathSyntax_def len_def utf8_eval ContainsByte_def Clean_def IsAbs_def HasPrefix_def)
  moreover have "rtk_validateLimits rtk_demo_limits = None" by (simp add: rtk_validateLimits_def rtk_demo_limits_def rtk_minute_def MaxInt64_def)
  ultimately show ?thesis
    by (simp add: rtk_canonicalize_def rtk_demo_options_def rtk_demo_canonical_def rtk_DefaultOrder_def LateOrder_def len_def Let_def
        rtk_validateRawConfigSize_def rtk_raw_sizes_def rtk_demo_binding_def rtk_check_binding_def TextOnly_def JSONMirror_def
        rtk_validFilter_def GoTest_def rtk_copy_binding_def) (simp add: rtk_demo_limits_def)
qed

theorem rtk_transform_refines_witness:
  "\<exists>out. rtk_transform (co_limits rtk_demo_canonical) (newTransformer (co_bindings rtk_demo_canonical)) (\<lambda>c. (Some (\<lambda>n f v. Reduced ''ok''), c))
       None rtk_demo_input = ((out, 1), None) \<and>
     Output (tr_Result out) = reductionMarker GoTest 80 @ ''ok'' \<and> rtk_selected rtk_demo_binding rtk_demo_input"
proof -
  let ?acq = "\<lambda>c :: ctx. (Some (\<lambda>(n :: nat) (f :: string) (v :: string). Reduced ''ok''), c)"
  have dig: "length (nat_digits 80) = 2" by (simp add: nat_digits.simps)
  have len80: "length (reductionMarker GoTest 80 @ ''ok'') < 80" by (simp add: reductionMarker_def GoTest_def int_lit_def dig)
  have u: "utf8_valid (replicate 80 (CHR ''x''))" "utf8_valid ''ok''" by (auto intro!: utf8_valid_all_ascii simp: list_all_iff)
  have ne: "''ok'' \<noteq> replicate 80 (CHR ''x'')" by (rule notI, drule arg_cong[of _ _ length]) simp
  define out where "out = rtk_demo_input\<lparr>tr_Result := (tr_Result rtk_demo_input)\<lparr>Output := reductionMarker GoTest 80 @ ''ok''\<rparr>\<rparr>"
  have t: "transformText rtk_demo_limits rtk_demo_input rtk_demo_binding (\<lambda>n f v. Reduced ''ok'') = Some out"
    using len80 u ne by (auto simp: transformText_def rtk_demo_input_def structured_bytes_def rtk_demo_binding_def len_def rtk_demo_limits_def
        ContainsByte_def boundedCombinedSize_def out_def Let_def)
  have run: "rtk_transform (co_limits rtk_demo_canonical) (newTransformer (co_bindings rtk_demo_canonical)) ?acq None rtk_demo_input = ((out, 1), None)"
    using t by (simp add: rtk_transform_def rtk_demo_canonical_def newTransformer_def rtk_demo_input_def rtk_demo_binding_def
        permission_status_def structured_bytes_def boundedCombinedSize_def len_def rtk_demo_limits_def)
  have "length (Output (tr_Result out)) < length (Output (tr_Result rtk_demo_input))" using len80 by (simp add: out_def rtk_demo_input_def)
  then have "out \<noteq> rtk_demo_input" by auto
  then have "rtk_selected rtk_demo_binding rtk_demo_input"
    using rtk_transform_refines[OF rtk_demo_canonicalize run] by (simp add: rtk_demo_options_def)
  then show ?thesis using run by (intro exI[of _ out]) (simp add: out_def)
qed

end
