(* ===== verification/Rtk_Mount.thy ===== *)
theory Rtk_Mount
  imports Rtk_Process Rtk_Transform
begin

section \<open>rtkreducer: mounting\<close>

text \<open>
  mount.go of rtkreducer: the bounded copy that hashes the executable, the checks on the executable and
  the temporary root, and the order of \<open>Mount\<close> up to the registration. What the file system answers is
  an argument; SHA-256, \<open>configHash\<close> (a digest of the policy's JSON) and \<open>extension.ValidateComponent\<close>
  are functions the theorems quantify over. Every error is the code that \<open>mountError\<close> formats, or
  that of the configuration.
\<close>

datatype copy_error = CtxEnded | TooLarge | CopyReadFailed | InvalidBound

text \<open>
  One call of \<open>Read\<close>: how many bytes it delivers at most, whether it reports the end of the file and
  whether it reports another error. The context is polled before each call.
\<close>

record read_call =
  rc_bytes :: nat
  rc_eof :: bool
  rc_err :: bool

text \<open>
  The loop of \<open>copyContext\<close> with what is written so far and what the reader has left; \<open>None\<close> when the
  listed calls are used up.
\<close>

fun copy_loop :: "int \<Rightarrow> ctx \<Rightarrow> int \<Rightarrow> bytes \<Rightarrow> bytes \<Rightarrow> read_call list \<Rightarrow> ((int \<times> copy_error option) \<times> bytes) option" where
  "copy_loop m c tot written left [] = None"
| "copy_loop m c tot written left (r # rs) =
     (case ctx_Err c of
        (True, c) \<Rightarrow> Some ((tot, Some CtxEnded), written)
      | (False, c) \<Rightarrow>
          let remaining = m - tot;
              readSize = (if remaining < 32768 - 1 then remaining + 1 else 32768);
              chunk = take (min (rc_bytes r) (nat readSize)) left;
              left = drop (length chunk) left in
          if chunk \<noteq> [] \<and> len chunk > remaining then Some ((tot, Some TooLarge), written)
          else let written = written @ chunk; tot = tot + len chunk in
            if chunk \<noteq> [] \<and> tot > m then Some ((tot, Some TooLarge), written)
            else if rc_eof r then Some ((tot, None), written)
            else if rc_err r then Some ((tot, Some CopyReadFailed), written)
            else copy_loop m c tot written left rs)"

definition copyContext :: "ctx \<Rightarrow> int \<Rightarrow> bytes \<Rightarrow> read_call list \<Rightarrow> ((int \<times> copy_error option) \<times> bytes) option" where
  "copyContext c m content reads = (if m \<le> 0 then Some ((0, Some InvalidBound), []) else copy_loop m c 0 [] content reads)"

text \<open>A reader reports the end of the file only once everything has been delivered.\<close>

fun eof_at_end :: "int \<Rightarrow> int \<Rightarrow> bytes \<Rightarrow> read_call list \<Rightarrow> bool" where
  "eof_at_end m tot left [] = True"
| "eof_at_end m tot left (r # rs) =
     (let readSize = (if m - tot < 32768 - 1 then m - tot + 1 else 32768);
          n = length (take (min (rc_bytes r) (nat readSize)) left) in
      (rc_eof r \<longrightarrow> drop n left = []) \<and> eof_at_end m (tot + int n) (drop n left) rs)"

definition maxExecutableBytes :: int where
  "maxExecutableBytes = 128 * 2 ^ 20"

record executable_facts =
  xf_EvalSymlinks :: "string option"
  xf_Abs :: "string option"
  xf_Stat :: "(bool \<times> int \<times> nat) option"
  xf_Open :: bool
  xf_content :: bytes
  xf_reads :: "read_call list"

text \<open>\<open>Stat\<close> gives whether the file is regular, its size and its permission bits. \<open>None\<close>: still reading.\<close>

definition verifyExecutable :: "(bytes \<Rightarrow> string) \<Rightarrow> ctx \<Rightarrow> executable_facts \<Rightarrow> string \<Rightarrow> (string + string) option" where
  "verifyExecutable sha256 c x expected =
     (case xf_EvalSymlinks x of
        None \<Rightarrow> Some (Inl ''executable-path'')
      | Some _ \<Rightarrow>
          (case xf_Abs x of
             None \<Rightarrow> Some (Inl ''executable-path'')
           | Some resolved \<Rightarrow>
               if len resolved > 4096 then Some (Inl ''executable-path'')
               else (case xf_Stat x of
                       None \<Rightarrow> Some (Inl ''executable-file'')
                     | Some (regular, filesize, perm) \<Rightarrow>
                         if \<not> regular \<or> filesize > maxExecutableBytes then Some (Inl ''executable-file'')
                         else if and perm 0x49 = 0 then Some (Inl ''executable-permission'')
                         else if \<not> xf_Open x then Some (Inl ''executable-read'')
                         else (case copyContext c maxExecutableBytes (xf_content x) (xf_reads x) of
                                 None \<Rightarrow> None
                               | Some ((_, Some e), _) \<Rightarrow> Some (Inl ''executable-read'')
                               | Some ((_, None), hashed) \<Rightarrow>
                                   if sha256 hashed \<noteq> expected then Some (Inl ''executable-digest-mismatch'')
                                   else Some (Inr resolved)))))"

record temp_facts =
  tf_EvalSymlinks :: "string option"
  tf_Stat :: "(bool \<times> nat \<times> bool) option"

definition validateTempRoot :: "temp_facts \<Rightarrow> string \<Rightarrow> string option" where
  "validateTempRoot t path =
     (case tf_EvalSymlinks t of
        None \<Rightarrow> Some ''temp-root''
      | Some resolved \<Rightarrow>
          if resolved \<noteq> Clean path then Some ''temp-root''
          else (case tf_Stat t of
                  None \<Rightarrow> Some ''temp-root''
                | Some (dir, perm, controlled) \<Rightarrow>
                    if \<not> dir \<or> and perm 0x12 \<noteq> 0 \<or> \<not> controlled then Some ''temp-root'' else None))"

record component_identity =
  ci_native :: bool
  ci_ConfigHash :: string

definition rtk_Mount ::
  "(bytes \<Rightarrow> string) \<Rightarrow> ('scope rtk_canonicalOptions \<Rightarrow> string + string) \<Rightarrow> (component_identity \<Rightarrow> bool) \<Rightarrow> 'scope \<Rightarrow> ('scope \<Rightarrow> bool) \<Rightarrow> (string \<Rightarrow> bool)
   \<Rightarrow> bool \<Rightarrow> bool \<Rightarrow> temp_facts \<Rightarrow> executable_facts \<Rightarrow> ctx \<Rightarrow> component_identity \<Rightarrow> 'scope rtk_Options
   \<Rightarrow> (string + 'scope rtk_canonicalOptions \<times> component_identity) option" where
  "rtk_Mount sha256 configHash ValidateComponent GlobalScope ValidateScope ValidateIdentifier registry platformSupported t x c component opts =
     (if \<not> registry then Some (Inl ''registry-required'')
      else case rtk_canonicalize GlobalScope ValidateScope ValidateIdentifier opts of
        Inl e \<Rightarrow> Some (Inl e)
      | Inr canonical \<Rightarrow>
          if \<not> platformSupported then Some (Inl ''unsupported-platform'')
          else case validateTempRoot t (co_tempRoot canonical) of Some e \<Rightarrow> Some (Inl e) | None \<Rightarrow>
          case verifyExecutable sha256 c x (co_executableSHA256 canonical) of None \<Rightarrow> None | Some (Inl e) \<Rightarrow> Some (Inl e) | Some (Inr resolved) \<Rightarrow>
          let canonical = canonical\<lparr>co_executablePath := resolved\<rparr> in
          case configHash canonical of Inl e \<Rightarrow> Some (Inl e) | Inr hash \<Rightarrow>
          if \<not> ci_native component then Some (Inl ''native-component-required'')
          else if ci_ConfigHash component \<noteq> [] \<and> ci_ConfigHash component \<noteq> hash then Some (Inl ''config-hash-mismatch'')
          else let component = component\<lparr>ci_ConfigHash := hash\<rparr> in
            if \<not> ValidateComponent component then Some (Inl ''component-identity'')
            else Some (Inr (canonical, component)))"

subsection \<open>The verified executable\<close>

lemma copy_loop_all:
  assumes "copy_loop m c tot written left reads = Some ((n, None), out)" "eof_at_end m tot left reads" "tot \<le> m"
  shows "out = written @ left \<and> tot + len left \<le> m \<and> n = tot + len left"
  using assms
proof (induction reads arbitrary: c tot written left)
  case (Cons r rs)
  define chunk where "chunk = take (min (rc_bytes r) (nat (if m - tot < 32768 - 1 then m - tot + 1 else 32768))) left"
  obtain b c1 where c: "ctx_Err c = (b, c1)" by (metis surj_pair)
  have b: "\<not> b" using Cons.prems(1) c by (cases b) simp_all
  have run: "(if chunk \<noteq> [] \<and> len chunk > m - tot then Some ((tot, Some TooLarge), written)
      else if chunk \<noteq> [] \<and> tot + len chunk > m then Some ((tot + len chunk, Some TooLarge), written @ chunk)
      else if rc_eof r then Some ((tot + len chunk, None), written @ chunk)
      else if rc_err r then Some ((tot + len chunk, Some CopyReadFailed), written @ chunk)
      else copy_loop m c1 (tot + len chunk) (written @ chunk) (drop (length chunk) left) rs) = Some ((n, None), out)"
    using Cons.prems(1) b unfolding copy_loop.simps c Let_def chunk_def[symmetric] by (simp split del: if_split)
  have fits: "tot + len chunk \<le> m" using run Cons.prems(3) by (cases "chunk = []") (auto simp: len_def split: if_splits)
  have eof: "rc_eof r \<longrightarrow> drop (length chunk) left = []" "eof_at_end m (tot + len chunk) (drop (length chunk) left) rs"
    using Cons.prems(2) unfolding chunk_def by (simp_all add: Let_def len_def)
  have whole: "left = chunk @ drop (length chunk) left" unfolding chunk_def by (simp add: min_def)
  then have sum: "len left = len chunk + len (drop (length chunk) left)" unfolding len_def by (metis length_append of_nat_add)
  show ?case
  proof (cases "rc_eof r")
    case True
    then show ?thesis using run fits eof(1) whole sum by (auto simp: len_def split: if_splits)
  next
    case False
    then have "copy_loop m c1 (tot + len chunk) (written @ chunk) (drop (length chunk) left) rs = Some ((n, None), out)"
      using run fits by (auto split: if_splits)
    from Cons.IH[OF this eof(2) fits] show ?thesis using whole sum by (metis add.assoc append.assoc)
  qed
qed simp

text \<open>
  C33: when \<open>Mount\<close> succeeds, the options were accepted by \<open>canonicalize\<close>, the file at the resolved path is
  at most 128 MiB and the digest of all of its bytes is the one the host pinned, the temporary root
  is not writable by others, and the component carries the hash of exactly the policy that is
  mounted.
\<close>

theorem rtk_mount_verified:
  assumes "rtk_Mount sha256 configHash ValidateComponent g vs vi registry platformSupported t x c component opts = Some (Inr (co, ci))"
    and "eof_at_end maxExecutableBytes 0 (xf_content x) (xf_reads x)"
  shows "\<exists>co0 resolved. rtk_canonicalize g vs vi opts = Inr co0 \<and> co = co0\<lparr>co_executablePath := resolved\<rparr> \<and> xf_Abs x = Some resolved \<and>
    sha256 (xf_content x) = ro_ExecutableSHA256 opts \<and> len (xf_content x) \<le> maxExecutableBytes \<and>
    (\<exists>perm. tf_Stat t = Some (True, perm, True) \<and> and perm 0x12 = 0) \<and>
    configHash co = Inr (ci_ConfigHash ci) \<and> (ci_ConfigHash component = [] \<or> ci_ConfigHash component = ci_ConfigHash ci) \<and> ci_native ci"
proof -
  note run = assms(1)[unfolded rtk_Mount_def Let_def]
  obtain co0 where co0: "rtk_canonicalize g vs vi opts = Inr co0" using run by (auto split: if_splits sum.splits)
  have t: "validateTempRoot t (co_tempRoot co0) = None" using run co0 by (auto split: if_splits option.splits)
  obtain resolved where v: "verifyExecutable sha256 c x (co_executableSHA256 co0) = Some (Inr resolved)"
    using run co0 t by (auto split: if_splits option.splits sum.splits)
  have m: "co = co0\<lparr>co_executablePath := resolved\<rparr>" "configHash co = Inr (ci_ConfigHash ci)" "ci_native ci"
    "ci_ConfigHash component = [] \<or> ci_ConfigHash component = ci_ConfigHash ci"
    using run co0 t v by (auto split: if_splits sum.splits)
  have digest: "co_executableSHA256 co0 = ro_ExecutableSHA256 opts"
    using co0 by (auto simp: rtk_canonicalize_def Let_def split: if_splits option.splits)
  obtain n hashed where h: "copyContext c maxExecutableBytes (xf_content x) (xf_reads x) = Some ((n, None), hashed)"
    "sha256 hashed = co_executableSHA256 co0" "xf_Abs x = Some resolved"
    using v by (auto simp: verifyExecutable_def split: option.splits if_splits prod.splits)
  have "copy_loop maxExecutableBytes c 0 [] (xf_content x) (xf_reads x) = Some ((n, None), hashed)"
    using h(1) by (simp add: copyContext_def maxExecutableBytes_def)
  from copy_loop_all[OF this assms(2)] have "hashed = xf_content x" "len (xf_content x) \<le> maxExecutableBytes" by (simp_all add: maxExecutableBytes_def)
  moreover have "\<exists>perm. tf_Stat t = Some (True, perm, True) \<and> and perm 0x12 = 0"
    using t by (auto simp: validateTempRoot_def split: option.splits if_splits prod.splits)
  ultimately show ?thesis using co0 m h digest by auto
qed


definition mount_demo_exe :: executable_facts where
  "mount_demo_exe = \<lparr>xf_EvalSymlinks = Some ''/r'', xf_Abs = Some ''/r'', xf_Stat = Some (True, 3, 0x1FF), xf_Open = True, xf_content = ''bin'',
     xf_reads = [\<lparr>rc_bytes = 2, rc_eof = False, rc_err = False\<rparr>, \<lparr>rc_bytes = 9, rc_eof = True, rc_err = False\<rparr>]\<rparr>"

definition mount_demo_sha :: "bytes \<Rightarrow> string" where
  "mount_demo_sha b = (if b = ''bin'' then replicate 64 (CHR ''0'') else [])"

theorem rtk_mount_verified_witness:
  "\<exists>co. rtk_Mount mount_demo_sha (\<lambda>co. Inr ''hash'') (\<lambda>ci. True) 0 (\<lambda>s. True) (\<lambda>n. True) True True
       \<lparr>tf_EvalSymlinks = Some ''/t'', tf_Stat = Some (True, 0x1C0, True)\<rparr> mount_demo_exe None \<lparr>ci_native = True, ci_ConfigHash = []\<rparr> rtk_demo_options =
       Some (Inr (co, \<lparr>ci_native = True, ci_ConfigHash = ''hash''\<rparr>)) \<and> mount_demo_sha (xf_content mount_demo_exe) = ro_ExecutableSHA256 rtk_demo_options"
proof -
  have copy: "copyContext None maxExecutableBytes ''bin'' (xf_reads mount_demo_exe) = Some ((3, None), ''bin'')"
    by (simp add: copyContext_def maxExecutableBytes_def mount_demo_exe_def len_def)
  have v: "verifyExecutable mount_demo_sha None mount_demo_exe (replicate 64 (CHR ''0'')) = Some (Inr ''/r'')"
  proof -
    have "and (0x1FF :: nat) 0x49 \<noteq> 0" by code_simp
    then show ?thesis using copy by (simp add: verifyExecutable_def mount_demo_exe_def len_def maxExecutableBytes_def mount_demo_sha_def)
  qed
  have t: "validateTempRoot \<lparr>tf_EvalSymlinks = Some ''/t'', tf_Stat = Some (True, 0x1C0, True)\<rparr> ''/t'' = None"
  proof -
    have "and (0x1C0 :: nat) 0x12 = 0" by code_simp
    then show ?thesis by (simp add: validateTempRoot_def Clean_def IsAbs_def HasPrefix_def)
  qed
  have run: "rtk_Mount mount_demo_sha (\<lambda>co. Inr ''hash'') (\<lambda>ci. True) 0 (\<lambda>s. True) (\<lambda>n. True) True True
       \<lparr>tf_EvalSymlinks = Some ''/t'', tf_Stat = Some (True, 0x1C0, True)\<rparr> mount_demo_exe None \<lparr>ci_native = True, ci_ConfigHash = []\<rparr> rtk_demo_options =
       Some (Inr (rtk_demo_canonical\<lparr>co_executablePath := ''/r''\<rparr>, \<lparr>ci_native = True, ci_ConfigHash = ''hash''\<rparr>))"
    using v t by (simp add: rtk_Mount_def rtk_demo_canonicalize Let_def) (simp add: rtk_demo_canonical_def)
  have "eof_at_end maxExecutableBytes 0 (xf_content mount_demo_exe) (xf_reads mount_demo_exe)"
    by (simp add: mount_demo_exe_def maxExecutableBytes_def)
  from rtk_mount_verified[OF run this] run show ?thesis by blast
qed

end
