(* ===== verification/Guard_Policy.thy ===== *)
theory Guard_Policy
  imports Go_Regexp "HOL-Library.Char_ord" "HOL-Library.List_Lexorder"
begin

section \<open>commandguard: policy, words and wrapper options\<close>

text \<open>
  The parts of commandguard that do not recurse through scripts: the options and their
  canonical form (config.go), the outcomes (errors.go), variable names (variables.go), the
  masking of carriage returns (parser.go), the decoding of a shell word (words.go), the rules
  for builtins (match.go) and the options of the wrapper commands (wrapper_options.go,
  wrappers.go).

  The shell parser is a third-party package: its syntax tree is the datatype \<open>sh_node\<close>, whose
  constructor names are the node types of that package, with the fields commandguard reads and
  the children its \<open>Walk\<close> visits, in that order. The parts of a word and of a double-quoted
  part, and the assignments and arguments of a call, are children. \<open>SplitBraces\<close> is a parameter.
\<close>

subsection \<open>Outcomes\<close>

datatype cg_outcome = abstain | ruleMatch | invalidCommand | unanalysable | analysisLimit | capacity

fun outcome_message :: "cg_outcome \<Rightarrow> string" where
  "outcome_message ruleMatch = ''command policy denied: rule-match''"
| "outcome_message invalidCommand = ''command policy denied: invalid-command''"
| "outcome_message unanalysable = ''command policy denied: unanalysable-command''"
| "outcome_message analysisLimit = ''command policy denied: analysis-limit''"
| "outcome_message capacity = ''command policy denied: capacity''"
| "outcome_message abstain = []"

definition cg_configError :: "string \<Rightarrow> string" where
  "cg_configError cls = ''command policy configuration invalid: '' @ cls"

subsection \<open>Options\<close>

type_synonym Dialect = string

definition DialectPOSIX :: Dialect where
  "DialectPOSIX = ''posix''"

definition DialectBash :: Dialect where
  "DialectBash = ''bash''"

record Binding =
  ToolName :: string
  CommandField :: string
  BindingDialect :: Dialect

definition DefaultBindings :: "Binding list" where
  "DefaultBindings =
     [\<lparr>ToolName = ''shell'', CommandField = ''cmd'', BindingDialect = DialectPOSIX\<rparr>,
      \<lparr>ToolName = ''background_job_start'', CommandField = ''command'', BindingDialect = DialectPOSIX\<rparr>]"

record Rule =
  RuleID :: string
  Executable :: string
  ArgPrefix :: "string list"

record cg_Limits =
  MaxBindings :: int
  MaxRules :: int
  MaxRuleBytes :: int
  MaxPrefixArgs :: int
  MaxRawInputBytes :: int
  MaxJSONDepth :: int
  MaxJSONNodes :: int
  MaxCommandBytes :: int
  MaxAnalysisBytes :: int
  MaxASTNodes :: int
  MaxASTDepth :: int
  MaxWords :: int
  MaxWordBytes :: int
  MaxWrapperDepth :: int
  MaxInFlight :: int

record 'scope cg_Options =
  cg_Scope :: "'scope option"
  cg_Order :: int
  cg_Bindings :: "Binding list option"
  cg_Rules :: "Rule list"
  cg_Limits :: cg_Limits

record 'scope cg_policy =
  pol_scope :: 'scope
  pol_order :: int
  pol_bindings :: "Binding list"
  pol_rules :: "Rule list"
  pol_limits :: cg_Limits

definition validText :: "string \<Rightarrow> bool" where
  "validText s \<longleftrightarrow> utf8_valid s \<and> \<not> ContainsByte s (CHR 0x00)"

definition check_binding :: "(string \<Rightarrow> bool) \<Rightarrow> cg_Limits \<Rightarrow> Binding \<Rightarrow> string option" where
  "check_binding validIdentifier l b0 =
     (let b = (if BindingDialect b0 = [] then b0\<lparr>BindingDialect := DialectPOSIX\<rparr> else b0) in
      if len (ToolName b) > MaxWordBytes l \<or> len (CommandField b) > MaxWordBytes l \<or> len (BindingDialect b) > MaxWordBytes l
      then Some (cg_configError ''binding-size'')
      else if \<not> validIdentifier (ToolName b) \<or> TrimSpace (CommandField b) = [] \<or> \<not> validText (CommandField b)
      then Some (cg_configError ''binding'')
      else if BindingDialect b \<noteq> [] \<and> BindingDialect b \<noteq> DialectPOSIX \<and> BindingDialect b \<noteq> DialectBash
      then Some (cg_configError ''dialect'')
      else None)"

fun check_prefix :: "cg_Limits \<Rightarrow> int \<Rightarrow> string list \<Rightarrow> string option" where
  "check_prefix l remaining [] = None"
| "check_prefix l remaining (s # ss) =
     (if len s > remaining \<or> len s > MaxWordBytes l then Some (cg_configError ''rule-size'')
      else if \<not> validText s then Some (cg_configError ''rule-token'')
      else check_prefix l (remaining - len s) ss)"

definition check_rule :: "(string \<Rightarrow> bool) \<Rightarrow> cg_Limits \<Rightarrow> Rule \<Rightarrow> string option" where
  "check_rule validIdentifier l r =
     (let remaining = MaxRuleBytes l in
      if len (ArgPrefix r) > MaxPrefixArgs l then Some (cg_configError ''rule-size'')
      else if len (RuleID r) > remaining then Some (cg_configError ''rule-size'')
      else let remaining = remaining - len (RuleID r) in
      if len (Executable r) > remaining then Some (cg_configError ''rule-size'')
      else let remaining = remaining - len (Executable r) in
      case check_prefix l remaining (ArgPrefix r) of
        Some e \<Rightarrow> Some e
      | None \<Rightarrow>
          if \<not> validIdentifier (RuleID r) \<or> \<not> validText (Executable r) \<or> len (Executable r) > MaxWordBytes l
             \<or> Executable r = [] \<or> Executable r = ''.'' \<or> Executable r = ''..'' \<or> ContainsAny (Executable r) [CHR ''/'', CHR 0x5C]
          then Some (cg_configError ''rule'') else None)"

fun adjacent_equal :: "('a \<Rightarrow> string) \<Rightarrow> 'a list \<Rightarrow> bool" where
  "adjacent_equal k (x # y # xs) = (k x = k y \<or> adjacent_equal k (y # xs))"
| "adjacent_equal k _ = False"

text \<open>
  \<open>sort.Slice\<close> is not stable; the keys of an accepted policy are distinct, so the sorted slice is
  determined, and with equal keys the sorted slice is refused whatever their order.
\<close>

definition cg_canonicalize ::
  "'scope \<Rightarrow> int \<Rightarrow> ('scope \<Rightarrow> bool) \<Rightarrow> (string \<Rightarrow> bool) \<Rightarrow> 'scope cg_Options \<Rightarrow> string + 'scope cg_policy" where
  "cg_canonicalize GlobalScope OrderHostPolicy validScope validIdentifier opts =
     (let scope = (case cg_Scope opts of None \<Rightarrow> GlobalScope | Some s \<Rightarrow> s);
          order = (if cg_Order opts = 0 then OrderHostPolicy else cg_Order opts);
          l = cg_Limits opts in
      if \<not> validScope scope then Inl (cg_configError ''scope'')
      else if list_ex (\<lambda>n. n \<le> 0)
          [MaxBindings l, MaxRules l, MaxRuleBytes l, MaxPrefixArgs l, MaxRawInputBytes l, MaxJSONDepth l, MaxJSONNodes l,
           MaxCommandBytes l, MaxAnalysisBytes l, MaxASTNodes l, MaxASTDepth l, MaxWords l, MaxWordBytes l, MaxWrapperDepth l,
           MaxInFlight l]
      then Inl (cg_configError ''limits'')
      else if MaxAnalysisBytes l < MaxCommandBytes l then Inl (cg_configError ''limits'')
      else let bindings = (case cg_Bindings opts of None \<Rightarrow> DefaultBindings | Some bs \<Rightarrow> bs) in
      if bindings = [] \<or> len bindings > MaxBindings l \<or> cg_Rules opts = [] \<or> len (cg_Rules opts) > MaxRules l
      then Inl (cg_configError ''count'')
      else (case first_error (check_binding validIdentifier l) bindings of
              Some e \<Rightarrow> Inl e
            | None \<Rightarrow>
                (case first_error (check_rule validIdentifier l) (cg_Rules opts) of
                   Some e \<Rightarrow> Inl e
                 | None \<Rightarrow>
                     let bs = sort_key ToolName
                           (map (\<lambda>b. if BindingDialect b = [] then b\<lparr>BindingDialect := DialectPOSIX\<rparr> else b) bindings);
                         rs = sort_key RuleID (cg_Rules opts) in
                     if adjacent_equal ToolName bs then Inl (cg_configError ''duplicate-binding'')
                     else if adjacent_equal RuleID rs then Inl (cg_configError ''duplicate-rule'')
                     else Inr \<lparr>pol_scope = scope, pol_order = order, pol_bindings = bs, pol_rules = rs, pol_limits = l\<rparr>)))"

subsection \<open>Variables\<close>

definition opaqueVariableTarget :: "string \<Rightarrow> bool" where
  "opaqueVariableTarget name \<longleftrightarrow> HasPrefix name ''BASH_''
     \<or> List.member [''OPTIND'', ''RANDOM'', ''SRANDOM'', ''SECONDS'', ''HISTCMD'', ''MAILCHECK''] name
     \<or> List.member [''PS0'', ''PS1'', ''PS2'', ''PS3'', ''PS4'', ''PROMPT_COMMAND'', ''ENV''] name"

definition name_start :: "char \<Rightarrow> bool" where
  "name_start c \<longleftrightarrow> c = CHR ''_'' \<or> (byte (CHR ''a'') \<le> byte c \<and> byte c \<le> byte (CHR ''z''))
     \<or> (byte (CHR ''A'') \<le> byte c \<and> byte c \<le> byte (CHR ''Z''))"

definition variableName :: "string \<Rightarrow> bool" where
  "variableName s \<longleftrightarrow> s \<noteq> [] \<and> name_start (hd s) \<and> list_all (\<lambda>c. name_start c \<or> CHR ''0'' \<le> c \<and> c \<le> CHR ''9'') (tl s)"

subsection \<open>Carriage returns\<close>

definition mask_candidates :: "char list" where
  "mask_candidates = [CHR 0x01, CHR 0x02, CHR 0x03, CHR 0x04, CHR 0x05, CHR 0x06, CHR 0x07, CHR 0x08, CHR 0x0E, CHR 0x0F, CHR 0x10, CHR 0x11, CHR 0x12,
     CHR 0x13, CHR 0x14, CHR 0x15, CHR 0x16, CHR 0x17, CHR 0x18, CHR 0x19, CHR 0x1A, CHR 0x1B, CHR 0x1C, CHR 0x1D, CHR 0x1E, CHR 0x1F]"

definition maskCarriageReturns :: "string \<Rightarrow> string \<times> char \<times> cg_outcome" where
  "maskCarriageReturns s =
     (if \<not> ContainsByte s (CHR 0x0D) then (s, CHR 0x00, abstain)
      else (case find (\<lambda>candidate. \<not> ContainsByte s candidate) mask_candidates of
              Some candidate \<Rightarrow> (ReplaceByte s (CHR 0x0D) candidate, candidate, abstain)
            | None \<Rightarrow> ([], CHR 0x00, unanalysable)))"

subsection \<open>The syntax tree\<close>

record sh_assign =
  as_Name :: "string option"
  as_Index :: bool
  as_Array :: bool
  as_Naked :: bool
  as_Append :: bool

record sh_param =
  pe_Param :: bool
  pe_Flags :: bool
  pe_Excl :: bool
  pe_Length :: bool
  pe_Width :: bool
  pe_IsSet :: bool
  pe_Split :: nat
  pe_GlobSubst :: nat
  pe_RcExpand :: nat
  pe_NestedParam :: bool
  pe_Index :: bool
  pe_Modifiers :: nat
  pe_Slice :: bool
  pe_Repl :: bool
  pe_Names :: nat
  pe_Exp :: bool

text \<open>A flag for a pointer or an interface says that it is not nil; \<open>pe_Modifiers\<close> is a length.\<close>

datatype sh_kind =
    File | Stmt | Comment | CallExpr | BinaryCmd | Block | Subshell | IfClause | WhileClause | CaseClause | CaseItem
  | Redirect | Lit string | SglQuoted bool string | DblQuoted bool | CmdSubst | ProcSubst
  | ExtGlob | WordIter "string option" | ForClause bool | Assign sh_assign | ParamExp sh_param | Word
  | OtherNode string

datatype sh_node = Node (kind: sh_kind) (children: "sh_node list")

definition simpleParameter :: "sh_param \<Rightarrow> bool" where
  "simpleParameter p \<longleftrightarrow> pe_Param p \<and> \<not> pe_Flags p \<and> \<not> pe_Excl p \<and> \<not> pe_Length p \<and> \<not> pe_Width p \<and> \<not> pe_IsSet p
     \<and> pe_Split p = 0 \<and> pe_GlobSubst p = 0 \<and> pe_RcExpand p = 0 \<and> \<not> pe_NestedParam p \<and> \<not> pe_Index p \<and> pe_Modifiers p = 0
     \<and> \<not> pe_Slice p \<and> \<not> pe_Repl p \<and> pe_Names p = 0 \<and> \<not> pe_Exp p"

subsection \<open>Words\<close>

record sh_word =
  word_text :: string
  word_known :: bool

definition no_word :: sh_word where
  "no_word = \<lparr>word_text = [], word_known = False\<rparr>"

text \<open>The variables that the closures of \<open>decode\<close> share.\<close>

record decoding =
  dec_text :: string
  dec_known :: bool
  dec_bracket :: int
  dec_ctx :: ctx

definition appendText :: "cg_Limits \<Rightarrow> char \<Rightarrow> string \<Rightarrow> decoding \<Rightarrow> decoding option" where
  "appendText l carriage s d =
     (if len s > MaxWordBytes l - len (dec_text d) then None
      else let s = (if carriage \<noteq> CHR 0x00 then ReplaceByte s carriage (CHR 0x0D) else s) in
        Some (d\<lparr>dec_text := dec_text d @ s\<rparr>))"

definition mark_unquoted :: "char \<Rightarrow> decoding \<Rightarrow> decoding" where
  "mark_unquoted c d =
     (let d = (if List.member ''*?'' c \<or> c = CHR ''~'' \<and> dec_text d = [] then d\<lparr>dec_known := False\<rparr> else d) in
      if c = CHR ''['' \<and> dec_bracket d < 0 then d\<lparr>dec_bracket := len (dec_text d)\<rparr> else d)"

fun decode_lit :: "cg_Limits \<Rightarrow> char \<Rightarrow> bool \<Rightarrow> string \<Rightarrow> decoding \<Rightarrow> cg_outcome \<times> decoding" where
  "decode_lit l carriage quoted [] d = (abstain, d)"
| "decode_lit l carriage quoted (c # cs) d =
     (if c = CHR 0x5C \<and> cs \<noteq> [] then
        (if \<not> quoted \<or> List.member [CHR ''$'', CHR 0x60, CHR 0x22, CHR 0x5C, CHR 0x0A] (hd cs) then
           (if hd cs = CHR 0x0A then decode_lit l carriage quoted (tl cs) d
            else (case appendText l carriage [hd cs] d of
                    None \<Rightarrow> (analysisLimit, d)
                  | Some d \<Rightarrow> decode_lit l carriage quoted (tl cs) d))
         else (case appendText l carriage [c] d of
                 None \<Rightarrow> (analysisLimit, d)
               | Some d \<Rightarrow> decode_lit l carriage quoted cs d))
      else let d = (if \<not> quoted then mark_unquoted c d else d) in
        (case appendText l carriage [c] d of
           None \<Rightarrow> (analysisLimit, d)
         | Some d \<Rightarrow> decode_lit l carriage quoted cs d))"

function decode_parts :: "cg_Limits \<Rightarrow> char \<Rightarrow> bool \<Rightarrow> sh_node list \<Rightarrow> decoding \<Rightarrow> cg_outcome \<times> decoding" where
  "decode_parts l carriage quoted [] d = (abstain, d)"
| "decode_parts l carriage quoted (Node k cs # ps) d =
     (case ctx_Err (dec_ctx d) of
        (True, c) \<Rightarrow> (invalidCommand, d\<lparr>dec_ctx := c\<rparr>)
      | (False, c) \<Rightarrow>
          let d = d\<lparr>dec_ctx := c\<rparr> in
          (case k of
             Lit v \<Rightarrow>
               (case decode_lit l carriage quoted v d of
                  (r, d) \<Rightarrow> if r \<noteq> abstain then (r, d) else decode_parts l carriage quoted ps d)
           | SglQuoted dollar v \<Rightarrow>
               let d = (if dollar then d\<lparr>dec_known := False\<rparr> else d) in
               (case appendText l carriage v d of
                  None \<Rightarrow> (analysisLimit, d)
                | Some d \<Rightarrow> decode_parts l carriage quoted ps d)
           | DblQuoted dollar \<Rightarrow>
               let d = (if dollar then d\<lparr>dec_known := False\<rparr> else d) in
               (case decode_parts l carriage True cs d of
                  (r, d) \<Rightarrow> if r \<noteq> abstain then (r, d) else decode_parts l carriage quoted ps d)
           | _ \<Rightarrow> decode_parts l carriage quoted ps (d\<lparr>dec_known := False\<rparr>)))"
  by pat_completeness auto
termination by (relation "measure (\<lambda>(l, c, q, ns, d). size_list size ns)") auto

definition decode ::
  "(sh_node \<Rightarrow> bool) \<Rightarrow> cg_Limits \<Rightarrow> char \<Rightarrow> ctx \<Rightarrow> sh_node \<Rightarrow> (sh_word \<times> cg_outcome) \<times> ctx" where
  "decode SplitBraces l carriage c w =
     (case decode_parts l carriage False (children w) \<lparr>dec_text = [], dec_known = True, dec_bracket = -1, dec_ctx = c\<rparr> of
        (r, d) \<Rightarrow>
          if r \<noteq> abstain then ((no_word, r), dec_ctx d)
          else let known = (if dec_bracket d \<ge> 0 \<and> ContainsByte (drop (nat (dec_bracket d + 1)) (dec_text d)) (CHR '']'')
                            then False else dec_known d);
                   known = (if SplitBraces w then False else known)
               in ((\<lparr>word_text = dec_text d, word_known = known\<rparr>, abstain), dec_ctx d))"

subsection \<open>Rules and builtins\<close>

text \<open>The comparison of one rule's prefix with the arguments; \<open>Inl\<close> is an argument that is not known.\<close>

fun prefix_match :: "string list \<Rightarrow> sh_word list \<Rightarrow> unit + bool" where
  "prefix_match [] args = Inr True"
| "prefix_match (want # ws) [] = Inr False"
| "prefix_match (want # ws) (arg # args) =
     (if \<not> word_known arg then Inl ()
      else if word_text arg \<noteq> want then Inr False
      else prefix_match ws args)"

fun match_rules :: "Rule list \<Rightarrow> string \<Rightarrow> sh_word list \<Rightarrow> ctx \<Rightarrow> cg_outcome \<times> ctx" where
  "match_rules [] name args c = (abstain, c)"
| "match_rules (r # rs) name args c =
     (case ctx_Err c of
        (True, c) \<Rightarrow> (invalidCommand, c)
      | (False, c) \<Rightarrow>
          if Executable r \<noteq> name then match_rules rs name args c
          else (case prefix_match (ArgPrefix r) args of
                  Inl _ \<Rightarrow> (unanalysable, c)
                | Inr True \<Rightarrow> (ruleMatch, c)
                | Inr False \<Rightarrow> match_rules rs name args c))"

definition opaque_builtins :: "string list" where
  "opaque_builtins = [''eval'', ''.'', ''source'', ''alias'', ''unalias'', ''builtin'', ''enable'', ''trap'', ''fc'', ''history'',
     ''bind'', ''complete'', ''compgen'', ''read'', ''unset'', ''getopts'', ''mapfile'', ''readarray'', ''declare'', ''typeset'',
     ''local'', ''export'', ''readonly'', ''let'']"

definition builtin :: "string \<Rightarrow> sh_word list \<Rightarrow> cg_outcome" where
  "builtin name args =
     (if List.member opaque_builtins name then unanalysable
      else if name = ''printf'' then
        (if args \<noteq> [] \<and> (\<not> word_known (hd args) \<or> HasPrefix (word_text (hd args)) ''-'' \<and> word_text (hd args) \<noteq> ''--'')
         then unanalysable else abstain)
      else if name = ''test'' \<or> name = ''['' then
        (if list_ex (\<lambda>arg. \<not> word_known arg \<or> word_text arg = ''-v'' \<or> word_text arg = ''-R'') args then unanalysable
         else if name = ''['' \<and> (args = [] \<or> word_text (last args) \<noteq> '']'') then unanalysable
         else abstain)
      else abstain)"

subsection \<open>Wrapper options\<close>

text \<open>\<open>^[0-9]+(\.[0-9]+)?[smhd]?$\<close> and \<open>^([0-9]+|[A-Za-z][A-Za-z0-9]*)$\<close>, parsed in single-line mode.\<close>

definition digit_class :: regexp where
  "digit_class = OpCharClass [(0x30, 0x39)]"

definition durationShape :: regexp where
  "durationShape = OpConcat
     [OpBeginText, OpPlus False digit_class,
      OpQuest False (OpCapture (OpConcat [OpLiteral (=) [0x2E], OpPlus False digit_class])),
      OpQuest False (OpCharClass [(0x64, 0x64), (0x68, 0x68), (0x6D, 0x6D), (0x73, 0x73)]), OpEndText]"

definition signalShape :: regexp where
  "signalShape = OpConcat
     [OpBeginText,
      OpCapture (OpAlternate
        [OpPlus False digit_class,
         OpConcat [OpCharClass [(0x41, 0x5A), (0x61, 0x7A)], OpStar False (OpCharClass [(0x30, 0x39), (0x41, 0x5A), (0x61, 0x7A)])]]),
      OpEndText]"

definition MatchString :: "regexp \<Rightarrow> string \<Rightarrow> bool" where
  "MatchString r s \<longleftrightarrow> FindStringIndex r s \<noteq> None"

definition signal :: "string \<Rightarrow> bool" where
  "signal s =
     (if \<not> MatchString signalShape s then False
      else if CHR ''0'' \<le> hd s \<and> hd s \<le> CHR ''9''
      then rev (dropWhile (\<lambda>c. c = CHR ''0'') (rev (dropWhile (\<lambda>c. c = CHR ''0'') s))) \<noteq> []
      else True)"

datatype optionValue = nonempty | variable | duration | signalName | flagOption

definition validOperand :: "string \<Rightarrow> optionValue \<Rightarrow> bool" where
  "validOperand s k =
     (if s = [] then False
      else case k of
        nonempty \<Rightarrow> True
      | variable \<Rightarrow> variableName s
      | duration \<Rightarrow> MatchString durationShape s
      | signalName \<Rightarrow> signal s
      | flagOption \<Rightarrow> False)"

record optionSpec =
  spelling :: string
  spec_kind :: optionValue

definition wrapperOptions :: "string \<Rightarrow> optionSpec list" where
  "wrapperOptions name =
     map (\<lambda>(s, k). \<lparr>spelling = s, spec_kind = k\<rparr>)
       (if name = ''env'' then
          [(''-i'', flagOption), (''--ignore-environment'', flagOption), (''-u'', variable), (''--unset='', variable),
           (''-C'', nonempty), (''--chdir='', nonempty)]
        else if name = ''sudo'' then
          [(''-n'', flagOption), (''-E'', flagOption), (''-H'', flagOption), (''-u'', nonempty), (''--user='', nonempty),
           (''-g'', nonempty), (''--group='', nonempty), (''-D'', nonempty), (''--chdir='', nonempty)]
        else if name = ''timeout'' then
          [(''--foreground'', flagOption), (''--preserve-status'', flagOption), (''-v'', flagOption), (''--verbose'', flagOption),
           (''-s'', signalName), (''--signal='', signalName), (''-k'', duration), (''--kill-after='', duration)]
        else [])"

fun consumeOption :: "sh_word list \<Rightarrow> optionSpec list \<Rightarrow> nat" where
  "consumeOption args [] = 0"
| "consumeOption args (spec # specs) =
     (if HasSuffix (spelling spec) ''='' then
        (case CutPrefix (word_text (hd args)) (spelling spec) of
           Some v \<Rightarrow> if validOperand v (spec_kind spec) then 1 else consumeOption args specs
         | None \<Rightarrow> consumeOption args specs)
      else if word_text (hd args) \<noteq> spelling spec then consumeOption args specs
      else if spec_kind spec = flagOption then 1
      else if length args > 1 \<and> word_known (args ! 1) \<and> validOperand (word_text (args ! 1)) (spec_kind spec) then 2
      else 0)"

function scanOptions :: "ctx \<Rightarrow> sh_word list \<Rightarrow> optionSpec list \<Rightarrow> (cg_outcome + sh_word list) \<times> ctx" where
  "scanOptions c args specs =
     (if args = [] then (Inr args, c)
      else case ctx_Err c of
        (True, c) \<Rightarrow> (Inl invalidCommand, c)
      | (False, c) \<Rightarrow>
          if \<not> word_known (hd args) then (Inl unanalysable, c)
          else if word_text (hd args) = ''--'' then (Inr (tl args), c)
          else if \<not> HasPrefix (word_text (hd args)) ''-'' then (Inr args, c)
          else let consumed = consumeOption args specs in
            if consumed = 0 then (Inl unanalysable, c)
            else scanOptions c (drop consumed args) specs)"
  by pat_completeness auto
termination by (relation "measure (\<lambda>(c, args, specs). length args)") auto

declare scanOptions.simps [simp del]

subsection \<open>Wrapper arguments\<close>

definition builtinCommandPrefix :: "string \<Rightarrow> sh_word list \<Rightarrow> cg_outcome + sh_word list" where
  "builtinCommandPrefix name args0 =
     (let args = (if name = ''command'' \<and> args0 \<noteq> [] \<and> word_known (hd args0) \<and> word_text (hd args0) = ''-p'' then tl args0 else args0) in
      if args \<noteq> [] \<and> word_known (hd args) \<and> word_text (hd args) = ''--'' then Inr (tl args)
      else if args \<noteq> [] \<and> (\<not> word_known (hd args) \<or> HasPrefix (word_text (hd args)) ''-'') then Inl unanalysable
      else Inr args)"

fun assignmentOperands :: "sh_word list \<Rightarrow> cg_outcome + sh_word list" where
  "assignmentOperands [] = Inr []"
| "assignmentOperands (arg # args) =
     (if \<not> word_known arg then Inl unanalysable
      else case Cut (word_text arg) (CHR ''='') of
        None \<Rightarrow> Inr (arg # args)
      | Some (key, _) \<Rightarrow>
          if \<not> variableName key \<or> opaqueVariableTarget key then Inl unanalysable else assignmentOperands args)"

definition wrapperArguments :: "string \<Rightarrow> sh_word list \<Rightarrow> ctx \<Rightarrow> (cg_outcome + sh_word list) \<times> ctx" where
  "wrapperArguments name args c =
     (if name = ''command'' \<or> name = ''exec'' then (builtinCommandPrefix name args, c)
      else case scanOptions c args (wrapperOptions name) of
        (Inl r, c) \<Rightarrow> (Inl r, c)
      | (Inr args, c) \<Rightarrow>
          if name = ''env'' \<or> name = ''sudo'' then
            (case assignmentOperands args of
               Inl r \<Rightarrow> (Inl r, c)
             | Inr args \<Rightarrow>
                 if name = ''sudo'' \<and> args \<noteq> [] \<and> HasPrefix (word_text (hd args)) ''-'' then (Inl unanalysable, c)
                 else (Inr args, c))
          else if name = ''timeout'' then
            (if args = [] \<or> \<not> word_known (hd args) \<or> \<not> MatchString durationShape (word_text (hd args)) then (Inl unanalysable, c)
             else (Inr (tl args), c))
          else (Inr args, c))"

text \<open>The script argument of \<open>sh\<close> and \<open>bash\<close> and its dialect.\<close>

definition shell_flag :: "sh_word \<Rightarrow> bool" where
  "shell_flag w \<longleftrightarrow> word_known w \<and> (word_text w = ''-e'' \<or> word_text w = ''-u'' \<or> word_text w = ''-x'')"

definition shell_script :: "string \<Rightarrow> sh_word list \<Rightarrow> cg_outcome + string \<times> Dialect" where
  "shell_script name args =
     (let i = length (takeWhile shell_flag args) in
      if i \<ge> length args \<or> \<not> word_known (args ! i) \<or> word_text (args ! i) \<noteq> ''-c'' \<and> word_text (args ! i) \<noteq> ''-lc''
      then Inl unanalysable
      else let i = i + 1 in
      if i \<ge> length args \<or> \<not> word_known (args ! i) then Inl unanalysable
      else let script = word_text (args ! i) in
      if HasPrefix script ''-'' \<or> HasPrefix script ''+'' then Inl unanalysable
      else if i + 1 < length args \<and> \<not> word_known (args ! (i + 1)) then Inl unanalysable
      else Inr (script, if name = ''bash'' then DialectBash else DialectPOSIX))"

end
