(* ===== verification/Guard.thy ===== *)
theory Guard
  imports Guard_Policy
begin

section \<open>commandguard: the analysis of scripts\<close>

text \<open>
  parser.go, syntax_policy.go, match.go and wrappers.go. The analysis is a record passed through
  every call: the context, the counters and the map of decoded words. A pointer to a word is
  the number of the parse that built the tree and the path of the word in that tree. An outcome
  of \<open>None\<close> is the panic of an unexpected parser failure.

  The parser is a parameter: it reads the masked text through \<open>contextReader\<close>, which polls the
  context, so it takes a context and returns the context after the reads.
\<close>

datatype parse_result = Parsed "sh_node option" | ParseError | LangError | ReadError

record 'scope guard =
  g_policy :: "'scope cg_policy"
  g_parse :: "string \<Rightarrow> Dialect \<Rightarrow> ctx \<Rightarrow> parse_result \<times> ctx"
  g_split :: "sh_node \<Rightarrow> bool"

abbreviation g_limits :: "'scope guard \<Rightarrow> cg_Limits" where
  "g_limits g \<equiv> pol_limits (g_policy g)"

record analysis =
  a_ctx :: ctx
  a_bytes :: int
  a_nodes :: int
  a_words :: int
  a_decoded :: "((nat \<times> nat list) \<times> sh_word) list"
  a_parses :: nat

type_synonym step = "cg_outcome option \<times> analysis"

definition a_poll :: "analysis \<Rightarrow> bool \<times> analysis" where
  "a_poll a = (case ctx_Err (a_ctx a) of (e, c) \<Rightarrow> (e, a\<lparr>a_ctx := c\<rparr>))"

subsection \<open>Walking a script\<close>

definition inspectNode :: "cg_Limits \<Rightarrow> sh_kind \<Rightarrow> int \<Rightarrow> analysis \<Rightarrow> cg_outcome \<times> analysis" where
  "inspectNode l k depth a =
     (case a_poll a of
        (True, a) \<Rightarrow> (invalidCommand, a)
      | (False, a) \<Rightarrow>
          if a_nodes a \<ge> MaxASTNodes l \<or> depth \<ge> MaxASTDepth l then (analysisLimit, a)
          else let a = a\<lparr>a_nodes := a_nodes a + 1\<rparr> in
            (case k of
               ExtGlob \<Rightarrow> (unanalysable, a)
             | WordIter n \<Rightarrow>
                 (case n of None \<Rightarrow> (unanalysable, a)
                  | Some name \<Rightarrow> (if opaqueVariableTarget name then unanalysable else abstain, a))
             | ForClause word_loop \<Rightarrow> (if \<not> word_loop then unanalysable else abstain, a)
             | Assign v \<Rightarrow>
                 (case as_Name v of None \<Rightarrow> (unanalysable, a)
                  | Some name \<Rightarrow>
                      (if opaqueVariableTarget name \<or> as_Index v \<or> as_Array v \<or> as_Naked v \<or> as_Append v
                       then unanalysable else abstain, a))
             | ParamExp v \<Rightarrow> (if \<not> simpleParameter v then unanalysable else abstain, a)
             | Word \<Rightarrow>
                 if a_words a \<ge> MaxWords l then (analysisLimit, a)
                 else (abstain, a\<lparr>a_words := a_words a + 1\<rparr>)
             | OtherNode _ \<Rightarrow> (unanalysable, a)
             | _ \<Rightarrow> (abstain, a)))"

text \<open>
  \<open>Walk\<close> calls the visitor on a node, then on its children, then with nil. After a denial nothing
  is inspected or finished any more, so the walk ends there. \<open>fin\<close> is \<open>finishNode\<close> of the walk.
\<close>

fun walk_node ::
  "(sh_node \<Rightarrow> nat list \<Rightarrow> int \<Rightarrow> analysis \<Rightarrow> step) \<Rightarrow> cg_Limits \<Rightarrow> int \<Rightarrow> nat list \<Rightarrow> sh_node \<Rightarrow> analysis \<Rightarrow> step"
and walk_nodes ::
  "(sh_node \<Rightarrow> nat list \<Rightarrow> int \<Rightarrow> analysis \<Rightarrow> step) \<Rightarrow> cg_Limits \<Rightarrow> int \<Rightarrow> nat list \<Rightarrow> nat \<Rightarrow> sh_node list \<Rightarrow> analysis \<Rightarrow> step" where
  "walk_node fin l depth path (Node k cs) a =
     (case inspectNode l k depth a of
        (r, a) \<Rightarrow>
          if r \<noteq> abstain then (Some r, a)
          else (case walk_nodes fin l (depth + 1) path 0 cs a of
                  (Some abstain, a) \<Rightarrow> fin (Node k cs) path (depth + 1) a
                | s \<Rightarrow> s))"
| "walk_nodes fin l depth path i [] a = (Some abstain, a)"
| "walk_nodes fin l depth path i (n # ns) a =
     (case walk_node fin l depth (path @ [i]) n a of
        (Some abstain, a) \<Rightarrow> walk_nodes fin l depth path (Suc i) ns a
      | s \<Rightarrow> s)"

lemma walk_cong:
  assumes "\<And>n p d a. fin n p d a = fin' n p d a"
  shows "walk_node fin l depth path n a = walk_node fin' l depth path n a"
proof -
  have "fin = fin'" using assms by (intro ext)
  then show ?thesis by simp
qed

lemma walk_node_cong [fundef_cong]:
  "(\<And>n p d a. fin n p d a = fin' n p d a) \<Longrightarrow> l = l' \<Longrightarrow> depth = depth' \<Longrightarrow> path = path' \<Longrightarrow> n = n' \<Longrightarrow> a = a' \<Longrightarrow>
   walk_node fin l depth path n a = walk_node fin' l' depth' path' n' a'"
  using walk_cong [of fin fin'] by simp

definition is_word :: "sh_node \<Rightarrow> bool" where
  "is_word n \<longleftrightarrow> kind n = Word"

definition decoded_at :: "analysis \<Rightarrow> nat \<times> nat list \<Rightarrow> sh_word" where
  "decoded_at a key = (case map_of (a_decoded a) key of None \<Rightarrow> no_word | Some w \<Rightarrow> w)"

definition call_args :: "nat \<Rightarrow> nat list \<Rightarrow> sh_node list \<Rightarrow> analysis \<Rightarrow> sh_word list" where
  "call_args serial path cs a =
     map (\<lambda>(i, n). decoded_at a (serial, path @ [i])) (filter (\<lambda>(i, n). is_word n) (enumerate 0 cs))"

definition script_base :: "string \<Rightarrow> string" where
  "script_base t = drop (nat (LastIndexByte t (CHR ''/'') + 1)) t"

definition wrapper_names :: "string list" where
  "wrapper_names = [''env'', ''command'', ''exec'', ''sudo'', ''timeout'', ''sh'', ''bash'']"

subsection \<open>Commands, wrappers and scripts\<close>

function (sequential) command :: "'scope guard \<Rightarrow> sh_word list \<Rightarrow> int \<Rightarrow> int \<Rightarrow> analysis \<Rightarrow> step"
and wrapper :: "'scope guard \<Rightarrow> string \<Rightarrow> sh_word list \<Rightarrow> int \<Rightarrow> int \<Rightarrow> analysis \<Rightarrow> step"
and shell :: "'scope guard \<Rightarrow> string \<Rightarrow> sh_word list \<Rightarrow> int \<Rightarrow> int \<Rightarrow> analysis \<Rightarrow> step"
and script :: "'scope guard \<Rightarrow> string \<Rightarrow> Dialect \<Rightarrow> int \<Rightarrow> int \<Rightarrow> analysis \<Rightarrow> step"
and finishNode :: "'scope guard \<Rightarrow> nat \<Rightarrow> char \<Rightarrow> int \<Rightarrow> sh_node \<Rightarrow> nat list \<Rightarrow> int \<Rightarrow> analysis \<Rightarrow> step" where
  "command g ws depth wrappers a =
     (case a_poll a of
        (True, a) \<Rightarrow> (Some invalidCommand, a)
      | (False, a) \<Rightarrow>
          if ws = [] then (Some unanalysable, a)
          else let executable = hd ws in
          if \<not> word_known executable \<or> word_text executable = [] \<or> HasSuffix (word_text executable) ''/''
          then (Some unanalysable, a)
          else let name = script_base (word_text executable); args = tl ws in
          (case match_rules (pol_rules (g_policy g)) name args (a_ctx a) of
             (r, c) \<Rightarrow>
               let a = a\<lparr>a_ctx := c\<rparr> in
               if r \<noteq> abstain then (Some r, a)
               else if builtin name args \<noteq> abstain then (Some (builtin name args), a)
               else wrapper g name args depth wrappers a))"
| "wrapper g name args depth wrappers a =
     (if \<not> List.member wrapper_names name then (Some abstain, a)
      else if wrappers \<ge> MaxWrapperDepth (g_limits g) \<or> depth \<ge> MaxASTDepth (g_limits g) then (Some analysisLimit, a)
      else if name = ''sh'' \<or> name = ''bash'' then shell g name args (depth + 1) (wrappers + 1) a
      else (case wrapperArguments name args (a_ctx a) of
              (Inl r, c) \<Rightarrow> (Some r, a\<lparr>a_ctx := c\<rparr>)
            | (Inr remaining, c) \<Rightarrow>
                if remaining = [] then (Some (if name = ''env'' then abstain else unanalysable), a\<lparr>a_ctx := c\<rparr>)
                else command g remaining (depth + 1) (wrappers + 1) (a\<lparr>a_ctx := c\<rparr>)))"
| "shell g name args depth wrappers a =
     (case shell_script name args of
        Inl r \<Rightarrow> (Some r, a)
      | Inr (s, dialect) \<Rightarrow> script g s dialect depth wrappers a)"
| "script g s dialect baseDepth wrappers a =
     (let l = g_limits g in
      case a_poll a of
        (True, a) \<Rightarrow> (Some invalidCommand, a)
      | (False, a) \<Rightarrow>
          if len s > MaxCommandBytes l \<or> len s > MaxAnalysisBytes l - a_bytes a \<or> baseDepth \<ge> MaxASTDepth l
          then (Some analysisLimit, a)
          else if \<not> validText s then (Some invalidCommand, a)
          else (case maskCarriageReturns s of
                  (masked, carriage, r) \<Rightarrow>
                    if r \<noteq> abstain then (Some r, a)
                    else (case g_parse g masked dialect (a_ctx a) of
                            (file, c) \<Rightarrow>
                              let a = a\<lparr>a_bytes := a_bytes a + len masked, a_ctx := c, a_parses := Suc (a_parses a)\<rparr> in
                              (case a_poll a of
                                 (True, a) \<Rightarrow> (Some invalidCommand, a)
                               | (False, a) \<Rightarrow>
                                   (case file of
                                      ParseError \<Rightarrow> (Some invalidCommand, a)
                                    | LangError \<Rightarrow> (Some invalidCommand, a)
                                    | ReadError \<Rightarrow> (None, a)
                                    | Parsed None \<Rightarrow> (None, a)
                                    | Parsed (Some f) \<Rightarrow>
                                        walk_node (\<lambda>n path d b. finishNode g (a_parses a) carriage wrappers n path d b)
                                          l baseDepth [] f a)))))"
| "finishNode g serial carriage wrappers n path depth a =
     (case kind n of
        Word \<Rightarrow>
          (case decode (g_split g) (g_limits g) carriage (a_ctx a) n of
             ((w, r), c) \<Rightarrow> (Some r, a\<lparr>a_ctx := c, a_decoded := ((serial, path), w) # a_decoded a\<rparr>))
      | CallExpr \<Rightarrow>
          let args = call_args serial path (children n) a in
          if args \<noteq> [] then command g args depth wrappers a else (Some abstain, a)
      | _ \<Rightarrow> (Some abstain, a))"
  by pat_completeness auto
termination
  by (relation "measure (\<lambda>x. case x of
        Inl (Inl (g, ws, d, w, a)) \<Rightarrow> 5 * nat (MaxWrapperDepth (g_limits g) - w) + 1
      | Inl (Inr (g, n, args, d, w, a)) \<Rightarrow> 5 * nat (MaxWrapperDepth (g_limits g) - w)
      | Inr (Inl (g, n, args, d, w, a)) \<Rightarrow> 5 * nat (MaxWrapperDepth (g_limits g) - w) + 4
      | Inr (Inr (Inl (g, s, d, b, w, a))) \<Rightarrow> 5 * nat (MaxWrapperDepth (g_limits g) - w) + 3
      | Inr (Inr (Inr (g, k, c, w, n, p, d, a))) \<Rightarrow> 5 * nat (MaxWrapperDepth (g_limits g) - w) + 2)") auto

declare command.simps [simp del] wrapper.simps [simp del] shell.simps [simp del] script.simps [simp del] finishNode.simps [simp del]

end
