(* ===== verification/Guard_Sound.thy ===== *)
theory Guard_Sound
  imports Guard
begin

section \<open>commandguard: what an abstention means\<close>

text \<open>
  Two facts about the analysis of scripts. Its counters never pass the configured budgets. And
  when it ends without a denial, the script is admitted in the sense of an inductive
  specification that mentions neither budgets nor contexts: every call in it, and every call
  reached through wrapper commands and nested scripts, differs from every rule.
\<close>

subsection \<open>Budgets\<close>

definition within_budget :: "cg_Limits \<Rightarrow> analysis \<Rightarrow> bool" where
  "within_budget l a \<longleftrightarrow> 0 \<le> a_bytes a \<and> a_bytes a \<le> MaxAnalysisBytes l \<and> a_nodes a \<le> MaxASTNodes l \<and> a_words a \<le> MaxWords l"

lemma within_budget_upd [simp]:
  "within_budget l (a\<lparr>a_ctx := c\<rparr>) = within_budget l a" "within_budget l (a\<lparr>a_decoded := m\<rparr>) = within_budget l a"
  "within_budget l (a\<lparr>a_ctx := c, a_decoded := m\<rparr>) = within_budget l a"
  by (simp_all add: within_budget_def)

lemma a_poll_snd: "a_poll a = (e, b) \<Longrightarrow> \<exists>c. b = a\<lparr>a_ctx := c\<rparr>"
  by (auto simp: a_poll_def split: prod.splits)

lemma a_poll_budget: "a_poll a = (e, b) \<Longrightarrow> within_budget l a \<Longrightarrow> within_budget l b"
  by (auto dest: a_poll_snd)

lemma inspectNode_budget:
  assumes "inspectNode l k d a = (r, b)" and "within_budget l a"
  shows "within_budget l b"
proof -
  obtain e a1 where p: "a_poll a = (e, a1)" by (metis surj_pair)
  with assms(2) a_poll_budget have "within_budget l a1" by blast
  with assms(1) p show ?thesis
    by (auto simp: inspectNode_def Let_def within_budget_def split: bool.splits if_splits sh_kind.splits option.splits)
qed

definition keeps_budget :: "(sh_node \<Rightarrow> nat list \<Rightarrow> int \<Rightarrow> analysis \<Rightarrow> step) \<Rightarrow> cg_Limits \<Rightarrow> bool" where
  "keeps_budget fin l \<longleftrightarrow> (\<forall>n p d a s b. fin n p d a = (s, b) \<longrightarrow> within_budget l a \<longrightarrow> within_budget l b)"

lemma walk_budget:
  shows "keeps_budget fin l \<Longrightarrow> walk_node fin l depth path n a = (s, b) \<Longrightarrow> within_budget l a \<Longrightarrow> within_budget l b"
    and "keeps_budget fin l \<Longrightarrow> walk_nodes fin l depth path i ns a = (s, b) \<Longrightarrow> within_budget l a \<Longrightarrow> within_budget l b"
proof (induction fin l depth path n a and fin l depth path i ns a arbitrary: s b and s b rule: walk_node_walk_nodes.induct)
  case (1 fin l depth path k cs a)
  obtain r a1 where i: "inspectNode l k depth a = (r, a1)" by (metis surj_pair)
  have b1: "within_budget l a1" using inspectNode_budget [OF i] "1.prems" by blast
  obtain s2 a2 where w: "walk_nodes fin l (depth + 1) path 0 cs a1 = (s2, a2)" by (metis surj_pair)
  show ?case
  proof (cases "r = abstain")
    case True
    then have b2: "within_budget l a2" using "1.IH" [OF i [symmetric] _ "1.prems"(1) w b1] i by simp
    then show ?thesis using "1.prems" i w True
      by (auto simp: keeps_budget_def split: option.splits cg_outcome.splits)
  next
    case False
    with "1.prems" i b1 show ?thesis by simp
  qed
next
  case (3 fin l depth path i n ns a)
  obtain s1 a1 where w: "walk_node fin l depth (path @ [i]) n a = (s1, a1)" by (metis surj_pair)
  have b1: "within_budget l a1" using "3.IH"(1) w "3.prems" by blast
  show ?case
  proof (cases "s1 = Some abstain")
    case True
    then show ?thesis using "3.prems" w "3.IH"(2) [OF w [symmetric], of abstain s b] b1 by simp
  next
    case False
    then show ?thesis using "3.prems" w b1 by (auto split: option.splits cg_outcome.splits)
  qed
qed simp

text \<open>How a call of \<open>script\<close> can end.\<close>

lemma mask_length: "maskCarriageReturns sc = (masked, carriage, abstain) \<Longrightarrow> length masked = length sc"
  by (auto simp: maskCarriageReturns_def ReplaceByte_def split: if_splits option.splits)

lemma script_cases:
  assumes "script g sc dialect base w a = (s, b)"
  obtains (halt) c where "s \<noteq> Some abstain" "b = a\<lparr>a_ctx := c\<rparr>"
  | (parsed) masked carriage c1 fl c2 a2 where "a_poll a = (False, a\<lparr>a_ctx := c1\<rparr>)"
      "\<not> (MaxCommandBytes (g_limits g) < len sc \<or> MaxAnalysisBytes (g_limits g) - a_bytes (a\<lparr>a_ctx := c1\<rparr>) < len sc \<or> MaxASTDepth (g_limits g) \<le> base)"
      "validText sc" "maskCarriageReturns sc = (masked, carriage, abstain)"
      "g_parse g masked dialect c1 = (fl, c2)"
      "a2 = a\<lparr>a_bytes := a_bytes a + len masked, a_parses := Suc (a_parses a), a_ctx := snd (ctx_Err c2)\<rparr>"
      "s \<noteq> Some abstain \<and> b = a2 \<or> (\<exists>f. \<not> fst (ctx_Err c2) \<and> fl = Parsed (Some f)
         \<and> walk_node (\<lambda>n path d b. finishNode g (a_parses a2) carriage w n path d b) (g_limits g) base [] f a2 = (s, b))"
proof -
  obtain e c1 where c1: "ctx_Err (a_ctx a) = (e, c1)" by (metis surj_pair)
  obtain masked carriage r where mk: "maskCarriageReturns sc = (masked, carriage, r)" by (metis surj_pair)
  obtain fl c2 where f: "g_parse g masked dialect c1 = (fl, c2)" by (metis surj_pair)
  obtain e2 c3 where c3: "ctx_Err c2 = (e2, c3)" by (metis surj_pair)
  note run = assms [unfolded script.simps Let_def a_poll_def c1]
  show thesis
  proof (cases "e \<or> len sc > MaxCommandBytes (g_limits g) \<or> len sc > MaxAnalysisBytes (g_limits g) - a_bytes a
      \<or> base \<ge> MaxASTDepth (g_limits g) \<or> \<not> validText sc \<or> r \<noteq> abstain")
    case True
    then show thesis using run mk halt [of c1] by (cases e) (auto split: if_splits)
  next
    case False
    then show thesis using run mk f c3
      by (intro parsed [of c1 masked carriage fl c2 "a\<lparr>a_bytes := a_bytes a + len masked, a_parses := Suc (a_parses a), a_ctx := c3\<rparr>"])
        (auto simp: a_poll_def c1 split: bool.splits parse_result.splits option.splits)
  qed
qed

lemma analysis_budget:
  shows "command g ws d w a = (s, b) \<Longrightarrow> within_budget (g_limits g) a \<Longrightarrow> within_budget (g_limits g) b"
    and "wrapper g name args d w a = (s, b) \<Longrightarrow> within_budget (g_limits g) a \<Longrightarrow> within_budget (g_limits g) b"
    and "shell g name args d w a = (s, b) \<Longrightarrow> within_budget (g_limits g) a \<Longrightarrow> within_budget (g_limits g) b"
    and "script g sc dia d w a = (s, b) \<Longrightarrow> within_budget (g_limits g) a \<Longrightarrow> within_budget (g_limits g) b"
    and "finishNode g k cr w n p d a = (s, b) \<Longrightarrow> within_budget (g_limits g) a \<Longrightarrow> within_budget (g_limits g) b"
proof (induction g ws d w a and g name args d w a and g name args d w a and g sc dia d w a and g k cr w n p d a
    arbitrary: s b and s b and s b and s b and s b rule: command_wrapper_shell_script_finishNode.induct)
  case (1 g ws depth wrappers a)
  obtain e a1 where p: "a_poll a = (e, a1)" by (metis surj_pair)
  have b1: "within_budget (g_limits g) a1" using a_poll_budget [OF p] "1.prems" by blast
  let ?name = "script_base (word_text (hd ws))"
  obtain r c where m: "match_rules (pol_rules (g_policy g)) ?name (tl ws) (a_ctx a1) = (r, c)" by (metis surj_pair)
  show ?case
    using "1.prems" p b1 m "1.IH" [OF p [symmetric] _ _ refl _ refl refl m [symmetric] refl]
    by (subst (asm) command.simps) (auto simp: Let_def split: bool.splits if_splits)
next
  case (2 g name args depth wrappers a)
  show ?case
  proof (cases "List.member wrapper_names name \<and> \<not> (wrappers \<ge> MaxWrapperDepth (g_limits g) \<or> depth \<ge> MaxASTDepth (g_limits g))")
    case False
    with "2.prems" show ?thesis by (subst (asm) wrapper.simps) (auto split: if_splits)
  next
    case True
    obtain o1 c where wa: "wrapperArguments name args (a_ctx a) = (o1, c)" by (metis surj_pair)
    show ?thesis
      using "2.prems" True wa "2.IH"(1) "2.IH"(2) [OF _ _ _ wa [symmetric]]
      by (subst (asm) wrapper.simps) (auto split: if_splits sum.splits)
  qed
next
  case (3 g name args depth wrappers a)
  then show ?case by (subst (asm) shell.simps) (auto split: sum.splits)
next
  case (4 g sc dialect base w a)
  from "4.prems"(1) show ?case
  proof (cases rule: script_cases)
    case (halt c)
    with "4.prems"(2) show ?thesis by simp
  next
    case (parsed masked carriage c1 fl c2 a2)
    have b2: "within_budget (g_limits g) a2"
      using parsed "4.prems"(2) mask_length [OF parsed(4)] by (auto simp: within_budget_def len_def)
    show ?thesis
      using parsed(7)
    proof (elim disjE conjE exE)
      fix f
      assume f: "\<not> fst (ctx_Err c2)" "fl = Parsed (Some f)"
        "walk_node (\<lambda>n path d b. finishNode g (a_parses a2) carriage w n path d b) (g_limits g) base [] f a2 = (s, b)"
      have p2: "(False, a2) = a_poll (a\<lparr>a_ctx := c1, a_bytes := a_bytes (a\<lparr>a_ctx := c1\<rparr>) + len masked, a_ctx := c2,
          a_parses := Suc (a_parses (a\<lparr>a_ctx := c1\<rparr>))\<rparr>)"
        using f(1) parsed(6) by (cases "ctx_Err c2") (simp add: a_poll_def)
      have pm: "(fl, c2) = g_parse g masked dialect (a_ctx (a\<lparr>a_ctx := c1\<rparr>))" using parsed(5) by simp
      have tx: "\<not> \<not> validText sc" "\<not> abstain \<noteq> abstain" using parsed(3) by simp_all
      note ih = "4.IH" [OF refl parsed(1) [symmetric] refl parsed(2) tx(1) parsed(4) [symmetric] refl tx(2) pm refl p2 refl f(2) refl]
      then have "keeps_budget (\<lambda>n path d b. finishNode g (a_parses a2) carriage w n path d b) (g_limits g)"
        unfolding keeps_budget_def by blast
      from walk_budget(1) [OF this f(3) b2] show ?thesis .
    qed (use b2 in simp)
  qed
next
  case (5 g serial carriage w n path depth a)
  then show ?case by (subst (asm) finishNode.simps) (auto simp: Let_def split: sh_kind.splits if_splits prod.splits)
qed

subsection \<open>The specification\<close>

text \<open>A rule cannot match: some position of its prefix is missing or holds another known word.\<close>

definition differs :: "string list \<Rightarrow> sh_word list \<Rightarrow> bool" where
  "differs want args \<longleftrightarrow> (\<exists>i < length want. length args \<le> i \<or> word_known (args ! i) \<and> word_text (args ! i) \<noteq> want ! i)"

definition call_name :: "sh_word list \<Rightarrow> string" where
  "call_name ws = script_base (word_text (hd ws))"

definition call_clear :: "'scope guard \<Rightarrow> sh_word list \<Rightarrow> bool" where
  "call_clear g ws \<longleftrightarrow> ws \<noteq> [] \<and> word_known (hd ws) \<and> word_text (hd ws) \<noteq> [] \<and> \<not> HasSuffix (word_text (hd ws)) ''/''
     \<and> (\<forall>r \<in> set (pol_rules (g_policy g)). Executable r = call_name ws \<longrightarrow> differs (ArgPrefix r) (tl ws))
     \<and> builtin (call_name ws) (tl ws) = abstain"

fun admitted_kind :: "sh_kind \<Rightarrow> bool" where
  "admitted_kind ExtGlob = False"
| "admitted_kind (WordIter n) = (\<exists>v. n = Some v \<and> \<not> opaqueVariableTarget v)"
| "admitted_kind (ForClause word_loop) = word_loop"
| "admitted_kind (Assign v) = ((\<exists>n. as_Name v = Some n \<and> \<not> opaqueVariableTarget n)
     \<and> \<not> as_Index v \<and> \<not> as_Array v \<and> \<not> as_Naked v \<and> \<not> as_Append v)"
| "admitted_kind (ParamExp v) = simpleParameter v"
| "admitted_kind (OtherNode s) = False"
| "admitted_kind k = True"

fun subnodes :: "sh_node \<Rightarrow> sh_node list" where
  "subnodes (Node k cs) = Node k cs # concat (map subnodes cs)"

definition word_of :: "'scope guard \<Rightarrow> char \<Rightarrow> sh_node \<Rightarrow> sh_word" where
  "word_of g carriage n = fst (fst (decode (g_split g) (g_limits g) carriage None n))"

definition call_words :: "'scope guard \<Rightarrow> char \<Rightarrow> sh_node \<Rightarrow> sh_word list" where
  "call_words g carriage n = map (word_of g carriage) (filter is_word (children n))"

inductive admits_command :: "'scope guard \<Rightarrow> sh_word list \<Rightarrow> bool"
  and admits_script :: "'scope guard \<Rightarrow> string \<Rightarrow> Dialect \<Rightarrow> bool" for g where
  plain_call: "call_clear g ws \<Longrightarrow> call_name ws \<notin> set wrapper_names \<Longrightarrow> admits_command g ws"
| env_alone: "call_clear g ws \<Longrightarrow> call_name ws = ''env'' \<Longrightarrow> fst (wrapperArguments ''env'' (tl ws) None) = Inr [] \<Longrightarrow>
    admits_command g ws"
| wrapped_call: "call_clear g ws \<Longrightarrow> call_name ws \<in> set wrapper_names \<Longrightarrow> call_name ws \<noteq> ''sh'' \<Longrightarrow> call_name ws \<noteq> ''bash'' \<Longrightarrow>
    fst (wrapperArguments (call_name ws) (tl ws) None) = Inr remaining \<Longrightarrow> admits_command g remaining \<Longrightarrow>
    admits_command g ws"
| shell_call: "call_clear g ws \<Longrightarrow> call_name ws = ''sh'' \<or> call_name ws = ''bash'' \<Longrightarrow>
    shell_script (call_name ws) (tl ws) = Inr (s, d) \<Longrightarrow> admits_script g s d \<Longrightarrow> admits_command g ws"
| parsed_script: "validText s \<Longrightarrow> maskCarriageReturns s = (masked, carriage, abstain) \<Longrightarrow>
    g_parse g masked d c = (Parsed (Some f), c') \<Longrightarrow>
    (\<forall>n \<in> set (subnodes f). admitted_kind (kind n)) \<Longrightarrow>
    (\<forall>n \<in> set (subnodes f). kind n = CallExpr \<longrightarrow> call_words g carriage n = [] \<or> admits_command g (call_words g carriage n)) \<Longrightarrow>
    admits_script g s d"

subsection \<open>Steps that do not depend on the context\<close>

lemma prefix_match_differs: "prefix_match want args = Inr False \<Longrightarrow> differs want args"
proof (induction want args rule: prefix_match.induct)
  case (2 want ws)
  then show ?case by (auto simp: differs_def)
next
  case (3 want ws arg args)
  show ?case
  proof (cases "word_text arg = want")
    case True
    with 3 obtain i where "i < length ws" "length args \<le> i \<or> word_known (args ! i) \<and> word_text (args ! i) \<noteq> ws ! i"
      by (auto simp: differs_def split: if_splits)
    then show ?thesis unfolding differs_def by (intro exI [of _ "Suc i"]) auto
  next
    case False
    with 3 show ?thesis unfolding differs_def by (intro exI [of _ 0]) (auto split: if_splits)
  qed
qed simp

lemma match_rules_differs:
  "match_rules rs name args c = (abstain, c') \<Longrightarrow> r \<in> set rs \<Longrightarrow> Executable r = name \<Longrightarrow> differs (ArgPrefix r) args"
proof (induction rs arbitrary: c)
  case (Cons r' rs)
  obtain e c1 where c1: "ctx_Err c = (e, c1)" by (metis surj_pair)
  have e: "\<not> e" using Cons.prems c1 by (cases e) auto
  show ?case
  proof (cases "Executable r' = name")
    case False
    with Cons e c1 show ?thesis by auto
  next
    case True
    have m: "prefix_match (ArgPrefix r') args = Inr False" "match_rules rs name args c1 = (abstain, c')"
      using Cons.prems(1) True e c1 by (auto split: sum.splits bool.splits)
    with Cons prefix_match_differs [OF m(1)] show ?thesis by auto
  qed
qed simp

lemma scanOptions_live: "scanOptions c args specs = (Inr r, c') \<Longrightarrow> scanOptions None args specs = (Inr r, None)"
proof (induction c args specs rule: scanOptions.induct)
  case (1 c args specs)
  obtain e c1 where c1: "ctx_Err c = (e, c1)" by (metis surj_pair)
  show ?case
  proof (cases "args = []")
    case True
    with "1.prems" show ?thesis by (simp add: scanOptions.simps)
  next
    case False
    have e: "\<not> e" using "1.prems" False c1 by (cases e) (auto simp: scanOptions.simps)
    show ?thesis
      using "1.prems" False c1 e "1.IH" [OF False c1 [symmetric] _ _ _ _ refl]
      by (subst scanOptions.simps, subst (asm) scanOptions.simps) (auto simp: Let_def split: if_splits)
  qed
qed

lemma wrapperArguments_live: "wrapperArguments name args c = (Inr r, c') \<Longrightarrow> fst (wrapperArguments name args None) = Inr r"
proof -
  assume a: "wrapperArguments name args c = (Inr r, c')"
  show ?thesis
  proof (cases "name = ''command'' \<or> name = ''exec''")
    case True
    with a show ?thesis by (auto simp: wrapperArguments_def)
  next
    case False
    obtain o1 c1 where s: "scanOptions c args (wrapperOptions name) = (o1, c1)" by (metis surj_pair)
    with a False obtain rest where rest: "o1 = Inr rest" by (cases o1) (auto simp: wrapperArguments_def)
    from scanOptions_live [OF s [unfolded rest]] a False s rest show ?thesis
      by (auto simp: wrapperArguments_def split: if_splits sum.splits)
  qed
qed

lemma appendText_ctx: "appendText l cr s (d\<lparr>dec_ctx := c\<rparr>) = map_option (\<lambda>d. d\<lparr>dec_ctx := c\<rparr>) (appendText l cr s d)"
  by (simp add: appendText_def Let_def)

lemma mark_unquoted_ctx: "mark_unquoted x (d\<lparr>dec_ctx := c\<rparr>) = (mark_unquoted x d)\<lparr>dec_ctx := c\<rparr>"
  by (simp add: mark_unquoted_def Let_def)

lemma decode_lit_ctx: "decode_lit l cr q v (d\<lparr>dec_ctx := c\<rparr>) = apsnd (\<lambda>d. d\<lparr>dec_ctx := c\<rparr>) (decode_lit l cr q v d)"
proof (induction l cr q v d rule: decode_lit.induct)
  case (2 l cr q x xs d)
  let ?m = "if \<not> q then mark_unquoted x d else d"
  have m: "(if \<not> q then mark_unquoted x (d\<lparr>dec_ctx := c\<rparr>) else d\<lparr>dec_ctx := c\<rparr>) = ?m\<lparr>dec_ctx := c\<rparr>"
    by (simp add: mark_unquoted_ctx)
  consider (esc) "x = CHR 0x5C \<and> xs \<noteq> []" "\<not> q \<or> List.member [CHR ''$'', CHR 0x60, CHR 0x22, CHR 0x5C, CHR 0x0A] (hd xs)"
    | (keep) "x = CHR 0x5C \<and> xs \<noteq> []" "\<not> (\<not> q \<or> List.member [CHR ''$'', CHR 0x60, CHR 0x22, CHR 0x5C, CHR 0x0A] (hd xs))"
    | (plain) "\<not> (x = CHR 0x5C \<and> xs \<noteq> [])" by blast
  then show ?case
  proof cases
    case esc
    show ?thesis
    proof (cases "hd xs = CHR 0x0A")
      case True
      then show ?thesis using "2.IH"(1) [OF esc] esc by simp
    next
      case False
      note ih = "2.IH"(2) [OF esc False]
      show ?thesis unfolding decode_lit.simps(2) if_P [OF esc(1)] if_P [OF esc(2)] if_not_P [OF False] appendText_ctx
        using ih by (cases "appendText l cr [hd xs] d") simp_all
    qed
  next
    case keep
    note ih = "2.IH"(3) [OF keep]
    show ?thesis unfolding decode_lit.simps(2) if_P [OF keep(1)] if_not_P [OF keep(2)] appendText_ctx
      using ih by (cases "appendText l cr [x] d") simp_all
  next
    case plain
    note ih = "2.IH"(4) [OF plain refl]
    show ?thesis unfolding decode_lit.simps(2) if_not_P [OF plain] Let_def m appendText_ctx
      using ih by (cases "appendText l cr [x] ?m") simp_all
  qed
qed simp

lemma dec_comm: "d\<lparr>dec_ctx := c, dec_known := k\<rparr> = d\<lparr>dec_known := k, dec_ctx := c\<rparr>"
  by simp

lemma decode_parts_live:
  "decode_parts l cr q ns d = (abstain, d') \<Longrightarrow> decode_parts l cr q ns (d\<lparr>dec_ctx := None\<rparr>) = (abstain, d'\<lparr>dec_ctx := None\<rparr>)"
proof (induction l cr q ns d arbitrary: d' rule: decode_parts.induct)
  case (2 l cr q k cs ps d)
  obtain e c where c: "ctx_Err (dec_ctx d) = (e, c)" by (metis surj_pair)
  have e: "e = False" using "2.prems" c by (cases e) auto
  note c = c [unfolded e]
  let ?d = "d\<lparr>dec_ctx := c\<rparr>" and ?n = "\<lambda>d::decoding. d\<lparr>dec_ctx := None\<rparr>"
  have eq: "d\<lparr>dec_ctx := c, dec_known := False, dec_ctx := None\<rparr> = (?n d)\<lparr>dec_known := False\<rparr>" by simp
  note ih = "2.IH"(1-12,17-) [OF c [symmetric] refl refl, unfolded eq]
  show ?case
  proof (cases k)
    case (Lit v)
    obtain r d1 where l1: "decode_lit l cr q v ?d = (r, d1)" by (metis surj_pair)
    have r: "r = abstain" "decode_parts l cr q ps d1 = (abstain, d')" using "2.prems" c Lit l1 by (auto split: if_splits)
    have "decode_lit l cr q v (?n d) = (abstain, ?n d1)" using decode_lit_ctx [of l cr q v None ?d] l1 r(1) by simp
    with r "2.IH"(13) [OF c [symmetric] refl refl Lit l1 [symmetric]] Lit show ?thesis by simp
  next
    case (SglQuoted dollar v)
    let ?k = "if dollar then ?d\<lparr>dec_known := False\<rparr> else ?d"
    obtain d1 where d1: "appendText l cr v ?k = Some d1" "decode_parts l cr q ps d1 = (abstain, d')"
      using "2.prems" c SglQuoted by (auto simp: Let_def split: option.splits)
    have "appendText l cr v (if dollar then (?n d)\<lparr>dec_known := False\<rparr> else ?n d) = Some (?n d1)"
      using appendText_ctx [of l cr v None ?k] d1(1) by (cases dollar) (simp_all add: dec_comm)
    with d1 "2.IH"(14) [OF c [symmetric] refl refl SglQuoted refl d1(1)] SglQuoted show ?thesis by (simp add: Let_def)
  next
    case (DblQuoted dollar)
    let ?k = "if dollar then ?d\<lparr>dec_known := False\<rparr> else ?d"
    obtain r d1 where d1: "decode_parts l cr True cs ?k = (r, d1)" by (metis surj_pair)
    have r: "r = abstain" "decode_parts l cr q ps d1 = (abstain, d')" using "2.prems" c DblQuoted d1 by (auto simp: Let_def split: if_splits)
    have "decode_parts l cr True cs (if dollar then (?n d)\<lparr>dec_known := False\<rparr> else ?n d) = (abstain, ?n d1)"
      using "2.IH"(15) [OF c [symmetric] refl refl DblQuoted refl d1 [unfolded r(1)]] by (cases dollar) (simp_all add: dec_comm)
    with r "2.IH"(16) [OF c [symmetric] refl refl DblQuoted refl d1 [symmetric]] DblQuoted show ?thesis by (simp add: Let_def)
  qed (use "2.prems" c in \<open>simp_all add: ih\<close>)
qed simp

lemma decode_live: "decode sb l cr c n = ((w, abstain), c') \<Longrightarrow> fst (fst (decode sb l cr None n)) = w"
proof -
  assume a: "decode sb l cr c n = ((w, abstain), c')"
  let ?d = "\<lambda>c. \<lparr>dec_text = [], dec_known = True, dec_bracket = -1, dec_ctx = c\<rparr>"
  obtain r d where d: "decode_parts l cr False (children n) (?d c) = (r, d)" by (metis surj_pair)
  have r: "r = abstain" using a d by (auto simp: decode_def split: if_splits)
  from decode_parts_live [OF d [unfolded r]] have "decode_parts l cr False (children n) (?d None) = (abstain, d\<lparr>dec_ctx := None\<rparr>)" by simp
  with a d r show ?thesis by (cases "sb n") (auto simp: decode_def Let_def split: if_splits)
qed

subsection \<open>The walk\<close>

definition tree_ok :: "'scope guard \<Rightarrow> char \<Rightarrow> sh_node \<Rightarrow> bool" where
  "tree_ok g carriage f \<longleftrightarrow> (\<forall>n \<in> set (subnodes f). admitted_kind (kind n)
     \<and> (kind n = CallExpr \<longrightarrow> call_words g carriage n = [] \<or> admits_command g (call_words g carriage n)))"

definition unchanged :: "(nat \<times> nat list \<Rightarrow> bool) \<Rightarrow> analysis \<Rightarrow> analysis \<Rightarrow> bool" where
  "unchanged S a b \<longleftrightarrow> a_parses a \<le> a_parses b \<and> (\<forall>x. fst x \<le> a_parses a \<longrightarrow> S x \<longrightarrow> decoded_at b x = decoded_at a x)"

lemma unchanged_trans: "unchanged S a b \<Longrightarrow> unchanged T b c \<Longrightarrow> (\<And>x. U x \<Longrightarrow> S x \<and> T x) \<Longrightarrow> unchanged U a c"
  by (auto simp: unchanged_def)

lemma unchanged_upd [simp]: "unchanged S a (a\<lparr>a_ctx := c\<rparr>)" "unchanged S a (a\<lparr>a_nodes := n\<rparr>)" "unchanged S a (a\<lparr>a_words := n\<rparr>)"
  by (simp_all add: unchanged_def decoded_at_def)

definition fin_ok :: "(sh_node \<Rightarrow> nat list \<Rightarrow> int \<Rightarrow> analysis \<Rightarrow> step) \<Rightarrow> 'scope guard \<Rightarrow> nat \<Rightarrow> char \<Rightarrow> bool" where
  "fin_ok fin g serial carriage \<longleftrightarrow> (\<forall>n path d a b. fin n path d a = (Some abstain, b) \<longrightarrow> serial \<le> a_parses a \<longrightarrow>
     (kind n = CallExpr \<longrightarrow> call_args serial path (children n) a = [] \<or> admits_command g (call_args serial path (children n) a))
     \<and> (kind n = Word \<longrightarrow> decoded_at b (serial, path) = word_of g carriage n)
     \<and> unchanged (\<lambda>x. x \<noteq> (serial, path)) a b)"

lemma inspectNode_ok:
  assumes "inspectNode l k d a = (abstain, b)"
  shows "admitted_kind k \<and> unchanged (\<lambda>_. True) a b"
proof -
  obtain e c where c: "ctx_Err (a_ctx a) = (e, c)" by (metis surj_pair)
  with assms show ?thesis
    by (cases e) (auto simp: inspectNode_def a_poll_def Let_def unchanged_def decoded_at_def split: if_splits sh_kind.splits option.splits)
qed

lemma call_args_words:
  assumes "\<forall>j < length cs. is_word (cs ! j) \<longrightarrow> decoded_at a (serial, path @ [j]) = word_of g carriage (cs ! j)"
  shows "call_args serial path cs a = map (word_of g carriage) (filter is_word cs)"
proof -
  have "map (\<lambda>(i, n). decoded_at a (serial, path @ [i])) (filter (\<lambda>(i, n). is_word n) (enumerate k cs))
      = map (word_of g carriage) (filter is_word cs)"
    if "\<forall>j < length cs. is_word (cs ! j) \<longrightarrow> decoded_at a (serial, path @ [k + j]) = word_of g carriage (cs ! j)" for k cs
    using that
  proof (induction cs arbitrary: k)
    case (Cons n cs)
    have "\<forall>j < length cs. is_word (cs ! j) \<longrightarrow> decoded_at a (serial, path @ [Suc k + j]) = word_of g carriage (cs ! j)"
    proof (intro allI impI)
      fix j assume "j < length cs" "is_word (cs ! j)"
      then show "decoded_at a (serial, path @ [Suc k + j]) = word_of g carriage (cs ! j)" using Cons.prems [rule_format, of "Suc j"] by simp
    qed
    moreover have "is_word n \<Longrightarrow> decoded_at a (serial, path @ [k]) = word_of g carriage n" using Cons.prems [rule_format, of 0] by simp
    ultimately show ?case using Cons.IH [of "Suc k"] by simp
  qed simp
  from this [of cs 0] assms show ?thesis by (simp add: call_args_def)
qed

lemma walk_sound:
  shows "fin_ok fin g serial carriage \<Longrightarrow> walk_node fin l depth path n a = (Some abstain, b) \<Longrightarrow> serial \<le> a_parses a \<Longrightarrow>
      tree_ok g carriage n \<and> unchanged (\<lambda>x. \<forall>q. x \<noteq> (serial, path @ q)) a b
      \<and> (is_word n \<longrightarrow> decoded_at b (serial, path) = word_of g carriage n)"
    and "fin_ok fin g serial carriage \<Longrightarrow> walk_nodes fin l depth path i ns a = (Some abstain, b) \<Longrightarrow> serial \<le> a_parses a \<Longrightarrow>
      (\<forall>n \<in> set ns. tree_ok g carriage n) \<and> unchanged (\<lambda>x. \<forall>j q. i \<le> j \<longrightarrow> x \<noteq> (serial, path @ j # q)) a b
      \<and> (\<forall>j < length ns. is_word (ns ! j) \<longrightarrow> decoded_at b (serial, path @ [i + j]) = word_of g carriage (ns ! j))"
proof (induction fin l depth path n a and fin l depth path i ns a arbitrary: b and b rule: walk_node_walk_nodes.induct)
  case (1 fin l depth path k cs a)
  obtain r a1 where i: "inspectNode l k depth a = (r, a1)" by (metis surj_pair)
  have r: "r = abstain" using "1.prems"(2) i by (auto split: if_splits)
  note ok = inspectNode_ok [OF i [unfolded r]]
  have s1: "serial \<le> a_parses a1" using ok "1.prems"(3) by (simp add: unchanged_def)
  obtain s2 a2 where w: "walk_nodes fin l (depth + 1) path 0 cs a1 = (s2, a2)" by (metis surj_pair)
  have w2: "s2 = Some abstain" "fin (Node k cs) path (depth + 1) a2 = (Some abstain, b)"
    using "1.prems"(2) i r w by (auto split: option.splits cg_outcome.splits)
  note ih = "1.IH" [OF i [symmetric] _ "1.prems"(1) w [unfolded w2(1)] s1]
  have ih: "\<forall>n \<in> set cs. tree_ok g carriage n" "unchanged (\<lambda>x. \<forall>j q. 0 \<le> j \<longrightarrow> x \<noteq> (serial, path @ j # q)) a1 a2"
    "\<forall>j < length cs. is_word (cs ! j) \<longrightarrow> decoded_at a2 (serial, path @ [j]) = word_of g carriage (cs ! j)"
    using ih r by simp_all
  have s2: "serial \<le> a_parses a2" using ih(2) s1 by (simp add: unchanged_def)
  note f = "1.prems"(1) [unfolded fin_ok_def, rule_format, OF w2(2) s2]
  have args: "call_args serial path cs a2 = call_words g carriage (Node k cs)"
    using call_args_words [OF ih(3)] by (simp add: call_words_def)
  have "tree_ok g carriage (Node k cs)" using ih(1) ok f args by (auto simp: tree_ok_def)
  moreover have "unchanged (\<lambda>x. \<forall>q. x \<noteq> (serial, path @ q)) a b"
  proof (rule unchanged_trans [OF unchanged_trans])
    show "unchanged (\<lambda>_. True) a a1" using ok by simp
    show "unchanged (\<lambda>x. \<forall>j q. 0 \<le> j \<longrightarrow> x \<noteq> (serial, path @ j # q)) a1 a2" by (rule ih(2))
    show "unchanged (\<lambda>x. x \<noteq> (serial, path)) a2 b" using f by simp
    show "(\<forall>q. x \<noteq> (serial, path @ q)) \<Longrightarrow> (\<forall>q. x \<noteq> (serial, path @ q)) \<and> x \<noteq> (serial, path)" for x
      by (metis append_Nil2)
  qed auto
  moreover have "is_word (Node k cs) \<Longrightarrow> decoded_at b (serial, path) = word_of g carriage (Node k cs)"
    using f by (simp add: is_word_def)
  ultimately show ?case by blast
next
  case (2 fin l depth path i a)
  then show ?case by (simp add: unchanged_def)
next
  case (3 fin l depth path i n ns a)
  obtain s1 a1 where w: "walk_node fin l depth (path @ [i]) n a = (s1, a1)" by (metis surj_pair)
  have s1: "s1 = Some abstain" "walk_nodes fin l depth path (Suc i) ns a1 = (Some abstain, b)"
    using "3.prems"(2) w by (auto split: option.splits cg_outcome.splits)
  note n = "3.IH"(1) [OF "3.prems"(1) w [unfolded s1(1)] "3.prems"(3)]
  have p1: "serial \<le> a_parses a1" using n "3.prems"(3) by (simp add: unchanged_def)
  note ns = "3.IH"(2) [OF w [symmetric] s1(1) refl "3.prems"(1) s1(2) p1]
  have u: "unchanged (\<lambda>x. \<forall>j q. i \<le> j \<longrightarrow> x \<noteq> (serial, path @ j # q)) a b"
  proof (rule unchanged_trans)
    show "unchanged (\<lambda>x. \<forall>q. x \<noteq> (serial, (path @ [i]) @ q)) a a1" using n by blast
    show "unchanged (\<lambda>x. \<forall>j q. Suc i \<le> j \<longrightarrow> x \<noteq> (serial, path @ j # q)) a1 b" using ns by blast
  qed auto
  have "decoded_at b (serial, path @ [i]) = decoded_at a1 (serial, path @ [i])"
    using ns p1 by (auto simp: unchanged_def)
  then have hd: "is_word n \<longrightarrow> decoded_at b (serial, path @ [i]) = word_of g carriage n" using n by simp
  have "decoded_at b (serial, path @ [i + j]) = word_of g carriage ((n # ns) ! j)"
    if "j < length (n # ns)" "is_word ((n # ns) ! j)" for j
    using that hd ns by (cases j) auto
  with u n ns show ?case by auto
qed

subsection \<open>Soundness\<close>

lemma command_steps:
  assumes "command g ws d w a = (Some abstain, b)"
  obtains c where "call_clear g ws" "wrapper g (call_name ws) (tl ws) d w (a\<lparr>a_ctx := c\<rparr>) = (Some abstain, b)"
proof -
  obtain e c where c: "ctx_Err (a_ctx a) = (e, c)" by (metis surj_pair)
  obtain r c1 where m: "match_rules (pol_rules (g_policy g)) (call_name ws) (tl ws) c = (r, c1)" by (metis surj_pair)
  note run = assms [unfolded command.simps a_poll_def c Let_def]
  have 1: "\<not> e" "ws \<noteq> []" "word_known (hd ws)" "word_text (hd ws) \<noteq> []" "\<not> HasSuffix (word_text (hd ws)) ''/''"
    using run by (cases e; auto split: if_splits)+
  have 2: "r = abstain" "builtin (call_name ws) (tl ws) = abstain"
    "wrapper g (call_name ws) (tl ws) d w (a\<lparr>a_ctx := c1\<rparr>) = (Some abstain, b)"
    using run 1 m by (auto simp: call_name_def split: if_splits)
  have "call_clear g ws" using 1 2 match_rules_differs [OF m [unfolded 2(1)]] by (auto simp: call_clear_def)
  with that 2(3) show thesis by blast
qed

lemma refusals_not_abstain:
  shows "scanOptions c args specs = (Inl r, c') \<Longrightarrow> r \<noteq> abstain"
    and "assignmentOperands args = Inl r \<Longrightarrow> r \<noteq> abstain"
    and "builtinCommandPrefix name args = Inl r \<Longrightarrow> r \<noteq> abstain"
    and "shell_script name args = Inl r \<Longrightarrow> r \<noteq> abstain"
proof -
  show "scanOptions c args specs = (Inl r, c') \<Longrightarrow> r \<noteq> abstain"
  proof (induction c args specs rule: scanOptions.induct)
    case (1 c args specs)
    obtain e c1 where c1: "ctx_Err c = (e, c1)" by (metis surj_pair)
    show ?case using "1.prems" "1.IH" [OF _ c1 [symmetric] _ _ _ _ refl] c1
      by (cases e) (auto simp: scanOptions.simps [of c] Let_def split: if_splits)
  qed
  show "assignmentOperands args = Inl r \<Longrightarrow> r \<noteq> abstain"
    by (induction args) (auto split: if_splits option.splits)
qed (auto simp: builtinCommandPrefix_def shell_script_def Let_def split: if_splits)

lemma wrapperArguments_not_abstain: "wrapperArguments name args c = (Inl r, c') \<Longrightarrow> r \<noteq> abstain"
  by (auto simp: wrapperArguments_def split: if_splits prod.splits sum.splits dest: refusals_not_abstain)

lemma analysis_sound:
  shows "command g ws d w a = (Some abstain, b) \<Longrightarrow> admits_command g ws \<and> unchanged (\<lambda>_. True) a b"
    and "wrapper g name args d w a = (Some abstain, b) \<Longrightarrow> unchanged (\<lambda>_. True) a b
      \<and> (\<forall>ws. call_clear g ws \<longrightarrow> name = call_name ws \<longrightarrow> args = tl ws \<longrightarrow> admits_command g ws)"
    and "shell g name args d w a = (Some abstain, b) \<Longrightarrow> unchanged (\<lambda>_. True) a b
      \<and> (\<exists>s dia. shell_script name args = Inr (s, dia) \<and> admits_script g s dia)"
    and "script g sc dia d w a = (Some abstain, b) \<Longrightarrow> admits_script g sc dia \<and> unchanged (\<lambda>_. True) a b"
    and "finishNode g k cr w n p d a = (Some abstain, b) \<Longrightarrow> k \<le> a_parses a \<Longrightarrow>
      (kind n = CallExpr \<longrightarrow> call_args k p (children n) a = [] \<or> admits_command g (call_args k p (children n) a))
      \<and> (kind n = Word \<longrightarrow> decoded_at b (k, p) = word_of g cr n) \<and> unchanged (\<lambda>x. x \<noteq> (k, p)) a b"
proof (induction g ws d w a and g name args d w a and g name args d w a and g sc dia d w a and g k cr w n p d a
    arbitrary: b and b and b and b and b rule: command_wrapper_shell_script_finishNode.induct)
  case (1 g ws depth wrappers a)
  obtain e a1 where p: "a_poll a = (e, a1)" by (metis surj_pair)
  obtain r c where m: "match_rules (pol_rules (g_policy g)) (script_base (word_text (hd ws))) (tl ws) (a_ctx a1) = (r, c)" by (metis surj_pair)
  note run = "1.prems" [unfolded command.simps p Let_def]
  have 1: "e = False" "ws \<noteq> []" "\<not> (\<not> word_known (hd ws) \<or> word_text (hd ws) = [] \<or> HasSuffix (word_text (hd ws)) ''/'')"
    using run by (cases e; auto split: if_splits)+
  have 2: "\<not> r \<noteq> abstain" "\<not> builtin (script_base (word_text (hd ws))) (tl ws) \<noteq> abstain"
    "wrapper g (script_base (word_text (hd ws))) (tl ws) depth wrappers (a1\<lparr>a_ctx := c\<rparr>) = (Some abstain, b)"
    using run 1 m by (auto split: if_splits)
  note ih = "1.IH" [OF p [symmetric] 1(1) 1(2) refl 1(3) refl refl m [symmetric] refl 2(1,2,3)]
  have u: "unchanged (\<lambda>_. True) a b"
    using ih a_poll_snd [OF p] by (auto simp: unchanged_def decoded_at_def)
  from "1.prems" obtain c' where "call_clear g ws" by (rule command_steps)
  with ih u show ?case by (auto simp: call_name_def)
next
  case (2 g name args depth wrappers a)
  show ?case
  proof (cases "List.member wrapper_names name")
    case False
    then have "b = a" using "2.prems" by (subst (asm) wrapper.simps) simp
    with False show ?thesis by (auto simp: unchanged_def intro: plain_call)
  next
    case mem: True
    have lim: "\<not> (MaxWrapperDepth (g_limits g) \<le> wrappers \<or> MaxASTDepth (g_limits g) \<le> depth)"
      using "2.prems" mem by (subst (asm) wrapper.simps) (auto split: if_splits)
    have mm: "\<not> \<not> List.member wrapper_names name" using mem by simp
    show ?thesis
    proof (cases "name = ''sh'' \<or> name = ''bash''")
      case True
      then have "shell g name args (depth + 1) (wrappers + 1) a = (Some abstain, b)"
        using "2.prems" mem lim by (subst (asm) wrapper.simps) simp
      from "2.IH"(1) [OF mm lim True this] True show ?thesis by (auto intro: shell_call)
    next
      case False
      obtain o1 c where wa: "wrapperArguments name args (a_ctx a) = (o1, c)" by (metis surj_pair)
      with "2.prems" mem lim False obtain remaining where rm: "o1 = Inr remaining"
        using wrapperArguments_not_abstain [of name args "a_ctx a" _ c] by (subst (asm) wrapper.simps) (auto split: sum.splits)
      note live = wrapperArguments_live [OF wa [unfolded rm]]
      show ?thesis
      proof (cases "remaining = []")
        case True
        then have "name = ''env''" "b = a\<lparr>a_ctx := c\<rparr>"
          using "2.prems" mem lim False wa rm by (subst (asm) wrapper.simps; auto split: if_splits)+
        with live True show ?thesis by (auto intro: env_alone)
      next
        case ne: False
        then have "command g remaining (depth + 1) (wrappers + 1) (a\<lparr>a_ctx := c\<rparr>) = (Some abstain, b)"
          using "2.prems" mem lim False wa rm by (subst (asm) wrapper.simps) simp
        from "2.IH"(2) [OF mm lim False wa [symmetric] rm ne this] live False mem show ?thesis
          by (auto simp: unchanged_def decoded_at_def intro: wrapped_call)
      qed
    qed
  qed
next
  case (3 g name args depth wrappers a)
  obtain s dia where s: "shell_script name args = Inr (s, dia)"
    using "3.prems" refusals_not_abstain(4) [of name args] by (subst (asm) shell.simps) (auto split: sum.splits)
  then have "script g s dia depth wrappers a = (Some abstain, b)" using "3.prems" by (subst (asm) shell.simps) simp
  from "3.IH" [OF s refl this] s show ?case by blast
next
  case (4 g sc dialect base w a)
  from "4.prems" show ?case
  proof (cases rule: script_cases)
    case (halt c)
    then show ?thesis by simp
  next
    case (parsed masked carriage c1 fl c2 a2)
    then obtain f where f: "\<not> fst (ctx_Err c2)" "fl = Parsed (Some f)"
      "walk_node (\<lambda>n path d b. finishNode g (a_parses a2) carriage w n path d b) (g_limits g) base [] f a2 = (Some abstain, b)" by blast
    have p2: "(False, a2) = a_poll (a\<lparr>a_ctx := c1, a_bytes := a_bytes (a\<lparr>a_ctx := c1\<rparr>) + len masked, a_ctx := c2,
        a_parses := Suc (a_parses (a\<lparr>a_ctx := c1\<rparr>))\<rparr>)"
      using f(1) parsed(6) by (cases "ctx_Err c2") (simp add: a_poll_def)
    have pm: "(fl, c2) = g_parse g masked dialect (a_ctx (a\<lparr>a_ctx := c1\<rparr>))" using parsed(5) by simp
    have tx: "\<not> \<not> validText sc" "\<not> abstain \<noteq> abstain" using parsed(3) by simp_all
    note ih = "4.IH" [OF refl parsed(1) [symmetric] refl parsed(2) tx(1) parsed(4) [symmetric] refl tx(2) pm refl p2 refl f(2) refl]
    have "fin_ok (\<lambda>n path d b. finishNode g (a_parses a2) carriage w n path d b) g (a_parses a2) carriage"
      unfolding fin_ok_def using ih by blast
    note ws = walk_sound(1) [OF this f(3) order_refl]
    have "admits_script g sc dialect"
      using parsed_script [OF parsed(3,4) parsed(5) [unfolded f(2)]] ws by (auto simp: tree_ok_def)
    moreover have "unchanged (\<lambda>_. True) a b"
      using ws parsed(6) by (auto simp: unchanged_def decoded_at_def)
    ultimately show ?thesis by blast
  qed
next
  case (5 g serial carriage w n path depth a)
  show ?case
  proof (cases "kind n = Word \<or> kind n = CallExpr \<and> call_args serial path (children n) a \<noteq> []")
    case False
    then have "b = a" using "5.prems"(1) by (subst (asm) finishNode.simps) (auto simp: Let_def split: sh_kind.splits)
    with False show ?thesis by (auto simp: unchanged_def)
  next
    case True
    then show ?thesis
    proof (elim disjE conjE)
      assume k: "kind n = Word"
      obtain wd r c where d: "decode (g_split g) (g_limits g) carriage (a_ctx a) n = ((wd, r), c)" by (metis surj_pair)
      with "5.prems"(1) k have b: "r = abstain" "b = a\<lparr>a_ctx := c, a_decoded := ((serial, path), wd) # a_decoded a\<rparr>"
        by (subst (asm) finishNode.simps; auto)+
      have "word_of g carriage n = wd" using decode_live [OF d [unfolded b(1)]] by (simp add: word_of_def)
      with b k show ?thesis by (auto simp: unchanged_def decoded_at_def)
    next
      assume k: "kind n = CallExpr" "call_args serial path (children n) a \<noteq> []"
      then have "command g (call_args serial path (children n) a) depth w a = (Some abstain, b)"
        using "5.prems"(1) by (subst (asm) finishNode.simps) (simp add: Let_def)
      from "5.IH" [OF k(1) refl k(2) this] k show ?thesis by (auto simp: unchanged_def)
    qed
  qed
qed

end
