(* ===== verification/Guard_Input.thy ===== *)
theory Guard_Input
  imports Guard_Policy Unique_Keys
begin

section \<open>commandguard: the command field of a tool call\<close>

text \<open>
  input.go. The walk over the tokens of the raw input keeps the decoder, the node count, the
  context and the captured command in a record. Its recursion takes fuel; \<open>in_value_fuel\<close> shows
  that the fuel \<open>input\<close> passes never runs out. When the walk succeeds, the input is a JSON object
  with distinct keys everywhere whose member under the configured field is the command.
\<close>

record in_state =
  in_ctx :: ctx
  in_nodes :: int
  in_dec :: decoder
  in_command :: string
  in_found :: bool

definition take_token :: "cg_Limits \<Rightarrow> in_state \<Rightarrow> (cg_outcome + token) \<times> in_state" where
  "take_token l s =
     (case ctx_Err (in_ctx s) of
        (True, c) \<Rightarrow> (Inl invalidCommand, s\<lparr>in_ctx := c\<rparr>)
      | (False, c) \<Rightarrow>
          if in_nodes s \<ge> MaxJSONNodes l then (Inl analysisLimit, s\<lparr>in_ctx := c\<rparr>)
          else let s = s\<lparr>in_ctx := c, in_nodes := in_nodes s + 1\<rparr> in
            (case Token (in_dec s) of
               None \<Rightarrow> (Inl invalidCommand, s)
             | Some (tok, d) \<Rightarrow>
                 let s = s\<lparr>in_dec := d\<rparr> in
                 (case tok of
                    TStr v \<Rightarrow> if \<not> validText v then (Inl invalidCommand, s) else (Inr tok, s)
                  | _ \<Rightarrow> (Inr tok, s))))"

text \<open>The closing bracket after the loop of a container.\<close>

definition in_end :: "char \<Rightarrow> in_state \<Rightarrow> cg_outcome \<times> in_state" where
  "in_end c s =
     (case Token (in_dec s) of
        None \<Rightarrow> (invalidCommand, s)
      | Some (t, d) \<Rightarrow> (if t = Delim c then abstain else invalidCommand, s\<lparr>in_dec := d\<rparr>))"

text \<open>The key of a member, and the value of the member that holds the command.\<close>

definition in_key :: "cg_Limits \<Rightarrow> string list \<Rightarrow> in_state \<Rightarrow> (cg_outcome + string) \<times> in_state" where
  "in_key l seen s =
     (case take_token l s of
        (Inl r, s) \<Rightarrow> (Inl r, s)
      | (Inr (TStr key), s) \<Rightarrow> (if List.member seen key then Inl invalidCommand else Inr key, s)
      | (Inr _, s) \<Rightarrow> (Inl invalidCommand, s))"

definition in_field :: "cg_Limits \<Rightarrow> int \<Rightarrow> in_state \<Rightarrow> cg_outcome \<times> in_state" where
  "in_field l dep s =
     (if dep \<ge> MaxJSONDepth l then (analysisLimit, s)
      else case take_token l s of
        (Inl r, s) \<Rightarrow> (r, s)
      | (Inr (TStr v), s) \<Rightarrow>
          let s = s\<lparr>in_command := v\<rparr> in
          if len v > MaxCommandBytes l then (analysisLimit, s) else (abstain, s\<lparr>in_found := True\<rparr>)
      | (Inr _, s) \<Rightarrow> (invalidCommand, s\<lparr>in_command := []\<rparr>))"

function (sequential) in_value :: "nat \<Rightarrow> cg_Limits \<Rightarrow> string \<Rightarrow> int \<Rightarrow> bool \<Rightarrow> in_state \<Rightarrow> (cg_outcome \<times> in_state) option"
and in_members :: "nat \<Rightarrow> cg_Limits \<Rightarrow> string \<Rightarrow> int \<Rightarrow> bool \<Rightarrow> string list \<Rightarrow> in_state \<Rightarrow> (cg_outcome \<times> in_state) option"
and in_elems :: "nat \<Rightarrow> cg_Limits \<Rightarrow> string \<Rightarrow> int \<Rightarrow> in_state \<Rightarrow> (cg_outcome \<times> in_state) option" where
  "in_value 0 l field dep root s = None"
| "in_value (Suc f) l field dep root s =
     (if dep > MaxJSONDepth l then Some (analysisLimit, s)
      else case take_token l s of
        (Inl r, s) \<Rightarrow> Some (r, s)
      | (Inr tok, s) \<Rightarrow>
          if root \<and> tok \<noteq> Delim (CHR ''{'') then Some (invalidCommand, s)
          else if tok = Delim (CHR ''{'') then in_members f l field dep root [] s
          else if tok = Delim (CHR ''['') then in_elems f l field dep s
          else Some (case tok of Delim c \<Rightarrow> invalidCommand | _ \<Rightarrow> abstain, s))"
| "in_members 0 l field dep root seen s = None"
| "in_members (Suc f) l field dep root seen s =
     (if More (in_dec s) then
        (case in_key l seen s of
           (Inl r, s) \<Rightarrow> Some (r, s)
         | (Inr key, s) \<Rightarrow>
             (case if root \<and> key = field then Some (in_field l dep s) else in_value f l field (dep + 1) False s of
                None \<Rightarrow> None
              | Some (r, s) \<Rightarrow>
                  if r \<noteq> abstain then Some (r, s) else in_members f l field dep root (key # seen) s))
      else Some (in_end (CHR ''}'') s))"
| "in_elems 0 l field dep s = None"
| "in_elems (Suc f) l field dep s =
     (if More (in_dec s) then
        (case in_value f l field (dep + 1) False s of
           None \<Rightarrow> None
         | Some (r, s) \<Rightarrow> if r \<noteq> abstain then Some (r, s) else in_elems f l field dep s)
      else Some (in_end (CHR '']'') s))"
  by pat_completeness auto
termination
  by (relation "measure (\<lambda>x. case x of Inl (f, _) \<Rightarrow> f | Inr (Inl (f, _)) \<Rightarrow> f | Inr (Inr (f, _)) \<Rightarrow> f)") simp_all

declare in_value.simps [simp del] in_members.simps [simp del] in_elems.simps [simp del]

text \<open>The branch without a result is the exhausted fuel, which is never taken.\<close>

definition guard_input :: "cg_Limits \<Rightarrow> ctx \<Rightarrow> bytes \<Rightarrow> string \<Rightarrow> (string \<times> cg_outcome) \<times> ctx" where
  "guard_input l c raw field =
     (if len raw > MaxRawInputBytes l then (([], analysisLimit), c)
      else if \<not> validText raw then (([], invalidCommand), c)
      else (case in_value (walk_fuel raw) l field 1 True
                   \<lparr>in_ctx = c, in_nodes = 0, in_dec = NewDecoder raw True, in_command = [], in_found = False\<rparr> of
              None \<Rightarrow> (([], invalidCommand), c)
            | Some (r, s) \<Rightarrow>
                if r \<noteq> abstain then (([], r), in_ctx s)
                else if \<not> at_EOF (in_dec s) \<or> \<not> in_found s then (([], invalidCommand), in_ctx s)
                else ((in_command s, abstain), in_ctx s)))"

subsection \<open>The walk always ends\<close>

lemma take_token_cases:
  assumes "take_token l s = (r, s')"
  obtains (refused) k where "r = Inl k" "k \<noteq> abstain"
  | (read) tok where "r = Inr tok" "Token (in_dec s) = Some (tok, in_dec s')" "length (rest (in_dec s')) < length (rest (in_dec s))"
      "in_command s' = in_command s" "in_found s' = in_found s" "\<And>v. tok = TStr v \<Longrightarrow> validText v"
proof -
  obtain e c where c: "ctx_Err (in_ctx s) = (e, c)" by (metis surj_pair)
  show thesis
  proof (cases "e \<or> in_nodes s \<ge> MaxJSONNodes l \<or> Token (in_dec s) = None")
    case True
    with assms c show thesis by (intro refused [of "projl r"]) (auto simp: take_token_def Let_def split: bool.splits if_splits)
  next
    case False
    then obtain tok d where t: "Token (in_dec s) = Some (tok, d)" by auto
    note sh = Token_shrinks [OF t]
    show thesis
    proof (cases "\<exists>v. tok = TStr v \<and> \<not> validText v")
      case True
      with assms c False t show thesis by (intro refused [of invalidCommand]) (auto simp: take_token_def Let_def)
    next
      case ok: False
      with assms c False t sh show thesis
        by (intro read [of tok]) (auto simp: take_token_def Let_def split: token.splits if_splits)
    qed
  qed
qed

lemma in_end_cases:
  assumes "in_end c s = (r, s')" and "r = abstain"
  shows "Token (in_dec s) = Some (Delim c, in_dec s') \<and> in_command s' = in_command s \<and> in_found s' = in_found s"
  using assms by (auto simp: in_end_def split: option.splits if_splits)

abbreviation in_left :: "in_state \<Rightarrow> nat" where
  "in_left s \<equiv> length (rest (in_dec s))"

lemma in_key_ok:
  assumes "in_key l seen s = (Inr key, s')"
  shows "Token (in_dec s) = Some (TStr key, in_dec s') \<and> in_left s' < in_left s \<and> key \<notin> set seen
    \<and> in_command s' = in_command s \<and> in_found s' = in_found s"
proof -
  obtain r s1 where t: "take_token l s = (r, s1)" by (metis surj_pair)
  then show ?thesis
  proof (cases rule: take_token_cases)
    case (refused k)
    with assms t show ?thesis by (simp add: in_key_def)
  next
    case (read tok)
    with assms t show ?thesis by (cases tok) (auto simp: in_key_def split: if_splits)
  qed
qed

lemma in_key_refused: "in_key l seen s = (Inl r, s') \<Longrightarrow> r \<noteq> abstain"
proof -
  assume a: "in_key l seen s = (Inl r, s')"
  obtain k s1 where t: "take_token l s = (k, s1)" by (metis surj_pair)
  then show ?thesis
  proof (cases rule: take_token_cases)
    case (refused q)
    with a t show ?thesis by (simp add: in_key_def)
  next
    case (read tok)
    with a t show ?thesis by (cases tok) (auto simp: in_key_def split: if_splits)
  qed
qed

lemma in_field_ok:
  assumes "in_field l dep s = (abstain, s')"
  shows "\<exists>v. Token (in_dec s) = Some (TStr v, in_dec s') \<and> in_left s' < in_left s \<and> in_command s' = v \<and> in_found s'
    \<and> validText v \<and> len v \<le> MaxCommandBytes l"
proof -
  obtain r s1 where t: "take_token l s = (r, s1)" by (metis surj_pair)
  then show ?thesis
  proof (cases rule: take_token_cases)
    case (refused k)
    with assms t show ?thesis by (simp add: in_field_def split: if_splits)
  next
    case (read tok)
    with assms t show ?thesis by (cases tok) (auto simp: in_field_def Let_def split: if_splits)
  qed
qed

text \<open>What a successful walk consumes, it consumes as the duplicate-key walk does.\<close>

lemma in_walk_consumes:
  shows "in_value f l field dep root s = Some (abstain, s') \<Longrightarrow> 2 * in_left s < f \<Longrightarrow>
      consumeUniqueJSONValue f (in_dec s) = Some (in_dec s') \<and> in_left s' < in_left s"
    and "in_members f l field dep root seen s = Some (abstain, s') \<Longrightarrow> 2 * in_left s + 1 < f \<Longrightarrow>
      consume_members f seen (in_dec s) = Some (in_dec s') \<and> in_left s' < in_left s"
    and "in_elems f l field dep s = Some (abstain, s') \<Longrightarrow> 2 * in_left s + 1 < f \<Longrightarrow>
      consume_elems f (in_dec s) = Some (in_dec s') \<and> in_left s' < in_left s"
proof (induction f arbitrary: dep root seen s s')
  case 0
  { case 1 then show ?case by simp next case 2 then show ?case by simp next case 3 then show ?case by simp }
next
  case (Suc f)
  {
    case 1
    obtain r s1 where t: "take_token l s = (r, s1)" by (metis surj_pair)
    from t show ?case
    proof (cases rule: take_token_cases)
      case (refused k)
      with 1 t show ?thesis by (auto simp: in_value.simps split: if_splits)
    next
      case (read tok)
      have left: "2 * in_left s1 + 1 < f" using 1(2) read(3) by linarith
      have im: "consume_members f [] (in_dec s1) = Some (in_dec s') \<and> in_left s' < in_left s"
        if "in_members f l field dep root [] s1 = Some (abstain, s')" using Suc.IH(2) [OF that left] read(3) by simp
      have ie: "consume_elems f (in_dec s1) = Some (in_dec s') \<and> in_left s' < in_left s"
        if "in_elems f l field dep s1 = Some (abstain, s')" using Suc.IH(3) [OF that left] read(3) by simp
      show ?thesis
        using 1(1) t read(1,2,3) im ie by (cases tok) (auto simp: in_value.simps split: if_splits)
    qed
  next
    case 2
    show ?case
    proof (cases "More (in_dec s)")
      case False
      then have e: "in_end (CHR ''}'') s = (abstain, s')" using 2(1) by (simp add: in_members.simps)
      from in_end_cases [OF e refl] False Token_shrinks show ?thesis by auto
    next
      case True
      obtain k s1 where k: "in_key l seen s = (k, s1)" by (metis surj_pair)
      with 2(1) True obtain key where key: "k = Inr key" using in_key_refused [of l seen s _ s1]
        by (cases k) (auto simp: in_members.simps)
      note kk = in_key_ok [OF k [unfolded key]]
      obtain s2 where s2: "(if root \<and> key = field then Some (in_field l dep s1) else in_value f l field (dep + 1) False s1) = Some (abstain, s2)"
        "in_members f l field dep root (key # seen) s2 = Some (abstain, s')"
        using 2(1) True k key by (auto simp: in_members.simps split: option.splits if_splits)
      have l1: "2 * in_left s1 < f" "0 < f" using kk 2(2) by linarith+
      have v: "consumeUniqueJSONValue f (in_dec s1) = Some (in_dec s2) \<and> in_left s2 < in_left s1"
      proof (cases "root \<and> key = field")
        case True
        with s2(1) have "in_field l dep s1 = (abstain, s2)" by simp
        from in_field_ok [OF this] l1(2) show ?thesis by (cases f) auto
      next
        case False
        with s2(1) Suc.IH(1) [OF _ l1(1), of "dep + 1" False s2] show ?thesis by (auto split: if_splits)
      qed
      have l2: "2 * in_left s2 + 1 < f" using kk v 2(2) by linarith
      from Suc.IH(2) [OF s2(2) l2] v kk True show ?thesis by auto
    qed
  next
    case 3
    show ?case
    proof (cases "More (in_dec s)")
      case False
      then have e: "in_end (CHR '']'') s = (abstain, s')" using 3(1) by (simp add: in_elems.simps)
      from in_end_cases [OF e refl] False Token_shrinks show ?thesis by auto
    next
      case True
      obtain s2 where s2: "in_value f l field (dep + 1) False s = Some (abstain, s2)" "in_elems f l field dep s2 = Some (abstain, s')"
        using 3(1) True by (auto simp: in_elems.simps split: option.splits if_splits)
      have l1: "2 * in_left s < f" using 3(2) by simp
      from Suc.IH(1) [OF s2(1) l1] have v: "consumeUniqueJSONValue f (in_dec s) = Some (in_dec s2)" "in_left s2 < in_left s" by auto
      have l2: "2 * in_left s2 + 1 < f" using v 3(2) by linarith
      from Suc.IH(3) [OF s2(2) l2] v True show ?thesis by auto
    qed
  }
qed

lemma in_value_fuel:
  shows "2 * in_left s < f \<Longrightarrow> in_value f l field dep root s \<noteq> None"
    and "2 * in_left s + 1 < f \<Longrightarrow> in_members f l field dep root seen s \<noteq> None"
    and "2 * in_left s + 1 < f \<Longrightarrow> in_elems f l field dep s \<noteq> None"
proof (induction f arbitrary: dep root seen s)
  case (Suc f)
  {
    case 1
    obtain r s1 where t: "take_token l s = (r, s1)" by (metis surj_pair)
    from t show ?case
    proof (cases rule: take_token_cases)
      case (refused k)
      with t show ?thesis by (auto simp: in_value.simps)
    next
      case (read tok)
      have "2 * in_left s1 + 1 < f" using 1 read(3) by linarith
      with t read Suc.IH(2,3) show ?thesis by (auto simp: in_value.simps)
    qed
  next
    case 2
    obtain k s1 where k: "in_key l seen s = (k, s1)" by (metis surj_pair)
    show ?case
    proof (cases "\<not> More (in_dec s) \<or> (\<exists>r. k = Inl r)")
      case True
      with k show ?thesis by (auto simp: in_members.simps)
    next
      case False
      then obtain key where key: "k = Inr key" by (cases k) auto
      note kk = in_key_ok [OF k [unfolded key]]
      have l1: "2 * in_left s1 < f" using kk 2 by linarith
      let ?v = "if root \<and> key = field then Some (in_field l dep s1) else in_value f l field (dep + 1) False s1"
      have "?v \<noteq> None" using Suc.IH(1) [OF l1, of "dep + 1" False] by simp
      then obtain r s2 where s2: "?v = Some (r, s2)" by (metis option.exhaust surj_pair)
      show ?thesis
      proof (cases "r = abstain")
        case True
        have "in_left s2 < in_left s1"
          using s2 True in_field_ok [of l dep s1 s2] in_walk_consumes(1) [OF _ l1, of l field "dep + 1" False s2] by (auto split: if_splits)
        then have "2 * in_left s2 + 1 < f" using kk 2 by linarith
        with k key s2 True False Suc.IH(2) show ?thesis by (auto simp: in_members.simps)
      next
        case ne: False
        with k key s2 False show ?thesis by (auto simp: in_members.simps)
      qed
    qed
  next
    case 3
    have l1: "2 * in_left s < f" using 3 by simp
    obtain r s2 where s2: "in_value f l field (dep + 1) False s = Some (r, s2)" using Suc.IH(1) [OF l1] by (metis not_None_eq surj_pair)
    show ?case
    proof (cases "r = abstain")
      case True
      have "in_left s2 < in_left s" using in_walk_consumes(1) [OF s2 [unfolded True] l1] by simp
      then have "2 * in_left s2 + 1 < f" using 3 by linarith
      with s2 True Suc.IH(3) show ?thesis by (auto simp: in_elems.simps)
    next
      case False
      with s2 show ?thesis by (auto simp: in_elems.simps)
    qed
  }
qed simp_all

subsection \<open>The command is the member under the configured field\<close>

lemma key_token:
  assumes "tokenState e = ObjectStart \<or> tokenState e = ObjectKey" and "tokenStack e \<noteq> []" and "Token e = Some (TStr key, d1)"
  obtains l r where "starts_with (CHR 0x22) (peek e)" "scan_string (tl (peek e)) = Some (l, r)" "key = unquote l"
    "d1 = e\<lparr>rest := r, tokenState := ObjectColon\<rparr>"
proof -
  have nv: "\<not> tokenValueAllowed (tokenState e)" using assms(1) by (auto simp: tokenValueAllowed_def)
  have q: "starts_with (CHR 0x22) (peek e)"
  proof (rule ccontr)
    assume nq: "\<not> starts_with (CHR 0x22) (peek e)"
    have "starts_with (CHR '','') (peek e) \<or> starts_with (CHR '':'') (peek e) \<or> starts_with (CHR '']'') (peek e)
        \<or> starts_with (CHR ''}'') (peek e)" using Token_unexpected [OF nv] nq assms(3) by auto
    with assms Token_comma [of e] Token_colon [of e] Token_rbracket [of e] Token_rbrace [of e] show False
      by (auto split: if_splits)
  qed
  with assms that show thesis by (auto simp: Token_key split: option.splits)
qed

lemma member_read:
  assumes "tokenState e = ObjectStart \<or> tokenState e = ObjectKey" and "tokenStack e \<noteq> []" and "Token e = Some (TStr key, d1)"
    and "consumeUniqueJSONValue f d1 = Some d2" and "2 * length (rest d1) < f" and "length (rest d1) \<le> dep"
  obtains l r v q where "starts_with (CHR 0x22) (peek e)" "scan_string (tl (peek e)) = Some (l, r)" "key = unquote l"
    "starts_with (CHR '':'') (skip_ws r)" "value_at dep (tl (skip_ws r)) = Some (v, q)" "d2 = e\<lparr>rest := q, tokenState := ObjectComma\<rparr>"
    "\<And>c x. Token d1 = Some (TStr c, x) \<Longrightarrow> v = JStr c"
proof -
  from assms(1-3) obtain l r where k: "starts_with (CHR 0x22) (peek e)" "scan_string (tl (peek e)) = Some (l, r)" "key = unquote l"
    "d1 = e\<lparr>rest := r, tokenState := ObjectColon\<rparr>" by (rule key_token)
  have col: "starts_with (CHR '':'') (skip_ws r)"
    using consume_not_colon [of d1 f] assms(2,4) k(4) by (auto simp: peek_def)
  let ?x = "e\<lparr>rest := tl (skip_ws r), tokenState := ObjectValue\<rparr>"
  have xl: "length (tl (skip_ws r)) < length r" using starts_with_skip [OF col] by linarith
  have "consumeUniqueJSONValue f d1 = consumeUniqueJSONValue f ?x"
    using consume_colon [of d1 f] col k(4) by (simp add: peek_def)
  also have "\<dots> = value_spec dep ?x"
    using assms(5,6) k(4) xl by (intro consume_value) (simp_all add: tokenValueAllowed_def)
  finally obtain v q where v: "value_at dep (tl (skip_ws r)) = Some (v, q)" "d2 = e\<lparr>rest := q, tokenState := ObjectComma\<rparr>"
    using assms(4) by (auto simp: value_spec_def tokenValueEnd_def split: option.splits if_splits)
  have str: "v = JStr c" if "Token d1 = Some (TStr c, x)" for c x
  proof -
    have tx: "Token ?x = Some (TStr c, x)" using that Token_colon [of d1] col k(4) by (simp add: peek_def)
    have nb: "\<not> starts_with (CHR '']'') (peek ?x)"
      using v(1) value_at_punct [of "peek ?x" dep] by (auto simp: peek_def value_at_skip starts_with_def)
    note tv = tx [unfolded Token_value [OF _ nb, simplified tokenValueAllowed_def, simplified]]
    have pk: "peek ?x = skip_ws (tl (skip_ws r))" by (simp add: peek_def)
    have nn: "\<not> starts_with (CHR ''['') (skip_ws (tl (skip_ws r)))" "\<not> starts_with (CHR ''{'') (skip_ws (tl (skip_ws r)))"
      using tv by (auto simp: pk Let_def split: if_splits)
    obtain v' r' where sc: "scalar_at (skip_ws (tl (skip_ws r))) = Some (v', r')" "scalar_token (useNumber e) v' = Some (TStr c)"
      using tv nn by (auto simp: pk Let_def split: option.splits)
    have "v' = JStr c" using sc(2) by (cases v') (auto split: if_splits)
    with v(1) sc(1) nn show ?thesis by (simp add: value_at_eq [of dep "tl (skip_ws r)"] Let_def)
  qed
  show thesis using that k col v str by blast
qed

definition members_from :: "nat \<Rightarrow> decoder \<Rightarrow> ((string \<times> json) list \<times> bytes) option" where
  "members_from dep d =
     (if starts_with (CHR ''}'') (peek d) then Some ([], tl (peek d))
      else if tokenState d = ObjectStart then members_at dep (peek d)
      else if starts_with (CHR '','') (peek d) then members_at dep (tl (peek d)) else None)"

text \<open>The state in which the key token of a member is read.\<close>

definition key_state :: "decoder \<Rightarrow> decoder" where
  "key_state d = (if tokenState d = ObjectComma then d\<lparr>rest := tl (peek d), tokenState := ObjectKey\<rparr> else d)"

lemma key_state_token:
  assumes "tokenState d = ObjectStart \<or> tokenState d = ObjectComma" and "Token d = Some (TStr key, d1)" and "tokenStack d \<noteq> []"
    and "More d"
  shows "Token (key_state d) = Some (TStr key, d1)" "members_from dep d = members_at dep (peek (key_state d))"
proof -
  have nb: "\<not> starts_with (CHR ''}'') (peek d)" "\<not> starts_with (CHR '']'') (peek d)" using assms(4) by (auto simp: More_iff)
  have c: "starts_with (CHR '','') (peek d)" if "tokenState d = ObjectComma"
  proof (rule ccontr)
    assume n: "\<not> starts_with (CHR '','') (peek d)"
    have "Token d = None"
      using Token_unexpected [of d] Token_colon [of d] nb n that by (cases "starts_with (CHR '':'') (peek d)") (simp_all add: tokenValueAllowed_def)
    with assms(2) show False by simp
  qed
  show "Token (key_state d) = Some (TStr key, d1)"
    using assms(1,2) Token_comma [of d] c by (auto simp: key_state_def)
  show "members_from dep d = members_at dep (peek (key_state d))"
    using assms(1) nb c by (auto simp: members_from_def key_state_def peek_def members_at_skip)
qed

text \<open>Below the root the walk leaves the captured command alone.\<close>

lemma in_value_keeps_all:
  shows "in_value f l field dep False s = Some (r, s') \<Longrightarrow> in_found s' = in_found s \<and> in_command s' = in_command s"
    and "in_members f l field dep False seen s = Some (r, s') \<Longrightarrow> in_found s' = in_found s \<and> in_command s' = in_command s"
    and "in_elems f l field dep s = Some (r, s') \<Longrightarrow> in_found s' = in_found s \<and> in_command s' = in_command s"
proof (induction f arbitrary: dep seen s s' r)
  case (Suc f)
  have tt: "in_found s1 = in_found s \<and> in_command s1 = in_command s" if "take_token l s = (k, s1)" for s s1 k
    using that by (auto simp: take_token_def Let_def split: prod.splits bool.splits if_splits option.splits token.splits)
  have kt: "in_found s1 = in_found s \<and> in_command s1 = in_command s" if "in_key l seen s = (k, s1)" for s s1 k seen
    using that tt [of s] by (auto simp: in_key_def split: prod.splits sum.splits token.splits)
  have et: "in_found s1 = in_found s \<and> in_command s1 = in_command s" if "in_end c s = (k, s1)" for s s1 k c
    using that by (auto simp: in_end_def split: option.splits)
  {
    case 1
    obtain k s1 where t: "take_token l s = (k, s1)" by (metis surj_pair)
    from tt [OF t] t 1 Suc.IH(2) [of dep "[]" s1 r s'] Suc.IH(3) [of dep s1 r s'] show ?case
      by (cases k) (auto simp: in_value.simps split: if_splits)
  next
    case 2
    obtain k s1 where t: "in_key l seen s = (k, s1)" by (metis surj_pair)
    show ?case
    proof (cases "More (in_dec s)")
      case False
      with 2 et show ?thesis by (auto simp: in_members.simps)
    next
      case True
      show ?thesis
      proof (cases k)
        case (Inl q)
        with 2 True t kt [OF t] show ?thesis by (auto simp: in_members.simps)
      next
        case (Inr key)
        with 2 True t obtain r2 s2 where v: "in_value f l field (dep + 1) False s1 = Some (r2, s2)"
          by (auto simp: in_members.simps split: option.splits)
        with 2 True t Inr kt [OF t] Suc.IH(1) [OF v] Suc.IH(2) [of dep "key # seen" s2 r s'] show ?thesis
          by (auto simp: in_members.simps split: if_splits)
      qed
    qed
  next
    case 3
    show ?case
    proof (cases "More (in_dec s)")
      case False
      with 3 et show ?thesis by (auto simp: in_elems.simps)
    next
      case True
      with 3 obtain r2 s2 where v: "in_value f l field (dep + 1) False s = Some (r2, s2)"
        by (auto simp: in_elems.simps split: option.splits)
      with 3 True Suc.IH(1) [OF v] Suc.IH(3) [of dep s2 r s'] show ?thesis
        by (auto simp: in_elems.simps split: if_splits)
    qed
  }
qed (simp_all add: in_value.simps in_members.simps in_elems.simps)

lemmas in_value_keeps = in_value_keeps_all(1) [of f l field dep s abstain s' for f l field dep s s']

lemma in_members_found:
  "in_members f l field dp True seen s = Some (abstain, s') \<Longrightarrow> 2 * in_left s + 1 < f \<Longrightarrow> in_left s \<le> dep \<Longrightarrow>
   tokenStack (in_dec s) \<noteq> [] \<Longrightarrow> tokenState (in_dec s) = ObjectStart \<or> tokenState (in_dec s) = ObjectComma \<Longrightarrow>
   \<exists>ms r. members_from dep (in_dec s) = Some (ms, r)
     \<and> (in_found s' \<longrightarrow> in_found s \<and> in_command s' = in_command s
         \<or> (field, JStr (in_command s')) \<in> set ms \<and> validText (in_command s') \<and> len (in_command s') \<le> MaxCommandBytes l)"
proof (induction f arbitrary: seen s)
  case (Suc f)
  note stk = Suc.prems(4) and st = Suc.prems(5)
  show ?case
  proof (cases "More (in_dec s)")
    case False
    then have e: "in_end (CHR ''}'') s = (abstain, s')" using Suc.prems(1) by (simp add: in_members.simps)
    note t = in_end_cases [OF e refl]
    have "peek (in_dec s) \<noteq> []" using t by (subst (asm) Token.simps) (auto simp: Let_def)
    moreover have "\<not> starts_with (CHR '']'') (peek (in_dec s))" using t Token_rbracket [OF _ stk] st by auto
    ultimately have "starts_with (CHR ''}'') (peek (in_dec s))" using False by (auto simp: More_iff)
    with t show ?thesis by (auto simp: members_from_def)
  next
    case True
    obtain k s1 where k: "in_key l seen s = (k, s1)" by (metis surj_pair)
    with Suc.prems(1) True obtain key where key: "k = Inr key" using in_key_refused [of l seen s _ s1]
      by (cases k) (auto simp: in_members.simps)
    note kk = in_key_ok [OF k [unfolded key]]
    obtain s2 where s2: "(if key = field then Some (in_field l dp s1) else in_value f l field (dp + 1) False s1) = Some (abstain, s2)"
      "in_members f l field dp True (key # seen) s2 = Some (abstain, s')"
      using Suc.prems(1) True k key by (auto simp: in_members.simps split: option.splits if_splits)
    have l1: "2 * in_left s1 < f" "0 < f" "in_left s1 \<le> dep" using kk Suc.prems(2,3) by linarith+
    have fld: "Token (in_dec s1) = Some (TStr (in_command s2), in_dec s2) \<and> in_left s2 < in_left s1 \<and> validText (in_command s2)
        \<and> len (in_command s2) \<le> MaxCommandBytes l" if "key = field"
      using that s2(1) in_field_ok [of l dp s1 s2] by auto
    have oth: "consumeUniqueJSONValue f (in_dec s1) = Some (in_dec s2) \<and> in_left s2 < in_left s1" if "key \<noteq> field"
      using that s2(1) in_walk_consumes(1) [OF _ l1(1)] by auto
    have v: "consumeUniqueJSONValue f (in_dec s1) = Some (in_dec s2)" "in_left s2 < in_left s1"
      using fld oth l1(2) by (cases "key = field"; cases f; auto)+
    have same: "in_found s2 = in_found s1 \<and> in_command s2 = in_command s1" if "key \<noteq> field"
      using that s2(1) in_value_keeps [of f l field "dp + 1" s1 s2] by auto
    note ks = key_state_token [OF st _ stk True, of key "in_dec s1"]
    have tk: "Token (in_dec s) = Some (TStr key, in_dec s1)" using kk by simp
    have kst: "tokenState (key_state (in_dec s)) = ObjectStart \<or> tokenState (key_state (in_dec s)) = ObjectKey"
      "tokenStack (key_state (in_dec s)) \<noteq> []" using st stk by (auto simp: key_state_def)
    from member_read [OF kst ks(1) [OF tk] v(1) l1(1,3)] obtain lt r u q where
      m: "starts_with (CHR 0x22) (peek (key_state (in_dec s)))" "scan_string (tl (peek (key_state (in_dec s)))) = Some (lt, r)" "key = unquote lt"
        "starts_with (CHR '':'') (skip_ws r)" "value_at dep (tl (skip_ws r)) = Some (u, q)"
        "in_dec s2 = (key_state (in_dec s))\<lparr>rest := q, tokenState := ObjectComma\<rparr>"
        "\<And>c x. Token (in_dec s1) = Some (TStr c, x) \<Longrightarrow> u = JStr c" by metis
    have l2: "2 * in_left s2 + 1 < f" "in_left s2 \<le> dep" using kk v Suc.prems(2,3) by linarith+
    have st2: "tokenStack (in_dec s2) \<noteq> []" "tokenState (in_dec s2) = ObjectStart \<or> tokenState (in_dec s2) = ObjectComma"
      using m(6) kst by auto
    from Suc.IH [OF s2(2) l2 st2] obtain ms r' where ms: "members_from dep (in_dec s2) = Some (ms, r')"
      "in_found s' \<longrightarrow> in_found s2 \<and> in_command s' = in_command s2
         \<or> (field, JStr (in_command s')) \<in> set ms \<and> validText (in_command s') \<and> len (in_command s') \<le> MaxCommandBytes l" by blast
    have pk: "peek (in_dec s2) = skip_ws q" using m(6) by (simp add: peek_def)
    have ts: "tokenState (in_dec s2) = ObjectComma" using m(6) by simp
    have "members_from dep (in_dec s) = Some ((key, u) # ms, r')"
      unfolding ks(2) [OF tk] using m(1-5) ms(1) ts
      by (auto simp: members_from_def members_at_eq [of dep "peek (key_state (in_dec s))"] pk Let_def split: if_splits)
    moreover have "u = JStr (in_command s2)" if "key = field" using fld [OF that] m(7) by blast
    ultimately show ?thesis using ms(2) kk same fld by (cases "key = field") auto
  qed
qed simp

lemma guard_input_member:
  assumes "guard_input l c raw field = ((cmd, abstain), c')"
  shows "\<exists>ms r. value_at (length raw) raw = Some (JObj ms, r) \<and> skip_ws r = [] \<and> unique_ok True (JObj ms)
    \<and> map_of ms field = Some (JStr cmd) \<and> validText cmd \<and> len cmd \<le> MaxCommandBytes l"
proof -
  let ?s = "\<lparr>in_ctx = c, in_nodes = 0, in_dec = NewDecoder raw True, in_command = [], in_found = False\<rparr>"
  from assms obtain s where s: "in_value (walk_fuel raw) l field 1 True ?s = Some (abstain, s)" "at_EOF (in_dec s)" "in_found s"
    "in_command s = cmd"
    by (auto simp: guard_input_def split: if_splits option.splits)
  have left: "2 * in_left ?s < walk_fuel raw" by (simp add: walk_fuel_def NewDecoder_def)
  have uk: "uniqueJSONKeys raw"
    using in_walk_consumes(1) [OF s(1) left] s(2) by (simp add: uniqueJSONKeys_def)
  then obtain v r where v: "value_at (length raw) raw = Some (v, r)" "skip_ws r = []" "unique_ok True v"
    using uniqueJSONKeys_at [OF order_refl, of raw] by (auto split: option.splits)
  obtain f where f: "walk_fuel raw = Suc f" "f = 2 * length raw" by (simp add: walk_fuel_def)
  obtain k s1 where t: "take_token l ?s = (k, s1)" by (metis surj_pair)
  from t have rd: "k = Inr (Delim (CHR ''{''))" "Token (NewDecoder raw True) = Some (Delim (CHR ''{''), in_dec s1)"
    "in_left s1 < length raw" "\<not> in_found s1" "in_members f l field 1 True [] s1 = Some (abstain, s)"
    using s(1) f(1)
    by (cases rule: take_token_cases; auto simp: in_value.simps NewDecoder_def split: if_splits)+
  have nb: "\<not> starts_with (CHR '']'') (peek (NewDecoder raw True))"
    using v(1) value_at_punct [of "peek (NewDecoder raw True)" "length raw"]
    by (auto simp: peek_def value_at_skip starts_with_def NewDecoder_def)
  have av: "tokenValueAllowed (tokenState (NewDecoder raw True))" by (simp add: NewDecoder_def tokenValueAllowed_def)
  have d1: "starts_with (CHR ''{'') (skip_ws raw)" "in_dec s1 = \<lparr>rest = tl (skip_ws raw), tokenState = ObjectStart, tokenStack = [TopValue], useNumber = True\<rparr>"
    using rd(2) [unfolded Token_value [OF av nb]]
    by (auto simp: NewDecoder_def peek_def Let_def split: if_splits option.splits dest: scalar_token_not_Delim)
  have "2 * in_left s1 + 1 < f" "in_left s1 \<le> length raw - 1" using rd(3) f(2) by linarith+
  from in_members_found [OF rd(5) this] d1(2) rd(4) s(3,4) obtain ms q where
    ms: "members_from (length raw - 1) (in_dec s1) = Some (ms, q)" "(field, JStr cmd) \<in> set ms" "validText cmd" "len cmd \<le> MaxCommandBytes l" by auto
  have "raw \<noteq> []" using d1(1) by (auto simp: skip_ws_def)
  have nb2: "\<not> starts_with (CHR ''['') (skip_ws raw)" using d1(1) by (auto simp: starts_with_def)
  have "v = JObj ms"
    using v(1) ms(1) d1 nb2 by (auto simp: value_at_eq [of _ raw] Let_def members_from_def peek_def split: if_splits)
  moreover from this v(3) ms(2) have "map_of ms field = Some (JStr cmd)" by simp
  ultimately show ?thesis using v ms(3,4) by blast
qed

text \<open>
  C8: the command that is analysed. When the walk over the raw input returns a command, the whole
  input is one JSON object in which no object at any depth repeats a key, and the command is
  the string its member under the configured field holds, valid UTF-8 without NUL bytes and
  within the size limit: a repeated or escaped key cannot hide another command.
\<close>

theorem guard_input_sound:
  assumes "guard_input l c raw field = ((cmd, abstain), c')"
  shows "\<exists>ms r. value_at (length raw) raw = Some (JObj ms, r) \<and> skip_ws r = [] \<and> unique_ok True (JObj ms)
    \<and> map_of ms field = Some (JStr cmd) \<and> validText cmd \<and> len cmd \<le> MaxCommandBytes l"
  using assms by (rule guard_input_member)

definition guard_demo_limits :: cg_Limits where
  "guard_demo_limits = \<lparr>MaxBindings = 2, MaxRules = 2, MaxRuleBytes = 32, MaxPrefixArgs = 2, MaxRawInputBytes = 64, MaxJSONDepth = 3,
     MaxJSONNodes = 8, MaxCommandBytes = 16, MaxAnalysisBytes = 32, MaxASTNodes = 16, MaxASTDepth = 8, MaxWords = 4, MaxWordBytes = 32,
     MaxWrapperDepth = 2, MaxInFlight = 2\<rparr>"

lemmas in_walk_numeral = in_value.simps(2) [of "pred_numeral k" for k, folded numeral_eq_Suc]
  in_members.simps(2) [of "pred_numeral k" for k, folded numeral_eq_Suc]
  in_elems.simps(2) [of "pred_numeral k" for k, folded numeral_eq_Suc]

theorem guard_input_sound_witness:
  "\<exists>ms r. value_at 12 ([CHR ''{'', CHR 0x22] @ ''cmd'' @ [CHR 0x22, CHR '':'', CHR 0x22] @ ''ls'' @ [CHR 0x22, CHR ''}'']) = Some (JObj ms, r)
    \<and> map_of ms ''cmd'' = Some (JStr ''ls'')"
proof -
  let ?raw = "[CHR ''{'', CHR 0x22] @ ''cmd'' @ [CHR 0x22, CHR '':'', CHR 0x22] @ ''ls'' @ [CHR 0x22, CHR ''}'']"
  have u: "unquote ''cmd'' = ''cmd''" "unquote ''ls'' = ''ls''" by (simp_all add: unquote.simps unquote_step_def utf8_eval)
  have "guard_input guard_demo_limits None ?raw ''cmd'' = ((''ls'', abstain), None)"
    by (simp add: guard_input_def guard_demo_limits_def len_def validText_def utf8_eval ContainsByte_def walk_fuel_def in_walk_numeral
        take_token_def in_key_def in_field_def in_end_def NewDecoder_def Token.simps peek_def skip_ws_def ws_byte_def More_def
        tokenValueAllowed_def tokenValueEnd_def scan_string.simps scalar_at_def u at_EOF_def Let_def)
  moreover have "length ?raw = 12" by simp
  ultimately show ?thesis using guard_input_sound [of guard_demo_limits None ?raw "''cmd''" "''ls''" None] by metis
qed

end
