(* ===== verification/Guard_Tool.thy ===== *)
theory Guard_Tool
  imports Guard_Sound Guard_Input
begin

section \<open>commandguard: guarding a tool call\<close>

text \<open>
  guard.go. The permits of the guard are a count of the calls in flight, taken without waiting
  and given back when the call returns, whichever way it returns. The deferred function polls
  the context once more and replaces whatever was returned by its error.
\<close>

datatype guard_decision = ToolGuardAbstain | ToolGuardDeny

record ToolGuardResult =
  Decision :: guard_decision
  Code :: string
  Message :: string

datatype guard_error = GuardCanceled | GuardInternal

definition denial :: "cg_outcome \<Rightarrow> ToolGuardResult" where
  "denial r =
     (if r = abstain then \<lparr>Decision = ToolGuardAbstain, Code = [], Message = []\<rparr>
      else \<lparr>Decision = ToolGuardDeny, Code = ''command_policy_denied'', Message = outcome_message r\<rparr>)"

definition guard_deferred ::
  "guard_error + ToolGuardResult \<Rightarrow> int \<Rightarrow> ctx \<Rightarrow> ((guard_error + ToolGuardResult) \<times> int) \<times> ctx" where
  "guard_deferred res permits c =
     (case ctx_Err c of (True, c) \<Rightarrow> ((Inl GuardCanceled, permits), c) | (False, c) \<Rightarrow> ((res, permits), c))"

definition new_analysis :: "ctx \<Rightarrow> analysis" where
  "new_analysis c = \<lparr>a_ctx = c, a_bytes = 0, a_nodes = 0, a_words = 0, a_decoded = [], a_parses = 0\<rparr>"

definition guard_analyse :: "'scope guard \<Rightarrow> Binding \<Rightarrow> bytes \<Rightarrow> ctx \<Rightarrow> cg_outcome option \<times> ctx" where
  "guard_analyse g b raw c =
     (case guard_input (g_limits g) c raw (CommandField b) of
        ((cmd, r), c) \<Rightarrow>
          if r = abstain then
            (case script g cmd (BindingDialect b) 0 0 (new_analysis c) of (r, a) \<Rightarrow> (r, a_ctx a))
          else (Some r, c))"

definition GuardTool ::
  "'scope guard \<Rightarrow> ctx \<Rightarrow> string \<Rightarrow> bytes \<Rightarrow> int \<Rightarrow> ((guard_error + ToolGuardResult) \<times> int) \<times> ctx" where
  "GuardTool g c tool raw permits =
     (case ctx_Err c of
        (True, c) \<Rightarrow> guard_deferred (Inl GuardCanceled) permits c
      | (False, c) \<Rightarrow>
          (case find (\<lambda>b. ToolName b = tool) (pol_bindings (g_policy g)) of
             None \<Rightarrow> guard_deferred (Inr (denial abstain)) permits c
           | Some b \<Rightarrow>
               if ToolName b = [] then guard_deferred (Inr (denial abstain)) permits c
               else if permits \<ge> MaxInFlight (g_limits g) then guard_deferred (Inr (denial capacity)) permits c
               else let permits = permits + 1 in
                 (case guard_analyse g b raw c of
                    (None, c) \<Rightarrow> guard_deferred (Inl GuardInternal) (permits - 1) c
                  | (Some r, c) \<Rightarrow>
                      (case ctx_Err c of
                         (True, c) \<Rightarrow> guard_deferred (Inl GuardCanceled) (permits - 1) c
                       | (False, c) \<Rightarrow> guard_deferred (Inr (denial r)) (permits - 1) c))))"

subsection \<open>Panics come from the parser\<close>

definition parser_fails :: "'scope guard \<Rightarrow> bool" where
  "parser_fails g \<longleftrightarrow> (\<exists>s d c. fst (g_parse g s d c) = ReadError \<or> fst (g_parse g s d c) = Parsed None)"

lemma walk_panic:
  shows "walk_node fin l depth path n a = (None, b) \<Longrightarrow> \<exists>n p d a b. fin n p d a = (None, b)"
    and "walk_nodes fin l depth path i ns a = (None, b) \<Longrightarrow> \<exists>n p d a b. fin n p d a = (None, b)"
proof (induction fin l depth path n a and fin l depth path i ns a arbitrary: b and b rule: walk_node_walk_nodes.induct)
  case (1 fin l depth path k cs a)
  obtain r a1 where i: "inspectNode l k depth a = (r, a1)" by (metis surj_pair)
  obtain s2 a2 where w: "walk_nodes fin l (depth + 1) path 0 cs a1 = (s2, a2)" by (metis surj_pair)
  have r: "r = abstain" using 1(2) i by (auto split: if_splits)
  show ?case
  proof (cases "s2 = None")
    case True
    with "1.IH" [OF i [symmetric]] r w show ?thesis by blast
  next
    case False
    with 1(2) i r w have "fin (Node k cs) path (depth + 1) a2 = (None, b)" by (auto split: cg_outcome.splits)
    then show ?thesis by blast
  qed
next
  case (3 fin l depth path i n ns a)
  obtain s1 a1 where w: "walk_node fin l depth (path @ [i]) n a = (s1, a1)" by (metis surj_pair)
  show ?case
  proof (cases "s1 = None")
    case True
    with "3.IH"(1) w show ?thesis by blast
  next
    case False
    with 3(3) w have "s1 = Some abstain" "walk_nodes fin l depth path (Suc i) ns a1 = (None, b)" by (auto split: cg_outcome.splits)
    with "3.IH"(2) [OF w [symmetric]] show ?thesis by blast
  qed
qed simp

lemma analysis_panic:
  shows "command g ws d w a = (None, b) \<Longrightarrow> parser_fails g"
    and "wrapper g name args d w a = (None, b) \<Longrightarrow> parser_fails g"
    and "shell g name args d w a = (None, b) \<Longrightarrow> parser_fails g"
    and "script g sc dia d w a = (None, b) \<Longrightarrow> parser_fails g"
    and "finishNode g k cr w n p d a = (None, b) \<Longrightarrow> parser_fails g"
proof (induction g ws d w a and g name args d w a and g name args d w a and g sc dia d w a and g k cr w n p d a
    arbitrary: b and b and b and b and b rule: command_wrapper_shell_script_finishNode.induct)
  case (1 g ws depth wrappers a)
  obtain e a1 where p: "a_poll a = (e, a1)" by (metis surj_pair)
  obtain r c where m: "match_rules (pol_rules (g_policy g)) (script_base (word_text (hd ws))) (tl ws) (a_ctx a1) = (r, c)" by (metis surj_pair)
  show ?case
    using "1.prems" p m "1.IH" [OF p [symmetric] _ _ refl _ refl refl m [symmetric] refl]
    by (subst (asm) command.simps) (auto simp: Let_def split: bool.splits if_splits)
next
  case (2 g name args depth wrappers a)
  obtain o1 c where wa: "wrapperArguments name args (a_ctx a) = (o1, c)" by (metis surj_pair)
  show ?case
    using "2.prems" wa "2.IH"(1) "2.IH"(2) [OF _ _ _ wa [symmetric]]
    by (subst (asm) wrapper.simps) (auto split: if_splits sum.splits)
next
  case (3 g name args depth wrappers a)
  then show ?case by (subst (asm) shell.simps) (auto split: sum.splits)
next
  case (4 g sc dialect base w a)
  show ?case
  proof (rule ccontr)
    assume nf: "\<not> parser_fails g"
    obtain e a1 where p: "a_poll a = (e, a1)" by (metis surj_pair)
    obtain masked carriage r where mk: "maskCarriageReturns sc = (masked, carriage, r)" by (metis surj_pair)
    obtain fl c where f: "g_parse g masked dialect (a_ctx a1) = (fl, c)" by (metis surj_pair)
    let ?a = "a1\<lparr>a_bytes := a_bytes a1 + len masked, a_ctx := c, a_parses := Suc (a_parses a1)\<rparr>"
    obtain e2 a2 where p2: "a_poll ?a = (e2, a2)" by (metis surj_pair)
    have fl: "fl \<noteq> ReadError" "fl \<noteq> Parsed None" using nf f unfolding parser_fails_def by (metis fst_conv)+
    note run = "4.prems" [unfolded script.simps Let_def p]
    have c1: "e = False" "\<not> (MaxCommandBytes (g_limits g) < len sc \<or> MaxAnalysisBytes (g_limits g) - a_bytes a1 < len sc \<or> MaxASTDepth (g_limits g) \<le> base)"
      "\<not> \<not> validText sc" "\<not> r \<noteq> abstain"
      using run mk by (cases e; auto split: if_splits)+
    have c2: "e2 = False" using run c1 mk f p2 by (cases e2) auto
    obtain t where t: "fl = Parsed (Some t)"
      using run c1 mk f p2 c2 fl by (cases fl) (auto split: option.splits)
    have "walk_node (\<lambda>n path d b. finishNode g (a_parses a2) carriage w n path d b) (g_limits g) base [] t a2 = (None, b)"
      using run c1 mk f p2 c2 t by simp
    from walk_panic(1) [OF this] obtain n p' d a' b' where "finishNode g (a_parses a2) carriage w n p' d a' = (None, b')" by blast
    with "4.IH" [OF refl p [symmetric] c1(1,2,3) mk [symmetric] refl c1(4) f [symmetric] refl p2 [symmetric] c2 t refl] nf show False by blast
  qed
next
  case (5 g serial carriage w n path depth a)
  then show ?case by (subst (asm) finishNode.simps) (auto simp: Let_def split: sh_kind.splits if_splits prod.splits)
qed

subsection \<open>Properties\<close>

lemma guard_deferred_cases:
  assumes "guard_deferred res permits c = ((r, p), c')"
  shows "p = permits \<and> (r = Inl GuardCanceled \<and> c' = Some 0 \<or> r = res \<and> fst (ctx_Err c) = False)"
  using assms by (cases "ctx_Err c") (auto simp: guard_deferred_def split: bool.splits dest: ctx_Err_True)

lemma ctx_Err_canceled_then: "ctx_Err c = (True, d) \<Longrightarrow> fst (ctx_Err d)"
  using ctx_Err_True by fastforce

text \<open>
  C4: what an abstention means. When the guard abstains on a call of a bound tool, the input is a
  JSON object with distinct keys whose configured field holds a command, and that command is
  admitted: it parses, every node of its syntax tree is of an admitted kind, and every call in
  it, through any nesting of env, command, exec, sudo, timeout, sh and bash, has a known
  executable, differs from every rule of the policy in a known or missing argument, and is not
  a builtin that evaluates its operands. No limit, cancellation or word that cannot be
  decoded leads to an abstention.
\<close>

theorem guard_abstains_soundly:
  assumes "GuardTool g c tool raw permits = ((Inr res, permits'), c')" and "Decision res = ToolGuardAbstain"
    and "find (\<lambda>b. ToolName b = tool) (pol_bindings (g_policy g)) = Some b" and "ToolName b \<noteq> []"
  shows "\<exists>ms r cmd. value_at (length raw) raw = Some (JObj ms, r) \<and> skip_ws r = [] \<and> unique_ok True (JObj ms)
    \<and> map_of ms (CommandField b) = Some (JStr cmd) \<and> admits_script g cmd (BindingDialect b)"
proof -
  obtain e c0 where c0: "ctx_Err c = (e, c0)" by (metis surj_pair)
  have e: "\<not> e" using assms(1) c0 ctx_Err_canceled_then [of c c0]
    by (cases e) (auto simp: GuardTool_def dest!: guard_deferred_cases)
  have full: "\<not> permits \<ge> MaxInFlight (g_limits g)"
    using assms c0 e by (auto simp: GuardTool_def denial_def dest!: guard_deferred_cases)
  obtain r c1 where r: "guard_analyse g b raw c0 = (r, c1)" by (metis surj_pair)
  have ab: "r = Some abstain"
  proof (cases r)
    case None
    with assms c0 e full r show ?thesis by (auto simp: GuardTool_def dest!: guard_deferred_cases)
  next
    case (Some q)
    obtain e2 c2 where "ctx_Err c1 = (e2, c2)" by (metis surj_pair)
    with Some assms c0 e full r show ?thesis
      by (cases e2) (auto simp: GuardTool_def denial_def Let_def split: if_splits dest!: guard_deferred_cases)
  qed
  obtain cmd q c2 where i: "guard_input (g_limits g) c0 raw (CommandField b) = ((cmd, q), c2)" by (metis surj_pair)
  obtain q2 a where s: "script g cmd (BindingDialect b) 0 0 (new_analysis c2) = (q2, a)" by (metis surj_pair)
  have q: "q = abstain" "q2 = Some abstain" using r ab i s by (auto simp: guard_analyse_def split: if_splits)
  from analysis_sound(4) [OF s [unfolded q(2)]] guard_input_member [OF i [unfolded q(1)]] show ?thesis by blast
qed

text \<open>A policy that denies \<open>rm -rf\<close>, and a parser that knows two scripts.\<close>

definition demo_call :: "string list \<Rightarrow> sh_node" where
  "demo_call ws = Node File [Node Stmt [Node CallExpr (map (\<lambda>w. Node Word [Node (Lit w) []]) ws)]]"

definition demo_guard :: "nat guard" where
  "demo_guard = \<lparr>g_policy = \<lparr>pol_scope = 0, pol_order = 1, pol_bindings = [\<lparr>ToolName = ''shell'', CommandField = ''cmd'', BindingDialect = DialectPOSIX\<rparr>],
       pol_rules = [\<lparr>RuleID = ''r'', Executable = ''rm'', ArgPrefix = [''-rf'']\<rparr>], pol_limits = guard_demo_limits\<rparr>,
     g_parse = (\<lambda>s d c. (if s = ''ls'' then Parsed (Some (demo_call [''ls''])) else ParseError, c)),
     g_split = (\<lambda>n. False)\<rparr>"

lemma demo_input:
  "guard_input guard_demo_limits c ([CHR ''{'', CHR 0x22] @ ''cmd'' @ [CHR 0x22, CHR '':'', CHR 0x22] @ ''ls'' @ [CHR 0x22, CHR ''}'']) ''cmd''
   = ((''ls'', abstain), None)" if "c = None"
proof -
  have u: "unquote ''cmd'' = ''cmd''" "unquote ''ls'' = ''ls''" by (simp_all add: unquote.simps unquote_step_def utf8_eval)
  show ?thesis using that
    by (simp add: guard_input_def guard_demo_limits_def len_def validText_def utf8_eval ContainsByte_def walk_fuel_def in_walk_numeral
        take_token_def in_key_def in_field_def in_end_def NewDecoder_def Token.simps peek_def skip_ws_def ws_byte_def More_def
        tokenValueAllowed_def tokenValueEnd_def scan_string.simps scalar_at_def u at_EOF_def Let_def)
qed

lemma demo_script: "\<exists>a. script demo_guard ''ls'' DialectPOSIX 0 0 (new_analysis None) = (Some abstain, a) \<and> a_ctx a = None"
  by (simp add: demo_guard_def guard_demo_limits_def script.simps finishNode.simps command.simps wrapper.simps demo_call_def new_analysis_def a_poll_def
      len_def validText_def utf8_eval ContainsByte_def maskCarriageReturns_def inspectNode_def Let_def decode_def decode_parts.simps
      mark_unquoted_def appendText_def call_args_def is_word_def decoded_at_def HasSuffix_def script_base_def LastIndexByte_def
      builtin_def opaque_builtins_def wrapper_names_def)

theorem guard_abstains_soundly_witness:
  "\<exists>ms r cmd. value_at 12 ([CHR ''{'', CHR 0x22] @ ''cmd'' @ [CHR 0x22, CHR '':'', CHR 0x22] @ ''ls'' @ [CHR 0x22, CHR ''}'']) = Some (JObj ms, r)
    \<and> map_of ms ''cmd'' = Some (JStr cmd) \<and> admits_script demo_guard cmd DialectPOSIX"
proof -
  let ?raw = "[CHR ''{'', CHR 0x22] @ ''cmd'' @ [CHR 0x22, CHR '':'', CHR 0x22] @ ''ls'' @ [CHR 0x22, CHR ''}'']"
  let ?b = "\<lparr>ToolName = ''shell'', CommandField = ''cmd'', BindingDialect = DialectPOSIX\<rparr>"
  have l: "g_limits demo_guard = guard_demo_limits" by (simp add: demo_guard_def)
  have f: "find (\<lambda>b. ToolName b = ''shell'') (pol_bindings (g_policy demo_guard)) = Some ?b" by (simp add: demo_guard_def)
  have an: "guard_analyse demo_guard ?b ?raw None = (Some abstain, None)"
    using demo_script demo_input [OF refl] by (auto simp: guard_analyse_def l)
  have "GuardTool demo_guard None ''shell'' ?raw 0 = ((Inr (denial abstain), 0), None)"
    using an f by (simp add: GuardTool_def l guard_demo_limits_def guard_deferred_def)
  from guard_abstains_soundly [OF this _ f] have "\<exists>ms r cmd. value_at (length ?raw) ?raw = Some (JObj ms, r) \<and> skip_ws r = [] \<and> unique_ok True (JObj ms)
    \<and> map_of ms ''cmd'' = Some (JStr cmd) \<and> admits_script demo_guard cmd DialectPOSIX" by (simp add: denial_def)
  moreover have "length ?raw = 12" by simp
  ultimately show ?thesis by metis
qed

text \<open>
  C7: how a guarded call can end. Whatever the input, the policy and the moment of cancellation,
  the permit that was taken is given back, and the call returns the context's error only when
  the context is cancelled, the internal error only when the parser fails with an error of its
  own or returns no tree, and otherwise an abstention or a denial with the fixed code and one
  of five fixed messages: nothing of the command reaches the result.
\<close>

theorem guard_tool_results:
  assumes "GuardTool g c tool raw permits = ((res, permits'), c')"
  shows "permits' = permits \<and>
    (case res of
       Inl GuardCanceled \<Rightarrow> c' = Some 0
     | Inl GuardInternal \<Rightarrow> parser_fails g
     | Inr d \<Rightarrow> d = \<lparr>Decision = ToolGuardAbstain, Code = [], Message = []\<rparr>
         \<or> Decision d = ToolGuardDeny \<and> Code d = ''command_policy_denied''
           \<and> Message d \<in> outcome_message ` {ruleMatch, invalidCommand, unanalysable, analysisLimit, capacity})"
proof -
  define ok where "ok d \<longleftrightarrow> d = \<lparr>Decision = ToolGuardAbstain, Code = [], Message = []\<rparr> \<or> Decision d = ToolGuardDeny
      \<and> Code d = ''command_policy_denied'' \<and> Message d \<in> outcome_message ` {ruleMatch, invalidCommand, unanalysable, analysisLimit, capacity}" for d
  have den: "ok (denial r)" for r by (cases r) (simp_all add: denial_def ok_def)
  let ?goal = "permits' = permits \<and> (case res of Inl GuardCanceled \<Rightarrow> c' = Some 0 | Inl GuardInternal \<Rightarrow> parser_fails g | Inr d \<Rightarrow> ok d)"
  have fin: ?goal if "guard_deferred q permits d = ((res, permits'), c')" "q = Inl GuardInternal \<longrightarrow> parser_fails g"
    "q = Inl GuardCanceled \<longrightarrow> fst (ctx_Err d)" "\<And>x. q = Inr x \<Longrightarrow> \<exists>r. x = denial r" for q d
    using guard_deferred_cases [OF that(1)] that(2-4) den by (cases res) (auto split: guard_error.splits)
  obtain e c0 where c0: "ctx_Err c = (e, c0)" by (metis surj_pair)
  have ?goal
  proof (cases "e \<or> find (\<lambda>b. ToolName b = tool) (pol_bindings (g_policy g)) = None")
    case True
    then show ?thesis using assms c0 fin [of "if e then Inl GuardCanceled else Inr (denial abstain)" c0] ctx_Err_canceled_then [of c c0]
      by (cases e) (auto simp: GuardTool_def)
  next
    case False
    then obtain b where b: "find (\<lambda>b. ToolName b = tool) (pol_bindings (g_policy g)) = Some b" "e = False" by auto
    show ?thesis
    proof (cases "ToolName b = [] \<or> permits \<ge> MaxInFlight (g_limits g)")
      case True
      then show ?thesis using assms c0 b fin [of "Inr (denial (if ToolName b = [] then abstain else capacity))" c0]
        by (auto simp: GuardTool_def split: if_splits)
    next
      case False
      obtain r c1 where r: "guard_analyse g b raw c0 = (r, c1)" by (metis surj_pair)
      obtain e2 c2 where c2: "ctx_Err c1 = (e2, c2)" by (metis surj_pair)
      show ?thesis
      proof (cases r)
        case None
        then have "parser_fails g"
          using r analysis_panic(4) by (fastforce simp: guard_analyse_def split: prod.splits if_splits)
        with None assms c0 b False r show ?thesis using fin [of "Inl GuardInternal" c1] by (auto simp: GuardTool_def Let_def)
      next
        case (Some q)
        then show ?thesis
          using assms c0 b False r c2 fin [of "if e2 then Inl GuardCanceled else Inr (denial q)" c2] ctx_Err_canceled_then [of c1 c2]
          by (cases e2) (auto simp: GuardTool_def Let_def)
      qed
    qed
  qed
  then show ?thesis unfolding ok_def .
qed

theorem guard_tool_results_witness:
  "GuardTool demo_guard None ''shell'' [] 2 = ((Inr (denial capacity), 2), None)
   \<and> Message (denial capacity) \<in> outcome_message ` {ruleMatch, invalidCommand, unanalysable, analysisLimit, capacity}"
proof -
  have g: "GuardTool demo_guard None ''shell'' [] 2 = ((Inr (denial capacity), 2), None)"
    by (simp add: GuardTool_def demo_guard_def guard_demo_limits_def guard_deferred_def)
  from guard_tool_results [OF g] g show ?thesis by (simp add: denial_def)
qed

text \<open>
  the budgets. However scripts nest, an analysis that starts within the budgets for script
  bytes, syntax nodes and words ends within them, denied or not: the counters are shared by
  all nested scripts and never reset.
\<close>

theorem analysis_within_budget:
  assumes "script g s dialect baseDepth wrappers a = (r, b)"
    and "0 \<le> a_bytes a" and "a_bytes a \<le> MaxAnalysisBytes (g_limits g)" and "a_nodes a \<le> MaxASTNodes (g_limits g)"
    and "a_words a \<le> MaxWords (g_limits g)"
  shows "a_bytes b \<le> MaxAnalysisBytes (g_limits g) \<and> a_nodes b \<le> MaxASTNodes (g_limits g) \<and> a_words b \<le> MaxWords (g_limits g)"
  using analysis_budget(4) [OF assms(1)] assms(2-5) by (simp add: within_budget_def)

theorem analysis_within_budget_witness:
  "\<exists>b. script demo_guard ''ls'' DialectPOSIX 0 0 (new_analysis None) = (Some abstain, b) \<and> a_nodes b \<le> 16"
proof -
  from demo_script obtain b where b: "script demo_guard ''ls'' DialectPOSIX 0 0 (new_analysis None) = (Some abstain, b)" by blast
  have l: "g_limits demo_guard = guard_demo_limits" by (simp add: demo_guard_def)
  from analysis_within_budget [OF b] b show ?thesis by (simp add: l new_analysis_def guard_demo_limits_def)
qed

text \<open>
  carriage returns. Masking keeps the length and removes every carriage return, and restoring
  the mask byte, as the decoding of words does, gives back the script byte for byte.
\<close>

theorem maskCarriageReturns_roundtrip:
  assumes "maskCarriageReturns s = (masked, carriage, abstain)"
  shows "length masked = length s \<and> CHR 0x0D \<notin> set masked
    \<and> (if carriage \<noteq> CHR 0x00 then ReplaceByte masked carriage (CHR 0x0D) else masked) = s"
proof (cases "CHR 0x0D \<in> set s")
  case False
  with assms show ?thesis by (auto simp: maskCarriageReturns_def ContainsByte_def)
next
  case True
  then have cb: "ContainsByte s (CHR 0x0D)" by (simp add: ContainsByte_def)
  let ?find = "find (\<lambda>candidate. \<not> ContainsByte s candidate) mask_candidates"
  have run: "(case ?find of Some x \<Rightarrow> (ReplaceByte s (CHR 0x0D) x, x, abstain) | None \<Rightarrow> ([], CHR 0x00, unanalysable)) = (masked, carriage, abstain)"
    using assms cb unfolding maskCarriageReturns_def by simp
  obtain x where x: "?find = Some x" using run by (cases ?find) simp_all
  have eq: "masked = ReplaceByte s (CHR 0x0D) x" "carriage = x" using run unfolding x by auto
  from find_SomeD [OF x] have m: "x \<in> set mask_candidates" and ns: "x \<notin> set s" unfolding ContainsByte_def by blast+
  have "CHR 0x00 \<notin> set mask_candidates" "CHR 0x0D \<notin> set mask_candidates" by (simp_all add: mask_candidates_def)
  with m have "x \<noteq> CHR 0x00" "x \<noteq> CHR 0x0D" by blast+
  moreover have "map (\<lambda>y. if y = x then CHR 0x0D else y) (map (\<lambda>y. if y = CHR 0x0D then x else y) s) = s"
    using ns by (induction s) auto
  ultimately show ?thesis unfolding eq by (auto simp: ReplaceByte_def)
qed

theorem maskCarriageReturns_roundtrip_witness:
  "maskCarriageReturns [CHR ''a'', CHR 0x0D] = ([CHR ''a'', CHR 0x01], CHR 0x01, abstain)
   \<and> ReplaceByte [CHR ''a'', CHR 0x01] (CHR 0x01) (CHR 0x0D) = [CHR ''a'', CHR 0x0D]"
proof -
  have m: "maskCarriageReturns [CHR ''a'', CHR 0x0D] = ([CHR ''a'', CHR 0x01], CHR 0x01, abstain)"
    by (simp add: maskCarriageReturns_def mask_candidates_def ContainsByte_def ReplaceByte_def)
  from maskCarriageReturns_roundtrip [OF m] m show ?thesis by simp
qed

subsection \<open>Canonical policies\<close>

lemma strictly_sorted:
  "sorted (map k xs) \<Longrightarrow> \<not> adjacent_equal k xs \<Longrightarrow> sorted_wrt (<) (map k xs)"
proof (induction k xs rule: adjacent_equal.induct)
  case (1 k x y xs)
  then have ih: "sorted_wrt (<) (map k (y # xs))" by auto
  have "k x < k y" using 1(2,3) by (auto simp: less_le)
  with ih show ?case by (auto dest: less_trans)
qed simp_all

definition policy_well_formed :: "(string \<Rightarrow> bool) \<Rightarrow> 'scope cg_policy \<Rightarrow> bool" where
  "policy_well_formed validIdentifier p \<longleftrightarrow>
     pol_bindings p \<noteq> [] \<and> sorted_wrt (<) (map ToolName (pol_bindings p))
     \<and> (\<forall>b \<in> set (pol_bindings p). validIdentifier (ToolName b) \<and> validText (CommandField b)
          \<and> (BindingDialect b = DialectPOSIX \<or> BindingDialect b = DialectBash))
     \<and> pol_rules p \<noteq> [] \<and> sorted_wrt (<) (map RuleID (pol_rules p))
     \<and> (\<forall>r \<in> set (pol_rules p). validIdentifier (RuleID r) \<and> Executable r \<noteq> [] \<and> CHR ''/'' \<notin> set (Executable r)
          \<and> len (ArgPrefix r) \<le> MaxPrefixArgs (pol_limits p))
     \<and> 0 < MaxWrapperDepth (pol_limits p) \<and> 0 < MaxInFlight (pol_limits p)
     \<and> MaxCommandBytes (pol_limits p) \<le> MaxAnalysisBytes (pol_limits p)"

text \<open>
  the canonical policy. Options are refused, or become a policy whose bindings and rules are
  strictly sorted by tool name and rule id, so that each tool has one binding, with a known
  dialect in every binding, valid identifiers and field names, executables that are plain file
  names, and limits that fit together.
\<close>

theorem cg_canonicalize_well_formed:
  assumes "cg_canonicalize GlobalScope OrderHostPolicy validScope validIdentifier opts = Inr p"
  shows "policy_well_formed validIdentifier p"
proof -
  let ?l = "cg_Limits opts"
  define bs where "bs = (case cg_Bindings opts of None \<Rightarrow> DefaultBindings | Some bs \<Rightarrow> bs)"
  define sc where "sc = (case cg_Scope opts of None \<Rightarrow> GlobalScope | Some s \<Rightarrow> s)"
  let ?norm = "\<lambda>b. if BindingDialect b = [] then b\<lparr>BindingDialect := DialectPOSIX\<rparr> else b"
  have f: "bs \<noteq> []" "cg_Rules opts \<noteq> []" "first_error (check_binding validIdentifier ?l) bs = None"
      "first_error (check_rule validIdentifier ?l) (cg_Rules opts) = None"
      "pol_bindings p = sort_key ToolName (map ?norm bs)" "pol_rules p = sort_key RuleID (cg_Rules opts)" "pol_limits p = ?l"
      "\<not> adjacent_equal ToolName (pol_bindings p)" "\<not> adjacent_equal RuleID (pol_rules p)"
      "0 < MaxWrapperDepth ?l" "0 < MaxInFlight ?l" "MaxCommandBytes ?l \<le> MaxAnalysisBytes ?l"
    using assms [unfolded cg_canonicalize_def Let_def, folded bs_def sc_def]
    by (cases "first_error (check_binding validIdentifier ?l) bs"; cases "first_error (check_rule validIdentifier ?l) (cg_Rules opts)";
        auto simp: not_less split: if_split_asm)+
  have b: "validIdentifier (ToolName b) \<and> validText (CommandField b) \<and> (BindingDialect b = DialectPOSIX \<or> BindingDialect b = DialectBash)"
    if "b \<in> set (pol_bindings p)" for b
  proof -
    from that f(5) obtain b0 where b0: "b0 \<in> set bs" "b = ?norm b0" by auto
    from first_error_None [OF f(3) b0(1)] b0(2) show ?thesis
      by (auto simp: check_binding_def Let_def split: if_splits)
  qed
  have r: "validIdentifier (RuleID r) \<and> Executable r \<noteq> [] \<and> CHR ''/'' \<notin> set (Executable r) \<and> len (ArgPrefix r) \<le> MaxPrefixArgs ?l"
    if "r \<in> set (pol_rules p)" for r
  proof -
    from that f(6) have r0: "r \<in> set (cg_Rules opts)" by simp
    from first_error_None [OF f(4) r0]
    have "validIdentifier (RuleID r)" "Executable r \<noteq> []" "\<not> ContainsAny (Executable r) [CHR ''/'', CHR 0x5C]" "len (ArgPrefix r) \<le> MaxPrefixArgs ?l"
      by (simp_all add: check_rule_def Let_def split: if_split_asm option.split_asm)
    then show ?thesis by (auto simp: ContainsAny_def list_ex_iff)
  qed
  have "length (pol_bindings p) = length bs" "length (pol_rules p) = length (cg_Rules opts)" unfolding f(5,6) by simp_all
  with f(1,2) have "pol_bindings p \<noteq> []" "pol_rules p \<noteq> []" by auto
  moreover have "sorted_wrt (<) (map ToolName (pol_bindings p))" "sorted_wrt (<) (map RuleID (pol_rules p))"
    using f(8,9) unfolding f(5,6) by (intro strictly_sorted; simp)+
  ultimately show ?thesis using b r f(7,10-12) by (simp add: policy_well_formed_def)
qed

theorem cg_canonicalize_well_formed_witness:
  "\<exists>p. cg_canonicalize (0::nat) 1 (\<lambda>s. True) (\<lambda>s. True)
     \<lparr>cg_Scope = None, cg_Order = 0, cg_Bindings = Some [\<lparr>ToolName = ''t'', CommandField = ''f'', BindingDialect = []\<rparr>],
      cg_Rules = [\<lparr>RuleID = ''r'', Executable = ''rm'', ArgPrefix = [''-f'']\<rparr>], cg_Limits = guard_demo_limits\<rparr> = Inr p
   \<and> policy_well_formed (\<lambda>s. True) p"
proof -
  let ?o = "\<lparr>cg_Scope = None, cg_Order = 0, cg_Bindings = Some [\<lparr>ToolName = ''t'', CommandField = ''f'', BindingDialect = []\<rparr>],
      cg_Rules = [\<lparr>RuleID = ''r'', Executable = ''rm'', ArgPrefix = [''-f'']\<rparr>], cg_Limits = guard_demo_limits\<rparr>"
  have v: "validText ''f''" "validText ''rm''" "validText ''-f''" "TrimSpace ''f'' = ''f''"
    by (simp_all add: validText_def ContainsByte_def utf8_eval)
  have "\<exists>p. cg_canonicalize (0::nat) 1 (\<lambda>s. True) (\<lambda>s. True) ?o = Inr p"
    by (simp add: cg_canonicalize_def guard_demo_limits_def DialectPOSIX_def len_def check_binding_def check_rule_def v ContainsAny_def)
  then obtain p where p: "cg_canonicalize (0::nat) 1 (\<lambda>s. True) (\<lambda>s. True) ?o = Inr p" by blast
  from cg_canonicalize_well_formed [OF p] p show ?thesis by blast
qed

end
