(* ===== verification/Repl_Gate.thy ===== *)
theory Repl_Gate
  imports Prelude
begin

section \<open>pythonrepl: the operation gate\<close>

text \<open>
  session.go: \<open>operationGate\<close>, the first-in-first-out lock with a bounded queue that serialises
  execute, clear and close of one owner. Every definition is one section under the gate's mutex;
  the state also records where each caller of \<open>acquire\<close> is, and \<open>gate_step\<close> interleaves the
  sections of any number of callers. The context of a caller may end at any moment.
\<close>

subsection \<open>The gate and its callers\<close>

text \<open>
  \<open>Waits\<close> is a caller in the \<open>select\<close> of \<open>acquire\<close> whose \<open>ready\<close> channel is open, \<open>Granted\<close> one whose
  waiter was granted, \<open>Holds\<close> one that \<open>acquire\<close> gave the release function to.
\<close>

datatype caller_at = Away | Waits | Granted | Holds

record operationGate =
  gate_active :: bool
  gate_waiters :: "nat list"
  gate_maximum :: nat
  gate_at :: "nat \<Rightarrow> caller_at"

datatype acquire_result = GateHeld | GateQueueFull | GateBlocked | GateContextError

definition newOperationGate :: "nat \<Rightarrow> operationGate" where
  "newOperationGate maximum = \<lparr>gate_active = False, gate_waiters = [], gate_maximum = maximum, gate_at = (\<lambda>c. Away)\<rparr>"

definition gate_release :: "nat \<Rightarrow> operationGate \<Rightarrow> operationGate" where
  "gate_release c g =
     (let g = g\<lparr>gate_at := (gate_at g)(c := Away)\<rparr> in
      case gate_waiters g of
        [] \<Rightarrow> g\<lparr>gate_active := False\<rparr>
      | waiter # waiters \<Rightarrow> g\<lparr>gate_waiters := waiters, gate_at := (gate_at g)(waiter := Granted)\<rparr>)"

text \<open>The first section of \<open>acquire\<close>.\<close>

definition gate_enter :: "nat \<Rightarrow> operationGate \<Rightarrow> acquire_result \<times> operationGate" where
  "gate_enter c g =
     (if \<not> gate_active g then (GateHeld, g\<lparr>gate_active := True, gate_at := (gate_at g)(c := Holds)\<rparr>)
      else if length (gate_waiters g) \<ge> gate_maximum g then (GateQueueFull, g)
      else (GateBlocked, g\<lparr>gate_waiters := gate_waiters g @ [c], gate_at := (gate_at g)(c := Waits)\<rparr>))"

text \<open>The two cases of the \<open>select\<close>: the waiter is ready, or the caller's context has ended.\<close>

definition gate_ready :: "bool \<Rightarrow> nat \<Rightarrow> operationGate \<Rightarrow> acquire_result \<times> operationGate" where
  "gate_ready ctxErr c g =
     (if ctxErr then (GateContextError, gate_release c g) else (GateHeld, g\<lparr>gate_at := (gate_at g)(c := Holds)\<rparr>))"

definition gate_canceled :: "nat \<Rightarrow> operationGate \<Rightarrow> acquire_result \<times> operationGate" where
  "gate_canceled c g =
     (if gate_at g c = Granted then (GateContextError, gate_release c g)
      else (GateContextError, g\<lparr>gate_waiters := remove1 c (gate_waiters g), gate_at := (gate_at g)(c := Away)\<rparr>))"

inductive gate_step :: "operationGate \<Rightarrow> operationGate \<Rightarrow> bool" where
  enters: "gate_at g c = Away \<Longrightarrow> gate_step g (snd (gate_enter c g))"
| wakes: "gate_at g c = Granted \<Longrightarrow> gate_step g (snd (gate_ready ctxErr c g))"
| cancels: "gate_at g c = Waits \<or> gate_at g c = Granted \<Longrightarrow> gate_step g (snd (gate_canceled c g))"
| releases: "gate_at g c = Holds \<Longrightarrow> gate_step g (gate_release c g)"

definition gate_reachable :: "nat \<Rightarrow> operationGate \<Rightarrow> bool" where
  "gate_reachable maximum g \<longleftrightarrow> gate_step\<^sup>*\<^sup>* (newOperationGate maximum) g"

subsection \<open>The invariant\<close>

text \<open>The callers the gate is held by or has been handed to.\<close>

definition gate_owners :: "operationGate \<Rightarrow> nat set" where
  "gate_owners g = {c. gate_at g c = Holds \<or> gate_at g c = Granted}"

definition gate_ok :: "nat \<Rightarrow> operationGate \<Rightarrow> bool" where
  "gate_ok maximum g \<longleftrightarrow>
     gate_maximum g = maximum \<and> distinct (gate_waiters g) \<and> set (gate_waiters g) = {c. gate_at g c = Waits} \<and>
     length (gate_waiters g) \<le> maximum \<and>
     (if gate_active g then \<exists>c. gate_owners g = {c} else gate_owners g = {} \<and> gate_waiters g = [])"

lemma gate_ok_new: "gate_ok maximum (newOperationGate maximum)"
  by (simp add: gate_ok_def newOperationGate_def gate_owners_def)

lemma gate_owner_unique:
  assumes "gate_ok maximum g" "c \<in> gate_owners g"
  shows "gate_active g" "gate_owners g = {c}"
  using assms by (auto simp: gate_ok_def split: if_splits)

lemma gate_ok_release:
  assumes ok: "gate_ok maximum g" and c: "c \<in> gate_owners g"
  shows "gate_ok maximum (gate_release c g)"
proof -
  have own: "gate_active g" "gate_owners g = {c}" using gate_owner_unique[OF ok c] .
  then have oth: "gate_at g x \<noteq> Holds \<and> gate_at g x \<noteq> Granted" if "x \<noteq> c" for x using that by (auto simp: gate_owners_def)
  have cw: "gate_at g c \<noteq> Waits" using c by (auto simp: gate_owners_def)
  show ?thesis
  proof (cases "gate_waiters g")
    case Nil
    then have "gate_at g x \<noteq> Waits" for x using ok by (auto simp: gate_ok_def)
    then show ?thesis using ok Nil oth by (auto simp: gate_ok_def gate_release_def gate_owners_def)
  next
    case (Cons w ws)
    then have "w \<noteq> c" and ws: "set (w # ws) = {x. gate_at g x = Waits}" "distinct (w # ws)" using ok cw by (auto simp: gate_ok_def)
    then have "gate_owners (gate_release c g) = {w}" using Cons oth by (auto simp: gate_owners_def gate_release_def)
    moreover have "set ws = {x. gate_at (gate_release c g) x = Waits}" using ws Cons cw by (auto simp: gate_release_def)
    ultimately show ?thesis using ok Cons own by (auto simp: gate_ok_def gate_release_def)
  qed
qed

lemma gate_ok_step:
  assumes "gate_step g g'" "gate_ok maximum g"
  shows "gate_ok maximum g'"
  using assms(1)
proof (cases rule: gate_step.cases)
  case (enters c)
  have "gate_owners (g\<lparr>gate_waiters := gate_waiters g @ [c], gate_at := (gate_at g)(c := Waits)\<rparr>) = gate_owners g"
    using enters(2) by (auto simp: gate_owners_def)
  moreover have "gate_owners (g\<lparr>gate_active := True, gate_at := (gate_at g)(c := Holds)\<rparr>) = insert c (gate_owners g)" by (auto simp: gate_owners_def)
  ultimately show ?thesis unfolding enters(1) using assms(2) enters(2) by (auto simp: gate_enter_def gate_ok_def)
next
  case (wakes c ctxErr)
  then have "c \<in> gate_owners g" by (simp add: gate_owners_def)
  moreover have "gate_owners (g\<lparr>gate_at := (gate_at g)(c := Holds)\<rparr>) = gate_owners g" using wakes by (auto simp: gate_owners_def)
  moreover have "{x. gate_at (g\<lparr>gate_at := (gate_at g)(c := Holds)\<rparr>) x = Waits} = {x. gate_at g x = Waits}" using wakes by auto
  ultimately show ?thesis using assms(2) wakes(1) gate_ok_release[OF assms(2), of c] by (cases ctxErr) (simp_all add: gate_ready_def gate_ok_def)
next
  case (cancels c)
  show ?thesis
  proof (cases "gate_at g c = Granted")
    case True
    then show ?thesis using cancels gate_ok_release[OF assms(2), of c] by (simp add: gate_canceled_def gate_owners_def)
  next
    case False
    then have "gate_owners (g\<lparr>gate_waiters := remove1 c (gate_waiters g), gate_at := (gate_at g)(c := Away)\<rparr>) = gate_owners g"
      using cancels by (auto simp: gate_owners_def)
    then show ?thesis using cancels False assms(2) length_remove1[of c "gate_waiters g"]
      by (auto simp: gate_canceled_def gate_ok_def)
  qed
next
  case (releases c)
  then show ?thesis using gate_ok_release[OF assms(2), of c] by (simp add: gate_owners_def)
qed

lemma gate_reachable_ok: "gate_reachable maximum g \<Longrightarrow> gate_ok maximum g"
  unfolding gate_reachable_def by (induction rule: rtranclp_induct) (auto intro: gate_ok_new gate_ok_step)

text \<open>
  C19: Whatever the callers of one owner's gate do and whenever their contexts end, the gate is held by, or
  handed to, at most one of them, and it is marked active exactly while there is one; the queue lists
  every waiting caller once, and never more than the maximum.
\<close>

theorem gate_exclusive:
  assumes "gate_reachable maximum g"
  shows "(\<forall>c d. gate_at g c \<in> {Holds, Granted} \<and> gate_at g d \<in> {Holds, Granted} \<longrightarrow> c = d) \<and>
    (gate_active g \<longleftrightarrow> (\<exists>c. gate_at g c \<in> {Holds, Granted})) \<and>
    distinct (gate_waiters g) \<and> set (gate_waiters g) = {c. gate_at g c = Waits} \<and> length (gate_waiters g) \<le> maximum \<and>
    (gate_waiters g \<noteq> [] \<longrightarrow> gate_active g)"
proof -
  have ok: "gate_ok maximum g" using gate_reachable_ok[OF assms] .
  have "c = d" if "gate_at g c \<in> {Holds, Granted}" "gate_at g d \<in> {Holds, Granted}" for c d
    using gate_owner_unique(2)[OF ok, of c] gate_owner_unique(2)[OF ok, of d] that by (auto simp: gate_owners_def)
  moreover have "gate_active g \<longleftrightarrow> (\<exists>c. gate_at g c \<in> {Holds, Granted})"
    using ok unfolding gate_ok_def gate_owners_def by (auto split: if_splits)
  ultimately show ?thesis using ok by (auto simp: gate_ok_def)
qed

subsection \<open>Every waiter is served, in order\<close>

text \<open>
  What one step is, for the proofs below: a caller queues up, finds the gate free or the queue full,
  goes on with the gate it was handed, gives the gate up, or stops waiting.
\<close>

lemma gate_step_shape:
  assumes "gate_step g g'"
  obtains (queued) d where "gate_at g d = Away" "gate_active g" "gate_waiters g' = gate_waiters g @ [d]" "gate_at g' = (gate_at g)(d := Waits)"
  | (free) d where "gate_at g d = Away" "\<not> gate_active g" "gate_waiters g' = gate_waiters g" "gate_at g' = (gate_at g)(d := Holds)"
  | (full) "g' = g"
  | (goes_on) d where "gate_at g d = Granted" "gate_waiters g' = gate_waiters g" "gate_at g' = (gate_at g)(d := Holds)"
  | (gives_up) d where "d \<in> gate_owners g" "g' = gate_release d g"
  | (stops) d where "gate_at g d = Waits" "gate_waiters g' = remove1 d (gate_waiters g)" "gate_at g' = (gate_at g)(d := Away)"
  using assms
proof (cases rule: gate_step.cases)
  case (enters d)
  then show thesis
    using queued[of d] free[of d] full by (cases "gate_active g"; cases "length (gate_waiters g) \<ge> gate_maximum g") (simp_all add: gate_enter_def)
next
  case (wakes d ctxErr)
  then show thesis using gives_up[of d] goes_on[of d] by (cases ctxErr) (simp_all add: gate_ready_def gate_owners_def)
next
  case (cancels d)
  then show thesis using gives_up[of d] stops[of d] by (cases "gate_at g d = Granted") (simp_all add: gate_canceled_def gate_owners_def)
next
  case (releases d)
  then show thesis using gives_up[of d] by (simp add: gate_owners_def)
qed

lemma gate_release_fields:
  "gate_waiters (gate_release c g) = tl (gate_waiters g)"
  "gate_waiters g = [] \<Longrightarrow> gate_at (gate_release c g) = (gate_at g)(c := Away)"
  "gate_waiters g = w # ws \<Longrightarrow> gate_at (gate_release c g) = (gate_at g)(c := Away, w := Granted)"
  by (cases "gate_waiters g"; simp add: gate_release_def)+

lemma gate_waiter_no_owner: "gate_ok maximum g \<Longrightarrow> x \<in> set (gate_waiters g) \<Longrightarrow> x \<notin> gate_owners g"
  by (auto simp: gate_ok_def gate_owners_def)

text \<open>
  The runs through which the caller \<open>c\<close> neither stops waiting nor gives the gate up again, with the number
  of times the gate was given up on the way.
\<close>

definition owner_left :: "operationGate \<Rightarrow> operationGate \<Rightarrow> bool" where
  "owner_left g g' \<longleftrightarrow> (\<exists>d. gate_at g d \<in> {Holds, Granted} \<and> gate_at g' d = Away)"

inductive gate_run :: "nat \<Rightarrow> operationGate \<Rightarrow> nat \<Rightarrow> operationGate \<Rightarrow> bool" for c g where
  stays: "gate_run c g 0 g"
| passes: "gate_run c g n h \<Longrightarrow> gate_step h h' \<Longrightarrow> gate_at h' c \<noteq> Away \<Longrightarrow> gate_run c g (if owner_left h h' then Suc n else n) h'"

lemma owner_left_release:
  assumes "gate_ok maximum g" "d \<in> gate_owners g"
  shows "owner_left g (gate_release d g)"
proof -
  have "gate_at (gate_release d g) d = Away"
    using gate_waiter_no_owner[OF assms(1), of d] assms(2) by (cases "gate_waiters g") (auto simp: gate_release_fields)
  then show ?thesis using assms(2) by (auto simp: owner_left_def gate_owners_def)
qed

text \<open>Where \<open>c\<close> can be when it waited behind \<open>ws\<close> and the gate was given up \<open>n\<close> times since.\<close>

definition gate_turn :: "nat \<Rightarrow> operationGate \<Rightarrow> nat list \<Rightarrow> nat \<Rightarrow> operationGate \<Rightarrow> bool" where
  "gate_turn c g ws n h \<longleftrightarrow> n \<le> Suc (length ws) \<and>
     (c \<in> gate_owners h \<or> (\<exists>us vs. gate_waiters h = us @ c # vs \<and> n + length us \<le> length ws \<and> set us \<subseteq> set ws \<and> gate_owners h \<subseteq> gate_owners g \<union> set ws))"

lemma gate_turn_step:
  assumes "gate_ok maximum h" "gate_step h h'" "gate_at h' c \<noteq> Away" "gate_turn c g ws n h"
  shows "gate_turn c g ws (if owner_left h h' then Suc n else n) h'"
proof (cases "c \<in> gate_owners h")
  case True
  then have only: "gate_owners h = {c}" using gate_owner_unique(2)[OF assms(1)] by blast
  have own: "gate_at h c = Holds \<or> gate_at h c = Granted" using True by (simp add: gate_owners_def)
  have oth: "gate_at h x \<noteq> Holds \<and> gate_at h x \<noteq> Granted" if "x \<noteq> c" for x using only that by (auto simp: gate_owners_def)
  have "c \<in> gate_owners h' \<and> \<not> owner_left h h'"
    using assms(2)
  proof (cases rule: gate_step_shape)
    case (gives_up d)
    then have "gate_at h' c = Away"
      using only gate_waiter_no_owner[OF assms(1), of c] by (cases "gate_waiters h") (auto simp: gate_release_fields)
    then show ?thesis using assms(3) by simp
  qed (use own oth in \<open>auto simp: gate_owners_def owner_left_def split: if_splits\<close>)
  then show ?thesis using assms(4) by (simp add: gate_turn_def)
next
  case False
  then obtain us vs where t: "gate_waiters h = us @ c # vs" "n + length us \<le> length ws" "set us \<subseteq> set ws" "gate_owners h \<subseteq> gate_owners g \<union> set ws"
    using assms(4) by (auto simp: gate_turn_def)
  then have waits: "gate_at h c = Waits" using assms(1) by (auto simp: gate_ok_def)
  show ?thesis
    using assms(2)
  proof (cases rule: gate_step_shape)
    case (queued d)
    then have "gate_owners h' = gate_owners h" "\<not> owner_left h h'" by (auto simp: gate_owners_def owner_left_def)
    then show ?thesis using t queued(3) by (auto simp: gate_turn_def)
  next
    case (free d)
    then show ?thesis using assms(1) t(1) by (simp add: gate_ok_def)
  next
    case full
    then show ?thesis using assms(4) by (auto simp: owner_left_def)
  next
    case (goes_on d)
    then have "gate_owners h' = gate_owners h" "\<not> owner_left h h'" by (auto simp: gate_owners_def owner_left_def)
    then show ?thesis using t goes_on(2) by (auto simp: gate_turn_def)
  next
    case (gives_up d)
    have left: "owner_left h h'" using owner_left_release[OF assms(1)] gives_up by simp
    have only: "gate_owners h = {d}" using gate_owner_unique(2)[OF assms(1) gives_up(1)] .
    show ?thesis
    proof (cases us)
      case Nil
      then have "c \<in> gate_owners h'" using t(1) gives_up(2) by (simp add: gate_release_fields gate_owners_def)
      then show ?thesis using left t(2) by (simp add: gate_turn_def)
    next
      case (Cons u us')
      then have "gate_owners h' \<subseteq> insert u (gate_owners h)" and w: "gate_waiters h' = us' @ c # vs"
        using t(1) gives_up(2) by (auto simp: gate_release_fields gate_owners_def split: if_splits)
      then have "gate_owners h' \<subseteq> gate_owners g \<union> set ws" "Suc n + length us' \<le> length ws" "set us' \<subseteq> set ws" using t(2-4) Cons by auto
      with w have "\<exists>us vs. gate_waiters h' = us @ c # vs \<and> Suc n + length us \<le> length ws \<and> set us \<subseteq> set ws \<and> gate_owners h' \<subseteq> gate_owners g \<union> set ws"
        by blast
      moreover have "Suc n \<le> Suc (length ws)" using t(2) by simp
      ultimately show ?thesis using left by (simp only: gate_turn_def if_True simp_thms)
    qed
  next
    case (stops d)
    then have frame: "gate_owners h' = gate_owners h" "\<not> owner_left h h'" "d \<noteq> c" using assms(3) by (auto simp: gate_owners_def owner_left_def)
    obtain us' vs' where q: "gate_waiters h' = us' @ c # vs'" "length us' \<le> length us" "set us' \<subseteq> set us"
    proof (cases "d \<in> set us")
      case True
      then have "gate_waiters h' = remove1 d us @ c # vs" using stops(2) t(1) by (simp add: remove1_append)
      then show thesis using that[of "remove1 d us" vs] set_remove1_subset[of d us] length_remove1[of d us] by (simp split: if_splits)
    next
      case False
      then have "gate_waiters h' = us @ c # remove1 d vs" using stops(2) t(1) frame(3) by (simp add: remove1_append)
      then show thesis using that[of us "remove1 d vs"] by simp
    qed
    have "n + length us' \<le> length ws" "set us' \<subseteq> set ws" "gate_owners h' \<subseteq> gate_owners g \<union> set ws" using q(2,3) t(2-4) frame(1) by auto
    with q(1) have "\<exists>us vs. gate_waiters h' = us @ c # vs \<and> n + length us \<le> length ws \<and> set us \<subseteq> set ws \<and> gate_owners h' \<subseteq> gate_owners g \<union> set ws"
      by blast
    moreover have "n \<le> Suc (length ws)" using t(2) by simp
    ultimately show ?thesis using frame(2) by (simp only: gate_turn_def if_False simp_thms)
  qed
qed

lemma gate_run_turn:
  assumes "gate_run c g n h" "gate_ok maximum g" "gate_waiters g = ws @ c # vs"
  shows "gate_ok maximum h \<and> gate_turn c g ws n h"
  using assms(1)
proof (induction rule: gate_run.induct)
  case stays
  then show ?case using assms(2,3) by (auto simp: gate_turn_def)
next
  case (passes n h h')
  then show ?case using gate_turn_step gate_ok_step by blast
qed

text \<open>The run in which nobody stops waiting: the owner gives the gate up, as often as there are callers before \<open>c\<close>.\<close>

lemma gate_run_release:
  assumes "gate_run c g n h" "gate_ok maximum h" "gate_waiters h = w # ws" "c \<in> set (w # ws)"
  obtains h' where "gate_run c g (Suc n) h'" "gate_at h' w = Granted" "gate_waiters h' = ws" "gate_ok maximum h'"
proof -
  obtain d where d: "d \<in> gate_owners h" using assms(2,3) by (auto simp: gate_ok_def split: if_splits)
  have c: "gate_at h c = Waits" using assms(2-4) by (auto simp: gate_ok_def)
  define k where "k = h\<lparr>gate_at := (gate_at h)(d := Holds)\<rparr>"
  have k: "gate_run c g n k" "gate_ok maximum k" "gate_at k d = Holds" "gate_waiters k = w # ws"
  proof -
    have "gate_run c g n k \<and> gate_ok maximum k"
    proof (cases "gate_at h d = Granted")
      case True
      then have st: "gate_step h k" using gate_step.wakes[of h d False] by (simp add: gate_ready_def k_def)
      have "\<not> owner_left h k" "gate_at k c \<noteq> Away" using c by (auto simp: owner_left_def k_def)
      then show ?thesis using gate_run.passes[OF assms(1) st] gate_ok_step[OF st assms(2)] by simp
    next
      case False
      then have "k = h" using d by (auto simp: k_def gate_owners_def fun_upd_idem)
      then show ?thesis using assms(1,2) by simp
    qed
    then show "gate_run c g n k" "gate_ok maximum k" by simp_all
  qed (simp_all add: k_def assms(3))
  have own: "d \<in> gate_owners k" using k(3) by (simp add: gate_owners_def)
  have st: "gate_step k (gate_release d k)" by (rule gate_step.releases[OF k(3)])
  have "d \<noteq> c" using own gate_waiter_no_owner[OF k(2), of c] k(4) assms(4) by auto
  then have "gate_at (gate_release d k) c \<noteq> Away" using c d k(4) by (auto simp: gate_release_fields k_def gate_owners_def)
  then have "gate_run c g (Suc n) (gate_release d k)" using gate_run.passes[OF k(1) st] owner_left_release[OF k(2) own] by simp
  then show thesis using that[of "gate_release d k"] k(4) gate_ok_step[OF st k(2)] by (simp add: gate_release_fields)
qed

lemma gate_run_serves:
  "gate_run c g n h \<Longrightarrow> gate_ok maximum h \<Longrightarrow> gate_waiters h = ws @ c # vs \<Longrightarrow> \<exists>h'. gate_run c g (n + Suc (length ws)) h' \<and> gate_at h' c = Holds"
proof (induction ws arbitrary: n h)
  case Nil
  obtain k where k: "gate_run c g (Suc n) k" "gate_at k c = Granted" using gate_run_release[OF Nil(1,2), of c vs] Nil(3) by auto
  define h' where "h' = snd (gate_ready False c k)"
  have st: "gate_step k h'" unfolding h'_def using k(2) by (rule gate_step.wakes)
  have f: "gate_at h' c = Holds" "\<not> owner_left k h'" by (auto simp: h'_def gate_ready_def owner_left_def)
  have "gate_run c g (Suc n) h'" using gate_run.passes[OF k(1) st] f by simp
  then show ?case using f(1) by auto
next
  case (Cons w ws)
  obtain k where k: "gate_run c g (Suc n) k" "gate_waiters k = ws @ c # vs" "gate_ok maximum k"
    using gate_run_release[OF Cons(2,3), of w "ws @ c # vs"] Cons(4) by auto
  then show ?case using Cons.IH[OF k(1,3,2)] by simp
qed

text \<open>
  C28: The gate is fair and never lost. A caller joins the queue only behind everyone in it, and leaves it only
  because it stops waiting itself or because it is first and is handed the gate; whoever gets the gate was
  first in the queue or found the gate free with nobody waiting. A caller that waits behind \<open>n\<close> others and does not stop waiting
  has the gate after the gate was given up \<open>n + 1\<close> times at the latest, in whatever way the callers
  interleave, and until then only those who were before it have the gate; and \<open>n + 1\<close> releases without
  any caller giving up its place do get it the gate.
\<close>

theorem gate_fair:
  assumes "gate_reachable maximum g"
  shows "(\<forall>g'. gate_step g g' \<longrightarrow>
      (gate_waiters g' = gate_waiters g \<or>
       (\<exists>c. gate_at g c = Away \<and> gate_at g' c = Waits \<and> gate_waiters g' = gate_waiters g @ [c]) \<or>
       (\<exists>c. gate_at g c = Waits \<and> gate_at g' c = Away \<and> gate_waiters g' = remove1 c (gate_waiters g)) \<or>
       (\<exists>c. gate_waiters g = c # gate_waiters g' \<and> gate_at g' c = Granted)) \<and>
      (\<forall>c. gate_at g c \<notin> {Holds, Granted} \<and> gate_at g' c \<in> {Holds, Granted} \<longrightarrow>
         (if gate_active g then gate_waiters g \<noteq> [] \<and> c = hd (gate_waiters g) else gate_waiters g = []))) \<and>
    (\<forall>ws c vs. gate_waiters g = ws @ c # vs \<longrightarrow>
      (\<forall>n g'. gate_run c g n g' \<longrightarrow> n \<le> Suc (length ws) \<and>
         (gate_at g' c \<in> {Holds, Granted} \<or> gate_at g' c = Waits \<and> n \<le> length ws \<and> gate_owners g' \<subseteq> gate_owners g \<union> set ws)) \<and>
      (\<exists>g'. gate_run c g (Suc (length ws)) g' \<and> gate_at g' c = Holds))"
proof (intro conjI allI impI)
  have ok: "gate_ok maximum g" using gate_reachable_ok[OF assms] .
  fix g'
  assume st: "gate_step g g'"
  show "gate_waiters g' = gate_waiters g \<or>
       (\<exists>c. gate_at g c = Away \<and> gate_at g' c = Waits \<and> gate_waiters g' = gate_waiters g @ [c]) \<or>
       (\<exists>c. gate_at g c = Waits \<and> gate_at g' c = Away \<and> gate_waiters g' = remove1 c (gate_waiters g)) \<or>
       (\<exists>c. gate_waiters g = c # gate_waiters g' \<and> gate_at g' c = Granted)"
    using st
  proof (cases rule: gate_step_shape)
    case (gives_up d)
    then show ?thesis by (cases "gate_waiters g") (auto simp: gate_release_fields)
  qed auto
  fix c
  assume new: "gate_at g c \<notin> {Holds, Granted} \<and> gate_at g' c \<in> {Holds, Granted}"
  show "if gate_active g then gate_waiters g \<noteq> [] \<and> c = hd (gate_waiters g) else gate_waiters g = []"
    using st
  proof (cases rule: gate_step_shape)
    case (free d)
    then show ?thesis using ok by (simp add: gate_ok_def)
  next
    case (gives_up d)
    then show ?thesis using new gate_owner_unique(1)[OF ok gives_up(1)]
      by (cases "gate_waiters g") (auto simp: gate_release_fields split: if_splits)
  qed (use new in \<open>auto split: if_splits\<close>)
next
  fix ws c vs n g'
  assume w: "gate_waiters g = ws @ c # vs" and run: "gate_run c g n g'"
  have t: "gate_ok maximum g'" "gate_turn c g ws n g'" using gate_run_turn[OF run gate_reachable_ok[OF assms] w] by simp_all
  then show "n \<le> Suc (length ws)" by (simp add: gate_turn_def)
  show "gate_at g' c \<in> {Holds, Granted} \<or> gate_at g' c = Waits \<and> n \<le> length ws \<and> gate_owners g' \<subseteq> gate_owners g \<union> set ws"
    using t by (auto simp: gate_turn_def gate_ok_def gate_owners_def)
next
  fix ws c vs
  assume "gate_waiters g = ws @ c # vs"
  then show "\<exists>g'. gate_run c g (Suc (length ws)) g' \<and> gate_at g' c = Holds"
    using gate_run_serves[OF gate_run.stays gate_reachable_ok[OF assms]] by simp
qed

definition gate_demo :: operationGate where
  "gate_demo = snd (gate_enter 1 (snd (gate_enter 0 (newOperationGate 1))))"

lemma gate_demo_reachable: "gate_reachable 1 gate_demo"
proof -
  let ?g = "newOperationGate 1"
  have "gate_step ?g (snd (gate_enter 0 ?g))" by (rule gate_step.enters) (simp add: newOperationGate_def)
  moreover have "gate_step (snd (gate_enter 0 ?g)) gate_demo"
    unfolding gate_demo_def by (rule gate_step.enters) (simp add: newOperationGate_def gate_enter_def)
  ultimately show ?thesis unfolding gate_reachable_def by (meson converse_rtranclp_into_rtranclp rtranclp.rtrancl_refl)
qed

lemma gate_demo_fields: "gate_at gate_demo 0 = Holds" "gate_at gate_demo 1 = Waits" "gate_waiters gate_demo = [1]" "gate_active gate_demo"
  by (simp_all add: gate_demo_def gate_enter_def newOperationGate_def)

theorem gate_exclusive_witness:
  "gate_at gate_demo 0 = Holds \<and> gate_at gate_demo 1 \<noteq> Holds \<and> set (gate_waiters gate_demo) = {1} \<and> fst (gate_enter 2 gate_demo) = GateQueueFull"
proof -
  have "\<forall>c d. gate_at gate_demo c \<in> {Holds, Granted} \<and> gate_at gate_demo d \<in> {Holds, Granted} \<longrightarrow> c = d"
    using gate_exclusive[OF gate_demo_reachable] by blast
  then have "gate_at gate_demo 1 \<noteq> Holds" using gate_demo_fields(1) by (metis insertI1 zero_neq_one)
  then show ?thesis using gate_demo_fields by (simp add: gate_enter_def gate_demo_def newOperationGate_def)
qed

theorem gate_fair_witness:
  "gate_at gate_demo 1 = Waits \<and> (\<exists>g'. gate_run 1 gate_demo 1 g' \<and> gate_at g' 1 = Holds)"
proof -
  have "gate_waiters gate_demo = [] @ 1 # []" using gate_demo_fields(3) by simp
  then have "\<exists>g'. gate_run 1 gate_demo (Suc (length ([] :: nat list))) g' \<and> gate_at g' 1 = Holds"
    using gate_fair[OF gate_demo_reachable] by blast
  then show ?thesis using gate_demo_fields(2) by simp
qed

end
