(* ===== verification/Repl_Frame.thy ===== *)
theory Repl_Frame
  imports Json_Encode "HOL-Library.List_Lexorder"
begin

section \<open>pythonrepl: the frames between the host and the interpreter\<close>

text \<open>
  runner.go: the length-prefixed frames, the structural walk \<open>validJSONStructure\<close>, the strict decoding of
  the runner's messages and their validation, and the part of the fixed Python runner that bounds and
  writes what it reports. A Python string is the UTF-8 encoding it has after
  \<open>value.encode("utf-8", "replace")\<close>. What the interpreter computes is an argument.
\<close>

subsection \<open>The structural walk\<close>

definition validJSONStructure :: "bytes \<Rightarrow> bool" where
  "validJSONStructure raw =
     (case consumeUniqueJSONValue (walk_fuel raw) (NewDecoder raw False) of
        None \<Rightarrow> False
      | Some d \<Rightarrow> at_EOF d)"

lemma validJSONStructure_at:
  assumes "length raw \<le> dep"
  shows "validJSONStructure raw \<longleftrightarrow>
    (case value_at dep raw of None \<Rightarrow> False | Some (v, r) \<Rightarrow> skip_ws r = [] \<and> unique_ok False v)"
  using consume_value [of "NewDecoder raw False" "walk_fuel raw" dep] assms
  by (auto simp: validJSONStructure_def NewDecoder_def tokenValueAllowed_def walk_fuel_def value_spec_def at_EOF_def
      peek_def split: option.split)

lemma validJSONStructure_document:
  assumes "json_document raw = Some v"
  shows "validJSONStructure raw \<longleftrightarrow> unique_ok False v"
proof -
  from assms obtain r where v: "value_at maxNestingDepth raw = Some (v, r)" and r: "skip_ws r = []"
    by (auto simp: json_document_def json_read_value_at split: option.splits if_splits)
  let ?dep = "max (length raw) maxNestingDepth"
  have "value_at ?dep raw = Some (v, r)" using v unfolding value_at_def by (rule parse_value_mono) simp
  with validJSONStructure_at [of raw ?dep] r show ?thesis by simp
qed

subsection \<open>Frames\<close>

definition PutUint32 :: "nat \<Rightarrow> bytes" where
  "PutUint32 n = map (\<lambda>k. char_of (n div 256 ^ k mod 256)) [3, 2, 1, 0]"

definition Uint32 :: "bytes \<Rightarrow> nat" where
  "Uint32 h = foldl (\<lambda>n c. 256 * n + byte c) 0 h"

definition encodeFrame :: "json \<Rightarrow> nat \<Rightarrow> bytes option" where
  "encodeFrame v maximum =
     (let body = enc v in
      if body = [] \<or> length body > maximum then None else Some (PutUint32 (length body) @ body))"

datatype frame_error = ProtocolRead | ProtocolFrame | ProtocolJson

text \<open>\<open>io.ReadFull\<close> on what the pipe still delivers before it ends.\<close>

definition ReadFull :: "nat \<Rightarrow> bytes \<Rightarrow> (bytes \<times> bytes) option" where
  "ReadFull n stream = (if length stream < n then None else Some (take n stream, drop n stream))"

definition readFrame :: "(json \<Rightarrow> 'i option) \<Rightarrow> nat \<Rightarrow> bytes \<Rightarrow> (frame_error + 'i) \<times> bytes" where
  "readFrame into maximum stream =
     (case ReadFull 4 stream of
        None \<Rightarrow> (Inl ProtocolRead, [])
      | Some (header, stream) \<Rightarrow>
          let n = Uint32 header in
          if n = 0 \<or> n > maximum then (Inl ProtocolFrame, stream)
          else case ReadFull n stream of
            None \<Rightarrow> (Inl ProtocolRead, [])
          | Some (body, stream) \<Rightarrow>
              if \<not> utf8_valid body \<or> \<not> validJSONStructure body then (Inl ProtocolJson, stream)
              else case json_document body of
                None \<Rightarrow> (Inl ProtocolJson, stream)
              | Some v \<Rightarrow> (case into v of None \<Rightarrow> (Inl ProtocolJson, stream) | Some i \<Rightarrow> (Inr i, stream)))"

subsection \<open>Messages\<close>

record runnerRequest =
  rq_Version :: string
  rq_ID :: nat
  rq_Code :: string

record BoundedText =
  bt_Text :: string
  bt_Truncated :: bool

record runnerResponse =
  rr_Version :: string
  rr_ID :: nat
  rr_Status :: string
  rr_Stdout :: BoundedText
  rr_Stderr :: BoundedText
  rr_Result :: BoundedText
  rr_Exception :: BoundedText

definition request_json :: "runnerRequest \<Rightarrow> json" where
  "request_json r = JObj [(''version'', JStr (rq_Version r)), (''id'', JNum (nat_digits (rq_ID r))), (''code'', JStr (rq_Code r))]"

text \<open>Decoding into a bool, and into a uint64, where a literal must be digits in range.\<close>

fun into_bool :: "bool \<Rightarrow> json \<Rightarrow> bool option" where
  "into_bool old (JBool b) = Some b"
| "into_bool old JNull = Some old"
| "into_bool old _ = None"

definition parse_uint64 :: "bytes \<Rightarrow> nat option" where
  "parse_uint64 l = (if list_all is_digit l \<and> digits_value l < 2 ^ 64 then Some (digits_value l) else None)"

fun into_uint64 :: "nat \<Rightarrow> json \<Rightarrow> nat option" where
  "into_uint64 old JNull = Some old"
| "into_uint64 old (JNum l) = parse_uint64 l"
| "into_uint64 old _ = None"

text \<open>Decoding an object member by member with unknown fields disallowed, as for every strict decoder.\<close>

definition set_member :: "string list \<Rightarrow> (string \<Rightarrow> json \<Rightarrow> 'i \<Rightarrow> 'i option) \<Rightarrow> string \<times> json \<Rightarrow> 'i option \<Rightarrow> 'i option" where
  "set_member names put m acc =
     (case acc of None \<Rightarrow> None
      | Some i \<Rightarrow> (case field_of names (fst m) of None \<Rightarrow> None | Some n \<Rightarrow> put n (snd m) i))"

fun into_struct :: "string list \<Rightarrow> (string \<Rightarrow> json \<Rightarrow> 'i \<Rightarrow> 'i option) \<Rightarrow> 'i \<Rightarrow> json \<Rightarrow> 'i option" where
  "into_struct names put old (JObj ms) = fold (set_member names put) ms (Some old)"
| "into_struct names put old JNull = Some old"
| "into_struct names put old _ = None"

definition put_bounded :: "string \<Rightarrow> json \<Rightarrow> BoundedText \<Rightarrow> BoundedText option" where
  "put_bounded n v t =
     (if n = ''text'' then map_option (\<lambda>s. t\<lparr>bt_Text := s\<rparr>) (into_string (bt_Text t) v)
      else map_option (\<lambda>b. t\<lparr>bt_Truncated := b\<rparr>) (into_bool (bt_Truncated t) v))"

definition into_bounded :: "BoundedText \<Rightarrow> json \<Rightarrow> BoundedText option" where
  "into_bounded = into_struct [''text'', ''truncated''] put_bounded"

definition response_names :: "string list" where
  "response_names = [''version'', ''id'', ''status'', ''stdout'', ''stderr'', ''result'', ''exception'']"

definition put_response :: "string \<Rightarrow> json \<Rightarrow> runnerResponse \<Rightarrow> runnerResponse option" where
  "put_response n v r =
     (if n = ''version'' then map_option (\<lambda>s. r\<lparr>rr_Version := s\<rparr>) (into_string (rr_Version r) v)
      else if n = ''id'' then map_option (\<lambda>i. r\<lparr>rr_ID := i\<rparr>) (into_uint64 (rr_ID r) v)
      else if n = ''status'' then map_option (\<lambda>s. r\<lparr>rr_Status := s\<rparr>) (into_string (rr_Status r) v)
      else if n = ''stdout'' then map_option (\<lambda>t. r\<lparr>rr_Stdout := t\<rparr>) (into_bounded (rr_Stdout r) v)
      else if n = ''stderr'' then map_option (\<lambda>t. r\<lparr>rr_Stderr := t\<rparr>) (into_bounded (rr_Stderr r) v)
      else if n = ''result'' then map_option (\<lambda>t. r\<lparr>rr_Result := t\<rparr>) (into_bounded (rr_Result r) v)
      else map_option (\<lambda>t. r\<lparr>rr_Exception := t\<rparr>) (into_bounded (rr_Exception r) v))"

definition zero_text :: BoundedText where
  "zero_text = \<lparr>bt_Text = [], bt_Truncated = False\<rparr>"

definition zero_response :: runnerResponse where
  "zero_response = \<lparr>rr_Version = [], rr_ID = 0, rr_Status = [], rr_Stdout = zero_text, rr_Stderr = zero_text, rr_Result = zero_text, rr_Exception = zero_text\<rparr>"

definition response_into :: "json \<Rightarrow> runnerResponse option" where
  "response_into = into_struct response_names put_response zero_response"

subsection \<open>Which responses the host accepts\<close>

record text_limits =
  repl_MaxOutputBytesPerStream :: int
  repl_MaxResultBytes :: int
  MaxExceptionBytes :: int

definition runnerProtocolVersion :: string where
  "runnerProtocolVersion = ''python-repl-runner-v1''"

definition empty_text :: "BoundedText \<Rightarrow> bool" where
  "empty_text t \<longleftrightarrow> bt_Text t = [] \<and> \<not> bt_Truncated t"

definition field_ok :: "BoundedText \<times> int \<Rightarrow> bool" where
  "field_ok = (\<lambda>(v, maximum). \<not> (len (bt_Text v) > maximum \<or> \<not> utf8_valid (bt_Text v)))"

definition validRunnerResponse :: "'a text_limits_scheme \<Rightarrow> nat \<Rightarrow> runnerResponse \<Rightarrow> bool" where
  "validRunnerResponse l i r =
     (if rr_Version r \<noteq> runnerProtocolVersion \<or> rr_ID r \<noteq> i \<or> (rr_Status r \<noteq> ''completed'' \<and> rr_Status r \<noteq> ''python_error'') then False
      else if \<not> list_all field_ok [(rr_Stdout r, repl_MaxOutputBytesPerStream l), (rr_Stderr r, repl_MaxOutputBytesPerStream l),
           (rr_Result r, repl_MaxResultBytes l), (rr_Exception r, MaxExceptionBytes l)] then False
      else if rr_Status r = ''completed'' \<and> \<not> empty_text (rr_Exception r) then False
      else if rr_Status r = ''python_error'' \<and> \<not> empty_text (rr_Result r) then False
      else True)"

subsection \<open>The Python side\<close>

text \<open>Dropping bytes from the end until the rest decodes.\<close>

function trim_to_valid :: "bytes \<Rightarrow> bytes" where
  "trim_to_valid raw = (if raw = [] then [] else if utf8_valid raw then raw else trim_to_valid (butlast raw))"
  by pat_completeness auto
termination by (relation "measure length") auto

declare trim_to_valid.simps [simp del]

definition py_bounded :: "bytes \<Rightarrow> nat \<Rightarrow> BoundedText" where
  "py_bounded raw maximum =
     (if length raw \<le> maximum then \<lparr>bt_Text = raw, bt_Truncated = False\<rparr>
      else \<lparr>bt_Text = trim_to_valid (take maximum raw), bt_Truncated = True\<rparr>)"

record BoundedWriter =
  bw_maximum :: nat
  bw_parts :: "bytes list"
  bw_used :: nat
  bw_truncated :: bool

definition new_BoundedWriter :: "nat \<Rightarrow> BoundedWriter" where
  "new_BoundedWriter maximum = \<lparr>bw_maximum = maximum, bw_parts = [], bw_used = 0, bw_truncated = False\<rparr>"

definition bw_write :: "BoundedWriter \<Rightarrow> bytes \<Rightarrow> BoundedWriter" where
  "bw_write w raw =
     (if bw_truncated w then w
      else
        let room = bw_maximum w - bw_used w;
            cut = length raw > room;
            raw = (if cut then trim_to_valid (take room raw) else raw);
            w = (if cut then w\<lparr>bw_truncated := True\<rparr> else w) in
        if raw \<noteq> [] then w\<lparr>bw_parts := bw_parts w @ [raw], bw_used := bw_used w + length raw\<rparr> else w)"

definition bw_result :: "BoundedWriter \<Rightarrow> BoundedText" where
  "bw_result w = \<lparr>bt_Text = concat (bw_parts w), bt_Truncated = bw_truncated w\<rparr>"

text \<open>What a snippet did: what it wrote, and the printed value or the printed exception.\<close>

datatype snippet_end = Evaluated bytes | Finished | Raised bytes

definition py_response :: "'a text_limits_scheme \<Rightarrow> nat \<Rightarrow> bytes list \<Rightarrow> bytes list \<Rightarrow> snippet_end \<Rightarrow> runnerResponse" where
  "py_response l i out err fin =
     \<lparr>rr_Version = runnerProtocolVersion, rr_ID = i,
      rr_Status = (case fin of Raised _ \<Rightarrow> ''python_error'' | _ \<Rightarrow> ''completed''),
      rr_Stdout = bw_result (foldl bw_write (new_BoundedWriter (nat (repl_MaxOutputBytesPerStream l))) out),
      rr_Stderr = bw_result (foldl bw_write (new_BoundedWriter (nat (repl_MaxOutputBytesPerStream l))) err),
      rr_Result = (case fin of Evaluated v \<Rightarrow> py_bounded v (nat (repl_MaxResultBytes l)) | _ \<Rightarrow> zero_text),
      rr_Exception = (case fin of Raised e \<Rightarrow> py_bounded e (nat (MaxExceptionBytes l)) | _ \<Rightarrow> zero_text)\<rparr>"

text \<open>\<open>json.dumps\<close> with \<open>ensure_ascii=False\<close> escapes the quote, the backslash and the control characters.\<close>

definition py_escape :: "char \<Rightarrow> bytes" where
  "py_escape c = (if byte c < 0x80 \<and> \<not> List.member [CHR ''<'', CHR ''>'', CHR ''&''] c then escape_ascii c else [c])"

definition py_escape_body :: "bytes \<Rightarrow> bytes" where
  "py_escape_body s = concat (map py_escape s)"

definition bounded_json :: "BoundedText \<Rightarrow> json" where
  "bounded_json t = JObj [(''text'', JStr (bt_Text t)), (''truncated'', JBool (bt_Truncated t))]"

definition response_json :: "runnerResponse \<Rightarrow> json" where
  "response_json r = JObj [(''version'', JStr (rr_Version r)), (''id'', JNum (nat_digits (rr_ID r))), (''status'', JStr (rr_Status r)),
     (''stdout'', bounded_json (rr_Stdout r)), (''stderr'', bounded_json (rr_Stderr r)),
     (''result'', bounded_json (rr_Result r)), (''exception'', bounded_json (rr_Exception r))]"

definition py_write_frame :: "nat \<Rightarrow> runnerResponse \<Rightarrow> bytes option" where
  "py_write_frame maximum r =
     (let raw = enc_with py_escape_body (response_json r) in
      if raw = [] \<or> length raw > maximum then None else Some (PutUint32 (length raw) @ raw))"

subsection \<open>What the Python runner writes is read back\<close>

lemma py_escape_ascii:
  assumes "byte c < 0x80"
  shows "scan_string (py_escape c @ t) = map_option (\<lambda>(l, r). (py_escape c @ l, r)) (scan_string t)"
    and "unquote (py_escape c @ t) = c # unquote t" and "length (py_escape c) \<le> 6"
proof -
  show "scan_string (py_escape c @ t) = map_option (\<lambda>(l, r). (py_escape c @ l, r)) (scan_string t)"
    using escape_ascii_scan[OF assms, of t] assms
    by (cases "List.member [CHR ''<'', CHR ''>'', CHR ''&''] c") (auto simp: py_escape_def scan_string_plain)
  have "unquote ([c] @ t) = c # unquote t" if "List.member [CHR ''<'', CHR ''>'', CHR ''&''] c"
    using unquote_stepI[of "[c] @ t" "[c]" 1] that by (auto simp: unquote_step_def)
  then show "unquote (py_escape c @ t) = c # unquote t"
    using escape_ascii_unquote[OF assms, of t] assms by (auto simp: py_escape_def)
  show "length (py_escape c) \<le> 6" by (simp add: py_escape_def escape_ascii_def u_escape_def)
qed

lemma py_escape_high: "list_all (\<lambda>c. 0x80 \<le> byte c) p \<Longrightarrow> py_escape_body p = p"
  by (induction p) (auto simp: py_escape_body_def py_escape_def)

lemma py_escape_body_append: "py_escape_body (a @ b) = py_escape_body a @ py_escape_body b"
  by (simp add: py_escape_body_def)

lemma length_py_escape_body: "length (py_escape_body s) \<le> 6 * length s"
proof (induction s)
  case (Cons c s)
  then show ?case using py_escape_ascii(3)[of c] by (cases "byte c < 0x80") (auto simp: py_escape_body_def py_escape_def)
qed (simp add: py_escape_body_def)

lemma py_escape_body_reads:
  "utf8_valid s \<Longrightarrow> scan_string (py_escape_body s @ CHR 0x22 # r) = Some (py_escape_body s, r) \<and> unquote (py_escape_body s) = s"
proof (induction "length s" arbitrary: s rule: less_induct)
  case less
  show ?case
  proof (cases "s = []")
    case True
    then show ?thesis by (simp add: py_escape_body_def scan_string.simps)
  next
    case False
    let ?n = "snd (decode_rune s)"
    have ok: "rune_ok (decode_rune s)" and rest: "utf8_valid (drop ?n s)" using less.prems False by (simp_all add: utf8_valid_step)
    have n: "1 \<le> ?n" "?n \<le> length s" using decode_rune_size[OF False] by auto
    have IH: "scan_string (py_escape_body (drop ?n s) @ CHR 0x22 # r) = Some (py_escape_body (drop ?n s), r)"
        "unquote (py_escape_body (drop ?n s)) = drop ?n s"
      using less.hyps[of "drop ?n s"] rest n False by auto
    have split: "py_escape_body s = py_escape_body (take ?n s) @ py_escape_body (drop ?n s)"
      by (simp flip: py_escape_body_append)
    have s: "s = take ?n s @ drop ?n s" by simp
    show ?thesis
    proof (cases "byte (hd s) < 0x80")
      case True
      then have "?n = 1" using False by (cases s) (simp_all add: decode_rune_ascii)
      then have "take ?n s = [hd s]" using False by (cases s) simp_all
      then have head: "py_escape_body (take ?n s) = py_escape (hd s)" by (simp add: py_escape_body_def)
      show ?thesis unfolding split head using IH py_escape_ascii(1,2)[OF True] s \<open>take ?n s = [hd s]\<close>
        by (simp del: append_take_drop_id)
    next
      case hi: False
      have hb: "list_all (\<lambda>c. 0x80 \<le> byte c) (take ?n s)" using decode_rune_high_bytes[OF False ok] hi by simp
      have head: "py_escape_body (take ?n s) = take ?n s" using py_escape_high[OF hb] .
      show ?thesis unfolding split head
        using IH scan_string_high[OF hb, of "py_escape_body (drop ?n s) @ CHR 0x22 # r"] unquote_rune[OF False _ ok, of "py_escape_body (drop ?n s)"] hi
        by simp
    qed
  qed
qed

interpretation py_strings: string_writer py_escape_body
  by unfold_locales (simp_all add: py_escape_body_reads)

lemma py_escape_body_valid: "utf8_valid s \<Longrightarrow> utf8_valid (py_escape_body s)"
proof (induction "length s" arbitrary: s rule: less_induct)
  case less
  show ?case
  proof (cases "s = []")
    case False
    let ?n = "snd (decode_rune s)"
    have ok: "rune_ok (decode_rune s)" and rest: "utf8_valid (drop ?n s)" using less.prems False by (simp_all add: utf8_valid_step)
    have n: "1 \<le> ?n" "?n \<le> length s" using decode_rune_size[OF False] by auto
    have IH: "utf8_valid (py_escape_body (drop ?n s))" using less.hyps[of "drop ?n s"] rest n False by auto
    have split: "py_escape_body s = py_escape_body (take ?n s) @ py_escape_body (drop ?n s)" by (simp flip: py_escape_body_append)
    have "utf8_valid (py_escape_body (take ?n s))"
    proof (cases "byte (hd s) < 0x80")
      case True
      then have "take ?n s = [hd s]" using False by (cases s) (simp_all add: decode_rune_ascii)
      moreover have "list_all (\<lambda>c. byte c < 0x80) (py_escape (hd s))"
        using True by (auto simp: py_escape_def escape_ascii_def u_escape_def hex_char_def of_char_of)
      ultimately show ?thesis using utf8_valid_all_ascii by (simp add: py_escape_body_def)
    next
      case hi: False
      then show ?thesis using py_escape_high decode_rune_high_bytes[OF False ok] utf8_valid_take_decode[OF False ok] by simp
    qed
    then show ?thesis unfolding split using IH by (simp add: utf8_valid_append)
  qed (simp add: py_escape_body_def)
qed

lemma Uint32_Put: "n < 2 ^ 32 \<Longrightarrow> Uint32 (PutUint32 n) = n"
proof -
  assume "n < 2 ^ 32"
  then have "n div 16777216 < 256" by simp
  moreover have "n = 256 * (n div 256) + n mod 256" "n div 256 = 256 * (n div 65536) + n div 256 mod 256"
      "n div 65536 = 256 * (n div 16777216) + n div 65536 mod 256"
    using mult_div_mod_eq[of 256 n] mult_div_mod_eq[of 256 "n div 256"] mult_div_mod_eq[of 256 "n div 65536"]
    by (simp_all add: div_mult2_eq[symmetric])
  ultimately show ?thesis by (simp add: Uint32_def PutUint32_def of_char_of)
qed

lemma length_PutUint32 [simp]: "length (PutUint32 n) = 4"
  by (simp add: PutUint32_def)

lemma readFrame_body:
  assumes "body \<noteq> []" "length body \<le> maximum" "maximum < 2 ^ 32" "utf8_valid body" "json_document body = Some v" "unique_ok False v" "into v = Some i"
  shows "readFrame into maximum (PutUint32 (length body) @ body @ after) = (Inr i, after)"
  using assms validJSONStructure_document[OF assms(5)] by (simp add: readFrame_def ReadFull_def Uint32_Put)

subsection \<open>What is bounded\<close>

lemma trim_to_valid_props: "utf8_valid (trim_to_valid raw) \<and> (\<exists>r. raw = trim_to_valid raw @ r)"
proof (induction raw rule: trim_to_valid.induct)
  case (1 raw)
  show ?case
  proof (cases "raw = [] \<or> utf8_valid raw")
    case True
    then show ?thesis by (subst (1 2) trim_to_valid.simps) auto
  next
    case False
    obtain r where r: "butlast raw = trim_to_valid (butlast raw) @ r" "utf8_valid (trim_to_valid (butlast raw))" using 1 False by auto
    have "raw = butlast raw @ [last raw]" using False by simp
    then have "raw = trim_to_valid (butlast raw) @ (r @ [last raw])" using r(1) by (metis append.assoc)
    moreover have "trim_to_valid raw = trim_to_valid (butlast raw)" using False by (subst trim_to_valid.simps) simp
    ultimately show ?thesis using r(2) by metis
  qed
qed

lemma length_trim_to_valid: "length (trim_to_valid raw) \<le> length raw"
  using trim_to_valid_props[of raw] by (metis le_add1 length_append)

text \<open>No valid prefix is longer than the one that trimming finds.\<close>

lemma trim_to_valid_longest: "raw = p @ r \<Longrightarrow> utf8_valid p \<Longrightarrow> length p \<le> length (trim_to_valid raw)"
proof (induction raw arbitrary: r rule: trim_to_valid.induct)
  case (1 raw)
  show ?case
  proof (cases "raw = [] \<or> utf8_valid raw")
    case True
    then show ?thesis using 1(2) by (subst trim_to_valid.simps) auto
  next
    case False
    then have "r \<noteq> []" using 1(2,3) by auto
    then have "butlast raw = p @ butlast r" using 1(2) by (simp add: butlast_append)
    then show ?thesis using 1(1)[of "butlast r"] False 1(3) by (subst trim_to_valid.simps) simp
  qed
qed

lemma valid_prefix_near:
  assumes "utf8_valid s" "n \<le> length s"
  shows "\<exists>p r. take n s = p @ r \<and> utf8_valid p \<and> length r \<le> 3"
  using assms
proof (induction "length s" arbitrary: s n rule: less_induct)
  case less
  show ?case
  proof (cases "s = []")
    case True
    then show ?thesis by simp
  next
    case False
    let ?k = "snd (decode_rune s)"
    have ok: "rune_ok (decode_rune s)" and rest: "utf8_valid (drop ?k s)" using less.prems False by (simp_all add: utf8_valid_step)
    have k: "1 \<le> ?k" "?k \<le> length s" "?k \<le> 4" using decode_rune_size[OF False] by auto
    show ?thesis
    proof (cases "n < ?k")
      case True
      then show ?thesis using k less.prems(2) by (intro exI[of _ "[]"] exI[of _ "take n s"]) simp
    next
      case False
      obtain p r where pr: "take (n - ?k) (drop ?k s) = p @ r" "utf8_valid p" "length r \<le> 3"
        using less.hyps[of "drop ?k s" "n - ?k"] rest k less.prems(2) \<open>s \<noteq> []\<close> False by fastforce
      have "take n s = take ?k s @ take (n - ?k) (drop ?k s)" using False by (metis le_add_diff_inverse not_less take_add)
      then have "take n s = (take ?k s @ p) @ r" using pr(1) by simp
      moreover have "utf8_valid (take ?k s @ p)" using utf8_valid_take_decode[OF \<open>s \<noteq> []\<close> ok] pr(2) by (simp add: utf8_valid_append)
      ultimately show ?thesis using pr(3) by blast
    qed
  qed
qed

lemma trim_take_near:
  assumes "utf8_valid s" "n \<le> length s"
  shows "n \<le> length (trim_to_valid (take n s)) + 3"
proof -
  obtain p r where pr: "take n s = p @ r" "utf8_valid p" "length r \<le> 3" using valid_prefix_near[OF assms] by blast
  then have "n = length p + length r" using assms(2) by (metis length_append length_take min_absorb2)
  then show ?thesis using trim_to_valid_longest[OF pr(1,2)] pr(3) by simp
qed

text \<open>What a writer holds after a sequence of writes.\<close>

definition writer_holds :: "nat \<Rightarrow> bytes \<Rightarrow> BoundedWriter \<Rightarrow> bool" where
  "writer_holds maximum written w \<longleftrightarrow>
     bw_maximum w = maximum \<and> bw_used w = length (concat (bw_parts w)) \<and> bw_used w \<le> maximum \<and> utf8_valid (concat (bw_parts w)) \<and>
     (\<exists>r. written = concat (bw_parts w) @ r) \<and>
     (if bw_truncated w then length written > maximum \<and> maximum \<le> bw_used w + 3 else written = concat (bw_parts w))"

lemma writer_holds_write:
  assumes w: "writer_holds maximum written w" and v: "utf8_valid raw"
  shows "writer_holds maximum (written @ raw) (bw_write w raw)"
proof (cases "bw_truncated w")
  case True
  then show ?thesis using w by (auto simp: writer_holds_def bw_write_def)
next
  case live: False
  let ?room = "bw_maximum w - bw_used w"
  have base: "written = concat (bw_parts w)" "bw_used w = length written" "bw_maximum w = maximum" "length written \<le> maximum" "utf8_valid written"
    using w live by (auto simp: writer_holds_def)
  show ?thesis
  proof (cases "length raw > ?room")
    case True
    let ?raw = "trim_to_valid (take ?room raw)"
    obtain r where r: "take ?room raw = ?raw @ r" "utf8_valid ?raw" using trim_to_valid_props[of "take ?room raw"] by blast
    have "raw = ?raw @ (r @ drop ?room raw)" using r(1) by (metis append.assoc append_take_drop_id)
    moreover have "length ?raw \<le> ?room" using length_trim_to_valid[of "take ?room raw"] by simp
    moreover have "?room \<le> length ?raw + 3" using trim_take_near[OF v, of ?room] True by simp
    moreover have "bw_write w raw = (if ?raw \<noteq> [] then w\<lparr>bw_truncated := True, bw_parts := bw_parts w @ [?raw], bw_used := bw_used w + length ?raw\<rparr> else w\<lparr>bw_truncated := True\<rparr>)"
      using live True by (simp add: bw_write_def Let_def)
    ultimately show ?thesis using base r(2) True
      by (cases "?raw = []") (auto simp: writer_holds_def utf8_valid_append)
  next
    case False
    then show ?thesis using base live v by (auto simp: writer_holds_def bw_write_def Let_def utf8_valid_append)
  qed
qed

lemma writer_holds_writes:
  "writer_holds maximum written w \<Longrightarrow> \<forall>raw \<in> set raws. utf8_valid raw \<Longrightarrow> writer_holds maximum (written @ concat raws) (foldl bw_write w raws)"
proof (induction raws arbitrary: written w)
  case (Cons raw raws)
  then show ?case using writer_holds_write[of maximum written w raw] by (fastforce)
qed simp

lemma writer_holds_new: "writer_holds maximum [] (new_BoundedWriter maximum)"
  by (simp add: writer_holds_def new_BoundedWriter_def)

text \<open>A text that a bound has been applied to.\<close>

definition bounded_prefix :: "nat \<Rightarrow> bytes \<Rightarrow> BoundedText \<Rightarrow> bool" where
  "bounded_prefix maximum full t \<longleftrightarrow>
     utf8_valid (bt_Text t) \<and> length (bt_Text t) \<le> maximum \<and> (\<exists>r. full = bt_Text t @ r) \<and>
     (if bt_Truncated t then length full > maximum \<and> maximum \<le> length (bt_Text t) + 3 else full = bt_Text t)"

lemma bounded_writer: "\<forall>raw \<in> set raws. utf8_valid raw \<Longrightarrow> bounded_prefix maximum (concat raws) (bw_result (foldl bw_write (new_BoundedWriter maximum) raws))"
  using writer_holds_writes[OF writer_holds_new, of raws maximum] by (auto simp: writer_holds_def bounded_prefix_def bw_result_def)

lemma bounded_py: "utf8_valid raw \<Longrightarrow> bounded_prefix maximum raw (py_bounded raw maximum)"
proof (cases "length raw \<le> maximum")
  case False
  assume v: "utf8_valid raw"
  obtain r where r: "take maximum raw = trim_to_valid (take maximum raw) @ r" "utf8_valid (trim_to_valid (take maximum raw))"
    using trim_to_valid_props[of "take maximum raw"] by blast
  have "raw = trim_to_valid (take maximum raw) @ (r @ drop maximum raw)" using r(1) by (metis append.assoc append_take_drop_id)
  then show ?thesis using False r(2) length_trim_to_valid[of "take maximum raw"] trim_take_near[OF v, of maximum]
    by (auto simp: bounded_prefix_def py_bounded_def)
qed (simp add: bounded_prefix_def py_bounded_def)

subsection \<open>The two sides agree\<close>

lemma nat_digits_float64: "n < 2 ^ 64 \<Longrightarrow> float64_ok (nat_digits n)"
proof -
  assume n: "n < 2 ^ 64"
  have d: "\<forall>c \<in> set (nat_digits n). is_digit c" using nat_digits_digits[of n] by (simp add: list_all_iff)
  have t: "takeWhile (\<lambda>c. c \<noteq> CHR ''e'' \<and> c \<noteq> CHR ''E'') (nat_digits n) = nat_digits n"
    using d by (intro takeWhile_eq_all_conv[THEN iffD2]) (auto simp: is_digit_def)
  have dot: "dropWhile (\<lambda>c. c \<noteq> CHR ''.'') (nat_digits n) = []" using d by (auto simp: dropWhile_eq_Nil_conv is_digit_def)
  have "signed_value [] = 0" by (simp add: signed_value_def digits_value_def)
  then have "decimal_parts (nat_digits n) = (n, 0)" unfolding decimal_parts_def Let_def t dot by (simp add: digits_value_nat_digits)
  moreover have "(2::nat) ^ 64 \<le> 2 ^ 1024 - 2 ^ 970" by simp
  ultimately show ?thesis using n by (simp add: float64_ok_def)
qed

lemma nat_digits_ascii: "utf8_valid (nat_digits n)"
  using nat_digits_digits[of n] by (intro utf8_valid_all_ascii) (auto simp: list_all_iff is_digit_def)

lemma length_nat_digits_uint64: "n < 2 ^ 64 \<Longrightarrow> length (nat_digits n) \<le> 20"
proof -
  assume "n < 2 ^ 64"
  then have "length (nat_digits n) \<le> length (nat_digits 18446744073709551615)" by (intro length_nat_digits_mono) simp
  also have "\<dots> = 20" by (simp add: nat_digits.simps)
  finally show ?thesis .
qed

lemma parse_uint64_digits: "n < 2 ^ 64 \<Longrightarrow> parse_uint64 (nat_digits n) = Some n"
  using nat_digits_digits[of n] by (simp add: parse_uint64_def digits_value_nat_digits)

lemma canonical_digits: "canonical_number (nat_digits n)"
  using canonical_int_lit[of "int n"] by (simp add: int_lit_def)

lemma response_fields:
  "field_of response_names ''version'' = Some ''version''" "field_of response_names ''id'' = Some ''id''"
  "field_of response_names ''status'' = Some ''status''" "field_of response_names ''stdout'' = Some ''stdout''"
  "field_of response_names ''stderr'' = Some ''stderr''" "field_of response_names ''result'' = Some ''result''"
  "field_of response_names ''exception'' = Some ''exception''"
  "field_of [''text'', ''truncated''] ''text'' = Some ''text''" "field_of [''text'', ''truncated''] ''truncated'' = Some ''truncated''"
  by (simp_all add: field_of_def response_names_def)

lemma into_bounded_json: "into_bounded t0 (bounded_json t) = Some t"
  by (simp add: into_bounded_def bounded_json_def set_member_def response_fields put_bounded_def)

lemma response_into_json: "rr_ID r < 2 ^ 64 \<Longrightarrow> response_into (response_json r) = Some r"
  by (simp add: response_into_def response_json_def set_member_def response_fields put_response_def into_bounded_json parse_uint64_digits)

definition response_texts_valid :: "runnerResponse \<Rightarrow> bool" where
  "response_texts_valid r \<longleftrightarrow> utf8_valid (rr_Version r) \<and> utf8_valid (rr_Status r) \<and> utf8_valid (bt_Text (rr_Stdout r)) \<and>
     utf8_valid (bt_Text (rr_Stderr r)) \<and> utf8_valid (bt_Text (rr_Result r)) \<and> utf8_valid (bt_Text (rr_Exception r))"

lemma response_json_props:
  assumes "response_texts_valid r" "rr_ID r < 2 ^ 64"
  shows "encodable (response_json r)" "depth (response_json r) \<le> 2" "unique_ok False (response_json r)"
  using assms nat_digits_float64[of "rr_ID r"]
  by (auto simp: response_json_def bounded_json_def response_texts_valid_def utf8_valid_all_ascii canonical_digits)

lemma json_document_py:
  assumes "encodable v" "depth v \<le> maxNestingDepth"
  shows "json_document (enc_with py_escape_body v) = Some v"
  using py_strings.write_roundtrip[OF assms, of "[]"] by (simp add: json_document_def json_read_value_at ends_value_def)

lemma quote_valid: "utf8_valid s \<Longrightarrow> utf8_valid (quote_with py_escape_body s)"
  using py_escape_body_valid[of s] by (simp add: quote_with_def utf8_valid_append utf8_valid_ascii)

lemma bounded_json_valid: "utf8_valid (bt_Text t) \<Longrightarrow> utf8_valid (enc_with py_escape_body (bounded_json t))"
  by (simp add: bounded_json_def utf8_valid_append utf8_valid_ascii quote_valid utf8_valid_all_ascii)

lemma response_json_valid: "response_texts_valid r \<Longrightarrow> utf8_valid (enc_with py_escape_body (response_json r))"
  by (simp add: response_json_def response_texts_valid_def utf8_valid_append utf8_valid_ascii quote_valid bounded_json_valid
      nat_digits_ascii utf8_valid_all_ascii)

lemma length_quote: "length (quote_with py_escape_body s) \<le> 6 * length s + 2"
  using length_py_escape_body[of s] by (simp add: quote_with_def)

lemma length_names:
  "length (quote_with py_escape_body ''text'') = 6" "length (quote_with py_escape_body ''truncated'') = 11"
  "length (quote_with py_escape_body ''version'') = 9" "length (quote_with py_escape_body ''id'') = 4"
  "length (quote_with py_escape_body ''status'') = 8" "length (quote_with py_escape_body ''stdout'') = 8"
  "length (quote_with py_escape_body ''stderr'') = 8" "length (quote_with py_escape_body ''result'') = 8"
  "length (quote_with py_escape_body ''exception'') = 11" "length (quote_with py_escape_body runnerProtocolVersion) = 23"
  "length (quote_with py_escape_body ''completed'') = 11" "length (quote_with py_escape_body ''python_error'') = 14"
  by (simp_all add: quote_with_def py_escape_body_def py_escape_def escape_ascii_def html_safe_def runnerProtocolVersion_def)

lemma length_bounded_json: "length (enc_with py_escape_body (bounded_json t)) \<le> 6 * length (bt_Text t) + 29"
  using length_quote[of "bt_Text t"] by (simp add: bounded_json_def length_names)

lemma length_response_json:
  assumes "rr_Version r = runnerProtocolVersion" "rr_Status r = ''completed'' \<or> rr_Status r = ''python_error''" "rr_ID r < 2 ^ 64"
  shows "length (enc_with py_escape_body (response_json r)) \<le>
    512 + 6 * (length (bt_Text (rr_Stdout r)) + length (bt_Text (rr_Stderr r)) + length (bt_Text (rr_Result r)) + length (bt_Text (rr_Exception r)))"
  using length_bounded_json[of "rr_Stdout r"] length_bounded_json[of "rr_Stderr r"] length_bounded_json[of "rr_Result r"]
    length_bounded_json[of "rr_Exception r"] length_nat_digits_uint64[OF assms(3)] assms(1,2)
  by (auto simp: response_json_def length_names)

definition snippet_valid :: "snippet_end \<Rightarrow> bool" where
  "snippet_valid fin = (case fin of Evaluated v \<Rightarrow> utf8_valid v | Finished \<Rightarrow> True | Raised e \<Rightarrow> utf8_valid e)"

text \<open>A response the host validates is read back from the frame that the runner writes of it.\<close>

lemma response_frame_reads:
  assumes "validRunnerResponse l i r" "i < 2 ^ 64" "maximum < 2 ^ 32"
    and "512 + 6 * (2 * repl_MaxOutputBytesPerStream l + repl_MaxResultBytes l + MaxExceptionBytes l) \<le> int maximum"
  shows "\<exists>frame. py_write_frame maximum r = Some frame \<and> (\<forall>after. readFrame response_into maximum (frame @ after) = (Inr r, after))"
proof -
  have status: "rr_Version r = runnerProtocolVersion" "rr_ID r = i" "rr_Status r = ''completed'' \<or> rr_Status r = ''python_error''"
    and fields: "utf8_valid (bt_Text (rr_Stdout r)) \<and> utf8_valid (bt_Text (rr_Stderr r)) \<and> utf8_valid (bt_Text (rr_Result r)) \<and> utf8_valid (bt_Text (rr_Exception r))"
    and lens: "len (bt_Text (rr_Stdout r)) \<le> repl_MaxOutputBytesPerStream l" "len (bt_Text (rr_Stderr r)) \<le> repl_MaxOutputBytesPerStream l"
      "len (bt_Text (rr_Result r)) \<le> repl_MaxResultBytes l" "len (bt_Text (rr_Exception r)) \<le> MaxExceptionBytes l"
    using assms(1) by (auto simp: validRunnerResponse_def field_ok_def split: if_splits)
  have texts: "response_texts_valid r"
    using fields status by (auto simp: response_texts_valid_def runnerProtocolVersion_def utf8_valid_all_ascii)
  have i: "rr_ID r < 2 ^ 64" using status(2) assms(2) by simp
  define body where "body = enc_with py_escape_body (response_json r)"
  have len: "length body \<le> maximum"
  proof -
    have "int (length body) \<le> int (512 + 6 * (length (bt_Text (rr_Stdout r)) + length (bt_Text (rr_Stderr r)) + length (bt_Text (rr_Result r)) + length (bt_Text (rr_Exception r))))"
      using length_response_json[OF status(1,3) i] unfolding body_def of_nat_le_iff .
    then show ?thesis using lens assms(4) by (simp add: len_def)
  qed
  have ne: "body \<noteq> []" by (simp add: body_def response_json_def)
  have doc: "json_document body = Some (response_json r)"
    unfolding body_def using response_json_props[OF texts i] by (intro json_document_py) (auto simp: maxNestingDepth_def)
  have "readFrame response_into maximum (PutUint32 (length body) @ body @ after) = (Inr r, after)" for after
    using response_json_valid[OF texts] response_json_props(3)[OF texts i] response_into_json[OF i]
    by (intro readFrame_body[OF ne len assms(3) _ doc]) (simp_all add: body_def)
  moreover have "py_write_frame maximum r = Some (PutUint32 (length body) @ body)"
    using ne len by (simp add: py_write_frame_def body_def[symmetric])
  ultimately show ?thesis by (intro exI[of _ "PutUint32 (length body) @ body"]) simp
qed

text \<open>
  C11: The two sides of the runner protocol agree. Whatever a snippet writes, evaluates to or raises, the
  response that the Python runner makes of it fits the frame limit, is read back by the host as exactly that
  response with nothing of the stream behind it consumed, and passes the host's validation. Every text is a
  prefix of the full one, cut only where it exceeds its bound, at a character and at most three bytes early.
  The frame limit is at least what \<open>protocolMaxima\<close> computes of the limits where its sums do not wrap.
\<close>

theorem python_response_accepted:
  assumes "\<forall>raw \<in> set out \<union> set err. utf8_valid raw" "snippet_valid fin" "i < 2 ^ 64" "maximum < 2 ^ 32"
    and "0 \<le> repl_MaxOutputBytesPerStream l" "0 \<le> repl_MaxResultBytes l" "0 \<le> MaxExceptionBytes l"
    and "512 + 6 * (2 * repl_MaxOutputBytesPerStream l + repl_MaxResultBytes l + MaxExceptionBytes l) \<le> int maximum"
  shows "\<exists>frame. py_write_frame maximum (py_response l i out err fin) = Some frame \<and>
    (\<forall>after. readFrame response_into maximum (frame @ after) = (Inr (py_response l i out err fin), after)) \<and>
    validRunnerResponse l i (py_response l i out err fin) \<and>
    bounded_prefix (nat (repl_MaxOutputBytesPerStream l)) (concat out) (rr_Stdout (py_response l i out err fin)) \<and>
    bounded_prefix (nat (repl_MaxOutputBytesPerStream l)) (concat err) (rr_Stderr (py_response l i out err fin)) \<and>
    (case fin of Evaluated v \<Rightarrow> bounded_prefix (nat (repl_MaxResultBytes l)) v (rr_Result (py_response l i out err fin))
     | Finished \<Rightarrow> True
     | Raised e \<Rightarrow> bounded_prefix (nat (MaxExceptionBytes l)) e (rr_Exception (py_response l i out err fin)))"
proof -
  define r where "r = py_response l i out err fin"
  have out: "bounded_prefix (nat (repl_MaxOutputBytesPerStream l)) (concat out) (rr_Stdout r)"
    and err: "bounded_prefix (nat (repl_MaxOutputBytesPerStream l)) (concat err) (rr_Stderr r)"
    using bounded_writer assms(1) by (simp_all add: r_def py_response_def)
  have fin: "case fin of Evaluated v \<Rightarrow> bounded_prefix (nat (repl_MaxResultBytes l)) v (rr_Result r) | Finished \<Rightarrow> True
      | Raised e \<Rightarrow> bounded_prefix (nat (MaxExceptionBytes l)) e (rr_Exception r)"
    using assms(2) by (cases fin) (simp_all add: r_def py_response_def snippet_valid_def bounded_py)
  have res: "utf8_valid (bt_Text (rr_Result r)) \<and> len (bt_Text (rr_Result r)) \<le> repl_MaxResultBytes l \<and> (rr_Status r = ''python_error'' \<longrightarrow> rr_Result r = zero_text)"
    using fin assms(6) by (cases fin) (auto simp: r_def py_response_def bounded_prefix_def zero_text_def len_def)
  have exc: "utf8_valid (bt_Text (rr_Exception r)) \<and> len (bt_Text (rr_Exception r)) \<le> MaxExceptionBytes l \<and> (rr_Status r = ''completed'' \<longrightarrow> rr_Exception r = zero_text)"
    using fin assms(7) by (cases fin) (auto simp: r_def py_response_def bounded_prefix_def zero_text_def len_def)
  have status: "rr_Version r = runnerProtocolVersion" "rr_ID r = i" "rr_Status r = ''completed'' \<or> rr_Status r = ''python_error''"
    by (cases fin; simp add: r_def py_response_def)+
  have valid: "validRunnerResponse l i r"
    using out err res exc status assms(5) by (auto simp: validRunnerResponse_def field_ok_def bounded_prefix_def empty_text_def zero_text_def len_def)
  obtain frame where "py_write_frame maximum r = Some frame" "\<forall>after. readFrame response_into maximum (frame @ after) = (Inr r, after)"
    using response_frame_reads[OF valid assms(3,4,8)] by blast
  then show ?thesis using valid out err fin unfolding r_def[symmetric] by (intro exI[of _ frame]) simp
qed

definition repl_demo_limits :: text_limits where
  "repl_demo_limits = \<lparr>repl_MaxOutputBytesPerStream = 4, repl_MaxResultBytes = 2, MaxExceptionBytes = 2\<rparr>"

theorem python_response_accepted_witness:
  "\<exists>frame. py_write_frame 600 (py_response repl_demo_limits 7 [''ab'', ''cde''] [] (Evaluated ''42'')) = Some frame \<and>
     fst (readFrame response_into 600 frame) = Inr (py_response repl_demo_limits 7 [''ab'', ''cde''] [] (Evaluated ''42'')) \<and>
     rr_Stdout (py_response repl_demo_limits 7 [''ab'', ''cde''] [] (Evaluated ''42'')) = \<lparr>bt_Text = ''abcd'', bt_Truncated = True\<rparr>"
proof -
  have "\<forall>raw \<in> set [''ab'', ''cde''] \<union> set []. utf8_valid raw" "snippet_valid (Evaluated ''42'')"
    by (auto simp: snippet_valid_def utf8_valid_all_ascii)
  moreover have "(7::nat) < 2 ^ 64" "(600::nat) < 2 ^ 32" by simp_all
  ultimately obtain frame where fr: "py_write_frame 600 (py_response repl_demo_limits 7 [''ab'', ''cde''] [] (Evaluated ''42'')) = Some frame"
      "\<forall>after. readFrame response_into 600 (frame @ after) = (Inr (py_response repl_demo_limits 7 [''ab'', ''cde''] [] (Evaluated ''42'')), after)"
    using python_response_accepted[of "[''ab'', ''cde'']" "[]" "Evaluated ''42''" 7 600 repl_demo_limits] by (auto simp: repl_demo_limits_def)
  have "readFrame response_into 600 (frame @ []) = (Inr (py_response repl_demo_limits 7 [''ab'', ''cde''] [] (Evaluated ''42'')), [])"
    using fr(2) by blast
  moreover have "rr_Stdout (py_response repl_demo_limits 7 [''ab'', ''cde''] [] (Evaluated ''42'')) = \<lparr>bt_Text = ''abcd'', bt_Truncated = True\<rparr>"
    by (simp add: py_response_def repl_demo_limits_def bw_write_def bw_result_def new_BoundedWriter_def Let_def trim_to_valid.simps utf8_valid_all_ascii)
  ultimately show ?thesis using fr(1) by simp
qed

end
