(* ===== verification/Repl_Runner.thy ===== *)
theory Repl_Runner
  imports Repl_Frame "HOL-Library.Word"
begin

section \<open>pythonrepl: one interpreter process\<close>

text \<open>
  runner_unix.go and the race coordinator of runner.go: how a runner starts, serves one request and is
  taken down. Pipes, signals, the clock and the contexts are asked through arguments: each is the
  answer one call or one \<open>select\<close> gets. An error is the list of the errors joined in it.
\<close>

subsection \<open>Errors\<close>

datatype ctx_cause = Canceled | DeadlineExceeded

datatype repl_error = errManagerClosing | repl_errCapacityExhausted | errQueueFull | errCleanupIncomplete | errOwnerQuarantined
  | errExecutionTimedOut | errBootstrapIntegrity | repl_contextError ctx_cause | repl_operationError string | repl_runtimeError string
  | repl_configError string

subsection \<open>The race coordinator\<close>

record raceCoordinator =
  rc_canceled :: bool
  rc_committed :: bool

definition newRaceCoordinator :: raceCoordinator where
  "newRaceCoordinator = \<lparr>rc_canceled = False, rc_committed = False\<rparr>"

definition rc_commit :: "raceCoordinator \<Rightarrow> bool \<times> raceCoordinator" where
  "rc_commit c = (if rc_canceled c then (False, c) else (True, c\<lparr>rc_committed := True\<rparr>))"

text \<open>Also what the function does that runs when the context ends.\<close>

definition rc_interrupt :: "raceCoordinator \<Rightarrow> raceCoordinator" where
  "rc_interrupt c = (if \<not> rc_committed c \<and> \<not> rc_canceled c then c\<lparr>rc_canceled := True\<rparr> else c)"

subsection \<open>Serving a request\<close>

record runnerProcess =
  rp_ident :: nat
  rp_pgid :: int
  rp_requestID :: "64 word"

text \<open>
  The \<open>select\<close> after the write: its result, the end of the context, or the exit of the supervisor; the
  number with \<open>WriteExited\<close> is what the writing goroutine has put into the pipe by then, which the
  code does not see.
\<close>

datatype write_select = Wrote nat bool | WriteCanceled | WriteExited nat

datatype response_select = Received bytes | ReadCanceled | ReadExited

record exec_env =
  ee_exited0 :: bool
  ee_ctx0 :: bool
  ee_write :: write_select
  ee_ctx1 :: bool
  ee_response :: response_select
  ee_exited1 :: bool
  ee_ctx2 :: bool
  ee_ended :: bool
  ee_cause :: ctx_cause

definition runner_request :: "runnerProcess \<Rightarrow> string \<Rightarrow> runnerRequest" where
  "runner_request p code = \<lparr>rq_Version = runnerProtocolVersion, rq_ID = unat (rp_requestID p), rq_Code = code\<rparr>"

text \<open>The second \<open>select\<close>; \<open>wrote\<close> is the number of bytes of the request that were written.\<close>

definition await_response ::
  "'a text_limits_scheme \<Rightarrow> nat \<Rightarrow> exec_env \<Rightarrow> nat \<Rightarrow> runnerProcess \<Rightarrow> (repl_error list + runnerResponse) \<times> bool" where
  "await_response l responseMax e wrote p =
     (case ee_response e of
        ReadCanceled \<Rightarrow> (Inl [repl_contextError (ee_cause e)], True)
      | ReadExited \<Rightarrow> (Inl [repl_operationError ''supervisor-exited''], True)
      | Received stream \<Rightarrow>
          (case fst (readFrame response_into responseMax stream) of
             Inl _ \<Rightarrow> (Inl [repl_operationError ''protocol-response''], wrote > 0)
           | Inr response \<Rightarrow>
               if \<not> validRunnerResponse l (unat (rp_requestID p)) response then (Inl [repl_operationError ''protocol-response''], wrote > 0)
               else if ee_exited1 e then (Inl [repl_operationError ''supervisor-exited''], True)
               else if ee_ctx2 e then (Inl [repl_contextError (ee_cause e)], True)
               else
                 let coordinator = (if ee_ended e then rc_interrupt newRaceCoordinator else newRaceCoordinator) in
                 if \<not> fst (rc_commit coordinator) then (Inl [repl_contextError (ee_cause e)], True)
                 else (Inr response, True)))"

definition runner_execute ::
  "'a text_limits_scheme \<Rightarrow> nat \<Rightarrow> nat \<Rightarrow> string \<Rightarrow> exec_env \<Rightarrow> runnerProcess
   \<Rightarrow> ((repl_error list + runnerResponse) \<times> bool) \<times> runnerProcess" where
  "runner_execute l requestMax responseMax code e p =
     (if ee_exited0 e then ((Inl [repl_operationError ''supervisor-exited''], False), p)
      else
        let p = p\<lparr>rp_requestID := rp_requestID p + 1\<rparr> in
        case encodeFrame (request_json (runner_request p code)) requestMax of
          None \<Rightarrow> ((Inl [repl_operationError ''protocol-encode''], False), p)
        | Some frame \<Rightarrow>
            if ee_ctx0 e then ((Inl [repl_contextError (ee_cause e)], False), p)
            else (case ee_write e of
                WriteCanceled \<Rightarrow> ((Inl [repl_contextError (ee_cause e)], True), p)
              | WriteExited _ \<Rightarrow> ((Inl [repl_operationError ''supervisor-exited''], False), p)
              | Wrote n err \<Rightarrow>
                  if err \<or> n \<noteq> length frame then ((Inl [repl_operationError ''protocol-write''], n > 0), p)
                  else if ee_ctx1 e then ((Inl [repl_contextError (ee_cause e)], True), p)
                  else (await_response l responseMax e n p, p)))"

lemma readFrame_Inr:
  assumes "fst (readFrame into maximum stream) = Inr i" "maximum < 2 ^ 32"
  obtains body after where "stream = take 4 stream @ body @ after" "length body = Uint32 (take 4 stream)" "length body \<le> maximum" "body \<noteq> []"
    "utf8_valid body" "\<exists>v. json_document body = Some v \<and> unique_ok False v \<and> into v = Some i"
proof -
  let ?n = "Uint32 (take 4 stream)" and ?body = "take (Uint32 (take 4 stream)) (drop 4 stream)"
  from assms(1) have st: "4 \<le> length stream" "?n \<noteq> 0" "?n \<le> maximum" "?n \<le> length (drop 4 stream)" "utf8_valid ?body" "validJSONStructure ?body"
    by (auto simp: readFrame_def ReadFull_def Let_def not_less split: if_splits option.splits)
  then obtain v where v: "json_document ?body = Some v" "into v = Some i"
    using assms(1) by (auto simp: readFrame_def ReadFull_def Let_def split: if_splits option.splits)
  have "stream = take 4 stream @ ?body @ drop ?n (drop 4 stream)" by (metis append_take_drop_id)
  moreover have "length ?body = ?n" using st(4) by simp
  ultimately show thesis using that[of ?body "drop ?n (drop 4 stream)"] st v validJSONStructure_document[OF v(1)] by (metis list.size(3))
qed

text \<open>
  C17: A request succeeds only with an answer to it: the whole request frame was written, one frame within the
  limit came back whose body is a single JSON object, no key repeated at any depth, of the current protocol,
  with the identity of this very request and texts within the limits, and neither had the process ended nor
  had the caller's context when the result was committed.
\<close>

theorem runner_result_authentic:
  assumes "runner_execute l requestMax responseMax code e p = ((Inr response, mayHaveExecuted), p')" "responseMax < 2 ^ 32"
  shows "\<exists>frame header body after.
    encodeFrame (request_json (runner_request p' code)) requestMax = Some frame \<and> ee_write e = Wrote (length frame) False \<and>
    ee_response e = Received (header @ body @ after) \<and> length header = 4 \<and> length body = Uint32 header \<and> length body \<le> responseMax \<and>
    (\<exists>v. json_document body = Some v \<and> unique_ok False v \<and> response_into v = Some response) \<and>
    rr_ID response = unat (rp_requestID p + 1) \<and> validRunnerResponse l (unat (rp_requestID p + 1)) response \<and>
    \<not> ee_exited0 e \<and> \<not> ee_exited1 e \<and> \<not> ee_ctx2 e \<and> \<not> ee_ended e \<and> p' = p\<lparr>rp_requestID := rp_requestID p + 1\<rparr>"
proof -
  let ?p = "p\<lparr>rp_requestID := rp_requestID p + 1\<rparr>"
  from assms(1) obtain frame where frame: "\<not> ee_exited0 e" "encodeFrame (request_json (runner_request ?p code)) requestMax = Some frame" "p' = ?p"
      "ee_write e = Wrote (length frame) False" "await_response l responseMax e (length frame) ?p = (Inr response, mayHaveExecuted)"
    by (auto simp: runner_execute_def Let_def split: if_splits option.splits write_select.splits)
  from frame(5) obtain stream where stream: "ee_response e = Received stream" "fst (readFrame response_into responseMax stream) = Inr response"
      "validRunnerResponse l (unat (rp_requestID p + 1)) response" "\<not> ee_exited1 e" "\<not> ee_ctx2 e" "\<not> ee_ended e"
    by (auto simp: await_response_def rc_commit_def rc_interrupt_def newRaceCoordinator_def split: if_splits response_select.splits sum.splits)
  obtain body after where b: "stream = take 4 stream @ body @ after" "length body = Uint32 (take 4 stream)" "length body \<le> responseMax" "body \<noteq> []"
      "\<exists>v. json_document body = Some v \<and> unique_ok False v \<and> response_into v = Some response"
    using readFrame_Inr[OF stream(2) assms(2)] by metis
  have "4 \<le> length stream" using stream(2) by (auto simp: readFrame_def ReadFull_def split: if_splits)
  then have "length (take 4 stream) = 4" by simp
  moreover have "rr_ID response = unat (rp_requestID p + 1)" using stream(3) by (auto simp: validRunnerResponse_def split: if_splits)
  ultimately show ?thesis using frame stream b by (intro exI[of _ frame] exI[of _ "take 4 stream"] exI[of _ body] exI[of _ after]) auto
qed

text \<open>
  Where the runner says that the code cannot have run, no byte of the request is known to have been
  written. It is not so that none was: after the exit of the supervisor the count is not looked at.
\<close>

lemma runner_not_executed:
  assumes "runner_execute l requestMax responseMax code e p = ((result, False), p')"
  shows "ee_exited0 e \<or> encodeFrame (request_json (runner_request p' code)) requestMax = None \<or> ee_ctx0 e \<or>
    (\<exists>err. ee_write e = Wrote 0 err) \<or> (\<exists>n. ee_write e = WriteExited n)"
proof -
  have ne: "frame \<noteq> []" if "encodeFrame v maximum = Some frame" for v maximum frame
    using that by (auto simp: encodeFrame_def Let_def split: if_splits)
  show ?thesis using assms ne
    by (auto simp: runner_execute_def await_response_def Let_def rc_commit_def rc_interrupt_def newRaceCoordinator_def
        split: if_splits option.splits write_select.splits response_select.splits sum.splits)
qed

text \<open>
  When the supervisor exits during the write, \<open>execute\<close> reports that the code cannot have run, even if the
  whole request has reached the pipe: the variable \<open>wrote\<close> it reports is still zero there.
\<close>

theorem exit_hides_written_request:
  assumes "encodeFrame (request_json (runner_request (p\<lparr>rp_requestID := rp_requestID p + 1\<rparr>) code)) requestMax = Some frame"
    and "\<not> ee_exited0 e" "\<not> ee_ctx0 e" "ee_write e = WriteExited (length frame)"
  shows "runner_execute l requestMax responseMax code e p =
    ((Inl [repl_operationError ''supervisor-exited''], False), p\<lparr>rp_requestID := rp_requestID p + 1\<rparr>)"
  using assms by (simp add: runner_execute_def Let_def)

definition serve_demo_frame :: bytes where
  "serve_demo_frame = the (py_write_frame 600 (py_response repl_demo_limits 1 [] [] (Evaluated ''2'')))"

definition serve_demo_process :: runnerProcess where
  "serve_demo_process = \<lparr>rp_ident = 0, rp_pgid = 9, rp_requestID = 0\<rparr>"

definition serve_demo_env :: exec_env where
  "serve_demo_env = \<lparr>ee_exited0 = False, ee_ctx0 = False,
     ee_write = Wrote (length (the (encodeFrame (request_json (runner_request (serve_demo_process\<lparr>rp_requestID := 1\<rparr>) ''1+1'')) 600))) False,
     ee_ctx1 = False, ee_response = Received serve_demo_frame, ee_exited1 = False, ee_ctx2 = False, ee_ended = False, ee_cause = Canceled\<rparr>"

lemma serve_demo_run:
  "runner_execute repl_demo_limits 600 600 ''1+1'' serve_demo_env serve_demo_process =
     ((Inr (py_response repl_demo_limits 1 [] [] (Evaluated ''2'')), True), serve_demo_process\<lparr>rp_requestID := 1\<rparr>)"
proof -
  let ?r = "py_response repl_demo_limits 1 [] [] (Evaluated ''2'')"
  let ?q = "request_json (runner_request (serve_demo_process\<lparr>rp_requestID := 1\<rparr>) ''1+1'')"
  have valid: "validRunnerResponse repl_demo_limits 1 ?r"
    by (simp add: py_response_def repl_demo_limits_def py_bounded_def bw_result_def new_BoundedWriter_def validRunnerResponse_def field_ok_def
        empty_text_def zero_text_def len_def trim_to_valid.simps utf8_valid_all_ascii Let_def)
  have bound: "512 + 6 * (2 * repl_MaxOutputBytesPerStream repl_demo_limits + repl_MaxResultBytes repl_demo_limits + MaxExceptionBytes repl_demo_limits) \<le> int 600"
    by (simp add: repl_demo_limits_def)
  obtain frame where fr: "py_write_frame 600 ?r = Some frame" "\<forall>after. readFrame response_into 600 (frame @ after) = (Inr ?r, after)"
    using response_frame_reads[OF valid _ _ bound] by auto
  then have rd: "fst (readFrame response_into 600 serve_demo_frame) = Inr ?r" using fr(2)[rule_format, of "[]"] by (simp add: serve_demo_frame_def)
  have "encodeFrame ?q 600 \<noteq> None"
    by (simp add: encodeFrame_def Let_def request_json_def runner_request_def serve_demo_process_def runnerProtocolVersion_def marshal_string_def
        escape_body.simps escape_step_def escape_ascii_def html_safe_def nat_digits.simps)
  then obtain sent where sent: "encodeFrame ?q 600 = Some sent" by blast
  have p: "serve_demo_process\<lparr>rp_requestID := rp_requestID serve_demo_process + 1\<rparr> = serve_demo_process\<lparr>rp_requestID := 1\<rparr>"
    by (simp add: serve_demo_process_def)
  show ?thesis using sent rd valid
    by (simp add: runner_execute_def Let_def p serve_demo_env_def await_response_def rc_commit_def newRaceCoordinator_def)
qed

theorem runner_result_authentic_witness:
  "\<exists>header body after. serve_demo_frame = header @ body @ after \<and> length body = Uint32 header \<and>
     (\<exists>v. json_document body = Some v \<and> response_into v = Some (py_response repl_demo_limits 1 [] [] (Evaluated ''2'')))"
  using runner_result_authentic[OF serve_demo_run] by (auto simp: serve_demo_env_def)

subsection \<open>Taking a runner down\<close>

datatype effect = CloseRequest | CloseResponse | JoinIO | SignalGroup bool | WaitGrace | AuthorizeReap | CloseControl | AwaitReaped | CloseStatus | AwaitExit

record termination_env =
  te_term_failed :: bool
  te_kill_failed :: bool
  te_control_failed :: bool
  te_status :: "bytes option"
  te_exited :: bool

record supervisorStatus =
  ss_Phase :: string
  ss_Version :: string
  ss_PID :: int
  ss_PGID :: int
  ss_Python :: "int list"
  ss_ExitCode :: int

text \<open>Decoding into an int and into a slice of ints.\<close>

fun into_int :: "int \<Rightarrow> json \<Rightarrow> int option" where
  "into_int old JNull = Some old"
| "into_int old (JNum l) = parse_int64 l"
| "into_int old _ = None"

fun ints_of :: "json list \<Rightarrow> int list option" where
  "ints_of [] = Some []"
| "ints_of (v # vs) = (case into_int 0 v of None \<Rightarrow> None | Some n \<Rightarrow> map_option (\<lambda>ns. n # ns) (ints_of vs))"

fun into_ints :: "int list \<Rightarrow> json \<Rightarrow> int list option" where
  "into_ints old JNull = Some []"
| "into_ints old (JArr vs) = ints_of vs"
| "into_ints old _ = None"

definition status_names :: "string list" where
  "status_names = [''phase'', ''version'', ''pid'', ''pgid'', ''python'', ''exit_code'']"

definition put_status :: "string \<Rightarrow> json \<Rightarrow> supervisorStatus \<Rightarrow> supervisorStatus option" where
  "put_status n v s =
     (if n = ''phase'' then map_option (\<lambda>x. s\<lparr>ss_Phase := x\<rparr>) (into_string (ss_Phase s) v)
      else if n = ''version'' then map_option (\<lambda>x. s\<lparr>ss_Version := x\<rparr>) (into_string (ss_Version s) v)
      else if n = ''pid'' then map_option (\<lambda>x. s\<lparr>ss_PID := x\<rparr>) (into_int (ss_PID s) v)
      else if n = ''pgid'' then map_option (\<lambda>x. s\<lparr>ss_PGID := x\<rparr>) (into_int (ss_PGID s) v)
      else if n = ''python'' then map_option (\<lambda>x. s\<lparr>ss_Python := x\<rparr>) (into_ints (ss_Python s) v)
      else map_option (\<lambda>x. s\<lparr>ss_ExitCode := x\<rparr>) (into_int (ss_ExitCode s) v))"

definition zero_status :: supervisorStatus where
  "zero_status = \<lparr>ss_Phase = [], ss_Version = [], ss_PID = 0, ss_PGID = 0, ss_Python = [], ss_ExitCode = 0\<rparr>"

definition read_status :: "bytes \<Rightarrow> frame_error + supervisorStatus" where
  "read_status stream = fst (readFrame (into_struct status_names put_status zero_status) 1024 stream)"

definition reaped :: "frame_error + supervisorStatus \<Rightarrow> bool" where
  "reaped r = (case r of Inl _ \<Rightarrow> False | Inr s \<Rightarrow> \<not> (ss_Phase s \<noteq> ''reaped'' \<or> ss_Version s \<noteq> runnerProtocolVersion))"

text \<open>
  \<open>coordinateTermination\<close>: the error it ends with and what it does, in order. \<open>SignalGroup True\<close> is the final
  signal. A status that does not arrive within \<open>KillWait\<close> is \<open>None\<close>.
\<close>

definition coordinateTermination :: "termination_env \<Rightarrow> runnerProcess \<Rightarrow> repl_error list \<times> effect list" where
  "coordinateTermination e p =
     (let signaled = (if rp_pgid p \<le> 0 then [] else [SignalGroup False, WaitGrace, SignalGroup True]);
          failed = (if rp_pgid p \<le> 0 then True else te_term_failed e \<or> te_kill_failed e);
          failed = (if te_control_failed e then True else failed);
          failed = (case te_status e of None \<Rightarrow> True | Some stream \<Rightarrow> if reaped (read_status stream) then failed else True);
          failed = (if te_exited e then failed else True) in
      (if failed then [errCleanupIncomplete] else [],
       [CloseRequest, CloseResponse, JoinIO] @ signaled @ [AuthorizeReap, CloseControl, AwaitReaped, CloseStatus, AwaitExit]))"

text \<open>\<open>terminateAndWait\<close> and the wait of \<open>resetRunner\<close>: \<open>None\<close> is a termination that takes longer than its bound.\<close>

definition terminateAndWait :: "termination_env option \<Rightarrow> runnerProcess \<Rightarrow> repl_error list" where
  "terminateAndWait e p = (case e of None \<Rightarrow> [errCleanupIncomplete] | Some e \<Rightarrow> fst (coordinateTermination e p))"

text \<open>
  C22: A runner counts as gone only when all of it is: its process group was known, both signals reached it or it
  had gone, the supervisor confirmed in a status frame of this protocol that it reaped the leader, and the
  supervisor itself exited. The leader is reaped only after the final signal, so the group's number
  cannot have been given to another process when it is signalled.
\<close>

theorem termination_clean:
  assumes "terminateAndWait t p = []"
  shows "\<exists>e. t = Some e \<and> rp_pgid p > 0 \<and> \<not> te_term_failed e \<and> \<not> te_kill_failed e \<and> \<not> te_control_failed e \<and> te_exited e \<and>
    (\<exists>stream s. te_status e = Some stream \<and> read_status stream = Inr s \<and> ss_Phase s = ''reaped'' \<and> ss_Version s = runnerProtocolVersion) \<and>
    (\<exists>before after. snd (coordinateTermination e p) = before @ SignalGroup True # AuthorizeReap # after \<and>
       (\<forall>x \<in> set before. x \<noteq> AuthorizeReap \<and> x \<noteq> SignalGroup True) \<and> (\<forall>x \<in> set after. \<forall>b. x \<noteq> SignalGroup b) \<and> last after = AwaitExit)"
proof -
  obtain e where e: "t = Some e" "fst (coordinateTermination e p) = []" using assms by (auto simp: terminateAndWait_def split: option.splits)
  from e(2) have ok: "rp_pgid p > 0" "\<not> te_term_failed e" "\<not> te_kill_failed e" "\<not> te_control_failed e" "te_exited e"
      "\<exists>stream. te_status e = Some stream \<and> reaped (read_status stream)"
    by (auto simp: coordinateTermination_def Let_def split: if_splits option.splits)
  have eff: "snd (coordinateTermination e p) = [CloseRequest, CloseResponse, JoinIO, SignalGroup False, WaitGrace] @ SignalGroup True # AuthorizeReap #
      [CloseControl, AwaitReaped, CloseStatus, AwaitExit]"
    using ok(1) by (simp add: coordinateTermination_def Let_def)
  have "\<exists>stream s. te_status e = Some stream \<and> read_status stream = Inr s \<and> ss_Phase s = ''reaped'' \<and> ss_Version s = runnerProtocolVersion"
  proof -
    obtain stream where "te_status e = Some stream" "reaped (read_status stream)" using ok(6) by blast
    then show ?thesis by (cases "read_status stream") (auto simp: reaped_def)
  qed
  then show ?thesis using e ok(1-5) eff
    by (intro exI[of _ e] conjI exI[of _ "[CloseRequest, CloseResponse, JoinIO, SignalGroup False, WaitGrace]"] exI[of _ "[CloseControl, AwaitReaped, CloseStatus, AwaitExit]"]) auto
qed

subsection \<open>Starting a runner\<close>

text \<open>
  \<open>se_ready\<close> is the readiness the supervisor reports, \<open>se_select\<close> that the first \<open>select\<close> takes it, \<open>se_late\<close> that
  it comes within \<open>KillWait\<close> of a cancelled start, and \<open>se_terminate\<close> how a termination goes.
\<close>

record start_env =
  se_pipes :: bool
  se_started :: bool
  se_ctx :: "ctx_cause option"
  se_select :: bool
  se_cause :: ctx_cause
  se_ready :: bytes
  se_late :: bool
  se_terminate :: "termination_env option"

definition readinessHasAnchoredGroup :: "frame_error + supervisorStatus \<Rightarrow> bool" where
  "readinessHasAnchoredGroup r = (case r of Inl _ \<Rightarrow> False | Inr s \<Rightarrow> ss_Phase s = ''ready'' \<and> ss_PID s > 0 \<and> ss_PGID s = ss_PID s)"

definition group_of :: "frame_error + supervisorStatus \<Rightarrow> int" where
  "group_of r = (case r of Inl _ \<Rightarrow> 0 | Inr s \<Rightarrow> ss_PGID s)"

definition compatible :: "frame_error + supervisorStatus \<Rightarrow> bool" where
  "compatible r = (case r of Inl _ \<Rightarrow> False | Inr s \<Rightarrow> ss_Version s = runnerProtocolVersion \<and> length (ss_Python s) = 2 \<and>
     ss_Python s ! 0 = 3 \<and> ss_Python s ! 1 \<ge> 11 \<and> ss_Python s ! 1 \<le> 14)"

text \<open>The results: a process or none, and the error, empty when there is none.\<close>

definition classifyReadiness :: "start_env \<Rightarrow> runnerProcess \<Rightarrow> runnerProcess option \<times> repl_error list" where
  "classifyReadiness e p =
     (let status = read_status (se_ready e) in
      if \<not> readinessHasAnchoredGroup status then (Some p, [repl_operationError ''runner-readiness'', errCleanupIncomplete])
      else
        let p = p\<lparr>rp_pgid := group_of status\<rparr> in
        if compatible status then (Some p, [])
        else case terminateAndWait (se_terminate e) p of
          [] \<Rightarrow> (None, [errBootstrapIntegrity])
        | err \<Rightarrow> (Some p, errBootstrapIntegrity # err))"

definition cancelStartup :: "start_env \<Rightarrow> ctx_cause \<Rightarrow> runnerProcess \<Rightarrow> runnerProcess option \<times> repl_error list" where
  "cancelStartup e cause p =
     (let status = read_status (se_ready e) in
      if se_late e \<and> readinessHasAnchoredGroup status then
        (let p = p\<lparr>rp_pgid := group_of status\<rparr> in
         case terminateAndWait (se_terminate e) p of
           [] \<Rightarrow> (None, [repl_contextError cause])
         | err \<Rightarrow> (Some p, repl_contextError cause # err))
      else (Some p, [repl_contextError cause, errCleanupIncomplete]))"

definition startRunner :: "start_env \<Rightarrow> nat \<Rightarrow> runnerProcess option \<times> repl_error list" where
  "startRunner e ident =
     (let p = \<lparr>rp_ident = ident, rp_pgid = 0, rp_requestID = 0\<rparr> in
      if \<not> se_pipes e then (None, [repl_operationError ''runner-pipe''])
      else if \<not> se_started e then (None, [repl_operationError ''runner-start''])
      else case se_ctx e of
        Some cause \<Rightarrow> cancelStartup e cause p
      | None \<Rightarrow> if se_select e then classifyReadiness e p else cancelStartup e (se_cause e) p)"

text \<open>A start either yields a usable runner, or leaves no process, or hands back the process it could not clean up.\<close>

lemma startRunner_cases:
  assumes "startRunner e ident = (r, err)"
  obtains (usable) p where "r = Some p" "err = []" "rp_ident p = ident" "rp_pgid p > 0" "rp_requestID p = 0"
    | (nothing) "r = None" "err \<noteq> []" "\<not> se_pipes e \<or> \<not> se_started e"
    | (cleaned) p where "r = None" "err \<noteq> []" "rp_ident p = ident" "terminateAndWait (se_terminate e) p = []"
    | (left) p where "r = Some p" "err \<noteq> []" "errCleanupIncomplete \<in> set err" "rp_ident p = ident"
proof -
  have term_err: "errCleanupIncomplete \<in> set (terminateAndWait t p)" if "terminateAndWait t p \<noteq> []" for t p
    using that by (auto simp: terminateAndWait_def coordinateTermination_def Let_def split: option.splits if_splits)
  define p where "p = \<lparr>rp_ident = ident, rp_pgid = 0, rp_requestID = 0\<rparr>"
  define q where "q = p\<lparr>rp_pgid := group_of (read_status (se_ready e))\<rparr>"
  have ids: "rp_ident p = ident" "rp_ident q = ident" by (simp_all add: p_def q_def)
  have cancel: thesis if "cancelStartup e cause p = (r, err)" for cause
  proof (cases "se_late e \<and> readinessHasAnchoredGroup (read_status (se_ready e))")
    case True
    then show thesis using that cleaned[of q] left[of q] ids term_err[of "se_terminate e" q]
      by (cases "terminateAndWait (se_terminate e) q") (auto simp: cancelStartup_def Let_def q_def[symmetric])
  next
    case False
    then show thesis using that left[of p] ids by (auto simp: cancelStartup_def Let_def)
  qed
  have ready: thesis if c: "classifyReadiness e p = (r, err)"
  proof (cases "readinessHasAnchoredGroup (read_status (se_ready e))")
    case anchored: True
    have pos: "rp_pgid q > 0 \<and> rp_requestID q = 0"
      using anchored by (auto simp: q_def p_def readinessHasAnchoredGroup_def group_of_def split: sum.splits)
    show thesis
    proof (cases "compatible (read_status (se_ready e))")
      case True
      then show thesis using c anchored usable[of q] ids pos by (simp add: classifyReadiness_def Let_def q_def[symmetric])
    next
      case False
      then show thesis using c anchored cleaned[of q] left[of q] ids term_err[of "se_terminate e" q]
        by (cases "terminateAndWait (se_terminate e) q") (auto simp: classifyReadiness_def Let_def q_def[symmetric])
    qed
  next
    case False
    then show thesis using c left[of p] ids by (auto simp: classifyReadiness_def Let_def)
  qed
  show thesis
  proof (cases "se_pipes e \<and> se_started e")
    case True
    then show thesis using assms cancel ready by (auto simp: startRunner_def p_def[symmetric] Let_def split: if_splits option.splits)
  next
    case False
    then have "r = None" "err \<noteq> []" using assms by (auto simp: startRunner_def Let_def split: if_splits)
    then show thesis by (rule nothing) (use False in auto)
  qed
qed

definition reaped_json :: json where
  "reaped_json = JObj [(''phase'', JStr ''reaped''), (''version'', JStr runnerProtocolVersion), (''exit_code'', JNum ''0'')]"

definition reaped_stream :: bytes where
  "reaped_stream = PutUint32 (length (enc reaped_json)) @ enc reaped_json"

lemma reaped_stream_status:
  "read_status reaped_stream = Inr \<lparr>ss_Phase = ''reaped'', ss_Version = runnerProtocolVersion, ss_PID = 0, ss_PGID = 0, ss_Python = [], ss_ExitCode = 0\<rparr>"
proof -
  have enc: "list_all (\<lambda>c. byte c < 0x80) (enc reaped_json)" "length (enc reaped_json) \<le> 1024" "enc reaped_json \<noteq> []"
    by (simp_all add: reaped_json_def runnerProtocolVersion_def marshal_string_def escape_body.simps escape_step_def escape_ascii_def html_safe_def)
  have digit: "(''0''::bytes) = nat_digits 0" by (simp add: nat_digits_lt10)
  have "encodable reaped_json" "depth reaped_json \<le> maxNestingDepth"
    by (auto simp: reaped_json_def digit canonical_digits runnerProtocolVersion_def utf8_valid_all_ascii maxNestingDepth_def)
  then have doc: "json_document (enc reaped_json) = Some reaped_json" by (rule json_document_enc)
  have uniq: "unique_ok False reaped_json" by (simp add: reaped_json_def digit nat_digits_float64)
  have num: "parse_int64 ''0'' = Some 0" using parse_int64_lit[of 0] by (simp add: int_lit_def digit int64_def MaxInt64_def)
  have "field_of status_names ''phase'' = Some ''phase''" "field_of status_names ''version'' = Some ''version''"
      "field_of status_names ''exit_code'' = Some ''exit_code''"
    by (simp_all add: field_of_def status_names_def)
  then have "into_struct status_names put_status zero_status reaped_json =
      Some \<lparr>ss_Phase = ''reaped'', ss_Version = runnerProtocolVersion, ss_PID = 0, ss_PGID = 0, ss_Python = [], ss_ExitCode = 0\<rparr>"
    by (simp add: reaped_json_def set_member_def put_status_def zero_status_def num)
  then have "readFrame (into_struct status_names put_status zero_status) 1024 (PutUint32 (length (enc reaped_json)) @ enc reaped_json @ []) =
      (Inr \<lparr>ss_Phase = ''reaped'', ss_Version = runnerProtocolVersion, ss_PID = 0, ss_PGID = 0, ss_Python = [], ss_ExitCode = 0\<rparr>, [])"
    using enc(2,3) utf8_valid_all_ascii[OF enc(1)] doc uniq by (intro readFrame_body) simp_all
  then show ?thesis by (simp add: read_status_def reaped_stream_def)
qed

theorem termination_clean_witness:
  "terminateAndWait (Some \<lparr>te_term_failed = False, te_kill_failed = False, te_control_failed = False, te_status = Some reaped_stream, te_exited = True\<rparr>)
     serve_demo_process = [] \<and> rp_pgid serve_demo_process > 0"
proof -
  have clean: "terminateAndWait (Some \<lparr>te_term_failed = False, te_kill_failed = False, te_control_failed = False, te_status = Some reaped_stream, te_exited = True\<rparr>)
     serve_demo_process = []"
    by (simp add: terminateAndWait_def coordinateTermination_def Let_def serve_demo_process_def reaped_def reaped_stream_status)
  from termination_clean[OF this] show ?thesis using clean by blast
qed

end
