(* ===== verification/Repl_Config.thy ===== *)
theory Repl_Config
  imports Repl_Runner Jobs_Tools
begin

section \<open>pythonrepl: configuration, inputs and results\<close>

text \<open>
  config.go (limits, environment, retention and the limits of the protocol), tools.go (the normalizers and
  the results) and the owner of a call in executor.go. Where Go computes in \<open>int64\<close> without checking
  first, the wrap-around is written out.
\<close>

subsection \<open>Limits\<close>

record repl_Limits = text_limits +
  MaxSessions :: int
  MaxQueuedPerSession :: int
  MaxCodeBytes :: int
  repl_MaxEnvironmentEntries :: int
  repl_MaxEnvironmentBytes :: int
  repl_DefaultTimeout :: int
  repl_MaxTimeout :: int
  VenvCreateTimeout :: int
  RunnerStartTimeout :: int
  repl_TerminateGrace :: int
  repl_KillWait :: int

definition repl_validateLimits :: "repl_Limits \<Rightarrow> repl_error option" where
  "repl_validateLimits l =
     (if list_ex (\<lambda>v. v \<le> 0) [MaxSessions l, MaxQueuedPerSession l, MaxCodeBytes l, repl_MaxOutputBytesPerStream l, repl_MaxResultBytes l,
           MaxExceptionBytes l, repl_MaxEnvironmentEntries l, repl_MaxEnvironmentBytes l] then Some (repl_configError ''limits'')
      else if repl_DefaultTimeout l < Second \<or> repl_DefaultTimeout l mod Second \<noteq> 0 \<or> repl_MaxTimeout l < Second \<or>
           repl_MaxTimeout l mod Second \<noteq> 0 \<or> repl_DefaultTimeout l > repl_MaxTimeout l then Some (repl_configError ''execution-timeout'')
      else if list_ex (\<lambda>v. v \<le> 0) [VenvCreateTimeout l, RunnerStartTimeout l, repl_TerminateGrace l, repl_KillWait l]
        then Some (repl_configError ''deadline'')
      else if repl_KillWait l > (MaxInt64 - Second) div 2 \<or> repl_TerminateGrace l > MaxInt64 - 2 * repl_KillWait l - Second
        then Some (repl_configError ''termination-bounds'')
      else None)"

subsection \<open>Results\<close>

record ExecuteResult =
  er_Status :: string
  er_Stdout :: BoundedText
  er_Stderr :: BoundedText
  er_Result :: BoundedText
  er_Exception :: BoundedText
  er_Generation :: "64 word"
  er_StateReset :: bool
  er_StateResetReason :: string

record ClearResult =
  cr_HadState :: bool
  cr_Generation :: "64 word"

definition uint_lit :: "64 word \<Rightarrow> bytes" where
  "uint_lit w = nat_digits (unat w)"

definition execute_result_json :: "ExecuteResult \<Rightarrow> json" where
  "execute_result_json r = JObj [(''status'', JStr (er_Status r)), (''stdout'', bounded_json (er_Stdout r)), (''stderr'', bounded_json (er_Stderr r)),
     (''result'', bounded_json (er_Result r)), (''exception'', bounded_json (er_Exception r)), (''generation'', JNum (uint_lit (er_Generation r))),
     (''state_reset'', JBool (er_StateReset r)), (''state_reset_reason'', JStr (er_StateResetReason r))]"

definition clear_result_json :: "ClearResult \<Rightarrow> json" where
  "clear_result_json r = JObj [(''had_state'', JBool (cr_HadState r)), (''generation'', JNum (uint_lit (cr_Generation r)))]"

definition validResetReason :: "string \<Rightarrow> bool" where
  "validResetReason v \<longleftrightarrow> List.member [[], ''canceled'', ''timed_out'', ''cleared'', ''runner_failed''] v"

subsection \<open>Retention and the limits of the protocol\<close>

definition max_execute :: "string \<Rightarrow> ExecuteResult" where
  "max_execute status = \<lparr>er_Status = status, er_Stdout = zero_text, er_Stderr = zero_text, er_Result = zero_text, er_Exception = zero_text,
     er_Generation = - 1, er_StateReset = True, er_StateResetReason = ''runner_failed''\<rparr>"

definition retention_base :: "string \<Rightarrow> int" where
  "retention_base status = len (enc (execute_result_json (max_execute status)))"

definition stream_text :: "'a text_limits_scheme \<Rightarrow> int \<Rightarrow> int" where
  "stream_text l extra = wrap64 (wrap64 (repl_MaxOutputBytesPerStream l * 2) + extra)"

definition two_copies :: "int \<Rightarrow> int option" where
  "two_copies oneCopy = (if oneCopy > MaxInt64 div 2 \<or> oneCopy * 2 > 16 * 2 ^ 20 then None else Some (oneCopy * 2))"

text \<open>The inline bytes kept of an execute and of a clear.\<close>

definition repl_retentionPolicies :: "'a text_limits_scheme \<Rightarrow> repl_error + int \<times> int" where
  "repl_retentionPolicies l =
     (let completedText = stream_text l (repl_MaxResultBytes l);
          errorText = stream_text l (MaxExceptionBytes l) in
      if completedText \<le> 0 \<or> errorText \<le> 0 \<or> completedText > MaxInt64 div 6 \<or> errorText > MaxInt64 div 6
      then Inl (repl_configError ''result-retention'')
      else
        let completedOne = wrap64 (retention_base ''completed'' + 6 * completedText);
            errorOne = wrap64 (retention_base ''python_error'' + 6 * errorText);
            executeOne = (if errorOne > completedOne then errorOne else completedOne) in
        if executeOne < 0 then Inl (repl_configError ''result-retention'')
        else case (two_copies executeOne, two_copies (len (enc (clear_result_json \<lparr>cr_HadState = False, cr_Generation = - 1\<rparr>)))) of
          (Some a, Some b) \<Rightarrow> Inr (a, b)
        | _ \<Rightarrow> Inl (repl_configError ''result-retention''))"

definition protocolMaxima :: "repl_Limits \<Rightarrow> repl_error + nat \<times> nat" where
  "protocolMaxima l =
     (let request = wrap64 (128 + wrap64 (MaxCodeBytes l * 6));
          textBytes = wrap64 (stream_text l (repl_MaxResultBytes l) + MaxExceptionBytes l) in
      if textBytes \<le> 0 \<or> textBytes > (MaxInt64 - 512) div 6 then Inl (repl_configError ''protocol-bounds'')
      else
        let response = wrap64 (512 + 6 * textBytes) in
        if request \<le> 0 \<or> response \<le> 0 \<or> request > 2 ^ 32 - 1 \<or> response > 2 ^ 32 - 1 then Inl (repl_configError ''protocol-bounds'')
        else Inr (nat request, nat response))"

subsection \<open>The environment and the paths\<close>

fun repl_env_check :: "repl_Limits \<Rightarrow> int \<Rightarrow> (string \<times> string) list \<Rightarrow> repl_error option" where
  "repl_env_check l tot [] = None"
| "repl_env_check l tot ((k, v) # kvs) =
     (if k = [] \<or> \<not> utf8_valid k \<or> \<not> utf8_valid v \<or> ContainsAny k [CHR ''='', CHR 0x00] \<or> ContainsByte v (CHR 0x00)
      then Some (repl_configError ''environment-entry'')
      else let entryBytes = len k + 1 + len v in
        if entryBytes > repl_MaxEnvironmentBytes l - tot then Some (repl_configError ''environment-bytes'')
        else repl_env_check l (tot + entryBytes) kvs)"

definition canonicalEnvironment ::
  "((string \<times> string) list \<Rightarrow> (string \<times> string) list) \<Rightarrow> (string \<times> string) list \<Rightarrow> repl_Limits \<Rightarrow> repl_error + string list" where
  "canonicalEnvironment range_order entries l =
     (if len entries > repl_MaxEnvironmentEntries l then Inl (repl_configError ''environment-entries'')
      else case repl_env_check l 0 (range_order entries) of
        Some err \<Rightarrow> Inl err
      | None \<Rightarrow> Inr (map (env_entry entries) (sort (map fst (range_order entries)))))"

text \<open>What the executable, the temporary root and a workspace root share: a clean absolute path, resolved.\<close>

definition resolve_clean :: "'f file_system \<Rightarrow> string \<Rightarrow> string option" where
  "resolve_clean fs path =
     (if path = [] \<or> ContainsByte path (CHR 0x00) \<or> \<not> IsAbs path \<or> Clean path \<noteq> path then None
      else case fs_EvalSymlinks fs path of None \<Rightarrow> None | Some resolved \<Rightarrow> filepath_Abs (fs_Getwd fs) (Clean resolved))"

definition canonicalExecutable :: "(bool \<times> nat) file_system \<Rightarrow> string \<Rightarrow> repl_error + string" where
  "canonicalExecutable fs path =
     (case resolve_clean fs path of
        None \<Rightarrow> Inl (repl_configError ''python-path'')
      | Some resolved \<Rightarrow>
          (case fs_Stat fs resolved of
             None \<Rightarrow> Inl (repl_configError ''python-executable'')
           | Some (isRegular, perm) \<Rightarrow> if \<not> isRegular \<or> and perm 73 = 0 then Inl (repl_configError ''python-executable'') else Inr resolved))"

definition resolved_directory :: "repl_error \<Rightarrow> bool file_system \<Rightarrow> string \<Rightarrow> repl_error + string" where
  "resolved_directory err fs path =
     (case resolve_clean fs path of
        None \<Rightarrow> Inl err
      | Some resolved \<Rightarrow> (case fs_Stat fs resolved of None \<Rightarrow> Inl err | Some isDir \<Rightarrow> if \<not> isDir then Inl err else Inr resolved))"

definition repl_canonicalDirectory :: "bool file_system \<Rightarrow> string \<Rightarrow> repl_error + string" where
  "repl_canonicalDirectory = resolved_directory (repl_configError ''temp-root'')"

definition canonicalWorkspaceRoot :: "bool file_system \<Rightarrow> string \<Rightarrow> repl_error + string" where
  "canonicalWorkspaceRoot = resolved_directory (repl_runtimeError ''workspace-root'')"

definition repl_runtimeOwner :: "bool file_system \<Rightarrow> string \<Rightarrow> string \<Rightarrow> string \<Rightarrow> string \<Rightarrow> repl_error + (string \<times> string) \<times> string" where
  "repl_runtimeOwner fs sessionID turnSessionID workspaceID workspaceRoot =
     (if sessionID = [] \<or> workspaceID = [] \<or> workspaceRoot = [] then Inl (repl_runtimeError ''owner'')
      else if turnSessionID \<noteq> [] \<and> turnSessionID \<noteq> sessionID then Inl (repl_runtimeError ''owner'')
      else case canonicalWorkspaceRoot fs workspaceRoot of Inl err \<Rightarrow> Inl err | Inr root \<Rightarrow> Inr ((sessionID, workspaceID), root))"

subsection \<open>canonicalize\<close>

record 'scope repl_Options =
  po_Scope :: "'scope option"
  po_Order :: int
  PythonPath :: string
  PythonIdentity :: string
  repl_TempRoot :: string
  po_Entries :: "(string \<times> string) list"
  po_EnvironmentIdentity :: string
  po_Limits :: repl_Limits

record 'scope repl_canonicalOptions =
  pc_scope :: 'scope
  pc_order :: int
  pc_pythonPath :: string
  pc_pythonIdentity :: string
  pc_tempRoot :: string
  pc_env :: "string list"
  pc_limits :: repl_Limits
  pc_retention :: "int \<times> int"
  pc_requestMax :: nat
  pc_responseMax :: nat

definition repl_validIdentity :: "string \<Rightarrow> bool" where
  "repl_validIdentity value =
     (if value = [] \<or> len value > 256 \<or> \<not> utf8_valid value \<or> ContainsByte value (CHR 0x00) then False
      else \<not> list_ex (\<lambda>p. IsControl (fst p)) (runes value))"

definition repl_canonicalize ::
  "'scope \<Rightarrow> ('scope \<Rightarrow> bool) \<Rightarrow> bool \<Rightarrow> (bool \<times> nat) file_system \<Rightarrow> bool file_system
   \<Rightarrow> ((string \<times> string) list \<Rightarrow> (string \<times> string) list) \<Rightarrow> 'scope repl_Options \<Rightarrow> repl_error + 'scope repl_canonicalOptions" where
  "repl_canonicalize GlobalScope ValidateScope platformSupported files dirs range_order options =
     (let scope = (case po_Scope options of None \<Rightarrow> GlobalScope | Some s \<Rightarrow> s);
          order = (if po_Order options = 0 then 100 else po_Order options);
          l = po_Limits options in
      if \<not> ValidateScope scope then Inl (repl_configError ''scope'')
      else if \<not> platformSupported then Inl (repl_configError ''unsupported-platform'')
      else case repl_validateLimits l of Some err \<Rightarrow> Inl err | None \<Rightarrow>
      if \<not> repl_validIdentity (PythonIdentity options) then Inl (repl_configError ''python-identity'')
      else if \<not> repl_validIdentity (po_EnvironmentIdentity options) then Inl (repl_configError ''environment-identity'')
      else case canonicalExecutable files (PythonPath options) of Inl err \<Rightarrow> Inl err | Inr pythonPath \<Rightarrow>
      case repl_canonicalDirectory dirs (repl_TempRoot options) of Inl err \<Rightarrow> Inl err | Inr tempRoot \<Rightarrow>
      case canonicalEnvironment range_order (po_Entries options) l of Inl err \<Rightarrow> Inl err | Inr env \<Rightarrow>
      case repl_retentionPolicies l of Inl err \<Rightarrow> Inl err | Inr retention \<Rightarrow>
      case protocolMaxima l of Inl err \<Rightarrow> Inl err | Inr (requestMax, responseMax) \<Rightarrow>
      Inr \<lparr>pc_scope = scope, pc_order = order, pc_pythonPath = pythonPath, pc_pythonIdentity = PythonIdentity options, pc_tempRoot = tempRoot,
           pc_env = env, pc_limits = l, pc_retention = retention, pc_requestMax = requestMax, pc_responseMax = responseMax\<rparr>)"

subsection \<open>Inputs\<close>

record executeInput =
  ei_Code :: string
  ei_TimeoutSeconds :: "int option"

definition put_execute :: "string \<Rightarrow> json \<Rightarrow> executeInput \<Rightarrow> executeInput option" where
  "put_execute n v i =
     (if n = ''code'' then map_option (\<lambda>s. i\<lparr>ei_Code := s\<rparr>) (into_string (ei_Code i) v)
      else map_option (\<lambda>t. i\<lparr>ei_TimeoutSeconds := t\<rparr>) (into_int64_ptr (ei_TimeoutSeconds i) v))"

definition execute_into :: "json \<Rightarrow> executeInput option" where
  "execute_into = into_struct [''code'', ''timeout_seconds''] put_execute \<lparr>ei_Code = [], ei_TimeoutSeconds = None\<rparr>"

definition repl_strictDecode :: "(json \<Rightarrow> 'i option) \<Rightarrow> bytes \<Rightarrow> 'i option" where
  "repl_strictDecode into raw =
     (if \<not> utf8_valid raw \<or> \<not> validJSONStructure raw then None
      else case json_document raw of None \<Rightarrow> None | Some v \<Rightarrow> into v)"

definition execute_input_json :: "executeInput \<Rightarrow> json" where
  "execute_input_json i = JObj ([(''code'', JStr (ei_Code i))] @
     (case ei_TimeoutSeconds i of None \<Rightarrow> [] | Some s \<Rightarrow> [(''timeout_seconds'', JNum (int_lit s))]))"

definition normalizeExecute :: "repl_Limits \<Rightarrow> nat \<Rightarrow> bool \<Rightarrow> bytes \<Rightarrow> call_error + bytes" where
  "normalizeExecute l requestMax ctxErr raw =
     (if ctxErr then Inl ContextError
      else if length raw > requestMax then Inl (bj_malformed ''size'')
      else case repl_strictDecode execute_into raw of
        None \<Rightarrow> Inl (bj_malformed ''shape'')
      | Some input \<Rightarrow>
          if ei_Code input = [] \<or> \<not> utf8_valid (ei_Code input) \<or> len (ei_Code input) > MaxCodeBytes l then Inl (bj_malformed ''code'')
          else if (case ei_TimeoutSeconds input of None \<Rightarrow> False | Some seconds \<Rightarrow> seconds < 0 \<or> seconds > repl_MaxTimeout l div Second)
          then Inl (bj_malformed ''timeout'')
          else Inr (enc (execute_input_json input)))"

text \<open>Decoding into a map: null leaves it nil.\<close>

fun members_into :: "json \<Rightarrow> (string \<times> json) list option option" where
  "members_into (JObj ms) = Some (Some ms)"
| "members_into JNull = Some None"
| "members_into _ = None"

definition normalizeClear :: "bool \<Rightarrow> bytes \<Rightarrow> call_error + bytes" where
  "normalizeClear ctxErr raw =
     (if ctxErr then Inl ContextError
      else if length raw > 64 then Inl (bj_malformed ''size'')
      else if repl_strictDecode members_into raw = Some (Some []) then Inr ''{}'' else Inl (bj_malformed ''shape''))"

definition effective_timeout :: "repl_Limits \<Rightarrow> executeInput \<Rightarrow> int" where
  "effective_timeout l i =
     (case ei_TimeoutSeconds i of None \<Rightarrow> repl_DefaultTimeout l | Some s \<Rightarrow> if s > 0 then s * Second else repl_DefaultTimeout l)"

text \<open>How the executor reports an error of \<open>manager.execute\<close>; the second argument is the error of the caller's own context.\<close>

definition executor_error :: "repl_error list \<Rightarrow> ctx_cause option \<Rightarrow> repl_error list" where
  "executor_error err parent =
     (if List.member err (repl_contextError DeadlineExceeded) then
        (case parent of
           Some cause \<Rightarrow> err @ [repl_contextError cause]
         | None \<Rightarrow> [errExecutionTimedOut, repl_contextError DeadlineExceeded])
      else if List.member err (repl_contextError Canceled) \<and> parent \<noteq> None then err @ [repl_contextError (the parent)]
      else err)"

subsection \<open>Without wrap-around\<close>

text \<open>Limits whose sums \<open>int64\<close> can hold. Nothing in \<open>canonicalize\<close> checks this.\<close>

definition sums_fit :: "repl_Limits \<Rightarrow> bool" where
  "sums_fit l \<longleftrightarrow> MaxCodeBytes l \<le> (MaxInt64 - 128) div 6 \<and>
     2 * repl_MaxOutputBytesPerStream l + repl_MaxResultBytes l + MaxExceptionBytes l \<le> MaxInt64"

lemma limits_positive:
  assumes "repl_validateLimits l = None"
  shows "0 < MaxCodeBytes l" "0 < repl_MaxOutputBytesPerStream l" "0 < repl_MaxResultBytes l" "0 < MaxExceptionBytes l" "0 < repl_MaxTimeout l"
  using assms by (auto simp: repl_validateLimits_def Second_def split: if_splits)

lemma code_bound_exact:
  assumes "repl_validateLimits l = None" "128 + 6 * MaxCodeBytes l \<le> MaxInt64"
  shows "wrap64 (128 + wrap64 (MaxCodeBytes l * 6)) = 128 + 6 * MaxCodeBytes l"
proof -
  have "wrap64 (MaxCodeBytes l * 6) = MaxCodeBytes l * 6"
    using limits_positive[OF assms(1)] assms(2) by (intro wrap64_id) (auto simp: int64_def MaxInt64_def)
  then show ?thesis using limits_positive[OF assms(1)] assms(2) by (subst wrap64_id) (auto simp: int64_def MaxInt64_def)
qed

lemma protocolMaxima_request:
  assumes "repl_validateLimits l = None" "128 + 6 * MaxCodeBytes l \<le> MaxInt64" "protocolMaxima l = Inr (requestMax, responseMax)"
  shows "int requestMax = 128 + 6 * MaxCodeBytes l" "requestMax < 2 ^ 32"
proof -
  have "requestMax = nat (128 + 6 * MaxCodeBytes l)" "0 < 128 + 6 * MaxCodeBytes l" "128 + 6 * MaxCodeBytes l \<le> 2 ^ 32 - 1"
    using assms(3) limits_positive[OF assms(1)] unfolding protocolMaxima_def Let_def code_bound_exact[OF assms(1,2)] by (auto split: if_splits)
  then show "int requestMax = 128 + 6 * MaxCodeBytes l" "requestMax < 2 ^ 32" by simp_all
qed

lemma sums_exact:
  assumes "repl_validateLimits l = None" "sums_fit l"
  shows "stream_text l (repl_MaxResultBytes l) = 2 * repl_MaxOutputBytesPerStream l + repl_MaxResultBytes l"
    and "stream_text l (MaxExceptionBytes l) = 2 * repl_MaxOutputBytesPerStream l + MaxExceptionBytes l"
    and "wrap64 (128 + wrap64 (MaxCodeBytes l * 6)) = 128 + 6 * MaxCodeBytes l"
    and "wrap64 (stream_text l (repl_MaxResultBytes l) + MaxExceptionBytes l) =
      2 * repl_MaxOutputBytesPerStream l + repl_MaxResultBytes l + MaxExceptionBytes l"
proof -
  note pos = limits_positive[OF assms(1)]
  have out: "wrap64 (repl_MaxOutputBytesPerStream l * 2) = 2 * repl_MaxOutputBytesPerStream l"
    using pos assms(2) by (subst wrap64_id) (auto simp: int64_def MaxInt64_def sums_fit_def)
  show res: "stream_text l (repl_MaxResultBytes l) = 2 * repl_MaxOutputBytesPerStream l + repl_MaxResultBytes l"
    unfolding stream_text_def out using pos assms(2) by (intro wrap64_id) (auto simp: int64_def MaxInt64_def sums_fit_def)
  show "stream_text l (MaxExceptionBytes l) = 2 * repl_MaxOutputBytesPerStream l + MaxExceptionBytes l"
    unfolding stream_text_def out using pos assms(2) by (intro wrap64_id) (auto simp: int64_def MaxInt64_def sums_fit_def)
  show "wrap64 (128 + wrap64 (MaxCodeBytes l * 6)) = 128 + 6 * MaxCodeBytes l"
    using assms(2) by (intro code_bound_exact[OF assms(1)]) (simp add: sums_fit_def MaxInt64_def)
  show "wrap64 (stream_text l (repl_MaxResultBytes l) + MaxExceptionBytes l) =
      2 * repl_MaxOutputBytesPerStream l + repl_MaxResultBytes l + MaxExceptionBytes l"
    unfolding res using pos assms(2) by (intro wrap64_id) (auto simp: int64_def MaxInt64_def sums_fit_def)
qed

lemma protocolMaxima_exact:
  assumes "repl_validateLimits l = None" "sums_fit l" "protocolMaxima l = Inr (requestMax, responseMax)"
  shows "int requestMax = 128 + 6 * MaxCodeBytes l" "responseMax < 2 ^ 32" "requestMax < 2 ^ 32"
    and "int responseMax = 512 + 6 * (2 * repl_MaxOutputBytesPerStream l + repl_MaxResultBytes l + MaxExceptionBytes l)"
proof -
  note pos = limits_positive[OF assms(1)] and ex = sums_exact[OF assms(1,2)]
  let ?t = "2 * repl_MaxOutputBytesPerStream l + repl_MaxResultBytes l + MaxExceptionBytes l"
  from assms(3) have t: "?t \<le> (MaxInt64 - 512) div 6" and r: "requestMax = nat (128 + 6 * MaxCodeBytes l)" "responseMax = nat (wrap64 (512 + 6 * ?t))"
      "128 + 6 * MaxCodeBytes l \<le> 2 ^ 32 - 1" "wrap64 (512 + 6 * ?t) \<le> 2 ^ 32 - 1"
    unfolding protocolMaxima_def Let_def ex(3,4) by (auto split: if_splits)
  have w: "wrap64 (512 + 6 * ?t) = 512 + 6 * ?t" using t pos by (intro wrap64_id) (auto simp: int64_def MaxInt64_def)
  show "int requestMax = 128 + 6 * MaxCodeBytes l" "int responseMax = 512 + 6 * ?t" using r(1,2) pos unfolding w by simp_all
  then show "responseMax < 2 ^ 32" "requestMax < 2 ^ 32" using r(3,4) unfolding w by simp_all
qed

subsection \<open>Results fit what is retained\<close>

text \<open>The result that \<open>manager.execute\<close> makes of a response.\<close>

definition execute_result :: "runnerResponse \<Rightarrow> 64 word \<Rightarrow> bool \<Rightarrow> string \<Rightarrow> ExecuteResult" where
  "execute_result r generation reset reason =
     \<lparr>er_Status = rr_Status r, er_Stdout = rr_Stdout r, er_Stderr = rr_Stderr r, er_Result = rr_Result r, er_Exception = rr_Exception r,
      er_Generation = generation, er_StateReset = reset, er_StateResetReason = reason\<rparr>"

lemma length_repl_names:
  "length (marshal_string ''text'') = 6" "length (marshal_string ''truncated'') = 11" "length (marshal_string ''status'') = 8"
  "length (marshal_string ''stdout'') = 8" "length (marshal_string ''stderr'') = 8" "length (marshal_string ''result'') = 8"
  "length (marshal_string ''exception'') = 11" "length (marshal_string ''generation'') = 12" "length (marshal_string ''state_reset'') = 13"
  "length (marshal_string ''state_reset_reason'') = 20" "length (marshal_string ''had_state'') = 11" "length (marshal_string ''completed'') = 11"
  "length (marshal_string ''python_error'') = 14" "length (marshal_string ''code'') = 6" "length (marshal_string ''version'') = 9"
  "length (marshal_string ''id'') = 4" "length (marshal_string runnerProtocolVersion) = 23" "length (marshal_string []) = 2"
  by (simp_all add: length_marshal_plain plain_char_def html_safe_def runnerProtocolVersion_def)

lemma length_reset_reason: "validResetReason reason \<Longrightarrow> length (marshal_string reason) \<le> 15"
  by (auto simp: validResetReason_def length_marshal_plain plain_char_def html_safe_def)

lemma length_max_reason: "length (marshal_string ''runner_failed'') = 15"
  by (simp add: length_marshal_plain plain_char_def html_safe_def)

lemma length_uint_lit: "length (uint_lit w) \<le> 20" "length (uint_lit (- 1)) = 20"
proof -
  show "length (uint_lit w) \<le> 20" using length_nat_digits_uint64[of "unat w"] unsigned_less[where 'a=nat, of w] by (simp add: uint_lit_def)
  have "unat (- 1 :: 64 word) = 18446744073709551615" by (simp add: unsigned_minus_1_eq_mask mask_eq_exp_minus_1)
  then show "length (uint_lit (- 1)) = 20" by (simp add: uint_lit_def nat_digits.simps)
qed

lemma length_bounded_enc: "length (enc (bounded_json t)) \<le> 6 * length (bt_Text t) + 29" "length (enc (bounded_json zero_text)) = 29"
  using length_marshal_string[of "bt_Text t"] by (simp_all add: bounded_json_def length_repl_names length_sep_by zero_text_def)

lemma execute_result_size:
  assumes "validRunnerResponse l i r" "validResetReason reason" "b \<or> reason = []"
  shows "len (enc (execute_result_json (execute_result r g b reason))) \<le>
    (if rr_Status r = ''completed'' then retention_base ''completed'' + 6 * (2 * repl_MaxOutputBytesPerStream l + repl_MaxResultBytes l)
     else retention_base ''python_error'' + 6 * (2 * repl_MaxOutputBytesPerStream l + MaxExceptionBytes l))"
proof -
  from assms(1) have v: "rr_Status r = ''completed'' \<or> rr_Status r = ''python_error''" "len (bt_Text (rr_Stdout r)) \<le> repl_MaxOutputBytesPerStream l"
      "len (bt_Text (rr_Stderr r)) \<le> repl_MaxOutputBytesPerStream l" "len (bt_Text (rr_Result r)) \<le> repl_MaxResultBytes l"
      "len (bt_Text (rr_Exception r)) \<le> MaxExceptionBytes l"
    and e: "rr_Status r = ''completed'' \<longrightarrow> rr_Exception r = zero_text" "rr_Status r = ''python_error'' \<longrightarrow> rr_Result r = zero_text"
    by (auto simp: validRunnerResponse_def field_ok_def empty_text_def zero_text_def not_less split: if_splits)
  define o1 where "o1 = length (enc (bounded_json (rr_Stdout r)))"
  define o2 where "o2 = length (enc (bounded_json (rr_Stderr r)))"
  define o3 where "o3 = length (enc (bounded_json (rr_Result r)))"
  define o4 where "o4 = length (enc (bounded_json (rr_Exception r)))"
  define u where "u = length (uint_lit g)"
  have sizes: "int o1 \<le> 6 * repl_MaxOutputBytesPerStream l + 29" "int o2 \<le> 6 * repl_MaxOutputBytesPerStream l + 29"
      "int o3 \<le> 6 * repl_MaxResultBytes l + 29" "int o4 \<le> 6 * MaxExceptionBytes l + 29" "u \<le> 20"
    using length_bounded_enc(1)[of "rr_Stdout r"] length_bounded_enc(1)[of "rr_Stderr r"] length_bounded_enc(1)[of "rr_Result r"]
      length_bounded_enc(1)[of "rr_Exception r"] v(2-5) length_uint_lit(1)[of g] by (simp_all add: o1_def o2_def o3_def o4_def u_def len_def)
  have total_len: "length (enc (execute_result_json (execute_result r g b reason))) =
      length (marshal_string (rr_Status r)) + o1 + o2 + o3 + o4 + u + (if b then 4 else 5) + length (marshal_string reason) + 105"
    by (simp add: execute_result_json_def execute_result_def length_repl_names length_sep_by o1_def o2_def o3_def o4_def u_def)
  have base: "retention_base s = int (length (marshal_string s)) + 4 * 29 + 20 + 4 + 15 + 105" for s
    by (simp add: retention_base_def max_execute_def execute_result_json_def length_repl_names length_sep_by length_bounded_enc(2) length_uint_lit(2)
        length_max_reason len_def)
  show ?thesis
    using v(1) e sizes length_reset_reason[OF assms(2)] length_bounded_enc(2) assms(3) unfolding len_def total_len base
    by (auto simp: o3_def o4_def length_repl_names)
qed

lemma two_copies_Some: "two_copies a = Some b \<Longrightarrow> b = 2 * a"
  by (auto simp: two_copies_def split: if_splits)

lemma repl_retention_Inr:
  assumes "repl_validateLimits l = None" "sums_fit l" "repl_retentionPolicies l = Inr (er, cr)" "protocolMaxima l = Inr (requestMax, responseMax)"
  shows "2 * (retention_base ''completed'' + 6 * (2 * repl_MaxOutputBytesPerStream l + repl_MaxResultBytes l)) \<le> er"
    and "2 * (retention_base ''python_error'' + 6 * (2 * repl_MaxOutputBytesPerStream l + MaxExceptionBytes l)) \<le> er"
    and "cr = 2 * len (enc (clear_result_json \<lparr>cr_HadState = False, cr_Generation = - 1\<rparr>))"
proof -
  note pos = limits_positive[OF assms(1)] and ex = sums_exact[OF assms(1,2)]
  let ?c = "2 * repl_MaxOutputBytesPerStream l + repl_MaxResultBytes l" and ?e = "2 * repl_MaxOutputBytesPerStream l + MaxExceptionBytes l"
  define c1 where "c1 = wrap64 (retention_base ''completed'' + 6 * ?c)"
  define e1 where "e1 = wrap64 (retention_base ''python_error'' + 6 * ?e)"
  note def = assms(3)[unfolded repl_retentionPolicies_def ex(1,2) Let_def, folded c1_def e1_def]
  have ok: "?c \<le> MaxInt64 div 6" "?e \<le> MaxInt64 div 6" "0 \<le> max c1 e1" "two_copies (max c1 e1) = Some er"
      "two_copies (len (enc (clear_result_json \<lparr>cr_HadState = False, cr_Generation = - 1\<rparr>))) = Some cr"
    using def by (auto simp: max_def not_le not_less split: if_splits option.splits)
  have base: "0 \<le> retention_base ''completed''" "retention_base ''completed'' \<le> 400" "0 \<le> retention_base ''python_error''" "retention_base ''python_error'' \<le> 400"
    by (simp_all add: retention_base_def max_execute_def execute_result_json_def length_repl_names length_sep_by length_bounded_enc(2) length_uint_lit(2)
        length_max_reason len_def)
  have top: "int responseMax < 4294967296" using protocolMaxima_exact(2)[OF assms(1,2,4)] by simp
  have "512 + 6 * (?c + MaxExceptionBytes l) < 4294967296" using top unfolding protocolMaxima_exact(4)[OF assms(1,2,4)] .
  then have small: "?c < 4294967296" "?e < 4294967296" using pos(2-4) by simp_all
  have c1: "c1 = retention_base ''completed'' + 6 * ?c" unfolding c1_def
    using small(1) base(1,2) pos by (intro wrap64_id) (auto simp: int64_def MaxInt64_def)
  have e1: "e1 = retention_base ''python_error'' + 6 * ?e" unfolding e1_def
    using small(2) base(3,4) pos by (intro wrap64_id) (auto simp: int64_def MaxInt64_def)
  have er: "er = 2 * max c1 e1" using two_copies_Some[OF ok(4)] .
  show "2 * (retention_base ''completed'' + 6 * ?c) \<le> er" unfolding er c1[symmetric] by simp
  show "2 * (retention_base ''python_error'' + 6 * ?e) \<le> er" unfolding er e1[symmetric] by simp
  show "cr = 2 * len (enc (clear_result_json \<lparr>cr_HadState = False, cr_Generation = - 1\<rparr>))" using two_copies_Some[OF ok(5)] .
qed

text \<open>
  C26: For limits that \<open>canonicalize\<close> accepts and whose sums fit \<open>int64\<close>, every result of an execute (of any response
  the host validates, any generation, with or without a reset notice) and every result of a clear takes, encoded
  as JSON, at most half of the inline bytes retained of its tool.
\<close>

theorem repl_results_fit_retention:
  assumes "repl_validateLimits l = None" "repl_retentionPolicies l = Inr (er, cr)" "protocolMaxima l = Inr (requestMax, responseMax)" "sums_fit l"
  shows "(\<forall>i r g b reason. validRunnerResponse l i r \<and> validResetReason reason \<and> (b \<or> reason = []) \<longrightarrow>
      2 * len (enc (execute_result_json (execute_result r g b reason))) \<le> er) \<and>
    (\<forall>c. 2 * len (enc (clear_result_json c)) \<le> cr)"
proof (intro conjI allI impI)
  note ret = repl_retention_Inr[OF assms(1,4,2,3)]
  fix i r g b reason
  assume a: "validRunnerResponse l i r \<and> validResetReason reason \<and> (b \<or> reason = [])"
  then show "2 * len (enc (execute_result_json (execute_result r g b reason))) \<le> er"
    using execute_result_size[of l i r reason b g] ret(1,2) by (cases "rr_Status r = ''completed''") auto
next
  note ret = repl_retention_Inr[OF assms(1,4,2,3)]
  fix c
  show "2 * len (enc (clear_result_json c)) \<le> cr"
    using length_uint_lit(1)[of "cr_Generation c"] unfolding ret(3)
    by (cases "cr_HadState c") (simp_all add: clear_result_json_def length_repl_names length_sep_by length_uint_lit(2) len_def)
qed

definition wide_limits :: repl_Limits where
  "wide_limits = \<lparr>repl_MaxOutputBytesPerStream = 4, repl_MaxResultBytes = 2, MaxExceptionBytes = 2, MaxSessions = 2, MaxQueuedPerSession = 1,
     MaxCodeBytes = 64, repl_MaxEnvironmentEntries = 1, repl_MaxEnvironmentBytes = 64, repl_DefaultTimeout = Second, repl_MaxTimeout = 10 * Second,
     VenvCreateTimeout = Second, RunnerStartTimeout = Second, repl_TerminateGrace = Second, repl_KillWait = Second\<rparr>"

lemma wide_limits_ok:
  "repl_validateLimits wide_limits = None" "sums_fit wide_limits" "protocolMaxima wide_limits = Inr (512, 584)"
  by (simp_all add: repl_validateLimits_def wide_limits_def Second_def MaxInt64_def sums_fit_def protocolMaxima_def stream_text_def Let_def wrap64_id int64_def)

lemma wide_limits_policies: "repl_retentionPolicies wide_limits = Inr (668, 106)"
proof -
  have one: "retention_base ''completed'' = 271" "retention_base ''python_error'' = 274"
      "len (enc (clear_result_json \<lparr>cr_HadState = False, cr_Generation = - 1\<rparr>)) = 53"
    by (simp_all add: retention_base_def max_execute_def execute_result_json_def clear_result_json_def length_repl_names length_sep_by length_bounded_enc(2)
        length_uint_lit(2) length_max_reason len_def)
  show ?thesis unfolding repl_retentionPolicies_def one
    by (simp add: wide_limits_def stream_text_def two_copies_def Let_def wrap64_id int64_def MaxInt64_def)
qed

theorem repl_results_fit_retention_witness:
  "2 * len (enc (clear_result_json \<lparr>cr_HadState = True, cr_Generation = 7\<rparr>)) \<le> 106 \<and>
   2 * len (enc (execute_result_json (execute_result (py_response wide_limits 1 [''ab''] [] (Evaluated ''42'')) 3 True ''timed_out''))) \<le> 668"
proof -
  have "validResetReason ''timed_out''" by (simp add: validResetReason_def)
  moreover have "validRunnerResponse wide_limits 1 (py_response wide_limits 1 [''ab''] [] (Evaluated ''42''))"
    by (simp add: py_response_def wide_limits_def py_bounded_def bw_write_def bw_result_def new_BoundedWriter_def validRunnerResponse_def field_ok_def
        empty_text_def zero_text_def len_def trim_to_valid.simps utf8_valid_all_ascii Let_def)
  moreover note fit = repl_results_fit_retention[OF wide_limits_ok(1) wide_limits_policies wide_limits_ok(3,2)]
  ultimately show ?thesis
    using conjunct1[OF fit, rule_format, of _ "py_response wide_limits 1 [''ab''] [] (Evaluated ''42'')" "''timed_out''" True 3]
      conjunct2[OF fit, rule_format, of "\<lparr>cr_HadState = True, cr_Generation = 7\<rparr>"] by simp
qed

subsection \<open>What is accepted is sent\<close>

lemma u_escape_valid: "utf8_valid (u_escape r)"
proof -
  have "byte (hex_char (n mod 16)) < 0x80" for n using mod_less_divisor[of 16 n] by (auto simp: hex_char_def of_char_of)
  then show ?thesis by (intro utf8_valid_all_ascii) (simp add: u_escape_def)
qed

lemma escape_step_valid:
  assumes "s \<noteq> []"
  shows "utf8_valid (fst (escape_step s))"
proof (cases "byte (hd s) < 0x80")
  case True
  then have "utf8_valid (escape_ascii (hd s))" using u_escape_valid by (auto simp: escape_ascii_def utf8_valid_ascii)
  then show ?thesis using True by (simp add: escape_step_def)
next
  case False
  then show ?thesis using u_escape_valid utf8_valid_take_decode[OF assms] by (simp add: escape_step_def Let_def)
qed

lemma escape_body_valid: "utf8_valid (escape_body s)"
proof (induction s rule: escape_body.induct)
  case (1 s)
  then show ?case using escape_step_valid[of s] by (cases "s = []") (simp_all add: escape_body.simps[of s] utf8_valid_append)
qed

lemma marshal_string_valid: "utf8_valid (marshal_string s)"
  using escape_body_valid[of s] by (simp add: marshal_string_def utf8_valid_append utf8_valid_ascii)

text \<open>Inputs that a decoder yields.\<close>

definition execute_decoded :: "executeInput \<Rightarrow> bool" where
  "execute_decoded i \<longleftrightarrow> (case ei_TimeoutSeconds i of None \<Rightarrow> True | Some s \<Rightarrow> int64 s)"

lemma put_execute_decoded: "put_execute n v i = Some j \<Longrightarrow> execute_decoded i \<Longrightarrow> execute_decoded j"
  by (auto simp: put_execute_def execute_decoded_def dest: into_int64 split: if_splits)

lemma execute_into_decoded:
  assumes "execute_into v = Some i"
  shows "execute_decoded i"
proof -
  let ?put = "set_member [''code'', ''timeout_seconds''] put_execute"
  have none: "fold ?put ms None = None" for ms by (induction ms) (simp_all add: set_member_def)
  have members: "fold ?put ms (Some j) = Some i \<Longrightarrow> execute_decoded j \<Longrightarrow> execute_decoded i" for ms j
  proof (induction ms arbitrary: j)
    case (Cons m ms)
    then obtain k where k: "?put m (Some j) = Some k" using none[of ms] by (cases "?put m (Some j)") auto
    then obtain n where "put_execute n (snd m) j = Some k" by (auto simp: set_member_def split: option.splits)
    then have "execute_decoded k" using put_execute_decoded Cons.prems(2) by blast
    then show ?case using Cons.IH Cons.prems(1) k by simp
  qed simp
  then show ?thesis using assms by (cases v) (auto simp: execute_into_def execute_decoded_def)
qed

text \<open>Inputs that the normalizer accepts.\<close>

definition execute_ok :: "repl_Limits \<Rightarrow> executeInput \<Rightarrow> bool" where
  "execute_ok l i \<longleftrightarrow> ei_Code i \<noteq> [] \<and> utf8_valid (ei_Code i) \<and> len (ei_Code i) \<le> MaxCodeBytes l \<and>
     (case ei_TimeoutSeconds i of None \<Rightarrow> True | Some s \<Rightarrow> 0 \<le> s \<and> s \<le> repl_MaxTimeout l div Second \<and> int64 s)"

lemma execute_decode_encoded:
  assumes "execute_ok l i"
  shows "repl_strictDecode execute_into (enc (execute_input_json i)) = Some i"
proof -
  have "encodable (execute_input_json i)" "depth (execute_input_json i) \<le> 1"
    using assms by (cases "ei_TimeoutSeconds i"; auto simp: execute_input_json_def execute_ok_def utf8_valid_all_ascii canonical_int_lit)+
  then have doc: "json_document (enc (execute_input_json i)) = Some (execute_input_json i)" by (intro json_document_enc) (auto simp: maxNestingDepth_def)
  have fields: "field_of [''code'', ''timeout_seconds''] ''code'' = Some ''code''"
      "field_of [''code'', ''timeout_seconds''] ''timeout_seconds'' = Some ''timeout_seconds''"
    by (simp_all add: field_of_def)
  have "execute_into (execute_input_json i) = Some i"
    using assms by (cases "ei_TimeoutSeconds i")
      (auto simp: execute_into_def execute_input_json_def set_member_def put_execute_def fields parse_int64_lit execute_ok_def)
  moreover have "unique_ok False (execute_input_json i)" "utf8_valid (enc (execute_input_json i))"
    using assms nat_digits_float64[of "nat (the (ei_TimeoutSeconds i))"]
    by (cases "ei_TimeoutSeconds i"; auto simp: execute_input_json_def execute_ok_def int_lit_def int64_def MaxInt64_def utf8_valid_append
        utf8_valid_ascii marshal_string_valid nat_digits_ascii utf8_valid_all_ascii)+
  ultimately show ?thesis using doc validJSONStructure_document[OF doc] by (simp add: repl_strictDecode_def)
qed

lemma length_request:
  "length (enc (request_json (runner_request p code))) \<le> 128 + 6 * length code"
  using length_marshal_string[of code] length_uint_lit(1)[of "rp_requestID p"]
  by (simp add: request_json_def runner_request_def length_sep_by length_repl_names uint_lit_def)

lemma length_execute_input:
  assumes "execute_ok l i"
  shows "length (enc (execute_input_json i)) \<le> 128 + 6 * length (ei_Code i)"
proof -
  have "length (marshal_string ''timeout_seconds'') = 17" by (simp add: length_marshal_plain plain_char_def html_safe_def)
  moreover have "length (int_lit s) \<le> 20" if "0 \<le> s" "int64 s" for s
    using that length_nat_digits_uint64[of "nat s"] by (simp add: int_lit_def int64_def MaxInt64_def)
  ultimately show ?thesis using assms length_marshal_string[of "ei_Code i"]
    by (cases "ei_TimeoutSeconds i") (fastforce simp: execute_input_json_def length_sep_by length_repl_names execute_ok_def)+
qed

text \<open>
  C31: Code that the normalizer accepts is sent. With limits that \<open>canonicalize\<close> accepts and for which the limit of a
  request, 128 bytes and six for every byte of code, fits \<open>int64\<close> (which no code checks), an accepted input is rewritten to the canonical encoding of an input within the limits, which decodes to
  exactly this input and which normalizing again leaves as it is; and the request made of it, whatever its
  number, is a frame within the limit of requests.
\<close>

theorem accepted_code_sent:
  assumes "repl_validateLimits l = None" "128 + 6 * MaxCodeBytes l \<le> MaxInt64" "protocolMaxima l = Inr (requestMax, responseMax)"
    and "normalizeExecute l requestMax ctxErr raw = Inr out"
  shows "\<exists>i. out = enc (execute_input_json i) \<and> execute_ok l i \<and> repl_strictDecode execute_into out = Some i \<and>
    normalizeExecute l requestMax False out = Inr out \<and> (\<forall>p. encodeFrame (request_json (runner_request p (ei_Code i))) requestMax \<noteq> None)"
proof -
  note most = protocolMaxima_request(1)[OF assms(1-3)]
  obtain i v where i: "execute_into v = Some i" "out = enc (execute_input_json i)" "ei_Code i \<noteq> []" "utf8_valid (ei_Code i)" "len (ei_Code i) \<le> MaxCodeBytes l"
      "case ei_TimeoutSeconds i of None \<Rightarrow> True | Some s \<Rightarrow> 0 \<le> s \<and> s \<le> repl_MaxTimeout l div Second"
    using assms(4) by (auto simp: normalizeExecute_def repl_strictDecode_def not_less split: if_splits option.splits)
  then have ok: "execute_ok l i" using execute_into_decoded[OF i(1)] by (auto simp: execute_ok_def execute_decoded_def split: option.splits)
  have dec: "repl_strictDecode execute_into out = Some i" using execute_decode_encoded[OF ok] i(2) by simp
  have "length out \<le> requestMax" using length_execute_input[OF ok] most i(2,5) by (simp add: len_def)
  then have again: "normalizeExecute l requestMax False out = Inr out" using dec i(2-6)
    by (auto simp: normalizeExecute_def not_less split: option.splits)
  have "encodeFrame (request_json (runner_request p (ei_Code i))) requestMax \<noteq> None" for p
    using length_request[of p "ei_Code i"] most i(5) by (simp add: encodeFrame_def Let_def len_def request_json_def)
  then show ?thesis using ok dec again i(2) by blast
qed

definition code_demo :: executeInput where
  "code_demo = \<lparr>ei_Code = ''1+1'', ei_TimeoutSeconds = Some 5\<rparr>"

theorem accepted_code_sent_witness:
  "normalizeExecute wide_limits 512 False (enc (execute_input_json code_demo)) = Inr (enc (execute_input_json code_demo)) \<and>
   (\<exists>i. repl_strictDecode execute_into (enc (execute_input_json code_demo)) = Some i \<and> execute_ok wide_limits i)"
proof -
  have ok: "execute_ok wide_limits code_demo"
    by (simp add: execute_ok_def code_demo_def wide_limits_def len_def utf8_valid_all_ascii Second_def int64_def MaxInt64_def)
  have "length (enc (execute_input_json code_demo)) \<le> 512" using length_execute_input[OF ok] by (simp add: code_demo_def)
  then have acc: "normalizeExecute wide_limits 512 False (enc (execute_input_json code_demo)) = Inr (enc (execute_input_json code_demo))"
    using execute_decode_encoded[OF ok] ok by (simp add: normalizeExecute_def execute_ok_def not_less code_demo_def)
  have "128 + 6 * MaxCodeBytes wide_limits \<le> MaxInt64" by (simp add: wide_limits_def MaxInt64_def)
  from accepted_code_sent[OF wide_limits_ok(1) this wide_limits_ok(3) acc] acc show ?thesis by blast
qed

subsection \<open>Where the sums wrap\<close>

text \<open>Limits whose \<open>MaxCodeBytes\<close> times six is 2 modulo \<open>2 ^ 64\<close>.\<close>

definition wrapped_limits :: repl_Limits where
  "wrapped_limits = wide_limits\<lparr>MaxCodeBytes := 3074457345618258603\<rparr>"

lemma length_escape_body_ge: "length s \<le> length (escape_body s)"
proof (induction s rule: escape_body.induct)
  case (1 s)
  show ?case
  proof (cases "s = []")
    case False
    have "snd (escape_step s) \<le> length (fst (escape_step s))" using decode_rune_size[OF False]
      by (auto simp: escape_step_def escape_ascii_def u_escape_def Let_def)
    then show ?thesis using 1[OF False] False by (simp add: escape_body.simps[of s])
  qed simp
qed

text \<open>
  C40: A \<open>MaxCodeBytes\<close> for which six bytes per byte of code do not fit \<open>int64\<close> is not refused: the product wraps, the limits
  pass, and the limit of a request becomes 130 bytes, so code far below \<open>MaxCodeBytes\<close> is refused.
\<close>

theorem request_limit_wraps:
  "repl_validateLimits wrapped_limits = None \<and> protocolMaxima wrapped_limits = Inr (130, 584) \<and> repl_retentionPolicies wrapped_limits = Inr (668, 106) \<and>
   (\<forall>code p. 128 < length code \<longrightarrow> encodeFrame (request_json (runner_request p code)) 130 = None)"
proof (intro conjI allI impI)
  have wraps: "wrap64 18446744073709551618 = 2" by (simp add: wrap64_def)
  show "repl_validateLimits wrapped_limits = None" "protocolMaxima wrapped_limits = Inr (130, 584)"
    by (simp_all add: repl_validateLimits_def wrapped_limits_def wide_limits_def Second_def MaxInt64_def protocolMaxima_def stream_text_def Let_def wraps wrap64_id int64_def)
  show "repl_retentionPolicies wrapped_limits = Inr (668, 106)"
    using wide_limits_policies by (simp add: repl_retentionPolicies_def wrapped_limits_def stream_text_def)
  show "encodeFrame (request_json (runner_request p code)) 130 = None" if "128 < length code" for code p
    using that length_escape_body_ge[of code]
    by (simp add: encodeFrame_def Let_def request_json_def runner_request_def length_sep_by length_repl_names marshal_string_def[of code])
qed

theorem request_limit_wraps_witness:
  "encodeFrame (request_json (runner_request serve_demo_process (replicate 129 CHR ''1''))) 130 = None \<and> 129 \<le> MaxCodeBytes wrapped_limits"
  using conjunct2[OF conjunct2[OF conjunct2[OF request_limit_wraps]], rule_format, of "replicate 129 CHR ''1''" serve_demo_process]
  by (simp add: wrapped_limits_def)

end
