(* ===== verification/Repl_Manager.thy ===== *)
theory Repl_Manager
  imports Repl_Gate Repl_Config "HOL-Library.AList"
begin

section \<open>pythonrepl: the manager and its sessions\<close>

text \<open>
  manager.go, the session of session.go, venv.go and venv_unix.go. The gate of a session (Repl_Gate) lets one
  operation in at a time, so what execute, clear and close do behind it is one function each; looking a
  session up and the two sections of Close under the manager's mutex are functions of their own, and
  \<open>repl_step\<close> interleaves all of them. The operating system, the contexts and the clock answer through the
  environment records. The world records what of the manager exists: directories, creator processes and
  runner processes.
\<close>

subsection \<open>Virtual environments\<close>

record venvCreation =
  vc_waitStarted :: bool
  vc_signalErr :: bool

record virtualEnvironment =
  ve_path :: string
  ve_interpreter :: string
  ve_finishCreation :: "venvCreation option"

record world =
  w_dirs :: "string set"
  w_creators :: "string set"
  w_runners :: "nat set"
  w_next :: nat

text \<open>Whether the final signal fails, and whether the creator is reaped within \<open>KillWait\<close>.\<close>

record finish_env =
  fe_kill_failed :: bool
  fe_reaped :: bool

definition vc_cancel :: "bool \<Rightarrow> venvCreation \<Rightarrow> venvCreation" where
  "vc_cancel term_failed c = (if term_failed then c\<lparr>vc_signalErr := True\<rparr> else c)"

definition vc_finish :: "finish_env \<Rightarrow> venvCreation \<Rightarrow> repl_error list \<times> venvCreation" where
  "vc_finish e c =
     (if \<not> vc_waitStarted c \<and> fe_kill_failed e then ([errCleanupIncomplete], c\<lparr>vc_signalErr := True\<rparr>)
      else
        let c = c\<lparr>vc_waitStarted := True\<rparr> in
        (if fe_reaped e then (if vc_signalErr c then [errCleanupIncomplete] else []) else [errCleanupIncomplete], c))"

text \<open>Whether removing the directory fails, and whether \<open>Lstat\<close> then finds that it does not exist.\<close>

record remove_env =
  re_finish :: finish_env
  re_remove_failed :: bool
  re_gone :: bool

definition removeVenv ::
  "remove_env \<Rightarrow> virtualEnvironment option \<Rightarrow> world \<Rightarrow> repl_error list \<times> virtualEnvironment option \<times> world" where
  "removeVenv e venv w =
     (case venv of None \<Rightarrow> ([], venv, w) | Some v \<Rightarrow>
        if ve_path v = [] then ([], venv, w)
        else
          let (err, v, w) =
            (case ve_finishCreation v of
               None \<Rightarrow> ([], v, w)
             | Some c \<Rightarrow>
                 (case vc_finish (re_finish e) c of (err, c) \<Rightarrow>
                    if err \<noteq> [] then ([errCleanupIncomplete], v\<lparr>ve_finishCreation := Some c\<rparr>, w)
                    else ([], v\<lparr>ve_finishCreation := None\<rparr>, w\<lparr>w_creators := w_creators w - {ve_path v}\<rparr>))) in
          if err \<noteq> [] then (err, Some v, w)
          else if re_remove_failed e \<or> \<not> re_gone e then ([errCleanupIncomplete], Some v, w)
          else ([], Some v, w\<lparr>w_dirs := w_dirs w - {ve_path v}\<rparr>))"

text \<open>
  What \<open>createVenv\<close> asks, in the order it asks: the directory \<open>MkdirTemp\<close> made, its file information (a
  directory, a symbolic link, its permissions), the context, the pipes and the start of the creator, then
  either the stream of the status pipe or the end of the context.
\<close>

type_synonym dir_info = "(bool \<times> bool \<times> nat) option"

record create_env =
  ce_path :: "string option"
  ce_info0 :: dir_info
  ce_ctx0 :: "ctx_cause option"
  ce_pipes :: bool
  ce_started :: bool
  ce_select :: bool
  ce_status :: bytes
  ce_cause :: ctx_cause
  ce_term_failed :: bool
  ce_finish :: finish_env
  ce_info1 :: dir_info
  ce_interpreter :: "(bool \<times> nat) option"
  ce_cleanup :: remove_env

definition private_directory :: "dir_info \<Rightarrow> bool" where
  "private_directory info = (case info of None \<Rightarrow> False | Some (isDir, symlink, perm) \<Rightarrow> isDir \<and> \<not> symlink \<and> perm = 448)"

definition put_succeeded :: "string \<Rightarrow> json \<Rightarrow> bool \<Rightarrow> bool option" where
  "put_succeeded n v b = into_bool b v"

definition creation_succeeded :: "bytes \<Rightarrow> bool" where
  "creation_succeeded stream = (fst (readFrame (into_struct [''succeeded''] put_succeeded False) 128 stream) = Inr True)"

definition venv_cleanup ::
  "remove_env \<Rightarrow> repl_error list \<Rightarrow> virtualEnvironment \<Rightarrow> world \<Rightarrow> virtualEnvironment option \<times> repl_error list \<times> world" where
  "venv_cleanup e result v w =
     (case removeVenv e (Some v) w of (cleanupErr, v, w) \<Rightarrow>
        if cleanupErr \<noteq> [] then (v, result @ cleanupErr, w) else (None, result, w))"

text \<open>The checks after the creator succeeded.\<close>

definition venv_integrity :: "string \<Rightarrow> create_env \<Rightarrow> string \<Rightarrow> repl_error list" where
  "venv_integrity tempRoot e path =
     (case Rel tempRoot path of
        None \<Rightarrow> [repl_operationError ''venv-directory'']
      | Some rel \<Rightarrow>
          if rel = ''.'' \<or> rel = ''..'' \<or> HasPrefix rel ''../'' \<or> IsAbs rel then [repl_operationError ''venv-directory'']
          else if \<not> private_directory (ce_info1 e) then [repl_operationError ''venv-directory'']
          else (case ce_interpreter e of
              None \<Rightarrow> [repl_operationError ''venv-integrity'']
            | Some (isRegular, perm) \<Rightarrow> if \<not> isRegular \<or> and perm 73 = 0 then [repl_operationError ''venv-integrity''] else []))"

text \<open>From the start of the creator: its two ends, each with the final signal and the reaping.\<close>

definition venv_creator ::
  "create_env \<Rightarrow> virtualEnvironment \<Rightarrow> world \<Rightarrow> (repl_error list \<times> bool) \<times> virtualEnvironment \<times> world" where
  "venv_creator e v w =
     (let w = w\<lparr>w_creators := insert (ve_path v) (w_creators w)\<rparr>;
          c = \<lparr>vc_waitStarted = False, vc_signalErr = False\<rparr>;
          c = (if ce_select e then c else vc_cancel (ce_term_failed e) c);
          early = (if ce_select e then repl_operationError ''venv-failed'' else repl_contextError (ce_cause e)) in
      case vc_finish (ce_finish e) c of (cleanupErr, c) \<Rightarrow>
        if cleanupErr \<noteq> [] then ((early # cleanupErr, True), v\<lparr>ve_finishCreation := Some c\<rparr>, w)
        else
          ((if ce_select e \<and> creation_succeeded (ce_status e) then [] else [early], False),
           v\<lparr>ve_finishCreation := None\<rparr>, w\<lparr>w_creators := w_creators w - {ve_path v}\<rparr>))"

definition createVenv :: "string \<Rightarrow> create_env \<Rightarrow> world \<Rightarrow> virtualEnvironment option \<times> repl_error list \<times> world" where
  "createVenv tempRoot e w =
     (case ce_path e of None \<Rightarrow> (None, [repl_operationError ''venv-create''], w) | Some path \<Rightarrow>
      let v = \<lparr>ve_path = path, ve_interpreter = Join2 (Join2 path ''bin'') ''python'', ve_finishCreation = None\<rparr>;
          w = w\<lparr>w_dirs := insert path (w_dirs w)\<rparr> in
      if \<not> private_directory (ce_info0 e) then venv_cleanup (ce_cleanup e) [repl_operationError ''venv-directory''] v w
      else case ce_ctx0 e of Some cause \<Rightarrow> venv_cleanup (ce_cleanup e) [repl_contextError cause] v w | None \<Rightarrow>
      if \<not> ce_pipes e then venv_cleanup (ce_cleanup e) [repl_operationError ''venv-pipe''] v w
      else if \<not> ce_started e then venv_cleanup (ce_cleanup e) [repl_operationError ''venv-start''] v w
      else case venv_creator e v w of ((err, keep), v, w) \<Rightarrow>
      if keep then (Some v, err, w)
      else if err \<noteq> [] then venv_cleanup (ce_cleanup e) err v w
      else case venv_integrity tempRoot e path of
        [] \<Rightarrow> (Some v, [], w)
      | err \<Rightarrow> venv_cleanup (ce_cleanup e) err v w)"

subsection \<open>Sessions\<close>

record ownerSession =
  os_workspaceRoot :: string
  os_lifecycle :: bool
  os_venv :: "virtualEnvironment option"
  os_venvInvalid :: bool
  os_runner :: "runnerProcess option"
  os_generation :: "64 word"
  os_pendingReason :: string
  os_quarantined :: bool
  os_closed :: bool

text \<open>\<open>os_lifecycle\<close> is whether the lifecycle context is still alive.\<close>

definition newOwnerSession :: "string \<Rightarrow> ownerSession" where
  "newOwnerSession root = \<lparr>os_workspaceRoot = root, os_lifecycle = True, os_venv = None, os_venvInvalid = False, os_runner = None,
     os_generation = 0, os_pendingReason = [], os_quarantined = False, os_closed = False\<rparr>"

text \<open>
  The termination is what \<open>coordinateTermination\<close> comes to, or \<open>None\<close> when it takes longer than its wait: without a
  context of the caller that quarantines the session, with one (its cause is given) it does not.
\<close>

definition resetRunner ::
  "bool \<Rightarrow> string \<Rightarrow> ctx_cause option \<Rightarrow> termination_env option \<Rightarrow> ownerSession \<Rightarrow> world \<Rightarrow> repl_error list \<times> ownerSession \<times> world" where
  "resetRunner invalidate reason waitCtx t s w =
     (case os_runner s of None \<Rightarrow> ([], s, w) | Some runner \<Rightarrow>
      (case t of
         None \<Rightarrow>
           (case waitCtx of
              None \<Rightarrow> ([errCleanupIncomplete], s\<lparr>os_quarantined := True\<rparr>, w)
            | Some cause \<Rightarrow> ([errCleanupIncomplete, repl_contextError cause], s, w))
       | Some e \<Rightarrow>
           let err = fst (coordinateTermination e runner) in
           if err \<noteq> [] then (err, s\<lparr>os_quarantined := True\<rparr>, w)
           else
             let w = w\<lparr>w_runners := w_runners w - {rp_ident runner}\<rparr>; s = s\<lparr>os_runner := None\<rparr> in
             if invalidate then
               ([], s\<lparr>os_generation := os_generation s + 1,
                      os_pendingReason := if validResetReason reason \<and> reason \<noteq> [] then reason else os_pendingReason s\<rparr>, w)
             else ([], s, w)))"

subsection \<open>Execute\<close>

text \<open>
  What one execute asks behind the lookup. Every path reads the lifecycle at most once; \<open>ex_caller\<close> is whether the
  caller's own context has ended.
\<close>

record execute_env =
  ex_gate :: "repl_error list option"
  ex_life :: bool
  ex_remove0 :: remove_env
  ex_ctx0 :: "ctx_cause option"
  ex_create :: create_env
  ex_ctx1 :: "ctx_cause option"
  ex_remove1 :: remove_env
  ex_start :: start_env
  ex_remove2 :: remove_env
  ex_exec :: exec_env
  ex_terminate :: "termination_env option"
  ex_caller :: bool

definition closing_or :: "bool \<Rightarrow> repl_error list \<Rightarrow> repl_error list" where
  "closing_or ended err = (if ended then [repl_error.errManagerClosing] else err)"

definition drop_invalid_venv :: "remove_env \<Rightarrow> ownerSession \<Rightarrow> world \<Rightarrow> repl_error list \<times> ownerSession \<times> world" where
  "drop_invalid_venv e s w =
     (case removeVenv e (os_venv s) w of (err, v, w) \<Rightarrow>
        if err \<noteq> [] then (err, s\<lparr>os_venv := v\<rparr>, w) else ([], s\<lparr>os_venv := None, os_venvInvalid := False\<rparr>, w))"

definition ensure_venv :: "string \<Rightarrow> execute_env \<Rightarrow> ownerSession \<Rightarrow> world \<Rightarrow> repl_error list \<times> ownerSession \<times> world" where
  "ensure_venv tempRoot e s w =
     (if os_venv s \<noteq> None then ([], s, w)
      else case createVenv tempRoot (ex_create e) w of (v, createErr, w) \<Rightarrow>
        if createErr \<noteq> [] then
          (closing_or (ex_life e) createErr, (if v \<noteq> None then s\<lparr>os_venv := v, os_venvInvalid := True\<rparr> else s), w)
        else case ex_ctx1 e of
          None \<Rightarrow> ([], s\<lparr>os_venv := v\<rparr>, w)
        | Some cause \<Rightarrow>
            (case removeVenv (ex_remove1 e) v w of (cleanupErr, v, w) \<Rightarrow>
               if cleanupErr \<noteq> [] then (repl_contextError cause # cleanupErr, s\<lparr>os_venv := v, os_venvInvalid := True\<rparr>, w)
               else ([repl_contextError cause], s, w)))"

text \<open>
  The process exists from its start until a termination of it is clean, and that is so when \<open>startRunner\<close> hands no process
  back (\<open>startRunner_cases\<close>).
\<close>

definition start_world :: "start_env \<Rightarrow> runnerProcess option \<Rightarrow> world \<Rightarrow> world" where
  "start_world e r w =
     (let ident = w_next w; w = w\<lparr>w_next := w_next w + 1\<rparr> in
      if se_pipes e \<and> se_started e \<and> r \<noteq> None then w\<lparr>w_runners := insert ident (w_runners w)\<rparr> else w)"

definition ensure_runner ::
  "execute_env \<Rightarrow> ownerSession \<Rightarrow> world \<Rightarrow> (repl_error list + bool \<times> runnerProcess) \<times> ownerSession \<times> world" where
  "ensure_runner e s w =
     (case os_runner s of Some p \<Rightarrow> (Inr (False, p), s, w) | None \<Rightarrow>
      (case startRunner (ex_start e) (w_next w) of (r, startErr) \<Rightarrow>
       let w = start_world (ex_start e) r w in
       case r of
         Some p \<Rightarrow>
           if startErr \<noteq> [] then (Inl (startErr @ [errCleanupIncomplete]), s\<lparr>os_runner := r, os_quarantined := True\<rparr>, w)
           else (Inr (True, p), s\<lparr>os_runner := r\<rparr>, w)
       | None \<Rightarrow>
           if List.member startErr errBootstrapIntegrity then
             (case removeVenv (ex_remove2 e) (os_venv s) w of (removeErr, v, w) \<Rightarrow>
                if removeErr \<noteq> [] then (Inl (startErr @ removeErr), s\<lparr>os_venv := v, os_venvInvalid := True\<rparr>, w)
                else (Inl (closing_or (ex_life e) startErr), s\<lparr>os_venv := None, os_venvInvalid := False\<rparr>, w))
           else (Inl (closing_or (ex_life e) startErr), s, w)))"

definition reset_reason :: "repl_error list \<Rightarrow> string" where
  "reset_reason executeErr =
     (if List.member executeErr (repl_contextError Canceled) then ''canceled''
      else if List.member executeErr (repl_contextError DeadlineExceeded) then ''timed_out'' else ''runner_failed'')"

definition serve ::
  "'a text_limits_scheme \<Rightarrow> nat \<Rightarrow> nat \<Rightarrow> string \<Rightarrow> execute_env \<Rightarrow> bool \<Rightarrow> runnerProcess \<Rightarrow> ownerSession \<Rightarrow> world
   \<Rightarrow> (repl_error list + ExecuteResult) \<times> ownerSession \<times> world" where
  "serve l requestMax responseMax code e startedNow p s w =
     (case runner_execute l requestMax responseMax code (ex_exec e) p of ((outcome, mayHaveExecuted), p) \<Rightarrow>
      let s = s\<lparr>os_runner := Some p\<rparr> in
      case outcome of
        Inl executeErr \<Rightarrow>
          (case resetRunner (mayHaveExecuted \<or> \<not> startedNow) (reset_reason executeErr) None (ex_terminate e) s w of (resetErr, s, w) \<Rightarrow>
             if resetErr \<noteq> [] then (Inl (executeErr @ resetErr), s, w)
             else (Inl (closing_or (ex_life e \<and> \<not> ex_caller e) executeErr), s, w))
      | Inr response \<Rightarrow>
          (Inr (execute_result response (os_generation s) (os_pendingReason s \<noteq> []) (os_pendingReason s)), s\<lparr>os_pendingReason := []\<rparr>, w))"

definition repl_execute ::
  "'a text_limits_scheme \<Rightarrow> nat \<Rightarrow> nat \<Rightarrow> string \<Rightarrow> string \<Rightarrow> execute_env \<Rightarrow> ownerSession \<Rightarrow> world
   \<Rightarrow> (repl_error list + ExecuteResult) \<times> ownerSession \<times> world" where
  "repl_execute l requestMax responseMax tempRoot code e s w =
     (case ex_gate e of Some err \<Rightarrow> (Inl (closing_or (ex_life e) err), s, w) | None \<Rightarrow>
      if os_closed s then (Inl [repl_error.errManagerClosing], s, w)
      else if os_quarantined s then (Inl [errOwnerQuarantined], s, w)
      else case (if os_venvInvalid s then drop_invalid_venv (ex_remove0 e) s w else ([], s, w)) of (err, s, w) \<Rightarrow>
      if err \<noteq> [] then (Inl err, s, w)
      else case ex_ctx0 e of Some cause \<Rightarrow> (Inl (closing_or (ex_life e) [repl_contextError cause]), s, w) | None \<Rightarrow>
      case ensure_venv tempRoot e s w of (err, s, w) \<Rightarrow>
      if err \<noteq> [] then (Inl err, s, w)
      else case ensure_runner e s w of
        (Inl err, s, w) \<Rightarrow> (Inl err, s, w)
      | (Inr (startedNow, p), s, w) \<Rightarrow> serve l requestMax responseMax code e startedNow p s w)"

subsection \<open>Clear and close of a session\<close>

record clear_env =
  ca_gate :: "repl_error list option"
  ca_life :: bool
  ca_ctx :: "ctx_cause option"
  ca_terminate :: "termination_env option"

definition repl_clear :: "clear_env \<Rightarrow> ownerSession \<Rightarrow> world \<Rightarrow> (repl_error list + ClearResult) \<times> ownerSession \<times> world" where
  "repl_clear e s w =
     (case ca_gate e of Some err \<Rightarrow> (Inl (closing_or (ca_life e) err), s, w) | None \<Rightarrow>
      if os_quarantined s then (Inl [errOwnerQuarantined], s, w)
      else if os_closed s then (Inl [repl_error.errManagerClosing], s, w)
      else case ca_ctx e of Some cause \<Rightarrow> (Inl (closing_or (ca_life e) [repl_contextError cause]), s, w) | None \<Rightarrow>
      let s = s\<lparr>os_pendingReason := []\<rparr> in
      if os_runner s = None then (Inr \<lparr>cr_HadState = False, cr_Generation = os_generation s\<rparr>, s, w)
      else case resetRunner True ''cleared'' None (ca_terminate e) s w of (err, s, w) \<Rightarrow>
      if err \<noteq> [] then (Inl err, s, w)
      else (Inr \<lparr>cr_HadState = True, cr_Generation = os_generation s\<rparr>, s\<lparr>os_pendingReason := []\<rparr>, w))"

record close_env =
  cl_gate :: "repl_error list option"
  cl_cause :: ctx_cause
  cl_terminate :: "termination_env option"
  cl_ctx :: "ctx_cause option"
  cl_remove :: remove_env

definition closeSession :: "close_env \<Rightarrow> ownerSession \<Rightarrow> world \<Rightarrow> repl_error list \<times> ownerSession \<times> world" where
  "closeSession e s w =
     (case cl_gate e of Some err \<Rightarrow> (errCleanupIncomplete # err, s, w) | None \<Rightarrow>
      if os_closed s then ([], s, w)
      else if os_quarantined s then ([errCleanupIncomplete], s, w)
      else case (if os_runner s \<noteq> None then resetRunner False [] (Some (cl_cause e)) (cl_terminate e) s w else ([], s, w)) of (err, s, w) \<Rightarrow>
      if err \<noteq> [] then (err, s, w)
      else case cl_ctx e of Some cause \<Rightarrow> ([errCleanupIncomplete, repl_contextError cause], s, w) | None \<Rightarrow>
      case removeVenv (cl_remove e) (os_venv s) w of (err, v, w) \<Rightarrow>
      if err \<noteq> [] then (err, s\<lparr>os_venv := v\<rparr>, w)
      else ([], s\<lparr>os_venv := None, os_venvInvalid := False, os_closed := True\<rparr>, w))"

subsection \<open>The manager\<close>

type_synonym ownerKey = "string \<times> string"

text \<open>\<open>rm_closers\<close> are the running calls of \<open>Close\<close>: the sessions still to close and the errors so far.\<close>

record repl_manager =
  rm_owners :: "(ownerKey \<times> ownerSession) list"
  rm_closing :: bool
  rm_closed :: bool
  rm_world :: world
  rm_closers :: "nat \<Rightarrow> (ownerKey list \<times> repl_error list) option"

definition repl_newManager :: repl_manager where
  "repl_newManager = \<lparr>rm_owners = [], rm_closing = False, rm_closed = False,
     rm_world = \<lparr>w_dirs = {}, w_creators = {}, w_runners = {}, w_next = 0\<rparr>, rm_closers = (\<lambda>c. None)\<rparr>"

definition ownerForExecute ::
  "'a repl_Limits_scheme \<Rightarrow> ctx_cause option \<Rightarrow> ownerKey \<Rightarrow> string \<Rightarrow> repl_manager \<Rightarrow> repl_error list \<times> repl_manager" where
  "ownerForExecute l ctxErr key workspaceRoot m =
     (if rm_closing m \<or> rm_closed m then ([repl_error.errManagerClosing], m)
      else case ctxErr of Some cause \<Rightarrow> ([repl_contextError cause], m) | None \<Rightarrow>
      (case map_of (rm_owners m) key of
         Some s \<Rightarrow> if os_workspaceRoot s \<noteq> workspaceRoot then ([repl_runtimeError ''workspace-root-mismatch''], m) else ([], m)
       | None \<Rightarrow>
           if len (rm_owners m) \<ge> MaxSessions l then ([repl_errCapacityExhausted], m)
           else ([], m\<lparr>rm_owners := (key, newOwnerSession workspaceRoot) # rm_owners m\<rparr>)))"

text \<open>The section of clear under the mutex: an error, no session, or the session to clear.\<close>

definition clear_lookup :: "ctx_cause option \<Rightarrow> ownerKey \<Rightarrow> string \<Rightarrow> repl_manager \<Rightarrow> repl_error list + ownerSession option" where
  "clear_lookup ctxErr key workspaceRoot m =
     (if rm_closing m \<or> rm_closed m then Inl [repl_error.errManagerClosing]
      else case ctxErr of Some cause \<Rightarrow> Inl [repl_contextError cause] | None \<Rightarrow>
      (case map_of (rm_owners m) key of
         None \<Rightarrow> Inr None
       | Some s \<Rightarrow> if os_workspaceRoot s \<noteq> workspaceRoot then Inl [repl_runtimeError ''workspace-root-mismatch''] else Inr (Some s)))"

definition set_session :: "ownerKey \<Rightarrow> ownerSession \<Rightarrow> world \<Rightarrow> repl_manager \<Rightarrow> repl_manager" where
  "set_session key s w m = m\<lparr>rm_owners := AList.update key s (rm_owners m), rm_world := w\<rparr>"

text \<open>
  Close: the first section under the mutex, which returns at once when the manager is closed, one turn of the
  loop, and the end. The order of the sessions is the map's.
\<close>

definition repl_close_begin :: "ownerKey list \<Rightarrow> nat \<Rightarrow> repl_manager \<Rightarrow> repl_error list option \<times> repl_manager" where
  "repl_close_begin order c m =
     (if rm_closed m then (Some [], m)
      else (None, m\<lparr>rm_closing := True, rm_owners := map (\<lambda>(k, s). (k, s\<lparr>os_lifecycle := False\<rparr>)) (rm_owners m),
             rm_closers := (rm_closers m)(c \<mapsto> (order, []))\<rparr>))"

definition repl_close_next :: "close_env \<Rightarrow> nat \<Rightarrow> repl_manager \<Rightarrow> repl_manager" where
  "repl_close_next e c m =
     (case rm_closers m c of
        Some (k # ks, result) \<Rightarrow>
          (case map_of (rm_owners m) k of
             Some s \<Rightarrow>
               (case closeSession e s (rm_world m) of (err, s, w) \<Rightarrow>
                  (set_session k s w m)\<lparr>rm_closers := (rm_closers m)(c \<mapsto> (ks, result @ err))\<rparr>)
           | None \<Rightarrow> m)
      | _ \<Rightarrow> m)"

definition repl_close_finish :: "nat \<Rightarrow> repl_manager \<Rightarrow> repl_error list \<times> repl_manager" where
  "repl_close_finish c m =
     (case rm_closers m c of
        Some ([], result) \<Rightarrow>
          (let m = m\<lparr>rm_closers := (rm_closers m)(c := None)\<rparr> in
           if result \<noteq> [] then (result, m) else ([], m\<lparr>rm_closed := True\<rparr>))
      | _ \<Rightarrow> ([], m))"

datatype repl_event = LookedUp ownerKey "repl_error list" | Executed ownerKey "repl_error list + ExecuteResult"
  | Cleared ownerKey "repl_error list + ClearResult" | CloseRuns | CloseReturns "repl_error list"

text \<open>\<open>MkdirTemp\<close> makes a directory that did not exist.\<close>

definition fresh_directory :: "create_env \<Rightarrow> world \<Rightarrow> bool" where
  "fresh_directory e w = (case ce_path e of None \<Rightarrow> True | Some path \<Rightarrow> path \<noteq> [] \<and> path \<notin> w_dirs w)"

inductive repl_step :: "repl_Limits \<Rightarrow> nat \<Rightarrow> nat \<Rightarrow> string \<Rightarrow> repl_manager \<Rightarrow> repl_event \<Rightarrow> repl_manager \<Rightarrow> bool"
  for l requestMax responseMax tempRoot where
  looks_up: "ownerForExecute l ctxErr key root m = (err, m') \<Longrightarrow> repl_step l requestMax responseMax tempRoot m (LookedUp key err) m'"
| executes: "map_of (rm_owners m) key = Some s \<Longrightarrow> fresh_directory (ex_create e) (rm_world m) \<Longrightarrow>
    repl_execute l requestMax responseMax tempRoot code e s (rm_world m) = (r, s', w') \<Longrightarrow>
    repl_step l requestMax responseMax tempRoot m (Executed key r) (set_session key s' w' m)"
| clears: "map_of (rm_owners m) key = Some s \<Longrightarrow> repl_clear e s (rm_world m) = (r, s', w') \<Longrightarrow>
    repl_step l requestMax responseMax tempRoot m (Cleared key r) (set_session key s' w' m)"
| close_begins: "rm_closers m c = None \<Longrightarrow> distinct order \<Longrightarrow> set order = fst ` set (rm_owners m) \<Longrightarrow>
    repl_close_begin order c m = (None, m') \<Longrightarrow> repl_step l requestMax responseMax tempRoot m CloseRuns m'"
| close_at_once: "rm_closers m c = None \<Longrightarrow> distinct order \<Longrightarrow> set order = fst ` set (rm_owners m) \<Longrightarrow>
    repl_close_begin order c m = (Some err, m') \<Longrightarrow> repl_step l requestMax responseMax tempRoot m (CloseReturns err) m'"
| close_continues: "repl_step l requestMax responseMax tempRoot m CloseRuns (repl_close_next e c m)"
| close_returns: "rm_closers m c = Some ([], result) \<Longrightarrow> repl_close_finish c m = (err, m') \<Longrightarrow>
    repl_step l requestMax responseMax tempRoot m (CloseReturns err) m'"

inductive repl_path :: "repl_Limits \<Rightarrow> nat \<Rightarrow> nat \<Rightarrow> string \<Rightarrow> repl_manager \<Rightarrow> repl_event list \<Rightarrow> repl_manager \<Rightarrow> bool"
  for l requestMax responseMax tempRoot where
  stays: "repl_path l requestMax responseMax tempRoot m [] m"
| steps: "repl_path l requestMax responseMax tempRoot m evs m' \<Longrightarrow> repl_step l requestMax responseMax tempRoot m' ev m'' \<Longrightarrow>
    repl_path l requestMax responseMax tempRoot m (evs @ [ev]) m''"

subsection \<open>What a session holds\<close>

text \<open>
  A resource of the world is held by at most one session, and a session holds at most one of a kind. The locale
  is shared by directories, creators and runners.
\<close>

definition moves :: "('s \<Rightarrow> 'r set) \<Rightarrow> ('w \<Rightarrow> 'r set) \<Rightarrow> 's \<Rightarrow> 'w \<Rightarrow> 's \<Rightarrow> 'w \<Rightarrow> bool" where
  "moves held present s w s' w' \<longleftrightarrow>
     (held s \<subseteq> present w \<longrightarrow> present w' = present w - held s \<union> held s' \<and> held s' \<inter> present w \<subseteq> held s)"

definition accounted :: "('s \<Rightarrow> 'r set) \<Rightarrow> ('w \<Rightarrow> 'r set) \<Rightarrow> ('k \<rightharpoonup> 's) \<Rightarrow> 'w \<Rightarrow> bool" where
  "accounted held present owners w \<longleftrightarrow>
     (\<forall>r. r \<in> present w \<longleftrightarrow> (\<exists>k s. owners k = Some s \<and> r \<in> held s)) \<and>
     (\<forall>k k' s s' r. owners k = Some s \<longrightarrow> owners k' = Some s' \<longrightarrow> r \<in> held s \<longrightarrow> r \<in> held s' \<longrightarrow> k = k')"

lemma moves_refl: "moves held present s w s w"
  by (auto simp: moves_def)

lemma moves_trans: "moves held present s w s1 w1 \<Longrightarrow> moves held present s1 w1 s2 w2 \<Longrightarrow> moves held present s w s2 w2"
  unfolding moves_def by blast

lemma moves_same: "held s' = held s \<Longrightarrow> present w' = present w \<Longrightarrow> moves held present s w s' w'"
  by (auto simp: moves_def)

locale pool =
  fixes held :: "'s \<Rightarrow> 'r set" and present :: "'w \<Rightarrow> 'r set"
  assumes held_one: "r \<in> held s \<Longrightarrow> held s = {r}"
begin

lemma accounted_held: "accounted held present owners w \<Longrightarrow> owners k = Some s \<Longrightarrow> held s \<subseteq> present w"
  by (auto simp: accounted_def)

lemma accounted_move:
  assumes acc: "accounted held present owners w" and k: "owners k = Some s" and mv: "moves held present s w s' w'"
  shows "accounted held present (owners(k \<mapsto> s')) w'"
proof -
  have w': "present w' = present w - held s \<union> held s'" "held s' \<inter> present w \<subseteq> held s"
    using mv accounted_held[OF acc k] by (auto simp: moves_def)
  have other: "r \<notin> held s \<and> r \<notin> held s'" if "owners k' = Some t" "k' \<noteq> k" "r \<in> held t" for k' t r
    using acc k that w'(2) unfolding accounted_def by blast
  show ?thesis unfolding accounted_def
  proof (intro conjI allI impI)
    fix r
    show "r \<in> present w' \<longleftrightarrow> (\<exists>k' t. (owners(k \<mapsto> s')) k' = Some t \<and> r \<in> held t)"
    proof
      assume "r \<in> present w'"
      then consider "r \<in> held s'" | "r \<in> present w" "r \<notin> held s" using w'(1) by auto
      then show "\<exists>k' t. (owners(k \<mapsto> s')) k' = Some t \<and> r \<in> held t"
      proof cases
        case 1
        then have "(owners(k \<mapsto> s')) k = Some s' \<and> r \<in> held s'" by simp
        then show ?thesis by blast
      next
        case 2
        then obtain k' t where t: "owners k' = Some t" "r \<in> held t" using acc unfolding accounted_def by blast
        then have "k' \<noteq> k" using 2 k by auto
        then have "(owners(k \<mapsto> s')) k' = Some t \<and> r \<in> held t" using t by simp
        then show ?thesis by blast
      qed
    next
      assume "\<exists>k' t. (owners(k \<mapsto> s')) k' = Some t \<and> r \<in> held t"
      then obtain k' t where t: "(owners(k \<mapsto> s')) k' = Some t" "r \<in> held t" by blast
      show "r \<in> present w'"
      proof (cases "k' = k")
        case False
        then have "owners k' = Some t" using t by simp
        then show ?thesis using other[OF _ False t(2)] accounted_held[OF acc] t(2) w'(1) by blast
      qed (use t w'(1) in auto)
    qed
  next
    fix k1 k2 t1 t2 r
    assume "(owners(k \<mapsto> s')) k1 = Some t1" "(owners(k \<mapsto> s')) k2 = Some t2" "r \<in> held t1" "r \<in> held t2"
    then show "k1 = k2" using other[of k1 t1 r] other[of k2 t2 r] acc
      by (cases "k1 = k"; cases "k2 = k") (auto simp: accounted_def)
  qed
qed

lemma accounted_new:
  "accounted held present owners w \<Longrightarrow> owners k = None \<Longrightarrow> held s = {} \<Longrightarrow> accounted held present (owners(k \<mapsto> s)) w"
  unfolding accounted_def by (auto split: if_splits) (metis option.distinct(1))

lemma accounted_map:
  assumes "accounted held present owners w" "\<And>s. held (f s) = held s"
  shows "accounted held present (\<lambda>k. map_option f (owners k)) w"
  using assms unfolding accounted_def by auto

lemma accounted_empty: "accounted held present owners w \<Longrightarrow> (\<And>k s. owners k = Some s \<Longrightarrow> held s = {}) \<Longrightarrow> present w = {}"
  unfolding accounted_def by fastforce

lemma accounted_card:
  assumes acc: "accounted held present owners w" and fin: "finite (dom owners)"
  shows "finite (present w) \<and> card (present w) \<le> card (dom owners)"
proof -
  define key where "key r = (SOME k. \<exists>s. owners k = Some s \<and> r \<in> held s)" for r
  have key: "\<exists>s. owners (key r) = Some s \<and> r \<in> held s" if "r \<in> present w" for r
  proof -
    have "\<exists>k s. owners k = Some s \<and> r \<in> held s" using acc that unfolding accounted_def by blast
    then show ?thesis unfolding key_def by (rule someI_ex)
  qed
  have "inj_on key (present w)"
  proof (rule inj_onI)
    fix r r' assume "r \<in> present w" "r' \<in> present w" "key r = key r'"
    then obtain s where "r \<in> held s" "r' \<in> held s" using key[of r] key[of r'] by auto
    then show "r = r'" using held_one[of r s] by auto
  qed
  moreover have "key ` present w \<subseteq> dom owners" using key by fastforce
  ultimately show ?thesis using fin by (meson card_inj_on_le finite_subset inj_on_finite)
qed

end

definition venv_dirs :: "virtualEnvironment option \<Rightarrow> string set" where
  "venv_dirs v = (case v of None \<Rightarrow> {} | Some v \<Rightarrow> {ve_path v})"

definition venv_creators :: "virtualEnvironment option \<Rightarrow> string set" where
  "venv_creators v = (case v of None \<Rightarrow> {} | Some v \<Rightarrow> if ve_finishCreation v = None then {} else {ve_path v})"

definition held_runners :: "ownerSession \<Rightarrow> nat set" where
  "held_runners s = (case os_runner s of None \<Rightarrow> {} | Some p \<Rightarrow> {rp_ident p})"

definition held_dirs :: "ownerSession \<Rightarrow> string set" where
  "held_dirs s = venv_dirs (os_venv s)"

definition held_creators :: "ownerSession \<Rightarrow> string set" where
  "held_creators s = venv_creators (os_venv s)"

interpretation dirs: pool held_dirs w_dirs
  by unfold_locales (auto simp: held_dirs_def venv_dirs_def split: option.splits)

interpretation creators: pool held_creators w_creators
  by unfold_locales (auto simp: held_creators_def venv_creators_def split: option.splits if_splits)

interpretation runners: pool held_runners w_runners
  by unfold_locales (auto simp: held_runners_def split: option.splits)

subsection \<open>Virtual environments lose nothing\<close>

definition venv_moves :: "virtualEnvironment option \<Rightarrow> world \<Rightarrow> virtualEnvironment option \<Rightarrow> world \<Rightarrow> bool" where
  "venv_moves v w v' w' \<longleftrightarrow> moves venv_dirs w_dirs v w v' w' \<and> moves venv_creators w_creators v w v' w' \<and>
     w_runners w' = w_runners w \<and> w_next w' = w_next w \<and> (\<forall>x. v' = Some x \<longrightarrow> ve_path x \<noteq> [])"

lemma venv_moves_trans: "venv_moves v w v1 w1 \<Longrightarrow> venv_moves v1 w1 v2 w2 \<Longrightarrow> venv_moves v w v2 w2"
  unfolding venv_moves_def by (auto elim: moves_trans)

text \<open>The ways \<open>removeVenv\<close> ends: with the creator left, with the directory left, or with both gone.\<close>

lemma removeVenv_cases:
  assumes "removeVenv e (Some v) w = (err, v', w')" "ve_path v \<noteq> []"
  obtains (creator) c c' where "ve_finishCreation v = Some c" "err \<noteq> []" "v' = Some (v\<lparr>ve_finishCreation := Some c'\<rparr>)" "w' = w"
    | (directory) w1 where "err \<noteq> []" "v' = Some (v\<lparr>ve_finishCreation := None\<rparr>)" "w' = w1"
        "w1 = (if ve_finishCreation v = None then w else w\<lparr>w_creators := w_creators w - {ve_path v}\<rparr>)"
    | (gone) w1 where "err = []" "w' = w1\<lparr>w_dirs := w_dirs w1 - {ve_path v}\<rparr>"
        "w1 = (if ve_finishCreation v = None then w else w\<lparr>w_creators := w_creators w - {ve_path v}\<rparr>)"
proof (cases "ve_finishCreation v")
  case None
  then have same: "v\<lparr>ve_finishCreation := None\<rparr> = v" by simp
  show thesis using None assms directory[of w, unfolded same] gone[of w]
    by (auto simp: removeVenv_def Let_def split: if_splits)
next
  case (Some c)
  obtain er c' where f: "vc_finish (re_finish e) c = (er, c')" by (cases "vc_finish (re_finish e) c")
  show thesis
  proof (cases "er = []")
    case True
    then show thesis using Some f assms directory[of "w\<lparr>w_creators := w_creators w - {ve_path v}\<rparr>"] gone[of "w\<lparr>w_creators := w_creators w - {ve_path v}\<rparr>"]
      by (auto simp: removeVenv_def Let_def split: if_splits)
  next
    case False
    then show thesis using Some f assms creator[of c c'] by (auto simp: removeVenv_def Let_def)
  qed
qed

lemma removeVenv_moves:
  assumes "removeVenv e v w = (err, v', w')" "\<forall>x. v = Some x \<longrightarrow> ve_path x \<noteq> []"
  shows "venv_moves v w (if err = [] then None else v') w'" "err \<noteq> [] \<Longrightarrow> v' \<noteq> None" "w_dirs w' \<subseteq> w_dirs w" "w_creators w' \<subseteq> w_creators w"
proof -
  have "venv_moves v w (if err = [] then None else v') w' \<and> (err \<noteq> [] \<longrightarrow> v' \<noteq> None) \<and> w_dirs w' \<subseteq> w_dirs w \<and> w_creators w' \<subseteq> w_creators w"
  proof (cases v)
    case None
    then show ?thesis using assms(1) by (simp add: removeVenv_def venv_moves_def moves_refl)
  next
    case (Some x)
    note path = assms(2)[rule_format, OF Some] and call = assms(1)[unfolded Some]
    from call path show ?thesis
    proof (cases rule: removeVenv_cases)
      case (creator c c')
      then show ?thesis using Some path by (simp add: venv_moves_def moves_same venv_dirs_def venv_creators_def)
    next
      case (directory w1)
      then show ?thesis using Some path by (auto simp: venv_moves_def moves_def venv_dirs_def venv_creators_def)
    next
      case (gone w1)
      then show ?thesis using Some path by (auto simp: venv_moves_def moves_def venv_dirs_def venv_creators_def)
    qed
  qed
  then show "venv_moves v w (if err = [] then None else v') w'" "err \<noteq> [] \<Longrightarrow> v' \<noteq> None" "w_dirs w' \<subseteq> w_dirs w" "w_creators w' \<subseteq> w_creators w" by blast+
qed

lemma cleanup_moves:
  assumes "venv_cleanup e result v w = (v', err, w')" "ve_path v \<noteq> []" "result \<noteq> []"
  shows "venv_moves (Some v) w v' w'" "err \<noteq> []"
proof -
  obtain c x w1 where c: "removeVenv e (Some v) w = (c, x, w1)" by (cases "removeVenv e (Some v) w")
  show "venv_moves (Some v) w v' w'" "err \<noteq> []"
    using removeVenv_moves(1)[OF c] assms by (auto simp: venv_cleanup_def c split: if_splits)
qed

lemma creator_moves:
  assumes "venv_creator e v w = ((err, keep), v', w')" "ve_finishCreation v = None" "ve_path v \<noteq> []" "ve_path v \<notin> w_creators w"
  shows "venv_moves (Some v) w (Some v') w'" "keep \<Longrightarrow> err \<noteq> []" "ve_path v' = ve_path v" "\<not> keep \<Longrightarrow> ve_finishCreation v' = None"
  using assms by (auto simp: venv_creator_def vc_finish_def vc_cancel_def Let_def venv_moves_def moves_def venv_dirs_def venv_creators_def split: if_splits)

definition unused_path :: "create_env \<Rightarrow> world \<Rightarrow> bool" where
  "unused_path e w \<longleftrightarrow> (\<forall>path. ce_path e = Some path \<longrightarrow> path \<noteq> [] \<and> path \<notin> w_dirs w \<and> path \<notin> w_creators w)"

lemma createVenv_moves:
  assumes "createVenv tempRoot e w = (v, err, w')" "unused_path e w"
  shows "venv_moves None w v w'" "err = [] \<Longrightarrow> v \<noteq> None"
proof -
  have "venv_moves None w v w' \<and> (err = [] \<longrightarrow> v \<noteq> None)"
  proof (cases "ce_path e")
    case None
    then show ?thesis using assms(1) by (auto simp: createVenv_def venv_moves_def moves_refl)
  next
    case (Some path)
    define v0 where "v0 = \<lparr>ve_path = path, ve_interpreter = Join2 (Join2 path ''bin'') ''python'', ve_finishCreation = None\<rparr>"
    define w0 where "w0 = w\<lparr>w_dirs := insert path (w_dirs w)\<rparr>"
    have path: "path \<noteq> []" "path \<notin> w_dirs w" "path \<notin> w_creators w" using assms(2) Some by (auto simp: unused_path_def)
    have v0: "ve_path v0 \<noteq> []" "ve_finishCreation v0 = None" "ve_path v0 \<notin> w_creators w0" using path by (simp_all add: v0_def w0_def)
    have made: "venv_moves None w (Some v0) w0" using path by (auto simp: venv_moves_def moves_def venv_dirs_def venv_creators_def v0_def w0_def)
    have over: ?thesis if "venv_cleanup (ce_cleanup e) result v1 w1 = (v, err, w')" "venv_moves None w (Some v1) w1" "result \<noteq> []" for result v1 w1
      using cleanup_moves[OF that(1) _ that(3)] that(2) venv_moves_trans[OF that(2)] by (auto simp: venv_moves_def[of None w "Some v1"])
    obtain cerr keep v1 w1 where c: "venv_creator e v0 w0 = ((cerr, keep), v1, w1)" by (metis prod.exhaust)
    note cm = creator_moves[OF c v0(2,1,3)]
    have grown: "venv_moves None w (Some v1) w1" using venv_moves_trans[OF made cm(1)] .
    have def: "createVenv tempRoot e w =
       (if \<not> private_directory (ce_info0 e) then venv_cleanup (ce_cleanup e) [repl_operationError ''venv-directory''] v0 w0
        else case ce_ctx0 e of Some cause \<Rightarrow> venv_cleanup (ce_cleanup e) [repl_contextError cause] v0 w0 | None \<Rightarrow>
        if \<not> ce_pipes e then venv_cleanup (ce_cleanup e) [repl_operationError ''venv-pipe''] v0 w0
        else if \<not> ce_started e then venv_cleanup (ce_cleanup e) [repl_operationError ''venv-start''] v0 w0
        else if keep then (Some v1, cerr, w1)
        else if cerr \<noteq> [] then venv_cleanup (ce_cleanup e) cerr v1 w1
        else case venv_integrity tempRoot e path of [] \<Rightarrow> (Some v1, [], w1) | x # xs \<Rightarrow> venv_cleanup (ce_cleanup e) (x # xs) v1 w1)"
      by (simp add: createVenv_def Some v0_def[symmetric] w0_def[symmetric] c Let_def split: option.splits list.splits)
    show ?thesis
      using assms(1) over[OF _ made] over[OF _ grown] grown cm(2) unfolding def
      by (auto split: if_splits option.splits list.splits)
  qed
  then show "venv_moves None w v w'" "err = [] \<Longrightarrow> v \<noteq> None" by auto
qed

subsection \<open>Sessions lose nothing\<close>

definition runners_below :: "world \<Rightarrow> bool" where
  "runners_below w \<longleftrightarrow> (\<forall>i \<in> w_runners w. i < w_next w)"

definition session_moves :: "ownerSession \<Rightarrow> world \<Rightarrow> ownerSession \<Rightarrow> world \<Rightarrow> bool" where
  "session_moves s w s' w' \<longleftrightarrow> moves held_dirs w_dirs s w s' w' \<and> moves held_creators w_creators s w s' w' \<and> moves held_runners w_runners s w s' w' \<and>
     w_next w \<le> w_next w' \<and> (\<forall>i \<in> held_runners s'. i \<in> held_runners s \<or> w_next w \<le> i) \<and> runners_below w'"

definition session_ok :: "ownerSession \<Rightarrow> bool" where
  "session_ok s \<longleftrightarrow> (os_closed s \<longrightarrow> os_venv s = None \<and> os_runner s = None) \<and> (\<forall>v. os_venv s = Some v \<longrightarrow> ve_path v \<noteq> [])"

lemma session_moves_trans: "session_moves s w s1 w1 \<Longrightarrow> session_moves s1 w1 s2 w2 \<Longrightarrow> session_moves s w s2 w2"
  unfolding session_moves_def by (auto elim: moves_trans)

text \<open>Steps that leave the runner alone.\<close>

definition same_run :: "ownerSession \<Rightarrow> ownerSession \<Rightarrow> bool" where
  "same_run s s' \<longleftrightarrow> s' = s\<lparr>os_venv := os_venv s', os_venvInvalid := os_venvInvalid s'\<rparr>"

lemma same_runD:
  "same_run s s' \<Longrightarrow> os_runner s' = os_runner s \<and> os_generation s' = os_generation s \<and> os_pendingReason s' = os_pendingReason s \<and>
    os_quarantined s' = os_quarantined s \<and> os_closed s' = os_closed s"
  unfolding same_run_def by (metis ownerSession.select_convs(5-9) ownerSession.surjective ownerSession.update_convs(3,4))

lemma session_moves_venv:
  assumes "venv_moves (os_venv s) w (os_venv s') w'" "os_runner s' = os_runner s" "runners_below w"
  shows "session_moves s w s' w'"
  using assms by (auto simp: session_moves_def venv_moves_def held_dirs_def held_creators_def held_runners_def moves_def runners_below_def)

lemma drop_invalid_moves:
  assumes "drop_invalid_venv e s w = (err, s', w')" "session_ok s"
  shows "venv_moves (os_venv s) w (os_venv s') w'" "same_run s s'" "w_dirs w' \<subseteq> w_dirs w" "w_creators w' \<subseteq> w_creators w"
proof -
  obtain c v w1 where r: "removeVenv e (os_venv s) w = (c, v, w1)" by (cases "removeVenv e (os_venv s) w")
  show "venv_moves (os_venv s) w (os_venv s') w'" "same_run s s'" "w_dirs w' \<subseteq> w_dirs w" "w_creators w' \<subseteq> w_creators w"
    using removeVenv_moves[OF r] assms by (auto simp: drop_invalid_venv_def r session_ok_def same_run_def split: if_splits)
qed

lemma ensure_venv_moves:
  assumes "ensure_venv tempRoot e s w = (err, s', w')" "session_ok s" "unused_path (ex_create e) w"
  shows "venv_moves (os_venv s) w (os_venv s') w'" "same_run s s'"
proof -
  obtain v c w1 where c: "createVenv tempRoot (ex_create e) w = (v, c, w1)" by (cases "createVenv tempRoot (ex_create e) w")
  obtain d v2 w2 where d: "removeVenv (ex_remove1 e) v w1 = (d, v2, w2)" by (cases "removeVenv (ex_remove1 e) v w1")
  note cm = createVenv_moves[OF c assms(3)]
  have "\<forall>x. v = Some x \<longrightarrow> ve_path x \<noteq> []" using cm(1) by (simp add: venv_moves_def)
  note dm = removeVenv_moves[OF d this]
  have "venv_moves (os_venv s) w (os_venv s) w" using assms(2) by (auto simp: venv_moves_def session_ok_def moves_refl)
  moreover have "ensure_venv tempRoot e s w =
      (if os_venv s \<noteq> None then ([], s, w)
       else if c \<noteq> [] then (closing_or (ex_life e) c, (if v \<noteq> None then s\<lparr>os_venv := v, os_venvInvalid := True\<rparr> else s), w1)
       else case ex_ctx1 e of None \<Rightarrow> ([], s\<lparr>os_venv := v\<rparr>, w1)
         | Some cause \<Rightarrow> if d \<noteq> [] then (repl_contextError cause # d, s\<lparr>os_venv := v2, os_venvInvalid := True\<rparr>, w2)
             else ([repl_contextError cause], s, w2))"
    by (cases "ex_ctx1 e") (simp_all add: ensure_venv_def c d)
  ultimately show "venv_moves (os_venv s) w (os_venv s') w'" "same_run s s'"
    using assms(1) cm dm venv_moves_trans[OF cm(1) dm(1)]
    by (auto simp: same_run_def split: if_splits option.splits)
qed

lemma startRunner_Some: "startRunner e ident = (Some p, err) \<Longrightarrow> rp_ident p = ident \<and> se_pipes e \<and> se_started e"
  by (rule startRunner_cases) (auto simp: startRunner_def Let_def split: if_splits)

lemma runner_execute_ident: "runner_execute l requestMax responseMax code e p = (x, p') \<Longrightarrow> rp_ident p' = rp_ident p"
  by (auto simp: runner_execute_def Let_def split: if_splits option.splits write_select.splits)

text \<open>A reset either keeps the runner, and then quarantines the session or reports the end of the caller's context, or drops it.\<close>

lemma resetRunner_cases:
  assumes "resetRunner invalidate reason waitCtx t s w = (err, s', w')"
  obtains (none) "os_runner s = None" "err = []" "s' = s" "w' = w"
    | (fails) "os_runner s \<noteq> None" "err \<noteq> []" "w' = w" "s' = s\<lparr>os_quarantined := True\<rparr> \<or> s' = s \<and> waitCtx \<noteq> None"
    | (drops) p where "os_runner s = Some p" "err = []" "w' = w\<lparr>w_runners := w_runners w - {rp_ident p}\<rparr>" "\<not> invalidate" "s' = s\<lparr>os_runner := None\<rparr>"
    | (bumps) p where "os_runner s = Some p" "err = []" "w' = w\<lparr>w_runners := w_runners w - {rp_ident p}\<rparr>" "invalidate"
        "s' = s\<lparr>os_runner := None, os_generation := os_generation s + 1,
           os_pendingReason := if validResetReason reason \<and> reason \<noteq> [] then reason else os_pendingReason s\<rparr>"
proof (cases "os_runner s")
  case None
  then show thesis using assms by (intro none) (simp_all add: resetRunner_def)
next
  case (Some p)
  note st = this
  show thesis
  proof (cases t)
    case None
    then show thesis using st assms by (cases waitCtx) (auto simp: resetRunner_def intro: fails)
  next
    case (Some e)
    show thesis
    proof (cases "fst (coordinateTermination e p) = []")
      case True
      then show thesis using st Some assms by (cases invalidate) (auto simp: resetRunner_def Let_def intro: drops bumps)
    next
      case False
      then show thesis using st Some assms by (auto simp: resetRunner_def Let_def intro: fails)
    qed
  qed
qed

lemma resetRunner_moves:
  assumes "resetRunner invalidate reason waitCtx t s w = (err, s', w')" "runners_below w"
  shows "session_moves s w s' w'" "os_venv s' = os_venv s" "os_closed s' = os_closed s"
proof -
  have "session_moves s w s' w' \<and> os_venv s' = os_venv s \<and> os_closed s' = os_closed s"
    using assms(1)
  proof (cases rule: resetRunner_cases)
    case none
    then show ?thesis using assms(2) by (simp add: session_moves_def moves_refl)
  next
    case fails
    then show ?thesis using assms(2) by (auto simp: session_moves_def moves_def held_dirs_def held_creators_def held_runners_def)
  next
    case (drops p)
    then show ?thesis using assms(2) by (auto simp: session_moves_def moves_def held_dirs_def held_creators_def held_runners_def runners_below_def)
  next
    case (bumps p)
    then show ?thesis using assms(2) by (auto simp: session_moves_def moves_def held_dirs_def held_creators_def held_runners_def runners_below_def)
  qed
  then show "session_moves s w s' w'" "os_venv s' = os_venv s" "os_closed s' = os_closed s" by simp_all
qed

text \<open>What \<open>ensure_runner\<close> does to the runner: it is kept, or a new one serves, or none is left, or one is left in quarantine.\<close>

lemma ensure_runner_cases:
  assumes "ensure_runner e s w = (r, s', w')"
  obtains (kept) p where "os_runner s = Some p" "r = Inr (False, p)" "s' = s" "w' = w"
    | (started) p where "os_runner s = None" "rp_ident p = w_next w" "r = Inr (True, p)" "s' = s\<lparr>os_runner := Some p\<rparr>"
        "w' = w\<lparr>w_next := w_next w + 1, w_runners := insert (w_next w) (w_runners w)\<rparr>"
    | (stuck) p err where "os_runner s = None" "rp_ident p = w_next w" "r = Inl err" "s' = s\<lparr>os_runner := Some p, os_quarantined := True\<rparr>"
        "w' = w\<lparr>w_next := w_next w + 1, w_runners := insert (w_next w) (w_runners w)\<rparr>"
    | (absent) err where "os_runner s = None" "r = Inl err" "same_run s s'"
        "s' = s \<and> w' = w\<lparr>w_next := w_next w + 1\<rparr> \<or>
         (\<exists>c v. removeVenv (ex_remove2 e) (os_venv s) (w\<lparr>w_next := w_next w + 1\<rparr>) = (c, v, w') \<and> os_venv s' = (if c = [] then None else v))"
proof (cases "os_runner s")
  case (Some p)
  then show thesis using assms by (intro kept[of p]) (simp_all add: ensure_runner_def)
next
  case idle: None
  obtain q err where q: "startRunner (ex_start e) (w_next w) = (q, err)" by (cases "startRunner (ex_start e) (w_next w)")
  define w1 where "w1 = w\<lparr>w_next := w_next w + 1\<rparr>"
  show thesis
  proof (cases q)
    case (Some p)
    have id: "rp_ident p = w_next w" "se_pipes (ex_start e)" "se_started (ex_start e)" using startRunner_Some q Some by auto
    then show thesis using assms idle q Some started[of p] stuck[of p]
      by (cases "err = []") (auto simp: ensure_runner_def start_world_def Let_def)
  next
    case none: None
    obtain c v w2 where c: "removeVenv (ex_remove2 e) (os_venv s) w1 = (c, v, w2)" by (cases "removeVenv (ex_remove2 e) (os_venv s) w1")
    have def: "ensure_runner e s w =
      (if errBootstrapIntegrity \<in> set err then
         if c \<noteq> [] then (Inl (err @ c), s\<lparr>os_venv := v, os_venvInvalid := True\<rparr>, w2)
         else (Inl (closing_or (ex_life e) err), s\<lparr>os_venv := None, os_venvInvalid := False\<rparr>, w2)
       else (Inl (closing_or (ex_life e) err), s, w1))"
      by (simp add: ensure_runner_def idle q none start_world_def Let_def w1_def[simplified, symmetric] c)
    show thesis
    proof (rule absent[OF idle])
      show "r = Inl (projl r)" "same_run s s'"
          "s' = s \<and> w' = w\<lparr>w_next := w_next w + 1\<rparr> \<or>
           (\<exists>c v. removeVenv (ex_remove2 e) (os_venv s) (w\<lparr>w_next := w_next w + 1\<rparr>) = (c, v, w') \<and> os_venv s' = (if c = [] then None else v))"
        using assms unfolding def by (auto simp: c[unfolded w1_def, simplified] w1_def same_run_def split: if_splits)
    qed
  qed
qed

lemma ensure_runner_moves:
  assumes "ensure_runner e s w = (r, s', w')" "runners_below w" "session_ok s"
  shows "session_moves s w s' w'" "os_closed s' = os_closed s"
    "\<And>startedNow p. r = Inr (startedNow, p) \<Longrightarrow> os_runner s' = Some p" "\<forall>x. os_venv s' = Some x \<longrightarrow> ve_path x \<noteq> []"
proof -
  have "session_moves s w s' w' \<and> os_closed s' = os_closed s \<and> (\<forall>startedNow p. r = Inr (startedNow, p) \<longrightarrow> os_runner s' = Some p) \<and>
      (\<forall>x. os_venv s' = Some x \<longrightarrow> ve_path x \<noteq> [])"
    using assms(1)
  proof (cases rule: ensure_runner_cases)
    case (kept p)
    then show ?thesis using assms(2,3) by (auto simp: session_moves_def moves_refl session_ok_def)
  next
    case (started p)
    then show ?thesis using assms(2,3)
      by (auto simp: session_moves_def moves_def held_dirs_def held_creators_def held_runners_def runners_below_def session_ok_def)
  next
    case (stuck p err)
    then show ?thesis using assms(2,3)
      by (auto simp: session_moves_def moves_def held_dirs_def held_creators_def held_runners_def runners_below_def session_ok_def)
  next
    case (absent err)
    define w1 where "w1 = w\<lparr>w_next := w_next w + 1\<rparr>"
    have w1: "session_moves s w s w1" "runners_below w1"
      using assms(2) by (auto simp: w1_def session_moves_def moves_same runners_below_def)
    have run: "os_runner s' = os_runner s" "os_closed s' = os_closed s" using same_runD[OF absent(3)] by simp_all
    have ok: "\<forall>x. os_venv s = Some x \<longrightarrow> ve_path x \<noteq> []" using assms(3) by (simp add: session_ok_def)
    have "venv_moves (os_venv s) w1 (os_venv s') w'"
      using absent(4)[folded w1_def]
    proof
      assume "\<exists>c v. removeVenv (ex_remove2 e) (os_venv s) w1 = (c, v, w') \<and> os_venv s' = (if c = [] then None else v)"
      then obtain c v where cv: "removeVenv (ex_remove2 e) (os_venv s) w1 = (c, v, w')" "os_venv s' = (if c = [] then None else v)" by blast
      show ?thesis using removeVenv_moves(1)[OF cv(1) ok] cv(2) by simp
    qed (use ok in \<open>simp add: venv_moves_def moves_refl\<close>)
    then show ?thesis
      using session_moves_trans[OF w1(1) session_moves_venv[OF _ run(1) w1(2)]] absent(2) run(2) by (simp add: venv_moves_def)
  qed
  then show "session_moves s w s' w'" "os_closed s' = os_closed s"
    "\<And>startedNow p. r = Inr (startedNow, p) \<Longrightarrow> os_runner s' = Some p" "\<forall>x. os_venv s' = Some x \<longrightarrow> ve_path x \<noteq> []" by blast+
qed

lemma serve_moves:
  assumes "serve l requestMax responseMax code e startedNow p s w = (r, s', w')" "os_runner s = Some p" "runners_below w"
  shows "session_moves s w s' w'" "os_venv s' = os_venv s" "os_closed s' = os_closed s"
proof -
  obtain outcome may q where x: "runner_execute l requestMax responseMax code (ex_exec e) p = ((outcome, may), q)" by (metis prod.exhaust)
  define s1 where "s1 = s\<lparr>os_runner := Some q\<rparr>"
  have s1: "session_moves s w s1 w" using runner_execute_ident[OF x] assms(2,3)
    by (auto simp: s1_def session_moves_def moves_def held_dirs_def held_creators_def held_runners_def)
  have "session_moves s w s' w' \<and> os_venv s' = os_venv s \<and> os_closed s' = os_closed s"
  proof (cases outcome)
    case (Inl err)
    obtain c t w1 where c: "resetRunner (may \<or> \<not> startedNow) (reset_reason err) None (ex_terminate e) s1 w = (c, t, w1)" by (metis prod.exhaust)
    have "s' = t \<and> w' = w1" using assms(1) by (auto simp: serve_def x Inl Let_def s1_def[symmetric] c split: if_splits)
    then show ?thesis using resetRunner_moves[OF c assms(3)] session_moves_trans[OF s1] by (simp add: s1_def)
  next
    case (Inr resp)
    have "session_moves s1 w (s1\<lparr>os_pendingReason := []\<rparr>) w" using assms(3)
      by (simp add: session_moves_def moves_same held_dirs_def held_creators_def held_runners_def)
    moreover have "s' = s1\<lparr>os_pendingReason := []\<rparr>" "w' = w" using assms(1) by (auto simp: serve_def x Inr Let_def s1_def)
    ultimately show ?thesis using session_moves_trans[OF s1] by (simp add: s1_def)
  qed
  then show "session_moves s w s' w'" "os_venv s' = os_venv s" "os_closed s' = os_closed s" by simp_all
qed

text \<open>The four stages of an execute that passes the gate and finds the session open.\<close>

lemma repl_execute_stages:
  assumes "repl_execute l requestMax responseMax tempRoot code e s w = (r, s', w')"
  obtains (refused) err where "r = Inl err" "s' = s" "w' = w"
    | (venv_only) err s1 w1 err1 where "\<not> os_closed s" "\<not> os_quarantined s" "r = Inl err"
        "(if os_venvInvalid s then drop_invalid_venv (ex_remove0 e) s w else ([], s, w)) = (err1, s1, w1)"
        "s' = s1 \<and> w' = w1 \<or> (\<exists>err2. ensure_venv tempRoot e s1 w1 = (err2, s', w'))"
    | (runs) s1 w1 err1 s2 w2 err2 x s3 w3 where "\<not> os_closed s" "\<not> os_quarantined s"
        "(if os_venvInvalid s then drop_invalid_venv (ex_remove0 e) s w else ([], s, w)) = (err1, s1, w1)"
        "ensure_venv tempRoot e s1 w1 = (err2, s2, w2)" "ensure_runner e s2 w2 = (x, s3, w3)"
        "(\<exists>err. x = Inl err \<and> r = Inl err \<and> s' = s3 \<and> w' = w3) \<or>
         (\<exists>startedNow p. x = Inr (startedNow, p) \<and> serve l requestMax responseMax code e startedNow p s3 w3 = (r, s', w'))"
proof (cases "ex_gate e \<noteq> None \<or> os_closed s \<or> os_quarantined s")
  case True
  then show thesis using assms by (intro refused[of "projl r"]) (auto simp: repl_execute_def split: if_splits option.splits)
next
  case False
  obtain err1 s1 w1 where d: "(if os_venvInvalid s then drop_invalid_venv (ex_remove0 e) s w else ([], s, w)) = (err1, s1, w1)" by (metis prod.exhaust)
  obtain err2 s2 w2 where v: "ensure_venv tempRoot e s1 w1 = (err2, s2, w2)" by (metis prod.exhaust)
  obtain x s3 w3 where t: "ensure_runner e s2 w2 = (x, s3, w3)" by (metis prod.exhaust)
  have def: "repl_execute l requestMax responseMax tempRoot code e s w =
     (if err1 \<noteq> [] then (Inl err1, s1, w1)
      else case ex_ctx0 e of Some cause \<Rightarrow> (Inl (closing_or (ex_life e) [repl_contextError cause]), s1, w1) | None \<Rightarrow>
      if err2 \<noteq> [] then (Inl err2, s2, w2)
      else case x of Inl err \<Rightarrow> (Inl err, s3, w3)
        | Inr (startedNow, p) \<Rightarrow> serve l requestMax responseMax code e startedNow p s3 w3)"
    using False by (cases "ex_ctx0 e"; cases x) (auto simp: repl_execute_def d v t)
  show thesis
  proof (cases "err1 = [] \<and> ex_ctx0 e = None \<and> err2 = []")
    case True
    then have "(\<exists>err. x = Inl err \<and> r = Inl err \<and> s' = s3 \<and> w' = w3) \<or>
         (\<exists>startedNow p. x = Inr (startedNow, p) \<and> serve l requestMax responseMax code e startedNow p s3 w3 = (r, s', w'))"
      using assms unfolding def by (cases x) auto
    then show thesis using runs[OF _ _ d v t] False by blast
  next
    case stop: False
    then have "r = Inl (projl r) \<and> (s' = s1 \<and> w' = w1 \<or> (\<exists>err2. ensure_venv tempRoot e s1 w1 = (err2, s', w')))"
      using assms v unfolding def by (auto split: if_splits option.splits)
    then show thesis using venv_only[OF _ _ _ d] False by blast
  qed
qed

lemma execute_moves:
  assumes "repl_execute l requestMax responseMax tempRoot code e s w = (r, s', w')" "session_ok s" "runners_below w" "unused_path (ex_create e) w"
  shows "session_moves s w s' w'" "session_ok s'" "os_closed s' = os_closed s"
proof -
  have stage: "session_moves s w s1 w1 \<and> session_ok s1 \<and> unused_path (ex_create e) w1 \<and> runners_below w1 \<and> same_run s s1"
    if d: "(if os_venvInvalid s then drop_invalid_venv (ex_remove0 e) s w else ([], s, w)) = (err1, s1, w1)" and open': "\<not> os_closed s" for err1 s1 w1
  proof (cases "os_venvInvalid s")
    case True
    then have d: "drop_invalid_venv (ex_remove0 e) s w = (err1, s1, w1)" using that by simp
    note m = drop_invalid_moves[OF d assms(2)]
    have run: "os_runner s1 = os_runner s" "os_closed s1 = os_closed s" using same_runD[OF m(2)] by simp_all
    show ?thesis using session_moves_venv[OF m(1) run(1) assms(3)] m assms(4) run open'
      by (auto simp: session_ok_def venv_moves_def unused_path_def session_moves_def)
  next
    case False
    then show ?thesis using that assms(2-4) by (auto simp: session_moves_def moves_refl same_run_def)
  qed
  have made: "session_moves s1 w1 s2 w2 \<and> session_ok s2 \<and> runners_below w2 \<and> same_run s1 s2"
    if v: "ensure_venv tempRoot e s1 w1 = (err2, s2, w2)" and s1: "session_ok s1" "unused_path (ex_create e) w1" "runners_below w1" "\<not> os_closed s1" for err2 s1 w1 s2 w2
  proof -
    note m = ensure_venv_moves[OF v s1(1,2)]
    have run: "os_runner s2 = os_runner s1" "os_closed s2 = os_closed s1" using same_runD[OF m(2)] by simp_all
    show ?thesis using session_moves_venv[OF m(1) run(1) s1(3)] m run s1(4)
      by (auto simp: session_ok_def venv_moves_def session_moves_def)
  qed
  have "session_moves s w s' w' \<and> session_ok s' \<and> os_closed s' = os_closed s"
    using assms(1)
  proof (cases rule: repl_execute_stages)
    case (refused err)
    then show ?thesis using assms(2,3) by (simp add: session_moves_def moves_refl)
  next
    case (venv_only err s1 w1 err1)
    note st = stage[OF venv_only(4,1)]
    have cl: "\<not> os_closed s1" using st same_runD venv_only(1) by metis
    from venv_only(5) show ?thesis
    proof
      assume "\<exists>err2. ensure_venv tempRoot e s1 w1 = (err2, s', w')"
      then obtain err2 where "ensure_venv tempRoot e s1 w1 = (err2, s', w')" ..
      from made[OF this] st cl have "session_moves s1 w1 s' w' \<and> session_ok s' \<and> same_run s1 s'" by blast
      then show ?thesis using st session_moves_trans same_runD by metis
    qed (use st same_runD in metis)
  next
    case (runs s1 w1 err1 s2 w2 err2 x s3 w3)
    note st = stage[OF runs(3,1)]
    have cl: "\<not> os_closed s1" using st same_runD runs(1) by metis
    note mk = made[OF runs(4)]
    have mk: "session_moves s1 w1 s2 w2" "session_ok s2" "runners_below w2" "same_run s1 s2" using mk st cl by blast+
    note en = ensure_runner_moves[OF runs(5) mk(3,2)]
    have to3: "session_moves s w s3 w3" using st mk(1) en(1) session_moves_trans by blast
    have cl3: "os_closed s3 = os_closed s" using en(2) st mk(4) same_runD by metis
    have b3: "runners_below w3" using en(1) by (simp add: session_moves_def)
    from runs(6) show ?thesis
    proof
      assume "\<exists>startedNow p. x = Inr (startedNow, p) \<and> serve l requestMax responseMax code e startedNow p s3 w3 = (r, s', w')"
      then obtain startedNow p where sv: "x = Inr (startedNow, p)" "serve l requestMax responseMax code e startedNow p s3 w3 = (r, s', w')" by blast
      note m = serve_moves[OF sv(2) en(3)[OF sv(1)] b3]
      show ?thesis using session_moves_trans[OF to3 m(1)] m(2,3) cl3 en(4) runs(1) by (simp add: session_ok_def)
    qed (use to3 cl3 en(4) runs(1) in \<open>auto simp: session_ok_def\<close>)
  qed
  then show "session_moves s w s' w'" "session_ok s'" "os_closed s' = os_closed s" by simp_all
qed

lemma clear_moves:
  assumes "repl_clear e s w = (r, s', w')" "session_ok s" "runners_below w"
  shows "session_moves s w s' w'" "session_ok s'" "os_closed s' = os_closed s"
proof -
  define s1 where "s1 = s\<lparr>os_pendingReason := []\<rparr>"
  obtain err s2 w2 where x: "resetRunner True ''cleared'' None (ca_terminate e) s1 w = (err, s2, w2)" by (metis prod.exhaust)
  note m = resetRunner_moves[OF x assms(3)]
  have s1: "session_moves s w s1 w" "session_moves s2 w2 (s2\<lparr>os_pendingReason := []\<rparr>) w2"
    using assms(3) m(1) by (auto simp: s1_def session_moves_def moves_same held_dirs_def held_creators_def held_runners_def)
  have to2: "session_moves s w s2 w2" "session_moves s w (s2\<lparr>os_pendingReason := []\<rparr>) w2"
    using session_moves_trans[OF s1(1) m(1)] session_moves_trans[OF session_moves_trans[OF s1(1) m(1)] s1(2)] by simp_all
  have stay: "session_moves s w s w" using assms(3) by (simp add: session_moves_def moves_refl)
  have ok: "session_ok s1" "\<not> os_closed s \<Longrightarrow> session_ok s2" using assms(2) m(2,3) by (auto simp: session_ok_def s1_def)
  have "session_moves s w s' w' \<and> session_ok s' \<and> os_closed s' = os_closed s"
    using assms(1,2) stay s1(1) to2 ok m(2,3) unfolding repl_clear_def s1_def[symmetric] Let_def x
    by (auto simp: session_ok_def s1_def split: if_splits option.splits)
  then show "session_moves s w s' w'" "session_ok s'" "os_closed s' = os_closed s" by simp_all
qed

lemma closeSession_moves:
  assumes "closeSession e s w = (err, s', w')" "session_ok s" "runners_below w"
  shows "session_moves s w s' w'" "session_ok s'" "err = [] \<Longrightarrow> os_closed s'" "os_closed s \<Longrightarrow> s' = s \<and> w' = w"
proof -
  have stay: "session_moves s w s w" using assms(3) by (simp add: session_moves_def moves_refl)
  show "os_closed s \<Longrightarrow> s' = s \<and> w' = w" using assms(1) by (auto simp: closeSession_def split: option.splits)
  have "session_moves s w s' w' \<and> session_ok s' \<and> (err = [] \<longrightarrow> os_closed s')"
  proof (cases "cl_gate e \<noteq> None \<or> os_closed s \<or> os_quarantined s")
    case True
    then show ?thesis using assms(1,2) stay by (auto simp: closeSession_def split: option.splits if_splits)
  next
    case False
    obtain err1 s1 w1 where x: "(if os_runner s \<noteq> None then resetRunner False [] (Some (cl_cause e)) (cl_terminate e) s w else ([], s, w)) = (err1, s1, w1)"
      by (metis prod.exhaust)
    have m: "session_moves s w s1 w1" "os_venv s1 = os_venv s" "os_closed s1 = os_closed s" "err1 = [] \<Longrightarrow> os_runner s1 = None"
    proof -
      have "session_moves s w s1 w1 \<and> os_venv s1 = os_venv s \<and> os_closed s1 = os_closed s \<and> (err1 = [] \<longrightarrow> os_runner s1 = None)"
      proof (cases "os_runner s = None")
        case False
        then have r: "resetRunner False [] (Some (cl_cause e)) (cl_terminate e) s w = (err1, s1, w1)" using x by simp
        have "err1 = [] \<longrightarrow> os_runner s1 = None" using r by (cases rule: resetRunner_cases) auto
        then show ?thesis using resetRunner_moves[OF r assms(3)] by simp
      qed (use x stay in simp)
      then show "session_moves s w s1 w1" "os_venv s1 = os_venv s" "os_closed s1 = os_closed s" "err1 = [] \<Longrightarrow> os_runner s1 = None" by simp_all
    qed
    obtain err2 v w2 where r: "removeVenv (cl_remove e) (os_venv s1) w1 = (err2, v, w2)" by (metis prod.exhaust)
    have path: "\<forall>y. os_venv s1 = Some y \<longrightarrow> ve_path y \<noteq> []" using assms(2) m(2) by (simp add: session_ok_def)
    note rm = removeVenv_moves(1)[OF r path]
    have b1: "runners_below w1" using m(1) by (simp add: session_moves_def)
    have def: "closeSession e s w =
       (if err1 \<noteq> [] then (err1, s1, w1)
        else case cl_ctx e of Some cause \<Rightarrow> ([errCleanupIncomplete, repl_contextError cause], s1, w1) | None \<Rightarrow>
        if err2 \<noteq> [] then (err2, s1\<lparr>os_venv := v\<rparr>, w2)
        else ([], s1\<lparr>os_venv := None, os_venvInvalid := False, os_closed := True\<rparr>, w2))"
      unfolding closeSession_def x using False by (cases "cl_ctx e") (auto simp: r)
    have kept: "session_moves s w (s1\<lparr>os_venv := v\<rparr>) w2" if "err2 \<noteq> []"
      using session_moves_trans[OF m(1) session_moves_venv[of s1 w1 "s1\<lparr>os_venv := v\<rparr>" w2]] rm that b1 by simp
    have gone: "session_moves s w (s1\<lparr>os_venv := None, os_venvInvalid := False, os_closed := True\<rparr>) w2" if "err2 = []"
      using session_moves_trans[OF m(1) session_moves_venv[of s1 w1 "s1\<lparr>os_venv := None, os_venvInvalid := False, os_closed := True\<rparr>" w2]] rm that b1 by simp
    show ?thesis using assms(1) m kept gone False path rm unfolding def
      by (auto simp: session_ok_def venv_moves_def split: if_splits option.splits)
  qed
  then show "session_moves s w s' w'" "session_ok s'" "err = [] \<Longrightarrow> os_closed s'" by simp_all
qed

subsection \<open>The invariant of the manager\<close>

declare map_of_eq_Some_iff [simp del] split_paired_All [simp del] split_paired_Ex [simp del]

definition repl_inv :: "repl_Limits \<Rightarrow> repl_manager \<Rightarrow> bool" where
  "repl_inv l m \<longleftrightarrow>
     distinct (map fst (rm_owners m)) \<and> len (rm_owners m) \<le> MaxSessions l \<and> (\<forall>k s. map_of (rm_owners m) k = Some s \<longrightarrow> session_ok s) \<and>
     runners_below (rm_world m) \<and> accounted held_dirs w_dirs (map_of (rm_owners m)) (rm_world m) \<and>
     accounted held_creators w_creators (map_of (rm_owners m)) (rm_world m) \<and>
     accounted held_runners w_runners (map_of (rm_owners m)) (rm_world m) \<and>
     (rm_closed m \<longrightarrow> rm_closing m \<and> (\<forall>k s. map_of (rm_owners m) k = Some s \<longrightarrow> os_closed s)) \<and>
     (\<forall>c todo result. rm_closers m c = Some (todo, result) \<longrightarrow> rm_closing m \<and>
        (result = [] \<longrightarrow> (\<forall>k s. map_of (rm_owners m) k = Some s \<longrightarrow> k \<notin> set todo \<longrightarrow> os_closed s)))"

lemma repl_inv_accounted:
  assumes "repl_inv l m"
  shows "accounted held_dirs w_dirs (map_of (rm_owners m)) (rm_world m)" "accounted held_creators w_creators (map_of (rm_owners m)) (rm_world m)"
    "accounted held_runners w_runners (map_of (rm_owners m)) (rm_world m)"
  using assms by (simp_all add: repl_inv_def)

lemma repl_inv_new: "0 \<le> MaxSessions l \<Longrightarrow> repl_inv l repl_newManager"
  by (simp add: repl_inv_def repl_newManager_def runners_below_def accounted_def len_def)

lemma repl_inv_set_session:
  assumes inv: "repl_inv l m" and s: "map_of (rm_owners m) k = Some s" and mv: "session_moves s (rm_world m) s' w'"
    and ok: "session_ok s'" "os_closed s \<Longrightarrow> os_closed s'"
  shows "repl_inv l (set_session k s' w' m)"
proof -
  have up: "map_of (AList.update k s' (rm_owners m)) = (map_of (rm_owners m))(k \<mapsto> s')" by (rule update_conv')
  have "k \<in> fst ` set (rm_owners m)" using s by (metis domI dom_map_of_conv_image_fst)
  then have "map fst (AList.update k s' (rm_owners m)) = map fst (rm_owners m)" by (simp add: update_keys)
  then have len: "length (AList.update k s' (rm_owners m)) = length (rm_owners m)" by (metis length_map)
  have acc: "accounted held_dirs w_dirs ((map_of (rm_owners m))(k \<mapsto> s')) w'" "accounted held_creators w_creators ((map_of (rm_owners m))(k \<mapsto> s')) w'"
      "accounted held_runners w_runners ((map_of (rm_owners m))(k \<mapsto> s')) w'"
    using mv by (simp_all add: session_moves_def dirs.accounted_move[OF repl_inv_accounted(1)[OF inv] s]
        creators.accounted_move[OF repl_inv_accounted(2)[OF inv] s] runners.accounted_move[OF repl_inv_accounted(3)[OF inv] s])
  have keys: "distinct (map fst (AList.update k s' (rm_owners m)))" using inv by (simp add: repl_inv_def distinct_update)
  have closed: "\<forall>k' t. ((map_of (rm_owners m))(k \<mapsto> s')) k' = Some t \<longrightarrow> P k' \<longrightarrow> os_closed t"
    if "\<forall>k' t. map_of (rm_owners m) k' = Some t \<longrightarrow> P k' \<longrightarrow> os_closed t" for P
    using that ok(2) s by auto
  have sel: "rm_owners (set_session k s' w' m) = AList.update k s' (rm_owners m)" "rm_closing (set_session k s' w' m) = rm_closing m"
      "rm_closed (set_session k s' w' m) = rm_closed m" "rm_world (set_session k s' w' m) = w'" "rm_closers (set_session k s' w' m) = rm_closers m"
    by (simp_all add: set_session_def)
  show ?thesis unfolding repl_inv_def sel up
  proof (intro conjI allI impI)
    show "distinct (map fst (AList.update k s' (rm_owners m)))" "accounted held_dirs w_dirs ((map_of (rm_owners m))(k \<mapsto> s')) w'"
      "accounted held_creators w_creators ((map_of (rm_owners m))(k \<mapsto> s')) w'" "accounted held_runners w_runners ((map_of (rm_owners m))(k \<mapsto> s')) w'"
      using acc keys by simp_all
    show "len (AList.update k s' (rm_owners m)) \<le> MaxSessions l" using inv len by (simp add: repl_inv_def len_def)
    show "runners_below w'" using mv by (simp add: session_moves_def)
    show "session_ok t" if "((map_of (rm_owners m))(k \<mapsto> s')) k' = Some t" for k' t using that inv ok(1) by (auto simp: repl_inv_def split: if_splits)
    show "rm_closing m" if "rm_closed m" using that inv by (simp add: repl_inv_def)
    show "os_closed t" if "rm_closed m" "((map_of (rm_owners m))(k \<mapsto> s')) k' = Some t" for k' t
      using closed[of "\<lambda>_. True"] inv that by (simp add: repl_inv_def)
    show "rm_closing m" if "rm_closers m c = Some (todo, result)" for c todo result using that inv by (auto simp: repl_inv_def)
    show "os_closed t" if "rm_closers m c = Some (todo, result)" "result = []" "((map_of (rm_owners m))(k \<mapsto> s')) k' = Some t" "k' \<notin> set todo" for c todo result k' t
      using closed[of "\<lambda>k. k \<notin> set todo"] inv that by (simp add: repl_inv_def)
  qed
qed

lemma unused_when_fresh:
  assumes "repl_inv l m" "fresh_directory e (rm_world m)"
  shows "unused_path e (rm_world m)"
proof -
  have sub: "held_creators s \<subseteq> held_dirs s" for s
    by (auto simp: held_creators_def held_dirs_def venv_creators_def venv_dirs_def split: option.splits)
  have "\<forall>r. r \<in> w_creators (rm_world m) \<longleftrightarrow> (\<exists>k s. map_of (rm_owners m) k = Some s \<and> r \<in> held_creators s)"
      "\<forall>r. r \<in> w_dirs (rm_world m) \<longleftrightarrow> (\<exists>k s. map_of (rm_owners m) k = Some s \<and> r \<in> held_dirs s)"
    using assms(1) by (simp_all add: repl_inv_def accounted_def)
  then have "w_creators (rm_world m) \<subseteq> w_dirs (rm_world m)" using sub by blast
  then show ?thesis using assms(2) by (auto simp: unused_path_def fresh_directory_def)
qed

lemma repl_inv_lookup:
  assumes "repl_inv l m" "ownerForExecute l ctxErr key root m = (err, m')"
  shows "repl_inv l m'"
proof (cases "m' = m")
  case False
  define s where "s = newOwnerSession root"
  have st: "\<not> rm_closing m" "\<not> rm_closed m" "map_of (rm_owners m) key = None" "len (rm_owners m) < MaxSessions l"
      "m' = m\<lparr>rm_owners := (key, s) # rm_owners m\<rparr>"
    using assms(2) False by (auto simp: ownerForExecute_def s_def split: if_splits option.splits)
  have none: "held_dirs s = {}" "held_creators s = {}" "held_runners s = {}" "session_ok s"
    by (simp_all add: s_def newOwnerSession_def held_dirs_def held_creators_def held_runners_def venv_dirs_def venv_creators_def session_ok_def)
  have "key \<notin> fst ` set (rm_owners m)" using st(3) by (simp add: map_of_eq_None_iff)
  then show ?thesis
    using assms(1) st none dirs.accounted_new[where owners = "map_of (rm_owners m)" and k = key and s = s]
      creators.accounted_new[where owners = "map_of (rm_owners m)" and k = key and s = s]
      runners.accounted_new[where owners = "map_of (rm_owners m)" and k = key and s = s]
    by (auto simp: repl_inv_def len_def split: if_splits)
qed (use assms(1) in simp)

lemma repl_inv_begin:
  assumes inv: "repl_inv l m" and order: "set order = fst ` set (rm_owners m)"
  shows "repl_inv l (snd (repl_close_begin order c m))"
proof (cases "rm_closed m")
  case False
  define f :: "ownerSession \<Rightarrow> ownerSession" where "f s = s\<lparr>os_lifecycle := False\<rparr>" for s
  have held: "held_dirs (f s) = held_dirs s" "held_creators (f s) = held_creators s" "held_runners (f s) = held_runners s" "os_closed (f s) = os_closed s"
      "session_ok (f s) = session_ok s" for s
    by (simp_all add: f_def held_dirs_def held_creators_def held_runners_def session_ok_def)
  define m1 where "m1 = snd (repl_close_begin order c m)"
  have sel: "rm_owners m1 = map (\<lambda>(k, s). (k, f s)) (rm_owners m)" "rm_closing m1 = True" "rm_closed m1 = False" "rm_world m1 = rm_world m"
      "rm_closers m1 = (rm_closers m)(c \<mapsto> (order, []))"
    using False by (simp_all add: m1_def repl_close_begin_def f_def)
  have look: "map_of (map (\<lambda>(k, s). (k, f s)) (rm_owners m)) = (\<lambda>k. map_option f (map_of (rm_owners m) k))"
    by (auto simp: map_of_map)
  have keys: "map fst (map (\<lambda>(k, s). (k, f s)) (rm_owners m)) = map fst (rm_owners m)" by (induction "rm_owners m") auto
  have dom: "k \<in> set order" if "map_of (rm_owners m) k = Some s" for k s using that order by (metis domI dom_map_of_conv_image_fst)
  let ?owners = "\<lambda>k. map_option f (map_of (rm_owners m) k)"
  have acc: "accounted held_dirs w_dirs ?owners (rm_world m)" "accounted held_creators w_creators ?owners (rm_world m)"
      "accounted held_runners w_runners ?owners (rm_world m)"
    by (rule dirs.accounted_map[OF repl_inv_accounted(1)[OF inv] held(1)] creators.accounted_map[OF repl_inv_accounted(2)[OF inv] held(2)]
        runners.accounted_map[OF repl_inv_accounted(3)[OF inv] held(3)])+
  have ok: "\<forall>k s. ?owners k = Some s \<longrightarrow> session_ok s" using inv held(5) unfolding repl_inv_def by auto
  have rest: "distinct (map fst (rm_owners m))" "len (rm_owners m) \<le> MaxSessions l" "runners_below (rm_world m)" using inv by (simp_all add: repl_inv_def)
  have closers: "result = [] \<longrightarrow> (\<forall>k s. ?owners k = Some s \<longrightarrow> k \<notin> set todo \<longrightarrow> os_closed s)"
    if "((rm_closers m)(c \<mapsto> (order, []))) c' = Some (todo, result)" for c' todo result
  proof (cases "c' = c")
    case True
    then show ?thesis using that dom by auto
  next
    case other: False
    then have "result = [] \<longrightarrow> (\<forall>k s. map_of (rm_owners m) k = Some s \<longrightarrow> k \<notin> set todo \<longrightarrow> os_closed s)"
      using inv that unfolding repl_inv_def by simp
    then show ?thesis using held(4) by auto
  qed
  have len: "len (map (\<lambda>(k, s). (k, f s)) (rm_owners m)) = len (rm_owners m)" by (simp add: len_def)
  have "\<forall>c' todo result. rm_closers m1 c' = Some (todo, result) \<longrightarrow>
      True \<and> (result = [] \<longrightarrow> (\<forall>k s. ?owners k = Some s \<longrightarrow> k \<notin> set todo \<longrightarrow> os_closed s))"
    using closers sel(5) by simp
  then show ?thesis unfolding m1_def[symmetric] repl_inv_def sel(1-4) look keys len
    using acc ok rest by simp
qed (use inv in \<open>simp add: repl_close_begin_def\<close>)

lemma repl_inv_next:
  assumes inv: "repl_inv l m"
  shows "repl_inv l (repl_close_next e c m)"
proof (cases "\<exists>k ks result s. rm_closers m c = Some (k # ks, result) \<and> map_of (rm_owners m) k = Some s")
  case True
  then obtain k ks result s where k: "rm_closers m c = Some (k # ks, result)" "map_of (rm_owners m) k = Some s" by blast
  obtain err s' w' where x: "closeSession e s (rm_world m) = (err, s', w')" by (metis prod.exhaust)
  have ok: "session_ok s" "runners_below (rm_world m)" using inv k(2) unfolding repl_inv_def by blast+
  note mv = closeSession_moves[OF x ok]
  define m1 where "m1 = set_session k s' w' m"
  have inv1: "repl_inv l m1" unfolding m1_def using repl_inv_set_session[OF inv k(2) mv(1,2)] mv(4) by auto
  have m1: "rm_closers m1 = rm_closers m" "rm_closing m1 = rm_closing m" "map_of (rm_owners m1) = (map_of (rm_owners m))(k \<mapsto> s')"
    by (simp_all add: m1_def set_session_def update_conv')
  have "repl_close_next e c m = m1\<lparr>rm_closers := (rm_closers m)(c \<mapsto> (ks, result @ err))\<rparr>"
    using k x by (simp add: repl_close_next_def m1_def)
  moreover have "rm_closing m" "result = [] \<Longrightarrow> map_of (rm_owners m) k' = Some t \<Longrightarrow> k' \<notin> set (k # ks) \<Longrightarrow> os_closed t" for k' t
    using inv k(1) by (auto simp: repl_inv_def)
  ultimately show ?thesis using inv1 mv(3) m1 by (auto simp: repl_inv_def)
next
  case False
  then have "repl_close_next e c m = m" by (auto simp: repl_close_next_def split: option.splits list.splits prod.splits)
  then show ?thesis using inv by simp
qed

lemma repl_inv_step:
  assumes "repl_step l requestMax responseMax tempRoot m ev m'" "repl_inv l m"
  shows "repl_inv l m'"
  using assms(1)
proof (cases rule: repl_step.cases)
  case (looks_up ctxErr key root err)
  then show ?thesis using repl_inv_lookup[OF assms(2)] by blast
next
  case (executes key s e code r s' w')
  have ok: "session_ok s" "runners_below (rm_world m)" using assms(2) executes(3) unfolding repl_inv_def by blast+
  note mv = execute_moves[OF executes(5) ok unused_when_fresh[OF assms(2) executes(4)]]
  show ?thesis unfolding executes(2) using repl_inv_set_session[OF assms(2) executes(3) mv(1,2)] mv(3) by simp
next
  case (clears key s e r s' w')
  have ok: "session_ok s" "runners_below (rm_world m)" using assms(2) clears(3) unfolding repl_inv_def by blast+
  note mv = clear_moves[OF clears(4) ok]
  show ?thesis unfolding clears(2) using repl_inv_set_session[OF assms(2) clears(3) mv(1,2)] mv(3) by simp
next
  case (close_begins c order)
  then show ?thesis using repl_inv_begin[OF assms(2) close_begins(4), of c] by simp
next
  case (close_at_once c order err)
  then show ?thesis using repl_inv_begin[OF assms(2) close_at_once(4), of c] by simp
next
  case (close_continues e c)
  then show ?thesis using repl_inv_next[OF assms(2)] by blast
next
  case (close_returns c result err)
  then show ?thesis using assms(2) by (cases "result = []") (auto simp: repl_close_finish_def repl_inv_def Let_def split: if_splits)
qed

lemma repl_inv_path:
  assumes "repl_path l requestMax responseMax tempRoot m evs m'" "repl_inv l m"
  shows "repl_inv l m'"
  using assms by (induction rule: repl_path.induct) (auto intro: repl_inv_step)

subsection \<open>Nothing leaks, and a closed manager holds nothing\<close>

definition repl_reachable :: "repl_Limits \<Rightarrow> nat \<Rightarrow> nat \<Rightarrow> string \<Rightarrow> repl_manager \<Rightarrow> bool" where
  "repl_reachable l requestMax responseMax tempRoot m \<longleftrightarrow>
     0 \<le> MaxSessions l \<and> (\<exists>evs. repl_path l requestMax responseMax tempRoot repl_newManager evs m)"

lemma repl_reachable_inv: "repl_reachable l requestMax responseMax tempRoot m \<Longrightarrow> repl_inv l m"
  by (auto simp: repl_reachable_def intro: repl_inv_path repl_inv_new)


lemma update_same: "map_of al k = Some v \<Longrightarrow> AList.update k v al = al"
  by (induction al) (auto split: if_splits)

lemma set_session_same: "map_of (rm_owners m) k = Some s \<Longrightarrow> set_session k s (rm_world m) m = m"
  by (simp add: set_session_def update_same)

lemma closed_empty:
  assumes "repl_inv l m" "rm_closed m"
  shows "w_dirs (rm_world m) = {}" "w_creators (rm_world m) = {}" "w_runners (rm_world m) = {}"
proof -
  have "held_dirs s = {} \<and> held_creators s = {} \<and> held_runners s = {}" if "map_of (rm_owners m) k = Some s" for k s
  proof -
    have "os_closed s" "session_ok s" using that assms by (simp_all add: repl_inv_def)
    then show ?thesis by (auto simp: session_ok_def held_dirs_def held_creators_def held_runners_def venv_dirs_def venv_creators_def)
  qed
  then show "w_dirs (rm_world m) = {}" "w_creators (rm_world m) = {}" "w_runners (rm_world m) = {}"
    using dirs.accounted_empty[OF repl_inv_accounted(1)[OF assms(1)]] creators.accounted_empty[OF repl_inv_accounted(2)[OF assms(1)]]
      runners.accounted_empty[OF repl_inv_accounted(3)[OF assms(1)]] by simp_all
qed

lemma closed_step:
  assumes step: "repl_step l requestMax responseMax tempRoot m ev m'" and inv: "repl_inv l m" and cl: "rm_closed m"
  shows "rm_world m' = rm_world m \<and> rm_owners m' = rm_owners m \<and> rm_closed m' \<and>
    (\<forall>key r. ev \<noteq> Executed key (Inr r)) \<and> (\<forall>key c. ev \<noteq> Cleared key (Inr c))"
proof -
  have closed: "os_closed s" if "map_of (rm_owners m) k = Some s" for k s using that inv cl by (simp add: repl_inv_def)
  from step show ?thesis
  proof (cases rule: repl_step.cases)
    case (looks_up ctxErr key root err)
    then show ?thesis using cl by (auto simp: ownerForExecute_def)
  next
    case (executes key s e code r s' w')
    have "s' = s \<and> w' = rm_world m \<and> (\<exists>err. r = Inl err)"
      using executes(5) closed[OF executes(3)] by (auto simp: repl_execute_def split: option.splits)
    then show ?thesis using executes(1-3) set_session_same[OF executes(3)] cl by auto
  next
    case (clears key s e r s' w')
    have "s' = s \<and> w' = rm_world m \<and> (\<exists>err. r = Inl err)"
      using clears(4) closed[OF clears(3)] by (auto simp: repl_clear_def split: option.splits if_splits)
    then show ?thesis using clears(1-3) set_session_same[OF clears(3)] cl by auto
  next
    case (close_begins c order)
    then show ?thesis using cl by (simp add: repl_close_begin_def)
  next
    case (close_at_once c order err)
    then show ?thesis using cl by (simp add: repl_close_begin_def)
  next
    case (close_continues e c)
    have "rm_world (repl_close_next e c m) = rm_world m \<and> rm_owners (repl_close_next e c m) = rm_owners m \<and> rm_closed (repl_close_next e c m)"
    proof (cases "\<exists>k ks result s. rm_closers m c = Some (k # ks, result) \<and> map_of (rm_owners m) k = Some s")
      case True
      then obtain k ks result s where k: "rm_closers m c = Some (k # ks, result)" "map_of (rm_owners m) k = Some s" by blast
      obtain err s' w' where x: "closeSession e s (rm_world m) = (err, s', w')" by (metis prod.exhaust)
      have "s' = s \<and> w' = rm_world m" using x closed[OF k(2)] by (auto simp: closeSession_def split: option.splits)
      then show ?thesis using k x set_session_same[OF k(2)] cl by (simp add: repl_close_next_def)
    next
      case False
      then have "repl_close_next e c m = m" by (auto simp: repl_close_next_def split: option.splits list.splits prod.splits)
      then show ?thesis using cl by simp
    qed
    then show ?thesis using close_continues by simp
  next
    case (close_returns c result err)
    then show ?thesis using cl by (auto simp: repl_close_finish_def Let_def split: if_splits)
  qed
qed

lemma closed_path:
  assumes "repl_path l requestMax responseMax tempRoot m evs m'" "repl_inv l m" "rm_closed m"
  shows "rm_world m' = rm_world m \<and> rm_owners m' = rm_owners m \<and> rm_closed m' \<and>
    (\<forall>key r. Executed key (Inr r) \<notin> set evs) \<and> (\<forall>key c. Cleared key (Inr c) \<notin> set evs)"
  using assms
proof (induction rule: repl_path.induct)
  case (stays m)
  then show ?case by simp
next
  case (steps m evs m' ev m'')
  have "repl_inv l m'" by (rule repl_inv_path[OF steps.hyps(1) steps.prems(1)])
  from closed_step[OF steps.hyps(2) this] steps.IH[OF steps.prems] show ?case by auto
qed

text \<open>Close returns nil only once the manager is closed: at once when it was, or after every session was closed without an error.\<close>

lemma nil_return_closed:
  assumes "repl_step l requestMax responseMax tempRoot m0 (CloseReturns []) m"
  shows "rm_closed m"
  using assms
proof (cases rule: repl_step.cases)
  case (close_at_once c order)
  then show ?thesis by (auto simp: repl_close_begin_def split: if_splits)
next
  case (close_returns c result)
  then show ?thesis by (auto simp: repl_close_finish_def Let_def split: if_splits)
qed

text \<open>
  C16: Once a call of Close has returned nil, the manager is closed and nothing of it is left: no environment directory, no creator
  process and no runner process, of any owner. And nothing comes back: whatever happens later, to an execute that had
  looked its session up before or in another Close, changes no session and makes no resource, and no execute or
  clear succeeds with a result.
\<close>

theorem repl_closed_clean:
  assumes "repl_reachable l requestMax responseMax tempRoot m0" "repl_step l requestMax responseMax tempRoot m0 (CloseReturns []) m"
  shows "rm_closed m \<and> w_dirs (rm_world m) = {} \<and> w_creators (rm_world m) = {} \<and> w_runners (rm_world m) = {} \<and>
    (\<forall>evs m'. repl_path l requestMax responseMax tempRoot m evs m' \<longrightarrow>
       rm_world m' = rm_world m \<and> rm_owners m' = rm_owners m \<and> rm_closed m' \<and>
       (\<forall>key r. Executed key (Inr r) \<notin> set evs) \<and> (\<forall>key c. Cleared key (Inr c) \<notin> set evs))"
proof -
  have inv: "repl_inv l m" using repl_inv_step[OF assms(2) repl_reachable_inv[OF assms(1)]] .
  have closed: "rm_closed m" by (rule nil_return_closed[OF assms(2)])
  show ?thesis using closed closed_empty[OF inv closed] closed_path[OF _ inv closed] by blast
qed

subsection \<open>Continuity of the interpreter\<close>

definition runner_of :: "ownerKey \<Rightarrow> repl_manager \<Rightarrow> nat option" where
  "runner_of key m = (case map_of (rm_owners m) key of None \<Rightarrow> None | Some s \<Rightarrow> map_option rp_ident (os_runner s))"

text \<open>The events that tell an owner of a reset: a result that reports it, and every successful clear.\<close>

definition reports :: "ownerKey \<Rightarrow> repl_event \<Rightarrow> bool" where
  "reports key ev = (case ev of
      Executed k (Inr r) \<Rightarrow> k = key \<and> er_StateReset r
    | Cleared k (Inr c) \<Rightarrow> k = key
    | _ \<Rightarrow> False)"

text \<open>
  A session that had runner \<open>i\<close> and generation \<open>g\<close>, at most \<open>n\<close> steps later: it is quarantined, or nothing changed, or the
  generation has moved on and the reset is either still to be reported or was.
\<close>

definition tracks :: "nat \<Rightarrow> 64 word \<Rightarrow> nat \<Rightarrow> bool \<Rightarrow> ownerSession \<Rightarrow> world \<Rightarrow> bool" where
  "tracks i g n rep s w \<longleftrightarrow> i < w_next w \<and>
     (os_quarantined s \<or>
      (map_option rp_ident (os_runner s) = Some i \<and> os_generation s = g \<and> os_pendingReason s = []) \<or>
      (map_option rp_ident (os_runner s) \<noteq> Some i \<and> (os_pendingReason s \<noteq> [] \<or> rep) \<and>
       (\<exists>j. 1 \<le> j \<and> j \<le> n \<and> os_generation s = g + of_nat j)))"

lemma tracks_same: "tracks i g n rep s w \<Longrightarrow> same_run s s' \<Longrightarrow> w_next w \<le> w_next w' \<Longrightarrow> tracks i g n rep s' w'"
  using same_runD[of s s'] by (auto simp: tracks_def)

lemma tracks_mono: "tracks i g n rep s w \<Longrightarrow> n \<le> n' \<Longrightarrow> (rep \<Longrightarrow> rep') \<Longrightarrow> w_next w \<le> w_next w' \<Longrightarrow> tracks i g n' rep' s w'"
  unfolding tracks_def by (meson le_trans less_le_trans)

lemma tracks_next_generation:
  assumes "tracks i g n rep s w" "\<not> os_quarantined s"
  shows "\<exists>j. 1 \<le> j \<and> j \<le> Suc n \<and> os_generation s + 1 = g + of_nat j"
proof -
  consider "os_generation s = g" | j where "1 \<le> j" "j \<le> n" "os_generation s = g + of_nat j"
    using assms by (auto simp: tracks_def)
  then show ?thesis
  proof cases
    case 1
    then show ?thesis by (intro exI[of _ 1]) simp
  next
    case (2 j)
    then show ?thesis by (intro exI[of _ "Suc j"]) (simp add: algebra_simps)
  qed
qed

lemma removeVenv_next: "removeVenv e v w = (err, v', w') \<Longrightarrow> w_next w' = w_next w"
  by (auto simp: removeVenv_def vc_finish_def Let_def split: option.splits if_splits)

lemma createVenv_next:
  assumes "createVenv tempRoot e w = (v, err, w')"
  shows "w_next w' = w_next w"
proof -
  have cl: "w_next w2 = w_next w1" if "venv_cleanup r res x w1 = (y, er, w2)" for r res x w1 y er w2
    using that by (auto simp: venv_cleanup_def split: prod.splits if_splits dest: removeVenv_next)
  have cr: "w_next w2 = w_next w1" if "venv_creator e x w1 = (y, z, w2)" for x w1 y z w2
    using that by (auto simp: venv_creator_def vc_finish_def Let_def split: if_splits)
  show ?thesis using assms by (auto simp: createVenv_def Let_def split: option.splits if_splits prod.splits list.splits dest!: cl cr)
qed

lemma drop_same:
  assumes "(if os_venvInvalid s then drop_invalid_venv e s w else ([], s, w)) = (err, s', w')"
  shows "same_run s s'" "w_next w' = w_next w"
  using assms removeVenv_next[of e "os_venv s" w] by (auto simp: drop_invalid_venv_def same_run_def split: if_splits prod.splits)

lemma ensure_venv_same:
  assumes "ensure_venv tempRoot e s w = (err, s', w')"
  shows "same_run s s'" "w_next w' = w_next w"
  using assms by (auto simp: ensure_venv_def same_run_def split: if_splits prod.splits option.splits dest!: createVenv_next removeVenv_next)

lemma serve_tracks:
  assumes sv: "serve l requestMax responseMax code e startedNow p s w = (r, s', w')" and tr: "tracks i g n rep s w"
    and st: "os_runner s = Some p" "startedNow \<Longrightarrow> rp_ident p \<noteq> i" "\<not> os_quarantined s"
  shows "tracks i g (Suc n) (rep \<or> (\<exists>x. r = Inr x \<and> er_StateReset x)) s' w'"
proof -
  obtain outcome may q where x: "runner_execute l requestMax responseMax code (ex_exec e) p = ((outcome, may), q)" by (metis prod.exhaust)
  define s1 where "s1 = s\<lparr>os_runner := Some q\<rparr>"
  have id: "rp_ident q = rp_ident p" using runner_execute_ident[OF x] .
  have tr1: "tracks i g n rep s1 w" using tr st(1) id by (simp add: tracks_def s1_def)
  show ?thesis
  proof (cases outcome)
    case (Inr resp)
    then have "r = Inr (execute_result resp (os_generation s) (os_pendingReason s \<noteq> []) (os_pendingReason s))" "s' = s1\<lparr>os_pendingReason := []\<rparr>" "w' = w"
      using sv by (auto simp: serve_def x Let_def s1_def)
    then show ?thesis using tr1 st(3) by (auto simp: tracks_def s1_def execute_result_def intro: le_SucI)
  next
    case (Inl err)
    obtain c t w1 where c: "resetRunner (may \<or> \<not> startedNow) (reset_reason err) None (ex_terminate e) s1 w = (c, t, w1)" by (metis prod.exhaust)
    have res: "s' = t" "w' = w1" using sv by (auto simp: serve_def x Inl Let_def s1_def[symmetric] c split: if_splits)
    have reason: "validResetReason (reset_reason err) \<and> reset_reason err \<noteq> []" by (auto simp: reset_reason_def validResetReason_def)
    from c have "tracks i g (Suc n) rep t w1"
    proof (cases rule: resetRunner_cases)
      case none
      then show ?thesis by (simp add: s1_def)
    next
      case fails
      then show ?thesis using tr1 by (auto simp: tracks_def)
    next
      case (drops p')
      then have "rp_ident p \<noteq> i" using st(2) by simp
      then show ?thesis using tr1 drops st(3) id by (auto simp: tracks_def s1_def intro: le_SucI)
    next
      case (bumps p')
      have "\<exists>j. 1 \<le> j \<and> j \<le> Suc n \<and> os_generation s + 1 = g + of_nat j" using tracks_next_generation[OF tr st(3)] .
      then show ?thesis using tr1 bumps reason by (auto simp: tracks_def s1_def)
    qed
    then show ?thesis unfolding res by (rule tracks_mono) auto
  qed
qed

lemma ensure_runner_tracks:
  assumes en: "ensure_runner e s w = (r, s', w')" and tr: "tracks i g n rep s w" and open': "\<not> os_quarantined s"
  shows "tracks i g n rep s' w'"
    "\<And>startedNow p. r = Inr (startedNow, p) \<Longrightarrow> os_runner s' = Some p \<and> \<not> os_quarantined s' \<and> (startedNow \<longrightarrow> rp_ident p \<noteq> i)"
proof -
  have "tracks i g n rep s' w' \<and>
      (\<forall>startedNow p. r = Inr (startedNow, p) \<longrightarrow> os_runner s' = Some p \<and> \<not> os_quarantined s' \<and> (startedNow \<longrightarrow> rp_ident p \<noteq> i))"
    using en
  proof (cases rule: ensure_runner_cases)
    case (kept p)
    then show ?thesis using tr open' by simp
  next
    case (started p)
    then show ?thesis using tr open' by (auto simp: tracks_def)
  next
    case (stuck p err)
    then show ?thesis using tr by (auto simp: tracks_def)
  next
    case (absent err)
    then have "w_next w \<le> w_next w'" using removeVenv_next by fastforce
    then show ?thesis using tracks_same[OF tr absent(3)] absent(2) by simp
  qed
  then show "tracks i g n rep s' w'"
    "\<And>startedNow p. r = Inr (startedNow, p) \<Longrightarrow> os_runner s' = Some p \<and> \<not> os_quarantined s' \<and> (startedNow \<longrightarrow> rp_ident p \<noteq> i)" by blast+
qed

text \<open>What a success says of the session it leaves.\<close>

lemma serve_success:
  assumes "serve l requestMax responseMax code e startedNow p s w = (Inr x, s', w')"
  shows "er_Generation x = os_generation s" "er_StateReset x \<longleftrightarrow> os_pendingReason s \<noteq> []" "map_option rp_ident (os_runner s') = Some (rp_ident p)"
    "os_generation s' = os_generation s" "os_pendingReason s' = []" "os_quarantined s' = os_quarantined s" "w' = w"
proof -
  obtain outcome may q where y: "runner_execute l requestMax responseMax code (ex_exec e) p = ((outcome, may), q)" by (metis prod.exhaust)
  show "er_Generation x = os_generation s" "er_StateReset x \<longleftrightarrow> os_pendingReason s \<noteq> []" "map_option rp_ident (os_runner s') = Some (rp_ident p)"
    "os_generation s' = os_generation s" "os_pendingReason s' = []" "os_quarantined s' = os_quarantined s" "w' = w"
    using assms runner_execute_ident[OF y] by (auto simp: serve_def y Let_def execute_result_def split: sum.splits prod.splits if_splits)
qed

lemma execute_tracks:
  assumes ex: "repl_execute l requestMax responseMax tempRoot code e s w = (r, s', w')" and tr: "tracks i g n rep s w"
  shows "tracks i g (Suc n) (rep \<or> (\<exists>x. r = Inr x \<and> er_StateReset x)) s' w'"
    "\<And>x. r = Inr x \<Longrightarrow>
       (er_Generation x = g \<and> \<not> er_StateReset x \<and> map_option rp_ident (os_runner s') = Some i) \<or>
       ((er_StateReset x \<or> rep) \<and> map_option rp_ident (os_runner s') \<noteq> Some i \<and> (\<exists>j. 1 \<le> j \<and> j \<le> n \<and> er_Generation x = g + of_nat j))"
proof -
  have "tracks i g (Suc n) (rep \<or> (\<exists>x. r = Inr x \<and> er_StateReset x)) s' w' \<and>
    (\<forall>x. r = Inr x \<longrightarrow>
       (er_Generation x = g \<and> \<not> er_StateReset x \<and> map_option rp_ident (os_runner s') = Some i) \<or>
       ((er_StateReset x \<or> rep) \<and> map_option rp_ident (os_runner s') \<noteq> Some i \<and> (\<exists>j. 1 \<le> j \<and> j \<le> n \<and> er_Generation x = g + of_nat j)))"
    using ex
  proof (cases rule: repl_execute_stages)
    case (refused err)
    then show ?thesis using tracks_mono[OF tr, of "Suc n" rep w] by simp
  next
    case (venv_only err s1 w1 err1)
    have tr1: "tracks i g n rep s1 w1" using tracks_same[OF tr] drop_same[OF venv_only(4)] by simp
    from venv_only(5) have "tracks i g n rep s' w'" using tr1 tracks_same[OF tr1] ensure_venv_same by (metis order_refl)
    then show ?thesis using tracks_mono[of i g n rep s' w' "Suc n" rep w'] venv_only(3) by simp
  next
    case (runs s1 w1 err1 s2 w2 err2 x s3 w3)
    have "tracks i g n rep s1 w1" using tracks_same[OF tr] drop_same[OF runs(3)] by simp
    then have tr2: "tracks i g n rep s2 w2" using tracks_same ensure_venv_same[OF runs(4)] by simp
    have q2: "\<not> os_quarantined s2" using runs(2) drop_same(1)[OF runs(3)] ensure_venv_same(1)[OF runs(4)] same_runD by metis
    note en = ensure_runner_tracks[OF runs(5) tr2 q2]
    from runs(6) show ?thesis
    proof
      assume "\<exists>err. x = Inl err \<and> r = Inl err \<and> s' = s3 \<and> w' = w3"
      then show ?thesis using tracks_mono[OF en(1), of "Suc n" rep w3] by auto
    next
      assume "\<exists>startedNow p. x = Inr (startedNow, p) \<and> serve l requestMax responseMax code e startedNow p s3 w3 = (r, s', w')"
      then obtain startedNow p where sv: "x = Inr (startedNow, p)" "serve l requestMax responseMax code e startedNow p s3 w3 = (r, s', w')" by blast
      note s3 = en(2)[OF sv(1)]
      have "tracks i g (Suc n) (rep \<or> (\<exists>x. r = Inr x \<and> er_StateReset x)) s' w'"
        using serve_tracks[OF sv(2) en(1)] s3 by blast
      moreover have "(er_Generation y = g \<and> \<not> er_StateReset y \<and> map_option rp_ident (os_runner s') = Some i) \<or>
          ((er_StateReset y \<or> rep) \<and> map_option rp_ident (os_runner s') \<noteq> Some i \<and> (\<exists>j. 1 \<le> j \<and> j \<le> n \<and> er_Generation y = g + of_nat j))"
        if "r = Inr y" for y
        using serve_success[OF sv(2)[unfolded that]] en(1) s3 unfolding tracks_def by auto
      ultimately show ?thesis by blast
    qed
  qed
  then show "tracks i g (Suc n) (rep \<or> (\<exists>x. r = Inr x \<and> er_StateReset x)) s' w'"
    "\<And>x. r = Inr x \<Longrightarrow>
       (er_Generation x = g \<and> \<not> er_StateReset x \<and> map_option rp_ident (os_runner s') = Some i) \<or>
       ((er_StateReset x \<or> rep) \<and> map_option rp_ident (os_runner s') \<noteq> Some i \<and> (\<exists>j. 1 \<le> j \<and> j \<le> n \<and> er_Generation x = g + of_nat j))" by blast+
qed

lemma clear_tracks:
  assumes cl: "repl_clear e s w = (r, s', w')" and tr: "tracks i g n rep s w"
  shows "tracks i g (Suc n) (rep \<or> (\<exists>c. r = Inr c)) s' w'"
proof (cases "\<exists>err. r = Inl err \<and> s' = s \<and> w' = w")
  case True
  then show ?thesis using tracks_mono[OF tr, of "Suc n" _ w] by auto
next
  case False
  define s1 where "s1 = s\<lparr>os_pendingReason := []\<rparr>"
  obtain err t w1 where x: "resetRunner True ''cleared'' None (ca_terminate e) s1 w = (err, t, w1)" by (metis prod.exhaust)
  have open': "\<not> os_quarantined s" using cl False by (auto simp: repl_clear_def split: option.splits if_splits)
  have res: "(os_runner s = None \<and> (\<exists>c. r = Inr c) \<and> s' = s1 \<and> w' = w) \<or>
      (os_runner s \<noteq> None \<and> err \<noteq> [] \<and> s' = t \<and> w' = w1) \<or>
      (os_runner s \<noteq> None \<and> err = [] \<and> (\<exists>c. r = Inr c) \<and> s' = t\<lparr>os_pendingReason := []\<rparr> \<and> w' = w1)"
    using cl False unfolding repl_clear_def s1_def[symmetric] Let_def x
    by (auto simp: s1_def split: option.splits if_splits)
  then show ?thesis
  proof (elim disjE conjE)
    assume "os_runner s = None" "\<exists>c. r = Inr c" "s' = s1" "w' = w"
    then show ?thesis using tr open' by (auto simp: tracks_def s1_def intro: le_SucI)
  next
    assume a: "os_runner s \<noteq> None" "err \<noteq> []" "s' = t" "w' = w1"
    from x show ?thesis by (cases rule: resetRunner_cases) (use a tr in \<open>auto simp: tracks_def s1_def\<close>)
  next
    assume a: "os_runner s \<noteq> None" "err = []" "\<exists>c. r = Inr c" "s' = t\<lparr>os_pendingReason := []\<rparr>" "w' = w1"
    have "\<exists>j. 1 \<le> j \<and> j \<le> Suc n \<and> os_generation s + 1 = g + of_nat j" using tracks_next_generation[OF tr open'] .
    moreover have "os_runner t = None \<and> os_generation t = os_generation s + 1 \<and> w_next w1 = w_next w"
      using x by (cases rule: resetRunner_cases) (use a in \<open>auto simp: s1_def\<close>)
    ultimately show ?thesis using a tr by (auto simp: tracks_def)
  qed
qed

definition tracks_owner :: "ownerKey \<Rightarrow> nat \<Rightarrow> 64 word \<Rightarrow> nat \<Rightarrow> bool \<Rightarrow> repl_manager \<Rightarrow> bool" where
  "tracks_owner key i g n rep m \<longleftrightarrow> (\<exists>s. map_of (rm_owners m) key = Some s \<and> tracks i g n rep s (rm_world m))"

lemma tracks_owner_other:
  assumes "tracks_owner key i g n rep m" "k \<noteq> key" "w_next (rm_world m) \<le> w_next w'"
  shows "tracks_owner key i g (Suc n) rep (set_session k s' w' m)"
  using assms tracks_mono[of i g n rep _ "rm_world m" "Suc n" rep w'] by (auto simp: tracks_owner_def set_session_def update_conv' simp del: fun_upd_apply simp add: fun_upd_other)

lemma step_closing: "repl_step l requestMax responseMax tempRoot m ev m' \<Longrightarrow> rm_closing m \<Longrightarrow> rm_closing m'"
  by (cases rule: repl_step.cases)
    (auto simp: ownerForExecute_def set_session_def repl_close_begin_def repl_close_next_def repl_close_finish_def Let_def split: if_splits option.splits list.splits prod.splits)

lemma tracks_step:
  assumes step: "repl_step l requestMax responseMax tempRoot m ev m'" and inv: "repl_inv l m"
    and tr: "tracks_owner key i g n rep m" and cl: "\<not> rm_closing m'"
  shows "tracks_owner key i g (Suc n) (rep \<or> reports key ev) m'"
proof -
  have weaken: "tracks_owner key i g (Suc n) (rep \<or> rep') m" for rep'
    using tr tracks_mono[of i g n rep _ "rm_world m" "Suc n" "rep \<or> rep'" "rm_world m"] by (auto simp: tracks_owner_def)
  have more_reports: "tracks_owner key i g (Suc n) (rep \<or> rep') m1" if "tracks_owner key i g (Suc n) rep m1" for rep' m1
    using that tracks_mono[of i g "Suc n" rep _ "rm_world m1" "Suc n" "rep \<or> rep'" "rm_world m1"] by (auto simp: tracks_owner_def)
  have calm: "\<not> rm_closing m" "\<not> rm_closed m" "\<And>c. rm_closers m c = None"
  proof -
    show open': "\<not> rm_closing m" using step_closing[OF step] cl by blast
    then show "\<not> rm_closed m" using inv by (auto simp: repl_inv_def)
    show "rm_closers m c = None" for c using open' inv by (cases "rm_closers m c") (auto simp: repl_inv_def)
  qed
  have ok: "session_ok s" "runners_below (rm_world m)" if "map_of (rm_owners m) k = Some s" for k s using that inv by (simp_all add: repl_inv_def)
  from step show ?thesis
  proof (cases rule: repl_step.cases)
    case (looks_up ctxErr k root err)
    have "m' = m \<or> (map_of (rm_owners m) k = None \<and> (\<exists>s. rm_owners m' = (k, s) # rm_owners m) \<and> rm_world m' = rm_world m)"
      using looks_up(2) by (auto simp: ownerForExecute_def split: if_splits option.splits)
    then show ?thesis using weaken[of "reports key ev"] by (auto simp: tracks_owner_def)
  next
    case (executes k s e code r s' w')
    show ?thesis
    proof (cases "k = key")
      case True
      then have "tracks i g n rep s (rm_world m)" using tr executes(3) by (auto simp: tracks_owner_def)
      from execute_tracks(1)[OF executes(5) this] have "tracks i g (Suc n) (rep \<or> (\<exists>x. r = Inr x \<and> er_StateReset x)) s' w'" .
      moreover have "reports key ev \<longleftrightarrow> (\<exists>x. r = Inr x \<and> er_StateReset x)"
        using executes(1) True by (auto simp: reports_def split: sum.splits)
      ultimately show ?thesis using executes(2) True by (simp add: tracks_owner_def set_session_def update_conv')
    next
      case False
      have "w_next (rm_world m) \<le> w_next w'"
        using execute_moves(1)[OF executes(5) ok[OF executes(3)] unused_when_fresh[OF inv executes(4)]] by (simp add: session_moves_def)
      then show ?thesis using more_reports[OF tracks_owner_other[OF tr False]] executes(2) by simp
    qed
  next
    case (clears k s e r s' w')
    show ?thesis
    proof (cases "k = key")
      case True
      then have "tracks i g n rep s (rm_world m)" using tr clears(3) by (auto simp: tracks_owner_def)
      from clear_tracks[OF clears(4) this] have "tracks i g (Suc n) (rep \<or> (\<exists>c. r = Inr c)) s' w'" .
      moreover have "reports key ev \<longleftrightarrow> (\<exists>c. r = Inr c)" using clears(1) True by (auto simp: reports_def split: sum.splits)
      ultimately show ?thesis using clears(2) True by (simp add: tracks_owner_def set_session_def update_conv')
    next
      case False
      have "w_next (rm_world m) \<le> w_next w'" using clear_moves(1)[OF clears(4) ok[OF clears(3)]] by (simp add: session_moves_def)
      then show ?thesis using more_reports[OF tracks_owner_other[OF tr False]] clears(2) by simp
    qed
  next
    case (close_begins c order)
    then show ?thesis using cl calm by (auto simp: repl_close_begin_def)
  next
    case (close_at_once c order err)
    then show ?thesis using calm by (simp add: repl_close_begin_def)
  next
    case (close_continues e c)
    then have "m' = m" using calm(3) by (simp add: repl_close_next_def)
    then show ?thesis using weaken by simp
  next
    case (close_returns c result err)
    then show ?thesis using calm(3) by simp
  qed
qed

lemma tracks_path:
  assumes "repl_path l requestMax responseMax tempRoot m evs m'" "repl_inv l m" "tracks_owner key i g 0 False m" "\<not> rm_closing m'"
  shows "tracks_owner key i g (length evs) (\<exists>ev \<in> set evs. reports key ev) m'"
  using assms
proof (induction rule: repl_path.induct)
  case (stays m)
  then show ?case by simp
next
  case (steps m evs m' ev m'')
  have "\<not> rm_closing m'" using step_closing[OF steps.hyps(2)] steps.prems(3) by blast
  then have "tracks_owner key i g (length evs) (\<exists>ev \<in> set evs. reports key ev) m'" using steps.IH steps.prems by simp
  from tracks_step[OF steps.hyps(2) repl_inv_path[OF steps.hyps(1) steps.prems(1)] this steps.prems(3)]
  show ?case by (simp add: disj_commute)
qed

lemma success_tracks:
  assumes inv: "repl_inv l m" and step: "repl_step l requestMax responseMax tempRoot m (Executed key (Inr r)) m'"
  shows "\<exists>i. runner_of key m' = Some i \<and> tracks_owner key i (er_Generation r) 0 False m'"
  using step
proof (cases rule: repl_step.cases)
  case (executes s e code s' w')
  have inv': "repl_inv l m'" using repl_inv_step[OF step inv] .
  from executes(4) show ?thesis
  proof (cases rule: repl_execute_stages)
    case (runs s1 w1 err1 s2 w2 err2 x s3 w3)
    then obtain startedNow p where sv: "x = Inr (startedNow, p)" "serve l requestMax responseMax code e startedNow p s3 w3 = (Inr r, s', w')" by auto
    note ss = serve_success[OF sv(2)]
    have own: "map_of (rm_owners m') key = Some s'" "rm_world m' = w'" unfolding executes(1) by (simp_all add: set_session_def update_conv')
    have "rp_ident p \<in> held_runners s'" using ss(3) by (auto simp: held_runners_def)
    then have "rp_ident p \<in> w_runners w'" using runners.accounted_held[OF repl_inv_accounted(3)[OF inv'] own(1)] own(2) by auto
    then have "rp_ident p < w_next w'" using inv' own(2) by (auto simp: repl_inv_def runners_below_def)
    then have "tracks (rp_ident p) (er_Generation r) 0 False s' w'" using ss by (simp add: tracks_def)
    then show ?thesis using own ss(3) by (auto simp: runner_of_def tracks_owner_def)
  qed auto
qed

text \<open>
  C10: The generation tells an owner whether its interpreter state is still there. Take two successful executes of one
  owner, with fewer than \<open>2 ^ 64\<close> steps of any kind between them and no Close begun. If they report the
  same generation, the same runner process served both and the second reports no reset, so the state the
  first left is the state the second saw. If they report different generations, different processes served them, and
  the owner has been told: the second result or one between them reports a reset, or a clear succeeded.
\<close>

theorem repl_continuity:
  assumes "repl_reachable l requestMax responseMax tempRoot m0"
    and "repl_step l requestMax responseMax tempRoot m0 (Executed key (Inr r1)) m1"
    and "repl_path l requestMax responseMax tempRoot m1 evs m2" "length evs < 2 ^ 64" "\<not> rm_closing m2"
    and "repl_step l requestMax responseMax tempRoot m2 (Executed key (Inr r2)) m3"
  shows "runner_of key m1 \<noteq> None \<and>
    (if er_Generation r2 = er_Generation r1 then runner_of key m3 = runner_of key m1 \<and> \<not> er_StateReset r2
     else runner_of key m3 \<noteq> runner_of key m1 \<and> (er_StateReset r2 \<or> (\<exists>ev \<in> set evs. reports key ev)))"
proof -
  note inv0 = repl_reachable_inv[OF assms(1)]
  have inv1: "repl_inv l m1" using repl_inv_step[OF assms(2) inv0] .
  obtain i where i: "runner_of key m1 = Some i" "tracks_owner key i (er_Generation r1) 0 False m1" using success_tracks[OF inv0 assms(2)] by blast
  obtain s where s: "map_of (rm_owners m2) key = Some s" "tracks i (er_Generation r1) (length evs) (\<exists>ev \<in> set evs. reports key ev) s (rm_world m2)"
    using tracks_path[OF assms(3) inv1 i(2) assms(5)] by (auto simp: tracks_owner_def)
  from assms(6) show ?thesis
  proof (cases rule: repl_step.cases)
    case (executes s0 e code s' w')
    have s0: "s0 = s" using executes(2) s(1) by simp
    have after: "runner_of key m3 = map_option rp_ident (os_runner s')" unfolding executes(1) by (simp add: runner_of_def set_session_def update_conv')
    have "er_Generation r1 + of_nat j \<noteq> er_Generation r1" if "1 \<le> j" "j \<le> length evs" for j
    proof -
      have "j < 2 ^ LENGTH(64)" using that assms(4) by simp
      then show ?thesis using that(1) by (simp add: word_of_nat_eq_0_iff nat_dvd_not_less)
    qed
    then show ?thesis using execute_tracks(2)[OF executes(4)[unfolded s0] s(2) refl] after i(1) by auto
  qed
qed

subsection \<open>A run\<close>

definition run_finish :: finish_env where
  "run_finish = \<lparr>fe_kill_failed = False, fe_reaped = True\<rparr>"

definition run_remove :: remove_env where
  "run_remove = \<lparr>re_finish = run_finish, re_remove_failed = False, re_gone = True\<rparr>"

definition succeeded_json :: json where
  "succeeded_json = JObj [(''succeeded'', JBool True)]"

definition ready_json :: json where
  "ready_json = JObj [(''phase'', JStr ''ready''), (''version'', JStr runnerProtocolVersion), (''pid'', JNum ''7''), (''pgid'', JNum ''7''),
     (''python'', JArr [JNum ''3'', JNum ''12''])]"

definition frame_of :: "json \<Rightarrow> bytes" where
  "frame_of v = PutUint32 (length (enc v)) @ enc v"

definition ready_status :: supervisorStatus where
  "ready_status = \<lparr>ss_Phase = ''ready'', ss_Version = runnerProtocolVersion, ss_PID = 7, ss_PGID = 7, ss_Python = [3, 12], ss_ExitCode = 0\<rparr>"

lemma frame_of_reads:
  assumes "encodable v" "depth v \<le> 2" "unique_ok False v" "list_all (\<lambda>c. byte c < 0x80) (enc v)" "enc v \<noteq> []" "length (enc v) \<le> maximum" "maximum < 2 ^ 32"
    and "into v = Some i"
  shows "fst (readFrame into maximum (frame_of v)) = Inr i"
proof -
  have "json_document (enc v) = Some v" using assms(1,2) by (intro json_document_enc) (auto simp: maxNestingDepth_def)
  then have "readFrame into maximum (PutUint32 (length (enc v)) @ enc v @ []) = (Inr i, [])"
    using utf8_valid_all_ascii[OF assms(4)] assms by (intro readFrame_body) simp_all
  then show ?thesis by (simp add: frame_of_def)
qed

lemma demo_digits: "(''7''::bytes) = nat_digits 7" "(''3''::bytes) = nat_digits 3" "(''12''::bytes) = nat_digits 12"
  by code_simp+

lemma succeeded_reads: "creation_succeeded (frame_of succeeded_json)"
proof -
  have "fst (readFrame (into_struct [''succeeded''] put_succeeded False) 128 (frame_of succeeded_json)) = Inr True"
    by (intro frame_of_reads)
      (simp_all add: succeeded_json_def marshal_string_def escape_body.simps escape_step_def escape_ascii_def html_safe_def utf8_valid_all_ascii
        set_member_def put_succeeded_def field_of_def)
  then show ?thesis by (simp add: creation_succeeded_def)
qed

lemma ready_reads: "read_status (frame_of ready_json) = Inr ready_status"
proof -
  have num: "parse_int64 ''7'' = Some 7" "parse_int64 ''3'' = Some 3" "parse_int64 ''12'' = Some 12"
    using parse_int64_lit[of 7] parse_int64_lit[of 3] parse_int64_lit[of 12] by (simp_all add: int_lit_def demo_digits int64_def MaxInt64_def)
  have fields: "field_of status_names ''phase'' = Some ''phase''" "field_of status_names ''version'' = Some ''version''"
      "field_of status_names ''pid'' = Some ''pid''" "field_of status_names ''pgid'' = Some ''pgid''" "field_of status_names ''python'' = Some ''python''"
    by (simp_all add: field_of_def status_names_def)
  have "into_struct status_names put_status zero_status ready_json = Some ready_status"
    by (simp add: ready_json_def set_member_def put_status_def zero_status_def fields num ready_status_def)
  moreover have "encodable ready_json" "unique_ok False ready_json" "depth ready_json \<le> 2"
    unfolding ready_json_def demo_digits by (auto simp: canonical_digits runnerProtocolVersion_def utf8_valid_all_ascii nat_digits_float64)
  ultimately show ?thesis unfolding read_status_def
    by (intro frame_of_reads) (simp_all add: ready_json_def runnerProtocolVersion_def marshal_string_def escape_body.simps escape_step_def escape_ascii_def html_safe_def)
qed

definition run_create :: create_env where
  "run_create = \<lparr>ce_path = Some ''/tmp/x'', ce_info0 = Some (True, False, 448), ce_ctx0 = None, ce_pipes = True, ce_started = True, ce_select = True,
     ce_status = frame_of succeeded_json, ce_cause = Canceled, ce_term_failed = False, ce_finish = run_finish, ce_info1 = Some (True, False, 448),
     ce_interpreter = Some (True, 493), ce_cleanup = run_remove\<rparr>"

definition run_venv :: virtualEnvironment where
  "run_venv = \<lparr>ve_path = ''/tmp/x'', ve_interpreter = ''/tmp/x/bin/python'', ve_finishCreation = None\<rparr>"

lemma run_created: "createVenv ''/tmp'' run_create w = (Some run_venv, [], w\<lparr>w_dirs := insert ''/tmp/x'' (w_dirs w), w_creators := w_creators w - {''/tmp/x''}\<rparr>)"
proof -
  have "Rel ''/tmp'' ''/tmp/x'' = Some ''x''" "Join2 (Join2 ''/tmp/x'' ''bin'') ''python'' = ''/tmp/x/bin/python''" by code_simp+
  then show ?thesis
    by (simp add: createVenv_def run_create_def private_directory_def venv_creator_def vc_finish_def run_finish_def succeeded_reads venv_integrity_def
        HasPrefix_def IsAbs_def run_venv_def Let_def)
qed

definition run_start :: start_env where
  "run_start = \<lparr>se_pipes = True, se_started = True, se_ctx = None, se_select = True, se_cause = Canceled, se_ready = frame_of ready_json,
     se_late = False, se_terminate = None\<rparr>"

lemma run_started: "startRunner run_start ident = (Some \<lparr>rp_ident = ident, rp_pgid = 7, rp_requestID = 0\<rparr>, [])"
  by (simp add: startRunner_def run_start_def classifyReadiness_def ready_reads readinessHasAnchoredGroup_def group_of_def compatible_def ready_status_def Let_def)

lemma run_pipes: "se_pipes run_start" "se_started run_start"
  by (simp_all add: run_start_def)

definition run_response :: "nat \<Rightarrow> runnerResponse" where
  "run_response i = py_response wide_limits i [] [] (Evaluated ''1'')"

definition run_exec :: "runnerProcess \<Rightarrow> exec_env" where
  "run_exec p = \<lparr>ee_exited0 = False, ee_ctx0 = False,
     ee_write = Wrote (length (the (encodeFrame (request_json (runner_request (p\<lparr>rp_requestID := rp_requestID p + 1\<rparr>) ''1'')) 512))) False,
     ee_ctx1 = False, ee_response = Received (the (py_write_frame 584 (run_response (unat (rp_requestID p + 1))))), ee_exited1 = False,
     ee_ctx2 = False, ee_ended = False, ee_cause = Canceled\<rparr>"

lemma run_served:
  "runner_execute wide_limits 512 584 ''1'' (run_exec p) p =
     ((Inr (run_response (unat (rp_requestID p + 1))), True), p\<lparr>rp_requestID := rp_requestID p + 1\<rparr>)"
proof -
  let ?i = "unat (rp_requestID p + 1)"
  have valid: "validRunnerResponse wide_limits ?i (run_response ?i)"
    by (simp add: run_response_def py_response_def wide_limits_def py_bounded_def bw_result_def new_BoundedWriter_def validRunnerResponse_def field_ok_def
        empty_text_def zero_text_def len_def utf8_valid_all_ascii Let_def)
  have bound: "512 + 6 * (2 * repl_MaxOutputBytesPerStream wide_limits + repl_MaxResultBytes wide_limits + MaxExceptionBytes wide_limits) \<le> int 584"
    by (simp add: wide_limits_def)
  have "?i < 2 ^ 64" using unsigned_less[where 'a = nat, of "rp_requestID p + 1"] by simp
  then obtain frame where fr: "py_write_frame 584 (run_response ?i) = Some frame" "\<forall>after. readFrame response_into 584 (frame @ after) = (Inr (run_response ?i), after)"
    using response_frame_reads[OF valid _ _ bound] by auto
  then have rd: "fst (readFrame response_into 584 frame) = Inr (run_response ?i)" using fr(2)[rule_format, of "[]"] by simp
  obtain sent where sent: "encodeFrame (request_json (runner_request (p\<lparr>rp_requestID := rp_requestID p + 1\<rparr>) ''1'')) 512 = Some sent"
    using length_request[of "p\<lparr>rp_requestID := rp_requestID p + 1\<rparr>" "''1''"] by (simp add: encodeFrame_def Let_def request_json_def)
  show ?thesis using sent rd valid fr(1)
    by (simp add: runner_execute_def Let_def run_exec_def await_response_def rc_commit_def newRaceCoordinator_def)
qed

definition run_env :: "runnerProcess \<Rightarrow> execute_env" where
  "run_env p = \<lparr>ex_gate = None, ex_life = False, ex_remove0 = run_remove, ex_ctx0 = None, ex_create = run_create, ex_ctx1 = None, ex_remove1 = run_remove,
     ex_start = run_start, ex_remove2 = run_remove, ex_exec = run_exec p, ex_terminate = None, ex_caller = False\<rparr>"

definition run_process :: "64 word \<Rightarrow> runnerProcess" where
  "run_process k = \<lparr>rp_ident = 0, rp_pgid = 7, rp_requestID = k\<rparr>"

definition run_session :: "64 word \<Rightarrow> ownerSession" where
  "run_session k = (newOwnerSession ''/w'')\<lparr>os_venv := Some run_venv, os_runner := Some (run_process k)\<rparr>"

definition run_world :: world where
  "run_world = \<lparr>w_dirs = {''/tmp/x''}, w_creators = {}, w_runners = {0}, w_next = 1\<rparr>"

definition run_result :: "nat \<Rightarrow> ExecuteResult" where
  "run_result i = execute_result (run_response i) 0 False []"

lemma run_first:
  "repl_execute wide_limits 512 584 ''/tmp'' ''1'' (run_env (run_process 0)) (newOwnerSession ''/w'') (rm_world repl_newManager) =
     (Inr (run_result 1), run_session 1, run_world)"
proof -
  have served: "runner_execute wide_limits 512 584 ''1'' (run_exec (run_process 0)) (run_process 0) = ((Inr (run_response 1), True), run_process 1)"
    using run_served[of "run_process 0"] by (simp add: run_process_def)
  show ?thesis
    by (simp add: repl_execute_def run_env_def newOwnerSession_def ensure_venv_def run_created ensure_runner_def run_started start_world_def run_pipes Let_def
        serve_def served run_process_def[symmetric] repl_newManager_def run_result_def run_session_def run_world_def)
qed

lemma run_second:
  "repl_execute wide_limits 512 584 ''/tmp'' ''1'' ((run_env (run_process 1))\<lparr>ex_create := run_create\<lparr>ce_path := None\<rparr>\<rparr>) (run_session 1) run_world =
     (Inr (run_result 2), run_session 2, run_world)"
proof -
  have served: "runner_execute wide_limits 512 584 ''1'' (run_exec (run_process 1)) (run_process 1) = ((Inr (run_response 2), True), run_process 2)"
    using run_served[of "run_process 1"] by (simp add: run_process_def)
  show ?thesis
    by (simp add: repl_execute_def run_env_def run_session_def newOwnerSession_def ensure_venv_def ensure_runner_def Let_def serve_def served run_result_def)
qed

definition run_key :: ownerKey where
  "run_key = (''s'', ''w'')"

definition run_manager :: "64 word option \<Rightarrow> repl_manager" where
  "run_manager k = repl_newManager\<lparr>rm_owners := [(run_key, case k of None \<Rightarrow> newOwnerSession ''/w'' | Some k \<Rightarrow> run_session k)],
     rm_world := case k of None \<Rightarrow> rm_world repl_newManager | Some k \<Rightarrow> run_world\<rparr>"

lemma run_steps:
  "repl_step wide_limits 512 584 ''/tmp'' repl_newManager (LookedUp run_key []) (run_manager None)"
  "repl_step wide_limits 512 584 ''/tmp'' (run_manager None) (Executed run_key (Inr (run_result 1))) (run_manager (Some 1))"
  "repl_step wide_limits 512 584 ''/tmp'' (run_manager (Some 1)) (Executed run_key (Inr (run_result 2))) (run_manager (Some 2))"
proof -
  show "repl_step wide_limits 512 584 ''/tmp'' repl_newManager (LookedUp run_key []) (run_manager None)"
    by (rule repl_step.looks_up[of _ None _ "''/w''"])
      (simp add: ownerForExecute_def repl_newManager_def run_manager_def len_def wide_limits_def)
  have own: "map_of (rm_owners (run_manager None)) run_key = Some (newOwnerSession ''/w'')" and w: "rm_world (run_manager None) = rm_world repl_newManager"
    by (simp_all add: run_manager_def)
  have fresh: "fresh_directory (ex_create (run_env (run_process 0))) (rm_world (run_manager None))"
    by (simp add: w fresh_directory_def run_env_def run_create_def repl_newManager_def)
  have "repl_step wide_limits 512 584 ''/tmp'' (run_manager None) (Executed run_key (Inr (run_result 1))) (set_session run_key (run_session 1) run_world (run_manager None))"
    by (rule repl_step.executes[OF own fresh run_first[folded w]])
  then show "repl_step wide_limits 512 584 ''/tmp'' (run_manager None) (Executed run_key (Inr (run_result 1))) (run_manager (Some 1))"
    by (simp add: run_manager_def set_session_def)
  have "repl_step wide_limits 512 584 ''/tmp'' (run_manager (Some 1)) (Executed run_key (Inr (run_result 2))) (set_session run_key (run_session 2) run_world (run_manager (Some 1)))"
    by (rule repl_step.executes[where s = "run_session 1" and e = "(run_env (run_process 1))\<lparr>ex_create := run_create\<lparr>ce_path := None\<rparr>\<rparr>" and code = "''1''"])
      (simp_all add: run_manager_def fresh_directory_def run_second)
  then show "repl_step wide_limits 512 584 ''/tmp'' (run_manager (Some 1)) (Executed run_key (Inr (run_result 2))) (run_manager (Some 2))"
    by (simp add: run_manager_def set_session_def)
qed

lemma run_reachable: "repl_reachable wide_limits 512 584 ''/tmp'' (run_manager None)"
proof -
  have "repl_path wide_limits 512 584 ''/tmp'' repl_newManager ([] @ [LookedUp run_key []]) (run_manager None)"
    by (rule repl_path.steps[OF repl_path.stays run_steps(1)])
  then show ?thesis unfolding repl_reachable_def by (auto simp: wide_limits_def)
qed

theorem repl_continuity_witness:
  "repl_step wide_limits 512 584 ''/tmp'' (run_manager (Some 1)) (Executed run_key (Inr (run_result 2))) (run_manager (Some 2)) \<and>
   runner_of run_key (run_manager (Some 2)) = runner_of run_key (run_manager (Some 1)) \<and> runner_of run_key (run_manager (Some 1)) \<noteq> None \<and>
   \<not> er_StateReset (run_result 2)"
  using repl_continuity[OF run_reachable run_steps(2) repl_path.stays _ _ run_steps(3)] run_steps(3)
  by (simp add: run_manager_def repl_newManager_def run_result_def execute_result_def)

lemma run_path:
  "repl_path wide_limits 512 584 ''/tmp'' repl_newManager [LookedUp run_key [], Executed run_key (Inr (run_result 1))] (run_manager (Some 1))"
  using repl_path.steps[OF repl_path.steps[OF repl_path.stays run_steps(1)] run_steps(2)] by simp


definition run_close :: close_env where
  "run_close = \<lparr>cl_gate = None, cl_cause = Canceled,
     cl_terminate = Some \<lparr>te_term_failed = False, te_kill_failed = False, te_control_failed = False, te_status = Some reaped_stream, te_exited = True\<rparr>,
     cl_ctx = None, cl_remove = run_remove\<rparr>"

definition run_closing :: repl_manager where
  "run_closing = repl_close_next run_close 0 (snd (repl_close_begin [run_key] 0 (run_manager (Some 1))))"

definition run_closed :: repl_manager where
  "run_closed = snd (repl_close_finish 0 run_closing)"

lemma run_close_session:
  "closeSession run_close ((run_session 1)\<lparr>os_lifecycle := False\<rparr>) run_world =
     ([], (run_session 1)\<lparr>os_lifecycle := False, os_venv := None, os_runner := None, os_closed := True\<rparr>,
      \<lparr>w_dirs = {}, w_creators = {}, w_runners = {}, w_next = 1\<rparr>)"
  by (simp add: closeSession_def run_close_def run_session_def newOwnerSession_def resetRunner_def coordinateTermination_def run_process_def reaped_def
      reaped_stream_status removeVenv_def run_venv_def run_remove_def run_world_def Let_def)

lemma run_closing_state:
  "rm_closers run_closing 0 = Some ([], [])" "rm_world run_closing = \<lparr>w_dirs = {}, w_creators = {}, w_runners = {}, w_next = 1\<rparr>"
  by (simp_all add: run_closing_def repl_close_begin_def repl_close_next_def run_manager_def repl_newManager_def run_close_session set_session_def)

lemma run_closed_state: "rm_closed run_closed" "repl_close_finish 0 run_closing = ([], run_closed)"
  by (simp_all add: run_closed_def repl_close_finish_def run_closing_state Let_def)

lemma run_closing_reachable: "repl_reachable wide_limits 512 584 ''/tmp'' run_closing"
proof -
  have "repl_step wide_limits 512 584 ''/tmp'' (run_manager (Some 1)) CloseRuns (snd (repl_close_begin [run_key] 0 (run_manager (Some 1))))"
    by (rule repl_step.close_begins[where c = 0 and order = "[run_key]"]) (simp_all add: run_manager_def repl_newManager_def repl_close_begin_def)
  from repl_path.steps[OF run_path this]
  have "repl_path wide_limits 512 584 ''/tmp'' repl_newManager ([LookedUp run_key [], Executed run_key (Inr (run_result 1))] @ [CloseRuns] @ [CloseRuns]) run_closing"
    using repl_path.steps repl_step.close_continues unfolding run_closing_def by fastforce
  then show ?thesis by (auto simp: repl_reachable_def wide_limits_def)
qed

theorem repl_closed_clean_witness:
  "repl_step wide_limits 512 584 ''/tmp'' run_closing (CloseReturns []) run_closed \<and> rm_closed run_closed \<and>
   w_dirs (rm_world run_closed) = {} \<and> w_runners (rm_world run_closed) = {} \<and> w_runners (rm_world (run_manager (Some 1))) \<noteq> {}"
proof -
  have ret: "repl_step wide_limits 512 584 ''/tmp'' run_closing (CloseReturns []) run_closed"
    by (rule repl_step.close_returns[OF run_closing_state(1) run_closed_state(2)])
  from repl_closed_clean[OF run_closing_reachable this] ret show ?thesis by (simp add: run_manager_def run_world_def)
qed

end
