(* ===== verification/Spec2Isabelle.thy ===== *)
theory Spec2Isabelle
  imports Delegate Askuser Websearch Workspace Jobs_Tools Rtk_Mount Guard_Tool Repl_Manager
begin

text \<open>
  A model of the nine extensions of this repository for the eino-agent runtime, and what makes each of them
  correct. The extensions do not call each other; each is mounted into a host, which calls its
  handlers with a context and closes it. What they share is the Go standard library and a few patterns.

  \<^bold>\<open>Shared ground.\<close>
  Prelude has slices, maps, 64-bit wrap-around and contexts; Utf8 the decoding of runes and the parts
  of unicode/utf8 and strings in use; GoJson string quoting, numbers and the syntax check of encoding/json; Json_Stream
  the values, the token decoder and struct decoding; Json_Encode the encoder with its round trip, proved in the locale
  string_writer, which Go's encoder and Python's json.dumps both interpret; Unique_Keys the duplicate-key walk that
  several packages carry; Go_Path Clean, Join, Rel and Abs; Go_Regexp the leftmost-first matcher.
  Coordinator holds the admission protocol of the callback coordinators as a locale, and the loop that waits for a
  callback with a deadline; four packages interpret it on their own definitions.

  \<^bold>\<open>Callbacks of the host.\<close>
  Delegate (delegatetask), Askuser (askuser), Websearch (websearch) and Workspace (workspaceinstructions) model
  options and limits, normalizers, the coordinator and the handler. The lemmas show that results are
  bounded and fit what is retained, that inputs are normalized to a form that decodes to the same value and is
  normalized to itself, and that a coordinator never exceeds its capacity and closes only when idle; the
  theorem of this file states the last for all four.

  \<^bold>\<open>Transforms of tool results.\<close>
  Redactor_Scan, Redactor and Redactor_Json (toolresultredactor): the rules, the merge of overlapping matches against a
  reference definition, the scan of one string, the walk over structured output as a
  refinement of redacting every string of the parsed value, cancellation. Rtk_Json, Rtk_Config, Rtk_Transform,
  Rtk_Process and Rtk_Mount (rtkreducer): the scanner of top-level strings, options, the transform as a refinement of
  replacing selected strings, captures, the process coordinator as interleaved sections, and the checks of a mount.

  \<^bold>\<open>Command guard.\<close>
  Guard_Policy, Guard, Guard_Sound, Guard_Input and Guard_Tool (commandguard): policy and words, the syntax walk with
  wrappers and nested scripts, an inductive specification of what an abstention admits, the walk over the input, and
  the guarded call with its permits and errors.

  \<^bold>\<open>Background jobs.\<close>
  Jobs_Tail (tail.go), Jobs (job.go, supervisor.go), Jobs_Manager (manager.go), Jobs_Config and Jobs_Tools (config.go,
  tools.go, executor.go, workspace.go). A definition is one section under a mutex; job_step and mgr_step interleave
  them in every order, and close_step runs one call of Close, wait by wait up to what it returns, among all of that;
  each of its sections refines a step of the manager. Shown: the life of a job, the bounds of the manager, isolation
  of owners, what holds after Close has returned nil or an error, that every result fits its retention, the
  frozen environment, and that a start runs below its workspace root.

  \<^bold>\<open>Python interpreter.\<close>
  Repl_Gate (session.go, the gate, with gate_run counting how often it is given up), Repl_Frame (runner.go: frames, and the Python code that bounds and writes
  responses), Repl_Runner (runner_unix.go), Repl_Config (config.go, tools.go, executor.go) and Repl_Manager (manager.go,
  session.go, venv.go, venv_unix.go). The gate is exclusive and fair, so that what execute, clear and close do behind it
  is one function of the session each, and repl_step interleaves those with the lookups and the sections of Close.
  Shown: both sides of the protocol agree, a success answers its own request, a process counts as gone only when it
  is, no directory or process is ever lost (the locale pool, interpreted for directories, creators and
  runners), a manager whose Close returned nil holds nothing, and the generation in a result says whether the interpreter is the same.

  \<^bold>\<open>Correspondence.\<close>
  A definition has the name of the Go function or type it translates; where two packages use the same name one has
  a prefix (del, ask, search, ws, rtk, cg, bj, repl). Structs are records, errors are values (a sum with the error on
  the left, or a list of the joined errors), int and int64 are integers with the wrap-around written out where
  the code does not exclude it, uint64 counters are 64-bit words, strings are lists of bytes. Maps are association
  lists or functions; an iteration over a map takes its order as an argument. What the operating system, the clock,
  a context or a select answers is a field of an environment record or an argument, so theorems hold for
  every answer.

  \<^bold>\<open>Fuel and termination.\<close>
  Recursions on the input that are not structural have measures. Mutually recursive scanners take fuel: two
  units per byte and one more, shown to be enough by parse_fuel (Json_Stream), walk_enough_fuel (Redactor),
  os_enough_fuel (Rtk_Json), in_value_fuel (Guard_Input) and consume_value (Unique_Keys), so the branch of exhausted fuel is
  never taken where the code calls them.

  \<^bold>\<open>Not modelled.\<close>
  The registration calls of the mount.go files, configHash and the JSON schemas call the eino-agent framework and
  hashes. The shell parser, url.Parse, the parser of regular expressions and the scope check of the framework are third
  party and enter as arguments. The system calls behind processes, pipes and signals are answers. The Python
  supervisor script, the request loop and evaluation in the Python runner, the test hooks and the example programs are
  left out. Contexts and timers are not given a duration: a deadline is one of the answers a select may get.
\<close>

section \<open>The four coordinators\<close>

lemmas new_coordinators = del_newCoordinator_def del_core_def del_cap_def ask_newCoordinator_def ask_core_def ask_cap_def
  search_newCoordinator_def search_core_def search_cap_def ws_newCoordinator_def ws_core_def ws_cap_def coordinator_core

text \<open>
  C20: delegate_task, ask_user, web_search and the workspace provider each admit calls through
  their own coordinator. Whatever sequence of admissions, releases and closes the callers,
  their callbacks and the owner perform from a new coordinator, in each of the four the number
  of live calls is the number of registered cancels and never above the configured capacity,
  identities stay distinct, done is signalled exactly when the coordinator is closing with no live call; while it
  is closing nothing is admitted, and once all live calls are released it is closed.
\<close>

theorem coordinators_served:
  assumes "0 \<le> del_MaxInFlight (del_limits o1)" and "0 \<le> ask_MaxInFlight (ask_limits o2)"
    and "0 \<le> search_MaxInFlight (search_limits o3)" and "0 \<le> ws_MaxInFlight (ws_limits o4)" and "n < 2 ^ 64"
    and "coord_reach del_acquire del_release del_Close_state (del_newCoordinator o1) n s1"
    and "coord_reach ask_acquire ask_release ask_Close_state (ask_newCoordinator o2) n s2"
    and "coord_reach search_acquire search_release search_Close_state (search_newCoordinator o3) n s3"
    and "coord_reach ws_acquire_id ws_release ws_Close_state (ws_newCoordinator o4) n s4"
  shows "coord_served del_acquire del_release del_core (del_MaxInFlight (del_limits o1)) n s1
    \<and> coord_served ask_acquire ask_release ask_core (ask_MaxInFlight (ask_limits o2)) n s2
    \<and> coord_served search_acquire search_release search_core (search_MaxInFlight (search_limits o3)) n s3
    \<and> coord_served ws_acquire_id ws_release ws_core (ws_MaxInFlight (ws_limits o4)) n s4"
proof (intro conjI)
  show "coord_served del_acquire del_release del_core (del_MaxInFlight (del_limits o1)) n s1"
    using del_adm.served [OF assms(6) _ assms(5)] assms(1) by (simp add: coord_ok_def new_coordinators)
  show "coord_served ask_acquire ask_release ask_core (ask_MaxInFlight (ask_limits o2)) n s2"
    using ask_adm.served [OF assms(7) _ assms(5)] assms(2) by (simp add: coord_ok_def new_coordinators)
  show "coord_served search_acquire search_release search_core (search_MaxInFlight (search_limits o3)) n s3"
    using search_adm.served [OF assms(8) _ assms(5)] assms(3) by (simp add: coord_ok_def new_coordinators)
  show "coord_served ws_acquire_id ws_release ws_core (ws_MaxInFlight (ws_limits o4)) n s4"
    using ws_adm.served [OF assms(9) _ assms(5)] assms(4) by (simp add: coord_ok_def new_coordinators)
qed

lemma coord_reach_one: "acq k s0 = (Some i, s) \<Longrightarrow> coord_reach acq rel cls s0 1 s"
  using coord_reach.admitted [OF coord_reach.start, of acq k s0 i s rel cls] by simp

theorem coordinators_served_witness:
  "\<exists>s1 s2 s3 s4. del_acquire (7::nat) (del_newCoordinator \<lparr>del_scope = (), del_order = 1, del_runnerIdentity = ''v'',
       del_limits = del_demo_limits, del_retention = 0\<rparr>) = (Some 1, s1)
     \<and> ask_acquire (7::nat) (ask_newCoordinator \<lparr>ask_scope = (), ask_order = 1, ask_responderIdentity = ''v'',
       ask_limits = ask_demo_limits, ask_retention = 0\<rparr>) = (Some 1, s2)
     \<and> search_acquire (7::nat) (search_newCoordinator \<lparr>search_scope = (), search_order = 1, search_searcherIdentity = ''v'',
       search_limits = search_demo_limits, search_retention = 0\<rparr>) = (Some 1, s3)
     \<and> ws_acquire_id (7::nat) (ws_newCoordinator \<lparr>ws_scope = (), ws_order = 1, ws_fileNames = [], ws_resolverIdentity = ''v'',
       ws_limits = ws_Limits ws_example_options\<rparr>) = (Some 1, s4)
     \<and> coord_served del_acquire del_release del_core (del_MaxInFlight del_demo_limits) 1 s1
     \<and> coord_served ask_acquire ask_release ask_core (ask_MaxInFlight ask_demo_limits) 1 s2
     \<and> coord_served search_acquire search_release search_core (search_MaxInFlight search_demo_limits) 1 s3
     \<and> coord_served ws_acquire_id ws_release ws_core (ws_MaxInFlight (ws_Limits ws_example_options)) 1 s4"
proof -
  let ?d = "\<lparr>del_scope = (), del_order = 1, del_runnerIdentity = ''v'', del_limits = del_demo_limits, del_retention = 0\<rparr>"
  let ?a = "\<lparr>ask_scope = (), ask_order = 1, ask_responderIdentity = ''v'', ask_limits = ask_demo_limits, ask_retention = 0\<rparr>"
  let ?s = "\<lparr>search_scope = (), search_order = 1, search_searcherIdentity = ''v'', search_limits = search_demo_limits, search_retention = 0\<rparr>"
  let ?w = "\<lparr>ws_scope = (), ws_order = 1, ws_fileNames = [], ws_resolverIdentity = ''v'', ws_limits = ws_Limits ws_example_options\<rparr>"
  obtain s1 where d: "del_acquire (7::nat) (del_newCoordinator ?d) = (Some 1, s1)"
    by (simp add: del_acquire_def del_newCoordinator_def del_demo_limits_def)
  obtain s2 where a: "ask_acquire (7::nat) (ask_newCoordinator ?a) = (Some 1, s2)"
    by (simp add: ask_acquire_def ask_newCoordinator_def ask_demo_limits_def)
  obtain s3 where s: "search_acquire (7::nat) (search_newCoordinator ?s) = (Some 1, s3)"
    by (simp add: search_acquire_def search_newCoordinator_def search_demo_limits_def)
  obtain s4 where w: "ws_acquire_id (7::nat) (ws_newCoordinator ?w) = (Some 1, s4)"
    by (simp add: ws_acquire_id_def ws_acquire_def ws_newCoordinator_def ws_example_options_def)
  note reach = coord_reach_one [where acq = del_acquire and rel = del_release and cls = del_Close_state, OF d]
    coord_reach_one [where acq = ask_acquire and rel = ask_release and cls = ask_Close_state, OF a]
    coord_reach_one [where acq = search_acquire and rel = search_release and cls = search_Close_state, OF s]
    coord_reach_one [where acq = ws_acquire_id and rel = ws_release and cls = ws_Close_state, OF w]
  have "0 \<le> del_MaxInFlight (del_limits ?d)" "0 \<le> ask_MaxInFlight (ask_limits ?a)"
    "0 \<le> search_MaxInFlight (search_limits ?s)" "0 \<le> ws_MaxInFlight (ws_limits ?w)" "(1::nat) < 2 ^ 64"
    by (simp_all add: del_demo_limits_def ask_demo_limits_def search_demo_limits_def ws_example_options_def)
  from coordinators_served [OF this reach] d a s w show ?thesis by auto
qed

end
